(* ===== verification/Prelude.thy ===== *)
theory Prelude
  imports Complex_Main
begin

text \<open>
  Shared ground of the development: the error values every component throws
  (\<open>src/src/errors.ts\<close>), the shape of a stateful operation, and the generic
  lemmas on lists and association lists.

  A JavaScript string without lone surrogates is represented by its UTF-8 encoding, a
  \<^typ>\<open>string\<close> of bytes. Then \<open>Buffer.byteLength\<close> is \<^const>\<open>length\<close>, a \<open>Buffer\<close> is a
  \<^typ>\<open>string\<close> too, and equality, prefixes, concatenation and every search for an ASCII
  delimiter are the same on both sides.
\<close>

section \<open>Automation collections\<close>

named_theorems step_defs \<open>definitions of the operations of a component\<close>
named_theorems inv_intros \<open>preservation of a component's invariant by its operations\<close>

section \<open>Errors\<close>

text \<open>The application codes of \<open>DATABASE_ERROR_CODES\<close>.\<close>

datatype err_code =
    UNKNOWN_STATEMENT | TABLE_EXISTS | TABLE_NOT_FOUND | COLUMN_NOT_FOUND
  | PRIMARY_KEY_CONSTRAINT | NOT_NULL_CONSTRAINT | TYPE_CONSTRAINT | DUPLICATE_COLUMN
  | ROW_ARITY | PARSE_ERROR | INVALID_VALUE | INVALID_CONFIG | PROTOCOL_ERROR
  | LIMIT_EXCEEDED | CONNECTION_CLOSED | TIMEOUT | TRANSACTION_ERROR
  | PERSISTENCE_ERROR | AUTH_ERROR | COMMAND_ERROR

text \<open>
  A thrown value: a \<open>DatabaseError\<close> with its code, or a plain \<open>Error\<close>. The string is the
  message with the interpolated values left out.
\<close>

datatype jserr = DbError err_code string | PlainError string

section \<open>Stateful operations\<close>

text \<open>
  A method returns a value or throws, and in both cases leaves a state: the mutations done
  before a \<open>throw\<close> stay visible. \<open>andThen\<close> is statement sequencing, which stops at the first
  throw.
\<close>

type_synonym 'a outcome = "jserr + 'a"
type_synonym ('s, 'a) act = "'s \<Rightarrow> 'a outcome \<times> 's"

definition andThen :: "('s, 'a) act \<Rightarrow> ('a \<Rightarrow> ('s, 'b) act) \<Rightarrow> ('s, 'b) act" where
  "andThen m f s = (case m s of (Inl e, s') \<Rightarrow> (Inl e, s') | (Inr a, s') \<Rightarrow> f a s')"

definition returns :: "'a \<Rightarrow> ('s, 'a) act" where
  "returns a s = (Inr a, s)"

definition throws :: "jserr \<Rightarrow> ('s, 'a) act" where
  "throws e s = (Inl e, s)"

definition modify :: "('s \<Rightarrow> 's) \<Rightarrow> ('s, unit) act" where
  "modify f s = (Inr (), f s)"

lemma returns_apply [simp]: "returns a s = (Inr a, s)"
  and throws_apply [simp]: "throws e s = (Inl e, s)"
  by (simp_all add: returns_def throws_def)

lemma modify_apply [simp]: "modify g s = (Inr (), g s)"
  by (simp add: modify_def)

lemma andThen_returns [simp]: "andThen (returns a) f = f a"
  and andThen_throws [simp]: "andThen (throws e) f = throws e"
  by (simp_all add: andThen_def fun_eq_iff)

lemma andThen_Inl [simp]: "m s = (Inl e, s') \<Longrightarrow> andThen m f s = (Inl e, s')"
  and andThen_Inr [simp]: "m s = (Inr a, s') \<Longrightarrow> andThen m f s = f a s'"
  by (simp_all add: andThen_def)

text \<open>A state predicate that an operation keeps, whether it returns or throws.\<close>

definition keeps :: "('s \<Rightarrow> bool) \<Rightarrow> ('s, 'a) act \<Rightarrow> bool" where
  "keeps P m \<longleftrightarrow> (\<forall>s. P s \<longrightarrow> P (snd (m s)))"

lemma keepsI [intro?]: "(\<And>s. P s \<Longrightarrow> P (snd (m s))) \<Longrightarrow> keeps P m"
  by (simp add: keeps_def)

lemma keepsD: "keeps P m \<Longrightarrow> P s \<Longrightarrow> P (snd (m s))"
  by (simp add: keeps_def)

lemma keeps_returns [inv_intros]: "keeps P (returns a)"
  and keeps_throws [inv_intros]: "keeps P (throws e)"
  by (simp_all add: keeps_def)

lemma keeps_andThen [inv_intros]:
  "keeps P m \<Longrightarrow> (\<And>a. keeps P (f a)) \<Longrightarrow> keeps P (andThen m f)"
  by (force simp: keeps_def andThen_def split: prod.splits sum.splits)

lemma keeps_modify [inv_intros]: "(\<And>s. P s \<Longrightarrow> P (f s)) \<Longrightarrow> keeps P (modify f)"
  by (simp add: keeps_def)

section \<open>Association lists in insertion order\<close>

text \<open>
  The reference semantics of a JavaScript \<open>Map\<close>: an association list in insertion order with
  distinct keys. Setting a present key keeps its place, a new key goes to the end.
\<close>

fun al_set :: "'k \<Rightarrow> 'v \<Rightarrow> ('k \<times> 'v) list \<Rightarrow> ('k \<times> 'v) list" where
  "al_set k v [] = [(k, v)]"
| "al_set k v ((k', v') # ps) = (if k = k' then (k, v) # ps else (k', v') # al_set k v ps)"

definition al_del :: "'k \<Rightarrow> ('k \<times> 'v) list \<Rightarrow> ('k \<times> 'v) list" where
  "al_del k ps = filter (\<lambda>p. fst p \<noteq> k) ps"

definition distinct_keys :: "('k \<times> 'v) list \<Rightarrow> bool" where
  "distinct_keys ps \<longleftrightarrow> distinct (map fst ps)"

lemma al_del_simps [simp]:
  "al_del k [] = []"
  "al_del k (p # ps) = (if fst p = k then al_del k ps else p # al_del k ps)"
  by (simp_all add: al_del_def)

lemma al_del_append [simp]: "al_del k (ps @ qs) = al_del k ps @ al_del k qs"
  by (simp add: al_del_def)

lemma map_of_al_set [simp]: "map_of (al_set k v ps) = (map_of ps)(k \<mapsto> v)"
  by (induction k v ps rule: al_set.induct) (auto simp: fun_eq_iff)

lemma map_of_al_del [simp]: "map_of (al_del k ps) = (map_of ps)(k := None)"
  by (induction ps) (auto simp: fun_eq_iff)

lemma set_al_del: "set (al_del k ps) = {p \<in> set ps. fst p \<noteq> k}"
  by (simp add: al_del_def)

lemma al_del_notin [simp]: "k \<notin> fst ` set ps \<Longrightarrow> al_del k ps = ps"
  by (induction ps) auto

lemma al_set_notin: "k \<notin> fst ` set ps \<Longrightarrow> al_set k v ps = ps @ [(k, v)]"
  by (induction k v ps rule: al_set.induct) auto

lemma fst_al_set: "fst ` set (al_set k v ps) = insert k (fst ` set ps)"
  by (induction k v ps rule: al_set.induct) auto

lemma map_fst_al_set: "k \<in> fst ` set ps \<Longrightarrow> map fst (al_set k v ps) = map fst ps"
  by (induction k v ps rule: al_set.induct) auto

lemma distinct_keys_Nil [simp]: "distinct_keys []"
  by (simp add: distinct_keys_def)

lemma distinct_keys_al_del [simp]: "distinct_keys ps \<Longrightarrow> distinct_keys (al_del k ps)"
  by (induction ps) (auto simp: distinct_keys_def set_al_del)

lemma distinct_keys_al_set [simp]: "distinct_keys ps \<Longrightarrow> distinct_keys (al_set k v ps)"
  by (cases "k \<in> fst ` set ps") (auto simp: distinct_keys_def map_fst_al_set al_set_notin)

lemma map_of_in_set: "map_of ps k = Some v \<Longrightarrow> (k, v) \<in> set ps"
  by (rule map_of_SomeD)

lemma map_of_distinct_in: "distinct_keys ps \<Longrightarrow> (k, v) \<in> set ps \<Longrightarrow> map_of ps k = Some v"
  by (simp add: distinct_keys_def)

lemma map_of_None_iff: "map_of ps k = None \<longleftrightarrow> k \<notin> fst ` set ps"
  by (simp add: map_of_eq_None_iff)

lemma al_del_split:
  "distinct_keys (xs @ (k, v) # ys) \<Longrightarrow> al_del k (xs @ (k, v) # ys) = xs @ ys"
  by (force simp: distinct_keys_def)

lemma al_set_split:
  "distinct_keys (xs @ (k, w) # ys) \<Longrightarrow> al_set k v (xs @ (k, w) # ys) = xs @ (k, v) # ys"
  by (induction xs) (auto simp: distinct_keys_def)

lemma length_al_del:
  "distinct_keys ps \<Longrightarrow> length (al_del k ps) = (if k \<in> fst ` set ps then length ps - 1 else length ps)"
proof (induction ps)
  case (Cons p ps)
  then show ?case
    by (cases "fst p = k") (auto simp: distinct_keys_def dest: length_pos_if_in_set)
qed simp

text \<open>Sum of a measure over the entries, and how it moves with an update.\<close>

definition al_sum :: "('v \<Rightarrow> int) \<Rightarrow> ('k \<times> 'v) list \<Rightarrow> int" where
  "al_sum f ps = sum_list (map (f \<circ> snd) ps)"

lemma al_sum_simps [simp]:
  "al_sum f [] = 0"
  "al_sum f (p # ps) = f (snd p) + al_sum f ps"
  "al_sum f (ps @ qs) = al_sum f ps + al_sum f qs"
  by (simp_all add: al_sum_def)

lemma al_sum_del:
  "distinct_keys ps \<Longrightarrow> map_of ps k = Some v \<Longrightarrow> al_sum f (al_del k ps) = al_sum f ps - f v"
  by (induction ps) (auto simp: distinct_keys_def split: if_splits)

text \<open>
  Sequencing of computations that return or throw and keep no state: \<open>chain\<close> is statement
  sequencing, \<open>mapO\<close> and \<open>filterO\<close> are loops that stop at the first throw.
\<close>

definition chain :: "'a outcome \<Rightarrow> ('a \<Rightarrow> 'b outcome) \<Rightarrow> 'b outcome" where
  "chain r f = (case r of Inl e \<Rightarrow> Inl e | Inr a \<Rightarrow> f a)"

lemma chain_simps [simp]: "chain (Inl e) f = Inl e" "chain (Inr a) f = f a"
  by (simp_all add: chain_def)

lemma chain_Inr: "chain r f = Inr b \<longleftrightarrow> (\<exists>a. r = Inr a \<and> f a = Inr b)"
  by (cases r) auto

lemma chain_Inl: "chain r f = Inl e \<longleftrightarrow> r = Inl e \<or> (\<exists>a. r = Inr a \<and> f a = Inl e)"
  by (cases r) auto

lemma chain_cong [fundef_cong]:
  "r = r' \<Longrightarrow> (\<And>a. r' = Inr a \<Longrightarrow> f a = g a) \<Longrightarrow> chain r f = chain r' g"
  by (cases r') auto

fun mapO :: "('a \<Rightarrow> 'b outcome) \<Rightarrow> 'a list \<Rightarrow> 'b list outcome" where
  "mapO f [] = Inr []"
| "mapO f (x # xs) = chain (f x) (\<lambda>y. chain (mapO f xs) (\<lambda>ys. Inr (y # ys)))"

fun filterO :: "('a \<Rightarrow> bool outcome) \<Rightarrow> 'a list \<Rightarrow> 'a list outcome" where
  "filterO f [] = Inr []"
| "filterO f (x # xs) = chain (f x) (\<lambda>b. chain (filterO f xs) (\<lambda>ys. Inr (if b then x # ys else ys)))"

lemma mapO_cong [fundef_cong]:
  "xs = ys \<Longrightarrow> (\<And>x. x \<in> set ys \<Longrightarrow> f x = g x) \<Longrightarrow> mapO f xs = mapO g ys"
  by (induction ys arbitrary: xs) auto

lemma mapO_Inr: "mapO f xs = Inr ys \<longleftrightarrow> list_all2 (\<lambda>x y. f x = Inr y) xs ys"
proof (induction xs arbitrary: ys)
  case Nil
  show ?case by (cases ys) simp_all
next
  case (Cons x xs)
  then show ?case by (cases ys) (simp_all add: chain_Inr)
qed

lemma filterO_Inr:
  "filterO f xs = Inr ys \<longleftrightarrow> (\<forall>x \<in> set xs. \<exists>b. f x = Inr b) \<and> ys = filter (\<lambda>x. f x = Inr True) xs"
proof (induction xs arbitrary: ys)
  case (Cons x xs)
  show ?case
  proof (cases "f x")
    case (Inr b)
    then show ?thesis by (simp add: chain_Inr Cons.IH) blast
  qed simp
qed auto

end
