(* ===== verification/Js_Number.thy ===== *)
theory Js_Number
  imports Prelude
begin

text \<open>
  JavaScript numbers. A finite double is the rational it denotes (\<open>-0\<close> and \<open>0\<close> are one
  value: no operation of the program tells them apart once \<open>cloneJsonValue\<close> has run); a number that
  still has to be validated is a \<open>jsnum\<close>, which also has the two infinities and NaN. Sums
  are rounded to the nearest double, ties to even. This theory also models the checks of
  \<open>src/src/validation.ts\<close> on numbers and the text \<open>String(x)\<close> of a number.
\<close>

datatype jsnum = Fin rat | PosInf | NegInf | NaN

definition max_safe :: rat where
  "max_safe = 9007199254740991"

section \<open>Rounding to a double\<close>

definition round_half_even :: "rat \<Rightarrow> int" where
  "round_half_even x =
     (let f = \<lfloor>x\<rfloor>; r = x - of_int f in
      if r < 1 / 2 then f else if r > 1 / 2 then f + 1 else if even f then f else f + 1)"

function bitlen :: "int \<Rightarrow> int" where
  "bitlen n = (if n \<le> 0 then 0 else 1 + bitlen (n div 2))"
  by pat_completeness auto
termination
  by (relation "measure nat") auto

declare bitlen.simps [simp del]

definition scale2 :: "rat \<Rightarrow> int \<Rightarrow> rat" where
  "scale2 x e = (if 0 \<le> e then x * 2 ^ nat e else x / 2 ^ nat (- e))"

text \<open>
  The exponent \<open>e\<close> with \<open>2 ^ 52 \<le> \<bar>x\<bar> / 2 ^ e < 2 ^ 53\<close>, but at least \<open>-1074\<close> (subnormals).
\<close>

definition double_exp :: "rat \<Rightarrow> int" where
  "double_exp x =
     (let (p, q) = quotient_of \<bar>x\<bar>;
          e = bitlen p - bitlen q - 53;
          e' = (if scale2 \<bar>x\<bar> (- e) < 2 ^ 53 then e else e + 1)
      in max e' (- 1074))"

definition to_double :: "rat \<Rightarrow> jsnum" where
  "to_double x =
     (if x = 0 then Fin 0
      else let e = double_exp x;
               y = scale2 (of_int (round_half_even (scale2 \<bar>x\<bar> (- e)))) e
           in if y \<ge> 2 ^ 1024 then (if x < 0 then NegInf else PosInf)
              else Fin (if x < 0 then - y else y))"

text \<open>The sum of two finite doubles, and negation.\<close>

definition js_add :: "rat \<Rightarrow> rat \<Rightarrow> jsnum" where
  "js_add a b = to_double (a + b)"

fun js_neg :: "jsnum \<Rightarrow> jsnum" where
  "js_neg (Fin x) = Fin (- x)"
| "js_neg PosInf = NegInf"
| "js_neg NegInf = PosInf"
| "js_neg NaN = NaN"

text \<open>Integers up to \<open>2 ^ 53\<close> are exact, so sums in the safe range are exact.\<close>

lemma bitlen_0 [simp]: "bitlen 0 = 0"
  by (subst bitlen.simps) simp

lemma bitlen_1 [simp]: "bitlen 1 = 1"
  by (subst bitlen.simps) simp

lemma bitlen_le: "n < 2 ^ k \<Longrightarrow> bitlen n \<le> int k"
proof (induction k arbitrary: n)
  case 0
  then show ?case by (subst bitlen.simps) simp
next
  case (Suc k)
  then have "n div 2 < 2 ^ k" by simp
  from Suc.IH [OF this] show ?case by (subst bitlen.simps) simp
qed

lemma round_half_even_int [simp]: "round_half_even (of_int i) = i"
  by (simp add: round_half_even_def)

lemma quotient_of_abs_int: "quotient_of \<bar>rat_of_int n\<bar> = (\<bar>n\<bar>, 1)"
  using Rat.quotient_of_int [of "\<bar>n\<bar>"] by (simp add: Rat.of_int_def)

lemma double_exp_int:
  assumes "\<bar>n\<bar> \<le> 2 ^ 53"
  shows "double_exp (of_int n) \<le> 1" and "\<bar>n\<bar> < 2 ^ 53 \<Longrightarrow> double_exp (of_int n) \<le> 0"
    and "- 1074 \<le> double_exp (of_int n)"
proof -
  let ?e = "bitlen \<bar>n\<bar> - 54"
  have exp: "double_exp (of_int n) =
      max (if scale2 \<bar>of_int n\<bar> (- ?e) < 2 ^ 53 then ?e else ?e + 1) (- 1074)"
    by (simp add: double_exp_def quotient_of_abs_int)
  have "\<bar>n\<bar> < 2 ^ 54" using assms by simp
  from bitlen_le [OF this] have "bitlen \<bar>n\<bar> \<le> 54" by simp
  then show "double_exp (of_int n) \<le> 1" by (simp add: exp)
  show "- 1074 \<le> double_exp (of_int n)" by (simp add: exp)
  assume "\<bar>n\<bar> < 2 ^ 53"
  from bitlen_le [OF this] have "bitlen \<bar>n\<bar> \<le> 53" by simp
  then show "double_exp (of_int n) \<le> 0" by (simp add: exp)
qed

lemma to_double_int:
  assumes "\<bar>n\<bar> \<le> 2 ^ 53"
  shows "to_double (of_int n) = Fin (of_int n)"
proof (cases "n = 0")
  case False
  let ?e = "double_exp (of_int n)"
  have big: "\<bar>rat_of_int n\<bar> < 2 ^ 1024"
  proof -
    have "\<bar>n\<bar> < 2 ^ 1024" using assms by (rule order.strict_trans1) simp
    then have "rat_of_int \<bar>n\<bar> < rat_of_int (2 ^ 1024)" by (simp only: of_int_less_iff)
    then show ?thesis by simp
  qed
  have "\<exists>i. scale2 \<bar>rat_of_int n\<bar> (- ?e) = of_int i \<and> scale2 (of_int i) ?e = \<bar>rat_of_int n\<bar>"
  proof (cases "?e \<le> 0")
    case True
    then have "scale2 \<bar>rat_of_int n\<bar> (- ?e) = of_int (\<bar>n\<bar> * 2 ^ nat (- ?e))"
      by (simp add: scale2_def)
    moreover have "scale2 (of_int (\<bar>n\<bar> * 2 ^ nat (- ?e))) ?e = \<bar>rat_of_int n\<bar>"
      using True by (simp add: scale2_def)
    ultimately show ?thesis by blast
  next
    case False
    then have e1: "?e = 1" using double_exp_int(1) [OF assms] by linarith
    with double_exp_int(2) [OF assms] assms have n: "\<bar>n\<bar> = 2 ^ 53" by fastforce
    then have "\<bar>rat_of_int n\<bar> = 2 ^ 53"
      by (metis of_int_abs of_int_numeral of_int_power)
    then have "scale2 \<bar>rat_of_int n\<bar> (- ?e) = of_int (2 ^ 52) \<and>
        scale2 (of_int (2 ^ 52)) ?e = \<bar>rat_of_int n\<bar>"
      by (simp add: e1 scale2_def)
    then show ?thesis by blast
  qed
  then obtain i where "scale2 \<bar>rat_of_int n\<bar> (- ?e) = of_int i"
    and "scale2 (of_int i) ?e = \<bar>rat_of_int n\<bar>" by blast
  then show ?thesis using False big by (auto simp: to_double_def Let_def)
qed (simp add: to_double_def)

lemma js_add_safe: "\<bar>a + b\<bar> \<le> 2 ^ 53 \<Longrightarrow> js_add (of_int a) (of_int b) = Fin (of_int (a + b))"
  using to_double_int [of "a + b"] by (simp add: js_add_def)

text \<open>A number up to \<open>2 ^ 53\<close> in absolute value rounds to a finite double.\<close>

lemma bitlen_nonneg: "0 \<le> bitlen n"
proof (induction n rule: bitlen.induct)
  case (1 n)
  then show ?case by (subst bitlen.simps) simp
qed

lemma bitlen_ge: "0 < n \<Longrightarrow> 2 ^ nat (bitlen n - 1) \<le> n"
proof (induction n rule: bitlen.induct)
  case (1 n)
  show ?case
  proof (cases "n = 1")
    case False
    with 1 have n: "0 < n div 2" "\<not> n \<le> 0" by auto
    have pos: "1 \<le> bitlen (n div 2)" by (subst bitlen.simps) (use n in \<open>auto simp: bitlen_nonneg\<close>)
    have "bitlen n - 1 = bitlen (n div 2)" by (subst bitlen.simps) (use n in simp)
    then have "nat (bitlen n - 1) = Suc (nat (bitlen (n div 2) - 1))" using pos by simp
    with 1 n show ?thesis by simp
  qed simp
qed

lemma bitlen_less: "n < 2 ^ nat (bitlen n)"
proof (induction n rule: bitlen.induct)
  case (1 n)
  show ?case
  proof (cases "n \<le> 0")
    case False
    with 1 have "n div 2 < 2 ^ nat (bitlen (n div 2))" by simp
    moreover have "nat (bitlen n) = Suc (nat (bitlen (n div 2)))"
      by (subst bitlen.simps) (use False bitlen_nonneg [of "n div 2"] in simp)
    ultimately show ?thesis by simp
  qed (simp add: le_less_trans)
qed

lemma double_exp_le:
  assumes "\<bar>x\<bar> \<le> 2 ^ 53"
  shows "double_exp x \<le> 2"
proof -
  obtain p q where pq: "quotient_of \<bar>x\<bar> = (p, q)" by (cases "quotient_of \<bar>x\<bar>")
  then have q: "0 < q" and x: "\<bar>x\<bar> = of_int p / of_int q"
    by (auto simp: quotient_of_denom_pos quotient_of_div)
  have "bitlen p - bitlen q \<le> 54"
  proof (rule ccontr)
    assume "\<not> ?thesis"
    then have big: "bitlen p - 1 \<ge> bitlen q + 54" by simp
    then have "0 < p" using bitlen_nonneg [of q] by (subst (asm) bitlen.simps) (auto split: if_splits)
    have "2 ^ nat (bitlen q) * 2 ^ 54 = (2 :: int) ^ nat (bitlen q + 54)"
      using bitlen_nonneg [of q] by (simp add: nat_add_distrib power_add)
    also have "\<dots> \<le> 2 ^ nat (bitlen p - 1)" using big by (intro power_increasing) auto
    also have "\<dots> \<le> p" using bitlen_ge \<open>0 < p\<close> by simp
    finally have "2 ^ nat (bitlen q) * 2 ^ 54 \<le> p" .
    moreover have "rat_of_int p \<le> rat_of_int (2 ^ 53 * q)"
      using assms x q by (simp add: divide_le_eq mult.commute)
    then have "p \<le> 2 ^ 53 * q" by (simp only: of_int_le_iff)
    moreover have "q < 2 ^ nat (bitlen q)" by (rule bitlen_less)
    ultimately show False using q by (simp; linarith)
  qed
  then show ?thesis by (auto simp: double_exp_def pq Let_def)
qed

lemma round_half_even_le: "of_int (round_half_even x) \<le> x + 1"
  unfolding round_half_even_def Let_def by (auto, linarith+)

lemma scale2_mono: "x \<le> y \<Longrightarrow> scale2 x e \<le> scale2 y e"
  by (auto simp: scale2_def intro: mult_right_mono divide_right_mono)

lemma scale2_add: "scale2 (x + y) e = scale2 x e + scale2 y e"
  by (simp add: scale2_def algebra_simps add_divide_distrib)

lemma scale2_inverse [simp]: "scale2 (scale2 x (- e)) e = x"
  by (simp add: scale2_def)

lemma to_double_finite:
  assumes "\<bar>x\<bar> \<le> 2 ^ 53"
  shows "\<exists>y. to_double x = Fin y"
proof -
  let ?e = "double_exp x"
  have "scale2 1 ?e \<le> 4"
  proof (cases "0 \<le> ?e")
    case True
    then have "(2 :: rat) ^ nat ?e \<le> 2 ^ 2" using double_exp_le [OF assms] by (intro power_increasing) auto
    with True show ?thesis by (simp add: scale2_def)
  next
    case False
    moreover have "(1 :: rat) \<le> 2 ^ nat (- ?e)" by (rule one_le_power) simp
    then have "(1 :: rat) \<le> 4 * 2 ^ nat (- ?e)" by linarith
    ultimately show ?thesis by (simp add: scale2_def divide_le_eq)
  qed
  moreover have "scale2 (of_int (round_half_even (scale2 \<bar>x\<bar> (- ?e)))) ?e \<le> \<bar>x\<bar> + scale2 1 ?e"
    using scale2_mono [OF round_half_even_le, of "scale2 \<bar>x\<bar> (- ?e)" ?e] by (simp add: scale2_add)
  ultimately have "scale2 (of_int (round_half_even (scale2 \<bar>x\<bar> (- ?e)))) ?e \<le> 2 ^ 53 + 4"
    using assms by linarith
  also have "\<dots> < (2 :: rat) ^ 1024"
  proof -
    have "(2 :: rat) ^ 53 + 4 < 2 ^ 54" by simp
    also have "\<dots> \<le> 2 ^ 1024" by (intro power_increasing) auto
    finally show ?thesis .
  qed
  finally show ?thesis by (auto simp: to_double_def Let_def)
qed

text \<open>The rational of a finite number.\<close>

definition fin_of :: "jsnum \<Rightarrow> rat" where
  "fin_of n = (case n of Fin x \<Rightarrow> x | _ \<Rightarrow> 0)"

lemma fin_of_Fin [simp]: "fin_of (Fin x) = x"
  by (simp add: fin_of_def)

lemma js_add_finite: "\<bar>a + b\<bar> \<le> 2 ^ 53 \<Longrightarrow> js_add a b = Fin (fin_of (js_add a b))"
  using to_double_finite [of "a + b"] by (auto simp: js_add_def)

section \<open>The number checks of validation.ts\<close>

definition is_safe_integer :: "jsnum \<Rightarrow> bool" where
  "is_safe_integer n =
     (case n of Fin x \<Rightarrow> of_int \<lfloor>x\<rfloor> = x \<and> \<bar>x\<bar> \<le> max_safe | _ \<Rightarrow> False)"

definition validateFiniteNumber :: "jsnum \<Rightarrow> rat outcome" where
  "validateFiniteNumber v =
     (case v of Fin x \<Rightarrow> Inr x | _ \<Rightarrow> Inl (PlainError ''must be a finite number''))"

definition validateNonNegativeNumber :: "jsnum \<Rightarrow> rat outcome" where
  "validateNonNegativeNumber v =
     (case v of
        Fin x \<Rightarrow> if x < 0 then Inl (PlainError ''must be a finite number >= 0'') else Inr x
      | _ \<Rightarrow> Inl (PlainError ''must be a finite number >= 0''))"

definition validateSafeInteger ::
    "jsnum \<Rightarrow> rat option \<Rightarrow> rat option \<Rightarrow> rat outcome" where
  "validateSafeInteger v lo hi =
     (case v of
        Fin x \<Rightarrow>
          if \<not> is_safe_integer v \<or> (case lo of None \<Rightarrow> False | Some m \<Rightarrow> x < m)
             \<or> (case hi of None \<Rightarrow> False | Some m \<Rightarrow> x > m)
          then Inl (PlainError ''must be a safe integer'') else Inr x
      | _ \<Rightarrow> Inl (PlainError ''must be a safe integer''))"

definition validatePositiveSafeInteger :: "jsnum \<Rightarrow> rat option \<Rightarrow> rat outcome" where
  "validatePositiveSafeInteger v hi = validateSafeInteger v (Some 1) hi"

definition validateNonNegativeSafeInteger :: "jsnum \<Rightarrow> rat outcome" where
  "validateNonNegativeSafeInteger v = validateSafeInteger v (Some 0) None"

definition validatePort :: "jsnum \<Rightarrow> rat outcome" where
  "validatePort v =
     (case validateSafeInteger v (Some 0) None of
        Inl e \<Rightarrow> Inl e
      | Inr port \<Rightarrow>
          if port > 65535 then Inl (PlainError ''must be between 0 and 65535'') else Inr port)"

definition max_timeout_ms :: rat where
  "max_timeout_ms = 2147483647"

definition validateTimeout :: "jsnum \<Rightarrow> rat outcome" where
  "validateTimeout v =
     (case validateNonNegativeNumber v of
        Inl e \<Rightarrow> Inl e
      | Inr t \<Rightarrow>
          if t > max_timeout_ms then Inl (PlainError ''must be <= 2147483647 ms'') else Inr t)"

lemma validateNonNegativeNumber_Inr:
  "validateNonNegativeNumber v = Inr x \<longleftrightarrow> v = Fin x \<and> 0 \<le> x"
  by (auto simp: validateNonNegativeNumber_def split: jsnum.splits if_splits)

lemma validateSafeInteger_Inr:
  "validateSafeInteger v lo hi = Inr x \<longleftrightarrow>
     v = Fin x \<and> is_safe_integer v \<and> (\<forall>m. lo = Some m \<longrightarrow> m \<le> x) \<and> (\<forall>m. hi = Some m \<longrightarrow> x \<le> m)"
  by (auto simp: validateSafeInteger_def split: jsnum.splits if_splits option.splits)

end
