(* ===== verification/Json_Value.thy ===== *)
theory Json_Value
  imports Js_Number
begin

text \<open>
  JSON values (\<open>src/src/types.ts\<close>), their size and their text \<open>JSON.stringify(v)\<close>. An object is the
  list of its own properties in \<open>Object.keys\<close> order. Values that are no JSON trees (\<open>undefined\<close>,
  cycles, accessors, sparse arrays) are outside the type.
\<close>

section \<open>Values\<close>

datatype json =
    JNull
  | JBool bool
  | JNum rat
  | JStr string
  | JArr "json list"
  | JObj "(string \<times> json) list"

lemma json_induct [case_names JNull JBool JNum JStr JArr JObj]:
  assumes "P JNull" "\<And>b. P (JBool b)" "\<And>n. P (JNum n)" "\<And>s. P (JStr s)"
    and "\<And>xs. (\<And>x. x \<in> set xs \<Longrightarrow> P x) \<Longrightarrow> P (JArr xs)"
    and "\<And>ps. (\<And>p. p \<in> set ps \<Longrightarrow> P (snd p)) \<Longrightarrow> P (JObj ps)"
  shows "P v"
  by (induction v) (auto intro: assms)

lemma size_field [termination_simp]:
  "p \<in> set ps \<Longrightarrow> size (snd p) < Suc (size_list (size_prod f size) ps)"
  by (induction ps) (auto simp: less_Suc_eq_le trans_le_add2 le_SucI split: prod.splits)

text \<open>Objects have distinct property names, at every depth.\<close>

fun json_wf :: "json \<Rightarrow> bool" where
  "json_wf (JArr xs) = (\<forall>x \<in> set xs. json_wf x)"
| "json_wf (JObj ps) = (distinct_keys ps \<and> (\<forall>p \<in> set ps. json_wf (snd p)))"
| "json_wf _ = True"

fun node_count :: "json \<Rightarrow> nat" where
  "node_count (JArr xs) = Suc (sum_list (map node_count xs))"
| "node_count (JObj ps) = Suc (sum_list (map (\<lambda>p. node_count (snd p)) ps))"
| "node_count _ = 1"

fun json_depth :: "json \<Rightarrow> nat" where
  "json_depth (JArr xs) = foldr max (map (\<lambda>x. Suc (json_depth x)) xs) 0"
| "json_depth (JObj ps) = foldr max (map (\<lambda>p. Suc (json_depth (snd p))) ps) 0"
| "json_depth _ = 0"

lemma node_count_pos [simp]: "0 < node_count v"
  by (cases v) auto

section \<open>The text of a value\<close>

function digits_rev :: "int \<Rightarrow> string" where
  "digits_rev n =
     (if n < 10 then [char_of (48 + n)] else char_of (48 + n mod 10) # digits_rev (n div 10))"
  by pat_completeness auto
termination
  by (relation "measure nat") auto

declare digits_rev.simps [simp del]

text \<open>The decimal digits of a number that is not negative, and of an integer.\<close>

definition nat_text :: "int \<Rightarrow> string" where
  "nat_text n = rev (digits_rev n)"

definition int_text :: "int \<Rightarrow> string" where
  "int_text i = (if i < 0 then CHR ''-'' # nat_text (- i) else nat_text i)"

text \<open>
  \<open>String(x)\<close> of a finite number. An integer up to \<open>2 ^ 53\<close> has its decimal digits; otherwise
  the fewest digits \<open>s\<close> that still round to \<open>x\<close>, laid out by the position \<open>n\<close> of the point.
\<close>

definition scale10 :: "rat \<Rightarrow> int \<Rightarrow> rat" where
  "scale10 x e = (if 0 \<le> e then x * 10 ^ nat e else x / 10 ^ nat (- e))"

fun point_pos :: "nat \<Rightarrow> rat \<Rightarrow> int \<Rightarrow> int" where
  "point_pos 0 x n = n"
| "point_pos (Suc fuel) x n =
     (if x \<ge> scale10 1 n then point_pos fuel x (n + 1)
      else if x < scale10 1 (n - 1) then point_pos fuel x (n - 1) else n)"

fun shortest_digits :: "nat \<Rightarrow> rat \<Rightarrow> int \<Rightarrow> nat \<Rightarrow> int \<times> int \<times> nat" where
  "shortest_digits 0 x n k = (\<lfloor>scale10 x (int k - n)\<rfloor>, n, k)"
| "shortest_digits (Suc fuel) x n k =
     (let y = scale10 x (int k - n); f = \<lfloor>y\<rfloor>;
          cands = (if y - of_int f \<le> 1 / 2 then [f, f + 1] else [f + 1, f])
      in case filter (\<lambda>s. to_double (scale10 (of_int s) (n - int k)) = Fin x) cands of
           s # _ \<Rightarrow> if s = 10 ^ k then (10 ^ (k - 1), n + 1, k) else (s, n, k)
         | [] \<Rightarrow> shortest_digits fuel x n (Suc k))"

definition exponent_text :: "int \<Rightarrow> string" where
  "exponent_text e = (if e < 0 then ''e-'' else ''e+'') @ nat_text \<bar>e\<bar>"

definition pos_num_text :: "rat \<Rightarrow> string" where
  "pos_num_text x =
     (let (s, n, k) = shortest_digits 17 x (point_pos 400 x 1) 1; d = nat_text s in
      if int k \<le> n \<and> n \<le> 21 then d @ replicate (nat n - k) CHR ''0''
      else if 0 < n \<and> n \<le> 21 then take (nat n) d @ ''.'' @ drop (nat n) d
      else if - 6 < n \<and> n \<le> 0 then ''0.'' @ replicate (nat (- n)) CHR ''0'' @ d
      else if k = 1 then d @ exponent_text (n - 1)
      else take 1 d @ ''.'' @ drop 1 d @ exponent_text (n - 1))"

definition num_text :: "rat \<Rightarrow> string" where
  "num_text x =
     (if of_int \<lfloor>x\<rfloor> = x \<and> \<bar>x\<bar> \<le> 2 ^ 53 then int_text \<lfloor>x\<rfloor>
      else if x < 0 then CHR ''-'' # pos_num_text (- x) else pos_num_text x)"

lemma digits_rev_small: "n < 10 \<Longrightarrow> digits_rev n = [char_of (48 + n)]"
  by (subst digits_rev.simps) simp
lemma num_text_digit:
  assumes "0 \<le> i" "i < 10"
  shows "num_text (of_int i) = [char_of (48 + i)]"
proof -
  have "\<bar>rat_of_int i\<bar> \<le> rat_of_int (2 ^ 53)" using assms by (simp del: of_int_power)
  then have "num_text (of_int i) = int_text i" by (simp add: num_text_def)
  with assms show ?thesis by (simp add: int_text_def nat_text_def digits_rev_small)
qed
lemma num_text_0: "num_text 0 = ''0''" and num_text_1: "num_text 1 = ''1''" and num_text_2: "num_text 2 = ''2''"
  using num_text_digit [of 0] num_text_digit [of 1] num_text_digit [of 2] by (simp_all add: char_of_def)

definition hex_digit :: "nat \<Rightarrow> char" where
  "hex_digit n = (if n < 10 then char_of (48 + n) else char_of (87 + n))"

definition quote_char :: "char \<Rightarrow> string" where
  "quote_char c =
     (if c = CHR 0x22 then [CHR 0x5C, CHR 0x22]
      else if c = CHR 0x5C then [CHR 0x5C, CHR 0x5C]
      else if c = CHR 0x08 then [CHR 0x5C, CHR ''b'']
      else if c = CHR 0x09 then [CHR 0x5C, CHR ''t'']
      else if c = CHR 0x0A then [CHR 0x5C, CHR ''n'']
      else if c = CHR 0x0C then [CHR 0x5C, CHR ''f'']
      else if c = CHR 0x0D then [CHR 0x5C, CHR ''r'']
      else if of_char c < (32 :: nat)
        then [CHR 0x5C, CHR ''u'', CHR ''0'', CHR ''0'',
              hex_digit (of_char c div 16), hex_digit (of_char c mod 16)]
      else [c])"

definition quote_text :: "string \<Rightarrow> string" where
  "quote_text s = CHR 0x22 # concat (map quote_char s) @ [CHR 0x22]"

fun comma_sep :: "string list \<Rightarrow> string" where
  "comma_sep [] = []"
| "comma_sep [x] = x"
| "comma_sep (x # y # ys) = x @ CHR '','' # comma_sep (y # ys)"

text \<open>\<open>JSON.stringify(v)\<close>.\<close>

fun json_text :: "json \<Rightarrow> string" where
  "json_text JNull = ''null''"
| "json_text (JBool b) = (if b then ''true'' else ''false'')"
| "json_text (JNum n) = num_text n"
| "json_text (JStr s) = quote_text s"
| "json_text (JArr xs) = CHR ''['' # comma_sep (map json_text xs) @ '']''"
| "json_text (JObj ps) =
     CHR ''{'' # comma_sep (map (\<lambda>p. quote_text (fst p) @ CHR '':'' # json_text (snd p)) ps) @ ''}''"

lemma length_comma_sep:
  "length (comma_sep xs) = sum_list (map length xs) + (length xs - 1)"
  by (induction xs rule: comma_sep.induct) auto

end
