(* ===== verification/Json_Equal.thy ===== *)
theory Json_Equal
  imports Json_Value
begin

text \<open>
  \<open>structuralEqual\<close> of \<open>src/src/value.ts\<close>: the worklist that compares two JSON values up to
  the order of object keys. Values are trees, so two objects are never the same reference
  and no pair is met twice: \<open>===\<close> holds of equal primitives only, and the table
  \<open>compared\<close>, which skips a pair already on the worklist, is left out. The worklist is
  proved to compute the recursive comparison \<open>jeq\<close>, which is an equivalence on values.
\<close>

section \<open>The worklist\<close>

fun strict_equal :: "json \<Rightarrow> json \<Rightarrow> bool" where
  "strict_equal JNull JNull = True"
| "strict_equal (JBool a) (JBool b) = (a = b)"
| "strict_equal (JNum a) (JNum b) = (a = b)"
| "strict_equal (JStr a) (JStr b) = (a = b)"
| "strict_equal _ _ = False"

text \<open>The pairs pushed for two objects, \<open>None\<close> at a key the right object lacks.\<close>

fun field_pairs :: "(string \<times> json) list \<Rightarrow> (string \<times> json) list \<Rightarrow> (json \<times> json) list option" where
  "field_pairs [] qs = Some []"
| "field_pairs ((k, x) # ps) qs =
     (case map_of qs k of
        None \<Rightarrow> None
      | Some y \<Rightarrow> (case field_pairs ps qs of None \<Rightarrow> None | Some r \<Rightarrow> Some ((x, y) # r)))"

definition pairs_nodes :: "(json \<times> json) list \<Rightarrow> nat" where
  "pairs_nodes w = sum_list (map (\<lambda>p. node_count (fst p)) w)"

lemma pairs_nodes_simps [simp]:
  "pairs_nodes [] = 0" "pairs_nodes (p # w) = node_count (fst p) + pairs_nodes w"
  "pairs_nodes (v @ w) = pairs_nodes v + pairs_nodes w" "pairs_nodes (rev w) = pairs_nodes w"
  by (simp_all add: pairs_nodes_def rev_map [symmetric])

lemma pairs_nodes_zip: "length xs = length ys \<Longrightarrow> pairs_nodes (zip xs ys) = sum_list (map node_count xs)"
  by (induction xs ys rule: list_induct2) auto

lemma pairs_nodes_fields:
  "field_pairs ps qs = Some w \<Longrightarrow> pairs_nodes w = sum_list (map (\<lambda>p. node_count (snd p)) ps)"
  by (induction ps qs arbitrary: w rule: field_pairs.induct) (auto split: option.splits)

text \<open>The head of the list is the end of \<open>pending\<close>, which \<open>pop\<close> takes.\<close>

function equal_loop :: "(json \<times> json) list \<Rightarrow> bool" where
  "equal_loop [] = True"
| "equal_loop ((l, r) # pending) =
     (if strict_equal l r then equal_loop pending
      else case (l, r) of
        (JArr xs, JArr ys) \<Rightarrow>
          if length xs \<noteq> length ys then False else equal_loop (rev (zip xs ys) @ pending)
      | (JObj ps, JObj qs) \<Rightarrow>
          if length ps \<noteq> length qs then False
          else (case field_pairs ps qs of None \<Rightarrow> False | Some w \<Rightarrow> equal_loop (rev w @ pending))
      | _ \<Rightarrow> False)"
  by pat_completeness auto
termination
  by (relation "measure pairs_nodes") (auto simp: pairs_nodes_zip pairs_nodes_fields)

definition structuralEqual :: "json \<Rightarrow> json \<Rightarrow> bool" where
  "structuralEqual a b = (if strict_equal a b then True else equal_loop [(a, b)])"

section \<open>The comparison it computes\<close>

fun jeq :: "json \<Rightarrow> json \<Rightarrow> bool" where
  "jeq (JArr xs) r = (case r of JArr ys \<Rightarrow> list_all2 jeq xs ys | _ \<Rightarrow> False)"
| "jeq (JObj ps) r =
     (case r of
        JObj qs \<Rightarrow> length ps = length qs \<and>
          (\<forall>p \<in> set ps. case map_of qs (fst p) of None \<Rightarrow> False | Some y \<Rightarrow> jeq (snd p) y)
      | _ \<Rightarrow> False)"
| "jeq l r = (l = r)"

lemma strict_equal_jeq: "strict_equal l r \<Longrightarrow> jeq l r"
  by (cases "(l, r)" rule: strict_equal.cases) auto

lemma field_pairs_jeq:
  "(\<forall>p \<in> set ps. case map_of qs (fst p) of None \<Rightarrow> False | Some y \<Rightarrow> jeq (snd p) y) \<longleftrightarrow>
     (case field_pairs ps qs of None \<Rightarrow> False | Some w \<Rightarrow> \<forall>(l, r) \<in> set w. jeq l r)"
  by (induction ps qs rule: field_pairs.induct) (auto split: option.splits)

lemma equal_loop_jeq: "equal_loop w \<longleftrightarrow> (\<forall>(l, r) \<in> set w. jeq l r)"
proof (induction w rule: equal_loop.induct)
  case (2 l r pending)
  show ?case
  proof (cases "strict_equal l r")
    case True
    with 2(1) show ?thesis by (auto simp: strict_equal_jeq)
  next
    case False
    show ?thesis
    proof (cases l)
      case (JArr xs)
      show ?thesis
      proof (cases r)
        case r: (JArr ys)
        show ?thesis
        proof (cases "length xs = length ys")
          case True
          with 2(2) [OF False refl, of xs ys] JArr r show ?thesis
            by (auto simp: list_all2_iff)
        qed (use JArr r in \<open>auto simp: list_all2_iff\<close>)
      qed (use JArr in auto)
    next
      case (JObj ps)
      show ?thesis
      proof (cases r)
        case r: (JObj qs)
        show ?thesis
        proof (cases "length ps = length qs \<and> field_pairs ps qs \<noteq> None")
          case True
          then obtain w where "length ps = length qs" "field_pairs ps qs = Some w" by auto
          with 2(3) [OF False refl, of ps qs w] JObj r show ?thesis
            by (auto simp: field_pairs_jeq)
        qed (use JObj r in \<open>auto simp: field_pairs_jeq\<close>)
      qed (use JObj in auto)
    qed (use False in \<open>cases r; auto\<close>)+
  qed
qed simp

lemma structuralEqual_jeq: "structuralEqual a b = jeq a b"
  by (simp add: structuralEqual_def equal_loop_jeq strict_equal_jeq)

section \<open>An equivalence\<close>

lemma jeq_refl: "json_wf v \<Longrightarrow> jeq v v"
proof (induction v rule: json_induct)
  case (JArr xs)
  then show ?case by (auto intro: list.rel_refl_strong)
next
  case (JObj ps)
  then show ?case by (auto simp: map_of_distinct_in)
qed auto

lemma same_keys:
  assumes "distinct_keys ps" "distinct_keys qs" "length ps = length qs"
    and "fst ` set ps \<subseteq> fst ` set qs"
  shows "fst ` set qs = fst ` set ps"
proof (rule card_subset_eq [symmetric])
  show "card (fst ` set ps) = card (fst ` set qs)"
    using assms(1-3) by (metis distinct_card distinct_keys_def length_map list.set_map)
qed (use assms in auto)

lemma jeq_JObj:
  assumes "distinct_keys ps" "distinct_keys qs"
  shows "jeq (JObj ps) (JObj qs) \<longleftrightarrow>
     length ps = length qs \<and> (\<forall>k. rel_option jeq (map_of ps k) (map_of qs k))"
proof (intro iffI conjI allI)
  assume l: "jeq (JObj ps) (JObj qs)"
  then show "length ps = length qs" by simp
  fix k
  have sub: "fst ` set ps \<subseteq> fst ` set qs"
    using l by (force simp: split: option.splits dest: map_of_in_set)
  have keys: "fst ` set qs = fst ` set ps"
    using same_keys [OF assms _ sub] l by simp
  show "rel_option jeq (map_of ps k) (map_of qs k)"
  proof (cases "map_of ps k")
    case None
    with keys show ?thesis by (metis map_of_eq_None_iff option.rel_inject(1))
  next
    case (Some x)
    then have "(k, x) \<in> set ps" by (rule map_of_in_set)
    with l Some show ?thesis by (force split: option.splits)
  qed
next
  assume r: "length ps = length qs \<and> (\<forall>k. rel_option jeq (map_of ps k) (map_of qs k))"
  have "\<exists>y. map_of qs k = Some y \<and> jeq x y" if "(k, x) \<in> set ps" for k x
    using r map_of_distinct_in [OF assms(1) that] by (metis option_rel_Some1)
  with r show "jeq (JObj ps) (JObj qs)" by (fastforce split: option.splits)
qed

lemma jeq_sym: "json_wf a \<Longrightarrow> json_wf b \<Longrightarrow> jeq a b \<Longrightarrow> jeq b a"
proof (induction a arbitrary: b rule: json_induct)
  case (JArr xs)
  then show ?case
    by (auto simp: list_all2_conv_all_nth split: json.splits)
next
  case (JObj ps)
  then obtain qs where b: "b = JObj qs" by (auto split: json.splits)
  have "rel_option jeq (map_of qs k) (map_of ps k)" for k
  proof -
    have "rel_option jeq (map_of ps k) (map_of qs k)"
      using JObj.prems by (simp add: b jeq_JObj del: jeq.simps)
    then show ?thesis
      using JObj by (cases "map_of ps k"; cases "map_of qs k")
        (auto simp: b dest!: map_of_in_set)
  qed
  with JObj.prems show ?case by (simp add: b jeq_JObj del: jeq.simps)
qed auto

lemma jeq_trans: "json_wf a \<Longrightarrow> json_wf b \<Longrightarrow> json_wf c \<Longrightarrow> jeq a b \<Longrightarrow> jeq b c \<Longrightarrow> jeq a c"
proof (induction a arbitrary: b c rule: json_induct)
  case (JArr xs)
  then show ?case
    by (auto simp: list_all2_conv_all_nth split: json.splits) (metis nth_mem)
next
  case (JObj ps)
  then obtain qs where b: "b = JObj qs" by (auto split: json.splits)
  then obtain rs where c: "c = JObj rs" using JObj.prems by (auto split: json.splits)
  have "rel_option jeq (map_of ps k) (map_of rs k)" for k
  proof -
    have "rel_option jeq (map_of ps k) (map_of qs k)" "rel_option jeq (map_of qs k) (map_of rs k)"
      using JObj.prems by (simp_all add: b c jeq_JObj del: jeq.simps)
    then show ?thesis
    proof (cases "map_of ps k")
      case (Some x)
      then obtain y z where yz: "map_of qs k = Some y" "map_of rs k = Some z" "jeq x y" "jeq y z"
        using \<open>rel_option jeq (map_of ps k) (map_of qs k)\<close> \<open>rel_option jeq (map_of qs k) (map_of rs k)\<close>
        by (auto simp: option_rel_Some1)
      have "json_wf x" "json_wf y" "json_wf z"
        using JObj.prems(1-3) map_of_in_set [OF Some] yz(1,2) [THEN map_of_in_set]
        by (auto simp: b c)
      then have "jeq x z"
        using JObj.IH [OF map_of_in_set [OF Some], of y z] yz(3,4) by simp
      with Some yz(2) show ?thesis by simp
    qed auto
  qed
  with JObj.prems show ?case by (simp add: b c jeq_JObj del: jeq.simps)
qed auto

end
