(* ===== verification/Js_Text.thy ===== *)
theory Js_Text
  imports Prelude
begin

text \<open>
  The parts of JavaScript's strings that look at characters rather than bytes: the UTF-16
  code units that index and order a string, the white space of \<open>\s\<close> and \<open>trim\<close>, and the
  line terminators that \<open>.\<close> does not match in a regular expression. Strings are UTF-8 bytes.
\<close>

section \<open>Code units\<close>

definition byte :: "char \<Rightarrow> nat" where
  "byte c = of_char c"

text \<open>
  Decoding of well-formed UTF-8 into UTF-16 code units. A code point above \<open>0xFFFF\<close> gives a
  surrogate pair.
\<close>

definition surrogates :: "nat \<Rightarrow> nat list" where
  "surrogates p = [55296 + (p - 65536) div 1024, 56320 + (p - 65536) mod 1024]"

fun code_units :: "string \<Rightarrow> nat list" where
  "code_units [] = []"
| "code_units (c # s) =
     (if byte c < 192 then byte c # code_units s
      else if byte c < 224 then
        (case s of
           d # s' \<Rightarrow> (byte c mod 32 * 64 + byte d mod 64) # code_units s'
         | [] \<Rightarrow> [])
      else if byte c < 240 then
        (case s of
           d # e # s' \<Rightarrow>
             (byte c mod 16 * 4096 + byte d mod 64 * 64 + byte e mod 64) # code_units s'
         | _ \<Rightarrow> [])
      else
        (case s of
           d # e # f # s' \<Rightarrow>
             surrogates (byte c mod 8 * 262144 + byte d mod 64 * 4096 + byte e mod 64 * 64
               + byte f mod 64) @ code_units s'
         | _ \<Rightarrow> []))"

lemma byte_ascii: "byte c < 128 \<Longrightarrow> code_units (c # s) = byte c # code_units s"
  by simp

lemma byte_inj: "byte c = byte d \<Longrightarrow> c = d"
  by (simp add: byte_def)

text \<open>\<open>a < b\<close> on strings compares code units.\<close>

fun units_less :: "nat list \<Rightarrow> nat list \<Rightarrow> bool" where
  "units_less [] ys = (ys \<noteq> [])"
| "units_less (x # xs) [] = False"
| "units_less (x # xs) (y # ys) = (x < y \<or> x = y \<and> units_less xs ys)"

definition str_less :: "string \<Rightarrow> string \<Rightarrow> bool" where
  "str_less a b = units_less (code_units a) (code_units b)"

lemma units_less_irrefl [simp]: "\<not> units_less xs xs"
  by (induction xs) auto

lemma units_less_Nil [simp]: "\<not> units_less xs []"
  by (cases xs) auto

lemma units_less_trans: "units_less xs ys \<Longrightarrow> units_less ys zs \<Longrightarrow> units_less xs zs"
proof (induction xs ys arbitrary: zs rule: units_less.induct)
  case (1 ys)
  then show ?case by (cases zs) auto
next
  case (3 x xs y ys)
  then show ?case by (cases zs) auto
qed simp

lemma units_less_linear: "units_less xs ys \<or> xs = ys \<or> units_less ys xs"
  by (induction xs ys rule: units_less.induct) auto

lemma code_units_ascii: "\<forall>c \<in> set s. byte c < 128 \<Longrightarrow> code_units s = map byte s"
  by (induction s) auto

section \<open>White space and line ends\<close>

text \<open>
  The length in bytes of the white-space character a text starts with, \<open>0\<close> when it starts
  with none: the ASCII ones, and the UTF-8 forms of U+00A0, U+1680, U+2000 to U+200A,
  U+2028, U+2029, U+202F, U+205F, U+3000 and U+FEFF.
\<close>

fun space_len :: "string \<Rightarrow> nat" where
  "space_len [] = 0"
| "space_len (c # s) =
     (if byte c = 32 \<or> 9 \<le> byte c \<and> byte c \<le> 13 then 1
      else (case s of
        [] \<Rightarrow> 0
      | d # s' \<Rightarrow>
          if byte c = 194 \<and> byte d = 160 then 2
          else (case s' of
            [] \<Rightarrow> 0
          | e # _ \<Rightarrow>
              if byte c = 225 \<and> byte d = 154 \<and> byte e = 128
                \<or> byte c = 226 \<and> byte d = 128 \<and> (128 \<le> byte e \<and> byte e \<le> 138 \<or> byte e \<in> {168, 169, 175})
                \<or> byte c = 226 \<and> byte d = 129 \<and> byte e = 159
                \<or> byte c = 227 \<and> byte d = 128 \<and> byte e = 128
                \<or> byte c = 239 \<and> byte d = 187 \<and> byte e = 191
              then 3 else 0)))"

function drop_space :: "string \<Rightarrow> string" where
  "drop_space s = (if space_len s = 0 then s else drop_space (drop (space_len s) s))"
  by pat_completeness auto
termination
proof (relation "measure length")
  fix s :: string
  assume "space_len s \<noteq> 0"
  then show "(drop (space_len s) s, s) \<in> measure length"
    by (cases s) auto
qed simp

declare drop_space.simps [simp del]

lemma drop_space_id [simp]: "space_len s = 0 \<Longrightarrow> drop_space s = s"
  by (subst drop_space.simps) simp

lemma length_drop_space: "length (drop_space s) \<le> length s"
proof (induction s rule: drop_space.induct)
  case (1 s)
  then show ?case by (subst drop_space.simps) (auto intro: order.trans)
qed

text \<open>A text without a line terminator (LF, CR, U+2028, U+2029): what \<open>.*\<close> matches in full.\<close>

fun one_line :: "string \<Rightarrow> bool" where
  "one_line [] = True"
| "one_line (c # s) =
     (\<not> (byte c = 10 \<or> byte c = 13) \<and>
      \<not> (byte c = 226 \<and> take 1 s = [CHR 0x80] \<and> take 1 (drop 1 s) \<in> {[CHR 0xA8], [CHR 0xA9]}) \<and>
      one_line s)"

text \<open>Prefix tests.\<close>

fun strip_prefix :: "string \<Rightarrow> string \<Rightarrow> string option" where
  "strip_prefix [] s = Some s"
| "strip_prefix (p # ps) (c # s) = (if p = c then strip_prefix ps s else None)"
| "strip_prefix (p # ps) [] = None"

lemma strip_prefix_append [simp]: "strip_prefix p (p @ s) = Some s"
  by (induction p) auto

lemma strip_prefix_Some: "strip_prefix p s = Some t \<longleftrightarrow> s = p @ t"
  by (induction p s rule: strip_prefix.induct) auto

end
