(* ===== verification/Like.thy ===== *)
theory Like
  imports Js_Text
begin

text \<open>
  \<open>matchLike\<close> of \<open>src/src/query-utils.ts\<close>: the greedy matcher behind SQL's \<open>LIKE\<close>, with its
  cap on the number of steps. The loop works on the UTF-16 code units of the lower-cased
  texts; \<open>toLowerCase\<close> (a Unicode table) is the parameter \<open>lower\<close>. The reference definition
  \<open>like\<close> is the usual reading of \<open>%\<close> and \<open>_\<close>.
\<close>

section \<open>The matcher\<close>

definition PERCENT :: nat where "PERCENT = 37"
definition UNDERSCORE :: nat where "UNDERSCORE = 95"

text \<open>The local variables of the loop.\<close>

record like_vars =
  lv_i :: nat
  lv_j :: nat
  lv_star :: "nat option"
  lv_retry :: nat

definition like_limit :: nat where
  "like_limit = 1000000"

definition LIKE_ERROR :: jserr where
  "LIKE_ERROR = DbError LIMIT_EXCEEDED ''LIKE work limit exceeded''"

text \<open>
  One round of the loop: \<open>Some\<close> the next variables, \<open>None\<close> the early return of \<open>false\<close>.
\<close>

definition like_round :: "nat list \<Rightarrow> nat list \<Rightarrow> like_vars \<Rightarrow> like_vars option" where
  "like_round tx pat v =
     (let i = lv_i v; j = lv_j v in
      if j < length pat \<and> (pat ! j = UNDERSCORE \<or> pat ! j = tx ! i)
      then Some (v\<lparr>lv_i := i + 1, lv_j := j + 1\<rparr>)
      else if j < length pat \<and> pat ! j = PERCENT
      then Some (v\<lparr>lv_star := Some j, lv_j := j + 1, lv_retry := i\<rparr>)
      else (case lv_star v of
              Some s \<Rightarrow> Some (v\<lparr>lv_j := s + 1, lv_retry := lv_retry v + 1, lv_i := lv_retry v + 1\<rparr>)
            | None \<Rightarrow> None))"

text \<open>
  The loop with the number \<open>n\<close> of rounds left before the cap. \<open>None\<close> is the early return;
  otherwise the loop ends with the value of \<open>j\<close>.
\<close>

function like_loop :: "nat \<Rightarrow> nat list \<Rightarrow> nat list \<Rightarrow> like_vars \<Rightarrow> nat option outcome" where
  "like_loop n tx pat v =
     (if lv_i v < length tx then
        if n = 0 then Inl LIKE_ERROR
        else (case like_round tx pat v of
                None \<Rightarrow> Inr None
              | Some v' \<Rightarrow> like_loop (n - 1) tx pat v')
      else Inr (Some (lv_j v)))"
  by pat_completeness auto
termination
  by (relation "measure (\<lambda>(n, _). n)") auto

declare like_loop.simps [simp del]

text \<open>One round, with its share of the work taken.\<close>

lemma like_loop_Suc:
  "like_loop (Suc n) tx pat v =
     (if lv_i v < length tx then
        (case like_round tx pat v of None \<Rightarrow> Inr None | Some v' \<Rightarrow> like_loop n tx pat v')
      else Inr (Some (lv_j v)))"
  by (subst like_loop.simps) (simp split: option.split)

definition like_start :: like_vars where
  "like_start = \<lparr>lv_i = 0, lv_j = 0, lv_star = None, lv_retry = 0\<rparr>"

definition like_match :: "nat list \<Rightarrow> nat list \<Rightarrow> bool outcome" where
  "like_match tx pat =
     (case like_loop like_limit tx pat like_start of
        Inl e \<Rightarrow> Inl e
      | Inr None \<Rightarrow> Inr False
      | Inr (Some j) \<Rightarrow> Inr (dropWhile (\<lambda>c. c = PERCENT) (drop j pat) = []))"

definition matchLike :: "(string \<Rightarrow> string) \<Rightarrow> string \<Rightarrow> string \<Rightarrow> bool outcome" where
  "matchLike lower value pattern = like_match (code_units (lower value)) (code_units (lower pattern))"

section \<open>The reference definition\<close>

fun like :: "nat list \<Rightarrow> nat list \<Rightarrow> bool" where
  "like [] tx = (tx = [])"
| "like (p # ps) [] = (p = PERCENT \<and> like ps [])"
| "like (p # ps) (t # ts) =
     (if p = PERCENT then like ps (t # ts) \<or> like (p # ps) ts
      else (p = UNDERSCORE \<or> p = t) \<and> like ps ts)"

lemma like_percent: "like (PERCENT # ps) tx \<longleftrightarrow> (\<exists>n \<le> length tx. like ps (drop n tx))"
proof (induction tx)
  case (Cons t ts)
  have "(\<exists>n \<le> length (t # ts). like ps (drop n (t # ts))) \<longleftrightarrow>
      like ps (t # ts) \<or> (\<exists>n \<le> length ts. like ps (drop n ts))"
    (is "?l = ?r")
  proof
    assume ?l
    then obtain n where "n \<le> length (t # ts)" "like ps (drop n (t # ts))" by blast
    then show ?r by (cases n) auto
  next
    assume ?r
    then show ?l
    proof
      assume "\<exists>n \<le> length ts. like ps (drop n ts)"
      then obtain n where "n \<le> length ts" "like ps (drop n ts)" by blast
      then show ?l by (intro exI [of _ "Suc n"]) simp
    qed (auto intro: exI [of _ 0])
  qed
  with Cons show ?case by simp
qed simp

lemma like_Nil_text: "like ps [] \<longleftrightarrow> dropWhile (\<lambda>c. c = PERCENT) ps = []"
  by (induction ps) auto

lemma like_plain_length: "PERCENT \<notin> set w \<Longrightarrow> like (w @ ps) tx \<Longrightarrow> length w \<le> length tx \<and> like ps (drop (length w) tx)"
proof (induction w arbitrary: tx)
  case (Cons c w)
  then show ?case by (cases tx) auto
qed simp

section \<open>The number of rounds\<close>

text \<open>
  The position from which the matcher retries never moves back and every retry moves it
  forward, so the rounds are bounded by this measure.
\<close>

definition like_work :: "nat list \<Rightarrow> nat list \<Rightarrow> like_vars \<Rightarrow> nat" where
  "like_work tx pat v = (length tx - lv_retry v) * (length pat + 1) + (length pat - lv_j v)"

definition like_inv :: "nat list \<Rightarrow> nat list \<Rightarrow> like_vars \<Rightarrow> bool" where
  "like_inv tx pat v \<longleftrightarrow>
     lv_j v \<le> length pat \<and> lv_i v \<le> length tx \<and> lv_retry v \<le> lv_i v \<and>
     (case lv_star v of
        None \<Rightarrow> lv_i v = lv_j v \<and> PERCENT \<notin> set (take (lv_j v) pat)
      | Some s \<Rightarrow> s < lv_j v \<and> pat ! s = PERCENT \<and> lv_i v - lv_retry v = lv_j v - (s + 1) \<and>
          PERCENT \<notin> set (drop (s + 1) (take (lv_j v) pat)))"

text \<open>What is left to decide: the rest matches here, or after a later start of the last \<open>%\<close>.\<close>

definition like_goal :: "nat list \<Rightarrow> nat list \<Rightarrow> like_vars \<Rightarrow> bool" where
  "like_goal tx pat v \<longleftrightarrow>
     like (drop (lv_j v) pat) (drop (lv_i v) tx) \<or>
     (\<exists>s n. lv_star v = Some s \<and> lv_retry v < n \<and> n \<le> length tx \<and> like (drop (s + 1) pat) (drop n tx))"

lemma drop_step: "j < length xs \<Longrightarrow> drop j xs = xs ! j # drop (j + 1) xs"
  by (simp add: Cons_nth_drop_Suc)

lemma ex_shift:
  assumes "i \<le> (l :: nat)"
  shows "(\<exists>n \<le> l - i. P (n + i)) \<longleftrightarrow> (\<exists>m. i \<le> m \<and> m \<le> l \<and> P m)"
proof
  assume "\<exists>m. i \<le> m \<and> m \<le> l \<and> P m"
  then obtain m where "i \<le> m" "m \<le> l" "P m" by blast
  then show "\<exists>n \<le> l - i. P (n + i)" by (intro exI [of _ "m - i"]) simp
next
  assume "\<exists>n \<le> l - i. P (n + i)"
  then obtain n where "n \<le> l - i" "P (n + i)" by blast
  then show "\<exists>m. i \<le> m \<and> m \<le> l \<and> P m" using assms by (intro exI [of _ "n + i"]) simp
qed

lemma ex_first:
  assumes "r < (l :: nat)"
  shows "(\<exists>n. r < n \<and> n \<le> l \<and> P n) \<longleftrightarrow> P (r + 1) \<or> (\<exists>n. r + 1 < n \<and> n \<le> l \<and> P n)"
proof
  assume "\<exists>n. r < n \<and> n \<le> l \<and> P n"
  then obtain n where "r < n" "n \<le> l" "P n" by blast
  then show "P (r + 1) \<or> (\<exists>n. r + 1 < n \<and> n \<le> l \<and> P n)" by (cases "n = r + 1") auto
next
  assume "P (r + 1) \<or> (\<exists>n. r + 1 < n \<and> n \<le> l \<and> P n)"
  then show "\<exists>n. r < n \<and> n \<le> l \<and> P n"
  proof
    assume "P (r + 1)"
    then show ?thesis using assms by (intro exI [of _ "r + 1"]) simp
  next
    assume "\<exists>n. r + 1 < n \<and> n \<le> l \<and> P n"
    then obtain n where "r + 1 < n" "n \<le> l" "P n" by blast
    then show ?thesis by (intro exI [of _ n]) simp
  qed
qed

lemma like_step:
  assumes "i < length tx"
  shows "like (drop j pat) (drop i tx) \<longleftrightarrow>
     j < length pat \<and>
     (if pat ! j = PERCENT then like (drop (j + 1) pat) (drop i tx) \<or> like (drop j pat) (drop (i + 1) tx)
      else (pat ! j = UNDERSCORE \<or> pat ! j = tx ! i) \<and> like (drop (j + 1) pat) (drop (i + 1) tx))"
proof (cases "j < length pat")
  case True
  show ?thesis
    using True by (simp add: drop_step [OF True] drop_step [OF assms])
next
  case False
  then show ?thesis using assms by simp
qed

text \<open>Everything between the last \<open>%\<close> and the place of a new one has matched as early as it can.\<close>

lemma like_later_start:
  assumes "like_inv tx pat v" "lv_star v = Some s" "lv_retry v < n" "n \<le> length tx"
    and "like (drop (s + 1) pat) (drop n tx)"
  shows "\<exists>m. lv_i v < m \<and> m \<le> length tx \<and> like (drop (lv_j v) pat) (drop m tx)"
proof -
  let ?w = "drop (s + 1) (take (lv_j v) pat)"
  from assms(1,2) have inv: "s < lv_j v" "lv_j v \<le> length pat" "lv_retry v \<le> lv_i v"
      "lv_i v - lv_retry v = lv_j v - (s + 1)" "PERCENT \<notin> set ?w"
    by (simp_all add: like_inv_def)
  have "drop (s + 1) pat = ?w @ drop (lv_j v) pat"
    using inv(1) by (simp add: drop_take)
      (metis append_take_drop_id drop_drop le_add_diff_inverse2 less_eq_Suc_le)
  then have "like (?w @ drop (lv_j v) pat) (drop n tx)" using assms(5) by simp
  from like_plain_length [OF inv(5) this]
  have "length ?w \<le> length (drop n tx)" "like (drop (lv_j v) pat) (drop (length ?w + n) tx)"
    by simp_all
  moreover have "length ?w = lv_j v - (s + 1)" using inv(2) by simp
  ultimately show ?thesis using assms(3,4) inv(3,4) by (intro exI [of _ "length ?w + n"]) auto
qed

lemma round_advance:
  assumes inv: "like_inv tx pat v" and i: "lv_i v < length tx" and tx: "PERCENT \<notin> set tx"
    and c: "lv_j v < length pat" "pat ! lv_j v = UNDERSCORE \<or> pat ! lv_j v = tx ! lv_i v"
    and v': "v' = v\<lparr>lv_i := lv_i v + 1, lv_j := lv_j v + 1\<rparr>"
  shows "like_inv tx pat v' \<and> like_goal tx pat v' = like_goal tx pat v \<and> like_work tx pat v' < like_work tx pat v"
proof (intro conjI)
  have np: "pat ! lv_j v \<noteq> PERCENT"
    using c(2) tx nth_mem [OF i] by (auto simp: PERCENT_def UNDERSCORE_def)
  have "take (lv_j v + 1) pat = take (lv_j v) pat @ [pat ! lv_j v]"
    using c(1) by (simp add: take_Suc_conv_app_nth)
  then show "like_inv tx pat v'"
    using inv i c(1) np by (auto simp: v' like_inv_def split: option.splits)
  show "like_goal tx pat v' = like_goal tx pat v"
    using like_step [OF i, of "lv_j v" pat] np c by (simp add: v' like_goal_def)
  show "like_work tx pat v' < like_work tx pat v" using c(1) by (simp add: v' like_work_def)
qed

lemma round_star:
  assumes inv: "like_inv tx pat v" and i: "lv_i v < length tx"
    and c: "lv_j v < length pat" "pat ! lv_j v = PERCENT"
    and v': "v' = v\<lparr>lv_star := Some (lv_j v), lv_j := lv_j v + 1, lv_retry := lv_i v\<rparr>"
  shows "like_inv tx pat v' \<and> like_goal tx pat v' = like_goal tx pat v \<and> like_work tx pat v' < like_work tx pat v"
proof (intro conjI)
  show "like_inv tx pat v'" using inv i c by (auto simp: v' like_inv_def split: option.splits)
  have here: "like (drop (lv_j v) pat) (drop (lv_i v) tx) \<longleftrightarrow> like_goal tx pat v'"
  proof -
    have "like (drop (lv_j v) pat) (drop (lv_i v) tx) \<longleftrightarrow>
        (\<exists>n \<le> length tx - lv_i v. like (drop (lv_j v + 1) pat) (drop n (drop (lv_i v) tx)))"
      using c by (simp add: drop_step [OF c(1)] like_percent)
    also have "\<dots> \<longleftrightarrow> (\<exists>m. lv_i v \<le> m \<and> m \<le> length tx \<and> like (drop (lv_j v + 1) pat) (drop m tx))"
      using ex_shift [of "lv_i v" "length tx" "\<lambda>m. like (drop (lv_j v + 1) pat) (drop m tx)"] i by simp
    also have "\<dots> \<longleftrightarrow> like_goal tx pat v'"
      using i by (auto simp: v' like_goal_def order.order_iff_strict)
    finally show ?thesis .
  qed
  have "like (drop (lv_j v) pat) (drop (lv_i v) tx)"
    if "lv_star v = Some s" "lv_retry v < n" "n \<le> length tx" "like (drop (s + 1) pat) (drop n tx)" for s n
  proof -
    from like_later_start [OF inv that]
    obtain m where m: "lv_i v < m" "m \<le> length tx" "like (drop (lv_j v) pat) (drop m tx)" by blast
    then obtain k where "k \<le> length tx - m" "like (drop (lv_j v + 1) pat) (drop k (drop m tx))"
      using c by (auto simp: drop_step [OF c(1)] like_percent)
    then have "like (drop (lv_j v + 1) pat) (drop (k + m) tx)" "k + m \<le> length tx" using m(2) by auto
    with m(1) have "like_goal tx pat v'" by (auto simp: v' like_goal_def)
    with here show ?thesis by simp
  qed
  with here show "like_goal tx pat v' = like_goal tx pat v" unfolding like_goal_def [of tx pat v] by blast
  have "lv_retry v \<le> lv_i v" using inv by (simp add: like_inv_def)
  then have "(length tx - lv_i v) * (length pat + 1) \<le> (length tx - lv_retry v) * (length pat + 1)"
    by (intro mult_right_mono) simp_all
  moreover have "length pat - (lv_j v + 1) < length pat - lv_j v" using c(1) by simp
  ultimately have "(length tx - lv_i v) * (length pat + 1) + (length pat - (lv_j v + 1))
      < (length tx - lv_retry v) * (length pat + 1) + (length pat - lv_j v)"
    by (rule add_le_less_mono)
  then show "like_work tx pat v' < like_work tx pat v" by (simp add: v' like_work_def)
qed

lemma round_retry:
  assumes inv: "like_inv tx pat v" and i: "lv_i v < length tx"
    and c: "\<not> (lv_j v < length pat \<and> (pat ! lv_j v = UNDERSCORE \<or> pat ! lv_j v = tx ! lv_i v))"
      "\<not> (lv_j v < length pat \<and> pat ! lv_j v = PERCENT)"
    and s: "lv_star v = Some s"
    and v': "v' = v\<lparr>lv_j := s + 1, lv_retry := lv_retry v + 1, lv_i := lv_retry v + 1\<rparr>"
  shows "like_inv tx pat v' \<and> like_goal tx pat v' = like_goal tx pat v \<and> like_work tx pat v' < like_work tx pat v"
proof (intro conjI)
  show "like_inv tx pat v'" using inv i s by (auto simp: v' like_inv_def)
  have "\<not> like (drop (lv_j v) pat) (drop (lv_i v) tx)"
    using like_step [OF i, of "lv_j v" pat] c by auto
  moreover have "(\<exists>n. lv_retry v < n \<and> n \<le> length tx \<and> P n) \<longleftrightarrow>
      P (lv_retry v + 1) \<or> (\<exists>n. lv_retry v + 1 < n \<and> n \<le> length tx \<and> P n)" for P
    using inv i by (intro ex_first) (simp add: like_inv_def)
  ultimately show "like_goal tx pat v' = like_goal tx pat v"
    using s by (simp add: v' like_goal_def)
  have "lv_retry v < length tx" "lv_j v \<le> length pat" using inv i by (simp_all add: like_inv_def)
  then have "(length tx - lv_retry v) * (length pat + 1) =
      (length tx - (lv_retry v + 1)) * (length pat + 1) + (length pat + 1)"
    by (metis Suc_eq_plus1 Suc_diff_Suc add.commute mult_Suc)
  then show "like_work tx pat v' < like_work tx pat v" by (simp add: v' like_work_def)
qed

lemma like_round_ok:
  assumes "like_inv tx pat v" "lv_i v < length tx" "PERCENT \<notin> set tx"
  shows "case like_round tx pat v of
           None \<Rightarrow> \<not> like_goal tx pat v
         | Some v' \<Rightarrow> like_inv tx pat v' \<and> like_goal tx pat v' = like_goal tx pat v \<and>
             like_work tx pat v' < like_work tx pat v"
proof -
  consider (adv) "lv_j v < length pat" "pat ! lv_j v = UNDERSCORE \<or> pat ! lv_j v = tx ! lv_i v"
    | (star) "\<not> (lv_j v < length pat \<and> (pat ! lv_j v = UNDERSCORE \<or> pat ! lv_j v = tx ! lv_i v))"
        "lv_j v < length pat" "pat ! lv_j v = PERCENT"
    | (rest) "\<not> (lv_j v < length pat \<and> (pat ! lv_j v = UNDERSCORE \<or> pat ! lv_j v = tx ! lv_i v))"
        "\<not> (lv_j v < length pat \<and> pat ! lv_j v = PERCENT)"
    by blast
  then show ?thesis
  proof cases
    case adv
    have "like_round tx pat v = Some (v\<lparr>lv_i := lv_i v + 1, lv_j := lv_j v + 1\<rparr>)"
      unfolding like_round_def Let_def using adv by (simp only: if_True simp_thms)
    with round_advance [OF assms adv refl] show ?thesis by (simp only: option.case)
  next
    case star
    have "like_round tx pat v = Some (v\<lparr>lv_star := Some (lv_j v), lv_j := lv_j v + 1, lv_retry := lv_i v\<rparr>)"
      unfolding like_round_def Let_def if_not_P [OF star(1)] using star(2,3) by (simp only: if_True simp_thms)
    with round_star [OF assms(1,2) star(2,3) refl] show ?thesis by (simp only: option.case)
  next
    case rest
    note r = like_round_def [of tx pat v] Let_def if_not_P [OF rest(1)] if_not_P [OF rest(2)]
    show ?thesis
    proof (cases "lv_star v")
      case None
      have "\<not> like (drop (lv_j v) pat) (drop (lv_i v) tx)"
        using like_step [OF assms(2), of "lv_j v" pat] rest by auto
      moreover have "like_round tx pat v = None" unfolding r None by simp
      ultimately show ?thesis by (simp add: None like_goal_def)
    next
      case (Some s)
      have "like_round tx pat v =
          Some (v\<lparr>lv_j := s + 1, lv_retry := lv_retry v + 1, lv_i := lv_retry v + 1\<rparr>)"
        unfolding r Some by simp
      with round_retry [OF assms(1,2) rest Some refl] show ?thesis by (simp only: option.case)
    qed
  qed
qed

lemma like_loop_ok:
  assumes "PERCENT \<notin> set tx" "like_inv tx pat v" "like_work tx pat v \<le> n"
  shows "\<exists>r. like_loop n tx pat v = Inr r \<and>
     (case r of None \<Rightarrow> False | Some j \<Rightarrow> like (drop j pat) []) = like_goal tx pat v"
  using assms
proof (induction n tx pat v rule: like_loop.induct)
  case (1 n tx pat v)
  show ?case
  proof (cases "lv_i v < length tx")
    case True
    note ok = like_round_ok [OF "1.prems"(2) True "1.prems"(1)]
    have "lv_retry v < length tx" using "1.prems"(2) True by (simp add: like_inv_def)
    then have n: "n \<noteq> 0" using "1.prems"(3) by (simp add: like_work_def)
    show ?thesis
    proof (cases "like_round tx pat v")
      case None
      with ok n True "1.prems"(3) show ?thesis
        by (subst like_loop.simps) (use ok n in simp)
    next
      case (Some v')
      with ok have "like_inv tx pat v'" "like_goal tx pat v' = like_goal tx pat v"
        "like_work tx pat v' < like_work tx pat v" by simp_all
      with "1.IH" [OF True n Some] "1.prems"(1,3) n True Some show ?thesis
        by (subst like_loop.simps) auto
    qed
  next
    case False
    then have "lv_i v = length tx" using "1.prems"(2) by (simp add: like_inv_def)
    moreover have "\<not> (\<exists>s n. lv_star v = Some s \<and> lv_retry v < n \<and> n \<le> length tx \<and>
        like (drop (s + 1) pat) (drop n tx) \<and> \<not> like (drop (lv_j v) pat) [])"
      using like_later_start [OF "1.prems"(2)] calculation by fastforce
    ultimately show ?thesis
      using False by (subst like_loop.simps) (auto simp: like_goal_def)
  qed
qed

theorem like_match_correct:
  assumes "PERCENT \<notin> set tx" "length tx * (length pat + 1) + length pat \<le> like_limit"
  shows "like_match tx pat = Inr (like pat tx)"
proof -
  have "like_inv tx pat like_start" "like_goal tx pat like_start = like pat tx"
    by (simp_all add: like_inv_def like_goal_def like_start_def)
  with like_loop_ok [OF assms(1), of pat like_start like_limit] assms(2) show ?thesis
    by (auto simp: like_match_def like_work_def like_start_def like_Nil_text split: option.splits)
qed

end
