(* ===== verification/Sql_Ast.thy ===== *)
theory Sql_Ast
  imports Json_Value
begin

text \<open>
  Rows, table schemas and the statements of the SQL dialect (\<open>src/src/types.ts\<close>). A row is
  the list of its own properties in insertion order; a result has the columns, the rows and,
  for writes, the number of affected rows.
\<close>

type_synonym row = "(string \<times> json) list"

datatype col_type = TString | TNumber | TBoolean | TAny

record column =
  c_name :: string
  c_type :: col_type
  c_nullable :: bool
  c_default :: "json option"

datatype expr = ELit json | ECol string

datatype cmp_op = OpEq | OpNe | OpGt | OpGe | OpLt | OpLe | OpLike | OpIn | OpBetween

datatype operand = One expr | Many "expr list"

text \<open>\<open>WIsNull True e\<close> is \<open>is_null\<close>, \<open>WIsNull False e\<close> is \<open>is_not_null\<close>.\<close>

datatype where_clause =
    WAnd where_clause where_clause
  | WOr where_clause where_clause
  | WNot where_clause
  | WIsNull bool expr
  | WCmp expr cmp_op operand

text \<open>The direction of \<open>OrderByClause\<close> is \<open>True\<close> for \<open>desc\<close>.\<close>

record select_stmt =
  s_columns :: "string list option"
  s_table :: string
  s_where :: "where_clause option"
  s_order :: "(string \<times> bool) option"
  s_limit :: "nat option"
  s_offset :: "nat option"

datatype statement =
    SCreate string "column list" "string option"
  | SInsert string "string list" "json list list"
  | SSelect select_stmt
  | SUpdate string "(string \<times> json) list" "where_clause option"
  | SDelete string "where_clause option"
  | SDrop string

record query_result =
  q_columns :: "string list"
  q_rows :: "row list"
  q_affected :: "nat option"

text \<open>A missing property reads as \<open>undefined\<close>, which every reader treats as \<open>null\<close>.\<close>

definition field :: "row \<Rightarrow> string \<Rightarrow> json" where
  "field r c = (case map_of r c of Some v \<Rightarrow> v | None \<Rightarrow> JNull)"

lemma field_al_set [simp]: "field (al_set c v r) d = (if d = c then v else field r d)"
  by (simp add: field_def)

text \<open>The statements of the parser: distinct columns, a declared primary key, JSON values.\<close>

definition stmt_ok :: "statement \<Rightarrow> bool" where
  "stmt_ok s \<longleftrightarrow>
     (case s of
        SCreate n cols pk \<Rightarrow> distinct (map c_name cols) \<and> (\<forall>p. pk = Some p \<longrightarrow> p \<in> c_name ` set cols) \<and>
          (\<forall>d \<in> set cols. \<forall>v. c_default d = Some v \<longrightarrow> json_wf v)
      | SInsert n cols vss \<Rightarrow> (\<forall>vs \<in> set vss. \<forall>v \<in> set vs. json_wf v)
      | SUpdate n sets w \<Rightarrow> (\<forall>p \<in> set sets. json_wf (snd p))
      | _ \<Rightarrow> True)"

end
