(* ===== verification/Sql_Eval.thy ===== *)
theory Sql_Eval
  imports Json_Equal Like Sql_Ast Prelude
begin

text \<open>
  Evaluation of \<open>WHERE\<close> clauses and the orders of values in \<open>src/src/executor.ts\<close>: SQL's
  three-valued logic (\<open>None\<close> is UNKNOWN), the comparison operators, \<open>LIKE\<close>, and the order of
  \<open>ORDER BY\<close>. The Unicode tables behind \<open>toLowerCase\<close> and \<open>localeCompare\<close> are the parameter
  \<open>intl\<close>. Only the sign of a comparison is used; the sign of the rounded difference of two
  doubles is the sign of the exact one.
\<close>

record intl =
  il_lower :: "string \<Rightarrow> string"
  il_compare :: "string \<Rightarrow> string \<Rightarrow> rat"

section \<open>Values\<close>

definition isIndexableValue :: "json \<Rightarrow> bool" where
  "isIndexableValue v = (case v of JArr _ \<Rightarrow> False | JObj _ \<Rightarrow> False | _ \<Rightarrow> True)"

text \<open>\<open>String(v)\<close>; the elements of an array are joined with commas, null as the empty text.\<close>

fun js_string :: "json \<Rightarrow> string" where
  "js_string JNull = ''null''"
| "js_string (JBool b) = (if b then ''true'' else ''false'')"
| "js_string (JNum n) = num_text n"
| "js_string (JStr s) = s"
| "js_string (JArr xs) = comma_sep (map (\<lambda>x. if x = JNull then [] else js_string x) xs)"
| "js_string (JObj _) = ''[object Object]''"

definition evaluateExpression :: "row \<Rightarrow> expr \<Rightarrow> json" where
  "evaluateExpression r e = (case e of ECol c \<Rightarrow> field r c | ELit v \<Rightarrow> v)"

text \<open>
  A right operand after evaluation. The code tells a list of operands from one operand with
  \<open>Array.isArray\<close>, so that one operand whose value is an array counts as a list too.
\<close>

datatype operand_value = VOne json | VMany "json list"

definition operand_of :: "row \<Rightarrow> operand \<Rightarrow> operand_value" where
  "operand_of r x =
     (case x of
        One e \<Rightarrow> (case evaluateExpression r e of JArr vs \<Rightarrow> VMany vs | v \<Rightarrow> VOne v)
      | Many es \<Rightarrow> VMany (map (evaluateExpression r) es))"

definition first_of :: "json list \<Rightarrow> json" where
  "first_of vs = (case vs of [] \<Rightarrow> JNull | v # _ \<Rightarrow> v)"

definition first_value :: "operand_value \<Rightarrow> json" where
  "first_value b = (case b of VOne (JArr vs) \<Rightarrow> first_of vs | VOne v \<Rightarrow> v | VMany vs \<Rightarrow> first_of vs)"

text \<open>\<open>compareValues(a, b)\<close>: of an array \<open>b\<close> the first element is compared.\<close>

definition compareValues :: "intl \<Rightarrow> json \<Rightarrow> operand_value \<Rightarrow> rat" where
  "compareValues il a b =
     (if a = JNull then - 1
      else if first_value b = JNull then 1
      else case (a, first_value b) of
             (JNum x, JNum y) \<Rightarrow> x - y
           | (_, v) \<Rightarrow> il_compare il (js_string a) (js_string v))"

section \<open>WHERE\<close>

definition in_values :: "json \<Rightarrow> json list \<Rightarrow> bool option" where
  "in_values a vs =
     (if \<exists>v \<in> set vs. v \<noteq> JNull \<and> structuralEqual a v then Some True
      else if JNull \<in> set vs then None else Some False)"

definition between_values :: "intl \<Rightarrow> json \<Rightarrow> json \<Rightarrow> json \<Rightarrow> bool option" where
  "between_values il a low high =
     (let lower = (if low = JNull then None else Some (0 \<le> compareValues il a (VOne low)));
          upper = (if high = JNull then None else Some (compareValues il a (VOne high) \<le> 0))
      in if lower = Some False \<or> upper = Some False then Some False
         else if lower = None \<or> upper = None then None else Some True)"

definition likeCompare :: "intl \<Rightarrow> string \<Rightarrow> string \<Rightarrow> bool outcome" where
  "likeCompare il value pattern = matchLike (il_lower il) value pattern"

text \<open>The \<open>switch\<close> at the end of \<open>evaluateComparison\<close>.\<close>

definition operator_value :: "intl \<Rightarrow> json \<Rightarrow> cmp_op \<Rightarrow> operand_value \<Rightarrow> bool outcome" where
  "operator_value il a opr b =
     (case opr of
        OpEq \<Rightarrow> Inr (case b of VOne v \<Rightarrow> structuralEqual a v | VMany _ \<Rightarrow> False)
      | OpNe \<Rightarrow> Inr (case b of VOne v \<Rightarrow> \<not> structuralEqual a v | VMany _ \<Rightarrow> False)
      | OpGt \<Rightarrow> Inr (0 < compareValues il a b)
      | OpGe \<Rightarrow> Inr (0 \<le> compareValues il a b)
      | OpLt \<Rightarrow> Inr (compareValues il a b < 0)
      | OpLe \<Rightarrow> Inr (compareValues il a b \<le> 0)
      | OpLike \<Rightarrow> likeCompare il (js_string a)
          (case b of VOne v \<Rightarrow> js_string v | VMany vs \<Rightarrow> js_string (JArr vs))
      | OpIn \<Rightarrow> Inr False
      | OpBetween \<Rightarrow> Inr False)"

definition evaluateComparison :: "intl \<Rightarrow> row \<Rightarrow> expr \<Rightarrow> cmp_op \<Rightarrow> operand \<Rightarrow> bool option outcome" where
  "evaluateComparison il r left opr right =
     (let a = evaluateExpression r left; b = operand_of r right in
      if a = JNull then Inr None
      else if b = VMany [] then Inr (Some False)
      else case (b, opr) of
             (VMany vs, OpIn) \<Rightarrow> Inr (in_values a vs)
           | (VMany vs, OpBetween) \<Rightarrow>
               Inr (between_values il a (hd vs) (if length vs > 1 then vs ! 1 else JNull))
           | (VOne JNull, _) \<Rightarrow> Inr None
           | _ \<Rightarrow> map_sum id Some (operator_value il a opr b))"

text \<open>A column that holds an array equals nothing, not even itself.\<close>

lemma array_never_equal:
  assumes "evaluateExpression r e = JArr vs"
  shows "evaluateComparison il r e OpEq (One e) = Inr (Some False)"
  using assms by (simp add: evaluateComparison_def operand_of_def operator_value_def Let_def)

definition truth_and :: "bool option \<Rightarrow> bool option \<Rightarrow> bool option" where
  "truth_and l r =
     (if l = Some False \<or> r = Some False then Some False
      else if l = None \<or> r = None then None else Some True)"

definition truth_or :: "bool option \<Rightarrow> bool option \<Rightarrow> bool option" where
  "truth_or l r =
     (if l = Some True \<or> r = Some True then Some True
      else if l = None \<or> r = None then None else Some False)"

fun evaluateWhere :: "intl \<Rightarrow> row \<Rightarrow> where_clause \<Rightarrow> bool option outcome" where
  "evaluateWhere il r (WAnd l w) =
     chain (evaluateWhere il r l) (\<lambda>a. chain (evaluateWhere il r w) (\<lambda>b. Inr (truth_and a b)))"
| "evaluateWhere il r (WOr l w) =
     chain (evaluateWhere il r l) (\<lambda>a. chain (evaluateWhere il r w) (\<lambda>b. Inr (truth_or a b)))"
| "evaluateWhere il r (WNot w) = chain (evaluateWhere il r w) (\<lambda>a. Inr (map_option Not a))"
| "evaluateWhere il r (WIsNull yes e) =
     Inr (Some (if yes then evaluateExpression r e = JNull else evaluateExpression r e \<noteq> JNull))"
| "evaluateWhere il r (WCmp left opr right) = evaluateComparison il r left opr right"

text \<open>\<open>where && evaluateWhere(row, where) !== true\<close> skips a row; this is its negation.\<close>

definition row_matches :: "intl \<Rightarrow> where_clause option \<Rightarrow> row \<Rightarrow> bool outcome" where
  "row_matches il w r =
     (case w of None \<Rightarrow> Inr True | Some c \<Rightarrow> chain (evaluateWhere il r c) (\<lambda>t. Inr (t = Some True)))"

section \<open>ORDER BY\<close>

definition orderTypeRank :: "json \<Rightarrow> rat" where
  "orderTypeRank v =
     (case v of JNum _ \<Rightarrow> 0 | JStr _ \<Rightarrow> 1 | JBool _ \<Rightarrow> 2 | JArr _ \<Rightarrow> 3 | _ \<Rightarrow> 4)"

definition compareOrderValues :: "intl \<Rightarrow> json \<Rightarrow> json \<Rightarrow> rat" where
  "compareOrderValues il a b =
     (if a = JNull \<or> b = JNull then
        if a = JNull \<and> b = JNull then 0 else if a = JNull then 1 else - 1
      else if orderTypeRank a \<noteq> orderTypeRank b then orderTypeRank a - orderTypeRank b
      else case (a, b) of
             (JNum x, JNum y) \<Rightarrow> if x < y then - 1 else if x > y then 1 else 0
           | (JStr s, JStr t) \<Rightarrow> il_compare il s t
           | (JBool p, JBool q) \<Rightarrow> if p = q then 0 else if p then 1 else - 1
           | _ \<Rightarrow> il_compare il (json_text a) (json_text b))"

text \<open>The comparator of \<open>executeSelect\<close>: \<open>desc\<close> reverses values, not nulls; ties go by row id.\<close>

definition select_cmp :: "intl \<Rightarrow> (string \<times> bool) option \<Rightarrow> nat \<times> row \<Rightarrow> nat \<times> row \<Rightarrow> rat" where
  "select_cmp il order a b =
     (case order of
        None \<Rightarrow> of_nat (fst a) - of_nat (fst b)
      | Some (col, desc) \<Rightarrow>
          (let av = field (snd a) col; bv = field (snd b) col; cmp = compareOrderValues il av bv;
               r = (if cmp \<noteq> 0 \<and> av \<noteq> JNull \<and> bv \<noteq> JNull \<and> desc then - cmp else cmp)
           in if r \<noteq> 0 then r else of_nat (fst a) - of_nat (fst b)))"

end
