(* ===== verification/Top_K.thy ===== *)
theory Top_K
  imports "HOL-Library.Multiset" Prelude
begin

text \<open>
  \<open>TopK\<close> of \<open>src/src/query-utils.ts\<close>: a bounded max heap in an array that keeps the \<open>k\<close>
  smallest of the values added to it, for a comparator \<open>cmp\<close> (positive: the first argument is
  greater). \<open>sorted\<close> hands the heap to \<open>Array.sort\<close>, which is modelled by the stable insertion
  sort \<open>sort_by\<close>.
\<close>

section \<open>Sorting by a comparator\<close>

type_synonym 'a comparator = "'a \<Rightarrow> 'a \<Rightarrow> rat"

fun insert_by :: "'a comparator \<Rightarrow> 'a \<Rightarrow> 'a list \<Rightarrow> 'a list" where
  "insert_by cmp x [] = [x]"
| "insert_by cmp x (y # ys) = (if cmp x y \<le> 0 then x # y # ys else y # insert_by cmp x ys)"

definition sort_by :: "'a comparator \<Rightarrow> 'a list \<Rightarrow> 'a list" where
  "sort_by cmp xs = foldr (insert_by cmp) xs []"

text \<open>
  A comparator is an order on a set: its two directions agree, it is transitive, and it
  tells different elements apart.
\<close>

definition orders_on :: "'a set \<Rightarrow> 'a comparator \<Rightarrow> bool" where
  "orders_on S cmp \<longleftrightarrow>
     (\<forall>x \<in> S. \<forall>y \<in> S. (cmp x y < 0 \<longleftrightarrow> 0 < cmp y x) \<and> (cmp x y = 0 \<longleftrightarrow> x = y)) \<and>
     (\<forall>x \<in> S. \<forall>y \<in> S. \<forall>z \<in> S. cmp x y \<le> 0 \<longrightarrow> cmp y z \<le> 0 \<longrightarrow> cmp x z \<le> 0)"

abbreviation sorted_by :: "'a comparator \<Rightarrow> 'a list \<Rightarrow> bool" where
  "sorted_by cmp \<equiv> sorted_wrt (\<lambda>x y. cmp x y \<le> 0)"

lemma orders_on_subset: "orders_on S cmp \<Longrightarrow> T \<subseteq> S \<Longrightarrow> orders_on T cmp"
  unfolding orders_on_def by (meson subsetD)

lemma ordersD:
  assumes "orders_on S cmp" "x \<in> S" "y \<in> S"
  shows "cmp x y < 0 \<longleftrightarrow> 0 < cmp y x" "cmp x y = 0 \<longleftrightarrow> x = y"
  using assms unfolding orders_on_def by blast+

lemma orders_trans:
  "orders_on S cmp \<Longrightarrow> x \<in> S \<Longrightarrow> y \<in> S \<Longrightarrow> z \<in> S \<Longrightarrow> cmp x y \<le> 0 \<Longrightarrow> cmp y z \<le> 0 \<Longrightarrow> cmp x z \<le> 0"
  unfolding orders_on_def by blast

lemma orders_flip: "orders_on S cmp \<Longrightarrow> x \<in> S \<Longrightarrow> y \<in> S \<Longrightarrow> cmp x y \<le> 0 \<longleftrightarrow> 0 \<le> cmp y x"
  using ordersD(1) [of S cmp y x] by linarith

lemma orders_linear: "orders_on S cmp \<Longrightarrow> x \<in> S \<Longrightarrow> y \<in> S \<Longrightarrow> cmp x y \<le> 0 \<or> cmp y x \<le> 0"
  using orders_flip [of S cmp x y] by linarith

lemma orders_antisym:
  assumes "orders_on S cmp" "x \<in> S" "y \<in> S" "cmp x y \<le> 0" "cmp y x \<le> 0"
  shows "x = y"
  using orders_flip [OF assms(1,3,2)] assms(4,5) ordersD(2) [OF assms(1-3)] by linarith

lemma mset_insert_by [simp]: "mset (insert_by cmp x ys) = add_mset x (mset ys)"
  by (induction ys) auto

lemma set_insert_by [simp]: "set (insert_by cmp x ys) = insert x (set ys)"
  by (induction ys) auto

lemma sort_by_simps [simp]:
  "sort_by cmp [] = []" "sort_by cmp (x # xs) = insert_by cmp x (sort_by cmp xs)"
  by (simp_all add: sort_by_def)

lemma mset_sort_by [simp]: "mset (sort_by cmp xs) = mset xs"
  by (induction xs) auto

lemma set_sort_by [simp]: "set (sort_by cmp xs) = set xs"
  by (induction xs) auto

lemma length_sort_by [simp]: "length (sort_by cmp xs) = length xs"
  by (metis mset_sort_by size_mset)

lemma sorted_insert_by:
  "orders_on S cmp \<Longrightarrow> insert x (set ys) \<subseteq> S \<Longrightarrow> sorted_by cmp ys \<Longrightarrow> sorted_by cmp (insert_by cmp x ys)"
proof (induction ys)
  case (Cons y ys)
  show ?case
  proof (cases "cmp x y \<le> 0")
    case True
    then have "cmp x z \<le> 0" if "z \<in> set ys" for z
      using that Cons.prems orders_trans [OF Cons.prems(1), of x y z] by simp blast
    with True Cons.prems show ?thesis by simp
  next
    case False
    then have "cmp y x \<le> 0" using orders_linear [OF Cons.prems(1), of x y] Cons.prems(2) by simp
    with False Cons show ?thesis by simp
  qed
qed simp

lemma sorted_sort_by: "orders_on S cmp \<Longrightarrow> set xs \<subseteq> S \<Longrightarrow> sorted_by cmp (sort_by cmp xs)"
proof (induction xs)
  case (Cons x xs)
  then show ?case by (simp add: sorted_insert_by [OF Cons.prems(1)])
qed simp

text \<open>Sorted lists with the same elements are the same list.\<close>

lemma sorted_by_unique:
  "orders_on S cmp \<Longrightarrow> set xs \<subseteq> S \<Longrightarrow> sorted_by cmp xs \<Longrightarrow> sorted_by cmp ys \<Longrightarrow> mset xs = mset ys \<Longrightarrow> xs = ys"
proof (induction xs arbitrary: ys)
  case (Cons x xs)
  then obtain y ys' where ys: "ys = y # ys'" by (cases ys) auto
  have sets: "set ys = insert x (set xs)" using Cons.prems(5) by (metis list.simps(15) set_mset_mset)
  have "x = y"
  proof (rule ccontr)
    assume "x \<noteq> y"
    moreover have "x \<in> set ys" "y \<in> insert x (set xs)" using sets ys by auto
    ultimately have "x \<in> set ys'" "y \<in> set xs" using ys by auto
    then have "cmp y x \<le> 0" "cmp x y \<le> 0" using Cons.prems(3,4) ys by auto
    with orders_antisym [OF Cons.prems(1), of x y] \<open>x \<noteq> y\<close> \<open>y \<in> set xs\<close> Cons.prems(2) show False by auto
  qed
  with Cons ys show ?case by auto
qed simp

section \<open>The heap\<close>

definition parent :: "nat \<Rightarrow> nat" where
  "parent i = (i - 1) div 2"

definition swap :: "nat \<Rightarrow> nat \<Rightarrow> 'a list \<Rightarrow> 'a list" where
  "swap i j h = h[i := h ! j, j := h ! i]"

function sift_up :: "'a comparator \<Rightarrow> nat \<Rightarrow> 'a list \<Rightarrow> 'a list" where
  "sift_up cmp i h =
     (if 0 < i then
        if cmp (h ! parent i) (h ! i) \<ge> 0 then h else sift_up cmp (parent i) (swap (parent i) i h)
      else h)"
  by pat_completeness auto
termination
  by (relation "measure (\<lambda>(cmp, i, h). i)") (auto simp: parent_def)

declare sift_up.simps [simp del]

text \<open>The greater child of \<open>i\<close>, when it has one.\<close>

definition greater_child :: "'a comparator \<Rightarrow> nat \<Rightarrow> 'a list \<Rightarrow> nat" where
  "greater_child cmp i h =
     (let child = i * 2 + 1 in
      if child + 1 < length h \<and> cmp (h ! (child + 1)) (h ! child) > 0 then child + 1 else child)"

lemma length_swap [simp]: "length (swap i j h) = length h"
  by (simp add: swap_def)

function sift_down :: "'a comparator \<Rightarrow> nat \<Rightarrow> 'a list \<Rightarrow> 'a list" where
  "sift_down cmp i h =
     (if i * 2 + 1 < length h then
        let child = greater_child cmp i h in
        if cmp (h ! i) (h ! child) \<ge> 0 then h else sift_down cmp child (swap i child h)
      else h)"
  by pat_completeness auto
termination
  by (relation "measure (\<lambda>(cmp, i, h). length h - i)") (auto simp: greater_child_def Let_def)

declare sift_down.simps [simp del]

definition topk_add :: "nat \<Rightarrow> 'a comparator \<Rightarrow> 'a \<Rightarrow> 'a list \<Rightarrow> 'a list" where
  "topk_add k cmp x h =
     (if k = 0 then h
      else if length h < k then sift_up cmp (length h) (h @ [x])
      else if cmp x (h ! 0) < 0 then sift_down cmp 0 (h[0 := x])
      else h)"

definition topk_sorted :: "'a comparator \<Rightarrow> 'a list \<Rightarrow> 'a list" where
  "topk_sorted cmp h = sort_by cmp h"

section \<open>The heap keeps its order\<close>

abbreviation geq :: "'a comparator \<Rightarrow> 'a \<Rightarrow> 'a \<Rightarrow> bool" where
  "geq cmp x y \<equiv> 0 \<le> cmp x y"

definition heap_at :: "'a comparator \<Rightarrow> 'a list \<Rightarrow> nat \<Rightarrow> bool" where
  "heap_at cmp h j \<longleftrightarrow> (0 < j \<and> j < length h \<longrightarrow> geq cmp (h ! parent j) (h ! j))"

definition is_heap :: "'a comparator \<Rightarrow> 'a list \<Rightarrow> bool" where
  "is_heap cmp h \<longleftrightarrow> (\<forall>j. heap_at cmp h j)"

text \<open>
  Around the moving element \<open>i\<close> the children stay below its parent, whichever of its two
  edges is broken.
\<close>

definition bypass :: "'a comparator \<Rightarrow> nat \<Rightarrow> 'a list \<Rightarrow> bool" where
  "bypass cmp i h \<longleftrightarrow>
     (\<forall>j. 0 < i \<and> 0 < j \<and> j < length h \<and> parent j = i \<longrightarrow> geq cmp (h ! parent i) (h ! j))"

lemma parent_less: "0 < j \<Longrightarrow> parent j < j"
  by (simp add: parent_def)

lemma parent_eq: "0 < j \<Longrightarrow> parent j = i \<longleftrightarrow> j = 2 * i + 1 \<or> j = 2 * i + 2"
  unfolding parent_def by presburger

lemma nth_swap:
  "i < length h \<Longrightarrow> j < length h \<Longrightarrow> swap i j h ! n = (if n = j then h ! i else if n = i then h ! j else h ! n)"
  by (simp add: swap_def nth_list_update)

lemma mset_swap: "i < length h \<Longrightarrow> j < length h \<Longrightarrow> mset (swap i j h) = mset h"
  by (simp add: swap_def mset_swap)

lemma set_swap: "i < length h \<Longrightarrow> j < length h \<Longrightarrow> set (swap i j h) = set h"
  by (metis mset_swap set_mset_mset)

lemma geq_trans:
  assumes "orders_on S cmp" "{x, y, z} \<subseteq> S" "geq cmp x y" "geq cmp y z"
  shows "geq cmp x z"
  using orders_trans [OF assms(1), of z y x] orders_flip [OF assms(1)] assms(2-4) by simp

lemma not_geq: "orders_on S cmp \<Longrightarrow> {x, y} \<subseteq> S \<Longrightarrow> \<not> geq cmp x y \<Longrightarrow> geq cmp y x"
  using orders_flip [of S cmp x y] by simp

lemma sift_up_swap:
  assumes o: "orders_on (set h) cmp" and i: "0 < i" "i < length h"
    and h: "\<And>j. j \<noteq> i \<Longrightarrow> heap_at cmp h j" and b: "bypass cmp i h" and less: "\<not> geq cmp (h ! parent i) (h ! i)"
  shows "(\<forall>j. j \<noteq> parent i \<longrightarrow> heap_at cmp (swap (parent i) i h) j) \<and> bypass cmp (parent i) (swap (parent i) i h)"
proof -
  let ?p = "parent i" and ?h = "swap (parent i) i h"
  note p = parent_less [OF i(1)]
  have n: "?h ! m = (if m = i then h ! ?p else if m = ?p then h ! i else h ! m)" for m
    using i p by (simp add: nth_swap)
  have up: "geq cmp (h ! i) (h ! ?p)"
    using not_geq [OF o _ less] i p by simp
  have tr: "geq cmp (h ! a) (h ! b) \<Longrightarrow> geq cmp (h ! b) (h ! c) \<Longrightarrow> a < length h \<Longrightarrow> b < length h \<Longrightarrow> c < length h
      \<Longrightarrow> geq cmp (h ! a) (h ! c)" for a b c
    using geq_trans [OF o, of "h ! a" "h ! b" "h ! c"] by simp
  have "heap_at cmp ?h j" if "j \<noteq> ?p" for j
  proof (cases "0 < j \<and> j < length h \<and> j \<noteq> i")
    case True
    then have hj: "geq cmp (h ! parent j) (h ! j)" using h [of j] by (simp add: heap_at_def)
    consider "parent j = ?p" | "parent j = i" | "parent j \<noteq> ?p" "parent j \<noteq> i" by blast
    then show ?thesis
    proof cases
      case 1
      then show ?thesis using tr [OF up _ i(2), of j] hj True that p i by (simp add: heap_at_def n)
    next
      case 2
      then show ?thesis using b True that i by (simp add: heap_at_def n bypass_def)
    qed (use hj True that in \<open>simp add: heap_at_def n\<close>)
  next
    case False
    then show ?thesis using up p i by (auto simp: heap_at_def n)
  qed
  moreover have "bypass cmp ?p ?h"
    unfolding bypass_def
  proof (intro allI impI)
    fix j assume j: "0 < ?p \<and> 0 < j \<and> j < length ?h \<and> parent j = ?p"
    then have pp: "geq cmp (h ! parent ?p) (h ! ?p)" using h [of ?p] p i by (simp add: heap_at_def)
    have lt: "parent ?p < ?p" using j parent_less by blast
    have jp: "j \<noteq> ?p" using j parent_less [of j] by auto
    show "geq cmp (?h ! parent ?p) (?h ! j)"
    proof (cases "j = i")
      case True
      then show ?thesis using pp lt p by (simp add: n)
    next
      case False
      then have "geq cmp (h ! ?p) (h ! j)" using h [of j] j by (simp add: heap_at_def)
      from tr [OF pp this] show ?thesis using False jp lt p i j by (simp add: n)
    qed
  qed
  ultimately show ?thesis by blast
qed

lemma sift_up_heap:
  assumes "orders_on (set h) cmp" "i < length h" "\<And>j. j \<noteq> i \<Longrightarrow> heap_at cmp h j" "bypass cmp i h"
  shows "is_heap cmp (sift_up cmp i h) \<and> mset (sift_up cmp i h) = mset h"
  using assms
proof (induction cmp i h rule: sift_up.induct)
  case (1 cmp i h)
  show ?case
  proof (cases "0 < i \<and> \<not> geq cmp (h ! parent i) (h ! i)")
    case True
    let ?h = "swap (parent i) i h"
    have p: "parent i < length h" using True "1.prems"(2) parent_less [of i] by simp
    have "orders_on (set ?h) cmp" using "1.prems"(1,2) p by (simp add: set_swap)
    moreover note sift_up_swap [OF "1.prems"(1) _ "1.prems"(2,3,4)] True
    ultimately have "is_heap cmp (sift_up cmp (parent i) ?h) \<and> mset (sift_up cmp (parent i) ?h) = mset ?h"
      using "1.IH" p by simp
    moreover have "sift_up cmp i h = sift_up cmp (parent i) ?h"
      using True by (subst sift_up.simps) simp
    ultimately show ?thesis using "1.prems"(2) p by (simp add: mset_swap)
  next
    case False
    then have "sift_up cmp i h = h" by (subst sift_up.simps) auto
    moreover have "heap_at cmp h i" using False by (auto simp: heap_at_def)
    ultimately show ?thesis using "1.prems"(3) by (metis is_heap_def)
  qed
qed

lemma greater_child:
  assumes "orders_on (set h) cmp" "i * 2 + 1 < length h"
  shows "parent (greater_child cmp i h) = i" "greater_child cmp i h < length h" "i < greater_child cmp i h"
    and "\<And>j. 0 < j \<Longrightarrow> j < length h \<Longrightarrow> parent j = i \<Longrightarrow> geq cmp (h ! greater_child cmp i h) (h ! j)"
proof -
  show "parent (greater_child cmp i h) = i" "greater_child cmp i h < length h" "i < greater_child cmp i h"
    using assms(2) by (auto simp: greater_child_def Let_def parent_def)
  fix j assume j: "0 < j" "j < length h" "parent j = i"
  have self: "geq cmp x x" if "x \<in> set h" for x using ordersD(2) [OF assms(1) that that] by simp
  from j parent_eq [OF j(1), of i] have "j = i * 2 + 1 \<or> j = i * 2 + 1 + 1" by (simp add: mult.commute)
  then show "geq cmp (h ! greater_child cmp i h) (h ! j)"
    using orders_flip [OF assms(1), of "h ! (i * 2 + 1 + 1)" "h ! (i * 2 + 1)"] assms(2) j(2) self
    by (auto simp: greater_child_def Let_def not_less)
qed

lemma sift_down_swap:
  assumes o: "orders_on (set h) cmp" and i: "i * 2 + 1 < length h"
    and h: "\<And>j. parent j \<noteq> i \<Longrightarrow> heap_at cmp h j" and b: "bypass cmp i h"
    and c: "c = greater_child cmp i h" and less: "\<not> geq cmp (h ! i) (h ! c)"
  shows "(\<forall>j. parent j \<noteq> c \<longrightarrow> heap_at cmp (swap i c h) j) \<and> bypass cmp c (swap i c h)"
proof -
  let ?h = "swap i c h"
  note gc = greater_child [OF o i, folded c]
  have n: "?h ! m = (if m = c then h ! i else if m = i then h ! c else h ! m)" for m
    using gc by (simp add: nth_swap)
  have down: "geq cmp (h ! c) (h ! i)" using not_geq [OF o _ less] gc by simp
  have "heap_at cmp ?h j" if "parent j \<noteq> c" for j
  proof (cases "0 < j \<and> j < length h")
    case True
    consider "j = c" | "parent j = i" "j \<noteq> c" | "j = i" | "parent j \<noteq> i" "j \<noteq> i" "j \<noteq> c"
      using gc(1) by blast
    then show ?thesis
    proof cases
      case 1
      then show ?thesis using down gc by (simp add: heap_at_def n)
    next
      case 2
      then show ?thesis using gc(3) gc(4) [of j] True parent_less [of j] by (simp add: heap_at_def n)
    next
      case 3
      then show ?thesis
        using b gc True parent_less [of i] that by (simp add: heap_at_def n bypass_def)
    next
      case 4
      then show ?thesis using h [of j] that True by (simp add: heap_at_def n)
    qed
  qed (auto simp: heap_at_def)
  moreover have "bypass cmp c ?h"
    unfolding bypass_def
  proof (intro allI impI)
    fix j assume j: "0 < c \<and> 0 < j \<and> j < length ?h \<and> parent j = c"
    then have "geq cmp (h ! c) (h ! j)" using h [of j] gc(3) by (simp add: heap_at_def)
    moreover have "c < j" using j parent_less [of j] by simp
    ultimately show "geq cmp (?h ! parent c) (?h ! j)" using gc by (simp add: n)
  qed
  ultimately show ?thesis by blast
qed

lemma sift_down_heap:
  assumes "orders_on (set h) cmp" "i < length h" "\<And>j. parent j \<noteq> i \<Longrightarrow> heap_at cmp h j" "bypass cmp i h"
  shows "is_heap cmp (sift_down cmp i h) \<and> mset (sift_down cmp i h) = mset h"
  using assms
proof (induction cmp i h rule: sift_down.induct)
  case (1 cmp i h)
  let ?c = "greater_child cmp i h"
  show ?case
  proof (cases "i * 2 + 1 < length h")
    case True
    note gc = greater_child [OF "1.prems"(1) True]
    show ?thesis
    proof (cases "geq cmp (h ! i) (h ! ?c)")
      case geq: True
      then have "sift_down cmp i h = h" using True by (subst sift_down.simps) (simp add: Let_def)
      moreover have "heap_at cmp h j" if "parent j = i" for j
      proof (cases "0 < j \<and> j < length h")
        case j: True
        from geq_trans [OF "1.prems"(1) _ geq gc(4)] that j "1.prems"(2) gc(2) show ?thesis
          by (simp add: heap_at_def)
      qed (auto simp: heap_at_def)
      ultimately show ?thesis using "1.prems"(3) by (metis is_heap_def)
    next
      case less: False
      let ?h = "swap i ?c h"
      have "orders_on (set ?h) cmp" using "1.prems"(1,2) gc by (simp add: set_swap)
      moreover note sift_down_swap [OF "1.prems"(1) True "1.prems"(3,4) refl less]
      ultimately have "is_heap cmp (sift_down cmp ?c ?h) \<and> mset (sift_down cmp ?c ?h) = mset ?h"
        using "1.IH" [OF True refl less] gc by simp
      moreover have "sift_down cmp i h = sift_down cmp ?c ?h"
        using True less by (subst sift_down.simps) (simp add: Let_def)
      ultimately show ?thesis using "1.prems"(2) gc by (simp add: mset_swap)
    qed
  next
    case False
    then have "sift_down cmp i h = h" by (subst sift_down.simps) simp
    moreover have "heap_at cmp h j" if "parent j = i" for j
      using parent_eq [of j i] that False by (auto simp: heap_at_def)
    ultimately show ?thesis using "1.prems"(3) by (metis is_heap_def)
  qed
qed

lemma heap_root:
  assumes "orders_on (set h) cmp" "is_heap cmp h" "i < length h"
  shows "geq cmp (h ! 0) (h ! i)"
  using assms(3)
proof (induction i rule: less_induct)
  case (less i)
  show ?case
  proof (cases "i = 0")
    case True
    then show ?thesis using ordersD(2) [OF assms(1), of "h ! 0" "h ! 0"] less.prems by simp
  next
    case False
    then have p: "parent i < i" by (simp add: parent_less)
    with less have "geq cmp (h ! 0) (h ! parent i)" by simp
    moreover have "geq cmp (h ! parent i) (h ! i)"
      using assms(2) False less.prems by (simp add: is_heap_def heap_at_def)
    moreover have "{h ! 0, h ! parent i, h ! i} \<subseteq> set h"
      using less.prems p by (auto intro!: nth_mem)
    ultimately show ?thesis using geq_trans [OF assms(1)] by blast
  qed
qed

section \<open>What the heap holds\<close>

text \<open>
  Of the values added so far, those not in the heap are not smaller than any in it, and the
  heap is full if there is one.
\<close>

definition topk_ok :: "nat \<Rightarrow> 'a comparator \<Rightarrow> 'a list \<Rightarrow> 'a list \<Rightarrow> bool" where
  "topk_ok k cmp xs h \<longleftrightarrow>
     is_heap cmp h \<and> length h \<le> k \<and>
     (\<exists>ds. mset xs = mset h + mset ds \<and> (ds \<noteq> [] \<longrightarrow> length h = k) \<and>
        (\<forall>d \<in> set ds. \<forall>x \<in> set h. cmp x d \<le> 0))"

lemma topk_ok_empty: "topk_ok k cmp [] []"
  by (simp add: topk_ok_def is_heap_def heap_at_def)

lemma topk_grow:
  assumes "orders_on (insert x (set h)) cmp" "is_heap cmp h"
  shows "is_heap cmp (sift_up cmp (length h) (h @ [x])) \<and> mset (sift_up cmp (length h) (h @ [x])) = add_mset x (mset h)"
proof -
  have "heap_at cmp (h @ [x]) j" if "j \<noteq> length h" for j
  proof (cases "0 < j \<and> j < length h")
    case True
    moreover have "heap_at cmp h j" using assms(2) by (simp add: is_heap_def)
    moreover have "parent j < length h" using True parent_less [of j] by simp
    ultimately show ?thesis by (simp add: heap_at_def nth_append)
  qed (use that in \<open>auto simp: heap_at_def\<close>)
  moreover have "parent j \<noteq> length h" if "0 < j" "j < length (h @ [x])" for j
    using parent_less [OF that(1)] that(2) by simp
  then have "bypass cmp (length h) (h @ [x])" unfolding bypass_def by blast
  ultimately show ?thesis
    using sift_up_heap [of "h @ [x]" cmp "length h"] assms(1) by simp
qed

lemma topk_replace:
  assumes "orders_on (insert x (set h)) cmp" "is_heap cmp h" "h \<noteq> []"
  shows "is_heap cmp (sift_down cmp 0 (h[0 := x])) \<and>
    add_mset (h ! 0) (mset (sift_down cmp 0 (h[0 := x]))) = add_mset x (mset h)"
proof -
  obtain y ys where h: "h = y # ys" using assms(3) by (cases h) auto
  have "orders_on (set (h[0 := x])) cmp" using assms(1) by (rule orders_on_subset) (auto simp: h)
  moreover have "heap_at cmp (h[0 := x]) j" if "parent j \<noteq> 0" for j
  proof -
    have "heap_at cmp h j" "j \<noteq> 0" using assms(2) that by (auto simp: is_heap_def parent_def)
    then show ?thesis using that by (simp add: heap_at_def)
  qed
  moreover have "bypass cmp 0 (h[0 := x])" by (simp add: bypass_def)
  ultimately show ?thesis using sift_down_heap [of "h[0 := x]" cmp 0] by (simp add: h)
qed

lemma topk_add_ok:
  assumes o: "orders_on (insert x (set xs)) cmp" and ok: "topk_ok k cmp xs h"
  shows "topk_ok k cmp (xs @ [x]) (topk_add k cmp x h)"
proof -
  from ok obtain ds where ds: "mset xs = mset h + mset ds" "ds \<noteq> [] \<Longrightarrow> length h = k"
      "\<And>d y. d \<in> set ds \<Longrightarrow> y \<in> set h \<Longrightarrow> cmp y d \<le> 0"
    and h: "is_heap cmp h" "length h \<le> k" by (auto simp: topk_ok_def)
  have sub: "set h \<subseteq> set xs" "set ds \<subseteq> set xs"
    using ds(1) by (metis Un_upper1 Un_upper2 set_mset_mset set_mset_union)+
  have oh: "orders_on (insert x (set h)) cmp" using o sub by (auto intro: orders_on_subset)
  show ?thesis
  proof (cases "length h < k")
    case True
    then have "ds = []" using ds(2) by auto
    moreover have "k \<noteq> 0" using True by simp
    moreover have "length (sift_up cmp (length h) (h @ [x])) = Suc (length h)"
      using topk_grow [OF oh h(1)] by (metis size_add_mset size_mset)
    ultimately show ?thesis
      using topk_grow [OF oh h(1)] True ds(1)
      by (auto simp: topk_ok_def topk_add_def intro!: exI [of _ "[]"])
  next
    case full: False
    then have len: "length h = k" using h(2) by simp
    show ?thesis
    proof (cases "k \<noteq> 0 \<and> cmp x (h ! 0) < 0")
      case True
      then have ne: "h \<noteq> []" using len by auto
      let ?h = "sift_down cmp 0 (h[0 := x])"
      note r = topk_replace [OF oh h(1) ne]
      have "length ?h = k" using r len by (metis add_right_cancel size_add_mset size_mset Suc_inject)
      have hs: "set ?h \<subseteq> insert x (set h)"
        using r by (metis insert_subset order_refl set_mset_add_mset_insert set_mset_mset subset_insertI2)
      have low: "cmp y (h ! 0) \<le> 0" if "y \<in> set ?h" for y
      proof (cases "y = x")
        case False
        with that hs have "y \<in> set h" by blast
        then obtain i where i: "i < length h" "y = h ! i" by (metis in_set_conv_nth)
        with heap_root [OF _ h(1) this(1)] oh
        have "geq cmp (h ! 0) y" by (auto intro: orders_on_subset)
        then show ?thesis using orders_flip [OF oh, of y "h ! 0"] i ne by simp
      qed (use True in simp)
      have all: "cmp y d \<le> 0" if y: "y \<in> set ?h" and d: "d \<in> set (h ! 0 # ds)" for y d
      proof (cases "d = h ! 0")
        case False
        then have "cmp (h ! 0) d \<le> 0" using d ds(3) ne by simp
        moreover have "h ! 0 \<in> set h" using ne by simp
        then have "{y, h ! 0, d} \<subseteq> insert x (set xs)" using y d hs sub by auto
        ultimately show ?thesis using orders_trans [OF o _ _ _ low [OF y]] by blast
      qed (use low y in simp)
      have "mset (xs @ [x]) = mset ?h + mset (h ! 0 # ds)" using r ds(1) by simp
      moreover have "topk_add k cmp x h = ?h" using True full by (simp add: topk_add_def)
      ultimately show ?thesis
        using all r \<open>length ?h = k\<close> unfolding topk_ok_def by (metis order_refl)
    next
      case False
      then have "topk_add k cmp x h = h" using full by (auto simp: topk_add_def)
      moreover have "cmp y x \<le> 0" if "y \<in> set h" for y
      proof -
        from that obtain i where i: "i < length h" "y = h ! i" by (metis in_set_conv_nth)
        then have ne: "h ! 0 \<in> set h" "k \<noteq> 0" using len by auto
        have "geq cmp (h ! 0) y" using heap_root [OF _ h(1) i(1)] i(2) oh by (auto intro: orders_on_subset)
        then have "cmp y (h ! 0) \<le> 0" using orders_flip [OF oh, of y "h ! 0"] that ne by simp
        moreover have "cmp (h ! 0) x \<le> 0" using False ne orders_flip [OF oh, of "h ! 0" x] by simp
        ultimately show ?thesis using orders_trans [OF oh, of y "h ! 0" x] that ne by simp
      qed
      ultimately show ?thesis
        using h ds len by (auto simp: topk_ok_def intro!: exI [of _ "x # ds"])
    qed
  qed
qed

definition topk_all :: "nat \<Rightarrow> 'a comparator \<Rightarrow> 'a list \<Rightarrow> 'a list" where
  "topk_all k cmp xs = fold (topk_add k cmp) xs []"

lemma topk_all_ok:
  "orders_on (set xs) cmp \<Longrightarrow> topk_ok k cmp xs (topk_all k cmp xs)"
proof (induction xs rule: rev_induct)
  case (snoc x xs)
  then have "topk_ok k cmp xs (topk_all k cmp xs)" by (auto intro: orders_on_subset)
  with topk_add_ok [of x xs cmp k] snoc.prems show ?case by (simp add: topk_all_def)
qed (simp add: topk_ok_empty topk_all_def)

text \<open>Adding values one by one and sorting the heap gives the first \<open>k\<close> of all the values in order.\<close>

theorem topk_is_take:
  assumes "orders_on (set xs) cmp"
  shows "topk_sorted cmp (topk_all k cmp xs) = take k (sort_by cmp xs)"
proof -
  let ?h = "topk_all k cmp xs"
  obtain ds where ds: "mset xs = mset ?h + mset ds" "ds \<noteq> [] \<Longrightarrow> length ?h = k"
      "\<And>d y. d \<in> set ds \<Longrightarrow> y \<in> set ?h \<Longrightarrow> cmp y d \<le> 0" and len: "length ?h \<le> k"
    using topk_all_ok [OF assms, of k] by (auto simp: topk_ok_def)
  have sets: "set xs = set ?h \<union> set ds" using ds(1) by (metis set_mset_mset set_mset_union)
  have "sorted_by cmp (sort_by cmp ?h @ sort_by cmp ds)"
    using sorted_sort_by [OF assms] ds(3) sets by (simp add: sorted_wrt_append)
  moreover have "mset (sort_by cmp xs) = mset (sort_by cmp ?h @ sort_by cmp ds)" using ds(1) by simp
  ultimately have "sort_by cmp xs = sort_by cmp ?h @ sort_by cmp ds"
    using sorted_by_unique [OF assms _ sorted_sort_by [OF assms subset_refl]] by simp
  then show ?thesis using ds(2) len by (cases "ds = []") (simp_all add: topk_sorted_def)
qed

end
