(* ===== verification/Json_Identity.thy ===== *)
theory Json_Identity
  imports Json_Equal Js_Text Top_K
begin

text \<open>
  \<open>valueIdentity\<close> of \<open>src/src/query-utils.ts\<close>, the text under which the executor files a
  primary key: JSON with the keys of every object sorted. Values that \<open>structuralEqual\<close>
  accepts have the same identity.
\<close>

section \<open>The order of property names\<close>

text \<open>
  \<open>Array.sort\<close> without a comparator compares UTF-16 code units. Two well-formed texts with
  the same code units are the same text; the comparison of the bytes never decides for them
  and makes the order total on every \<^typ>\<open>string\<close>.
\<close>

definition key_less :: "string \<Rightarrow> string \<Rightarrow> bool" where
  "key_less a b \<longleftrightarrow>
     str_less a b \<or> code_units a = code_units b \<and> units_less (map byte a) (map byte b)"

definition key_cmp :: "(string \<times> 'a) comparator" where
  "key_cmp p q = (if key_less (fst p) (fst q) then - 1 else if fst p = fst q then 0 else 1)"

lemma key_less_irrefl [simp]: "\<not> key_less a a"
  by (simp add: key_less_def str_less_def)

lemma key_less_trans: "key_less a b \<Longrightarrow> key_less b c \<Longrightarrow> key_less a c"
  by (auto simp: key_less_def str_less_def intro: units_less_trans)

lemma map_byte_inj: "map byte a = map byte b \<Longrightarrow> a = b"
  by (metis byte_inj injI list.inj_map_strong)

lemma key_less_linear: "key_less a b \<or> a = b \<or> key_less b a"
  using units_less_linear [of "code_units a" "code_units b"] units_less_linear [of "map byte a" "map byte b"]
  by (auto simp: key_less_def str_less_def dest: map_byte_inj)

lemma key_less_asym: "key_less a b \<Longrightarrow> \<not> key_less b a"
  using key_less_trans key_less_irrefl by blast

lemma key_cmp_orders:
  assumes "distinct_keys ps"
  shows "orders_on (set ps) key_cmp"
proof -
  have "p = q" if "p \<in> set ps" "q \<in> set ps" "fst p = fst q" for p q
    using assms that unfolding distinct_keys_def by (metis eq_key_imp_eq_value prod.collapse)
  moreover have "key_cmp p q < 0 \<longleftrightarrow> 0 < key_cmp q p" for p q :: "string \<times> 'a"
    using key_less_asym key_less_linear [of "fst p" "fst q"] by (auto simp: key_cmp_def)
  moreover have "key_cmp p q = 0 \<longleftrightarrow> fst p = fst q" "key_cmp p q \<le> 0 \<longleftrightarrow> key_less (fst p) (fst q) \<or> fst p = fst q"
    for p q :: "string \<times> 'a"
    by (auto simp: key_cmp_def)
  ultimately show ?thesis
    unfolding orders_on_def by (auto intro: key_less_trans)
qed

section \<open>The identity of a value\<close>

fun valueIdentity :: "json \<Rightarrow> string" where
  "valueIdentity (JArr xs) = CHR ''['' # comma_sep (map valueIdentity xs) @ '']''"
| "valueIdentity (JObj ps) =
     CHR ''{'' # comma_sep (map (\<lambda>(k, t). quote_text k @ CHR '':'' # t)
       (sort_by key_cmp (map (\<lambda>p. (fst p, valueIdentity (snd p))) ps))) @ ''}''"
| "valueIdentity v = json_text v"

lemma map_of_identity: "map_of (map (\<lambda>p. (fst p, f (snd p))) ps) k = map_option f (map_of ps k)"
  by (induction ps) auto

lemma sort_same_map:
  assumes "distinct_keys ps" "distinct_keys qs" "map_of ps = map_of qs"
  shows "sort_by key_cmp ps = sort_by key_cmp qs"
proof -
  have "set ps = set qs"
    using assms unfolding distinct_keys_def by (metis graph_map_of_if_distinct_dom)
  then have m: "mset ps = mset qs"
    using assms(1,2) by (metis distinct_keys_def distinct_map set_eq_iff_mset_eq_distinct)
  have "sorted_by key_cmp (sort_by key_cmp ps)" "sorted_by key_cmp (sort_by key_cmp qs)"
    using sorted_sort_by [OF key_cmp_orders] assms(1,2) by blast+
  with m show ?thesis
    using sorted_by_unique [of "set ps" key_cmp "sort_by key_cmp ps" "sort_by key_cmp qs"]
      key_cmp_orders [OF assms(1)] by simp
qed

theorem identity_of_equal:
  "json_wf a \<Longrightarrow> json_wf b \<Longrightarrow> jeq a b \<Longrightarrow> valueIdentity a = valueIdentity b"
proof (induction a arbitrary: b rule: json_induct)
  case (JArr xs)
  then obtain ys where b: "b = JArr ys" "list_all2 jeq xs ys" by (auto split: json.splits)
  then have "length xs = length ys" by (simp add: list_all2_lengthD)
  then have "map valueIdentity xs = map valueIdentity ys"
    using JArr b by (auto simp: list_all2_conv_all_nth list_eq_iff_nth_eq [of "map valueIdentity xs"])
  then show ?case by (simp add: b)
next
  case (JObj ps)
  then obtain qs where b: "b = JObj qs" by (auto split: json.splits)
  have d: "distinct_keys ps" "distinct_keys qs" using JObj.prems by (simp_all add: b)
  have rel: "rel_option jeq (map_of ps k) (map_of qs k)" for k
    using JObj.prems by (simp add: b jeq_JObj del: jeq.simps)
  let ?f = "map (\<lambda>p. (fst p, valueIdentity (snd p)))"
  have "map_option valueIdentity (map_of ps k) = map_option valueIdentity (map_of qs k)" for k
  proof (cases "map_of ps k")
    case (Some x)
    with rel [of k] obtain y where y: "map_of qs k = Some y" "jeq x y" by (auto simp: option_rel_Some1)
    have "json_wf x" "json_wf y" using JObj.prems map_of_in_set [OF Some] map_of_in_set [OF y(1)] by (auto simp: b)
    with JObj.IH [OF map_of_in_set [OF Some], of y] y Some show ?thesis by simp
  qed (use rel [of k] in simp)
  then have "map_of (?f ps) = map_of (?f qs)" by (simp add: map_of_identity fun_eq_iff)
  moreover have "distinct_keys (?f ps)" "distinct_keys (?f qs)" using d by (simp_all add: distinct_keys_def comp_def)
  ultimately have "sort_by key_cmp (?f ps) = sort_by key_cmp (?f qs)" by (rule sort_same_map [rotated 2])
  then show ?case by (simp add: b)
qed auto

end
