(* ===== verification/Json_Clone.thy ===== *)
theory Json_Clone
  imports Json_Value
begin

text \<open>
  \<open>cloneJsonValue\<close> of \<open>src/src/json.ts\<close>: the deep copy that every stored or returned value
  goes through, with its limits on depth, nodes and bytes. The closure variables \<open>nodes\<close>
  and \<open>bytes\<close> are passed along explicitly. The lemmas show that the copy is the value
  itself, that it is refused exactly when one of the three limits is passed, and that the
  bytes charged are those of the text \<open>JSON.stringify(value)\<close>.
\<close>

definition MAX_JSON_DEPTH :: nat where "MAX_JSON_DEPTH = 128"
definition MAX_JSON_NODES :: nat where "MAX_JSON_NODES = 1000000"

type_synonym counters = "nat \<times> nat"  \<comment> \<open>nodes, bytes\<close>

definition charge :: "nat \<Rightarrow> nat \<Rightarrow> counters \<Rightarrow> counters outcome" where
  "charge maxBytes count st =
     (let bytes = snd st + count in
      if bytes > maxBytes then Inl (DbError LIMIT_EXCEEDED ''exceeds JSON byte limit'')
      else Inr (fst st, bytes))"

text \<open>
  The loop over the characters of a string. A character outside ASCII is charged its UTF-8
  bytes, which are the \<open>char\<close>s of the representation, one at a time.
\<close>

definition char_cost :: "char \<Rightarrow> nat" where
  "char_cost c =
     (if c = CHR 0x22 \<or> c = CHR 0x5C \<or> c \<in> {CHR 0x08, CHR 0x09, CHR 0x0A, CHR 0x0C, CHR 0x0D}
      then 2 else if of_char c < (32 :: nat) then 6 else 1)"

fun charge_chars :: "nat \<Rightarrow> string \<Rightarrow> counters \<Rightarrow> counters outcome" where
  "charge_chars maxBytes [] st = Inr st"
| "charge_chars maxBytes (c # cs) st =
     (case charge maxBytes (char_cost c) st of
        Inl e \<Rightarrow> Inl e | Inr st' \<Rightarrow> charge_chars maxBytes cs st')"

text \<open>\<open>text.length\<close>: UTF-16 code units, read off the UTF-8 bytes.\<close>

fun utf16_length :: "string \<Rightarrow> nat" where
  "utf16_length [] = 0"
| "utf16_length (c # s) =
     (let b = of_char c :: nat in
      if 240 \<le> b \<and> 3 \<le> length s then 2 + utf16_length (drop 3 s)
      else (if 128 \<le> b \<and> b < 192 then 0 else 1) + utf16_length s)"

definition stringBytes :: "nat \<Rightarrow> string \<Rightarrow> counters \<Rightarrow> counters outcome" where
  "stringBytes maxBytes s st =
     (if utf16_length s + snd st + 2 > maxBytes then charge maxBytes (maxBytes + 1) st
      else case charge maxBytes 2 st of
             Inl e \<Rightarrow> Inl e | Inr st' \<Rightarrow> charge_chars maxBytes s st')"

definition invalid_value :: "string \<Rightarrow> jserr" where
  "invalid_value m = DbError INVALID_VALUE m"

definition map_fst_out :: "('a \<Rightarrow> 'b) \<Rightarrow> ('a \<times> 's) outcome \<Rightarrow> ('b \<times> 's) outcome" where
  "map_fst_out f r = (case r of Inl e \<Rightarrow> Inl e | Inr (a, s) \<Rightarrow> Inr (f a, s))"

function clone :: "nat \<Rightarrow> nat \<Rightarrow> json \<Rightarrow> counters \<Rightarrow> (json \<times> counters) outcome"
  and clone_items :: "nat \<Rightarrow> nat \<Rightarrow> json list \<Rightarrow> counters \<Rightarrow> (json list \<times> counters) outcome"
  and clone_fields ::
    "nat \<Rightarrow> nat \<Rightarrow> (string \<times> json) list \<Rightarrow> counters \<Rightarrow> ((string \<times> json) list \<times> counters) outcome"
where
  "clone maxBytes depth v st =
     (let st = (Suc (fst st), snd st) in
      if fst st > MAX_JSON_NODES \<or> depth > MAX_JSON_DEPTH
      then Inl (invalid_value ''exceeds JSON depth/node limits'')
      else case v of
        JStr s \<Rightarrow> (case stringBytes maxBytes s st of Inl e \<Rightarrow> Inl e | Inr st \<Rightarrow> Inr (JStr s, st))
      | JNull \<Rightarrow> (case charge maxBytes 4 st of Inl e \<Rightarrow> Inl e | Inr st \<Rightarrow> Inr (JNull, st))
      | JBool b \<Rightarrow>
          (case charge maxBytes (if b then 4 else 5) st of
             Inl e \<Rightarrow> Inl e | Inr st \<Rightarrow> Inr (JBool b, st))
      | JNum n \<Rightarrow>
          (case charge maxBytes (length (num_text n)) st of
             Inl e \<Rightarrow> Inl e | Inr st \<Rightarrow> Inr (JNum n, st))
      | JArr xs \<Rightarrow>
          if length xs + fst st > MAX_JSON_NODES
          then Inl (invalid_value ''exceeds JSON node limits'')
          else (case charge maxBytes (2 + (length xs - 1)) st of
                  Inl e \<Rightarrow> Inl e
                | Inr st \<Rightarrow> map_fst_out JArr (clone_items maxBytes (Suc depth) xs st))
      | JObj ps \<Rightarrow>
          if length ps + fst st > MAX_JSON_NODES
          then Inl (invalid_value ''exceeds JSON node limits'')
          else (case charge maxBytes (2 + (length ps - 1)) st of
                  Inl e \<Rightarrow> Inl e
                | Inr st \<Rightarrow> map_fst_out JObj (clone_fields maxBytes (Suc depth) ps st)))"
| "clone_items maxBytes depth [] st = Inr ([], st)"
| "clone_items maxBytes depth (x # xs) st =
     (case clone maxBytes depth x st of
        Inl e \<Rightarrow> Inl e
      | Inr (y, st) \<Rightarrow> map_fst_out (\<lambda>ys. y # ys) (clone_items maxBytes depth xs st))"
| "clone_fields maxBytes depth [] st = Inr ([], st)"
| "clone_fields maxBytes depth (p # ps) st =
     (case stringBytes maxBytes (fst p) st of
        Inl e \<Rightarrow> Inl e
      | Inr st \<Rightarrow>
          (case charge maxBytes 1 st of
             Inl e \<Rightarrow> Inl e
           | Inr st \<Rightarrow>
               (case clone maxBytes depth (snd p) st of
                  Inl e \<Rightarrow> Inl e
                | Inr (y, st) \<Rightarrow>
                    map_fst_out (\<lambda>ys. (fst p, y) # ys) (clone_fields maxBytes depth ps st))))"
  by pat_completeness auto
termination
  by (relation "measure (\<lambda>a. case a of
        Inl (_, _, v, _) \<Rightarrow> size v
      | Inr (Inl (_, _, xs, _)) \<Rightarrow> size_list size xs
      | Inr (Inr (_, _, ps, _)) \<Rightarrow> size_list (\<lambda>p. Suc (size (snd p))) ps)")
    (auto simp: size_prod_simp split: prod.splits)

definition cloneJsonValue :: "nat \<Rightarrow> json \<Rightarrow> json outcome" where
  "cloneJsonValue maxBytes v =
     (case clone maxBytes 0 v (0, 0) of Inl e \<Rightarrow> Inl e | Inr (w, _) \<Rightarrow> Inr w)"

definition default_clone_bytes :: nat where
  "default_clone_bytes = 64 * 1024 * 1024"

section \<open>What the copy costs and returns\<close>

text \<open>
  The three limits on a value cloned at depth \<open>d\<close> from the counters \<open>(n, b)\<close>.
\<close>

definition fits :: "nat \<Rightarrow> nat \<Rightarrow> json \<Rightarrow> counters \<Rightarrow> bool" where
  "fits mb d v st \<longleftrightarrow>
     fst st + node_count v \<le> MAX_JSON_NODES \<and> d + json_depth v \<le> MAX_JSON_DEPTH \<and>
     snd st + length (json_text v) \<le> mb"

definition after :: "json \<Rightarrow> counters \<Rightarrow> counters" where
  "after v st = (fst st + node_count v, snd st + length (json_text v))"

lemma char_cost_length: "length (quote_char c) = char_cost c"
  by (simp add: quote_char_def char_cost_def)

lemma charge_Inr: "charge mb k st = Inr st' \<longleftrightarrow> snd st + k \<le> mb \<and> st' = (fst st, snd st + k)"
  by (auto simp: charge_def Let_def)

lemma charge_chars_Inr:
  "snd st \<le> mb \<Longrightarrow> charge_chars mb s st = Inr st' \<longleftrightarrow>
     snd st + length (concat (map quote_char s)) \<le> mb \<and>
     st' = (fst st, snd st + length (concat (map quote_char s)))"
proof (induction mb s st rule: charge_chars.induct)
  case (2 mb c cs st)
  then show ?case
    by (auto simp: char_cost_length charge_def Let_def)
qed auto

lemma utf16_length_le: "utf16_length s \<le> length s"
proof (induction s rule: utf16_length.induct)
  case (2 c s)
  show ?case
  proof (cases "240 \<le> (of_char c :: nat) \<and> 3 \<le> length s")
    case True
    with 2(1) [OF refl True] show ?thesis by (simp add: Let_def) linarith
  next
    case False
    with 2(2) [OF refl False] show ?thesis by (auto simp: Let_def)
  qed
qed simp

lemma length_le_quoted: "length s \<le> length (concat (map quote_char s))"
  by (induction s) (auto simp: char_cost_length char_cost_def)

lemma length_quote_text: "length (quote_text s) = 2 + length (concat (map quote_char s))"
  by (simp add: quote_text_def)

lemma stringBytes_Inr:
  assumes "snd st \<le> mb"
  shows "stringBytes mb s st = Inr st' \<longleftrightarrow>
     snd st + length (quote_text s) \<le> mb \<and> st' = (fst st, snd st + length (quote_text s))"
proof -
  let ?q = "length (concat (map quote_char s))"
  have le: "utf16_length s \<le> ?q"
    using utf16_length_le length_le_quoted by (rule order.trans)
  show ?thesis
  proof (cases "utf16_length s + snd st + 2 > mb")
    case True
    with le show ?thesis
      by (auto simp: stringBytes_def charge_def length_quote_text)
  next
    case False
    then show ?thesis
      using charge_chars_Inr [of "(fst st, snd st + 2)" mb s st']
      by (auto simp: stringBytes_def charge_def length_quote_text Let_def)
  qed
qed

lemma map_fst_out_Inr: "map_fst_out f r = Inr z \<longleftrightarrow> (\<exists>a s. r = Inr (a, s) \<and> z = (f a, s))"
  by (auto simp: map_fst_out_def split: sum.splits)

lemma case_out_Inr:
  "(case r of Inl e \<Rightarrow> Inl e | Inr a \<Rightarrow> f a) = Inr z \<longleftrightarrow> (\<exists>a. r = Inr a \<and> f a = Inr z)"
  by (auto split: sum.splits)

lemmas clone_step_simps = case_out_Inr map_fst_out_Inr charge_Inr

text \<open>Sums over the elements of an array and the fields of an object.\<close>

definition nodes_of :: "json list \<Rightarrow> nat" where
  "nodes_of xs = sum_list (map node_count xs)"

definition depth_of :: "json list \<Rightarrow> nat" where
  "depth_of xs = foldr max (map json_depth xs) 0"

lemma sum_simps [simp]:
  "nodes_of [] = 0" "nodes_of (x # xs) = node_count x + nodes_of xs"
  "depth_of [] = 0" "depth_of (x # xs) = max (json_depth x) (depth_of xs)"
  by (simp_all add: nodes_of_def depth_of_def)

lemma node_count_JArr: "node_count (JArr xs) = Suc (nodes_of xs)"
  and node_count_JObj: "node_count (JObj ps) = Suc (nodes_of (map snd ps))"
  by (simp_all add: nodes_of_def comp_def)

lemma foldr_max_Suc:
  "foldr max (map (\<lambda>x. Suc (f x)) xs) 0 = (if xs = [] then 0 else Suc (foldr max (map f xs) 0))"
  by (induction xs) auto

lemma json_depth_JArr: "json_depth (JArr xs) = (if xs = [] then 0 else Suc (depth_of xs))"
  and json_depth_JObj: "json_depth (JObj ps) = (if ps = [] then 0 else Suc (depth_of (map snd ps)))"
  by (simp_all add: depth_of_def foldr_max_Suc comp_def)

definition items_len :: "json list \<Rightarrow> nat" where
  "items_len xs = sum_list (map (\<lambda>x. length (json_text x)) xs)"

definition fields_len :: "(string \<times> json) list \<Rightarrow> nat" where
  "fields_len ps =
     sum_list (map (\<lambda>p. length (quote_text (fst p)) + 1 + length (json_text (snd p))) ps)"

lemma len_simps [simp]:
  "items_len [] = 0" "items_len (x # xs) = length (json_text x) + items_len xs"
  "fields_len [] = 0"
  "fields_len (p # ps) =
     length (quote_text (fst p)) + 1 + length (json_text (snd p)) + fields_len ps"
  by (simp_all add: items_len_def fields_len_def)

lemma json_text_len:
  "length (json_text (JArr xs)) = 2 + (length xs - 1) + items_len xs"
  "length (json_text (JObj ps)) = 2 + (length ps - 1) + fields_len ps"
  by (simp_all add: length_comma_sep items_len_def fields_len_def comp_def)

lemma length_le_nodes: "length xs \<le> nodes_of xs"
proof (induction xs)
  case (Cons x xs)
  have "length (x # xs) = 1 + length xs" "1 \<le> node_count x" by (simp_all add: Suc_le_eq)
  with Cons show ?case unfolding sum_simps by linarith
qed simp

lemmas node_depth_len = node_count_JArr node_count_JObj json_depth_JArr json_depth_JObj json_text_len

declare node_count.simps(1,2) [simp del] json_depth.simps(1,2) [simp del] json_text.simps(5,6) [simp del]
declare clone.simps [simp del]

text \<open>
  The copy succeeds exactly within the limits, returns the value and advances the counters
  by the nodes and the length of the text.
\<close>

definition clone_spec :: "nat \<Rightarrow> json \<Rightarrow> bool" where
  "clone_spec mb v \<longleftrightarrow> (\<forall>d st r. snd st \<le> mb \<longrightarrow>
     (clone mb d v st = Inr r \<longleftrightarrow> fits mb d v st \<and> r = (v, after v st)))"

lemma clone_specD:
  "clone_spec mb v \<Longrightarrow> b \<le> mb \<Longrightarrow>
     clone mb d v (n, b) = Inr r \<longleftrightarrow> fits mb d v (n, b) \<and> r = (v, after v (n, b))"
  by (simp add: clone_spec_def del: split_paired_All)

lemma clone_items_Inr:
  assumes "\<And>x. x \<in> set xs \<Longrightarrow> clone_spec mb x" and "b \<le> mb"
  shows "clone_items mb d xs (n, b) = Inr rs \<longleftrightarrow>
     (xs = [] \<or> n + nodes_of xs \<le> MAX_JSON_NODES \<and> d + depth_of xs \<le> MAX_JSON_DEPTH) \<and>
     b + items_len xs \<le> mb \<and> rs = (xs, n + nodes_of xs, b + items_len xs)"
  using assms
proof (induction xs arbitrary: n b rs)
  case (Cons x xs)
  note IH = Cons.IH [OF Cons.prems(1) [OF list.set_intros(2)]]
  have x: "clone_spec mb x" using Cons.prems(1) by auto
  have "clone_items mb d (x # xs) (n, b) = Inr rs \<longleftrightarrow>
      fits mb d x (n, b) \<and>
      (\<exists>ys st. clone_items mb d xs (after x (n, b)) = Inr (ys, st) \<and> rs = (x # ys, st))"
    using Cons.prems(2) x by (auto simp: clone_step_simps clone_specD split: sum.splits prod.splits)
  then show ?case
    using IH Cons.prems(2) by (cases xs) (auto simp: fits_def after_def add.assoc)
qed auto

lemma clone_fields_Inr:
  assumes "\<And>p. p \<in> set ps \<Longrightarrow> clone_spec mb (snd p)" and "b \<le> mb"
  shows "clone_fields mb d ps (n, b) = Inr rs \<longleftrightarrow>
     (ps = [] \<or> n + nodes_of (map snd ps) \<le> MAX_JSON_NODES \<and>
                d + depth_of (map snd ps) \<le> MAX_JSON_DEPTH) \<and>
     b + fields_len ps \<le> mb \<and> rs = (ps, n + nodes_of (map snd ps), b + fields_len ps)"
  using assms
proof (induction ps arbitrary: n b rs)
  case (Cons p ps)
  note IH = Cons.IH [OF Cons.prems(1) [OF list.set_intros(2)]]
  obtain k x where p: "p = (k, x)" by (cases p)
  have x: "clone_spec mb x" using Cons.prems(1) [of p] p by simp
  define q where "q = b + length (quote_text (fst p)) + 1"
  have "clone_fields mb d (p # ps) (n, b) = Inr rs \<longleftrightarrow>
      q \<le> mb \<and> fits mb d (snd p) (n, q) \<and>
      (\<exists>ys st. clone_fields mb d ps (after (snd p) (n, q)) = Inr (ys, st) \<and> rs = (p # ys, st))"
    using Cons.prems(2) x
    by (auto simp: p clone_step_simps clone_specD stringBytes_Inr q_def after_def split: sum.splits prod.splits)
  then show ?case
    using IH Cons.prems(2) by (cases ps) (auto simp: fits_def after_def add.assoc q_def)
qed auto

lemma clone_spec: "clone_spec mb v"
proof (induction v rule: json_induct)
  case (JArr xs)
  show ?case
    unfolding clone_spec_def
  proof (intro allI impI)
    fix d and st :: counters and r
    assume st: "snd st \<le> mb"
    show "clone mb d (JArr xs) st = Inr r \<longleftrightarrow> fits mb d (JArr xs) st \<and> r = (JArr xs, after (JArr xs) st)"
      using length_le_nodes [of xs] clone_items_Inr [OF JArr, where d="Suc d" and n="Suc (fst st)"] st
      by (cases "xs = []")
        (auto simp: clone.simps clone_step_simps fits_def after_def node_depth_len Let_def not_less)
  qed
next
  case (JObj ps)
  show ?case
    unfolding clone_spec_def
  proof (intro allI impI)
    fix d and st :: counters and r
    assume st: "snd st \<le> mb"
    show "clone mb d (JObj ps) st = Inr r \<longleftrightarrow> fits mb d (JObj ps) st \<and> r = (JObj ps, after (JObj ps) st)"
      using length_le_nodes [of "map snd ps"] clone_fields_Inr [OF JObj, where d="Suc d" and n="Suc (fst st)"] st
      by (cases "ps = []")
        (auto simp: clone.simps clone_step_simps fits_def after_def node_depth_len Let_def not_less)
  qed
qed (auto simp: clone_spec_def clone.simps fits_def after_def clone_step_simps stringBytes_Inr Let_def not_less)

lemma cloneJsonValue_Inr:
  "cloneJsonValue mb v = Inr w \<longleftrightarrow>
     w = v \<and> json_depth v \<le> MAX_JSON_DEPTH \<and> node_count v \<le> MAX_JSON_NODES \<and> length (json_text v) \<le> mb"
  using clone_spec [of mb v]
  by (auto simp: cloneJsonValue_def clone_spec_def fits_def after_def case_out_Inr split: prod.splits)

text \<open>The copy fails with an error of the database, never with one of the language.\<close>

lemma charge_Inl: "charge mb k st = Inl e \<Longrightarrow> \<exists>c m. e = DbError c m"
  by (auto simp: charge_def Let_def split: if_splits)

lemma charge_chars_Inl: "charge_chars mb s st = Inl e \<Longrightarrow> \<exists>c m. e = DbError c m"
  by (induction mb s st rule: charge_chars.induct) (auto dest: charge_Inl split: sum.splits)

lemma stringBytes_Inl: "stringBytes mb s st = Inl e \<Longrightarrow> \<exists>c m. e = DbError c m"
  by (auto simp: stringBytes_def dest: charge_Inl charge_chars_Inl split: if_splits sum.splits)

lemma map_fst_out_Inl: "map_fst_out f r = Inl e \<longleftrightarrow> r = Inl e"
  by (auto simp: map_fst_out_def split: sum.splits)

lemma clone_Inl:
  "clone mb d v st = Inl e \<Longrightarrow> \<exists>c m. e = DbError c m"
  "clone_items mb d xs st' = Inl e \<Longrightarrow> \<exists>c m. e = DbError c m"
  "clone_fields mb d ps st'' = Inl e \<Longrightarrow> \<exists>c m. e = DbError c m"
proof (induction mb d v st and mb d xs st' and mb d ps st'' rule: clone_clone_items_clone_fields.induct)
  case (1 mb d v st)
  show ?case
  proof (cases v)
    case (JArr xs)
    with 1 show ?thesis by (auto simp: clone.simps [of mb d "JArr xs"] Let_def invalid_value_def map_fst_out_Inl dest: charge_Inl split: if_splits sum.splits)
  next
    case (JObj ps)
    with 1 show ?thesis by (auto simp: clone.simps [of mb d "JObj ps"] Let_def invalid_value_def map_fst_out_Inl dest: charge_Inl split: if_splits sum.splits)
  qed (use 1(3) in \<open>auto simp: clone.simps Let_def invalid_value_def dest: charge_Inl stringBytes_Inl split: if_splits sum.splits\<close>)
qed (auto simp: map_fst_out_Inl dest: charge_Inl stringBytes_Inl split: sum.splits prod.splits)

lemma cloneJsonValue_Inl: "cloneJsonValue mb v = Inl e \<Longrightarrow> \<exists>c m. e = DbError c m"
  using clone_Inl(1) by (auto simp: cloneJsonValue_def split: sum.splits)

end
