(* ===== verification/Js_Decimal.thy ===== *)
theory Js_Decimal
  imports Json_Value Js_Text
begin

text \<open>
  Numbers and options read from text: the decimal literals that the regular expressions of
  \<open>src/src/validation.ts\<close> and \<open>src/src/parser.ts\<close> accept, JavaScript's \<open>Number(text)\<close> and
  \<open>trim\<close>, and the remaining checks of \<open>validation.ts\<close>.
\<close>

section \<open>Digits\<close>

definition is_digit :: "char \<Rightarrow> bool" where
  "is_digit c \<longleftrightarrow> 48 \<le> byte c \<and> byte c \<le> 57"

definition digits_value :: "nat \<Rightarrow> (char \<Rightarrow> nat) \<Rightarrow> string \<Rightarrow> int" where
  "digits_value b f s = foldl (\<lambda>n c. n * int b + int (f c)) 0 s"

abbreviation dec_value :: "string \<Rightarrow> int" where
  "dec_value \<equiv> digits_value 10 (\<lambda>c. byte c - 48)"

text \<open>\<open>\d+\<close> over a whole text.\<close>

definition all_digits :: "string \<Rightarrow> bool" where
  "all_digits s \<longleftrightarrow> s \<noteq> [] \<and> list_all is_digit s"

section \<open>Decimal literals\<close>

text \<open>\<open>(?:[eE][+-]?\d+)?$\<close>: the exponent at the end of a literal.\<close>

definition exponent_value :: "string \<Rightarrow> int option" where
  "exponent_value s =
     (case s of
        [] \<Rightarrow> Some 0
      | c # r \<Rightarrow>
          if c = CHR ''e'' \<or> c = CHR ''E'' then
            (case r of
               [] \<Rightarrow> None
             | d # r' \<Rightarrow>
                 if d = CHR ''+'' then (if all_digits r' then Some (dec_value r') else None)
                 else if d = CHR ''-'' then (if all_digits r' then Some (- dec_value r') else None)
                 else (if all_digits r then Some (dec_value r) else None))
          else None)"

text \<open>
  \<open>^(?:\d+(?:\.\d*)?|\.\d+)(?:[eE][+-]?\d+)?$\<close>: the value of a literal without a sign.
\<close>

definition decimal_value :: "string \<Rightarrow> rat option" where
  "decimal_value s =
     (let a = takeWhile is_digit s; r = dropWhile is_digit s in
      case r of
        c # r' \<Rightarrow>
          if c = CHR ''.'' then
            (let b = takeWhile is_digit r'; e = dropWhile is_digit r' in
             if a = [] \<and> b = [] then None
             else map_option (\<lambda>x. scale10 (of_int (dec_value (a @ b))) (x - int (length b))) (exponent_value e))
          else if a = [] then None
          else map_option (scale10 (of_int (dec_value a))) (exponent_value r)
      | [] \<Rightarrow> if a = [] then None else Some (of_int (dec_value a)))"

text \<open>
  The same behind a sign: \<open>NUMERIC_LITERAL\<close> of the parser admits \<open>-\<close> only, \<open>DECIMAL_NUMBER\<close>
  of the validation admits \<open>+\<close> too.
\<close>

definition numeric_literal :: "string \<Rightarrow> rat option" where
  "numeric_literal s =
     (case s of
        c # r \<Rightarrow> if c = CHR ''-'' then map_option uminus (decimal_value r) else decimal_value s
      | [] \<Rightarrow> None)"

definition decimal_number :: "string \<Rightarrow> rat option" where
  "decimal_number s =
     (case s of
        c # r \<Rightarrow>
          if c = CHR ''-'' then map_option uminus (decimal_value r)
          else if c = CHR ''+'' then decimal_value r
          else decimal_value s
      | [] \<Rightarrow> None)"

definition decimal_integer :: "string \<Rightarrow> int option" where
  "decimal_integer s =
     (case s of
        c # r \<Rightarrow>
          if c = CHR ''-'' then (if all_digits r then Some (- dec_value r) else None)
          else if c = CHR ''+'' then (if all_digits r then Some (dec_value r) else None)
          else (if all_digits s then Some (dec_value s) else None)
      | [] \<Rightarrow> None)"

text \<open>\<open>^-?\d+$\<close>.\<close>

definition plain_integer :: "string \<Rightarrow> int option" where
  "plain_integer s =
     (case s of
        c # r \<Rightarrow>
          if c = CHR ''-'' then (if all_digits r then Some (- dec_value r) else None)
          else (if all_digits s then Some (dec_value s) else None)
      | [] \<Rightarrow> None)"

section \<open>White space at the ends\<close>

text \<open>\<open>trim\<close>: white space is dropped at both ends.\<close>

fun trim_end :: "string \<Rightarrow> string" where
  "trim_end [] = []"
| "trim_end (c # s) = (if drop_space (c # s) = [] then [] else c # trim_end s)"

definition js_trim :: "string \<Rightarrow> string" where
  "js_trim s = trim_end (drop_space s)"

lemma length_trim_end: "length (trim_end s) \<le> length s"
  by (induction s) auto

lemma length_js_trim: "length (js_trim s) \<le> length s"
  using length_trim_end [of "drop_space s"] length_drop_space [of s] by (simp add: js_trim_def)

section \<open>Number\<close>

definition hex_value :: "char \<Rightarrow> nat" where
  "hex_value c = (if is_digit c then byte c - 48 else if byte c < 97 then byte c - 55 else byte c - 87)"

definition is_hex :: "char \<Rightarrow> bool" where
  "is_hex c \<longleftrightarrow> is_digit c \<or> 65 \<le> byte c \<and> byte c \<le> 70 \<or> 97 \<le> byte c \<and> byte c \<le> 102"

definition radix_value :: "nat \<Rightarrow> (char \<Rightarrow> bool) \<Rightarrow> string \<Rightarrow> jsnum" where
  "radix_value b ok s =
     (if s \<noteq> [] \<and> list_all ok s then to_double (of_int (digits_value b hex_value s)) else NaN)"

text \<open>
  \<open>Number(text)\<close>: white space around is ignored, the empty text is \<open>0\<close>; hexadecimal, octal and
  binary integers, signed decimal literals and \<open>Infinity\<close> have their values, any other text
  is NaN.
\<close>

definition js_number :: "string \<Rightarrow> jsnum" where
  "js_number raw =
     (let s = js_trim raw in
      if s = [] then Fin 0
      else if take 2 s = ''0x'' \<or> take 2 s = ''0X'' then radix_value 16 is_hex (drop 2 s)
      else if take 2 s = ''0o'' \<or> take 2 s = ''0O''
        then radix_value 8 (\<lambda>c. 48 \<le> byte c \<and> byte c \<le> 55) (drop 2 s)
      else if take 2 s = ''0b'' \<or> take 2 s = ''0B''
        then radix_value 2 (\<lambda>c. byte c = 48 \<or> byte c = 49) (drop 2 s)
      else if s = ''Infinity'' \<or> s = ''+Infinity'' then PosInf
      else if s = ''-Infinity'' then NegInf
      else (case decimal_number s of None \<Rightarrow> NaN | Some x \<Rightarrow> to_double x))"

section \<open>Options read from text\<close>

definition parseStrictNumber :: "string \<Rightarrow> rat outcome" where
  "parseStrictNumber raw =
     (case decimal_number (js_trim raw) of
        None \<Rightarrow> Inl (PlainError ''must be a finite number'')
      | Some x \<Rightarrow> validateFiniteNumber (to_double x))"

definition parseStrictNonNegativeNumber :: "string \<Rightarrow> rat outcome" where
  "parseStrictNonNegativeNumber raw =
     (case decimal_number (js_trim raw) of
        None \<Rightarrow> Inl (PlainError ''must be a finite number >= 0'')
      | Some x \<Rightarrow>
          (case validateNonNegativeNumber (to_double x) of
             Inl _ \<Rightarrow> Inl (PlainError ''must be a finite number >= 0'')
           | Inr v \<Rightarrow> Inr v))"

definition parseStrictInteger :: "string \<Rightarrow> rat option \<Rightarrow> rat option \<Rightarrow> rat outcome" where
  "parseStrictInteger raw lo hi =
     (case decimal_integer (js_trim raw) of
        None \<Rightarrow> Inl (PlainError ''must be a safe integer'')
      | Some i \<Rightarrow> validateSafeInteger (to_double (of_int i)) lo hi)"

definition parsePort :: "string \<Rightarrow> rat outcome" where
  "parsePort raw =
     (case parseStrictInteger raw (Some 0) None of
        Inl e \<Rightarrow> Inl e
      | Inr port \<Rightarrow> validatePort (Fin port))"

definition validateHost :: "string \<Rightarrow> string outcome" where
  "validateHost value =
     (if length (code_units value) > 253 \<or> js_trim value = []
        \<or> (\<exists>c \<in> set value. byte c \<le> 32 \<or> c = CHR ''/'' \<or> c = CHR 0x5C)
      then Inl (PlainError ''must be a non-empty host name'') else Inr value)"

definition validateToken :: "string option \<Rightarrow> string option outcome" where
  "validateToken value =
     (case value of
        None \<Rightarrow> Inr None
      | Some t \<Rightarrow>
          if t = [] \<or> (\<exists>c \<in> set t. byte c \<le> 32 \<or> byte c = 127)
          then Inl (PlainError ''must be a non-empty token without whitespace or control characters'')
          else Inr (Some t))"

section \<open>Integers are read back from their digits\<close>

lemma digits_value_snoc: "digits_value b f (s @ [c]) = digits_value b f s * int b + int (f c)"
  by (simp add: digits_value_def)

lemma digits_rev_step: "10 \<le> n \<Longrightarrow> digits_rev n = char_of (48 + n mod 10) # digits_rev (n div 10)"
  by (subst digits_rev.simps) simp

lemma nat_text_step: "10 \<le> n \<Longrightarrow> nat_text n = nat_text (n div 10) @ [char_of (48 + n mod 10)]"
  by (simp add: nat_text_def digits_rev_step)

lemma nat_text_small: "n < 10 \<Longrightarrow> nat_text n = [char_of (48 + n)]"
  by (simp add: nat_text_def digits_rev_small)

lemma byte_digit: "0 \<le> d \<Longrightarrow> d < 10 \<Longrightarrow> byte (char_of (48 + d :: int)) = nat (48 + d)"
proof -
  assume d: "0 \<le> d" "d < 10"
  have "byte (char_of (48 + d)) = nat (of_char (char_of (48 + d) :: char))" by (simp only: byte_def nat_of_char)
  also have "\<dots> = nat (48 + d)" unfolding of_char_of using d by simp
  finally show ?thesis .
qed

lemma digit_of: "0 \<le> d \<Longrightarrow> d < 10 \<Longrightarrow> is_digit (char_of (48 + d :: int))"
  using nat_mono [of 48 "48 + d"] nat_mono [of "48 + d" 57] by (simp add: is_digit_def byte_digit)

lemma nat_text_digits: "0 \<le> n \<Longrightarrow> all_digits (nat_text n) \<and> dec_value (nat_text n) = n"
proof (induction n rule: digits_rev.induct)
  case (1 n)
  show ?case
  proof (cases "n < 10")
    case True
    with 1 show ?thesis
      by (simp add: nat_text_small all_digits_def digit_of byte_digit digits_value_def nat_diff_distrib)
  next
    case False
    with 1 have ih: "all_digits (nat_text (n div 10))" "dec_value (nat_text (n div 10)) = n div 10" by auto
    have d: "0 \<le> n mod 10" "n mod 10 < 10" by auto
    have "int (byte (char_of (48 + n mod 10)) - 48) = n mod 10"
      using byte_digit [OF d] d by (simp add: nat_diff_distrib)
    then have "dec_value (nat_text n) = n div 10 * 10 + n mod 10"
      using False ih(2) by (simp add: nat_text_step digits_value_snoc)
    with False ih(1) digit_of [OF d] show ?thesis
      by (simp add: nat_text_step all_digits_def)
  qed
qed

lemma nat_text_ne: "0 \<le> n \<Longrightarrow> nat_text n \<noteq> []"
  using nat_text_digits [of n] by (auto simp: all_digits_def)

lemma nat_text_hd: "0 \<le> n \<Longrightarrow> is_digit (hd (nat_text n))"
  using nat_text_digits [of n] by (cases "nat_text n") (auto simp: all_digits_def)

lemma not_digit: "\<not> is_digit CHR ''-''" "\<not> is_digit CHR ''.''" "\<not> is_digit CHR ''+''"
    "\<not> is_digit CHR ''e''" "\<not> is_digit CHR ''E''" "\<not> is_digit CHR '' ''" "\<not> is_digit CHR 0x0D"
  by (simp_all add: is_digit_def byte_def)

lemma plain_integer_int: "plain_integer (int_text i) = Some i"
proof (cases "i < 0")
  case True
  then show ?thesis using nat_text_digits [of "- i"] by (simp add: int_text_def plain_integer_def)
next
  case False
  then obtain c r where cr: "nat_text i = c # r" using nat_text_ne [of i] by (cases "nat_text i") auto
  then have "c \<noteq> CHR ''-''" using nat_text_hd [of i] False not_digit by auto
  with False cr nat_text_digits [of i] show ?thesis by (simp add: int_text_def plain_integer_def)
qed

lemma all_digits_split: "all_digits s \<Longrightarrow> takeWhile is_digit s = s \<and> dropWhile is_digit s = []"
  by (auto simp: all_digits_def list_all_iff)

lemma decimal_value_nat:
  assumes "0 \<le> n"
  shows "decimal_value (nat_text n) = Some (of_int n)"
proof -
  note d = nat_text_digits [OF assms]
  from all_digits_split d have e: "takeWhile is_digit (nat_text n) = nat_text n"
    "dropWhile is_digit (nat_text n) = []" by blast+
  show ?thesis unfolding decimal_value_def Let_def e using d nat_text_ne [OF assms] by simp
qed

lemma numeric_literal_int: "numeric_literal (int_text i) = Some (of_int i)"
proof (cases "i < 0")
  case True
  then show ?thesis by (simp add: int_text_def numeric_literal_def decimal_value_nat)
next
  case False
  then obtain c r where cr: "nat_text i = c # r" using nat_text_ne [of i] by (cases "nat_text i") auto
  then have "c \<noteq> CHR ''-''" using nat_text_hd [of i] False not_digit by auto
  with False cr decimal_value_nat [of i] show ?thesis by (simp add: int_text_def numeric_literal_def)
qed

lemma safe_int: "\<bar>i\<bar> \<le> 2 ^ 53 - 1 \<Longrightarrow> to_double (of_int i) = Fin (of_int i) \<and> is_safe_integer (Fin (of_int i))"
proof -
  assume i: "\<bar>i\<bar> \<le> 2 ^ 53 - 1"
  then have "\<bar>rat_of_int i\<bar> \<le> rat_of_int (2 ^ 53 - 1)" by (simp only: of_int_abs [symmetric] of_int_le_iff)
  then show ?thesis using to_double_int [of i] i by (simp add: is_safe_integer_def max_safe_def)
qed

end
