(* ===== verification/Slow_Log.thy ===== *)
theory Slow_Log
  imports Js_Number
begin

text \<open>
  The slow-operation log of \<open>src/src/metrics.ts\<close>, kept by the SQL executor and the server:
  a list, newest first, capped in length. A duration is a finite number or not (the
  comparisons with \<open>NaN\<close> fail, as in the source).
\<close>

record slow_entry =
  se_name :: string
  se_durationMs :: jsnum
  se_at :: rat
  se_argc :: "nat option"

record slow_log =
  sl_entries :: "slow_entry list"
  sl_threshold :: rat
  sl_cap :: rat

definition SLOW_LOG_CAP :: rat where
  "SLOW_LOG_CAP = 100"

definition checkSlowThreshold :: "jsnum \<Rightarrow> rat outcome" where
  "checkSlowThreshold ms = validateNonNegativeNumber ms"

definition new_slow_log :: "jsnum \<Rightarrow> jsnum \<Rightarrow> slow_log outcome" where
  "new_slow_log thresholdMs c =
     (case checkSlowThreshold thresholdMs of
        Inl e \<Rightarrow> Inl e
      | Inr t \<Rightarrow>
          (case validatePositiveSafeInteger c None of
             Inl e \<Rightarrow> Inl e
           | Inr k \<Rightarrow> Inr \<lparr>sl_entries = [], sl_threshold = t, sl_cap = k\<rparr>))"

definition setThreshold :: "jsnum \<Rightarrow> (slow_log, unit) act" where
  "setThreshold ms s =
     (case checkSlowThreshold ms of
        Inl e \<Rightarrow> (Inl e, s)
      | Inr t \<Rightarrow> (Inr (), s\<lparr>sl_threshold := t\<rparr>))"

text \<open>\<open>a \<ge> b\<close> for a number \<open>a\<close> that may be no finite one.\<close>

fun js_geq :: "jsnum \<Rightarrow> rat \<Rightarrow> bool" where
  "js_geq (Fin x) y = (x \<ge> y)"
| "js_geq PosInf y = True"
| "js_geq _ y = False"

definition slow_record ::
    "string \<Rightarrow> jsnum \<Rightarrow> nat option \<Rightarrow> rat option \<Rightarrow> rat \<Rightarrow> slow_log \<Rightarrow> bool \<times> slow_log" where
  "slow_record name durationMs argc t_at now s =
     (if \<not> sl_threshold s > 0 then (False, s)
      else if \<not> js_geq durationMs (sl_threshold s) then (False, s)
      else
        let e = \<lparr>se_name = name, se_durationMs = durationMs,
                 se_at = (case t_at of Some t \<Rightarrow> t | None \<Rightarrow> now), se_argc = argc\<rparr>;
            es = e # sl_entries s
        in (True, s\<lparr>sl_entries :=
              if of_nat (length es) > sl_cap s then take (nat \<lfloor>sl_cap s\<rfloor>) es else es\<rparr>))"

definition slow_list :: "slow_log \<Rightarrow> slow_entry list" where
  "slow_list s = sl_entries s"

definition slow_clear :: "slow_log \<Rightarrow> slow_log" where
  "slow_clear s = s\<lparr>sl_entries := []\<rparr>"

definition slow_size :: "slow_log \<Rightarrow> nat" where
  "slow_size s = length (sl_entries s)"

section \<open>Cap and order\<close>

definition slow_ok :: "slow_log \<Rightarrow> bool" where
  "slow_ok s \<longleftrightarrow> 0 \<le> sl_threshold s \<and> 1 \<le> sl_cap s \<and> of_int \<lfloor>sl_cap s\<rfloor> = sl_cap s \<and>
     of_nat (slow_size s) \<le> sl_cap s"

lemma cap_nat:
  assumes "slow_ok s"
  obtains k :: nat where "sl_cap s = of_nat k" "1 \<le> k" "nat \<lfloor>sl_cap s\<rfloor> = k"
proof (rule that)
  show k: "sl_cap s = of_nat (nat \<lfloor>sl_cap s\<rfloor>)"
    using assms by (auto simp: slow_ok_def)
  show "1 \<le> nat \<lfloor>sl_cap s\<rfloor>"
    using assms by (simp add: slow_ok_def le_nat_iff le_floor_iff)
qed simp

lemma new_slow_log_ok: "new_slow_log t c = Inr s \<Longrightarrow> slow_ok s \<and> slow_list s = []"
  by (auto simp: new_slow_log_def checkSlowThreshold_def validateNonNegativeNumber_Inr
      validatePositiveSafeInteger_def validateSafeInteger_Inr slow_ok_def slow_size_def slow_list_def
      is_safe_integer_def split: sum.splits)

lemma setThreshold_ok: "slow_ok s \<Longrightarrow> slow_ok (snd (setThreshold ms s))"
  by (auto simp: setThreshold_def checkSlowThreshold_def validateNonNegativeNumber_Inr
      slow_ok_def slow_size_def split: sum.splits)

text \<open>
  An operation at least as slow as a positive threshold goes to the front and pushes the
  oldest entry out of a full log; any other leaves the log as it is.
\<close>

lemma slow_record_list:
  assumes "slow_ok s"
  shows "slow_list (snd (slow_record name d argc t_at now s)) =
    (if 0 < sl_threshold s \<and> js_geq d (sl_threshold s)
     then take (nat \<lfloor>sl_cap s\<rfloor>)
       (\<lparr>se_name = name, se_durationMs = d,
         se_at = (case t_at of Some t \<Rightarrow> t | None \<Rightarrow> now), se_argc = argc\<rparr> # slow_list s)
     else slow_list s)"
proof -
  obtain k :: nat where "sl_cap s = of_nat k" "1 \<le> k" "nat \<lfloor>sl_cap s\<rfloor> = k"
    using assms by (rule cap_nat)
  then show ?thesis
    by (simp add: slow_record_def slow_list_def Let_def not_less of_nat_less_iff)
qed

lemma slow_record_ok:
  assumes "slow_ok s"
  shows "slow_ok (snd (slow_record name d argc t_at now s))"
proof -
  obtain k :: nat where k: "sl_cap s = of_nat k" "1 \<le> k" "nat \<lfloor>sl_cap s\<rfloor> = k"
    using assms by (rule cap_nat)
  have "length (slow_list (snd (slow_record name d argc t_at now s))) \<le> k"
    unfolding slow_record_list [OF assms] using assms k
    by (auto simp: slow_ok_def slow_list_def slow_size_def)
  moreover have "sl_cap (snd (slow_record name d argc t_at now s)) = sl_cap s"
    "sl_threshold (snd (slow_record name d argc t_at now s)) = sl_threshold s"
    by (simp_all add: slow_record_def Let_def)
  ultimately show ?thesis
    using assms k by (simp add: slow_ok_def slow_list_def slow_size_def)
qed

lemma slow_clear_ok: "slow_ok s \<Longrightarrow> slow_ok (slow_clear s)"
  by (simp add: slow_ok_def slow_clear_def slow_size_def)

end
