(* ===== verification/Sql_Store.thy ===== *)
theory Sql_Store
  imports Sql_Eval Json_Identity Json_Clone Js_Decimal Slow_Log
begin

text \<open>
  The state of the SQL executor (\<open>src/src/executor.ts\<close>): tables with their rows by id, the
  primary-key index, the bytes of every row and one index per column; the helpers on them
  and the planning of index lookups. A JavaScript \<open>Map\<close> is an association list in insertion
  order, a \<open>Set\<close> of row ids a list without repetition.
\<close>

section \<open>Tables\<close>

type_synonym index = "(json \<times> nat list) list"

record table =
  t_name :: string
  t_columns :: "column list"
  t_pk :: "string option"
  t_rows :: "(nat \<times> row) list"
  t_next :: nat
  t_primary :: "(string \<times> nat) list"
  t_bytes :: "(nat \<times> nat) list"
  t_indexes :: "(string \<times> index) list"

record sql_limits =
  l_maxRows :: nat
  l_maxBytes :: nat
  l_maxResultRows :: nat
  l_maxResultBytes :: nat
  l_maxTables :: nat

record executor =
  ex_tables :: "(string \<times> table) list"
  ex_indexColumns :: "string list option"
  ex_limits :: sql_limits
  ex_rows :: int
  ex_bytes :: int
  ex_examined :: nat
  ex_statements :: "(string \<times> statement) list"
  ex_statementBytes :: int
  ex_slow :: slow_log

text \<open>The first occurrences, as insertion into a \<open>Set\<close> keeps them.\<close>

definition dedup :: "'a list \<Rightarrow> 'a list" where
  "dedup xs = rev (remdups (rev xs))"

lemma set_dedup [simp]: "set (dedup xs) = set xs" and distinct_dedup [simp]: "distinct (dedup xs)"
  by (simp_all add: dedup_def)

section \<open>Indexes\<close>

definition column_names :: "table \<Rightarrow> string list" where
  "column_names t = map c_name (t_columns t)"

definition shouldIndexColumn :: "string list option \<Rightarrow> string \<Rightarrow> bool" where
  "shouldIndexColumn cols c = (case cols of None \<Rightarrow> True | Some cs \<Rightarrow> c \<in> set cs)"

definition index_ids :: "index \<Rightarrow> json \<Rightarrow> nat list" where
  "index_ids ix v = (case map_of ix v of Some ids \<Rightarrow> ids | None \<Rightarrow> [])"

definition addIndexEntry :: "string \<Rightarrow> json \<Rightarrow> nat \<Rightarrow> table \<Rightarrow> table" where
  "addIndexEntry c v i t =
     (case map_of (t_indexes t) c of
        None \<Rightarrow> t
      | Some ix \<Rightarrow>
          if isIndexableValue v then
            (let ids = index_ids ix v in
             t\<lparr>t_indexes := al_set c (al_set v (if i \<in> set ids then ids else ids @ [i]) ix) (t_indexes t)\<rparr>)
          else t)"

definition removeIndexEntry :: "string \<Rightarrow> json \<Rightarrow> nat \<Rightarrow> table \<Rightarrow> table" where
  "removeIndexEntry c v i t =
     (case map_of (t_indexes t) c of
        None \<Rightarrow> t
      | Some ix \<Rightarrow>
          if isIndexableValue v then
            (case map_of ix v of
               None \<Rightarrow> t
             | Some ids \<Rightarrow>
                 (let ids' = removeAll i ids in
                  t\<lparr>t_indexes := al_set c (if ids' = [] then al_del v ix else al_set v ids' ix) (t_indexes t)\<rparr>))
          else t)"

section \<open>Planning an index lookup\<close>

text \<open>
  The column and the constants of an indexable comparison: \<open>col = const\<close>, \<open>const = col\<close> or
  \<open>col IN (const, ...)\<close>.
\<close>

definition index_literal :: "expr \<Rightarrow> json option" where
  "index_literal e = (case e of ELit v \<Rightarrow> if isIndexableValue v then Some v else None | ECol _ \<Rightarrow> None)"

fun index_literals :: "expr list \<Rightarrow> json list option" where
  "index_literals [] = Some []"
| "index_literals (e # es) =
     (case index_literal e of
        None \<Rightarrow> None
      | Some v \<Rightarrow> (case index_literals es of None \<Rightarrow> None | Some vs \<Rightarrow> Some (v # vs)))"

definition index_target :: "expr \<Rightarrow> cmp_op \<Rightarrow> operand \<Rightarrow> (string \<times> json list) option" where
  "index_target left opr right =
     (case (opr, right) of
        (OpEq, One r) \<Rightarrow>
          (case (left, index_literal r) of
             (ECol c, Some v) \<Rightarrow> Some (c, [v])
           | _ \<Rightarrow> (case (r, index_literal left) of
                     (ECol c, Some v) \<Rightarrow> Some (c, [v])
                   | _ \<Rightarrow> None))
      | (OpIn, Many es) \<Rightarrow>
          (case left of ECol c \<Rightarrow> map_option (Pair c) (index_literals es) | ELit _ \<Rightarrow> None)
      | _ \<Rightarrow> None)"

text \<open>The plan of a clause: the columns whose index serves it, and the row ids it looks up.\<close>

fun indexPlan :: "table \<Rightarrow> where_clause \<Rightarrow> (string list \<times> nat list) option" where
  "indexPlan t (WAnd l r) =
     (case indexPlan t l of
        None \<Rightarrow> indexPlan t r
      | Some (lc, li) \<Rightarrow>
          (case indexPlan t r of
             None \<Rightarrow> Some (lc, li)
           | Some (rc, ri) \<Rightarrow> Some (dedup (lc @ rc), filter (\<lambda>i. i \<in> set ri) li)))"
| "indexPlan t (WCmp left opr right) =
     (case index_target left opr right of
        None \<Rightarrow> None
      | Some (c, vs) \<Rightarrow>
          (case map_of (t_indexes t) c of
             None \<Rightarrow> None
           | Some ix \<Rightarrow> Some ([c], dedup (concat (map (index_ids ix) vs)))))"
| "indexPlan t _ = None"

definition planIndexLookup :: "table \<Rightarrow> where_clause option \<Rightarrow> nat list option" where
  "planIndexLookup t w = (case w of None \<Rightarrow> None | Some c \<Rightarrow> map_option snd (indexPlan t c))"

definition describeIndexUse :: "table \<Rightarrow> where_clause \<Rightarrow> string list option" where
  "describeIndexUse t w = map_option fst (indexPlan t w)"

section \<open>Checks\<close>

definition TABLE_MISSING :: jserr where
  "TABLE_MISSING = DbError TABLE_NOT_FOUND ''Table not found''"

definition assertColumnExists :: "table \<Rightarrow> string \<Rightarrow> unit outcome" where
  "assertColumnExists t c =
     (if c \<in> set (column_names t) then Inr () else Inl (DbError COLUMN_NOT_FOUND ''Column not found in table''))"

definition validateExpressionColumns :: "table \<Rightarrow> expr \<Rightarrow> unit outcome" where
  "validateExpressionColumns t e = (case e of ECol c \<Rightarrow> assertColumnExists t c | ELit _ \<Rightarrow> Inr ())"

definition each_ok :: "('a \<Rightarrow> unit outcome) \<Rightarrow> 'a list \<Rightarrow> unit outcome" where
  "each_ok f xs = chain (mapO f xs) (\<lambda>_. Inr ())"

fun validateWhereColumns :: "table \<Rightarrow> where_clause \<Rightarrow> unit outcome" where
  "validateWhereColumns t (WAnd l r) = chain (validateWhereColumns t l) (\<lambda>_. validateWhereColumns t r)"
| "validateWhereColumns t (WOr l r) = chain (validateWhereColumns t l) (\<lambda>_. validateWhereColumns t r)"
| "validateWhereColumns t (WNot w) = validateWhereColumns t w"
| "validateWhereColumns t (WIsNull _ e) = validateExpressionColumns t e"
| "validateWhereColumns t (WCmp left _ right) =
     chain (validateExpressionColumns t left) (\<lambda>_.
       case right of
         One e \<Rightarrow> validateExpressionColumns t e
       | Many es \<Rightarrow> each_ok (validateExpressionColumns t) es)"

definition where_columns_ok :: "table \<Rightarrow> where_clause option \<Rightarrow> unit outcome" where
  "where_columns_ok t w = (case w of None \<Rightarrow> Inr () | Some c \<Rightarrow> validateWhereColumns t c)"

definition validateSelectReferences ::
    "table \<Rightarrow> string list option \<Rightarrow> (string \<times> bool) option \<Rightarrow> where_clause option \<Rightarrow> unit outcome" where
  "validateSelectReferences t columns order w =
     chain (case columns of None \<Rightarrow> Inr () | Some cs \<Rightarrow> each_ok (assertColumnExists t) cs) (\<lambda>_.
     chain (case order of None \<Rightarrow> Inr () | Some (c, _) \<Rightarrow> assertColumnExists t c) (\<lambda>_.
     where_columns_ok t w))"

text \<open>The value stored for a value written to a column.\<close>

definition coerceWriteValue :: "intl \<Rightarrow> json \<Rightarrow> column \<Rightarrow> bool \<Rightarrow> json outcome" where
  "coerceWriteValue il v col primary =
     (if v = JNull then
        if \<not> c_nullable col \<or> primary then
          Inl (if primary then DbError PRIMARY_KEY_CONSTRAINT ''Primary key cannot be null''
               else DbError NOT_NULL_CONSTRAINT ''Column cannot be null'')
        else Inr JNull
      else
        (let wrong = Inl (DbError TYPE_CONSTRAINT ''Invalid value for column'') in
         case c_type col of
           TAny \<Rightarrow> cloneJsonValue default_clone_bytes v
         | TString \<Rightarrow> (case v of JStr s \<Rightarrow> Inr v | _ \<Rightarrow> wrong)
         | TNumber \<Rightarrow>
             (case v of
                JNum n \<Rightarrow> Inr v
              | JStr s \<Rightarrow>
                  if js_trim s \<noteq> [] then (case js_number s of Fin x \<Rightarrow> Inr (JNum x) | _ \<Rightarrow> wrong)
                  else wrong
              | _ \<Rightarrow> wrong)
         | TBoolean \<Rightarrow>
             (case v of
                JBool b \<Rightarrow> Inr v
              | JStr s \<Rightarrow>
                  if il_lower il s = ''true'' then Inr (JBool True)
                  else if il_lower il s = ''false'' then Inr (JBool False)
                  else wrong
              | _ \<Rightarrow> wrong)))"

text \<open>Candidates are rows with the id of the row they replace, if any.\<close>

fun pk_loop :: "table \<Rightarrow> string \<Rightarrow> nat set \<Rightarrow> string set \<Rightarrow> row list \<Rightarrow> unit outcome" where
  "pk_loop t p replaced seen [] = Inr ()"
| "pk_loop t p replaced seen (r # rs) =
     (let key = valueIdentity (field r p) in
      if key \<in> seen \<or> (case map_of (t_primary t) key of None \<Rightarrow> False | Some i \<Rightarrow> i \<notin> replaced)
      then Inl (DbError PRIMARY_KEY_CONSTRAINT ''Duplicate primary key value'')
      else pk_loop t p replaced (insert key seen) rs)"

definition assertPrimaryKeyUnique :: "table \<Rightarrow> nat set \<Rightarrow> row list \<Rightarrow> unit outcome" where
  "assertPrimaryKeyUnique t replaced rs =
     (case t_pk t of None \<Rightarrow> Inr () | Some p \<Rightarrow> pk_loop t p replaced {} rs)"

definition checkCapacity :: "sql_limits \<Rightarrow> int \<Rightarrow> int \<Rightarrow> unit outcome" where
  "checkCapacity l rows bytes =
     (if rows > int (l_maxRows l) \<or> bytes > int (l_maxBytes l)
      then Inl (DbError LIMIT_EXCEEDED ''SQL storage limit exceeded'') else Inr ())"

definition row_size :: "row \<Rightarrow> nat" where
  "row_size r = length (json_text (JObj r))"

section \<open>Rows\<close>

text \<open>\<open>deleteRow\<close> of the executor; the totals are the caller's.\<close>

definition primary_del :: "string option \<Rightarrow> row \<Rightarrow> table \<Rightarrow> table" where
  "primary_del pk r t =
     (case pk of None \<Rightarrow> t | Some p \<Rightarrow> t\<lparr>t_primary := al_del (valueIdentity (field r p)) (t_primary t)\<rparr>)"

definition primary_set :: "string option \<Rightarrow> row \<Rightarrow> nat \<Rightarrow> table \<Rightarrow> table" where
  "primary_set pk r i t =
     (case pk of None \<Rightarrow> t | Some p \<Rightarrow> t\<lparr>t_primary := al_set (valueIdentity (field r p)) i (t_primary t)\<rparr>)"

definition unindex_row :: "nat \<Rightarrow> row \<Rightarrow> string list \<Rightarrow> table \<Rightarrow> table" where
  "unindex_row i r cs t = fold (\<lambda>c. removeIndexEntry c (field r c) i) cs t"

definition index_row :: "nat \<Rightarrow> row \<Rightarrow> string list \<Rightarrow> table \<Rightarrow> table" where
  "index_row i r cs t = fold (\<lambda>c. addIndexEntry c (field r c) i) cs t"

definition bytes_of :: "table \<Rightarrow> nat \<Rightarrow> int" where
  "bytes_of t i = (case map_of (t_bytes t) i of Some b \<Rightarrow> int b | None \<Rightarrow> 0)"

definition deleteRow :: "nat \<times> row \<Rightarrow> table \<times> int \<times> int \<Rightarrow> table \<times> int \<times> int" where
  "deleteRow = (\<lambda>(i, r) (t, rows, bytes).
     let t1 = primary_del (t_pk t) r (unindex_row i r (column_names t) t) in
     (t1\<lparr>t_bytes := al_del i (t_bytes t1), t_rows := al_del i (t_rows t1)\<rparr>,
      rows - 1, bytes - bytes_of t i))"

definition insert_row :: "row \<Rightarrow> table \<Rightarrow> table" where
  "insert_row r t =
     (let i = t_next t;
          t1 = t\<lparr>t_next := i + 1, t_rows := al_set i r (t_rows t), t_bytes := al_set i (row_size r) (t_bytes t)\<rparr>
      in index_row i r (column_names t) (primary_set (t_pk t) r i t1))"

text \<open>One update: the indexes of the set columns, then the row, its bytes and its key.\<close>

definition reindex :: "nat \<Rightarrow> row \<Rightarrow> row \<Rightarrow> string list \<Rightarrow> table \<Rightarrow> table" where
  "reindex i old new cs t =
     fold (\<lambda>c t. addIndexEntry c (field new c) i (removeIndexEntry c (field old c) i t)) cs t"

definition update_row :: "string list \<Rightarrow> bool \<Rightarrow> nat \<times> row \<Rightarrow> table \<Rightarrow> table" where
  "update_row cs changesPk = (\<lambda>(i, new) t.
     let old = (case map_of (t_rows t) i of Some r \<Rightarrow> r | None \<Rightarrow> []);
         t1 = reindex i old new cs t;
         t2 = t1\<lparr>t_rows := al_set i new (t_rows t1), t_bytes := al_set i (row_size new) (t_bytes t1)\<rparr>
     in if changesPk then primary_set (t_pk t) new i t2 else t2)"

end
