(* ===== verification/Sql_Exec.thy ===== *)
theory Sql_Exec
  imports Sql_Store
begin

text \<open>
  The statements of \<open>src/src/executor.ts\<close> as operations on the executor state. Each stages
  its work before the first mutation, so a throw leaves the tables alone.
\<close>

abbreviation the_table :: "executor \<Rightarrow> string \<Rightarrow> table option" where
  "the_table x n \<equiv> map_of (ex_tables x) n"

definition affected :: "nat \<Rightarrow> query_result" where
  "affected n = \<lparr>q_columns = [], q_rows = [], q_affected = Some n\<rparr>"

text \<open>A statement on a table that must exist.\<close>

definition with_table :: "string \<Rightarrow> (table \<Rightarrow> (executor, 'a) act) \<Rightarrow> (executor, 'a) act" where
  "with_table n f x = (case the_table x n of None \<Rightarrow> (Inl TABLE_MISSING, x) | Some t \<Rightarrow> f t x)"

section \<open>CREATE TABLE and DROP TABLE\<close>

definition clone_default :: "column \<Rightarrow> column outcome" where
  "clone_default c =
     (case c_default c of
        None \<Rightarrow> Inr c
      | Some v \<Rightarrow> chain (cloneJsonValue default_clone_bytes v) (\<lambda>w. Inr (c\<lparr>c_default := Some w\<rparr>)))"

definition new_indexes :: "string list option \<Rightarrow> column list \<Rightarrow> (string \<times> index) list" where
  "new_indexes ix cols =
     fold (\<lambda>c m. if shouldIndexColumn ix (c_name c) then al_set (c_name c) [] m else m) cols []"

definition executeCreateTable ::
    "string \<Rightarrow> column list \<Rightarrow> string option \<Rightarrow> (executor, query_result) act" where
  "executeCreateTable n cols pk x =
     (if the_table x n \<noteq> None then (Inl (DbError TABLE_EXISTS ''Table already exists''), x)
      else if length (ex_tables x) \<ge> l_maxTables (ex_limits x)
      then (Inl (DbError LIMIT_EXCEEDED ''SQL table limit exceeded''), x)
      else (case mapO clone_default cols of
              Inl e \<Rightarrow> (Inl e, x)
            | Inr cs \<Rightarrow>
                (Inr (affected 0),
                 x\<lparr>ex_tables := al_set n
                     \<lparr>t_name = n, t_columns = cs, t_pk = pk, t_rows = [], t_next = 0, t_primary = [],
                      t_bytes = [], t_indexes = new_indexes (ex_indexColumns x) cols\<rparr> (ex_tables x)\<rparr>)))"

definition executeDropTable :: "string \<Rightarrow> (executor, query_result) act" where
  "executeDropTable n = with_table n (\<lambda>t x.
     (Inr (affected 0),
      x\<lparr>ex_rows := ex_rows x - int (length (t_rows t)),
        ex_bytes := ex_bytes x - int (sum_list (map snd (t_bytes t))),
        ex_tables := al_del n (ex_tables x)\<rparr>))"

section \<open>INSERT\<close>

fun insert_columns :: "column list \<Rightarrow> string list \<Rightarrow> string list \<Rightarrow> column list outcome" where
  "insert_columns defs seen [] = Inr []"
| "insert_columns defs seen (c # cs) =
     (if c \<in> set seen then Inl (DbError DUPLICATE_COLUMN ''Duplicate INSERT column'')
      else case find (\<lambda>d. c_name d = c) defs of
             None \<Rightarrow> Inl (DbError COLUMN_NOT_FOUND ''Column not found in table'')
           | Some d \<Rightarrow> chain (insert_columns defs (c # seen) cs) (\<lambda>ds. Inr (d # ds)))"

fun fill_given :: "intl \<Rightarrow> string option \<Rightarrow> (column \<times> json) list \<Rightarrow> row \<Rightarrow> row outcome" where
  "fill_given il pk [] r = Inr r"
| "fill_given il pk ((d, v) # ps) r =
     chain (coerceWriteValue il v d (pk = Some (c_name d))) (\<lambda>w.
     fill_given il pk ps (al_set (c_name d) w r))"

fun fill_defaults :: "intl \<Rightarrow> string option \<Rightarrow> column list \<Rightarrow> row \<Rightarrow> row outcome" where
  "fill_defaults il pk [] r = Inr r"
| "fill_defaults il pk (d # ds) r =
     (if c_name d \<in> fst ` set r then fill_defaults il pk ds r
      else chain (coerceWriteValue il (case c_default d of Some v \<Rightarrow> v | None \<Rightarrow> JNull) d (pk = Some (c_name d)))
             (\<lambda>w. fill_defaults il pk ds (al_set (c_name d) w r)))"

definition prepare_row :: "intl \<Rightarrow> table \<Rightarrow> column list \<Rightarrow> json list \<Rightarrow> row outcome" where
  "prepare_row il t ds vs =
     (if length vs \<noteq> length ds then Inl (DbError ROW_ARITY ''wrong number of values'')
      else chain (fill_given il (t_pk t) (zip ds vs) []) (fill_defaults il (t_pk t) (t_columns t)))"

definition max_row_id :: nat where
  "max_row_id = 9007199254740991"

definition stage_insert :: "intl \<Rightarrow> executor \<Rightarrow> table \<Rightarrow> string list \<Rightarrow> json list list \<Rightarrow> row list outcome" where
  "stage_insert il x t columns vss =
     chain (if columns \<noteq> [] then insert_columns (t_columns t) [] columns else Inr (t_columns t)) (\<lambda>ds.
     chain (mapO (prepare_row il t ds) vss) (\<lambda>rs.
     chain (assertPrimaryKeyUnique t {} rs) (\<lambda>_.
     chain (checkCapacity (ex_limits x) (ex_rows x + int (length rs))
              (ex_bytes x + int (sum_list (map row_size rs)))) (\<lambda>_.
     if t_next t + length rs > max_row_id then Inl (DbError LIMIT_EXCEEDED ''SQL row ID limit exceeded'')
     else Inr rs))))"

definition executeInsert ::
    "intl \<Rightarrow> string \<Rightarrow> string list \<Rightarrow> json list list \<Rightarrow> (executor, query_result) act" where
  "executeInsert il n columns vss = with_table n (\<lambda>t x.
     case stage_insert il x t columns vss of
       Inl e \<Rightarrow> (Inl e, x)
     | Inr rs \<Rightarrow>
         (Inr (affected (length rs)),
          x\<lparr>ex_tables := al_set n (fold insert_row rs t) (ex_tables x),
            ex_rows := ex_rows x + int (length rs),
            ex_bytes := ex_bytes x + int (sum_list (map row_size rs))\<rparr>))"

section \<open>UPDATE and DELETE\<close>

text \<open>The rows a statement looks at: those of the index plan, or all of them.\<close>

definition candidate_ids :: "table \<Rightarrow> where_clause option \<Rightarrow> nat list" where
  "candidate_ids t w = (case planIndexLookup t w of Some ids \<Rightarrow> ids | None \<Rightarrow> map fst (t_rows t))"

definition rows_at :: "table \<Rightarrow> nat list \<Rightarrow> (nat \<times> row) list" where
  "rows_at t ids = List.map_filter (\<lambda>i. map_option (Pair i) (map_of (t_rows t) i)) ids"

definition matching :: "intl \<Rightarrow> where_clause option \<Rightarrow> (nat \<times> row) list \<Rightarrow> (nat \<times> row) list outcome" where
  "matching il w = filterO (\<lambda>p. row_matches il w (snd p))"

fun prepare_set :: "intl \<Rightarrow> table \<Rightarrow> string list \<Rightarrow> (string \<times> json) list \<Rightarrow> (string \<times> json) list outcome" where
  "prepare_set il t seen [] = Inr []"
| "prepare_set il t seen ((c, v) # ss) =
     (if c \<in> set seen then Inl (DbError DUPLICATE_COLUMN ''Duplicate UPDATE column'')
      else case find (\<lambda>d. c_name d = c) (t_columns t) of
             None \<Rightarrow> Inl (DbError COLUMN_NOT_FOUND ''Column not found in table'')
           | Some d \<Rightarrow>
               chain (coerceWriteValue il v d (t_pk t = Some c)) (\<lambda>w.
               chain (prepare_set il t (c # seen) ss) (\<lambda>ws. Inr ((c, w) # ws))))"

definition set_columns :: "(string \<times> json) list \<Rightarrow> row \<Rightarrow> row" where
  "set_columns ws r = fold (\<lambda>(c, v). al_set c v) ws r"

definition changes_pk :: "table \<Rightarrow> (string \<times> json) list \<Rightarrow> bool" where
  "changes_pk t ws = (case t_pk t of None \<Rightarrow> False | Some p \<Rightarrow> p \<in> fst ` set ws)"

definition update_delta :: "table \<Rightarrow> (nat \<times> row) list \<Rightarrow> int" where
  "update_delta t us = sum_list (map (\<lambda>(i, r). int (row_size r) - bytes_of t i) us)"

text \<open>What an update writes: the set columns, the columns' values, and the new rows by id.\<close>

definition stage_update ::
    "intl \<Rightarrow> executor \<Rightarrow> table \<Rightarrow> (string \<times> json) list \<Rightarrow> where_clause option
      \<Rightarrow> ((string \<times> json) list \<times> (nat \<times> row) list) outcome" where
  "stage_update il x t sets w =
     chain (where_columns_ok t w) (\<lambda>_.
     chain (prepare_set il t [] sets) (\<lambda>ws.
     chain (matching il w (rows_at t (candidate_ids t w))) (\<lambda>ms.
     (let us = map (\<lambda>(i, r). (i, set_columns ws r)) ms in
      chain (if changes_pk t ws then assertPrimaryKeyUnique t (set (map fst us)) (map snd us) else Inr ()) (\<lambda>_.
      chain (checkCapacity (ex_limits x) (ex_rows x) (ex_bytes x + update_delta t us)) (\<lambda>_.
      Inr (ws, us)))))))"

definition drop_old_keys :: "(nat \<times> row) list \<Rightarrow> table \<Rightarrow> table" where
  "drop_old_keys us t =
     fold (\<lambda>(i, _) t. case map_of (t_rows t) i of Some r \<Rightarrow> primary_del (t_pk t) r t | None \<Rightarrow> t) us t"

definition apply_updates :: "(string \<times> json) list \<Rightarrow> (nat \<times> row) list \<Rightarrow> table \<Rightarrow> table" where
  "apply_updates ws us t =
     (let pk = changes_pk t ws in
      fold (update_row (map fst ws) pk) us (if pk then drop_old_keys us t else t))"

definition executeUpdate ::
    "intl \<Rightarrow> string \<Rightarrow> (string \<times> json) list \<Rightarrow> where_clause option \<Rightarrow> (executor, query_result) act" where
  "executeUpdate il n sets w = with_table n (\<lambda>t x.
     case stage_update il x t sets w of
       Inl e \<Rightarrow> (Inl e, x)
     | Inr (ws, us) \<Rightarrow>
         (Inr (affected (length us)),
          x\<lparr>ex_tables := al_set n (apply_updates ws us t) (ex_tables x),
            ex_bytes := ex_bytes x + update_delta t us\<rparr>))"

definition stage_delete :: "intl \<Rightarrow> table \<Rightarrow> where_clause option \<Rightarrow> (nat \<times> row) list outcome" where
  "stage_delete il t w =
     chain (where_columns_ok t w) (\<lambda>_. matching il w (rows_at t (candidate_ids t w)))"

definition executeDelete :: "intl \<Rightarrow> string \<Rightarrow> where_clause option \<Rightarrow> (executor, query_result) act" where
  "executeDelete il n w = with_table n (\<lambda>t x.
     case stage_delete il t w of
       Inl e \<Rightarrow> (Inl e, x)
     | Inr ds \<Rightarrow>
         (let (t', rows, bytes) = fold deleteRow ds (t, ex_rows x, ex_bytes x) in
          (Inr (affected (length ds)),
           x\<lparr>ex_tables := al_set n t' (ex_tables x), ex_rows := rows, ex_bytes := bytes\<rparr>)))"

section \<open>SELECT\<close>

text \<open>
  The scan of the candidates, without and with \<open>ORDER BY\<close>. Both return the number of rows
  examined, also when the evaluation of the clause throws. The first stops at \<open>take\<close> rows.
\<close>

fun scan_plain ::
    "intl \<Rightarrow> where_clause option \<Rightarrow> nat \<Rightarrow> nat \<Rightarrow> (nat \<times> row) list \<Rightarrow> nat \<Rightarrow> nat \<Rightarrow> (nat \<times> row) list
      \<Rightarrow> (nat \<times> row) list outcome \<times> nat" where
  "scan_plain il w skip tk [] seen matched acc = (Inr acc, seen)"
| "scan_plain il w skip tk (p # ps) seen matched acc =
     (case row_matches il w (snd p) of
        Inl e \<Rightarrow> (Inl e, Suc seen)
      | Inr False \<Rightarrow> scan_plain il w skip tk ps (Suc seen) matched acc
      | Inr True \<Rightarrow>
          if matched < skip then scan_plain il w skip tk ps (Suc seen) (Suc matched) acc
          else if length acc + 1 \<ge> tk then (Inr (acc @ [p]), Suc seen)
          else scan_plain il w skip tk ps (Suc seen) (Suc matched) (acc @ [p]))"

fun scan_top ::
    "intl \<Rightarrow> where_clause option \<Rightarrow> nat \<Rightarrow> (nat \<times> row) comparator \<Rightarrow> (nat \<times> row) list \<Rightarrow> nat \<Rightarrow> (nat \<times> row) list
      \<Rightarrow> (nat \<times> row) list outcome \<times> nat" where
  "scan_top il w k cmp [] seen heap = (Inr heap, seen)"
| "scan_top il w k cmp (p # ps) seen heap =
     (case row_matches il w (snd p) of
        Inl e \<Rightarrow> (Inl e, Suc seen)
      | Inr False \<Rightarrow> scan_top il w k cmp ps (Suc seen) heap
      | Inr True \<Rightarrow> scan_top il w k cmp ps (Suc seen) (topk_add k cmp p heap))"

definition select_ids :: "table \<Rightarrow> where_clause option \<Rightarrow> nat list" where
  "select_ids t w = (case planIndexLookup t w of Some ids \<Rightarrow> sort ids | None \<Rightarrow> map fst (t_rows t))"

definition select_take :: "sql_limits \<Rightarrow> nat option \<Rightarrow> nat" where
  "select_take l limit = (case limit of Some n \<Rightarrow> n | None \<Rightarrow> l_maxResultRows l + 1)"

text \<open>The chosen rows, in order, and the number examined.\<close>

definition select_rows :: "intl \<Rightarrow> sql_limits \<Rightarrow> table \<Rightarrow> select_stmt \<Rightarrow> (nat \<times> row) list outcome \<times> nat" where
  "select_rows il l t s =
     (let skip = (case s_offset s of Some n \<Rightarrow> n | None \<Rightarrow> 0); tk = select_take l (s_limit s);
          cands = (if tk > 0 then rows_at t (select_ids t (s_where s)) else []);
          cmp = select_cmp il (s_order s); k = min (length (t_rows t)) (skip + tk)
      in case s_order s of
           None \<Rightarrow> scan_plain il (s_where s) skip tk cands 0 0 []
         | Some _ \<Rightarrow>
             (case scan_top il (s_where s) k cmp cands 0 [] of
                (Inl e, n) \<Rightarrow> (Inl e, n)
              | (Inr heap, n) \<Rightarrow> (Inr (take tk (drop skip (topk_sorted cmp heap))), n)))"

definition cell_bytes :: "row \<Rightarrow> string \<Rightarrow> nat" where
  "cell_bytes r c = length (quote_text c) + length (json_text (field r c)) + 2"

fun project_row :: "string list \<Rightarrow> row \<Rightarrow> row \<Rightarrow> row outcome" where
  "project_row [] r acc = Inr acc"
| "project_row (c # cs) r acc =
     chain (cloneJsonValue default_clone_bytes (field r c)) (\<lambda>v. project_row cs r (al_set c v acc))"

fun project_rows :: "nat \<Rightarrow> string list \<Rightarrow> nat \<Rightarrow> row list \<Rightarrow> row list outcome" where
  "project_rows limit cs bytes [] = Inr []"
| "project_rows limit cs bytes (r # rs) =
     (let bytes' = bytes + sum_list (map (cell_bytes r) cs) + 3 in
      if bytes' > limit then Inl (DbError LIMIT_EXCEEDED ''SQL result byte limit exceeded'')
      else chain (project_row cs r []) (\<lambda>q. chain (project_rows limit cs bytes' rs) (\<lambda>qs. Inr (q # qs))))"

definition finish_select :: "sql_limits \<Rightarrow> table \<Rightarrow> string list option \<Rightarrow> (nat \<times> row) list \<Rightarrow> query_result outcome" where
  "finish_select l t columns sel =
     (if length sel > l_maxResultRows l then Inl (DbError LIMIT_EXCEEDED ''SQL result row limit exceeded'')
      else (let cs = (case columns of None \<Rightarrow> column_names t | Some cs \<Rightarrow> cs) in
            chain (project_rows (l_maxResultBytes l) cs 2 (map snd sel)) (\<lambda>rs.
            Inr \<lparr>q_columns = cs, q_rows = rs, q_affected = None\<rparr>)))"

definition executeSelect :: "intl \<Rightarrow> select_stmt \<Rightarrow> (executor, query_result) act" where
  "executeSelect il s = with_table (s_table s) (\<lambda>t x.
     case validateSelectReferences t (s_columns s) (s_order s) (s_where s) of
       Inl e \<Rightarrow> (Inl e, x)
     | Inr _ \<Rightarrow>
         (let (sel, n) = select_rows il (ex_limits x) t s in
          (chain sel (finish_select (ex_limits x) t (s_columns s)), x\<lparr>ex_examined := n\<rparr>)))"

section \<open>Statements\<close>

definition executeStatement :: "intl \<Rightarrow> statement \<Rightarrow> (executor, query_result) act" where
  "executeStatement il s =
     (case s of
        SCreate n cols pk \<Rightarrow> executeCreateTable n cols pk
      | SInsert n cols vss \<Rightarrow> executeInsert il n cols vss
      | SSelect sel \<Rightarrow> executeSelect il sel
      | SUpdate n sets w \<Rightarrow> executeUpdate il n sets w
      | SDelete n w \<Rightarrow> executeDelete il n w
      | SDrop n \<Rightarrow> executeDropTable n)"

end
