(* ===== verification/Sql_Inv.thy ===== *)
theory Sql_Inv
  imports Sql_Exec
begin

text \<open>
  The invariant of the executor: rows are typed by their schema and ordered by id, the bytes
  are those of the rows, the primary index maps every key identity to its one row, every
  column index lists exactly the rows with each value, and the totals and limits agree. Each
  helper on a table is shown to keep the part it touches.
\<close>

section \<open>Well-formed tables\<close>

definition value_ok :: "column \<Rightarrow> bool \<Rightarrow> json \<Rightarrow> bool" where
  "value_ok d primary v \<longleftrightarrow>
     json_wf v \<and>
     (if v = JNull then c_nullable d \<and> \<not> primary
      else case c_type d of
             TString \<Rightarrow> (\<exists>s. v = JStr s)
           | TNumber \<Rightarrow> (\<exists>n. v = JNum n)
           | TBoolean \<Rightarrow> (\<exists>b. v = JBool b)
           | TAny \<Rightarrow> True)"

definition row_ok :: "column list \<Rightarrow> string option \<Rightarrow> row \<Rightarrow> bool" where
  "row_ok cols pk r \<longleftrightarrow>
     distinct_keys r \<and> fst ` set r = c_name ` set cols \<and>
     (\<forall>d \<in> set cols. value_ok d (pk = Some (c_name d)) (field r (c_name d)))"

text \<open>
  The primary index without the rows whose ids are in \<open>U\<close>: an update drops the keys of all
  rows it changes before it files the new ones.
\<close>

definition primary_part :: "nat set \<Rightarrow> string option \<Rightarrow> (nat \<times> row) list \<Rightarrow> (string \<times> nat) list \<Rightarrow> bool" where
  "primary_part U pk rows m \<longleftrightarrow>
     (case pk of
        None \<Rightarrow> m = []
      | Some p \<Rightarrow> (\<forall>k i. map_of m k = Some i \<longleftrightarrow>
          i \<notin> U \<and> (\<exists>r. (i, r) \<in> set rows \<and> valueIdentity (field r p) = k)))"

text \<open>The ids an index lists for a value of a column, \<open>None\<close> when the column has no index.\<close>

definition idx :: "table \<Rightarrow> string \<Rightarrow> json \<Rightarrow> nat list option" where
  "idx t c v = map_option (\<lambda>ix. index_ids ix v) (map_of (t_indexes t) c)"

definition rows_with :: "(nat \<times> row) list \<Rightarrow> string \<Rightarrow> json \<Rightarrow> nat set" where
  "rows_with rows c v = {i. \<exists>r. (i, r) \<in> set rows \<and> field r c = v}"

definition index_ok :: "(nat \<times> row) list \<Rightarrow> table \<Rightarrow> bool" where
  "index_ok rows t \<longleftrightarrow>
     (\<forall>c v ids. idx t c v = Some ids \<longrightarrow>
        c \<in> set (column_names t) \<and>
        (isIndexableValue v \<longrightarrow> distinct ids \<and> set ids = rows_with rows c v))"

definition bytes_ok :: "(nat \<times> row) list \<Rightarrow> (nat \<times> nat) list \<Rightarrow> bool" where
  "bytes_ok rows m \<longleftrightarrow> m = map (\<lambda>(i, r). (i, row_size r)) rows"

definition ids_ok :: "(nat \<times> row) list \<Rightarrow> nat \<Rightarrow> bool" where
  "ids_ok rows n \<longleftrightarrow> sorted_wrt (<) (map fst rows) \<and> (\<forall>p \<in> set rows. fst p < n)"

definition table_part :: "nat set \<Rightarrow> table \<Rightarrow> bool" where
  "table_part U t \<longleftrightarrow>
     distinct (column_names t) \<and> ids_ok (t_rows t) (t_next t) \<and> bytes_ok (t_rows t) (t_bytes t) \<and>
     (\<forall>p \<in> set (t_rows t). row_ok (t_columns t) (t_pk t) (snd p)) \<and>
     primary_part U (t_pk t) (t_rows t) (t_primary t) \<and> index_ok (t_rows t) t"

abbreviation table_ok :: "table \<Rightarrow> bool" where
  "table_ok \<equiv> table_part {}"

lemma table_partI:
  assumes "distinct (column_names t)" "ids_ok (t_rows t) (t_next t)" "bytes_ok (t_rows t) (t_bytes t)"
    "\<And>p. p \<in> set (t_rows t) \<Longrightarrow> row_ok (t_columns t) (t_pk t) (snd p)"
    "primary_part U (t_pk t) (t_rows t) (t_primary t)" "index_ok (t_rows t) t"
  shows "table_part U t"
  using assms by (simp add: table_part_def)

lemma table_partD:
  assumes "table_part U t"
  shows "distinct (column_names t)" "ids_ok (t_rows t) (t_next t)" "bytes_ok (t_rows t) (t_bytes t)"
    "p \<in> set (t_rows t) \<Longrightarrow> row_ok (t_columns t) (t_pk t) (snd p)"
    "primary_part U (t_pk t) (t_rows t) (t_primary t)" "index_ok (t_rows t) t"
  using assms by (simp_all add: table_part_def)

lemma ids_distinct: "ids_ok rows n \<Longrightarrow> distinct_keys rows"
  unfolding ids_ok_def distinct_keys_def by (metis strict_sorted_iff)

section \<open>Indexes\<close>

lemma idx_add:
  "idx (addIndexEntry c v i t) c' v' =
     (if c' = c \<and> v' = v \<and> isIndexableValue v
      then map_option (\<lambda>ids. if i \<in> set ids then ids else ids @ [i]) (idx t c v) else idx t c' v')"
  by (auto simp: idx_def addIndexEntry_def index_ids_def Let_def split: option.splits)

lemma idx_remove:
  "idx (removeIndexEntry c v i t) c' v' =
     (if c' = c \<and> v' = v \<and> isIndexableValue v then map_option (removeAll i) (idx t c v) else idx t c' v')"
  by (auto simp: idx_def removeIndexEntry_def index_ids_def Let_def split: option.splits)

text \<open>The index operations touch nothing but the indexes.\<close>

definition same_but_indexes :: "table \<Rightarrow> table \<Rightarrow> bool" where
  "same_but_indexes t u \<longleftrightarrow> u\<lparr>t_indexes := t_indexes t\<rparr> = t"

lemma same_but_indexesD:
  assumes "same_but_indexes t u"
  shows "t_name u = t_name t" "t_columns u = t_columns t" "t_pk u = t_pk t" "t_rows u = t_rows t"
    "t_next u = t_next t" "t_primary u = t_primary t" "t_bytes u = t_bytes t" "column_names u = column_names t"
  using assms unfolding same_but_indexes_def column_names_def
  by (metis table.select_convs table.surjective table.update_convs)+

lemma same_refl: "same_but_indexes t t"
  and same_add: "same_but_indexes t u \<Longrightarrow> same_but_indexes t (addIndexEntry c v i u)"
  and same_remove: "same_but_indexes t u \<Longrightarrow> same_but_indexes t (removeIndexEntry c v i u)"
  by (auto simp: same_but_indexes_def addIndexEntry_def removeIndexEntry_def Let_def split: option.splits)

lemma same_index_row: "same_but_indexes t u \<Longrightarrow> same_but_indexes t (index_row i r cs u)"
  unfolding index_row_def by (induction cs arbitrary: u) (auto intro: same_add)

lemma same_unindex_row: "same_but_indexes t u \<Longrightarrow> same_but_indexes t (unindex_row i r cs u)"
  unfolding unindex_row_def by (induction cs arbitrary: u) (auto intro: same_remove)

lemma same_reindex: "same_but_indexes t u \<Longrightarrow> same_but_indexes t (reindex i old new cs u)"
  unfolding reindex_def by (induction cs arbitrary: u) (auto intro: same_add same_remove)

lemma idx_index_row:
  "idx (index_row i r cs t) c v =
     (if c \<in> set cs \<and> field r c = v \<and> isIndexableValue v
      then map_option (\<lambda>ids. if i \<in> set ids then ids else ids @ [i]) (idx t c v) else idx t c v)"
  unfolding index_row_def
  by (induction cs arbitrary: t) (auto simp: idx_add option.map_comp comp_def intro!: option.map_cong)

lemma idx_unindex_row:
  "idx (unindex_row i r cs t) c v =
     (if c \<in> set cs \<and> field r c = v \<and> isIndexableValue v then map_option (removeAll i) (idx t c v) else idx t c v)"
  unfolding unindex_row_def
  by (induction cs arbitrary: t) (auto simp: idx_remove option.map_comp comp_def)

text \<open>What an update does to the ids listed for \<open>v\<close>.\<close>

definition moved :: "nat \<Rightarrow> json \<Rightarrow> json \<Rightarrow> json \<Rightarrow> nat list \<Rightarrow> nat list" where
  "moved i old new v ids =
     (let a = (if old = v then removeAll i ids else ids)
      in if new = v then (if i \<in> set a then a else a @ [i]) else a)"

lemma idx_move:
  "idx (addIndexEntry c y i (removeIndexEntry c x i t)) c' v =
     (if c' = c \<and> isIndexableValue v then map_option (moved i x y v) (idx t c v) else idx t c' v)"
  by (cases "idx t c v") (auto simp: idx_add idx_remove moved_def Let_def)

lemma idx_reindex:
  "distinct cs \<Longrightarrow> idx (reindex i old new cs t) c v =
     (if c \<in> set cs \<and> isIndexableValue v then map_option (moved i (field old c) (field new c) v) (idx t c v)
      else idx t c v)"
  unfolding reindex_def by (induction cs arbitrary: t) (auto simp: idx_move)

lemma moved_ids:
  "distinct ids \<Longrightarrow> distinct (moved i x y v ids) \<and>
     set (moved i x y v ids) = (if x = v then set ids - {i} else set ids) \<union> (if y = v then {i} else {})"
  by (auto simp: moved_def Let_def distinct_removeAll)

lemma row_unique: "distinct_keys rows \<Longrightarrow> (i, r) \<in> set rows \<Longrightarrow> (i, r') \<in> set rows \<Longrightarrow> r = r'"
  using map_of_distinct_in [of rows i r] map_of_distinct_in [of rows i r'] by simp

lemma rows_with_snoc: "rows_with (rows @ [(i, r)]) c v = rows_with rows c v \<union> (if field r c = v then {i} else {})"
  by (auto simp: rows_with_def)

lemma rows_with_del:
  "distinct_keys rows \<Longrightarrow> (i, r) \<in> set rows \<Longrightarrow>
     rows_with (al_del i rows) c v = (if field r c = v then rows_with rows c v - {i} else rows_with rows c v)"
  by (auto simp: rows_with_def set_al_del dest: row_unique)

lemma set_al_set: "distinct_keys rows \<Longrightarrow> set (al_set i r rows) = insert (i, r) {p \<in> set rows. fst p \<noteq> i}"
proof (induction i r rows rule: al_set.induct)
  case (2 k v k' v' ps)
  then show ?case by (auto simp: distinct_keys_def image_iff)
qed simp

lemma rows_with_set:
  "distinct_keys rows \<Longrightarrow>
     rows_with (al_set i r rows) c v = (if field r c = v then insert i (rows_with rows c v) else rows_with rows c v - {i})"
  by (auto simp: rows_with_def set_al_set)

lemma index_ok_insert:
  assumes "index_ok rows t" "i \<notin> fst ` set rows"
  shows "index_ok (rows @ [(i, r)]) (index_row i r (column_names t) t)"
  unfolding index_ok_def
proof (intro allI impI)
  fix c v ids assume "idx (index_row i r (column_names t) t) c v = Some ids"
  then obtain ids0 where ids: "idx t c v = Some ids0"
    "ids = (if c \<in> set (column_names t) \<and> field r c = v \<and> isIndexableValue v
            then if i \<in> set ids0 then ids0 else ids0 @ [i] else ids0)"
    by (auto simp: idx_index_row split: if_splits)
  then have old: "c \<in> set (column_names t)" "isIndexableValue v \<Longrightarrow> distinct ids0 \<and> set ids0 = rows_with rows c v"
    using assms(1) by (auto simp: index_ok_def)
  have "column_names (index_row i r (column_names t) t) = column_names t"
    using same_index_row [OF same_refl] by (rule same_but_indexesD)
  with ids old show "c \<in> set (column_names (index_row i r (column_names t) t)) \<and>
      (isIndexableValue v \<longrightarrow> distinct ids \<and> set ids = rows_with (rows @ [(i, r)]) c v)"
    by (auto simp: rows_with_snoc)
qed

lemma index_ok_delete:
  assumes "index_ok rows t" "distinct_keys rows" "(i, r) \<in> set rows"
  shows "index_ok (al_del i rows) (unindex_row i r (column_names t) t)"
  unfolding index_ok_def
proof (intro allI impI)
  fix c v ids assume "idx (unindex_row i r (column_names t) t) c v = Some ids"
  then obtain ids0 where ids: "idx t c v = Some ids0"
    "ids = (if c \<in> set (column_names t) \<and> field r c = v \<and> isIndexableValue v then removeAll i ids0 else ids0)"
    by (auto simp: idx_unindex_row split: if_splits)
  then have old: "c \<in> set (column_names t)" "isIndexableValue v \<Longrightarrow> distinct ids0 \<and> set ids0 = rows_with rows c v"
    using assms(1) by (auto simp: index_ok_def)
  have "column_names (unindex_row i r (column_names t) t) = column_names t"
    using same_unindex_row [OF same_refl] by (rule same_but_indexesD)
  with ids old show "c \<in> set (column_names (unindex_row i r (column_names t) t)) \<and>
      (isIndexableValue v \<longrightarrow> distinct ids \<and> set ids = rows_with (al_del i rows) c v)"
    using rows_with_del [OF assms(2,3)] by (auto simp: distinct_removeAll)
qed

lemma index_ok_update:
  assumes "index_ok rows t" "distinct_keys rows" "(i, old) \<in> set rows" "distinct cs"
    and same: "\<And>c. c \<in> set (column_names t) \<Longrightarrow> c \<notin> set cs \<Longrightarrow> field new c = field old c"
  shows "index_ok (al_set i new rows) (reindex i old new cs t)"
  unfolding index_ok_def
proof (intro allI impI)
  fix c v ids assume a: "idx (reindex i old new cs t) c v = Some ids"
  then obtain ids0 where ids: "idx t c v = Some ids0"
    "ids = (if c \<in> set cs \<and> isIndexableValue v then moved i (field old c) (field new c) v ids0 else ids0)"
    by (cases "idx t c v") (simp_all add: idx_reindex [OF assms(4)] split: if_splits)
  then have inv: "c \<in> set (column_names t)" "isIndexableValue v \<Longrightarrow> distinct ids0 \<and> set ids0 = rows_with rows c v"
    using assms(1) by (auto simp: index_ok_def)
  have i: "i \<in> rows_with rows c v \<longleftrightarrow> field old c = v"
    unfolding rows_with_def mem_Collect_eq using row_unique [OF assms(2,3)] assms(3) by blast
  have "distinct ids \<and> set ids = rows_with (al_set i new rows) c v" if "isIndexableValue v"
  proof (cases "c \<in> set cs")
    case True
    then have e: "ids = moved i (field old c) (field new c) v ids0" using ids(2) that by simp
    have d: "distinct ids0" "set ids0 = rows_with rows c v" using inv(2) [OF that] by simp_all
    have "(if field old c = v then rows_with rows c v - {i} else rows_with rows c v) \<union>
        (if field new c = v then {i} else {}) = rows_with (al_set i new rows) c v"
      unfolding rows_with_set [OF assms(2)] using i by (cases "field old c = v"; cases "field new c = v") auto
    with moved_ids [OF d(1), of i "field old c" "field new c" v] show ?thesis unfolding e d(2) by simp
  next
    case False
    then have e: "ids = ids0" using ids(2) by simp
    have d: "distinct ids0" "set ids0 = rows_with rows c v" using inv(2) [OF that] by simp_all
    have "rows_with rows c v = rows_with (al_set i new rows) c v"
      unfolding rows_with_set [OF assms(2)] same [OF inv(1) False]
      using i by (cases "field old c = v") auto
    with d show ?thesis unfolding e by simp
  qed
  moreover have "column_names (reindex i old new cs t) = column_names t"
    using same_reindex [OF same_refl] by (rule same_but_indexesD)
  ultimately show "c \<in> set (column_names (reindex i old new cs t)) \<and>
      (isIndexableValue v \<longrightarrow> distinct ids \<and> set ids = rows_with (al_set i new rows) c v)"
    using inv(1) by simp
qed

section \<open>The primary index\<close>

lemma primary_part_insert:
  assumes "primary_part U pk rows m" "i \<notin> fst ` set rows" "i \<notin> U"
    and "\<And>p. pk = Some p \<Longrightarrow> map_of m (valueIdentity (field r p)) = None"
    and "m' = (case pk of None \<Rightarrow> m | Some p \<Rightarrow> al_set (valueIdentity (field r p)) i m)"
  shows "primary_part U pk (rows @ [(i, r)]) m'"
proof (cases pk)
  case (Some p)
  have new: "(i, r') \<notin> set rows" for r' using assms(2) by force
  have free: "(j, r') \<in> set rows \<Longrightarrow> j \<notin> U \<Longrightarrow> valueIdentity (field r' p) \<noteq> valueIdentity (field r p)" for j r'
    using assms(1) assms(4) [OF Some] by (force simp: primary_part_def Some)
  have "map_of m' k = Some j \<longleftrightarrow>
      j \<notin> U \<and> (\<exists>r'. (j, r') \<in> set (rows @ [(i, r)]) \<and> valueIdentity (field r' p) = k)" for k j
  proof (cases "k = valueIdentity (field r p)")
    case True
    then show ?thesis using free assms(3) by (auto simp: assms(5) Some)
  next
    case False
    then show ?thesis using assms(1) by (auto simp: assms(5) Some primary_part_def)
  qed
  then show ?thesis by (simp add: primary_part_def Some)
qed (use assms in \<open>simp add: primary_part_def\<close>)

lemma primary_part_drop:
  assumes "primary_part U pk rows m" "(i, r) \<in> set rows" "distinct_keys rows" "i \<notin> U"
    and "m' = (case pk of None \<Rightarrow> m | Some p \<Rightarrow> al_del (valueIdentity (field r p)) m)"
  shows "primary_part (insert i U) pk rows m'"
proof (cases pk)
  case (Some p)
  have mine: "map_of m (valueIdentity (field r p)) = Some i"
    using assms(1,2,4) by (auto simp: primary_part_def Some)
  have "map_of m' k = Some j \<longleftrightarrow>
      j \<notin> insert i U \<and> (\<exists>r'. (j, r') \<in> set rows \<and> valueIdentity (field r' p) = k)" for k j
  proof (cases "k = valueIdentity (field r p)")
    case True
    then have "map_of m' k = None" by (simp add: assms(5) Some)
    moreover have "map_of m k = Some j \<longleftrightarrow> j = i" using mine True by auto
    ultimately show ?thesis using assms(1) by (auto simp: primary_part_def Some)
  next
    case False
    then have "map_of m' k = map_of m k" by (simp add: assms(5) Some)
    moreover have "(i, r') \<in> set rows \<Longrightarrow> valueIdentity (field r' p) \<noteq> k" for r'
      using row_unique [OF assms(3,2), of r'] False by auto
    ultimately show ?thesis using assms(1) by (auto simp: primary_part_def Some)
  qed
  then show ?thesis by (simp add: primary_part_def Some)
qed (use assms in \<open>simp add: primary_part_def\<close>)

text \<open>A row out of the index may change or go.\<close>

lemma primary_part_replace:
  assumes "primary_part U pk rows m" "i \<in> U" "distinct_keys rows"
  shows "primary_part U pk (al_set i new rows) m" "primary_part (U - {i}) pk (al_del i rows) m"
  using assms by (auto simp: primary_part_def set_al_set set_al_del split: option.splits)

lemma primary_part_file:
  assumes "primary_part U pk rows m" "i \<in> U" "(i, r) \<in> set rows" "distinct_keys rows"
    and "\<And>p. pk = Some p \<Longrightarrow> map_of m (valueIdentity (field r p)) = None"
    and "m' = (case pk of None \<Rightarrow> m | Some p \<Rightarrow> al_set (valueIdentity (field r p)) i m)"
  shows "primary_part (U - {i}) pk rows m'"
proof (cases pk)
  case (Some p)
  have free: "(j, r') \<in> set rows \<Longrightarrow> j \<notin> U \<Longrightarrow> valueIdentity (field r' p) \<noteq> valueIdentity (field r p)" for j r'
    using assms(1) assms(5) [OF Some] by (force simp: primary_part_def Some)
  have "map_of m' k = Some j \<longleftrightarrow>
      j \<notin> U - {i} \<and> (\<exists>r'. (j, r') \<in> set rows \<and> valueIdentity (field r' p) = k)" for k j
  proof (cases "k = valueIdentity (field r p)")
    case True
    then have "map_of m' k = Some i" by (simp add: assms(6) Some)
    then have "map_of m' k = Some j \<longleftrightarrow> j = i" by auto
    then show ?thesis using free assms(2,3) True by blast
  next
    case False
    then have "map_of m' k = map_of m k" by (simp add: assms(6) Some)
    moreover have "(i, r') \<in> set rows \<Longrightarrow> valueIdentity (field r' p) \<noteq> k" for r'
      using row_unique [OF assms(4,3), of r'] False by auto
    ultimately show ?thesis using assms(1,2) by (auto simp: primary_part_def Some)
  qed
  then show ?thesis by (simp add: primary_part_def Some)
qed (use assms in \<open>simp add: primary_part_def\<close>)

lemma primary_part_same_key:
  assumes "primary_part U pk rows m" "(i, old) \<in> set rows" "distinct_keys rows"
    and "\<And>p. pk = Some p \<Longrightarrow> field new p = field old p"
  shows "primary_part U pk (al_set i new rows) m"
proof (cases pk)
  case (Some p)
  have "(\<exists>r. (j, r) \<in> set (al_set i new rows) \<and> valueIdentity (field r p) = k) \<longleftrightarrow>
      (\<exists>r. (j, r) \<in> set rows \<and> valueIdentity (field r p) = k)" for j k
  proof (cases "j = i")
    case True
    have "(i, r) \<in> set (al_set i new rows) \<longleftrightarrow> r = new" for r
      unfolding set_al_set [OF assms(3)] by simp
    moreover have "(i, r) \<in> set rows \<longleftrightarrow> r = old" for r
      using row_unique [OF assms(3,2)] assms(2) by blast
    ultimately show ?thesis by (simp add: True assms(4) [OF Some])
  next
    case False
    then show ?thesis unfolding set_al_set [OF assms(3)] by auto
  qed
  with assms(1) show ?thesis by (simp add: primary_part_def Some)
qed (use assms in \<open>simp add: primary_part_def\<close>)

lemma pk_loop_ok:
  "pk_loop t p replaced seen rs = Inr () \<longleftrightarrow>
     distinct (map (\<lambda>r. valueIdentity (field r p)) rs) \<and>
     (\<forall>r \<in> set rs. valueIdentity (field r p) \<notin> seen \<and>
        (\<forall>i. map_of (t_primary t) (valueIdentity (field r p)) = Some i \<longrightarrow> i \<in> replaced))"
proof (induction t p replaced seen rs rule: pk_loop.induct)
  case (2 t p replaced seen r rs)
  let ?key = "\<lambda>r. valueIdentity (field r p)"
  let ?free = "\<lambda>r. \<forall>i. map_of (t_primary t) (?key r) = Some i \<longrightarrow> i \<in> replaced"
  have clash: "(case map_of (t_primary t) (?key r) of None \<Rightarrow> False | Some i \<Rightarrow> i \<notin> replaced) \<longleftrightarrow> \<not> ?free r"
    by (auto split: option.splits)
  have split: "(\<forall>x \<in> set rs. ?key x \<notin> insert (?key r) seen \<and> ?free x) \<longleftrightarrow>
      ?key r \<notin> ?key ` set rs \<and> (\<forall>x \<in> set rs. ?key x \<notin> seen \<and> ?free x)"
    by (simp add: image_iff ball_conj_distrib eq_commute [of "?key r"])
  show ?case
  proof (cases "?key r \<in> seen \<or> \<not> ?free r")
    case True
    then have "pk_loop t p replaced seen (r # rs) \<noteq> Inr ()" unfolding pk_loop.simps Let_def clash by (simp only: if_True) simp
    with True show ?thesis by auto
  next
    case False
    then have "pk_loop t p replaced seen (r # rs) = pk_loop t p replaced (insert (?key r) seen) rs"
      unfolding pk_loop.simps Let_def clash by (simp only: if_False)
    moreover have "pk_loop t p replaced (insert (?key r) seen) rs = Inr () \<longleftrightarrow>
        distinct (map ?key rs) \<and> (\<forall>x \<in> set rs. ?key x \<notin> insert (?key r) seen \<and> ?free x)"
      using False by (intro "2.IH") (simp_all add: clash)
    ultimately show ?thesis using False unfolding split by auto
  qed
qed simp

end
