(* ===== verification/Sql_Rows.thy ===== *)
theory Sql_Rows
  imports Sql_Inv
begin

text \<open>
  What the row operations do to a well-formed table: \<open>insert_row\<close> appends, \<open>deleteRow\<close>
  removes, an update replaces rows in place, and each keeps the invariant of the table.
\<close>

section \<open>Inserting\<close>

text \<open>The fields that the index operations leave alone.\<close>

lemmas index_same =
  same_index_row [OF same_refl, THEN same_but_indexesD(1)]
  same_index_row [OF same_refl, THEN same_but_indexesD(2)]
  same_index_row [OF same_refl, THEN same_but_indexesD(3)]
  same_index_row [OF same_refl, THEN same_but_indexesD(4)]
  same_index_row [OF same_refl, THEN same_but_indexesD(5)]
  same_index_row [OF same_refl, THEN same_but_indexesD(6)]
  same_index_row [OF same_refl, THEN same_but_indexesD(7)]

lemmas unindex_same =
  same_unindex_row [OF same_refl, THEN same_but_indexesD(1)]
  same_unindex_row [OF same_refl, THEN same_but_indexesD(2)]
  same_unindex_row [OF same_refl, THEN same_but_indexesD(3)]
  same_unindex_row [OF same_refl, THEN same_but_indexesD(4)]
  same_unindex_row [OF same_refl, THEN same_but_indexesD(5)]
  same_unindex_row [OF same_refl, THEN same_but_indexesD(6)]
  same_unindex_row [OF same_refl, THEN same_but_indexesD(7)]

lemmas reindex_same =
  same_reindex [OF same_refl, THEN same_but_indexesD(1)]
  same_reindex [OF same_refl, THEN same_but_indexesD(2)]
  same_reindex [OF same_refl, THEN same_but_indexesD(3)]
  same_reindex [OF same_refl, THEN same_but_indexesD(4)]
  same_reindex [OF same_refl, THEN same_but_indexesD(5)]
  same_reindex [OF same_refl, THEN same_but_indexesD(6)]
  same_reindex [OF same_refl, THEN same_but_indexesD(7)]

lemma index_ok_cong:
  "t_indexes u = t_indexes t \<Longrightarrow> t_columns u = t_columns t \<Longrightarrow> index_ok rows u = index_ok rows t"
  by (simp add: index_ok_def idx_def column_names_def)

lemma primary_set_simps [simp]:
  "t_name (primary_set pk r i t) = t_name t" "t_columns (primary_set pk r i t) = t_columns t"
  "t_pk (primary_set pk r i t) = t_pk t" "t_rows (primary_set pk r i t) = t_rows t"
  "t_next (primary_set pk r i t) = t_next t" "t_bytes (primary_set pk r i t) = t_bytes t"
  "t_indexes (primary_set pk r i t) = t_indexes t"
  "t_primary (primary_set pk r i t) =
     (case pk of None \<Rightarrow> t_primary t | Some p \<Rightarrow> al_set (valueIdentity (field r p)) i (t_primary t))"
  by (simp_all add: primary_set_def split: option.splits)

lemma primary_del_simps [simp]:
  "t_name (primary_del pk r t) = t_name t" "t_columns (primary_del pk r t) = t_columns t"
  "t_pk (primary_del pk r t) = t_pk t" "t_rows (primary_del pk r t) = t_rows t"
  "t_next (primary_del pk r t) = t_next t" "t_bytes (primary_del pk r t) = t_bytes t"
  "t_indexes (primary_del pk r t) = t_indexes t"
  "t_primary (primary_del pk r t) =
     (case pk of None \<Rightarrow> t_primary t | Some p \<Rightarrow> al_del (valueIdentity (field r p)) (t_primary t))"
  by (simp_all add: primary_del_def split: option.splits)

lemma ids_fresh: "ids_ok rows n \<Longrightarrow> n \<notin> fst ` set rows"
  by (auto simp: ids_ok_def)

lemma ids_snoc: "ids_ok rows n \<Longrightarrow> ids_ok (rows @ [(n, r)]) (n + 1)"
  by (auto simp: ids_ok_def sorted_wrt_append less_Suc_eq)

lemma bytes_ids: "bytes_ok rows m \<Longrightarrow> fst ` set m = fst ` set rows"
  by (force simp: bytes_ok_def)

definition key_free :: "table \<Rightarrow> row \<Rightarrow> bool" where
  "key_free t r \<longleftrightarrow> (\<forall>p. t_pk t = Some p \<longrightarrow> map_of (t_primary t) (valueIdentity (field r p)) = None)"

lemma insert_row_shape:
  assumes "table_ok t"
  shows "t_rows (insert_row r t) = t_rows t @ [(t_next t, r)]" "t_next (insert_row r t) = t_next t + 1"
    "t_bytes (insert_row r t) = t_bytes t @ [(t_next t, row_size r)]" "t_columns (insert_row r t) = t_columns t"
    "t_pk (insert_row r t) = t_pk t" "t_name (insert_row r t) = t_name t"
    "t_primary (insert_row r t) =
       (case t_pk t of None \<Rightarrow> t_primary t | Some p \<Rightarrow> al_set (valueIdentity (field r p)) (t_next t) (t_primary t))"
proof -
  note ok = table_partD [OF assms]
  note same = index_same
  have "t_next t \<notin> fst ` set (t_rows t)" "t_next t \<notin> fst ` set (t_bytes t)"
    using ids_fresh [OF ok(2)] bytes_ids [OF ok(3)] by simp_all
  then show "t_rows (insert_row r t) = t_rows t @ [(t_next t, r)]" "t_next (insert_row r t) = t_next t + 1"
    "t_bytes (insert_row r t) = t_bytes t @ [(t_next t, row_size r)]" "t_columns (insert_row r t) = t_columns t"
    "t_pk (insert_row r t) = t_pk t" "t_name (insert_row r t) = t_name t"
    "t_primary (insert_row r t) =
       (case t_pk t of None \<Rightarrow> t_primary t | Some p \<Rightarrow> al_set (valueIdentity (field r p)) (t_next t) (t_primary t))"
    by (simp_all add: insert_row_def Let_def same al_set_notin split: option.splits)
qed

lemma insert_row_ok:
  assumes "table_ok t" "row_ok (t_columns t) (t_pk t) r" "key_free t r"
  shows "table_ok (insert_row r t)"
proof -
  note ok = table_partD [OF assms(1)] and shape = insert_row_shape [OF assms(1), of r]
  let ?t1 = "primary_set (t_pk t) r (t_next t) (t\<lparr>t_next := t_next t + 1,
      t_rows := al_set (t_next t) r (t_rows t), t_bytes := al_set (t_next t) (row_size r) (t_bytes t)\<rparr>)"
  have c: "column_names ?t1 = column_names t" by (simp add: column_names_def)
  have "index_ok (t_rows t @ [(t_next t, r)]) (index_row (t_next t) r (column_names ?t1) ?t1)"
    using ok(6) ids_fresh [OF ok(2)] index_ok_cong [of ?t1 t "t_rows t"] by (intro index_ok_insert) simp_all
  moreover have "insert_row r t = index_row (t_next t) r (column_names ?t1) ?t1"
    by (simp only: insert_row_def Let_def c)
  ultimately have ix: "index_ok (t_rows t @ [(t_next t, r)]) (insert_row r t)" by (simp only:)
  have pr: "primary_part {} (t_pk t) (t_rows t @ [(t_next t, r)]) (t_primary (insert_row r t))"
    using assms(3) by (intro primary_part_insert [OF ok(5) ids_fresh [OF ok(2)]]) (simp_all add: shape key_free_def)
  have bt: "bytes_ok (t_rows t @ [(t_next t, r)]) (t_bytes t @ [(t_next t, row_size r)])"
    using ok(3) by (simp add: bytes_ok_def)
  have rows: "\<forall>p \<in> set (t_rows t @ [(t_next t, r)]). row_ok (t_columns t) (t_pk t) (snd p)"
    using ok(4) assms(2) by auto
  show ?thesis
    using ok(1) ix pr bt rows ids_snoc [OF ok(2)]
    by (intro table_partI) (simp_all only: shape column_names_def)
qed

section \<open>Deleting\<close>

lemma ids_del: "ids_ok rows n \<Longrightarrow> ids_ok (al_del i rows) n"
  by (auto simp: ids_ok_def al_del_def sorted_wrt_map sorted_wrt_filter)

lemma bytes_del: "bytes_ok rows m \<Longrightarrow> bytes_ok (al_del i rows) (al_del i m)"
  by (auto simp: bytes_ok_def al_del_def filter_map comp_def case_prod_beta)

lemma bytes_of_row: "bytes_ok (t_rows t) (t_bytes t) \<Longrightarrow> distinct_keys (t_rows t) \<Longrightarrow> (i, r) \<in> set (t_rows t)
    \<Longrightarrow> bytes_of t i = int (row_size r)"
proof -
  assume "bytes_ok (t_rows t) (t_bytes t)" and d: "distinct_keys (t_rows t)" "(i, r) \<in> set (t_rows t)"
  then have "map_of (t_bytes t) i = map_option row_size (map_of (t_rows t) i)"
    by (simp add: bytes_ok_def map_of_map)
  then show ?thesis using map_of_distinct_in [OF d] by (simp add: bytes_of_def)
qed

lemma deleteRow_ok:
  assumes "table_ok t" "(i, r) \<in> set (t_rows t)" "deleteRow (i, r) (t, n, b) = (t', n', b')"
  shows "table_ok t'" "t_rows t' = al_del i (t_rows t)" "n' = n - 1" "b' = b - int (row_size r)"
    "t_columns t' = t_columns t" "t_pk t' = t_pk t" "t_name t' = t_name t"
proof -
  note ok = table_partD [OF assms(1)]
  note d = ids_distinct [OF ok(2)]
  note same = unindex_same
  let ?u = "unindex_row i r (column_names t) t"
  from assms(3) have t': "t' = (primary_del (t_pk t) r ?u)\<lparr>t_bytes := al_del i (t_bytes t), t_rows := al_del i (t_rows t)\<rparr>"
    and n': "n' = n - 1" and b': "b' = b - bytes_of t i"
    by (auto simp: deleteRow_def Let_def same)
  show shape: "t_rows t' = al_del i (t_rows t)" "t_columns t' = t_columns t" "t_pk t' = t_pk t" "t_name t' = t_name t"
    by (simp_all add: t' same)
  show "n' = n - 1" by (rule n')
  show "b' = b - int (row_size r)" using bytes_of_row [OF ok(3) d assms(2)] by (simp add: b')
  have ix: "index_ok (al_del i (t_rows t)) t'"
    using index_ok_delete [OF ok(6) d assms(2)] index_ok_cong [of t' ?u] by (simp add: t')
  have "primary_part {i} (t_pk t) (t_rows t) (t_primary t')"
    using assms(2) by (intro primary_part_drop [OF ok(5) _ d]) (auto simp: t' same split: option.splits)
  from primary_part_replace(2) [OF this _ d, of i]
  have pr: "primary_part {} (t_pk t) (al_del i (t_rows t)) (t_primary t')" by simp
  have "t_bytes t' = al_del i (t_bytes t)" "t_next t' = t_next t" by (simp_all add: t' same)
  moreover have "row_ok (t_columns t) (t_pk t) (snd p)" if "p \<in> set (al_del i (t_rows t))" for p
    using that ok(4) by (simp add: set_al_del)
  moreover have "distinct (column_names t')" using ok(1) by (simp add: column_names_def shape)
  ultimately show "table_ok t'"
    using ix pr ids_del [OF ok(2)] bytes_del [OF ok(3)] by (intro table_partI) (simp_all add: shape)
qed

text \<open>Deleting a list of rows.\<close>

lemma delete_rows_ok:
  assumes "table_ok t" "distinct (map fst ds)" "set ds \<subseteq> set (t_rows t)" "fold deleteRow ds (t, n, b) = (t', n', b')"
  shows "table_ok t' \<and> t_rows t' = filter (\<lambda>p. fst p \<notin> fst ` set ds) (t_rows t) \<and>
    n' = n - int (length ds) \<and> b' = b - int (sum_list (map (row_size \<circ> snd) ds)) \<and>
    t_columns t' = t_columns t \<and> t_pk t' = t_pk t \<and> t_name t' = t_name t"
  using assms
proof (induction ds arbitrary: t n b)
  case (Cons d ds)
  obtain i r where d: "d = (i, r)" by (cases d)
  obtain t1 n1 b1 where 1: "deleteRow (i, r) (t, n, b) = (t1, n1, b1)" by (cases "deleteRow (i, r) (t, n, b)")
  have "(i, r) \<in> set (t_rows t)" using Cons.prems(3) d by simp
  note ok = deleteRow_ok [OF Cons.prems(1) this 1]
  have sub: "set ds \<subseteq> set (t_rows t1)"
    using Cons.prems(2,3) by (force simp: ok(2) set_al_del d)
  have "distinct (map fst ds)" "fold deleteRow ds (t1, n1, b1) = (t', n', b')" using Cons.prems(2,4) by (simp_all add: d 1)
  note ih = Cons.IH [OF ok(1) this(1) sub this(2)]
  have "filter (\<lambda>p. fst p \<notin> fst ` set ds) (al_del i (t_rows t)) = filter (\<lambda>p. fst p \<notin> fst ` set (d # ds)) (t_rows t)"
    by (auto simp: al_del_def d intro: filter_cong)
  with ih ok show ?case by (simp add: d)
qed simp

section \<open>Updating\<close>

lemma al_set_present:
  "distinct_keys ps \<Longrightarrow> k \<in> fst ` set ps \<Longrightarrow> al_set k v ps = map (\<lambda>p. if fst p = k then (k, v) else p) ps"
proof (induction k v ps rule: al_set.induct)
  case (2 k v k' v' ps)
  show ?case
  proof (cases "k = k'")
    case True
    then have "\<forall>p \<in> set ps. fst p \<noteq> k" using 2(2) by (force simp: distinct_keys_def)
    then have "map (\<lambda>p. if fst p = k then (k, v) else p) ps = ps" by (intro map_idI) auto
    with True show ?thesis by simp
  qed (use 2 in \<open>auto simp: distinct_keys_def\<close>)
qed simp

lemma map_fst_al_set_id: "k \<in> fst ` set ps \<Longrightarrow> map fst (al_set k v ps) = map fst ps"
  by (rule map_fst_al_set)

lemma ids_set: "ids_ok rows n \<Longrightarrow> i \<in> fst ` set rows \<Longrightarrow> ids_ok (al_set i r rows) n"
  unfolding ids_ok_def map_fst_al_set
  using fst_al_set [of i r rows] by (metis (no_types, lifting) imageE image_eqI insertE)

lemma bytes_set:
  assumes "bytes_ok rows m" "i \<in> fst ` set rows"
  shows "bytes_ok (al_set i r rows) (al_set i (row_size r) m)"
proof -
  have "al_set i (f r) (map (\<lambda>(i, r). (i, f r)) rows) = map (\<lambda>(i, r). (i, f r)) (al_set i r rows)" for f :: "row \<Rightarrow> nat"
    by (induction i r rows rule: al_set.induct) auto
  with assms show ?thesis by (simp add: bytes_ok_def)
qed

definition off_columns_same :: "table \<Rightarrow> string list \<Rightarrow> row \<Rightarrow> row \<Rightarrow> bool" where
  "off_columns_same t cs old new \<longleftrightarrow> (\<forall>c \<in> set (column_names t). c \<notin> set cs \<longrightarrow> field new c = field old c)"

lemma update_row_ok:
  assumes t: "table_part U t" "(i, old) \<in> set (t_rows t)" and cs: "distinct cs" "off_columns_same t cs old new"
    and new: "row_ok (t_columns t) (t_pk t) new"
    and chg: "chg \<Longrightarrow> i \<in> U \<and> key_free t new" "\<not> chg \<Longrightarrow> U = {} \<and> (\<forall>p. t_pk t = Some p \<longrightarrow> field new p = field old p)"
    and t': "t' = update_row cs chg (i, new) t"
  shows "table_part (U - {i}) t'" "t_rows t' = al_set i new (t_rows t)" "t_columns t' = t_columns t"
    "t_pk t' = t_pk t" "t_name t' = t_name t" "t_next t' = t_next t"
    "t_primary t' = (if chg then case t_pk t of None \<Rightarrow> t_primary t
       | Some p \<Rightarrow> al_set (valueIdentity (field new p)) i (t_primary t) else t_primary t)"
proof -
  note ok = table_partD [OF t(1)]
  note d = ids_distinct [OF ok(2)]
  have m: "map_of (t_rows t) i = Some old" using map_of_distinct_in [OF d t(2)] .
  have i: "i \<in> fst ` set (t_rows t)" using t(2) by force
  let ?u = "reindex i old new cs t"
  note same = reindex_same
  show shape: "t_rows t' = al_set i new (t_rows t)" "t_columns t' = t_columns t" "t_pk t' = t_pk t"
    "t_name t' = t_name t" "t_next t' = t_next t"
    "t_primary t' = (if chg then case t_pk t of None \<Rightarrow> t_primary t
       | Some p \<Rightarrow> al_set (valueIdentity (field new p)) i (t_primary t) else t_primary t)"
    by (simp_all add: t' update_row_def Let_def m same split: option.splits)
  have ix: "index_ok (al_set i new (t_rows t)) t'"
  proof -
    have "index_ok (al_set i new (t_rows t)) ?u"
      using cs(2) by (intro index_ok_update [OF ok(6) d t(2) cs(1)]) (simp add: off_columns_same_def)
    moreover have "t_indexes t' = t_indexes ?u" "t_columns t' = t_columns ?u"
      by (simp_all add: t' update_row_def Let_def m same)
    ultimately show ?thesis using index_ok_cong by blast
  qed
  have pr: "primary_part (U - {i}) (t_pk t) (al_set i new (t_rows t)) (t_primary t')"
  proof (cases chg)
    case True
    have "(i, new) \<in> set (al_set i new (t_rows t))" using set_al_set [OF d] by simp
    with chg(1) [OF True] True show ?thesis
      by (intro primary_part_file [OF primary_part_replace(1) [OF ok(5) _ d]]) (simp_all add: shape key_free_def d)
  next
    case False
    with primary_part_same_key [OF ok(5) t(2) d, of new] chg(2) show ?thesis by (simp add: shape)
  qed
  have bt: "bytes_ok (al_set i new (t_rows t)) (t_bytes t')"
    using bytes_set [OF ok(3) i, of new] by (simp add: t' update_row_def Let_def m same)
  have rows: "row_ok (t_columns t) (t_pk t) (snd p)" if "p \<in> set (al_set i new (t_rows t))" for p
    using that ok(4) [of p] new by (auto simp: set_al_set [OF d])
  show "table_part (U - {i}) t'"
    using ok(1) ix pr bt rows ids_set [OF ok(2) i]
    by (intro table_partI) (simp_all add: shape column_names_def)
qed

text \<open>The new rows of a statement, each for a row of the table, with what they must satisfy.\<close>

definition updates_ok :: "table \<Rightarrow> string list \<Rightarrow> (nat \<times> row) list \<Rightarrow> bool" where
  "updates_ok t cs us \<longleftrightarrow>
     distinct (map fst us) \<and>
     (\<forall>i new. (i, new) \<in> set us \<longrightarrow> row_ok (t_columns t) (t_pk t) new \<and>
        (\<exists>old. (i, old) \<in> set (t_rows t) \<and> off_columns_same t cs old new))"

lemma updates_okD:
  "updates_ok t cs us \<Longrightarrow> (i, new) \<in> set us \<Longrightarrow>
     row_ok (t_columns t) (t_pk t) new \<and> (\<exists>old. (i, old) \<in> set (t_rows t) \<and> off_columns_same t cs old new)"
  unfolding updates_ok_def by blast

definition row_updates :: "(nat \<times> row) list \<Rightarrow> (nat \<times> row) list \<Rightarrow> (nat \<times> row) list" where
  "row_updates us rows = map (\<lambda>(j, r). (j, case map_of us j of Some r' \<Rightarrow> r' | None \<Rightarrow> r)) rows"

definition keys_free :: "table \<Rightarrow> (nat \<times> row) list \<Rightarrow> bool" where
  "keys_free t us \<longleftrightarrow>
     (\<forall>p. t_pk t = Some p \<longrightarrow>
        distinct (map (\<lambda>u. valueIdentity (field (snd u) p)) us) \<and>
        (\<forall>u \<in> set us. map_of (t_primary t) (valueIdentity (field (snd u) p)) = None))"

lemma keys_free_rest:
  assumes "keys_free t ((i, new) # us)" "t_pk t' = t_pk t"
    and "t_primary t' = (case t_pk t of None \<Rightarrow> t_primary t
       | Some p \<Rightarrow> al_set (valueIdentity (field new p)) j (t_primary t))"
  shows "keys_free t' us"
  unfolding keys_free_def
proof (intro allI impI conjI ballI)
  fix p assume "t_pk t' = Some p"
  then have p: "t_pk t = Some p" using assms(2) by simp
  with assms(1) have *: "valueIdentity (field new p) \<notin> (\<lambda>u. valueIdentity (field (snd u) p)) ` set us"
    "distinct (map (\<lambda>u. valueIdentity (field (snd u) p)) us)"
    "\<And>u. u \<in> set us \<Longrightarrow> map_of (t_primary t) (valueIdentity (field (snd u) p)) = None"
    by (simp_all add: keys_free_def)
  show "distinct (map (\<lambda>u. valueIdentity (field (snd u) p)) us)" by (rule *)
  fix u assume u: "u \<in> set us"
  then have "valueIdentity (field (snd u) p) \<noteq> valueIdentity (field new p)" using *(1) by force
  then show "map_of (t_primary t') (valueIdentity (field (snd u) p)) = None"
    using *(3) [OF u] by (simp add: assms(3) p)
qed

lemma row_updates_Cons:
  assumes "distinct_keys rows" "i \<in> fst ` set rows" "i \<notin> fst ` set us"
  shows "row_updates us (al_set i new rows) = row_updates ((i, new) # us) rows"
proof -
  have "map_of us i = None" using assms(3) by (simp add: map_of_None_iff)
  then show ?thesis by (auto simp: row_updates_def al_set_present [OF assms(1,2)])
qed

lemma updates_ok_rest:
  assumes "table_part U t" "updates_ok t cs ((i, new) # us)" "t_rows t' = al_set i new (t_rows t)"
    "t_columns t' = t_columns t" "t_pk t' = t_pk t"
  shows "updates_ok t' cs us"
proof -
  have d: "distinct_keys (t_rows t)" using ids_distinct table_partD(2) [OF assms(1)] by blast
  have "\<exists>old. (j, old) \<in> set (t_rows t') \<and> off_columns_same t' cs old r" if jr: "(j, r) \<in> set us" for j r
  proof -
    have "j \<noteq> i" using assms(2) jr by (force simp: updates_ok_def)
    moreover obtain old where "(j, old) \<in> set (t_rows t)" "off_columns_same t cs old r"
      using updates_okD [OF assms(2) list.set_intros(2) [OF jr]] by blast
    ultimately show ?thesis
      by (intro exI [of _ old]) (simp add: assms(3,4) set_al_set [OF d] off_columns_same_def column_names_def)
  qed
  with assms(2) show ?thesis by (auto simp: updates_ok_def assms(4,5))
qed

lemma update_all_ok:
  assumes "table_part U t" "updates_ok t cs us" "distinct cs"
    and "chg \<Longrightarrow> U = fst ` set us \<and> keys_free t us"
    and "\<not> chg \<Longrightarrow> U = {} \<and> (\<forall>p. t_pk t = Some p \<longrightarrow> p \<notin> set cs \<and> p \<in> set (column_names t))"
    and "t' = fold (update_row cs chg) us t"
  shows "table_ok t' \<and> t_rows t' = row_updates us (t_rows t) \<and> t_columns t' = t_columns t \<and>
    t_pk t' = t_pk t \<and> t_name t' = t_name t"
  using assms
proof (induction us arbitrary: U t)
  case Nil
  then show ?case by (cases chg) (simp_all add: row_updates_def case_prod_beta)
next
  case (Cons u us)
  obtain i new where u: "u = (i, new)" by (cases u)
  obtain t1 where t1: "t1 = update_row cs chg (i, new) t" by blast
  have d: "distinct_keys (t_rows t)" using ids_distinct table_partD(2) [OF Cons.prems(1)] by blast
  from Cons.prems(2) obtain old where old: "(i, old) \<in> set (t_rows t)" "off_columns_same t cs old new"
    "row_ok (t_columns t) (t_pk t) new" 
    using updates_okD [of t cs "u # us" i new] by (auto simp: u)
  have notin: "i \<notin> fst ` set us" using Cons.prems(2) by (simp add: updates_ok_def u)
  have chg: "chg \<Longrightarrow> i \<in> U \<and> key_free t new"
    using Cons.prems(4) by (auto simp: u keys_free_def key_free_def)
  have nochg: "\<not> chg \<Longrightarrow> U = {} \<and> (\<forall>p. t_pk t = Some p \<longrightarrow> field new p = field old p)"
    using Cons.prems(5) old(2) by (auto simp: off_columns_same_def)
  note step = update_row_ok [OF Cons.prems(1) old(1) Cons.prems(3) old(2,3) chg nochg t1]
  have rest: "updates_ok t1 cs us"
    using updates_ok_rest [OF Cons.prems(1) _ step(2,3,4)] Cons.prems(2) by (simp add: u)
  have free: "U - {i} = fst ` set us \<and> keys_free t1 us" if chg
    using Cons.prems(4) [OF that] notin keys_free_rest [of t i new us t1 i] step(4,7) that by (auto simp: u)
  have nofree: "U - {i} = {} \<and> (\<forall>p. t_pk t1 = Some p \<longrightarrow> p \<notin> set cs \<and> p \<in> set (column_names t1))" if "\<not> chg"
    using Cons.prems(5) [OF that] by (simp add: step(3,4) column_names_def)
  have "t' = fold (update_row cs chg) us t1" using Cons.prems(6) by (simp add: u t1)
  note ih = Cons.IH [OF step(1) rest Cons.prems(3) free nofree this]
  have "i \<in> fst ` set (t_rows t)" using old(1) by force
  with ih row_updates_Cons [OF d _ notin, of new] show ?case by (simp add: step u)
qed

lemma drop_old_keys_ok:
  assumes "table_part U t" "distinct (map fst us)" "fst ` set us \<subseteq> fst ` set (t_rows t)" "fst ` set us \<inter> U = {}"
  shows "table_part (fst ` set us \<union> U) (drop_old_keys us t) \<and>
    t_rows (drop_old_keys us t) = t_rows t \<and> t_columns (drop_old_keys us t) = t_columns t \<and>
    t_pk (drop_old_keys us t) = t_pk t \<and> t_name (drop_old_keys us t) = t_name t \<and>
    (\<forall>k i. map_of (t_primary (drop_old_keys us t)) k = Some i \<longrightarrow> map_of (t_primary t) k = Some i)"
  using assms
proof (induction us arbitrary: U t)
  case (Cons u us)
  obtain i new where u: "u = (i, new)" by (cases u)
  note ok = table_partD [OF Cons.prems(1)]
  note d = ids_distinct [OF ok(2)]
  from Cons.prems(3) u obtain r where r: "(i, r) \<in> set (t_rows t)" by auto
  then have m: "map_of (t_rows t) i = Some r" by (rule map_of_distinct_in [OF d])
  let ?t1 = "primary_del (t_pk t) r t"
  have "primary_part (insert i U) (t_pk t) (t_rows t) (t_primary ?t1)"
    using Cons.prems(4) u by (intro primary_part_drop [OF ok(5) r d]) auto
  moreover have "index_ok (t_rows t) ?t1" using ok(6) index_ok_cong [of ?t1 t] by simp
  ultimately have "table_part (insert i U) ?t1"
    using ok(1-4) by (intro table_partI) (simp_all add: column_names_def)
  moreover have "fst ` set us \<inter> insert i U = {}" using Cons.prems(2,4) u by auto
  ultimately have ih: "table_part (fst ` set us \<union> insert i U) (drop_old_keys us ?t1) \<and>
    t_rows (drop_old_keys us ?t1) = t_rows ?t1 \<and> t_columns (drop_old_keys us ?t1) = t_columns ?t1 \<and>
    t_pk (drop_old_keys us ?t1) = t_pk ?t1 \<and> t_name (drop_old_keys us ?t1) = t_name ?t1 \<and>
    (\<forall>k i. map_of (t_primary (drop_old_keys us ?t1)) k = Some i \<longrightarrow> map_of (t_primary ?t1) k = Some i)"
    using Cons.prems(2,3) u by (intro Cons.IH) auto
  moreover have "drop_old_keys (u # us) t = drop_old_keys us ?t1" by (simp add: drop_old_keys_def u m)
  moreover have "map_of (t_primary ?t1) k = Some j \<Longrightarrow> map_of (t_primary t) k = Some j" for k j
    by (auto split: option.splits if_splits)
  ultimately show ?case by (auto simp: u insert_commute)
qed (simp add: drop_old_keys_def)

text \<open>The rows inserted by a statement.\<close>

definition number_from :: "nat \<Rightarrow> row list \<Rightarrow> (nat \<times> row) list" where
  "number_from n rs = zip [n..<n + length rs] rs"

lemma number_from_Cons: "number_from n (r # rs) = (n, r) # number_from (n + 1) rs"
  by (simp add: number_from_def upt_conv_Cons del: upt_Suc)

lemma insert_all_ok:
  assumes "table_ok t" "\<forall>r \<in> set rs. row_ok (t_columns t) (t_pk t) r"
    and "keys_free t (map (Pair 0) rs)" "t' = fold insert_row rs t"
  shows "table_ok t' \<and> t_rows t' = t_rows t @ number_from (t_next t) rs \<and> t_columns t' = t_columns t \<and>
    t_pk t' = t_pk t \<and> t_name t' = t_name t"
  using assms
proof (induction rs arbitrary: t)
  case (Cons r rs)
  have "key_free t r" using Cons.prems(3) by (simp add: keys_free_def key_free_def)
  note ok = insert_row_ok [OF Cons.prems(1) _ this] and shape = insert_row_shape [OF Cons.prems(1), of r]
  have "keys_free (insert_row r t) (map (Pair 0) rs)"
    using Cons.prems(3) keys_free_rest [of t 0 r "map (Pair 0) rs"] by (simp add: shape)
  with Cons.prems ok have "table_ok t' \<and> t_rows t' = t_rows (insert_row r t) @ number_from (t_next (insert_row r t)) rs \<and>
      t_columns t' = t_columns (insert_row r t) \<and> t_pk t' = t_pk (insert_row r t) \<and> t_name t' = t_name (insert_row r t)"
    by (intro Cons.IH) (simp_all add: shape)
  then show ?case by (simp add: shape number_from_Cons)
qed (simp add: number_from_def)

end
