(* ===== verification/Sql_Order.thy ===== *)
theory Sql_Order
  imports Sql_Eval Top_K
begin

text \<open>
  The comparator of \<open>ORDER BY\<close> is an order on rows with different ids, provided that
  \<open>localeCompare\<close> is a consistent comparison of texts.
\<close>

section \<open>Total preorders\<close>

definition preorders_on :: "'a set \<Rightarrow> 'a comparator \<Rightarrow> bool" where
  "preorders_on S c \<longleftrightarrow>
     (\<forall>x \<in> S. \<forall>y \<in> S. c x y < 0 \<longleftrightarrow> 0 < c y x) \<and>
     (\<forall>x \<in> S. \<forall>y \<in> S. \<forall>z \<in> S. c x y \<le> 0 \<longrightarrow> c y z \<le> 0 \<longrightarrow> c x z \<le> 0)"

text \<open>What the model asks of \<open>localeCompare\<close>: a consistent comparison.\<close>

definition collates :: "intl \<Rightarrow> bool" where
  "collates il \<longleftrightarrow> preorders_on UNIV (il_compare il)"

lemma preordersD:
  assumes "preorders_on S c" "x \<in> S" "y \<in> S"
  shows "c x y < 0 \<longleftrightarrow> 0 < c y x" "c x y = 0 \<longleftrightarrow> c y x = 0" "c x y \<le> 0 \<longleftrightarrow> 0 \<le> c y x"
proof -
  have a: "c x y < 0 \<longleftrightarrow> 0 < c y x" "c y x < 0 \<longleftrightarrow> 0 < c x y"
    using assms unfolding preorders_on_def by blast+
  then show "c x y < 0 \<longleftrightarrow> 0 < c y x" "c x y = 0 \<longleftrightarrow> c y x = 0" "c x y \<le> 0 \<longleftrightarrow> 0 \<le> c y x"
    by linarith+
qed

lemma preorders_trans:
  "preorders_on S c \<Longrightarrow> x \<in> S \<Longrightarrow> y \<in> S \<Longrightarrow> z \<in> S \<Longrightarrow> c x y \<le> 0 \<Longrightarrow> c y z \<le> 0 \<Longrightarrow> c x z \<le> 0"
  unfolding preorders_on_def by blast

lemma preorders_cong:
  assumes "preorders_on S c" "\<And>x y. x \<in> S \<Longrightarrow> y \<in> S \<Longrightarrow> d x y = c x y"
  shows "preorders_on S d"
  unfolding preorders_on_def
proof (intro conjI ballI impI)
  fix x y assume s: "x \<in> S" "y \<in> S"
  show "d x y < 0 \<longleftrightarrow> 0 < d y x" unfolding assms(2) [OF s] assms(2) [OF s(2,1)] by (rule preordersD [OF assms(1) s])
next
  fix x y z assume s: "x \<in> S" "y \<in> S" "z \<in> S" and "d x y \<le> 0" "d y z \<le> 0"
  then have "c x y \<le> 0" "c y z \<le> 0" by (simp_all add: assms(2))
  with preorders_trans [OF assms(1) s] show "d x z \<le> 0" by (simp add: assms(2) s)
qed

lemma preorders_subset: "preorders_on S c \<Longrightarrow> T \<subseteq> S \<Longrightarrow> preorders_on T c"
  unfolding preorders_on_def by (meson subsetD)

lemma preorders_neg:
  assumes "preorders_on S c"
  shows "preorders_on S (\<lambda>x y. - c x y)"
  unfolding preorders_on_def
proof (intro conjI ballI impI)
  fix x y assume s: "x \<in> S" "y \<in> S"
  show "- c x y < 0 \<longleftrightarrow> 0 < - c y x" using preordersD(1) [OF assms s(2,1)] by linarith
next
  fix x y z assume s: "x \<in> S" "y \<in> S" "z \<in> S" and "- c x y \<le> 0" "- c y z \<le> 0"
  then have "c y x \<le> 0" "c z y \<le> 0"
    using preordersD(3) [OF assms s(2,1)] preordersD(3) [OF assms s(3,2)] by linarith+
  then have "c z x \<le> 0" using preorders_trans [OF assms s(3,2,1)] by simp
  then show "- c x z \<le> 0" using preordersD(3) [OF assms s(3,1)] by linarith
qed

lemma preorders_key: "preorders_on S (\<lambda>x y. f x - f y :: rat)"
  by (auto simp: preorders_on_def)

text \<open>A comparison by \<open>c\<close> and, between equals, by \<open>d\<close>.\<close>

definition then_by :: "'a comparator \<Rightarrow> 'a comparator \<Rightarrow> 'a comparator" where
  "then_by c d x y = (if c x y \<noteq> 0 then c x y else d x y)"

lemma preorders_then_by:
  assumes c: "preorders_on S c" and d: "\<And>x. x \<in> S \<Longrightarrow> preorders_on {y \<in> S. c x y = 0} d"
  shows "preorders_on S (then_by c d)"
  unfolding preorders_on_def
proof (intro conjI ballI impI)
  fix x y assume xy: "x \<in> S" "y \<in> S"
  have refl: "c x x = 0" using preordersD [OF c xy(1) xy(1)] by linarith
  show "then_by c d x y < 0 \<longleftrightarrow> 0 < then_by c d y x"
  proof (cases "c x y = 0")
    case True
    then have "c y x = 0" using preordersD(2) [OF c xy] by simp
    moreover have "d x y < 0 \<longleftrightarrow> 0 < d y x"
      using xy True refl by (intro preordersD(1) [OF d [OF xy(1)]]) auto
    ultimately show ?thesis using True by (simp add: then_by_def)
  next
    case False
    then show ?thesis using preordersD [OF c xy] by (simp add: then_by_def)
  qed
next
  fix x y z assume s: "x \<in> S" "y \<in> S" "z \<in> S" and le: "then_by c d x y \<le> 0" "then_by c d y z \<le> 0"
  have cle: "c x y \<le> 0" "c y z \<le> 0" using le by (auto simp: then_by_def split: if_splits)
  then have xz: "c x z \<le> 0" using preorders_trans [OF c s] by simp
  show "then_by c d x z \<le> 0"
  proof (cases "c x z = 0")
    case True
    then have "c z x \<le> 0" using preordersD(2) [OF c s(1,3)] by simp
    then have "c y x \<le> 0" "c z y \<le> 0"
      using preorders_trans [OF c s(2,3,1) cle(2)] preorders_trans [OF c s(3,1,2) _ cle(1)] by simp_all
    then have eq: "c x y = 0" "c y z = 0"
      using cle preordersD(3) [OF c s(2,1)] preordersD(3) [OF c s(3,2)] by linarith+
    have "c x x = 0" using preordersD [OF c s(1) s(1)] by linarith
    moreover have "d x y \<le> 0" "d y z \<le> 0" using le eq by (simp_all add: then_by_def)
    ultimately have "d x z \<le> 0"
      using s True eq by (intro preorders_trans [OF d [OF s(1)], of x y z]) auto
    with True show ?thesis by (simp add: then_by_def)
  qed (use xz in \<open>simp add: then_by_def\<close>)
qed

lemma orders_of_preorder:
  assumes "preorders_on S c" "\<And>x y. x \<in> S \<Longrightarrow> y \<in> S \<Longrightarrow> c x y = 0 \<Longrightarrow> x = y"
  shows "orders_on S c"
proof -
  have "c x x = 0" if "x \<in> S" for x using preordersD [OF assms(1) that that] by linarith
  with assms show ?thesis unfolding orders_on_def preorders_on_def by blast
qed

section \<open>The order of values\<close>

definition null_rank :: "json \<Rightarrow> rat" where
  "null_rank v = (if v = JNull then 1 else 0)"

text \<open>The comparison inside one type.\<close>

definition same_type_cmp :: "intl \<Rightarrow> json comparator" where
  "same_type_cmp il a b =
     (case (a, b) of
        (JNum x, JNum y) \<Rightarrow> if x < y then - 1 else if x > y then 1 else 0
      | (JStr s, JStr t) \<Rightarrow> il_compare il s t
      | (JBool p, JBool q) \<Rightarrow> if p = q then 0 else if p then 1 else - 1
      | _ \<Rightarrow> il_compare il (json_text a) (json_text b))"

lemma compareOrderValues_eq:
  "compareOrderValues il a b =
     (if a = JNull \<or> b = JNull then null_rank a - null_rank b
      else then_by (\<lambda>a b. orderTypeRank a - orderTypeRank b) (same_type_cmp il) a b)"
  by (simp add: compareOrderValues_def then_by_def same_type_cmp_def null_rank_def)

lemma rank_shape:
  "orderTypeRank x = 0 \<Longrightarrow> \<exists>n. x = JNum n" "orderTypeRank x = 1 \<Longrightarrow> \<exists>s. x = JStr s"
  "orderTypeRank x = 2 \<Longrightarrow> \<exists>b. x = JBool b"
  by (cases x; simp add: orderTypeRank_def)+

lemma same_type_text:
  "orderTypeRank x \<noteq> 0 \<Longrightarrow> orderTypeRank x \<noteq> 1 \<Longrightarrow> orderTypeRank x \<noteq> 2 \<Longrightarrow>
     same_type_cmp il x y = il_compare il (json_text x) (json_text y)"
  by (cases x) (simp_all add: orderTypeRank_def same_type_cmp_def)

lemma same_type_preorders:
  assumes "collates il" "\<forall>x \<in> S. \<forall>y \<in> S. orderTypeRank x = orderTypeRank y" "JNull \<notin> S"
  shows "preorders_on S (same_type_cmp il)"
proof -
  have t: "preorders_on S (\<lambda>a b. il_compare il (f a) (f b))" for f :: "json \<Rightarrow> string"
    using assms(1) unfolding collates_def preorders_on_def by blast
  have eq: "preorders_on S c \<Longrightarrow> (\<And>x y. x \<in> S \<Longrightarrow> y \<in> S \<Longrightarrow> same_type_cmp il x y = c x y) \<Longrightarrow> ?thesis" for c
    by (rule preorders_cong)
  show ?thesis
  proof (cases "\<exists>x \<in> S. orderTypeRank x = 0 \<or> orderTypeRank x = 1 \<or> orderTypeRank x = 2")
    case False
    then have "same_type_cmp il x y = il_compare il (json_text x) (json_text y)" if "x \<in> S" "y \<in> S" for x y
      using that same_type_text by blast
    then show ?thesis by (rule eq [OF t])
  next
    case True
    then obtain x0 where x0: "x0 \<in> S" "orderTypeRank x0 = 0 \<or> orderTypeRank x0 = 1 \<or> orderTypeRank x0 = 2" by blast
    then consider "\<forall>x \<in> S. orderTypeRank x = 0" | "\<forall>x \<in> S. orderTypeRank x = 1" | "\<forall>x \<in> S. orderTypeRank x = 2"
      using assms(2) by metis
    then show ?thesis
    proof cases
      case 1
      then have "\<exists>n. x = JNum n" if "x \<in> S" for x
        using that rank_shape by blast
      then have num: "x = JNum (case x of JNum n \<Rightarrow> n | _ \<Rightarrow> 0)" if "x \<in> S" for x using that by force
      have "preorders_on UNIV (\<lambda>x y :: rat. if x < y then - 1 else if x > y then 1 else 0 :: rat)"
        by (auto simp: preorders_on_def)
      then have "preorders_on S (\<lambda>a b. (\<lambda>x y :: rat. if x < y then - 1 else if x > y then 1 else 0)
          (case a of JNum n \<Rightarrow> n | _ \<Rightarrow> 0) (case b of JNum n \<Rightarrow> n | _ \<Rightarrow> 0))"
        unfolding preorders_on_def by blast
      then show ?thesis
      proof (rule eq)
        fix x y assume "x \<in> S" "y \<in> S"
        with num obtain m n where "x = JNum m" "y = JNum n" by blast
        then show "same_type_cmp il x y = (\<lambda>x y :: rat. if x < y then - 1 else if x > y then 1 else 0)
          (case x of JNum n \<Rightarrow> n | _ \<Rightarrow> 0) (case y of JNum n \<Rightarrow> n | _ \<Rightarrow> 0)"
          by (simp add: same_type_cmp_def)
      qed
    next
      case 2
      then have str: "\<exists>s. x = JStr s" if "x \<in> S" for x
        using that rank_shape by blast
      show ?thesis
      proof (rule eq [OF t])
        fix x y assume "x \<in> S" "y \<in> S"
        with str obtain m n where "x = JStr m" "y = JStr n" by blast
        then show "same_type_cmp il x y = il_compare il (case x of JStr s \<Rightarrow> s) (case y of JStr s \<Rightarrow> s)"
          by (simp add: same_type_cmp_def)
      qed
    next
      case 3
      then have bool: "\<exists>b. x = JBool b" if "x \<in> S" for x
        using that rank_shape by blast
      have "preorders_on S (\<lambda>a b. (if a = JBool True then 1 else 0) - (if b = JBool True then 1 else 0))"
        by (rule preorders_key)
      then show ?thesis
      proof (rule eq)
        fix x y assume "x \<in> S" "y \<in> S"
        with bool obtain m n where "x = JBool m" "y = JBool n" by blast
        then show "same_type_cmp il x y = (if x = JBool True then 1 else 0) - (if y = JBool True then 1 else 0)"
          by (simp add: same_type_cmp_def)
      qed
    qed
  qed
qed

definition typed_cmp :: "intl \<Rightarrow> json comparator" where
  "typed_cmp il = then_by (\<lambda>a b. orderTypeRank a - orderTypeRank b) (same_type_cmp il)"

lemma typed_preorders:
  assumes "collates il" "JNull \<notin> S"
  shows "preorders_on S (typed_cmp il)"
  unfolding typed_cmp_def
proof (rule preorders_then_by [OF preorders_key])
  fix x assume "x \<in> S"
  show "preorders_on {y \<in> S. orderTypeRank x - orderTypeRank y = 0} (same_type_cmp il)"
    using assms(2) by (intro same_type_preorders [OF assms(1)]) auto
qed

text \<open>The comparison of two column values under a direction.\<close>

definition value_cmp :: "intl \<Rightarrow> bool \<Rightarrow> json comparator" where
  "value_cmp il desc =
     then_by (\<lambda>a b. null_rank a - null_rank b)
       (\<lambda>a b. if a = JNull \<or> b = JNull then 0 else if desc then - typed_cmp il a b else typed_cmp il a b)"

lemma null_rank_eq: "null_rank a = null_rank b \<longleftrightarrow> (a = JNull \<longleftrightarrow> b = JNull)"
  by (simp add: null_rank_def)

lemma value_preorders:
  assumes "collates il"
  shows "preorders_on UNIV (value_cmp il desc)"
  unfolding value_cmp_def
proof (rule preorders_then_by [OF preorders_key])
  fix x :: json
  let ?S = "{y \<in> UNIV. null_rank x - null_rank y = 0}"
  let ?d = "\<lambda>a b. if a = JNull \<or> b = JNull then 0 else if desc then - typed_cmp il a b else typed_cmp il a b"
  show "preorders_on ?S ?d"
  proof (cases "x = JNull")
    case True
    have "preorders_on ?S (\<lambda>a b. 0 - 0)" by (rule preorders_key)
    then show ?thesis
      by (rule preorders_cong) (use True in \<open>simp add: null_rank_eq\<close>)
  next
    case False
    then have "JNull \<notin> ?S" by (simp add: null_rank_eq)
    note t = typed_preorders [OF assms this]
    have "preorders_on ?S (\<lambda>a b. if desc then - typed_cmp il a b else typed_cmp il a b)"
      using t preorders_neg [OF t] by (cases desc) simp_all
    then show ?thesis
      by (rule preorders_cong) (use False in \<open>simp add: null_rank_eq\<close>)
  qed
qed

lemma select_cmp_eq:
  "select_cmp il (Some (col, desc)) a b =
     then_by (\<lambda>a b. value_cmp il desc (field (snd a) col) (field (snd b) col)) (\<lambda>a b. of_nat (fst a) - of_nat (fst b)) a b"
  by (simp add: select_cmp_def Let_def then_by_def value_cmp_def compareOrderValues_eq typed_cmp_def null_rank_def)

lemma select_cmp_orders:
  assumes "order \<noteq> None \<Longrightarrow> collates il" "\<And>p q. p \<in> S \<Longrightarrow> q \<in> S \<Longrightarrow> fst p = fst q \<Longrightarrow> p = q"
  shows "orders_on S (select_cmp il order)"
proof (cases order)
  case None
  then have "select_cmp il order = (\<lambda>a b. of_nat (fst a) - of_nat (fst b))"
    by (simp add: select_cmp_def fun_eq_iff)
  then show ?thesis using assms(2) by (intro orders_of_preorder) (auto simp: preorders_key)
next
  case (Some p)
  obtain col desc where p: "p = (col, desc)" by (cases p)
  have il: "collates il" using assms(1) Some by simp
  have "preorders_on S (\<lambda>a b. value_cmp il desc (field (snd a) col) (field (snd b) col))"
    using value_preorders [OF il, of desc] unfolding preorders_on_def by blast
  then have "preorders_on S (then_by (\<lambda>a b. value_cmp il desc (field (snd a) col) (field (snd b) col))
      (\<lambda>a b. of_nat (fst a) - of_nat (fst b)))"
    by (rule preorders_then_by) (rule preorders_key)
  moreover have "select_cmp il order = then_by (\<lambda>a b. value_cmp il desc (field (snd a) col) (field (snd b) col))
      (\<lambda>a b. of_nat (fst a) - of_nat (fst b))"
    by (simp add: Some p select_cmp_eq fun_eq_iff)
  ultimately show ?thesis
    using assms(2) by (intro orders_of_preorder) (auto simp: then_by_def split: if_splits)
qed

end
