(* ===== verification/Sql_Scan.thy ===== *)
theory Sql_Scan
  imports Sql_Rows Sql_Order
begin

text \<open>
  Access paths: an index plan lists every row its clause can accept, so a statement that
  looks at the planned rows finds the same rows as one that looks at all of them. The
  interface is the locale \<open>row_source\<close>; the ids the statements use and the full scan are its
  interpretations.
\<close>

section \<open>Index plans are complete\<close>

lemma jeq_indexable: "isIndexableValue v \<Longrightarrow> jeq a v \<Longrightarrow> a = v"
  by (cases a; cases v) (simp_all add: isIndexableValue_def)

lemma jeq_indexable_left: "isIndexableValue v \<Longrightarrow> jeq v a \<Longrightarrow> a = v"
  by (cases a; cases v) (simp_all add: isIndexableValue_def)

lemma index_literal_Some: "index_literal e = Some v \<longleftrightarrow> e = ELit v \<and> isIndexableValue v"
  by (auto simp: index_literal_def split: expr.splits)

lemma index_literals_Some:
  "index_literals es = Some vs \<longleftrightarrow> es = map ELit vs \<and> (\<forall>v \<in> set vs. isIndexableValue v)"
proof (induction es arbitrary: vs)
  case (Cons e es)
  show ?case
  proof (cases vs)
    case Nil
    then show ?thesis by (simp split: option.splits)
  next
    case vs: (Cons v ws)
    have "index_literals (e # es) = Some (v # ws) \<longleftrightarrow> index_literal e = Some v \<and> index_literals es = Some ws"
      by (auto split: option.splits)
    with Cons.IH [of ws] vs show ?thesis by (auto simp: index_literal_Some)
  qed
qed auto

lemma index_target_cases:
  assumes "index_target left opr right = Some (c, vs)"
  obtains v where "opr = OpEq" "left = ECol c" "right = One (ELit v)" "vs = [v]" "isIndexableValue v"
    | v where "opr = OpEq" "left = ELit v" "right = One (ECol c)" "vs = [v]" "isIndexableValue v"
    | "opr = OpIn" "left = ECol c" "right = Many (map ELit vs)" "\<forall>v \<in> set vs. isIndexableValue v"
  using assms
  by (auto simp: index_target_def index_literal_Some index_literals_Some
      split: cmp_op.splits operand.splits expr.splits option.splits)

lemma operator_eq_true:
  "evaluateComparison il r left OpEq (One e) = Inr (Some True) \<Longrightarrow>
     structuralEqual (evaluateExpression r left) (evaluateExpression r e)"
  by (auto simp: evaluateComparison_def operand_of_def operator_value_def Let_def split: if_splits json.splits)

lemma operator_in_true:
  "evaluateComparison il r left OpIn (Many es) = Inr (Some True) \<Longrightarrow>
     \<exists>e \<in> set es. structuralEqual (evaluateExpression r left) (evaluateExpression r e)"
  by (auto simp: evaluateComparison_def operand_of_def in_values_def Let_def split: if_splits)

lemma target_true:
  assumes "index_target left opr right = Some (c, vs)" "evaluateComparison il r left opr right = Inr (Some True)"
  shows "field r c \<in> set vs \<and> (\<forall>v \<in> set vs. isIndexableValue v)"
  using assms(1)
proof (cases rule: index_target_cases)
  case (1 v)
  with operator_eq_true [of il r left "ELit v"] assms(2) show ?thesis
    by (simp add: evaluateExpression_def structuralEqual_jeq jeq_indexable)
next
  case (2 v)
  with operator_eq_true [of il r left "ECol c"] assms(2) jeq_indexable_left [of v "field r c"] show ?thesis
    by (simp add: evaluateExpression_def structuralEqual_jeq)
next
  case 3
  with operator_in_true [of il r left "map ELit vs"] assms(2) show ?thesis
    by (auto simp: evaluateExpression_def structuralEqual_jeq dest!: jeq_indexable [rotated])
qed

lemma index_ids_ok:
  assumes "index_ok rows t" "map_of (t_indexes t) c = Some ix" "isIndexableValue v"
  shows "set (index_ids ix v) = rows_with rows c v"
proof -
  have "idx t c v = Some (index_ids ix v)" using assms(2) by (simp add: idx_def)
  with assms(1,3) show ?thesis unfolding index_ok_def by blast
qed

lemma truth_and_true: "truth_and a b = Some True \<longleftrightarrow> a = Some True \<and> b = Some True"
  by (auto simp: truth_and_def)

lemma rows_with_sub: "rows_with rows c v \<subseteq> fst ` set rows"
  by (force simp: rows_with_def)

lemma target_indexable:
  "index_target left opr right = Some (c, vs) \<Longrightarrow> v \<in> set vs \<Longrightarrow> isIndexableValue v"
  by (erule index_target_cases) auto

lemma indexPlan_ids:
  assumes "index_ok rows t" "indexPlan t w = Some (cs, ids)"
  shows "distinct ids \<and> set ids \<subseteq> fst ` set rows"
  using assms(2)
proof (induction w arbitrary: cs ids)
  case (WAnd l r)
  show ?case
  proof (cases "indexPlan t l")
    case None
    with WAnd show ?thesis by simp
  next
    case (Some lp)
    obtain lc li where lp: "lp = (lc, li)" by (cases lp)
    from WAnd.IH(1) Some lp have li: "distinct li \<and> set li \<subseteq> fst ` set rows" by blast
    show ?thesis
    proof (cases "indexPlan t r")
      case None
      with WAnd.prems Some lp li show ?thesis by simp
    next
      case (Some rp)
      with WAnd.prems \<open>indexPlan t l = Some lp\<close> lp li show ?thesis by (cases rp) auto
    qed
  qed
next
  case (WCmp left opr right)
  then obtain c vs ix where t: "index_target left opr right = Some (c, vs)" "map_of (t_indexes t) c = Some ix"
    "ids = dedup (concat (map (index_ids ix) vs))"
    by (auto split: option.splits prod.splits)
  have "set (index_ids ix v) \<subseteq> fst ` set rows" if "v \<in> set vs" for v
    using index_ids_ok [OF assms(1) t(2)] target_indexable [OF t(1) that] rows_with_sub by auto
  then show ?case by (auto simp: t(3))
qed auto

lemma indexPlan_complete:
  assumes "index_ok rows t" "indexPlan t w = Some (cs, ids)" "(i, r) \<in> set rows"
    and "evaluateWhere il r w = Inr (Some True)"
  shows "i \<in> set ids"
  using assms(2,4)
proof (induction w arbitrary: cs ids)
  case (WAnd l w)
  then have true: "evaluateWhere il r l = Inr (Some True)" "evaluateWhere il r w = Inr (Some True)"
    by (auto simp: chain_Inr truth_and_true)
  show ?case
  proof (cases "indexPlan t l")
    case None
    with WAnd true show ?thesis by simp
  next
    case (Some lp)
    obtain lc li where lp: "lp = (lc, li)" by (cases lp)
    from WAnd.IH(1) Some lp true have li: "i \<in> set li" by blast
    show ?thesis
    proof (cases "indexPlan t w")
      case None
      with WAnd.prems Some lp li show ?thesis by simp
    next
      case (Some rp)
      obtain rc ri where rp: "rp = (rc, ri)" by (cases rp)
      with WAnd.IH(2) Some true have "i \<in> set ri" by blast
      with WAnd.prems(1) \<open>indexPlan t l = Some lp\<close> Some lp rp li show ?thesis by auto
    qed
  qed
next
  case (WCmp left opr right)
  then obtain c vs ix where t: "index_target left opr right = Some (c, vs)" "map_of (t_indexes t) c = Some ix"
    "ids = dedup (concat (map (index_ids ix) vs))"
    by (auto split: option.splits prod.splits)
  have "field r c \<in> set vs" "isIndexableValue (field r c)"
    using target_true [OF t(1)] WCmp.prems(2) by auto
  moreover have "i \<in> rows_with rows c (field r c)" using assms(3) by (auto simp: rows_with_def)
  ultimately show ?case using index_ids_ok [OF assms(1) t(2)] by (auto simp: t(3))
qed auto

section \<open>The interface of an access path\<close>

locale row_source =
  fixes source :: "table \<Rightarrow> where_clause option \<Rightarrow> nat list"
  assumes source_ids: "table_ok t \<Longrightarrow> distinct (source t w) \<and> set (source t w) \<subseteq> fst ` set (t_rows t)"
    and source_complete: "table_ok t \<Longrightarrow> (i, r) \<in> set (t_rows t) \<Longrightarrow> row_matches il w r = Inr True
      \<Longrightarrow> i \<in> set (source t w)"

locale ordered_source = row_source +
  assumes source_sorted: "table_ok t \<Longrightarrow> sorted (source t w)"

lemma rows_at_map:
  "set ids \<subseteq> fst ` set (t_rows t) \<Longrightarrow> rows_at t ids = map (\<lambda>i. (i, the (map_of (t_rows t) i))) ids"
proof (induction ids)
  case (Cons i ids)
  have "map_of (t_rows t) i \<noteq> None" using Cons.prems by (simp add: map_of_None_iff)
  then obtain r where "map_of (t_rows t) i = Some r" by blast
  with Cons show ?case by (simp add: rows_at_def List.map_filter_def)
qed (simp add: rows_at_def List.map_filter_def)

lemma rows_at_eq:
  assumes "distinct_keys (t_rows t)" "set ids \<subseteq> fst ` set (t_rows t)"
  shows "set (rows_at t ids) = {p \<in> set (t_rows t). fst p \<in> set ids}" "map fst (rows_at t ids) = ids"
proof -
  show "map fst (rows_at t ids) = ids" by (simp add: rows_at_map [OF assms(2)] comp_def)
  have pick: "map_of (t_rows t) i = Some r \<longleftrightarrow> (i, r) \<in> set (t_rows t)" for i r
    using assms(1) by (simp add: distinct_keys_def)
  show "set (rows_at t ids) = {p \<in> set (t_rows t). fst p \<in> set ids}"
  proof (intro equalityI subsetI)
    fix p assume "p \<in> set (rows_at t ids)"
    then obtain i where i: "i \<in> set ids" "p = (i, the (map_of (t_rows t) i))"
      by (auto simp: rows_at_map [OF assms(2)])
    then obtain r where "(i, r) \<in> set (t_rows t)" using assms(2) by auto
    with pick have "map_of (t_rows t) i = Some r" by simp
    with i pick show "p \<in> {p \<in> set (t_rows t). fst p \<in> set ids}" by simp
  next
    fix p assume p: "p \<in> {p \<in> set (t_rows t). fst p \<in> set ids}"
    then have "map_of (t_rows t) (fst p) = Some (snd p)" by (simp add: pick)
    with p show "p \<in> set (rows_at t ids)" by (force simp: rows_at_map [OF assms(2)])
  qed
qed

definition accepted :: "intl \<Rightarrow> where_clause option \<Rightarrow> nat \<times> row \<Rightarrow> bool" where
  "accepted il w p \<longleftrightarrow> row_matches il w (snd p) = Inr True"

context row_source
begin

lemma matching_rows:
  assumes "table_ok t" "matching il w (rows_at t (source t w)) = Inr ms"
  shows "set ms = {p \<in> set (t_rows t). accepted il w p}" "distinct (map fst ms)"
proof -
  have d: "distinct_keys (t_rows t)" using ids_distinct table_partD(2) [OF assms(1)] by blast
  note src = source_ids [OF assms(1), of w]
  note at = rows_at_eq [OF d conjunct2 [OF src]]
  have ms: "ms = filter (\<lambda>p. row_matches il w (snd p) = Inr True) (rows_at t (source t w))"
    using assms(2) by (simp add: matching_def filterO_Inr)
  show "set ms = {p \<in> set (t_rows t). accepted il w p}"
    using source_complete [OF assms(1)] by (auto simp: ms at(1) accepted_def)
  show "distinct (map fst ms)"
    using at(2) src by (simp add: ms distinct_map_filter)
qed

lemma matching_succeeds:
  assumes "table_ok t" "\<forall>p \<in> set (t_rows t). \<exists>b. row_matches il w (snd p) = Inr b"
  shows "matching il w (rows_at t (source t w)) =
    Inr (filter (accepted il w) (rows_at t (source t w)))"
proof -
  have d: "distinct_keys (t_rows t)" using ids_distinct table_partD(2) [OF assms(1)] by blast
  note at = rows_at_eq [OF d conjunct2 [OF source_ids [OF assms(1), of w]]]
  show ?thesis using assms(2) by (auto simp: matching_def filterO_Inr at accepted_def [abs_def])
qed

end

section \<open>Scans\<close>

text \<open>Every row's clause can be evaluated: no \<open>LIKE\<close> meets its work limit.\<close>

definition evaluates :: "intl \<Rightarrow> where_clause option \<Rightarrow> (nat \<times> row) list \<Rightarrow> bool" where
  "evaluates il w rows \<longleftrightarrow> (\<forall>p \<in> set rows. \<exists>b. row_matches il w (snd p) = Inr b)"

lemma evaluates_cases:
  assumes "evaluates il w (p # ps)"
  obtains "row_matches il w (snd p) = Inr True" "accepted il w p" "evaluates il w ps"
    | "row_matches il w (snd p) = Inr False" "\<not> accepted il w p" "evaluates il w ps"
  using assms by (auto simp: evaluates_def accepted_def) (metis (full_types))

lemma scan_top_eq:
  "evaluates il w ps \<Longrightarrow>
     scan_top il w k cmp ps seen heap = (Inr (fold (topk_add k cmp) (filter (accepted il w) ps) heap), seen + length ps)"
proof (induction ps arbitrary: seen heap)
  case (Cons p ps)
  from Cons.prems show ?case
    by (cases rule: evaluates_cases) (simp_all add: Cons.IH)
qed simp

text \<open>Rows before \<open>skip\<close> matches are dropped, and the scan ends with \<open>tk\<close> of them.\<close>

lemma scan_plain_eq:
  "evaluates il w ps \<Longrightarrow> length acc < tk \<Longrightarrow> acc \<noteq> [] \<longrightarrow> skip \<le> matched \<Longrightarrow>
     fst (scan_plain il w skip tk ps seen matched acc) =
       Inr (acc @ take (tk - length acc) (drop (skip - matched) (filter (accepted il w) ps)))"
proof (induction ps arbitrary: seen matched acc)
  case (Cons p ps)
  from Cons.prems(1) show ?case
  proof (cases rule: evaluates_cases)
    case 1
    show ?thesis
    proof (cases "matched < skip")
      case True
      then have "skip - matched = Suc (skip - Suc matched)" by simp
      with 1 True Cons.prems(2,3) Cons.IH [OF 1(3), of acc "Suc matched"] show ?thesis by auto
    next
      case False
      show ?thesis
      proof (cases "length acc + 1 \<ge> tk")
        case True
        with Cons.prems(2) have "tk - length acc = 1" by simp
        with 1 False True show ?thesis by simp
      next
        case more: False
        then have "tk - length acc = Suc (tk - (length acc + 1))" by simp
        with 1 False more Cons.IH [OF 1(3), of "acc @ [p]" "Suc matched"] show ?thesis by simp
      qed
    qed
  next
    case 2
    with Cons.prems(2,3) Cons.IH [OF 2(3)] show ?thesis by simp
  qed
qed simp

section \<open>The chosen rows\<close>

text \<open>
  The reference: all accepted rows, sorted by the comparator, without the first \<open>OFFSET\<close> and
  at most \<open>LIMIT\<close> of them.
\<close>

definition select_spec :: "intl \<Rightarrow> sql_limits \<Rightarrow> table \<Rightarrow> select_stmt \<Rightarrow> (nat \<times> row) list" where
  "select_spec il l t s =
     take (select_take l (s_limit s)) (drop (case s_offset s of Some n \<Rightarrow> n | None \<Rightarrow> 0)
       (sort_by (select_cmp il (s_order s)) (filter (accepted il (s_where s)) (t_rows t))))"

lemma rows_fst_inj:
  assumes "distinct_keys rows" "S \<subseteq> set rows" "p \<in> S" "q \<in> S" "fst p = fst q"
  shows "p = q"
  using assms row_unique [OF assms(1), of "fst p" "snd p" "snd q"] by (metis prod.collapse subsetD)

lemma sorted_ids_by:
  "sorted_wrt (<) (map fst ps) \<Longrightarrow> sorted_by (select_cmp il None) ps"
  by (simp add: sorted_wrt_map select_cmp_def sorted_wrt_iff_nth_less) (metis less_imp_le of_nat_le_iff)

lemma same_ids_sorted:
  assumes "distinct_keys rows" "set ps \<subseteq> set rows" "set qs = set ps" "distinct (map fst ps)" "distinct (map fst qs)"
  shows "sort_by (select_cmp il order) ps = sort_by (select_cmp il order) qs \<or> (order \<noteq> None \<and> \<not> collates il)"
proof (cases "order \<noteq> None \<and> \<not> collates il")
  case False
  then have o: "orders_on (set ps) (select_cmp il order)"
    using rows_fst_inj [OF assms(1,2)] by (intro select_cmp_orders) auto
  have "mset ps = mset qs"
    using assms(3-5) by (metis distinct_map set_eq_iff_mset_eq_distinct)
  moreover have "sorted_by (select_cmp il order) (sort_by (select_cmp il order) ps)"
    "sorted_by (select_cmp il order) (sort_by (select_cmp il order) qs)"
    using sorted_sort_by [OF o] assms(3) by simp_all
  ultimately have "sort_by (select_cmp il order) ps = sort_by (select_cmp il order) qs"
    using o by (intro sorted_by_unique [of "set ps" "select_cmp il order"]) simp_all
  then show ?thesis ..
qed simp

context ordered_source
begin

lemma chosen_rows:
  assumes t: "table_ok t" and ev: "evaluates il w (t_rows t)"
  shows "evaluates il w (rows_at t (source t w))"
    and "(order \<noteq> None \<Longrightarrow> collates il) \<Longrightarrow>
       sort_by (select_cmp il order) (filter (accepted il w) (rows_at t (source t w))) =
       sort_by (select_cmp il order) (filter (accepted il w) (t_rows t))"
    and "sorted_by (select_cmp il None) (filter (accepted il w) (rows_at t (source t w)))"
    and "length (filter (accepted il w) (rows_at t (source t w))) \<le> length (t_rows t)"
proof -
  have ids: "ids_ok (t_rows t) (t_next t)" using table_partD(2) [OF t] .
  note d = ids_distinct [OF ids]
  note src = source_ids [OF t, of w]
  note at = rows_at_eq [OF d conjunct2 [OF src]]
  let ?ps = "filter (accepted il w) (rows_at t (source t w))" and ?qs = "filter (accepted il w) (t_rows t)"
  show "evaluates il w (rows_at t (source t w))" using ev at(1) by (auto simp: evaluates_def)
  have sets: "set ?ps = set ?qs"
    using source_complete [OF t] by (auto simp: at(1) accepted_def)
  have dp: "distinct (map fst ?ps)" "distinct (map fst ?qs)"
    using at(2) src d by (simp_all add: distinct_map_filter distinct_keys_def)
  from same_ids_sorted [OF d _ sets dp(2,1), of il order]
  show "(order \<noteq> None \<Longrightarrow> collates il) \<Longrightarrow> sort_by (select_cmp il order) ?ps = sort_by (select_cmp il order) ?qs" by auto
  have "sorted_wrt (<) (map fst (rows_at t (source t w)))"
    using source_sorted [OF t, of w] src at(2) by (metis strict_sorted_iff)
  then have "sorted_wrt (<) (map fst ?ps)" by (simp add: sorted_wrt_map sorted_wrt_filter)
  then show "sorted_by (select_cmp il None) ?ps" by (rule sorted_ids_by)
  have "length ?ps = length ?qs"
    using sets dp by (metis distinct_card length_map list.set_map)
  then show "length ?ps \<le> length (t_rows t)" by simp
qed

end

section \<open>The access paths of the statements\<close>

lemma candidate_ids_ok:
  assumes "table_ok t"
  shows "distinct (candidate_ids t w) \<and> set (candidate_ids t w) \<subseteq> fst ` set (t_rows t)"
    and "(i, r) \<in> set (t_rows t) \<Longrightarrow> row_matches il w r = Inr True \<Longrightarrow> i \<in> set (candidate_ids t w)"
proof -
  note ok = table_partD [OF assms]
  have full: "distinct (map fst (t_rows t))" using ids_distinct [OF ok(2)] by (simp add: distinct_keys_def)
  show "distinct (candidate_ids t w) \<and> set (candidate_ids t w) \<subseteq> fst ` set (t_rows t)"
    using full by (auto simp: candidate_ids_def planIndexLookup_def dest!: indexPlan_ids [OF ok(6)] split: option.splits)
  assume r: "(i, r) \<in> set (t_rows t)" "row_matches il w r = Inr True"
  show "i \<in> set (candidate_ids t w)"
  proof (cases "planIndexLookup t w")
    case None
    then show ?thesis using r(1) by (force simp: candidate_ids_def)
  next
    case (Some ids)
    then obtain c cs where w: "w = Some c" "indexPlan t c = Some (cs, ids)"
      by (auto simp: planIndexLookup_def split: option.splits)
    with r(2) have "evaluateWhere il r c = Inr (Some True)" by (auto simp: row_matches_def chain_Inr)
    with indexPlan_complete [OF ok(6) w(2) r(1)] show ?thesis by (simp add: candidate_ids_def Some)
  qed
qed

lemma select_ids_candidates: "set (select_ids t w) = set (candidate_ids t w)"
  "distinct (select_ids t w) = distinct (candidate_ids t w)"
  by (simp_all add: select_ids_def candidate_ids_def split: option.splits)

interpretation writes: row_source candidate_ids
  by unfold_locales (use candidate_ids_ok in blast)+

interpretation reads: ordered_source select_ids
proof unfold_locales
  fix t w assume t: "table_ok t"
  then show "distinct (select_ids t w) \<and> set (select_ids t w) \<subseteq> fst ` set (t_rows t)"
    using candidate_ids_ok by (simp add: select_ids_candidates)
  have "sorted (map fst (t_rows t))"
    using table_partD(2) [OF t] by (simp add: ids_ok_def strict_sorted_iff)
  then show "sorted (select_ids t w)" by (simp add: select_ids_def split: option.splits)
  fix i r il assume "(i, r) \<in> set (t_rows t)" "row_matches il w r = Inr True"
  then show "i \<in> set (select_ids t w)" using candidate_ids_ok(2) [OF t] by (simp add: select_ids_candidates)
qed

text \<open>The rows a \<open>SELECT\<close> chooses are those of the reference, whichever way it scans.\<close>

theorem select_rows_spec:
  assumes "table_ok t" "evaluates il (s_where s) (t_rows t)" "s_order s \<noteq> None \<Longrightarrow> collates il"
  shows "fst (select_rows il l t s) = Inr (select_spec il l t s)"
proof -
  let ?w = "s_where s" and ?tk = "select_take l (s_limit s)" and ?cmp = "select_cmp il (s_order s)"
  let ?skip = "case s_offset s of Some n \<Rightarrow> n | None \<Rightarrow> 0"
  let ?cands = "rows_at t (select_ids t ?w)" and ?k = "min (length (t_rows t)) (?skip + ?tk)"
  note ch = reads.chosen_rows [OF assms(1,2)]
  show ?thesis
  proof (cases "?tk = 0")
    case True
    then show ?thesis
      by (simp add: select_rows_def select_spec_def Let_def topk_sorted_def split: option.splits)
  next
    case tk: False
    show ?thesis
    proof (cases "s_order s")
      case None
      have o: "orders_on (set (filter (accepted il ?w) ?cands)) (select_cmp il None)"
      proof (rule select_cmp_orders)
        fix p q assume "p \<in> set (filter (accepted il ?w) ?cands)" "q \<in> set (filter (accepted il ?w) ?cands)" "fst p = fst q"
        then show "p = q" using ids_distinct [OF table_partD(2) [OF assms(1)]] rows_at_eq(1)
            reads.source_ids [OF assms(1), of ?w] by (intro rows_fst_inj [of "t_rows t" "set ?cands"]) auto
      qed simp
      have "sort_by (select_cmp il None) (filter (accepted il ?w) ?cands) = filter (accepted il ?w) ?cands"
        using sorted_by_unique [OF o _ sorted_sort_by [OF o subset_refl] ch(3)] by simp
      moreover have "fst (scan_plain il ?w ?skip ?tk ?cands 0 0 []) =
          Inr (take ?tk (drop ?skip (filter (accepted il ?w) ?cands)))"
        using scan_plain_eq [OF ch(1), of "[]" ?tk ?skip 0 0] tk by simp
      ultimately show ?thesis
        using ch(2) [of None] tk by (simp add: select_rows_def select_spec_def Let_def None)
    next
      case (Some o)
      have ol: "orders_on (set (filter (accepted il ?w) ?cands)) ?cmp"
      proof (rule select_cmp_orders)
        fix p q assume "p \<in> set (filter (accepted il ?w) ?cands)" "q \<in> set (filter (accepted il ?w) ?cands)" "fst p = fst q"
        then show "p = q" using ids_distinct [OF table_partD(2) [OF assms(1)]] rows_at_eq(1)
            reads.source_ids [OF assms(1), of ?w] by (intro rows_fst_inj [of "t_rows t" "set ?cands"]) auto
      qed (rule assms(3))
      have "topk_sorted ?cmp (fold (topk_add ?k ?cmp) (filter (accepted il ?w) ?cands) []) =
          take ?k (sort_by ?cmp (filter (accepted il ?w) ?cands))"
        using topk_is_take [OF ol, of ?k] by (simp add: topk_all_def)
      also have "sort_by ?cmp (filter (accepted il ?w) ?cands) = sort_by ?cmp (filter (accepted il ?w) (t_rows t))"
        using ch(2) [of "s_order s"] assms(3) by blast
      finally have top: "topk_sorted ?cmp (fold (topk_add ?k ?cmp) (filter (accepted il ?w) ?cands) []) =
          take ?k (sort_by ?cmp (filter (accepted il ?w) (t_rows t)))" .
      have len: "length (sort_by ?cmp (filter (accepted il ?w) (t_rows t))) \<le> length (t_rows t)" by simp
      have "take ?tk (drop ?skip (take ?k xs)) = take ?tk (drop ?skip xs)" if "length xs \<le> length (t_rows t)" for xs :: "(nat \<times> row) list"
        using that by (simp add: drop_take min_def add.commute)
      from this [OF len] show ?thesis
        using tk by (simp add: select_rows_def select_spec_def Let_def Some scan_top_eq [OF ch(1)] top [unfolded Some])
    qed
  qed
qed

end
