(* ===== verification/Sql_System.thy ===== *)
theory Sql_System
  imports Sql_Scan
begin

text \<open>
  The executor as a whole: the invariant of a database, what each statement writes, and the
  reachable states. A statement that throws leaves the tables and the totals alone.
\<close>

section \<open>Coercion gives typed values\<close>

lemma clone_json_wf: "json_wf v \<Longrightarrow> cloneJsonValue mb v = Inr w \<Longrightarrow> json_wf w"
  by (simp add: cloneJsonValue_Inr)

lemma coerce_ok:
  assumes "coerceWriteValue il v d primary = Inr w" "json_wf v"
  shows "value_ok d primary w"
proof (cases "v = JNull")
  case True
  with assms show ?thesis by (auto simp: coerceWriteValue_def value_ok_def split: if_splits)
next
  case False
  show ?thesis
  proof (cases "c_type d")
    case TAny
    with False assms have "w = v" by (simp add: coerceWriteValue_def cloneJsonValue_Inr)
    with False TAny assms(2) show ?thesis by (simp add: value_ok_def)
  qed (use False assms in \<open>auto simp: coerceWriteValue_def value_ok_def Let_def split: json.splits jsnum.splits if_splits\<close>)
qed

section \<open>Well-formed databases\<close>

definition schema_ok :: "table \<Rightarrow> bool" where
  "schema_ok t \<longleftrightarrow>
     (\<forall>p. t_pk t = Some p \<longrightarrow> p \<in> set (column_names t)) \<and>
     (\<forall>d \<in> set (t_columns t). \<forall>v. c_default d = Some v \<longrightarrow> json_wf v)"

definition rows_bytes :: "(nat \<times> row) list \<Rightarrow> int" where
  "rows_bytes rows = int (sum_list (map (row_size \<circ> snd) rows))"

abbreviation table_count :: "table \<Rightarrow> int" where
  "table_count t \<equiv> int (length (t_rows t))"

abbreviation table_bytes :: "table \<Rightarrow> int" where
  "table_bytes t \<equiv> rows_bytes (t_rows t)"

definition db_ok :: "executor \<Rightarrow> bool" where
  "db_ok x \<longleftrightarrow>
     distinct_keys (ex_tables x) \<and>
     (\<forall>n t. map_of (ex_tables x) n = Some t \<longrightarrow> table_ok t \<and> schema_ok t) \<and>
     ex_rows x = al_sum table_count (ex_tables x) \<and> ex_bytes x = al_sum table_bytes (ex_tables x) \<and>
     ex_rows x \<le> int (l_maxRows (ex_limits x)) \<and> ex_bytes x \<le> int (l_maxBytes (ex_limits x)) \<and>
     length (ex_tables x) \<le> l_maxTables (ex_limits x)"

lemma rows_bytes_simps [simp]:
  "rows_bytes [] = 0" "rows_bytes (p # ps) = int (row_size (snd p)) + rows_bytes ps"
  "rows_bytes (ps @ qs) = rows_bytes ps + rows_bytes qs"
  by (simp_all add: rows_bytes_def)

lemma rows_bytes_nonneg [simp]: "0 \<le> rows_bytes ps"
  by (simp add: rows_bytes_def)

lemma al_sum_nonneg: "(\<And>v. 0 \<le> f v) \<Longrightarrow> 0 \<le> al_sum f ps"
  by (induction ps) auto

lemma al_sum_set_present:
  "distinct_keys ps \<Longrightarrow> map_of ps k = Some v0 \<Longrightarrow> al_sum f (al_set k v ps) = al_sum f ps - f v0 + f v"
  by (induction k v ps rule: al_set.induct) (auto simp: distinct_keys_def split: if_splits)

lemma length_al_set_present: "k \<in> fst ` set ps \<Longrightarrow> length (al_set k v ps) = length ps"
  by (induction k v ps rule: al_set.induct) auto

section \<open>Replacing a table\<close>

lemma db_ok_replace:
  assumes "db_ok x" "the_table x n = Some t" "table_ok t'" "t_columns t' = t_columns t" "t_pk t' = t_pk t"
    and "ex_tables x' = al_set n t' (ex_tables x)" "ex_limits x' = ex_limits x"
    and "ex_rows x' = ex_rows x + (table_count t' - table_count t)"
    and "ex_bytes x' = ex_bytes x + (table_bytes t' - table_bytes t)"
    and "ex_rows x' \<le> int (l_maxRows (ex_limits x))" "ex_bytes x' \<le> int (l_maxBytes (ex_limits x))"
  shows "db_ok x'"
proof -
  have d: "distinct_keys (ex_tables x)" using assms(1) by (simp add: db_ok_def)
  have "n \<in> fst ` set (ex_tables x)" using assms(2) map_of_None_iff by (metis option.distinct(1))
  moreover have "schema_ok t'"
    using assms(1,2,4,5) by (auto simp: db_ok_def schema_ok_def column_names_def)
  moreover have "al_sum f (ex_tables x') = al_sum f (ex_tables x) - f t + f t'" for f
    using al_sum_set_present [OF d assms(2)] assms(6) by simp
  ultimately show ?thesis
    using assms d by (simp add: db_ok_def length_al_set_present)
qed

section \<open>INSERT\<close>

lemma find_column: "find (\<lambda>d. c_name d = c) defs = Some d \<Longrightarrow> d \<in> set defs \<and> c_name d = c"
  by (auto simp: find_Some_iff)

lemma insert_columns_ok:
  "insert_columns defs seen cs = Inr ds \<Longrightarrow>
     set ds \<subseteq> set defs \<and> map c_name ds = cs \<and> distinct cs \<and> set cs \<inter> set seen = {}"
proof (induction defs seen cs arbitrary: ds rule: insert_columns.induct)
  case (2 defs seen c cs)
  then obtain d ds' where d: "c \<notin> set seen" "find (\<lambda>d. c_name d = c) defs = Some d"
    "insert_columns defs (c # seen) cs = Inr ds'" "ds = d # ds'"
    by (auto simp: chain_Inr split: if_splits option.splits)
  from "2.IH" [OF d(1,2,3)] find_column [OF d(2)] d(1,4) show ?case by auto
qed simp

text \<open>A row being filled: the columns set so far are typed.\<close>

definition filling :: "column list \<Rightarrow> string option \<Rightarrow> row \<Rightarrow> bool" where
  "filling cols pk r \<longleftrightarrow>
     distinct_keys r \<and> fst ` set r \<subseteq> c_name ` set cols \<and>
     (\<forall>d \<in> set cols. c_name d \<in> fst ` set r \<longrightarrow> value_ok d (pk = Some (c_name d)) (field r (c_name d)))"

lemma filling_set:
  assumes "filling cols pk r" "distinct (map c_name cols)" "d \<in> set cols" "value_ok d (pk = Some (c_name d)) w"
  shows "filling cols pk (al_set (c_name d) w r)"
proof -
  have "d' = d" if "d' \<in> set cols" "c_name d' = c_name d" for d'
    using assms(2,3) that by (metis distinct_map inj_onD)
  with assms show ?thesis by (auto simp: filling_def fst_al_set)
qed

lemma fill_given_ok:
  assumes "fill_given il pk ps r = Inr r'" "filling cols pk r" "distinct (map c_name cols)"
    and "fst ` set ps \<subseteq> set cols" "\<forall>p \<in> set ps. json_wf (snd p)"
  shows "filling cols pk r'"
  using assms
proof (induction il pk ps r rule: fill_given.induct)
  case (2 il pk d v ps r)
  then obtain w where w: "coerceWriteValue il v d (pk = Some (c_name d)) = Inr w"
    "fill_given il pk ps (al_set (c_name d) w r) = Inr r'"
    by (auto simp: chain_Inr)
  with 2 have "filling cols pk (al_set (c_name d) w r)"
    using coerce_ok [OF w(1)] by (intro filling_set) simp_all
  with "2.IH" [OF w] "2.prems" show ?case by simp
qed simp

lemma fill_defaults_ok:
  assumes "fill_defaults il pk ds r = Inr r'" "filling cols pk r" "distinct (map c_name cols)"
    and "set ds \<subseteq> set cols" "\<forall>d \<in> set cols. \<forall>v. c_default d = Some v \<longrightarrow> json_wf v"
  shows "filling cols pk r' \<and> fst ` set r \<union> c_name ` set ds \<subseteq> fst ` set r'"
  using assms
proof (induction il pk ds r rule: fill_defaults.induct)
  case (2 il pk d ds r)
  show ?case
  proof (cases "c_name d \<in> fst ` set r")
    case True
    with 2 show ?thesis by auto
  next
    case False
    let ?v = "case c_default d of Some v \<Rightarrow> v | None \<Rightarrow> JNull"
    from False "2.prems"(1) obtain w where w: "coerceWriteValue il ?v d (pk = Some (c_name d)) = Inr w"
      "fill_defaults il pk ds (al_set (c_name d) w r) = Inr r'"
      by (auto simp: chain_Inr)
    have "json_wf ?v" using "2.prems"(4,5) by (auto split: option.splits)
    with 2 have "filling cols pk (al_set (c_name d) w r)"
      using coerce_ok [OF w(1)] by (intro filling_set) simp_all
    with "2.IH"(2) [OF False w] "2.prems" show ?thesis by (auto simp: fst_al_set)
  qed
qed simp

lemma prepare_row_ok:
  assumes "prepare_row il t ds vs = Inr r" "distinct (column_names t)" "schema_ok t"
    and "set ds \<subseteq> set (t_columns t)" "\<forall>v \<in> set vs. json_wf v"
  shows "row_ok (t_columns t) (t_pk t) r"
proof -
  from assms(1) obtain r1 where r1: "fill_given il (t_pk t) (zip ds vs) [] = Inr r1"
    "fill_defaults il (t_pk t) (t_columns t) r1 = Inr r"
    by (auto simp: prepare_row_def chain_Inr split: if_splits)
  have "filling (t_columns t) (t_pk t) r1"
    using assms(2,4,5) by (intro fill_given_ok [OF r1(1)]) (auto simp: filling_def column_names_def dest: set_zip_leftD set_zip_rightD)
  with fill_defaults_ok [OF r1(2)] assms(2,3)
  have "filling (t_columns t) (t_pk t) r" "c_name ` set (t_columns t) \<subseteq> fst ` set r"
    by (auto simp: column_names_def schema_ok_def)
  then show ?thesis by (auto simp: filling_def row_ok_def)
qed

lemma stage_insert_ok:
  assumes "stage_insert il x t cs vss = Inr rs" "table_ok t" "schema_ok t" "\<forall>vs \<in> set vss. \<forall>v \<in> set vs. json_wf v"
  shows "(\<forall>r \<in> set rs. row_ok (t_columns t) (t_pk t) r) \<and> keys_free t (map (Pair 0) rs) \<and> length rs = length vss \<and>
    ex_rows x + int (length rs) \<le> int (l_maxRows (ex_limits x)) \<and>
    ex_bytes x + int (sum_list (map row_size rs)) \<le> int (l_maxBytes (ex_limits x))"
proof -
  from assms(1) obtain ds where ds: "(if cs \<noteq> [] then insert_columns (t_columns t) [] cs else Inr (t_columns t)) = Inr ds"
    and rs: "mapO (prepare_row il t ds) vss = Inr rs" "assertPrimaryKeyUnique t {} rs = Inr ()"
    and cap: "checkCapacity (ex_limits x) (ex_rows x + int (length rs)) (ex_bytes x + int (sum_list (map row_size rs))) = Inr ()"
    unfolding stage_insert_def by (auto simp: chain_Inr split: if_splits)
  have sub: "set ds \<subseteq> set (t_columns t)"
    using ds insert_columns_ok [of "t_columns t" "[]" cs ds] by (auto split: if_splits)
  have len: "length rs = length vss" using rs(1) by (auto simp: mapO_Inr list_all2_lengthD)
  have "row_ok (t_columns t) (t_pk t) (rs ! i)" if "i < length rs" for i
  proof -
    have "prepare_row il t ds (vss ! i) = Inr (rs ! i)" using rs(1) that len by (auto simp: mapO_Inr list_all2_conv_all_nth)
    from prepare_row_ok [OF this table_partD(1) [OF assms(2)] assms(3) sub] assms(4) that len show ?thesis
      by (metis nth_mem)
  qed
  then have "\<forall>r \<in> set rs. row_ok (t_columns t) (t_pk t) r" by (metis in_set_conv_nth)
  moreover have "keys_free t (map (Pair 0) rs)"
    using rs(2) pk_loop_ok [of t _ "{}" "{}" rs] unfolding keys_free_def assertPrimaryKeyUnique_def
    by (auto simp: comp_def split: option.splits)
  ultimately show ?thesis using cap len by (auto simp: checkCapacity_def split: if_splits)
qed

lemma rows_bytes_number: "rows_bytes (number_from n rs) = int (sum_list (map row_size rs))"
proof (induction rs arbitrary: n)
  case Nil
  show ?case by (simp add: number_from_def)
qed (simp add: number_from_Cons)

text \<open>What an \<open>INSERT\<close> writes: the staged rows, numbered from the next id, at the end.\<close>

lemma executeInsert_ok:
  assumes "db_ok x" "stmt_ok (SInsert n cs vss)" "executeInsert il n cs vss x = (Inr q, x')"
  shows "db_ok x' \<and> (\<exists>t t' rs. the_table x n = Some t \<and> stage_insert il x t cs vss = Inr rs \<and>
    ex_tables x' = al_set n t' (ex_tables x) \<and> table_ok t' \<and> t_rows t' = t_rows t @ number_from (t_next t) rs \<and>
    q = affected (length vss))"
proof -
  from assms(3) obtain t rs where t: "the_table x n = Some t" and rs: "stage_insert il x t cs vss = Inr rs"
    and q: "q = affected (length rs)" and x': "x' = x\<lparr>ex_tables := al_set n (fold insert_row rs t) (ex_tables x),
            ex_rows := ex_rows x + int (length rs), ex_bytes := ex_bytes x + int (sum_list (map row_size rs))\<rparr>"
    by (auto simp: executeInsert_def with_table_def split: option.splits sum.splits)
  have ok: "table_ok t" "schema_ok t" using assms(1) t by (auto simp: db_ok_def)
  have wf: "\<forall>vs \<in> set vss. \<forall>v \<in> set vs. json_wf v" using assms(2) by (simp add: stmt_ok_def)
  note st = stage_insert_ok [OF rs ok wf]
  note ins = insert_all_ok [OF ok(1) conjunct1 [OF st] _ refl]
  have "db_ok x'"
    using st ins by (intro db_ok_replace [OF assms(1) t, where t' = "fold insert_row rs t"])
      (simp_all add: x' rows_bytes_number, simp add: number_from_def)
  with t rs st ins x' q show ?thesis by auto
qed

section \<open>UPDATE\<close>

lemma prepare_set_ok:
  assumes "prepare_set il t seen ss = Inr ws" "\<forall>p \<in> set ss. json_wf (snd p)"
  shows "map fst ws = map fst ss \<and> distinct (map fst ws) \<and> set (map fst ws) \<inter> set seen = {} \<and>
    (\<forall>c v. (c, v) \<in> set ws \<longrightarrow> (\<exists>d \<in> set (t_columns t). c_name d = c \<and> value_ok d (t_pk t = Some c) v))"
  using assms
proof (induction il t seen ss arbitrary: ws rule: prepare_set.induct)
  case (2 il t seen c v ss)
  then obtain d w ws' where d: "c \<notin> set seen" "find (\<lambda>d. c_name d = c) (t_columns t) = Some d"
    "coerceWriteValue il v d (t_pk t = Some c) = Inr w" "prepare_set il t (c # seen) ss = Inr ws'" "ws = (c, w) # ws'"
    by (auto simp: chain_Inr split: if_splits option.splits)
  have "value_ok d (t_pk t = Some c) w" using "2.prems"(2) by (intro coerce_ok [OF d(3)]) simp
  moreover have prem: "\<forall>p \<in> set ss. json_wf (snd p)" using "2.prems"(2) by simp
  note step = "2.IH" [OF d(1-4) prem] find_column [OF d(2)]
  ultimately have ih: "map fst ws' = map fst ss" "distinct (map fst ws')" "set (map fst ws') \<inter> set (c # seen) = {}"
    "\<forall>c v. (c, v) \<in> set ws' \<longrightarrow> (\<exists>d \<in> set (t_columns t). c_name d = c \<and> value_ok d (t_pk t = Some c) v)"
    and d': "d \<in> set (t_columns t)" "c_name d = c" "value_ok d (t_pk t = Some c) w"
    by blast+
  show ?case
  proof (intro conjI)
    show "set (map fst ws) \<inter> set seen = {}" using ih(3) d(1,5) by (simp del: list.set_map)
    show "distinct (map fst ws)" using ih(2,3) d(5) by (simp del: list.set_map)
  qed (use ih(1,4) d' d(5) in auto)
qed simp

lemma set_columns_Cons: "set_columns ((c, v) # ws) r = set_columns ws (al_set c v r)"
  by (simp add: set_columns_def)

lemma field_set_columns:
  "distinct (map fst ws) \<Longrightarrow> field (set_columns ws r) c = (case map_of ws c of Some v \<Rightarrow> v | None \<Rightarrow> field r c)"
proof (induction ws arbitrary: r)
  case (Cons p ws)
  obtain d v where p: "p = (d, v)" by (cases p)
  have "map_of ws d = None" using Cons.prems p by (simp add: map_of_None_iff)
  with Cons p show ?case by (auto simp: set_columns_Cons split: option.splits)
qed (simp add: set_columns_def)

lemma keys_set_columns:
  "distinct_keys r \<Longrightarrow> fst ` set ws \<subseteq> fst ` set r \<Longrightarrow>
     distinct_keys (set_columns ws r) \<and> fst ` set (set_columns ws r) = fst ` set r"
proof (induction ws arbitrary: r)
  case (Cons p ws)
  obtain d v where p: "p = (d, v)" by (cases p)
  from Cons.prems have "fst ` set (al_set d v r) = fst ` set r" by (auto simp: p fst_al_set)
  with Cons.IH [of "al_set d v r"] Cons.prems show ?case by (simp add: p set_columns_Cons)
qed (simp add: set_columns_def)

lemma row_ok_set_columns:
  assumes "row_ok cols pk r" "distinct (map c_name cols)" "distinct (map fst ws)"
    and "\<And>c v. (c, v) \<in> set ws \<Longrightarrow> \<exists>d \<in> set cols. c_name d = c \<and> value_ok d (pk = Some c) v"
  shows "row_ok cols pk (set_columns ws r)"
proof -
  have sub: "fst ` set ws \<subseteq> fst ` set r" using assms(1,4) by (force simp: row_ok_def)
  have "value_ok d (pk = Some (c_name d)) (field (set_columns ws r) (c_name d))" if d: "d \<in> set cols" for d
  proof (cases "map_of ws (c_name d)")
    case (Some v)
    then obtain d' where "d' \<in> set cols" "c_name d' = c_name d" "value_ok d' (pk = Some (c_name d)) v"
      using assms(4) map_of_in_set by metis
    moreover have "d' = d" using assms(2) d calculation(1,2) by (metis distinct_map inj_onD)
    ultimately show ?thesis by (simp add: field_set_columns [OF assms(3)] Some)
  next
    case None
    with assms(1) d show ?thesis by (simp add: field_set_columns [OF assms(3)] row_ok_def)
  qed
  with assms(1) keys_set_columns [OF _ sub] show ?thesis by (simp add: row_ok_def)
qed

lemma rows_bytes_al_set:
  "distinct_keys rows \<Longrightarrow> (i, old) \<in> set rows \<Longrightarrow>
     rows_bytes (al_set i new rows) = rows_bytes rows + int (row_size new) - int (row_size old)"
  by (induction i new rows rule: al_set.induct) (force simp: distinct_keys_def)+

lemma rows_bytes_updates:
  assumes "distinct_keys rows" "distinct (map fst us)" "fst ` set us \<subseteq> fst ` set rows"
  shows "rows_bytes (row_updates us rows) = rows_bytes rows +
    sum_list (map (\<lambda>(i, r). int (row_size r) - int (row_size (the (map_of rows i)))) us)"
  using assms
proof (induction us arbitrary: rows)
  case (Cons u us)
  obtain i new where u: "u = (i, new)" by (cases u)
  from Cons.prems u obtain old where old: "(i, old) \<in> set rows" by auto
  then have m: "map_of rows i = Some old" by (rule map_of_distinct_in [OF Cons.prems(1)])
  have notin: "i \<notin> fst ` set us" using Cons.prems(2) u by simp
  have i: "i \<in> fst ` set rows" using old by force
  let ?rows = "al_set i new rows"
  have "distinct (map fst us)" "fst ` set us \<subseteq> fst ` set ?rows"
    using Cons.prems(2,3) by (auto simp: u fst_al_set)
  from Cons.IH [OF _ this] Cons.prems(1)
  have "rows_bytes (row_updates us ?rows) = rows_bytes ?rows +
    sum_list (map (\<lambda>(i, r). int (row_size r) - int (row_size (the (map_of ?rows i)))) us)" by simp
  also have "map (\<lambda>(i, r). int (row_size r) - int (row_size (the (map_of ?rows i)))) us =
      map (\<lambda>(i, r). int (row_size r) - int (row_size (the (map_of rows i)))) us"
  proof (intro map_cong refl)
    fix u assume "u \<in> set us"
    then have "fst u \<noteq> i" using notin by force
    then show "(case u of (i, r) \<Rightarrow> int (row_size r) - int (row_size (the (map_of ?rows i)))) =
        (case u of (i, r) \<Rightarrow> int (row_size r) - int (row_size (the (map_of rows i))))" by (cases u) simp
  qed
  finally show ?case
    using row_updates_Cons [OF Cons.prems(1) i notin, of new] rows_bytes_al_set [OF Cons.prems(1) old, of new]
    by (simp add: u m)
qed (simp add: row_updates_def case_prod_beta)

lemma same_length_ids:
  "distinct (map fst ps) \<Longrightarrow> distinct (map fst qs) \<Longrightarrow> set ps = set qs \<Longrightarrow> length ps = length qs"
  by (metis distinct_card length_map list.set_map)

text \<open>The staged updates of a well-formed table.\<close>

lemma stage_update_ok:
  assumes "stage_update il x t sets w = Inr (ws, us)" "table_ok t" "schema_ok t" "\<forall>p \<in> set sets. json_wf (snd p)"
  shows "updates_ok t (map fst ws) us" "distinct (map fst ws)" "prepare_set il t [] sets = Inr ws"
    "row_updates us (t_rows t) = map (\<lambda>p. if accepted il w p then (fst p, set_columns ws (snd p)) else p) (t_rows t)"
    "length us = length (filter (accepted il w) (t_rows t))"
    "update_delta t us = rows_bytes (row_updates us (t_rows t)) - table_bytes t"
    "ex_bytes x + update_delta t us \<le> int (l_maxBytes (ex_limits x))"
    "changes_pk t ws \<Longrightarrow> assertPrimaryKeyUnique t (fst ` set us) (map snd us) = Inr ()"
proof -
  note ok = table_partD [OF assms(2)]
  note d = ids_distinct [OF ok(2)]
  from assms(1) obtain ms where ws: "prepare_set il t [] sets = Inr ws"
    and ms: "matching il w (rows_at t (candidate_ids t w)) = Inr ms"
    and us: "us = map (\<lambda>(i, r). (i, set_columns ws r)) ms"
    and pk: "(if changes_pk t ws then assertPrimaryKeyUnique t (set (map fst us)) (map snd us) else Inr ()) = Inr ()"
    and cap: "checkCapacity (ex_limits x) (ex_rows x) (ex_bytes x + update_delta t us) = Inr ()"
    by (auto simp: stage_update_def chain_Inr Let_def)
  show "prepare_set il t [] sets = Inr ws" by (rule ws)
  note ps = prepare_set_ok [OF ws assms(4)]
  then show dw: "distinct (map fst ws)" by blast
  note m = writes.matching_rows [OF assms(2) ms]
  have fst_us: "map fst us = map fst ms" by (simp add: us comp_def case_prod_beta)
  then have fs: "fst ` set us = fst ` set ms" by (metis list.set_map)
  show up: "updates_ok t (map fst ws) us"
    unfolding updates_ok_def
  proof (intro conjI allI impI)
    show "distinct (map fst us)" using m(2) fst_us by simp
    fix i new assume "(i, new) \<in> set us"
    then obtain r where r: "(i, r) \<in> set (t_rows t)" "new = set_columns ws r"
      using m(1) by (auto simp: us)
    have "row_ok (t_columns t) (t_pk t) r" using ok(4) [OF r(1)] by simp
    then show "row_ok (t_columns t) (t_pk t) new"
      unfolding r(2) using ok(1) ps by (intro row_ok_set_columns) (auto simp: column_names_def)
    have "map_of ws c = None" if "c \<notin> set (map fst ws)" for c
      using that by (simp add: map_of_eq_None_iff)
    then have "off_columns_same t (map fst ws) r new"
      by (simp add: off_columns_same_def r(2) field_set_columns [OF dw] del: list.set_map)
    with r(1) show "\<exists>old. (i, old) \<in> set (t_rows t) \<and> off_columns_same t (map fst ws) old new" by blast
  qed
  have lookup: "map_of us i = (if accepted il w (i, r) then Some (set_columns ws r) else None)" if "(i, r) \<in> set (t_rows t)" for i r
  proof (cases "accepted il w (i, r)")
    case True
    then have "(i, set_columns ws r) \<in> set us" using that m(1) by (force simp: us)
    with True m(2) fst_us show ?thesis by (simp add: map_of_distinct_in distinct_keys_def)
  next
    case False
    have "i \<notin> fst ` set ms" using m(1) row_unique [OF d that] False by force
    then have "map_of us i = None" unfolding map_of_None_iff fs .
    with False show ?thesis by simp
  qed
  then show "row_updates us (t_rows t) = map (\<lambda>p. if accepted il w p then (fst p, set_columns ws (snd p)) else p) (t_rows t)"
    by (auto simp: row_updates_def)
  have "length ms = length (filter (accepted il w) (t_rows t))"
    using m d by (intro same_length_ids) (auto simp: distinct_map_filter distinct_keys_def)
  then show "length us = length (filter (accepted il w) (t_rows t))" by (simp add: us)
  have sub: "fst ` set us \<subseteq> fst ` set (t_rows t)" using updates_okD [OF up] by force
  have "update_delta t us = sum_list (map (\<lambda>(i, r). int (row_size r) - int (row_size (the (map_of (t_rows t) i)))) us)"
    unfolding update_delta_def
  proof (intro arg_cong [where f = sum_list] map_cong refl)
    fix u assume "u \<in> set us"
    moreover obtain i r where ir: "u = (i, r)" by (cases u)
    ultimately obtain old where u: "u = (i, r)" "(i, old) \<in> set (t_rows t)"
      using updates_okD [OF up, of i r] by blast
    from bytes_of_row [OF ok(3) d u(2)] map_of_distinct_in [OF d u(2)]
    show "(case u of (i, r) \<Rightarrow> int (row_size r) - bytes_of t i) =
        (case u of (i, r) \<Rightarrow> int (row_size r) - int (row_size (the (map_of (t_rows t) i))))" by (simp add: u(1))
  qed
  with rows_bytes_updates [OF d _ sub] m(2) fst_us
  show "update_delta t us = rows_bytes (row_updates us (t_rows t)) - table_bytes t" by simp
  show "ex_bytes x + update_delta t us \<le> int (l_maxBytes (ex_limits x))"
    using cap by (simp add: checkCapacity_def split: if_splits)
  show "changes_pk t ws \<Longrightarrow> assertPrimaryKeyUnique t (fst ` set us) (map snd us) = Inr ()" using pk by simp
qed

lemma apply_updates_ok:
  assumes "table_ok t" "schema_ok t" "updates_ok t (map fst ws) us" "distinct (map fst ws)"
    and "changes_pk t ws \<Longrightarrow> assertPrimaryKeyUnique t (fst ` set us) (map snd us) = Inr ()"
  shows "table_ok (apply_updates ws us t) \<and> t_rows (apply_updates ws us t) = row_updates us (t_rows t) \<and>
    t_columns (apply_updates ws us t) = t_columns t \<and> t_pk (apply_updates ws us t) = t_pk t"
proof (cases "changes_pk t ws")
  case True
  then obtain p where p: "t_pk t = Some p" by (auto simp: changes_pk_def split: option.splits)
  let ?t = "drop_old_keys us t"
  have du: "distinct (map fst us)" using assms(3) by (simp add: updates_ok_def)
  have sub: "fst ` set us \<subseteq> fst ` set (t_rows t)" using updates_okD [OF assms(3)] by force
  note drop = drop_old_keys_ok [OF assms(1) du sub, simplified]
  have loop: "pk_loop t p (fst ` set us) {} (map snd us) = Inr ()"
    using assms(5) [OF True] by (simp add: assertPrimaryKeyUnique_def p)
  have "keys_free ?t us"
    unfolding keys_free_def
  proof (intro allI impI conjI ballI)
    fix q assume "t_pk ?t = Some q"
    then have q: "q = p" using drop p by simp
    show "distinct (map (\<lambda>u. valueIdentity (field (snd u) q)) us)"
      using loop unfolding pk_loop_ok q by (simp add: comp_def)
    fix u assume u: "u \<in> set us"
    show "map_of (t_primary ?t) (valueIdentity (field (snd u) q)) = None"
    proof (rule ccontr)
      assume "map_of (t_primary ?t) (valueIdentity (field (snd u) q)) \<noteq> None"
      then obtain i where i: "map_of (t_primary ?t) (valueIdentity (field (snd u) p)) = Some i" by (auto simp: q)
      then have "map_of (t_primary t) (valueIdentity (field (snd u) p)) = Some i" using drop by blast
      then have "i \<in> fst ` set us" using loop u unfolding pk_loop_ok by auto
      moreover have "primary_part (fst ` set us) (t_pk ?t) (t_rows ?t) (t_primary ?t)"
        using drop table_partD(5) by blast
      then have "i \<notin> fst ` set us" using i drop p by (auto simp: primary_part_def)
      ultimately show False by blast
    qed
  qed
  moreover have "updates_ok ?t (map fst ws) us"
    using assms(3) drop by (simp add: updates_ok_def off_columns_same_def column_names_def)
  ultimately show ?thesis
    using update_all_ok [of "fst ` set us" ?t "map fst ws" us True "apply_updates ws us t"] assms(4) drop True
    by (simp add: apply_updates_def)
next
  case False
  then have "p \<notin> set (map fst ws) \<and> p \<in> set (column_names t)" if "t_pk t = Some p" for p
    using that assms(2) by (auto simp: changes_pk_def schema_ok_def)
  then show ?thesis
    using update_all_ok [of "{}" t "map fst ws" us False "apply_updates ws us t"] assms(1,3,4) False
    by (simp add: apply_updates_def)
qed

lemma executeUpdate_ok:
  assumes "db_ok x" "stmt_ok (SUpdate n sets w)" "executeUpdate il n sets w x = (Inr q, x')"
  shows "db_ok x' \<and> (\<exists>t t' ws. the_table x n = Some t \<and> prepare_set il t [] sets = Inr ws \<and>
    ex_tables x' = al_set n t' (ex_tables x) \<and> table_ok t' \<and>
    t_rows t' = map (\<lambda>p. if accepted il w p then (fst p, set_columns ws (snd p)) else p) (t_rows t) \<and>
    q = affected (length (filter (accepted il w) (t_rows t))))"
proof -
  from assms(3) obtain t ws us where t: "the_table x n = Some t" and st: "stage_update il x t sets w = Inr (ws, us)"
    and q: "q = affected (length us)" and x': "x' = x\<lparr>ex_tables := al_set n (apply_updates ws us t) (ex_tables x),
            ex_bytes := ex_bytes x + update_delta t us\<rparr>"
    by (auto simp: executeUpdate_def with_table_def split: option.splits sum.splits)
  have ok: "table_ok t" "schema_ok t" using assms(1) t by (auto simp: db_ok_def)
  have wf: "\<forall>p \<in> set sets. json_wf (snd p)" using assms(2) by (simp add: stmt_ok_def)
  note up = stage_update_ok [OF st ok wf]
  note ap = apply_updates_ok [OF ok up(1,2,8)]
  have "table_count (apply_updates ws us t) = table_count t" using ap by (simp add: row_updates_def)
  moreover have "ex_rows x \<le> int (l_maxRows (ex_limits x))" using assms(1) by (simp add: db_ok_def)
  ultimately have "db_ok x'"
    using ap up(6,7) by (intro db_ok_replace [OF assms(1) t, where t' = "apply_updates ws us t"]) (simp_all add: x')
  with t up ap x' q show ?thesis by auto
qed

section \<open>DELETE, CREATE TABLE and DROP TABLE\<close>

lemma rows_bytes_del:
  "distinct_keys rows \<Longrightarrow> (i, r) \<in> set rows \<Longrightarrow> rows_bytes (al_del i rows) = rows_bytes rows - int (row_size r)"
proof (induction rows)
  case (Cons p rows)
  show ?case
  proof (cases "fst p = i")
    case True
    have out: "i \<notin> fst ` set rows" using Cons.prems(1) True by (simp add: distinct_keys_def)
    then have "(i, r) \<notin> set rows" by force
    with Cons.prems(2) have "p = (i, r)" by simp
    with out show ?thesis by simp
  next
    case False
    with Cons show ?thesis by (auto simp: distinct_keys_def)
  qed
qed simp

lemma delete_totals:
  assumes "table_ok t" "distinct (map fst ds)" "set ds \<subseteq> set (t_rows t)" "fold deleteRow ds (t, n, b) = (t', n', b')"
  shows "n' - table_count t' = n - table_count t \<and> b' - table_bytes t' = b - table_bytes t"
  using assms
proof (induction ds arbitrary: t n b)
  case (Cons p ds)
  obtain i r where p: "p = (i, r)" by (cases p)
  obtain t1 n1 b1 where 1: "deleteRow (i, r) (t, n, b) = (t1, n1, b1)" by (cases "deleteRow (i, r) (t, n, b)")
  have r: "(i, r) \<in> set (t_rows t)" using Cons.prems(3) p by simp
  have d: "distinct_keys (t_rows t)" using ids_distinct [OF table_partD(2) [OF Cons.prems(1)]] .
  note ok = deleteRow_ok [OF Cons.prems(1) r 1]
  have sub: "set ds \<subseteq> set (t_rows t1)"
    using Cons.prems(2,3) by (force simp: ok(2) set_al_del p)
  have rest: "distinct (map fst ds)" "fold deleteRow ds (t1, n1, b1) = (t', n', b')"
    using Cons.prems(2,4) by (simp_all add: p 1)
  have "i \<in> fst ` set (t_rows t)" using r by force
  then have "length (al_del i (t_rows t)) = length (t_rows t) - 1" "0 < length (t_rows t)"
    using length_al_del [OF d] r by (auto dest: length_pos_if_in_set)
  with Cons.IH [OF ok(1) rest(1) sub rest(2)] rows_bytes_del [OF d r] show ?case
    by (simp add: ok of_nat_diff)
qed simp

lemma executeDelete_ok:
  assumes "db_ok x" "executeDelete il n w x = (Inr q, x')"
  shows "db_ok x' \<and> (\<exists>t t'. the_table x n = Some t \<and> ex_tables x' = al_set n t' (ex_tables x) \<and> table_ok t' \<and>
    t_rows t' = filter (\<lambda>p. \<not> accepted il w p) (t_rows t) \<and>
    q = affected (length (filter (accepted il w) (t_rows t))))"
proof -
  from assms(2) obtain t ds where t: "the_table x n = Some t" and st: "stage_delete il t w = Inr ds"
    by (auto simp: executeDelete_def with_table_def split: option.splits sum.splits)
  obtain t' rows bytes where f: "fold deleteRow ds (t, ex_rows x, ex_bytes x) = (t', rows, bytes)"
    by (cases "fold deleteRow ds (t, ex_rows x, ex_bytes x)")
  with assms(2) t st have q: "q = affected (length ds)"
    and x': "x' = x\<lparr>ex_tables := al_set n t' (ex_tables x), ex_rows := rows, ex_bytes := bytes\<rparr>"
    by (simp_all add: executeDelete_def with_table_def)
  have ok: "table_ok t" using assms(1) t by (auto simp: db_ok_def)
  have ids: "distinct_keys (t_rows t)" using ids_distinct [OF table_partD(2) [OF ok]] .
  from st have "matching il w (rows_at t (candidate_ids t w)) = Inr ds" by (auto simp: stage_delete_def chain_Inr)
  note m = writes.matching_rows [OF ok this]
  have sub: "set ds \<subseteq> set (t_rows t)" using m(1) by blast
  note del = delete_rows_ok [OF ok m(2) sub f] and tot = delete_totals [OF ok m(2) sub f]
  have "fst p \<in> fst ` set ds \<longleftrightarrow> accepted il w p" if p: "p \<in> set (t_rows t)" for p
  proof
    assume "fst p \<in> fst ` set ds"
    then obtain p' where "p' \<in> set ds" "fst p = fst p'" by auto
    with m(1) rows_fst_inj [OF ids subset_refl p, of p'] show "accepted il w p" by auto
  qed (use m(1) p in auto)
  then have rows': "t_rows t' = filter (\<lambda>p. \<not> accepted il w p) (t_rows t)"
    unfolding conjunct1 [OF conjunct2 [OF del]] by (intro filter_cong) simp_all
  have "length ds = length (filter (accepted il w) (t_rows t))"
    using m ids by (intro same_length_ids) (auto simp: distinct_map_filter distinct_keys_def)
  moreover have "rows \<le> ex_rows x" "bytes \<le> ex_bytes x" using del by simp_all
  then have "db_ok x'"
    using del tot assms(1) by (intro db_ok_replace [OF assms(1) t, where t' = t']) (auto simp: x' db_ok_def)
  ultimately show ?thesis using t x' del rows' q by auto
qed

lemma new_indexes_empty:
  "map_of (new_indexes ix cols) c = Some i \<Longrightarrow> i = [] \<and> c \<in> c_name ` set cols"
proof -
  have "map_of (fold (\<lambda>c m. if shouldIndexColumn ix (c_name c) then al_set (c_name c) [] m else m) cols m) c = Some i \<Longrightarrow>
      (\<forall>c i. map_of m c = Some i \<longrightarrow> i = [] \<and> c \<in> C) \<Longrightarrow> i = [] \<and> c \<in> C \<union> c_name ` set cols" for m C
  proof (induction cols arbitrary: m C)
    case (Cons d cols)
    from Cons.IH [OF _, of _ "insert (c_name d) C"] Cons.prems show ?case
      by (auto split: if_splits)
  qed simp
  from this [of "[]" "{}"] show "map_of (new_indexes ix cols) c = Some i \<Longrightarrow> ?thesis"
    by (simp add: new_indexes_def)
qed

lemma clone_defaults_same:
  "mapO clone_default cols = Inr cs \<Longrightarrow> cs = cols"
proof (induction cols arbitrary: cs)
  case (Cons c cols)
  then obtain d ds where d: "clone_default c = Inr d" "mapO clone_default cols = Inr ds" "cs = d # ds"
    by (auto simp: chain_Inr)
  have "d = c" using d(1) by (cases "c_default c") (auto simp: clone_default_def chain_Inr cloneJsonValue_Inr)
  with Cons.IH d show ?case by simp
qed simp

lemma executeCreateTable_ok:
  assumes "db_ok x" "stmt_ok (SCreate n cols pk)" "executeCreateTable n cols pk x = (Inr q, x')"
  shows "db_ok x' \<and> the_table x n = None \<and> (\<exists>t. ex_tables x' = ex_tables x @ [(n, t)] \<and> t_columns t = cols \<and>
    t_pk t = pk \<and> t_rows t = [])"
proof -
  let ?t = "\<lparr>t_name = n, t_columns = cols, t_pk = pk, t_rows = [], t_next = 0, t_primary = [],
                      t_bytes = [], t_indexes = new_indexes (ex_indexColumns x) cols\<rparr>"
  from assms(3) have new: "the_table x n = None" and size: "length (ex_tables x) < l_maxTables (ex_limits x)"
    and x': "x' = x\<lparr>ex_tables := al_set n ?t (ex_tables x)\<rparr>"
    by (auto simp: executeCreateTable_def dest!: clone_defaults_same split: if_splits sum.splits)
  have app: "al_set n ?t (ex_tables x) = ex_tables x @ [(n, ?t)]"
    using new by (intro al_set_notin) (simp add: map_of_None_iff)
  have "index_ok [] ?t"
    by (auto simp: index_ok_def idx_def index_ids_def rows_with_def column_names_def dest!: new_indexes_empty)
  then have "table_ok ?t"
    using assms(2) by (intro table_partI) (auto simp: stmt_ok_def column_names_def ids_ok_def bytes_ok_def primary_part_def split: option.splits)
  moreover have "schema_ok ?t" using assms(2) by (auto simp: stmt_ok_def schema_ok_def column_names_def)
  moreover have "distinct_keys (ex_tables x @ [(n, ?t)])"
    using distinct_keys_al_set [of "ex_tables x" n ?t] assms(1) unfolding app by (simp add: db_ok_def)
  ultimately have "db_ok x'"
    using assms(1) size new unfolding x' app by (auto simp: db_ok_def map_add_def split: option.splits)
  with new x' app show ?thesis by auto
qed

lemma executeDropTable_ok:
  assumes "db_ok x" "executeDropTable n x = (Inr q, x')"
  shows "db_ok x' \<and> the_table x n \<noteq> None \<and> ex_tables x' = al_del n (ex_tables x)"
proof -
  from assms(2) obtain t where t: "the_table x n = Some t"
    and x': "x' = x\<lparr>ex_rows := ex_rows x - int (length (t_rows t)),
        ex_bytes := ex_bytes x - int (sum_list (map snd (t_bytes t))), ex_tables := al_del n (ex_tables x)\<rparr>"
    by (auto simp: executeDropTable_def with_table_def split: option.splits)
  have d: "distinct_keys (ex_tables x)" and ok: "table_ok t" using assms(1) t by (auto simp: db_ok_def)
  have "map snd (t_bytes t) = map (row_size \<circ> snd) (t_rows t)"
    using table_partD(3) [OF ok] by (simp add: bytes_ok_def comp_def case_prod_beta)
  then have "int (sum_list (map snd (t_bytes t))) = table_bytes t" by (simp add: rows_bytes_def)
  moreover have "length (al_del n (ex_tables x)) \<le> length (ex_tables x)" by (simp add: al_del_def)
  ultimately have "db_ok x'"
    using assms(1) al_sum_del [OF d t, of table_count] al_sum_del [OF d t, of table_bytes]
      rows_bytes_nonneg [of "t_rows t"] by (auto simp: x' db_ok_def)
  with t x' show ?thesis by simp
qed

section \<open>SELECT\<close>

text \<open>A \<open>SELECT\<close> changes the count of examined rows only.\<close>

lemma executeSelect_state: "snd (executeSelect il s x) = x\<lparr>ex_examined := ex_examined (snd (executeSelect il s x))\<rparr>"
  by (auto simp: executeSelect_def with_table_def split: option.splits sum.splits prod.splits)

lemma executeSelect_spec:
  assumes "db_ok x" "the_table x (s_table s) = Some t"
    and "validateSelectReferences t (s_columns s) (s_order s) (s_where s) = Inr u"
    and "evaluates il (s_where s) (t_rows t)" "s_order s \<noteq> None \<Longrightarrow> collates il"
  shows "fst (executeSelect il s x) = finish_select (ex_limits x) t (s_columns s) (select_spec il (ex_limits x) t s)"
proof -
  have "table_ok t" using assms(1,2) by (auto simp: db_ok_def)
  from select_rows_spec [OF this assms(4,5), of "ex_limits x"]
  have "fst (select_rows il (ex_limits x) t s) = Inr (select_spec il (ex_limits x) t s)" by blast
  with assms(2,3) show ?thesis
    by (cases "select_rows il (ex_limits x) t s") (simp add: executeSelect_def with_table_def)
qed

section \<open>Every statement\<close>

lemma db_ok_examined: "db_ok (x\<lparr>ex_examined := n\<rparr>) = db_ok x"
  by (simp add: db_ok_def)

text \<open>A statement that throws leaves the tables, the totals and the statements alone.\<close>

definition same_db :: "executor \<Rightarrow> executor \<Rightarrow> bool" where
  "same_db x y \<longleftrightarrow> y = x\<lparr>ex_examined := ex_examined y\<rparr>"

lemma same_dbI: "same_db x x" "same_db x (x\<lparr>ex_examined := n\<rparr>)"
  by (simp_all add: same_db_def)

theorem statement_throws:
  assumes "executeStatement il s x = (Inl e, x')"
  shows "same_db x x'"
proof (cases s)
  case (SSelect sel)
  with assms executeSelect_state [of il sel x] show ?thesis by (simp add: executeStatement_def same_db_def)
qed (use assms in \<open>auto simp: executeStatement_def executeCreateTable_def executeInsert_def executeUpdate_def
      executeDelete_def executeDropTable_def with_table_def same_dbI split: if_splits option.splits sum.splits prod.splits\<close>)

theorem statement_keeps_db:
  assumes "db_ok x" "stmt_ok s"
  shows "db_ok (snd (executeStatement il s x))"
proof (cases "fst (executeStatement il s x)")
  case (Inl e)
  then have "same_db x (snd (executeStatement il s x))"
    by (intro statement_throws [of il s x e]) (metis prod.collapse)
  with assms(1) db_ok_examined show ?thesis unfolding same_db_def by metis
next
  case (Inr q)
  then have r: "executeStatement il s x = (Inr q, snd (executeStatement il s x))" by (metis prod.collapse)
  show ?thesis
  proof (cases s)
    case (SSelect sel)
    then show ?thesis using assms(1) executeSelect_state [of il sel x] db_ok_examined
      by (simp add: executeStatement_def) metis
  next
    case (SInsert n cols vss)
    with r executeInsert_ok [OF assms(1), of n cols vss il q] assms(2) show ?thesis by (simp add: executeStatement_def)
  next
    case (SUpdate n sets w)
    with r executeUpdate_ok [OF assms(1), of n sets w il q] assms(2) show ?thesis by (simp add: executeStatement_def)
  next
    case (SDelete n w)
    with r executeDelete_ok [OF assms(1), of il n w q] show ?thesis by (simp add: executeStatement_def)
  next
    case (SCreate n cols pk)
    with r executeCreateTable_ok [OF assms(1), of n cols pk q] assms(2) show ?thesis by (simp add: executeStatement_def)
  next
    case (SDrop n)
    with r executeDropTable_ok [OF assms(1), of n q] show ?thesis by (simp add: executeStatement_def)
  qed
qed

text \<open>Two rows of a table never have structurally equal primary keys.\<close>

lemma primary_keys_unique:
  assumes "table_ok t" "t_pk t = Some p" "p \<in> set (column_names t)" "(i, r) \<in> set (t_rows t)" "(j, r') \<in> set (t_rows t)"
    and "structuralEqual (field r p) (field r' p)"
  shows "i = j"
proof -
  note ok = table_partD [OF assms(1)]
  have "json_wf (field r p)" "json_wf (field r' p)"
    using ok(4) [OF assms(4)] ok(4) [OF assms(5)] assms(3) by (auto simp: row_ok_def value_ok_def column_names_def)
  with assms(6) have "valueIdentity (field r p) = valueIdentity (field r' p)"
    by (intro identity_of_equal) (simp_all add: structuralEqual_jeq)
  then have "map_of (t_primary t) (valueIdentity (field r p)) = Some i" "map_of (t_primary t) (valueIdentity (field r p)) = Some j"
    using ok(5) assms(2,4,5) by (auto simp: primary_part_def)
  then show ?thesis by simp
qed

end
