(* ===== verification/Sql_Lexer.thy ===== *)
theory Sql_Lexer
  imports Js_Decimal Prelude
begin

text \<open>
  The tokens of SQL: \<open>nextToken\<close>, \<open>consume\<close> and \<open>peek\<close> of the class \<open>Parser\<close> in
  \<open>src/src/parser.ts\<close>. A token is a text, as in the code; a quoted token keeps its quotes and
  has its escapes decoded. The position is represented by the rest of the input. A parser
  that has thrown is never used again, so the state after a throw has no meaning.
\<close>

section \<open>Characters\<close>

definition ident_start :: "char \<Rightarrow> bool" where
  "ident_start c \<longleftrightarrow> 65 \<le> byte c \<and> byte c \<le> 90 \<or> 97 \<le> byte c \<and> byte c \<le> 122 \<or> byte c = 95"

definition ident_char :: "char \<Rightarrow> bool" where
  "ident_char c \<longleftrightarrow> ident_start c \<or> is_digit c"

definition numeric_char :: "char \<Rightarrow> bool" where
  "numeric_char c \<longleftrightarrow> is_digit c \<or> c = CHR ''.'' \<or> c = CHR ''e'' \<or> c = CHR ''E'' \<or> c = CHR ''+'' \<or> c = CHR ''-''"

definition lower_char :: "char \<Rightarrow> char" where
  "lower_char c = (if 65 \<le> byte c \<and> byte c \<le> 90 then char_of (byte c + 32) else c)"

text \<open>
  \<open>toLowerCase\<close> of a token that is compared with a keyword. Tokens are ASCII, except quoted
  ones, and those keep their quote and equal no keyword.
\<close>

definition lower_token :: "string \<Rightarrow> string" where
  "lower_token t = map lower_char t"

definition starts_with :: "(char \<Rightarrow> bool) \<Rightarrow> string \<Rightarrow> bool" where
  "starts_with p s = (case s of [] \<Rightarrow> False | c # _ \<Rightarrow> p c)"

text \<open>\<open>^[a-zA-Z_][a-zA-Z0-9_]*$\<close>.\<close>

definition is_identifier :: "string \<Rightarrow> bool" where
  "is_identifier t \<longleftrightarrow> starts_with ident_start t \<and> list_all ident_char t"

section \<open>Quoted strings\<close>

definition escape_value :: "char \<Rightarrow> char option" where
  "escape_value c =
     (if c = CHR ''0'' then Some (CHR 0x00)
      else if c = CHR ''b'' then Some (CHR 0x08)
      else if c = CHR ''f'' then Some (CHR 0x0C)
      else if c = CHR ''n'' then Some (CHR 0x0A)
      else if c = CHR ''r'' then Some (CHR 0x0D)
      else if c = CHR ''t'' then Some (CHR 0x09)
      else if c = CHR ''v'' then Some (CHR 0x0B)
      else if c = CHR 0x5C \<or> c = CHR 0x27 \<or> c = CHR 0x22 then Some c
      else None)"

definition UNTERMINATED :: jserr where
  "UNTERMINATED = PlainError ''Unterminated quoted string''"

text \<open>The decoded text up to the closing quote, and what follows it.\<close>

fun quoted :: "char \<Rightarrow> string \<Rightarrow> (string \<times> string) outcome" where
  "quoted q [] = Inl UNTERMINATED"
| "quoted q (c # s) =
     (if c = q then
        (case s of
           d # s' \<Rightarrow> if d = q then chain (quoted q s') (\<lambda>(t, r). Inr (q # t, r)) else Inr ([], s)
         | [] \<Rightarrow> Inr ([], []))
      else if c = CHR 0x5C then
        (case s of
           [] \<Rightarrow> Inl UNTERMINATED
         | d # s' \<Rightarrow>
             (case escape_value d of
                None \<Rightarrow> Inl (PlainError ''Unsupported escape sequence'')
              | Some e \<Rightarrow> chain (quoted q s') (\<lambda>(t, r). Inr (e # t, r))))
      else chain (quoted q s) (\<lambda>(t, r). Inr (c # t, r)))"

section \<open>Operators\<close>

definition symbolOps :: "string list" where
  "symbolOps = [''>='', ''<='', ''!='', ''='', ''>'', ''<'', ''('', '')'', '','', ''*'', '';'']"

definition wordOps :: "string list" where
  "wordOps = [''like'', ''between'', ''in'', ''and'', ''or'', ''not'', ''is'']"

text \<open>
  \<open>candidate.toLowerCase() === op\<close>: what follows the word \<open>op\<close>. Besides the ASCII capitals,
  the Kelvin sign U+212A has the lower case \<open>k\<close>.
\<close>

fun strip_word :: "string \<Rightarrow> string \<Rightarrow> string option" where
  "strip_word [] s = Some s"
| "strip_word (p # ps) [] = None"
| "strip_word (p # ps) (c # s) =
     (if lower_char c = p then strip_word ps s
      else if p = CHR ''k'' \<and> c = CHR 0xE2 \<and> take 2 s = [CHR 0x84, CHR 0xAA] then strip_word ps (drop 2 s)
      else None)"

fun first_word :: "string list \<Rightarrow> string \<Rightarrow> (string \<times> string) option" where
  "first_word [] s = None"
| "first_word (w # ws) s =
     (case strip_word w s of
        Some r \<Rightarrow> if starts_with ident_char r then first_word ws s else Some (w, r)
      | None \<Rightarrow> first_word ws s)"

section \<open>Tokens\<close>

definition numeric_start :: "string \<Rightarrow> bool" where
  "numeric_start s =
     (case s of
        [] \<Rightarrow> False
      | c # r \<Rightarrow>
          is_digit c \<or> c = CHR ''.'' \<and> starts_with is_digit r
          \<or> c = CHR ''-'' \<and> (starts_with is_digit r \<or> take 1 r = ''.'' \<and> starts_with is_digit (drop 1 r)))"

text \<open>The first token of a text that starts with no white space, and the text behind it.\<close>

definition lex_number :: "string \<Rightarrow> (string \<times> string) outcome" where
  "lex_number s =
     (let num = takeWhile numeric_char s; r = dropWhile numeric_char s in
      if starts_with ident_char r \<or> numeric_literal num = None
      then Inl (PlainError ''Malformed numeric literal'') else Inr (num, r))"

definition lex_other :: "string \<Rightarrow> (string \<times> string) outcome" where
  "lex_other s =
     (case find (\<lambda>p. take (length p) s = p) symbolOps of
        Some p \<Rightarrow> Inr (p, drop (length p) s)
      | None \<Rightarrow>
          (case first_word wordOps s of
             Some (w, r) \<Rightarrow> Inr (w, r)
           | None \<Rightarrow>
               if starts_with ident_start s then Inr (takeWhile ident_char s, dropWhile ident_char s)
               else Inl (PlainError ''Unexpected character'')))"

definition lex :: "string \<Rightarrow> (string \<times> string) option outcome" where
  "lex s0 =
     (case drop_space s0 of
        [] \<Rightarrow> Inr None
      | c # s \<Rightarrow>
          if c = CHR 0x27 \<or> c = CHR 0x22 then chain (quoted c s) (\<lambda>(t, r). Inr (Some (c # t @ [c], r)))
          else if numeric_start (c # s) then chain (lex_number (c # s)) (\<lambda>tr. Inr (Some tr))
          else chain (lex_other (c # s)) (\<lambda>tr. Inr (Some tr)))"

section \<open>The parser's state\<close>

record pstate =
  ps_rest :: string
  ps_token :: "string option"

definition nextToken :: "(pstate, string option) act" where
  "nextToken s =
     (case lex (ps_rest s) of
        Inl e \<Rightarrow> (Inl e, s)
      | Inr None \<Rightarrow> (Inr None, s\<lparr>ps_rest := [], ps_token := None\<rparr>)
      | Inr (Some (t, r)) \<Rightarrow> (Inr (Some t), s\<lparr>ps_rest := r, ps_token := Some t\<rparr>))"

definition new_parser :: "string \<Rightarrow> pstate" where
  "new_parser sql = \<lparr>ps_rest = js_trim sql, ps_token = None\<rparr>"

definition peek :: "(pstate, string option) act" where
  "peek s = (Inr (ps_token s), s)"

text \<open>\<open>peek()?.toLowerCase()\<close>.\<close>

definition peek_lower :: "(pstate, string option) act" where
  "peek_lower s = (Inr (map_option lower_token (ps_token s)), s)"

text \<open>\<open>consume()\<close> and \<open>consume(expected)\<close>.\<close>

definition consume :: "(pstate, string) act" where
  "consume = andThen peek (\<lambda>t. andThen nextToken (\<lambda>_. returns (case t of Some x \<Rightarrow> x | None \<Rightarrow> [])))"

definition consume_word :: "string \<Rightarrow> (pstate, string) act" where
  "consume_word w = andThen peek_lower (\<lambda>t.
     if t = Some w then consume else throws (PlainError ''Expected another token''))"

definition expectIdentifier :: "(pstate, string) act" where
  "expectIdentifier = andThen peek (\<lambda>t.
     case t of
       Some x \<Rightarrow> if is_identifier x then consume else throws (PlainError ''Expected identifier'')
     | None \<Rightarrow> throws (PlainError ''Expected identifier''))"

text \<open>What is left to read: it shrinks with every token consumed.\<close>

definition unread :: "pstate \<Rightarrow> nat" where
  "unread s = length (ps_rest s) + (if ps_token s = None then 0 else 1)"

end
