(* ===== verification/Sql_Parser.thy ===== *)
theory Sql_Parser
  imports Sql_Lexer Sql_Ast
begin

text \<open>
  The recursive-descent parser of \<open>src/src/parser.ts\<close>. Loops and the recursion over clauses
  carry fuel; \<open>NO_FUEL\<close> is an error that the code does not have, and \<open>parse\<close> starts with
  enough fuel never to meet it (\<open>Sql_Parser_Total\<close>).
\<close>

definition NO_FUEL :: jserr where
  "NO_FUEL = DbError UNKNOWN_STATEMENT ''no fuel''"

definition fails :: "string \<Rightarrow> ('s, 'a) act" where
  "fails m = throws (PlainError m)"

section \<open>Lists\<close>

text \<open>
  The two loops over comma-separated items: up to a closing parenthesis, which is not
  consumed, and while a comma follows.
\<close>

fun items_until :: "(pstate, 'a) act \<Rightarrow> nat \<Rightarrow> 'a list \<Rightarrow> (pstate, 'a list) act" where
  "items_until p 0 xs = throws NO_FUEL"
| "items_until p (Suc n) xs = andThen peek (\<lambda>t.
     if t = Some '')'' then returns xs
     else andThen p (\<lambda>x. andThen peek (\<lambda>t.
       if t = Some '')'' then returns (xs @ [x])
       else andThen (consume_word '','') (\<lambda>_. andThen peek (\<lambda>t.
         if t = Some '')'' then fails ''Unexpected trailing comma'' else items_until p n (xs @ [x]))))))"

fun more_items :: "(pstate, 'a) act \<Rightarrow> nat \<Rightarrow> 'a list \<Rightarrow> (pstate, 'a list) act" where
  "more_items p 0 xs = throws NO_FUEL"
| "more_items p (Suc n) xs = andThen peek (\<lambda>t.
     if t = Some '','' then andThen consume (\<lambda>_. andThen p (\<lambda>x. more_items p n (xs @ [x]))) else returns xs)"

definition items :: "(pstate, 'a) act \<Rightarrow> nat \<Rightarrow> (pstate, 'a list) act" where
  "items p n = andThen p (\<lambda>x. more_items p n [x])"

section \<open>Values and expressions\<close>

definition parseType :: "(pstate, col_type) act" where
  "parseType = andThen peek_lower (\<lambda>t.
     case t of
       None \<Rightarrow> fails ''Unknown column type''
     | Some w \<Rightarrow>
         if w \<in> {''varchar'', ''text'', ''string''} then andThen consume (\<lambda>_. returns TString)
         else if w \<in> {''int'', ''integer'', ''number'', ''float'', ''decimal'', ''numeric''}
           then andThen consume (\<lambda>_. returns TNumber)
         else if w \<in> {''bool'', ''boolean''} then andThen consume (\<lambda>_. returns TBoolean)
         else if w = ''any'' then andThen consume (\<lambda>_. returns TAny)
         else fails ''Unknown column type'')"

definition is_quoted :: "string \<Rightarrow> bool" where
  "is_quoted t \<longleftrightarrow> 2 \<le> length t \<and> (hd t = CHR 0x27 \<and> last t = CHR 0x27 \<or> hd t = CHR 0x22 \<and> last t = CHR 0x22)"

definition parseValue :: "(pstate, json) act" where
  "parseValue = andThen peek (\<lambda>t.
     case t of
       None \<Rightarrow> fails ''Unexpected end of input''
     | Some w \<Rightarrow>
         if lower_token w = ''null'' then andThen consume (\<lambda>_. returns JNull)
         else if lower_token w = ''true'' then andThen consume (\<lambda>_. returns (JBool True))
         else if lower_token w = ''false'' then andThen consume (\<lambda>_. returns (JBool False))
         else (case numeric_literal w of
                 Some x \<Rightarrow> andThen consume (\<lambda>_.
                   case to_double x of
                     Fin y \<Rightarrow> returns (JNum y)
                   | _ \<Rightarrow> fails ''Numeric literal out of range'')
               | None \<Rightarrow>
                   if is_quoted w then andThen consume (\<lambda>_. returns (JStr (butlast (tl w))))
                   else if is_identifier w then andThen consume (\<lambda>_. returns (JStr w))
                   else fails ''Unexpected value''))"

definition parseExpression :: "(pstate, expr) act" where
  "parseExpression = andThen peek (\<lambda>t.
     case t of
       None \<Rightarrow> fails ''Unexpected end of input''
     | Some w \<Rightarrow>
         if is_identifier w \<and> lower_token w \<notin> {''null'', ''true'', ''false''}
         then andThen consume (\<lambda>_. returns (ECol w))
         else andThen parseValue (\<lambda>v. returns (ELit v)))"

definition parseInteger :: "(pstate, nat) act" where
  "parseInteger = andThen peek (\<lambda>t.
     case t of
       None \<Rightarrow> fails ''must be an integer''
     | Some w \<Rightarrow>
         (case plain_integer w of
            None \<Rightarrow> fails ''must be an integer''
          | Some i \<Rightarrow>
              (case validateNonNegativeSafeInteger (to_double (of_int i)) of
                 Inl _ \<Rightarrow> fails ''must be a non-negative safe integer''
               | Inr v \<Rightarrow> andThen consume (\<lambda>_. returns (nat \<lfloor>v\<rfloor>)))))"

section \<open>WHERE\<close>

definition cmp_ops :: "(string \<times> cmp_op) list" where
  "cmp_ops = [(''='', OpEq), (''!='', OpNe), (''>'', OpGt), (''>='', OpGe), (''<'', OpLt), (''<='', OpLe),
     (''like'', OpLike), (''in'', OpIn), (''between'', OpBetween)]"

definition parse_right :: "nat \<Rightarrow> cmp_op \<Rightarrow> (pstate, operand) act" where
  "parse_right n opr =
     (case opr of
        OpIn \<Rightarrow> andThen (consume_word ''('') (\<lambda>_. andThen (items parseExpression n) (\<lambda>es.
          andThen (consume_word '')'') (\<lambda>_. returns (Many es))))
      | OpBetween \<Rightarrow> andThen parseExpression (\<lambda>low. andThen (consume_word ''and'') (\<lambda>_.
          andThen parseExpression (\<lambda>high. returns (Many [low, high]))))
      | _ \<Rightarrow> andThen parseExpression (\<lambda>e. returns (One e)))"

definition parse_is :: "expr \<Rightarrow> (pstate, where_clause) act" where
  "parse_is e = andThen peek_lower (\<lambda>t.
     let isNotNull = (t = Some ''not'') in
     andThen (if isNotNull then andThen consume (\<lambda>_. returns ()) else returns ()) (\<lambda>_.
     andThen (consume_word ''null'') (\<lambda>_. returns (WIsNull (\<not> isNotNull) e))))"

definition parseComparisonClause :: "nat \<Rightarrow> (pstate, where_clause) act" where
  "parseComparisonClause n = andThen parseExpression (\<lambda>l. andThen peek_lower (\<lambda>t.
     if t = Some ''is'' then andThen consume (\<lambda>_. parse_is l)
     else (case t of
             None \<Rightarrow> fails ''Expected comparison operator''
           | Some w \<Rightarrow>
               (case map_of cmp_ops w of
                  None \<Rightarrow> fails ''Expected comparison operator''
                | Some opr \<Rightarrow> andThen consume (\<lambda>_. andThen (parse_right n opr) (\<lambda>r. returns (WCmp l opr r)))))))"

fun parseOrClause :: "nat \<Rightarrow> (pstate, where_clause) act"
  and or_loop :: "nat \<Rightarrow> where_clause \<Rightarrow> (pstate, where_clause) act"
  and parseAndClause :: "nat \<Rightarrow> (pstate, where_clause) act"
  and and_loop :: "nat \<Rightarrow> where_clause \<Rightarrow> (pstate, where_clause) act"
  and parseNotClause :: "nat \<Rightarrow> (pstate, where_clause) act" where
  "parseOrClause 0 = throws NO_FUEL"
| "parseOrClause (Suc n) = andThen (parseAndClause n) (or_loop n)"
| "or_loop 0 l = throws NO_FUEL"
| "or_loop (Suc n) l = andThen peek_lower (\<lambda>t.
     if t = Some ''or'' then andThen consume (\<lambda>_. andThen (parseAndClause n) (\<lambda>r. or_loop n (WOr l r)))
     else returns l)"
| "parseAndClause 0 = throws NO_FUEL"
| "parseAndClause (Suc n) = andThen (parseNotClause n) (and_loop n)"
| "and_loop 0 l = throws NO_FUEL"
| "and_loop (Suc n) l = andThen peek_lower (\<lambda>t.
     if t = Some ''and'' then andThen consume (\<lambda>_. andThen (parseNotClause n) (\<lambda>r. and_loop n (WAnd l r)))
     else returns l)"
| "parseNotClause 0 = throws NO_FUEL"
| "parseNotClause (Suc n) = andThen peek (\<lambda>t.
     if map_option lower_token t = Some ''not''
     then andThen consume (\<lambda>_. andThen (parseNotClause n) (\<lambda>c. returns (WNot c)))
     else if t = Some ''(''
     then andThen (consume_word ''('') (\<lambda>_. andThen (parseOrClause n) (\<lambda>c.
            andThen (consume_word '')'') (\<lambda>_. returns c)))
     else parseComparisonClause n)"

definition parse_where :: "nat \<Rightarrow> (pstate, where_clause option) act" where
  "parse_where n = andThen peek_lower (\<lambda>t.
     if t = Some ''where'' then andThen consume (\<lambda>_. andThen (parseOrClause n) (\<lambda>c. returns (Some c)))
     else returns None)"

section \<open>CREATE TABLE\<close>

definition parse_scale :: "col_type \<Rightarrow> nat \<Rightarrow> (pstate, unit) act" where
  "parse_scale ty precision = andThen peek (\<lambda>t.
     if t \<noteq> Some '','' then returns ()
     else if ty \<noteq> TNumber then fails ''scale requires a numeric type''
     else andThen (consume_word '','') (\<lambda>_. andThen parseInteger (\<lambda>scale.
       if scale > precision then fails ''type scale exceeds precision'' else returns ())))"

definition parse_size :: "col_type \<Rightarrow> (pstate, unit) act" where
  "parse_size ty = andThen peek (\<lambda>t.
     if t \<noteq> Some ''('' then returns ()
     else andThen (consume_word ''('') (\<lambda>_. andThen parseInteger (\<lambda>precision.
       if precision = 0 then fails ''type size must be positive''
       else andThen (parse_scale ty precision) (\<lambda>_. andThen (consume_word '')'') (\<lambda>_. returns ())))))"

text \<open>The modifiers of the column \<open>name\<close>: nullable, default, and the table's primary key.\<close>

fun parse_modifiers ::
    "nat \<Rightarrow> string \<Rightarrow> bool \<Rightarrow> json option \<Rightarrow> string option \<Rightarrow> (pstate, bool \<times> json option \<times> string option) act" where
  "parse_modifiers 0 name nullable def pk = throws NO_FUEL"
| "parse_modifiers (Suc n) name nullable def pk = andThen peek_lower (\<lambda>t.
     if t = Some ''not'' then andThen consume (\<lambda>_. andThen (consume_word ''null'') (\<lambda>_.
       parse_modifiers n name False def pk))
     else if t = Some ''null'' then andThen consume (\<lambda>_. parse_modifiers n name True def pk)
     else if t = Some ''default'' then andThen consume (\<lambda>_. andThen parseValue (\<lambda>v.
       parse_modifiers n name nullable (Some v) pk))
     else if t = Some ''primary'' then
       if pk \<noteq> None then fails ''Multiple primary key declarations are not allowed''
       else andThen consume (\<lambda>_. andThen (consume_word ''key'') (\<lambda>_.
         parse_modifiers n name nullable def (Some name)))
     else returns (nullable, def, pk))"

definition parse_key :: "string option \<Rightarrow> (pstate, string) act" where
  "parse_key pk =
     (if pk \<noteq> None then fails ''Multiple primary key declarations are not allowed''
      else andThen consume (\<lambda>_. andThen (consume_word ''key'') (\<lambda>_. andThen (consume_word ''('') (\<lambda>_.
        andThen expectIdentifier (\<lambda>k. andThen (consume_word '')'') (\<lambda>_. andThen peek (\<lambda>t.
          if t = Some '')'' then returns k
          else andThen (consume_word '','') (\<lambda>_. andThen peek (\<lambda>t.
            if t = Some '')'' then fails ''Unexpected trailing comma'' else returns k)))))))))"

text \<open>What follows an element of the list: a comma and another one, or the parenthesis.\<close>

definition element_end :: "(pstate, unit) act" where
  "element_end = andThen peek (\<lambda>t.
     if t = Some '','' then andThen consume (\<lambda>_. andThen peek (\<lambda>t.
       if t = Some '')'' then fails ''Unexpected trailing comma'' else returns ()))
     else if t \<noteq> Some '')'' then fails ''Expected a comma or a parenthesis''
     else returns ())"

definition parse_column :: "nat \<Rightarrow> column list \<Rightarrow> string option \<Rightarrow> (pstate, column \<times> string option) act" where
  "parse_column n cols pk = andThen expectIdentifier (\<lambda>name.
     if name \<in> c_name ` set cols then fails ''Duplicate column''
     else andThen parseType (\<lambda>ty. andThen (parse_size ty) (\<lambda>_.
       andThen (parse_modifiers n name True None pk) (\<lambda>(nullable, def, pk').
       andThen element_end (\<lambda>_.
       returns (\<lparr>c_name = name, c_type = ty, c_nullable = nullable, c_default = def\<rparr>, pk'))))))"

fun parse_columns :: "nat \<Rightarrow> column list \<Rightarrow> string option \<Rightarrow> (pstate, column list \<times> string option) act" where
  "parse_columns 0 cols pk = throws NO_FUEL"
| "parse_columns (Suc n) cols pk = andThen peek (\<lambda>t.
     if t = Some '')'' then returns (cols, pk)
     else if map_option lower_token t = Some ''primary''
     then andThen (parse_key pk) (\<lambda>k. parse_columns n cols (Some k))
     else andThen (parse_column n cols pk) (\<lambda>(col, pk'). parse_columns n (cols @ [col]) pk'))"

definition validateCreateTableSchema :: "column list \<Rightarrow> string option \<Rightarrow> unit outcome" where
  "validateCreateTableSchema cols pk =
     (if cols = [] then Inl (PlainError ''CREATE TABLE requires at least one column'')
      else if \<not> distinct (map c_name cols) then Inl (PlainError ''Duplicate column'')
      else (case pk of
              None \<Rightarrow> Inr ()
            | Some p \<Rightarrow> if p \<in> c_name ` set cols then Inr ()
                        else Inl (PlainError ''Primary key column does not exist'')))"

definition parseCreateTable :: "nat \<Rightarrow> (pstate, statement) act" where
  "parseCreateTable n = andThen (consume_word ''create'') (\<lambda>_. andThen (consume_word ''table'') (\<lambda>_.
     andThen expectIdentifier (\<lambda>name. andThen (consume_word ''('') (\<lambda>_.
     andThen (parse_columns n [] None) (\<lambda>(cols, pk). andThen (consume_word '')'') (\<lambda>_.
     case validateCreateTableSchema cols pk of
       Inl e \<Rightarrow> throws e
     | Inr _ \<Rightarrow> returns (SCreate name cols pk)))))))"

section \<open>The other statements\<close>

definition parse_list :: "(pstate, 'a) act \<Rightarrow> nat \<Rightarrow> (pstate, 'a list) act" where
  "parse_list p n = andThen (consume_word ''('') (\<lambda>_. andThen (items_until p n []) (\<lambda>xs.
     andThen (consume_word '')'') (\<lambda>_. returns xs)))"

definition parseInsert :: "nat \<Rightarrow> (pstate, statement) act" where
  "parseInsert n = andThen (consume_word ''insert'') (\<lambda>_. andThen (consume_word ''into'') (\<lambda>_.
     andThen expectIdentifier (\<lambda>name. andThen peek (\<lambda>t.
     andThen (if t = Some ''('' then parse_list expectIdentifier n else returns []) (\<lambda>cols.
     andThen (consume_word ''values'') (\<lambda>_. andThen (parse_list parseValue n) (\<lambda>vs.
     andThen (more_items (parse_list parseValue n) n [vs]) (\<lambda>vss. returns (SInsert name cols vss)))))))))"

definition parse_selection :: "nat \<Rightarrow> (pstate, string list option) act" where
  "parse_selection n = andThen peek (\<lambda>t.
     if t \<noteq> Some ''*'' then andThen (items expectIdentifier n) (\<lambda>cs. returns (Some cs))
     else andThen (consume_word ''*'') (\<lambda>_. returns None))"

definition parse_order :: "(pstate, (string \<times> bool) option) act" where
  "parse_order = andThen peek_lower (\<lambda>t.
     if t \<noteq> Some ''order'' then returns None
     else andThen consume (\<lambda>_. andThen (consume_word ''by'') (\<lambda>_. andThen expectIdentifier (\<lambda>c.
       andThen peek_lower (\<lambda>t.
         if t = Some ''asc'' \<or> t = Some ''desc''
         then andThen consume (\<lambda>d. returns (Some (c, lower_token d = ''desc'')))
         else returns (Some (c, False)))))))"

definition parse_count :: "string \<Rightarrow> (pstate, nat option) act" where
  "parse_count w = andThen peek_lower (\<lambda>t.
     if t = Some w then andThen consume (\<lambda>_. andThen parseInteger (\<lambda>k. returns (Some k)))
     else returns None)"

definition parseSelect :: "nat \<Rightarrow> (pstate, statement) act" where
  "parseSelect n = andThen (consume_word ''select'') (\<lambda>_. andThen (parse_selection n) (\<lambda>cols.
     andThen (consume_word ''from'') (\<lambda>_. andThen expectIdentifier (\<lambda>name.
     andThen (parse_where n) (\<lambda>w. andThen parse_order (\<lambda>order.
     andThen (parse_count ''limit'') (\<lambda>limit. andThen (parse_count ''offset'') (\<lambda>offset.
     returns (SSelect \<lparr>s_columns = cols, s_table = name, s_where = w, s_order = order,
       s_limit = limit, s_offset = offset\<rparr>)))))))))"

definition parse_set :: "(pstate, string \<times> json) act" where
  "parse_set = andThen expectIdentifier (\<lambda>c. andThen (consume_word ''='') (\<lambda>_.
     andThen parseValue (\<lambda>v. returns (c, v))))"

definition parseUpdate :: "nat \<Rightarrow> (pstate, statement) act" where
  "parseUpdate n = andThen (consume_word ''update'') (\<lambda>_. andThen expectIdentifier (\<lambda>name.
     andThen (consume_word ''set'') (\<lambda>_. andThen (items parse_set n) (\<lambda>sets.
     andThen (parse_where n) (\<lambda>w. returns (SUpdate name sets w))))))"

definition parseDelete :: "nat \<Rightarrow> (pstate, statement) act" where
  "parseDelete n = andThen (consume_word ''delete'') (\<lambda>_. andThen (consume_word ''from'') (\<lambda>_.
     andThen expectIdentifier (\<lambda>name. andThen (parse_where n) (\<lambda>w. returns (SDelete name w)))))"

definition parseDropTable :: "(pstate, statement) act" where
  "parseDropTable = andThen (consume_word ''drop'') (\<lambda>_. andThen (consume_word ''table'') (\<lambda>_.
     andThen expectIdentifier (\<lambda>name. returns (SDrop name))))"

section \<open>A whole text\<close>

definition parse_statement :: "nat \<Rightarrow> (pstate, statement) act" where
  "parse_statement n = andThen peek_lower (\<lambda>t.
     andThen (case t of
         None \<Rightarrow> fails ''Unexpected keyword''
       | Some w \<Rightarrow>
           if w = ''create'' then parseCreateTable n
           else if w = ''insert'' then parseInsert n
           else if w = ''select'' then parseSelect n
           else if w = ''update'' then parseUpdate n
           else if w = ''delete'' then parseDelete n
           else if w = ''drop'' then parseDropTable
           else fails ''Unexpected keyword'') (\<lambda>stmt.
     andThen peek (\<lambda>t. andThen (if t = Some '';'' then andThen consume (\<lambda>_. returns ()) else returns ()) (\<lambda>_.
     andThen peek (\<lambda>t. if t \<noteq> None then fails ''Unexpected trailing token'' else returns stmt)))))"

definition max_sql_bytes :: nat where
  "max_sql_bytes = 4 * 1024 * 1024"

text \<open>Three calls deep per token, and one list.\<close>

definition parse_fuel :: "string \<Rightarrow> nat" where
  "parse_fuel sql = 4 * length sql + 8"

text \<open>Every error of the parser is rethrown as a \<open>PARSE_ERROR\<close>; a \<open>DatabaseError\<close> passes.\<close>

definition parse_wrap :: "jserr \<Rightarrow> jserr" where
  "parse_wrap e = (case e of PlainError m \<Rightarrow> DbError PARSE_ERROR m | DbError _ _ \<Rightarrow> e)"

definition parse_sql :: "string \<Rightarrow> statement outcome" where
  "parse_sql sql =
     map_sum parse_wrap id
       (if length sql > max_sql_bytes then Inl (PlainError ''SQL must be a string no larger than 4 MiB'')
        else fst (andThen nextToken (\<lambda>_. parse_statement (parse_fuel sql)) (new_parser sql)))"

end
