(* ===== verification/Sql_Parser_Total.thy ===== *)
theory Sql_Parser_Total
  imports Sql_Parser
begin

text \<open>
  Every parse ends: with its fuel the parser never runs out of it, so that the only error of
  \<open>parse_sql\<close> is a \<open>PARSE_ERROR\<close>; and a statement it returns has the shape the executor relies on.
\<close>

section \<open>Reading forward\<close>

text \<open>
  \<open>reads d Q m s\<close>: from the state \<open>s\<close> the action \<open>m\<close> throws an error of the code, or consumes at
  least \<open>d\<close> of what is unread and returns a value with \<open>Q\<close>.
\<close>

definition reads :: "nat \<Rightarrow> ('a \<Rightarrow> bool) \<Rightarrow> (pstate, 'a) act \<Rightarrow> pstate \<Rightarrow> bool" where
  "reads d Q m s =
     (case m s of
        (Inl e, _) \<Rightarrow> (\<exists>t. e = PlainError t)
      | (Inr a, s') \<Rightarrow> unread s' + d \<le> unread s \<and> Q a)"

lemma reads_returns: "Q a \<Longrightarrow> reads 0 Q (returns a) s"
  and reads_fails: "reads d Q (fails t) s"
  by (simp_all add: reads_def fails_def)

lemma reads_throws: "reads d Q (throws (PlainError t)) s"
  by (simp add: reads_def)

lemma reads_andThen:
  assumes "reads d P m s" "\<And>a s'. P a \<Longrightarrow> unread s' + d \<le> unread s \<Longrightarrow> reads d' Q (f a) s'" "d'' \<le> d + d'"
  shows "reads d'' Q (andThen m f) s"
proof (cases "m s")
  case (Pair r s')
  show ?thesis
  proof (cases r)
    case (Inr a)
    with Pair assms(1) have "P a" "unread s' + d \<le> unread s" by (auto simp: reads_def)
    with assms(2) [of a s'] have "reads d' Q (f a) s'" "unread s' + d \<le> unread s" by auto
    with assms(3) Pair Inr show ?thesis by (auto simp: reads_def andThen_def split: sum.splits prod.splits)
  qed (use Pair assms(1) in \<open>simp add: reads_def andThen_def\<close>)
qed

lemma reads_mono: "reads d Q m s \<Longrightarrow> d' \<le> d \<Longrightarrow> (\<And>a. Q a \<Longrightarrow> P a) \<Longrightarrow> reads d' P m s"
  by (auto simp: reads_def split: sum.splits prod.splits)

lemma reads_less: "reads d Q m s \<Longrightarrow> d' \<le> d \<Longrightarrow> reads d' Q m s"
  by (rule reads_mono)

text \<open>A look at the token: the rest of the parse knows it.\<close>

lemma reads_peek: "reads d Q (f (ps_token s)) s \<Longrightarrow> reads d Q (andThen peek f) s"
  and reads_peek_lower: "reads d Q (f (map_option lower_token (ps_token s))) s \<Longrightarrow> reads d Q (andThen peek_lower f) s"
  by (simp_all add: reads_def peek_def peek_lower_def andThen_def)

section \<open>Tokens\<close>

lemma quoted_plain: "quoted q s = Inl e \<Longrightarrow> \<exists>t. e = PlainError t"
  by (induction q s arbitrary: e rule: quoted.induct)
    (auto simp: UNTERMINATED_def chain_def split: if_splits option.splits sum.splits list.splits)

lemma quoted_shrinks: "quoted q s = Inr (t, r) \<Longrightarrow> length r < length s"
proof (induction q s arbitrary: t r rule: quoted.induct)
  case (2 q c s)
  show ?case
  proof (cases "c = q")
    case True
    with 2 show ?thesis by (fastforce simp: chain_Inr split: list.splits if_splits)
  next
    case ne: False
    show ?thesis
    proof (cases "c = CHR 0x5C")
      case True
      with 2 ne show ?thesis by (fastforce simp: chain_Inr split: list.splits option.splits)
    qed (use 2 ne in \<open>fastforce simp: chain_Inr\<close>)
  qed
qed simp

lemma strip_word_shrinks: "strip_word w s = Some r \<Longrightarrow> length r + length w \<le> length s"
proof (induction w s arbitrary: r rule: strip_word.induct)
  case (3 p ps c s)
  show ?case
  proof (cases "lower_char c = p")
    case True
    with 3 show ?thesis by auto
  next
    case False
    with 3(3) have "strip_word ps (drop 2 s) = Some r" "p = CHR ''k'' \<and> c = CHR 0xE2 \<and> take 2 s = [CHR 0x84, CHR 0xAA]"
      by (auto split: if_splits)
    with 3(2) [OF False] show ?thesis by fastforce
  qed
qed auto

lemma first_word_shrinks:
  "first_word ws s = Some (w, r) \<Longrightarrow> w \<in> set ws \<and> length r + length w \<le> length s"
  by (induction ws) (auto dest: strip_word_shrinks split: option.splits if_splits)

lemma dropWhile_less: "starts_with p s \<Longrightarrow> (\<And>c. p c \<Longrightarrow> q c) \<Longrightarrow> length (dropWhile q s) < length s"
  using length_dropWhile_le [of q "tl s"] by (cases s) (auto simp: starts_with_def less_Suc_eq_le)

lemma lex_number_reads:
  "numeric_start s \<Longrightarrow> lex_number s = Inr (t, r) \<Longrightarrow> length r < length s"
  using dropWhile_less [of numeric_char s numeric_char]
  by (auto simp: lex_number_def Let_def numeric_start_def numeric_char_def starts_with_def split: if_splits list.splits)

lemma lex_other_reads: "lex_other s = Inr (t, r) \<Longrightarrow> s \<noteq> [] \<Longrightarrow> length r < length s"
proof -
  assume l: "lex_other s = Inr (t, r)" and ne: "s \<noteq> []"
  show "length r < length s"
  proof (cases "find (\<lambda>p. take (length p) s = p) symbolOps")
    case (Some p)
    then have "p \<in> set symbolOps" by (auto simp: find_Some_iff)
    then have "0 < length p" by (auto simp: symbolOps_def)
    with l Some ne show ?thesis by (auto simp: lex_other_def)
  next
    case None
    show ?thesis
    proof (cases "first_word wordOps s")
      case w: None
      with l None have "starts_with ident_start s" "r = dropWhile ident_char s"
        by (auto simp: lex_other_def split: if_splits)
      then show ?thesis using dropWhile_less [of ident_start s ident_char] by (simp add: ident_char_def)
    next
      case (Some wr)
      with l None have "first_word wordOps s = Some (t, r)" by (auto simp: lex_other_def split: prod.splits)
      from first_word_shrinks [OF this] have "t \<in> set wordOps" "length r + length t \<le> length s" by auto
      moreover from this(1) have "0 < length t" by (auto simp: wordOps_def)
      ultimately show ?thesis by linarith
    qed
  qed
qed

lemma lex_plain: "lex s = Inl e \<Longrightarrow> \<exists>t. e = PlainError t"
  by (auto simp: lex_def lex_number_def lex_other_def chain_def Let_def dest: quoted_plain
      split: list.splits if_splits sum.splits option.splits prod.splits)

lemma lex_shrinks:
  assumes "lex s = Inr (Some (t, r))"
  shows "length r < length s"
proof -
  obtain c s1 where d: "drop_space s = c # s1"
    using assms by (cases "drop_space s") (auto simp: lex_def)
  have "length r < length (c # s1)"
  proof (cases "c = CHR 0x27 \<or> c = CHR 0x22")
    case True
    with assms d obtain t' where "quoted c s1 = Inr (t', r)" by (auto simp: lex_def chain_Inr split: if_splits)
    from quoted_shrinks [OF this] show ?thesis by simp
  next
    case False
    with assms d have "numeric_start (c # s1) \<and> lex_number (c # s1) = Inr (t, r) \<or> lex_other (c # s1) = Inr (t, r)"
      by (auto simp: lex_def chain_Inr split: if_splits)
    with lex_number_reads [of "c # s1"] lex_other_reads [of "c # s1"] show ?thesis by blast
  qed
  with length_drop_space [of s] d show ?thesis by simp
qed

lemma nextToken_reads: "reads 0 (\<lambda>_. True) nextToken s" "ps_token s \<noteq> None \<Longrightarrow> reads 1 (\<lambda>_. True) nextToken s"
  by (auto simp: reads_def nextToken_def unread_def dest: lex_plain lex_shrinks split: sum.splits option.splits)

lemma consume_reads: "ps_token s \<noteq> None \<Longrightarrow> reads 1 (\<lambda>t. Some t = ps_token s) consume s"
  unfolding consume_def
  by (rule reads_peek, rule reads_andThen [OF nextToken_reads(2), where d' = 0]) (auto intro: reads_returns)

lemma consume_any: "ps_token s \<noteq> None \<Longrightarrow> reads 1 (\<lambda>_. True) consume s"
  by (rule reads_mono [OF consume_reads]) auto

lemma consume_some: "ps_token s = Some t \<Longrightarrow> reads (Suc 0) (\<lambda>_. True) consume s"
  using consume_any [of s] by simp

lemma consume_word_reads: "reads 1 (\<lambda>_. True) (consume_word w) s"
  unfolding consume_word_def by (rule reads_peek_lower) (auto intro: reads_throws consume_some)

lemma expectIdentifier_reads: "reads 1 (\<lambda>_. True) expectIdentifier s"
  unfolding expectIdentifier_def by (rule reads_peek) (auto intro: reads_throws consume_some split: option.splits)

lemma consume_then:
  "ps_token s \<noteq> None \<Longrightarrow> (\<And>a s'. unread s' + 1 \<le> unread s \<Longrightarrow> reads d' Q (f a) s') \<Longrightarrow> d'' \<le> 1 + d' \<Longrightarrow>
     reads d'' Q (andThen consume f) s"
  by (rule reads_andThen [OF consume_any]) auto

section \<open>Values\<close>

lemma parseType_reads: "reads 1 (\<lambda>_. True) parseType s"
  unfolding parseType_def
  by (rule reads_peek_lower)
    (auto intro!: consume_then [where d' = 0] intro: reads_fails reads_returns split: option.splits)

definition scalar :: "json \<Rightarrow> bool" where
  "scalar v \<longleftrightarrow> (case v of JArr _ \<Rightarrow> False | JObj _ \<Rightarrow> False | _ \<Rightarrow> True)"

lemma scalar_wf: "scalar v \<Longrightarrow> json_wf v"
  by (cases v) (simp_all add: scalar_def)

lemma parseValue_reads: "reads 1 scalar parseValue s"
  unfolding parseValue_def
  by (rule reads_peek)
    (auto intro!: consume_then [where d' = 0] intro: reads_fails reads_returns simp: scalar_def
      split: option.splits jsnum.splits)

lemma parseExpression_reads: "reads 1 (\<lambda>_. True) parseExpression s"
  unfolding parseExpression_def
  by (rule reads_peek)
    (auto intro!: consume_then [where d' = 0] reads_andThen [OF parseValue_reads, where d' = 0]
      intro: reads_fails reads_returns split: option.splits)

lemma parseInteger_reads: "reads 1 (\<lambda>_. True) parseInteger s"
  unfolding parseInteger_def
  by (rule reads_peek)
    (auto intro!: consume_then [where d' = 0] intro: reads_fails reads_returns split: option.splits sum.splits)

section \<open>Lists\<close>

lemma items_until_reads:
  assumes "\<And>s'. unread s' \<le> unread s \<Longrightarrow> reads 1 P p s'" "list_all P xs" "unread s < n"
  shows "reads 0 (list_all P) (items_until p n xs) s"
  using assms
proof (induction n arbitrary: s xs)
  case (Suc n)
  have step: "reads 0 (list_all P) (andThen (consume_word '','') (\<lambda>_. andThen peek (\<lambda>t.
      if t = Some '')'' then fails ''Unexpected trailing comma'' else items_until p n (xs @ [x])))) s'"
    if "P x" "unread s' + 1 \<le> unread s" for x s'
    by (rule reads_andThen [OF consume_word_reads, where d' = 0])
      (use Suc that in \<open>auto intro!: reads_peek reads_fails Suc.IH\<close>)
  show ?case
    unfolding items_until.simps
    by (rule reads_peek)
      (use Suc.prems step in \<open>auto intro!: reads_returns reads_andThen [OF Suc.prems(1), where d' = 0] reads_peek\<close>)
qed simp

lemma more_items_reads:
  assumes "\<And>s'. unread s' \<le> unread s \<Longrightarrow> reads 1 P p s'" "list_all P xs" "unread s < n"
  shows "reads 0 (list_all P) (more_items p n xs) s"
  using assms
proof (induction n arbitrary: s xs)
  case (Suc n)
  have step: "reads 0 (list_all P) (andThen p (\<lambda>x. more_items p n (xs @ [x]))) s'"
    if "unread s' + 1 \<le> unread s" for s'
    by (rule reads_andThen [OF Suc.prems(1), where d' = 0]) (use Suc that in \<open>auto intro!: Suc.IH\<close>)
  show ?case
    unfolding more_items.simps
    by (rule reads_peek) (use Suc.prems step in \<open>auto intro!: reads_returns consume_then [where d' = 0]\<close>)
qed simp

lemma items_reads:
  assumes "\<And>s'. unread s' \<le> unread s \<Longrightarrow> reads 1 P p s'" "unread s < n"
  shows "reads 1 (list_all P) (items p n) s"
  unfolding items_def
  by (rule reads_andThen [OF assms(1), where d' = 0]) (use assms in \<open>auto intro!: more_items_reads\<close>)

section \<open>WHERE\<close>

lemma reads_word:
  "(\<And>a s'. unread s' + 1 \<le> unread s \<Longrightarrow> reads d' Q (f a) s') \<Longrightarrow> d'' \<le> 1 + d' \<Longrightarrow>
     reads d'' Q (andThen (consume_word w) f) s"
  by (rule reads_andThen [OF consume_word_reads]) auto

lemma reads_expression:
  "(\<And>a s'. unread s' + 1 \<le> unread s \<Longrightarrow> reads d' Q (f a) s') \<Longrightarrow> d'' \<le> 1 + d' \<Longrightarrow>
     reads d'' Q (andThen parseExpression f) s"
  by (rule reads_andThen [OF parseExpression_reads]) auto

lemma parse_right_reads:
  assumes "unread s < n"
  shows "reads 1 (\<lambda>_. True) (parse_right n opr) s"
proof -
  have one: "reads 1 (\<lambda>_. True) (andThen parseExpression (\<lambda>e. returns (One e))) s"
    by (rule reads_expression [where d' = 0]) (auto intro: reads_returns)
  have list: "reads 1 (\<lambda>_. True) (andThen (consume_word ''('') (\<lambda>_. andThen (items parseExpression n) (\<lambda>es.
          andThen (consume_word '')'') (\<lambda>_. returns (Many es))))) s"
    by (rule reads_word [where d' = 0], rule reads_andThen [OF items_reads, where P1 = "\<lambda>_. True" and d' = 0])
      (use assms in \<open>auto intro!: parseExpression_reads [unfolded One_nat_def] reads_word [where d' = 0] reads_returns\<close>)
  have two: "reads 1 (\<lambda>_. True) (andThen parseExpression (\<lambda>low. andThen (consume_word ''and'') (\<lambda>_.
          andThen parseExpression (\<lambda>high. returns (Many [low, high]))))) s"
    by (rule reads_expression [where d' = 0])
      (auto intro!: reads_expression [where d' = 0] reads_word [where d' = 0] reads_returns)
  show ?thesis unfolding parse_right_def using one list two by (auto split: cmp_op.splits)
qed

lemma parse_is_reads: "reads 1 (\<lambda>_. True) (parse_is e) s"
proof -
  have "reads 0 (\<lambda>_. True) (if yes then andThen consume (\<lambda>_. returns ()) else returns ()) s"
    if "yes \<Longrightarrow> ps_token s \<noteq> None" for yes
    using that by (auto intro!: consume_then [where d' = 0] reads_returns)
  then show ?thesis
    unfolding parse_is_def Let_def
    by (intro reads_peek_lower, rule reads_andThen [where d' = 1])
      (auto intro!: reads_word [where d' = 0] reads_returns)
qed

lemma parseComparisonClause_reads:
  assumes "unread s < n"
  shows "reads 1 (\<lambda>_. True) (parseComparisonClause n) s"
proof -
  have tail: "reads 0 (\<lambda>_. True) (andThen (parse_right n opr) (\<lambda>r. returns (WCmp l opr r))) s'"
    if "unread s' < n" for l opr s'
    by (rule reads_andThen [OF parse_right_reads, where d' = 0]) (use that in \<open>auto intro: reads_returns\<close>)
  show ?thesis
    unfolding parseComparisonClause_def
    by (rule reads_expression [where d' = 0], rule reads_peek_lower)
      (use assms in \<open>auto intro!: consume_then [where d' = 0] reads_fails tail reads_less [OF parse_is_reads]
        split: option.splits\<close>)
qed

text \<open>Three calls for every token: the fuel that the recursion over clauses needs.\<close>

lemma clauses_read:
  "3 * unread s + 4 \<le> n \<Longrightarrow> reads 1 (\<lambda>_. True) (parseOrClause n) s"
  "3 * unread s + 1 \<le> n \<Longrightarrow> reads 0 (\<lambda>_. True) (or_loop n l) s"
  "3 * unread s + 3 \<le> n \<Longrightarrow> reads 1 (\<lambda>_. True) (parseAndClause n) s"
  "3 * unread s + 1 \<le> n \<Longrightarrow> reads 0 (\<lambda>_. True) (and_loop n l) s"
  "3 * unread s + 2 \<le> n \<Longrightarrow> reads 1 (\<lambda>_. True) (parseNotClause n) s"
proof (induction n arbitrary: s l)
  case (Suc n)
  { case 1
    show ?case unfolding parseOrClause.simps
      by (rule reads_andThen [OF Suc.IH(3), where d' = 0]) (use 1 in \<open>auto intro!: Suc.IH(2)\<close>)
  next
    case 2
    have "reads 0 (\<lambda>_. True) (andThen (parseAndClause n) (\<lambda>r. or_loop n (WOr l r))) s'"
      if "unread s' + 1 \<le> unread s" for s'
      by (rule reads_andThen [OF Suc.IH(3), where d' = 0]) (use 2 that in \<open>auto intro!: Suc.IH(2)\<close>)
    then show ?case unfolding or_loop.simps
      by (intro reads_peek_lower) (auto intro!: consume_then [where d' = 0] reads_returns)
  next
    case 3
    show ?case unfolding parseAndClause.simps
      by (rule reads_andThen [OF Suc.IH(5), where d' = 0]) (use 3 in \<open>auto intro!: Suc.IH(4)\<close>)
  next
    case 4
    have "reads 0 (\<lambda>_. True) (andThen (parseNotClause n) (\<lambda>r. and_loop n (WAnd l r))) s'"
      if "unread s' + 1 \<le> unread s" for s'
      by (rule reads_andThen [OF Suc.IH(5), where d' = 0]) (use 4 that in \<open>auto intro!: Suc.IH(4)\<close>)
    then show ?case unfolding and_loop.simps
      by (intro reads_peek_lower) (auto intro!: consume_then [where d' = 0] reads_returns)
  next
    case 5
    have neg: "reads 0 (\<lambda>_. True) (andThen (parseNotClause n) (\<lambda>c. returns (WNot c))) s'"
      if "unread s' + 1 \<le> unread s" for s'
      by (rule reads_andThen [OF Suc.IH(5), where d' = 0]) (use 5 that in \<open>auto intro!: reads_returns\<close>)
    have par: "reads 0 (\<lambda>_. True) (andThen (parseOrClause n) (\<lambda>c. andThen (consume_word '')'') (\<lambda>_. returns c))) s'"
      if "unread s' + 1 \<le> unread s" for s'
      by (rule reads_andThen [OF Suc.IH(1), where d' = 0])
        (use 5 that in \<open>auto intro!: reads_word [where d' = 0] reads_returns\<close>)
    show ?case unfolding parseNotClause.simps
      using 5 neg par parseComparisonClause_reads [of s n]
      by (intro reads_peek) (auto intro!: consume_then [where d' = 0] reads_word [where d' = 0])
  }
qed auto

lemma parse_where_reads:
  "3 * unread s + 4 \<le> n \<Longrightarrow> reads 0 (\<lambda>_. True) (parse_where n) s"
proof -
  assume n: "3 * unread s + 4 \<le> n"
  have "reads 0 (\<lambda>_. True) (andThen (parseOrClause n) (\<lambda>c. returns (Some c))) s'" if "unread s' + 1 \<le> unread s" for s'
    by (rule reads_andThen [OF clauses_read(1), where d' = 0]) (use n that in \<open>auto intro: reads_returns\<close>)
  then show ?thesis unfolding parse_where_def
    by (intro reads_peek_lower) (auto intro!: consume_then [where d' = 0] reads_returns)
qed

section \<open>CREATE TABLE\<close>

lemma reads_ident:
  "(\<And>a s'. unread s' + 1 \<le> unread s \<Longrightarrow> reads d' Q (f a) s') \<Longrightarrow> d'' \<le> 1 + d' \<Longrightarrow>
     reads d'' Q (andThen expectIdentifier f) s"
  by (rule reads_andThen [OF expectIdentifier_reads]) auto

lemma reads_integer:
  "(\<And>a s'. unread s' + 1 \<le> unread s \<Longrightarrow> reads d' Q (f a) s') \<Longrightarrow> d'' \<le> 1 + d' \<Longrightarrow>
     reads d'' Q (andThen parseInteger f) s"
  by (rule reads_andThen [OF parseInteger_reads]) auto

lemma parse_scale_reads: "reads 0 (\<lambda>_. True) (parse_scale ty precision) s"
  unfolding parse_scale_def
  by (rule reads_peek)
    (auto intro!: reads_word [where d' = 0] reads_integer [where d' = 0] reads_returns reads_fails)

lemma parse_size_reads: "reads 0 (\<lambda>_. True) (parse_size ty) s"
  unfolding parse_size_def
  by (rule reads_peek)
    (auto intro!: reads_word [where d' = 0] reads_integer [where d' = 0] reads_returns reads_fails
      reads_andThen [OF parse_scale_reads, where d' = 0])

lemma parse_modifiers_reads:
  assumes "unread s < n" "\<forall>v. def = Some v \<longrightarrow> scalar v"
  shows "reads 0 (\<lambda>(_, def, _). \<forall>v. def = Some v \<longrightarrow> scalar v) (parse_modifiers n name nullable def pk) s"
  using assms
proof (induction n arbitrary: s nullable def pk)
  case (Suc n)
  show ?case unfolding parse_modifiers.simps
    by (rule reads_peek_lower)
      (use Suc.prems in \<open>auto intro!: consume_then [where d' = 0] reads_word [where d' = 0] reads_returns reads_fails
        reads_andThen [OF parseValue_reads, where d' = 0] Suc.IH\<close>)
qed simp

lemma parse_key_reads: "ps_token s \<noteq> None \<Longrightarrow> reads 1 (\<lambda>_. True) (parse_key pk) s"
  unfolding parse_key_def
  by (auto intro!: consume_then [where d' = 0] reads_word [where d' = 0] reads_ident [where d' = 0] reads_peek
      reads_returns reads_fails)

lemma element_end_reads: "reads 0 (\<lambda>_. True) element_end s"
  unfolding element_end_def
  by (rule reads_peek) (auto intro!: consume_then [where d' = 0] reads_peek reads_returns reads_fails)

lemma parse_column_reads:
  assumes "unread s < n"
  shows "reads 1 (\<lambda>(d, _). c_name d \<notin> c_name ` set cols \<and> (\<forall>v. c_default d = Some v \<longrightarrow> scalar v))
    (parse_column n cols pk) s"
  unfolding parse_column_def
  by (rule reads_ident [where d' = 0])
    (use assms in \<open>auto intro!: reads_fails reads_andThen [OF parseType_reads, where d' = 0]
      reads_andThen [OF parse_size_reads, where d' = 0] reads_andThen [OF parse_modifiers_reads, where d' = 0]
      reads_andThen [OF element_end_reads, where d' = 0] reads_returns\<close>)

definition columns_ok :: "column list \<Rightarrow> bool" where
  "columns_ok cols \<longleftrightarrow> distinct (map c_name cols) \<and> (\<forall>d \<in> set cols. \<forall>v. c_default d = Some v \<longrightarrow> scalar v)"

lemma columns_ok_snoc:
  "columns_ok (cols @ [d]) \<longleftrightarrow> columns_ok cols \<and> c_name d \<notin> c_name ` set cols \<and> (\<forall>v. c_default d = Some v \<longrightarrow> scalar v)"
  by (auto simp: columns_ok_def)

lemma parse_columns_reads:
  assumes "unread s + 1 < n" "columns_ok cols"
  shows "reads 0 (\<lambda>(cols, _). columns_ok cols) (parse_columns n cols pk) s"
  using assms
proof (induction n arbitrary: s cols pk)
  case (Suc n)
  have col: "reads 0 (\<lambda>(cols, _). columns_ok cols)
      (andThen (parse_column n cols pk) (\<lambda>(col, pk'). parse_columns n (cols @ [col]) pk')) s"
    by (rule reads_andThen [OF parse_column_reads, where d' = 0])
      (use Suc.prems in \<open>auto intro!: Suc.IH simp: columns_ok_snoc\<close>)
  have key: "reads 0 (\<lambda>(cols, _). columns_ok cols) (andThen (parse_key pk) (\<lambda>k. parse_columns n cols (Some k))) s"
    if "ps_token s \<noteq> None"
    by (rule reads_andThen [OF parse_key_reads [OF that], where d' = 0]) (use Suc.prems in \<open>auto intro!: Suc.IH\<close>)
  show ?case unfolding parse_columns.simps
    using col key Suc.prems by (intro reads_peek) (auto intro!: reads_returns)
qed simp

lemma parseCreateTable_reads:
  assumes "unread s + 1 < n"
  shows "reads 1 stmt_ok (parseCreateTable n) s"
proof -
  have schema: "reads 0 stmt_ok (case validateCreateTableSchema cols pk of
       Inl e \<Rightarrow> throws e | Inr _ \<Rightarrow> returns (SCreate name cols pk)) s'" if "columns_ok cols" for cols pk name s'
    using that scalar_wf
    by (auto simp: validateCreateTableSchema_def stmt_ok_def columns_ok_def split: option.splits if_splits
        intro!: reads_throws reads_returns)
  show ?thesis unfolding parseCreateTable_def
    by (rule reads_word [where d' = 0])
      (use assms in \<open>auto intro!: reads_word [where d' = 0] reads_ident [where d' = 0]
        reads_andThen [OF parse_columns_reads, where d' = 0] schema simp: columns_ok_def [of "[]"]\<close>)
qed

section \<open>The other statements\<close>

lemma parse_list_reads:
  assumes "\<And>s'. unread s' \<le> unread s \<Longrightarrow> reads 1 P p s'" "unread s < n"
  shows "reads 1 (list_all P) (parse_list p n) s"
  unfolding parse_list_def
  by (rule reads_word [where d' = 0], rule reads_andThen [OF items_until_reads, where d' = 0])
    (use assms in \<open>auto intro!: reads_word [where d' = 0] reads_returns\<close>)

lemma parseInsert_reads:
  assumes "unread s < n"
  shows "reads 1 stmt_ok (parseInsert n) s"
proof -
  have vs: "reads 1 (list_all scalar) (parse_list parseValue n) s'" if "unread s' < n" for s'
    using that by (intro parse_list_reads parseValue_reads)
  have rows: "reads 0 stmt_ok (andThen (consume_word ''values'') (\<lambda>_. andThen (parse_list parseValue n) (\<lambda>vs.
     andThen (more_items (parse_list parseValue n) n [vs]) (\<lambda>vss. returns (SInsert name cols vss))))) s'"
    if "unread s' < n" for name cols s'
    by (rule reads_word [where d' = 0], rule reads_andThen [OF vs, where d' = 0],
        use that in simp, rule reads_andThen [OF more_items_reads, where d' = 0, OF vs])
      (use that scalar_wf in \<open>auto simp: stmt_ok_def list_all_iff intro!: reads_returns\<close>)
  have cols: "reads 0 (\<lambda>_. True) (if yes then parse_list expectIdentifier n else returns []) s'" if "unread s' < n" for yes s'
    using that reads_mono [OF parse_list_reads [where P = "\<lambda>_. True", OF expectIdentifier_reads], of s' n 0]
    by (auto intro: reads_returns)
  show ?thesis unfolding parseInsert_def
    by (rule reads_word [where d' = 0], rule reads_word [where d' = 0], rule reads_ident [where d' = 0], rule reads_peek,
        rule reads_andThen [OF cols rows]) (use assms in auto)
qed

lemma parse_selection_reads:
  assumes "unread s < n"
  shows "reads 1 (\<lambda>_. True) (parse_selection n) s"
  unfolding parse_selection_def
  by (rule reads_peek)
    (use assms in \<open>auto intro!: reads_word [where d' = 0] reads_returns
      reads_andThen [OF items_reads [where P = "\<lambda>_. True", OF expectIdentifier_reads], where d' = 0]\<close>)

lemma parse_order_reads: "reads 0 (\<lambda>_. True) parse_order s"
  unfolding parse_order_def
  by (rule reads_peek_lower)
    (auto intro!: consume_then [where d' = 0] reads_word [where d' = 0] reads_ident [where d' = 0] reads_peek_lower
      reads_returns)

lemma parse_count_reads: "reads 0 (\<lambda>_. True) (parse_count w) s"
  unfolding parse_count_def
  by (rule reads_peek_lower) (auto intro!: consume_then [where d' = 0] reads_integer [where d' = 0] reads_returns)

lemma stmt_ok_other [simp]: "stmt_ok (SSelect q)" "stmt_ok (SDelete n w)" "stmt_ok (SDrop n)"
  by (simp_all add: stmt_ok_def)

lemma parseSelect_reads:
  assumes "3 * unread s + 4 \<le> n"
  shows "reads 1 stmt_ok (parseSelect n) s"
  unfolding parseSelect_def
  by (rule reads_word [where d' = 0])
    (use assms in \<open>auto intro!: reads_andThen [OF parse_selection_reads, where d' = 0] reads_word [where d' = 0]
      reads_ident [where d' = 0] reads_andThen [OF parse_where_reads, where d' = 0]
      reads_andThen [OF parse_order_reads, where d' = 0] reads_andThen [OF parse_count_reads, where d' = 0]
      reads_returns\<close>)

lemma parse_set_reads: "reads 1 (scalar \<circ> snd) parse_set s"
  unfolding parse_set_def
  by (rule reads_ident [where d' = 0])
    (auto intro!: reads_word [where d' = 0] reads_andThen [OF parseValue_reads, where d' = 0] reads_returns)

lemma parseUpdate_reads:
  assumes "3 * unread s + 4 \<le> n"
  shows "reads 1 stmt_ok (parseUpdate n) s"
proof -
  have sets: "reads 0 stmt_ok (andThen (items parse_set n) (\<lambda>sets.
     andThen (parse_where n) (\<lambda>w. returns (SUpdate name sets w)))) s'" if "3 * unread s' + 4 \<le> n" for name s'
    by (rule reads_andThen [OF items_reads [OF parse_set_reads], where d' = 0], use that in simp,
        rule reads_andThen [OF parse_where_reads, where d' = 0])
      (use that scalar_wf in \<open>auto simp: stmt_ok_def list_all_iff intro!: reads_returns\<close>)
  show ?thesis unfolding parseUpdate_def
    by (rule reads_word [where d' = 0])
      (use assms in \<open>auto intro!: reads_word [where d' = 0] reads_ident [where d' = 0] sets\<close>)
qed

lemma parseDelete_reads:
  assumes "3 * unread s + 4 \<le> n"
  shows "reads 1 stmt_ok (parseDelete n) s"
  unfolding parseDelete_def
  by (rule reads_word [where d' = 0])
    (use assms in \<open>auto intro!: reads_word [where d' = 0] reads_ident [where d' = 0]
      reads_andThen [OF parse_where_reads, where d' = 0] reads_returns\<close>)

lemma parseDropTable_reads: "reads 1 stmt_ok parseDropTable s"
  unfolding parseDropTable_def
  by (rule reads_word [where d' = 0])
    (auto intro!: reads_word [where d' = 0] reads_ident [where d' = 0] reads_returns)

section \<open>A whole text\<close>

lemma parse_statement_reads:
  assumes "3 * unread s + 4 \<le> n"
  shows "reads 1 stmt_ok (parse_statement n) s"
proof -
  have tail: "reads 0 stmt_ok (andThen peek (\<lambda>t. andThen (if t = Some '';'' then andThen consume (\<lambda>_. returns ()) else returns ()) (\<lambda>_.
     andThen peek (\<lambda>t. if t \<noteq> None then fails ''Unexpected trailing token'' else returns stmt)))) s'"
    if "stmt_ok stmt" for stmt s'
    by (rule reads_peek, rule reads_andThen [where d = 0 and P = "\<lambda>_. True" and d' = 0])
      (use that in \<open>auto intro!: consume_then [where d' = 0] reads_peek reads_returns reads_fails\<close>)
  have body: "reads 1 stmt_ok (case t of
         None \<Rightarrow> fails ''Unexpected keyword''
       | Some w \<Rightarrow>
           if w = ''create'' then parseCreateTable n
           else if w = ''insert'' then parseInsert n
           else if w = ''select'' then parseSelect n
           else if w = ''update'' then parseUpdate n
           else if w = ''delete'' then parseDelete n
           else if w = ''drop'' then parseDropTable
           else fails ''Unexpected keyword'') s" for t
    using assms parseCreateTable_reads [of s n] parseInsert_reads [of s n] parseSelect_reads [of s n]
      parseUpdate_reads [of s n] parseDelete_reads [of s n] parseDropTable_reads [of s]
    by (auto intro: reads_fails split: option.splits)
  show ?thesis unfolding parse_statement_def
    by (rule reads_peek_lower, rule reads_andThen [OF body, where d' = 0], rule tail, assumption, simp)
qed

theorem parse_sql_total:
  "case parse_sql sql of Inl e \<Rightarrow> (\<exists>m. e = DbError PARSE_ERROR m) | Inr stmt \<Rightarrow> stmt_ok stmt"
proof (cases "length sql > max_sql_bytes")
  case False
  let ?s = "new_parser sql"
  have u: "unread ?s \<le> length sql"
    using length_js_trim [of sql] by (simp add: unread_def new_parser_def)
  have "reads 0 stmt_ok (andThen nextToken (\<lambda>_. parse_statement (parse_fuel sql))) ?s"
    by (rule reads_andThen [OF nextToken_reads(1), where d' = 0])
      (use u in \<open>auto intro!: reads_less [OF parse_statement_reads] simp: parse_fuel_def\<close>)
  with False show ?thesis
    by (cases "fst (andThen nextToken (\<lambda>_. parse_statement (parse_fuel sql)) ?s)")
      (auto simp: parse_sql_def reads_def parse_wrap_def split: prod.splits)
qed (simp add: parse_sql_def parse_wrap_def)

end
