(* ===== verification/Sql_Db.thy ===== *)
theory Sql_Db
  imports Sql_System Sql_Parser_Total
begin

text \<open>
  The public interface of \<open>Executor\<close> in \<open>src/src/executor.ts\<close>: the constructor, the cache of
  prepared statements, \<open>execute\<close> with its slow log, \<open>explain\<close>, \<open>profile\<close>, the schema queries and
  \<open>reset\<close>. The readings of the clock are arguments. The reachable states and their invariant
  follow.
\<close>

section \<open>Construction\<close>

record sql_options =
  so_indexColumns :: "string list option"
  so_maxRows :: "jsnum option"
  so_maxBytes :: "jsnum option"
  so_maxResultRows :: "jsnum option"
  so_maxResultBytes :: "jsnum option"
  so_maxTables :: "jsnum option"

fun check_index_columns :: "string list \<Rightarrow> string list \<Rightarrow> string list outcome" where
  "check_index_columns seen [] = Inr (rev seen)"
| "check_index_columns seen (c # cs) =
     (if \<not> is_identifier c then Inl (PlainError ''invalid index column'')
      else if c \<in> set seen then Inl (PlainError ''duplicate index column'')
      else check_index_columns (c # seen) cs)"

definition limit_or :: "nat \<Rightarrow> jsnum option \<Rightarrow> nat outcome" where
  "limit_or d v =
     chain (validatePositiveSafeInteger (case v of Some x \<Rightarrow> x | None \<Rightarrow> Fin (of_nat d)) None) (\<lambda>x. Inr (nat \<lfloor>x\<rfloor>))"

definition new_executor :: "sql_options \<Rightarrow> executor outcome" where
  "new_executor opts =
     chain (case so_indexColumns opts of None \<Rightarrow> Inr None | Some cs \<Rightarrow> map_sum id Some (check_index_columns [] cs)) (\<lambda>cols.
     chain (limit_or 1000000 (so_maxRows opts)) (\<lambda>rows.
     chain (limit_or (256 * 1024 * 1024) (so_maxBytes opts)) (\<lambda>bytes.
     chain (limit_or 100000 (so_maxResultRows opts)) (\<lambda>resultRows.
     chain (limit_or (16 * 1024 * 1024) (so_maxResultBytes opts)) (\<lambda>resultBytes.
     chain (limit_or 1024 (so_maxTables opts)) (\<lambda>tables.
     chain (new_slow_log (Fin 0) (Fin SLOW_LOG_CAP)) (\<lambda>slow.
     Inr \<lparr>ex_tables = [], ex_indexColumns = cols,
          ex_limits = \<lparr>l_maxRows = rows, l_maxBytes = bytes, l_maxResultRows = resultRows,
            l_maxResultBytes = resultBytes, l_maxTables = tables\<rparr>,
          ex_rows = 0, ex_bytes = 0, ex_examined = 0, ex_statements = [], ex_statementBytes = 0, ex_slow = slow\<rparr>)))))))"

section \<open>Prepared statements\<close>

definition max_prepared :: nat where
  "max_prepared = 128"

definition max_prepared_bytes :: nat where
  "max_prepared_bytes = 1024 * 1024"

text \<open>The oldest statements go until the new one of \<open>n\<close> bytes fits.\<close>

fun evict_statements :: "nat \<Rightarrow> (string \<times> statement) list \<Rightarrow> int \<Rightarrow> (string \<times> statement) list \<times> int" where
  "evict_statements n [] bytes = ([], bytes)"
| "evict_statements n (p # ps) bytes =
     (if length (p # ps) \<ge> max_prepared \<or> bytes + int n > int max_prepared_bytes
      then evict_statements n ps (bytes - int (length (fst p))) else (p # ps, bytes))"

definition prepared :: "string \<Rightarrow> (executor, statement) act" where
  "prepared sql x =
     (case map_of (ex_statements x) sql of
        Some st \<Rightarrow> (Inr st, x)
      | None \<Rightarrow>
          (case parse_sql sql of
             Inl e \<Rightarrow> (Inl e, x)
           | Inr st \<Rightarrow>
               if length sql \<le> 64 * 1024 then
                 (let (ps, bytes) = evict_statements (length sql) (ex_statements x) (ex_statementBytes x) in
                  (Inr st, x\<lparr>ex_statements := al_set sql st ps, ex_statementBytes := bytes + int (length sql)\<rparr>))
               else (Inr st, x)))"

section \<open>Queries\<close>

text \<open>\<open>execute\<close>; \<open>elapsed\<close> and \<open>now\<close> are the clock's readings for the slow log.\<close>

definition execute :: "intl \<Rightarrow> jsnum \<Rightarrow> rat \<Rightarrow> string \<Rightarrow> (executor, query_result) act" where
  "execute il elapsed now sql x =
     (let txt = js_trim sql; (r, x') = andThen (prepared txt) (executeStatement il) x
      in (r, x'\<lparr>ex_slow := snd (slow_record txt elapsed None None now (ex_slow x'))\<rparr>))"

definition query :: "intl \<Rightarrow> jsnum \<Rightarrow> rat \<Rightarrow> string \<Rightarrow> (executor, query_result) act" where
  "query = execute"

datatype strategy = IndexScan | FullScan | NotApplicable

text \<open>\<open>qp_columns\<close> is \<open>None\<close> when absent and \<open>Some None\<close> for \<open>*\<close>.\<close>

record query_plan =
  qp_statement :: string
  qp_table :: "string option"
  qp_columns :: "string list option option"
  qp_strategy :: strategy
  qp_indexColumns :: "string list option"
  qp_hasOrderBy :: bool
  qp_orderBy :: "(string \<times> bool) option"
  qp_limit :: "nat option"
  qp_offset :: "nat option"
  qp_tableRows :: "nat option"

fun statement_name :: "statement \<Rightarrow> string" where
  "statement_name (SCreate _ _ _) = ''create_table''"
| "statement_name (SInsert _ _ _) = ''insert''"
| "statement_name (SSelect _) = ''select''"
| "statement_name (SUpdate _ _ _) = ''update''"
| "statement_name (SDelete _ _) = ''delete''"
| "statement_name (SDrop _) = ''drop_table''"

definition other_plan :: "string \<Rightarrow> query_plan" where
  "other_plan n =
     \<lparr>qp_statement = n, qp_table = None, qp_columns = None, qp_strategy = NotApplicable, qp_indexColumns = None,
      qp_hasOrderBy = False, qp_orderBy = None, qp_limit = None, qp_offset = None, qp_tableRows = None\<rparr>"

definition select_plan :: "table option \<Rightarrow> select_stmt \<Rightarrow> query_plan" where
  "select_plan t s =
     (let cols = (case (t, s_where s) of (Some t, Some w) \<Rightarrow> describeIndexUse t w | _ \<Rightarrow> None) in
      \<lparr>qp_statement = ''select'', qp_table = Some (s_table s), qp_columns = Some (s_columns s),
       qp_strategy = (if cols = None then FullScan else IndexScan), qp_indexColumns = cols,
       qp_hasOrderBy = (s_order s \<noteq> None), qp_orderBy = s_order s, qp_limit = s_limit s, qp_offset = s_offset s,
       qp_tableRows = map_option (\<lambda>t. length (t_rows t)) t\<rparr>)"

definition explain :: "string \<Rightarrow> (executor, query_plan) act" where
  "explain sql = andThen (prepared (js_trim sql)) (\<lambda>st x.
     case st of
       SSelect s \<Rightarrow>
         (let t = map_of (ex_tables x) (s_table s) in
          (chain (case t of None \<Rightarrow> Inr ()
                  | Some t \<Rightarrow> validateSelectReferences t (s_columns s) (s_order s) (s_where s))
             (\<lambda>_. Inr (select_plan t s)), x))
     | _ \<Rightarrow> (Inr (other_plan (statement_name st)), x))"

record query_profile =
  pr_plan :: query_plan
  pr_durationMs :: jsnum
  pr_rowsReturned :: nat
  pr_affectedRows :: "nat option"

definition profile :: "intl \<Rightarrow> jsnum \<Rightarrow> rat \<Rightarrow> jsnum \<Rightarrow> string \<Rightarrow> (executor, query_profile) act" where
  "profile il elapsed now duration sql = andThen (explain sql) (\<lambda>plan. andThen (execute il elapsed now sql) (\<lambda>r.
     returns \<lparr>pr_plan = plan, pr_durationMs = duration, pr_rowsReturned = length (q_rows r), pr_affectedRows = q_affected r\<rparr>))"

section \<open>The rest of the interface\<close>

definition setSlowQueryThreshold :: "jsnum \<Rightarrow> (executor, unit) act" where
  "setSlowQueryThreshold ms x =
     (case checkSlowThreshold ms of
        Inl e \<Rightarrow> (Inl e, x)
      | Inr t \<Rightarrow> (let (r, s) = setThreshold (Fin t) (ex_slow x) in (r, x\<lparr>ex_slow := s\<rparr>)))"

definition getSlowQueryThreshold :: "executor \<Rightarrow> rat" where
  "getSlowQueryThreshold x = sl_threshold (ex_slow x)"

definition getSlowLog :: "executor \<Rightarrow> (string \<times> jsnum \<times> rat) list" where
  "getSlowLog x = map (\<lambda>e. (se_name e, se_durationMs e, se_at e)) (slow_list (ex_slow x))"

definition clearSlowLog :: "executor \<Rightarrow> executor" where
  "clearSlowLog x = x\<lparr>ex_slow := slow_clear (ex_slow x)\<rparr>"

record sql_stats =
  st_rows :: int
  st_bytes :: int
  st_tables :: nat
  st_examined :: nat
  st_prepared :: nat
  st_limits :: sql_limits

definition sql_stats_of :: "executor \<Rightarrow> sql_stats" where
  "sql_stats_of x =
     \<lparr>st_rows = ex_rows x, st_bytes = ex_bytes x, st_tables = length (ex_tables x), st_examined = ex_examined x,
      st_prepared = length (ex_statements x), st_limits = ex_limits x\<rparr>"

definition getTableNames :: "executor \<Rightarrow> string list" where
  "getTableNames x = map fst (ex_tables x)"

definition getTableSchema :: "executor \<Rightarrow> string \<Rightarrow> (string \<times> column list \<times> string option) option outcome" where
  "getTableSchema x n =
     (case map_of (ex_tables x) n of
        None \<Rightarrow> Inr None
      | Some t \<Rightarrow> chain (mapO clone_default (t_columns t)) (\<lambda>cols. Inr (Some (t_name t, cols, t_pk t))))"

definition reset :: "executor \<Rightarrow> executor" where
  "reset x = x\<lparr>ex_tables := [], ex_rows := 0, ex_bytes := 0, ex_examined := 0, ex_statements := [], ex_statementBytes := 0\<rparr>"

section \<open>The statement cache\<close>

text \<open>
  Every cached statement is the parse of its text; the cache is bounded in number and bytes, and
  its byte count is exact.
\<close>

definition cached_bytes :: "(string \<times> statement) list \<Rightarrow> int" where
  "cached_bytes ps = int (sum_list (map (length \<circ> fst) ps))"

definition cache_ok :: "(string \<times> statement) list \<Rightarrow> int \<Rightarrow> bool" where
  "cache_ok ps bytes \<longleftrightarrow>
     distinct_keys ps \<and> (\<forall>p \<in> set ps. parse_sql (fst p) = Inr (snd p)) \<and> bytes = cached_bytes ps \<and>
     length ps \<le> max_prepared \<and> bytes \<le> int max_prepared_bytes"

lemma cached_bytes_simps [simp]:
  "cached_bytes [] = 0" "cached_bytes (p # ps) = int (length (fst p)) + cached_bytes ps" "0 \<le> cached_bytes ps"
  by (simp_all add: cached_bytes_def)

lemma evict_statements_ok:
  assumes "cache_ok ps bytes" "n \<le> 64 * 1024" "evict_statements n ps bytes = (ps', bytes')"
  shows "cache_ok ps' bytes' \<and> length ps' < max_prepared \<and> bytes' + int n \<le> int max_prepared_bytes \<and> set ps' \<subseteq> set ps"
  using assms
proof (induction ps arbitrary: bytes)
  case Nil
  then show ?case by (simp add: cache_ok_def max_prepared_def max_prepared_bytes_def)
next
  case (Cons p ps)
  show ?case
  proof (cases "length (p # ps) \<ge> max_prepared \<or> bytes + int n > int max_prepared_bytes")
    case True
    have "cache_ok ps (bytes - int (length (fst p)))"
      using Cons.prems(1) by (auto simp: cache_ok_def distinct_keys_def)
    with Cons True show ?thesis by force
  next
    case False
    with Cons.prems show ?thesis by auto
  qed
qed

lemma map_of_cached: "distinct_keys ps \<Longrightarrow> map_of ps k = Some v \<longleftrightarrow> (k, v) \<in> set ps"
  by (simp add: distinct_keys_def)

lemma prepared_ok:
  assumes "cache_ok (ex_statements x) (ex_statementBytes x)"
  shows "fst (prepared sql x) = parse_sql sql"
    and "cache_ok (ex_statements (snd (prepared sql x))) (ex_statementBytes (snd (prepared sql x)))"
    and "\<exists>ps b. snd (prepared sql x) = x\<lparr>ex_statements := ps, ex_statementBytes := b\<rparr>"
proof -
  have same: "\<exists>ps b. x = x\<lparr>ex_statements := ps, ex_statementBytes := b\<rparr>"
    by (rule exI [of _ "ex_statements x"], rule exI [of _ "ex_statementBytes x"]) simp
  show "fst (prepared sql x) = parse_sql sql"
    using assms
    by (auto simp: prepared_def cache_ok_def map_of_cached split: option.splits sum.splits prod.splits)
  show "\<exists>ps b. snd (prepared sql x) = x\<lparr>ex_statements := ps, ex_statementBytes := b\<rparr>"
    using same by (auto simp: prepared_def split: option.splits sum.splits prod.splits)
  show "cache_ok (ex_statements (snd (prepared sql x))) (ex_statementBytes (snd (prepared sql x)))"
  proof (cases "map_of (ex_statements x) sql = None \<and> (\<exists>st. parse_sql sql = Inr st) \<and> length sql \<le> 64 * 1024")
    case False
    with assms show ?thesis by (auto simp: prepared_def split: option.splits sum.splits)
  next
    case True
    then obtain st where st: "map_of (ex_statements x) sql = None" "parse_sql sql = Inr st" "length sql \<le> 64 * 1024" by blast
    obtain ps b where e: "evict_statements (length sql) (ex_statements x) (ex_statementBytes x) = (ps, b)" by fastforce
    note ok = evict_statements_ok [OF assms st(3) e]
    have "sql \<notin> fst ` set ps" using st(1) ok by (auto simp: map_of_eq_None_iff)
    then have app: "al_set sql st ps = ps @ [(sql, st)]" by (rule al_set_notin)
    have "cache_ok (ps @ [(sql, st)]) (b + int (length sql))"
      using ok st(2) \<open>sql \<notin> fst ` set ps\<close> by (auto simp: cache_ok_def distinct_keys_def cached_bytes_def)
    with st e app show ?thesis by (simp add: prepared_def)
  qed
qed

section \<open>Reachable states\<close>

definition executor_ok :: "executor \<Rightarrow> bool" where
  "executor_ok x \<longleftrightarrow> db_ok x \<and> cache_ok (ex_statements x) (ex_statementBytes x) \<and> slow_ok (ex_slow x)"

inductive sql_step :: "executor \<Rightarrow> executor \<Rightarrow> bool" where
  SqExecute: "sql_step x (snd (execute il elapsed now sql x))"
| SqStatement: "stmt_ok st \<Longrightarrow> sql_step x (snd (executeStatement il st x))"
| SqExplain: "sql_step x (snd (explain sql x))"
| SqProfile: "sql_step x (snd (profile il elapsed now duration sql x))"
| SqThreshold: "sql_step x (snd (setSlowQueryThreshold ms x))"
| SqClear: "sql_step x (clearSlowLog x)"
| SqReset: "sql_step x (reset x)"

inductive sql_reach :: "executor \<Rightarrow> bool" where
  SqNew: "new_executor opts = Inr x \<Longrightarrow> sql_reach x"
| SqStep: "sql_reach x \<Longrightarrow> sql_step x y \<Longrightarrow> sql_reach y"

lemma new_executor_ok: "new_executor opts = Inr x \<Longrightarrow> executor_ok x"
  by (auto simp: new_executor_def chain_Inr new_slow_log_def executor_ok_def db_ok_def cache_ok_def distinct_keys_def
      slow_ok_def slow_size_def SLOW_LOG_CAP_def limit_or_def validatePositiveSafeInteger_def validateSafeInteger_Inr
      checkSlowThreshold_def validateNonNegativeNumber_def max_prepared_def split: sum.splits if_splits)

text \<open>What a statement leaves alone.\<close>

lemma statement_frame:
  "ex_statements (snd (executeStatement il st x)) = ex_statements x \<and>
   ex_statementBytes (snd (executeStatement il st x)) = ex_statementBytes x \<and>
   ex_slow (snd (executeStatement il st x)) = ex_slow x \<and> ex_limits (snd (executeStatement il st x)) = ex_limits x"
  by (cases st)
    (auto simp: executeStatement_def executeCreateTable_def executeInsert_def executeUpdate_def executeDelete_def
      executeDropTable_def executeSelect_def with_table_def split: option.splits sum.splits prod.splits)

lemma statement_ok: "executor_ok x \<Longrightarrow> stmt_ok st \<Longrightarrow> executor_ok (snd (executeStatement il st x))"
  using statement_keeps_db [of x st il] statement_frame [of il st x] by (simp add: executor_ok_def)

lemma db_ok_cache: "db_ok (x\<lparr>ex_statements := ps, ex_statementBytes := b\<rparr>) = db_ok x"
  and db_ok_slow: "db_ok (x\<lparr>ex_slow := s\<rparr>) = db_ok x"
  by (simp_all add: db_ok_def)

lemma prepared_executor_ok: "executor_ok x \<Longrightarrow> executor_ok (snd (prepared sql x))"
  using prepared_ok(2,3) [of x sql] by (auto simp: executor_ok_def db_ok_cache)

lemma prepared_stmt_ok: "executor_ok x \<Longrightarrow> prepared sql x = (Inr st, y) \<Longrightarrow> stmt_ok st"
  using prepared_ok(1) [of x sql] parse_sql_total [of sql] by (cases "parse_sql sql") (simp_all add: executor_ok_def)

lemma execute_ok: "executor_ok x \<Longrightarrow> executor_ok (snd (execute il elapsed now sql x))"
proof -
  assume x: "executor_ok x"
  have "executor_ok (snd (andThen (prepared (js_trim sql)) (executeStatement il) x))"
    using prepared_executor_ok [OF x, of "js_trim sql"] prepared_stmt_ok [OF x, of "js_trim sql"]
    by (auto simp: andThen_def intro: statement_ok split: prod.splits sum.splits)
  then show ?thesis
    by (auto simp: execute_def executor_ok_def Let_def db_ok_slow intro: slow_record_ok split: prod.splits)
qed

lemma explain_state: "snd (explain sql x) = snd (prepared (js_trim sql) x)"
  by (auto simp: explain_def andThen_def Let_def split: prod.splits sum.splits statement.splits)

lemma sql_step_ok: "sql_step x y \<Longrightarrow> executor_ok x \<Longrightarrow> executor_ok y"
proof (induction rule: sql_step.induct)
  case (SqProfile x il elapsed now duration sql)
  then have "executor_ok (snd (explain sql x))" by (simp add: explain_state prepared_executor_ok)
  then show ?case
    by (cases "explain sql x")
      (auto simp: profile_def andThen_def split: sum.splits prod.splits dest: execute_ok [of _ il elapsed now sql])
next
  case (SqThreshold x ms)
  then show ?case
    by (auto simp: setSlowQueryThreshold_def setThreshold_def checkSlowThreshold_def validateNonNegativeNumber_def
        executor_ok_def db_ok_slow slow_ok_def slow_size_def Let_def split: sum.splits jsnum.splits if_splits)
next
  case (SqReset x)
  then show ?case
    by (auto simp: reset_def executor_ok_def db_ok_def cache_ok_def distinct_keys_def max_prepared_def max_prepared_bytes_def)
next
  case (SqClear x)
  then show ?case by (simp add: clearSlowLog_def executor_ok_def db_ok_slow slow_clear_ok)
qed (simp_all add: execute_ok statement_ok explain_state prepared_executor_ok)

inductive_cases sql_reachE: "sql_reach x"

theorem sql_reach_ok: "sql_reach x \<Longrightarrow> executor_ok x"
  by (induction rule: sql_reach.induct) (auto intro: new_executor_ok sql_step_ok)

section \<open>Queries on reachable states\<close>

text \<open>The cache of statements does not show: a query is its parse, then the statement.\<close>

theorem execute_is_parse_then_run:
  assumes "sql_reach x"
  shows "fst (execute il elapsed now sql x) =
    (case parse_sql (js_trim sql) of Inl e \<Rightarrow> Inl e | Inr st \<Rightarrow> fst (executeStatement il st (snd (prepared (js_trim sql) x))))"
  using prepared_ok(1) [of x "js_trim sql"] sql_reach_ok [OF assms]
  by (cases "prepared (js_trim sql) x")
    (auto simp: execute_def executor_ok_def andThen_def Let_def split: prod.splits sum.splits)

text \<open>No statement reads the cache.\<close>

lemma statement_ignores_cache:
  "fst (executeStatement il st (x\<lparr>ex_statements := ps, ex_statementBytes := b\<rparr>)) = fst (executeStatement il st x)"
  by (cases st)
    (auto simp: executeStatement_def executeCreateTable_def executeInsert_def executeUpdate_def executeDelete_def
      executeDropTable_def executeSelect_def with_table_def stage_insert_def stage_update_def
      split: option.splits sum.splits prod.splits)

end
