(* ===== verification/Sql_Sample.thy ===== *)
theory Sql_Sample
  imports Sql_Db
begin

text \<open>
  A small database, reached by two statements from a new executor, and a trivial collation:
  the concrete input on which the properties of the executor are instantiated.
\<close>

definition sample_intl :: intl where
  "sample_intl = \<lparr>il_lower = (\<lambda>s. s), il_compare = (\<lambda>a b. 0)\<rparr>"

definition sample_options :: sql_options where
  "sample_options = \<lparr>so_indexColumns = None, so_maxRows = Some (Fin 4), so_maxBytes = Some (Fin 100), so_maxResultRows = Some (Fin 4),
     so_maxResultBytes = Some (Fin 100), so_maxTables = Some (Fin 2)\<rparr>"

definition sample_columns :: "column list" where
  "sample_columns = [\<lparr>c_name = ''id'', c_type = TString, c_nullable = True, c_default = None\<rparr>,
     \<lparr>c_name = ''on'', c_type = TBoolean, c_nullable = True, c_default = None\<rparr>]"

definition sample_new :: executor where
  "sample_new = \<lparr>ex_tables = [], ex_indexColumns = None,
     ex_limits = \<lparr>l_maxRows = 4, l_maxBytes = 100, l_maxResultRows = 4, l_maxResultBytes = 100, l_maxTables = 2\<rparr>,
     ex_rows = 0, ex_bytes = 0, ex_examined = 0, ex_statements = [], ex_statementBytes = 0,
     ex_slow = \<lparr>sl_entries = [], sl_threshold = 0, sl_cap = 100\<rparr>\<rparr>"

definition sample_create :: statement where
  "sample_create = SCreate ''t'' sample_columns (Some ''id'')"

definition sample_insert :: statement where
  "sample_insert = SInsert ''t'' [] [[JStr ''b'', JBool True], [JStr ''a'', JNull]]"

definition empty_table :: table where
  "empty_table = \<lparr>t_name = ''t'', t_columns = sample_columns, t_pk = Some ''id'', t_rows = [], t_next = 0,
     t_primary = [], t_bytes = [], t_indexes = [(''id'', []), (''on'', [])]\<rparr>"

definition sample_table :: table where
  "sample_table = \<lparr>t_name = ''t'', t_columns = sample_columns, t_pk = Some ''id'',
     t_rows = [(0, [(''id'', JStr ''b''), (''on'', JBool True)]), (1, [(''id'', JStr ''a''), (''on'', JNull)])],
     t_next = 2, t_primary = [([CHR 0x22, CHR ''b'', CHR 0x22], 0), ([CHR 0x22, CHR ''a'', CHR 0x22], 1)],
     t_bytes = [(0, 20), (1, 20)],
     t_indexes = [(''id'', [(JStr ''b'', [0]), (JStr ''a'', [1])]), (''on'', [(JBool True, [0]), (JNull, [1])])]\<rparr>"

definition sample_db :: executor where
  "sample_db = sample_new\<lparr>ex_tables := [(''t'', sample_table)], ex_rows := 2, ex_bytes := 40\<rparr>"

lemma sample_new: "new_executor sample_options = Inr sample_new"
  by (simp add: new_executor_def sample_options_def sample_new_def limit_or_def validatePositiveSafeInteger_def
      validateSafeInteger_def is_safe_integer_def max_safe_def new_slow_log_def checkSlowThreshold_def
      validateNonNegativeNumber_def SLOW_LOG_CAP_def)

lemma sample_created:
  "snd (executeStatement sample_intl sample_create sample_new) = sample_new\<lparr>ex_tables := [(''t'', empty_table)]\<rparr>"
  by (simp add: executeStatement_def sample_create_def executeCreateTable_def sample_new_def sample_columns_def
      empty_table_def clone_default_def new_indexes_def shouldIndexColumn_def)

lemma sample_inserted:
  "snd (executeStatement sample_intl sample_insert (sample_new\<lparr>ex_tables := [(''t'', empty_table)]\<rparr>)) = sample_db"
  by (simp add: executeStatement_def sample_insert_def executeInsert_def with_table_def sample_new_def sample_db_def
      empty_table_def sample_table_def sample_columns_def stage_insert_def prepare_row_def coerceWriteValue_def
      assertPrimaryKeyUnique_def field_def quote_text_def quote_char_def row_size_def checkCapacity_def max_row_id_def
      insert_row_def index_row_def primary_set_def addIndexEntry_def isIndexableValue_def index_ids_def column_names_def
      Let_def)

lemma sample_reach: "sql_reach sample_db"
proof -
  have "stmt_ok sample_create" "stmt_ok sample_insert"
    by (simp_all add: stmt_ok_def sample_create_def sample_insert_def sample_columns_def)
  moreover have "sql_reach sample_new" by (rule SqNew [OF sample_new])
  ultimately have "sql_reach (snd (executeStatement sample_intl sample_insert
      (snd (executeStatement sample_intl sample_create sample_new))))"
    by (intro SqStep [OF _ SqStatement])
  then show ?thesis by (simp add: sample_created sample_inserted)
qed

lemma sample_db_table: "the_table sample_db ''t'' = Some sample_table"
  by (simp add: sample_db_def)

end
