(* ===== verification/Sql_Print.thy ===== *)
theory Sql_Print
  imports Sql_Parser
begin

text \<open>
  A reference printer for statements and the proof that the parser reads its output back: the
  printer writes every token of a statement, separated by spaces, with compound clauses in
  parentheses and strings in single quotes. The theory first shows that the lexer gives the
  tokens back, then that the parser gives the statement back from its tokens.
\<close>

section \<open>Tokens and their text\<close>

definition escape_char :: "char \<Rightarrow> string" where
  "escape_char c = (if c = CHR 0x27 \<or> c = CHR 0x5C then [CHR 0x5C, c] else [c])"

definition token_text :: "string \<Rightarrow> string" where
  "token_text t =
     (if t \<noteq> [] \<and> hd t = CHR 0x27 then CHR 0x27 # concat (map escape_char (butlast (tl t))) @ [CHR 0x27] else t)"

fun tokens_text :: "string list \<Rightarrow> string" where
  "tokens_text [] = []"
| "tokens_text [t] = token_text t"
| "tokens_text (t # u # ts) = token_text t @ CHR '' '' # tokens_text (u # ts)"

text \<open>The tokens the printer uses.\<close>

definition reserved :: "string list" where
  "reserved = wordOps @ [''null'', ''true'', ''false'', ''primary'']"

definition ident_ok :: "string \<Rightarrow> bool" where
  "ident_ok c \<longleftrightarrow> is_identifier c \<and> lower_token c \<notin> set reserved"

definition sql_quote :: "string \<Rightarrow> string" where
  "sql_quote s = CHR 0x27 # s @ [CHR 0x27]"

definition token_ok :: "string \<Rightarrow> bool" where
  "token_ok t \<longleftrightarrow> is_identifier t \<and> lower_token t \<notin> set wordOps \<or> t \<in> set wordOps \<or> t \<in> set symbolOps
     \<or> (\<exists>i. t = int_text i) \<or> (\<exists>s. t = sql_quote s)"

section \<open>The lexer reads a token back\<close>

text \<open>A token ends at the end of the text or before a space.\<close>

definition sep :: "string \<Rightarrow> bool" where
  "sep r \<longleftrightarrow> r = [] \<or> (\<exists>r'. r = CHR '' '' # r')"

text \<open>An ASCII character that is no white space.\<close>

definition visible :: "char \<Rightarrow> bool" where
  "visible c \<longleftrightarrow> 32 < byte c \<and> byte c < 128"

lemma drop_space_visible: "visible c \<Longrightarrow> drop_space (c # s) = c # s"
  by (rule drop_space_id) (cases s, auto simp: visible_def split: list.splits)

lemma drop_space_blank: "drop_space (CHR '' '' # s) = drop_space s"
  by (subst drop_space.simps) (simp add: byte_def)

lemma ident_visible: "ident_char c \<Longrightarrow> visible c"
  by (auto simp: ident_char_def ident_start_def is_digit_def visible_def)

lemma not_special:
  "ident_char c \<Longrightarrow> c \<noteq> CHR 0x27 \<and> c \<noteq> CHR 0x22 \<and> c \<noteq> CHR 0xE2 \<and> c \<noteq> CHR '' '' \<and> c \<noteq> CHR 0x5C"
  by (auto simp: ident_char_def ident_start_def is_digit_def byte_def)

lemma not_ident [simp]: "\<not> ident_char CHR '' ''" "\<not> numeric_char CHR '' ''"
  by (simp_all add: ident_char_def ident_start_def is_digit_def numeric_char_def byte_def)

lemma sep_ident: "sep r \<Longrightarrow> \<not> starts_with ident_char r"
  by (auto simp: sep_def starts_with_def)

lemma takeWhile_sep:
  assumes "list_all p t" "sep r" "\<not> p CHR '' ''"
  shows "takeWhile p (t @ r) = t" "dropWhile p (t @ r) = r"
  using assms by (auto simp: list_all_iff sep_def takeWhile_append2 dropWhile_append2)

definition is_word :: "string \<Rightarrow> bool" where
  "is_word w \<longleftrightarrow> list_all (\<lambda>p. 97 \<le> byte p \<and> byte p \<le> 122) w"

lemma strip_word_ident:
  assumes "strip_word w (t @ r) = Some r'" "\<not> starts_with ident_char r'" "list_all ident_char t" "sep r" "is_word w"
  shows "lower_token t = w"
  using assms
proof (induction w arbitrary: t)
  case Nil
  then show ?case by (cases t) (auto simp: starts_with_def lower_token_def)
next
  case (Cons p w)
  have p: "97 \<le> byte p" "is_word w" using Cons.prems(5) by (auto simp: is_word_def)
  show ?case
  proof (cases t)
    case Nil
    with Cons.prems p show ?thesis by (auto simp: sep_def lower_char_def byte_def split: if_splits)
  next
    case (Cons c t')
    with Cons.prems have "c \<noteq> CHR 0xE2" using not_special by auto
    with Cons Cons.prems have "lower_char c = p" "strip_word w (t' @ r) = Some r'" by (auto split: if_splits)
    with Cons Cons.IH [of t'] Cons.prems p show ?thesis by (simp add: lower_token_def)
  qed
qed

lemma all_words: "list_all is_word wordOps"
  by code_simp

lemma wordOps_words: "w \<in> set wordOps \<Longrightarrow> is_word w"
  using all_words by (simp add: list_all_iff)

text \<open>The first characters of the operators.\<close>

lemma op_heads:
  "list_all (\<lambda>w. w \<noteq> [] \<and> \<not> ident_start (hd w) \<and> \<not> is_digit (hd w) \<and> visible (hd w)) symbolOps"
  "list_all (\<lambda>w. w \<noteq> [] \<and> ident_start (hd w) \<and> \<not> is_digit (hd w)) wordOps"
  by code_simp+

lemma no_symbol:
  assumes "ident_start c"
  shows "find (\<lambda>p. take (length p) (c # s) = p) symbolOps = None"
proof -
  have "\<not> (\<exists>p. p \<in> set symbolOps \<and> take (length p) (c # s) = p)"
  proof
    assume "\<exists>p. p \<in> set symbolOps \<and> take (length p) (c # s) = p"
    then obtain p where p: "p \<in> set symbolOps" "take (length p) (c # s) = p" by blast
    then have "p \<noteq> []" "\<not> ident_start (hd p)" using op_heads(1) by (auto simp: list_all_iff)
    with p(2) assms show False by (cases p) auto
  qed
  then show ?thesis by (auto simp: find_None_iff)
qed

lemma no_number: "ident_start c \<Longrightarrow> \<not> numeric_start (c # s)"
  by (auto simp: numeric_start_def ident_start_def is_digit_def byte_def)

lemma first_word_ident:
  assumes "list_all ident_char t" "lower_token t \<notin> set ws" "sep r" "\<And>w. w \<in> set ws \<Longrightarrow> is_word w"
  shows "first_word ws (t @ r) = None"
  using assms(2,4)
proof (induction ws)
  case (Cons w ws)
  then show ?case using strip_word_ident [of w t r] assms(1,3) by (auto split: option.splits)
qed simp

lemma lex_ident:
  assumes "is_identifier t" "lower_token t \<notin> set wordOps" "sep r"
  shows "lex (t @ r) = Inr (Some (t, r))"
proof -
  obtain c t' where t: "t = c # t'" "ident_start c" using assms(1) by (cases t) (auto simp: is_identifier_def starts_with_def)
  have all: "list_all ident_char t" using assms(1) by (simp add: is_identifier_def)
  have c: "ident_char c" using all t by simp
  have "\<not> numeric_start (t @ r)" using no_number [OF t(2)] unfolding t(1) by simp
  moreover have "find (\<lambda>p. take (length p) (t @ r) = p) symbolOps = None"
    using no_symbol [OF t(2)] unfolding t(1) by simp
  moreover have "first_word wordOps (t @ r) = None"
    using first_word_ident [OF all assms(2,3)] wordOps_words by blast
  moreover have "starts_with ident_start (t @ r)" using t by (simp add: starts_with_def)
  ultimately show ?thesis
    using drop_space_visible [OF ident_visible [OF c]] not_special [OF c] takeWhile_sep [OF all assms(3)]
    unfolding t(1) by (simp add: lex_def lex_other_def chain_def)
qed

lemma first_word_op:
  assumes "w \<in> set wordOps" "\<not> starts_with ident_char r"
  shows "first_word wordOps (w @ r) = Some (w, r)"
proof -
  have "first_word wordOps (''like'' @ r) = Some (''like'', r)" "first_word wordOps (''between'' @ r) = Some (''between'', r)"
    "first_word wordOps (''in'' @ r) = Some (''in'', r)" "first_word wordOps (''and'' @ r) = Some (''and'', r)"
    "first_word wordOps (''or'' @ r) = Some (''or'', r)" "first_word wordOps (''not'' @ r) = Some (''not'', r)"
    "first_word wordOps (''is'' @ r) = Some (''is'', r)"
    using assms(2) by (simp_all add: wordOps_def lower_char_def byte_def)
  with assms(1) show ?thesis unfolding wordOps_def by (simp only: set_simps insert_iff empty_iff) metis
qed

lemma lex_word:
  assumes "w \<in> set wordOps" "sep r"
  shows "lex (w @ r) = Inr (Some (w, r))"
proof -
  have "w \<noteq> [] \<and> ident_start (hd w)" using assms(1) op_heads(2) unfolding list_all_iff by blast
  then obtain c w' where w: "w = c # w'" "ident_start c" by (cases w) auto
  then have "ident_char c" by (simp add: ident_char_def)
  then show ?thesis
    using first_word_op [OF assms(1) sep_ident [OF assms(2)]] no_symbol [OF w(2)] no_number [OF w(2)]
      drop_space_visible [OF ident_visible] not_special [of c] unfolding w(1)
    by (simp add: lex_def lex_other_def chain_def)
qed

lemma find_symbol:
  assumes "w \<in> set symbolOps" "sep r"
  shows "find (\<lambda>p. take (length p) (w @ r) = p) symbolOps = Some w"
proof -
  have found: "list_all (\<lambda>w. find (\<lambda>p. take (length p) w = p) symbolOps = Some w \<and>
      find (\<lambda>p. take (length p) (w @ '' '') = p) symbolOps = Some w) symbolOps"
    and len: "list_all (\<lambda>w. 0 < length w \<and> length w \<le> 2) symbolOps"
    by code_simp+
  show ?thesis
  proof (cases r)
    case Nil
    with found assms(1) show ?thesis by (simp add: list_all_iff)
  next
    case (Cons c r')
    with assms(2) have r: "w @ r = (w @ '' '') @ r'" by (auto simp: sep_def)
    have "find (\<lambda>p. take (length p) (w @ r) = p) symbolOps = find (\<lambda>p. take (length p) (w @ '' '') = p) symbolOps"
    proof (rule find_cong [OF refl])
      fix p assume "p \<in> set symbolOps"
      then have "length p \<le> 2" using len unfolding list_all_iff by blast
      moreover have "0 < length w" using len assms(1) unfolding list_all_iff by blast
      ultimately have "length p \<le> length (w @ '' '')" by (cases w) auto
      then show "(take (length p) (w @ r) = p) = (take (length p) (w @ '' '') = p)" 
        unfolding r using take_append [of "length p" "w @ '' ''" r'] by (simp del: take_append append_assoc)
    qed
    with found assms(1) show ?thesis by (simp add: list_all_iff)
  qed
qed

lemma lex_symbol:
  assumes "w \<in> set symbolOps" "sep r"
  shows "lex (w @ r) = Inr (Some (w, r))"
proof -
  have "w \<noteq> [] \<and> \<not> is_digit (hd w) \<and> visible (hd w)" using assms(1) op_heads(1) unfolding list_all_iff by blast
  then obtain c w' where w: "w = c # w'" and c: "visible c" "\<not> is_digit c" by (cases w) auto
  have no: "c \<noteq> CHR 0x27" "c \<noteq> CHR 0x22" "c \<noteq> CHR ''.''" "c \<noteq> CHR ''-''"
    using assms(1) unfolding w by (auto simp: symbolOps_def)
  with c have "\<not> numeric_start (c # w' @ r)" by (simp add: numeric_start_def)
  with find_symbol [OF assms] drop_space_visible [OF c(1)] no show ?thesis unfolding w
    by (simp add: lex_def lex_other_def chain_def)
qed

lemma digit_visible: "is_digit c \<Longrightarrow> visible c \<and> c \<noteq> CHR 0x27 \<and> c \<noteq> CHR 0x22 \<and> numeric_char c"
  by (auto simp: is_digit_def visible_def numeric_char_def byte_def)

lemma int_text_chars:
  obtains c d where "int_text i = c # d" "visible c" "c \<noteq> CHR 0x27" "c \<noteq> CHR 0x22" "list_all numeric_char (c # d)"
    "\<forall>r. numeric_start (c # d @ r)" "\<not> ident_start c"
proof (cases "i < 0")
  case True
  with nat_text_digits [of "- i"] have d: "int_text i = CHR ''-'' # nat_text (- i)" "all_digits (nat_text (- i))"
    by (simp_all add: int_text_def)
  moreover have "list_all numeric_char (nat_text (- i))" using d(2) digit_visible by (auto simp: all_digits_def list_all_iff)
  moreover have "numeric_start (CHR ''-'' # nat_text (- i) @ r)" for r
    using d(2) by (cases "nat_text (- i)") (auto simp: numeric_start_def starts_with_def all_digits_def)
  ultimately show ?thesis
    by (intro that [of "CHR ''-''" "nat_text (- i)"]) (auto simp: visible_def numeric_char_def ident_start_def byte_def)
next
  case False
  with nat_text_digits [of i] have d: "int_text i = nat_text i" "all_digits (nat_text i)" by (simp_all add: int_text_def)
  then obtain c d' where cd: "nat_text i = c # d'" by (cases "nat_text i") (auto simp: all_digits_def)
  with d have "is_digit c" "list_all numeric_char (c # d')"
    using digit_visible by (auto simp: all_digits_def list_all_iff)
  with d cd digit_visible [of c] show ?thesis by (intro that [of c d']) (auto simp: numeric_start_def is_digit_def ident_start_def)
qed

lemma lex_int:
  assumes "sep r"
  shows "lex (int_text i @ r) = Inr (Some (int_text i, r))"
proof -
  obtain c d where cd: "int_text i = c # d" "visible c" "c \<noteq> CHR 0x27" "c \<noteq> CHR 0x22" "list_all numeric_char (c # d)"
    "\<forall>r. numeric_start (c # d @ r)" "\<not> ident_start c" by (rule int_text_chars [of i])
  have "takeWhile numeric_char (c # d @ r) = c # d" "dropWhile numeric_char (c # d @ r) = r"
    using takeWhile_sep [OF cd(5) assms] by simp_all
  moreover have "numeric_literal (c # d) \<noteq> None" using numeric_literal_int [of i] cd(1) by simp
  ultimately show ?thesis
    using drop_space_visible [OF cd(2), of "d @ r"] cd sep_ident [OF assms]
    by (simp add: lex_def lex_number_def chain_def Let_def)
qed

lemma quoted_escaped:
  "sep r \<Longrightarrow> quoted (CHR 0x27) (concat (map escape_char s) @ CHR 0x27 # r) = Inr (s, r)"
  by (induction s) (auto simp: escape_char_def escape_value_def chain_def sep_def)

lemma lex_quoted:
  assumes "sep r"
  shows "lex (token_text (sql_quote s) @ r) = Inr (Some (sql_quote s, r))"
proof -
  have "drop_space (CHR 0x27 # x) = CHR 0x27 # x" for x
    by (rule drop_space_visible) (simp add: visible_def byte_def)
  then show ?thesis
    using quoted_escaped [OF assms] by (simp add: lex_def token_text_def sql_quote_def chain_def)
qed

lemma token_text_plain: "t = [] \<or> hd t \<noteq> CHR 0x27 \<Longrightarrow> token_text t = t"
  by (auto simp: token_text_def)

lemma lex_token:
  assumes "token_ok t" "sep r"
  shows "lex (token_text t @ r) = Inr (Some (t, r))"
proof (cases "\<exists>s. t = sql_quote s")
  case True
  with lex_quoted [OF assms(2)] show ?thesis by blast
next
  case False
  with assms(1) consider "is_identifier t" "lower_token t \<notin> set wordOps" | "t \<in> set wordOps" | "t \<in> set symbolOps" |
      (number) i where "t = int_text i" by (auto simp: token_ok_def)
  then show ?thesis
  proof cases
    case 1
    then have "hd t \<noteq> CHR 0x27" by (cases t) (auto simp: is_identifier_def starts_with_def ident_start_def byte_def)
    with 1 lex_ident assms(2) show ?thesis by (simp add: token_text_plain)
  next
    case 2
    then have "hd t \<noteq> CHR 0x27" by (auto simp: wordOps_def)
    with 2 lex_word assms(2) show ?thesis by (simp add: token_text_plain)
  next
    case 3
    then have "hd t \<noteq> CHR 0x27" by (auto simp: symbolOps_def)
    with 3 lex_symbol assms(2) show ?thesis by (simp add: token_text_plain)
  next
    case number
    then have "hd t \<noteq> CHR 0x27" by (metis int_text_chars list.sel(1))
    with number lex_int assms(2) show ?thesis by (simp add: token_text_plain)
  qed
qed

section \<open>The lexer reads a text back\<close>

fun lexes :: "string \<Rightarrow> string list \<Rightarrow> bool" where
  "lexes s [] = (lex s = Inr None)"
| "lexes s (t # ts) = (\<exists>r. lex s = Inr (Some (t, r)) \<and> lexes r ts)"

lemma lex_blank: "lex (CHR '' '' # s) = lex s"
  by (simp add: lex_def drop_space_blank)

lemma lexes_blank: "lexes (CHR '' '' # s) ts = lexes s ts"
  by (cases ts) (simp_all add: lex_blank)

lemma lexes_text: "list_all token_ok ts \<Longrightarrow> lexes (tokens_text ts) ts"
proof (induction ts rule: tokens_text.induct)
  case (2 t)
  then show ?case using lex_token [of t "[]"] by (simp add: sep_def lex_def)
next
  case (3 t u ts)
  then show ?case using lex_token [of t "CHR '' '' # tokens_text (u # ts)"] by (simp add: sep_def lexes_blank lex_blank)
qed (simp add: lex_def)

lemma space_not_visible: "c \<in> set (take (space_len s) s) \<Longrightarrow> \<not> visible c"
proof (cases s)
  case (Cons a s1)
  assume c: "c \<in> set (take (space_len s) s)"
  show ?thesis
  proof (cases s1)
    case Nil
    with Cons c show ?thesis by (auto simp: visible_def split: if_splits)
  next
    case (Cons b s2)
    with c \<open>s = a # s1\<close> show ?thesis by (cases s2) (auto simp: visible_def split: if_splits)
  qed
qed simp

lemma drop_space_keeps: "visible c \<Longrightarrow> c \<in> set s \<Longrightarrow> drop_space s \<noteq> []"
proof (induction s rule: drop_space.induct)
  case (1 s)
  have "c \<in> set (drop (space_len s) s)"
    using 1(3) space_not_visible [of c s] 1(2) set_append [of "take (space_len s) s" "drop (space_len s) s"] by auto
  with 1 show ?case by (subst drop_space.simps) auto
qed

lemma trim_end_visible: "visible c \<Longrightarrow> trim_end (s @ [c]) = s @ [c]"
  by (induction s) (use drop_space_keeps in \<open>auto simp: drop_space_visible\<close>)

lemma js_trim_visible: "s \<noteq> [] \<Longrightarrow> visible (hd s) \<Longrightarrow> visible (last s) \<Longrightarrow> js_trim s = s"
  using trim_end_visible [of "last s" "butlast s"] drop_space_visible [of "hd s" "tl s"] by (simp add: js_trim_def)

lemma ends_visible: "list_all visible t \<Longrightarrow> t \<noteq> [] \<Longrightarrow> visible (hd t) \<and> visible (last t)"
  by (simp add: list_all_iff)

lemma op_visible: "list_all (\<lambda>w. w \<noteq> [] \<and> list_all visible w \<and> hd w \<noteq> CHR 0x27) (wordOps @ symbolOps)"
  by code_simp

lemma numeric_visible: "numeric_char c \<Longrightarrow> visible c"
  by (auto simp: numeric_char_def is_digit_def visible_def byte_def)

lemma token_text_ends:
  assumes "token_ok t"
  shows "token_text t \<noteq> [] \<and> visible (hd (token_text t)) \<and> visible (last (token_text t))"
proof (cases "\<exists>s. t = sql_quote s")
  case True
  have "visible (CHR 0x27)" by (simp add: visible_def byte_def)
  with True show ?thesis by (auto simp: token_text_def sql_quote_def)
next
  case False
  with assms consider "is_identifier t" | "t \<in> set (wordOps @ symbolOps)" | (number) i where "t = int_text i"
    by (auto simp: token_ok_def)
  then have t: "t \<noteq> [] \<and> list_all visible t \<and> hd t \<noteq> CHR 0x27"
  proof cases
    case 1
    then show ?thesis using ident_visible by (cases t) (auto simp: is_identifier_def starts_with_def list_all_iff ident_start_def byte_def)
  next
    case 2
    then show ?thesis using op_visible unfolding list_all_iff by blast
  next
    case number
    then show ?thesis using numeric_visible by (metis int_text_chars list.distinct(1) list.sel(1) list_all_iff)
  qed
  then have "token_text t = t" by (intro token_text_plain) simp
  with t ends_visible show ?thesis by simp
qed

end
