(* ===== verification/Sql_Roundtrip.thy ===== *)
theory Sql_Roundtrip
  imports Sql_Print
begin

text \<open>
  The tokens of a statement, and the parser on them: \<open>parse_sql\<close> of the printed text of a
  statement is the statement.
\<close>

section \<open>The parser at a list of tokens\<close>

text \<open>\<open>stands s ts\<close>: the tokens from the current one on are \<open>ts\<close>.\<close>

fun stands :: "pstate \<Rightarrow> string list \<Rightarrow> bool" where
  "stands s [] = (ps_token s = None)"
| "stands s (t # ts) = (ps_token s = Some t \<and> lexes (ps_rest s) ts)"

declare stands.simps [simp del]

definition token_of :: "string list \<Rightarrow> string option" where
  "token_of ts = (case ts of [] \<Rightarrow> None | t # _ \<Rightarrow> Some t)"

lemma token_of_simps [simp]: "token_of [] = None" "token_of (t # ts) = Some t"
  by (simp_all add: token_of_def)

lemma stands_token: "stands s ts \<Longrightarrow> ps_token s = token_of ts"
  by (cases ts) (simp_all add: stands.simps)

text \<open>\<open>yields m s a ts\<close>: \<open>m\<close> returns \<open>a\<close> and leaves the tokens \<open>ts\<close>.\<close>

definition yields :: "(pstate, 'a) act \<Rightarrow> pstate \<Rightarrow> 'a \<Rightarrow> string list \<Rightarrow> bool" where
  "yields m s a ts \<longleftrightarrow> (\<exists>s'. m s = (Inr a, s') \<and> stands s' ts)"

lemma yields_returns: "stands s ts \<Longrightarrow> yields (returns a) s a ts"
  by (simp add: yields_def)

lemma yields_andThen:
  "yields m s a ts \<Longrightarrow> (\<And>s'. stands s' ts \<Longrightarrow> yields (f a) s' b us) \<Longrightarrow> yields (andThen m f) s b us"
  by (auto simp: yields_def)

lemma yields_peek: "stands s ts \<Longrightarrow> yields (f (token_of ts)) s a us \<Longrightarrow> yields (andThen peek f) s a us"
  by (simp add: yields_def peek_def stands_token)

lemma yields_peek_lower:
  "stands s ts \<Longrightarrow> yields (f (map_option lower_token (token_of ts))) s a us \<Longrightarrow> yields (andThen peek_lower f) s a us"
  by (simp add: yields_def peek_lower_def stands_token)

lemma consume_yields: "stands s (t # ts) \<Longrightarrow> yields consume s t ts"
  by (cases ts) (auto simp: yields_def consume_def nextToken_def andThen_def peek_def stands.simps)

lemma yields_consume:
  "stands s (t # ts) \<Longrightarrow> (\<And>s'. stands s' ts \<Longrightarrow> yields (f t) s' a us) \<Longrightarrow> yields (andThen consume f) s a us"
  by (rule yields_andThen [OF consume_yields])

lemma consume_word_yields: "stands s (t # ts) \<Longrightarrow> lower_token t = w \<Longrightarrow> yields (consume_word w) s t ts"
  unfolding consume_word_def by (rule yields_peek_lower, assumption) (simp add: consume_yields)

lemma yields_word:
  "stands s (t # ts) \<Longrightarrow> lower_token t = w \<Longrightarrow> (\<And>s'. stands s' ts \<Longrightarrow> yields (f t) s' a us) \<Longrightarrow>
     yields (andThen (consume_word w) f) s a us"
  by (rule yields_andThen [OF consume_word_yields])

text \<open>Keywords and operators are their own lower case.\<close>

definition sql_keywords :: "string list" where
  "sql_keywords = [''create'', ''table'', ''insert'', ''into'', ''values'', ''select'', ''from'', ''where'', ''order'', ''by'',
     ''asc'', ''desc'', ''limit'', ''offset'', ''update'', ''set'', ''delete'', ''drop'', ''primary'', ''key'', ''default'',
     ''null'', ''true'', ''false'', ''string'', ''number'', ''boolean'', ''any'']"

lemma keywords_ok: "list_all (\<lambda>t. token_ok t \<and> lower_token t = t) (sql_keywords @ wordOps @ symbolOps)"
proof -
  have "list_all (\<lambda>t. (is_identifier t \<and> lower_token t \<notin> set wordOps \<or> t \<in> set wordOps \<or> t \<in> set symbolOps) \<and>
      lower_token t = t) (sql_keywords @ wordOps @ symbolOps)"
    by code_simp
  then show ?thesis unfolding list_all_iff token_ok_def by blast
qed

lemmas keywords_simp = keywords_ok [unfolded sql_keywords_def wordOps_def symbolOps_def, simplified]

lemma ident_token: "ident_ok c \<Longrightarrow> token_ok c"
  by (auto simp: ident_ok_def token_ok_def reserved_def)

lemma ident_keyword: "ident_ok c \<Longrightarrow> lower_token c \<notin> {''null'', ''true'', ''false'', ''primary'', ''not'', ''and'', ''or''}"
  by (auto simp: ident_ok_def reserved_def wordOps_def)

lemma not_identifier: "\<not> is_identifier '')''" "\<not> is_identifier ''(''" "\<not> is_identifier ''*''" "\<not> is_identifier '',''"
  by code_simp+

lemma ident_symbol: "ident_ok c \<Longrightarrow> c \<noteq> '')'' \<and> c \<noteq> ''('' \<and> c \<noteq> ''*'' \<and> c \<noteq> '',''"
  using not_identifier by (auto simp: ident_ok_def)

lemma expectIdentifier_yields: "stands s (c # ts) \<Longrightarrow> ident_ok c \<Longrightarrow> yields expectIdentifier s c ts"
  unfolding expectIdentifier_def
  by (rule yields_peek, assumption) (simp add: ident_ok_def consume_yields)

lemma yields_ident:
  "stands s (c # ts) \<Longrightarrow> ident_ok c \<Longrightarrow> (\<And>s'. stands s' ts \<Longrightarrow> yields (f c) s' a us) \<Longrightarrow>
     yields (andThen expectIdentifier f) s a us"
  by (rule yields_andThen [OF expectIdentifier_yields])

section \<open>Literals\<close>

text \<open>Numbers are limited to the integers that a double holds exactly.\<close>

fun lit_ok :: "json \<Rightarrow> bool" where
  "lit_ok (JNum n) = (of_int \<lfloor>n\<rfloor> = n \<and> \<bar>\<lfloor>n\<rfloor>\<bar> \<le> 2 ^ 53)"
| "lit_ok (JArr _) = False"
| "lit_ok (JObj _) = False"
| "lit_ok _ = True"

fun lit_token :: "json \<Rightarrow> string" where
  "lit_token JNull = ''null''"
| "lit_token (JBool b) = (if b then ''true'' else ''false'')"
| "lit_token (JNum n) = int_text \<lfloor>n\<rfloor>"
| "lit_token (JStr s) = sql_quote s"
| "lit_token _ = []"

lemma int_token:
  "lower_token (int_text i) \<notin> {''null'', ''true'', ''false''}" "\<not> is_identifier (int_text i)" "int_text i \<noteq> '')''"
  "int_text i \<noteq> ''(''" "lower_token (int_text i) \<noteq> ''not''"
proof -
  obtain c d where cd: "int_text i = c # d" "list_all numeric_char (c # d)" "\<not> ident_start c" by (rule int_text_chars [of i]) blast
  then show "\<not> is_identifier (int_text i)" by (simp add: is_identifier_def starts_with_def)
  show "int_text i \<noteq> '')''" "int_text i \<noteq> ''(''" using cd by (auto simp: numeric_char_def is_digit_def byte_def)
  have "lower_char c = c" using cd(3) by (auto simp: lower_char_def ident_start_def)
  with cd show "lower_token (int_text i) \<notin> {''null'', ''true'', ''false''}" "lower_token (int_text i) \<noteq> ''not''"
    by (auto simp: lower_token_def ident_start_def byte_def)
qed

lemma quote_token:
  "lower_token (sql_quote s) \<notin> {''null'', ''true'', ''false''}" "\<not> is_identifier (sql_quote s)"
  "numeric_literal (sql_quote s) = None" "is_quoted (sql_quote s)" "butlast (tl (sql_quote s)) = s"
  "lower_token (sql_quote s) \<noteq> ''not''"
  by (auto simp: sql_quote_def lower_token_def lower_char_def byte_def is_identifier_def starts_with_def ident_start_def
      numeric_literal_def decimal_value_def is_digit_def is_quoted_def)

lemma parseValue_yields:
  assumes "stands s (lit_token v # ts)" "lit_ok v"
  shows "yields parseValue s v ts"
proof -
  note c = yields_andThen [OF consume_yields [OF assms(1)]]
  show ?thesis
  proof (cases v)
    case (JNum n)
    then have "to_double (of_int \<lfloor>n\<rfloor>) = Fin n" using to_double_int [of "\<lfloor>n\<rfloor>"] assms(2) by simp
    with JNum assms int_token [of "\<lfloor>n\<rfloor>"] show ?thesis unfolding parseValue_def
      by (intro yields_peek [OF assms(1)]) (auto simp: numeric_literal_int intro!: c yields_returns)
  qed (use assms quote_token in \<open>auto simp: parseValue_def keywords_simp intro!: yields_peek [OF assms(1)] c yields_returns\<close>)
qed

lemma yields_value:
  "stands s (lit_token v # ts) \<Longrightarrow> lit_ok v \<Longrightarrow> (\<And>s'. stands s' ts \<Longrightarrow> yields (f v) s' a us) \<Longrightarrow>
     yields (andThen parseValue f) s a us"
  by (rule yields_andThen [OF parseValue_yields])

lemma data_token: "token_ok (int_text i)" "token_ok (sql_quote s)"
  by (auto simp: token_ok_def)

lemma lit_token_ok: "lit_ok v \<Longrightarrow> token_ok (lit_token v)"
  by (cases v) (simp_all add: keywords_simp data_token)

lemma lit_token_start: "lit_ok v \<Longrightarrow> lit_token v \<noteq> '')'' \<and> lit_token v \<noteq> ''('' \<and> lower_token (lit_token v) \<noteq> ''not''"
  using int_token quote_token by (cases v) (auto simp: keywords_simp sql_quote_def)

fun expr_ok :: "expr \<Rightarrow> bool" where
  "expr_ok (ELit v) = lit_ok v"
| "expr_ok (ECol c) = ident_ok c"

fun expr_token :: "expr \<Rightarrow> string" where
  "expr_token (ELit v) = lit_token v"
| "expr_token (ECol c) = c"

lemma lit_no_column: "lit_ok v \<Longrightarrow> is_identifier (lit_token v) \<Longrightarrow> lower_token (lit_token v) \<in> {''null'', ''true'', ''false''}"
  using int_token quote_token by (cases v) (auto simp: keywords_simp)

lemma parseExpression_yields:
  assumes "stands s (expr_token e # ts)" "expr_ok e"
  shows "yields parseExpression s e ts"
proof (cases e)
  case (ELit v)
  with assms lit_no_column [of v] show ?thesis unfolding parseExpression_def
    by (intro yields_peek [OF assms(1)]) (auto intro!: yields_value yields_returns)
next
  case (ECol c)
  with assms ident_keyword [of c] show ?thesis unfolding parseExpression_def
    by (intro yields_peek [OF assms(1)]) (auto simp: ident_ok_def intro!: yields_consume yields_returns)
qed

lemma yields_expression:
  "stands s (expr_token e # ts) \<Longrightarrow> expr_ok e \<Longrightarrow> (\<And>s'. stands s' ts \<Longrightarrow> yields (f e) s' a us) \<Longrightarrow>
     yields (andThen parseExpression f) s a us"
  by (rule yields_andThen [OF parseExpression_yields])

lemma expr_token_start: "expr_ok e \<Longrightarrow> expr_token e \<noteq> '')'' \<and> expr_token e \<noteq> ''('' \<and> lower_token (expr_token e) \<noteq> ''not''"
  using lit_token_start ident_symbol ident_keyword by (cases e) auto

lemma expr_token_ok: "expr_ok e \<Longrightarrow> token_ok (expr_token e)"
  using lit_token_ok ident_token by (cases e) auto

lemma parseInteger_yields:
  assumes "stands s (int_text (int k) # ts)" "int k < 2 ^ 53"
  shows "yields parseInteger s k ts"
proof -
  have "to_double (of_int (int k)) = Fin (of_int (int k))" using assms(2) by (intro to_double_int) simp
  moreover have "validateNonNegativeSafeInteger (Fin (of_int (int k))) = Inr (of_int (int k))"
    using assms(2) by (simp add: validateNonNegativeSafeInteger_def validateSafeInteger_Inr is_safe_integer_def max_safe_def)
  ultimately show ?thesis unfolding parseInteger_def
    by (intro yields_peek [OF assms(1)]) (auto simp: plain_integer_int intro!: yields_consume [OF assms(1)] yields_returns)
qed

section \<open>Lists\<close>

text \<open>The tokens of a list: those of its elements, with commas between.\<close>

definition more_tokens :: "('a \<Rightarrow> string list) \<Rightarrow> 'a list \<Rightarrow> string list" where
  "more_tokens T xs = concat (map (\<lambda>x. '','' # T x) xs)"

definition list_tokens :: "('a \<Rightarrow> string list) \<Rightarrow> 'a list \<Rightarrow> string list" where
  "list_tokens T xs = (case xs of [] \<Rightarrow> [] | y # ys \<Rightarrow> T y @ more_tokens T ys)"

lemma more_tokens_simps [simp]: "more_tokens T [] = []" "more_tokens T (x # xs) = '','' # T x @ more_tokens T xs"
  by (simp_all add: more_tokens_def)

lemma list_tokens_simps [simp]: "list_tokens T [] = []" "list_tokens T (x # xs) = T x @ more_tokens T xs"
  by (simp_all add: list_tokens_def)

text \<open>\<open>prints p T P\<close>: the action \<open>p\<close> reads back every \<open>x\<close> with \<open>P\<close> from its tokens \<open>T x\<close>.\<close>

definition prints :: "(pstate, 'a) act \<Rightarrow> ('a \<Rightarrow> string list) \<Rightarrow> ('a \<Rightarrow> bool) \<Rightarrow> bool" where
  "prints p T P \<longleftrightarrow>
     (\<forall>x s ts. P x \<longrightarrow> stands s (T x @ ts) \<longrightarrow> yields p s x ts) \<and> (\<forall>x. P x \<longrightarrow> T x \<noteq> [] \<and> hd (T x) \<noteq> '')'')"

lemma printsD: "prints p T P \<Longrightarrow> P x \<Longrightarrow> stands s (T x @ ts) \<Longrightarrow> yields p s x ts"
  and prints_start: "prints p T P \<Longrightarrow> P x \<Longrightarrow> token_of (T x @ ts) \<noteq> Some '')''"
  unfolding prints_def by (blast, cases "T x") auto

lemma comma_lower [simp]: "lower_token '','' = '',''" "lower_token ''('' = ''(''" "lower_token '')'' = '')''"
  by (simp_all add: keywords_simp)

lemma items_until_yields:
  assumes "prints p T P" "list_all P ys" "length ys < n" "stands s (list_tokens T ys @ '')'' # ts)"
  shows "yields (items_until p n xs) s (xs @ ys) ('')'' # ts)"
  using assms(2-)
proof (induction n arbitrary: s xs ys)
  case (Suc n)
  show ?case
  proof (cases ys)
    case Nil
    with Suc.prems(3) have st: "stands s ('')'' # ts)" by simp
    with Nil show ?thesis by (auto intro!: yields_peek [OF st] yields_returns)
  next
    case (Cons y ys')
    have st: "stands s (T y @ more_tokens T ys' @ '')'' # ts)" and y: "P y" using Suc.prems Cons by simp_all
    have rest: "yields (andThen peek (\<lambda>t. if t = Some '')'' then returns (xs @ [y])
       else andThen (consume_word '','') (\<lambda>_. andThen peek (\<lambda>t.
         if t = Some '')'' then fails ''Unexpected trailing comma'' else items_until p n (xs @ [y]))))) s'
       (xs @ ys) ('')'' # ts)" if s': "stands s' (more_tokens T ys' @ '')'' # ts)" for s'
    proof (cases ys')
      case Nil
      with s' have st': "stands s' ('')'' # ts)" by simp
      with Nil Cons show ?thesis by (auto intro!: yields_peek [OF st'] yields_returns)
    next
      case (Cons z zs)
      have z: "P z" using Suc.prems(1) Cons \<open>ys = y # ys'\<close> by simp
      have "yields (items_until p n (xs @ [y])) s2 ((xs @ [y]) @ ys') ('')'' # ts)"
        if "stands s2 (T z @ more_tokens T zs @ '')'' # ts)" for s2
        using that Suc.prems(1,2) Cons \<open>ys = y # ys'\<close> by (intro Suc.IH) auto
      with s' Cons \<open>ys = y # ys'\<close> prints_start [OF assms(1) z] show ?thesis
        by (intro yields_peek [OF s']) (auto intro!: yields_word yields_peek)
    qed
    show ?thesis unfolding items_until.simps
      by (rule yields_peek [OF st], simp only: prints_start [OF assms(1) y] if_False,
          rule yields_andThen [OF printsD [OF assms(1) y st]], rule rest)
  qed
qed simp

lemma more_items_yields:
  assumes "prints p T P" "list_all P ys" "length ys < n" "stands s (more_tokens T ys @ ts)" "token_of ts \<noteq> Some '',''"
  shows "yields (more_items p n xs) s (xs @ ys) ts"
  using assms(2-)
proof (induction n arbitrary: s xs ys)
  case (Suc n)
  show ?case
  proof (cases ys)
    case Nil
    with Suc.prems(3) have st: "stands s ts" by simp
    with Nil Suc.prems(4) show ?thesis by (auto intro!: yields_peek [OF st] yields_returns)
  next
    case (Cons y ys')
    have y: "P y" using Suc.prems Cons by simp
    have "yields (andThen p (\<lambda>x. more_items p n (xs @ [x]))) s' (xs @ ys) ts"
      if "stands s' (T y @ more_tokens T ys' @ ts)" for s'
    proof (rule yields_andThen [OF printsD [OF assms(1) y that]])
      fix s2 assume "stands s2 (more_tokens T ys' @ ts)"
      then have "yields (more_items p n (xs @ [y])) s2 ((xs @ [y]) @ ys') ts" using Suc.prems Cons by (intro Suc.IH) auto
      then show "yields (more_items p n (xs @ [y])) s2 (xs @ ys) ts" using Cons by simp
    qed
    with Cons Suc.prems(3) show ?thesis unfolding more_items.simps
      by (intro yields_peek [OF Suc.prems(3)]) (auto intro!: yields_consume)
  qed
qed simp

lemma items_yields:
  assumes "prints p T P" "list_all P ys" "ys \<noteq> []" "length ys \<le> n" "stands s (list_tokens T ys @ ts)" "token_of ts \<noteq> Some '',''"
  shows "yields (items p n) s ys ts"
proof -
  obtain y ys' where y: "ys = y # ys'" using assms(3) by (cases ys) auto
  then have st: "stands s (T y @ more_tokens T ys' @ ts)" using assms(5) by simp
  show ?thesis unfolding items_def
  proof (rule yields_andThen [OF printsD [OF assms(1) _ st]])
    fix s' assume "stands s' (more_tokens T ys' @ ts)"
    then have "yields (more_items p n [y]) s' ([y] @ ys') ts"
      using assms y by (intro more_items_yields [OF assms(1)]) auto
    then show "yields (more_items p n [y]) s' ys ts" using y by simp
  qed (use assms(2) y in simp)
qed

lemma prints_ident: "prints expectIdentifier (\<lambda>c. [c]) ident_ok"
  using ident_symbol by (auto simp: prints_def intro!: expectIdentifier_yields)

lemma prints_value: "prints parseValue (\<lambda>v. [lit_token v]) lit_ok"
  using lit_token_start by (auto simp: prints_def intro!: parseValue_yields)

lemma prints_expression: "prints parseExpression (\<lambda>e. [expr_token e]) expr_ok"
  using expr_token_start by (auto simp: prints_def intro!: parseExpression_yields)

end
