(* ===== verification/Sql_Roundtrip_Where.thy ===== *)
theory Sql_Roundtrip_Where
  imports Sql_Roundtrip
begin

text \<open>The printed form of a \<open>WHERE\<close> clause, and that the parser reads it back.\<close>

fun op_token :: "cmp_op \<Rightarrow> string" where
  "op_token OpEq = ''=''"
| "op_token OpNe = ''!=''"
| "op_token OpGt = ''>''"
| "op_token OpGe = ''>=''"
| "op_token OpLt = ''<''"
| "op_token OpLe = ''<=''"
| "op_token OpLike = ''like''"
| "op_token OpIn = ''in''"
| "op_token OpBetween = ''between''"

abbreviation expr_tokens :: "expr \<Rightarrow> string list" where
  "expr_tokens e \<equiv> [expr_token e]"

fun right_ok :: "cmp_op \<Rightarrow> operand \<Rightarrow> bool" where
  "right_ok OpIn r = (case r of Many es \<Rightarrow> es \<noteq> [] \<and> list_all expr_ok es | One _ \<Rightarrow> False)"
| "right_ok OpBetween r = (case r of Many es \<Rightarrow> length es = 2 \<and> list_all expr_ok es | One _ \<Rightarrow> False)"
| "right_ok _ r = (case r of One e \<Rightarrow> expr_ok e | Many _ \<Rightarrow> False)"

definition right_tokens :: "cmp_op \<Rightarrow> operand \<Rightarrow> string list" where
  "right_tokens opr r =
     (case r of
        One e \<Rightarrow> expr_tokens e
      | Many es \<Rightarrow>
          if opr = OpIn then ''('' # list_tokens expr_tokens es @ ['')'']
          else (case es of [low, high] \<Rightarrow> [expr_token low, ''and'', expr_token high] | _ \<Rightarrow> []))"

fun where_ok :: "where_clause \<Rightarrow> bool" where
  "where_ok (WAnd l r) = (where_ok l \<and> where_ok r)"
| "where_ok (WOr l r) = (where_ok l \<and> where_ok r)"
| "where_ok (WNot c) = where_ok c"
| "where_ok (WIsNull _ e) = expr_ok e"
| "where_ok (WCmp e opr r) = (expr_ok e \<and> right_ok opr r)"

fun where_tokens :: "where_clause \<Rightarrow> string list" where
  "where_tokens (WAnd l r) = ''('' # where_tokens l @ ''and'' # where_tokens r @ ['')'']"
| "where_tokens (WOr l r) = ''('' # where_tokens l @ ''or'' # where_tokens r @ ['')'']"
| "where_tokens (WNot c) = ''not'' # where_tokens c"
| "where_tokens (WIsNull yes e) = [expr_token e, ''is''] @ (if yes then [''null''] else [''not'', ''null''])"
| "where_tokens (WCmp e opr r) = [expr_token e, op_token opr] @ right_tokens opr r"

section \<open>Comparisons\<close>

lemma op_token_lower [simp]: "lower_token (op_token opr) = op_token opr"
  by (cases opr) (simp_all add: keywords_simp)

lemma op_token_map [simp]: "map_of cmp_ops (op_token opr) = Some opr" "op_token opr \<noteq> ''is''"
  by (cases opr; simp add: cmp_ops_def)+

lemma word_lower [simp]: "lower_token ''and'' = ''and''" "lower_token ''or'' = ''or''" "lower_token ''not'' = ''not''"
    "lower_token ''is'' = ''is''" "lower_token ''null'' = ''null''" "lower_token ''primary'' = ''primary''"
    "lower_token ''where'' = ''where''" "lower_token ''order'' = ''order''" "lower_token ''limit'' = ''limit''"
    "lower_token ''offset'' = ''offset''"
  by (simp_all add: keywords_simp)

lemma list_tokens_length: "es \<noteq> [] \<Longrightarrow> length es \<le> length (list_tokens expr_tokens es)"
proof (cases es)
  case (Cons e es')
  have "length es' \<le> length (more_tokens expr_tokens es')" by (induction es') auto
  with Cons show ?thesis by simp
qed simp

lemma parse_right_yields:
  assumes "right_ok opr r" "length (right_tokens opr r) \<le> n" "stands s (right_tokens opr r @ ts)"
  shows "yields (parse_right n opr) s r ts"
proof (cases r)
  case (One e)
  with assms(1) have "expr_ok e" "opr \<noteq> OpIn" "opr \<noteq> OpBetween" by (cases opr; simp)+
  with One assms(3) show ?thesis
    by (cases opr) (auto simp: parse_right_def right_tokens_def intro!: yields_expression yields_returns)
next
  case (Many es)
  show ?thesis
  proof (cases "opr = OpIn")
    case True
    with Many assms have es: "es \<noteq> []" "list_all expr_ok es" "stands s (''('' # list_tokens expr_tokens es @ '')'' # ts)"
      "length es \<le> n"
      using list_tokens_length [of es] by (auto simp: right_tokens_def)
    have its: "yields (items parseExpression n) s' es ('')'' # ts)" if "stands s' (list_tokens expr_tokens es @ '')'' # ts)" for s'
      using es that by (intro items_yields [OF prints_expression]) auto
    have "yields (andThen (items parseExpression n) (\<lambda>es. andThen (consume_word '')'') (\<lambda>_. returns (Many es)))) s'
        (Many es) ts" if "stands s' (list_tokens expr_tokens es @ '')'' # ts)" for s'
      by (rule yields_andThen [OF its [OF that]], rule yields_word, assumption) (auto intro: yields_returns)
    with True Many es(3) show ?thesis
      by (auto simp: parse_right_def intro!: yields_word [OF es(3)])
  next
    case False
    with Many assms(1) have "opr = OpBetween" "length es = 2" "list_all expr_ok es" by (cases opr; simp)+
    then obtain low high where "es = [low, high]" "expr_ok low" "expr_ok high" "opr = OpBetween"
      by (auto simp: numeral_2_eq_2 length_Suc_conv)
    with Many assms(3) show ?thesis
      by (auto simp: parse_right_def right_tokens_def intro!: yields_expression yields_word yields_returns)
  qed
qed

lemma parse_is_yields:
  assumes "stands s ((if yes then [''null''] else [''not'', ''null'']) @ ts)"
  shows "yields (parse_is e) s (WIsNull yes e) ts"
proof (cases yes)
  case True
  with assms have st: "stands s (''null'' # ts)" by simp
  with True show ?thesis
    unfolding parse_is_def Let_def by (intro yields_peek_lower [OF st]) (auto intro!: yields_word [OF st] yields_returns)
next
  case False
  with assms have st: "stands s (''not'' # ''null'' # ts)" by simp
  have "yields (andThen consume (\<lambda>_. returns ())) s () (''null'' # ts)"
    by (rule yields_consume [OF st]) (rule yields_returns)
  then have "yields (andThen (andThen consume (\<lambda>_. returns ())) (\<lambda>_. andThen (consume_word ''null'') (\<lambda>_. returns (WIsNull False e))))
      s (WIsNull False e) ts"
    by (rule yields_andThen) (auto intro!: yields_word yields_returns)
  with False show ?thesis unfolding parse_is_def Let_def by (intro yields_peek_lower [OF st]) simp
qed

lemma parseComparisonClause_yields:
  assumes "where_ok w" "\<exists>e yes opr r. w = WIsNull yes e \<or> w = WCmp e opr r" "length (where_tokens w) \<le> n"
    and "stands s (where_tokens w @ ts)"
  shows "yields (parseComparisonClause n) s w ts"
proof -
  from assms(2) consider (isnull) yes e where "w = WIsNull yes e" | (cmp) e opr r where "w = WCmp e opr r" by blast
  then show ?thesis
  proof cases
    case isnull
    have "yields (andThen peek_lower (\<lambda>t. if t = Some ''is'' then andThen consume (\<lambda>_. parse_is e) else X t)) s' w ts"
      if "stands s' (''is'' # (if yes then [''null''] else [''not'', ''null'']) @ ts)" for s' X
      by (rule yields_peek_lower [OF that]) (use isnull in \<open>auto intro!: yields_consume [OF that] parse_is_yields\<close>)
    with isnull assms(1,4) show ?thesis unfolding parseComparisonClause_def
      by (intro yields_expression [where e = e and ts = "''is'' # (if yes then [''null''] else [''not'', ''null'']) @ ts"]) auto
  next
    case cmp
    have right: "yields (andThen (parse_right n opr) (\<lambda>r. returns (WCmp e opr r))) s' w ts"
      if "stands s' (right_tokens opr r @ ts)" for s'
      using cmp assms(1,3) that by (auto intro!: yields_andThen [OF parse_right_yields] yields_returns)
    have "yields (andThen peek_lower (\<lambda>t. if t = Some ''is'' then andThen consume (\<lambda>_. parse_is e)
       else (case t of None \<Rightarrow> fails ''Expected comparison operator''
             | Some w \<Rightarrow> (case map_of cmp_ops w of None \<Rightarrow> fails ''Expected comparison operator''
                | Some opr \<Rightarrow> andThen consume (\<lambda>_. andThen (parse_right n opr) (\<lambda>r. returns (WCmp e opr r))))))) s' w ts"
      if "stands s' (op_token opr # right_tokens opr r @ ts)" for s'
      by (rule yields_peek_lower [OF that]) (use right in \<open>auto intro!: yields_consume [OF that]\<close>)
    with cmp assms(1,4) show ?thesis unfolding parseComparisonClause_def
      by (intro yields_expression [where e = e and ts = "op_token opr # right_tokens opr r @ ts"]) auto
  qed
qed

section \<open>Clauses\<close>

declare parseOrClause.simps [simp del] or_loop.simps [simp del] parseAndClause.simps [simp del]
  and_loop.simps [simp del] parseNotClause.simps [simp del]

text \<open>The loops stop at a token that is not theirs.\<close>

lemma or_loop_stops:
  assumes "stands s ts" "map_option lower_token (token_of ts) \<noteq> Some ''or''"
  shows "yields (or_loop (Suc n) l) s l ts"
  unfolding or_loop.simps
  by (rule yields_peek_lower [OF assms(1)], simp only: assms(2) if_False, rule yields_returns [OF assms(1)])

lemma and_loop_stops:
  assumes "stands s ts" "map_option lower_token (token_of ts) \<noteq> Some ''and''"
  shows "yields (and_loop (Suc n) l) s l ts"
  unfolding and_loop.simps
  by (rule yields_peek_lower [OF assms(1)], simp only: assms(2) if_False, rule yields_returns [OF assms(1)])

text \<open>Their other case, and the calls above \<open>parseNotClause\<close>.\<close>

lemma or_loop_next:
  assumes "stands s (''or'' # ts)" "\<And>s'. stands s' ts \<Longrightarrow> yields (parseAndClause n) s' r us"
    and "\<And>s'. stands s' us \<Longrightarrow> yields (or_loop n (WOr l r)) s' w vs"
  shows "yields (or_loop (Suc n) l) s w vs"
  unfolding or_loop.simps
  by (rule yields_peek_lower [OF assms(1)], simp, rule yields_consume [OF assms(1)], rule yields_andThen,
      erule assms(2), erule assms(3))

lemma and_loop_next:
  assumes "stands s (''and'' # ts)" "\<And>s'. stands s' ts \<Longrightarrow> yields (parseNotClause n) s' r us"
    and "\<And>s'. stands s' us \<Longrightarrow> yields (and_loop n (WAnd l r)) s' w vs"
  shows "yields (and_loop (Suc n) l) s w vs"
  unfolding and_loop.simps
  by (rule yields_peek_lower [OF assms(1)], simp, rule yields_consume [OF assms(1)], rule yields_andThen,
      erule assms(2), erule assms(3))

lemma parseAndClause_one:
  assumes "yields (parseNotClause (Suc n)) s w ts" "map_option lower_token (token_of ts) \<noteq> Some ''and''"
  shows "yields (parseAndClause (Suc (Suc n))) s w ts"
  unfolding parseAndClause.simps by (rule yields_andThen [OF assms(1)], rule and_loop_stops [OF _ assms(2)])

lemma parseOrClause_one:
  assumes "yields (parseAndClause (Suc n)) s w ts" "map_option lower_token (token_of ts) \<noteq> Some ''or''"
  shows "yields (parseOrClause (Suc (Suc n))) s w ts"
  unfolding parseOrClause.simps by (rule yields_andThen [OF assms(1)], rule or_loop_stops [OF _ assms(2)])

lemma parseNotClause_parens:
  assumes "stands s (''('' # ts)" "\<And>s'. stands s' ts \<Longrightarrow> yields (parseOrClause n) s' w ('')'' # us)"
  shows "yields (parseNotClause (Suc n)) s w us"
  unfolding parseNotClause.simps
  by (rule yields_peek [OF assms(1)], simp, rule yields_word [OF assms(1)], simp, rule yields_andThen [OF assms(2)],
      assumption, rule yields_word, assumption, simp, rule yields_returns)

lemma where_length: "where_ok w \<Longrightarrow> 2 \<le> length (where_tokens w)"
  by (induction w) auto

lemma parseNotClause_yields:
  assumes "where_ok w" "3 * length (where_tokens w) \<le> n" "stands s (where_tokens w @ ts)"
  shows "yields (parseNotClause n) s w ts"
  using assms
proof (induction w arbitrary: n s ts)
  case (WNot c)
  then obtain m where n: "n = Suc m" "3 * length (where_tokens c) \<le> m" by (cases n) auto
  from WNot.prems have st: "stands s (''not'' # where_tokens c @ ts)" by simp
  show ?case unfolding n(1) parseNotClause.simps
    by (rule yields_peek [OF st])
      (use WNot.prems n in \<open>auto intro!: yields_consume [OF st] yields_andThen [OF WNot.IH] yields_returns\<close>)
next
  case (WAnd l r)
  then obtain m where n: "n = Suc (Suc (Suc (Suc (Suc (Suc m)))))" "3 * length (where_tokens l) \<le> m" "3 * length (where_tokens r) \<le> m"
    by (intro that [of "n - 6"]) auto
  let ?r = "where_tokens r @ '')'' # ts"
  from WAnd.prems have st: "stands s (''('' # where_tokens l @ ''and'' # ?r)" and ok: "where_ok l" "where_ok r" by simp_all
  note l = WAnd.IH(1) [OF ok(1), where ts = "''and'' # ?r"] and r = WAnd.IH(2) [OF ok(2), where ts = "'')'' # ts"]
  show ?case unfolding n(1)
  proof (rule parseNotClause_parens [OF st], rule parseOrClause_one, unfold parseAndClause.simps, rule yields_andThen [OF l])
    fix s' assume "stands s' (''and'' # ?r)"
    then show "yields (and_loop (Suc (Suc (Suc m))) l) s' (WAnd l r) ('')'' # ts)"
      by (rule and_loop_next) (use n in \<open>auto intro!: r and_loop_stops\<close>)
  qed (use n in auto)
next
  case (WOr l r)
  then obtain m where n: "n = Suc (Suc (Suc (Suc (Suc (Suc m)))))" "3 * length (where_tokens l) \<le> m" "3 * length (where_tokens r) \<le> m"
    by (intro that [of "n - 6"]) auto
  let ?r = "where_tokens r @ '')'' # ts"
  from WOr.prems have st: "stands s (''('' # where_tokens l @ ''or'' # ?r)" and ok: "where_ok l" "where_ok r" by simp_all
  note l = WOr.IH(1) [OF ok(1), where ts = "''or'' # ?r"] and r = WOr.IH(2) [OF ok(2), where ts = "'')'' # ts"]
  show ?case unfolding n(1)
  proof (rule parseNotClause_parens [OF st], unfold parseOrClause.simps, rule yields_andThen [OF parseAndClause_one [OF l]])
    fix s' assume "stands s' (''or'' # ?r)"
    then show "yields (or_loop (Suc (Suc (Suc (Suc m)))) l) s' (WOr l r) ('')'' # ts)"
      by (rule or_loop_next [where r = r and us = "'')'' # ts"]) (use n in \<open>auto intro!: parseAndClause_one [OF r] or_loop_stops\<close>)
  qed (use n in auto)
next
  case (WIsNull yes e)
  then obtain m where n: "n = Suc m" by (cases n) auto
  have st: "stands s (where_tokens (WIsNull yes e) @ ts)" by (rule WIsNull)
  show ?case unfolding n parseNotClause.simps
    by (rule yields_peek [OF st])
      (use WIsNull n expr_token_start [of e] st in \<open>auto intro!: parseComparisonClause_yields\<close>)
next
  case (WCmp e opr r)
  then obtain m where n: "n = Suc m" by (cases n) auto
  have st: "stands s (where_tokens (WCmp e opr r) @ ts)" by (rule WCmp)
  show ?case unfolding n parseNotClause.simps
    by (rule yields_peek [OF st])
      (use WCmp n expr_token_start [of e] st in \<open>auto intro!: parseComparisonClause_yields\<close>)
qed

end
