(* ===== verification/Sql_Roundtrip_Stmt.thy ===== *)
theory Sql_Roundtrip_Stmt
  imports Sql_Roundtrip_Where
begin

text \<open>The printed form of a statement, and that \<open>parse_sql\<close> reads it back.\<close>

section \<open>Printing\<close>

fun type_token :: "col_type \<Rightarrow> string" where
  "type_token TString = ''string''"
| "type_token TNumber = ''number''"
| "type_token TBoolean = ''boolean''"
| "type_token TAny = ''any''"

definition modifier_tokens :: "column \<Rightarrow> string list" where
  "modifier_tokens d =
     (if c_nullable d then [] else [''not'', ''null'']) @
     (case c_default d of None \<Rightarrow> [] | Some v \<Rightarrow> [''default'', lit_token v])"

definition column_tokens :: "column \<Rightarrow> string list" where
  "column_tokens d = [c_name d, type_token (c_type d)] @ modifier_tokens d"

fun create_tokens :: "column list \<Rightarrow> string option \<Rightarrow> string list" where
  "create_tokens [] pk = (case pk of None \<Rightarrow> [] | Some p \<Rightarrow> [''primary'', ''key'', ''('', p, '')''])"
| "create_tokens (d # ds) pk =
     column_tokens d @ (if ds = [] \<and> pk = None then [] else '','' # create_tokens ds pk)"

definition where_part :: "where_clause option \<Rightarrow> string list" where
  "where_part w = (case w of None \<Rightarrow> [] | Some c \<Rightarrow> ''where'' # where_tokens c)"

definition order_part :: "(string \<times> bool) option \<Rightarrow> string list" where
  "order_part order =
     (case order of None \<Rightarrow> [] | Some (c, desc) \<Rightarrow> [''order'', ''by'', c, if desc then ''desc'' else ''asc''])"

definition count_part :: "string \<Rightarrow> nat option \<Rightarrow> string list" where
  "count_part w k = (case k of None \<Rightarrow> [] | Some i \<Rightarrow> [w, int_text (int i)])"

abbreviation name_tokens :: "string \<Rightarrow> string list" where
  "name_tokens c \<equiv> [c]"

abbreviation value_tokens :: "json \<Rightarrow> string list" where
  "value_tokens v \<equiv> [lit_token v]"

definition paren_tokens :: "('a \<Rightarrow> string list) \<Rightarrow> 'a list \<Rightarrow> string list" where
  "paren_tokens T xs = ''('' # list_tokens T xs @ ['')'']"

definition set_tokens :: "string \<times> json \<Rightarrow> string list" where
  "set_tokens p = [fst p, ''='', lit_token (snd p)]"

fun stmt_tokens :: "statement \<Rightarrow> string list" where
  "stmt_tokens (SCreate n cols pk) = [''create'', ''table'', n, ''(''] @ create_tokens cols pk @ ['')'']"
| "stmt_tokens (SInsert n cols vss) =
     [''insert'', ''into'', n] @ (if cols = [] then [] else paren_tokens name_tokens cols) @
     ''values'' # list_tokens (paren_tokens value_tokens) vss"
| "stmt_tokens (SSelect q) =
     ''select'' # (case s_columns q of None \<Rightarrow> [''*''] | Some cs \<Rightarrow> list_tokens name_tokens cs) @
     [''from'', s_table q] @ where_part (s_where q) @ order_part (s_order q) @
     count_part ''limit'' (s_limit q) @ count_part ''offset'' (s_offset q)"
| "stmt_tokens (SUpdate n sets w) = [''update'', n, ''set''] @ list_tokens set_tokens sets @ where_part w"
| "stmt_tokens (SDelete n w) = [''delete'', ''from'', n] @ where_part w"
| "stmt_tokens (SDrop n) = [''drop'', ''table'', n]"

definition print_sql :: "statement \<Rightarrow> string" where
  "print_sql st = tokens_text (stmt_tokens st)"

text \<open>The statements the grammar can express.\<close>

definition opt_ok :: "('a \<Rightarrow> bool) \<Rightarrow> 'a option \<Rightarrow> bool" where
  "opt_ok P x = (case x of None \<Rightarrow> True | Some a \<Rightarrow> P a)"

lemma opt_ok_simps [simp]: "opt_ok P None" "opt_ok P (Some a) = P a"
  by (simp_all add: opt_ok_def)

fun printable :: "statement \<Rightarrow> bool" where
  "printable (SCreate n cols pk) =
     (ident_ok n \<and> cols \<noteq> [] \<and> distinct (map c_name cols) \<and> list_all (\<lambda>d. ident_ok (c_name d) \<and> opt_ok lit_ok (c_default d)) cols \<and>
      opt_ok (\<lambda>p. ident_ok p \<and> p \<in> c_name ` set cols) pk)"
| "printable (SInsert n cols vss) =
     (ident_ok n \<and> list_all ident_ok cols \<and> vss \<noteq> [] \<and> list_all (list_all lit_ok) vss)"
| "printable (SSelect q) =
     (opt_ok (\<lambda>cs. cs \<noteq> [] \<and> list_all ident_ok cs) (s_columns q) \<and> ident_ok (s_table q) \<and> opt_ok where_ok (s_where q) \<and>
      opt_ok (ident_ok \<circ> fst) (s_order q) \<and> opt_ok (\<lambda>k. int k < 2 ^ 53) (s_limit q) \<and> opt_ok (\<lambda>k. int k < 2 ^ 53) (s_offset q))"
| "printable (SUpdate n sets w) =
     (ident_ok n \<and> sets \<noteq> [] \<and> list_all (\<lambda>p. ident_ok (fst p) \<and> lit_ok (snd p)) sets \<and> opt_ok where_ok w)"
| "printable (SDelete n w) = (ident_ok n \<and> opt_ok where_ok w)"
| "printable (SDrop n) = ident_ok n"

section \<open>The tokens are tokens\<close>

lemma list_tokens_ok: "list_all P xs \<Longrightarrow> (\<And>x. P x \<Longrightarrow> list_all token_ok (T x)) \<Longrightarrow> list_all token_ok (list_tokens T xs)"
proof (cases xs)
  case (Cons x xs')
  assume *: "list_all P xs" "\<And>x. P x \<Longrightarrow> list_all token_ok (T x)"
  have "list_all P ys \<Longrightarrow> list_all token_ok (more_tokens T ys)" for ys
    by (induction ys) (auto simp: * keywords_simp)
  with * Cons show ?thesis by simp
qed simp

lemma op_token_ok: "token_ok (op_token opr)"
  by (cases opr) (simp_all add: keywords_simp)

lemma right_tokens_ok: "right_ok opr r \<Longrightarrow> list_all token_ok (right_tokens opr r)"
  by (cases opr; cases r)
    (auto simp: right_tokens_def expr_token_ok keywords_simp numeral_2_eq_2 length_Suc_conv intro!: list_tokens_ok)

lemma where_tokens_ok: "where_ok w \<Longrightarrow> list_all token_ok (where_tokens w)"
  by (induction w) (auto simp: keywords_simp expr_token_ok op_token_ok right_tokens_ok)

lemma type_token_ok: "token_ok (type_token ty)" "lower_token (type_token ty) = type_token ty"
  by (cases ty; simp add: keywords_simp)+

lemma create_tokens_ok:
  "list_all (\<lambda>d. ident_ok (c_name d) \<and> opt_ok lit_ok (c_default d)) cols \<Longrightarrow> opt_ok ident_ok pk \<Longrightarrow>
     list_all token_ok (create_tokens cols pk)"
  by (induction cols) (auto simp: column_tokens_def modifier_tokens_def keywords_simp type_token_ok ident_token lit_token_ok
      split: option.splits)

lemma parts_ok:
  "opt_ok where_ok w \<Longrightarrow> list_all token_ok (where_part w)"
  "opt_ok (ident_ok \<circ> fst) order \<Longrightarrow> list_all token_ok (order_part order)"
  "token_ok u \<Longrightarrow> list_all token_ok (count_part u k)"
  by (auto simp: where_part_def order_part_def count_part_def keywords_simp where_tokens_ok ident_token data_token
      split: option.splits prod.splits)

lemma paren_tokens_ok:
  "list_all P xs \<Longrightarrow> (\<And>x. P x \<Longrightarrow> list_all token_ok (T x)) \<Longrightarrow> list_all token_ok (paren_tokens T xs)"
  by (simp add: paren_tokens_def keywords_simp list_tokens_ok)

lemma stmt_tokens_ok: "printable st \<Longrightarrow> list_all token_ok (stmt_tokens st)"
proof (cases st)
  case (SCreate n cols pk)
  moreover assume "printable st"
  ultimately show ?thesis by (auto simp: keywords_simp ident_token opt_ok_def [of _ pk] intro!: create_tokens_ok split: option.splits)
next
  case (SInsert n cols vss)
  moreover assume "printable st"
  ultimately show ?thesis
    by (auto simp: keywords_simp ident_token lit_token_ok intro!: paren_tokens_ok [where P = ident_ok]
        list_tokens_ok [where P = "list_all lit_ok"] paren_tokens_ok [where P = lit_ok])
next
  case (SUpdate n sets w)
  moreover assume "printable st"
  ultimately show ?thesis
    by (auto simp: keywords_simp ident_token lit_token_ok set_tokens_def parts_ok
        intro!: list_tokens_ok [where P = "\<lambda>p. ident_ok (fst p) \<and> lit_ok (snd p)"])
next
  case (SSelect q)
  moreover assume "printable st"
  ultimately show ?thesis
    by (auto simp: keywords_simp ident_token parts_ok opt_ok_def [of _ "s_columns q"]
        intro!: list_tokens_ok [where P = ident_ok] split: option.splits)
qed (auto simp: keywords_simp ident_token parts_ok)

section \<open>Clauses and counts\<close>

lemma parse_where_yields:
  assumes "opt_ok where_ok w" "3 * length (where_part w) + 4 \<le> n" "stands s (where_part w @ ts)"
    and "map_option lower_token (token_of ts) \<notin> {Some ''where'', Some ''and'', Some ''or''}"
  shows "yields (parse_where n) s w ts"
proof (cases w)
  case None
  with assms(3) have st: "stands s ts" by (simp add: where_part_def)
  show ?thesis unfolding parse_where_def
    by (rule yields_peek_lower [OF st]) (use None assms(4) st in \<open>auto intro: yields_returns\<close>)
next
  case (Some c)
  with assms have ok: "where_ok c" and st: "stands s (''where'' # where_tokens c @ ts)"
    and n: "3 * length (where_tokens c) + 4 \<le> n" by (simp_all add: where_part_def)
  obtain m where m: "n = Suc (Suc (Suc m))" "3 * length (where_tokens c) \<le> Suc m"
    using n by (intro that [of "n - 3"]) auto
  have "yields (parseOrClause n) s' c ts" if "stands s' (where_tokens c @ ts)" for s'
    unfolding m(1) using assms(4) m(2)
    by (intro parseOrClause_one parseAndClause_one parseNotClause_yields [OF ok _ that]) auto
  then have "yields (andThen (parseOrClause n) (\<lambda>c. returns (Some c))) s' w ts" if "stands s' (where_tokens c @ ts)" for s'
    using that Some by (auto intro!: yields_andThen yields_returns)
  then show ?thesis unfolding parse_where_def
    by (intro yields_peek_lower [OF st]) (auto intro!: yields_consume [OF st])
qed

lemma parse_order_yields:
  assumes "opt_ok (ident_ok \<circ> fst) order" "stands s (order_part order @ ts)"
    and "map_option lower_token (token_of ts) \<noteq> Some ''order''"
  shows "yields parse_order s order ts"
proof (cases order)
  case None
  with assms(2) have st: "stands s ts" by (simp add: order_part_def)
  show ?thesis unfolding parse_order_def
    by (rule yields_peek_lower [OF st]) (use None assms(3) st in \<open>auto intro: yields_returns\<close>)
next
  case (Some p)
  then obtain c desc where p: "order = Some (c, desc)" by (cases p) auto
  let ?d = "if desc then ''desc'' else ''asc''"
  have d: "lower_token ?d = ?d" by (simp add: keywords_simp)
  from assms(1,2) p have c: "ident_ok c" and st: "stands s (''order'' # ''by'' # c # ?d # ts)"
    by (simp_all add: order_part_def)
  have dir: "yields (andThen peek_lower (\<lambda>t. if t = Some ''asc'' \<or> t = Some ''desc''
         then andThen consume (\<lambda>d. returns (Some (c, lower_token d = ''desc''))) else returns (Some (c, False)))) s' order ts"
    if "stands s' (?d # ts)" for s'
    by (rule yields_peek_lower [OF that]) (use that p d in \<open>auto intro!: yields_consume [OF that] yields_returns\<close>)
  show ?thesis unfolding parse_order_def
    by (rule yields_peek_lower [OF st], simp, rule yields_consume [OF st], rule yields_word, assumption, simp add: keywords_simp,
        rule yields_ident, assumption, rule c, rule dir)
qed

lemma parse_count_yields:
  assumes "opt_ok (\<lambda>k. int k < 2 ^ 53) k" "lower_token w = w" "stands s (count_part w k @ ts)"
    and "map_option lower_token (token_of ts) \<noteq> Some w"
  shows "yields (parse_count w) s k ts"
proof (cases k)
  case None
  with assms(3) have st: "stands s ts" by (simp add: count_part_def)
  show ?thesis unfolding parse_count_def
    by (rule yields_peek_lower [OF st]) (use None assms(4) st in \<open>auto intro: yields_returns\<close>)
next
  case (Some i)
  with assms have st: "stands s (w # int_text (int i) # ts)" and i: "int i < 2 ^ 53" by (simp_all add: count_part_def)
  show ?thesis unfolding parse_count_def
    by (rule yields_peek_lower [OF st], simp add: assms(2), rule yields_consume [OF st],
        rule yields_andThen, erule parseInteger_yields [OF _ i], simp add: Some yields_returns)
qed

section \<open>SELECT, DELETE and DROP TABLE\<close>

lemma part_start:
  "token_of (where_part w @ ts) = (if w = None then token_of ts else Some ''where'')"
  "token_of (order_part order @ ts) = (if order = None then token_of ts else Some ''order'')"
  "token_of (count_part u k @ ts) = (if k = None then token_of ts else Some u)"
  "token_of (count_part u k) = (if k = None then None else Some u)"
  by (auto simp: where_part_def order_part_def count_part_def split: option.splits)

lemma parse_selection_yields:
  assumes "opt_ok (\<lambda>cs. cs \<noteq> [] \<and> list_all ident_ok cs) cols"
    and "stands s ((case cols of None \<Rightarrow> [''*''] | Some cs \<Rightarrow> list_tokens name_tokens cs) @ ''from'' # ts)"
    and "length (case cols of None \<Rightarrow> [''*''] | Some cs \<Rightarrow> list_tokens name_tokens cs) \<le> n"
  shows "yields (parse_selection n) s cols (''from'' # ts)"
proof (cases cols)
  case None
  with assms(2) have st: "stands s (''*'' # ''from'' # ts)" by simp
  show ?thesis unfolding parse_selection_def
    by (rule yields_peek [OF st]) (auto simp: None keywords_simp intro!: yields_word [OF st] yields_returns)
next
  case (Some cs)
  with assms have st: "stands s (list_tokens name_tokens cs @ ''from'' # ts)" and cs: "cs \<noteq> []" "list_all ident_ok cs" by simp_all
  then obtain c cs' where c: "cs = c # cs'" "ident_ok c" by (cases cs) auto
  have "length ys \<le> length (more_tokens name_tokens ys)" for ys by (induction ys) auto
  from this [of cs'] have "length cs \<le> n" using assms(3) Some c by simp
  then have its: "yields (items expectIdentifier n) s cs (''from'' # ts)"
    using st cs by (intro items_yields [OF prints_ident]) auto
  show ?thesis unfolding parse_selection_def
    by (rule yields_peek [OF st], use c ident_symbol [of c] in simp, rule yields_andThen [OF its [unfolded c(1)]])
      (simp add: Some c yields_returns)
qed

lemma parseSelect_yields:
  assumes "printable (SSelect q)" "3 * length (stmt_tokens (SSelect q)) + 4 \<le> n" "stands s (stmt_tokens (SSelect q))"
  shows "yields (parseSelect n) s (SSelect q) []"
proof -
  let ?sel = "case s_columns q of None \<Rightarrow> [''*''] | Some cs \<Rightarrow> list_tokens name_tokens cs"
  let ?off = "count_part ''offset'' (s_offset q) @ []"
  let ?lim = "count_part ''limit'' (s_limit q) @ ?off"
  let ?ord = "order_part (s_order q) @ ?lim"
  let ?whr = "where_part (s_where q) @ ?ord"
  have st: "stands s (''select'' # ?sel @ ''from'' # s_table q # ?whr)" using assms(3) by simp
  have len: "length ?sel \<le> n" "3 * length (where_part (s_where q)) + 4 \<le> n" using assms(2) by auto
  have q: "\<lparr>s_columns = s_columns q, s_table = s_table q, s_where = s_where q, s_order = s_order q,
      s_limit = s_limit q, s_offset = s_offset q\<rparr> = q" by (cases q) simp
  have tail: "yields (andThen (parse_where n) (\<lambda>w. andThen parse_order (\<lambda>order.
     andThen (parse_count ''limit'') (\<lambda>limit. andThen (parse_count ''offset'') (\<lambda>offset.
     returns (SSelect \<lparr>s_columns = s_columns q, s_table = s_table q, s_where = w, s_order = order,
       s_limit = limit, s_offset = offset\<rparr>)))))) s' (SSelect q) []" if "stands s' ?whr" for s'
    by (rule yields_andThen, rule parse_where_yields [OF _ len(2) that], use assms(1) in simp, simp add: part_start,
        rule yields_andThen, erule parse_order_yields [rotated], simp add: part_start, use assms(1) in simp,
        rule yields_andThen, erule parse_count_yields [rotated 2], simp add: part_start, use assms(1) in simp, simp,
        rule yields_andThen, erule parse_count_yields [rotated 2], simp, use assms(1) in simp, simp,
        simp add: q yields_returns)
  show ?thesis unfolding parseSelect_def
    by (rule yields_word [OF st], simp add: keywords_simp,
        rule yields_andThen, erule parse_selection_yields [OF _ _ len(1), rotated], use assms(1) in simp,
        rule yields_word, assumption, simp add: keywords_simp,
        rule yields_ident, assumption, use assms(1) in simp, rule tail)
qed

lemma parseDelete_yields:
  assumes "printable (SDelete name w)" "3 * length (stmt_tokens (SDelete name w)) + 4 \<le> n"
    and "stands s (stmt_tokens (SDelete name w))"
  shows "yields (parseDelete n) s (SDelete name w) []"
proof -
  have st: "stands s (''delete'' # ''from'' # name # where_part w @ [])" using assms(3) by simp
  have len: "3 * length (where_part w) + 4 \<le> n" using assms(2) by simp
  show ?thesis unfolding parseDelete_def
    by (rule yields_word [OF st], simp add: keywords_simp, rule yields_word, assumption, simp add: keywords_simp,
        rule yields_ident, assumption, use assms(1) in simp,
        rule yields_andThen, erule parse_where_yields [OF _ len, rotated], simp, use assms(1) in simp, simp add: yields_returns)
qed

lemma parseDropTable_yields:
  assumes "printable (SDrop name)" "stands s (stmt_tokens (SDrop name))"
  shows "yields parseDropTable s (SDrop name) []"
proof -
  have st: "stands s (''drop'' # ''table'' # name # [])" using assms(2) by simp
  show ?thesis unfolding parseDropTable_def
    by (rule yields_word [OF st], simp add: keywords_simp, rule yields_word, assumption, simp add: keywords_simp,
        rule yields_ident, assumption, use assms(1) in simp, simp add: yields_returns)
qed

section \<open>UPDATE and INSERT\<close>

lemma prints_set: "prints parse_set set_tokens (\<lambda>p. ident_ok (fst p) \<and> lit_ok (snd p))"
proof -
  have "yields parse_set s (c, v) ts" if "ident_ok c" "lit_ok v" "stands s (c # ''='' # lit_token v # ts)" for c v s ts
    unfolding parse_set_def
    by (rule yields_ident [OF that(3,1)], rule yields_word, assumption, simp add: keywords_simp,
        rule yields_value, assumption, rule that(2), simp add: yields_returns)
  then show ?thesis using ident_symbol by (auto simp: prints_def set_tokens_def)
qed

lemma list_length: "(\<And>x. T x \<noteq> []) \<Longrightarrow> length xs \<le> length (list_tokens T xs)"
proof -
  assume T: "\<And>x. T x \<noteq> []"
  have "length ys \<le> length (more_tokens T ys)" for ys by (induction ys) auto
  moreover have "0 < length (T x)" for x using T [of x] by simp
  ultimately show ?thesis by (cases xs) (auto simp: Suc_le_eq add_strict_increasing add_less_le_mono dest: le_trans)
qed

lemma parseUpdate_yields:
  assumes "printable (SUpdate name sets w)" "3 * length (stmt_tokens (SUpdate name sets w)) + 4 \<le> n"
    and "stands s (stmt_tokens (SUpdate name sets w))"
  shows "yields (parseUpdate n) s (SUpdate name sets w) []"
proof -
  let ?P = "\<lambda>p. ident_ok (fst p) \<and> lit_ok (snd p)"
  have st: "stands s (''update'' # name # ''set'' # list_tokens set_tokens sets @ where_part w @ [])" using assms(3) by simp
  have len: "3 * length (where_part w) + 4 \<le> n" using assms(2) by simp
  have sets: "sets \<noteq> []" "list_all ?P sets" "length sets \<le> n"
    using assms(1,2) list_length [of set_tokens sets] by (auto simp: set_tokens_def)
  have its: "yields (items parse_set n) s' sets (where_part w @ [])" if "stands s' (list_tokens set_tokens sets @ where_part w @ [])" for s'
    using that sets by (intro items_yields [OF prints_set]) (auto simp: where_part_def split: option.splits)
  show ?thesis unfolding parseUpdate_def
    by (rule yields_word [OF st], simp add: keywords_simp, rule yields_ident, assumption, use assms(1) in simp,
        rule yields_word, assumption, simp add: keywords_simp, rule yields_andThen, erule its,
        rule yields_andThen, erule parse_where_yields [OF _ len, rotated], simp, use assms(1) in simp, simp add: yields_returns)
qed

lemma parse_list_yields:
  assumes "prints p T P" "list_all P ys" "length ys < n" "stands s (paren_tokens T ys @ ts)"
  shows "yields (parse_list p n) s ys ts"
proof -
  have st: "stands s (''('' # list_tokens T ys @ '')'' # ts)" using assms(4) by (simp add: paren_tokens_def)
  have its: "yields (items_until p n []) s' ([] @ ys) ('')'' # ts)" if "stands s' (list_tokens T ys @ '')'' # ts)" for s'
    by (rule items_until_yields [OF assms(1-3) that])
  show ?thesis unfolding parse_list_def
    by (rule yields_word [OF st], simp, rule yields_andThen, erule its [simplified], rule yields_word, assumption, simp,
        simp add: yields_returns)
qed

lemma prints_row:
  assumes "\<And>vs. list_all lit_ok vs \<and> vs \<in> S \<Longrightarrow> length vs < n"
  shows "prints (parse_list parseValue n) (paren_tokens value_tokens) (\<lambda>vs. list_all lit_ok vs \<and> vs \<in> S)"
  using assms parse_list_yields [OF prints_value] by (auto simp: prints_def paren_tokens_def)

lemma list_tokens_member: "x \<in> set xs \<Longrightarrow> length (T x) \<le> length (list_tokens T xs)"
proof (cases xs)
  case (Cons y ys)
  assume x: "x \<in> set xs"
  have "x \<in> set zs \<Longrightarrow> length (T x) \<le> length (more_tokens T zs)" for zs by (induction zs) auto
  with x Cons show ?thesis by (auto intro: trans_le_add2)
qed simp

lemma parseInsert_yields:
  assumes "printable (SInsert name cols vss)" "3 * length (stmt_tokens (SInsert name cols vss)) + 4 \<le> n"
    and "stands s (stmt_tokens (SInsert name cols vss))"
  shows "yields (parseInsert n) s (SInsert name cols vss) []"
proof -
  let ?rows = "list_tokens (paren_tokens value_tokens) vss"
  let ?cols = "if cols = [] then [] else paren_tokens name_tokens cols"
  have st: "stands s (''insert'' # ''into'' # name # ?cols @ ''values'' # ?rows @ [])" using assms(3) by simp
  have rows: "vss \<noteq> []" "list_all (\<lambda>vs. list_all lit_ok vs \<and> vs \<in> set vss) vss" "length vss \<le> n"
    using assms(1,2) list_length [of "paren_tokens value_tokens" vss] by (auto simp: paren_tokens_def list_all_iff)
  have short: "length vs < n" if "vs \<in> set vss" for vs
    using list_tokens_member [OF that, of "paren_tokens value_tokens"] list_length [of value_tokens vs] assms(2)
    by (simp add: paren_tokens_def)
  note row = prints_row [of "set vss" n]
  obtain v vs where v: "vss = v # vs" using rows(1) by (cases vss) auto
  have vrow: "yields (parse_list parseValue n) s' v ts" if "stands s' (paren_tokens value_tokens v @ ts)" for s' ts
    using that rows v short by (intro printsD [OF row]) auto
  have vsrow: "yields (more_items (parse_list parseValue n) n [v]) s' ([v] @ vs) []"
    if "stands s' (more_tokens (paren_tokens value_tokens) vs @ [])" for s'
    using that rows v short by (intro more_items_yields [OF row]) auto
  have "length cols < n" using assms(2) list_length [of name_tokens cols] by (auto simp: paren_tokens_def split: if_splits)
  then have names: "yields (if token_of (?cols @ ''values'' # ts) = Some ''('' then parse_list expectIdentifier n else returns []) s' cols
      (''values'' # ts)" if "stands s' (?cols @ ''values'' # ts)" for s' ts
    using that assms(1) parse_list_yields [OF prints_ident, of cols n s' "''values'' # ts"]
    by (auto simp: paren_tokens_def intro!: yields_returns)
  have st2: "stands s' (paren_tokens value_tokens v @ more_tokens (paren_tokens value_tokens) vs @ [])" if "stands s' (?rows @ [])" for s'
    using that v by simp
  show ?thesis unfolding parseInsert_def
    by (rule yields_word [OF st], simp add: keywords_simp, rule yields_word, assumption, simp add: keywords_simp,
        rule yields_ident, assumption, use assms(1) in simp, rule yields_peek, assumption,
        rule yields_andThen, erule names, rule yields_word, assumption, simp add: keywords_simp,
        rule yields_andThen, rule vrow, erule st2, rule yields_andThen, erule vsrow, simp add: v yields_returns)
qed

section \<open>CREATE TABLE\<close>

lemma parseType_yields: "stands s (type_token ty # ts) \<Longrightarrow> yields parseType s ty ts"
  unfolding parseType_def
  by (rule yields_peek_lower, assumption, cases ty)
    (auto simp: keywords_simp intro!: yields_consume yields_returns)

lemma parse_size_none: "stands s (t # ts) \<Longrightarrow> t \<noteq> ''('' \<Longrightarrow> yields (parse_size ty) s () (t # ts)"
  unfolding parse_size_def by (rule yields_peek, assumption) (simp add: yields_returns)

declare parse_modifiers.simps [simp del]
declare parse_columns.simps [simp del]

lemma parse_modifiers_end:
  assumes "stands s (t # ts)" "t \<in> {'','', '')''}"
  shows "yields (parse_modifiers (Suc n) name nullable def pk) s (nullable, def, pk) (t # ts)"
  unfolding parse_modifiers.simps
  by (rule yields_peek_lower [OF assms(1)]) (use assms in \<open>auto intro: yields_returns\<close>)

lemma parse_modifiers_default:
  assumes "stands s ((case c_default d of None \<Rightarrow> [] | Some v \<Rightarrow> [''default'', lit_token v]) @ t # ts)" "opt_ok lit_ok (c_default d)"
    and "t \<in> {'','', '')''}"
  shows "yields (parse_modifiers (Suc (Suc n)) name nullable None pk) s (nullable, c_default d, pk) (t # ts)"
proof (cases "c_default d")
  case None
  with assms show ?thesis by (auto intro!: parse_modifiers_end)
next
  case (Some v)
  with assms(1,2) have st: "stands s (''default'' # lit_token v # t # ts)" and v: "lit_ok v" by simp_all
  show ?thesis unfolding parse_modifiers.simps(2) [of "Suc n"]
    by (rule yields_peek_lower [OF st], simp add: keywords_simp, rule yields_consume [OF st], rule yields_value, assumption,
        rule v, simp add: Some, rule parse_modifiers_end [OF _ assms(3)])
qed

lemma parse_modifiers_yields:
  assumes "stands s (modifier_tokens d @ t # ts)" "opt_ok lit_ok (c_default d)" "t \<in> {'','', '')''}"
  shows "yields (parse_modifiers (Suc (Suc (Suc n))) name True None pk) s (c_nullable d, c_default d, pk) (t # ts)"
proof (cases "c_nullable d")
  case True
  with assms show ?thesis by (auto simp: modifier_tokens_def intro!: parse_modifiers_default)
next
  case False
  let ?rest = "(case c_default d of None \<Rightarrow> [] | Some v \<Rightarrow> [''default'', lit_token v]) @ t # ts"
  from False assms(1) have st: "stands s (''not'' # ''null'' # ?rest)" by (simp add: modifier_tokens_def)
  show ?thesis unfolding parse_modifiers.simps(2) [of "Suc (Suc n)"]
    by (rule yields_peek_lower [OF st], simp add: keywords_simp, rule yields_consume [OF st], rule yields_word, assumption,
        simp, simp add: False, rule parse_modifiers_default [OF _ assms(2,3)])
qed

lemma element_end_yields:
  "stands s ('')'' # ts) \<Longrightarrow> yields element_end s () ('')'' # ts)"
  "stands s ('','' # ts) \<Longrightarrow> token_of ts \<noteq> Some '')'' \<Longrightarrow> yields element_end s () ts"
  unfolding element_end_def
  by (rule yields_peek, assumption, simp add: yields_returns)
    (rule yields_peek, assumption, simp, rule yields_consume, assumption, rule yields_peek, assumption, simp add: yields_returns)

lemma parse_column_yields:
  assumes "stands s (column_tokens d @ t # ts)" "ident_ok (c_name d)" "opt_ok lit_ok (c_default d)"
    and "c_name d \<notin> c_name ` set cols"
    and "t = '')'' \<and> us = t # ts \<or> t = '','' \<and> us = ts \<and> token_of ts \<noteq> Some '')''"
  shows "yields (parse_column (Suc (Suc (Suc n))) cols pk) s (d, pk) us"
proof -
  have st: "stands s (c_name d # type_token (c_type d) # modifier_tokens d @ t # ts)"
    using assms(1) by (simp add: column_tokens_def)
  have t: "t \<in> {'','', '')''}" using assms(5) by auto
  have fin: "yields element_end s' () us" if "stands s' (t # ts)" for s'
    using assms(5) that element_end_yields by blast
  have start: "\<exists>u us. modifier_tokens d @ t # ts = u # us \<and> u \<noteq> ''(''"
    using t by (auto simp: modifier_tokens_def split: option.splits)
  have size: "yields (parse_size ty) s' () (modifier_tokens d @ t # ts)" if "stands s' (modifier_tokens d @ t # ts)" for s' ty
    using that start parse_size_none by metis
  have d: "\<lparr>c_name = c_name d, c_type = c_type d, c_nullable = c_nullable d, c_default = c_default d\<rparr> = d" by (cases d) simp
  show ?thesis unfolding parse_column_def
    by (rule yields_ident [OF st assms(2)], simp add: assms(4), rule yields_andThen, erule parseType_yields,
        rule yields_andThen, erule size, rule yields_andThen, erule parse_modifiers_yields [OF _ assms(3) t], simp,
        rule yields_andThen, erule fin, simp add: d yields_returns)
qed

lemma create_tokens_start:
  assumes "list_all (\<lambda>d. ident_ok (c_name d) \<and> opt_ok lit_ok (c_default d)) cols" "cols \<noteq> [] \<or> pk \<noteq> None"
  shows "token_of (create_tokens cols pk @ ts) \<noteq> Some '')''"
  using assms ident_symbol by (cases cols) (auto simp: column_tokens_def split: option.splits)

lemma parse_columns_yields:
  assumes "stands s (create_tokens cols pk @ '')'' # ts)" "opt_ok ident_ok pk" "length cols + 4 \<le> n"
    and "list_all (\<lambda>d. ident_ok (c_name d) \<and> opt_ok lit_ok (c_default d)) cols" "distinct (map c_name (acc @ cols))"
  shows "yields (parse_columns n acc None) s (acc @ cols, pk) ('')'' # ts)"
  using assms
proof (induction cols arbitrary: s n acc)
  case Nil
  obtain m where n: "n = Suc (Suc m)" using Nil(3) by (intro that [of "n - 2"]) simp
  have stop: "yields (parse_columns (Suc k) acc q) s' (acc, q) ('')'' # ts)" if "stands s' ('')'' # ts)" for s' k q
    unfolding parse_columns.simps by (rule yields_peek [OF that], simp add: yields_returns that)
  show ?case
  proof (cases pk)
    case None
    with Nil stop n show ?thesis by simp
  next
    case (Some p)
    with Nil have st: "stands s (''primary'' # ''key'' # ''('' # p # '')'' # '')'' # ts)" and p: "ident_ok p" by simp_all
    have key: "yields (parse_key None) s p ('')'' # ts)" unfolding parse_key_def
      by (simp, rule yields_consume [OF st], rule yields_word, assumption, simp add: keywords_simp,
          rule yields_word, assumption, simp, rule yields_ident, assumption, rule p, rule yields_word, assumption, simp,
          rule yields_peek, assumption, simp add: yields_returns)
    show ?thesis unfolding n parse_columns.simps(2) [of "Suc m"]
      by (rule yields_peek [OF st], simp, rule yields_andThen [OF key], simp add: Some stop)
  qed
next
  case (Cons d ds)
  obtain m where n: "n = Suc (Suc (Suc (Suc m)))" "length ds + 4 \<le> Suc (Suc (Suc m))" using Cons.prems(3)
    by (intro that [of "n - 4"]) auto
  have d: "ident_ok (c_name d)" "opt_ok lit_ok (c_default d)" "c_name d \<notin> c_name ` set acc"
    using Cons.prems(4,5) by auto
  have dist: "distinct (map c_name ((acc @ [d]) @ ds))" using Cons.prems(5) by simp
  note no = ident_keyword [OF d(1)] ident_symbol [OF d(1)]
  let ?more = "\<not> (ds = [] \<and> pk = None)"
  let ?t = "if ?more then '','' else '')''" and ?us = "create_tokens ds pk @ '')'' # ts"
  let ?ts = "if ?more then ?us else ts"
  have st: "stands s (column_tokens d @ ?t # ?ts)" using Cons.prems(1) by (auto split: if_splits)
  have peek: "token_of (column_tokens d @ ?t # ?ts) = Some (c_name d)" by (simp add: column_tokens_def)
  have stop: "?t = '')'' \<and> ?us = ?t # ?ts \<or> ?t = '','' \<and> ?us = ?ts \<and> token_of ?ts \<noteq> Some '')''"
    using create_tokens_start [of ds pk] Cons.prems(4) by auto
  have rest: "yields (parse_columns (Suc (Suc (Suc m))) (acc @ [d]) None) s' (acc @ d # ds, pk) ('')'' # ts)"
    if "stands s' ?us" for s'
    using Cons.IH [OF that Cons.prems(2) n(2) _ dist] Cons.prems(4) by simp
  show ?case unfolding n(1) parse_columns.simps(2) [of "Suc (Suc (Suc m))"]
    by (rule yields_peek [OF st], unfold peek, use no in simp,
        rule yields_andThen [OF parse_column_yields [OF st d stop]], simp add: rest)
qed

lemma create_tokens_length: "length cols \<le> length (create_tokens cols pk)"
  by (induction cols) (auto simp: column_tokens_def)

lemma parseCreateTable_yields:
  assumes "printable (SCreate name cols pk)" "3 * length (stmt_tokens (SCreate name cols pk)) + 4 \<le> n"
    and "stands s (stmt_tokens (SCreate name cols pk))"
  shows "yields (parseCreateTable n) s (SCreate name cols pk) []"
proof -
  have st: "stands s (''create'' # ''table'' # name # ''('' # create_tokens cols pk @ ['')''])" using assms(3) by simp
  have n: "length cols + 4 \<le> n" using assms(2) create_tokens_length [of cols pk] by simp
  have cols: "yields (parse_columns n [] None) s' ([] @ cols, pk) ['')'']" if "stands s' (create_tokens cols pk @ ['')''])" for s'
    using assms(1) n that by (intro parse_columns_yields) (auto simp: opt_ok_def split: option.splits)
  have valid: "validateCreateTableSchema cols pk = Inr ()"
    using assms(1) by (auto simp: validateCreateTableSchema_def split: option.splits)
  show ?thesis unfolding parseCreateTable_def
    by (rule yields_word [OF st], simp add: keywords_simp, rule yields_word, assumption, simp add: keywords_simp,
        rule yields_ident, assumption, use assms(1) in simp, rule yields_word, assumption, simp,
        rule yields_andThen, erule cols, simp, rule yields_word, assumption, simp, simp add: valid yields_returns)
qed

section \<open>A whole text\<close>

fun head_word :: "statement \<Rightarrow> string" where
  "head_word (SCreate _ _ _) = ''create''"
| "head_word (SInsert _ _ _) = ''insert''"
| "head_word (SSelect _) = ''select''"
| "head_word (SUpdate _ _ _) = ''update''"
| "head_word (SDelete _ _) = ''delete''"
| "head_word (SDrop _) = ''drop''"

lemma head_word: "token_of (stmt_tokens st @ ts) = Some (head_word st)" "lower_token (head_word st) = head_word st"
  by (cases st; simp add: keywords_simp)+

lemma parse_statement_yields:
  assumes "printable st" "3 * length (stmt_tokens st) + 4 \<le> n" "stands s (stmt_tokens st)"
  shows "yields (parse_statement n) s st []"
proof -
  let ?body = "\<lambda>t. case t of
         None \<Rightarrow> fails ''Unexpected keyword''
       | Some w \<Rightarrow>
           if w = ''create'' then parseCreateTable n
           else if w = ''insert'' then parseInsert n
           else if w = ''select'' then parseSelect n
           else if w = ''update'' then parseUpdate n
           else if w = ''delete'' then parseDelete n
           else if w = ''drop'' then parseDropTable
           else fails ''Unexpected keyword''"
  have body: "yields (?body (Some (head_word st))) s st []"
    using assms by (cases st) (simp_all del: printable.simps stmt_tokens.simps
      add: parseCreateTable_yields parseInsert_yields parseSelect_yields parseUpdate_yields parseDelete_yields parseDropTable_yields)
  have tail: "yields (andThen peek (\<lambda>t. andThen (if t = Some '';'' then andThen consume (\<lambda>_. returns ()) else returns ()) (\<lambda>_.
     andThen peek (\<lambda>t. if t \<noteq> None then fails ''Unexpected trailing token'' else returns st)))) s' st []"
    if "stands s' []" for s'
    by (rule yields_peek [OF that], simp, rule yields_peek [OF that], simp add: yields_returns that)
  have tok: "map_option lower_token (token_of (stmt_tokens st)) = Some (head_word st)"
    using head_word(1) [of st "[]"] head_word(2) [of st] by simp
  show ?thesis unfolding parse_statement_def
    by (rule yields_peek_lower [OF assms(3)], unfold tok, rule yields_andThen [OF body], erule tail)
qed

lemma token_text_pos: "token_ok t \<Longrightarrow> 0 < length (token_text t)"
  using token_text_ends by simp

lemma tokens_text_length: "list_all token_ok ts \<Longrightarrow> length ts \<le> length (tokens_text ts)"
  by (induction ts rule: tokens_text.induct) (auto simp: Suc_le_eq dest!: token_text_pos)

lemma tokens_text_ends:
  "ts \<noteq> [] \<Longrightarrow> list_all token_ok ts \<Longrightarrow>
     tokens_text ts \<noteq> [] \<and> visible (hd (tokens_text ts)) \<and> visible (last (tokens_text ts))"
proof (induction ts rule: tokens_text.induct)
  case (2 t)
  then show ?case using token_text_ends [of t] by simp
next
  case (3 t u ts)
  then show ?case using token_text_ends [of t] by simp
qed simp

theorem parse_print:
  assumes "printable st" "length (print_sql st) \<le> max_sql_bytes"
  shows "parse_sql (print_sql st) = Inr st"
proof -
  let ?ts = "stmt_tokens st"
  have ok: "list_all token_ok ?ts" using assms(1) by (rule stmt_tokens_ok)
  obtain t ts where t: "?ts = t # ts" by (cases st) auto
  have trim: "js_trim (print_sql st) = print_sql st"
    using tokens_text_ends [of ?ts] ok t unfolding print_sql_def by (intro js_trim_visible) auto
  have "yields nextToken (new_parser (print_sql st)) (Some t) ?ts"
    using lexes_text [OF ok] unfolding t
    by (auto simp: yields_def nextToken_def new_parser_def trim [unfolded print_sql_def t] stands.simps print_sql_def t)
  moreover have "3 * length ?ts + 4 \<le> parse_fuel (print_sql st)"
    using tokens_text_length [OF ok] by (simp add: parse_fuel_def print_sql_def)
  ultimately have "yields (andThen nextToken (\<lambda>_. parse_statement (parse_fuel (print_sql st)))) (new_parser (print_sql st)) st []"
    by (rule yields_andThen [OF _ parse_statement_yields [OF assms(1)]])
  with assms(2) show ?thesis by (auto simp: parse_sql_def yields_def)
qed

end
