(* ===== verification/Errors.thy ===== *)
theory Errors
  imports Js_Text
begin

text \<open>
  The error reply of the wire protocol (\<open>src/src/errors.ts\<close>): \<open>wireError\<close> writes a thrown
  value as \<open>ERR [CODE] message\<close> on one line, \<open>errorFromWire\<close> reads it back on the client.
\<close>

fun code_text :: "err_code \<Rightarrow> string" where
  "code_text UNKNOWN_STATEMENT = ''UNKNOWN_STATEMENT''"
| "code_text TABLE_EXISTS = ''TABLE_EXISTS''"
| "code_text TABLE_NOT_FOUND = ''TABLE_NOT_FOUND''"
| "code_text COLUMN_NOT_FOUND = ''COLUMN_NOT_FOUND''"
| "code_text PRIMARY_KEY_CONSTRAINT = ''PRIMARY_KEY_CONSTRAINT''"
| "code_text NOT_NULL_CONSTRAINT = ''NOT_NULL_CONSTRAINT''"
| "code_text TYPE_CONSTRAINT = ''TYPE_CONSTRAINT''"
| "code_text DUPLICATE_COLUMN = ''DUPLICATE_COLUMN''"
| "code_text ROW_ARITY = ''ROW_ARITY''"
| "code_text PARSE_ERROR = ''PARSE_ERROR''"
| "code_text INVALID_VALUE = ''INVALID_VALUE''"
| "code_text INVALID_CONFIG = ''INVALID_CONFIG''"
| "code_text PROTOCOL_ERROR = ''PROTOCOL_ERROR''"
| "code_text LIMIT_EXCEEDED = ''LIMIT_EXCEEDED''"
| "code_text CONNECTION_CLOSED = ''CONNECTION_CLOSED''"
| "code_text TIMEOUT = ''TIMEOUT''"
| "code_text TRANSACTION_ERROR = ''TRANSACTION_ERROR''"
| "code_text PERSISTENCE_ERROR = ''PERSISTENCE_ERROR''"
| "code_text AUTH_ERROR = ''AUTH_ERROR''"
| "code_text COMMAND_ERROR = ''COMMAND_ERROR''"

definition DATABASE_ERROR_CODES :: "err_code list" where
  "DATABASE_ERROR_CODES =
     [UNKNOWN_STATEMENT, TABLE_EXISTS, TABLE_NOT_FOUND, COLUMN_NOT_FOUND,
      PRIMARY_KEY_CONSTRAINT, NOT_NULL_CONSTRAINT, TYPE_CONSTRAINT, DUPLICATE_COLUMN,
      ROW_ARITY, PARSE_ERROR, INVALID_VALUE, INVALID_CONFIG, PROTOCOL_ERROR,
      LIMIT_EXCEEDED, CONNECTION_CLOSED, TIMEOUT, TRANSACTION_ERROR,
      PERSISTENCE_ERROR, AUTH_ERROR, COMMAND_ERROR]"

fun err_code_of :: "jserr \<Rightarrow> err_code" where
  "err_code_of (DbError c _) = c"
| "err_code_of (PlainError _) = COMMAND_ERROR"

fun err_message :: "jserr \<Rightarrow> string" where
  "err_message (DbError _ m) = m"
| "err_message (PlainError m) = m"

definition line_safe :: "char \<Rightarrow> char" where
  "line_safe c = (if c = CHR 0x0D \<or> c = CHR 0x0A then CHR '' '' else c)"

definition wireError :: "jserr \<Rightarrow> string" where
  "wireError e =
     ''ERR ['' @ code_text (err_code_of e) @ ''] '' @ map line_safe (err_message e)"

text \<open>The character class \<open>[A-Z_]\<close> and the regular expression \<open>^ERR \[([A-Z_]+)\] (.*)$\<close>.\<close>

definition code_char :: "char \<Rightarrow> bool" where
  "code_char c \<longleftrightarrow> 65 \<le> byte c \<and> byte c \<le> 90 \<or> c = CHR ''_''"

definition match_wire :: "string \<Rightarrow> (string \<times> string) option" where
  "match_wire m =
     (case strip_prefix ''ERR ['' m of
        None \<Rightarrow> None
      | Some r \<Rightarrow>
          (case strip_prefix ''] '' (dropWhile code_char r) of
             None \<Rightarrow> None
           | Some t \<Rightarrow>
               if takeWhile code_char r \<noteq> [] \<and> one_line t then Some (takeWhile code_char r, t)
               else None))"

definition code_named :: "string \<Rightarrow> err_code option" where
  "code_named s = find (\<lambda>c. code_text c = s) DATABASE_ERROR_CODES"

definition errorFromWire :: "string \<Rightarrow> jserr" where
  "errorFromWire m =
     (case match_wire m of
        Some (w, t) \<Rightarrow>
          (case code_named w of
             Some c \<Rightarrow> DbError c t
           | None \<Rightarrow> DbError COMMAND_ERROR (drop_space (drop 3 m)))
      | None \<Rightarrow>
          (case strip_prefix ''ERR'' m of
             Some r \<Rightarrow> DbError COMMAND_ERROR (drop_space r)
           | None \<Rightarrow>
               DbError (if strip_prefix ''NOAUTH'' m \<noteq> None then AUTH_ERROR else COMMAND_ERROR) m))"

section \<open>The round trip\<close>

lemma codes_clean: "list_all (\<lambda>e. list_all code_char (code_text e)) DATABASE_ERROR_CODES"
  by code_simp

lemma codes_complete: "e \<in> set DATABASE_ERROR_CODES"
  by (cases e) (simp_all add: DATABASE_ERROR_CODES_def)

lemma code_chars: "c \<in> set (code_text e) \<Longrightarrow> code_char c"
  using codes_clean codes_complete [of e] by (auto simp: list_all_iff)

lemma code_named_text: "code_named (code_text c) = Some c"
  by (cases c) (simp_all add: code_named_def DATABASE_ERROR_CODES_def)

lemma code_text_nonempty [simp]: "code_text c \<noteq> []"
  by (cases c) simp_all

lemma match_wire_code:
  "one_line t \<Longrightarrow> match_wire (''ERR ['' @ code_text c @ ''] '' @ t) = Some (code_text c, t)"
proof -
  have bracket: "\<not> code_char CHR '']''" by (simp add: code_char_def byte_def)
  have "dropWhile code_char (code_text c @ '']'' @ '' '' @ t) = ''] '' @ t"
    by (subst dropWhile_append2) (simp_all add: code_chars bracket)
  moreover have "takeWhile code_char (code_text c @ '']'' @ '' '' @ t) = code_text c"
    by (subst takeWhile_append2) (simp_all add: code_chars bracket)
  ultimately show "one_line t \<Longrightarrow> ?thesis"
    by (simp add: match_wire_def)
qed

lemma wire_roundtrip:
  "one_line (map line_safe (err_message e)) \<Longrightarrow>
     errorFromWire (wireError e) = DbError (err_code_of e) (map line_safe (err_message e))"
  using match_wire_code [of "map line_safe (err_message e)" "err_code_of e"]
  by (simp add: errorFromWire_def wireError_def code_named_text)

lemma wireError_single_line: "CHR 0x0A \<notin> set (wireError e) \<and> CHR 0x0D \<notin> set (wireError e)"
proof -
  have "code_char c \<Longrightarrow> c \<noteq> CHR 0x0A \<and> c \<noteq> CHR 0x0D" for c
    by (auto simp: code_char_def byte_def)
  then show ?thesis
    by (auto simp: wireError_def line_safe_def dest!: code_chars)
qed

lemma line_safe_one_line:
  assumes "\<forall>c \<in> set s. byte c \<noteq> 226"
  shows "one_line (map line_safe s)"
proof -
  have "byte (line_safe c) \<notin> {10, 13} \<and> (byte c \<noteq> 226 \<longrightarrow> byte (line_safe c) \<noteq> 226)" for c
    using byte_inj [of c "CHR 0x0A"] byte_inj [of c "CHR 0x0D"]
    by (simp add: line_safe_def byte_def) blast
  with assms show ?thesis by (induction s) auto
qed

end
