(* ===== verification/Deque.thy ===== *)
theory Deque
  imports Prelude
begin

text \<open>
  The double-ended queue of \<open>src/src/deque.ts\<close>: a \<open>Map\<close> from consecutive numbers to values
  with the counters \<open>head\<close> and \<open>tail\<close>. The \<open>Map\<close> is its association list in insertion order.
  The locale \<open>fifo\<close> is what the clients (the write queues and the reply queues) rely on; it is
  interpreted on the class.
\<close>

record 'a deque =
  dq_items :: "(nat \<times> 'a) list"
  dq_head :: nat
  dq_tail :: nat

definition new_deque :: "'a deque" where
  "new_deque = \<lparr>dq_items = [], dq_head = 0, dq_tail = 0\<rparr>"

definition dq_length :: "'a deque \<Rightarrow> nat" where
  "dq_length d = length (dq_items d)"

definition dq_clear :: "'a deque \<Rightarrow> 'a deque" where
  "dq_clear d = d\<lparr>dq_items := [], dq_head := 0, dq_tail := 0\<rparr>"

definition dq_set_length :: "int \<Rightarrow> ('a deque, unit) act" where
  "dq_set_length value =
     (if value \<noteq> 0 then throws (PlainError ''Deque only supports length = 0'') else modify dq_clear)"

definition dq_push :: "'a \<Rightarrow> 'a deque \<Rightarrow> nat \<times> 'a deque" where
  "dq_push value d =
     (let d' = d\<lparr>dq_items := al_set (dq_tail d) value (dq_items d), dq_tail := dq_tail d + 1\<rparr>
      in (dq_length d', d'))"

definition dq_shift :: "'a deque \<Rightarrow> 'a option \<times> 'a deque" where
  "dq_shift d =
     (if dq_length d = 0 then (None, d)
      else
        let value = map_of (dq_items d) (dq_head d);
            d' = d\<lparr>dq_items := al_del (dq_head d) (dq_items d), dq_head := dq_head d + 1\<rparr>
        in (value, if dq_length d' = 0 then dq_clear d' else d'))"

definition dq_pop :: "'a deque \<Rightarrow> 'a option \<times> 'a deque" where
  "dq_pop d =
     (if dq_length d = 0 then (None, d)
      else
        let t = dq_tail d - 1;
            value = map_of (dq_items d) t;
            d' = d\<lparr>dq_items := al_del t (dq_items d), dq_tail := t\<rparr>
        in (value, if dq_length d' = 0 then dq_clear d' else d'))"

fun index_from :: "nat \<Rightarrow> 'a \<Rightarrow> 'a list \<Rightarrow> int" where
  "index_from i v [] = - 1"
| "index_from i v (x # xs) = (if x = v then int i else index_from (Suc i) v xs)"

definition dq_indexOf :: "'a \<Rightarrow> 'a deque \<Rightarrow> int" where
  "dq_indexOf value d = index_from 0 value (map snd (dq_items d))"

definition dq_splice :: "int \<Rightarrow> ('a deque, 'a list) act" where
  "dq_splice start d =
     (if start \<noteq> 0 then (Inl (PlainError ''Deque only supports draining dq_splice(0)''), d)
      else (Inr (map snd (dq_items d)), dq_clear d))"

section \<open>Representation\<close>

text \<open>The keys are the numbers from \<open>head\<close> to \<open>tail\<close>, in order.\<close>

definition deque_ok :: "'a deque \<Rightarrow> bool" where
  "deque_ok d \<longleftrightarrow>
     dq_head d \<le> dq_tail d \<and> map fst (dq_items d) = [dq_head d ..< dq_tail d] \<and>
     (dq_items d = [] \<longrightarrow> dq_head d = 0 \<and> dq_tail d = 0)"

definition dq_abs :: "'a deque \<Rightarrow> 'a list" where
  "dq_abs d = map snd (dq_items d)"

lemma dq_length_abs: "dq_length d = length (dq_abs d)"
  by (simp add: dq_length_def dq_abs_def)

lemma keys_range: "deque_ok d \<Longrightarrow> fst ` set (dq_items d) = {dq_head d ..< dq_tail d}"
  by (metis deque_ok_def list.set_map set_upt)

lemma dq_items_Cons:
  assumes "deque_ok d" "dq_items d \<noteq> []"
  obtains v ps where "dq_items d = (dq_head d, v) # ps" "dq_head d < dq_tail d"
    "map fst ps = [Suc (dq_head d) ..< dq_tail d]"
proof -
  obtain k v ps where c: "dq_items d = (k, v) # ps" using assms(2) by (metis list.exhaust surj_pair)
  with assms(1) have e: "[dq_head d ..< dq_tail d] = k # map fst ps" by (simp add: deque_ok_def)
  then have lt: "dq_head d < dq_tail d" by (cases "dq_head d < dq_tail d") auto
  with e have "k = dq_head d" "map fst ps = [Suc (dq_head d) ..< dq_tail d]"
    using upt_conv_Cons [OF lt] by auto
  with c lt that show thesis by simp
qed

lemma dq_items_snoc:
  assumes "deque_ok d" "dq_items d \<noteq> []"
  obtains v ps where "dq_items d = ps @ [(dq_tail d - 1, v)]" "dq_head d < dq_tail d"
    "map fst ps = [dq_head d ..< dq_tail d - 1]"
proof -
  obtain k v ps where c: "dq_items d = ps @ [(k, v)]" using assms(2) by (metis rev_exhaust surj_pair)
  with assms(1) have e: "map fst ps @ [k] = [dq_head d ..< dq_tail d]" by (simp add: deque_ok_def)
  then have lt: "dq_head d < dq_tail d" by (cases "dq_head d < dq_tail d") auto
  then obtain n where "dq_tail d = Suc n" "dq_head d \<le> n" by (cases "dq_tail d") auto
  with e have "k = dq_tail d - 1" "map fst ps = [dq_head d ..< dq_tail d - 1]" by simp_all
  with c lt that show thesis by simp
qed

lemma al_del_fresh: "k \<notin> set (map fst ps) \<Longrightarrow> al_del k ps = ps"
  by simp

lemma new_deque_ok [inv_intros]: "deque_ok new_deque" "dq_abs new_deque = []"
  by (simp_all add: new_deque_def deque_ok_def dq_abs_def)

lemma dq_clear_ok [inv_intros]: "deque_ok (dq_clear d)" "dq_abs (dq_clear d) = []"
  by (simp_all add: dq_clear_def deque_ok_def dq_abs_def)

lemma dq_push_ok:
  assumes "deque_ok d"
  shows "deque_ok (snd (dq_push v d))" and "dq_abs (snd (dq_push v d)) = dq_abs d @ [v]"
    and "fst (dq_push v d) = length (dq_abs d) + 1"
proof -
  have n: "dq_tail d \<notin> fst ` set (dq_items d)" using keys_range [OF assms] by simp
  show "deque_ok (snd (dq_push v d))" "dq_abs (snd (dq_push v d)) = dq_abs d @ [v]"
    "fst (dq_push v d) = length (dq_abs d) + 1"
    using assms by (simp_all add: dq_push_def Let_def al_set_notin [OF n] deque_ok_def dq_abs_def dq_length_def)
qed

lemma dq_shift_empty: "dq_abs d = [] \<Longrightarrow> dq_shift d = (None, d)"
  by (simp add: dq_shift_def dq_length_abs)

lemma dq_shift_ok:
  assumes "deque_ok d"
  shows "deque_ok (snd (dq_shift d))"
    and "dq_abs d = x # xs \<Longrightarrow> fst (dq_shift d) = Some x \<and> dq_abs (snd (dq_shift d)) = xs"
proof -
  show ok: "deque_ok (snd (dq_shift d))"
  proof (cases "dq_items d = []")
    case False
    from assms False obtain v ps where c: "dq_items d = (dq_head d, v) # ps" "dq_head d < dq_tail d"
      "map fst ps = [Suc (dq_head d) ..< dq_tail d]" by (rule dq_items_Cons)
    then have "al_del (dq_head d) ps = ps" by (intro al_del_fresh) simp
    with c show ?thesis
      by (auto simp: dq_shift_def dq_length_def Let_def dq_clear_def deque_ok_def)
  qed (use assms in \<open>simp add: dq_shift_def dq_length_def\<close>)
  assume x: "dq_abs d = x # xs"
  then have "dq_items d \<noteq> []" by (auto simp: dq_abs_def)
  with assms obtain v ps where c: "dq_items d = (dq_head d, v) # ps" "dq_head d < dq_tail d"
    "map fst ps = [Suc (dq_head d) ..< dq_tail d]" by (rule dq_items_Cons)
  then have "al_del (dq_head d) ps = ps" by (intro al_del_fresh) simp
  with c x show "fst (dq_shift d) = Some x \<and> dq_abs (snd (dq_shift d)) = xs"
    by (auto simp: dq_shift_def dq_length_def Let_def dq_clear_def dq_abs_def)
qed

lemma dq_pop_ok:
  assumes "deque_ok d"
  shows "deque_ok (snd (dq_pop d))"
    and "dq_abs d = xs @ [x] \<Longrightarrow> fst (dq_pop d) = Some x \<and> dq_abs (snd (dq_pop d)) = xs"
proof -
  show ok: "deque_ok (snd (dq_pop d))"
  proof (cases "dq_items d = []")
    case False
    from assms False obtain v ps where c: "dq_items d = ps @ [(dq_tail d - 1, v)]" "dq_head d < dq_tail d"
      "map fst ps = [dq_head d ..< dq_tail d - 1]" by (rule dq_items_snoc)
    then have "al_del (dq_tail d - 1) ps = ps" by (intro al_del_fresh) simp
    with c show ?thesis
      by (auto simp: dq_pop_def dq_length_def Let_def dq_clear_def deque_ok_def)
  qed (use assms in \<open>simp add: dq_pop_def dq_length_def\<close>)
  assume x: "dq_abs d = xs @ [x]"
  then have "dq_items d \<noteq> []" by (auto simp: dq_abs_def)
  with assms obtain v ps where c: "dq_items d = ps @ [(dq_tail d - 1, v)]" "dq_head d < dq_tail d"
    "map fst ps = [dq_head d ..< dq_tail d - 1]" by (rule dq_items_snoc)
  then have f: "dq_tail d - 1 \<notin> fst ` set ps" by (metis atLeastLessThan_iff less_irrefl list.set_map set_upt)
  then have "map_of (dq_items d) (dq_tail d - 1) = Some v"
    using c(1) by (simp add: map_add_def map_of_None_iff [THEN iffD2])
  with c x f show "fst (dq_pop d) = Some x \<and> dq_abs (snd (dq_pop d)) = xs"
    by (auto simp: dq_pop_def dq_length_def Let_def dq_clear_def dq_abs_def)
qed

lemma index_from_spec:
  "index_from i v xs = (if v \<in> set xs then int (i + length (takeWhile (\<lambda>x. x \<noteq> v) xs)) else - 1)"
  by (induction xs arbitrary: i) auto

lemma dq_splice_ok: "dq_splice 0 d = (Inr (dq_abs d), dq_clear d)"
  by (simp add: dq_splice_def dq_abs_def)

section \<open>The queue contract\<close>

text \<open>
  First in, first out: a state with a representation invariant, and the list it stands for.
\<close>

locale fifo =
  fixes ok :: "'s \<Rightarrow> bool" and abs :: "'s \<Rightarrow> 'a list" and empty :: 's
    and enq :: "'a \<Rightarrow> 's \<Rightarrow> 's" and deq :: "'s \<Rightarrow> 'a option \<times> 's"
  assumes empty_ok: "ok empty" and empty_abs: "abs empty = []"
    and enq_ok: "ok s \<Longrightarrow> ok (enq a s)" and enq_abs: "ok s \<Longrightarrow> abs (enq a s) = abs s @ [a]"
    and deq_ok: "ok s \<Longrightarrow> ok (snd (deq s))"
    and deq_abs: "ok s \<Longrightarrow> abs s = a # as \<Longrightarrow> fst (deq s) = Some a \<and> abs (snd (deq s)) = as"
    and deq_empty: "ok s \<Longrightarrow> abs s = [] \<Longrightarrow> deq s = (None, s)"
begin

definition enq_all :: "'a list \<Rightarrow> 's \<Rightarrow> 's" where
  "enq_all xs s = fold enq xs s"

fun deq_n :: "nat \<Rightarrow> 's \<Rightarrow> 'a list \<times> 's" where
  "deq_n 0 s = ([], s)"
| "deq_n (Suc n) s =
     (case deq s of
        (None, s') \<Rightarrow> ([], s')
      | (Some a, s') \<Rightarrow> (let (as, s'') = deq_n n s' in (a # as, s'')))"

lemma enq_all: "ok s \<Longrightarrow> ok (enq_all xs s) \<and> abs (enq_all xs s) = abs s @ xs"
  by (induction xs arbitrary: s) (auto simp: enq_all_def enq_ok enq_abs)

lemma deq_n:
  "ok s \<Longrightarrow> ok (snd (deq_n n s)) \<and> fst (deq_n n s) = take n (abs s) \<and>
     abs (snd (deq_n n s)) = drop n (abs s)"
proof (induction n arbitrary: s)
  case (Suc n)
  show ?case
  proof (cases "abs s")
    case Nil
    with Suc.prems show ?thesis by (simp add: deq_empty)
  next
    case (Cons a as)
    obtain s' where s': "deq s = (Some a, s')" "abs s' = as" "ok s'"
      using deq_abs [OF Suc.prems Cons] deq_ok [OF Suc.prems] by (cases "deq s") auto
    with Suc.IH [of s'] Cons show ?thesis by (auto split: prod.splits)
  qed
qed simp

text \<open>Elements come out in the order they went in, whatever is added meanwhile.\<close>

lemma fifo_order:
  "ok s \<Longrightarrow> abs s = [] \<Longrightarrow> n \<le> length xs \<Longrightarrow> fst (deq_n n (enq_all (xs @ ys) s)) = take n xs"
  using enq_all [of s "xs @ ys"] deq_n [of "enq_all (xs @ ys) s" n] by simp

end

interpretation dq: fifo deque_ok dq_abs new_deque "\<lambda>a d. snd (dq_push a d)" dq_shift
proof
qed (auto simp: new_deque_ok dq_push_ok dq_shift_ok dq_shift_empty)

text \<open>The last element in is the first one that \<open>pop\<close> takes.\<close>

lemma dq_push_pop:
  assumes "deque_ok d"
  shows "fst (dq_pop (snd (dq_push v d))) = Some v \<and> dq_abs (snd (dq_pop (snd (dq_push v d)))) = dq_abs d"
  using dq_pop_ok(2) [OF dq_push_ok(1) [OF assms]] dq_push_ok(2) [OF assms] by blast

end
