(* ===== verification/Pub_Sub.thy ===== *)
theory Pub_Sub
  imports Prelude
begin

text \<open>
  The publish/subscribe hub of \<open>src/src/pubsub.ts\<close>: per channel the set of listeners in
  subscription order. A listener is known by its identity; what it does when it is called is
  the parameter \<open>call\<close>, which may use the hub and may throw.
\<close>

record 'l hub =
  channels :: "(string \<times> 'l list) list"

definition new_hub :: "'l hub" where
  "new_hub = \<lparr>channels = []\<rparr>"

definition subscribers :: "string \<Rightarrow> 'l hub \<Rightarrow> 'l list" where
  "subscribers channel h = (case map_of (channels h) channel of None \<Rightarrow> [] | Some ls \<Rightarrow> ls)"

definition set_add :: "'l \<Rightarrow> 'l list \<Rightarrow> 'l list" where
  "set_add l ls = (if l \<in> set ls then ls else ls @ [l])"

definition subscribe :: "string \<Rightarrow> 'l \<Rightarrow> ('l hub, unit) act" where
  "subscribe channel listener =
     (if channel = [] then throws (PlainError ''subscribe requires a non-empty channel name'')
      else modify (\<lambda>h. h\<lparr>channels :=
        al_set channel (set_add listener (subscribers channel h)) (channels h)\<rparr>))"

definition unsubscribe :: "string \<Rightarrow> 'l \<Rightarrow> 'l hub \<Rightarrow> bool \<times> 'l hub" where
  "unsubscribe channel listener h =
     (case map_of (channels h) channel of
        None \<Rightarrow> (False, h)
      | Some ls \<Rightarrow>
          let rest = filter (\<lambda>l. l \<noteq> listener) ls
          in (listener \<in> set ls,
              h\<lparr>channels :=
                if rest = [] then al_del channel (channels h)
                else al_set channel rest (channels h)\<rparr>))"

definition listener_count :: "'l hub \<Rightarrow> nat" where
  "listener_count h = sum_list (map (\<lambda>p. length (snd p)) (channels h))"

definition unsubscribeAll :: "string option \<Rightarrow> 'l hub \<Rightarrow> nat \<times> 'l hub" where
  "unsubscribeAll channel h =
     (case channel of
        Some c \<Rightarrow>
          (case map_of (channels h) c of
             None \<Rightarrow> (0, h)
           | Some ls \<Rightarrow> (length ls, h\<lparr>channels := al_del c (channels h)\<rparr>))
      | None \<Rightarrow> (listener_count h, h\<lparr>channels := []\<rparr>))"

text \<open>
  Delivery over the copy \<open>Array.from(set)\<close>. The \<open>catch\<close> drops an error; the effects the
  listener had before it stay.
\<close>

fun deliver ::
    "('l \<Rightarrow> string \<Rightarrow> string \<Rightarrow> ('s, unit) act) \<Rightarrow> string \<Rightarrow> string \<Rightarrow> 'l list \<Rightarrow> nat \<Rightarrow> 's \<Rightarrow> nat \<times> 's"
where
  "deliver call channel msg [] delivered s = (delivered, s)"
| "deliver call channel msg (l # ls) delivered s =
     deliver call channel msg ls (delivered + 1) (snd (call l channel msg s))"

definition publish ::
    "('l \<Rightarrow> string \<Rightarrow> string \<Rightarrow> ('l hub \<times> 'w, unit) act) \<Rightarrow> string \<Rightarrow> string \<Rightarrow>
     'l hub \<times> 'w \<Rightarrow> nat \<times> 'l hub \<times> 'w"
where
  "publish call channel message s =
     (case map_of (channels (fst s)) channel of
        None \<Rightarrow> (0, s)
      | Some ls \<Rightarrow> if ls = [] then (0, s) else deliver call channel message ls 0 s)"

definition subscriberCount :: "string option \<Rightarrow> 'l hub \<Rightarrow> nat" where
  "subscriberCount channel h =
     (case channel of
        Some c \<Rightarrow> (case map_of (channels h) c of None \<Rightarrow> 0 | Some ls \<Rightarrow> length ls)
      | None \<Rightarrow> listener_count h)"

definition channelNames :: "'l hub \<Rightarrow> string list" where
  "channelNames h = map fst (channels h)"

section \<open>Invariant\<close>

text \<open>
  Channels are distinct and named, a listed channel has a listener, and a listener is listed
  once per channel.
\<close>

definition hub_ok :: "'l hub \<Rightarrow> bool" where
  "hub_ok h \<longleftrightarrow> distinct_keys (channels h) \<and>
     (\<forall>(c, ls) \<in> set (channels h). c \<noteq> [] \<and> ls \<noteq> [] \<and> distinct ls)"

lemma hub_okI:
  assumes "distinct_keys (channels h)"
    and "\<And>c ls. map_of (channels h) c = Some ls \<Longrightarrow> c \<noteq> [] \<and> ls \<noteq> [] \<and> distinct ls"
  shows "hub_ok h"
  using assms map_of_distinct_in [OF assms(1)] unfolding hub_ok_def by blast

lemma hub_okD:
  "hub_ok h \<Longrightarrow> map_of (channels h) c = Some ls \<Longrightarrow> c \<noteq> [] \<and> ls \<noteq> [] \<and> distinct ls"
  by (auto simp: hub_ok_def dest!: map_of_in_set)

lemma hub_ok_distinct: "hub_ok h \<Longrightarrow> distinct_keys (channels h)"
  by (simp add: hub_ok_def)

lemma subscribers_distinct: "hub_ok h \<Longrightarrow> distinct (subscribers c h)"
  by (auto simp: subscribers_def dest: hub_okD split: option.splits)

lemma filter_ok: "hub_ok h \<Longrightarrow> map_of (channels h) c = Some ls \<Longrightarrow> distinct (filter P ls)"
  by (auto dest: hub_okD)

lemma new_hub_ok: "hub_ok new_hub"
  by (simp add: hub_ok_def new_hub_def)

lemma subscribe_ok: "hub_ok h \<Longrightarrow> hub_ok (snd (subscribe c l h))"
  using subscribers_distinct [of h c]
  by (auto simp: subscribe_def set_add_def hub_ok_distinct intro!: hub_okI
      dest: hub_okD split: if_splits)

lemma unsubscribe_ok: "hub_ok h \<Longrightarrow> hub_ok (snd (unsubscribe c l h))"
  by (auto simp: unsubscribe_def Let_def hub_ok_distinct filter_ok intro!: hub_okI
      dest: hub_okD split: option.splits if_splits)

lemma unsubscribeAll_ok: "hub_ok h \<Longrightarrow> hub_ok (snd (unsubscribeAll c h))"
  by (auto simp: unsubscribeAll_def hub_ok_distinct intro!: hub_okI
      dest: hub_okD split: option.splits if_splits)

section \<open>Subscription\<close>

lemma subscribers_subscribe:
  assumes "c \<noteq> []"
  shows "subscribers c' (snd (subscribe c l h)) =
     (if c' = c then set_add l (subscribers c h) else subscribers c' h)"
  using assms by (simp add: subscribe_def subscribers_def)

lemma subscribers_unsubscribe:
  assumes "hub_ok h"
  shows "subscribers c' (snd (unsubscribe c l h)) =
     (if c' = c then filter (\<lambda>x. x \<noteq> l) (subscribers c h) else subscribers c' h)"
  by (auto simp: unsubscribe_def subscribers_def Let_def split: option.splits)

lemma unsubscribe_result: "fst (unsubscribe c l h) = (l \<in> set (subscribers c h))"
  by (auto simp: unsubscribe_def subscribers_def Let_def split: option.splits)

lemma subscriberCount_length: "subscriberCount (Some c) h = length (subscribers c h)"
  by (simp add: subscriberCount_def subscribers_def split: option.splits)

section \<open>Delivery\<close>

lemma deliver_count: "fst (deliver call c m ls n s) = n + length ls"
  by (induction ls arbitrary: n s) auto

lemma deliver_state: "snd (deliver call c m ls n s) = fold (\<lambda>l s. snd (call l c m s)) ls s"
  by (induction ls arbitrary: n s) auto

text \<open>
  Every listener subscribed when \<open>publish\<close> starts is called once, in subscription order,
  whatever the listeners themselves do to the hub, and the result is their number.
\<close>

lemma publish_spec:
  "publish call c m s =
     (length (subscribers c (fst s)), fold (\<lambda>l s. snd (call l c m s)) (subscribers c (fst s)) s)"
  by (auto simp: publish_def subscribers_def deliver_count deliver_state prod_eq_iff
      split: option.splits)

end
