(* ===== verification/Ordered_Map.thy ===== *)
theory Ordered_Map
  imports Prelude
begin

text \<open>
  The ordered map of \<open>src/src/ordered-map.ts\<close> at the level of its pointers: a \<open>Map\<close> from keys
  to nodes, the nodes of a doubly linked list in insertion order, and the journal of undo
  actions of the open transactions. A node object is an address of a heap, a closure pushed on
  the journal is a value of type \<open>undo\<close> that holds what the closure captured.
\<close>

section \<open>State\<close>

type_synonym addr = nat

record ('k, 'v) link_node =
  nd_key :: 'k
  nd_value :: 'v
  nd_prev :: "addr option"
  nd_next :: "addr option"

datatype 'v undo =
    USet addr 'v
  | UUnlink addr
  | ULink addr "addr option" "addr option"

text \<open>The journal and the frames have their last element in front.\<close>

record ('k, 'v) omap =
  om_heap :: "addr \<Rightarrow> ('k, 'v) link_node option"
  om_fresh :: addr
  om_nodes :: "('k \<times> addr) list"
  om_first :: "addr option"
  om_last :: "addr option"
  om_undo :: "'v undo list"
  om_frames :: "nat list"

definition om_new :: "('k, 'v) omap" where
  "om_new = \<lparr>om_heap = (\<lambda>_. None), om_fresh = 0, om_nodes = [], om_first = None,
     om_last = None, om_undo = [], om_frames = []\<rparr>"

section \<open>Operations\<close>

definition om_size :: "('k, 'v) omap \<Rightarrow> nat" where
  "om_size m = length (om_nodes m)"

definition om_journalSize :: "('k, 'v) omap \<Rightarrow> nat" where
  "om_journalSize m = length (om_undo m)"

definition om_get :: "'k \<Rightarrow> ('k, 'v) omap \<Rightarrow> 'v option" where
  "om_get key m =
     (case map_of (om_nodes m) key of
        None \<Rightarrow> None
      | Some a \<Rightarrow> map_option nd_value (om_heap m a))"

definition om_has :: "'k \<Rightarrow> ('k, 'v) omap \<Rightarrow> bool" where
  "om_has key m = (map_of (om_nodes m) key \<noteq> None)"

definition om_begin :: "('k, 'v) omap \<Rightarrow> ('k, 'v) omap" where
  "om_begin m = m\<lparr>om_frames := length (om_undo m) # om_frames m\<rparr>"

definition om_commit :: "(('k, 'v) omap, unit) act" where
  "om_commit m =
     (case om_frames m of
        [] \<Rightarrow> (Inl (PlainError ''No ordered-map transaction''), m)
      | _ # fs \<Rightarrow>
          (Inr (), m\<lparr>om_frames := fs, om_undo := (if fs = [] then [] else om_undo m)\<rparr>))"

definition om_record :: "'v undo \<Rightarrow> ('k, 'v) omap \<Rightarrow> ('k, 'v) omap" where
  "om_record fn m = (if om_frames m \<noteq> [] then m\<lparr>om_undo := fn # om_undo m\<rparr> else m)"

definition set_next :: "addr \<Rightarrow> addr option \<Rightarrow> ('k, 'v) omap \<Rightarrow> ('k, 'v) omap" where
  "set_next a n m = m\<lparr>om_heap := (om_heap m)(a := map_option (\<lambda>d. d\<lparr>nd_next := n\<rparr>) (om_heap m a))\<rparr>"

definition set_prev :: "addr \<Rightarrow> addr option \<Rightarrow> ('k, 'v) omap \<Rightarrow> ('k, 'v) omap" where
  "set_prev a p m = m\<lparr>om_heap := (om_heap m)(a := map_option (\<lambda>d. d\<lparr>nd_prev := p\<rparr>) (om_heap m a))\<rparr>"

definition set_value :: "addr \<Rightarrow> 'v \<Rightarrow> ('k, 'v) omap \<Rightarrow> ('k, 'v) omap" where
  "set_value a v m = m\<lparr>om_heap := (om_heap m)(a := map_option (\<lambda>d. d\<lparr>nd_value := v\<rparr>) (om_heap m a))\<rparr>"

definition om_unlink :: "addr \<Rightarrow> ('k, 'v) omap \<Rightarrow> ('k, 'v) omap" where
  "om_unlink a m =
     (case om_heap m a of
        None \<Rightarrow> m
      | Some node \<Rightarrow>
          let m = (case nd_prev node of
                     Some p \<Rightarrow> set_next p (nd_next node) m
                   | None \<Rightarrow> m\<lparr>om_first := nd_next node\<rparr>);
              m = (case nd_next node of
                     Some n \<Rightarrow> set_prev n (nd_prev node) m
                   | None \<Rightarrow> m\<lparr>om_last := nd_prev node\<rparr>)
          in m\<lparr>om_nodes := al_del (nd_key node) (om_nodes m)\<rparr>)"

definition om_link :: "addr \<Rightarrow> addr option \<Rightarrow> addr option \<Rightarrow> ('k, 'v) omap \<Rightarrow> ('k, 'v) omap" where
  "om_link a prev nxt m =
     (case om_heap m a of
        None \<Rightarrow> m
      | Some node \<Rightarrow>
          let m = set_next a nxt (set_prev a prev m);
              m = (case prev of Some p \<Rightarrow> set_next p (Some a) m | None \<Rightarrow> m\<lparr>om_first := Some a\<rparr>);
              m = (case nxt of Some n \<Rightarrow> set_prev n (Some a) m | None \<Rightarrow> m\<lparr>om_last := Some a\<rparr>)
          in m\<lparr>om_nodes := al_set (nd_key node) a (om_nodes m)\<rparr>)"

fun run_undo :: "'v undo \<Rightarrow> ('k, 'v) omap \<Rightarrow> ('k, 'v) omap" where
  "run_undo (USet a v) m = set_value a v m"
| "run_undo (UUnlink a) m = om_unlink a m"
| "run_undo (ULink a p n) m = om_link a p n m"

definition om_rollback :: "(('k, 'v) omap, unit) act" where
  "om_rollback m =
     (case om_frames m of
        [] \<Rightarrow> (Inl (PlainError ''No ordered-map transaction''), m)
      | start # fs \<Rightarrow>
          let n = length (om_undo m) - start;
              m' = fold run_undo (take n (om_undo m)) (m\<lparr>om_frames := fs\<rparr>)
          in (Inr (), m'\<lparr>om_undo := drop n (om_undo m)\<rparr>))"

definition alloc_node :: "'k \<Rightarrow> 'v \<Rightarrow> ('k, 'v) omap \<Rightarrow> addr \<times> ('k, 'v) omap" where
  "alloc_node key value m =
     (om_fresh m,
      m\<lparr>om_heap := (om_heap m)(om_fresh m \<mapsto>
          \<lparr>nd_key = key, nd_value = value, nd_prev = None, nd_next = None\<rparr>),
        om_fresh := Suc (om_fresh m)\<rparr>)"

text \<open>
  The callback \<open>changed\<close> acts on a state \<open>w\<close> of the owner. The undo actions do not call it.
\<close>

definition om_set ::
    "('k \<Rightarrow> 'v option \<Rightarrow> 'w \<Rightarrow> 'w) \<Rightarrow> 'k \<Rightarrow> 'v \<Rightarrow> ('k, 'v) omap \<times> 'w \<Rightarrow> ('k, 'v) omap \<times> 'w"
where
  "om_set changed key value mw =
     (let (m, w) = mw;
          m' = (case map_of (om_nodes m) key of
                  Some a \<Rightarrow>
                    (case om_heap m a of
                       Some node \<Rightarrow> set_value a value (om_record (USet a (nd_value node)) m)
                     | None \<Rightarrow> m)
                | None \<Rightarrow>
                    let (a, m1) = alloc_node key value m
                    in om_record (UUnlink a) (om_link a (om_last m1) None m1))
      in (m', changed key (Some value) w))"

definition om_delete ::
    "('k \<Rightarrow> 'v option \<Rightarrow> 'w \<Rightarrow> 'w) \<Rightarrow> 'k \<Rightarrow> ('k, 'v) omap \<times> 'w \<Rightarrow> bool \<times> ('k, 'v) omap \<times> 'w"
where
  "om_delete changed key mw =
     (let (m, w) = mw in
      case map_of (om_nodes m) key of
        None \<Rightarrow> (False, m, w)
      | Some a \<Rightarrow>
          (case om_heap m a of
             None \<Rightarrow> (False, m, w)
           | Some node \<Rightarrow>
               (True, om_unlink a (om_record (ULink a (nd_prev node) (nd_next node)) m),
                changed key None w)))"

text \<open>
  The generator \<open>entries\<close>: its cursor is the next node to visit and moves on before the
  current one is yielded. The recursion is bounded by the number of nodes.
\<close>

definition om_step :: "('k, 'v) omap \<Rightarrow> addr option \<Rightarrow> (('k \<times> 'v) \<times> addr option) option" where
  "om_step m cursor =
     (case cursor of
        None \<Rightarrow> None
      | Some a \<Rightarrow>
          (case om_heap m a of
             None \<Rightarrow> None
           | Some node \<Rightarrow> Some ((nd_key node, nd_value node), nd_next node)))"

fun om_walk :: "nat \<Rightarrow> ('k, 'v) omap \<Rightarrow> addr option \<Rightarrow> ('k \<times> 'v) list" where
  "om_walk 0 m c = []"
| "om_walk (Suc n) m c =
     (case om_step m c of None \<Rightarrow> [] | Some (kv, c') \<Rightarrow> kv # om_walk n m c')"

definition om_entries :: "('k, 'v) omap \<Rightarrow> ('k \<times> 'v) list" where
  "om_entries m = om_walk (om_size m) m (om_first m)"

definition om_keys :: "('k, 'v) omap \<Rightarrow> 'k list" where
  "om_keys m = map fst (om_entries m)"

definition om_values :: "('k, 'v) omap \<Rightarrow> 'v list" where
  "om_values m = map snd (om_entries m)"

text \<open>\<open>clear\<close> deletes while it iterates.\<close>

fun clear_loop ::
    "nat \<Rightarrow> ('k \<Rightarrow> 'v option \<Rightarrow> 'w \<Rightarrow> 'w) \<Rightarrow> addr option \<Rightarrow> ('k, 'v) omap \<times> 'w \<Rightarrow> ('k, 'v) omap \<times> 'w"
where
  "clear_loop 0 changed c mw = mw"
| "clear_loop (Suc n) changed c mw =
     (case om_step (fst mw) c of
        None \<Rightarrow> mw
      | Some (kv, c') \<Rightarrow> clear_loop n changed c' (snd (om_delete changed (fst kv) mw)))"

definition om_clear ::
    "('k \<Rightarrow> 'v option \<Rightarrow> 'w \<Rightarrow> 'w) \<Rightarrow> ('k, 'v) omap \<times> 'w \<Rightarrow> ('k, 'v) omap \<times> 'w" where
  "om_clear changed mw = clear_loop (om_size (fst mw)) changed (om_first (fst mw)) mw"

end
