(* ===== verification/Ordered_Map_Rep.thy ===== *)
theory Ordered_Map_Rep
  imports Ordered_Map
begin

text \<open>
  The pointer structure of the ordered map represents a list of addresses with their keys and
  values, and linking, unlinking and assignment act on that list as expected. The partial map
  \<open>f\<close> also records nodes that are unlinked, which the journal may link again.
\<close>

section \<open>Doubly linked segments\<close>

fun hd_opt :: "'a list \<Rightarrow> 'a option \<Rightarrow> 'a option" where
  "hd_opt [] q = q"
| "hd_opt (x # xs) q = Some x"

definition last_opt :: "'a list \<Rightarrow> 'a option \<Rightarrow> 'a option" where
  "last_opt xs p = (if xs = [] then p else Some (last xs))"

lemma last_opt_simps [simp]:
  "last_opt [] p = p" "last_opt (x # xs) p = last_opt xs (Some x)" "last_opt (xs @ [y]) p = Some y"
  by (simp_all add: last_opt_def)

lemma hd_opt_append [simp]: "hd_opt (xs @ ys) q = hd_opt xs (hd_opt ys q)"
  by (cases xs) auto

lemma last_opt_append [simp]: "last_opt (xs @ ys) p = last_opt ys (last_opt xs p)"
  by (simp add: last_opt_def)

type_synonym ('k, 'v) heap = "addr \<Rightarrow> ('k, 'v) link_node option"

abbreviation upd :: "('k, 'v) heap \<Rightarrow> addr \<Rightarrow> (('k, 'v) link_node \<Rightarrow> ('k, 'v) link_node) \<Rightarrow> ('k, 'v) heap"
  where "upd h a g \<equiv> h(a := map_option g (h a))"

fun dll :: "('k, 'v) heap \<Rightarrow> addr option \<Rightarrow> addr list \<Rightarrow> addr option \<Rightarrow> bool" where
  "dll h p [] q = True"
| "dll h p (a # xs) q =
     (\<exists>d. h a = Some d \<and> nd_prev d = p \<and> nd_next d = hd_opt xs q \<and> dll h (Some a) xs q)"

lemma dll_append: "dll h p (xs @ ys) q \<longleftrightarrow> dll h p xs (hd_opt ys q) \<and> dll h (last_opt xs p) ys q"
  by (induction xs arbitrary: p) auto

lemma dll_other [simp]: "a \<notin> set xs \<Longrightarrow> dll (h(a := x)) p xs q = dll h p xs q"
  by (induction xs arbitrary: p) auto

lemma dll_relink_last:
  assumes "distinct xs" "dll h p xs q" "xs \<noteq> []"
  shows "dll (upd h (last xs) (\<lambda>d. d\<lparr>nd_next := q'\<rparr>)) p xs q'"
proof -
  obtain ys y where "xs = ys @ [y]" using assms(3) by (metis rev_exhaust)
  with assms show ?thesis by (auto simp: dll_append)
qed

lemma dll_relink_hd:
  assumes "distinct xs" "dll h p xs q" "xs \<noteq> []"
  shows "dll (upd h (hd xs) (\<lambda>d. d\<lparr>nd_prev := p'\<rparr>)) p' xs q"
  using assms by (cases xs) auto

lemma upd_None: "upd h a g b = None \<longleftrightarrow> h b = None"
  by simp

definition kv :: "('k, 'v) heap \<Rightarrow> addr \<Rightarrow> ('k \<times> 'v) option" where
  "kv h a = map_option (\<lambda>d. (nd_key d, nd_value d)) (h a)"

lemma kv_links [simp]:
  "kv (upd h a (\<lambda>d. d\<lparr>nd_next := n\<rparr>)) = kv h"
  "kv (upd h a (\<lambda>d. d\<lparr>nd_prev := n\<rparr>)) = kv h"
  by (auto simp: kv_def fun_eq_iff option.map_comp comp_def)

lemma kv_Some: "kv h a = Some (k, v) \<longleftrightarrow> (\<exists>d. h a = Some d \<and> nd_key d = k \<and> nd_value d = v)"
  by (auto simp: kv_def)

section \<open>Representation\<close>

definition rep :: "('k, 'v) omap \<Rightarrow> addr list \<Rightarrow> (addr \<Rightarrow> ('k \<times> 'v) option) \<Rightarrow> bool" where
  "rep m xs f \<longleftrightarrow>
     dll (om_heap m) None xs None \<and> om_first m = hd_opt xs None \<and> om_last m = last_opt xs None \<and>
     distinct xs \<and> f \<subseteq>\<^sub>m kv (om_heap m) \<and> set xs \<subseteq> dom f \<and>
     distinct_keys (om_nodes m) \<and> length (om_nodes m) = length xs \<and>
     (\<forall>k a. map_of (om_nodes m) k = Some a \<longleftrightarrow> a \<in> set xs \<and> (\<exists>v. f a = Some (k, v))) \<and>
     (\<forall>a. om_heap m a \<noteq> None \<longrightarrow> a < om_fresh m)"

definition ghost_list :: "addr list \<Rightarrow> (addr \<Rightarrow> ('k \<times> 'v) option) \<Rightarrow> ('k \<times> 'v) list" where
  "ghost_list xs f = map (the \<circ> f) xs"

lemma rep_journal [simp]:
  "rep (m\<lparr>om_undo := u\<rparr>) xs f = rep m xs f" "rep (m\<lparr>om_frames := fs\<rparr>) xs f = rep m xs f"
  by (simp_all add: rep_def)

lemma rep_record [simp]: "rep (om_record u m) xs f = rep m xs f"
  by (simp add: om_record_def)

lemma rep_node:
  assumes "rep m xs f" "f a = Some (k, v)"
  obtains d where "om_heap m a = Some d" "nd_key d = k" "nd_value d = v"
proof -
  have "kv (om_heap m) a = Some (k, v)"
    using assms by (auto simp: rep_def map_le_def dom_def)
  with that show thesis by (auto simp: kv_Some)
qed

lemma rep_lookup: "rep m xs f \<Longrightarrow> map_of (om_nodes m) k = Some a \<longleftrightarrow> a \<in> set xs \<and> (\<exists>v. f a = Some (k, v))"
  by (simp add: rep_def)

lemma rep_key_inj:
  "rep m xs f \<Longrightarrow> a \<in> set xs \<Longrightarrow> b \<in> set xs \<Longrightarrow> f a = Some (k, v) \<Longrightarrow> f b = Some (k, w) \<Longrightarrow> a = b"
  using rep_lookup [of m xs f k a] rep_lookup [of m xs f k b] by auto

lemma ghost_fst: "set xs \<subseteq> dom f \<Longrightarrow> k \<in> fst ` set (ghost_list xs f) \<longleftrightarrow> (\<exists>a \<in> set xs. \<exists>v. f a = Some (k, v))"
  by (force simp: ghost_list_def image_iff)

lemma ghost_map_of:
  "set xs \<subseteq> dom f \<Longrightarrow> (\<And>a b k v w. a \<in> set xs \<Longrightarrow> b \<in> set xs \<Longrightarrow> f a = Some (k, v) \<Longrightarrow> f b = Some (k, w) \<Longrightarrow> a = b) \<Longrightarrow>
   map_of (ghost_list xs f) k = Some v \<longleftrightarrow> (\<exists>a \<in> set xs. f a = Some (k, v))"
proof (induction xs)
  case (Cons a xs)
  then obtain k' v' where a: "f a = Some (k', v')" by auto
  have IH: "map_of (ghost_list xs f) k = Some v \<longleftrightarrow> (\<exists>a \<in> set xs. f a = Some (k, v))"
  proof (rule Cons.IH)
    show "set xs \<subseteq> dom f" using Cons.prems(1) by simp
    show "b = c" if "b \<in> set xs" "c \<in> set xs" "f b = Some (k, v)" "f c = Some (k, w)" for b c k v w
      using Cons.prems(2) [of b c k v w] that by simp
  qed
  show ?case
  proof (cases "k' = k")
    case True
    have "v' = v" if "b \<in> set xs" "f b = Some (k, v)" for b
      using Cons.prems(2) [of a b k v' v] that a True by simp
    with a True show ?thesis by (auto simp: ghost_list_def)
  qed (use a IH in \<open>auto simp: ghost_list_def\<close>)
qed (simp add: ghost_list_def)

lemma rep_map_of:
  assumes "rep m xs f"
  shows "map_of (ghost_list xs f) k = Some v \<longleftrightarrow> (\<exists>a \<in> set xs. f a = Some (k, v))"
  using rep_key_inj [OF assms] assms by (intro ghost_map_of) (auto simp: rep_def)

lemma ghost_distinct:
  assumes "rep m xs f"
  shows "distinct_keys (ghost_list xs f)"
proof -
  have "inj_on (fst \<circ> (the \<circ> f)) (set xs)"
  proof (rule inj_onI)
    fix a b
    assume ab: "a \<in> set xs" "b \<in> set xs" "(fst \<circ> (the \<circ> f)) a = (fst \<circ> (the \<circ> f)) b"
    then obtain k v k' w where "f a = Some (k, v)" "f b = Some (k', w)"
      using assms by (fastforce simp: rep_def)
    with ab show "a = b" using rep_key_inj [OF assms, of a b k v w] by simp
  qed
  then show ?thesis
    using assms by (simp add: distinct_keys_def ghost_list_def distinct_map rep_def comp_assoc)
qed

section \<open>The primitive updates\<close>

lemma rep_value:
  assumes r: "rep m xs f" and a: "f a = Some (k, w)"
  shows "rep (set_value a v m) xs (f(a \<mapsto> (k, v)))"
proof -
  have d: "dll (upd h a (\<lambda>d. d\<lparr>nd_value := v\<rparr>)) p xs q = dll h p xs q" for h :: "('a, 'b) heap" and p q
    by (induction xs arbitrary: p) auto
  have "kv (upd (om_heap m) a (\<lambda>d. d\<lparr>nd_value := v\<rparr>)) = (kv (om_heap m))(a \<mapsto> (k, v))"
    by (rule rep_node [OF r a]) (auto simp: kv_def fun_eq_iff)
  then show ?thesis
    using r a by (auto simp: rep_def set_value_def d map_le_def dom_def)
qed

lemma rep_alloc:
  assumes r: "rep m xs f" and al: "alloc_node k v m = (a, m1)"
  shows "rep m1 xs (f(a \<mapsto> (k, v)))" and "f a = None" and "a \<notin> set xs"
    and "om_nodes m1 = om_nodes m" "om_last m1 = om_last m" "om_undo m1 = om_undo m" "om_frames m1 = om_frames m"
proof -
  have a: "a = om_fresh m" and m1: "om_heap m1 = (om_heap m)(a \<mapsto>
      \<lparr>nd_key = k, nd_value = v, nd_prev = None, nd_next = None\<rparr>)"
    using al by (auto simp: alloc_node_def)
  have none: "om_heap m a = None"
    using r a by (metis rep_def less_irrefl)
  show fa: "f a = None"
  proof (rule ccontr)
    assume "f a \<noteq> None"
    then obtain k v where "f a = Some (k, v)" by auto
    with r show False by (rule rep_node) (simp add: none)
  qed
  show ax: "a \<notin> set xs" using r fa by (auto simp: rep_def)
  have "kv (om_heap m1) = (kv (om_heap m))(a \<mapsto> (k, v))"
    by (auto simp: m1 kv_def fun_eq_iff)
  then show "rep m1 xs (f(a \<mapsto> (k, v)))"
    using r al fa ax none
    by (auto simp: rep_def alloc_node_def map_le_def dom_def less_Suc_eq split: if_splits)
  show "om_nodes m1 = om_nodes m" "om_last m1 = om_last m" "om_undo m1 = om_undo m" "om_frames m1 = om_frames m"
    using al by (auto simp: alloc_node_def)
qed

text \<open>Unlinking the node \<open>a\<close>. Nodes outside the list may be forgotten.\<close>

lemma heap_unlink:
  assumes "dll h None (ys @ a # zs) None" "distinct (ys @ a # zs)"
    and h1: "h1 = (if ys = [] then h else upd h (last ys) (\<lambda>d. d\<lparr>nd_next := hd_opt zs None\<rparr>))"
    and h2: "h2 = (if zs = [] then h1 else upd h1 (hd zs) (\<lambda>d. d\<lparr>nd_prev := last_opt ys None\<rparr>))"
  shows "dll h2 None (ys @ zs) None"
proof -
  have ys: "dll h None ys (Some a)" and zs: "dll h (Some a) zs None"
    using assms(1) by (auto simp: dll_append)
  have "dll h1 None ys (hd_opt zs None)"
    using dll_relink_last [OF _ ys] assms(2) h1 by (cases "ys = []") auto
  moreover have "zs \<noteq> [] \<Longrightarrow> hd zs \<notin> set ys" using assms(2) by (cases zs) auto
  moreover have ly: "ys \<noteq> [] \<Longrightarrow> last ys \<notin> set zs" using assms(2) by (cases ys rule: rev_cases) auto
  ultimately have y2: "dll h2 None ys (hd_opt zs None)" using h2 by (cases "zs = []") auto
  have "dll h1 (Some a) zs None"
    using zs h1 ly by (cases "ys = []") simp_all
  then have "dll h2 (last_opt ys None) zs None"
    using dll_relink_hd [of zs h1 "Some a" None "last_opt ys None"] assms(2) h2 by (cases "zs = []") auto
  with y2 show ?thesis by (simp add: dll_append)
qed

lemma om_unlink_eq:
  assumes "dll (om_heap m) None (ys @ a # zs) None" "om_heap m a = Some d"
  shows "om_unlink a m =
     (let h1 = (if ys = [] then om_heap m
                else upd (om_heap m) (last ys) (\<lambda>d. d\<lparr>nd_next := hd_opt zs None\<rparr>));
          h2 = (if zs = [] then h1 else upd h1 (hd zs) (\<lambda>d. d\<lparr>nd_prev := last_opt ys None\<rparr>))
      in m\<lparr>om_heap := h2, om_first := (if ys = [] then hd_opt zs None else om_first m),
           om_last := (if zs = [] then last_opt ys None else om_last m),
           om_nodes := al_del (nd_key d) (om_nodes m)\<rparr>)"
proof -
  have "nd_prev d = last_opt ys None" "nd_next d = hd_opt zs None"
    using assms by (auto simp: dll_append)
  with assms(2) show ?thesis
    by (cases "ys = []"; cases zs) (auto simp: om_unlink_def Let_def last_opt_def set_next_def set_prev_def)
qed

lemma rep_unlink:
  assumes r: "rep m (ys @ a # zs) f" and g: "g \<subseteq>\<^sub>m f" "set ys \<union> set zs \<subseteq> dom g"
  shows "rep (om_unlink a m) (ys @ zs) g"
proof -
  have dl: "dll (om_heap m) None (ys @ a # zs) None" and di: "distinct (ys @ a # zs)"
    using r by (simp_all add: rep_def)
  obtain k v where fa: "f a = Some (k, v)" using r by (force simp: rep_def)
  obtain d where d: "om_heap m a = Some d" "nd_key d = k" "nd_value d = v"
    using r fa by (rule rep_node)
  define h1 where "h1 = (if ys = [] then om_heap m
      else upd (om_heap m) (last ys) (\<lambda>d. d\<lparr>nd_next := hd_opt zs None\<rparr>))"
  define h2 where "h2 = (if zs = [] then h1 else upd h1 (hd zs) (\<lambda>d. d\<lparr>nd_prev := last_opt ys None\<rparr>))"
  have eq: "om_unlink a m = m\<lparr>om_heap := h2, om_first := (if ys = [] then hd_opt zs None else om_first m),
      om_last := (if zs = [] then last_opt ys None else om_last m), om_nodes := al_del k (om_nodes m)\<rparr>"
    using om_unlink_eq [OF dl d(1)] by (simp add: h1_def h2_def d(2) Let_def)
  have dom: "h2 b \<noteq> None \<longleftrightarrow> om_heap m b \<noteq> None" for b
  proof -
    have "h2 b = None \<longleftrightarrow> om_heap m b = None"
      by (simp add: h2_def h1_def upd_None del: fun_upd_apply)
    then show ?thesis by simp
  qed
  have kvh: "kv h2 = kv (om_heap m)"
    by (simp add: h2_def h1_def)
  have gf: "g b = Some (l, w) \<longleftrightarrow> f b = Some (l, w)" if "b \<in> set ys \<union> set zs" for b l w
  proof -
    have "g b = f b" using g(1) subsetD [OF g(2) that] by (simp add: map_le_def)
    then show ?thesis by simp
  qed
  have look: "map_of (al_del k (om_nodes m)) l = Some b \<longleftrightarrow>
      b \<in> set (ys @ zs) \<and> (\<exists>w. g b = Some (l, w))" for l b
  proof -
    have "l = k \<Longrightarrow> b \<in> set (ys @ zs) \<Longrightarrow> f b \<noteq> Some (l, w)" for w
      using rep_key_inj [OF r, of a b k v w] fa di by auto
    moreover have "l \<noteq> k \<Longrightarrow> f a \<noteq> Some (l, w)" for w using fa by auto
    ultimately show ?thesis
      using rep_lookup [OF r, of l b] gf by auto
  qed
  have "map_of (om_nodes m) k = Some a" using rep_lookup [OF r] fa by auto
  then have "length (al_del k (om_nodes m)) = length (ys @ zs)"
    using r length_al_del [of "om_nodes m" k] by (auto simp: rep_def map_of_None_iff [symmetric])
  moreover have "dll h2 None (ys @ zs) None"
    using heap_unlink [OF dl di h1_def h2_def] .
  moreover have "g \<subseteq>\<^sub>m kv h2"
    using r g(1) kvh map_le_trans by (auto simp: rep_def)
  moreover have "om_first m = hd_opt (ys @ a # zs) None" "om_last m = last_opt (ys @ a # zs) None"
    using r by (simp_all add: rep_def)
  ultimately show ?thesis
    unfolding eq using r di look g(2) dom
    by (auto simp: rep_def last_opt_def neq_Nil_conv)
qed

text \<open>Linking the node \<open>a\<close>, which is in no list, between \<open>ys\<close> and \<open>zs\<close>.\<close>

lemma heap_link:
  assumes "dll h None (ys @ zs) None" "distinct (ys @ a # zs)" "h a = Some d"
    and h0: "h0 = upd (upd h a (\<lambda>d. d\<lparr>nd_prev := last_opt ys None\<rparr>)) a (\<lambda>d. d\<lparr>nd_next := hd_opt zs None\<rparr>)"
    and h1: "h1 = (if ys = [] then h0 else upd h0 (last ys) (\<lambda>d. d\<lparr>nd_next := Some a\<rparr>))"
    and h2: "h2 = (if zs = [] then h1 else upd h1 (hd zs) (\<lambda>d. d\<lparr>nd_prev := Some a\<rparr>))"
  shows "dll h2 None (ys @ a # zs) None"
proof -
  have ys: "dll h0 None ys (hd_opt zs None)" and zs: "dll h0 (last_opt ys None) zs None"
    using assms(1,2) h0 by (auto simp: dll_append)
  have hz: "zs \<noteq> [] \<Longrightarrow> hd zs \<notin> set ys \<and> hd zs \<noteq> a" using assms(2) by (cases zs) auto
  have ly: "ys \<noteq> [] \<Longrightarrow> last ys \<notin> set zs \<and> last ys \<noteq> a"
    using assms(2) by (cases ys rule: rev_cases) auto
  have "dll h1 None ys (Some a)"
    using dll_relink_last [OF _ ys] assms(2) ys h1 by (cases "ys = []") auto
  then have y2: "dll h2 None ys (Some a)" using h2 hz by (cases "zs = []") simp_all
  have "dll h1 (last_opt ys None) zs None" using zs h1 ly by (cases "ys = []") simp_all
  then have z2: "dll h2 (Some a) zs None"
    using dll_relink_hd [of zs h1 "last_opt ys None" None "Some a"] assms(2) h2
    by (cases "zs = []") auto
  have "h2 a = Some (d\<lparr>nd_prev := last_opt ys None, nd_next := hd_opt zs None\<rparr>)"
  proof -
    have "h1 a = h0 a" using h1 ly by (cases "ys = []") auto
    moreover have "h2 a = h1 a" using h2 hz by (cases "zs = []") auto
    ultimately show ?thesis by (simp add: h0 assms(3))
  qed
  with y2 z2 show ?thesis by (simp add: dll_append)
qed

lemma om_link_eq:
  assumes "om_heap m a = Some d"
  shows "om_link a (last_opt ys None) (hd_opt zs None) m =
     (let h0 = upd (upd (om_heap m) a (\<lambda>d. d\<lparr>nd_prev := last_opt ys None\<rparr>)) a
                 (\<lambda>d. d\<lparr>nd_next := hd_opt zs None\<rparr>);
          h1 = (if ys = [] then h0 else upd h0 (last ys) (\<lambda>d. d\<lparr>nd_next := Some a\<rparr>));
          h2 = (if zs = [] then h1 else upd h1 (hd zs) (\<lambda>d. d\<lparr>nd_prev := Some a\<rparr>))
      in m\<lparr>om_heap := h2, om_first := (if ys = [] then Some a else om_first m),
           om_last := (if zs = [] then Some a else om_last m),
           om_nodes := al_set (nd_key d) a (om_nodes m)\<rparr>)"
  using assms
  by (cases "ys = []"; cases zs) (simp_all add: om_link_def Let_def last_opt_def set_next_def set_prev_def)

lemma rep_link:
  assumes r: "rep m (ys @ zs) f" and fa: "f a = Some (k, v)" and a: "a \<notin> set (ys @ zs)"
    and fresh_key: "\<And>b w. b \<in> set (ys @ zs) \<Longrightarrow> f b \<noteq> Some (k, w)"
  shows "rep (om_link a (last_opt ys None) (hd_opt zs None) m) (ys @ a # zs) f"
proof -
  have dl: "dll (om_heap m) None (ys @ zs) None" and di: "distinct (ys @ a # zs)"
    using r a by (auto simp: rep_def)
  obtain d where d: "om_heap m a = Some d" "nd_key d = k" "nd_value d = v"
    using r fa by (rule rep_node)
  define h0 where "h0 = upd (upd (om_heap m) a (\<lambda>d. d\<lparr>nd_prev := last_opt ys None\<rparr>)) a
      (\<lambda>d. d\<lparr>nd_next := hd_opt zs None\<rparr>)"
  define h1 where "h1 = (if ys = [] then h0 else upd h0 (last ys) (\<lambda>d. d\<lparr>nd_next := Some a\<rparr>))"
  define h2 where "h2 = (if zs = [] then h1 else upd h1 (hd zs) (\<lambda>d. d\<lparr>nd_prev := Some a\<rparr>))"
  have eq: "om_link a (last_opt ys None) (hd_opt zs None) m =
      m\<lparr>om_heap := h2, om_first := (if ys = [] then Some a else om_first m),
        om_last := (if zs = [] then Some a else om_last m), om_nodes := al_set k a (om_nodes m)\<rparr>"
    using om_link_eq [OF d(1)] by (simp add: h0_def h1_def h2_def d(2) Let_def)
  have dom: "h2 b \<noteq> None \<longleftrightarrow> om_heap m b \<noteq> None" for b
  proof -
    have "h2 b = None \<longleftrightarrow> om_heap m b = None"
      by (simp add: h2_def h1_def h0_def upd_None del: fun_upd_apply) simp
    then show ?thesis by simp
  qed
  have kvh: "kv h2 = kv (om_heap m)"
  proof -
    have "kv h0 = kv (om_heap m)" unfolding h0_def by (simp only: kv_links)
    then show ?thesis by (simp add: h2_def h1_def)
  qed
  have none: "map_of (om_nodes m) k = None"
  proof (rule ccontr)
    assume "map_of (om_nodes m) k \<noteq> None"
    then obtain b where "map_of (om_nodes m) k = Some b" by auto
    with rep_lookup [OF r] fresh_key show False by auto
  qed
  have look: "map_of (al_set k a (om_nodes m)) l = Some b \<longleftrightarrow>
      b \<in> set (ys @ a # zs) \<and> (\<exists>w. f b = Some (l, w))" for l b
    using rep_lookup [OF r, of l b] fa fresh_key [of b] a by auto
  have "length (al_set k a (om_nodes m)) = length (ys @ a # zs)"
    using r none by (simp add: al_set_notin map_of_None_iff rep_def)
  moreover have "dll h2 None (ys @ a # zs) None"
    using heap_link [OF dl di d(1) h0_def h1_def h2_def] .
  moreover have "om_first m = hd_opt (ys @ zs) None" "om_last m = last_opt (ys @ zs) None"
    using r by (simp_all add: rep_def)
  ultimately show ?thesis
    unfolding eq using r di look dom kvh fa
    by (cases ys; cases zs) (auto simp: rep_def last_opt_def dom_def distinct_keys_def [of "[_]"])
qed

text \<open>The walk from the first node yields the entries of the list in order.\<close>

lemma om_walk_dll:
  "dll (om_heap m) p xs None \<Longrightarrow> f \<subseteq>\<^sub>m kv (om_heap m) \<Longrightarrow> set xs \<subseteq> dom f \<Longrightarrow>
     om_walk (length xs) m (hd_opt xs None) = ghost_list xs f"
proof (induction xs arbitrary: p)
  case (Cons a xs)
  from Cons.prems obtain d where d: "om_heap m a = Some d" "nd_next d = hd_opt xs None"
    "dll (om_heap m) (Some a) xs None" by auto
  from Cons.prems(2,3) d(1) have "f a = Some (nd_key d, nd_value d)"
    by (force simp: map_le_def kv_def)
  with d Cons.IH [OF d(3) Cons.prems(2)] Cons.prems(3) show ?case
    by (simp add: om_step_def ghost_list_def)
qed (simp add: ghost_list_def)

lemma rep_entries: "rep m xs f \<Longrightarrow> om_entries m = ghost_list xs f"
  using om_walk_dll [of m None xs f] by (simp add: om_entries_def om_size_def rep_def)

lemma rep_get:
  assumes r: "rep m xs f"
  shows "om_get k m = map_of (ghost_list xs f) k"
proof (cases "map_of (om_nodes m) k")
  case None
  then show ?thesis
    using rep_map_of [OF r, of k] rep_lookup [OF r, of k]
    by (cases "map_of (ghost_list xs f) k") (auto simp: om_get_def)
next
  case (Some a)
  then obtain v where a: "a \<in> set xs" "f a = Some (k, v)" using rep_lookup [OF r] by auto
  obtain d where "om_heap m a = Some d" "nd_value d = v" using r a(2) by (rule rep_node)
  with Some a show ?thesis using rep_map_of [OF r, of k v] by (auto simp: om_get_def)
qed

end
