(* ===== verification/Ordered_Map_Spec.thy ===== *)
theory Ordered_Map_Spec
  imports Ordered_Map_Rep
begin

text \<open>
  What the ordered map promises: an association list in insertion order, with a stack of
  snapshots. The pointer structure with its undo journal simulates it, operation by
  operation; in particular undoing the journal brings back the snapshot, order included. The
  locale \<open>tx_map\<close> is the interface the cache relies on.
\<close>

section \<open>The abstract map\<close>

record ('k, 'v) amap =
  am_list :: "('k \<times> 'v) list"
  am_frames :: "('k \<times> 'v) list list"

definition am_new :: "('k, 'v) amap" where
  "am_new = \<lparr>am_list = [], am_frames = []\<rparr>"

definition am_set :: "'k \<Rightarrow> 'v \<Rightarrow> ('k, 'v) amap \<Rightarrow> ('k, 'v) amap" where
  "am_set k v A = A\<lparr>am_list := al_set k v (am_list A)\<rparr>"

definition am_del :: "'k \<Rightarrow> ('k, 'v) amap \<Rightarrow> ('k, 'v) amap" where
  "am_del k A = A\<lparr>am_list := al_del k (am_list A)\<rparr>"

definition am_clear :: "('k, 'v) amap \<Rightarrow> ('k, 'v) amap" where
  "am_clear A = A\<lparr>am_list := []\<rparr>"

definition am_begin :: "('k, 'v) amap \<Rightarrow> ('k, 'v) amap" where
  "am_begin A = A\<lparr>am_frames := am_list A # am_frames A\<rparr>"

definition am_commit :: "('k, 'v) amap \<Rightarrow> ('k, 'v) amap" where
  "am_commit A = A\<lparr>am_frames := tl (am_frames A)\<rparr>"

definition am_rollback :: "('k, 'v) amap \<Rightarrow> ('k, 'v) amap" where
  "am_rollback A = (case am_frames A of [] \<Rightarrow> A | s # ss \<Rightarrow> A\<lparr>am_list := s, am_frames := ss\<rparr>)"

lemmas am_defs = am_new_def am_set_def am_del_def am_clear_def am_begin_def am_commit_def am_rollback_def

section \<open>The journal\<close>

type_synonym ('k, 'v) ghost = "addr list \<times> (addr \<Rightarrow> ('k \<times> 'v) option)"

text \<open>What one undo action does to the list of nodes, and when it may run.\<close>

inductive valid_undo :: "'v undo \<Rightarrow> ('k, 'v) ghost \<Rightarrow> ('k, 'v) ghost \<Rightarrow> bool" where
  VSet: "f a = Some (k, w) \<Longrightarrow> valid_undo (USet a v) (xs, f) (xs, f(a \<mapsto> (k, v)))"
| VUnlink: "g \<subseteq>\<^sub>m f \<Longrightarrow> set ys \<union> set zs \<subseteq> dom g \<Longrightarrow> valid_undo (UUnlink a) (ys @ a # zs, f) (ys @ zs, g)"
| VLink: "f a = Some (k, v) \<Longrightarrow> a \<notin> set (ys @ zs) \<Longrightarrow> (\<forall>b \<in> set (ys @ zs). \<forall>w. f b \<noteq> Some (k, w)) \<Longrightarrow>
    valid_undo (ULink a (last_opt ys None) (hd_opt zs None)) (ys @ zs, f) (ys @ a # zs, f)"

inductive journal :: "'v undo list \<Rightarrow> ('k, 'v) ghost \<Rightarrow> ('k, 'v) ghost \<Rightarrow> bool" where
  JNil: "journal [] G G"
| JCons: "valid_undo u G G' \<Longrightarrow> journal us G' G'' \<Longrightarrow> journal (u # us) G G''"

inductive_simps journal_Nil [simp]: "journal [] G G'"
inductive_cases journal_ConsE: "journal (u # us) G G'"

lemma journal_append: "journal us G G' \<Longrightarrow> journal vs G' G'' \<Longrightarrow> journal (us @ vs) G G''"
  by (induction us G G' rule: journal.induct) (auto intro: JCons)

lemma run_undo_rep: "valid_undo u G G' \<Longrightarrow> rep m (fst G) (snd G) \<Longrightarrow> rep (run_undo u m) (fst G') (snd G')"
  by (induction u G G' rule: valid_undo.induct) (auto simp: rep_value rep_unlink intro!: rep_link)

lemma run_journal_rep:
  "journal us G G' \<Longrightarrow> rep m (fst G) (snd G) \<Longrightarrow> rep (fold run_undo us m) (fst G') (snd G')"
  by (induction us G G' arbitrary: m rule: journal.induct) (auto dest: run_undo_rep)

lemma run_undo_journal [simp]:
  "om_undo (run_undo u m) = om_undo m" "om_frames (run_undo u m) = om_frames m"
proof -
  show "om_undo (run_undo u m) = om_undo m"
    by (cases u) (auto simp: set_value_def om_unlink_def om_link_def Let_def set_next_def set_prev_def
        split: option.splits)
  show "om_frames (run_undo u m) = om_frames m"
    by (cases u) (auto simp: set_value_def om_unlink_def om_link_def Let_def set_next_def set_prev_def
        split: option.splits)
qed

lemma run_journal_frames [simp]: "om_frames (fold run_undo us m) = om_frames m"
  by (induction us arbitrary: m) auto

text \<open>The journal is split at the open frames; each part leads back to the frame's snapshot.\<close>

fun frames_ok ::
    "'v undo list \<Rightarrow> ('k, 'v) ghost \<Rightarrow> nat list \<Rightarrow> ('k \<times> 'v) list list \<Rightarrow> bool" where
  "frames_ok us G [] [] = (us = [])"
| "frames_ok us G (s # ss) (S # Ss) =
     (\<exists>vs ws G0. us = vs @ ws \<and> length ws = s \<and> journal vs G G0 \<and>
        ghost_list (fst G0) (snd G0) = S \<and> frames_ok ws G0 ss Ss)"
| "frames_ok us G _ _ = False"

lemma frames_ok_ConsI:
  assumes "us = vs @ ws" "length ws = s" "journal vs G G0"
    and "ghost_list (fst G0) (snd G0) = S" "frames_ok ws G0 ss Ss"
  shows "frames_ok us G (s # ss) (S # Ss)"
  unfolding frames_ok.simps using assms by blast

lemma frames_okE:
  assumes "frames_ok us G fs Ss"
  obtains (none) "fs = []" "Ss = []" "us = []"
  | (some) s ss S Ss' vs ws G0 where "fs = s # ss" "Ss = S # Ss'" "us = vs @ ws" "length ws = s"
      "journal vs G G0" "ghost_list (fst G0) (snd G0) = S" "frames_ok ws G0 ss Ss'"
  using assms
proof (cases fs)
  case Nil
  with assms none show ?thesis by (cases Ss) simp_all
next
  case (Cons s ss)
  with assms obtain S Ss' where Ss: "Ss = S # Ss'" by (cases Ss) simp_all
  from assms obtain vs ws G0 where "us = vs @ ws" "length ws = s" "journal vs G G0"
    "ghost_list (fst G0) (snd G0) = S" "frames_ok ws G0 ss Ss'"
    unfolding Cons Ss frames_ok.simps by (elim exE conjE)
  with Cons Ss some show ?thesis by blast
qed

lemma frames_ok_openE:
  assumes "frames_ok us G fs Ss" "fs \<noteq> []"
  obtains s ss S Ss' vs ws G0 where "fs = s # ss" "Ss = S # Ss'" "us = vs @ ws" "length ws = s"
      "journal vs G G0" "ghost_list (fst G0) (snd G0) = S" "frames_ok ws G0 ss Ss'"
  using assms(1) by (rule frames_okE) (use assms(2) that in blast)+

lemma frames_ok_push:
  assumes "frames_ok us G fs Ss" "valid_undo u G' G"
  shows "frames_ok (if fs = [] then us else u # us) G' fs Ss"
  using assms(1)
proof (cases rule: frames_okE)
  case (some s ss S Ss' vs ws G0)
  then show ?thesis
    using frames_ok_ConsI [of "u # us" "u # vs" ws s, OF _ some(4) JCons [OF assms(2) some(5)] some(6,7)]
    by simp
qed simp

definition sim :: "('k, 'v) omap \<Rightarrow> ('k, 'v) amap \<Rightarrow> bool" where
  "sim m A \<longleftrightarrow> (\<exists>xs f. rep m xs f \<and> ghost_list xs f = am_list A \<and>
     frames_ok (om_undo m) (xs, f) (om_frames m) (am_frames A))"

lemma simI:
  "rep m xs f \<Longrightarrow> ghost_list xs f = am_list A \<Longrightarrow>
     frames_ok (om_undo m) (xs, f) (om_frames m) (am_frames A) \<Longrightarrow> sim m A"
  unfolding sim_def by blast

lemma sim_new: "sim om_new am_new"
  unfolding sim_def
  by (intro exI [of _ "[]"] exI [of _ "\<lambda>_. None"]) (simp add: rep_def om_new_def am_new_def ghost_list_def)

lemma sim_list: "sim m A \<Longrightarrow> om_entries m = am_list A \<and> distinct_keys (am_list A)"
  unfolding sim_def by (metis rep_entries ghost_distinct)

lemma sim_get: "sim m A \<Longrightarrow> om_get k m = map_of (am_list A) k"
  by (auto simp: sim_def rep_get dest: sym)

lemma sim_size: "sim m A \<Longrightarrow> om_size m = length (am_list A)"
  unfolding sim_def rep_def om_size_def ghost_list_def by (metis length_map)

lemma has_get:
  assumes "rep m xs f"
  shows "om_has k m \<longleftrightarrow> om_get k m \<noteq> None"
proof (cases "map_of (om_nodes m) k")
  case (Some a)
  then obtain v where "f a = Some (k, v)" using rep_lookup [OF assms] by auto
  with assms obtain d where "om_heap m a = Some d" by (rule rep_node)
  with Some show ?thesis by (simp add: om_has_def om_get_def)
qed (simp add: om_has_def om_get_def)

lemma sim_has: "sim m A \<Longrightarrow> om_has k m \<longleftrightarrow> k \<in> fst ` set (am_list A)"
  using sim_get [of m A k] unfolding sim_def by (metis has_get map_of_None_iff)

lemma sim_frames: "sim m A \<Longrightarrow> om_frames m = [] \<longleftrightarrow> am_frames A = []"
  unfolding sim_def by (elim exE conjE, erule frames_okE) simp_all

lemma sim_journal: "sim m A \<Longrightarrow> om_frames m = [] \<Longrightarrow> om_journalSize m = 0"
  unfolding sim_def om_journalSize_def by (elim exE conjE, erule frames_okE) simp_all

section \<open>Simulation of the transaction brackets\<close>

lemma sim_begin:
  assumes "sim m A"
  shows "sim (om_begin m) (am_begin A)"
proof -
  from assms obtain xs f where r: "rep m xs f" "ghost_list xs f = am_list A"
    "frames_ok (om_undo m) (xs, f) (om_frames m) (am_frames A)" by (auto simp: sim_def)
  have "frames_ok (om_undo m) (xs, f) (length (om_undo m) # om_frames m) (am_list A # am_frames A)"
    using frames_ok_ConsI [of "om_undo m" "[]" "om_undo m" _ "(xs, f)" "(xs, f)"] r(2,3) by simp
  with r(1,2) show ?thesis
    unfolding sim_def by (intro exI [of _ xs] exI [of _ f]) (simp add: om_begin_def am_begin_def)
qed

lemma sim_commit:
  assumes "sim m A" "om_frames m \<noteq> []"
  shows "\<exists>m'. om_commit m = (Inr (), m') \<and> sim m' (am_commit A)"
proof -
  from assms obtain xs f where r: "rep m xs f" "ghost_list xs f = am_list A"
    "frames_ok (om_undo m) (xs, f) (om_frames m) (am_frames A)" by (auto simp: sim_def)
  from r(3) assms(2) obtain s ss S Ss vs ws G0 where fr: "om_frames m = s # ss" "am_frames A = S # Ss"
    "om_undo m = vs @ ws" "length ws = s" "journal vs (xs, f) G0"
    "ghost_list (fst G0) (snd G0) = S" "frames_ok ws G0 ss Ss"
    by (rule frames_ok_openE)
  have "frames_ok (if ss = [] then [] else om_undo m) (xs, f) ss Ss"
    using fr(7)
  proof (cases rule: frames_okE)
    case (some s2 ss2 S2 Ss2 vs2 ws2 G2)
    then show ?thesis
      using frames_ok_ConsI [of "om_undo m" "vs @ vs2" ws2 s2,
          OF _ some(4) journal_append [OF fr(5) some(5)] some(6,7)] fr(3) by simp
  qed simp
  then have "sim (m\<lparr>om_frames := ss, om_undo := if ss = [] then [] else om_undo m\<rparr>) (am_commit A)"
    using r(1,2) fr(1,2) by (intro simI [of _ xs f]) (simp_all add: am_commit_def)
  then show ?thesis by (simp add: om_commit_def fr(1))
qed

lemma sim_rollback:
  assumes "sim m A" "om_frames m \<noteq> []"
  shows "\<exists>m'. om_rollback m = (Inr (), m') \<and> sim m' (am_rollback A)"
proof -
  from assms obtain xs f where r: "rep m xs f" "ghost_list xs f = am_list A"
    "frames_ok (om_undo m) (xs, f) (om_frames m) (am_frames A)" by (auto simp: sim_def)
  from r(3) assms(2) obtain s ss S Ss vs ws G0 where fr: "om_frames m = s # ss" "am_frames A = S # Ss"
    "om_undo m = vs @ ws" "length ws = s" "journal vs (xs, f) G0"
    "ghost_list (fst G0) (snd G0) = S" "frames_ok ws G0 ss Ss"
    by (rule frames_ok_openE)
  let ?m = "fold run_undo vs (m\<lparr>om_frames := ss\<rparr>)"
  have "rep ?m (fst G0) (snd G0)"
    using fr(5) by (rule run_journal_rep) (simp add: r(1))
  then have "sim (?m\<lparr>om_undo := ws\<rparr>) (am_rollback A)"
    using fr by (intro simI [of _ "fst G0" "snd G0"]) (simp_all add: am_rollback_def)
  then show ?thesis using fr(1,3,4) by (simp add: om_rollback_def Let_def)
qed

lemma no_transaction:
  "om_frames m = [] \<Longrightarrow> om_commit m = (Inl (PlainError ''No ordered-map transaction''), m)"
  "om_frames m = [] \<Longrightarrow> om_rollback m = (Inl (PlainError ''No ordered-map transaction''), m)"
  by (simp_all add: om_commit_def om_rollback_def)

section \<open>Simulation of the updates\<close>

lemma om_record_parts [simp]:
  "om_heap (om_record u m) = om_heap m" "om_nodes (om_record u m) = om_nodes m"
  "om_frames (om_record u m) = om_frames m"
  "om_undo (om_record u m) = (if om_frames m = [] then om_undo m else u # om_undo m)"
  by (simp_all add: om_record_def)

lemma update_journal [simp]:
  "om_undo (set_value a v m) = om_undo m" "om_frames (set_value a v m) = om_frames m"
  "om_undo (om_unlink a m) = om_undo m" "om_frames (om_unlink a m) = om_frames m"
  "om_undo (om_link a p n m) = om_undo m" "om_frames (om_link a p n m) = om_frames m"
  using run_undo_journal [of "USet a v" m] run_undo_journal [of "UUnlink a" m]
    run_undo_journal [of "ULink a p n" m] by simp_all

lemma map_le_upd_None: "f a = None \<Longrightarrow> f \<subseteq>\<^sub>m f(a \<mapsto> p)"
  by (auto simp: map_le_def)

lemma ghost_upd_notin: "a \<notin> set xs \<Longrightarrow> ghost_list xs (f(a \<mapsto> p)) = ghost_list xs f"
  by (auto simp: ghost_list_def)

lemma ghost_set:
  assumes "rep m xs f" "a \<in> set xs" "f a = Some (k, w)"
  shows "ghost_list xs (f(a \<mapsto> (k, v))) = al_set k v (ghost_list xs f)"
proof -
  obtain ys zs where xs: "xs = ys @ a # zs" using assms(2) by (auto dest: split_list)
  have "a \<notin> set ys" "a \<notin> set zs" using assms(1) xs by (auto simp: rep_def)
  then have "ghost_list xs (f(a \<mapsto> (k, v))) = ghost_list ys f @ (k, v) # ghost_list zs f"
    by (auto simp: xs ghost_list_def)
  also have "\<dots> = al_set k v (ghost_list xs f)"
    using al_set_split [of "ghost_list ys f" k w "ghost_list zs f" v] ghost_distinct [OF assms(1)] assms(3)
    by (simp add: xs ghost_list_def)
  finally show ?thesis .
qed

lemma sim_set_present:
  assumes r: "rep m xs f" "ghost_list xs f = am_list A"
      "frames_ok (om_undo m) (xs, f) (om_frames m) (am_frames A)"
    and a: "map_of (om_nodes m) k = Some a"
  shows "sim (fst (om_set ch k v (m, w))) (am_set k v A)"
proof -
  obtain v0 where fa: "a \<in> set xs" "f a = Some (k, v0)" using rep_lookup [OF r(1)] a by auto
  obtain d where d: "om_heap m a = Some d" "nd_key d = k" "nd_value d = v0"
    using r(1) fa(2) by (rule rep_node)
  let ?m = "set_value a v (om_record (USet a v0) m)"
  let ?f = "f(a \<mapsto> (k, v))"
  have "valid_undo (USet a v0) (xs, ?f) (xs, ?f(a \<mapsto> (k, v0)))" by (rule VSet) simp
  then have "valid_undo (USet a v0) (xs, ?f) (xs, f)" using fa(2) by (simp add: fun_upd_idem)
  from frames_ok_push [OF r(3) this]
  have "frames_ok (om_undo ?m) (xs, ?f) (om_frames ?m) (am_frames A)" by simp
  moreover have "rep ?m xs ?f" using rep_value [of "om_record (USet a v0) m"] r(1) fa(2) by simp
  ultimately have "sim ?m (am_set k v A)"
    using ghost_set [OF r(1) fa, of v] r(2) by (intro simI [of _ xs ?f]) (simp_all add: am_set_def)
  then show ?thesis by (simp add: om_set_def Let_def a d(1,3))
qed

lemma sim_set_absent:
  assumes r: "rep m xs f" "ghost_list xs f = am_list A"
      "frames_ok (om_undo m) (xs, f) (om_frames m) (am_frames A)"
    and k: "map_of (om_nodes m) k = None"
  shows "sim (fst (om_set ch k v (m, w))) (am_set k v A)"
proof -
  obtain a m1 where al: "alloc_node k v m = (a, m1)" by (cases "alloc_node k v m")
  note m1 = rep_alloc [OF r(1) al]
  let ?f = "f(a \<mapsto> (k, v))"
  let ?m = "om_record (UUnlink a) (om_link a (om_last m1) None m1)"
  have nokey: "f b \<noteq> Some (k, u)" if "b \<in> set xs" for b u
    using rep_lookup [OF r(1), of k b] k that by auto
  have last: "om_last m1 = last_opt xs None" using m1(1) by (simp add: rep_def)
  have "rep (om_link a (last_opt xs None) (hd_opt [] None) m1) (xs @ [a]) ?f"
  proof (rule rep_link)
    show "rep m1 (xs @ []) ?f" using m1(1) by simp
    show "?f a = Some (k, v)" by simp
    show "a \<notin> set (xs @ [])" using m1(3) by simp
    show "?f b \<noteq> Some (k, u)" if "b \<in> set (xs @ [])" for b u
      using that nokey m1(3) by auto
  qed
  then have rep: "rep ?m (xs @ [a]) ?f" using last by simp
  have "set xs \<subseteq> dom f" using r(1) by (simp add: rep_def)
  then have "valid_undo (UUnlink a) (xs @ [a], ?f) (xs, f)"
    using VUnlink [of f ?f xs "[]" a] map_le_upd_None [of f a "(k, v)", OF m1(2)] by auto
  from frames_ok_push [OF r(3) this]
  have fr: "frames_ok (om_undo ?m) (xs @ [a], ?f) (om_frames ?m) (am_frames A)"
    by (cases "om_frames m = []") (simp_all add: m1)
  have "k \<notin> fst ` set (ghost_list xs f)"
    using nokey r(1) by (subst ghost_fst) (auto simp: rep_def)
  then have "ghost_list (xs @ [a]) ?f = al_set k v (ghost_list xs f)"
    using m1(3) by (simp add: al_set_notin ghost_upd_notin ghost_list_def)
  with rep fr have "sim ?m (am_set k v A)"
    using r(2) by (intro simI [of _ "xs @ [a]" ?f]) (simp_all add: am_set_def)
  then show ?thesis by (simp add: om_set_def Let_def k al)
qed

lemma sim_set: "sim m A \<Longrightarrow> sim (fst (om_set ch k v (m, w))) (am_set k v A)"
  using sim_set_present [of m _ _ A k _ ch v w] sim_set_absent [of m _ _ A k ch v w]
  unfolding sim_def [of m A] by (cases "map_of (om_nodes m) k") blast+

lemma om_set_changed: "snd (om_set ch k v (m, w)) = ch k (Some v) w"
  by (simp add: om_set_def Let_def)

lemma om_delete_present:
  assumes r: "rep m (ys @ a # zs) f" "f a = Some (k, v)"
      "frames_ok (om_undo m) (ys @ a # zs, f) (om_frames m) Ss"
  obtains m' where "om_delete ch k (m, w) = (True, m', ch k None w)" "rep m' (ys @ zs) f"
    "frames_ok (om_undo m') (ys @ zs, f) (om_frames m') Ss"
proof -
  obtain d where d: "om_heap m a = Some d" "nd_key d = k" "nd_value d = v"
    using r(1,2) by (rule rep_node)
  have links: "nd_prev d = last_opt ys None" "nd_next d = hd_opt zs None"
    using r(1) d(1) by (auto simp: rep_def dll_append)
  have a: "map_of (om_nodes m) k = Some a" using rep_lookup [OF r(1), of k a] r(2) by auto
  let ?u = "ULink a (last_opt ys None) (hd_opt zs None)"
  let ?m = "om_unlink a (om_record ?u m)"
  have sub: "set ys \<union> set zs \<subseteq> dom f" and di: "distinct (ys @ a # zs)" using r(1) by (auto simp: rep_def)
  have "rep ?m (ys @ zs) f" using rep_unlink [of "om_record ?u m" ys a zs f f] r(1) sub by simp
  moreover have "valid_undo ?u (ys @ zs, f) (ys @ a # zs, f)"
  proof (rule VLink)
    show "f a = Some (k, v)" by (rule r(2))
    show "a \<notin> set (ys @ zs)" using di by simp
    show "\<forall>b \<in> set (ys @ zs). \<forall>w. f b \<noteq> Some (k, w)"
      using rep_key_inj [OF r(1), of a _ k v] r(2) di by auto
  qed
  from frames_ok_push [OF r(3) this]
  have "frames_ok (om_undo ?m) (ys @ zs, f) (om_frames ?m) Ss" by simp
  moreover have "om_delete ch k (m, w) = (True, ?m, ch k None w)"
    by (simp add: om_delete_def a d(1) links)
  ultimately show thesis using that by blast
qed

lemma sim_delete:
  assumes "sim m A"
  shows "fst (om_delete ch k (m, w)) = (k \<in> fst ` set (am_list A))"
    and "sim (fst (snd (om_delete ch k (m, w)))) (am_del k A)"
    and "snd (snd (om_delete ch k (m, w))) = (if k \<in> fst ` set (am_list A) then ch k None w else w)"
proof -
  from assms obtain xs f where r: "rep m xs f" "ghost_list xs f = am_list A"
    "frames_ok (om_undo m) (xs, f) (om_frames m) (am_frames A)" by (auto simp: sim_def)
  note has = sim_has [OF assms, of k]
  have "fst (om_delete ch k (m, w)) = (k \<in> fst ` set (am_list A)) \<and>
    sim (fst (snd (om_delete ch k (m, w)))) (am_del k A) \<and>
    snd (snd (om_delete ch k (m, w))) = (if k \<in> fst ` set (am_list A) then ch k None w else w)"
  proof (cases "map_of (om_nodes m) k")
    case None
    then have "k \<notin> fst ` set (am_list A)" using has by (simp add: om_has_def)
    with None assms show ?thesis by (simp add: om_delete_def am_del_def)
  next
    case (Some a)
    then have k: "k \<in> fst ` set (am_list A)" using has by (simp add: om_has_def)
    from Some obtain v where a: "a \<in> set xs" "f a = Some (k, v)" using rep_lookup [OF r(1)] by auto
    obtain ys zs where xs: "xs = ys @ a # zs" using a(1) by (auto dest: split_list)
    obtain m' where m': "om_delete ch k (m, w) = (True, m', ch k None w)" "rep m' (ys @ zs) f"
      "frames_ok (om_undo m') (ys @ zs, f) (om_frames m') (am_frames A)"
      using om_delete_present [of m ys a zs f k v] r a(2) xs by metis
    have "ghost_list (ys @ zs) f = al_del k (ghost_list xs f)"
      using al_del_split [of "ghost_list ys f" k v "ghost_list zs f"] ghost_distinct [OF r(1)] a(2)
      by (simp add: xs ghost_list_def)
    then have "sim m' (am_del k A)"
      using m'(2,3) r(2) by (intro simI [of _ "ys @ zs" f]) (simp_all add: am_del_def)
    with m'(1) k show ?thesis by simp
  qed
  then show "fst (om_delete ch k (m, w)) = (k \<in> fst ` set (am_list A))"
    "sim (fst (snd (om_delete ch k (m, w)))) (am_del k A)"
    "snd (snd (om_delete ch k (m, w))) = (if k \<in> fst ` set (am_list A) then ch k None w else w)"
    by blast+
qed

text \<open>
  \<open>clear\<close> deletes the node it has just been given: the cursor is always the new first node,
  so every entry is visited and removed, and \<open>changed\<close> runs for each key in order.
\<close>

lemma clear_loop_rep:
  "rep m xs f \<Longrightarrow> frames_ok (om_undo m) (xs, f) (om_frames m) Ss \<Longrightarrow> n = length xs \<Longrightarrow>
     \<exists>m'. clear_loop n ch (om_first m) (m, w) =
            (m', fold (\<lambda>k. ch k None) (map fst (ghost_list xs f)) w) \<and>
          rep m' [] f \<and> frames_ok (om_undo m') ([], f) (om_frames m') Ss"
proof (induction xs arbitrary: m w n)
  case (Cons a xs)
  obtain k v where fa: "f a = Some (k, v)" using Cons.prems(1) by (auto simp: rep_def)
  obtain d where d: "om_heap m a = Some d" "nd_key d = k" "nd_value d = v"
    using Cons.prems(1) fa by (rule rep_node)
  have first: "om_first m = Some a" "nd_next d = hd_opt xs None"
    using Cons.prems(1) d(1) by (auto simp: rep_def)
  obtain m' where m': "om_delete ch k (m, w) = (True, m', ch k None w)" "rep m' xs f"
    "frames_ok (om_undo m') (xs, f) (om_frames m') Ss"
    using om_delete_present [of m "[]" a xs f k v Ss ch w] Cons.prems fa by auto
  have "om_first m' = hd_opt xs None" using m'(2) by (simp add: rep_def)
  with Cons.IH [OF m'(2,3) refl, of "ch k None w"] Cons.prems(3) first m'(1) d fa show ?case
    by (simp add: om_step_def ghost_list_def)
qed (simp add: ghost_list_def)

lemma sim_clear:
  assumes "sim m A"
  shows "sim (fst (om_clear ch (m, w))) (am_clear A)"
    and "snd (om_clear ch (m, w)) = fold (\<lambda>k. ch k None) (map fst (am_list A)) w"
proof -
  from assms obtain xs f where r: "rep m xs f" "ghost_list xs f = am_list A"
    "frames_ok (om_undo m) (xs, f) (om_frames m) (am_frames A)" by (auto simp: sim_def)
  have "om_size m = length xs" using r(1) by (simp add: om_size_def rep_def)
  from clear_loop_rep [OF r(1,3) this, of ch w] obtain m' where
    m': "om_clear ch (m, w) = (m', fold (\<lambda>k. ch k None) (map fst (ghost_list xs f)) w)"
    "rep m' [] f" "frames_ok (om_undo m') ([], f) (om_frames m') (am_frames A)"
    by (auto simp: om_clear_def)
  then show "sim (fst (om_clear ch (m, w))) (am_clear A)"
    using simI [OF m'(2), of "am_clear A"] by (simp add: am_clear_def ghost_list_def)
  show "snd (om_clear ch (m, w)) = fold (\<lambda>k. ch k None) (map fst (am_list A)) w"
    using m'(1) r(2) by simp
qed

section \<open>The interface\<close>

text \<open>
  A map with transactions: a representation relation to the abstract map, kept by every
  operation. A client states its programs over the abstract map.
\<close>

datatype ('k, 'v) map_cmd = MSet 'k 'v | MDel 'k | MBegin | MCommit | MRollback

fun am_run :: "('k, 'v) map_cmd \<Rightarrow> ('k, 'v) amap \<Rightarrow> ('k, 'v) amap" where
  "am_run (MSet k v) A = am_set k v A"
| "am_run (MDel k) A = am_del k A"
| "am_run MBegin A = am_begin A"
| "am_run MCommit A = am_commit A"
| "am_run MRollback A = am_rollback A"

text \<open>The depth of transactions after a command; \<open>None\<close> where it has no open transaction.\<close>

fun cmd_depth :: "('k, 'v) map_cmd \<Rightarrow> nat \<Rightarrow> nat option" where
  "cmd_depth MBegin n = Some (Suc n)"
| "cmd_depth MCommit n = (if n = 0 then None else Some (n - 1))"
| "cmd_depth MRollback n = (if n = 0 then None else Some (n - 1))"
| "cmd_depth _ n = Some n"

fun balanced :: "nat \<Rightarrow> ('k, 'v) map_cmd list \<Rightarrow> bool" where
  "balanced n [] = (n = 0)"
| "balanced n (c # cs) = (case cmd_depth c n of None \<Rightarrow> False | Some n' \<Rightarrow> balanced n' cs)"

lemma am_run_frames:
  "cmd_depth c n = Some n' \<Longrightarrow> am_frames A = fs @ s # ss \<Longrightarrow> length fs = n \<Longrightarrow>
     \<exists>fs'. am_frames (am_run c A) = fs' @ s # ss \<and> length fs' = n'"
  by (cases c; cases fs) (auto simp: am_defs intro: exI [of _ "_ # _"])

lemma balanced_frames:
  "balanced n cs \<Longrightarrow> am_frames A = fs @ s # ss \<Longrightarrow> length fs = n \<Longrightarrow>
     am_frames (fold am_run cs A) = s # ss"
proof (induction cs arbitrary: n A fs)
  case (Cons c cs)
  then obtain n' where n': "cmd_depth c n = Some n'" "balanced n' cs" by (auto split: option.splits)
  with am_run_frames [OF n'(1) Cons.prems(2,3)] Cons.IH [OF n'(2)] show ?case by auto
qed simp

lemma am_rollback_restores:
  assumes "balanced 0 cs"
  shows "am_rollback (fold am_run cs (am_begin A)) = A"
proof -
  have "am_frames (am_begin A) = [] @ am_list A # am_frames A" by (simp add: am_begin_def)
  from balanced_frames [OF assms this] show ?thesis
    by (simp add: am_rollback_def)
qed

locale tx_map =
  fixes R :: "'s \<Rightarrow> ('k, 'v) amap \<Rightarrow> bool"
    and put :: "'k \<Rightarrow> 'v \<Rightarrow> 's \<Rightarrow> 's" and remove :: "'k \<Rightarrow> 's \<Rightarrow> 's"
    and begin_tx :: "'s \<Rightarrow> 's" and commit_tx :: "('s, unit) act" and rollback_tx :: "('s, unit) act"
    and lookup :: "'k \<Rightarrow> 's \<Rightarrow> 'v option" and listing :: "'s \<Rightarrow> ('k \<times> 'v) list"
  assumes put: "R s A \<Longrightarrow> R (put k v s) (am_set k v A)"
    and remove: "R s A \<Longrightarrow> R (remove k s) (am_del k A)"
    and begin_tx: "R s A \<Longrightarrow> R (begin_tx s) (am_begin A)"
    and commit_tx: "R s A \<Longrightarrow> am_frames A \<noteq> [] \<Longrightarrow>
      \<exists>s'. commit_tx s = (Inr (), s') \<and> R s' (am_commit A)"
    and rollback_tx: "R s A \<Longrightarrow> am_frames A \<noteq> [] \<Longrightarrow>
      \<exists>s'. rollback_tx s = (Inr (), s') \<and> R s' (am_rollback A)"
    and lookup: "R s A \<Longrightarrow> lookup k s = map_of (am_list A) k"
    and listing: "R s A \<Longrightarrow> listing s = am_list A"
begin

fun run_cmd :: "('k, 'v) map_cmd \<Rightarrow> 's \<Rightarrow> 's" where
  "run_cmd (MSet k v) s = put k v s"
| "run_cmd (MDel k) s = remove k s"
| "run_cmd MBegin s = begin_tx s"
| "run_cmd MCommit s = snd (commit_tx s)"
| "run_cmd MRollback s = snd (rollback_tx s)"

lemma run_cmd:
  "R s A \<Longrightarrow> cmd_depth c n = Some n' \<Longrightarrow> n \<le> length (am_frames A) \<Longrightarrow> R (run_cmd c s) (am_run c A)"
  using commit_tx [of s A] rollback_tx [of s A]
  by (cases c; cases "am_frames A") (auto simp: put remove begin_tx split: if_splits)

lemma run_frames_length:
  "cmd_depth c n = Some n' \<Longrightarrow> n \<le> length (am_frames A) \<Longrightarrow> n' \<le> length (am_frames (am_run c A))"
  by (cases c) (auto simp: am_defs split: if_splits list.splits)

lemma run_cmds:
  "R s A \<Longrightarrow> balanced n cs \<Longrightarrow> n \<le> length (am_frames A) \<Longrightarrow> R (fold run_cmd cs s) (fold am_run cs A)"
proof (induction cs arbitrary: n s A)
  case (Cons c cs)
  then obtain n' where n': "cmd_depth c n = Some n'" "balanced n' cs" by (auto split: option.splits)
  show ?case
    using Cons.IH [OF run_cmd [OF Cons.prems(1) n'(1) Cons.prems(3)] n'(2)
        run_frames_length [OF n'(1) Cons.prems(3)]] by simp
qed simp

text \<open>Whatever a transaction did, rolling it back restores every entry and their order.\<close>

lemma rollback_restores:
  assumes "R s A" "balanced 0 cs"
  shows "\<exists>s'. rollback_tx (fold run_cmd cs (begin_tx s)) = (Inr (), s') \<and>
     listing s' = listing s \<and> (\<forall>k. lookup k s' = lookup k s)"
proof -
  have R: "R (fold run_cmd cs (begin_tx s)) (fold am_run cs (am_begin A))"
    using run_cmds [OF begin_tx [OF assms(1)] assms(2)] by simp
  have "am_frames (fold am_run cs (am_begin A)) \<noteq> []"
    using balanced_frames [OF assms(2), of "am_begin A" "[]"] by (simp add: am_begin_def)
  from rollback_tx [OF R this] obtain s' where
    "rollback_tx (fold run_cmd cs (begin_tx s)) = (Inr (), s')" "R s' A"
    by (auto simp: am_rollback_restores [OF assms(2)])
  with assms(1) show ?thesis by (auto simp: listing lookup)
qed

end

definition om_put :: "'k \<Rightarrow> 'v \<Rightarrow> ('k, 'v) omap \<Rightarrow> ('k, 'v) omap" where
  "om_put k v m = fst (om_set (\<lambda>_ _ w. w) k v (m, ()))"

definition om_remove :: "'k \<Rightarrow> ('k, 'v) omap \<Rightarrow> ('k, 'v) omap" where
  "om_remove k m = fst (snd (om_delete (\<lambda>_ _ w. w) k (m, ())))"

interpretation om: tx_map sim om_put om_remove om_begin om_commit om_rollback om_get om_entries
proof
  fix s :: "('k, 'v) omap" and A k v
  assume s: "sim s A"
  show "sim (om_put k v s) (am_set k v A)" unfolding om_put_def using s by (rule sim_set)
  show "sim (om_remove k s) (am_del k A)" unfolding om_remove_def using s by (rule sim_delete)
  show "am_frames A \<noteq> [] \<Longrightarrow> \<exists>s'. om_commit s = (Inr (), s') \<and> sim s' (am_commit A)"
    using sim_commit [OF s] sim_frames [OF s] by simp
  show "am_frames A \<noteq> [] \<Longrightarrow> \<exists>s'. om_rollback s = (Inr (), s') \<and> sim s' (am_rollback A)"
    using sim_rollback [OF s] sim_frames [OF s] by simp
qed (simp_all add: sim_begin sim_get sim_list)

end
