(* ===== verification/Kv_Cache.thy ===== *)
theory Kv_Cache
  imports Json_Clone Json_Equal Ordered_Map_Spec Js_Text
begin

text \<open>
  The class \<open>KVCache\<close> of \<open>src/src/cache.ts\<close>: a least-recently-used map with byte accounting,
  expiry, a generation per key for optimistic transactions, and atomic blocks. Its three
  ordered maps are the abstract maps of \<open>Ordered_Map_Spec\<close>, which the pointer structure
  simulates. A synchronous operation reads the clock as \<open>now\<close>; \<open>incr\<close> reads it twice. The
  expiry listener is the list of keys it has been called with.
\<close>

section \<open>State\<close>

record entry =
  e_value :: json
  e_expiresAt :: "rat option"
  e_size :: int

record kv_options =
  o_maxEntries :: nat
  o_maxBytes :: nat
  o_maxKeyBytes :: nat
  o_maxValueBytes :: nat
  o_defaultTTLMs :: "rat option"
  o_namespaceTTLMs :: "(string \<times> rat) list"
  o_sweepIntervalMs :: rat

text \<open>\<open>CacheState\<close>: the scalar fields that an atomic block captures and restores.\<close>

record cache_state =
  cs_bytes :: int
  cs_hits :: int
  cs_misses :: int
  cs_evictions :: int
  cs_expiries :: int
  cs_absentEpoch :: int

record kv =
  kv_map :: "(string, entry) amap"
  kv_expiring :: "(string, rat) amap"
  kv_versions :: "(string, int) amap"
  kv_state :: cache_state
  kv_generation :: int
  kv_frames :: "(cache_state \<times> string list) list"
  kv_changed :: "string list list"
  kv_listener :: bool
  kv_events :: "string list"
  kv_lag :: rat
  kv_timer :: "rat option"
  kv_opts :: kv_options

type_synonym 'a kvop = "(kv, 'a) act"

definition kv_lookup :: "string \<Rightarrow> kv \<Rightarrow> entry option" where
  "kv_lookup key c = map_of (am_list (kv_map c)) key"

definition kv_size :: "kv \<Rightarrow> nat" where
  "kv_size c = length (am_list (kv_map c))"

section \<open>Options\<close>

definition DEFAULT_NAMESPACE_TTLS :: "(string \<times> rat) list" where
  "DEFAULT_NAMESPACE_TTLS =
     [(''feed'', 15000), (''feeds'', 15000), (''popular'', 60000), (''channel'', 30000),
      (''channels'', 30000), (''presence'', 30000), (''typing'', 10000),
      (''ratelimit'', 60000), (''rate-limit'', 60000), (''unread'', 30000)]"

definition DEFAULT_MAX_KEY_BYTES :: nat where "DEFAULT_MAX_KEY_BYTES = 1024"
definition DEFAULT_MAX_VALUE_BYTES :: nat where "DEFAULT_MAX_VALUE_BYTES = 4 * 1024 * 1024"

record kv_options_in =
  i_maxEntries :: "jsnum option"
  i_maxBytes :: "jsnum option"
  i_maxKeyBytes :: "jsnum option"
  i_maxValueBytes :: "jsnum option"
  i_defaultTTLMs :: "jsnum option"
  i_namespaceTTLMs :: "(string \<times> jsnum) list option"
  i_sweepIntervalMs :: "jsnum option"

definition validateTTL :: "rat \<Rightarrow> jsnum \<Rightarrow> rat outcome" where
  "validateTTL now ttlMs =
     (case validateNonNegativeNumber ttlMs of
        Inl e \<Rightarrow> Inl e
      | Inr ttl \<Rightarrow>
          if ttl > max_safe - now
          then Inl (DbError INVALID_VALUE ''deadline exceeds safe epoch range'') else Inr ttl)"

fun validate_ttls :: "rat \<Rightarrow> (string \<times> jsnum) list \<Rightarrow> (string \<times> rat) list outcome" where
  "validate_ttls now [] = Inr []"
| "validate_ttls now ((ns, t) # ts) =
     (case validateTTL now t of
        Inl e \<Rightarrow> Inl e
      | Inr ttl \<Rightarrow>
          (case validate_ttls now ts of Inl e \<Rightarrow> Inl e | Inr r \<Rightarrow> Inr ((ns, ttl) # r)))"

definition positive_or :: "nat \<Rightarrow> jsnum option \<Rightarrow> nat outcome" where
  "positive_or d v =
     (case v of
        None \<Rightarrow> Inr d
      | Some n \<Rightarrow> map_sum id (\<lambda>x. nat \<lfloor>x\<rfloor>) (validatePositiveSafeInteger n None))"

definition bind_out :: "'a outcome \<Rightarrow> ('a \<Rightarrow> 'b outcome) \<Rightarrow> 'b outcome" where
  "bind_out r f = (case r of Inl e \<Rightarrow> Inl e | Inr a \<Rightarrow> f a)"

lemma bind_out_simps [simp]: "bind_out (Inl e) f = Inl e" "bind_out (Inr a) f = f a"
  by (simp_all add: bind_out_def)

lemma bind_out_Inr: "bind_out r f = Inr b \<longleftrightarrow> (\<exists>a. r = Inr a \<and> f a = Inr b)"
  by (cases r) auto

definition validateKVOptions :: "rat \<Rightarrow> kv_options_in \<Rightarrow> kv_options outcome" where
  "validateKVOptions now o_in =
     bind_out (positive_or 10000 (i_maxEntries o_in)) (\<lambda>maxEntries.
     bind_out (positive_or (64 * 1024 * 1024) (i_maxBytes o_in)) (\<lambda>maxBytes.
     bind_out (positive_or DEFAULT_MAX_KEY_BYTES (i_maxKeyBytes o_in)) (\<lambda>maxKeyBytes.
     bind_out (positive_or DEFAULT_MAX_VALUE_BYTES (i_maxValueBytes o_in)) (\<lambda>maxValueBytes.
     bind_out (case i_defaultTTLMs o_in of None \<Rightarrow> Inr None
               | Some t \<Rightarrow> map_sum id Some (validateTTL now t)) (\<lambda>defaultTTLMs.
     bind_out (case i_sweepIntervalMs o_in of None \<Rightarrow> Inr 1000
               | Some t \<Rightarrow> validateTimeout t) (\<lambda>sweepIntervalMs.
     bind_out (validate_ttls now
         (fold (\<lambda>p ts. al_set (fst p) (snd p) ts)
           (case i_namespaceTTLMs o_in of None \<Rightarrow> [] | Some ts \<Rightarrow> ts)
           (map (\<lambda>p. (fst p, Fin (snd p))) DEFAULT_NAMESPACE_TTLS))) (\<lambda>namespaceTTLMs.
     Inr \<lparr>o_maxEntries = maxEntries, o_maxBytes = maxBytes, o_maxKeyBytes = maxKeyBytes,
          o_maxValueBytes = maxValueBytes, o_defaultTTLMs = defaultTTLMs,
          o_namespaceTTLMs = namespaceTTLMs, o_sweepIntervalMs = sweepIntervalMs\<rparr>)))))))"

definition new_cache :: "rat \<Rightarrow> kv_options_in \<Rightarrow> bool \<Rightarrow> kv outcome" where
  "new_cache now o_in listener =
     bind_out (validateKVOptions now o_in) (\<lambda>opts.
       Inr \<lparr>kv_map = am_new, kv_expiring = am_new, kv_versions = am_new,
            kv_state = \<lparr>cs_bytes = 0, cs_hits = 0, cs_misses = 0, cs_evictions = 0,
                        cs_expiries = 0, cs_absentEpoch = 0\<rparr>,
            kv_generation = 0, kv_frames = [], kv_changed = [], kv_listener = listener,
            kv_events = [], kv_lag = 0,
            kv_timer = (if o_sweepIntervalMs opts > 0 then Some (o_sweepIntervalMs opts) else None),
            kv_opts = opts\<rparr>)"

text \<open>The namespace of a key is the text before its first colon.\<close>

definition namespaceOf :: "string \<Rightarrow> string" where
  "namespaceOf key = (if CHR '':'' \<in> set key then takeWhile (\<lambda>c. c \<noteq> CHR '':'') key else [])"

definition resolveTTLMs :: "rat \<Rightarrow> string \<Rightarrow> jsnum option \<Rightarrow> kv \<Rightarrow> rat option outcome" where
  "resolveTTLMs now key ttlMs c =
     (case ttlMs of
        Some t \<Rightarrow> map_sum id Some (validateTTL now t)
      | None \<Rightarrow>
          let ns = namespaceOf key in
          case (if ns = [] then None else map_of (o_namespaceTTLMs (kv_opts c)) ns) of
            Some t \<Rightarrow> map_sum id Some (validateTTL now (Fin t))
          | None \<Rightarrow>
              (case o_defaultTTLMs (kv_opts c) of
                 Some t \<Rightarrow> map_sum id Some (validateTTL now (Fin t))
               | None \<Rightarrow> Inr None))"

definition isExpired :: "entry \<Rightarrow> rat \<Rightarrow> bool" where
  "isExpired e now = (case e_expiresAt e of None \<Rightarrow> False | Some t \<Rightarrow> t \<le> now)"

text \<open>\<open>Date.now() + ttl\<close>, a sum of doubles that the range check of \<open>validateTTL\<close> keeps finite.\<close>

definition deadline :: "rat \<Rightarrow> rat option \<Rightarrow> rat option" where
  "deadline now ttl = map_option (\<lambda>t. fin_of (js_add now t)) ttl"

section \<open>Primitive updates\<close>

text \<open>The callback of the map keeps the index \<open>expiring\<close>.\<close>

definition map_set :: "string \<Rightarrow> entry \<Rightarrow> kv \<Rightarrow> kv" where
  "map_set key e c =
     c\<lparr>kv_map := am_set key e (kv_map c),
       kv_expiring :=
         (case e_expiresAt e of
            None \<Rightarrow> am_del key (kv_expiring c)
          | Some t \<Rightarrow> am_set key t (kv_expiring c))\<rparr>"

definition map_delete :: "string \<Rightarrow> kv \<Rightarrow> kv" where
  "map_delete key c =
     (if kv_lookup key c = None then c
      else c\<lparr>kv_map := am_del key (kv_map c), kv_expiring := am_del key (kv_expiring c)\<rparr>)"

definition add_bytes :: "int \<Rightarrow> kv \<Rightarrow> kv" where
  "add_bytes n c = c\<lparr>kv_state := (kv_state c)\<lparr>cs_bytes := cs_bytes (kv_state c) + n\<rparr>\<rparr>"

definition add_hit :: "kv \<Rightarrow> kv" where
  "add_hit c = c\<lparr>kv_state := (kv_state c)\<lparr>cs_hits := cs_hits (kv_state c) + 1\<rparr>\<rparr>"

definition add_miss :: "kv \<Rightarrow> kv" where
  "add_miss c = c\<lparr>kv_state := (kv_state c)\<lparr>cs_misses := cs_misses (kv_state c) + 1\<rparr>\<rparr>"

definition add_eviction :: "kv \<Rightarrow> kv" where
  "add_eviction c = c\<lparr>kv_state := (kv_state c)\<lparr>cs_evictions := cs_evictions (kv_state c) + 1\<rparr>\<rparr>"

definition add_expiry :: "kv \<Rightarrow> kv" where
  "add_expiry c = c\<lparr>kv_state := (kv_state c)\<lparr>cs_expiries := cs_expiries (kv_state c) + 1\<rparr>\<rparr>"

definition remove_entry :: "string \<Rightarrow> entry \<Rightarrow> kv \<Rightarrow> kv" where
  "remove_entry key e c = add_bytes (- e_size e) (map_delete key c)"

definition put_entry :: "string \<Rightarrow> entry \<Rightarrow> kv \<Rightarrow> kv" where
  "put_entry key e c = add_bytes (e_size e) (map_set key e c)"

definition reinsert :: "string \<Rightarrow> entry \<Rightarrow> kv \<Rightarrow> kv" where
  "reinsert key e c = map_set key e (map_delete key c)"

definition add_key :: "string \<Rightarrow> string list \<Rightarrow> string list" where
  "add_key k ks = (if k \<in> set ks then ks else ks @ [k])"

text \<open>
  Pruning of the tombstones: the keys of \<open>keyVersions\<close> in order, those not live are deleted,
  and the loop stops once few enough are left.
\<close>

fun prune_loop :: "string list \<Rightarrow> kv \<Rightarrow> kv" where
  "prune_loop [] c = c"
| "prune_loop (k # ks) c =
     (let c = (if kv_lookup k c = None
               then c\<lparr>kv_state := (kv_state c)\<lparr>cs_absentEpoch := kv_generation c\<rparr>,
                      kv_versions := am_del k (kv_versions c)\<rparr>
               else c)
      in if length (am_list (kv_versions c)) \<le> o_maxEntries (kv_opts c) + 512 then c
         else prune_loop ks c)"

definition bumpVersion :: "string \<Rightarrow> unit kvop" where
  "bumpVersion key c =
     (if of_int (kv_generation c) \<ge> max_safe
      then (Inl (DbError LIMIT_EXCEEDED ''cache generation exhausted''), c)
      else
        let g = kv_generation c + 1;
            c = c\<lparr>kv_generation := g, kv_versions := am_set key g (kv_versions c),
                  kv_changed := map (add_key key) (kv_changed c)\<rparr>
        in (Inr (),
            if length (am_list (kv_versions c)) > o_maxEntries (kv_opts c) * 2 + 1024
            then prune_loop (map fst (am_list (kv_versions c))) c else c))"

definition notifyExpired :: "string \<Rightarrow> kv \<Rightarrow> kv" where
  "notifyExpired key c =
     (case kv_frames c of
        (st, ks) # fs \<Rightarrow> c\<lparr>kv_frames := (st, add_key key ks) # fs\<rparr>
      | [] \<Rightarrow> if kv_listener c then c\<lparr>kv_events := kv_events c @ [key]\<rparr> else c)"

definition flushExpiryEvents :: "string list \<Rightarrow> kv \<Rightarrow> kv" where
  "flushExpiryEvents keys c = (if kv_listener c then c\<lparr>kv_events := kv_events c @ keys\<rparr> else c)"

definition removeExpired :: "string \<Rightarrow> entry \<Rightarrow> unit kvop" where
  "removeExpired key e =
     andThen (modify (\<lambda>c. add_expiry (remove_entry key e c))) (\<lambda>_.
     andThen (bumpVersion key) (\<lambda>_.
     modify (notifyExpired key)))"

section \<open>Atomic blocks\<close>

definition captureState :: "kv \<Rightarrow> kv" where
  "captureState c =
     c\<lparr>kv_map := am_begin (kv_map c), kv_versions := am_begin (kv_versions c),
       kv_expiring := am_begin (kv_expiring c)\<rparr>"

definition restoreState :: "cache_state \<Rightarrow> kv \<Rightarrow> kv" where
  "restoreState st c =
     c\<lparr>kv_map := am_rollback (kv_map c), kv_versions := am_rollback (kv_versions c),
       kv_expiring := am_rollback (kv_expiring c), kv_state := st\<rparr>"

definition commitMaps :: "kv \<Rightarrow> kv" where
  "commitMaps c =
     c\<lparr>kv_map := am_commit (kv_map c), kv_versions := am_commit (kv_versions c),
       kv_expiring := am_commit (kv_expiring c)\<rparr>"

definition close_frame :: "kv \<Rightarrow> kv" where
  "close_frame c =
     (case kv_frames c of
        [] \<Rightarrow> c
      | (_, keys) # fs \<Rightarrow>
          let c = c\<lparr>kv_frames := fs\<rparr> in
          case fs of
            (st, ks) # fs' \<Rightarrow> c\<lparr>kv_frames := (st, fold add_key keys ks) # fs'\<rparr>
          | [] \<Rightarrow> flushExpiryEvents keys c)"

definition atomic :: "'a kvop \<Rightarrow> 'a kvop" where
  "atomic fn c =
     (let st = kv_state c;
          c1 = captureState c;
          c1 = c1\<lparr>kv_frames := (st, []) # kv_frames c1\<rparr>
      in case fn c1 of
           (Inr r, c2) \<Rightarrow> (Inr r, close_frame (commitMaps c2))
         | (Inl err, c2) \<Rightarrow> (Inl err, restoreState st (c2\<lparr>kv_frames := tl (kv_frames c2)\<rparr>)))"

end
