(* ===== verification/Kv_Ops.thy ===== *)
theory Kv_Ops
  imports Kv_Cache
begin

text \<open>
  The public operations of \<open>KVCache\<close> (\<open>src/src/cache.ts\<close>), in the order of the class. An
  operation returns a value or throws, and keeps the mutations done before it throws.
\<close>

definition check :: "(kv \<Rightarrow> 'a outcome) \<Rightarrow> 'a kvop" where
  "check f c = (f c, c)"

fun for_each :: "('x \<Rightarrow> unit kvop) \<Rightarrow> 'x list \<Rightarrow> unit kvop" where
  "for_each f [] = returns ()"
| "for_each f (x # xs) = andThen (f x) (\<lambda>_. for_each f xs)"

fun map_each :: "('x \<Rightarrow> 'b kvop) \<Rightarrow> 'x list \<Rightarrow> 'b list kvop" where
  "map_each f [] = returns []"
| "map_each f (x # xs) = andThen (f x) (\<lambda>y. andThen (map_each f xs) (\<lambda>ys. returns (y # ys)))"

section \<open>Limits\<close>

definition valueByteLength :: "json \<Rightarrow> nat" where
  "valueByteLength v = length (json_text v)"

definition assertKeyFits :: "string \<Rightarrow> kv \<Rightarrow> unit outcome" where
  "assertKeyFits key c =
     (if length key > o_maxKeyBytes (kv_opts c)
      then Inl (PlainError ''cache key exceeds maxKeyBytes'') else Inr ())"

definition assertEntryFits :: "nat \<Rightarrow> kv \<Rightarrow> unit outcome" where
  "assertEntryFits n c =
     (if n > o_maxBytes (kv_opts c)
      then Inl (PlainError ''cache entry exceeds maxBytes'') else Inr ())"

definition assertValueFits :: "string \<Rightarrow> json \<Rightarrow> kv \<Rightarrow> int outcome" where
  "assertValueFits key v c =
     bind_out (assertKeyFits key c) (\<lambda>_.
     if length key > o_maxKeyBytes (kv_opts c)
     then Inl (PlainError ''cache key exceeds maxKeyBytes'')
     else if valueByteLength v > o_maxValueBytes (kv_opts c)
     then Inl (PlainError ''cache value exceeds maxValueBytes'')
     else bind_out (assertEntryFits (length key + valueByteLength v) c) (\<lambda>_.
       Inr (int (length key + valueByteLength v))))"

definition over_limit :: "kv \<Rightarrow> bool" where
  "over_limit c \<longleftrightarrow>
     kv_size c > o_maxEntries (kv_opts c) \<or> cs_bytes (kv_state c) > int (o_maxBytes (kv_opts c))"

text \<open>
  Each round removes the oldest entry, so the size of the map bounds the number of rounds.
\<close>

fun evict_loop :: "nat \<Rightarrow> rat \<Rightarrow> unit kvop" where
  "evict_loop 0 now c = (Inr (), c)"
| "evict_loop (Suc n) now c =
     (if over_limit c then
        (case am_list (kv_map c) of
           [] \<Rightarrow> (Inr (), c)
         | (oldestKey, e) # _ \<Rightarrow>
             (if isExpired e now
              then andThen (removeExpired oldestKey e) (\<lambda>_. evict_loop n now) c
              else andThen (modify (\<lambda>c. add_eviction (remove_entry oldestKey e c))) (\<lambda>_.
                   andThen (bumpVersion oldestKey) (\<lambda>_. evict_loop n now)) c))
      else (Inr (), c))"

definition evictIfNeeded :: "rat \<Rightarrow> unit kvop" where
  "evictIfNeeded now c = evict_loop (kv_size c) now c"

section \<open>Reading\<close>

definition kv_getVersion :: "rat \<Rightarrow> string \<Rightarrow> int kvop" where
  "kv_getVersion now key =
     andThen (check (assertKeyFits key)) (\<lambda>_ c.
     andThen (case kv_lookup key c of
                Some e \<Rightarrow> if isExpired e now then removeExpired key e else returns ()
              | None \<Rightarrow> returns ())
       (\<lambda>_ c. (Inr (case map_of (am_list (kv_versions c)) key of
                      Some g \<Rightarrow> g | None \<Rightarrow> cs_absentEpoch (kv_state c)), c)) c)"

definition kv_get :: "rat \<Rightarrow> string \<Rightarrow> json option kvop" where
  "kv_get now key =
     andThen (check (assertKeyFits key)) (\<lambda>_ c.
     case kv_lookup key c of
       None \<Rightarrow> (Inr None, add_miss c)
     | Some e \<Rightarrow>
         if isExpired e now
         then andThen (removeExpired key e) (\<lambda>_ c. (Inr None, add_miss c)) c
         else
           (map_sum id Some (cloneJsonValue default_clone_bytes (e_value e)),
            add_hit (reinsert key e c)))"

definition kv_mget :: "rat \<Rightarrow> string list \<Rightarrow> json option list kvop" where
  "kv_mget now keys = map_each (kv_get now) keys"

section \<open>Writing\<close>

definition setOwned :: "rat \<Rightarrow> string \<Rightarrow> json \<Rightarrow> rat option \<Rightarrow> json \<Rightarrow> json kvop" where
  "setOwned now key ownedValue expiresAt returned =
     andThen (check (assertValueFits key ownedValue)) (\<lambda>sz c.
     if (case expiresAt of None \<Rightarrow> False | Some t \<Rightarrow> t \<le> now)
     then
       andThen (case kv_lookup key c of
                  Some old \<Rightarrow> andThen (modify (remove_entry key old)) (\<lambda>_. bumpVersion key)
                | None \<Rightarrow> returns ())
         (\<lambda>_. andThen (modify (\<lambda>c. add_miss (add_expiry c))) (\<lambda>_. returns returned)) c
     else
       andThen (case kv_lookup key c of
                  Some old \<Rightarrow> modify (remove_entry key old)
                | None \<Rightarrow> returns ())
         (\<lambda>_. andThen (modify (put_entry key
                  \<lparr>e_value = ownedValue, e_expiresAt = expiresAt, e_size = sz\<rparr>)) (\<lambda>_.
         andThen (bumpVersion key) (\<lambda>_.
         andThen (evictIfNeeded now) (\<lambda>_. returns returned)))) c)"

definition kv_set :: "rat \<Rightarrow> string \<Rightarrow> json \<Rightarrow> jsnum option \<Rightarrow> json kvop" where
  "kv_set now key v ttlMs =
     andThen (check (assertKeyFits key)) (\<lambda>_.
     andThen (check (\<lambda>c. cloneJsonValue (o_maxValueBytes (kv_opts c)) v)) (\<lambda>ownedValue.
     andThen (check (resolveTTLMs now key ttlMs)) (\<lambda>ttl.
     setOwned now key ownedValue (deadline now ttl) v)))"

definition finite_or :: "string \<Rightarrow> jsnum option \<Rightarrow> rat option outcome" where
  "finite_or m v =
     (case v of None \<Rightarrow> Inr None | Some (Fin t) \<Rightarrow> Inr (Some t) | Some _ \<Rightarrow> Inl (PlainError m))"

definition kv_setAt :: "rat \<Rightarrow> string \<Rightarrow> json \<Rightarrow> jsnum option \<Rightarrow> json kvop" where
  "kv_setAt now key v expiresAt =
     andThen (check (assertKeyFits key)) (\<lambda>_.
     andThen (check (\<lambda>_. finite_or ''expiresAt must be a finite epoch ms'' expiresAt)) (\<lambda>t.
     andThen (check (\<lambda>c. cloneJsonValue (o_maxValueBytes (kv_opts c)) v)) (\<lambda>ownedValue.
     setOwned now key ownedValue t v)))"

definition kv_del :: "rat \<Rightarrow> string \<Rightarrow> bool kvop" where
  "kv_del now key =
     andThen (check (assertKeyFits key)) (\<lambda>_ c.
     case kv_lookup key c of
       None \<Rightarrow> (Inr False, c)
     | Some e \<Rightarrow>
         if isExpired e now then andThen (removeExpired key e) (\<lambda>_. returns False) c
         else andThen (modify (remove_entry key e)) (\<lambda>_.
              andThen (bumpVersion key) (\<lambda>_. returns True)) c)"

definition in_prefix :: "string \<Rightarrow> string \<Rightarrow> bool" where
  "in_prefix prefix key \<longleftrightarrow> key = prefix \<or> strip_prefix (prefix @ '':'') key \<noteq> None"

text \<open>
  A loop over the keys of the map deletes only the key it has just been given, so it visits
  the keys that were there when it started.
\<close>

definition clear_key :: "string \<Rightarrow> unit kvop" where
  "clear_key key c =
     (case kv_lookup key c of
        Some e \<Rightarrow> andThen (modify (remove_entry key e)) (\<lambda>_. bumpVersion key) c
      | None \<Rightarrow> bumpVersion key c)"

definition kv_clearPrefix :: "string \<Rightarrow> nat kvop" where
  "kv_clearPrefix prefix =
     andThen (check (assertKeyFits prefix)) (\<lambda>_ c.
     let ks = filter (in_prefix prefix) (map fst (am_list (kv_map c)))
     in andThen (for_each clear_key ks) (\<lambda>_. returns (length ks)) c)"

text \<open>
  One batch of \<open>clearPrefixBatches\<close>. The iterator outlives the batch; \<open>visits\<close> are the at
  most \<open>maxKeys\<close> keys it yields in this one.
\<close>

definition batch_key :: "string \<Rightarrow> string \<Rightarrow> nat kvop" where
  "batch_key prefix key c =
     (if in_prefix prefix key then
        (case kv_lookup key c of
           Some e \<Rightarrow> andThen (modify (remove_entry key e)) (\<lambda>_.
                      andThen (bumpVersion key) (\<lambda>_. returns 1)) c
         | None \<Rightarrow> (Inr 0, c))
      else (Inr 0, c))"

definition clear_batch :: "string \<Rightarrow> nat \<Rightarrow> string list \<Rightarrow> (nat \<times> nat) kvop" where
  "clear_batch prefix maxKeys visits =
     atomic (andThen (map_each (batch_key prefix) (take maxKeys visits)) (\<lambda>ns.
       returns (length (take maxKeys visits), sum_list ns)))"

definition map_clear :: "kv \<Rightarrow> kv" where
  "map_clear c = fold map_delete (map fst (am_list (kv_map c))) c"

definition kv_clear :: "unit kvop" where
  "kv_clear c =
     andThen (for_each bumpVersion (map fst (am_list (kv_map c)))) (\<lambda>_.
     modify (\<lambda>c. let c = map_clear c in c\<lparr>kv_state := (kv_state c)\<lparr>cs_bytes := 0\<rparr>\<rparr>)) c"

record batch_entry =
  b_key :: string
  b_value :: json
  b_ttlMs :: "jsnum option"

definition mset_check :: "rat \<Rightarrow> batch_entry \<Rightarrow> (string \<times> json \<times> rat option) kvop" where
  "mset_check now e =
     andThen (check (\<lambda>_. cloneJsonValue default_clone_bytes (b_value e))) (\<lambda>v.
     andThen (check (resolveTTLMs now (b_key e) (b_ttlMs e))) (\<lambda>ttl.
     andThen (check (assertValueFits (b_key e) v)) (\<lambda>_.
     returns (b_key e, v, deadline now ttl))))"

definition mset_put :: "rat \<Rightarrow> string \<times> json \<times> rat option \<Rightarrow> unit kvop" where
  "mset_put now p = (case p of (k, v, t) \<Rightarrow> andThen (setOwned now k v t v) (\<lambda>_. returns ()))"

definition kv_mset :: "rat \<Rightarrow> batch_entry list \<Rightarrow> nat kvop" where
  "kv_mset now entries =
     andThen (map_each (mset_check now) entries) (\<lambda>validated.
     andThen (for_each (mset_put now) validated) (\<lambda>_.
     returns (length entries)))"

text \<open>
  \<open>now\<close> is the first reading of the clock and \<open>later\<close> the second, which decides whether the
  old entry is still there to be replaced.
\<close>

definition incr_base :: "rat \<Rightarrow> string \<Rightarrow> (rat \<times> rat option) kvop" where
  "incr_base now key c =
     (case kv_lookup key c of
        None \<Rightarrow> (Inr (0, None), c)
      | Some e \<Rightarrow>
          if isExpired e now then andThen (removeExpired key e) (\<lambda>_. returns (0, None)) c
          else (case e_value e of
                  JNum b \<Rightarrow> (Inr (b, e_expiresAt e), c)
                | _ \<Rightarrow> (Inl (PlainError ''INCR requires a numeric value''), c)))"

definition incr_store :: "rat \<Rightarrow> string \<Rightarrow> entry \<Rightarrow> unit kvop" where
  "incr_store later key e c =
     andThen
       (case kv_lookup key c of
          Some live \<Rightarrow> if \<not> isExpired live later then modify (remove_entry key live) else returns ()
        | None \<Rightarrow> returns ())
       (\<lambda>_. andThen (modify (put_entry key e)) (\<lambda>_.
       andThen (bumpVersion key) (\<lambda>_. evictIfNeeded later))) c"

definition kv_incr :: "rat \<Rightarrow> rat \<Rightarrow> string \<Rightarrow> jsnum \<Rightarrow> rat kvop" where
  "kv_incr now later key delta =
     andThen (check (assertKeyFits key)) (\<lambda>_.
     andThen (check (\<lambda>_. case delta of Fin d \<Rightarrow> Inr d
                        | _ \<Rightarrow> Inl (PlainError ''incr delta must be a finite number''))) (\<lambda>d.
     andThen (incr_base now key) (\<lambda>(base, expiresAt).
     andThen (check (\<lambda>_. case js_add base d of Fin n \<Rightarrow> Inr n
                        | _ \<Rightarrow> Inl (PlainError ''INCR overflow''))) (\<lambda>nxt.
     andThen (check (assertValueFits key (JNum nxt))) (\<lambda>sz.
     andThen (incr_store later key \<lparr>e_value = JNum nxt, e_expiresAt = expiresAt, e_size = sz\<rparr>) (\<lambda>_.
     returns nxt))))))"

definition kv_decr :: "rat \<Rightarrow> rat \<Rightarrow> string \<Rightarrow> jsnum \<Rightarrow> rat kvop" where
  "kv_decr now later key delta = kv_incr now later key (js_neg delta)"

definition valuesEqual :: "json option \<Rightarrow> json option \<Rightarrow> bool" where
  "valuesEqual a b =
     (case (a, b) of
        (None, None) \<Rightarrow> True | (Some x, Some y) \<Rightarrow> structuralEqual x y | _ \<Rightarrow> False)"

definition clone_opt :: "json option \<Rightarrow> json option outcome" where
  "clone_opt v =
     (case v of None \<Rightarrow> Inr None | Some x \<Rightarrow> map_sum id Some (cloneJsonValue default_clone_bytes x))"

definition cas_expiry ::
    "rat \<Rightarrow> string \<Rightarrow> jsnum option \<Rightarrow> entry option \<Rightarrow> kv \<Rightarrow> rat option outcome" where
  "cas_expiry now key ttlMs current c =
     (case ttlMs of
        Some t \<Rightarrow> map_sum id (\<lambda>ttl. deadline now (Some ttl)) (validateTTL now t)
      | None \<Rightarrow>
          (case current of
             Some e \<Rightarrow> Inr (e_expiresAt e)
           | None \<Rightarrow> map_sum id (deadline now) (resolveTTLMs now key None c)))"

definition cas_store ::
    "rat \<Rightarrow> string \<Rightarrow> entry option \<Rightarrow> json \<Rightarrow> int \<Rightarrow> rat option \<Rightarrow> bool kvop" where
  "cas_store now key current ownedValue sz expiresAt c =
     (if (case expiresAt of None \<Rightarrow> False | Some t \<Rightarrow> t \<le> now)
      then
        andThen (case current of
                   Some e \<Rightarrow> andThen (modify (remove_entry key e)) (\<lambda>_. bumpVersion key)
                 | None \<Rightarrow> returns ())
          (\<lambda>_. andThen (modify add_expiry) (\<lambda>_. returns True)) c
      else
        andThen
          (case kv_lookup key c of
             Some old \<Rightarrow> modify (remove_entry key old)
           | None \<Rightarrow> returns ())
          (\<lambda>_. andThen (modify (put_entry key
                   \<lparr>e_value = ownedValue, e_expiresAt = expiresAt, e_size = sz\<rparr>)) (\<lambda>_.
          andThen (bumpVersion key) (\<lambda>_.
          andThen (evictIfNeeded now) (\<lambda>_. returns True)))) c)"

text \<open>\<open>current\<close> is the live entry; it is the entry of the map unless it has been dropped.\<close>

definition cas_current :: "rat \<Rightarrow> string \<Rightarrow> entry option kvop" where
  "cas_current now key c =
     (case kv_lookup key c of
        None \<Rightarrow> (Inr None, c)
      | Some e \<Rightarrow>
          if isExpired e now then andThen (removeExpired key e) (\<lambda>_. returns None) c
          else (Inr (Some e), c))"

definition cas_compare ::
    "rat \<Rightarrow> string \<Rightarrow> json option \<Rightarrow> json \<Rightarrow> jsnum option \<Rightarrow> int \<Rightarrow> entry option \<Rightarrow> bool kvop" where
  "cas_compare now key ownedExpected ownedValue ttlMs sz current =
     (if \<not> valuesEqual (map_option e_value current) ownedExpected then returns False
      else
        andThen (check (cas_expiry now key ttlMs current)) (\<lambda>expiresAt.
        cas_store now key current ownedValue sz expiresAt))"

definition kv_cas ::
    "rat \<Rightarrow> string \<Rightarrow> json option \<Rightarrow> json \<Rightarrow> jsnum option \<Rightarrow> bool kvop" where
  "kv_cas now key expected v ttlMs =
     andThen (check (assertKeyFits key)) (\<lambda>_.
     andThen (check (\<lambda>_. clone_opt expected)) (\<lambda>ownedExpected.
     andThen (check (\<lambda>_. cloneJsonValue default_clone_bytes v)) (\<lambda>ownedValue.
     andThen (check (assertValueFits key ownedValue)) (\<lambda>sz.
     andThen (cas_current now key) (\<lambda>current.
     cas_compare now key ownedExpected ownedValue ttlMs sz current)))))"

section \<open>Snapshots\<close>

record snapshot_entry =
  s_key :: string
  s_value :: json
  s_expiresAt :: "rat option"

fun dump_list :: "rat \<Rightarrow> (string \<times> entry) list \<Rightarrow> snapshot_entry list outcome" where
  "dump_list now [] = Inr []"
| "dump_list now ((key, e) # es) =
     (if isExpired e now then dump_list now es
      else bind_out (cloneJsonValue default_clone_bytes (e_value e)) (\<lambda>v.
           bind_out (dump_list now es) (\<lambda>out.
           Inr (\<lparr>s_key = key, s_value = v, s_expiresAt = e_expiresAt e\<rparr> # out))))"

definition kv_dump :: "rat \<Rightarrow> snapshot_entry list kvop" where
  "kv_dump now = check (\<lambda>c. dump_list now (am_list (kv_map c)))"

text \<open>An entry handed to \<open>restore\<close>; its deadline is still to be validated.\<close>

record restore_entry =
  r_key :: string
  r_value :: json
  r_expiresAt :: "jsnum option"

definition restore_deadline :: "jsnum option \<Rightarrow> rat option outcome" where
  "restore_deadline v =
     (case v of
        None \<Rightarrow> Inr None
      | Some (Fin t) \<Rightarrow>
          if \<bar>t\<bar> > max_safe
          then Inl (DbError INVALID_VALUE ''snapshot expiresAt must be a finite epoch ms'')
          else Inr (Some t)
      | Some _ \<Rightarrow> Inl (DbError INVALID_VALUE ''snapshot expiresAt must be a finite epoch ms''))"

fun restore_check ::
    "rat \<Rightarrow> kv \<Rightarrow> string list \<Rightarrow> restore_entry list \<Rightarrow> (string \<times> json \<times> rat option) list outcome"
where
  "restore_check now c seen [] = Inr []"
| "restore_check now c seen (e # es) =
     (if r_key e \<in> set seen then Inl (DbError INVALID_VALUE ''duplicate snapshot key'')
      else bind_out (restore_deadline (r_expiresAt e)) (\<lambda>t.
           bind_out (cloneJsonValue default_clone_bytes (r_value e)) (\<lambda>v.
           bind_out (assertValueFits (r_key e) v c) (\<lambda>_.
           bind_out (restore_check now c (r_key e # seen) es) (\<lambda>pending.
           Inr (if (case t of None \<Rightarrow> False | Some t \<Rightarrow> t \<le> now) then pending
                else (r_key e, v, t) # pending))))))"

definition restore_put :: "string \<times> json \<times> rat option \<Rightarrow> unit kvop" where
  "restore_put p c =
     (case p of (key, v, t) \<Rightarrow>
        andThen (case kv_lookup key c of
                   Some old \<Rightarrow> modify (remove_entry key old)
                 | None \<Rightarrow> returns ())
          (\<lambda>_. andThen (check (assertValueFits key v)) (\<lambda>sz.
          andThen (modify (put_entry key \<lparr>e_value = v, e_expiresAt = t, e_size = sz\<rparr>)) (\<lambda>_.
          bumpVersion key))) c)"

fun restore_evict :: "nat \<Rightarrow> unit kvop" where
  "restore_evict 0 c = (Inr (), c)"
| "restore_evict (Suc n) c =
     (if over_limit c then
        (case am_list (kv_map c) of
           [] \<Rightarrow> (Inr (), c)
         | (k, e) # _ \<Rightarrow>
             andThen (modify (\<lambda>c. add_eviction (remove_entry k e c))) (\<lambda>_.
             andThen (bumpVersion k) (\<lambda>_. restore_evict n)) c)
      else (Inr (), c))"

definition kv_restore :: "rat \<Rightarrow> restore_entry list \<Rightarrow> nat kvop" where
  "kv_restore now entries =
     andThen (check (\<lambda>c. restore_check now c [] entries)) (\<lambda>pending.
     andThen (for_each restore_put pending) (\<lambda>_.
     andThen (\<lambda>c. restore_evict (kv_size c) c) (\<lambda>_.
     returns (length pending))))"

definition kv_replace :: "rat \<Rightarrow> restore_entry list \<Rightarrow> nat kvop" where
  "kv_replace now entries = atomic (andThen kv_clear (\<lambda>_. kv_restore now entries))"

section \<open>Expiry\<close>

text \<open>The live entry of a key, after dropping it when it has expired.\<close>

definition live_entry :: "rat \<Rightarrow> string \<Rightarrow> entry option kvop" where
  "live_entry now key c =
     (case kv_lookup key c of
        None \<Rightarrow> (Inr None, c)
      | Some e \<Rightarrow>
          if isExpired e now then andThen (removeExpired key e) (\<lambda>_. returns None) c
          else (Inr (Some e), c))"

definition kv_ttl :: "rat \<Rightarrow> string \<Rightarrow> int kvop" where
  "kv_ttl now key =
     andThen (check (assertKeyFits key)) (\<lambda>_.
     andThen (live_entry now key) (\<lambda>r.
     case r of
       None \<Rightarrow> andThen (modify add_miss) (\<lambda>_. returns (- 2))
     | Some e \<Rightarrow>
         (case e_expiresAt e of
            None \<Rightarrow> returns (- 1)
          | Some t \<Rightarrow> returns \<lceil>max 0 (fin_of (js_add t (- now)))\<rceil>)))"

text \<open>\<open>None\<close> is the result \<open>null\<close>, \<open>Some None\<close> is \<open>undefined\<close>.\<close>

definition kv_expiration :: "rat \<Rightarrow> string \<Rightarrow> rat option option kvop" where
  "kv_expiration now key =
     andThen (check (assertKeyFits key)) (\<lambda>_.
     andThen (live_entry now key) (\<lambda>r. returns (map_option e_expiresAt r)))"

definition kv_expireAt :: "rat \<Rightarrow> string \<Rightarrow> jsnum \<Rightarrow> bool kvop" where
  "kv_expireAt now key expiresAt =
     andThen (check (assertKeyFits key)) (\<lambda>_.
     andThen (check (\<lambda>_. finite_or ''expiresAt must be a finite epoch ms'' (Some expiresAt))) (\<lambda>t.
     andThen (live_entry now key) (\<lambda>r.
     case r of
       None \<Rightarrow> returns False
     | Some e \<Rightarrow>
         if (case t of None \<Rightarrow> False | Some t \<Rightarrow> t \<le> now)
         then andThen (removeExpired key e) (\<lambda>_. returns True)
         else andThen (modify (reinsert key (e\<lparr>e_expiresAt := t\<rparr>))) (\<lambda>_.
              andThen (bumpVersion key) (\<lambda>_. returns True)))))"

definition kv_expire :: "rat \<Rightarrow> string \<Rightarrow> jsnum \<Rightarrow> bool kvop" where
  "kv_expire now key ttlMs =
     andThen (check (assertKeyFits key)) (\<lambda>_.
     andThen (check (\<lambda>_. validateTTL now ttlMs)) (\<lambda>ttl.
     andThen (live_entry now key) (\<lambda>r.
     case r of
       None \<Rightarrow> returns False
     | Some e \<Rightarrow>
         andThen (modify (reinsert key (e\<lparr>e_expiresAt := deadline now (Some ttl)\<rparr>))) (\<lambda>_.
         andThen (bumpVersion key) (\<lambda>_. returns True)))))"

definition kv_persist :: "rat \<Rightarrow> string \<Rightarrow> bool kvop" where
  "kv_persist now key =
     andThen (check (assertKeyFits key)) (\<lambda>_.
     andThen (live_entry now key) (\<lambda>r.
     case r of
       None \<Rightarrow> returns False
     | Some e \<Rightarrow>
         andThen (modify (reinsert key (e\<lparr>e_expiresAt := None\<rparr>))) (\<lambda>_.
         andThen (bumpVersion key) (\<lambda>_. returns True))))"

definition sweep_key :: "rat \<Rightarrow> string \<Rightarrow> nat kvop" where
  "sweep_key now key c =
     (case kv_lookup key c of
        Some e \<Rightarrow>
          if isExpired e now then andThen (removeExpired key e) (\<lambda>_. returns 1) c else (Inr 0, c)
      | None \<Rightarrow> (Inr 0, c))"

definition kv_sweep :: "rat \<Rightarrow> nat kvop" where
  "kv_sweep now c =
     andThen (map_each (sweep_key now) (map fst (am_list (kv_expiring c)))) (\<lambda>ns.
     returns (sum_list ns)) c"

text \<open>
  One tick of the background sweeper. Its cursor outlives the tick and may be stale;
  \<open>visits\<close> are the keys it yields before the budget of keys or of time is spent.
\<close>

definition budget_key :: "rat \<Rightarrow> string \<Rightarrow> nat kvop" where
  "budget_key now key c =
     (case kv_lookup key c of
        Some e \<Rightarrow>
          (case e_expiresAt e of
             Some t \<Rightarrow>
               if t \<le> now
               then andThen (modify (\<lambda>c. c\<lparr>kv_lag := max (kv_lag c) (fin_of (js_add now (- t)))\<rparr>)) (\<lambda>_.
                    andThen (removeExpired key e) (\<lambda>_. returns 1)) c
               else (Inr 0, c)
           | None \<Rightarrow> (Inr 0, c))
      | None \<Rightarrow> (Inr 0, c))"

definition kv_sweepBudget :: "rat \<Rightarrow> jsnum \<Rightarrow> jsnum \<Rightarrow> string list \<Rightarrow> nat kvop" where
  "kv_sweepBudget now maxKeys maxMs visits =
     andThen (check (\<lambda>_. validatePositiveSafeInteger maxKeys None)) (\<lambda>k.
     andThen (check (\<lambda>_. validateNonNegativeNumber maxMs)) (\<lambda>_.
     andThen (map_each (budget_key now) (take (nat \<lfloor>k\<rfloor>) visits)) (\<lambda>ns. returns (sum_list ns))))"

definition kv_startSweeper :: "jsnum option \<Rightarrow> unit kvop" where
  "kv_startSweeper intervalMs =
     andThen (check (\<lambda>c. case intervalMs of
                None \<Rightarrow> Inr (o_sweepIntervalMs (kv_opts c)) | Some i \<Rightarrow> validateTimeout i)) (\<lambda>ms.
     if \<not> ms > 0 then returns () else modify (\<lambda>c. c\<lparr>kv_timer := Some ms\<rparr>))"

definition kv_stopSweeper :: "kv \<Rightarrow> kv" where
  "kv_stopSweeper c = c\<lparr>kv_timer := None\<rparr>"

section \<open>Atomic changes and statistics\<close>

fun collect_changes ::
    "rat \<Rightarrow> kv \<Rightarrow> string list \<Rightarrow> (snapshot_entry list \<times> string list) outcome" where
  "collect_changes now c [] = Inr ([], [])"
| "collect_changes now c (key # ks) =
     (case kv_lookup key c of
        Some e \<Rightarrow>
          if isExpired e now
          then map_sum id (\<lambda>(es, ds). (es, key # ds)) (collect_changes now c ks)
          else bind_out (cloneJsonValue default_clone_bytes (e_value e)) (\<lambda>v.
               map_sum id (\<lambda>(es, ds).
                 (\<lparr>s_key = key, s_value = v, s_expiresAt = e_expiresAt e\<rparr> # es, ds))
                 (collect_changes now c ks))
      | None \<Rightarrow> map_sum id (\<lambda>(es, ds). (es, key # ds)) (collect_changes now c ks))"

text \<open>
  The operation \<open>fn\<close> and the callback \<open>commit\<close>, which makes the changes durable or throws, may
  also act outside the cache, on a state that a failure does not roll back.
\<close>

definition on_kv :: "'a kvop \<Rightarrow> ('w \<times> kv, 'a) act" where
  "on_kv m wc = (case m (snd wc) of (r, c) \<Rightarrow> (r, (fst wc, c)))"

definition atomic_with :: "('w \<times> kv, 'a) act \<Rightarrow> ('w \<times> kv, 'a) act" where
  "atomic_with fn wc =
     (let st = kv_state (snd wc);
          c1 = captureState (snd wc);
          c1 = c1\<lparr>kv_frames := (st, []) # kv_frames c1\<rparr>
      in case fn (fst wc, c1) of
           (Inr r, (w, c2)) \<Rightarrow> (Inr r, (w, close_frame (commitMaps c2)))
         | (Inl err, (w, c2)) \<Rightarrow> (Inl err, (w, restoreState st (c2\<lparr>kv_frames := tl (kv_frames c2)\<rparr>))))"

definition commit_changes ::
    "rat \<Rightarrow> (snapshot_entry list \<Rightarrow> string list \<Rightarrow> ('w, unit) act) \<Rightarrow> ('w \<times> kv, unit) act" where
  "commit_changes now commit wc =
     (case collect_changes now (snd wc) (hd (kv_changed (snd wc))) of
        Inl e \<Rightarrow> (Inl e, wc)
      | Inr (entries, deleted) \<Rightarrow> (case commit entries deleted (fst wc) of (r, w) \<Rightarrow> (r, (w, snd wc))))"

definition kv_atomicChanges ::
    "rat \<Rightarrow> ('w \<times> kv, 'a) act \<Rightarrow> (snapshot_entry list \<Rightarrow> string list \<Rightarrow> ('w, unit) act) \<Rightarrow> ('w \<times> kv, 'a) act" where
  "kv_atomicChanges now fn commit wc =
     (case atomic_with (andThen fn (\<lambda>r. andThen (commit_changes now commit) (\<lambda>_. returns r)))
        (fst wc, (snd wc)\<lparr>kv_changed := [] # kv_changed (snd wc)\<rparr>) of
      (r, (w, c)) \<Rightarrow> (r, (w, c\<lparr>kv_changed := tl (kv_changed c)\<rparr>)))"

definition kv_resetStats :: "kv \<Rightarrow> kv" where
  "kv_resetStats c =
     c\<lparr>kv_state := (kv_state c)\<lparr>cs_hits := 0, cs_misses := 0, cs_evictions := 0, cs_expiries := 0\<rparr>\<rparr>"

record kv_stats =
  st_hits :: int
  st_misses :: int
  st_evictions :: int
  st_expiries :: int
  st_entries :: nat
  st_bytes :: int

definition stats_of :: "kv \<Rightarrow> kv_stats" where
  "stats_of c =
     \<lparr>st_hits = cs_hits (kv_state c), st_misses = cs_misses (kv_state c),
      st_evictions = cs_evictions (kv_state c), st_expiries = cs_expiries (kv_state c),
      st_entries = kv_size c, st_bytes = cs_bytes (kv_state c)\<rparr>"

end
