(* ===== verification/Kv_Inv.thy ===== *)
theory Kv_Inv
  imports Kv_Ops
begin

text \<open>
  The invariant of the cache and the relation \<open>evolves\<close> between the states before and after
  an operation: the byte count is the sum of the sizes, the expiry index mirrors the map, the
  snapshots of open atomic blocks are intact, and a key whose version is unchanged has its
  entry unchanged. The rules of this theory follow the primitive updates; \<open>wp\<close> chains them
  through an operation.
\<close>

section \<open>The invariant\<close>

definition entry_ok :: "kv_options \<Rightarrow> string \<Rightarrow> entry \<Rightarrow> bool" where
  "entry_ok opts key e \<longleftrightarrow>
     e_size e = int (length key + valueByteLength (e_value e)) \<and>
     length key \<le> o_maxKeyBytes opts \<and> valueByteLength (e_value e) \<le> o_maxValueBytes opts \<and>
     e_size e \<le> int (o_maxBytes opts) \<and>
     json_depth (e_value e) \<le> MAX_JSON_DEPTH \<and> node_count (e_value e) \<le> MAX_JSON_NODES"

definition core_ok ::
    "kv_options \<Rightarrow> int \<Rightarrow> (string \<times> entry) list \<Rightarrow> (string \<times> rat) list \<Rightarrow> (string \<times> int) list \<Rightarrow>
     cache_state \<Rightarrow> bool"
where
  "core_ok opts gen ml el vl st \<longleftrightarrow>
     distinct_keys ml \<and> distinct_keys el \<and> distinct_keys vl \<and>
     cs_bytes st = al_sum e_size ml \<and>
     (\<forall>k. map_of el k = Option.bind (map_of ml k) e_expiresAt) \<and>
     (\<forall>k e. map_of ml k = Some e \<longrightarrow> entry_ok opts k e) \<and>
     (\<forall>k g. map_of vl k = Some g \<longrightarrow> 1 \<le> g \<and> g \<le> gen) \<and>
     0 \<le> cs_absentEpoch st \<and> cs_absentEpoch st \<le> gen"

fun frames_core ::
    "kv_options \<Rightarrow> int \<Rightarrow> (string \<times> entry) list list \<Rightarrow> (string \<times> rat) list list \<Rightarrow>
     (string \<times> int) list list \<Rightarrow> cache_state list \<Rightarrow> bool"
where
  "frames_core opts gen [] [] [] [] = True"
| "frames_core opts gen (m # ms) (e # es) (v # vs) (f # fs) =
     (core_ok opts gen m e v f \<and> frames_core opts gen ms es vs fs)"
| "frames_core opts gen _ _ _ _ = False"

definition kv_ok :: "kv \<Rightarrow> bool" where
  "kv_ok c \<longleftrightarrow>
     core_ok (kv_opts c) (kv_generation c) (am_list (kv_map c)) (am_list (kv_expiring c))
       (am_list (kv_versions c)) (kv_state c) \<and>
     frames_core (kv_opts c) (kv_generation c) (am_frames (kv_map c)) (am_frames (kv_expiring c))
       (am_frames (kv_versions c)) (map fst (kv_frames c))"

text \<open>The version of a key, as \<open>getVersion\<close> reports it.\<close>

definition ver :: "string \<Rightarrow> kv \<Rightarrow> int" where
  "ver key c =
     (case map_of (am_list (kv_versions c)) key of
        Some g \<Rightarrow> g | None \<Rightarrow> cs_absentEpoch (kv_state c))"

definition same_ctx :: "kv \<Rightarrow> kv \<Rightarrow> bool" where
  "same_ctx c0 c \<longleftrightarrow>
     am_frames (kv_map c) = am_frames (kv_map c0) \<and>
     am_frames (kv_expiring c) = am_frames (kv_expiring c0) \<and>
     am_frames (kv_versions c) = am_frames (kv_versions c0) \<and>
     map fst (kv_frames c) = map fst (kv_frames c0) \<and>
     kv_opts c = kv_opts c0 \<and> kv_listener c = kv_listener c0 \<and>
     length (kv_changed c) = length (kv_changed c0) \<and>
     tl (kv_frames c) = tl (kv_frames c0) \<and>
     (kv_frames c0 \<noteq> [] \<longrightarrow> kv_events c = kv_events c0)"

definition exhausted :: "kv \<Rightarrow> bool" where
  "exhausted c \<longleftrightarrow> of_int (kv_generation c) \<ge> max_safe"

text \<open>
  The changed keys that open \<open>atomicChanges\<close> calls collect: none is forgotten, and an entry that
  differs belongs to a collected key or to one of \<open>K\<close>.
\<close>

definition grows :: "kv \<Rightarrow> kv \<Rightarrow> bool" where
  "grows c0 c \<longleftrightarrow> list_all2 (\<lambda>a b. set a \<subseteq> set b) (kv_changed c0) (kv_changed c)"

definition noted :: "string set \<Rightarrow> kv \<Rightarrow> kv \<Rightarrow> bool" where
  "noted K c0 c \<longleftrightarrow> grows c0 c \<and>
     (\<forall>k. k \<notin> K \<longrightarrow> kv_changed c \<noteq> [] \<longrightarrow> k \<notin> set (hd (kv_changed c)) \<longrightarrow> kv_lookup k c = kv_lookup k c0)"

text \<open>
  \<open>track K c0 c\<close>: from \<open>c0\<close> to \<open>c\<close> only the entries of keys in \<open>K\<close> may have changed without a
  new version.
\<close>

definition track :: "string set \<Rightarrow> kv \<Rightarrow> kv \<Rightarrow> bool" where
  "track K c0 c \<longleftrightarrow> kv_ok c \<and> same_ctx c0 c \<and> kv_generation c0 \<le> kv_generation c \<and>
     (\<forall>k. ver k c0 \<le> ver k c) \<and> (\<forall>k. ver k c \<le> kv_generation c) \<and>
     (\<forall>k. k \<notin> K \<longrightarrow> ver k c = ver k c0 \<longrightarrow> kv_lookup k c = kv_lookup k c0) \<and> noted K c0 c"

definition evolves :: "kv \<Rightarrow> kv \<Rightarrow> bool" where
  "evolves c0 c \<longleftrightarrow> track (if exhausted c then UNIV else {}) c0 c"

lemma same_ctx_refl [simp]: "same_ctx c c"
  by (simp add: same_ctx_def)

lemma same_ctx_trans: "same_ctx a b \<Longrightarrow> same_ctx b c \<Longrightarrow> same_ctx a c"
  unfolding same_ctx_def by (metis map_is_Nil_conv)

lemma ver_le_gen: "kv_ok c \<Longrightarrow> ver k c \<le> kv_generation c"
  by (auto simp: kv_ok_def core_ok_def ver_def split: option.splits)

lemma grows_refl [simp]: "grows c c"
  by (simp add: grows_def list.rel_refl)

lemma grows_trans: "grows a b \<Longrightarrow> grows b c \<Longrightarrow> grows a c"
  unfolding grows_def by (rule list_all2_trans) auto

lemma grows_hd: "grows a b \<Longrightarrow> kv_changed b \<noteq> [] \<Longrightarrow> kv_changed a \<noteq> [] \<and> set (hd (kv_changed a)) \<subseteq> set (hd (kv_changed b))"
  by (cases "kv_changed a"; cases "kv_changed b") (auto simp: grows_def)

lemma noted_refl [simp]: "noted K c c"
  by (simp add: noted_def)

lemma noted_mono: "noted K c0 c \<Longrightarrow> K \<subseteq> L \<Longrightarrow> noted L c0 c"
  by (auto simp: noted_def)

lemma noted_trans: "noted K a b \<Longrightarrow> noted K b c \<Longrightarrow> noted K a c"
  using grows_trans [of a b c] grows_hd [of b c] by (auto simp: noted_def)

lemma track_refl: "kv_ok c \<Longrightarrow> track {} c c"
  by (simp add: track_def ver_le_gen)

lemma track_mono: "track K c0 c \<Longrightarrow> K \<subseteq> L \<Longrightarrow> track L c0 c"
  by (auto simp: track_def intro: noted_mono)

lemma evolvesI: "track {} c0 c \<Longrightarrow> evolves c0 c"
  unfolding evolves_def by (rule track_mono) auto

lemma evolvesI_exhausted: "track K c0 c \<Longrightarrow> exhausted c \<Longrightarrow> evolves c0 c"
  unfolding evolves_def by (auto intro: track_mono)

lemma evolves_ok: "evolves c0 c \<Longrightarrow> kv_ok c"
  by (simp add: evolves_def track_def)

lemma evolves_refl: "kv_ok c \<Longrightarrow> evolves c c"
  by (simp add: evolvesI track_refl)

lemma exhausted_mono: "kv_generation c \<le> kv_generation c' \<Longrightarrow> exhausted c \<Longrightarrow> exhausted c'"
  unfolding exhausted_def by (meson of_int_le_iff order_trans)

lemma track_trans: "track K a b \<Longrightarrow> track K b c \<Longrightarrow> track K a c"
  unfolding track_def by (smt (verit) order.antisym order.trans same_ctx_trans noted_trans)

lemma evolves_trans: "evolves a b \<Longrightarrow> evolves b c \<Longrightarrow> evolves a c"
proof -
  assume ab: "evolves a b" and bc: "evolves b c"
  show ?thesis
  proof (cases "exhausted c")
    case True
    have "track UNIV a b" "track UNIV b c"
      using ab bc unfolding evolves_def by (auto elim: track_mono)
    with True show ?thesis by (auto simp: evolves_def intro: track_trans)
  next
    case False
    then have "\<not> exhausted b"
      using bc exhausted_mono by (auto simp: evolves_def track_def)
    with ab bc False show ?thesis by (auto simp: evolves_def intro: track_trans)
  qed
qed

section \<open>Primitive updates\<close>

lemmas prim_defs = map_set_def map_delete_def add_bytes_def add_hit_def add_miss_def
  add_eviction_def add_expiry_def remove_entry_def put_entry_def reinsert_def am_set_def am_del_def

lemma lookup_remove [simp]:
  "kv_lookup k (remove_entry key e c) = (if k = key then None else kv_lookup k c)"
  by (auto simp: kv_lookup_def prim_defs)

lemma lookup_put [simp]:
  "kv_lookup k (put_entry key e c) = (if k = key then Some e else kv_lookup k c)"
  by (auto simp: kv_lookup_def prim_defs split: option.splits)

lemma lookup_reinsert [simp]:
  "kv_lookup k (reinsert key e c) = (if k = key then Some e else kv_lookup k c)"
  by (auto simp: kv_lookup_def prim_defs split: option.splits)

lemma lookup_count [simp]:
  "kv_lookup k (add_hit c) = kv_lookup k c" "kv_lookup k (add_miss c) = kv_lookup k c"
  "kv_lookup k (add_eviction c) = kv_lookup k c" "kv_lookup k (add_expiry c) = kv_lookup k c"
  "kv_lookup k (notifyExpired key c) = kv_lookup k c"
  by (simp_all add: kv_lookup_def prim_defs notifyExpired_def split: list.splits)

lemma list_remove:
  "kv_lookup key c = Some e0 \<Longrightarrow>
     am_list (kv_map (remove_entry key e c)) = al_del key (am_list (kv_map c))"
  by (simp add: prim_defs)

lemma list_put: "kv_lookup key c = None \<Longrightarrow>
     am_list (kv_map (put_entry key e c)) = am_list (kv_map c) @ [(key, e)]"
  by (simp add: prim_defs kv_lookup_def al_set_notin map_of_None_iff)

lemma list_reinsert: "kv_lookup key c = Some e0 \<Longrightarrow>
     am_list (kv_map (reinsert key e c)) = al_del key (am_list (kv_map c)) @ [(key, e)]"
  by (simp add: prim_defs al_set_notin set_al_del image_iff)

lemma kv_ok_remove:
  assumes "kv_ok c" "kv_lookup key c = Some e"
  shows "kv_ok (remove_entry key e c)"
  using assms by (auto simp: kv_ok_def core_ok_def prim_defs kv_lookup_def al_sum_del)

lemma al_sum_new: "map_of ps k = None \<Longrightarrow> al_sum f (al_set k v ps) = al_sum f ps + f v"
  by (simp add: al_set_notin map_of_None_iff)

lemma kv_ok_put:
  assumes "kv_ok c" "kv_lookup key c = None" "entry_ok (kv_opts c) key e"
  shows "kv_ok (put_entry key e c)"
  using assms
  by (auto simp: kv_ok_def core_ok_def prim_defs kv_lookup_def al_sum_new split: option.splits)

lemma kv_ok_reinsert:
  assumes "kv_ok c" "kv_lookup key c = Some e0" "entry_ok (kv_opts c) key e" "e_size e = e_size e0"
  shows "kv_ok (reinsert key e c)"
  using assms
  by (auto simp: kv_ok_def core_ok_def prim_defs kv_lookup_def al_sum_new al_sum_del split: option.splits)

lemma kv_ok_count [simp]:
  "kv_ok (add_hit c) = kv_ok c" "kv_ok (add_miss c) = kv_ok c"
  "kv_ok (add_eviction c) = kv_ok c" "kv_ok (add_expiry c) = kv_ok c"
  by (simp_all add: kv_ok_def core_ok_def prim_defs)

lemma kv_ok_notify [simp]: "kv_ok (notifyExpired key c) = kv_ok c"
  by (simp add: kv_ok_def core_ok_def notifyExpired_def split: list.splits prod.splits)

lemma ver_prims [simp]:
  "ver k (remove_entry key e c) = ver k c" "ver k (put_entry key e c) = ver k c"
  "ver k (reinsert key e c) = ver k c" "ver k (add_hit c) = ver k c" "ver k (add_miss c) = ver k c"
  "ver k (add_eviction c) = ver k c" "ver k (add_expiry c) = ver k c"
  "ver k (notifyExpired key c) = ver k c"
  by (simp_all add: ver_def prim_defs notifyExpired_def split: list.splits option.splits prod.splits)

lemma gen_prims [simp]:
  "kv_generation (remove_entry key e c) = kv_generation c"
  "kv_generation (put_entry key e c) = kv_generation c"
  "kv_generation (reinsert key e c) = kv_generation c" "kv_generation (add_hit c) = kv_generation c"
  "kv_generation (add_miss c) = kv_generation c" "kv_generation (add_eviction c) = kv_generation c"
  "kv_generation (add_expiry c) = kv_generation c" "kv_generation (notifyExpired key c) = kv_generation c"
  by (simp_all add: prim_defs notifyExpired_def split: list.splits)

lemma ctx_prims [simp]:
  "same_ctx c0 (remove_entry key e c) = same_ctx c0 c" "same_ctx c0 (put_entry key e c) = same_ctx c0 c"
  "same_ctx c0 (reinsert key e c) = same_ctx c0 c" "same_ctx c0 (add_hit c) = same_ctx c0 c"
  "same_ctx c0 (add_miss c) = same_ctx c0 c" "same_ctx c0 (add_eviction c) = same_ctx c0 c"
  "same_ctx c0 (add_expiry c) = same_ctx c0 c" "same_ctx c0 (notifyExpired key c) = same_ctx c0 c"
  by (auto simp: same_ctx_def prim_defs notifyExpired_def split: list.splits option.splits
      dest: arg_cong [of _ _ length])

lemma opts_prims [simp]:
  "kv_opts (remove_entry key e c) = kv_opts c" "kv_opts (put_entry key e c) = kv_opts c"
  "kv_opts (reinsert key e c) = kv_opts c" "kv_opts (add_hit c) = kv_opts c"
  "kv_opts (add_miss c) = kv_opts c" "kv_opts (add_eviction c) = kv_opts c"
  "kv_opts (add_expiry c) = kv_opts c" "kv_opts (notifyExpired key c) = kv_opts c"
  by (simp_all add: prim_defs notifyExpired_def split: list.splits)

lemma map_prims [simp]:
  "kv_map (add_hit c) = kv_map c" "kv_map (add_miss c) = kv_map c"
  "kv_map (add_eviction c) = kv_map c" "kv_map (add_expiry c) = kv_map c"
  "kv_map (notifyExpired key c) = kv_map c"
  by (simp_all add: prim_defs notifyExpired_def split: list.splits)

lemma changed_prims [simp]:
  "kv_changed (remove_entry key e c) = kv_changed c" "kv_changed (put_entry key e c) = kv_changed c"
  "kv_changed (reinsert key e c) = kv_changed c" "kv_changed (add_hit c) = kv_changed c"
  "kv_changed (add_miss c) = kv_changed c" "kv_changed (add_eviction c) = kv_changed c"
  "kv_changed (add_expiry c) = kv_changed c" "kv_changed (notifyExpired key c) = kv_changed c"
  by (simp_all add: prim_defs notifyExpired_def split: list.splits)

lemma noted_prims:
  "noted K c0 c \<Longrightarrow> kv_lookup key c = Some e \<Longrightarrow> noted (insert key K) c0 (remove_entry key e c)"
  "noted K c0 c \<Longrightarrow> noted (insert key K) c0 (put_entry key e c)"
  "noted K c0 c \<Longrightarrow> noted (insert key K) c0 (reinsert key e c)"
  "noted K c0 c \<Longrightarrow> kv_lookup key c = Some e \<Longrightarrow> noted K c0 (reinsert key e c)"
  by (auto simp: noted_def grows_def)

lemma noted_count [simp]:
  "noted K c0 (add_hit c) = noted K c0 c" "noted K c0 (add_miss c) = noted K c0 c"
  "noted K c0 (add_eviction c) = noted K c0 c" "noted K c0 (add_expiry c) = noted K c0 c"
  "noted K c0 (notifyExpired key c) = noted K c0 c"
  by (simp_all add: noted_def grows_def)

lemma track_count [simp]:
  "track K c0 (add_hit c) = track K c0 c" "track K c0 (add_miss c) = track K c0 c"
  "track K c0 (add_eviction c) = track K c0 c" "track K c0 (add_expiry c) = track K c0 c"
  "track K c0 (notifyExpired key c) = track K c0 c"
  by (simp_all add: track_def)

lemma track_remove:
  "track K c0 c \<Longrightarrow> kv_lookup key c = Some e \<Longrightarrow> track (insert key K) c0 (remove_entry key e c)"
  by (simp add: track_def kv_ok_remove noted_prims)

lemma track_put:
  "track K c0 c \<Longrightarrow> kv_lookup key c = None \<Longrightarrow> entry_ok (kv_opts c) key e \<Longrightarrow>
     track (insert key K) c0 (put_entry key e c)"
  by (simp add: track_def kv_ok_put noted_prims)

lemma track_reinsert:
  "track K c0 c \<Longrightarrow> kv_lookup key c = Some e0 \<Longrightarrow> entry_ok (kv_opts c) key e \<Longrightarrow>
     e_size e = e_size e0 \<Longrightarrow> track (insert key K) c0 (reinsert key e c)"
  by (simp add: track_def kv_ok_reinsert noted_prims)

lemma kv_ok_entry: "kv_ok c \<Longrightarrow> kv_lookup key c = Some e \<Longrightarrow> entry_ok (kv_opts c) key e"
  by (simp add: kv_ok_def core_ok_def kv_lookup_def)

lemma track_touch:
  assumes "track K c0 c" "kv_lookup key c = Some e"
  shows "track K c0 (reinsert key e c)"
  using assms kv_ok_reinsert [of c key e e] kv_ok_entry [of c key e] noted_prims(4) [of K c0 c key e]
  by (auto simp: track_def)

section \<open>Versions\<close>

text \<open>What pruning keeps and where it leaves the versions.\<close>

lemma prune_loop_keeps [simp]:
  "kv_map (prune_loop ks c) = kv_map c" "kv_expiring (prune_loop ks c) = kv_expiring c"
  "kv_generation (prune_loop ks c) = kv_generation c" "kv_frames (prune_loop ks c) = kv_frames c"
  "kv_opts (prune_loop ks c) = kv_opts c" "kv_listener (prune_loop ks c) = kv_listener c"
  "kv_changed (prune_loop ks c) = kv_changed c" "am_frames (kv_versions (prune_loop ks c)) = am_frames (kv_versions c)"
  "cs_bytes (kv_state (prune_loop ks c)) = cs_bytes (kv_state c)"
  "kv_events (prune_loop ks c) = kv_events c"
  by (induction ks c rule: prune_loop.induct) (simp_all add: Let_def am_del_def)

lemma prune_loop_ok:
  "kv_ok c \<Longrightarrow> kv_ok (prune_loop ks c) \<and> (\<forall>k. ver k c \<le> ver k (prune_loop ks c)) \<and>
     (\<forall>k. kv_lookup k c \<noteq> None \<longrightarrow> map_of (am_list (kv_versions (prune_loop ks c))) k =
        map_of (am_list (kv_versions c)) k)"
proof (induction ks c rule: prune_loop.induct)
  case (2 k ks c)
  define c1 where "c1 = (if kv_lookup k c = None
      then c\<lparr>kv_state := (kv_state c)\<lparr>cs_absentEpoch := kv_generation c\<rparr>,
             kv_versions := am_del k (kv_versions c)\<rparr> else c)"
  have c1: "kv_ok c1" "\<forall>j. ver j c \<le> ver j c1"
    "\<forall>j. kv_lookup j c \<noteq> None \<longrightarrow> map_of (am_list (kv_versions c1)) j = map_of (am_list (kv_versions c)) j"
    using 2(2) by (auto simp: c1_def kv_ok_def core_ok_def ver_def am_del_def split: option.splits)
  have look: "kv_lookup j c1 = kv_lookup j c" for j by (simp add: c1_def kv_lookup_def)
  show ?case
  proof (cases "length (am_list (kv_versions c1)) \<le> o_maxEntries (kv_opts c1) + 512")
    case True
    with c1 show ?thesis by (simp add: c1_def [symmetric])
  next
    case False
    from 2(1) [OF c1_def False c1(1)] c1(2,3) False show ?thesis
      by (auto simp: c1_def [symmetric] look intro: order.trans)
  qed
qed simp

lemma core_ok_mono: "core_ok opts g m e v s \<Longrightarrow> g \<le> g' \<Longrightarrow> core_ok opts g' m e v s"
  unfolding core_ok_def by (meson order.trans)

lemma frames_core_mono:
  "frames_core opts g ms es vs fs \<Longrightarrow> g \<le> g' \<Longrightarrow> frames_core opts g' ms es vs fs"
  by (induction opts g ms es vs fs rule: frames_core.induct) (auto intro: core_ok_mono)

lemma bumpVersion_Inl: "bumpVersion key c = (Inl e, c') \<Longrightarrow> c' = c \<and> exhausted c"
  by (auto simp: bumpVersion_def exhausted_def Let_def split: if_splits)

text \<open>After a bump the key has a version of its own generation, above all before.\<close>

lemma bumpVersion_Inr:
  assumes "bumpVersion key c = (Inr u, c')" "kv_ok c"
  shows "kv_ok c'" and "kv_generation c' = kv_generation c + 1"
    and "\<forall>k. ver k c \<le> ver k c'" and "ver key c' = kv_generation c'"
    and "kv_map c' = kv_map c" "kv_expiring c' = kv_expiring c" "same_ctx c c'"
    and "cs_bytes (kv_state c') = cs_bytes (kv_state c)" "kv_events c' = kv_events c"
    and "kv_frames c' = kv_frames c" and "kv_changed c' = map (add_key key) (kv_changed c)"
proof -
  define g where "g = kv_generation c + 1"
  define c1 where "c1 = c\<lparr>kv_generation := g, kv_versions := am_set key g (kv_versions c),
      kv_changed := map (add_key key) (kv_changed c)\<rparr>"
  have c': "c' = (if length (am_list (kv_versions c1)) > o_maxEntries (kv_opts c1) * 2 + 1024
      then prune_loop (map fst (am_list (kv_versions c1))) c1 else c1)"
    using assms(1) by (auto simp: bumpVersion_def Let_def g_def c1_def split: if_splits)
  have ok1: "kv_ok c1"
    using assms(2) frames_core_mono [of "kv_opts c" "kv_generation c" _ _ _ _ g]
    by (fastforce simp: kv_ok_def core_ok_def c1_def g_def am_set_def split: if_splits)
  have ver1: "ver k c \<le> ver k c1" "ver key c1 = g" for k
    using ver_le_gen [OF assms(2), of key] by (auto simp: ver_def c1_def am_set_def g_def split: option.splits)
  show "kv_ok c'" using ok1 prune_loop_ok [OF ok1] by (simp add: c')
  show gen: "kv_generation c' = kv_generation c + 1" by (simp add: c' c1_def g_def)
  show le: "\<forall>k. ver k c \<le> ver k c'"
    using ver1 prune_loop_ok [OF ok1] by (auto simp: c' intro: order.trans)
  show "ver key c' = kv_generation c'"
  proof (rule order.antisym)
    show "ver key c' \<le> kv_generation c'" using \<open>kv_ok c'\<close> by (rule ver_le_gen)
    have "ver key c1 \<le> ver key c'" using prune_loop_ok [OF ok1] by (simp add: c')
    then show "kv_generation c' \<le> ver key c'" by (simp add: gen ver1(2) g_def)
  qed
  show "kv_map c' = kv_map c" "kv_expiring c' = kv_expiring c" "same_ctx c c'"
    "cs_bytes (kv_state c') = cs_bytes (kv_state c)" "kv_events c' = kv_events c"
    "kv_frames c' = kv_frames c" "kv_changed c' = map (add_key key) (kv_changed c)"
    by (simp_all add: c' c1_def same_ctx_def am_set_def)
qed

lemma noted_bump:
  assumes "noted K c0 s" "kv_map s' = kv_map s" "kv_changed s' = map (add_key key) (kv_changed s)"
  shows "noted (K - {key}) c0 s'"
proof -
  have "list_all2 (\<lambda>a b. set a \<subseteq> set b) (kv_changed c0) (kv_changed s)" using assms(1) by (simp add: noted_def grows_def)
  then have "list_all2 (\<lambda>a b. set a \<subseteq> set (add_key key b)) (kv_changed c0) (kv_changed s)"
    by (rule list_all2_mono) (auto simp: add_key_def)
  then have "grows c0 s'" using assms(3) by (simp add: grows_def list.rel_map)
  moreover have "k \<noteq> key \<and> k \<notin> set (hd (kv_changed s))" if "kv_changed s' \<noteq> []" "k \<notin> set (hd (kv_changed s'))" for k
    using that assms(3) by (cases "kv_changed s") (auto simp: add_key_def split: if_splits)
  ultimately show ?thesis using assms by (auto simp: noted_def kv_lookup_def)
qed

lemma track_bump:
  assumes "track K c0 s" "bumpVersion key s = (Inr u, s')"
  shows "track (K - {key}) c0 s'"
proof -
  have ok: "kv_ok s" using assms(1) by (simp add: track_def)
  note b = bumpVersion_Inr [OF assms(2) ok]
  have le: "ver k c0 \<le> ver k s" "ver k s \<le> ver k s'" for k
    using assms(1) b(3) by (simp_all add: track_def)
  have new: "ver key c0 \<noteq> ver key s'"
    using le(1) [of key] ver_le_gen [OF ok, of key] b(2,4) by linarith
  have "kv_lookup k s' = kv_lookup k c0" if "k \<notin> K - {key}" "ver k s' = ver k c0" for k
  proof -
    have "k \<noteq> key" using new that(2) by auto
    moreover have "ver k s = ver k c0" using le [of k] that(2) by linarith
    ultimately have "kv_lookup k s = kv_lookup k c0" using assms(1) that(1) by (auto simp: track_def)
    then show ?thesis by (simp add: kv_lookup_def b(5))
  qed
  moreover have "ver k c0 \<le> ver k s'" for k using le [of k] by linarith
  moreover have "noted (K - {key}) c0 s'" using assms(1) by (intro noted_bump [OF _ b(5,11)]) (simp add: track_def)
  ultimately show ?thesis
    using assms(1) b(1,2,7) same_ctx_trans [of c0 s s'] ver_le_gen [OF b(1)]
    by (auto simp: track_def)
qed

section \<open>Chaining\<close>

text \<open>
  \<open>wp c0 (m s) Q\<close>: the run of \<open>m\<close> that started the whole operation in \<open>c0\<close> either throws in a
  state that has evolved from \<open>c0\<close>, or returns with \<open>Q\<close>.
\<close>

definition wp :: "kv \<Rightarrow> 'a outcome \<times> kv \<Rightarrow> ('a \<Rightarrow> kv \<Rightarrow> bool) \<Rightarrow> bool" where
  "wp c0 rc Q = (case rc of (Inl e, c') \<Rightarrow> evolves c0 c' | (Inr a, c') \<Rightarrow> Q a c')"

lemma wp_simps [simp]:
  "wp c0 (Inr a, s) Q = Q a s" "wp c0 (Inl e, s) Q = evolves c0 s"
  by (simp_all add: wp_def)

lemma wp_andThen [simp]: "wp c0 (andThen m f s) Q = wp c0 (m s) (\<lambda>a s'. wp c0 (f a s') Q)"
  by (cases "m s"; cases "fst (m s)") (auto simp: wp_def andThen_def)

lemma wp_check [simp]:
  "wp c0 (check f s) Q = (case f s of Inl e \<Rightarrow> evolves c0 s | Inr a \<Rightarrow> Q a s)"
  by (simp add: check_def wp_def)

lemma wp_if [simp]: "wp c0 (if b then x else y) Q = (if b then wp c0 x Q else wp c0 y Q)"
  by simp

lemma wp_mono: "wp c0 rc Q \<Longrightarrow> (\<And>a s. Q a s \<Longrightarrow> R a s) \<Longrightarrow> wp c0 rc R"
  by (auto simp: wp_def split: prod.splits sum.splits)

lemma wp_evolves: "wp c0 rc (\<lambda>_ s. track {} c0 s) \<Longrightarrow> evolves c0 (snd rc)"
  by (auto simp: wp_def evolvesI split: prod.splits sum.splits)

lemma wp_result: "wp c0 rc Q \<Longrightarrow> rc = (Inr a, s) \<Longrightarrow> Q a s"
  by simp

abbreviation entries :: "kv \<Rightarrow> (string \<times> entry) list" where
  "entries c \<equiv> am_list (kv_map c)"

lemma lookup_entries: "kv_lookup k c = map_of (entries c) k"
  by (simp add: kv_lookup_def)

lemma entries_remove [simp]: "entries (remove_entry key e c) = al_del key (entries c)"
  by (simp add: prim_defs kv_lookup_def map_of_None_iff)

lemma wp_bump:
  assumes "track K c0 s"
    and "\<And>s'. track (K - {key}) c0 s' \<Longrightarrow> entries s' = entries s \<Longrightarrow> kv_opts s' = kv_opts s \<Longrightarrow>
      am_list (kv_expiring s') = am_list (kv_expiring s) \<Longrightarrow> Q () s'"
  shows "wp c0 (bumpVersion key s) Q"
proof (cases "bumpVersion key s")
  case (Pair r s')
  have ok: "kv_ok s" using assms(1) by (simp add: track_def)
  show ?thesis
  proof (cases r)
    case (Inl e)
    with Pair bumpVersion_Inl have "s' = s" "exhausted s" by blast+
    with Inl Pair assms(1) show ?thesis by (auto intro: evolvesI_exhausted)
  next
    case (Inr u)
    with Pair have b: "bumpVersion key s = (Inr u, s')" by simp
    note i = bumpVersion_Inr [OF b ok]
    have "Q () s'"
      using assms(2) track_bump [OF assms(1) b] i(5,6,7) by (auto simp: same_ctx_def)
    with b show ?thesis by simp
  qed
qed

lemma wp_removeExpired:
  assumes "track K c0 s" "kv_lookup key s = Some e"
    and "\<And>s'. track (K - {key}) c0 s' \<Longrightarrow> entries s' = al_del key (entries s) \<Longrightarrow>
      kv_opts s' = kv_opts s \<Longrightarrow> Q () s'"
  shows "wp c0 (removeExpired key e s) Q"
proof -
  have "track (insert key K) c0 (add_expiry (remove_entry key e s))"
    using track_remove [OF assms(1,2)] by simp
  then show ?thesis
    unfolding removeExpired_def
    by (auto intro!: wp_bump assms(3) simp: insert_Diff_if)
qed

section \<open>Eviction\<close>

definition fits_list :: "kv_options \<Rightarrow> (string \<times> entry) list \<Rightarrow> bool" where
  "fits_list opts l \<longleftrightarrow> length l \<le> o_maxEntries opts \<and> al_sum e_size l \<le> int (o_maxBytes opts)"

text \<open>The entries left after evicting from the front until the rest fits.\<close>

fun trim :: "kv_options \<Rightarrow> (string \<times> entry) list \<Rightarrow> (string \<times> entry) list" where
  "trim opts [] = []"
| "trim opts (p # l) = (if fits_list opts (p # l) then p # l else trim opts l)"

lemma over_limit_fits: "kv_ok c \<Longrightarrow> over_limit c \<longleftrightarrow> \<not> fits_list (kv_opts c) (entries c)"
  by (auto simp: over_limit_def fits_list_def kv_size_def kv_ok_def core_ok_def)

lemma fits_Nil [simp]: "fits_list opts []"
  by (simp add: fits_list_def)

lemma trim_fits: "fits_list opts (trim opts l)"
  by (induction opts l rule: trim.induct) auto

lemma trim_id [simp]: "fits_list opts l \<Longrightarrow> trim opts l = l"
  by (cases l) auto

lemma trim_drop: "\<exists>i. trim opts l = drop i l \<and> (\<forall>j < i. \<not> fits_list opts (drop j l))"
proof (induction opts l rule: trim.induct)
  case (2 opts p l)
  show ?case
  proof (cases "fits_list opts (p # l)")
    case False
    with 2 obtain i where i: "trim opts l = drop i l" "\<forall>j<i. \<not> fits_list opts (drop j l)" by blast
    have "\<not> fits_list opts (drop j (p # l))" if "j < Suc i" for j
      using i(2) that False by (cases j) auto
    with i(1) False show ?thesis by (intro exI [of _ "Suc i"]) auto
  qed (intro exI [of _ 0], simp)
qed (intro exI [of _ 0], simp)

text \<open>The newest entry stays if it fits alone.\<close>

lemma trim_keeps_last: "fits_list opts [p] \<Longrightarrow> \<exists>l'. trim opts (l @ [p]) = l' @ [p]"
  by (induction l) auto

lemma trim_sub: "map_of (trim opts l) k = Some e \<Longrightarrow> distinct_keys l \<Longrightarrow> map_of l k = Some e"
proof -
  assume a: "map_of (trim opts l) k = Some e" "distinct_keys l"
  obtain i where "trim opts l = drop i l" using trim_drop by blast
  with a(1) have "(k, e) \<in> set l" by (metis in_set_dropD map_of_SomeD)
  with a(2) show ?thesis by (rule map_of_distinct_in)
qed

lemma al_del_head: "distinct_keys (p # l) \<Longrightarrow> al_del (fst p) (p # l) = l"
  by (simp add: distinct_keys_def)

lemma kv_ok_distinct: "kv_ok c \<Longrightarrow> distinct_keys (entries c)"
  by (simp add: kv_ok_def core_ok_def)

lemma track_ok: "track K c0 c \<Longrightarrow> kv_ok c"
  by (simp add: track_def)

text \<open>One round of an eviction loop takes the head off.\<close>

lemma wp_evict_one:
  assumes "track {} c0 s" "entries s = (key, e) # l"
    and "\<And>s'. track {} c0 s' \<Longrightarrow> entries s' = l \<Longrightarrow> kv_opts s' = kv_opts s \<Longrightarrow> Q () s'"
  shows "wp c0 (bumpVersion key (add_eviction (remove_entry key e s))) Q"
    and "wp c0 (removeExpired key e s) Q"
proof -
  have look: "kv_lookup key s = Some e" using assms(2) by (simp add: lookup_entries)
  have l: "al_del key (entries s) = l"
    using al_del_head [of "(key, e)" l] kv_ok_distinct [OF track_ok [OF assms(1)]] assms(2) by simp
  have "track {key} c0 (add_eviction (remove_entry key e s))"
    using track_remove [OF assms(1) look] by simp
  then show "wp c0 (bumpVersion key (add_eviction (remove_entry key e s))) Q"
    by (rule wp_bump) (auto intro!: assms(3) simp: l)
  show "wp c0 (removeExpired key e s) Q"
    by (rule wp_removeExpired [OF assms(1) look]) (auto intro!: assms(3) simp: l)
qed

lemma wp_evict_loop:
  "track {} c0 s \<Longrightarrow> kv_size s \<le> n \<Longrightarrow>
   (\<And>s'. track {} c0 s' \<Longrightarrow> entries s' = trim (kv_opts s) (entries s) \<Longrightarrow> kv_opts s' = kv_opts s \<Longrightarrow> Q () s') \<Longrightarrow>
   wp c0 (evict_loop n now s) Q"
proof (induction n arbitrary: s)
  case 0
  then show ?case by (simp add: kv_size_def)
next
  case (Suc n)
  show ?case
  proof (cases "over_limit s")
    case False
    with Suc.prems over_limit_fits [OF track_ok [OF Suc.prems(1)]] show ?thesis by simp
  next
    case True
    then have nf: "\<not> fits_list (kv_opts s) (entries s)"
      using over_limit_fits [OF track_ok [OF Suc.prems(1)]] by simp
    then obtain key e l where l: "entries s = (key, e) # l" by (cases "entries s") auto
    have "wp c0 (evict_loop n now s') Q"
      if "track {} c0 s'" "entries s' = l" "kv_opts s' = kv_opts s" for s'
      using Suc.IH [OF that(1)] Suc.prems(2,3) that nf l by (simp add: kv_size_def)
    then show ?thesis
      using True by (auto simp: l intro!: wp_evict_one [OF Suc.prems(1) l])
  qed
qed

lemma wp_restore_evict:
  "track {} c0 s \<Longrightarrow> kv_size s \<le> n \<Longrightarrow>
   (\<And>s'. track {} c0 s' \<Longrightarrow> entries s' = trim (kv_opts s) (entries s) \<Longrightarrow> kv_opts s' = kv_opts s \<Longrightarrow> Q () s') \<Longrightarrow>
   wp c0 (restore_evict n s) Q"
proof (induction n arbitrary: s)
  case 0
  then show ?case by (simp add: kv_size_def)
next
  case (Suc n)
  show ?case
  proof (cases "over_limit s")
    case False
    with Suc.prems over_limit_fits [OF track_ok [OF Suc.prems(1)]] show ?thesis by simp
  next
    case True
    then have nf: "\<not> fits_list (kv_opts s) (entries s)"
      using over_limit_fits [OF track_ok [OF Suc.prems(1)]] by simp
    then obtain key e l where l: "entries s = (key, e) # l" by (cases "entries s") auto
    have "wp c0 (restore_evict n s') Q"
      if "track {} c0 s'" "entries s' = l" "kv_opts s' = kv_opts s" for s'
      using Suc.IH [OF that(1)] Suc.prems(2,3) that nf l by (simp add: kv_size_def)
    then show ?thesis
      using True by (auto simp: l intro!: wp_evict_one [OF Suc.prems(1) l])
  qed
qed

end
