(* ===== verification/Kv_Spec.thy ===== *)
theory Kv_Spec
  imports Kv_Inv
begin

text \<open>
  What each operation of the cache does to the entries, on every branch, and that it keeps
  the invariant and the versions (\<open>evolves\<close>). Each lemma is the postcondition of a run of the
  operation; the last section collects the consequences.
\<close>

abbreviation op_ok :: "kv \<Rightarrow> 'a outcome \<times> kv \<Rightarrow> ('a \<Rightarrow> kv \<Rightarrow> bool) \<Rightarrow> bool" where
  "op_ok c rc Q \<equiv> wp c rc (\<lambda>r c'. track {} c c' \<and> kv_opts c' = kv_opts c \<and> Q r c')"

section \<open>Guards\<close>

lemma assertKeyFits_Inr: "assertKeyFits key c = Inr u \<longleftrightarrow> length key \<le> o_maxKeyBytes (kv_opts c)"
  by (auto simp: assertKeyFits_def)

lemma assertValueFits_Inr:
  "assertValueFits key v c = Inr sz \<longleftrightarrow>
     length key \<le> o_maxKeyBytes (kv_opts c) \<and> valueByteLength v \<le> o_maxValueBytes (kv_opts c) \<and>
     length key + valueByteLength v \<le> o_maxBytes (kv_opts c) \<and> sz = int (length key + valueByteLength v)"
  by (auto simp: assertValueFits_def assertKeyFits_def assertEntryFits_def bind_out_Inr)

lemma clone_same: "cloneJsonValue mb v = Inr w \<Longrightarrow>
    w = v \<and> json_depth v \<le> MAX_JSON_DEPTH \<and> node_count v \<le> MAX_JSON_NODES"
  by (simp add: cloneJsonValue_Inr)

lemma entry_ok_new:
  "assertValueFits key v c = Inr sz \<Longrightarrow> json_depth v \<le> MAX_JSON_DEPTH \<Longrightarrow> node_count v \<le> MAX_JSON_NODES \<Longrightarrow>
     entry_ok (kv_opts c) key \<lparr>e_value = v, e_expiresAt = t, e_size = sz\<rparr>"
  by (auto simp: assertValueFits_Inr entry_ok_def)

lemma entry_ok_expiry: "entry_ok opts key e \<Longrightarrow> entry_ok opts key (e\<lparr>e_expiresAt := t\<rparr>)"
  by (simp add: entry_ok_def)

section \<open>Lookups\<close>

lemma live_entry_wp:
  assumes "track {} c0 s"
    and "\<And>s' r. track {} c0 s' \<Longrightarrow> kv_opts s' = kv_opts s \<Longrightarrow>
      (r = None \<and> (kv_lookup key s = None \<and> s' = s \<or>
         (\<exists>e. kv_lookup key s = Some e \<and> isExpired e now \<and> entries s' = al_del key (entries s)))) \<or>
      (\<exists>e. r = Some e \<and> kv_lookup key s = Some e \<and> \<not> isExpired e now \<and> s' = s) \<Longrightarrow> Q r s'"
  shows "wp c0 (live_entry now key s) Q"
proof (cases "kv_lookup key s")
  case None
  then show ?thesis using assms by (simp add: live_entry_def)
next
  case (Some e)
  show ?thesis
  proof (cases "isExpired e now")
    case True
    have "wp c0 (removeExpired key e s) (\<lambda>a s'. Q None s')"
      by (rule wp_removeExpired [OF assms(1) Some]) (use True Some in \<open>auto intro!: assms(2)\<close>)
    with Some True show ?thesis by (simp add: live_entry_def)
  next
    case False
    with Some assms show ?thesis by (simp add: live_entry_def)
  qed
qed

text \<open>The value a key holds at a time: present and not expired.\<close>

definition live :: "rat \<Rightarrow> string \<Rightarrow> kv \<Rightarrow> entry option" where
  "live now key c =
     (case kv_lookup key c of None \<Rightarrow> None | Some e \<Rightarrow> if isExpired e now then None else Some e)"

lemma kv_get_wp:
  assumes "kv_ok c"
  shows "op_ok c (kv_get now key c) (\<lambda>r c'.
     r = map_option e_value (live now key c) \<and>
     entries c' = (case kv_lookup key c of
        None \<Rightarrow> entries c
      | Some e \<Rightarrow> if isExpired e now then al_del key (entries c)
                  else al_del key (entries c) @ [(key, e)]))"
proof -
  have t: "track {} c c" using assms by (rule track_refl)
  show ?thesis
  proof (cases "kv_lookup key c")
    case None
    with t show ?thesis
      by (auto simp: kv_get_def live_def evolvesI split: sum.splits)
  next
    case (Some e)
    show ?thesis
    proof (cases "isExpired e now")
      case True
      have "wp c (removeExpired key e c) (\<lambda>_ s'. track {} c s' \<and> kv_opts s' = kv_opts c \<and>
          entries s' = al_del key (entries c))"
        by (rule wp_removeExpired [OF t Some]) auto
      then show ?thesis
        using t Some True by (auto simp: kv_get_def live_def evolvesI elim!: wp_mono split: sum.splits)
    next
      case False
      have "track {} c (reinsert key e c)" using track_touch [OF t Some] .
      then show ?thesis
        using t Some False list_reinsert [OF Some, of e]
        by (auto simp: kv_get_def live_def evolvesI map_sum_def dest: clone_same split: sum.splits)
    qed
  qed
qed

lemma kv_getVersion_wp:
  assumes "kv_ok c"
  shows "op_ok c (kv_getVersion now key c) (\<lambda>r c'. r = ver key c')"
proof -
  have t: "track {} c c" using assms by (rule track_refl)
  show ?thesis
  proof (cases "kv_lookup key c")
    case None
    with t show ?thesis
      by (auto simp: kv_getVersion_def ver_def evolvesI split: sum.splits)
  next
    case (Some e)
    have "isExpired e now \<Longrightarrow> wp c (removeExpired key e c) (\<lambda>_ s'. track {} c s' \<and> kv_opts s' = kv_opts c)"
      by (rule wp_removeExpired [OF t Some]) auto
    then show ?thesis
      using t Some by (auto simp: kv_getVersion_def ver_def evolvesI elim!: wp_mono split: sum.splits)
  qed
qed

section \<open>Stores\<close>

lemma al_del_absent [simp]: "kv_lookup k c = None \<Longrightarrow> al_del k (entries c) = entries c"
  by (simp add: lookup_entries map_of_None_iff)

text \<open>Replacing the entry of a key: the old one goes, the new one is the newest, the oldest make room.\<close>

lemma wp_replace_entry:
  assumes t: "track {} c0 s" and e: "entry_ok (kv_opts s) key e"
    and Q: "\<And>s'. track {} c0 s' \<Longrightarrow> kv_opts s' = kv_opts s \<Longrightarrow>
      entries s' = trim (kv_opts s) (al_del key (entries s) @ [(key, e)]) \<Longrightarrow> Q () s'"
  shows "wp c0 (andThen (case kv_lookup key s of Some old \<Rightarrow> modify (remove_entry key old) | None \<Rightarrow> returns ())
     (\<lambda>_. andThen (modify (put_entry key e)) (\<lambda>_. andThen (bumpVersion key) (\<lambda>_. evictIfNeeded now))) s) Q"
proof -
  define s1 where "s1 = (case kv_lookup key s of Some old \<Rightarrow> remove_entry key old s | None \<Rightarrow> s)"
  have s1: "track {key} c0 s1" "entries s1 = al_del key (entries s)" "kv_opts s1 = kv_opts s"
    "kv_lookup key s1 = None"
    using track_remove [OF t] track_mono [OF t, of "{key}"]
    by (auto simp: s1_def split: option.splits)
  let ?s2 = "put_entry key e s1"
  have s2: "track {key} c0 ?s2" "entries ?s2 = al_del key (entries s) @ [(key, e)]"
    using track_put [OF s1(1,4)] e s1(3) list_put [OF s1(4)] s1(2) by auto
  have "wp c0 (bumpVersion key ?s2) (\<lambda>_ s. wp c0 (evictIfNeeded now s) Q)"
  proof (rule wp_bump [OF s2(1)])
    fix s'
    assume "track ({key} - {key}) c0 s'" "entries s' = entries ?s2" "kv_opts s' = kv_opts ?s2"
    then show "wp c0 (evictIfNeeded now s') Q"
      unfolding evictIfNeeded_def using s2(2) s1(3) by (intro wp_evict_loop) (auto intro: Q)
  qed
  moreover have "(case kv_lookup key s of Some old \<Rightarrow> modify (remove_entry key old) | None \<Rightarrow> returns ()) s =
      (Inr (), s1)"
    by (simp add: s1_def split: option.splits)
  ultimately show ?thesis by simp
qed

definition due :: "rat option \<Rightarrow> rat \<Rightarrow> bool" where
  "due t now = (case t of None \<Rightarrow> False | Some t \<Rightarrow> t \<le> now)"

lemma setOwned_wp:
  assumes t: "track {} c0 s" and v: "json_depth v \<le> MAX_JSON_DEPTH" "node_count v \<le> MAX_JSON_NODES"
    and Q: "\<And>s' sz. track {} c0 s' \<Longrightarrow> kv_opts s' = kv_opts s \<Longrightarrow> assertValueFits key v s = Inr sz \<Longrightarrow>
      entries s' = (if due expiresAt now then al_del key (entries s)
        else trim (kv_opts s) (al_del key (entries s) @
          [(key, \<lparr>e_value = v, e_expiresAt = expiresAt, e_size = sz\<rparr>)])) \<Longrightarrow> Q returned s'"
  shows "wp c0 (setOwned now key v expiresAt returned s) Q"
proof (cases "assertValueFits key v s")
  case (Inl e)
  with t show ?thesis by (simp add: setOwned_def evolvesI)
next
  case (Inr sz)
  show ?thesis
  proof (cases "due expiresAt now")
    case True
    have "wp c0 ((case kv_lookup key s of
        Some old \<Rightarrow> andThen (modify (remove_entry key old)) (\<lambda>_. bumpVersion key)
      | None \<Rightarrow> returns ()) s) (\<lambda>_ s'. track {} c0 s' \<and> kv_opts s' = kv_opts s \<and> entries s' = al_del key (entries s))"
    proof (cases "kv_lookup key s")
      case None
      then show ?thesis using t by simp
    next
      case (Some old)
      have "wp c0 (bumpVersion key (remove_entry key old s)) (\<lambda>_ s'. track {} c0 s' \<and> kv_opts s' = kv_opts s \<and>
          entries s' = al_del key (entries s))"
        using track_remove [OF t Some] by (rule wp_bump) auto
      with Some show ?thesis by simp
    qed
    then show ?thesis
      using True Inr by (auto simp: setOwned_def due_def intro!: Q elim!: wp_mono split: option.splits)
  next
    case False
    have "wp c0 (andThen (case kv_lookup key s of Some old \<Rightarrow> modify (remove_entry key old) | None \<Rightarrow> returns ())
      (\<lambda>_. andThen (modify (put_entry key \<lparr>e_value = v, e_expiresAt = expiresAt, e_size = sz\<rparr>)) (\<lambda>_.
        andThen (bumpVersion key) (\<lambda>_. evictIfNeeded now))) s) (\<lambda>_ s'. Q returned s')"
      by (rule wp_replace_entry [OF t entry_ok_new [OF Inr v]]) (auto intro: Q simp: Inr False)
    with False Inr show ?thesis
      by (auto simp: setOwned_def due_def split: option.splits)
  qed
qed

lemma kv_set_wp:
  assumes "kv_ok c"
  shows "op_ok c (kv_set now key v ttlMs c) (\<lambda>r c'. r = v \<and>
     (\<exists>ttl sz. resolveTTLMs now key ttlMs c = Inr ttl \<and> assertValueFits key v c = Inr sz \<and>
       entries c' = (if due (deadline now ttl) now then al_del key (entries c)
         else trim (kv_opts c) (al_del key (entries c) @
           [(key, \<lparr>e_value = v, e_expiresAt = deadline now ttl, e_size = sz\<rparr>)]))))"
  using track_refl [OF assms]
  by (auto simp: kv_set_def evolvesI dest!: clone_same intro!: setOwned_wp split: sum.splits)

lemma kv_setAt_wp:
  assumes "kv_ok c"
  shows "op_ok c (kv_setAt now key v expiresAt c) (\<lambda>r c'. r = v \<and>
     (\<exists>t sz. finite_or ''expiresAt must be a finite epoch ms'' expiresAt = Inr t \<and>
       assertValueFits key v c = Inr sz \<and>
       entries c' = (if due t now then al_del key (entries c)
         else trim (kv_opts c) (al_del key (entries c) @
           [(key, \<lparr>e_value = v, e_expiresAt = t, e_size = sz\<rparr>)]))))"
  using track_refl [OF assms]
  by (auto simp: kv_setAt_def evolvesI dest!: clone_same intro!: setOwned_wp split: sum.splits)

section \<open>Deletion\<close>

lemma lookup_gone: "entries s' = al_del key l \<Longrightarrow> kv_lookup key s' = None"
  by (simp add: lookup_entries)

lemma wp_drop:
  assumes "track {} c0 s" "kv_lookup key s = Some e"
    and "\<And>s'. track {} c0 s' \<Longrightarrow> kv_opts s' = kv_opts s \<Longrightarrow> entries s' = al_del key (entries s) \<Longrightarrow> Q () s'"
  shows "wp c0 (bumpVersion key (remove_entry key e s)) Q"
  using track_remove [OF assms(1,2)] by (rule wp_bump) (auto intro: assms(3))

lemma kv_del_wp:
  assumes "kv_ok c"
  shows "op_ok c (kv_del now key c) (\<lambda>r c'.
     r = (live now key c \<noteq> None) \<and> entries c' = al_del key (entries c))"
proof -
  have t: "track {} c c" using assms by (rule track_refl)
  show ?thesis
  proof (cases "kv_lookup key c")
    case None
    with t show ?thesis by (auto simp: kv_del_def live_def evolvesI split: sum.splits)
  next
    case (Some e)
    then show ?thesis
      using t by (auto simp: kv_del_def live_def evolvesI split: sum.splits
          intro!: wp_removeExpired [OF t Some] wp_drop [OF t Some])
  qed
qed

lemma al_del_filter: "al_del k (filter P ps) = filter P (al_del k ps)"
  by (induction ps) auto

lemma clear_keys_wp:
  "track {} c0 s \<Longrightarrow>
   (\<And>s'. track {} c0 s' \<Longrightarrow> kv_opts s' = kv_opts s \<Longrightarrow>
     entries s' = filter (\<lambda>p. fst p \<notin> set ks) (entries s) \<Longrightarrow> Q () s') \<Longrightarrow>
   wp c0 (for_each clear_key ks s) Q"
proof (induction ks arbitrary: s)
  case (Cons k ks)
  have step: "wp c0 (for_each clear_key ks s') Q"
    if "track {} c0 s'" "kv_opts s' = kv_opts s" "entries s' = al_del k (entries s)" for s'
    by (rule Cons.IH [OF that(1)]) (auto simp: that al_del_def conj_commute intro!: Cons.prems(2))
  show ?case
  proof (cases "kv_lookup k s")
    case None
    then show ?thesis
      using step by (auto simp: clear_key_def [of k s] intro!: wp_bump [OF Cons.prems(1)])
  next
    case (Some e)
    then show ?thesis
      using step by (auto simp: clear_key_def [of k s] intro!: wp_drop [OF Cons.prems(1)])
  qed
qed simp

lemma kv_clearPrefix_wp:
  assumes "kv_ok c"
  shows "op_ok c (kv_clearPrefix prefix c) (\<lambda>r c'.
     entries c' = filter (\<lambda>p. \<not> in_prefix prefix (fst p)) (entries c) \<and>
     r = length (filter (\<lambda>p. in_prefix prefix (fst p)) (entries c)))"
proof -
  let ?ks = "filter (in_prefix prefix) (map fst (entries c))"
  have t: "track {} c c" using assms by (rule track_refl)
  have "filter (\<lambda>p. fst p \<notin> set ?ks) (entries c) = filter (\<lambda>p. \<not> in_prefix prefix (fst p)) (entries c)"
    by (rule filter_cong) auto
  moreover have "length ?ks = length (filter (\<lambda>p. in_prefix prefix (fst p)) (entries c))"
    by (simp add: filter_map comp_def)
  ultimately show ?thesis
    using t by (auto simp: kv_clearPrefix_def evolvesI Let_def intro!: clear_keys_wp [OF t] split: sum.splits)
qed

definition is_noted :: "string \<Rightarrow> kv \<Rightarrow> bool" where
  "is_noted k c \<longleftrightarrow> (kv_changed c \<noteq> [] \<longrightarrow> k \<in> set (hd (kv_changed c)))"

lemma is_noted_grows: "is_noted k s \<Longrightarrow> grows s s' \<Longrightarrow> is_noted k s'"
  using grows_hd [of s s'] by (auto simp: is_noted_def)

lemma bump_noted: "kv_changed s' = map (add_key k) (kv_changed s) \<Longrightarrow> is_noted k s' \<and> grows s s'"
  by (cases "kv_changed s") (auto simp: is_noted_def grows_def add_key_def list.rel_map intro: list.rel_refl_strong)

lemma bump_all_wp:
  "track {} c0 s \<Longrightarrow>
   (\<And>s'. track {} c0 s' \<Longrightarrow> kv_opts s' = kv_opts s \<Longrightarrow> entries s' = entries s \<Longrightarrow>
      (\<forall>k. ver k s \<le> ver k s') \<Longrightarrow> (\<forall>k \<in> set ks. ver k c0 < ver k s') \<Longrightarrow> grows s s' \<Longrightarrow>
      (\<forall>k \<in> set ks. is_noted k s') \<Longrightarrow> Q () s') \<Longrightarrow>
   wp c0 (for_each bumpVersion ks s) Q"
proof (induction ks arbitrary: s)
  case (Cons k ks)
  show ?case
  proof (cases "bumpVersion k s")
    case (Pair r s')
    show ?thesis
    proof (cases r)
      case (Inl e)
      with Pair bumpVersion_Inl have "s' = s" "exhausted s" by blast+
      with Inl Pair Cons.prems(1) show ?thesis by (auto intro: evolvesI_exhausted)
    next
      case (Inr u)
      with Pair have b: "bumpVersion k s = (Inr u, s')" by simp
      note ok = track_ok [OF Cons.prems(1)]
      note i = bumpVersion_Inr [OF b ok]
      have t: "track {} c0 s'" using track_bump [OF Cons.prems(1) b] by simp
      have new: "ver k c0 < ver k s'"
      proof -
        have "ver k c0 \<le> ver k s" using Cons.prems(1) by (simp add: track_def)
        then show ?thesis using i(2,4) ver_le_gen [OF ok, of k] by linarith
      qed
      have o: "kv_opts s' = kv_opts s" using i(7) by (simp add: same_ctx_def)
      note n = bump_noted [OF i(11)]
      have "wp c0 (for_each bumpVersion ks s') Q"
        using i(3,5) new o n
        by (intro Cons.IH [OF t] Cons.prems(2)) (auto intro: order.trans less_le_trans grows_trans is_noted_grows)
      with b show ?thesis by simp
    qed
  qed
qed simp

lemma fst_al_del: "fst ` set (al_del k ps) = fst ` set ps - {k}"
  by (auto simp: set_al_del)

lemma fold_map_delete:
  "fst ` set (am_list (kv_expiring c)) \<subseteq> fst ` set (entries c) \<Longrightarrow>
   fold map_delete ks c = c\<lparr>kv_map := (kv_map c)\<lparr>am_list := filter (\<lambda>p. fst p \<notin> set ks) (entries c)\<rparr>,
     kv_expiring := (kv_expiring c)\<lparr>am_list := filter (\<lambda>p. fst p \<notin> set ks) (am_list (kv_expiring c))\<rparr>\<rparr>"
proof (induction ks arbitrary: c)
  case (Cons k ks)
  have d: "map_delete k c = c\<lparr>kv_map := am_del k (kv_map c), kv_expiring := am_del k (kv_expiring c)\<rparr>"
  proof (cases "kv_lookup k c")
    case None
    then have "k \<notin> fst ` set (entries c)" by (simp add: lookup_entries map_of_None_iff)
    with Cons.prems have "k \<notin> fst ` set (am_list (kv_expiring c))" by blast
    with \<open>k \<notin> fst ` set (entries c)\<close> None show ?thesis by (simp add: map_delete_def am_del_def)
  qed (simp add: map_delete_def)
  have "fst ` set (am_list (kv_expiring (map_delete k c))) \<subseteq> fst ` set (entries (map_delete k c))"
    using Cons.prems by (auto simp: d am_del_def fst_al_del)
  from Cons.IH [OF this] show ?case
    by (simp add: d am_del_def al_del_def conj_commute)
qed simp

lemma expiring_sub: "kv_ok c \<Longrightarrow> fst ` set (am_list (kv_expiring c)) \<subseteq> fst ` set (entries c)"
proof
  fix k
  assume "kv_ok c" "k \<in> fst ` set (am_list (kv_expiring c))"
  then have "map_of (am_list (kv_expiring c)) k = Option.bind (map_of (entries c) k) e_expiresAt"
    "map_of (am_list (kv_expiring c)) k \<noteq> None"
    unfolding map_of_None_iff by (simp_all add: kv_ok_def core_ok_def)
  then have "map_of (entries c) k \<noteq> None" by (cases "map_of (entries c) k") simp_all
  then show "k \<in> fst ` set (entries c)" by (simp add: map_of_None_iff)
qed

definition emptied :: "kv \<Rightarrow> kv" where
  "emptied c = c\<lparr>kv_map := (kv_map c)\<lparr>am_list := []\<rparr>,
     kv_expiring := (kv_expiring c)\<lparr>am_list := []\<rparr>, kv_state := (kv_state c)\<lparr>cs_bytes := 0\<rparr>\<rparr>"

lemma map_clear_emptied:
  assumes "kv_ok c"
  shows "(let c' = map_clear c in c'\<lparr>kv_state := (kv_state c')\<lparr>cs_bytes := 0\<rparr>\<rparr>) = emptied c"
proof -
  note sub = expiring_sub [OF assms]
  have "filter (\<lambda>p. fst p \<notin> set (map fst (entries c))) (am_list (kv_expiring c)) = []"
    using sub by (auto simp: filter_empty_conv)
  moreover have "filter (\<lambda>p. fst p \<notin> set (map fst (entries c))) (entries c) = []"
    by (auto simp: filter_empty_conv)
  ultimately show ?thesis
    unfolding map_clear_def fold_map_delete [OF sub] by (simp add: emptied_def)
qed

lemma track_emptied:
  assumes "track {} c0 s" "\<forall>k \<in> fst ` set (entries s). ver k c0 < ver k s \<and> is_noted k s"
  shows "track {} c0 (emptied s)"
proof -
  have "kv_lookup k (emptied s) = kv_lookup k c0" if "kv_changed s \<noteq> []" "k \<notin> set (hd (kv_changed s))" for k
  proof -
    have "kv_lookup k s = None" using assms(2) that by (auto simp: lookup_entries map_of_None_iff is_noted_def)
    then show ?thesis using assms(1) that by (simp add: track_def noted_def emptied_def kv_lookup_def)
  qed
  then have "noted {} c0 (emptied s)" using assms(1) by (simp add: track_def noted_def grows_def emptied_def)
  moreover
  have "kv_ok (emptied s)"
    using assms(1) by (simp add: track_def kv_ok_def core_ok_def emptied_def)
  moreover have v: "ver k (emptied s) = ver k s" for k
    by (simp add: ver_def emptied_def split: option.splits)
  moreover have "kv_lookup k (emptied s) = kv_lookup k c0" if "ver k s = ver k c0" for k
  proof -
    have "kv_lookup k s = None" using assms(2) that by (auto simp: lookup_entries map_of_None_iff)
    then show ?thesis using assms(1) that by (simp add: track_def emptied_def kv_lookup_def)
  qed
  ultimately show ?thesis using assms(1) by (simp add: track_def same_ctx_def) (simp add: emptied_def)
qed

lemma kv_clear_wp:
  assumes "track {} c0 s"
    and Q: "\<And>s'. track {} c0 s' \<Longrightarrow> kv_opts s' = kv_opts s \<Longrightarrow> entries s' = [] \<Longrightarrow> Q () s'"
  shows "wp c0 (kv_clear s) Q"
proof -
  have "wp c0 (for_each bumpVersion (map fst (entries s)) s)
      (\<lambda>_ s'. Q () (let c = map_clear s' in c\<lparr>kv_state := (kv_state c)\<lparr>cs_bytes := 0\<rparr>\<rparr>))"
  proof (rule bump_all_wp [OF assms(1)])
    fix s'
    assume s': "track {} c0 s'" "kv_opts s' = kv_opts s" "entries s' = entries s"
      "\<forall>k \<in> set (map fst (entries s)). ver k c0 < ver k s'" "\<forall>k \<in> set (map fst (entries s)). is_noted k s'"
    then have "track {} c0 (emptied s')" by (intro track_emptied) auto
    then show "Q () (let c = map_clear s' in c\<lparr>kv_state := (kv_state c)\<lparr>cs_bytes := 0\<rparr>\<rparr>)"
      unfolding map_clear_emptied [OF track_ok [OF s'(1)]] using s'(2) Q by (simp add: emptied_def)
  qed
  then show ?thesis by (simp add: kv_clear_def)
qed

section \<open>Batches of stores\<close>

lemma resolveTTLMs_opts:
  assumes "kv_opts s' = kv_opts s"
  shows "resolveTTLMs now key t s' = resolveTTLMs now key t s"
  unfolding resolveTTLMs_def assms ..

lemma assertValueFits_opts: "kv_opts s' = kv_opts s \<Longrightarrow> assertValueFits key v s' = assertValueFits key v s"
  by (simp add: assertValueFits_def assertKeyFits_def assertEntryFits_def)

text \<open>One write of a batch, on the entries; \<open>None\<close> when the entry is due at once.\<close>

definition store :: "kv_options \<Rightarrow> rat \<Rightarrow> string \<times> json \<times> rat option \<Rightarrow> (string \<times> entry) list \<Rightarrow> (string \<times> entry) list" where
  "store opts now p l =
     (case p of (key, v, t) \<Rightarrow>
        if due t now then al_del key l
        else trim opts (al_del key l @
          [(key, \<lparr>e_value = v, e_expiresAt = t, e_size = int (length key + valueByteLength v)\<rparr>)]))"

lemma mset_check_wp:
  assumes "track {} c0 s"
    and "\<And>ttl. resolveTTLMs now (b_key e) (b_ttlMs e) s = Inr ttl \<Longrightarrow>
      json_depth (b_value e) \<le> MAX_JSON_DEPTH \<Longrightarrow> node_count (b_value e) \<le> MAX_JSON_NODES \<Longrightarrow>
      Q (b_key e, b_value e, deadline now ttl) s"
  shows "wp c0 (mset_check now e s) Q"
  using assms by (auto simp: mset_check_def evolvesI dest!: clone_same split: sum.splits)

lemma mset_checks_wp:
  "track {} c0 s \<Longrightarrow>
   (\<And>ps. map (\<lambda>p. (fst p, fst (snd p))) ps = map (\<lambda>e. (b_key e, b_value e)) es \<Longrightarrow>
      (\<forall>(k, v, t) \<in> set ps. json_depth v \<le> MAX_JSON_DEPTH \<and> node_count v \<le> MAX_JSON_NODES) \<Longrightarrow>
      map (\<lambda>p. Inr (snd (snd p))) ps =
        map (\<lambda>e. map_sum id (deadline now) (resolveTTLMs now (b_key e) (b_ttlMs e) s)) es \<Longrightarrow> Q ps s) \<Longrightarrow>
   wp c0 (map_each (mset_check now) es s) Q"
proof (induction es arbitrary: Q)
  case (Cons e es)
  have "wp c0 (map_each (mset_check now) es s) (\<lambda>ps s'. Q ((b_key e, b_value e, deadline now ttl) # ps) s')"
    if "resolveTTLMs now (b_key e) (b_ttlMs e) s = Inr ttl"
      "json_depth (b_value e) \<le> MAX_JSON_DEPTH" "node_count (b_value e) \<le> MAX_JSON_NODES" for ttl
    by (rule Cons.IH [OF Cons.prems(1)]) (use that in \<open>auto intro!: Cons.prems(2)\<close>)
  then show ?case
    by (auto intro!: mset_check_wp [OF Cons.prems(1)])
qed simp

lemma stores_wp:
  "track {} c0 s \<Longrightarrow> (\<forall>(k, v, t) \<in> set ps. json_depth v \<le> MAX_JSON_DEPTH \<and> node_count v \<le> MAX_JSON_NODES) \<Longrightarrow>
   (\<And>s'. track {} c0 s' \<Longrightarrow> kv_opts s' = kv_opts s \<Longrightarrow>
      entries s' = fold (store (kv_opts s) now) ps (entries s) \<Longrightarrow> Q () s') \<Longrightarrow>
   wp c0 (for_each (mset_put now) ps s) Q"
proof (induction ps arbitrary: s)
  case (Cons p ps)
  obtain k v t where p: "p = (k, v, t)" by (cases p)
  have "wp c0 (setOwned now k v t v s)
      (\<lambda>_ s'. wp c0 (for_each (mset_put now) ps s') Q)"
  proof (rule setOwned_wp [OF Cons.prems(1)])
    fix s' sz
    assume s': "track {} c0 s'" "kv_opts s' = kv_opts s" "assertValueFits k v s = Inr sz"
      "entries s' = (if due t now then al_del k (entries s) else trim (kv_opts s) (al_del k (entries s) @
          [(k, \<lparr>e_value = v, e_expiresAt = t, e_size = sz\<rparr>)]))"
    then have "entries s' = store (kv_opts s) now p (entries s)"
      by (simp add: store_def p assertValueFits_Inr)
    then show "wp c0 (for_each (mset_put now) ps s') Q"
      using Cons.IH [OF s'(1)] Cons.prems(2,3) s'(2) by simp
  qed (use Cons.prems(2) p in auto)
  then show ?case by (simp add: p mset_put_def [of now "(k, v, t)"])
qed simp

lemma kv_mset_wp:
  assumes "kv_ok c"
  shows "op_ok c (kv_mset now es c) (\<lambda>r c'. r = length es \<and>
     (\<exists>ps. map (\<lambda>p. (fst p, fst (snd p))) ps = map (\<lambda>e. (b_key e, b_value e)) es \<and>
       map (\<lambda>p. Inr (snd (snd p))) ps =
         map (\<lambda>e. map_sum id (deadline now) (resolveTTLMs now (b_key e) (b_ttlMs e) c)) es \<and>
       entries c' = fold (store (kv_opts c) now) ps (entries c)))"
proof -
  have t: "track {} c c" using assms by (rule track_refl)
  show ?thesis
    by (auto simp: kv_mset_def intro!: mset_checks_wp [OF t] stores_wp [OF t])
qed

section \<open>Counters and compare-and-set\<close>

text \<open>
  The second reading of the clock may find the entry that the first one found live expired;
  the hypothesis excludes it.
\<close>

definition steady :: "rat \<Rightarrow> rat \<Rightarrow> string \<Rightarrow> kv \<Rightarrow> bool" where
  "steady now later key c \<longleftrightarrow>
     (\<forall>e. kv_lookup key c = Some e \<longrightarrow> isExpired e later \<longrightarrow> isExpired e now)"

definition base_of :: "entry option \<Rightarrow> (rat \<times> rat option) option" where
  "base_of r =
     (case r of
        None \<Rightarrow> Some (0, None)
      | Some e \<Rightarrow> (case e_value e of JNum b \<Rightarrow> Some (b, e_expiresAt e) | _ \<Rightarrow> None))"

lemma al_del_twice: "al_del k (al_del k ps) = al_del k ps"
  by (simp add: al_del_def)

lemma incr_base_wp:
  assumes "track {} c0 s"
    and "\<And>s' base t. track {} c0 s' \<Longrightarrow> kv_opts s' = kv_opts s \<Longrightarrow>
      base_of (live now key s) = Some (base, t) \<Longrightarrow> al_del key (entries s') = al_del key (entries s) \<Longrightarrow>
      (\<forall>e. kv_lookup key s' = Some e \<longrightarrow> kv_lookup key s = Some e \<and> \<not> isExpired e now) \<Longrightarrow>
      Q (base, t) s'"
  shows "wp c0 (incr_base now key s) Q"
proof (cases "kv_lookup key s")
  case None
  then show ?thesis using assms by (simp add: incr_base_def live_def base_of_def)
next
  case (Some e)
  show ?thesis
  proof (cases "isExpired e now")
    case True
    have "wp c0 (removeExpired key e s) (\<lambda>a s'. Q (0, None) s')"
      by (rule wp_removeExpired [OF assms(1) Some])
        (use True Some in \<open>auto intro!: assms(2) simp: live_def base_of_def al_del_twice lookup_entries\<close>)
    with Some True show ?thesis by (simp add: incr_base_def)
  next
    case False
    with Some assms show ?thesis
      by (auto simp: incr_base_def live_def base_of_def evolvesI split: json.splits)
  qed
qed

lemma incr_store_wp:
  assumes "track {} c0 s" "entry_ok (kv_opts s) key e"
    and "\<forall>e. kv_lookup key s = Some e \<longrightarrow> \<not> isExpired e later"
    and "\<And>s'. track {} c0 s' \<Longrightarrow> kv_opts s' = kv_opts s \<Longrightarrow>
      entries s' = trim (kv_opts s) (al_del key (entries s) @ [(key, e)]) \<Longrightarrow> Q () s'"
  shows "wp c0 (incr_store later key e s) Q"
proof -
  have "(case kv_lookup key s of
      Some old \<Rightarrow> if \<not> isExpired old later then modify (remove_entry key old) else returns ()
    | None \<Rightarrow> returns ()) = (case kv_lookup key s of Some old \<Rightarrow> modify (remove_entry key old) | None \<Rightarrow> returns ())"
    using assms(3) by (simp split: option.splits)
  then show ?thesis
    unfolding incr_store_def
    by (simp only:) (rule wp_replace_entry [OF assms(1,2)], rule assms(4))
qed

lemma scalar_limits [simp]:
  "json_depth (JNum n) \<le> MAX_JSON_DEPTH" "node_count (JNum n) \<le> MAX_JSON_NODES" "Suc 0 \<le> MAX_JSON_NODES"
  by (simp_all add: MAX_JSON_NODES_def)

lemma kv_incr_wp:
  assumes ok: "kv_ok c" and steady: "steady now later key c"
  shows "op_ok c (kv_incr now later key delta c) (\<lambda>r c'.
     \<exists>d base t sz. delta = Fin d \<and> base_of (live now key c) = Some (base, t) \<and> js_add base d = Fin r \<and>
       assertValueFits key (JNum r) c = Inr sz \<and>
       entries c' = trim (kv_opts c) (al_del key (entries c) @
         [(key, \<lparr>e_value = JNum r, e_expiresAt = t, e_size = sz\<rparr>)]))"
proof -
  let ?Q = "\<lambda>r c'. track {} c c' \<and> kv_opts c' = kv_opts c \<and> (\<exists>d base t sz. delta = Fin d \<and>
    base_of (live now key c) = Some (base, t) \<and> js_add base d = Fin r \<and>
    assertValueFits key (JNum r) c = Inr sz \<and> entries c' = trim (kv_opts c) (al_del key (entries c) @
      [(key, \<lparr>e_value = JNum r, e_expiresAt = t, e_size = sz\<rparr>)]))"
  have t: "track {} c c" using ok by (rule track_refl)
  have store: "wp c (incr_store later key \<lparr>e_value = JNum n, e_expiresAt = t, e_size = sz\<rparr> s) (\<lambda>_ s'. ?Q n s')"
    if "delta = Fin d" "track {} c s" "kv_opts s = kv_opts c" "base_of (live now key c) = Some (base, t)"
      "al_del key (entries s) = al_del key (entries c)" "js_add base d = Fin n"
      "\<forall>e. kv_lookup key s = Some e \<longrightarrow> kv_lookup key c = Some e \<and> \<not> isExpired e now"
      "assertValueFits key (JNum n) s = Inr sz" for d s base t n sz
  proof (rule incr_store_wp [OF that(2) entry_ok_new [OF that(8)]])
    show "\<forall>e. kv_lookup key s = Some e \<longrightarrow> \<not> isExpired e later"
      using that(7) steady by (auto simp: steady_def)
    fix s'
    assume "track {} c s'" "kv_opts s' = kv_opts s"
      "entries s' = trim (kv_opts s) (al_del key (entries s) @
        [(key, \<lparr>e_value = JNum n, e_expiresAt = t, e_size = sz\<rparr>)])"
    then show "?Q n s'" using that assertValueFits_opts [OF that(3), of key "JNum n"] by auto
  qed simp_all
  show ?thesis
    using t by (auto simp: kv_incr_def evolvesI intro!: incr_base_wp [OF t] wp_mono [OF store]
        split: sum.splits jsnum.splits)
qed

lemma cas_current_live: "cas_current now key = live_entry now key"
  by (simp add: cas_current_def live_entry_def fun_eq_iff)

lemma clone_opt_same: "clone_opt v = Inr w \<Longrightarrow> w = v"
  by (auto simp: clone_opt_def map_sum_def dest: clone_same split: option.splits sum.splits)

lemma cas_store_wp:
  assumes t: "track {} c0 s" and e: "entry_ok (kv_opts s) key \<lparr>e_value = v, e_expiresAt = t, e_size = sz\<rparr>"
    and cur: "current = kv_lookup key s"
    and Q: "\<And>s'. track {} c0 s' \<Longrightarrow> kv_opts s' = kv_opts s \<Longrightarrow>
      entries s' = (if due t now then al_del key (entries s)
        else trim (kv_opts s) (al_del key (entries s) @
          [(key, \<lparr>e_value = v, e_expiresAt = t, e_size = sz\<rparr>)])) \<Longrightarrow> Q True s'"
  shows "wp c0 (cas_store now key current v sz t s) Q"
proof (cases "due t now")
  case True
  have "wp c0 ((case kv_lookup key s of
      Some e \<Rightarrow> andThen (modify (remove_entry key e)) (\<lambda>_. bumpVersion key) | None \<Rightarrow> returns ()) s)
      (\<lambda>_ s'. track {} c0 s' \<and> kv_opts s' = kv_opts s \<and> entries s' = al_del key (entries s))"
    using t by (auto intro!: wp_drop [OF t] split: option.splits)
  with True show ?thesis
    by (auto simp: cas_store_def cur due_def intro!: Q elim!: wp_mono split: option.splits)
next
  case False
  have "wp c0 (andThen (case kv_lookup key s of Some old \<Rightarrow> modify (remove_entry key old) | None \<Rightarrow> returns ())
      (\<lambda>_. andThen (modify (put_entry key \<lparr>e_value = v, e_expiresAt = t, e_size = sz\<rparr>)) (\<lambda>_.
        andThen (bumpVersion key) (\<lambda>_. evictIfNeeded now))) s) (\<lambda>_ s'. Q True s')"
    by (rule wp_replace_entry [OF assms(1,2)]) (auto intro: Q simp: False)
  with False show ?thesis
    by (auto simp: cas_store_def due_def split: option.splits)
qed

text \<open>
  Compare-and-set succeeds exactly on structural equality with the live value; then the new
  value is stored with the explicit deadline, the kept one, or the default one.
\<close>

definition cas_post ::
    "kv \<Rightarrow> rat \<Rightarrow> string \<Rightarrow> json option \<Rightarrow> json \<Rightarrow> jsnum option \<Rightarrow> entry option \<Rightarrow> bool \<Rightarrow> kv \<Rightarrow> bool"
where
  "cas_post c now key expected v ttlMs r b c' \<longleftrightarrow>
     b = valuesEqual (map_option e_value r) expected \<and>
     (if b then \<exists>t sz. cas_expiry now key ttlMs r c = Inr t \<and> assertValueFits key v c = Inr sz \<and>
        entries c' = (if due t now then al_del key (entries c)
          else trim (kv_opts c) (al_del key (entries c) @
            [(key, \<lparr>e_value = v, e_expiresAt = t, e_size = sz\<rparr>)]))
      else entries c' = (if r = None then al_del key (entries c) else entries c))"

lemma cas_compare_wp:
  assumes s: "track {} c s" "kv_opts s = kv_opts c" "r = kv_lookup key s"
      "entries s = (if r = None then al_del key (entries c) else entries c)"
      "assertValueFits key v c = Inr sz" "json_depth v \<le> MAX_JSON_DEPTH" "node_count v \<le> MAX_JSON_NODES"
  shows "wp c (cas_compare now key expected v ttlMs sz r s)
     (\<lambda>b c'. track {} c c' \<and> kv_opts c' = kv_opts c \<and> cas_post c now key expected v ttlMs r b c')"
proof (cases "valuesEqual (map_option e_value r) expected")
  case False
  with s show ?thesis by (simp add: cas_compare_def cas_post_def)
next
  case True
  have ce: "cas_expiry now key ttlMs r s = cas_expiry now key ttlMs r c"
    unfolding cas_expiry_def resolveTTLMs_opts [OF s(2)] ..
  have de: "al_del key (entries s) = al_del key (entries c)" by (simp add: s(4) al_del_twice)
  show ?thesis
  proof (cases "cas_expiry now key ttlMs r c")
    case (Inl e)
    with True s(1) show ?thesis by (simp add: cas_compare_def ce evolvesI)
  next
    case (Inr t)
    have eo: "entry_ok (kv_opts s) key \<lparr>e_value = v, e_expiresAt = t, e_size = sz\<rparr>"
      using entry_ok_new [OF s(5-7)] s(2) by simp
    have "wp c (cas_store now key r v sz t s)
        (\<lambda>b c'. track {} c c' \<and> kv_opts c' = kv_opts c \<and> cas_post c now key expected v ttlMs r b c')"
      by (rule cas_store_wp [OF s(1) eo s(3)]) (use True Inr s(2,5) de in \<open>auto simp: cas_post_def\<close>)
    with True Inr show ?thesis by (simp add: cas_compare_def ce)
  qed
qed

lemma kv_cas_wp:
  assumes "kv_ok c"
  shows "op_ok c (kv_cas now key expected v ttlMs c)
     (cas_post c now key expected v ttlMs (live now key c))"
proof -
  have t: "track {} c c" using assms by (rule track_refl)
  show ?thesis
  proof (cases "assertValueFits key v c")
    case (Inl e)
    with t show ?thesis
      by (auto simp: kv_cas_def evolvesI dest!: clone_same split: sum.splits)
  next
    case (Inr sz)
    have live: "wp c (live_entry now key c) (\<lambda>r s. track {} c s \<and> kv_opts s = kv_opts c \<and> r = kv_lookup key s \<and>
        r = live now key c \<and> entries s = (if r = None then al_del key (entries c) else entries c))"
      by (rule live_entry_wp [OF t]) (auto simp: live_def lookup_gone)
    show ?thesis
      unfolding kv_cas_def wp_andThen wp_check cas_current_live
      using t Inr
      by (auto simp: evolvesI dest!: clone_same clone_opt_same split: sum.splits
          intro!: wp_mono [OF live] cas_compare_wp)
  qed
qed

end
