(* ===== verification/Kv_Expiry.thy ===== *)
theory Kv_Expiry
  imports Kv_Spec
begin

text \<open>
  The expiry operations, the sweepers and \<open>restore\<close> of the cache: postconditions in the style
  of \<open>Kv_Spec\<close>.
\<close>

section \<open>Time to live\<close>

text \<open>The entries once an expired entry of the key has been dropped.\<close>

definition lazily :: "rat \<Rightarrow> string \<Rightarrow> kv \<Rightarrow> (string \<times> entry) list" where
  "lazily now key c = (if live now key c = None then al_del key (entries c) else entries c)"

lemma live_wp:
  assumes "track {} c s" "kv_opts s = kv_opts c0" "kv_lookup key s = kv_lookup key c0" "entries s = entries c0"
    and "\<And>s'. track {} c s' \<Longrightarrow> kv_opts s' = kv_opts c0 \<Longrightarrow> kv_lookup key s' = live now key c0 \<Longrightarrow>
      entries s' = lazily now key c0 \<Longrightarrow> Q (live now key c0) s'"
  shows "wp c (live_entry now key s) Q"
proof (rule live_entry_wp [OF assms(1)])
  fix s' r
  assume s': "track {} c s'" "kv_opts s' = kv_opts s"
    "r = None \<and> (kv_lookup key s = None \<and> s' = s \<or>
       (\<exists>e. kv_lookup key s = Some e \<and> isExpired e now \<and> entries s' = al_del key (entries s))) \<or>
     (\<exists>e. r = Some e \<and> kv_lookup key s = Some e \<and> \<not> isExpired e now \<and> s' = s)"
  then have "r = live now key c0" "kv_lookup key s' = live now key c0" "entries s' = lazily now key c0"
    using assms(3,4) al_del_absent [of key s] by (auto simp: live_def lazily_def lookup_gone)
  with s' assms(2) show "Q r s'" by (auto intro: assms(5))
qed

lemma kv_ttl_wp:
  assumes "kv_ok c"
  shows "op_ok c (kv_ttl now key c) (\<lambda>r c'. entries c' = lazily now key c \<and>
     r = (case live now key c of
            None \<Rightarrow> - 2
          | Some e \<Rightarrow> (case e_expiresAt e of None \<Rightarrow> - 1
                        | Some t \<Rightarrow> \<lceil>max 0 (fin_of (js_add t (- now)))\<rceil>)))"
  using track_refl [OF assms]
  by (auto simp: kv_ttl_def evolvesI intro!: live_wp split: sum.splits option.splits)

lemma kv_expiration_wp:
  assumes "kv_ok c"
  shows "op_ok c (kv_expiration now key c) (\<lambda>r c'. entries c' = lazily now key c \<and>
     r = map_option e_expiresAt (live now key c))"
  using track_refl [OF assms]
  by (auto simp: kv_expiration_def evolvesI intro!: live_wp split: sum.splits)

lemma wp_set_expiry:
  assumes t: "track {} c0 s" and e: "kv_lookup key s = Some e"
    and Q: "\<And>s'. track {} c0 s' \<Longrightarrow> kv_opts s' = kv_opts s \<Longrightarrow>
      entries s' = al_del key (entries s) @ [(key, e\<lparr>e_expiresAt := t\<rparr>)] \<Longrightarrow> Q () s'"
  shows "wp c0 (bumpVersion key (reinsert key (e\<lparr>e_expiresAt := t\<rparr>) s)) Q"
proof -
  have "entry_ok (kv_opts s) key (e\<lparr>e_expiresAt := t\<rparr>)"
    using kv_ok_entry [OF track_ok [OF t] e] by (rule entry_ok_expiry)
  then have "track {key} c0 (reinsert key (e\<lparr>e_expiresAt := t\<rparr>) s)"
    using track_reinsert [OF t e] by simp
  then show ?thesis by (rule wp_bump) (auto intro!: Q simp: list_reinsert [OF e])
qed

text \<open>The entries after the deadline of a live key has been replaced.\<close>

definition set_expiry :: "string \<Rightarrow> rat option \<Rightarrow> entry \<Rightarrow> kv \<Rightarrow> (string \<times> entry) list" where
  "set_expiry key t e c = al_del key (entries c) @ [(key, e\<lparr>e_expiresAt := t\<rparr>)]"

lemma al_del_lazily: "al_del key (lazily now key c) = al_del key (entries c)"
  by (simp add: lazily_def al_del_twice)

lemma kv_expireAt_wp:
  assumes "kv_ok c"
  shows "op_ok c (kv_expireAt now key v c) (\<lambda>r c'. \<exists>t. v = Fin t \<and> r = (live now key c \<noteq> None) \<and>
     entries c' = (case live now key c of
        None \<Rightarrow> al_del key (entries c)
      | Some e \<Rightarrow> if t \<le> now then al_del key (entries c) else set_expiry key (Some t) e c))"
proof -
  have t: "track {} c c" using assms by (rule track_refl)
  show ?thesis
    using t
    by (auto simp: kv_expireAt_def evolvesI finite_or_def set_expiry_def al_del_lazily lazily_def
        intro!: live_wp wp_removeExpired wp_set_expiry split: sum.splits option.splits jsnum.splits)
qed

lemma kv_expire_wp:
  assumes "kv_ok c"
  shows "op_ok c (kv_expire now key v c) (\<lambda>r c'. \<exists>ttl. validateTTL now v = Inr ttl \<and>
     r = (live now key c \<noteq> None) \<and>
     entries c' = (case live now key c of
        None \<Rightarrow> al_del key (entries c) | Some e \<Rightarrow> set_expiry key (deadline now (Some ttl)) e c))"
  using track_refl [OF assms]
  by (auto simp: kv_expire_def evolvesI set_expiry_def al_del_lazily lazily_def
      intro!: live_wp wp_set_expiry split: sum.splits option.splits)

lemma kv_persist_wp:
  assumes "kv_ok c"
  shows "op_ok c (kv_persist now key c) (\<lambda>r c'. r = (live now key c \<noteq> None) \<and>
     entries c' = (case live now key c of
        None \<Rightarrow> al_del key (entries c) | Some e \<Rightarrow> set_expiry key None e c))"
  using track_refl [OF assms]
  by (auto simp: kv_persist_def evolvesI set_expiry_def al_del_lazily lazily_def
      intro!: live_wp wp_set_expiry split: sum.splits option.splits)

section \<open>Sweeping\<close>

definition expired_in :: "rat \<Rightarrow> kv \<Rightarrow> string \<Rightarrow> bool" where
  "expired_in now c k = (case kv_lookup k c of None \<Rightarrow> False | Some e \<Rightarrow> isExpired e now)"

lemma filter_al_del:
  "filter P (al_del k l) = filter (\<lambda>p. P p \<and> fst p \<noteq> k) l"
  by (simp add: al_del_def conj_commute)

lemma sweep_keys_wp:
  "track {} c0 s \<Longrightarrow> distinct ks \<Longrightarrow>
   (\<And>ns s'. track {} c0 s' \<Longrightarrow> kv_opts s' = kv_opts s \<Longrightarrow>
      entries s' = filter (\<lambda>p. \<not> (fst p \<in> set ks \<and> expired_in now s (fst p))) (entries s) \<Longrightarrow>
      sum_list ns = length (filter (expired_in now s) ks) \<Longrightarrow> Q ns s') \<Longrightarrow>
   wp c0 (map_each (sweep_key now) ks s) Q"
proof (induction ks arbitrary: s Q)
  case (Cons k ks)
  show ?case
  proof (cases "expired_in now s k")
    case True
    then obtain e where e: "kv_lookup k s = Some e" "isExpired e now"
      by (auto simp: expired_in_def split: option.splits)
    have "wp c0 (map_each (sweep_key now) ks s') (\<lambda>ns s''. Q (1 # ns) s'')"
      if s': "track {} c0 s'" "entries s' = al_del k (entries s)" "kv_opts s' = kv_opts s" for s'
    proof (rule Cons.IH [OF s'(1)])
      have ex: "expired_in now s' j = expired_in now s j" if "j \<in> set ks" for j
        using that Cons.prems(2) s'(2) by (auto simp: expired_in_def lookup_entries)
      fix ns s''
      assume a: "track {} c0 s''" "kv_opts s'' = kv_opts s'"
        "entries s'' = filter (\<lambda>p. \<not> (fst p \<in> set ks \<and> expired_in now s' (fst p))) (entries s')"
        "sum_list ns = length (filter (expired_in now s') ks)"
      have "filter (expired_in now s') ks = filter (expired_in now s) ks"
        using ex by (intro filter_cong) auto
      moreover have "entries s'' = filter (\<lambda>p. \<not> (fst p \<in> set (k # ks) \<and> expired_in now s (fst p))) (entries s)"
        unfolding a(3) s'(2) filter_al_del using ex True by (intro filter_cong) auto
      ultimately show "Q (1 # ns) s''"
        using a s'(3) True by (intro Cons.prems(3)) auto
    qed (use Cons.prems(2) in auto)
    with True e show ?thesis
      by (auto simp: sweep_key_def [of now k] intro!: wp_removeExpired [OF Cons.prems(1) e(1)])
  next
    case False
    have "wp c0 (map_each (sweep_key now) ks s) (\<lambda>ns s''. Q (0 # ns) s'')"
    proof (rule Cons.IH [OF Cons.prems(1)])
      fix ns s''
      assume a: "track {} c0 s''" "kv_opts s'' = kv_opts s"
        "entries s'' = filter (\<lambda>p. \<not> (fst p \<in> set ks \<and> expired_in now s (fst p))) (entries s)"
        "sum_list ns = length (filter (expired_in now s) ks)"
      have "entries s'' = filter (\<lambda>p. \<not> (fst p \<in> set (k # ks) \<and> expired_in now s (fst p))) (entries s)"
        unfolding a(3) using False by (intro filter_cong) auto
      then show "Q (0 # ns) s''" using a False by (intro Cons.prems(3)) auto
    qed (use Cons.prems(2) in auto)
    with False show ?thesis
      by (auto simp: sweep_key_def [of now k] expired_in_def split: option.splits)
  qed
qed simp

text \<open>A full sweep removes exactly the expired entries and counts them.\<close>

lemma kv_sweep_wp:
  assumes "kv_ok c"
  shows "op_ok c (kv_sweep now c) (\<lambda>r c'.
     entries c' = filter (\<lambda>p. \<not> isExpired (snd p) now) (entries c) \<and>
     r + length (entries c') = length (entries c))"
proof -
  have t: "track {} c c" using assms by (rule track_refl)
  let ?el = "am_list (kv_expiring c)"
  have dm: "distinct_keys (entries c)" "distinct_keys ?el"
    and idx: "map_of ?el k = Option.bind (map_of (entries c) k) e_expiresAt" for k
    using assms by (simp_all add: kv_ok_def core_ok_def)
  have in_idx: "isExpired e now \<Longrightarrow> (k, e) \<in> set (entries c) \<Longrightarrow> k \<in> fst ` set ?el" for k e
  proof -
    assume "isExpired e now" "(k, e) \<in> set (entries c)"
    then have "map_of ?el k \<noteq> None"
      using idx [of k] map_of_distinct_in [OF dm(1)] by (auto simp: isExpired_def split: option.splits)
    then show "k \<in> fst ` set ?el" by (simp add: map_of_None_iff)
  qed
  have exp: "expired_in now c k = isExpired e now" if "(k, e) \<in> set (entries c)" for k e
    using map_of_distinct_in [OF dm(1) that] by (simp add: expired_in_def lookup_entries)
  have same: "filter (\<lambda>p. \<not> (fst p \<in> set (map fst ?el) \<and> expired_in now c (fst p))) (entries c) =
      filter (\<lambda>p. \<not> isExpired (snd p) now) (entries c)"
    using exp in_idx by (intro filter_cong) auto
  have count: "length (filter (expired_in now c) (map fst ?el)) =
      length (filter (\<lambda>p. isExpired (snd p) now) (entries c))"
  proof -
    have "k \<in> set (filter (expired_in now c) (map fst ?el)) \<longleftrightarrow> (\<exists>e. (k, e) \<in> set (entries c) \<and> isExpired e now)" for k
    proof
      assume "k \<in> set (filter (expired_in now c) (map fst ?el))"
      then obtain e where "map_of (entries c) k = Some e" "isExpired e now"
        by (auto simp: expired_in_def lookup_entries split: option.splits)
      then show "\<exists>e. (k, e) \<in> set (entries c) \<and> isExpired e now" using map_of_in_set by fast
    next
      assume "\<exists>e. (k, e) \<in> set (entries c) \<and> isExpired e now"
      then obtain e where "(k, e) \<in> set (entries c)" "isExpired e now" by blast
      then show "k \<in> set (filter (expired_in now c) (map fst ?el))" using in_idx exp by simp
    qed
    then have e: "set (filter (expired_in now c) (map fst ?el)) =
        fst ` set (filter (\<lambda>p. isExpired (snd p) now) (entries c))"
      by (force simp: set_eq_iff image_iff)
    have d1: "distinct (filter (expired_in now c) (map fst ?el))"
      using dm(2) by (simp add: distinct_keys_def)
    have d2: "distinct (map fst (filter (\<lambda>p. isExpired (snd p) now) (entries c)))"
      using dm(1) by (simp add: distinct_keys_def distinct_map_filter)
    from distinct_card [OF d1] distinct_card [OF d2] show ?thesis by (simp only: e list.set_map length_map)
  qed
  have len: "length (filter (\<lambda>p. isExpired (snd p) now) (entries c)) +
      length (filter (\<lambda>p. \<not> isExpired (snd p) now) (entries c)) = length (entries c)"
    by (rule sum_length_filter_compl)
  have "distinct (map fst ?el)" using dm(2) by (simp add: distinct_keys_def)
  then have "wp c (map_each (sweep_key now) (map fst ?el) c) (\<lambda>ns s'. track {} c s' \<and> kv_opts s' = kv_opts c \<and>
      entries s' = filter (\<lambda>p. \<not> isExpired (snd p) now) (entries c) \<and>
      sum_list ns + length (entries s') = length (entries c))"
    by (rule sweep_keys_wp [OF t]) (simp only: same count len simp_thms)
  then show ?thesis by (simp add: kv_sweep_def)
qed

lemma track_lag: "track K c0 (s\<lparr>kv_lag := x\<rparr>) = track K c0 s"
proof -
  have "ver k (s\<lparr>kv_lag := x\<rparr>) = ver k s" for k by (simp add: ver_def split: option.splits)
  then show ?thesis by (simp add: track_def noted_def grows_def kv_ok_def same_ctx_def kv_lookup_def)
qed

text \<open>
  A sweeper tick with a stale cursor: whatever keys the cursor yields, only entries that have
  expired go.
\<close>

lemma budget_keys_wp:
  "track {} c0 s \<Longrightarrow>
   (\<And>ns s'. track {} c0 s' \<Longrightarrow> kv_opts s' = kv_opts s \<Longrightarrow>
      entries s' = filter (\<lambda>p. \<not> (fst p \<in> set ks \<and> expired_in now s (fst p))) (entries s) \<Longrightarrow> Q ns s') \<Longrightarrow>
   wp c0 (map_each (budget_key now) ks s) Q"
proof (induction ks arbitrary: s Q)
  case (Cons k ks)
  have lag: "track {} c0 (s\<lparr>kv_lag := x\<rparr>)" for x
    using Cons.prems(1) by (simp add: track_lag)
  show ?case
  proof (cases "expired_in now s k")
    case True
    then obtain e t where e: "kv_lookup k s = Some e" "e_expiresAt e = Some t" "t \<le> now"
      by (auto simp: expired_in_def isExpired_def split: option.splits)
    let ?s = "s\<lparr>kv_lag := max (kv_lag s) (fin_of (js_add now (- t)))\<rparr>"
    have "wp c0 (removeExpired k e ?s) (\<lambda>_ s'. wp c0 (map_each (budget_key now) ks s') (\<lambda>ns s''. Q (1 # ns) s''))"
    proof (rule wp_removeExpired [OF lag])
      show "kv_lookup k ?s = Some e" using e(1) by (simp add: kv_lookup_def)
      fix s'
      assume s': "track ({} - {k}) c0 s'" "entries s' = al_del k (entries ?s)" "kv_opts s' = kv_opts ?s"
      show "wp c0 (map_each (budget_key now) ks s') (\<lambda>ns s''. Q (1 # ns) s'')"
      proof (rule Cons.IH)
        fix ns s''
        assume a: "track {} c0 s''" "kv_opts s'' = kv_opts s'"
          "entries s'' = filter (\<lambda>p. \<not> (fst p \<in> set ks \<and> expired_in now s' (fst p))) (entries s')"
        have ex: "expired_in now s' j \<longleftrightarrow> j \<noteq> k \<and> expired_in now s j" for j
          using s'(2) by (auto simp: expired_in_def lookup_entries)
        have es: "entries s' = al_del k (entries s)" using s'(2) by simp
        have "entries s'' = filter (\<lambda>p. \<not> (fst p \<in> set (k # ks) \<and> expired_in now s (fst p))) (entries s)"
          unfolding a(3) es filter_al_del using ex True by (intro filter_cong) auto
        then show "Q (1 # ns) s''" using a s'(3) by (intro Cons.prems(2)) auto
      qed (use s'(1) in simp)
    qed
    with e show ?thesis by (simp add: budget_key_def [of now k])
  next
    case False
    have "wp c0 (map_each (budget_key now) ks s) (\<lambda>ns s''. Q (0 # ns) s'')"
    proof (rule Cons.IH [OF Cons.prems(1)])
      fix ns s''
      assume a: "track {} c0 s''" "kv_opts s'' = kv_opts s"
        "entries s'' = filter (\<lambda>p. \<not> (fst p \<in> set ks \<and> expired_in now s (fst p))) (entries s)"
      have "entries s'' = filter (\<lambda>p. \<not> (fst p \<in> set (k # ks) \<and> expired_in now s (fst p))) (entries s)"
        unfolding a(3) using False by (intro filter_cong) auto
      then show "Q (0 # ns) s''" using a by (intro Cons.prems(2)) auto
    qed
    with False show ?thesis
      by (auto simp: budget_key_def [of now k] expired_in_def isExpired_def split: option.splits)
  qed
qed simp

lemma kv_sweepBudget_wp:
  assumes "kv_ok c"
  shows "op_ok c (kv_sweepBudget now maxKeys maxMs visits c) (\<lambda>r c'.
     \<exists>k. maxKeys = Fin k \<and>
       entries c' = filter (\<lambda>p. \<not> (fst p \<in> set (take (nat \<lfloor>k\<rfloor>) visits) \<and> expired_in now c (fst p))) (entries c))"
  using track_refl [OF assms]
  by (auto simp: kv_sweepBudget_def evolvesI validatePositiveSafeInteger_def validateSafeInteger_Inr
      intro!: budget_keys_wp split: sum.splits)

section \<open>Restoring a snapshot\<close>

definition restore_ready :: "kv \<Rightarrow> string \<times> json \<times> rat option \<Rightarrow> bool" where
  "restore_ready c p \<longleftrightarrow>
     (case p of (k, v, t) \<Rightarrow> assertValueFits k v c = Inr (int (length k + valueByteLength v)) \<and>
        json_depth v \<le> MAX_JSON_DEPTH \<and> node_count v \<le> MAX_JSON_NODES)"

lemma restore_ready_opts:
  assumes "kv_opts s = kv_opts c"
  shows "restore_ready s p = restore_ready c p"
  unfolding restore_ready_def assertValueFits_opts [OF assms] ..

lemma restore_check_ready: "restore_check now c seen es = Inr ps \<Longrightarrow> p \<in> set ps \<Longrightarrow> restore_ready c p"
proof (induction now c seen es arbitrary: ps rule: restore_check.induct)
  case (2 now c seen e es)
  from "2.prems"(1) obtain t v sz pend where a: "r_key e \<notin> set seen" "restore_deadline (r_expiresAt e) = Inr t"
    "cloneJsonValue default_clone_bytes (r_value e) = Inr v" "assertValueFits (r_key e) v c = Inr sz"
    "restore_check now c (r_key e # seen) es = Inr pend"
    "ps = (if (case t of None \<Rightarrow> False | Some t \<Rightarrow> t \<le> now) then pend else (r_key e, v, t) # pend)"
    by (auto simp: bind_out_Inr split: if_splits)
  have "restore_ready c (r_key e, v, t)"
    using a(3,4) clone_same [OF a(3)] by (auto simp: restore_ready_def assertValueFits_Inr)
  with "2.IH" [OF a(1,5)] "2.prems"(2) a(6) show ?case by (auto split: if_splits)
qed simp

definition put_list :: "string \<times> json \<times> rat option \<Rightarrow> (string \<times> entry) list \<Rightarrow> (string \<times> entry) list" where
  "put_list p l =
     (case p of (k, v, t) \<Rightarrow> al_del k l @
        [(k, \<lparr>e_value = v, e_expiresAt = t, e_size = int (length k + valueByteLength v)\<rparr>)])"

lemma restore_put_wp:
  assumes t: "track {} c0 s" and r: "restore_ready s p"
    and Q: "\<And>s'. track {} c0 s' \<Longrightarrow> kv_opts s' = kv_opts s \<Longrightarrow> entries s' = put_list p (entries s) \<Longrightarrow> Q () s'"
  shows "wp c0 (restore_put p s) Q"
proof -
  obtain k v d where p: "p = (k, v, d)" by (cases p)
  define s1 where "s1 = (case kv_lookup k s of Some old \<Rightarrow> remove_entry k old s | None \<Rightarrow> s)"
  have s1: "track {k} c0 s1" "entries s1 = al_del k (entries s)" "kv_opts s1 = kv_opts s" "kv_lookup k s1 = None"
    using track_remove [OF t] track_mono [OF t, of "{k}"]
    by (auto simp: s1_def split: option.splits)
  let ?sz = "int (length k + valueByteLength v)"
  let ?e = "\<lparr>e_value = v, e_expiresAt = d, e_size = ?sz\<rparr>"
  have fits: "assertValueFits k v s1 = Inr ?sz"
    using r assertValueFits_opts [OF s1(3), of k v] by (simp add: restore_ready_def p)
  have "entry_ok (kv_opts s1) k ?e"
    using entry_ok_new [OF fits] r by (simp add: restore_ready_def p)
  then have "track {k} c0 (put_entry k ?e s1)" using track_put [OF s1(1,4)] by simp
  then have "wp c0 (bumpVersion k (put_entry k ?e s1)) Q"
    by (rule wp_bump) (auto intro!: Q simp: list_put [OF s1(4)] s1(2,3) put_list_def p)
  moreover have "(case kv_lookup k s of Some old \<Rightarrow> modify (remove_entry k old) | None \<Rightarrow> returns ()) s = (Inr (), s1)"
    by (simp add: s1_def split: option.splits)
  ultimately show ?thesis by (simp add: restore_put_def p fits)
qed

lemma restore_puts_wp:
  "track {} c0 s \<Longrightarrow> (\<forall>p \<in> set ps. restore_ready s p) \<Longrightarrow>
   (\<And>s'. track {} c0 s' \<Longrightarrow> kv_opts s' = kv_opts s \<Longrightarrow> entries s' = fold put_list ps (entries s) \<Longrightarrow> Q () s') \<Longrightarrow>
   wp c0 (for_each restore_put ps s) Q"
proof (induction ps arbitrary: s)
  case (Cons p ps)
  have "wp c0 (restore_put p s) (\<lambda>_ s'. wp c0 (for_each restore_put ps s') Q)"
  proof (rule restore_put_wp [OF Cons.prems(1)])
    show "restore_ready s p" using Cons.prems(2) by simp
    fix s'
    assume s': "track {} c0 s'" "kv_opts s' = kv_opts s" "entries s' = put_list p (entries s)"
    show "wp c0 (for_each restore_put ps s') Q"
      using Cons.prems(2,3) s' restore_ready_opts [OF s'(2)] by (intro Cons.IH [OF s'(1)]) auto
  qed
  then show ?case by simp
qed simp

lemma kv_restore_wp:
  assumes t: "track {} c0 s"
    and Q: "\<And>s' ps. track {} c0 s' \<Longrightarrow> kv_opts s' = kv_opts s \<Longrightarrow> restore_check now s [] es = Inr ps \<Longrightarrow>
      entries s' = trim (kv_opts s) (fold put_list ps (entries s)) \<Longrightarrow> Q (length ps) s'"
  shows "wp c0 (kv_restore now es s) Q"
proof (cases "restore_check now s [] es")
  case (Inl e)
  with t show ?thesis by (simp add: kv_restore_def evolvesI)
next
  case (Inr ps)
  have "wp c0 (for_each restore_put ps s) (\<lambda>_ s'. wp c0 (restore_evict (kv_size s') s') (\<lambda>_. Q (length ps)))"
  proof (rule restore_puts_wp [OF t])
    show "\<forall>p \<in> set ps. restore_ready s p" using restore_check_ready [OF Inr] by blast
    fix s'
    assume s': "track {} c0 s'" "kv_opts s' = kv_opts s" "entries s' = fold put_list ps (entries s)"
    then show "wp c0 (restore_evict (kv_size s') s') (\<lambda>_. Q (length ps))"
      by (intro wp_restore_evict) (auto intro: Q simp: Inr)
  qed
  with Inr show ?thesis by (simp add: kv_restore_def)
qed

end
