(* ===== verification/Kv_Atomic.thy ===== *)
theory Kv_Atomic
  imports Kv_Expiry
begin

text \<open>
  Atomic blocks of the cache: a body that throws leaves every entry, index, version and
  counter as it was, at any nesting, and a body that returns keeps its effects. \<open>replace\<close>,
  the batches of \<open>clearPrefixBatches\<close> and \<open>atomicChanges\<close> are instances.
\<close>

definition captured :: "kv \<Rightarrow> kv" where
  "captured c = (captureState c)\<lparr>kv_frames := (kv_state c, []) # kv_frames c\<rparr>"

lemma atomic_captured:
  "atomic fn c =
     (case fn (captured c) of
        (Inr r, c2) \<Rightarrow> (Inr r, close_frame (commitMaps c2))
      | (Inl err, c2) \<Rightarrow> (Inl err, restoreState (kv_state c) (c2\<lparr>kv_frames := tl (kv_frames c2)\<rparr>)))"
  by (simp add: atomic_def captured_def captureState_def Let_def)

lemma captured_simps [simp]:
  "entries (captured c) = entries c" "kv_opts (captured c) = kv_opts c"
  "kv_generation (captured c) = kv_generation c" "kv_lookup k (captured c) = kv_lookup k c"
  "ver k (captured c) = ver k c" "live now k (captured c) = live now k c"
  by (simp_all add: captured_def captureState_def am_begin_def kv_lookup_def ver_def live_def
      split: option.splits)

lemma captured_ok: "kv_ok c \<Longrightarrow> kv_ok (captured c)"
  by (simp add: captured_def captureState_def am_begin_def kv_ok_def)

text \<open>The state that a failed block leaves: only the generation has moved on.\<close>

definition same_data :: "kv \<Rightarrow> kv \<Rightarrow> bool" where
  "same_data c c' \<longleftrightarrow>
     kv_map c' = kv_map c \<and> kv_expiring c' = kv_expiring c \<and> kv_versions c' = kv_versions c \<and>
     kv_state c' = kv_state c \<and> kv_frames c' = kv_frames c \<and> kv_events c' = kv_events c \<and>
     kv_opts c' = kv_opts c"

lemma evolves_ctx: "evolves c0 c \<Longrightarrow> same_ctx c0 c \<and> kv_generation c0 \<le> kv_generation c \<and> kv_ok c"
  by (simp add: evolves_def track_def)

lemma restore_same:
  assumes ok: "kv_ok c" and ev: "evolves (captured c) c2"
  shows "same_data c (restoreState (kv_state c) (c2\<lparr>kv_frames := tl (kv_frames c2)\<rparr>))"
    and "track {} c (restoreState (kv_state c) (c2\<lparr>kv_frames := tl (kv_frames c2)\<rparr>))"
proof -
  let ?c' = "restoreState (kv_state c) (c2\<lparr>kv_frames := tl (kv_frames c2)\<rparr>)"
  have x: "same_ctx (captured c) c2" and g: "kv_generation c \<le> kv_generation c2"
    using evolves_ctx [OF ev] by simp_all
  then have roll: "am_rollback (kv_map c2) = kv_map c" "am_rollback (kv_expiring c2) = kv_expiring c"
    "am_rollback (kv_versions c2) = kv_versions c" "tl (kv_frames c2) = kv_frames c"
    "kv_events c2 = kv_events c" "kv_opts c2 = kv_opts c"
    by (simp_all add: same_ctx_def captured_def captureState_def am_begin_def am_rollback_def)
  then show sd: "same_data c ?c'"
    by (simp add: same_data_def restoreState_def)
  have "kv_ok ?c'"
    using ok core_ok_mono [OF _ g] frames_core_mono [OF _ g]
    by (auto simp: kv_ok_def restoreState_def roll)
  moreover have "ver k ?c' = ver k c" "kv_lookup k ?c' = kv_lookup k c" for k
    using sd by (auto simp: same_data_def ver_def kv_lookup_def split: option.splits)
  moreover have "same_ctx c ?c'"
    using x sd by (auto simp: same_ctx_def same_data_def restoreState_def captured_def captureState_def)
  moreover have "grows c c2" using ev by (simp add: evolves_def track_def noted_def grows_def captured_def captureState_def)
  then have "noted {} c ?c'" using \<open>\<And>k. kv_lookup k ?c' = kv_lookup k c\<close> by (simp add: noted_def grows_def restoreState_def)
  ultimately show "track {} c ?c'"
    using g ver_le_gen [OF ok] by (auto simp: track_def restoreState_def intro: order.trans)
qed

lemma commit_track:
  assumes ok: "kv_ok c" and t: "track {} (captured c) c2"
  shows "track {} c (close_frame (commitMaps c2))" and "entries (close_frame (commitMaps c2)) = entries c2"
proof -
  let ?c' = "close_frame (commitMaps c2)"
  have x: "same_ctx (captured c) c2" and ok2: "kv_ok c2" using t by (simp_all add: track_def)
  obtain st ks where f2: "kv_frames c2 = (st, ks) # kv_frames c"
    using x by (cases "kv_frames c2") (auto simp: same_ctx_def captured_def captureState_def)
  have fr: "am_frames (kv_map c2) = entries c # am_frames (kv_map c)"
    "am_frames (kv_expiring c2) = am_list (kv_expiring c) # am_frames (kv_expiring c)"
    "am_frames (kv_versions c2) = am_list (kv_versions c) # am_frames (kv_versions c)"
    using x by (simp_all add: same_ctx_def captured_def captureState_def am_begin_def)
  have c': "kv_map ?c' = (kv_map c2)\<lparr>am_frames := am_frames (kv_map c)\<rparr>"
    "kv_expiring ?c' = (kv_expiring c2)\<lparr>am_frames := am_frames (kv_expiring c)\<rparr>"
    "kv_versions ?c' = (kv_versions c2)\<lparr>am_frames := am_frames (kv_versions c)\<rparr>"
    "kv_state ?c' = kv_state c2" "kv_generation ?c' = kv_generation c2" "kv_opts ?c' = kv_opts c2"
    "kv_listener ?c' = kv_listener c2" "kv_changed ?c' = kv_changed c2"
    "map fst (kv_frames ?c') = map fst (kv_frames c)" "tl (kv_frames ?c') = tl (kv_frames c)"
    "kv_frames c \<noteq> [] \<Longrightarrow> kv_events ?c' = kv_events c2"
    using f2 fr
    by (auto simp: close_frame_def commitMaps_def am_commit_def flushExpiryEvents_def Let_def split: list.splits)
  show "entries ?c' = entries c2" by (simp add: c'(1))
  have "kv_ok ?c'" using ok2 by (simp add: kv_ok_def c' fr f2)
  moreover have "ver k ?c' = ver k c2" "kv_lookup k ?c' = kv_lookup k c2" for k
    by (simp_all add: ver_def kv_lookup_def c' split: option.splits)
  moreover have "same_ctx c ?c'"
    using x by (simp add: same_ctx_def c' captured_def captureState_def)
  moreover have "noted {} (captured c) c2" using t by (simp add: track_def)
  then have "noted {} c ?c'" by (simp add: noted_def grows_def c' kv_lookup_def) (simp add: captured_def captureState_def am_begin_def)
  ultimately show "track {} c ?c'"
    using t by (simp add: track_def c')
qed

lemma atomic_wp:
  assumes t: "track {} c0 s"
    and body: "wp (captured s) (fn (captured s)) (\<lambda>r s2. track {} (captured s) s2 \<and> P r s2)"
    and Q: "\<And>r s2 s'. P r s2 \<Longrightarrow> track {} (captured s) s2 \<Longrightarrow> track {} c0 s' \<Longrightarrow> track {} s s' \<Longrightarrow>
      entries s' = entries s2 \<Longrightarrow> kv_opts s' = kv_opts s \<Longrightarrow> Q r s'"
  shows "wp c0 (atomic fn s) Q"
proof (cases "fn (captured s)")
  case (Pair r s2)
  have ok: "kv_ok s" using t by (rule track_ok)
  show ?thesis
  proof (cases r)
    case (Inl e)
    then have "evolves (captured s) s2" using body Pair by simp
    from track_trans [OF t restore_same(2) [OF ok this]] Inl Pair show ?thesis
      by (simp add: atomic_captured evolvesI)
  next
    case (Inr a)
    then have P: "P a s2" "track {} (captured s) s2" using body Pair by simp_all
    note c = commit_track [OF ok P(2)]
    have "kv_opts (close_frame (commitMaps s2)) = kv_opts s"
      using c(1) by (simp add: track_def same_ctx_def)
    then have "Q a (close_frame (commitMaps s2))"
      by (intro Q [OF P track_trans [OF t c(1)] c(1,2)])
    with Inr Pair show ?thesis by (simp add: atomic_captured)
  qed
qed

lemma atomic_throws:
  assumes "kv_ok c" "wp (captured c) (fn (captured c)) Q" "atomic fn c = (Inl e, c')"
  shows "same_data c c'"
proof -
  obtain r c2 where f: "fn (captured c) = (r, c2)" by (cases "fn (captured c)")
  with assms(3) have r: "r = Inl e" "c' = restoreState (kv_state c) (c2\<lparr>kv_frames := tl (kv_frames c2)\<rparr>)"
    by (auto simp: atomic_captured split: sum.splits)
  then have "evolves (captured c) c2" using assms(2) f by simp
  with restore_same(1) [OF assms(1) this] r(2) show ?thesis by simp
qed

section \<open>Instances\<close>

lemma replace_body:
  assumes "track {} c0 s"
    and "\<And>s' ps. track {} c0 s' \<Longrightarrow> kv_opts s' = kv_opts s \<Longrightarrow> restore_check now s [] es = Inr ps \<Longrightarrow>
      entries s' = trim (kv_opts s) (fold put_list ps []) \<Longrightarrow> Q (length ps) s'"
  shows "wp c0 (andThen kv_clear (\<lambda>_. kv_restore now es) s) Q"
proof -
  have rc: "restore_check now s' seen es' = restore_check now s seen es'" if "kv_opts s' = kv_opts s" for s' seen es'
  proof (induction es' arbitrary: seen)
    case (Cons e es')
    then show ?case by (simp add: assertValueFits_opts [OF that])
  qed simp
  have "wp c0 (kv_clear s) (\<lambda>_ s'. wp c0 (kv_restore now es s') Q)"
  proof (rule kv_clear_wp [OF assms(1)])
    fix s'
    assume s': "track {} c0 s'" "kv_opts s' = kv_opts s" "entries s' = []"
    show "wp c0 (kv_restore now es s') Q"
      by (rule kv_restore_wp [OF s'(1)]) (use s' rc [OF s'(2)] in \<open>auto intro!: assms(2)\<close>)
  qed
  then show ?thesis by simp
qed

lemma kv_replace_wp:
  assumes "kv_ok c"
  shows "op_ok c (kv_replace now es c) (\<lambda>r c'.
     \<exists>ps. restore_check now c [] es = Inr ps \<and> r = length ps \<and>
       entries c' = trim (kv_opts c) (fold put_list ps []))"
proof -
  have rc: "restore_check now (captured c) seen es' = restore_check now c seen es'" for seen es'
    by (induction es' arbitrary: seen) (simp_all add: assertValueFits_opts [of "captured c" c])
  have t: "track {} (captured c) (captured c)" using assms by (intro track_refl captured_ok)
  show ?thesis
    unfolding kv_replace_def
    by (rule atomic_wp [OF track_refl [OF assms], where P = "\<lambda>r s2. \<exists>ps. restore_check now c [] es = Inr ps \<and>
        r = length ps \<and> entries s2 = trim (kv_opts c) (fold put_list ps [])"], rule replace_body [OF t])
      (auto simp: rc)
qed

lemma batch_keys_wp:
  "track {} c0 s \<Longrightarrow>
   (\<And>ns s'. track {} c0 s' \<Longrightarrow> kv_opts s' = kv_opts s \<Longrightarrow>
      entries s' = filter (\<lambda>p. \<not> (fst p \<in> set ks \<and> in_prefix prefix (fst p))) (entries s) \<Longrightarrow>
      sum_list ns + length (entries s') = length (entries s) \<Longrightarrow> Q ns s') \<Longrightarrow>
   wp c0 (map_each (batch_key prefix) ks s) Q"
proof (induction ks arbitrary: s Q)
  case (Cons k ks)
  have dist: "distinct_keys (entries s)" using kv_ok_distinct [OF track_ok [OF Cons.prems(1)]] .
  show ?case
  proof (cases "in_prefix prefix k \<and> kv_lookup k s \<noteq> None")
    case True
    then obtain e where e: "kv_lookup k s = Some e" "in_prefix prefix k" by auto
    have len: "length (al_del k (entries s)) + 1 = length (entries s)"
    proof -
      have k: "k \<in> fst ` set (entries s)"
        using e(1) by (metis lookup_entries map_of_None_iff option.distinct(1))
      then have "0 < length (entries s)" by (cases "entries s") auto
      then show ?thesis using length_al_del [OF dist, of k] k by simp
    qed
    have "wp c0 (map_each (batch_key prefix) ks s') (\<lambda>ns s''. Q (1 # ns) s'')"
      if s': "track {} c0 s'" "entries s' = al_del k (entries s)" "kv_opts s' = kv_opts s" for s'
    proof (rule Cons.IH [OF s'(1)])
      fix ns s''
      assume a: "track {} c0 s''" "kv_opts s'' = kv_opts s'"
        "entries s'' = filter (\<lambda>p. \<not> (fst p \<in> set ks \<and> in_prefix prefix (fst p))) (entries s')"
        "sum_list ns + length (entries s'') = length (entries s')"
      have "entries s'' = filter (\<lambda>p. \<not> (fst p \<in> set (k # ks) \<and> in_prefix prefix (fst p))) (entries s)"
        unfolding a(3) s'(2) filter_al_del using e(2) by (intro filter_cong) auto
      then show "Q (1 # ns) s''" using a s'(2,3) len by (intro Cons.prems(2)) auto
    qed
    with e show ?thesis
      by (auto simp: batch_key_def [of prefix k] intro!: wp_drop [OF Cons.prems(1) e(1)])
  next
    case False
    have "wp c0 (map_each (batch_key prefix) ks s) (\<lambda>ns s''. Q (0 # ns) s'')"
    proof (rule Cons.IH [OF Cons.prems(1)])
      fix ns s''
      assume a: "track {} c0 s''" "kv_opts s'' = kv_opts s"
        "entries s'' = filter (\<lambda>p. \<not> (fst p \<in> set ks \<and> in_prefix prefix (fst p))) (entries s)"
        "sum_list ns + length (entries s'') = length (entries s)"
      have "k \<notin> fst ` set (entries s) \<or> \<not> in_prefix prefix k"
        using False by (auto simp: lookup_entries map_of_None_iff)
      then have "entries s'' = filter (\<lambda>p. \<not> (fst p \<in> set (k # ks) \<and> in_prefix prefix (fst p))) (entries s)"
        unfolding a(3) by (intro filter_cong) (auto simp: image_iff)
      then show "Q (0 # ns) s''" using a by (intro Cons.prems(2)) auto
    qed
    with False show ?thesis
      by (auto simp: batch_key_def [of prefix k])
  qed
qed simp

lemma clear_batch_wp:
  assumes "kv_ok c"
  shows "op_ok c (clear_batch prefix n visits c) (\<lambda>r c'.
     entries c' = filter (\<lambda>p. \<not> (fst p \<in> set (take n visits) \<and> in_prefix prefix (fst p))) (entries c) \<and>
     snd r + length (entries c') = length (entries c) \<and> fst r = min (length visits) n)"
proof -
  have t: "track {} (captured c) (captured c)" using assms by (intro track_refl captured_ok)
  show ?thesis
    unfolding clear_batch_def
    by (rule atomic_wp [OF track_refl [OF assms], where P = "\<lambda>r s2.
          entries s2 = filter (\<lambda>p. \<not> (fst p \<in> set (take n visits) \<and> in_prefix prefix (fst p))) (entries c) \<and>
          snd r + length (entries s2) = length (entries c) \<and> fst r = min (length visits) n"])
      (auto intro!: batch_keys_wp [OF t])
qed

end
