(* ===== verification/Kv_Tx.thy ===== *)
theory Kv_Tx
  imports Kv_Atomic
begin

text \<open>
  The class \<open>KVTransaction\<close> of \<open>src/src/cache.ts\<close>: watched versions, a queue of writes and a
  one-shot \<open>exec\<close>. A method acts on the cache and the transaction object together.
\<close>

section \<open>State and queueing\<close>

datatype tx_op =
    OpSet string json "jsnum option"
  | OpMset "batch_entry list"
  | OpDel string
  | OpClearPrefix string
  | OpExpire string jsnum
  | OpPersist string
  | OpIncr string jsnum
  | OpDecr string jsnum
  | OpCas string "json option" json "jsnum option"

datatype tx_result = RValue json | RBool bool | RNum rat

record kv_tx =
  tx_watched :: "(string \<times> int) list"
  tx_queue :: "tx_op list"
  tx_done :: bool

type_synonym 'a txop = "(kv \<times> kv_tx, 'a) act"

definition multi :: kv_tx where
  "multi = \<lparr>tx_watched = [], tx_queue = [], tx_done = False\<rparr>"

definition tx_finished :: "kv_tx \<Rightarrow> bool" where
  "tx_finished t = tx_done t"

definition tx_queued :: "kv_tx \<Rightarrow> nat" where
  "tx_queued t = length (tx_queue t)"

definition on_cache :: "'a kvop \<Rightarrow> 'a txop" where
  "on_cache m s = (case m (fst s) of (r, c) \<Rightarrow> (r, c, snd s))"

definition on_tx :: "(kv_tx \<Rightarrow> kv_tx) \<Rightarrow> unit txop" where
  "on_tx f s = (Inr (), fst s, f (snd s))"

definition tx_error :: "string \<Rightarrow> jserr" where
  "tx_error m = DbError TRANSACTION_ERROR m"

definition tx_guard :: "'a outcome \<Rightarrow> 'a txop" where
  "tx_guard r s = (r, s)"

definition assertOpen :: "unit txop" where
  "assertOpen s =
     (if tx_done (snd s) then (Inl (tx_error ''transaction already finished''), s) else (Inr (), s))"

definition err_text :: "jserr \<Rightarrow> string" where
  "err_text e = (case e of DbError _ m \<Rightarrow> m | PlainError m \<Rightarrow> m)"

definition checkValue :: "json option \<Rightarrow> json outcome" where
  "checkValue v =
     (case v of
        None \<Rightarrow> Inl (tx_error ''value cannot be undefined (use null)'')
      | Some x \<Rightarrow>
          (case cloneJsonValue default_clone_bytes x of
             Inl e \<Rightarrow> Inl (tx_error (err_text e)) | Inr w \<Rightarrow> Inr w))"

definition checkTtl :: "jsnum option \<Rightarrow> bool \<Rightarrow> unit outcome" where
  "checkTtl ttlMs required =
     (case ttlMs of
        None \<Rightarrow> if required then Inl (tx_error ''ttlMs is required'') else Inr ()
      | Some t \<Rightarrow>
          (case validateNonNegativeNumber t of
             Inl e \<Rightarrow> Inl (tx_error (err_text e)) | Inr _ \<Rightarrow> Inr ()))"

definition checkDelta :: "jsnum \<Rightarrow> unit outcome" where
  "checkDelta d =
     (case d of Fin _ \<Rightarrow> Inr () | _ \<Rightarrow> Inl (tx_error ''delta must be a finite number''))"

definition enqueue :: "tx_op \<Rightarrow> unit txop" where
  "enqueue op = on_tx (\<lambda>t. t\<lparr>tx_queue := tx_queue t @ [op]\<rparr>)"

fun watch_keys :: "rat \<Rightarrow> string list \<Rightarrow> unit txop" where
  "watch_keys now [] = returns ()"
| "watch_keys now (k # ks) =
     andThen (on_cache (kv_getVersion now k)) (\<lambda>v.
     andThen (on_tx (\<lambda>t. t\<lparr>tx_watched := al_set k v (tx_watched t)\<rparr>)) (\<lambda>_. watch_keys now ks))"

definition tx_watch :: "rat \<Rightarrow> string list \<Rightarrow> unit txop" where
  "tx_watch now keys = andThen assertOpen (\<lambda>_. watch_keys now keys)"

definition tx_unwatch :: "unit txop" where
  "tx_unwatch = andThen assertOpen (\<lambda>_. on_tx (\<lambda>t. t\<lparr>tx_watched := []\<rparr>))"

definition tx_get :: "rat \<Rightarrow> string \<Rightarrow> json option txop" where
  "tx_get now key = andThen assertOpen (\<lambda>_. on_cache (kv_get now key))"

definition tx_set :: "string \<Rightarrow> json option \<Rightarrow> jsnum option \<Rightarrow> unit txop" where
  "tx_set key v ttlMs =
     andThen assertOpen (\<lambda>_.
     andThen (tx_guard (checkValue v)) (\<lambda>w.
     andThen (tx_guard (checkTtl ttlMs False)) (\<lambda>_. enqueue (OpSet key w ttlMs))))"

fun check_batch :: "batch_entry list \<Rightarrow> batch_entry list outcome" where
  "check_batch [] = Inr []"
| "check_batch (e # es) =
     bind_out (checkValue (Some (b_value e))) (\<lambda>w.
     bind_out (checkTtl (b_ttlMs e) False) (\<lambda>_.
     bind_out (check_batch es) (\<lambda>r. Inr (e\<lparr>b_value := w\<rparr> # r))))"

definition tx_mset :: "batch_entry list \<Rightarrow> unit txop" where
  "tx_mset es =
     andThen assertOpen (\<lambda>_.
     andThen (tx_guard (check_batch es)) (\<lambda>owned. enqueue (OpMset owned)))"

definition tx_del :: "string \<Rightarrow> unit txop" where
  "tx_del key = andThen assertOpen (\<lambda>_. enqueue (OpDel key))"

definition tx_clearPrefix :: "string \<Rightarrow> unit txop" where
  "tx_clearPrefix prefix = andThen assertOpen (\<lambda>_. enqueue (OpClearPrefix prefix))"

definition tx_expire :: "string \<Rightarrow> jsnum \<Rightarrow> unit txop" where
  "tx_expire key ttlMs =
     andThen assertOpen (\<lambda>_.
     andThen (tx_guard (checkTtl (Some ttlMs) True)) (\<lambda>_. enqueue (OpExpire key ttlMs)))"

definition tx_persist :: "string \<Rightarrow> unit txop" where
  "tx_persist key = andThen assertOpen (\<lambda>_. enqueue (OpPersist key))"

definition tx_incr :: "string \<Rightarrow> jsnum \<Rightarrow> unit txop" where
  "tx_incr key delta =
     andThen assertOpen (\<lambda>_.
     andThen (tx_guard (checkDelta delta)) (\<lambda>_. enqueue (OpIncr key delta)))"

definition tx_decr :: "string \<Rightarrow> jsnum \<Rightarrow> unit txop" where
  "tx_decr key delta =
     andThen assertOpen (\<lambda>_.
     andThen (tx_guard (checkDelta delta)) (\<lambda>_. enqueue (OpDecr key delta)))"

definition tx_cas :: "string \<Rightarrow> json option \<Rightarrow> json option \<Rightarrow> jsnum option \<Rightarrow> unit txop" where
  "tx_cas key expected v ttlMs =
     andThen assertOpen (\<lambda>_.
     andThen (tx_guard (case expected of None \<Rightarrow> Inr None
                        | Some _ \<Rightarrow> map_sum id Some (checkValue expected))) (\<lambda>e.
     andThen (tx_guard (checkValue v)) (\<lambda>w.
     andThen (tx_guard (checkTtl ttlMs False)) (\<lambda>_. enqueue (OpCas key e w ttlMs)))))"

definition tx_discard :: "unit txop" where
  "tx_discard =
     andThen assertOpen (\<lambda>_. on_tx (\<lambda>t. t\<lparr>tx_queue := [], tx_watched := [], tx_done := True\<rparr>))"

section \<open>Commit\<close>

definition then_result :: "('a \<Rightarrow> tx_result) \<Rightarrow> 'a kvop \<Rightarrow> tx_result kvop" where
  "then_result f m = andThen m (\<lambda>a. returns (f a))"

fun tx_apply :: "rat \<Rightarrow> tx_op \<Rightarrow> tx_result kvop" where
  "tx_apply now (OpSet key v ttl) = then_result RValue (kv_set now key v ttl)"
| "tx_apply now (OpMset es) = then_result (\<lambda>n. RNum (of_nat n)) (kv_mset now es)"
| "tx_apply now (OpDel key) = then_result RBool (kv_del now key)"
| "tx_apply now (OpClearPrefix p) = then_result (\<lambda>n. RNum (of_nat n)) (kv_clearPrefix p)"
| "tx_apply now (OpExpire key ttl) = then_result RBool (kv_expire now key ttl)"
| "tx_apply now (OpPersist key) = then_result RBool (kv_persist now key)"
| "tx_apply now (OpIncr key d) = then_result RNum (kv_incr now now key d)"
| "tx_apply now (OpDecr key d) = then_result RNum (kv_decr now now key d)"
| "tx_apply now (OpCas key e v ttl) = then_result RBool (kv_cas now key e v ttl)"

fun check_watched :: "rat \<Rightarrow> (string \<times> int) list \<Rightarrow> bool kvop" where
  "check_watched now [] = returns True"
| "check_watched now ((key, version) # ws) =
     andThen (kv_getVersion now key) (\<lambda>v.
     if v \<noteq> version then returns False else check_watched now ws)"

definition apply_all :: "rat \<Rightarrow> tx_op list \<Rightarrow> tx_result list kvop" where
  "apply_all now ops = map_each (tx_apply now) ops"

text \<open>The result \<open>None\<close> is \<open>null\<close>: a watched key has changed and nothing was applied.\<close>

definition tx_exec :: "rat \<Rightarrow> tx_result list option txop" where
  "tx_exec now =
     andThen assertOpen (\<lambda>_ s.
     let ws = tx_watched (snd s); ops = tx_queue (snd s) in
     andThen (on_tx (\<lambda>t. t\<lparr>tx_done := True\<rparr>)) (\<lambda>_.
     andThen (on_cache (check_watched now ws)) (\<lambda>same.
     andThen (on_tx (\<lambda>t. t\<lparr>tx_queue := [], tx_watched := []\<rparr>)) (\<lambda>_.
     if \<not> same then returns None
     else if ops = [] then returns (Some [])
     else andThen (on_cache (atomic (apply_all now ops))) (\<lambda>rs. returns (Some rs))))) s)"

section \<open>Every queued operation keeps the cache sound\<close>

lemma wp_rebase:
  assumes "track {} c0 s" "op_ok s rc Q"
    and "\<And>r s'. track {} c0 s' \<Longrightarrow> kv_opts s' = kv_opts s \<Longrightarrow> Q r s' \<Longrightarrow> R r s'"
  shows "wp c0 rc R"
  using assms(2) evolves_trans [OF evolvesI [OF assms(1)]] track_trans [OF assms(1)] assms(3)
  by (auto simp: wp_def split: prod.splits sum.splits)

lemma steady_same [simp]: "steady now now key c"
  by (simp add: steady_def)

lemma tx_apply_wp:
  assumes t: "track {} c0 s"
    and Q: "\<And>r s'. track {} c0 s' \<Longrightarrow> kv_opts s' = kv_opts s \<Longrightarrow> Q r s'"
  shows "wp c0 (tx_apply now op s) Q"
proof -
  note ok = track_ok [OF t]
  show ?thesis
    by (cases op)
      (auto simp: then_result_def kv_decr_def Q intro!: wp_rebase [OF t kv_set_wp [OF ok]]
        wp_rebase [OF t kv_mset_wp [OF ok]] wp_rebase [OF t kv_del_wp [OF ok]]
        wp_rebase [OF t kv_clearPrefix_wp [OF ok]] wp_rebase [OF t kv_expire_wp [OF ok]]
        wp_rebase [OF t kv_persist_wp [OF ok]] wp_rebase [OF t kv_incr_wp [OF ok]]
        wp_rebase [OF t kv_cas_wp [OF ok]])
qed

lemma apply_all_wp:
  "track {} c0 s \<Longrightarrow>
   (\<And>rs s'. track {} c0 s' \<Longrightarrow> kv_opts s' = kv_opts s \<Longrightarrow> length rs = length ops \<Longrightarrow> Q rs s') \<Longrightarrow>
   wp c0 (apply_all now ops s) Q"
  unfolding apply_all_def
proof (induction ops arbitrary: s Q)
  case (Cons op ops)
  have "wp c0 (map_each (tx_apply now) ops s') (\<lambda>rs s''. Q (r # rs) s'')"
    if "track {} c0 s'" "kv_opts s' = kv_opts s" for r s'
    using that by (intro Cons.IH) (auto intro: Cons.prems(2))
  then show ?case by (auto intro!: tx_apply_wp [OF Cons.prems(1)])
qed simp

section \<open>Checking the watched versions\<close>

lemma removeExpired_ver:
  assumes "kv_ok c" "kv_lookup k c = Some e" "removeExpired k e c = (Inr u, c')"
  shows "kv_generation c < ver k c'"
proof -
  let ?c = "add_expiry (remove_entry k e c)"
  from assms(3) obtain u' c1 where b: "bumpVersion k ?c = (Inr u', c1)" "c' = notifyExpired k c1"
    by (cases "bumpVersion k ?c"; cases "fst (bumpVersion k ?c)") (auto simp: removeExpired_def)
  have "kv_ok ?c" using kv_ok_remove [OF assms(1,2)] by simp
  from bumpVersion_Inr(2,4) [OF b(1) this] b(2) show ?thesis by simp
qed

lemma removeExpired_Inl: "removeExpired k e c = (Inl err, c') \<Longrightarrow> exhausted c'"
proof -
  assume a: "removeExpired k e c = (Inl err, c')"
  let ?c = "add_expiry (remove_entry k e c)"
  from a have "bumpVersion k ?c = (Inl err, c')"
    by (cases "bumpVersion k ?c"; cases "fst (bumpVersion k ?c)") (auto simp: removeExpired_def)
  then show ?thesis using bumpVersion_Inl by blast
qed

text \<open>The version is read without touching a live or absent key; an expired key gets a new one.\<close>

lemma kv_getVersion_Inr:
  assumes "kv_ok c" "kv_getVersion now k c = (Inr v, c')"
  shows "(c' = c \<and> v = ver k c \<and> live now k c = kv_lookup k c) \<or> kv_generation c < v"
proof (cases "kv_lookup k c")
  case None
  with assms(2) show ?thesis
    by (auto simp: kv_getVersion_def check_def andThen_def live_def ver_def split: sum.splits option.splits)
next
  case (Some e)
  show ?thesis
  proof (cases "isExpired e now")
    case False
    with Some assms(2) show ?thesis
      by (auto simp: kv_getVersion_def check_def andThen_def live_def ver_def split: sum.splits option.splits)
  next
    case True
    with Some assms(2) obtain u where r: "removeExpired k e c = (Inr u, c')" "v = ver k c'"
      by (auto simp: kv_getVersion_def check_def andThen_def ver_def split: sum.splits prod.splits)
    then show ?thesis using removeExpired_ver [OF assms(1) Some r(1)] by simp
  qed
qed

lemma kv_getVersion_Inl:
  assumes "kv_getVersion now k c = (Inl e, c')"
  shows "c' = c \<or> exhausted c'"
  using assms removeExpired_Inl
  by (auto simp: kv_getVersion_def check_def andThen_def split: sum.splits option.splits if_splits prod.splits)

definition watch_ok :: "kv \<Rightarrow> (string \<times> int) list \<Rightarrow> bool" where
  "watch_ok c ws \<longleftrightarrow> (\<forall>(k, v) \<in> set ws. v \<le> kv_generation c)"

lemma check_watched_True:
  "kv_ok c \<Longrightarrow> watch_ok c ws \<Longrightarrow> check_watched now ws c = (Inr True, c') \<Longrightarrow>
     c' = c \<and> (\<forall>(k, v) \<in> set ws. ver k c = v \<and> live now k c = kv_lookup k c)"
proof (induction ws arbitrary: c)
  case (Cons w ws)
  obtain k v where w: "w = (k, v)" by (cases w)
  from Cons.prems(3) obtain v' c1 where g: "kv_getVersion now k c = (Inr v', c1)" "v' = v"
    "check_watched now ws c1 = (Inr True, c')"
    by (auto simp: w andThen_def split: sum.splits prod.splits if_splits)
  have "c1 = c \<and> v = ver k c \<and> live now k c = kv_lookup k c"
    using kv_getVersion_Inr [OF Cons.prems(1) g(1)] Cons.prems(2) g(2) by (auto simp: w watch_ok_def)
  with Cons.IH [of c] Cons.prems(1,2) g(3) show ?case by (auto simp: w watch_ok_def)
qed simp

lemma check_watched_Inl:
  "kv_ok c \<Longrightarrow> watch_ok c ws \<Longrightarrow> check_watched now ws c = (Inl e, c') \<Longrightarrow> c' = c \<or> exhausted c'"
proof (induction ws arbitrary: c)
  case (Cons w ws)
  obtain k v where w: "w = (k, v)" by (cases w)
  show ?case
  proof (cases "kv_getVersion now k c")
    case (Pair r c1)
    show ?thesis
    proof (cases r)
      case (Inl e')
      with Pair Cons.prems(3) kv_getVersion_Inl [of now k c e' c1] show ?thesis by (auto simp: w)
    next
      case (Inr v')
      with Pair Cons.prems(3) have v: "v' = v" "check_watched now ws c1 = (Inl e, c')"
        by (auto simp: w split: if_splits)
      have "c1 = c"
        using kv_getVersion_Inr [OF Cons.prems(1)] Pair Inr v(1) Cons.prems(2) by (fastforce simp: w watch_ok_def)
      with Cons.IH [of c] Cons.prems(1,2) v(2) show ?thesis by (auto simp: w watch_ok_def)
    qed
  qed
qed simp

text \<open>The check drops expired entries only.\<close>

lemma live_del: "entries s' = al_del j (entries s) \<Longrightarrow> kv_lookup j s = Some e \<Longrightarrow> isExpired e now \<Longrightarrow>
    live now k s' = live now k s"
  by (auto simp: live_def lookup_entries)

lemma check_watched_wp:
  "track {} c0 s \<Longrightarrow>
   (\<And>b s'. track {} c0 s' \<Longrightarrow> (\<forall>k. live now k s' = live now k s) \<Longrightarrow> Q b s') \<Longrightarrow>
   wp c0 (check_watched now ws s) Q"
proof (induction ws arbitrary: s)
  case (Cons w ws)
  obtain k v where w: "w = (k, v)" by (cases w)
  have get: "wp c0 (kv_getVersion now k s) (\<lambda>_ s'. track {} c0 s' \<and> (\<forall>j. live now j s' = live now j s))"
  proof (cases "kv_lookup k s")
    case None
    with Cons.prems(1) show ?thesis by (auto simp: kv_getVersion_def evolvesI split: sum.splits)
  next
    case (Some e)
    have "isExpired e now \<Longrightarrow>
        wp c0 (removeExpired k e s) (\<lambda>_ s'. track {} c0 s' \<and> (\<forall>j. live now j s' = live now j s))"
      by (rule wp_removeExpired [OF Cons.prems(1) Some]) (use Some in \<open>auto intro: live_del\<close>)
    with Some Cons.prems(1) show ?thesis
      by (auto simp: kv_getVersion_def evolvesI split: sum.splits elim!: wp_mono)
  qed
  have "wp c0 (check_watched now ws s') Q" if "track {} c0 s'" "\<forall>j. live now j s' = live now j s" for s'
    by (rule Cons.IH [OF that(1)]) (simp add: Cons.prems(2) that(2))
  then show ?case using Cons.prems(2) by (auto simp: w intro!: wp_mono [OF get])
qed simp

section \<open>What a commit means\<close>

lemma tx_exec_open:
  assumes "\<not> tx_done t"
  shows "tx_exec now (c, t) =
     (case check_watched now (tx_watched t) c of
        (Inl e, c1) \<Rightarrow> (Inl e, c1, t\<lparr>tx_done := True\<rparr>)
      | (Inr same, c1) \<Rightarrow>
          let t' = t\<lparr>tx_done := True, tx_queue := [], tx_watched := []\<rparr> in
          if \<not> same then (Inr None, c1, t')
          else if tx_queue t = [] then (Inr (Some []), c1, t')
          else (case atomic (apply_all now (tx_queue t)) c1 of
                  (Inl e, c2) \<Rightarrow> (Inl e, c2, t') | (Inr rs, c2) \<Rightarrow> (Inr (Some rs), c2, t')))"
  using assms
  by (auto simp: tx_exec_def assertOpen_def on_tx_def on_cache_def andThen_def Let_def
      split: sum.splits prod.splits)

text \<open>A committed transaction saw every watched key unchanged since it was watched.\<close>

lemma tx_exec_commit:
  assumes "kv_ok c" "watch_ok c (tx_watched t)" "tx_exec now (c, t) = (Inr (Some rs), s')"
  shows "\<not> tx_done t \<and> (\<forall>(k, v) \<in> set (tx_watched t). ver k c = v \<and> live now k c = kv_lookup k c)"
proof -
  have o: "\<not> tx_done t"
    using assms(3) by (cases "tx_done t") (simp_all add: tx_exec_def assertOpen_def)
  obtain r c1 where cw: "check_watched now (tx_watched t) c = (r, c1)" by (rule prod.exhaust)
  note e = assms(3) [unfolded tx_exec_open [OF o] cw]
  have "r = Inr True"
  proof (cases r)
    case (Inr b)
    with e show ?thesis by (cases b) (simp_all add: Let_def)
  qed (use e in simp)
  with cw have "check_watched now (tx_watched t) c = (Inr True, c1)" by simp
  from check_watched_True [OF assms(1,2) this] o show ?thesis by simp
qed

text \<open>A transaction that fails at commit time leaves the cache as it was.\<close>

lemma tx_exec_throws:
  assumes ok: "kv_ok c" "watch_ok c (tx_watched t)" and ex: "tx_exec now (c, t) = (Inl e, c', t')"
    and "\<not> exhausted c'"
  shows "same_data c c'"
proof (cases "tx_done t")
  case True
  with ex show ?thesis by (simp add: tx_exec_def assertOpen_def andThen_def same_data_def)
next
  case False
  have refl: "same_data c c" by (simp add: same_data_def)
  show ?thesis
  proof (cases "check_watched now (tx_watched t) c")
    case (Pair r c1)
    show ?thesis
    proof (cases r)
      case (Inl e')
      with Pair ex have "c' = c1" "check_watched now (tx_watched t) c = (Inl e', c1)"
        by (simp_all add: tx_exec_open [OF False])
      with check_watched_Inl [OF ok] assms(4) refl show ?thesis by blast
    next
      case (Inr same)
      have same: "same"
        using ex Pair Inr by (cases same) (simp_all add: tx_exec_open [OF False] Let_def)
      then have c1: "c1 = c" using check_watched_True [OF ok, of now c1] Pair Inr by simp
      have "atomic (apply_all now (tx_queue t)) c = (Inl e, c')"
        using ex Pair Inr same c1
        by (auto simp: tx_exec_open [OF False] Let_def split: if_splits sum.splits prod.splits)
      moreover have "wp (captured c) (apply_all now (tx_queue t) (captured c)) (\<lambda>_ _. True)"
        by (rule apply_all_wp [OF track_refl [OF captured_ok [OF ok(1)]]]) simp
      ultimately show ?thesis using atomic_throws [OF ok(1)] by blast
    qed
  qed
qed

lemma tx_exec_wp:
  assumes ok: "kv_ok c"
  shows "wp c (case tx_exec now (c, t) of (r, c', t') \<Rightarrow> (r, c')) (\<lambda>r c'. track {} c c' \<and>
     (r = None \<longrightarrow> (\<forall>k. live now k c' = live now k c)) \<and>
     (\<forall>rs. r = Some rs \<longrightarrow> length rs = length (tx_queue t)))"
proof (cases "tx_done t")
  case True
  then show ?thesis using evolves_refl [OF ok] by (simp add: tx_exec_def assertOpen_def andThen_def)
next
  case False
  have t: "track {} c c" using ok by (rule track_refl)
  have body: "wp c (atomic (apply_all now ops) s) (\<lambda>rs c'. track {} c c' \<and> length rs = length ops)"
    if "track {} c s" for s ops
  proof (rule atomic_wp [OF that, where P = "\<lambda>rs _. length rs = length ops"])
    show "wp (captured s) (apply_all now ops (captured s))
        (\<lambda>r s2. track {} (captured s) s2 \<and> length r = length ops)"
      using track_refl [OF captured_ok [OF track_ok [OF that]]] by (rule apply_all_wp) simp
  qed simp
  have chk: "wp c (check_watched now (tx_watched t) c) (\<lambda>_ s'. track {} c s' \<and> (\<forall>k. live now k s' = live now k c))"
    by (rule check_watched_wp [OF t]) simp
  have "(case tx_exec now (c, t) of (r, c', t') \<Rightarrow> (r, c')) =
      andThen (check_watched now (tx_watched t)) (\<lambda>same.
        if \<not> same then returns None else if tx_queue t = [] then returns (Some [])
        else andThen (atomic (apply_all now (tx_queue t))) (\<lambda>rs. returns (Some rs))) c"
    unfolding tx_exec_open [OF False] by (simp add: andThen_def Let_def split: sum.split prod.split)
  then show ?thesis
    by (auto intro!: wp_mono [OF chk] elim!: wp_mono [OF body])
qed

lemma tx_exec_done: "tx_done (snd (snd (tx_exec now (c, t))))"
proof (cases "tx_done t")
  case True
  then show ?thesis by (simp add: tx_exec_def assertOpen_def)
next
  case False
  then show ?thesis by (simp add: tx_exec_open Let_def split: sum.split prod.split)
qed

end
