(* ===== verification/Kv_System.thy ===== *)
theory Kv_System
  imports Kv_Tx
begin

text \<open>
  The cache as a state machine: a step is any public operation with any arguments, whether it
  returns or throws, and a state is reachable when steps lead to it from a new cache. The
  locale \<open>versioned\<close> states what optimistic transactions need of the store; the cache is an
  instance. The last section puts operations together: what a read finds after a write.
\<close>

section \<open>Steps\<close>

inductive kv_step :: "kv \<Rightarrow> kv \<Rightarrow> bool" where
  StGet: "kv_step c (snd (kv_get now key c))"
| StGetVersion: "kv_step c (snd (kv_getVersion now key c))"
| StSet: "kv_step c (snd (kv_set now key v ttl c))"
| StSetAt: "kv_step c (snd (kv_setAt now key v t c))"
| StDel: "kv_step c (snd (kv_del now key c))"
| StClearPrefix: "kv_step c (snd (kv_clearPrefix prefix c))"
| StClearBatch: "kv_step c (snd (clear_batch prefix n visits c))"
| StClear: "kv_step c (snd (kv_clear c))"
| StMset: "kv_step c (snd (kv_mset now es c))"
| StIncr: "steady now later key c \<Longrightarrow> kv_step c (snd (kv_incr now later key d c))"
| StDecr: "steady now later key c \<Longrightarrow> kv_step c (snd (kv_decr now later key d c))"
| StCas: "kv_step c (snd (kv_cas now key expected v ttl c))"
| StDump: "kv_step c (snd (kv_dump now c))"
| StReplace: "kv_step c (snd (kv_replace now rs c))"
| StRestore: "kv_step c (snd (kv_restore now rs c))"
| StTtl: "kv_step c (snd (kv_ttl now key c))"
| StExpiration: "kv_step c (snd (kv_expiration now key c))"
| StExpireAt: "kv_step c (snd (kv_expireAt now key t' c))"
| StExpire: "kv_step c (snd (kv_expire now key t' c))"
| StPersist: "kv_step c (snd (kv_persist now key c))"
| StSweep: "kv_step c (snd (kv_sweep now c))"
| StSweepBudget: "kv_step c (snd (kv_sweepBudget now maxKeys maxMs visits c))"
| StExec: "kv_step c (fst (snd (tx_exec now (c, t))))"
| StStart: "kv_step c (snd (kv_startSweeper interval c))"
| StStop: "kv_step c (kv_stopSweeper c)"
| StResetStats: "kv_step c (kv_resetStats c)"

inductive kv_reach :: "kv \<Rightarrow> bool" where
  RInit: "new_cache now o_in listener = Inr c \<Longrightarrow> kv_reach c"
| RStep: "kv_reach c \<Longrightarrow> kv_step c c' \<Longrightarrow> kv_reach c'"

inductive_cases kv_reachE: "kv_reach c"

lemma op_evolves: "op_ok c rc Q \<Longrightarrow> evolves c (snd rc)"
  by (rule wp_evolves) (auto elim: wp_mono)

lemma track_timer: "track K c0 (s\<lparr>kv_timer := x\<rparr>) = track K c0 s"
proof -
  have "ver k (s\<lparr>kv_timer := x\<rparr>) = ver k s" for k by (simp add: ver_def split: option.splits)
  then show ?thesis by (simp add: track_def noted_def grows_def kv_ok_def same_ctx_def kv_lookup_def)
qed

lemma track_reset: "track K c0 (kv_resetStats s) = track K c0 s"
proof -
  have "ver k (kv_resetStats s) = ver k s" for k by (simp add: ver_def kv_resetStats_def split: option.splits)
  then show ?thesis
    by (simp add: track_def noted_def grows_def kv_ok_def core_ok_def same_ctx_def kv_lookup_def) (simp add: kv_resetStats_def)
qed

text \<open>Every operation keeps the invariant and never changes an entry without its version.\<close>

lemma kv_step_evolves: "kv_step c c' \<Longrightarrow> kv_ok c \<Longrightarrow> evolves c c'"
proof (induction rule: kv_step.induct)
  case (StRestore c now rs)
  then show ?case using track_refl [OF StRestore] by (intro wp_evolves kv_restore_wp) auto
next
  case (StClear c)
  then show ?case using track_refl [OF StClear] by (intro wp_evolves kv_clear_wp) auto
next
  case (StExec c now t)
  have "evolves c (snd (case tx_exec now (c, t) of (r, c', t') \<Rightarrow> (r, c')))"
    by (rule wp_evolves, rule wp_mono [OF tx_exec_wp [OF StExec]]) simp
  then show ?case by (simp split: prod.splits)
next
  case (StDump c now)
  then show ?case by (simp add: kv_dump_def check_def evolves_refl)
next
  case (StStart c interval)
  then show ?case
    by (auto simp: kv_startSweeper_def check_def andThen_def track_timer evolves_refl
        intro!: evolvesI track_refl split: sum.splits)
next
  case (StStop c)
  then show ?case by (simp add: kv_stopSweeper_def track_timer evolvesI track_refl)
next
  case (StResetStats c)
  then show ?case by (simp add: track_reset evolvesI track_refl)
qed (auto simp: kv_decr_def intro!: op_evolves [OF kv_get_wp] op_evolves [OF kv_getVersion_wp]
    op_evolves [OF kv_set_wp] op_evolves [OF kv_setAt_wp] op_evolves [OF kv_del_wp]
    op_evolves [OF kv_clearPrefix_wp] op_evolves [OF clear_batch_wp] op_evolves [OF kv_mset_wp]
    op_evolves [OF kv_incr_wp] op_evolves [OF kv_cas_wp] op_evolves [OF kv_replace_wp]
    op_evolves [OF kv_ttl_wp] op_evolves [OF kv_expiration_wp] op_evolves [OF kv_expireAt_wp]
    op_evolves [OF kv_expire_wp] op_evolves [OF kv_persist_wp] op_evolves [OF kv_sweep_wp]
    op_evolves [OF kv_sweepBudget_wp])

lemma positive_or_Inr: "1 \<le> d \<Longrightarrow> positive_or d v = Inr n \<Longrightarrow> 1 \<le> n"
  by (auto simp: positive_or_def map_sum_def validatePositiveSafeInteger_def validateSafeInteger_Inr
      is_safe_integer_def le_nat_iff le_floor_iff split: option.splits sum.splits)

lemma new_cache_ok:
  assumes "new_cache now o_in listener = Inr c"
  shows "kv_ok c" and "1 \<le> o_maxEntries (kv_opts c)"
proof -
  from assms obtain opts where o: "validateKVOptions now o_in = Inr opts" "kv_opts c = opts"
    "kv_map c = am_new" "kv_expiring c = am_new" "kv_versions c = am_new" "kv_frames c = []"
    "kv_generation c = 0" "cs_bytes (kv_state c) = 0" "cs_absentEpoch (kv_state c) = 0"
    by (auto simp: new_cache_def bind_out_Inr)
  then show "kv_ok c" by (simp add: kv_ok_def core_ok_def am_new_def)
  from o(1) obtain n where "positive_or 10000 (i_maxEntries o_in) = Inr n" "o_maxEntries opts = n"
    by (auto simp: validateKVOptions_def bind_out_Inr)
  with o(2) show "1 \<le> o_maxEntries (kv_opts c)" using positive_or_Inr [of 10000] by auto
qed

lemma evolves_opts: "evolves c c' \<Longrightarrow> kv_opts c' = kv_opts c"
  using evolves_ctx by (simp add: same_ctx_def)

lemma kv_reach_ok: "kv_reach c \<Longrightarrow> kv_ok c \<and> 1 \<le> o_maxEntries (kv_opts c)"
proof (induction rule: kv_reach.induct)
  case (RStep c c')
  with kv_step_evolves [OF RStep.hyps(2)] show ?case
    by (simp add: evolves_ok evolves_opts)
qed (use new_cache_ok in auto)

section \<open>Optimistic concurrency\<close>

text \<open>
  A store whose steps are versioned: a version never goes back, and a step that leaves a
  key's version leaves its value. Then equal versions at the two ends of a run mean that the
  value never changed in between, whatever ran: there is no ABA.
\<close>

locale versioned =
  fixes ok :: "'s \<Rightarrow> bool" and stepped :: "'s \<Rightarrow> 's \<Rightarrow> bool" and version :: "'k \<Rightarrow> 's \<Rightarrow> int"
    and val :: "'k \<Rightarrow> 's \<Rightarrow> 'v option"
  assumes step_ok: "ok s \<Longrightarrow> stepped s s' \<Longrightarrow> ok s'"
    and step_version: "ok s \<Longrightarrow> stepped s s' \<Longrightarrow> version k s \<le> version k s'"
    and step_val: "ok s \<Longrightarrow> stepped s s' \<Longrightarrow> version k s' = version k s \<Longrightarrow> val k s' = val k s"
begin

lemma run_ok: "stepped\<^sup>*\<^sup>* s s' \<Longrightarrow> ok s \<Longrightarrow> ok s' \<and> version k s \<le> version k s'"
  by (induction rule: rtranclp_induct) (auto intro: step_ok order.trans [OF _ step_version])

lemma no_aba:
  assumes "stepped\<^sup>*\<^sup>* s s1" "stepped\<^sup>*\<^sup>* s1 s'" "ok s" "version k s' = version k s"
  shows "val k s1 = val k s"
proof -
  have "version k s1 = version k s"
    using run_ok [OF assms(1,3), of k] run_ok [OF assms(2), of k] assms(4) by force
  with assms(1,3) show ?thesis
  proof (induction rule: rtranclp_induct)
    case (step y z)
    have y: "ok y" "version k s \<le> version k y" using run_ok [OF step.hyps(1) step.prems(1), of k] by auto
    have "version k y \<le> version k z" using step_version [OF y(1) step.hyps(2)] .
    with y step.prems(2) have "version k y = version k s" "version k z = version k y" by linarith+
    with step step_val [OF y(1) step.hyps(2)] show ?case by simp
  qed simp
qed

end

definition live_step :: "kv \<Rightarrow> kv \<Rightarrow> bool" where
  "live_step c c' \<longleftrightarrow> kv_step c c' \<and> \<not> exhausted c'"

lemma live_step_track: "kv_ok c \<Longrightarrow> live_step c c' \<Longrightarrow> track {} c c'"
  using kv_step_evolves by (fastforce simp: live_step_def evolves_def)

interpretation cv: versioned kv_ok live_step ver kv_lookup
proof
  fix s s' k
  assume a: "kv_ok s" "live_step s s'"
  note t = live_step_track [OF a]
  show "kv_ok s'" "ver k s \<le> ver k s'" using t by (simp_all add: track_def)
  show "ver k s' = ver k s \<Longrightarrow> kv_lookup k s' = kv_lookup k s" using t by (simp add: track_def)
qed

section \<open>Reads after writes, and capacity\<close>

definition within_limits :: "kv \<Rightarrow> bool" where
  "within_limits c \<longleftrightarrow>
     kv_size c \<le> o_maxEntries (kv_opts c) \<and> cs_bytes (kv_state c) \<le> int (o_maxBytes (kv_opts c))"

lemma within_limits_fits: "kv_ok c \<Longrightarrow> within_limits c \<longleftrightarrow> fits_list (kv_opts c) (entries c)"
  using over_limit_fits [of c] by (auto simp: within_limits_def over_limit_def)

lemma fits_single:
  "entry_ok opts key e \<Longrightarrow> 1 \<le> o_maxEntries opts \<Longrightarrow> fits_list opts [(key, e)]"
  by (simp add: fits_list_def entry_ok_def)

lemma trim_lookup_new:
  assumes "fits_list opts [(key, e)]"
  shows "map_of (trim opts (al_del key l @ [(key, e)])) key = Some e"
proof -
  obtain i where i: "trim opts (al_del key l @ [(key, e)]) = drop i (al_del key l @ [(key, e)])"
    using trim_drop by blast
  obtain l' where l': "trim opts (al_del key l @ [(key, e)]) = l' @ [(key, e)]"
    using trim_keeps_last [OF assms] by blast
  have "key \<notin> fst ` set (drop i (al_del key l))"
    using set_drop_subset [of i "al_del key l"] by (auto simp: set_al_del)
  moreover have "l' = drop i (al_del key l)"
    using i l' by (cases "i \<le> length (al_del key l)") simp_all
  ultimately show ?thesis by (simp add: l' map_add_def map_of_None_iff [THEN iffD2])
qed

lemma trim_append_last:
  assumes "fits_list opts [p]"
  shows "\<exists>i. trim opts (l @ [p]) = drop i l @ [p] \<and> (\<forall>j < i. \<not> fits_list opts (drop j l @ [p]))"
proof (induction l)
  case Nil
  with assms show ?case by (intro exI [of _ 0]) simp
next
  case (Cons q l)
  show ?case
  proof (cases "fits_list opts ((q # l) @ [p])")
    case True
    then show ?thesis by (intro exI [of _ 0]) simp
  next
    case False
    from Cons obtain i where i: "trim opts (l @ [p]) = drop i l @ [p]"
      "\<forall>j < i. \<not> fits_list opts (drop j l @ [p])" by blast
    have "\<not> fits_list opts (drop j (q # l) @ [p])" if "j < Suc i" for j
      using False i(2) that by (cases j) auto
    with i(1) False show ?thesis by (intro exI [of _ "Suc i"]) auto
  qed
qed

lemma set_result:
  assumes ok: "kv_ok c" and r: "kv_set now key v ttlMs c = (Inr w, c')"
  obtains ttl sz where "resolveTTLMs now key ttlMs c = Inr ttl" "assertValueFits key v c = Inr sz" "w = v"
    "kv_ok c'" "kv_opts c' = kv_opts c"
    "entries c' = (if due (deadline now ttl) now then al_del key (entries c)
       else trim (kv_opts c) (al_del key (entries c) @
         [(key, \<lparr>e_value = v, e_expiresAt = deadline now ttl, e_size = sz\<rparr>)]))"
  using wp_result [OF kv_set_wp [OF ok] r] that by (auto simp: track_def)

lemma set_then_live:
  assumes ok: "kv_ok c" "1 \<le> o_maxEntries (kv_opts c)" and r: "kv_set now key v ttlMs c = (Inr w, c')"
    and ttl: "resolveTTLMs now key ttlMs c = Inr ttl" "\<not> due (deadline now ttl) t" "now \<le> t"
  shows "\<exists>e. live t key c' = Some e \<and> e_value e = v \<and> e_expiresAt e = deadline now ttl"
proof -
  obtain sz where s: "assertValueFits key v c = Inr sz" "kv_ok c'" "kv_opts c' = kv_opts c"
    "entries c' = (if due (deadline now ttl) now then al_del key (entries c)
       else trim (kv_opts c) (al_del key (entries c) @
         [(key, \<lparr>e_value = v, e_expiresAt = deadline now ttl, e_size = sz\<rparr>)]))"
    using set_result [OF ok(1) r] ttl(1) by auto
  have nd: "\<not> due (deadline now ttl) now"
    using ttl(2,3) by (auto simp: due_def split: option.splits)
  let ?e = "\<lparr>e_value = v, e_expiresAt = deadline now ttl, e_size = sz\<rparr>"
  have "fits_list (kv_opts c) [(key, ?e)]"
    using s(1) ok(2) by (auto simp: fits_list_def assertValueFits_Inr)
  then have "kv_lookup key c' = Some ?e"
    using s(4) nd trim_lookup_new by (simp add: lookup_entries)
  moreover have "\<not> isExpired ?e t" using ttl(2) by (simp add: isExpired_def due_def)
  ultimately show ?thesis by (simp add: live_def)
qed

section \<open>Bounded tombstones\<close>

lemma prune_loop_length:
  "distinct_keys (am_list (kv_versions c)) \<Longrightarrow>
   length (am_list (kv_versions (prune_loop ks c))) \<le> o_maxEntries (kv_opts c) + 512 \<or>
   (\<forall>k \<in> set ks. kv_lookup k c = None \<longrightarrow>
      k \<notin> fst ` set (am_list (kv_versions (prune_loop ks c)))) \<and>
   fst ` set (am_list (kv_versions (prune_loop ks c))) \<subseteq> fst ` set (am_list (kv_versions c))"
proof (induction ks c rule: prune_loop.induct)
  case (2 k ks c)
  define c1 where "c1 = (if kv_lookup k c = None
      then c\<lparr>kv_state := (kv_state c)\<lparr>cs_absentEpoch := kv_generation c\<rparr>,
             kv_versions := am_del k (kv_versions c)\<rparr> else c)"
  have c1: "distinct_keys (am_list (kv_versions c1))" "kv_opts c1 = kv_opts c"
    "\<And>j. kv_lookup j c1 = kv_lookup j c"
    "fst ` set (am_list (kv_versions c1)) \<subseteq> fst ` set (am_list (kv_versions c))"
    "kv_lookup k c = None \<Longrightarrow> k \<notin> fst ` set (am_list (kv_versions c1))"
    using "2.prems" by (auto simp: c1_def am_del_def kv_lookup_def set_al_del)
  show ?case
  proof (cases "length (am_list (kv_versions c1)) \<le> o_maxEntries (kv_opts c1) + 512")
    case True
    then show ?thesis using c1(2) by (simp add: c1_def [symmetric] del: c1_def)
  next
    case False
    from "2.IH" [OF c1_def False c1(1)] c1 False show ?thesis
      by (simp add: c1_def [symmetric]) blast
  qed
qed simp

text \<open>
  The generations kept for deleted keys are bounded by the capacity, however many keys come
  and go.
\<close>

lemma bump_versions_bounded:
  assumes ok: "kv_ok c" and r: "bumpVersion key c = (Inr u, c')"
    and sz: "kv_size c \<le> o_maxEntries (kv_opts c) + 1"
  shows "length (am_list (kv_versions c')) \<le> o_maxEntries (kv_opts c) * 2 + 1024"
proof -
  define c1 where "c1 = c\<lparr>kv_generation := kv_generation c + 1,
      kv_versions := am_set key (kv_generation c + 1) (kv_versions c),
      kv_changed := map (add_key key) (kv_changed c)\<rparr>"
  have c': "c' = (if length (am_list (kv_versions c1)) > o_maxEntries (kv_opts c1) * 2 + 1024
      then prune_loop (map fst (am_list (kv_versions c1))) c1 else c1)"
    using r by (auto simp: bumpVersion_def Let_def c1_def split: if_splits)
  have d1: "distinct_keys (am_list (kv_versions c1))"
    using ok by (simp add: c1_def am_set_def kv_ok_def core_ok_def)
  have o: "kv_opts c1 = kv_opts c" "entries c1 = entries c" by (simp_all add: c1_def)
  let ?p = "prune_loop (map fst (am_list (kv_versions c1))) c1"
  have dp: "distinct_keys (am_list (kv_versions c'))"
    using bumpVersion_Inr(1) [OF r ok] by (simp add: kv_ok_def core_ok_def)
  show ?thesis
  proof (cases "length (am_list (kv_versions c1)) > o_maxEntries (kv_opts c1) * 2 + 1024")
    case False
    with c' o show ?thesis by simp
  next
    case True
    then have p: "c' = ?p" using c' by simp
    consider (small) "length (am_list (kv_versions ?p)) \<le> o_maxEntries (kv_opts c) + 512"
      | (live) "\<forall>k \<in> fst ` set (am_list (kv_versions c1)). kv_lookup k c1 = None \<longrightarrow>
            k \<notin> fst ` set (am_list (kv_versions ?p))"
          "fst ` set (am_list (kv_versions ?p)) \<subseteq> fst ` set (am_list (kv_versions c1))"
      using prune_loop_length [OF d1, of "map fst (am_list (kv_versions c1))"] o(1) by auto
    then show ?thesis
    proof cases
      case live
      then have "fst ` set (am_list (kv_versions c')) \<subseteq> fst ` set (entries c)"
        unfolding p lookup_entries o map_of_None_iff by blast
      then have "card (fst ` set (am_list (kv_versions c'))) \<le> card (fst ` set (entries c))"
        by (intro card_mono) auto
      also have "\<dots> \<le> length (entries c)"
        by (metis card_length length_map list.set_map)
      finally have "length (am_list (kv_versions c')) \<le> kv_size c"
        using dp by (metis distinct_card distinct_keys_def kv_size_def length_map list.set_map)
      with sz show ?thesis by simp
    qed (use p in simp)
  qed
qed

text \<open>
  The second clock reading of \<open>incr\<close>: an entry that expires between the two readings is
  overwritten without giving its bytes back.
\<close>

definition small_options :: kv_options where
  "small_options = \<lparr>o_maxEntries = 8, o_maxBytes = 100, o_maxKeyBytes = 10, o_maxValueBytes = 50,
     o_defaultTTLMs = None, o_namespaceTTLMs = [], o_sweepIntervalMs = 0\<rparr>"

definition small_cache :: "(string \<times> entry) list \<Rightarrow> (string \<times> rat) list \<Rightarrow> (string \<times> int) list \<Rightarrow> int \<Rightarrow> int \<Rightarrow> kv" where
  "small_cache ml el vl n gen =
     \<lparr>kv_map = \<lparr>am_list = ml, am_frames = []\<rparr>, kv_expiring = \<lparr>am_list = el, am_frames = []\<rparr>,
      kv_versions = \<lparr>am_list = vl, am_frames = []\<rparr>,
      kv_state = \<lparr>cs_bytes = n, cs_hits = 0, cs_misses = 0, cs_evictions = 0, cs_expiries = 0,
                  cs_absentEpoch = 0\<rparr>,
      kv_generation = gen, kv_frames = [], kv_changed = [], kv_listener = False, kv_events = [],
      kv_lag = 0, kv_timer = None, kv_opts = small_options\<rparr>"

definition counter_cache :: kv where
  "counter_cache =
     small_cache [(''k'', \<lparr>e_value = JNum 1, e_expiresAt = Some 10, e_size = 2\<rparr>)]
       [(''k'', 10)] [(''k'', 1)] 2 1"

lemma js_one_plus_one: "js_add 1 1 = Fin 2"
  using js_add_safe [of 1 1] by simp

lemma counter_cache_ok: "kv_ok counter_cache"
  by (simp add: kv_ok_def core_ok_def counter_cache_def small_cache_def small_options_def entry_ok_def
      distinct_keys_def al_sum_def valueByteLength_def num_text_1 MAX_JSON_NODES_def)

definition leaked_cache :: kv where
  "leaked_cache =
     small_cache [(''k'', \<lparr>e_value = JNum 2, e_expiresAt = Some 10, e_size = 2\<rparr>)]
       [(''k'', 10)] [(''k'', 2)] 4 2"

lemma counter_store:
  "incr_store 10 ''k'' \<lparr>e_value = JNum 2, e_expiresAt = Some 10, e_size = 2\<rparr> counter_cache =
     (Inr (), leaked_cache)"
proof -
  have p: "put_entry ''k'' \<lparr>e_value = JNum 2, e_expiresAt = Some 10, e_size = 2\<rparr> counter_cache =
      small_cache [(''k'', \<lparr>e_value = JNum 2, e_expiresAt = Some 10, e_size = 2\<rparr>)]
        [(''k'', 10)] [(''k'', 1)] 4 1"
    by (simp add: counter_cache_def small_cache_def prim_defs)
  have b: "bumpVersion ''k'' (small_cache [(''k'', \<lparr>e_value = JNum 2, e_expiresAt = Some 10, e_size = 2\<rparr>)]
        [(''k'', 10)] [(''k'', 1)] 4 1) = (Inr (), leaked_cache)"
    by (simp add: bumpVersion_def small_cache_def leaked_cache_def max_safe_def am_set_def small_options_def Let_def)
  have e: "evictIfNeeded 10 leaked_cache = (Inr (), leaked_cache)"
    by (simp add: evictIfNeeded_def kv_size_def leaked_cache_def small_cache_def small_options_def over_limit_def)
  have "kv_lookup ''k'' counter_cache = Some \<lparr>e_value = JNum 1, e_expiresAt = Some 10, e_size = 2\<rparr>"
    by (simp add: kv_lookup_def counter_cache_def small_cache_def)
  then show ?thesis by (simp add: incr_store_def isExpired_def p b e)
qed

lemma counter_leak: "kv_incr 9 10 ''k'' (Fin 1) counter_cache = (Inr 2, leaked_cache)"
proof -
  have k: "assertKeyFits ''k'' counter_cache = Inr ()"
    by (simp add: assertKeyFits_def counter_cache_def small_cache_def small_options_def)
  have b: "incr_base 9 ''k'' counter_cache = (Inr (1, Some 10), counter_cache)"
    by (simp add: incr_base_def kv_lookup_def counter_cache_def small_cache_def isExpired_def)
  have v: "assertValueFits ''k'' (JNum 2) counter_cache = Inr 2"
    using k by (simp add: assertValueFits_def assertEntryFits_def valueByteLength_def num_text_2
        counter_cache_def small_cache_def small_options_def)
  show ?thesis
    by (simp add: kv_incr_def check_def andThen_def k b v js_one_plus_one counter_store)
qed

lemma counter_incr: "\<exists>r c'. kv_incr 9 9 ''k'' (Fin 1) counter_cache = (Inr r, c')"
proof -
  have k: "assertKeyFits ''k'' counter_cache = Inr ()"
    by (simp add: assertKeyFits_def counter_cache_def small_cache_def small_options_def)
  have b: "incr_base 9 ''k'' counter_cache = (Inr (1, Some 10), counter_cache)"
    by (simp add: incr_base_def kv_lookup_def counter_cache_def small_cache_def isExpired_def)
  have v: "assertValueFits ''k'' (JNum 2) counter_cache = Inr 2"
    using k by (simp add: assertValueFits_def assertEntryFits_def valueByteLength_def num_text_2
        counter_cache_def small_cache_def small_options_def)
  let ?e = "\<lparr>e_value = JNum 2, e_expiresAt = Some 10, e_size = 2\<rparr>"
  let ?c = "small_cache [(''k'', ?e)] [(''k'', 10)] [(''k'', 1)] 2 1"
  let ?d = "small_cache [(''k'', ?e)] [(''k'', 10)] [(''k'', 2)] 2 2"
  have l: "kv_lookup ''k'' counter_cache = Some \<lparr>e_value = JNum 1, e_expiresAt = Some 10, e_size = 2\<rparr>"
    by (simp add: kv_lookup_def counter_cache_def small_cache_def)
  have p: "put_entry ''k'' ?e (remove_entry ''k'' \<lparr>e_value = JNum 1, e_expiresAt = Some 10, e_size = 2\<rparr> counter_cache) = ?c"
    by (simp add: counter_cache_def small_cache_def prim_defs kv_lookup_def)
  have bu: "bumpVersion ''k'' ?c = (Inr (), ?d)"
    by (simp add: bumpVersion_def small_cache_def max_safe_def am_set_def small_options_def Let_def)
  have e: "evictIfNeeded 9 ?d = (Inr (), ?d)"
    by (simp add: evictIfNeeded_def kv_size_def small_cache_def small_options_def over_limit_def)
  have "incr_store 9 ''k'' ?e counter_cache = (Inr (), ?d)"
    by (simp add: incr_store_def l isExpired_def p bu e)
  then show ?thesis
    by (simp add: kv_incr_def check_def andThen_def k b v js_one_plus_one)
qed

lemma leaked_cache_bad: "\<not> kv_ok leaked_cache"
  by (simp add: kv_ok_def core_ok_def leaked_cache_def small_cache_def)

section \<open>A run of the model\<close>

text \<open>A small cache, a write into it and a committed transaction, evaluated step by step.\<close>

definition empty_cache :: kv where
  "empty_cache = small_cache [] [] [] 0 0"

definition one_cache :: kv where
  "one_cache =
     small_cache [(''a'', \<lparr>e_value = JNull, e_expiresAt = None, e_size = 5\<rparr>)] [] [(''a'', 1)] 5 1"

lemma empty_cache_ok: "kv_ok empty_cache"
  by (simp add: kv_ok_def core_ok_def empty_cache_def small_cache_def)

lemma small_options_entries: "1 \<le> o_maxEntries (kv_opts (small_cache ml el vl n g))"
  by (simp add: small_cache_def small_options_def)

lemma small_guards:
  "assertKeyFits ''a'' (small_cache ml el vl n g) = Inr ()"
  "assertValueFits ''a'' JNull (small_cache ml el vl n g) = Inr 5"
  "cloneJsonValue (o_maxValueBytes (kv_opts (small_cache ml el vl n g))) JNull = Inr JNull"
  "resolveTTLMs now ''a'' None (small_cache ml el vl n g) = Inr None"
  by (simp_all add: assertKeyFits_def assertValueFits_def assertEntryFits_def valueByteLength_def
      small_cache_def small_options_def cloneJsonValue_Inr MAX_JSON_NODES_def resolveTTLMs_def
      namespaceOf_def)

lemma one_cache_set: "kv_set 0 ''a'' JNull None empty_cache = (Inr JNull, one_cache)"
proof -
  let ?e = "\<lparr>e_value = JNull, e_expiresAt = None, e_size = 5\<rparr>"
  have put: "put_entry ''a'' ?e empty_cache = small_cache [(''a'', ?e)] [] [] 5 0"
    by (simp add: empty_cache_def small_cache_def prim_defs)
  have bump: "bumpVersion ''a'' (small_cache [(''a'', ?e)] [] [] 5 0) = (Inr (), one_cache)"
    by (simp add: bumpVersion_def small_cache_def one_cache_def max_safe_def am_set_def small_options_def Let_def)
  have evict: "evictIfNeeded 0 one_cache = (Inr (), one_cache)"
    by (simp add: evictIfNeeded_def kv_size_def one_cache_def small_cache_def small_options_def over_limit_def)
  have none: "kv_lookup ''a'' empty_cache = None"
    by (simp add: kv_lookup_def empty_cache_def small_cache_def)
  have g: "assertKeyFits ''a'' empty_cache = Inr ()" "assertValueFits ''a'' JNull empty_cache = Inr 5"
    "cloneJsonValue (o_maxValueBytes (kv_opts empty_cache)) JNull = Inr JNull"
    "resolveTTLMs 0 ''a'' None empty_cache = Inr None"
    by (simp_all only: empty_cache_def small_guards)
  have "setOwned 0 ''a'' JNull None JNull empty_cache = (Inr JNull, one_cache)"
    by (simp add: setOwned_def check_def g none put bump evict)
  then show ?thesis
    by (simp add: kv_set_def check_def g deadline_def)
qed

lemma one_cache_ok: "kv_ok one_cache"
proof -
  have "evolves empty_cache (snd (kv_set 0 ''a'' JNull None empty_cache))"
    using kv_step_evolves [OF StSet empty_cache_ok] .
  then show ?thesis by (simp add: one_cache_set evolves_ok)
qed

lemma one_cache_step: "live_step empty_cache one_cache"
proof -
  have "kv_step empty_cache (snd (kv_set 0 ''a'' JNull None empty_cache))" by (rule StSet)
  then show ?thesis
    by (simp add: one_cache_set live_step_def exhausted_def one_cache_def small_cache_def max_safe_def)
qed

end
