(* ===== verification/Utf8.thy ===== *)
theory Utf8
  imports Js_Text
begin

text \<open>
  Well-formed UTF-8, as the decoder \<open>TextDecoder("utf-8", {fatal: true, ignoreBOM: true})\<close>
  accepts it: no overlong form, no surrogate, nothing above U+10FFFF. Decoding well-formed
  bytes and encoding them again is the identity, so the decoded text is the bytes themselves.
\<close>

definition continuation :: "char \<Rightarrow> bool" where
  "continuation c \<longleftrightarrow> 128 \<le> byte c \<and> byte c < 192"

fun valid_utf8 :: "string \<Rightarrow> bool" where
  "valid_utf8 [] = True"
| "valid_utf8 (c # s) =
     (if byte c < 128 then valid_utf8 s
      else if 194 \<le> byte c \<and> byte c < 224 then
        (case s of d # s' \<Rightarrow> continuation d \<and> valid_utf8 s' | _ \<Rightarrow> False)
      else if 224 \<le> byte c \<and> byte c < 240 then
        (case s of
           d # e # s' \<Rightarrow>
             continuation d \<and> continuation e \<and> (byte c = 224 \<longrightarrow> 160 \<le> byte d) \<and> (byte c = 237 \<longrightarrow> byte d < 160) \<and>
             valid_utf8 s'
         | _ \<Rightarrow> False)
      else if 240 \<le> byte c \<and> byte c < 245 then
        (case s of
           d # e # f # s' \<Rightarrow>
             continuation d \<and> continuation e \<and> continuation f \<and> (byte c = 240 \<longrightarrow> 144 \<le> byte d) \<and>
             (byte c = 244 \<longrightarrow> byte d < 144) \<and> valid_utf8 s'
         | _ \<Rightarrow> False)
      else False)"

lemma ascii_valid: "list_all (\<lambda>c. byte c < 128) s \<Longrightarrow> valid_utf8 s"
  by (induction s) auto

lemma continuation_high: "continuation c \<Longrightarrow> 128 \<le> byte c"
  by (simp add: continuation_def)

text \<open>The forms of a text that starts with a well-formed character.\<close>

lemma valid_utf8_cases:
  assumes "valid_utf8 (c # s)"
  obtains (one) "byte c < 128" "valid_utf8 s"
    | (two) d r where "194 \<le> byte c" "byte c < 224" "s = d # r" "continuation d" "valid_utf8 r"
    | (three) d e r where "224 \<le> byte c" "byte c < 240" "s = d # e # r" "continuation d" "continuation e"
        "byte c = 224 \<longrightarrow> 160 \<le> byte d" "byte c = 237 \<longrightarrow> byte d < 160" "valid_utf8 r"
    | (four) d e f r where "240 \<le> byte c" "byte c < 245" "s = d # e # f # r" "continuation d" "continuation e" "continuation f"
        "byte c = 240 \<longrightarrow> 144 \<le> byte d" "byte c = 244 \<longrightarrow> byte d < 144" "valid_utf8 r"
proof -
  consider "byte c < 128" | "194 \<le> byte c" "byte c < 224" | "224 \<le> byte c" "byte c < 240" | "240 \<le> byte c" "byte c < 245"
    using assms by (simp split: if_splits)
  then show ?thesis
  proof cases
    case 1
    with assms one show ?thesis by simp
  next
    case 2
    with assms show ?thesis by (auto split: list.splits intro: two)
  next
    case 3
    with assms show ?thesis by (auto split: list.splits intro: three)
  next
    case 4
    with assms show ?thesis by (auto split: list.splits intro: four)
  qed
qed

lemma valid_utf8_append: "valid_utf8 a \<Longrightarrow> valid_utf8 (a @ b) = valid_utf8 b"
proof (induction a rule: length_induct)
  case (1 a)
  then have ih: "valid_utf8 s \<Longrightarrow> valid_utf8 (s @ b) = valid_utf8 b" if "length s < length a" for s using that by blast
  show ?case
  proof (cases a)
    case (Cons c s)
    from "1.prems" [unfolded Cons] show ?thesis
      by (cases rule: valid_utf8_cases) (use ih Cons in auto)
  qed simp
qed

lemma valid_utf8_concat: "\<forall>s \<in> set ss. valid_utf8 s \<Longrightarrow> valid_utf8 (concat ss)"
  by (induction ss) (auto simp: valid_utf8_append)

text \<open>Replacing ASCII characters by ASCII texts keeps a text well-formed.\<close>

lemma valid_concat_map:
  assumes "\<And>c. 128 \<le> byte c \<Longrightarrow> f c = [c]" "\<And>c. byte c < 128 \<Longrightarrow> list_all (\<lambda>d. byte d < 128) (f c)"
  shows "valid_utf8 m \<Longrightarrow> valid_utf8 (concat (map f m))"
proof (induction m rule: length_induct)
  case (1 m)
  then have ih: "valid_utf8 s \<Longrightarrow> valid_utf8 (concat (map f s))" if "length s < length m" for s using that by blast
  have cont: "continuation d \<Longrightarrow> f d = [d]" for d using assms(1) continuation_high by blast
  show ?case
  proof (cases m)
    case (Cons c s)
    from "1.prems" [unfolded Cons] show ?thesis
    proof (cases rule: valid_utf8_cases)
      case one
      with ih [of s] Cons ascii_valid [OF assms(2) [of c]] show ?thesis by (simp add: valid_utf8_append)
    next
      case (two d r)
      with ih [of r] Cons assms(1) [of c] cont show ?thesis by simp
    next
      case (three d e r)
      with ih [of r] Cons assms(1) [of c] cont show ?thesis by simp
    next
      case (four d e g r)
      with ih [of r] Cons assms(1) [of c] cont show ?thesis by simp
    qed
  qed simp
qed

text \<open>The decoder, with the error it throws.\<close>

definition utf8_decode :: "string \<Rightarrow> string outcome" where
  "utf8_decode s = (if valid_utf8 s then Inr s else Inl (PlainError ''The encoded data was not valid''))"

end
