(* ===== verification/Resp_Codec.thy ===== *)
theory Resp_Codec
  imports Utf8 Js_Decimal Prelude
begin

text \<open>
  The wire protocol's values and their encoding (\<open>src/src/protocol.ts\<close>): the RESP2 subset, its
  limits, the size check before encoding, and the arguments of a request. A \<open>Buffer\<close> is a
  string of bytes. The arguments of a command are given by their texts.
\<close>

section \<open>Replies\<close>

text \<open>An item of an array may be \<open>null\<close>, which is encoded as a null bulk string.\<close>

datatype reply =
    RSimple string
  | RError string
  | RInt jsnum
  | RBulk "string option"
  | RArray "reply option list"
  | RNil

record resp_limits =
  rl_maxFrameBytes :: nat
  rl_maxArguments :: nat
  rl_maxBulkBytes :: nat
  rl_maxDepth :: nat
  rl_maxBufferedBytes :: nat

definition DEFAULT_RESP_LIMITS :: resp_limits where
  "DEFAULT_RESP_LIMITS = \<lparr>rl_maxFrameBytes = 8 * 1024 * 1024, rl_maxArguments = 1024, rl_maxBulkBytes = 4 * 1024 * 1024,
     rl_maxDepth = 32, rl_maxBufferedBytes = 8 * 1024 * 1024\<rparr>"

definition protocol_error :: "string \<Rightarrow> jserr" where
  "protocol_error m = DbError PROTOCOL_ERROR m"

definition len_text :: "nat \<Rightarrow> string" where
  "len_text n = nat_text (int n)"

definition line_break :: "char \<Rightarrow> bool" where
  "line_break c \<longleftrightarrow> byte c = 13 \<or> byte c = 10"

section \<open>Sizes\<close>

definition within_frame :: "nat \<Rightarrow> nat outcome" where
  "within_frame n =
     (if n > rl_maxFrameBytes DEFAULT_RESP_LIMITS then Inl (protocol_error ''RESP frame exceeds limit'') else Inr n)"

fun replyByteLength :: "reply option \<Rightarrow> nat \<Rightarrow> nat outcome"
  and items_bytes :: "reply option list \<Rightarrow> nat \<Rightarrow> nat \<Rightarrow> nat outcome" where
  "replyByteLength None d = Inr 5"
| "replyByteLength (Some RNil) d = Inr 5"
| "replyByteLength (Some (RBulk None)) d = Inr 5"
| "replyByteLength (Some (RBulk (Some s))) d =
     (if length s > rl_maxBulkBytes DEFAULT_RESP_LIMITS then Inl (protocol_error ''RESP bulk length exceeds limit'')
      else within_frame (length s + length (len_text (length s)) + 5))"
| "replyByteLength (Some (RArray rs)) d =
     (if d \<ge> rl_maxDepth DEFAULT_RESP_LIMITS \<or> length rs > rl_maxArguments DEFAULT_RESP_LIMITS
      then Inl (protocol_error ''RESP array/depth exceeds limit'')
      else chain (items_bytes rs (Suc d) (length (len_text (length rs)) + 3)) within_frame)"
| "replyByteLength (Some (RInt n)) d =
     (case n of
        Fin x \<Rightarrow>
          if is_safe_integer n then within_frame (length (num_text x) + 3)
          else Inl (protocol_error ''RESP integers must be safe integers'')
      | _ \<Rightarrow> Inl (protocol_error ''RESP integers must be safe integers''))"
| "replyByteLength (Some (RSimple s)) d =
     (if list_ex line_break s then Inl (protocol_error ''RESP simple strings cannot contain CR/LF'')
      else within_frame (length s + 3))"
| "replyByteLength (Some (RError s)) d = within_frame (length s + 3)"
| "items_bytes [] d n = Inr n"
| "items_bytes (r # rs) d n = chain (replyByteLength r d) (\<lambda>k. chain (within_frame (n + k)) (items_bytes rs d))"

section \<open>Encoding\<close>

definition CRLF :: string where
  "CRLF = [CHR 0x0D, CHR 0x0A]"

definition encodeSimple :: "string \<Rightarrow> string outcome" where
  "encodeSimple s = chain (replyByteLength (Some (RSimple s)) 0) (\<lambda>_. Inr (CHR ''+'' # s @ CRLF))"

definition clean_line :: "string \<Rightarrow> string" where
  "clean_line s = map (\<lambda>c. if line_break c then CHR '' '' else c) s"

definition encodeError :: "string \<Rightarrow> string" where
  "encodeError m = CHR ''-'' # clean_line m @ CRLF"

definition encodeInt :: "jsnum \<Rightarrow> string outcome" where
  "encodeInt n =
     (case n of
        Fin x \<Rightarrow>
          if is_safe_integer n then Inr (CHR '':'' # num_text x @ CRLF)
          else Inl (protocol_error ''RESP integers must be safe integers'')
      | _ \<Rightarrow> Inl (protocol_error ''RESP integers must be safe integers''))"

definition encodeBulk :: "string option \<Rightarrow> string" where
  "encodeBulk v =
     (case v of
        None \<Rightarrow> CHR ''$'' # ''-1'' @ CRLF
      | Some s \<Rightarrow> CHR ''$'' # len_text (length s) @ CRLF @ s @ CRLF)"

fun encoded :: "reply option \<Rightarrow> string outcome"
  and encoded_items :: "reply option list \<Rightarrow> string outcome" where
  "encoded None = Inr (encodeBulk None)"
| "encoded (Some (RSimple s)) = encodeSimple s"
| "encoded (Some (RError m)) = Inr (encodeError m)"
| "encoded (Some (RInt n)) = encodeInt n"
| "encoded (Some (RBulk v)) = Inr (encodeBulk v)"
| "encoded (Some RNil) = Inr (CHR ''*'' # ''-1'' @ CRLF)"
| "encoded (Some (RArray rs)) = chain (encoded_items rs) (\<lambda>s. Inr (CHR ''*'' # len_text (length rs) @ CRLF @ s))"
| "encoded_items [] = Inr []"
| "encoded_items (r # rs) = chain (encoded r) (\<lambda>a. chain (encoded_items rs) (\<lambda>b. Inr (a @ b)))"

definition encodeReply :: "reply option \<Rightarrow> string outcome" where
  "encodeReply r = chain (replyByteLength r 0) (\<lambda>_. encoded r)"

definition encodeArray :: "reply option list \<Rightarrow> string outcome" where
  "encodeArray rs = encodeReply (Some (RArray rs))"

definition command_reply :: "string list \<Rightarrow> reply" where
  "command_reply args = RArray (map (\<lambda>a. Some (RBulk (Some a))) args)"

definition commandByteLength :: "string list \<Rightarrow> nat outcome" where
  "commandByteLength args = replyByteLength (Some (command_reply args)) 0"

definition encodeCommand :: "string list \<Rightarrow> string outcome" where
  "encodeCommand args = encodeReply (Some (command_reply args))"

section \<open>Requests\<close>

fun bulk_texts :: "reply option list \<Rightarrow> string list outcome" where
  "bulk_texts [] = Inr []"
| "bulk_texts (r # rs) =
     (case r of
        Some (RBulk (Some s)) \<Rightarrow> chain (bulk_texts rs) (\<lambda>ss. Inr (s # ss))
      | _ \<Rightarrow> Inl (protocol_error ''protocol error: command args must be bulk strings''))"

definition requestArgv :: "reply \<Rightarrow> string list outcome" where
  "requestArgv r =
     (case r of
        RArray rs \<Rightarrow> chain (bulk_texts rs) (\<lambda>argv.
          if argv = [] then Inl (protocol_error ''protocol error: empty command'') else Inr argv)
      | _ \<Rightarrow> Inl (protocol_error ''protocol error: expected an array command''))"

lemma bulk_texts_command [simp]: "bulk_texts (map (\<lambda>a. Some (RBulk (Some a))) args) = Inr args"
  by (induction args) auto

end
