(* ===== verification/Resp_Reader.thy ===== *)
theory Resp_Reader
  imports Resp_Codec
begin

text \<open>
  The resumable decoder (\<open>src/src/resp-reader.ts\<close>): the reader's state between chunks, \<open>emit\<close>,
  \<open>header\<close> and \<open>push\<close>. The bytes of the current line are the list \<open>rd_line\<close>; its buffer is
  represented by its capacity. An open bulk string has its length, the bytes read and the
  bytes of its terminator seen. The innermost open array is the head of \<open>rd_arrays\<close>. After an
  error the code resets the reader, so the loop returns no state with an error.
\<close>

record bulk_state =
  bk_size :: nat
  bk_read :: string
  bk_terminator :: nat

record reader =
  rd_frameBytes :: nat
  rd_prefix :: "nat option"
  rd_line :: string
  rd_capacity :: nat
  rd_lineCR :: bool
  rd_bulk :: "bulk_state option"
  rd_arrays :: "(nat \<times> reply list) list"

definition new_reader :: reader where
  "new_reader = \<lparr>rd_frameBytes = 0, rd_prefix = None, rd_line = [], rd_capacity = 128, rd_lineCR = False,
     rd_bulk = None, rd_arrays = []\<rparr>"

text \<open>The options of \<open>RespDecoder\<close>: one that is missing has its default, and each must be a safe integer from 1.\<close>

record resp_options =
  ro_maxFrameBytes :: "jsnum option"
  ro_maxArguments :: "jsnum option"
  ro_maxBulkBytes :: "jsnum option"
  ro_maxDepth :: "jsnum option"
  ro_maxBufferedBytes :: "jsnum option"

definition resp_limit :: "jsnum option \<Rightarrow> nat \<Rightarrow> nat outcome" where
  "resp_limit v d =
     (case v of
        None \<Rightarrow> Inr d
      | Some n \<Rightarrow>
          (case validatePositiveSafeInteger n None of
             Inl _ \<Rightarrow> Inl (protocol_error ''must be a safe integer >= 1'')
           | Inr x \<Rightarrow> Inr (nat \<lfloor>x\<rfloor>)))"

definition new_decoder :: "resp_options \<Rightarrow> (resp_limits \<times> reader) outcome" where
  "new_decoder opts =
     chain (resp_limit (ro_maxFrameBytes opts) (rl_maxFrameBytes DEFAULT_RESP_LIMITS)) (\<lambda>f.
     chain (resp_limit (ro_maxArguments opts) (rl_maxArguments DEFAULT_RESP_LIMITS)) (\<lambda>a.
     chain (resp_limit (ro_maxBulkBytes opts) (rl_maxBulkBytes DEFAULT_RESP_LIMITS)) (\<lambda>b.
     chain (resp_limit (ro_maxDepth opts) (rl_maxDepth DEFAULT_RESP_LIMITS)) (\<lambda>d.
     chain (resp_limit (ro_maxBufferedBytes opts) (rl_maxBufferedBytes DEFAULT_RESP_LIMITS)) (\<lambda>q.
     Inr (\<lparr>rl_maxFrameBytes = f, rl_maxArguments = a, rl_maxBulkBytes = b, rl_maxDepth = d,
           rl_maxBufferedBytes = q\<rparr>, new_reader))))))"

definition bufferedBytes :: "reader \<Rightarrow> nat" where
  "bufferedBytes s = rd_frameBytes s"

definition retainedBytes :: "reader \<Rightarrow> nat" where
  "retainedBytes s =
     rd_frameBytes s + (case rd_bulk s of None \<Rightarrow> 0 | Some b \<Rightarrow> bk_size b - length (bk_read b)) + rd_capacity s"

definition reader_reset :: "reader \<Rightarrow> reader" where
  "reader_reset s = new_reader"

text \<open>A step returns the replies it completes.\<close>

type_synonym 'a rstep = "(reply list \<times> 'a) outcome"

definition count_bytes :: "resp_limits \<Rightarrow> nat \<Rightarrow> reader \<Rightarrow> reader outcome" where
  "count_bytes l n s =
     (if rd_frameBytes s + n > rl_maxFrameBytes l then Inl (PlainError ''RESP frame exceeds the limit'')
      else Inr (s\<lparr>rd_frameBytes := rd_frameBytes s + n\<rparr>))"

text \<open>\<open>emit\<close>: the value completes the open arrays it is the last item of.\<close>

fun emit_loop :: "(nat \<times> reply list) list \<Rightarrow> reply \<Rightarrow> reply list \<times> (nat \<times> reply list) list" where
  "emit_loop [] v = ([v], [])"
| "emit_loop ((k, vs) # as) v =
     (if k - 1 > 0 then ([], (k - 1, vs @ [v]) # as) else emit_loop as (RArray (map Some (vs @ [v]))))"

definition emit :: "reply \<Rightarrow> reader \<Rightarrow> reply list \<times> reader" where
  "emit v s =
     (let (out, as) = emit_loop (rd_arrays s) v in
      (out, s\<lparr>rd_arrays := as, rd_frameBytes := (if out = [] then rd_frameBytes s else 0)\<rparr>))"

definition bulk_header :: "resp_limits \<Rightarrow> int \<Rightarrow> reader \<Rightarrow> reader rstep" where
  "bulk_header l n s =
     (if n = - 1 then Inr (emit (RBulk None) s)
      else if n < 0 then Inl (PlainError ''malformed RESP bulk length'')
      else if n > int (rl_maxBulkBytes l) then Inl (PlainError ''RESP bulk length exceeds the limit'')
      else if int (rd_frameBytes s) + n + 2 > int (rl_maxFrameBytes l) then Inl (PlainError ''RESP frame exceeds the limit'')
      else if int (rd_frameBytes s) + n + 2 > int (rl_maxBufferedBytes l)
      then Inl (PlainError ''RESP buffered bytes exceed the limit'')
      else Inr ([], s\<lparr>rd_bulk := Some \<lparr>bk_size = nat n, bk_read = [], bk_terminator = 0\<rparr>\<rparr>))"

definition array_header :: "resp_limits \<Rightarrow> int \<Rightarrow> reader \<Rightarrow> reader rstep" where
  "array_header l n s =
     (if length (rd_arrays s) \<ge> rl_maxDepth l then Inl (PlainError ''RESP nesting exceeds the depth'')
      else if n < - 1 then Inl (PlainError ''malformed RESP array length'')
      else if n > int (rl_maxArguments l) then Inl (PlainError ''RESP array length exceeds the limit'')
      else if n = - 1 then Inr (emit RNil s)
      else if n = 0 then Inr (emit (RArray []) s)
      else Inr ([], s\<lparr>rd_arrays := (nat n, []) # rd_arrays s\<rparr>))"

definition header_value :: "resp_limits \<Rightarrow> nat option \<Rightarrow> string \<Rightarrow> reader \<Rightarrow> reader rstep" where
  "header_value l prefix txt s =
     (if prefix = Some 43 then Inr (emit (RSimple txt) s)
      else if prefix = Some 45 then Inr (emit (RError txt) s)
      else (case plain_integer txt of
              None \<Rightarrow> Inl (PlainError ''malformed RESP integer/length'')
            | Some i \<Rightarrow>
                if \<not> is_safe_integer (to_double (of_int i)) then Inl (PlainError ''malformed RESP integer/length'')
                else if prefix = Some 58 then Inr (emit (RInt (to_double (of_int i))) s)
                else if prefix = Some 36 then bulk_header l i s
                else array_header l i s))"

definition header :: "resp_limits \<Rightarrow> reader \<Rightarrow> reader rstep" where
  "header l s =
     chain (utf8_decode (rd_line s)) (\<lambda>txt.
       header_value l (rd_prefix s) txt (s\<lparr>rd_prefix := None, rd_line := [], rd_lineCR := False\<rparr>))"

text \<open>One byte outside a bulk string. A full line buffer doubles, up to the frame limit.\<close>

definition line_step :: "resp_limits \<Rightarrow> char \<Rightarrow> reader \<Rightarrow> reader rstep" where
  "line_step l c s =
     (case rd_prefix s of
        None \<Rightarrow>
          if byte c \<in> {43, 45, 58, 36, 42} then Inr ([], s\<lparr>rd_prefix := Some (byte c)\<rparr>)
          else Inl (PlainError ''malformed RESP prefix byte'')
      | Some _ \<Rightarrow>
          if rd_lineCR s then
            if byte c \<noteq> 10 then Inl (PlainError ''malformed RESP line terminator'') else header l s
          else if byte c = 13 then Inr ([], s\<lparr>rd_lineCR := True\<rparr>)
          else (let cap = (if length (rd_line s) = rd_capacity s then min (rd_capacity s * 2) (rl_maxFrameBytes l)
                           else rd_capacity s)
                in Inr ([], s\<lparr>rd_line := rd_line s @ [c], rd_capacity := cap\<rparr>)))"

definition line_byte :: "resp_limits \<Rightarrow> char \<Rightarrow> reader \<Rightarrow> reader rstep" where
  "line_byte l c s = chain (count_bytes l 1 s) (line_step l c)"

text \<open>A byte behind the payload of a bulk string.\<close>

definition terminator_byte :: "resp_limits \<Rightarrow> bulk_state \<Rightarrow> char \<Rightarrow> reader \<Rightarrow> reader rstep" where
  "terminator_byte l b c s0 =
     (if byte c \<noteq> (if bk_terminator b = 0 then 13 else 10) then Inl (PlainError ''malformed RESP bulk terminator'')
      else chain (count_bytes l 1 s0) (\<lambda>s.
        if bk_terminator b + 1 = 2 then
          (if valid_utf8 (bk_read b) then Inr (emit (RBulk (Some (bk_read b))) (s\<lparr>rd_bulk := None\<rparr>))
           else Inl (PlainError ''invalid RESP UTF-8''))
        else Inr ([], s\<lparr>rd_bulk := Some (b\<lparr>bk_terminator := bk_terminator b + 1\<rparr>)\<rparr>)))"

text \<open>The loop of \<open>push\<close> over the bytes of a chunk.\<close>

function push_loop :: "resp_limits \<Rightarrow> string \<Rightarrow> reader \<Rightarrow> reply list \<Rightarrow> reader rstep" where
  "push_loop l bs s out =
     (case bs of
        [] \<Rightarrow> Inr (out, s)
      | c # cs \<Rightarrow>
          (case rd_bulk s of
             None \<Rightarrow> chain (line_byte l c s) (\<lambda>(o', s'). push_loop l cs s' (out @ o'))
           | Some b \<Rightarrow>
               (let n = min (bk_size b - length (bk_read b)) (length bs);
                    b' = b\<lparr>bk_read := bk_read b @ take n bs\<rparr>; rest = drop n bs in
                chain (if n > 0 then count_bytes l n (s\<lparr>rd_bulk := Some b'\<rparr>) else Inr s) (\<lambda>s1.
                if length (bk_read b') < bk_size b' \<or> rest = []
                then push_loop l rest s1 out
                else chain (terminator_byte l b' (hd rest) s1) (\<lambda>(o', s').
                  push_loop l (tl rest) s' (out @ o'))))))"
  by pat_completeness auto
termination
  by (relation "measure (\<lambda>(l, bs, s, out). length bs)") (auto simp: Let_def)

declare push_loop.simps [simp del]

definition push :: "resp_limits \<Rightarrow> string \<Rightarrow> (reader, reply list) act" where
  "push l chunk s =
     (case (if rd_frameBytes s + length chunk > rl_maxBufferedBytes l
            then Inl (PlainError ''RESP buffered bytes exceed the limit'') else push_loop l chunk s []) of
        Inl e \<Rightarrow> (Inl (protocol_error (case e of PlainError m \<Rightarrow> m | DbError _ m \<Rightarrow> m)), reader_reset s)
      | Inr (out, s') \<Rightarrow> (Inr out, s'))"

end
