(* ===== verification/Resp_Machine.thy ===== *)
theory Resp_Machine
  imports Resp_Reader
begin

text \<open>
  The reader as a machine over single bytes: \<open>push\<close> copies the payload of a bulk string in
  pieces as large as the chunk allows, and that is the same as consuming its bytes one by one.
  So the replies do not depend on how a stream is cut into chunks. What each byte does to the
  number of pending bytes, and the sizes that hold in every state of the reader.
\<close>

section \<open>One byte\<close>

definition bulk_byte :: "resp_limits \<Rightarrow> bulk_state \<Rightarrow> char \<Rightarrow> reader \<Rightarrow> reader rstep" where
  "bulk_byte l b c s =
     (if length (bk_read b) < bk_size b
      then chain (count_bytes l 1 (s\<lparr>rd_bulk := Some (b\<lparr>bk_read := bk_read b @ [c]\<rparr>)\<rparr>)) (\<lambda>s'. Inr ([], s'))
      else terminator_byte l b c s)"

definition read_byte :: "resp_limits \<Rightarrow> char \<Rightarrow> reader \<Rightarrow> reader rstep" where
  "read_byte l c s = (case rd_bulk s of None \<Rightarrow> line_byte l c s | Some b \<Rightarrow> bulk_byte l b c s)"

fun read_bytes :: "resp_limits \<Rightarrow> string \<Rightarrow> reader \<Rightarrow> reader rstep" where
  "read_bytes l [] s = Inr ([], s)"
| "read_bytes l (c # cs) s =
     chain (read_byte l c s) (\<lambda>(o1, s1). chain (read_bytes l cs s1) (\<lambda>(o2, s2). Inr (o1 @ o2, s2)))"

lemma read_bytes_append:
  "read_bytes l (a @ b) s =
     chain (read_bytes l a s) (\<lambda>(o1, s1). chain (read_bytes l b s1) (\<lambda>(o2, s2). Inr (o1 @ o2, s2)))"
proof (induction a arbitrary: s)
  case Nil
  show ?case by (cases "read_bytes l b s") auto
next
  case (Cons c a)
  then show ?case by (auto simp: chain_def split: sum.splits prod.splits)
qed

lemma read_bytes_appendI:
  assumes "read_bytes l a s = Inr (o1, s1)" "read_bytes l b s1 = Inr (o2, s2)"
  shows "read_bytes l (a @ b) s = Inr (o1 @ o2, s2)"
  by (simp add: read_bytes_append assms)

section \<open>A chunk\<close>

text \<open>The replies that a run adds to those the chunk has given already.\<close>

definition onto :: "reply list \<Rightarrow> reader rstep \<Rightarrow> reader rstep" where
  "onto out r = chain r (\<lambda>(o', s'). Inr (out @ o', s'))"

lemma onto_simps [simp]: "onto out (Inl e) = Inl e" "onto out (Inr (o', s')) = Inr (out @ o', s')"
  by (simp_all add: onto_def)

lemma onto_step:
  "chain r (\<lambda>(o1, s1). onto (out @ o1) (read_bytes l cs s1)) =
   onto out (chain r (\<lambda>(o1, s1). chain (read_bytes l cs s1) (\<lambda>(o2, s2). Inr (o1 @ o2, s2))))"
  by (auto simp: chain_def onto_def split: sum.splits prod.splits)

text \<open>The payload bytes of a chunk are counted together.\<close>

lemma read_payload:
  assumes "rd_bulk s = Some b" "length (bk_read b) + length p \<le> bk_size b" "p \<noteq> []"
  shows "read_bytes l p s =
    chain (count_bytes l (length p) (s\<lparr>rd_bulk := Some (b\<lparr>bk_read := bk_read b @ p\<rparr>)\<rparr>)) (\<lambda>s'. Inr ([], s'))"
  using assms
proof (induction p arbitrary: s b)
  case (Cons c p)
  define b' where "b' = b\<lparr>bk_read := bk_read b @ [c]\<rparr>"
  show ?case
  proof (cases "rd_frameBytes s + 1 > rl_maxFrameBytes l")
    case True
    with Cons.prems show ?thesis by (simp add: read_byte_def bulk_byte_def count_bytes_def)
  next
    case False
    define s' where "s' = s\<lparr>rd_bulk := Some b', rd_frameBytes := rd_frameBytes s + 1\<rparr>"
    have step: "read_byte l c s = Inr ([], s')"
      using Cons.prems False by (simp add: read_byte_def bulk_byte_def count_bytes_def s'_def b'_def)
    show ?thesis
    proof (cases "p = []")
      case True
      with Cons.prems False step show ?thesis by (simp add: count_bytes_def s'_def b'_def)
    next
      case False
      have "read_bytes l p s' = chain (count_bytes l (length p) (s'\<lparr>rd_bulk := Some (b'\<lparr>bk_read := bk_read b' @ p\<rparr>)\<rparr>))
          (\<lambda>s'. Inr ([], s'))"
        by (rule Cons.IH) (use Cons.prems False in \<open>simp_all add: s'_def b'_def\<close>)
      with step show ?thesis by (simp add: count_bytes_def s'_def b'_def)
    qed
  qed
qed simp

lemma push_loop_nil [simp]: "push_loop l [] s out = Inr (out, s)"
  by (simp add: push_loop.simps)

lemma push_loop_line: "rd_bulk s = None \<Longrightarrow>
  push_loop l (c # cs) s out = chain (line_byte l c s) (\<lambda>(o', s'). push_loop l cs s' (out @ o'))"
  by (simp add: push_loop.simps [of l "c # cs"])

lemma push_loop_terminator: "rd_bulk s = Some b \<Longrightarrow> length (bk_read b) \<ge> bk_size b \<Longrightarrow>
  push_loop l (c # cs) s out = chain (terminator_byte l b c s) (\<lambda>(o', s'). push_loop l cs s' (out @ o'))"
  by (simp add: push_loop.simps [of l "c # cs"])

lemma push_loop_payload:
  assumes "rd_bulk s = Some b" "length (bk_read b) < bk_size b"
    and n: "n = min (bk_size b - length (bk_read b)) (length (c # cs))"
    and s': "s' = s\<lparr>rd_bulk := Some (b\<lparr>bk_read := bk_read b @ take n (c # cs)\<rparr>)\<rparr>"
  shows "push_loop l (c # cs) s out =
    chain (count_bytes l n s') (\<lambda>s1. push_loop l (drop n (c # cs)) s1 out)"
proof -
  have n0: "0 < n" using assms(2) n by simp
  let ?b = "b\<lparr>bk_read := bk_read b @ take n (c # cs)\<rparr>"
  have bulk: "s1 = s'\<lparr>rd_frameBytes := rd_frameBytes s' + n\<rparr>" if "count_bytes l n s' = Inr s1" for s1
    using that by (simp add: count_bytes_def split: if_splits)
  have "push_loop l (c # cs) s out = chain (count_bytes l n s') (\<lambda>s1.
      if length (bk_read ?b) < bk_size ?b \<or> drop n (c # cs) = [] then push_loop l (drop n (c # cs)) s1 out
      else chain (terminator_byte l ?b (hd (drop n (c # cs))) s1) (\<lambda>(o', s').
        push_loop l (tl (drop n (c # cs))) s' (out @ o')))"
    unfolding push_loop.simps [of l "c # cs" s out] list.case assms(1) option.case Let_def n [symmetric] s' [symmetric]
    using n0 by (simp only: if_True)
  also have "\<dots> = chain (count_bytes l n s') (\<lambda>s1. push_loop l (drop n (c # cs)) s1 out)"
  proof (rule chain_cong [OF refl])
    fix s1 assume c: "count_bytes l n s' = Inr s1"
    show "(if length (bk_read ?b) < bk_size ?b \<or> drop n (c # cs) = [] then push_loop l (drop n (c # cs)) s1 out
      else chain (terminator_byte l ?b (hd (drop n (c # cs))) s1) (\<lambda>(o', s').
        push_loop l (tl (drop n (c # cs))) s' (out @ o'))) = push_loop l (drop n (c # cs)) s1 out"
    proof (cases "length (bk_read ?b) < bk_size ?b \<or> drop n (c # cs) = []")
      case False
      then obtain d ds where "drop n (c # cs) = d # ds" by (cases "drop n (c # cs)") auto
      moreover have "rd_bulk s1 = Some ?b" by (simp add: bulk [OF c] s')
      ultimately show ?thesis using False push_loop_terminator [of s1 ?b l d ds out] by simp
    qed simp
  qed
  finally show ?thesis .
qed

lemma push_loop_read: "push_loop l bs s out = onto out (read_bytes l bs s)"
proof (induction bs arbitrary: s out rule: length_induct)
  case (1 bs)
  then have ih: "push_loop l cs s' out' = onto out' (read_bytes l cs s')" if "length cs < length bs" for cs s' out'
    using that by blast
  show ?case
  proof (cases bs)
    case Nil
    then show ?thesis by simp
  next
    case (Cons c cs)
    have tail: "chain r (\<lambda>(o', s'). push_loop l cs s' (out @ o')) = onto out
        (chain r (\<lambda>(o1, s1). chain (read_bytes l cs s1) (\<lambda>(o2, s2). Inr (o1 @ o2, s2))))" for r
      using Cons by (simp add: ih flip: onto_step)
    consider (line) "rd_bulk s = None"
      | (payload) b where "rd_bulk s = Some b" "length (bk_read b) < bk_size b"
      | (terminator) b where "rd_bulk s = Some b" "length (bk_read b) \<ge> bk_size b"
      by (cases "rd_bulk s") (auto simp: not_less [symmetric])
    then show ?thesis
    proof cases
      case line
      then show ?thesis unfolding Cons push_loop_line [OF line] tail by (simp add: read_byte_def)
    next
      case (terminator b)
      then show ?thesis unfolding Cons push_loop_terminator [OF terminator] tail by (simp add: read_byte_def bulk_byte_def)
    next
      case (payload b)
      define n where "n = min (bk_size b - length (bk_read b)) (length (c # cs))"
      define s' where "s' = s\<lparr>rd_bulk := Some (b\<lparr>bk_read := bk_read b @ take n (c # cs)\<rparr>)\<rparr>"
      have n: "0 < n" "n \<le> length bs" using payload Cons by (auto simp: n_def)
      then have len: "length (take n bs) = n" by simp
      have "push_loop l bs s out = chain (count_bytes l n s') (\<lambda>s1. onto out (read_bytes l (drop n bs) s1))"
        unfolding Cons push_loop_payload [OF payload n_def s'_def] using n Cons by (simp add: ih)
      moreover have "read_bytes l (take n bs) s = chain (count_bytes l n s') (\<lambda>s1. Inr ([], s1))"
        using read_payload [OF payload(1), of "take n bs" l] n payload(2) unfolding len s'_def Cons
        by (fastforce simp: n_def)
      ultimately show ?thesis
        using read_bytes_append [of l "take n bs" "drop n bs" s]
        by (cases "count_bytes l n s'") (auto simp: onto_def chain_def split: sum.splits prod.splits)
    qed
  qed
qed

text \<open>
  The sizes of the reader's state. They hold after every chunk, whatever its bytes are: the
  pending bytes stay within the frame limit, a bulk string whose buffer is allocated fits into
  the frame, a line never outgrows its buffer, and no more arrays are open than the depth allows.
\<close>

section \<open>Emitting a reply\<close>

lemma emit_loop_out: "emit_loop as v = (out, as') \<Longrightarrow> out = [] \<or> (\<exists>w. out = [w]) \<and> as' = []"
  by (induction as v rule: emit_loop.induct) (auto split: if_splits)

definition arrays_ok :: "resp_limits \<Rightarrow> (nat \<times> reply list) list \<Rightarrow> bool" where
  "arrays_ok l as \<longleftrightarrow> length as \<le> rl_maxDepth l \<and> (\<forall>(k, vs) \<in> set as. 0 < k \<and> k + length vs \<le> rl_maxArguments l)"

lemma arrays_ok_emit_loop: "arrays_ok l as \<Longrightarrow> emit_loop as v = (out, as') \<Longrightarrow> arrays_ok l as'"
  by (induction as v rule: emit_loop.induct) (auto simp: arrays_ok_def split: if_splits)

section \<open>The invariant\<close>

definition bulk_ok :: "resp_limits \<Rightarrow> nat \<Rightarrow> bulk_state \<Rightarrow> bool" where
  "bulk_ok l f b \<longleftrightarrow>
     bk_size b \<le> rl_maxBulkBytes l \<and> length (bk_read b) \<le> bk_size b \<and> bk_terminator b \<le> 1 \<and>
     (bk_terminator b = 1 \<longrightarrow> length (bk_read b) = bk_size b) \<and>
     f + (bk_size b - length (bk_read b)) + (2 - bk_terminator b) \<le> rl_maxFrameBytes l"

definition reader_ok :: "resp_limits \<Rightarrow> reader \<Rightarrow> bool" where
  "reader_ok l s \<longleftrightarrow>
     rd_frameBytes s \<le> rl_maxFrameBytes l \<and> arrays_ok l (rd_arrays s) \<and>
     128 \<le> rd_capacity s \<and> rd_capacity s \<le> max 128 (rl_maxFrameBytes l) \<and>
     length (rd_line s) \<le> rd_capacity s \<and>
     (rd_prefix s = None \<longrightarrow> rd_line s = [] \<and> \<not> rd_lineCR s) \<and>
     (rd_prefix s \<noteq> None \<longrightarrow> length (rd_line s) < rd_frameBytes s \<and> rd_bulk s = None) \<and>
     (\<forall>b. rd_bulk s = Some b \<longrightarrow> bulk_ok l (rd_frameBytes s) b)"

lemma reader_ok_new [simp]: "reader_ok l new_reader"
  by (simp add: reader_ok_def new_reader_def arrays_ok_def)

lemma count_bytes_Inr:
  "count_bytes l n s = Inr s' \<longleftrightarrow>
     rd_frameBytes s + n \<le> rl_maxFrameBytes l \<and> s' = s\<lparr>rd_frameBytes := rd_frameBytes s + n\<rparr>"
  by (auto simp: count_bytes_def)

text \<open>A state between two values: only open arrays are left.\<close>

definition between :: "resp_limits \<Rightarrow> reader \<Rightarrow> bool" where
  "between l s \<longleftrightarrow> reader_ok l s \<and> rd_prefix s = None \<and> rd_bulk s = None"

lemma reader_ok_emit:
  assumes "between l s" "emit v s = (out, s')"
  shows "reader_ok l s'"
  using assms arrays_ok_emit_loop [of l "rd_arrays s" v]
  by (auto simp: emit_def between_def reader_ok_def split: prod.splits)

lemma reader_ok_bulk_header:
  assumes "between l s" "bulk_header l n s = Inr (out, s')"
  shows "reader_ok l s'"
proof (cases "n = - 1")
  case True
  with assms show ?thesis using reader_ok_emit by (simp add: bulk_header_def)
next
  case False
  with assms(2) have n: "0 \<le> n" "n \<le> int (rl_maxBulkBytes l)" "int (rd_frameBytes s) + n + 2 \<le> int (rl_maxFrameBytes l)"
    and s': "s' = s\<lparr>rd_bulk := Some \<lparr>bk_size = nat n, bk_read = [], bk_terminator = 0\<rparr>\<rparr>"
    by (auto simp: bulk_header_def split: if_splits)
  from n have "bulk_ok l (rd_frameBytes s) \<lparr>bk_size = nat n, bk_read = [], bk_terminator = 0\<rparr>"
    by (simp add: bulk_ok_def nat_le_iff)
  with assms(1) show ?thesis by (simp add: s' between_def reader_ok_def)
qed

lemma reader_ok_array_header:
  assumes "between l s" "array_header l n s = Inr (out, s')"
  shows "reader_ok l s'"
proof (cases "n = - 1 \<or> n = 0")
  case True
  with assms show ?thesis using reader_ok_emit by (auto simp: array_header_def split: if_splits)
next
  case False
  with assms(2) have n: "0 < n" "n \<le> int (rl_maxArguments l)" "length (rd_arrays s) < rl_maxDepth l"
    and s': "s' = s\<lparr>rd_arrays := (nat n, []) # rd_arrays s\<rparr>"
    by (auto simp: array_header_def split: if_splits)
  with assms(1) show ?thesis by (simp add: s' between_def reader_ok_def arrays_ok_def nat_le_iff)
qed

lemma header_Inr_cases:
  assumes "header l s = Inr r"
  defines "s' \<equiv> s\<lparr>rd_prefix := None, rd_line := [], rd_lineCR := False\<rparr>"
  obtains v where "r = emit v s'" | i where "bulk_header l i s' = Inr r" | i where "array_header l i s' = Inr r"
  using assms(1) unfolding header_def header_value_def chain_Inr s'_def [symmetric]
  by (auto split: if_splits option.splits)

lemma reader_ok_header:
  assumes "reader_ok l s" "rd_bulk s = None" "header l s = Inr (out, s')"
  shows "reader_ok l s'"
proof -
  have "between l (s\<lparr>rd_prefix := None, rd_line := [], rd_lineCR := False\<rparr>)"
    using assms(1,2) by (simp add: between_def reader_ok_def)
  with assms(3) show ?thesis
    by (elim header_Inr_cases) (metis reader_ok_emit, metis reader_ok_bulk_header, metis reader_ok_array_header)
qed

lemma reader_ok_line_byte:
  assumes "reader_ok l s" "rd_bulk s = None" "line_byte l c s = Inr (out, s')"
  shows "reader_ok l s'"
proof -
  define s1 where "s1 = s\<lparr>rd_frameBytes := rd_frameBytes s + 1\<rparr>"
  have ok: "rd_frameBytes s + 1 \<le> rl_maxFrameBytes l" and st: "line_step l c s1 = Inr (out, s')"
    using assms(3) by (auto simp: line_byte_def chain_Inr count_bytes_Inr s1_def)
  have s1: "reader_ok l s1" "rd_bulk s1 = None" "rd_prefix s1 \<noteq> None \<Longrightarrow> length (rd_line s1) + 1 < rd_frameBytes s1"
    using assms(1,2) ok by (auto simp: s1_def reader_ok_def)
  consider (prefix) "rd_prefix s1 = None" | (head) "header l s1 = Inr (out, s')"
    | (cr) "rd_prefix s1 \<noteq> None" "s' = s1\<lparr>rd_lineCR := True\<rparr>"
    | (grow) "rd_prefix s1 \<noteq> None" "length (rd_line s1) = rd_capacity s1"
        "s' = s1\<lparr>rd_line := rd_line s1 @ [c], rd_capacity := min (rd_capacity s1 * 2) (rl_maxFrameBytes l)\<rparr>"
    | (plain) "rd_prefix s1 \<noteq> None" "length (rd_line s1) \<noteq> rd_capacity s1" "s' = s1\<lparr>rd_line := rd_line s1 @ [c]\<rparr>"
    using st unfolding line_step_def by (auto simp: Let_def split: option.splits if_splits)
  then show ?thesis
  proof cases
    case prefix
    with st s1 show ?thesis by (auto simp: line_step_def reader_ok_def s1_def split: if_splits)
  next
    case head
    show ?thesis by (rule reader_ok_header [OF s1(1,2) head])
  qed (use s1 in \<open>auto simp: reader_ok_def\<close>)
qed

lemma reader_ok_bulk_byte:
  assumes "reader_ok l s" "rd_bulk s = Some b" "bulk_byte l b c s = Inr (out, s')"
  shows "reader_ok l s'"
proof -
  have b: "bulk_ok l (rd_frameBytes s) b" and p: "rd_prefix s = None" using assms(1,2) by (auto simp: reader_ok_def)
  show ?thesis
  proof (cases "length (bk_read b) < bk_size b")
    case True
    with b have "bulk_ok l (rd_frameBytes s + 1) (b\<lparr>bk_read := bk_read b @ [c]\<rparr>)" by (auto simp: bulk_ok_def)
    with assms True p show ?thesis
      by (auto simp: bulk_byte_def chain_Inr count_bytes_Inr reader_ok_def)
  next
    case False
    show ?thesis
    proof (cases "bk_terminator b = 1")
      case True
      with assms(3) False have c: "rd_frameBytes s + 1 \<le> rl_maxFrameBytes l"
        and e: "emit (RBulk (Some (bk_read b))) (s\<lparr>rd_frameBytes := rd_frameBytes s + 1, rd_bulk := None\<rparr>) = (out, s')"
        by (auto simp: bulk_byte_def terminator_byte_def chain_Inr count_bytes_Inr split: if_splits)
      from c assms(1) p have "between l (s\<lparr>rd_frameBytes := rd_frameBytes s + 1, rd_bulk := None\<rparr>)"
        by (simp add: between_def reader_ok_def)
      from reader_ok_emit [OF this e] show ?thesis .
    next
      case tm: False
      with b have t0: "bk_terminator b = 0" by (simp add: bulk_ok_def)
      with b False have "bulk_ok l (rd_frameBytes s + 1) (b\<lparr>bk_terminator := Suc 0\<rparr>)" by (simp add: bulk_ok_def)
      with assms t0 False p show ?thesis
        by (auto simp: bulk_byte_def terminator_byte_def chain_Inr count_bytes_Inr reader_ok_def split: if_splits)
    qed
  qed
qed

lemma reader_ok_read_byte: "reader_ok l s \<Longrightarrow> read_byte l c s = Inr (out, s') \<Longrightarrow> reader_ok l s'"
  by (auto simp: read_byte_def split: option.splits intro: reader_ok_line_byte reader_ok_bulk_byte)

lemma reader_ok_read_bytes: "reader_ok l s \<Longrightarrow> read_bytes l bs s = Inr (out, s') \<Longrightarrow> reader_ok l s'"
  by (induction bs arbitrary: s out) (auto simp: chain_Inr dest: reader_ok_read_byte)

lemma reader_ok_push [inv_intros]: "keeps (reader_ok l) (push l chunk)"
  by (rule keepsI)
    (auto simp: push_def push_loop_read onto_def chain_def reader_reset_def split: sum.splits prod.splits
      dest: reader_ok_read_bytes)

text \<open>The states after chunks, whether they are well-formed or not.\<close>

definition pushed :: "resp_limits \<Rightarrow> string list \<Rightarrow> reader \<Rightarrow> reader" where
  "pushed l cs = fold (\<lambda>c s. snd (push l c s)) cs"

lemma reader_ok_pushed: "reader_ok l s \<Longrightarrow> reader_ok l (pushed l cs s)"
  unfolding pushed_def by (induction cs arbitrary: s) (auto dest: keepsD [OF reader_ok_push])

lemma reader_ok_retained: "reader_ok l s \<Longrightarrow> retainedBytes s \<le> rl_maxFrameBytes l + max 128 (rl_maxFrameBytes l)"
  by (auto simp: reader_ok_def retainedBytes_def bulk_ok_def split: option.splits)

end
