(* ===== verification/Resp_Delivery.thy ===== *)
theory Resp_Delivery
  imports Resp_Machine
begin

text \<open>
  What the encoder writes, the reader delivers: the bytes of an encoded reply, read in any
  state between two values, give exactly that reply, at its last byte and not before. The size
  that \<open>replyByteLength\<close> computes is the number of bytes that are written.
\<close>

section \<open>The size check is exact\<close>

lemma within_frame_Inr: "within_frame n = Inr m \<longleftrightarrow> m = n \<and> n \<le> rl_maxFrameBytes DEFAULT_RESP_LIMITS"
  by (auto simp: within_frame_def)

lemma length_CRLF [simp]: "length CRLF = 2"
  by (simp add: CRLF_def)

lemma length_clean_line [simp]: "length (clean_line m) = length m"
  by (simp add: clean_line_def)

lemma encoded_size:
  "replyByteLength r d = Inr n \<Longrightarrow> \<exists>bs. encoded r = Inr bs \<and> length bs = n"
  "items_bytes rs d m = Inr n \<Longrightarrow> \<exists>bs. encoded_items rs = Inr bs \<and> m + length bs = n"
proof (induction r d and rs d m arbitrary: n and n rule: replyByteLength_items_bytes.induct)
  case (5 rs d)
  then show ?case by (auto simp: chain_Inr within_frame_Inr split: if_splits)
next
  case (10 r rs d m)
  then show ?case by (auto simp: chain_Inr within_frame_Inr) (metis add.assoc length_append)
qed (auto simp: encodeBulk_def encodeSimple_def encodeError_def encodeInt_def within_frame_Inr
    split: if_splits jsnum.splits)

section \<open>Text that is sent\<close>

lemma clean_line_byte: "c \<in> set (clean_line m) \<Longrightarrow> byte c \<noteq> 13"
  by (auto simp: clean_line_def line_break_def byte_def)

lemma valid_clean_line: "valid_utf8 m \<Longrightarrow> valid_utf8 (clean_line m)"
proof -
  assume "valid_utf8 m"
  then have "valid_utf8 (concat (map (\<lambda>c. [if line_break c then CHR '' '' else c]) m))"
    by (rule valid_concat_map [rotated 2]) (auto simp: line_break_def byte_def)
  moreover have "concat (map (\<lambda>c. [if line_break c then CHR '' '' else c]) m) = clean_line m"
    by (induction m) (auto simp: clean_line_def)
  ultimately show ?thesis by simp
qed

lemma len_text_bytes: "c \<in> set (len_text n) \<Longrightarrow> 48 \<le> byte c \<and> byte c \<le> 57"
  using nat_text_digits [of "int n"] by (auto simp: len_text_def all_digits_def list_all_iff is_digit_def)

lemma int_text_bytes: "c \<in> set (int_text i) \<Longrightarrow> byte c < 128 \<and> byte c \<noteq> 13"
  using nat_text_digits [of "\<bar>i\<bar>"]
  by (auto simp: int_text_def all_digits_def list_all_iff is_digit_def byte_def split: if_splits)

lemma len_text_int: "len_text n = int_text (int n)"
  by (simp add: len_text_def int_text_def)

section \<open>Reading a line\<close>

definition idle :: "nat \<Rightarrow> (nat \<times> reply list) list \<Rightarrow> reader \<Rightarrow> bool" where
  "idle f A s \<longleftrightarrow> rd_frameBytes s = f \<and> rd_arrays s = A \<and> rd_prefix s = None \<and> rd_line s = [] \<and> \<not> rd_lineCR s \<and> rd_bulk s = None"

lemma idle_new: "idle 0 [] new_reader"
  by (simp add: idle_def new_reader_def)

lemma byte_break: "byte CHR 0x0D = 13" "byte CHR 0x0A = 10"
  by (simp_all add: byte_def)

lemma chain_return [simp]: "chain r Inr = r"
  by (cases r) auto

lemma read_text:
  assumes "rd_prefix s = Some p" "\<not> rd_lineCR s" "rd_bulk s = None" "\<forall>c \<in> set t. byte c \<noteq> 13"
    "rd_frameBytes s + length t \<le> rl_maxFrameBytes l"
  shows "\<exists>cap. read_bytes l t s =
    Inr ([], s\<lparr>rd_line := rd_line s @ t, rd_frameBytes := rd_frameBytes s + length t, rd_capacity := cap\<rparr>)"
  using assms
proof (induction t arbitrary: s)
  case Nil
  show ?case by (rule exI [of _ "rd_capacity s"]) simp
next
  case (Cons c t)
  define cap where "cap = (if length (rd_line s) = rd_capacity s then min (rd_capacity s * 2) (rl_maxFrameBytes l) else rd_capacity s)"
  have c: "read_byte l c s =
      Inr ([], s\<lparr>rd_line := rd_line s @ [c], rd_frameBytes := rd_frameBytes s + 1, rd_capacity := cap\<rparr>)"
    using Cons.prems by (simp add: read_byte_def line_byte_def line_step_def count_bytes_def Let_def cap_def)
  show ?case using Cons.IH [of "s\<lparr>rd_line := rd_line s @ [c], rd_frameBytes := rd_frameBytes s + 1, rd_capacity := cap\<rparr>"]
      Cons.prems by (simp add: c)
qed

lemma read_line:
  assumes s: "idle f A s" and t: "\<forall>c \<in> set t. byte c \<noteq> 13" "valid_utf8 t"
    and p: "byte p \<in> {43, 45, 58, 36, 42}" and f: "f + length t + 3 \<le> rl_maxFrameBytes l"
  shows "\<exists>s'. idle (f + length t + 3) A s' \<and> read_bytes l (p # t @ CRLF) s = header_value l (Some (byte p)) t s'"
proof -
  define s1 where "s1 = s\<lparr>rd_frameBytes := f + 1, rd_prefix := Some (byte p)\<rparr>"
  have s1: "read_byte l p s = Inr ([], s1)" using s p f
    by (simp add: read_byte_def line_byte_def line_step_def count_bytes_def idle_def s1_def)
  have "rd_prefix s1 = Some (byte p)" "\<not> rd_lineCR s1" "rd_bulk s1 = None" "rd_frameBytes s1 + length t \<le> rl_maxFrameBytes l"
    using s f by (simp_all add: s1_def idle_def)
  from read_text [OF this(1-3) t(1) this(4)] obtain cap where
    r: "read_bytes l t s1 = Inr ([], s1\<lparr>rd_line := rd_line s1 @ t, rd_frameBytes := rd_frameBytes s1 + length t, rd_capacity := cap\<rparr>)" ..
  define s2 where "s2 = s1\<lparr>rd_line := t, rd_frameBytes := f + 1 + length t, rd_capacity := cap\<rparr>"
  have r2: "read_bytes l t s1 = Inr ([], s2)" using r s by (simp add: s1_def s2_def idle_def)
  define s3 where "s3 = s2\<lparr>rd_frameBytes := rd_frameBytes s2 + 1 + 1, rd_prefix := None, rd_line := [], rd_lineCR := False\<rparr>"
  have "read_bytes l CRLF s2 = header_value l (Some (byte p)) t s3"
    using s f t(2)
    by (simp add: CRLF_def byte_break read_byte_def line_byte_def line_step_def count_bytes_def s2_def s1_def s3_def idle_def
        header_def utf8_decode_def)
  then have "read_bytes l (p # t @ CRLF) s = header_value l (Some (byte p)) t s3"
    by (simp add: s1 read_bytes_append r2)
  moreover have "idle (f + length t + 3) A s3" using s by (simp add: s3_def s2_def s1_def idle_def)
  ultimately show ?thesis by blast
qed

section \<open>Delivery\<close>

text \<open>The reply that arrives: \<open>null\<close> is a null bulk string and an error message is one line.\<close>

fun received :: "reply option \<Rightarrow> reply" where
  "received None = RBulk None"
| "received (Some (RError m)) = RError (clean_line m)"
| "received (Some (RArray rs)) = RArray (map (\<lambda>r. Some (received r)) rs)"
| "received (Some r) = r"

text \<open>The replies a reader with these limits takes behind \<open>d\<close> open arrays.\<close>

fun sendable :: "resp_limits \<Rightarrow> nat \<Rightarrow> reply option \<Rightarrow> bool" where
  "sendable l d None = True"
| "sendable l d (Some RNil) = (d < rl_maxDepth l)"
| "sendable l d (Some (RBulk None)) = True"
| "sendable l d (Some (RBulk (Some s))) = (length s \<le> rl_maxBulkBytes l \<and> valid_utf8 s)"
| "sendable l d (Some (RArray rs)) =
     (d < rl_maxDepth l \<and> length rs \<le> rl_maxArguments l \<and> list_all (sendable l (Suc d)) rs)"
| "sendable l d (Some (RInt n)) = True"
| "sendable l d (Some (RSimple s)) = valid_utf8 s"
| "sendable l d (Some (RError s)) = valid_utf8 s"

text \<open>From an idle state the bytes \<open>bs\<close> give the value \<open>v\<close> and leave an idle state.\<close>

definition delivers :: "resp_limits \<Rightarrow> string \<Rightarrow> reply \<Rightarrow> nat \<Rightarrow> (nat \<times> reply list) list \<Rightarrow> reader \<Rightarrow> bool" where
  "delivers l bs v f A s \<longleftrightarrow>
     (\<exists>s'. read_bytes l bs s = Inr (fst (emit_loop A v), s') \<and>
        idle (if fst (emit_loop A v) = [] then f + length bs else 0) (snd (emit_loop A v)) s')"

lemma emit_idle: "idle f A s \<Longrightarrow> \<exists>s'. emit v s = (fst (emit_loop A v), s') \<and>
    idle (if fst (emit_loop A v) = [] then f else 0) (snd (emit_loop A v)) s'"
  by (simp add: emit_def idle_def split: prod.splits)

lemma line_delivers:
  assumes "idle f A s" "\<forall>c \<in> set t. byte c \<noteq> 13" "valid_utf8 t" "byte p \<in> {43, 45, 58, 36, 42}"
    and "f + length t + 3 \<le> rl_maxFrameBytes l"
    and h: "\<And>s'. idle (f + length t + 3) A s' \<Longrightarrow> header_value l (Some (byte p)) t s' = Inr (emit v s')"
  shows "delivers l (p # t @ CRLF) v f A s"
proof -
  obtain s' where s': "idle (f + length t + 3) A s'" "read_bytes l (p # t @ CRLF) s = Inr (emit v s')"
    using read_line [OF assms(1-5)] h by metis
  with emit_idle [OF s'(1), of v] show ?thesis by (auto simp: delivers_def ac_simps numeral_eq_Suc)
qed

lemma prefix_bytes: "byte CHR ''+'' = 43" "byte CHR ''-'' = 45" "byte CHR '':'' = 58" "byte CHR ''$'' = 36" "byte CHR ''*'' = 42"
  by (simp_all add: byte_def)

lemma int_line:
  "\<forall>c \<in> set (int_text i). byte c \<noteq> 13" "valid_utf8 (int_text i)"
  using int_text_bytes by (auto intro!: ascii_valid simp: list_all_iff)

text \<open>The limits a decoder can have.\<close>

definition limits_ok :: "resp_limits \<Rightarrow> bool" where
  "limits_ok l \<longleftrightarrow>
     (\<forall>n \<in> {rl_maxFrameBytes l, rl_maxArguments l, rl_maxBulkBytes l, rl_maxDepth l, rl_maxBufferedBytes l}.
        1 \<le> n \<and> n \<le> 2 ^ 53 - 1)"

lemma header_number:
  assumes "\<bar>i\<bar> \<le> 2 ^ 53 - 1"
  shows "header_value l (Some 58) (int_text i) s = Inr (emit (RInt (Fin (of_int i))) s)"
    "header_value l (Some 36) (int_text i) s = bulk_header l i s"
    "header_value l (Some 42) (int_text i) s = array_header l i s"
  using safe_int [OF assms] by (simp_all add: header_value_def plain_integer_int)

lemma int_delivers:
  assumes "idle f A s" "\<bar>i\<bar> \<le> 2 ^ 53 - 1" "f + length (int_text i) + 3 \<le> rl_maxFrameBytes l"
  shows "delivers l (CHR '':'' # int_text i @ CRLF) (RInt (Fin (of_int i))) f A s"
  by (rule line_delivers [OF assms(1) int_line]) (use assms in \<open>simp_all add: prefix_bytes header_number\<close>)

lemma null_text: "''-1'' = int_text (- 1)"
  by (simp add: int_text_def nat_text_def digits_rev_small char_of_def)

lemma null_delivers:
  assumes "idle f A s" "f + 5 \<le> rl_maxFrameBytes l"
  shows "delivers l (CHR ''$'' # ''-1'' @ CRLF) (RBulk None) f A s"
    "length A < rl_maxDepth l \<Longrightarrow> delivers l (CHR ''*'' # ''-1'' @ CRLF) RNil f A s"
proof -
  have l: "length (int_text (- 1)) = 2" by (simp flip: null_text)
  show "delivers l (CHR ''$'' # ''-1'' @ CRLF) (RBulk None) f A s"
    unfolding null_text
    by (rule line_delivers [OF assms(1) int_line]) (use assms in \<open>simp_all add: prefix_bytes header_number bulk_header_def l\<close>)
  show "delivers l (CHR ''*'' # ''-1'' @ CRLF) RNil f A s" if "length A < rl_maxDepth l"
    unfolding null_text
    by (rule line_delivers [OF assms(1) int_line])
      (use assms that in \<open>simp_all add: prefix_bytes header_number array_header_def l idle_def\<close>)
qed

lemma terminator_delivers:
  assumes "idle f A (s\<lparr>rd_bulk := None\<rparr>)" "valid_utf8 b" "f + 2 \<le> rl_maxFrameBytes l"
    and s: "rd_bulk s = Some \<lparr>bk_size = length b, bk_read = b, bk_terminator = 0\<rparr>"
  shows "\<exists>s'. read_bytes l CRLF s = Inr (emit (RBulk (Some b)) s') \<and> idle (f + 2) A s'"
proof -
  define s' where "s' = s\<lparr>rd_frameBytes := rd_frameBytes s + 1 + 1, rd_bulk := None\<rparr>"
  have "read_bytes l CRLF s = Inr (emit (RBulk (Some b)) s')"
    using assms by (simp add: CRLF_def byte_break read_byte_def bulk_byte_def terminator_byte_def count_bytes_def idle_def
        s'_def split: prod.splits)
  moreover have "idle (f + 2) A s'" using assms(1) by (simp add: s'_def idle_def)
  ultimately show ?thesis by blast
qed

lemma payload_read:
  assumes "rd_bulk s = Some \<lparr>bk_size = length b, bk_read = [], bk_terminator = 0\<rparr>"
    "rd_frameBytes s + length b \<le> rl_maxFrameBytes l"
  shows "read_bytes l b s = Inr ([], s\<lparr>rd_frameBytes := rd_frameBytes s + length b,
     rd_bulk := Some \<lparr>bk_size = length b, bk_read = b, bk_terminator = 0\<rparr>\<rparr>)"
proof (cases "b = []")
  case True
  with assms show ?thesis by (cases s) simp
next
  case False
  with assms show ?thesis using read_payload [of s _ b l] by (simp add: count_bytes_def)
qed

lemma bulk_delivers:
  assumes s: "idle f A s" and l: "limits_ok l" and b: "valid_utf8 b" "length b \<le> rl_maxBulkBytes l"
    and f: "f + length (encodeBulk (Some b)) \<le> rl_maxFrameBytes l" "f + length (encodeBulk (Some b)) \<le> rl_maxBufferedBytes l"
  shows "delivers l (encodeBulk (Some b)) (RBulk (Some b)) f A s"
proof -
  define n where "n = int (length b)"
  have n: "\<bar>n\<bar> \<le> 2 ^ 53 - 1" using l b by (auto simp: n_def limits_ok_def)
  have e: "encodeBulk (Some b) = (CHR ''$'' # int_text n @ CRLF) @ b @ CRLF"
    by (simp add: encodeBulk_def len_text_int n_def)
  define g where "g = f + length (int_text n) + 3"
  have g: "g + length b + 2 = f + length (encodeBulk (Some b))" by (simp add: e g_def)
  have "byte CHR ''$'' \<in> {43, 45, 58, 36, 42}" "f + length (int_text n) + 3 \<le> rl_maxFrameBytes l"
    using f(1) unfolding g [symmetric] by (simp_all add: prefix_bytes g_def)
  from read_line [OF s int_line this]
  obtain s1 where s1: "idle g A s1" "read_bytes l (CHR ''$'' # int_text n @ CRLF) s = header_value l (Some 36) (int_text n) s1"
    unfolding prefix_bytes g_def by blast
  define s2 where "s2 = s1\<lparr>rd_bulk := Some \<lparr>bk_size = length b, bk_read = [], bk_terminator = 0\<rparr>\<rparr>"
  have "bulk_header l n s1 = Inr ([], s2)"
    using s1(1) b f by (simp add: bulk_header_def n_def s2_def idle_def flip: g)
  with s1(2) have r1: "read_bytes l (CHR ''$'' # int_text n @ CRLF) s = Inr ([], s2)" by (simp add: header_number [OF n])
  define s3 where "s3 = s2\<lparr>rd_frameBytes := g + length b, rd_bulk := Some \<lparr>bk_size = length b, bk_read = b, bk_terminator = 0\<rparr>\<rparr>"
  have r2: "read_bytes l b s2 = Inr ([], s3)"
    using payload_read [of s2 b l] s1(1) f(1) unfolding g [symmetric] by (simp add: s2_def s3_def idle_def)
  have "idle (g + length b) A (s3\<lparr>rd_bulk := None\<rparr>)" using s1(1) by (simp add: s3_def s2_def idle_def)
  from terminator_delivers [OF this b(1), of l] f(1) obtain s4
    where s4: "read_bytes l CRLF s3 = Inr (emit (RBulk (Some b)) s4)" "idle (g + length b + 2) A s4"
    unfolding g [symmetric] by (auto simp: s3_def)
  have "read_bytes l (encodeBulk (Some b)) s = Inr (emit (RBulk (Some b)) s4)"
    unfolding e read_bytes_append r1 chain_simps prod.case r2 s4(1) by simp
  with emit_idle [OF s4(2)] show ?thesis unfolding g by (auto simp: delivers_def)
qed

section \<open>Arrays\<close>

lemma delivers_behind:
  assumes "read_bytes l a s = Inr ([], s1)" "delivers l b v (f + length a) A s1"
  shows "delivers l (a @ b) v f A s"
  using assms by (auto simp: delivers_def read_bytes_append add.assoc)

lemma delivers_last: "delivers l bs v f ((1, vs) # A) s = delivers l bs (RArray (map Some (vs @ [v]))) f A s"
  by (simp add: delivers_def)

lemma delivers_item:
  assumes "delivers l bs v f ((Suc (Suc k), vs) # A) s"
  obtains s' where "read_bytes l bs s = Inr ([], s')" "idle (f + length bs) ((Suc k, vs @ [v]) # A) s'"
  using assms by (auto simp: delivers_def)

lemma array_opens:
  assumes s: "idle f A s" and l: "limits_ok l" "n \<le> rl_maxArguments l" "length A < rl_maxDepth l"
    and n: "0 < n" and f: "f + length (len_text n) + 3 \<le> rl_maxFrameBytes l"
  shows "\<exists>s'. read_bytes l (CHR ''*'' # len_text n @ CRLF) s = Inr ([], s') \<and>
    idle (f + length (len_text n) + 3) ((n, []) # A) s'"
proof -
  have i: "\<bar>int n\<bar> \<le> 2 ^ 53 - 1" using l by (auto simp: limits_ok_def)
  have "byte CHR ''*'' \<in> {43, 45, 58, 36, 42}" by (simp add: prefix_bytes)
  from read_line [OF s int_line this f [unfolded len_text_int]]
  obtain s1 where s1: "idle (f + length (len_text n) + 3) A s1"
    "read_bytes l (CHR ''*'' # len_text n @ CRLF) s = array_header l (int n) s1"
    unfolding len_text_int prefix_bytes header_number [OF i] by blast
  then have "array_header l (int n) s1 = Inr ([], s1\<lparr>rd_arrays := (n, []) # A\<rparr>)"
    using l n by (simp add: array_header_def idle_def)
  moreover have "idle (f + length (len_text n) + 3) ((n, []) # A) (s1\<lparr>rd_arrays := (n, []) # A\<rparr>)"
    using s1(1) by (simp add: idle_def)
  ultimately show ?thesis using s1(2) by auto
qed

lemma length_zero_text: "length (len_text 0) = 1"
  by (simp add: len_text_int int_text_def nat_text_def digits_rev_small)

lemma empty_array_delivers:
  assumes s: "idle f A s" and l: "length A < rl_maxDepth l" and f: "f + 4 \<le> rl_maxFrameBytes l"
  shows "delivers l (CHR ''*'' # len_text 0 @ CRLF) (RArray []) f A s"
proof -
  have t: "len_text 0 = int_text 0" "length (int_text 0) = 1"
    using length_zero_text by (simp_all add: len_text_int)
  have "header_value l (Some (byte CHR ''*'')) (int_text 0) s' = Inr (emit (RArray []) s')"
    if "idle (f + length (int_text 0) + 3) A s'" for s'
    using that l header_number(3) [of 0] by (simp add: prefix_bytes array_header_def idle_def)
  then show ?thesis unfolding t(1)
    by (intro line_delivers [OF s int_line]) (use f in \<open>simp_all add: prefix_bytes t\<close>)
qed

theorem encoded_delivers:
  "encoded r = Inr bs \<Longrightarrow> limits_ok l \<Longrightarrow> sendable l (length A) r \<Longrightarrow> idle f A s \<Longrightarrow>
     f + length bs \<le> rl_maxFrameBytes l \<Longrightarrow> f + length bs \<le> rl_maxBufferedBytes l \<Longrightarrow>
     delivers l bs (received r) f A s"
  "encoded_items rs = Inr bs \<Longrightarrow> limits_ok l \<Longrightarrow> list_all (sendable l (Suc (length A))) rs \<Longrightarrow> rs \<noteq> [] \<Longrightarrow>
     idle f ((length rs, vs) # A) s \<Longrightarrow> f + length bs \<le> rl_maxFrameBytes l \<Longrightarrow> f + length bs \<le> rl_maxBufferedBytes l \<Longrightarrow>
     delivers l bs (RArray (map Some vs @ map (\<lambda>r. Some (received r)) rs)) f A s"
proof (induction r and rs arbitrary: bs f A s and bs f A vs s rule: encoded_encoded_items.induct)
  case 1
  then have bs: "bs = CHR ''$'' # ''-1'' @ CRLF" by (simp add: encodeBulk_def)
  show ?case unfolding bs received.simps by (rule null_delivers [OF 1(4)]) (use 1 bs in simp_all)
next
  case (2 t)
  then have bs: "bs = CHR ''+'' # t @ CRLF" and t: "\<forall>c \<in> set t. byte c \<noteq> 13"
    by (auto simp: encodeSimple_def chain_Inr list_ex_iff line_break_def split: if_splits)
  show ?case unfolding bs
    by (rule line_delivers [OF 2(4) t]) (use 2 bs in \<open>simp_all add: prefix_bytes header_value_def\<close>)
next
  case (3 m)
  then have bs: "bs = CHR ''-'' # clean_line m @ CRLF" by (simp add: encodeError_def)
  show ?case unfolding bs
    by (rule line_delivers [OF 3(4)])
      (use 3 bs clean_line_byte in \<open>auto simp: prefix_bytes header_value_def valid_clean_line\<close>)
next
  case (4 n)
  then obtain x where n: "n = Fin x" "is_safe_integer n" and bs: "bs = CHR '':'' # num_text x @ CRLF"
    by (auto simp: encodeInt_def split: jsnum.splits if_splits)
  define i where "i = \<lfloor>x\<rfloor>"
  have x: "x = of_int i" "\<bar>x\<bar> \<le> of_int (2 ^ 53 - 1)" using n by (auto simp: is_safe_integer_def i_def max_safe_def)
  then have i: "\<bar>i\<bar> \<le> 2 ^ 53 - 1" by (simp only: of_int_abs [symmetric] of_int_le_iff)
  have "\<bar>x\<bar> \<le> 2 ^ 53" using x(2) by simp
  then have "num_text x = int_text i" by (simp add: num_text_def x(1))
  with int_delivers [OF 4(4) i] 4 show ?case by (simp add: bs n x(1))
next
  case (5 v)
  show ?case
  proof (cases v)
    case None
    with 5 have bs: "bs = CHR ''$'' # ''-1'' @ CRLF" by (simp add: encodeBulk_def)
    show ?thesis unfolding bs None received.simps by (rule null_delivers [OF 5(4)]) (use 5 bs in simp_all)
  next
    case (Some b)
    with 5 bulk_delivers [OF 5(4) 5(2), of b] show ?thesis by simp
  qed
next
  case 6
  then have bs: "bs = CHR ''*'' # ''-1'' @ CRLF" by simp
  show ?case unfolding bs received.simps by (rule null_delivers [OF 6(4)]) (use 6 bs in simp_all)
next
  case (7 rs)
  then obtain b where b: "encoded_items rs = Inr b" and bs: "bs = (CHR ''*'' # len_text (length rs) @ CRLF) @ b"
    by (auto simp: chain_Inr)
  show ?case
  proof (cases "rs = []")
    case True
    with 7 b bs empty_array_delivers [OF 7(5)] show ?thesis by (simp add: length_zero_text)
  next
    case False
    have f: "f + length (len_text (length rs)) + 3 + length b = f + length bs" by (simp add: bs)
    from array_opens [OF 7(5) 7(3), of "length rs"] 7 False f
    obtain s1 where s1: "read_bytes l (CHR ''*'' # len_text (length rs) @ CRLF) s = Inr ([], s1)"
      "idle (f + length (len_text (length rs)) + 3) ((length rs, []) # A) s1" by auto
    have "delivers l b (RArray (map Some [] @ map (\<lambda>r. Some (received r)) rs)) (f + length (len_text (length rs)) + 3) A s1"
      by (rule 7(1) [OF b 7(3) _ False s1(2)]) (use 7 f in simp_all)
    then show ?thesis unfolding bs by (intro delivers_behind [OF s1(1)]) (simp add: ac_simps numeral_eq_Suc)
  qed
next
  case 8
  then show ?case by simp
next
  case (9 r rs)
  then obtain a b where ab: "encoded r = Inr a" "encoded_items rs = Inr b" and bs: "bs = a @ b"
    by (auto simp: chain_Inr)
  have d: "delivers l a (received r) f ((length (r # rs), vs) # A) s"
    by (rule 9(1) [OF ab(1) 9(4) _ 9(7)]) (use 9 bs in simp_all)
  show ?case
  proof (cases rs)
    case Nil
    with d ab bs delivers_last [of l a "received r" f vs A s] show ?thesis by simp
  next
    case (Cons r' rs')
    with d obtain s' where s': "read_bytes l a s = Inr ([], s')" "idle (f + length a) ((length rs, vs @ [received r]) # A) s'"
      by (auto elim: delivers_item)
    have "delivers l b (RArray (map Some (vs @ [received r]) @ map (\<lambda>r. Some (received r)) rs)) (f + length a) A s'"
      by (rule 9(2) [OF ab(1,2) 9(4) _ _ s'(2)]) (use 9 bs Cons in simp_all)
    then show ?thesis unfolding bs by (intro delivers_behind [OF s'(1)]) simp
  qed
qed

end
