(* ===== verification/Resp_Stream.thy ===== *)
theory Resp_Stream
  imports Resp_Machine Resp_Delivery
begin

text \<open>
  Streams of encoded values cut into chunks. A decoder that reads the chunks one after the other
  gives exactly the values whose bytes are complete, and a command that a client encodes is the
  command whose arguments the server gets.
\<close>

section \<open>Every byte counts\<close>

lemma emit_frame: "emit v s = (out, s') \<Longrightarrow>
    out = [] \<and> rd_frameBytes s' = rd_frameBytes s \<or> (\<exists>w. out = [w]) \<and> rd_frameBytes s' = 0"
  using emit_loop_out [of "rd_arrays s" v] by (auto simp: emit_def split: prod.splits)

lemma bulk_header_frame: "bulk_header l n s = Inr (out, s') \<Longrightarrow>
    out = [] \<and> rd_frameBytes s' = rd_frameBytes s \<or> (\<exists>w. out = [w]) \<and> rd_frameBytes s' = 0"
  using emit_frame [of "RBulk None" s out s'] by (auto simp: bulk_header_def split: if_splits)

lemma array_header_frame: "array_header l n s = Inr (out, s') \<Longrightarrow>
    out = [] \<and> rd_frameBytes s' = rd_frameBytes s \<or> (\<exists>w. out = [w]) \<and> rd_frameBytes s' = 0"
  using emit_frame [of RNil s out s'] emit_frame [of "RArray []" s out s']
  by (auto simp: array_header_def split: if_splits)

lemma header_frame:
  assumes "header l s = Inr (out, s')"
  shows "out = [] \<and> rd_frameBytes s' = rd_frameBytes s \<or> (\<exists>w. out = [w]) \<and> rd_frameBytes s' = 0"
proof -
  let ?s = "s\<lparr>rd_prefix := None, rd_line := [], rd_lineCR := False\<rparr>"
  have f: "rd_frameBytes ?s = rd_frameBytes s" by simp
  from assms show ?thesis
  proof (rule header_Inr_cases)
    show "(out, s') = emit v ?s \<Longrightarrow> ?thesis" for v using emit_frame [of v ?s out s'] unfolding f by simp
    show "bulk_header l i ?s = Inr (out, s') \<Longrightarrow> ?thesis" for i using bulk_header_frame [of l i ?s out s'] unfolding f by simp
    show "array_header l i ?s = Inr (out, s') \<Longrightarrow> ?thesis" for i using array_header_frame [of l i ?s out s'] unfolding f by simp
  qed
qed

text \<open>A byte is added to the pending ones, or it completes a reply and none is pending.\<close>

lemma read_byte_frame:
  assumes "read_byte l c s = Inr (out, s')"
  shows "out = [] \<and> rd_frameBytes s' = Suc (rd_frameBytes s) \<or> (\<exists>w. out = [w]) \<and> rd_frameBytes s' = 0"
proof (cases "rd_bulk s")
  case None
  define s1 where "s1 = s\<lparr>rd_frameBytes := rd_frameBytes s + 1\<rparr>"
  from assms None have "line_step l c s1 = Inr (out, s')"
    by (auto simp: read_byte_def line_byte_def chain_Inr count_bytes_Inr s1_def)
  moreover have "rd_frameBytes s1 = Suc (rd_frameBytes s)" by (simp add: s1_def)
  ultimately show ?thesis using header_frame [of l s1 out s']
    by (auto simp: line_step_def Let_def split: option.splits if_splits)
next
  case (Some b)
  with assms show ?thesis
    using emit_frame [of "RBulk (Some (bk_read b))" "s\<lparr>rd_frameBytes := Suc (rd_frameBytes s), rd_bulk := None\<rparr>" out s']
    by (auto simp: read_byte_def bulk_byte_def terminator_byte_def chain_Inr count_bytes_Inr split: if_splits)
qed

lemma silent_frame: "read_bytes l bs s = Inr ([], s') \<Longrightarrow> rd_frameBytes s' = rd_frameBytes s + length bs"
proof (induction bs arbitrary: s)
  case (Cons c bs)
  then obtain s1 where s1: "read_byte l c s = Inr ([], s1)" "read_bytes l bs s1 = Inr ([], s')"
    by (auto simp: chain_Inr)
  with Cons.IH read_byte_frame [OF s1(1)] show ?case by fastforce
qed simp

lemma read_bytes_prefix:
  assumes "read_bytes l (a @ b) s = Inr (out, s')"
  obtains o1 s1 o2 where "read_bytes l a s = Inr (o1, s1)" "read_bytes l b s1 = Inr (o2, s')" "out = o1 @ o2"
  using assms by (auto simp: read_bytes_append chain_Inr)

text \<open>Before the last byte of an encoded reply nothing is delivered.\<close>

lemma silent_prefix:
  assumes "read_bytes l (q @ t) s = Inr ([v], s')" "rd_frameBytes s' = 0" "t \<noteq> []"
  obtains s1 where "read_bytes l q s = Inr ([], s1)" "rd_frameBytes s1 = rd_frameBytes s + length q"
proof -
  from assms(1) obtain o1 s1 o2 where r: "read_bytes l q s = Inr (o1, s1)" "read_bytes l t s1 = Inr (o2, s')" "[v] = o1 @ o2"
    by (rule read_bytes_prefix)
  have "o2 \<noteq> []" using silent_frame [of l t s1 s'] r(2) assms(2,3) by auto
  with r(3) have "o1 = []" by (simp add: Cons_eq_append_conv)
  with r(1) silent_frame that show ?thesis by blast
qed

section \<open>Streams\<close>

definition framed :: "resp_limits \<Rightarrow> reply option \<Rightarrow> string \<Rightarrow> bool" where
  "framed l r f \<longleftrightarrow> encodeReply r = Inr f \<and> sendable l 0 r \<and> length f \<le> rl_maxFrameBytes l \<and> length f \<le> rl_maxBufferedBytes l"

lemma frame_read:
  assumes "framed l r f" "limits_ok l" "idle 0 [] s"
  shows "\<exists>s'. read_bytes l f s = Inr ([received r], s') \<and> idle 0 [] s'"
  using encoded_delivers(1) [of r f l "[]" 0 s] assms
  by (auto simp: framed_def encodeReply_def chain_Inr delivers_def)

lemma frame_silent:
  assumes "framed l r (q @ t)" "t \<noteq> []" "limits_ok l" "idle 0 [] s"
  shows "\<exists>s'. read_bytes l q s = Inr ([], s') \<and> rd_frameBytes s' = length q"
proof -
  obtain s' where s': "read_bytes l (q @ t) s = Inr ([received r], s')" "idle 0 [] s'"
    using frame_read [OF assms(1,3,4)] by blast
  then show ?thesis using silent_prefix [OF s'(1) _ assms(2)] assms(4) by (fastforce simp: idle_def)
qed

lemma frames_read:
  assumes "list_all2 (framed l) rs fs" "limits_ok l" "idle 0 [] s"
  shows "\<exists>s'. read_bytes l (concat fs) s = Inr (map received rs, s') \<and> idle 0 [] s'"
  using assms
proof (induction rs fs arbitrary: s rule: list_all2_induct)
  case (Cons r rs f fs)
  then obtain s1 where s1: "read_bytes l f s = Inr ([received r], s1)" "idle 0 [] s1" using frame_read by blast
  with Cons obtain s2 where s2: "read_bytes l (concat fs) s1 = Inr (map received rs, s2)" "idle 0 [] s2" by blast
  with read_bytes_appendI [OF s1(1) s2(1)] show ?case by auto
qed simp

text \<open>At every point of a stream fewer bytes are pending than the longest of its frames has.\<close>

lemma pending_bound:
  assumes "list_all2 (framed l) rs fs" "limits_ok l" "idle 0 [] s" "p @ t = concat fs"
    and "read_bytes l p s = Inr (out, s')"
  shows "rd_frameBytes s' = 0 \<or> (\<exists>f \<in> set fs. rd_frameBytes s' \<le> length f)"
  using assms
proof (induction rs fs arbitrary: s p out rule: list_all2_induct)
  case Nil
  then show ?case by (simp add: idle_def)
next
  case (Cons r rs f fs)
  from frame_read [OF Cons.hyps(1) Cons.prems(1,2)] obtain s1
    where s1: "read_bytes l f s = Inr ([received r], s1)" "idle 0 [] s1" by blast
  show ?case
  proof (cases "length p < length f")
    case True
    with Cons.prems(3) obtain u where u: "f = p @ u" "u \<noteq> []" by (auto simp: append_eq_append_conv2)
    with Cons.prems(4) frame_silent [OF Cons.hyps(1) [unfolded u(1)] u(2) Cons.prems(1,2)] show ?thesis
      by (auto simp: u)
  next
    case False
    with Cons.prems(3) obtain p' where p': "p = f @ p'" "p' @ t = concat fs" by (auto simp: append_eq_append_conv2)
    with Cons.prems(4) s1 obtain o2 where "read_bytes l p' s1 = Inr (o2, s')"
      by (auto simp: read_bytes_append chain_Inr)
    from Cons.IH [OF Cons.prems(1) s1(2) p'(2) this] show ?thesis by auto
  qed
qed

section \<open>Chunks\<close>

fun push_all :: "resp_limits \<Rightarrow> string list \<Rightarrow> (reader, reply list) act" where
  "push_all l [] = returns []"
| "push_all l (c # cs) = andThen (push l c) (\<lambda>out. andThen (push_all l cs) (\<lambda>out'. returns (out @ out')))"

lemma push_reads:
  assumes "read_bytes l c s = Inr (out, s')" "rd_frameBytes s + length c \<le> rl_maxBufferedBytes l"
  shows "push l c s = (Inr out, s')"
  using assms by (simp add: push_def push_loop_read)

lemma push_all_reads:
  assumes "read_bytes l (concat cs) s = Inr (out, s')"
    and "\<And>a c b o1 s1. cs = a @ c # b \<Longrightarrow> read_bytes l (concat a) s = Inr (o1, s1) \<Longrightarrow>
      rd_frameBytes s1 + length c \<le> rl_maxBufferedBytes l"
  shows "push_all l cs s = (Inr out, s')"
  using assms
proof (induction cs arbitrary: s out)
  case (Cons c cs)
  from Cons.prems(1) obtain o1 s1 o2 where r: "read_bytes l c s = Inr (o1, s1)" "read_bytes l (concat cs) s1 = Inr (o2, s')"
    "out = o1 @ o2" by (auto elim: read_bytes_prefix)
  have p: "push l c s = (Inr o1, s1)" by (rule push_reads [OF r(1)]) (use Cons.prems(2) [of "[]" c cs] in simp)
  have "push_all l cs s1 = (Inr o2, s')"
  proof (rule Cons.IH [OF r(2)])
    fix a d b o3 s3
    assume "cs = a @ d # b" "read_bytes l (concat a) s1 = Inr (o3, s3)"
    then show "rd_frameBytes s3 + length d \<le> rl_maxBufferedBytes l"
      using Cons.prems(2) [of "c # a" d b] r(1) by (simp add: read_bytes_append)
  qed
  with p r(3) show ?case by simp
qed simp

lemma stream_delivered:
  assumes l: "limits_ok l" and fs: "list_all2 (framed l) rs fs" and r: "framed l r (q @ t)" "t \<noteq> []"
    and cs: "concat cs = concat fs @ q"
    and fit: "\<forall>c \<in> set cs. \<forall>f \<in> set (fs @ [q @ t]). length f + length c \<le> rl_maxBufferedBytes l"
  shows "\<exists>s'. push_all l cs new_reader = (Inr (map received rs), s') \<and> bufferedBytes s' = length q"
proof -
  obtain s1 where s1: "read_bytes l (concat fs) new_reader = Inr (map received rs, s1)" "idle 0 [] s1"
    using frames_read [OF fs l idle_new] by blast
  obtain s2 where s2: "read_bytes l q s1 = Inr ([], s2)" "rd_frameBytes s2 = length q"
    using frame_silent [OF r l s1(2)] by blast
  have all: "list_all2 (framed l) (rs @ [r]) (fs @ [q @ t])" using fs r(1) by (simp add: list_all2_appendI)
  have "push_all l cs new_reader = (Inr (map received rs), s2)"
  proof (rule push_all_reads)
    show "read_bytes l (concat cs) new_reader = Inr (map received rs, s2)"
      using read_bytes_appendI [OF s1(1) s2(1)] cs by simp
    fix a c b o1 s3
    assume a: "cs = a @ c # b" "read_bytes l (concat a) new_reader = Inr (o1, s3)"
    have "concat a @ c @ concat b @ t = concat (fs @ [q @ t])" using cs a(1) by simp
    from pending_bound [OF all l idle_new this a(2)] fit a(1)
    show "rd_frameBytes s3 + length c \<le> rl_maxBufferedBytes l"
      by (fastforce dest: bspec)
  qed
  with s2(2) show ?thesis by (auto simp: bufferedBytes_def)
qed

section \<open>The decoder's limits and the encoder's\<close>

lemma resp_limit_ok:
  assumes "resp_limit v d = Inr n" "1 \<le> d" "d \<le> 2 ^ 53 - 1"
  shows "1 \<le> n \<and> n \<le> 2 ^ 53 - 1"
proof (cases v)
  case None
  with assms show ?thesis by (simp add: resp_limit_def)
next
  case (Some x)
  with assms(1) obtain q where v: "validatePositiveSafeInteger x None = Inr q" and n: "n = nat \<lfloor>q\<rfloor>"
    by (auto simp: resp_limit_def split: sum.splits)
  from v have q: "of_int \<lfloor>q\<rfloor> = q" "\<bar>q\<bar> \<le> 9007199254740991" "1 \<le> q"
    by (auto simp: validatePositiveSafeInteger_def validateSafeInteger_Inr is_safe_integer_def max_safe_def)
  then have "1 \<le> \<lfloor>q\<rfloor>" "\<lfloor>q\<rfloor> \<le> 9007199254740991" by (auto simp: floor_le_iff)
  then show ?thesis unfolding n by (simp add: nat_le_iff) linarith
qed

lemma limits_ok_default: "limits_ok DEFAULT_RESP_LIMITS"
  by (simp add: limits_ok_def DEFAULT_RESP_LIMITS_def)

lemma new_decoder_ok:
  assumes "new_decoder opts = Inr (l, s)"
  shows "limits_ok l" "s = new_reader"
proof -
  obtain f a b d q where r: "resp_limit (ro_maxFrameBytes opts) (rl_maxFrameBytes DEFAULT_RESP_LIMITS) = Inr f"
    "resp_limit (ro_maxArguments opts) (rl_maxArguments DEFAULT_RESP_LIMITS) = Inr a"
    "resp_limit (ro_maxBulkBytes opts) (rl_maxBulkBytes DEFAULT_RESP_LIMITS) = Inr b"
    "resp_limit (ro_maxDepth opts) (rl_maxDepth DEFAULT_RESP_LIMITS) = Inr d"
    "resp_limit (ro_maxBufferedBytes opts) (rl_maxBufferedBytes DEFAULT_RESP_LIMITS) = Inr q"
    and l: "l = \<lparr>rl_maxFrameBytes = f, rl_maxArguments = a, rl_maxBulkBytes = b, rl_maxDepth = d, rl_maxBufferedBytes = q\<rparr>"
    and s: "s = new_reader"
    using assms unfolding new_decoder_def chain_Inr by blast
  note lim = r [THEN resp_limit_ok]
  have "limits_ok DEFAULT_RESP_LIMITS" by (rule limits_ok_default)
  then have "1 \<le> f \<and> f \<le> 2 ^ 53 - 1" "1 \<le> a \<and> a \<le> 2 ^ 53 - 1" "1 \<le> b \<and> b \<le> 2 ^ 53 - 1"
    "1 \<le> d \<and> d \<le> 2 ^ 53 - 1" "1 \<le> q \<and> q \<le> 2 ^ 53 - 1"
    unfolding limits_ok_def by (blast intro!: lim)+
  then show "limits_ok l" by (simp add: limits_ok_def l)
  show "s = new_reader" by (rule s)
qed

lemma replyByteLength_bound: "replyByteLength r d = Inr n \<Longrightarrow> n \<le> rl_maxFrameBytes DEFAULT_RESP_LIMITS"
  by (cases "(r, d)" rule: replyByteLength.cases)
    (auto simp: within_frame_Inr chain_Inr DEFAULT_RESP_LIMITS_def split: if_splits jsnum.splits)

lemma encodeReply_size:
  "encodeReply r = Inr bs \<Longrightarrow> replyByteLength r 0 = Inr (length bs)"
  using encoded_size(1) [of r 0] by (auto simp: encodeReply_def chain_Inr)

lemma items_bytes_each: "items_bytes rs d n = Inr m \<Longrightarrow> r \<in> set rs \<Longrightarrow> \<exists>k. replyByteLength r d = Inr k"
  by (induction rs arbitrary: n) (auto simp: chain_Inr)

lemma command_framed:
  assumes "encodeCommand args = Inr f" "\<forall>a \<in> set args. valid_utf8 a"
  shows "framed DEFAULT_RESP_LIMITS (Some (command_reply args)) f"
proof -
  let ?rs = "map (\<lambda>a. Some (RBulk (Some a))) args"
  have e: "encodeReply (Some (RArray ?rs)) = Inr f" using assms(1) by (simp add: encodeCommand_def command_reply_def)
  then have size: "replyByteLength (Some (RArray ?rs)) 0 = Inr (length f)" by (rule encodeReply_size)
  then obtain m where m: "items_bytes ?rs 1 (length (len_text (length ?rs)) + 3) = Inr m" "length args \<le> 1024"
    by (auto simp: chain_Inr DEFAULT_RESP_LIMITS_def split: if_splits)
  have "length a \<le> rl_maxBulkBytes DEFAULT_RESP_LIMITS" if "a \<in> set args" for a
    using items_bytes_each [OF m(1), of "Some (RBulk (Some a))"] that by (auto split: if_splits)
  then have "sendable DEFAULT_RESP_LIMITS 0 (Some (RArray ?rs))"
    using assms(2) m(2) by (simp add: list_all_iff) (simp add: DEFAULT_RESP_LIMITS_def)
  with e replyByteLength_bound [OF size] show ?thesis
    by (simp add: framed_def command_reply_def) (simp add: DEFAULT_RESP_LIMITS_def)
qed

lemma requestArgv_received: "args \<noteq> [] \<Longrightarrow> requestArgv (received (Some (command_reply args))) = Inr args"
  by (simp add: requestArgv_def command_reply_def comp_def)

lemma requests_received:
  "\<forall>args \<in> set cmds. args \<noteq> [] \<Longrightarrow> mapO requestArgv (map received (map (\<lambda>args. Some (command_reply args)) cmds)) = Inr cmds"
  by (induction cmds) (simp_all add: requestArgv_received)

text \<open>The same for a stream that ends with its last frame.\<close>

lemma stream_read:
  assumes l: "limits_ok l" and fs: "list_all2 (framed l) rs fs" and cs: "concat cs = concat fs"
    and fit: "\<forall>c \<in> set cs. length c \<le> rl_maxBufferedBytes l \<and> (\<forall>f \<in> set fs. length f + length c \<le> rl_maxBufferedBytes l)"
  shows "\<exists>s'. push_all l cs new_reader = (Inr (map received rs), s') \<and> bufferedBytes s' = 0"
proof -
  obtain s1 where s1: "read_bytes l (concat fs) new_reader = Inr (map received rs, s1)" "idle 0 [] s1"
    using frames_read [OF fs l idle_new] by blast
  have "push_all l cs new_reader = (Inr (map received rs), s1)"
  proof (rule push_all_reads)
    show "read_bytes l (concat cs) new_reader = Inr (map received rs, s1)" using s1(1) cs by simp
    fix a c b o1 s3
    assume a: "cs = a @ c # b" "read_bytes l (concat a) new_reader = Inr (o1, s3)"
    have "concat a @ c @ concat b = concat fs" using cs a(1) by simp
    from pending_bound [OF fs l idle_new this a(2)] fit a(1)
    show "rd_frameBytes s3 + length c \<le> rl_maxBufferedBytes l" by (fastforce dest: bspec)
  qed
  with s1(2) show ?thesis by (auto simp: bufferedBytes_def idle_def)
qed

end
