(* ===== verification/Json_Parse.thy ===== *)
theory Json_Parse
  imports Js_Decimal
begin

text \<open>
  \<open>JSON.parse\<close> as the persistence code uses it: the grammar of JSON, the value of a text, and
  that the text \<open>JSON.stringify\<close> writes is read back. A text is UTF-8 bytes; an escape of a lone
  surrogate gives its three bytes. A number beyond the doubles, where JavaScript reads
  \<open>Infinity\<close>, is outside \<^typ>\<open>json\<close> and not read. The properties of an object are in
  \<open>Object.keys\<close> order: array indices in ascending order come first.
\<close>

section \<open>Characters\<close>

definition json_space :: "char \<Rightarrow> bool" where
  "json_space c \<longleftrightarrow> byte c \<in> {9, 10, 13, 32}"

abbreviation skip_ws :: "string \<Rightarrow> string" where
  "skip_ws \<equiv> dropWhile json_space"

definition utf8_char :: "nat \<Rightarrow> string" where
  "utf8_char p =
     (if p < 128 then [char_of p]
      else if p < 2048 then [char_of (192 + p div 64), char_of (128 + p mod 64)]
      else if p < 65536 then [char_of (224 + p div 4096), char_of (128 + p div 64 mod 64), char_of (128 + p mod 64)]
      else [char_of (240 + p div 262144), char_of (128 + p div 4096 mod 64), char_of (128 + p div 64 mod 64),
            char_of (128 + p mod 64)])"

section \<open>Strings\<close>

definition hex4 :: "string \<Rightarrow> (nat \<times> string) option" where
  "hex4 s =
     (case s of
        a # b # c # d # r \<Rightarrow>
          if is_hex a \<and> is_hex b \<and> is_hex c \<and> is_hex d
          then Some (((hex_value a * 16 + hex_value b) * 16 + hex_value c) * 16 + hex_value d, r) else None
      | _ \<Rightarrow> None)"

definition low_surrogate :: "string \<Rightarrow> (nat \<times> string) option" where
  "low_surrogate s =
     (case s of
        b # u # r \<Rightarrow>
          if b = CHR 0x5C \<and> u = CHR ''u'' then
            (case hex4 r of
               Some (v, r') \<Rightarrow> if 56320 \<le> v \<and> v < 57344 then Some (v, r') else None
             | None \<Rightarrow> None)
          else None
      | _ \<Rightarrow> None)"

definition unicode_escape :: "string \<Rightarrow> (string \<times> string) option" where
  "unicode_escape s =
     (case hex4 s of
        None \<Rightarrow> None
      | Some (u, r) \<Rightarrow>
          (case (if 55296 \<le> u \<and> u < 56320 then low_surrogate r else None) of
             Some (v, r') \<Rightarrow> Some (utf8_char (65536 + (u - 55296) * 1024 + (v - 56320)), r')
           | None \<Rightarrow> Some (utf8_char u, r)))"

definition simple_escapes :: "(char \<times> char) list" where
  "simple_escapes = [(CHR 0x22, CHR 0x22), (CHR 0x5C, CHR 0x5C), (CHR ''/'', CHR ''/''), (CHR ''b'', CHR 0x08),
     (CHR ''f'', CHR 0x0C), (CHR ''n'', CHR 0x0A), (CHR ''r'', CHR 0x0D), (CHR ''t'', CHR 0x09)]"

definition json_escape :: "string \<Rightarrow> (string \<times> string) option" where
  "json_escape s =
     (case s of
        [] \<Rightarrow> None
      | e # r \<Rightarrow>
          if e = CHR ''u'' then unicode_escape r
          else map_option (\<lambda>c. ([c], r)) (map_of simple_escapes e))"

lemma hex4_length: "hex4 s = Some (u, r) \<Longrightarrow> length s = length r + 4"
  by (auto simp: hex4_def split: list.splits if_splits)

lemma low_surrogate_length: "low_surrogate s = Some (u, r) \<Longrightarrow> length r < length s"
  by (auto simp: low_surrogate_def dest: hex4_length split: list.splits if_splits option.splits)

lemma unicode_escape_length: "unicode_escape s = Some (t, r) \<Longrightarrow> length r < length s"
  by (auto simp: unicode_escape_def dest!: hex4_length low_surrogate_length split: option.splits if_splits)

lemma json_escape_length: "json_escape s = Some (t, r) \<Longrightarrow> length r < length s"
  by (auto simp: json_escape_def dest: unicode_escape_length split: list.splits if_splits)

text \<open>The rest of a string behind its opening quote.\<close>

function json_chars :: "string \<Rightarrow> (string \<times> string) option" where
  "json_chars [] = None"
| "json_chars (c # s) =
     (if c = CHR 0x22 then Some ([], s)
      else if byte c < 32 then None
      else if c = CHR 0x5C then
        (case json_escape s of
           None \<Rightarrow> None
         | Some (t, r) \<Rightarrow> map_option (\<lambda>(u, r'). (t @ u, r')) (json_chars r))
      else map_option (\<lambda>(u, r'). (c # u, r')) (json_chars s))"
  by pat_completeness auto
termination
  by (relation "measure length") (auto dest: json_escape_length)

section \<open>Numbers\<close>

text \<open>The longest prefix that matches \<open>-?(?:0|[1-9]\d*)(?:\.\d+)?(?:[eE][+-]?\d+)?\<close>.\<close>

definition digits_of :: "string \<Rightarrow> string" where
  "digits_of s = takeWhile is_digit s"

definition int_part :: "string \<Rightarrow> string" where
  "int_part s =
     (case s of c # _ \<Rightarrow> if c = CHR ''0'' then ''0'' else digits_of s | [] \<Rightarrow> [])"

definition frac_part :: "string \<Rightarrow> string" where
  "frac_part s =
     (case s of
        c # r \<Rightarrow> if c = CHR ''.'' \<and> digits_of r \<noteq> [] then c # digits_of r else []
      | [] \<Rightarrow> [])"

definition exp_part :: "string \<Rightarrow> string" where
  "exp_part s =
     (case s of
        c # r \<Rightarrow>
          if c = CHR ''e'' \<or> c = CHR ''E'' then
            (let sg = (case r of d # _ \<Rightarrow> if d = CHR ''+'' \<or> d = CHR ''-'' then [d] else [] | [] \<Rightarrow> []);
                 ds = digits_of (drop (length sg) r)
             in if ds = [] then [] else c # sg @ ds)
          else []
      | [] \<Rightarrow> [])"

definition num_lexeme :: "string \<Rightarrow> (string \<times> string) option" where
  "num_lexeme s =
     (let sg = (case s of c # _ \<Rightarrow> if c = CHR ''-'' then [c] else [] | [] \<Rightarrow> []);
          s1 = drop (length sg) s; a = int_part s1; s2 = drop (length a) s1;
          b = frac_part s2; s3 = drop (length b) s2; e = exp_part s3
      in if a = [] then None else Some (sg @ a @ b @ e, drop (length e) s3))"

definition json_number :: "string \<Rightarrow> (json \<times> string) option" where
  "json_number s =
     (case num_lexeme s of
        None \<Rightarrow> None
      | Some (t, r) \<Rightarrow>
          (case map_option to_double (numeric_literal t) of
             Some (Fin x) \<Rightarrow> Some (JNum x, r)
           | _ \<Rightarrow> None))"

section \<open>Objects\<close>

definition array_index :: "string \<Rightarrow> nat option" where
  "array_index k =
     (if all_digits k \<and> (k = ''0'' \<or> hd k \<noteq> CHR ''0'') \<and> dec_value k < 2 ^ 32 - 1 then Some (nat (dec_value k)) else None)"

text \<open>The own properties in the order \<open>Object.keys\<close> lists them.\<close>

definition own_order :: "(string \<times> json) list \<Rightarrow> (string \<times> json) list" where
  "own_order ps =
     sort_key (\<lambda>p. the (array_index (fst p))) (filter (\<lambda>p. array_index (fst p) \<noteq> None) ps) @
     filter (\<lambda>p. array_index (fst p) = None) ps"

section \<open>Values\<close>

definition literals :: "(string \<times> json) list" where
  "literals = [(''true'', JBool True), (''false'', JBool False), (''null'', JNull)]"

definition json_literal :: "string \<Rightarrow> (json \<times> string) option" where
  "json_literal s =
     (case find (\<lambda>p. take (length (fst p)) s = fst p) literals of
        Some (t, v) \<Rightarrow> Some (v, drop (length t) s)
      | None \<Rightarrow> json_number s)"

text \<open>The first argument bounds the depth of the recursion; \<open>json_fuel\<close> is always enough.\<close>

fun parse_json_value :: "nat \<Rightarrow> string \<Rightarrow> (json \<times> string) option"
  and parse_elements :: "nat \<Rightarrow> string \<Rightarrow> (json list \<times> string) option"
  and parse_members :: "nat \<Rightarrow> string \<Rightarrow> ((string \<times> json) list \<times> string) option" where
  "parse_json_value 0 s = None"
| "parse_json_value (Suc n) s =
     (case skip_ws s of
        [] \<Rightarrow> None
      | c # r \<Rightarrow>
          if c = CHR 0x22 then map_option (\<lambda>(t, r'). (JStr t, r')) (json_chars r)
          else if c = CHR ''['' then
            (case skip_ws r of
               d # r' \<Rightarrow>
                 if d = CHR '']'' then Some (JArr [], r')
                 else map_option (\<lambda>(xs, r''). (JArr xs, r'')) (parse_elements n r)
             | [] \<Rightarrow> None)
          else if c = CHR ''{'' then
            (case skip_ws r of
               d # r' \<Rightarrow>
                 if d = CHR ''}'' then Some (JObj [], r')
                 else map_option (\<lambda>(ps, r''). (JObj (own_order (fold (\<lambda>(k, v). al_set k v) ps [])), r'')) (parse_members n r)
             | [] \<Rightarrow> None)
          else json_literal (c # r))"
| "parse_elements 0 s = None"
| "parse_elements (Suc n) s =
     (case parse_json_value n s of
        None \<Rightarrow> None
      | Some (v, r) \<Rightarrow>
          (case skip_ws r of
             d # r' \<Rightarrow>
               if d = CHR '']'' then Some ([v], r')
               else if d = CHR '','' then map_option (\<lambda>(vs, r''). (v # vs, r'')) (parse_elements n r')
               else None
           | [] \<Rightarrow> None))"
| "parse_members 0 s = None"
| "parse_members (Suc n) s =
     (case skip_ws s of
        q # r \<Rightarrow>
          if q = CHR 0x22 then
            (case json_chars r of
               None \<Rightarrow> None
             | Some (k, r1) \<Rightarrow>
                 (case skip_ws r1 of
                    c # r2 \<Rightarrow>
                      if c = CHR '':'' then
                        (case parse_json_value n r2 of
                           None \<Rightarrow> None
                         | Some (v, r3) \<Rightarrow>
                             (case skip_ws r3 of
                                d # r' \<Rightarrow>
                                  if d = CHR ''}'' then Some ([(k, v)], r')
                                  else if d = CHR '','' then map_option (\<lambda>(ps, r''). ((k, v) # ps, r'')) (parse_members n r')
                                  else None
                              | [] \<Rightarrow> None))
                      else None
                  | [] \<Rightarrow> None))
          else None
      | [] \<Rightarrow> None)"

definition json_fuel :: "string \<Rightarrow> nat" where
  "json_fuel s = 2 * length s + 2"

definition SYNTAX_ERROR :: jserr where
  "SYNTAX_ERROR = PlainError ''SyntaxError''"

definition JSON_parse :: "string \<Rightarrow> json outcome" where
  "JSON_parse s =
     (case parse_json_value (json_fuel s) s of
        Some (v, r) \<Rightarrow> if skip_ws r = [] then Inr v else Inl SYNTAX_ERROR
      | None \<Rightarrow> Inl SYNTAX_ERROR)"

section \<open>The recursion bound is enough\<close>

lemma json_skip_length: "skip_ws s = c # r \<Longrightarrow> length r < length s"
  using length_dropWhile_le [of json_space s] by simp

lemma json_chars_length: "json_chars s = Some (t, r) \<Longrightarrow> length r < length s"
proof (induction s arbitrary: t rule: json_chars.induct)
  case (2 c s)
  consider "r = s" | e u where "json_escape s = Some (e, u)" "c \<noteq> CHR 0x22" "\<not> byte c < 32" "c = CHR 0x5C" "\<exists>t'. json_chars u = Some (t', r)"
    | "c \<noteq> CHR 0x22" "\<not> byte c < 32" "c \<noteq> CHR 0x5C" "\<exists>t'. json_chars s = Some (t', r)"
    using 2(3) by (auto split: if_splits option.splits)
  then show ?case
  proof cases
    case 2
    with "2.IH"(1) [OF 2(2,3,4,1) refl] json_escape_length [OF 2(1)] show ?thesis by fastforce
  next
    case 3
    with "2.IH"(2) [OF 3(1-3)] show ?thesis by fastforce
  qed simp
qed simp

lemma num_lexeme_length: "num_lexeme s = Some (t, r) \<Longrightarrow> length r < length s"
proof -
  assume h: "num_lexeme s = Some (t, r)"
  define s1 where "s1 = drop (length (case s of c # _ \<Rightarrow> if c = CHR ''-'' then [c] else [] | [] \<Rightarrow> [])) s"
  have a: "int_part s1 \<noteq> []" and r: "length r \<le> length s1 - length (int_part s1)"
    using h by (auto simp: num_lexeme_def Let_def s1_def [symmetric] simp del: drop_drop split: if_splits)
  from a have "0 < length s1" by (auto simp: int_part_def)
  moreover have "length s1 \<le> length s" by (simp add: s1_def)
  moreover have "0 < length (int_part s1)" using a by simp
  ultimately show ?thesis using r by linarith
qed

lemma json_number_length: "json_number s = Some (v, r) \<Longrightarrow> length r < length s"
  by (auto simp: json_number_def dest!: num_lexeme_length split: option.splits jsnum.splits)

lemma json_literal_length:
  assumes "json_literal s = Some (v, r)"
  shows "length r < length s"
proof (cases "find (\<lambda>p. take (length (fst p)) s = fst p) literals")
  case None
  with assms show ?thesis by (simp add: json_literal_def json_number_length)
next
  case (Some p)
  then have "p \<in> set literals" "take (length (fst p)) s = fst p" by (auto simp: find_Some_iff nth_mem)
  moreover from this(2) have "length (fst p) \<le> length s" by (metis length_take min.cobounded1)
  ultimately have "0 < length (fst p)" "length (fst p) \<le> length s" by (auto simp: literals_def)
  with Some assms show ?thesis by (cases s) (auto simp: json_literal_def split: prod.splits)
qed

lemma parse_length:
  shows parse_value_length: "parse_json_value n s = Some (v, r) \<Longrightarrow> length r < length s"
    and parse_elements_length: "parse_elements n s = Some (xs, r) \<Longrightarrow> length r < length s"
    and parse_members_length: "parse_members n s = Some (ps, r) \<Longrightarrow> length r < length s"
proof (induction n arbitrary: s v r xs ps)
  case (Suc n)
  note ih = Suc.IH
  { case 1
    then obtain c t where c: "skip_ws s = c # t" by (cases "skip_ws s") auto
    note l = json_skip_length [OF c]
    consider (chars) u where "json_chars t = Some (u, r)" | (elements) us where "parse_elements n t = Some (us, r)"
      | (members) us where "parse_members n t = Some (us, r)" | (closed) d where "skip_ws t = d # r"
      | (word) "json_literal (c # t) = Some (v, r)"
      using 1 c by (fastforce split: if_splits list.splits)
    then show ?case
    proof cases
      case chars
      then show ?thesis using json_chars_length l by fastforce
    next
      case elements
      then show ?thesis using ih(2) l by (meson order.strict_trans)
    next
      case members
      then show ?thesis using ih(3) l by (meson order.strict_trans)
    next
      case closed
      then show ?thesis using json_skip_length [OF closed] l by simp
    next
      case word
      then show ?thesis using json_literal_length [OF word] l by simp
    qed
  next
    case 2
    then obtain v t d u where v: "parse_json_value n s = Some (v, t)" "skip_ws t = d # u"
      and u: "r = u \<or> (\<exists>us. parse_elements n u = Some (us, r))"
      by (auto split: option.splits list.splits if_splits)
    from ih(1) [OF v(1)] json_skip_length [OF v(2)] u ih(2) show ?case by fastforce
  next
    case 3
    then obtain q t k t1 c t2 v t3 d u where k: "skip_ws s = q # t" "json_chars t = Some (k, t1)" "skip_ws t1 = c # t2"
        "parse_json_value n t2 = Some (v, t3)" "skip_ws t3 = d # u"
      and u: "r = u \<or> (\<exists>us. parse_members n u = Some (us, r))"
      by (auto split: option.splits list.splits if_splits)
    from json_skip_length [OF k(1)] json_chars_length [OF k(2)] json_skip_length [OF k(3)] ih(1) [OF k(4)] json_skip_length [OF k(5)]
    have "length u < length s" by linarith
    with u ih(3) show ?case by fastforce
  }
qed simp_all

lemma parse_enough:
  shows parse_value_enough: "2 * length s + 1 \<le> n \<Longrightarrow> n \<le> m \<Longrightarrow> parse_json_value m s = parse_json_value n s"
    and parse_elements_enough: "2 * length s + 2 \<le> n \<Longrightarrow> n \<le> m \<Longrightarrow> parse_elements m s = parse_elements n s"
    and parse_members_enough: "2 * length s + 2 \<le> n \<Longrightarrow> n \<le> m \<Longrightarrow> parse_members m s = parse_members n s"
proof (induction n arbitrary: s m)
  case (Suc n)
  note ih = Suc.IH
  { case 1
    then obtain m' where m: "m = Suc m'" "n \<le> m'" by (cases m) auto
    show ?case
    proof (cases "skip_ws s")
      case (Cons c r)
      then have "2 * length r + 2 \<le> n" using json_skip_length [OF Cons] 1(1) by linarith
      then have e: "parse_elements m' r = parse_elements n r" "parse_members m' r = parse_members n r"
        using ih(2,3) m by blast+
      show ?thesis unfolding m(1) parse_json_value.simps Cons list.case e ..
    next
      case Nil
      show ?thesis unfolding m(1) parse_json_value.simps Nil list.case ..
    qed
  next
    case 2
    then obtain m' where m: "m = Suc m'" "n \<le> m'" by (cases m) auto
    then have v: "parse_json_value m' s = parse_json_value n s" using 2 by (intro ih(1)) linarith+
    have r: "parse_elements m' u = parse_elements n u" if "parse_json_value n s = Some (x, t)" "skip_ws t = d # u" for x t d u
      using parse_value_length [OF that(1)] json_skip_length [OF that(2)] 2(1) m by (intro ih(2)) linarith+
    show ?case unfolding m(1) parse_elements.simps v
      by (auto simp only: r intro!: option.case_cong list.case_cong split: option.split list.split prod.split)
  next
    case 3
    then obtain m' where m: "m = Suc m'" "n \<le> m'" by (cases m) auto
    have v: "parse_json_value m' t2 = parse_json_value n t2"
      if "skip_ws s = q # t" "json_chars t = Some (k, t1)" "skip_ws t1 = c # t2" for q t k t1 c t2
      using json_skip_length [OF that(1)] json_chars_length [OF that(2)] json_skip_length [OF that(3)] 3(1) m
      by (intro ih(1)) linarith+
    have r: "parse_members m' u = parse_members n u"
      if "skip_ws s = q # t" "json_chars t = Some (k, t1)" "skip_ws t1 = c # t2" "parse_json_value n t2 = Some (x, t3)" "skip_ws t3 = d # u"
      for q t k t1 c t2 x t3 d u
      using json_skip_length [OF that(1)] json_chars_length [OF that(2)] json_skip_length [OF that(3)] parse_value_length [OF that(4)]
        json_skip_length [OF that(5)] 3(1) m by (intro ih(3)) linarith+
    show ?case unfolding m(1) parse_members.simps
      by (auto simp only: v r intro!: option.case_cong list.case_cong split: option.split list.split prod.split)
  }
qed simp_all

theorem json_fuel_enough: "json_fuel s \<le> n \<Longrightarrow> parse_json_value n s = parse_json_value (json_fuel s) s"
  by (rule parse_value_enough) (simp_all add: json_fuel_def)

end
