(* ===== verification/Json_Read.thy ===== *)
theory Json_Read
  imports Json_Parse
begin

text \<open>
  \<open>JSON.parse\<close> reads back what \<open>JSON.stringify\<close> writes, for values whose numbers are integers
  up to \<open>2 ^ 53\<close> and whose objects list their properties in \<open>Object.keys\<close> order.
\<close>

section \<open>Strings\<close>

lemma hex_digit_bytes: "k < 16 \<Longrightarrow> byte (hex_digit k) = (if k < 10 then 48 + k else 87 + k)"
  by (simp add: hex_digit_def byte_def)

lemma hex_digit_value: "k < 16 \<Longrightarrow> is_hex (hex_digit k) \<and> hex_value (hex_digit k) = k"
  by (auto simp: is_hex_def hex_value_def is_digit_def hex_digit_bytes)

lemma hex4_quote: "k < 256 \<Longrightarrow> hex4 (CHR ''0'' # CHR ''0'' # hex_digit (k div 16) # hex_digit (k mod 16) # r) = Some (k, r)"
  using hex_digit_value [of "k div 16"] hex_digit_value [of "k mod 16"] hex_digit_value [of 0]
  by (simp add: hex4_def hex_digit_def [of 0] char_of_def less_mult_imp_div_less) (simp add: is_hex_def hex_value_def is_digit_def byte_def)

lemma utf8_char_byte: "byte c < 128 \<Longrightarrow> utf8_char (byte c) = [c]"
  by (simp add: utf8_char_def byte_def)

lemma json_chars_escape:
  "json_escape s = Some (t, r) \<Longrightarrow> json_chars (CHR 0x5C # s) = map_option (\<lambda>(u, r'). (t @ u, r')) (json_chars r)"
  by (simp add: byte_def)

lemma json_chars_plain:
  "c \<noteq> CHR 0x22 \<Longrightarrow> 32 \<le> byte c \<Longrightarrow> c \<noteq> CHR 0x5C \<Longrightarrow>
   json_chars (c # s) = map_option (\<lambda>(u, r'). (c # u, r')) (json_chars s)"
  by simp

lemma simple_escape:
  "json_escape (CHR 0x22 # s) = Some ([CHR 0x22], s)" "json_escape (CHR 0x5C # s) = Some ([CHR 0x5C], s)"
  "json_escape (CHR ''b'' # s) = Some ([CHR 0x08], s)" "json_escape (CHR ''t'' # s) = Some ([CHR 0x09], s)"
  "json_escape (CHR ''n'' # s) = Some ([CHR 0x0A], s)" "json_escape (CHR ''f'' # s) = Some ([CHR 0x0C], s)"
  "json_escape (CHR ''r'' # s) = Some ([CHR 0x0D], s)"
  by (simp_all add: json_escape_def simple_escapes_def)

lemma unicode_quote: "byte c < 32 \<Longrightarrow>
  json_escape (CHR ''u'' # CHR ''0'' # CHR ''0'' # hex_digit (byte c div 16) # hex_digit (byte c mod 16) # s) = Some ([c], s)"
  by (simp add: json_escape_def unicode_escape_def hex4_quote utf8_char_byte)

lemma json_chars_quote_char:
  "json_chars (quote_char c @ s) = map_option (\<lambda>(u, r). (c # u, r)) (json_chars s)"
proof -
  consider (simple) "c \<in> {CHR 0x22, CHR 0x5C, CHR 0x08, CHR 0x09, CHR 0x0A, CHR 0x0C, CHR 0x0D}"
    | (control) "byte c < 32" "c \<notin> {CHR 0x22, CHR 0x5C, CHR 0x08, CHR 0x09, CHR 0x0A, CHR 0x0C, CHR 0x0D}"
    | (plain) "32 \<le> byte c" "c \<noteq> CHR 0x22" "c \<noteq> CHR 0x5C"
    by (cases "byte c < 32") auto
  then show ?thesis
  proof cases
    case simple
    then show ?thesis by (auto simp: quote_char_def json_chars_escape simple_escape simp del: json_chars.simps)
  next
    case control
    then have "quote_char c = CHR 0x5C # CHR ''u'' # CHR ''0'' # CHR ''0'' # hex_digit (byte c div 16) # [hex_digit (byte c mod 16)]"
      by (simp add: quote_char_def byte_def)
    then show ?thesis using control(1)
      by (simp add: json_chars_escape unicode_quote del: json_chars.simps)
  next
    case plain
    then have "quote_char c = [c]" by (auto simp: quote_char_def byte_def)
    with plain show ?thesis by (simp add: json_chars_plain del: json_chars.simps)
  qed
qed

lemma json_chars_quoted: "json_chars (concat (map quote_char s) @ CHR 0x22 # r) = Some (s, r)"
  by (induction s) (simp_all add: json_chars_quote_char del: json_chars.simps(2), simp)

section \<open>Numbers\<close>

text \<open>The texts that can follow a value without becoming a part of it.\<close>

definition stops :: "string \<Rightarrow> bool" where
  "stops r \<longleftrightarrow> (case r of [] \<Rightarrow> True | c # _ \<Rightarrow> c = CHR '','' \<or> c = CHR '']'' \<or> c = CHR ''}'' \<or> c = CHR ''{'' \<or> json_space c)"

lemma stops_char: "stops (c # r) \<Longrightarrow> \<not> is_digit c \<and> c \<noteq> CHR ''.'' \<and> c \<noteq> CHR ''e'' \<and> c \<noteq> CHR ''E''"
  by (auto simp: stops_def json_space_def is_digit_def byte_def)

lemma nat_text_lead: "0 \<le> n \<Longrightarrow> hd (nat_text n) = CHR ''0'' \<Longrightarrow> nat_text n = ''0''"
proof (induction n rule: digits_rev.induct)
  case (1 n)
  show ?case
  proof (cases "n < 10")
    case True
    with 1 show ?thesis by (simp add: nat_text_small)
  next
    case False
    then have e: "nat_text n = nat_text (n div 10) @ [char_of (48 + n mod 10)]" by (simp add: nat_text_step)
    have ne: "nat_text (n div 10) \<noteq> []" using nat_text_ne [of "n div 10"] 1(2) by simp
    then have "hd (nat_text (n div 10)) = CHR ''0''" using 1(3) by (simp add: e)
    with 1 False have "nat_text (n div 10) = ''0''" by simp
    then have "dec_value (nat_text (n div 10)) = 0" by (simp add: digits_value_def byte_def)
    with nat_text_digits [of "n div 10"] 1(2) have "n div 10 = 0" by simp
    with False show ?thesis by linarith
  qed
qed

lemma digits_of_append: "list_all is_digit d \<Longrightarrow> (case r of c # _ \<Rightarrow> \<not> is_digit c | [] \<Rightarrow> True) \<Longrightarrow> digits_of (d @ r) = d"
  unfolding digits_of_def by (induction d) (auto split: list.splits)

lemma int_part_nat:
  assumes "0 \<le> n" "stops r"
  shows "int_part (nat_text n @ r) = nat_text n"
proof -
  obtain c d where cd: "nat_text n = c # d" using nat_text_ne [OF assms(1)] by (cases "nat_text n") auto
  have "list_all is_digit (nat_text n)" using nat_text_digits [OF assms(1)] by (simp add: all_digits_def)
  then have "digits_of (nat_text n @ r) = nat_text n"
    by (rule digits_of_append) (use assms(2) stops_char in \<open>auto split: list.splits\<close>)
  then show ?thesis using nat_text_lead [OF assms(1)] cd by (auto simp: int_part_def)
qed

lemma stops_parts: "stops r \<Longrightarrow> frac_part r = []" "stops r \<Longrightarrow> exp_part r = []"
  using stops_char by (auto simp: frac_part_def exp_part_def split: list.splits)

lemma num_lexeme_int: "stops r \<Longrightarrow> num_lexeme (int_text i @ r) = Some (int_text i, r)"
proof -
  assume r: "stops r"
  show ?thesis
  proof (cases "i < 0")
    case True
    then show ?thesis using r nat_text_ne [of "- i"]
      by (simp add: num_lexeme_def int_text_def int_part_nat stops_parts)
  next
    case False
    then obtain c d where cd: "nat_text i = c # d" using nat_text_ne [of i] by (cases "nat_text i") auto
    then have "c \<noteq> CHR ''-''" using nat_text_hd [of i] False not_digit by auto
    then show ?thesis using r False int_part_nat [of i r] cd
      by (simp add: num_lexeme_def int_text_def stops_parts)
  qed
qed

definition plain_number :: "rat \<Rightarrow> bool" where
  "plain_number x \<longleftrightarrow> of_int \<lfloor>x\<rfloor> = x \<and> \<bar>x\<bar> \<le> 2 ^ 53"

lemma plain_number_text:
  assumes "plain_number x"
  obtains i where "num_text x = int_text i" "x = of_int i" "to_double (of_int i) = Fin x"
proof -
  have x: "x = of_int \<lfloor>x\<rfloor>" "\<bar>x\<bar> \<le> of_int (2 ^ 53)" using assms by (auto simp: plain_number_def)
  then have "\<bar>\<lfloor>x\<rfloor>\<bar> \<le> 2 ^ 53" by (metis of_int_abs of_int_le_iff)
  with to_double_int [of "\<lfloor>x\<rfloor>"] x assms that [of "\<lfloor>x\<rfloor>"] show ?thesis by (simp add: num_text_def plain_number_def)
qed

lemma json_number_plain: "plain_number x \<Longrightarrow> stops r \<Longrightarrow> json_number (num_text x @ r) = Some (JNum x, r)"
  by (erule plain_number_text) (simp add: json_number_def num_lexeme_int numeric_literal_int)

section \<open>Values\<close>

fun readable :: "json \<Rightarrow> bool" where
  "readable (JNum x) = plain_number x"
| "readable (JArr xs) = (\<forall>x \<in> set xs. readable x)"
| "readable (JObj ps) = (distinct_keys ps \<and> own_order ps = ps \<and> (\<forall>p \<in> set ps. readable (snd p)))"
| "readable _ = True"

text \<open>No value starts with white space or with a closing bracket.\<close>

lemma int_text_head: "\<exists>c d. int_text i = c # d \<and> (c = CHR ''-'' \<or> is_digit c)"
proof (cases "i < 0")
  case False
  then show ?thesis using nat_text_ne [of i] nat_text_hd [of i] by (cases "nat_text i") (auto simp: int_text_def)
qed (auto simp: int_text_def)

definition starts_value :: "char \<Rightarrow> bool" where
  "starts_value c \<longleftrightarrow> c \<in> {CHR 0x22, CHR ''['', CHR ''{'', CHR ''t'', CHR ''f'', CHR ''n'', CHR ''-''} \<or> is_digit c"

lemma json_text_head:
  assumes "readable v"
  obtains c d where "json_text v = c # d" "starts_value c"
proof (cases v)
  case (JNum x)
  with assms obtain i where "json_text v = int_text i" by (auto elim: plain_number_text)
  with int_text_head [of i] that show ?thesis by (auto simp: starts_value_def)
next
  case (JBool b)
  with that show ?thesis by (cases b) (auto simp: starts_value_def)
qed (use that in \<open>auto simp: starts_value_def quote_text_def\<close>)

lemma starts_value_char: "starts_value c \<Longrightarrow> \<not> json_space c \<and> c \<noteq> CHR '']'' \<and> c \<noteq> CHR ''}''"
  by (auto simp: starts_value_def json_space_def is_digit_def byte_def)

lemma skip_ws_text: "readable v \<Longrightarrow> skip_ws (json_text v @ r) = json_text v @ r"
  by (erule json_text_head) (simp add: starts_value_char)

lemma skip_ws_char: "\<not> json_space c \<Longrightarrow> skip_ws (c # r) = c # r"
  by simp

lemma punctuation: "\<not> json_space CHR 0x22" "\<not> json_space CHR '':''" "\<not> json_space CHR '',''" "\<not> json_space CHR '']''"
    "\<not> json_space CHR ''}''" "\<not> json_space CHR ''[''" "\<not> json_space CHR ''{''"
  by (simp_all add: json_space_def byte_def)

lemma stops_punctuation: "stops (CHR '','' # r)" "stops (CHR '']'' # r)" "stops (CHR ''}'' # r)" "stops []"
  by (simp_all add: stops_def)

lemma number_head:
  assumes "plain_number x"
  shows "\<exists>c d. num_text x = c # d \<and> (c = CHR ''-'' \<or> is_digit c)"
  using plain_number_text [OF assms] int_text_head by metis

lemma digit_no_literal: "c = CHR ''-'' \<or> is_digit c \<Longrightarrow> json_literal (c # d) = json_number (c # d)"
  by (auto simp: json_literal_def literals_def is_digit_def byte_def)

lemma read_number:
  assumes "plain_number x" "stops r"
  shows "parse_json_value (Suc n) (num_text x @ r) = Some (JNum x, r)"
proof -
  obtain c d where c: "num_text x = c # d" "c = CHR ''-'' \<or> is_digit c" using number_head [OF assms(1)] by blast
  then have "c \<noteq> CHR 0x22" "c \<noteq> CHR ''[''" "c \<noteq> CHR ''{''" "\<not> json_space c"
    by (auto simp: is_digit_def byte_def json_space_def)
  with c json_number_plain [OF assms] digit_no_literal [OF c(2), of "d @ r"] show ?thesis by simp
qed

lemma read_word:
  assumes "(t, v) \<in> set literals"
  shows "parse_json_value (Suc n) (t @ r) = Some (v, r)"
  using assms by (auto simp: literals_def json_literal_def json_space_def byte_def)

lemma fold_al_set_distinct: "distinct_keys (qs @ ps) \<Longrightarrow> fold (\<lambda>(k, v). al_set k v) ps qs = qs @ ps"
proof (induction ps arbitrary: qs)
  case (Cons p ps)
  obtain k v where p: "p = (k, v)" by force
  with Cons.prems have "k \<notin> fst ` set qs" by (auto simp: distinct_keys_def)
  then have "al_set k v qs = qs @ [p]" by (simp add: al_set_notin p)
  with Cons p show ?case by simp
qed simp

lemma length_json_text: "readable v \<Longrightarrow> 0 < length (json_text v)"
  by (erule json_text_head) simp

abbreviation member_text :: "string \<times> json \<Rightarrow> string" where
  "member_text p \<equiv> quote_text (fst p) @ CHR '':'' # json_text (snd p)"

definition reads_back :: "json \<Rightarrow> bool" where
  "reads_back v \<longleftrightarrow> (\<forall>n r. 2 * length (json_text v) \<le> n \<longrightarrow> stops r \<longrightarrow> parse_json_value n (json_text v @ r) = Some (v, r))"

lemma reads_backD: "reads_back v \<Longrightarrow> 2 * length (json_text v) \<le> n \<Longrightarrow> stops r \<Longrightarrow>
    parse_json_value n (json_text v @ r) = Some (v, r)"
  by (simp add: reads_back_def)

lemma read_elements:
  assumes "xs \<noteq> []" "\<forall>x \<in> set xs. readable x \<and> reads_back x"
    and "2 * length (comma_sep (map json_text xs)) + 1 \<le> n"
  shows "parse_elements n (comma_sep (map json_text xs) @ CHR '']'' # r) = Some (xs, r)"
  using assms
proof (induction xs arbitrary: n)
  case (Cons x xs)
  then obtain m where n: "n = Suc m" by (cases n) auto
  show ?case
  proof (cases xs)
    case Nil
    with Cons.prems n reads_backD [of x m "CHR '']'' # r"] show ?thesis by (simp add: stops_punctuation punctuation)
  next
    case (Cons y ys)
    define t where "t = comma_sep (map json_text xs) @ CHR '']'' # r"
    have "comma_sep (map json_text (x # xs)) @ CHR '']'' # r = json_text x @ CHR '','' # t"
      by (simp add: t_def Cons)
    moreover have "parse_json_value m (json_text x @ CHR '','' # t) = Some (x, CHR '','' # t)"
      by (rule reads_backD) (use Cons.prems n Cons in \<open>simp_all add: stops_punctuation\<close>)
    moreover have "parse_elements m t = Some (xs, r)"
      unfolding t_def by (rule Cons.IH) (use Cons.prems n Cons length_json_text [of x] in auto)
    ultimately show ?thesis by (simp add: n punctuation)
  qed
qed simp

lemma read_members:
  assumes "ps \<noteq> []" "\<forall>p \<in> set ps. readable (snd p) \<and> reads_back (snd p)"
    and "2 * length (comma_sep (map member_text ps)) + 1 \<le> n"
  shows "parse_members n (comma_sep (map member_text ps) @ CHR ''}'' # r) = Some (ps, r)"
  using assms
proof (induction ps arbitrary: n)
  case (Cons p ps)
  obtain k v where p: "p = (k, v)" by force
  from Cons.prems obtain m where n: "n = Suc m" by (cases n) auto
  have m: "2 * length (json_text v) \<le> m" "reads_back v"
    using Cons.prems p n by (cases ps; simp add: quote_text_def)+
  have key: "json_chars (concat (map quote_char k) @ CHR 0x22 # s) = Some (k, s)" for s by (rule json_chars_quoted)
  show ?case
  proof (cases ps)
    case Nil
    with reads_backD [OF m(2,1), of "CHR ''}'' # r"] show ?thesis
      by (simp add: n p quote_text_def punctuation stops_punctuation key)
  next
    case (Cons q qs)
    define t where "t = comma_sep (map member_text ps) @ CHR ''}'' # r"
    have e: "comma_sep (map member_text (p # ps)) @ CHR ''}'' # r =
        CHR 0x22 # concat (map quote_char k) @ CHR 0x22 # CHR '':'' # json_text v @ CHR '','' # t"
      by (simp add: t_def Cons p quote_text_def)
    have v: "parse_json_value m (json_text v @ CHR '','' # t) = Some (v, CHR '','' # t)"
      by (rule reads_backD [OF m(2,1)]) (simp add: stops_punctuation)
    have "parse_members m t = Some (ps, r)"
      unfolding t_def by (rule Cons.IH) (use Cons.prems n Cons p in \<open>auto simp: quote_text_def\<close>)
    then show ?thesis unfolding e by (simp add: n p punctuation key v)
  qed
qed simp

lemma comma_sep_head: "xs \<noteq> [] \<Longrightarrow> hd xs = c # d \<Longrightarrow> \<exists>d'. comma_sep xs = c # d'"
  by (induction xs rule: comma_sep.induct) auto

lemma reads_back_array:
  assumes "readable (JArr xs)" "\<forall>x \<in> set xs. reads_back x"
  shows "reads_back (JArr xs)"
  unfolding reads_back_def
proof (intro allI impI)
  fix n r assume n: "2 * length (json_text (JArr xs)) \<le> n"
  then obtain m where m: "n = Suc m" by (cases n) auto
  show "parse_json_value n (json_text (JArr xs) @ r) = Some (JArr xs, r)"
  proof (cases "xs = []")
    case True
    then show ?thesis by (simp add: m punctuation)
  next
    case False
    then obtain x xs' where x: "xs = x # xs'" by (cases xs) auto
    with assms obtain c d where "json_text x = c # d" "starts_value c" by (auto elim: json_text_head)
    with comma_sep_head [of "map json_text xs"] x obtain d' where c: "comma_sep (map json_text xs) = c # d'" "starts_value c" by auto
    have "parse_elements m (comma_sep (map json_text xs) @ CHR '']'' # r) = Some (xs, r)"
      by (rule read_elements) (use assms False n m in auto)
    with c starts_value_char [OF c(2)] show ?thesis by (simp add: m punctuation)
  qed
qed

lemma reads_back_object:
  assumes "readable (JObj ps)" "\<forall>p \<in> set ps. reads_back (snd p)"
  shows "reads_back (JObj ps)"
  unfolding reads_back_def
proof (intro allI impI)
  fix n r assume n: "2 * length (json_text (JObj ps)) \<le> n"
  then obtain m where m: "n = Suc m" by (cases n) auto
  show "parse_json_value n (json_text (JObj ps) @ r) = Some (JObj ps, r)"
  proof (cases "ps = []")
    case True
    then show ?thesis by (simp add: m punctuation)
  next
    case False
    then obtain p ps' where p: "ps = p # ps'" by (cases ps) auto
    with comma_sep_head [of "map member_text ps"] obtain d' where c: "comma_sep (map member_text ps) = CHR 0x22 # d'"
      by (auto simp: quote_text_def)
    have "parse_members m (comma_sep (map member_text ps) @ CHR ''}'' # r) = Some (ps, r)"
      by (rule read_members) (use assms False n m in auto)
    moreover have "own_order (fold (\<lambda>(k, v). al_set k v) ps []) = ps"
      using assms(1) fold_al_set_distinct [of "[]" ps] by simp
    ultimately show ?thesis using c by (simp add: m punctuation)
  qed
qed

lemma readable_reads_back: "readable v \<Longrightarrow> reads_back v"
proof (induction v rule: json_induct)
  case (JNum x)
  show ?case unfolding reads_back_def
  proof (intro allI impI)
    fix n r assume n: "2 * length (json_text (JNum x)) \<le> n" and r: "stops r"
    then obtain m where "n = Suc m" using length_json_text [OF JNum] by (cases n) auto
    with read_number [of x r m] JNum r show "parse_json_value n (json_text (JNum x) @ r) = Some (JNum x, r)" by simp
  qed
next
  case (JStr t)
  show ?case unfolding reads_back_def
  proof (intro allI impI)
    fix n r assume n: "2 * length (json_text (JStr t)) \<le> n"
    then obtain m where "n = Suc m" by (cases n) (auto simp: quote_text_def)
    then show "parse_json_value n (json_text (JStr t) @ r) = Some (JStr t, r)"
      by (simp add: quote_text_def punctuation json_chars_quoted)
  qed
next
  case (JArr xs)
  then show ?case by (intro reads_back_array) auto
next
  case (JObj ps)
  then show ?case by (intro reads_back_object) auto
next
  case JNull
  show ?case unfolding reads_back_def
  proof (intro allI impI)
    fix n r assume "2 * length (json_text JNull) \<le> n"
    then obtain m where "n = Suc m" by (cases n) auto
    with read_word [of "''null''" JNull m r] show "parse_json_value n (json_text JNull @ r) = Some (JNull, r)"
      by (simp add: literals_def del: parse_json_value.simps)
  qed
next
  case (JBool b)
  show ?case unfolding reads_back_def
  proof (intro allI impI)
    fix n r assume "2 * length (json_text (JBool b)) \<le> n"
    then obtain m where "n = Suc m" by (cases n) (auto split: if_splits)
    with read_word [of "''true''" "JBool True" m r] read_word [of "''false''" "JBool False" m r]
    show "parse_json_value n (json_text (JBool b) @ r) = Some (JBool b, r)"
      by (simp add: literals_def del: parse_json_value.simps)
  qed
qed

theorem JSON_parse_text: "readable v \<Longrightarrow> JSON_parse (json_text v) = Inr v"
  using reads_backD [OF readable_reads_back, of v "json_fuel (json_text v)" "[]"]
  by (simp add: JSON_parse_def json_fuel_def stops_def)

end
