(* ===== verification/Json_Prefix.thy ===== *)
theory Json_Prefix
  imports Json_Read
begin

text \<open>
  The scanner that tells a cut-off JSON text from a corrupt one (\<open>src/src/json-prefix.ts\<close>). Its
  exceptions \<open>incomplete\<close> and \<open>invalid\<close> are results; the position \<open>at\<close> is the rest of the text.
\<close>

section \<open>The scanner\<close>

datatype scan = Done string | Incomplete | Invalid

fun scan_then :: "scan \<Rightarrow> (string \<Rightarrow> scan) \<Rightarrow> scan" where
  "scan_then (Done r) f = f r"
| "scan_then Incomplete f = Incomplete"
| "scan_then Invalid f = Invalid"

definition need :: "char \<Rightarrow> string \<Rightarrow> scan" where
  "need c s = (case skip_ws s of [] \<Rightarrow> Incomplete | d # r \<Rightarrow> if d \<noteq> c then Invalid else Done r)"

fun scan_hex :: "nat \<Rightarrow> string \<Rightarrow> scan" where
  "scan_hex 0 s = Done s"
| "scan_hex (Suc n) [] = Incomplete"
| "scan_hex (Suc n) (c # s) = (if \<not> is_hex c then Invalid else scan_hex n s)"

definition scan_escape :: "string \<Rightarrow> scan" where
  "scan_escape s =
     (case s of
        [] \<Rightarrow> Incomplete
      | e # r \<Rightarrow> if e = CHR ''u'' then scan_hex 4 r else if e \<in> fst ` set simple_escapes then Done r else Invalid)"

lemma scan_hex_length: "scan_hex n s = Done r \<Longrightarrow> length r \<le> length s"
  by (induction n s rule: scan_hex.induct) (auto split: if_splits)

lemma scan_escape_length:
  assumes "scan_escape s = Done r"
  shows "length r < length s"
proof -
  from assms obtain e t where s: "s = e # t" by (auto simp: scan_escape_def split: list.splits)
  with assms have "scan_hex 4 t = Done r \<or> t = r" by (auto simp: scan_escape_def simp del: scan_hex.simps split: if_splits)
  with s scan_hex_length show ?thesis by fastforce
qed

function scan_chars :: "string \<Rightarrow> scan" where
  "scan_chars [] = Incomplete"
| "scan_chars (c # s) =
     (if c = CHR 0x22 then Done s
      else if byte c < 32 then Invalid
      else if c = CHR 0x5C then (case scan_escape s of Done r \<Rightarrow> scan_chars r | x \<Rightarrow> x)
      else scan_chars s)"
  by pat_completeness auto
termination
  by (relation "measure length") (auto dest: scan_escape_length)

definition scan_string :: "string \<Rightarrow> scan" where
  "scan_string s = scan_then (need CHR 0x22 s) scan_chars"

fun scan_word :: "string \<Rightarrow> string \<Rightarrow> scan" where
  "scan_word [] s = Done s"
| "scan_word (c # w) [] = Incomplete"
| "scan_word (c # w) (d # s) = (if d \<noteq> c then Invalid else scan_word w s)"

text \<open>A number that ends the text may still be cut off.\<close>

definition cut_number :: "string \<Rightarrow> string \<Rightarrow> bool" where
  "cut_number t r \<longleftrightarrow>
     r = ''.'' \<and> (\<forall>c \<in> set t. c \<noteq> CHR ''.'' \<and> c \<noteq> CHR ''e'' \<and> c \<noteq> CHR ''E'') \<or>
     r \<in> {''e'', ''E'', ''e+'', ''E+'', ''e-'', ''E-''} \<and> (\<forall>c \<in> set t. c \<noteq> CHR ''e'' \<and> c \<noteq> CHR ''E'')"

definition scan_number :: "string \<Rightarrow> scan" where
  "scan_number s =
     (case num_lexeme s of
        None \<Rightarrow> if s = ''-'' then Incomplete else Invalid
      | Some (t, r) \<Rightarrow> if cut_number t r then Incomplete else Done r)"

definition scan_scalar :: "string \<Rightarrow> scan" where
  "scan_scalar s =
     (case s of
        [] \<Rightarrow> Incomplete
      | c # _ \<Rightarrow>
          if c = CHR ''t'' then scan_word ''true'' s
          else if c = CHR ''f'' then scan_word ''false'' s
          else if c = CHR ''n'' then scan_word ''null'' s
          else scan_number s)"

definition closing :: "bool \<Rightarrow> char" where
  "closing obj = (if obj then CHR ''}'' else CHR '']'')"

text \<open>The name of a property and the colon behind it.\<close>

definition item_head :: "bool \<Rightarrow> string \<Rightarrow> scan" where
  "item_head obj s = (if obj then scan_then (scan_string s) (need CHR '':'') else Done s)"

text \<open>The first argument bounds the recursion, as for the parser; the second is the depth.\<close>

function scan_value :: "nat \<Rightarrow> nat \<Rightarrow> string \<Rightarrow> scan"
  and scan_items :: "nat \<Rightarrow> nat \<Rightarrow> bool \<Rightarrow> string \<Rightarrow> scan" where
  "scan_value 0 d s = Invalid"
| "scan_value (Suc n) d s =
     (if d > 256 then Invalid
      else case skip_ws s of
        [] \<Rightarrow> Incomplete
      | c # r \<Rightarrow>
          if c = CHR 0x22 then scan_string (c # r)
          else if c = CHR ''{'' \<or> c = CHR ''['' then
            (if take 1 (skip_ws r) = [closing (c = CHR ''{'')] then Done (drop 1 (skip_ws r))
             else scan_items n d (c = CHR ''{'') (skip_ws r))
          else scan_scalar (c # r))"
| "scan_items 0 d obj s = Invalid"
| "scan_items (Suc n) d obj s =
     scan_then (item_head obj s) (\<lambda>s1.
     scan_then (scan_value n (Suc d) s1) (\<lambda>s2.
       case skip_ws s2 of
         [] \<Rightarrow> Incomplete
       | e # r' \<Rightarrow>
           if e = closing obj then Done r'
           else scan_then (need CHR '','' (e # r')) (scan_items n d obj)))"
  by pat_completeness auto
termination
  by (relation "measure (case_sum fst fst)") simp_all

definition isIncompleteJson :: "string \<Rightarrow> bool" where
  "isIncompleteJson s = (scan_value (json_fuel s) 0 s = Incomplete)"

section \<open>The recursion bound is enough\<close>

lemma scan_then_Done: "scan_then x f = Done r \<longleftrightarrow> (\<exists>t. x = Done t \<and> f t = Done r)"
  by (cases x) auto

lemma scan_then_cong: "x = y \<Longrightarrow> (\<And>t. y = Done t \<Longrightarrow> f t = g t) \<Longrightarrow> scan_then x f = scan_then y g"
  by (cases y) auto

lemma scan_chars_length: "scan_chars s = Done r \<Longrightarrow> length r < length s"
proof (induction s rule: scan_chars.induct)
  case (2 c s)
  show ?case
  proof (cases "c \<noteq> CHR 0x22 \<and> \<not> byte c < 32 \<and> c = CHR 0x5C")
    case True
    with 2(3) obtain u where u: "scan_escape s = Done u" "scan_chars u = Done r" by (auto split: scan.splits)
    with "2.IH"(1) True scan_escape_length [OF u(1)] show ?thesis by fastforce
  next
    case False
    with 2(3) "2.IH"(2) show ?thesis by (auto split: if_splits)
  qed
qed simp

lemma need_length: "need c s = Done r \<Longrightarrow> length r < length s"
  by (auto simp: need_def split: list.splits if_splits dest: json_skip_length)

lemma scan_string_length: "scan_string s = Done r \<Longrightarrow> length r < length s"
  by (auto simp: scan_string_def scan_then_Done dest!: need_length scan_chars_length)

lemma scan_word_length: "scan_word w s = Done r \<Longrightarrow> length r + length w = length s"
  by (induction w s rule: scan_word.induct) (auto split: if_splits)

lemma scan_scalar_length: "scan_scalar s = Done r \<Longrightarrow> length r < length s"
  by (auto simp: scan_scalar_def scan_number_def split: list.splits if_splits option.splits
      dest: scan_word_length num_lexeme_length)

lemma item_head_length: "item_head obj s = Done r \<Longrightarrow> length r \<le> length s"
  by (auto simp: item_head_def scan_then_Done dest!: scan_string_length need_length split: if_splits)

lemma scan_length:
  shows scan_value_length: "scan_value n d s = Done r \<Longrightarrow> length r < length s"
    and scan_items_length: "scan_items n d obj s = Done r \<Longrightarrow> length r < length s"
proof (induction n arbitrary: d obj s r)
  case (Suc n)
  note ih = Suc.IH
  { case 1
    have "skip_ws s \<noteq> []"
    proof
      assume e: "skip_ws s = []"
      show False using 1 unfolding scan_value.simps e by (simp split: if_splits)
    qed
    then obtain c t where c: "skip_ws s = c # t" by (cases "skip_ws s") auto
    have l: "length (c # t) \<le> length s" using json_skip_length [OF c] by simp
    consider (string) "scan_string (c # t) = Done r" | (scalar) "scan_scalar (c # t) = Done r"
      | (closed) "r = drop 1 (skip_ws t)" | (items) obj u where "skip_ws t = u" "scan_items n d obj u = Done r"
      using 1 c by (auto split: if_splits)
    then show ?case
    proof cases
      case items
      with ih(2) [OF items(2)] length_dropWhile_le [of json_space t] l show ?thesis by simp
    next
      case closed
      with length_dropWhile_le [of json_space t] l show ?thesis by simp
    qed (use scan_string_length scan_scalar_length l in fastforce)+
  next
    case 2
    then obtain s1 s2 where h: "item_head obj s = Done s1"
      and s2: "scan_value n (Suc d) s1 = Done s2"
      and r: "(case skip_ws s2 of [] \<Rightarrow> Incomplete
        | e # r' \<Rightarrow> if e = closing obj then Done r'
            else scan_then (need CHR '','' (e # r')) (scan_items n d obj)) = Done r"
      unfolding scan_items.simps scan_then_Done by blast
    have a: "length s1 \<le> length s" using item_head_length [OF h] .
    from r obtain e u where e: "skip_ws s2 = e # u" by (cases "skip_ws s2") auto
    from r e have "r = u \<or> (\<exists>w. need CHR '','' (e # u) = Done w \<and> scan_items n d obj w = Done r)"
      by (auto simp: scan_then_Done split: if_splits)
    with ih(1) [OF s2] a json_skip_length [OF e] show ?case by (auto dest!: need_length ih(2))
  }
qed simp_all

lemma scan_enough:
  shows scan_value_enough: "2 * length s + 1 \<le> n \<Longrightarrow> n \<le> m \<Longrightarrow> scan_value m d s = scan_value n d s"
    and scan_items_enough: "2 * length s + 2 \<le> n \<Longrightarrow> n \<le> m \<Longrightarrow> scan_items m d obj s = scan_items n d obj s"
proof (induction n arbitrary: s m d obj)
  case (Suc n)
  note ih = Suc.IH
  { case 1
    then obtain m' where m: "m = Suc m'" "n \<le> m'" by (cases m) auto
    show ?case
    proof (cases "skip_ws s")
      case Nil
      show ?thesis unfolding m(1) scan_value.simps Nil list.case ..
    next
      case (Cons c r)
      have "2 * length (skip_ws r) + 2 \<le> n"
        using json_skip_length [OF Cons] length_dropWhile_le [of json_space r] 1(1) by linarith
      then have e: "scan_items m' d obj (skip_ws r) = scan_items n d obj (skip_ws r)" for obj using m by (intro ih(2)) simp_all
      show ?thesis unfolding m(1) scan_value.simps Cons list.case e ..
    qed
  next
    case 2
    then obtain m' where m: "m = Suc m'" "n \<le> m'" by (cases m) auto
    show ?case unfolding m(1) scan_items.simps
    proof (intro scan_then_cong [OF refl])
      fix s1 assume "item_head obj s = Done s1"
      then have s1: "length s1 \<le> length s" by (rule item_head_length)
      show "scan_then (scan_value m' (Suc d) s1) (\<lambda>s2. case skip_ws s2 of [] \<Rightarrow> Incomplete
          | e # r' \<Rightarrow> if e = closing obj then Done r'
              else scan_then (need CHR '','' (e # r')) (scan_items m' d obj)) =
        scan_then (scan_value n (Suc d) s1) (\<lambda>s2. case skip_ws s2 of [] \<Rightarrow> Incomplete
          | e # r' \<Rightarrow> if e = closing obj then Done r'
              else scan_then (need CHR '','' (e # r')) (scan_items n d obj))"
      proof (rule scan_then_cong)
        show "scan_value m' (Suc d) s1 = scan_value n (Suc d) s1" using s1 2 m by (intro ih(1)) linarith+
        fix s2 assume s2: "scan_value n (Suc d) s1 = Done s2"
        have tail: "scan_then (need CHR '','' (e # r')) (scan_items m' d obj) = scan_then (need CHR '','' (e # r')) (scan_items n d obj)"
          if e: "skip_ws s2 = e # r'" for e r'
        proof (rule scan_then_cong [OF refl])
          fix t assume "need CHR '','' (e # r') = Done t"
          from need_length [OF this] json_skip_length [OF e] scan_value_length [OF s2] s1 2(1) m
          show "scan_items m' d obj t = scan_items n d obj t" by (intro ih(2)) simp_all
        qed
        show "(case skip_ws s2 of [] \<Rightarrow> Incomplete
          | e # r' \<Rightarrow> if e = closing obj then Done r'
              else scan_then (need CHR '','' (e # r')) (scan_items m' d obj)) =
          (case skip_ws s2 of [] \<Rightarrow> Incomplete
          | e # r' \<Rightarrow> if e = closing obj then Done r'
              else scan_then (need CHR '','' (e # r')) (scan_items n d obj))"
          by (intro list.case_cong refl if_cong tail)
      qed
    qed
  }
qed simp_all

theorem scan_fuel_enough: "json_fuel s \<le> n \<Longrightarrow> scan_value n d s = scan_value (json_fuel s) d s"
  by (rule scan_value_enough) (simp_all add: json_fuel_def)

section \<open>What is parsed is not cut off\<close>

lemma scan_hex4: "hex4 s = Some (u, r) \<Longrightarrow> scan_hex 4 s = Done r"
  by (auto simp: hex4_def numeral_eq_Suc split: list.splits if_splits)

lemma low_surrogate_scan: "low_surrogate s = Some (v, r) \<Longrightarrow>
    \<exists>t. s = CHR 0x5C # CHR ''u'' # t \<and> hex4 t = Some (v, r)"
  by (auto simp: low_surrogate_def split: list.splits if_splits option.splits)

lemma simple_escapes_fst: "map_of simple_escapes e = Some c \<Longrightarrow> e \<in> fst ` set simple_escapes"
  by (metis map_of_SomeD fst_conv image_eqI)

lemma scan_chars_backslash: "scan_escape s = Done r \<Longrightarrow> scan_chars (CHR 0x5C # s) = scan_chars r"
  by (simp add: byte_def)

lemma scan_chars_escape:
  assumes "json_escape s = Some (t, r)"
  shows "scan_chars (CHR 0x5C # s) = scan_chars r"
proof -
  from assms obtain e s' where s: "s = e # s'" by (auto simp: json_escape_def split: list.splits)
  show ?thesis
  proof (cases "e = CHR ''u''")
    case False
    with assms s have "scan_escape s = Done r" by (auto simp: json_escape_def scan_escape_def dest: simple_escapes_fst)
    then show ?thesis by (rule scan_chars_backslash)
  next
    case True
    with assms s obtain u r1 where u: "hex4 s' = Some (u, r1)" and r: "r = r1 \<or> (\<exists>v. low_surrogate r1 = Some (v, r))"
      by (auto simp: json_escape_def unicode_escape_def split: option.splits if_splits)
    have "scan_escape s = Done r1" using True s scan_hex4 [OF u] by (simp add: scan_escape_def)
    then have one: "scan_chars (CHR 0x5C # s) = scan_chars r1" by (rule scan_chars_backslash)
    from r show ?thesis
    proof
      assume "r = r1"
      with one show ?thesis by (simp only:)
    next
      assume "\<exists>v. low_surrogate r1 = Some (v, r)"
      then obtain v t' where "r1 = CHR 0x5C # CHR ''u'' # t'" "hex4 t' = Some (v, r)" using low_surrogate_scan by blast
      then have "scan_chars r1 = scan_chars r"
        using scan_hex4 by (simp add: scan_chars_backslash scan_escape_def del: scan_chars.simps)
      with one show ?thesis by (simp only:)
    qed
  qed
qed

lemma scan_chars_parsed: "json_chars s = Some (t, r) \<Longrightarrow> scan_chars s = Done r"
proof (induction s arbitrary: t rule: json_chars.induct)
  case (2 c s)
  show ?case
  proof (cases "c = CHR 0x22 \<or> byte c < 32")
    case True
    with 2(3) show ?thesis by (auto split: if_splits)
  next
    case nq: False
    show ?thesis
    proof (cases "c = CHR 0x5C")
      case True
      with 2(3) nq obtain e u t' where e: "json_escape s = Some (e, u)" "json_chars u = Some (t', r)"
        by (auto split: option.splits if_splits)
      with "2.IH"(1) nq True have "scan_chars u = Done r" by blast
      with scan_chars_escape [OF e(1)] True show ?thesis by simp
    next
      case False
      with 2(3) nq obtain t' where "json_chars s = Some (t', r)" by (auto split: if_splits)
      with "2.IH"(2) nq False have "scan_chars s = Done r" by blast
      with nq False show ?thesis by simp
    qed
  qed
qed simp

definition stuck :: "string \<Rightarrow> bool" where
  "stuck r \<longleftrightarrow> (case r of c # _ \<Rightarrow> c = CHR ''.'' \<or> c = CHR ''e'' \<or> c = CHR ''E'' | [] \<Rightarrow> False)"

definition agrees :: "scan \<Rightarrow> string \<Rightarrow> bool" where
  "agrees x r \<longleftrightarrow> x = Done r \<or> x = Invalid \<or> x = Incomplete \<and> stuck r"

lemma stuck_stop: "stuck r \<Longrightarrow> skip_ws r = r \<and> (\<forall>c t. r = c # t \<longrightarrow> c \<noteq> CHR '','' \<and> c \<noteq> CHR '']'' \<and> c \<noteq> CHR ''}'') \<and> r \<noteq> []"
  by (auto simp: stuck_def json_space_def byte_def split: list.splits)

lemma scan_number_parsed: "json_number s = Some (v, r) \<Longrightarrow> agrees (scan_number s) r"
proof -
  assume "json_number s = Some (v, r)"
  then obtain t where t: "num_lexeme s = Some (t, r)" by (auto simp: json_number_def split: option.splits jsnum.splits)
  have "cut_number t r \<Longrightarrow> stuck r"
    unfolding cut_number_def by (elim disjE conjE; (elim insertE)?; simp add: stuck_def)
  with t show ?thesis by (simp add: scan_number_def agrees_def)
qed

lemma scan_word_prefix: "take (length w) s = w \<Longrightarrow> scan_word w s = Done (drop (length w) s)"
  by (induction w s rule: scan_word.induct) auto

lemma json_literal_cases:
  assumes "json_literal s = Some (v, r)"
  shows "(\<exists>t. (t, v) \<in> set literals \<and> take (length t) s = t \<and> r = drop (length t) s) \<or> json_number s = Some (v, r)"
proof (cases "find (\<lambda>p. take (length (fst p)) s = fst p) literals")
  case (Some p)
  then have "p \<in> set literals" "take (length (fst p)) s = fst p" by (auto simp: find_Some_iff nth_mem)
  with Some assms show ?thesis by (cases p) (auto simp: json_literal_def)
qed (use assms in \<open>simp add: json_literal_def\<close>)

lemma number_start: "json_number (c # s) = Some (v, r) \<Longrightarrow> c = CHR ''-'' \<or> is_digit c"
proof (rule ccontr)
  assume n: "json_number (c # s) = Some (v, r)" and "\<not> (c = CHR ''-'' \<or> is_digit c)"
  then have "int_part (c # s) = []" "c \<noteq> CHR ''-''" by (auto simp: int_part_def digits_of_def is_digit_def byte_def)
  with n show False by (simp add: json_number_def num_lexeme_def)
qed

lemma scan_scalar_parsed:
  assumes "json_literal (c # s) = Some (v, r)"
  shows "agrees (scan_scalar (c # s)) r"
  using json_literal_cases [OF assms]
proof (elim disjE exE conjE)
  fix t assume t: "(t, v) \<in> set literals" "take (length t) (c # s) = t" "r = drop (length t) (c # s)"
  with scan_word_prefix [OF t(2)] show ?thesis by (auto simp: literals_def scan_scalar_def agrees_def)
next
  assume "json_number (c # s) = Some (v, r)"
  with scan_number_parsed [OF this] number_start [OF this] show ?thesis
    by (auto simp: scan_scalar_def is_digit_def byte_def)
qed

lemma need_char: "\<not> json_space c \<Longrightarrow> need c (c # r) = Done r"
  by (simp add: need_def)

lemma need_skip: "skip_ws s = c # r \<Longrightarrow> need c s = Done r"
  by (simp add: need_def)

lemma scan_string_parsed: "skip_ws s = CHR 0x22 # r \<Longrightarrow> json_chars r = Some (t, r') \<Longrightarrow> scan_string s = Done r'"
  by (simp add: scan_string_def need_skip scan_chars_parsed)

text \<open>What follows an item, with the parser and with the scanner.\<close>

lemma agrees_next:
  assumes "agrees x r" "skip_ws r = e # r'" "e = CHR '','' \<or> e = CHR '']'' \<or> e = CHR ''}''"
  shows "x = Done r \<or> x = Invalid"
  using assms stuck_stop [of r] by (auto simp: agrees_def)

lemma skip_ws_idem: "skip_ws s = c # r \<Longrightarrow> skip_ws (c # r) = c # r"
  by (metis dropWhile_idem)

lemma scan_parsed:
  shows scan_value_parsed: "parse_json_value n s = Some (v, r) \<Longrightarrow> agrees (scan_value n d s) r"
    and scan_elements_parsed: "parse_elements n s = Some (xs, r) \<Longrightarrow> scan_items n d False s \<in> {Done r, Invalid}"
    and scan_members_parsed: "parse_members n s = Some (ps, r) \<Longrightarrow> scan_items n d True s \<in> {Done r, Invalid}"
proof (induction n arbitrary: s d v r xs ps)
  case (Suc n)
  note ih = Suc.IH
  { case 1
    then obtain c t where c: "skip_ws s = c # t" by (cases "skip_ws s") auto
    note c' = skip_ws_idem [OF c]
    show ?case
    proof (cases "d > 256")
      case deep: False
      consider (string) "c = CHR 0x22" | (array) "c = CHR ''[''" | (object) "c = CHR ''{''"
        | (scalar) "c \<noteq> CHR 0x22" "c \<noteq> CHR ''[''" "c \<noteq> CHR ''{''" by blast
      then show ?thesis
      proof cases
        case string
        with 1 c obtain u where "json_chars t = Some (u, r)" by auto
        with scan_string_parsed [of "c # t" t u r] string c' deep c show ?thesis by (simp add: agrees_def)
      next
        case array
        with 1 c obtain e t' where e: "skip_ws t = e # t'" by (cases "skip_ws t") auto
        show ?thesis
        proof (cases "e = CHR '']''")
          case True
          with 1 c array e deep show ?thesis by (simp add: agrees_def closing_def)
        next
          case False
          with 1 c array e obtain us where u: "parse_elements n t = Some (us, r)" by auto
          have "parse_elements n t = parse_elements n (e # t')"
            using skip_ws_idem [OF e] e by (cases n; cases "n - 1") simp_all
          with u ih(2) [of "e # t'" us r d] False c array e deep show ?thesis by (auto simp: agrees_def closing_def)
        qed
      next
        case object
        with 1 c obtain e t' where e: "skip_ws t = e # t'" by (cases "skip_ws t") auto
        show ?thesis
        proof (cases "e = CHR ''}''")
          case True
          with 1 c object e deep show ?thesis by (simp add: agrees_def closing_def)
        next
          case False
          with 1 c object e obtain us where u: "parse_members n t = Some (us, r)" by auto
          have "parse_members n t = parse_members n (e # t')"
            using skip_ws_idem [OF e] e by (cases n) simp_all
          with u ih(3) [of "e # t'" us r d] False c object e deep show ?thesis by (auto simp: agrees_def closing_def)
        qed
      next
        case scalar
        with 1 c have "json_literal (c # t) = Some (v, r)" by simp
        with scan_scalar_parsed scalar c deep show ?thesis by simp
      qed
    qed (simp add: agrees_def)
  next
    case 2
    then obtain v t e u where v: "parse_json_value n s = Some (v, t)" "skip_ws t = e # u"
      and u: "e = CHR '']'' \<and> r = u \<or> e = CHR '','' \<and> (\<exists>us. parse_elements n u = Some (us, r))"
      by (auto split: option.splits list.splits if_splits)
    have "scan_value n (Suc d) s = Done t \<or> scan_value n (Suc d) s = Invalid"
      using agrees_next [OF ih(1) [OF v(1)] v(2)] u by blast
    then show ?case using v(2) u ih(2) [of u _ r d] by (auto simp: need_char punctuation closing_def item_head_def)
  next
    case 3
    then obtain t k t1 t2 v t3 e u where k: "skip_ws s = CHR 0x22 # t" "json_chars t = Some (k, t1)" "skip_ws t1 = CHR '':'' # t2"
        "parse_json_value n t2 = Some (v, t3)" "skip_ws t3 = e # u"
      and u: "e = CHR ''}'' \<and> r = u \<or> e = CHR '','' \<and> (\<exists>us. parse_members n u = Some (us, r))"
      by (auto split: option.splits list.splits if_splits)
    have "scan_value n (Suc d) t2 = Done t3 \<or> scan_value n (Suc d) t2 = Invalid"
      using agrees_next [OF ih(1) [OF k(4)] k(5)] u by blast
    then show ?case using k(5) u ih(3) [of u _ r d]
      by (auto simp: item_head_def closing_def scan_string_parsed [OF k(1,2)] need_skip [OF k(3)] need_char punctuation)
  }
qed simp_all

theorem incomplete_not_parsed:
  assumes "isIncompleteJson s"
  shows "JSON_parse s = Inl SYNTAX_ERROR"
proof (rule ccontr)
  assume "JSON_parse s \<noteq> Inl SYNTAX_ERROR"
  then obtain v r where p: "parse_json_value (json_fuel s) s = Some (v, r)" "skip_ws r = []"
    by (auto simp: JSON_parse_def split: option.splits if_splits)
  from scan_value_parsed [OF p(1), of 0] assms have "stuck r" by (auto simp: isIncompleteJson_def agrees_def)
  with stuck_stop p(2) show False by fastforce
qed

text \<open>
  The text of a value is scanned to its end, and every proper prefix of the text of an object
  or array is recognised as cut off, so it is no JSON text either. This is what the recovery of
  an append-only log rests on.
\<close>

section \<open>Strings and words cut off\<close>

lemma scan_chars_plain: "c \<noteq> CHR 0x22 \<Longrightarrow> 32 \<le> byte c \<Longrightarrow> c \<noteq> CHR 0x5C \<Longrightarrow> scan_chars (c # s) = scan_chars s"
  by simp

lemma scan_chars_cut: "scan_escape s = Incomplete \<Longrightarrow> scan_chars (CHR 0x5C # s) = Incomplete"
  by (simp add: byte_def)

lemma scan_hex_cut: "list_all is_hex s \<Longrightarrow> length s < n \<Longrightarrow> scan_hex n s = Incomplete"
  by (induction n s rule: scan_hex.induct) auto

lemma append_prefix:
  assumes "p @ q = a @ b"
  obtains (inside) q' where "a = p @ q'" "q = q' @ b" "q' \<noteq> []" | (behind) p' where "p = a @ p'" "b = p' @ q"
  using assms by (auto simp: append_eq_append_conv2) (metis append_Nil append_Nil2 self_append_conv)

lemma hex_zero: "is_hex CHR ''0''"
  by (simp add: is_hex_def is_digit_def byte_def)

lemma quote_char_cut:
  assumes "quote_char c = p @ q" "q \<noteq> []"
  shows "scan_chars p = Incomplete"
proof (cases "p = []")
  case False
  then obtain b p' where p: "p = b # p'" by (cases p) auto
  have "quote_char c \<noteq> [c]" using assms p by (auto simp: append_eq_Cons_conv Cons_eq_append_conv)
  then have q: "quote_char c = CHR 0x5C # tl (quote_char c)"
    and short: "length (quote_char c) = 2 \<or> (\<exists>a b. is_hex a \<and> is_hex b \<and> quote_char c = CHR 0x5C # CHR ''u'' # CHR ''0'' # CHR ''0'' # [a, b])"
    using hex_digit_value by (auto simp: quote_char_def Let_def split: if_splits)
  from q assms(1) p have b: "b = CHR 0x5C" by simp
  from short have "scan_escape p' = Incomplete"
  proof (elim disjE exE conjE)
    assume "length (quote_char c) = 2"
    with assms p have "p' = []" by (cases p'; cases q) auto
    then show ?thesis by (simp add: scan_escape_def)
  next
    fix x y assume h: "is_hex x" "is_hex y" and e: "quote_char c = CHR 0x5C # CHR ''u'' # CHR ''0'' # CHR ''0'' # [x, y]"
    show ?thesis
    proof (cases p')
      case (Cons u h')
      with e assms p have u: "u = CHR ''u''" and h': "h' @ q = [CHR ''0'', CHR ''0'', x, y]" by auto
      from arg_cong [OF h', of "list_all is_hex"] h have "list_all is_hex h'" by (simp add: hex_zero)
      moreover have "length h' < 4" using arg_cong [OF h', of length] assms(2) by (cases q) auto
      ultimately show ?thesis using Cons u scan_hex_cut by (simp add: scan_escape_def)
    qed (simp add: scan_escape_def)
  qed
  with b p show ?thesis by (simp only: scan_chars_cut)
qed simp

lemma scan_chars_quote_char: "scan_chars (quote_char c @ s) = scan_chars s"
proof -
  consider (plain) "quote_char c = [c]" "c \<noteq> CHR 0x22" "32 \<le> byte c" "c \<noteq> CHR 0x5C"
    | (escaped) t where "quote_char c = CHR 0x5C # t" "\<And>s. json_escape (t @ s) = Some ([c], s)"
  proof (cases "c \<in> {CHR 0x22, CHR 0x5C, CHR 0x08, CHR 0x09, CHR 0x0A, CHR 0x0C, CHR 0x0D}")
    case True
    then show ?thesis
      using escaped [of "[CHR 0x22]"] escaped [of "[CHR 0x5C]"] escaped [of "''b''"] escaped [of "''t''"] escaped [of "''n''"]
        escaped [of "''f''"] escaped [of "''r''"]
      by (auto simp: quote_char_def simple_escape)
  next
    case False
    show ?thesis
    proof (cases "byte c < 32")
      case True
      have "quote_char c = CHR 0x5C # CHR ''u'' # CHR ''0'' # CHR ''0'' # hex_digit (byte c div 16) # [hex_digit (byte c mod 16)]"
        using False True by (simp add: quote_char_def byte_def)
      with unicode_quote [OF True] escaped show ?thesis by simp
    next
      case plain_byte: False
      with False have "quote_char c = [c]" by (auto simp: quote_char_def byte_def)
      with plain False plain_byte show ?thesis by auto
    qed
  qed
  then show ?thesis
  proof cases
    case plain
    then show ?thesis by (simp add: scan_chars_plain del: scan_chars.simps)
  next
    case (escaped t)
    with scan_chars_escape [OF escaped(2) [of s]] show ?thesis by (simp del: scan_chars.simps)
  qed
qed

lemma scan_chars_quoted: "scan_chars (concat (map quote_char s) @ CHR 0x22 # r) = Done r"
  by (rule scan_chars_parsed [OF json_chars_quoted])

lemma quoted_cut:
  assumes "concat (map quote_char s) @ [CHR 0x22] = p @ q" "q \<noteq> []"
  shows "scan_chars p = Incomplete"
  using assms
proof (induction s arbitrary: p)
  case Nil
  then show ?case by (cases p) auto
next
  case (Cons c s)
  then have "p @ q = quote_char c @ (concat (map quote_char s) @ [CHR 0x22])" by simp
  then show ?case
  proof (cases rule: append_prefix)
    case (inside q')
    then show ?thesis by (simp add: quote_char_cut)
  next
    case (behind p')
    then show ?thesis using Cons.IH [of p'] Cons.prems(2) by (simp add: scan_chars_quote_char)
  qed
qed

lemma quote_text_cut:
  assumes "quote_text s = p @ q" "q \<noteq> []"
  shows "scan_string p = Incomplete"
proof (cases p)
  case Nil
  then show ?thesis by (simp add: scan_string_def need_def)
next
  case (Cons c p')
  with assms have "c = CHR 0x22" "concat (map quote_char s) @ [CHR 0x22] = p' @ q" by (auto simp: quote_text_def)
  with Cons quoted_cut [OF this(2) assms(2)] show ?thesis by (simp add: scan_string_def need_def punctuation)
qed

lemma quote_text_scan: "scan_string (quote_text s @ r) = Done r"
  by (simp add: scan_string_def quote_text_def need_def punctuation scan_chars_quoted)

lemma scan_word_cut: "w = p @ q \<Longrightarrow> q \<noteq> [] \<Longrightarrow> scan_word w p = Incomplete"
  by (induction p arbitrary: w) (auto simp: neq_Nil_conv)

lemma scan_word_full: "scan_word w (w @ r) = Done r"
  by (induction w) auto

section \<open>Numbers cut off\<close>

lemma int_text_scan: "stops r \<Longrightarrow> scan_number (int_text i @ r) = Done r"
  using stops_char by (auto simp: scan_number_def num_lexeme_int cut_number_def)

lemma digits_lexeme:
  assumes "all_digits d" "hd d \<noteq> CHR ''0''"
  shows "num_lexeme d = Some (d, [])" "num_lexeme (CHR ''-'' # d) = Some (CHR ''-'' # d, [])"
proof -
  obtain c t where c: "d = c # t" "is_digit c" using assms(1) by (cases d) (auto simp: all_digits_def)
  have "digits_of d = d" using digits_of_append [of d "[]"] assms(1) by (simp add: all_digits_def)
  then have i: "int_part d = d" using assms(2) c by (simp add: int_part_def)
  have "c \<noteq> CHR ''-''" using c(2) not_digit by auto
  with i c show "num_lexeme d = Some (d, [])" by (simp add: num_lexeme_def frac_part_def exp_part_def)
  from i c show "num_lexeme (CHR ''-'' # d) = Some (CHR ''-'' # d, [])" by (simp add: num_lexeme_def frac_part_def exp_part_def)
qed

lemma nat_text_cut:
  assumes "0 \<le> n" "nat_text n = p @ q" "q \<noteq> []" "p \<noteq> []"
  shows "all_digits p" "hd p \<noteq> CHR ''0''"
proof -
  show "all_digits p" using nat_text_digits [OF assms(1)] assms by (simp add: all_digits_def)
  show "hd p \<noteq> CHR ''0''"
  proof
    assume "hd p = CHR ''0''"
    with assms have "hd (nat_text n) = CHR ''0''" by (cases p) auto
    with nat_text_lead [OF assms(1)] assms show False by (cases p; cases q) auto
  qed
qed

lemma int_text_cut:
  assumes "int_text i = p @ q" "q \<noteq> []" "p \<noteq> []"
  shows "scan_number p = Incomplete \<or> scan_number p = Done []"
proof (cases "i < 0")
  case True
  with assms obtain p' where p: "p = CHR ''-'' # p'" "nat_text (- i) = p' @ q"
    by (cases p) (auto simp: int_text_def)
  show ?thesis
  proof (cases "p' = []")
    case True
    then show ?thesis by (simp add: p scan_number_def num_lexeme_def int_part_def)
  next
    case False
    with nat_text_cut [OF _ p(2) assms(2)] True digits_lexeme(2) show ?thesis
      by (simp add: p scan_number_def cut_number_def)
  qed
next
  case False
  with nat_text_cut [of i p q] assms digits_lexeme(1) show ?thesis
    by (simp add: int_text_def scan_number_def cut_number_def)
qed

section \<open>Values\<close>

text \<open>A value is scanned to its end; cut off, it is incomplete, or a shorter number.\<close>

definition scans :: "json \<Rightarrow> bool" where
  "scans v \<longleftrightarrow> (\<forall>n d. 2 * length (json_text v) \<le> n \<longrightarrow> d + json_depth v < 256 \<longrightarrow>
     (\<forall>r. stops r \<longrightarrow> scan_value n d (json_text v @ r) = Done r) \<and>
     (\<forall>p q. json_text v = p @ q \<longrightarrow> q \<noteq> [] \<longrightarrow>
        scan_value n d p = Incomplete \<or> scan_value n d p = Done [] \<and> p \<noteq> [] \<and> (\<exists>x. v = JNum x)))"

lemma scansI:
  assumes "\<And>n d r. 2 * length (json_text v) \<le> Suc n \<Longrightarrow> d + json_depth v < 256 \<Longrightarrow> stops r \<Longrightarrow>
      scan_value (Suc n) d (json_text v @ r) = Done r"
    and "\<And>n d p q. 2 * length (json_text v) \<le> Suc n \<Longrightarrow> d + json_depth v < 256 \<Longrightarrow> json_text v = p @ q \<Longrightarrow> q \<noteq> [] \<Longrightarrow> p \<noteq> [] \<Longrightarrow>
      scan_value (Suc n) d p = Incomplete \<or> scan_value (Suc n) d p = Done [] \<and> (\<exists>x. v = JNum x)"
    and "json_text v \<noteq> []"
  shows "scans v"
  unfolding scans_def
proof (intro allI impI)
  fix n d assume n: "2 * length (json_text v) \<le> n" and d: "d + json_depth v < 256"
  then obtain m where m: "n = Suc m" using assms(3) by (cases n) auto
  have "scan_value (Suc m) d [] = Incomplete" using d by simp
  with assms(1,2) n d m show "(\<forall>r. stops r \<longrightarrow> scan_value n d (json_text v @ r) = Done r) \<and>
     (\<forall>p q. json_text v = p @ q \<longrightarrow> q \<noteq> [] \<longrightarrow>
        scan_value n d p = Incomplete \<or> scan_value n d p = Done [] \<and> p \<noteq> [] \<and> (\<exists>x. v = JNum x))"
    by (metis (no_types, lifting))
qed

lemma scan_word_value:
  assumes "(t, v) \<in> set literals" "d < 256"
  shows "scan_value (Suc n) d (t @ r) = Done r"
    and "t = p @ q \<Longrightarrow> q \<noteq> [] \<Longrightarrow> p \<noteq> [] \<Longrightarrow> scan_value (Suc n) d p = Incomplete"
proof -
  obtain c w where t: "t = c # w" "c \<in> {CHR ''t'', CHR ''f'', CHR ''n''}" using assms(1) by (auto simp: literals_def)
  then have c: "c \<noteq> CHR 0x22" "c \<noteq> CHR ''{''" "c \<noteq> CHR ''[''" "\<not> json_space c" by (auto simp: json_space_def byte_def)
  have s: "scan_scalar (c # u) = scan_word t (c # u)" for u
    using assms(1) t by (auto simp: literals_def scan_scalar_def)
  show "scan_value (Suc n) d (t @ r) = Done r"
    using c assms(2) scan_word_full [of t r] s t(1) by simp
  assume p: "t = p @ q" "q \<noteq> []" "p \<noteq> []"
  then obtain p' where "p = c # p'" using t(1) by (cases p) auto
  then show "scan_value (Suc n) d p = Incomplete"
    using c assms(2) scan_word_cut [OF p(1,2)] s by simp
qed

lemma scan_text_value:
  assumes "d < 256"
  shows "scan_value (Suc n) d (quote_text t @ r) = Done r"
    and "quote_text t = p @ q \<Longrightarrow> q \<noteq> [] \<Longrightarrow> p \<noteq> [] \<Longrightarrow> scan_value (Suc n) d p = Incomplete"
proof -
  show "scan_value (Suc n) d (quote_text t @ r) = Done r"
    using assms quote_text_scan [of t r] by (simp add: quote_text_def punctuation)
  assume p: "quote_text t = p @ q" "q \<noteq> []" "p \<noteq> []"
  then obtain p' where "p = CHR 0x22 # p'" by (cases p) (auto simp: quote_text_def)
  with assms quote_text_cut [OF p(1,2)] show "scan_value (Suc n) d p = Incomplete" by (simp add: punctuation)
qed

lemma scan_number_value:
  assumes "plain_number x" "d < 256"
  shows "stops r \<Longrightarrow> scan_value (Suc n) d (num_text x @ r) = Done r"
    and "num_text x = p @ q \<Longrightarrow> q \<noteq> [] \<Longrightarrow> p \<noteq> [] \<Longrightarrow> scan_value (Suc n) d p = Incomplete \<or> scan_value (Suc n) d p = Done []"
proof -
  obtain i where i: "num_text x = int_text i" using assms(1) by (rule plain_number_text)
  obtain c t where c: "int_text i = c # t" "c = CHR ''-'' \<or> is_digit c" using int_text_head by blast
  from c(2) have "c \<noteq> CHR 0x22 \<and> c \<noteq> CHR ''['' \<and> c \<noteq> CHR ''{'' \<and> c \<noteq> CHR ''t'' \<and> c \<noteq> CHR ''f'' \<and> c \<noteq> CHR ''n'' \<and> \<not> json_space c"
    by (elim disjE) (auto simp: is_digit_def byte_def json_space_def)
  then have v: "scan_value (Suc n) d (c # u) = scan_number (c # u)" for u
    using assms(2) by (simp add: scan_scalar_def)
  show "scan_value (Suc n) d (num_text x @ r) = Done r" if "stops r"
    using int_text_scan [OF that, of i] v [of "t @ r"] c(1) i by simp
  show "scan_value (Suc n) d p = Incomplete \<or> scan_value (Suc n) d p = Done []"
    if "num_text x = p @ q" "q \<noteq> []" "p \<noteq> []"
  proof -
    from that obtain p' where "p = c # p'" using c(1) i by (cases p) auto
    with int_text_cut [of i p q] that i v [of p'] show ?thesis by simp
  qed
qed

section \<open>Items\<close>

text \<open>The items of an array or object, as the scanner meets them.\<close>

fun item_text :: "bool \<Rightarrow> string \<times> json \<Rightarrow> string" where
  "item_text True p = member_text p"
| "item_text False p = json_text (snd p)"

lemmas scan_items_Suc = scan_items.simps(2)

lemma item_head_text: "item_head obj (item_text obj p @ r) = Done (json_text (snd p) @ r)"
  using quote_text_scan [of "fst p"] by (cases obj) (simp_all add: item_head_def need_char punctuation)

lemma item_head_cut:
  assumes "item_text obj p = a @ b" "b \<noteq> []"
  shows "item_head obj a = Incomplete \<or> (\<exists>a'. item_head obj a = Done a' \<and> json_text (snd p) = a' @ b)"
proof (cases obj)
  case False
  with assms show ?thesis by (simp add: item_head_def)
next
  case True
  with assms have "a @ b = quote_text (fst p) @ CHR '':'' # json_text (snd p)" by simp
  then show ?thesis
  proof (cases rule: append_prefix)
    case (inside q')
    with quote_text_cut [OF inside(1,3)] True show ?thesis by (simp add: item_head_def)
  next
    case (behind a')
    show ?thesis
    proof (cases a')
      case Nil
      with behind quote_text_scan [of "fst p" "[]"] True show ?thesis by (simp add: item_head_def need_def)
    next
      case (Cons c a2)
      with behind have c: "a' = CHR '':'' # a2" by simp
      with behind quote_text_scan [of "fst p" a'] True show ?thesis by (simp add: item_head_def need_char punctuation)
    qed
  qed
qed

lemma scan_item_cut:
  assumes "scans (snd p)" "Suc d + json_depth (snd p) < 256" "2 * length (json_text (snd p)) \<le> n"
    and "item_text obj p = a @ b" "b \<noteq> []"
  shows "scan_items (Suc n) d obj a = Incomplete"
  using item_head_cut [OF assms(4,5)]
proof (elim disjE exE conjE)
  fix a' assume a: "item_head obj a = Done a'" "json_text (snd p) = a' @ b"
  from assms(1-3,5) a(2) have "scan_value n (Suc d) a' = Incomplete \<or> scan_value n (Suc d) a' = Done []"
    unfolding scans_def by blast
  with a(1) show ?thesis unfolding scan_items_Suc by auto
qed (simp add: scan_items_Suc)

lemma closing_stops: "stops (closing obj # r)" "\<not> json_space (closing obj)" "closing obj \<noteq> CHR '',''"
  by (auto simp: closing_def stops_def json_space_def byte_def)

lemma scan_item_last:
  assumes "scans (snd p)" "Suc d + json_depth (snd p) < 256" "2 * length (json_text (snd p)) \<le> n"
  shows "scan_items (Suc n) d obj (item_text obj p @ closing obj # r) = Done r"
    and "scan_items (Suc n) d obj (item_text obj p) = Incomplete"
    and "scan_items (Suc n) d obj (item_text obj p @ CHR '','' # s) = scan_items n d obj s"
proof -
  have v: "scan_value n (Suc d) (json_text (snd p) @ u) = Done u" if "stops u" for u
    using assms that unfolding scans_def by blast
  show "scan_items (Suc n) d obj (item_text obj p @ closing obj # r) = Done r"
    using v [OF closing_stops(1)] by (simp only: scan_items_Suc item_head_text scan_then.simps) (simp add: closing_stops)
  show "scan_items (Suc n) d obj (item_text obj p) = Incomplete"
    using v [of "[]"] item_head_text [of obj p "[]"] by (simp add: scan_items_Suc stops_def)
  show "scan_items (Suc n) d obj (item_text obj p @ CHR '','' # s) = scan_items n d obj s"
    using v [OF stops_punctuation(1), of s] closing_stops(3) [of obj]
    by (simp only: scan_items_Suc item_head_text scan_then.simps) (simp add: punctuation need_char eq_commute)
qed

lemma length_item: "length (json_text (snd p)) \<le> length (item_text obj p)"
  by (cases obj) auto

lemma scan_items_text:
  assumes "ps \<noteq> []" "\<forall>p \<in> set ps. scans (snd p) \<and> Suc d + json_depth (snd p) < 256"
    and "2 * length (comma_sep (map (item_text obj) ps)) + 1 \<le> n"
  shows "scan_items n d obj (comma_sep (map (item_text obj) ps) @ closing obj # r) = Done r"
    and "comma_sep (map (item_text obj) ps) @ [closing obj] = a @ b \<Longrightarrow> b \<noteq> [] \<Longrightarrow> scan_items n d obj a = Incomplete"
  using assms
proof (induction ps arbitrary: n a)
  case (Cons p ps)
  { case 1
    then obtain m where n: "n = Suc m" by (cases n) auto
    show ?case
    proof (cases ps)
      case Nil
      with 1 n length_item [of p obj] scan_item_last(1) [of p d m] show ?thesis by simp
    next
      case (Cons p' ps')
      with 1 n have l: "2 * length (item_text obj p) + 2 * length (comma_sep (map (item_text obj) ps)) + 2 \<le> m" by simp
      have "scan_items m d obj (comma_sep (map (item_text obj) ps) @ closing obj # r) = Done r"
        by (rule Cons.IH(1)) (use 1 Cons l in auto)
      with 1 n l length_item [of p obj] scan_item_last(3) [of p d m obj] show ?thesis by (simp add: Cons)
    qed
  next
    case 2
    then obtain m where n: "n = Suc m" by (cases n) auto
    show ?case
    proof (cases ps)
      case Nil
      from 2(1) Nil have "a @ b = item_text obj p @ [closing obj]" by simp
      then show ?thesis
      proof (cases rule: append_prefix)
        case (inside q')
        with scan_item_cut [of p d m obj a q'] 2 n Nil length_item [of p obj] show ?thesis by simp
      next
        case (behind p')
        with 2(2) have "p' = []" by (cases p') auto
        with behind scan_item_last(2) [of p d m obj] 2 n Nil length_item [of p obj] show ?thesis by simp
      qed
    next
      case (Cons p0 ps')
      with 2 n have l: "2 * length (item_text obj p) + 2 * length (comma_sep (map (item_text obj) ps)) + 2 \<le> m" by simp
      from 2(1) have "a @ b = item_text obj p @ CHR '','' # comma_sep (map (item_text obj) ps) @ [closing obj]" by (simp add: Cons)
      then show ?thesis
      proof (cases rule: append_prefix)
        case (inside q')
        with scan_item_cut [of p d m obj a q'] 2 n l length_item [of p obj] show ?thesis by simp
      next
        case (behind a')
        show ?thesis
        proof (cases a')
          case Nil
          with behind scan_item_last(2) [of p d m obj] 2 n l length_item [of p obj] show ?thesis by simp
        next
          case (Cons x a2)
          with behind have a2: "a' = CHR '','' # a2" "comma_sep (map (item_text obj) ps) @ [closing obj] = a2 @ b" by auto
          have "scan_items m d obj a2 = Incomplete"
            by (rule Cons.IH(2) [OF a2(2) 2(2)]) (use 2 \<open>ps = p0 # ps'\<close> l in auto)
          with behind a2 scan_item_last(3) [of p d m obj a2] 2 n l length_item [of p obj] show ?thesis by simp
        qed
      qed
    qed
  }
qed simp_all

lemma json_depth_item: "p \<in> set ps \<Longrightarrow> Suc (json_depth (snd p)) \<le> json_depth (JObj ps)"
  by (induction ps) (auto simp: max_def)

lemma json_depth_element: "x \<in> set xs \<Longrightarrow> Suc (json_depth x) \<le> json_depth (JArr xs)"
  by (induction xs) (auto simp: max_def)

text \<open>An array is scanned like an object without names.\<close>

definition open_char :: "bool \<Rightarrow> char" where
  "open_char obj = (if obj then CHR ''{'' else CHR ''['')"

definition items_text :: "bool \<Rightarrow> (string \<times> json) list \<Rightarrow> string" where
  "items_text obj ps = open_char obj # comma_sep (map (item_text obj) ps) @ [closing obj]"

lemma open_value: "d < 256 \<Longrightarrow> scan_value (Suc n) d (open_char obj # r) =
    (if take 1 (skip_ws r) = [closing obj] then Done (drop 1 (skip_ws r)) else scan_items n d obj (skip_ws r))"
  by (simp add: open_char_def punctuation)

lemma item_text_head:
  assumes "readable (snd p)"
  obtains c t where "item_text obj p = c # t" "starts_value c"
proof (cases obj)
  case True
  with that show ?thesis by (simp add: quote_text_def starts_value_def)
next
  case False
  with that json_text_head [OF assms] show ?thesis by auto
qed

lemma starts_value_closing: "starts_value c \<Longrightarrow> c \<noteq> closing obj \<and> \<not> json_space c"
  by (auto simp: closing_def dest: starts_value_char)

lemma scans_items:
  assumes ps: "\<forall>p \<in> set ps. readable (snd p) \<and> scans (snd p) \<and> Suc d + json_depth (snd p) < 256"
    and d: "d < 256" and n: "2 * length (items_text obj ps) \<le> Suc n"
  shows "scan_value (Suc n) d (items_text obj ps @ r) = Done r"
    and "items_text obj ps = p @ q \<Longrightarrow> q \<noteq> [] \<Longrightarrow> p \<noteq> [] \<Longrightarrow> scan_value (Suc n) d p = Incomplete"
proof -
  have one: "scan_items (Suc m) d obj [] = Incomplete" if "0 < m" for m
    using that d by (cases m) (simp_all add: item_head_def scan_string_def need_def)
  have n0: "2 \<le> n" using n by (simp add: items_text_def)
  then obtain n' where n': "n = Suc n'" "0 < n'" by (cases n) auto
  have fuel: "2 * length (comma_sep (map (item_text obj) ps)) + 1 \<le> n" using n by (simp add: items_text_def)
  have head: "\<exists>c t. comma_sep (map (item_text obj) ps) = c # t \<and> starts_value c" if ne: "ps \<noteq> []"
  proof -
    obtain p0 ps0 where p0: "ps = p0 # ps0" using ne by (cases ps) auto
    with ps have "readable (snd p0)" by simp
    then obtain c t where c: "item_text obj p0 = c # t" "starts_value c" by (rule item_text_head)
    then have "hd (map (item_text obj) ps) = c # t" by (simp add: p0)
    from comma_sep_head [OF _ this] c(2) ne show ?thesis by auto
  qed
  show "scan_value (Suc n) d (items_text obj ps @ r) = Done r"
  proof (cases "ps = []")
    case True
    then show ?thesis using open_value [OF d, of n obj "closing obj # r"] by (simp add: items_text_def closing_stops)
  next
    case False
    with head obtain c t where c: "comma_sep (map (item_text obj) ps) = c # t" "starts_value c" by blast
    have "scan_items n d obj (comma_sep (map (item_text obj) ps) @ closing obj # r) = Done r"
      by (rule scan_items_text(1) [OF False _ fuel]) (use ps in blast)
    with c starts_value_closing [OF c(2)] open_value [OF d, of n obj "c # t @ closing obj # r"]
    show ?thesis by (simp add: items_text_def del: scan_value.simps scan_items.simps)
  qed
  assume p: "items_text obj ps = p @ q" "q \<noteq> []" "p \<noteq> []"
  then obtain p' where p': "p = open_char obj # p'" "comma_sep (map (item_text obj) ps) @ [closing obj] = p' @ q"
    by (cases p) (auto simp: items_text_def)
  show "scan_value (Suc n) d p = Incomplete"
  proof (cases p')
    case Nil
    then show ?thesis using open_value [OF d, of n obj "[]"] one [OF n'(2)]
      by (simp add: p'(1) n'(1) del: scan_value.simps scan_items.simps)
  next
    case (Cons c t)
    have "ps \<noteq> []" using p'(2) p(2) Cons by (cases q) auto
    with head obtain c' t' where c: "comma_sep (map (item_text obj) ps) = c' # t'" "starts_value c'" by blast
    then have "c = c'" using p'(2) Cons by simp
    have "scan_items n d obj p' = Incomplete"
      by (rule scan_items_text(2) [OF \<open>ps \<noteq> []\<close> _ fuel p'(2) p(2)]) (use ps in blast)
    with c starts_value_closing [OF c(2)] open_value [OF d, of n obj p'] Cons \<open>c = c'\<close>
    show ?thesis by (simp add: p'(1) del: scan_value.simps scan_items.simps)
  qed
qed

lemma items_text_array: "json_text (JArr xs) = items_text False (map (Pair []) xs)"
  by (simp add: items_text_def open_char_def closing_def comp_def)

lemma items_text_object: "json_text (JObj ps) = items_text True ps"
proof -
  have "item_text True = member_text" by (rule ext) simp
  then show ?thesis by (simp add: items_text_def open_char_def closing_def)
qed

lemma scans_by_items:
  assumes v: "json_text v = items_text obj ps"
    and ps: "\<forall>p \<in> set ps. readable (snd p) \<and> scans (snd p) \<and> Suc (json_depth (snd p)) \<le> json_depth v"
  shows "scans v"
proof (rule scansI)
  fix n d r assume n: "2 * length (json_text v) \<le> Suc n" and d: "d + json_depth v < 256"
  have i: "\<forall>p \<in> set ps. readable (snd p) \<and> scans (snd p) \<and> Suc d + json_depth (snd p) < 256"
    using ps d by fastforce
  have d': "d < 256" using d by simp
  note items = scans_items [OF i d' n [unfolded v]]
  show "scan_value (Suc n) d (json_text v @ r) = Done r" unfolding v by (rule items(1))
  show "scan_value (Suc n) d p = Incomplete \<or> scan_value (Suc n) d p = Done [] \<and> (\<exists>x. v = JNum x)"
    if "json_text v = p @ q" "q \<noteq> []" "p \<noteq> []" for p q
    by (rule disjI1, rule items(2) [OF that(1) [unfolded v] that(2,3)])
qed (simp add: v items_text_def)

lemma readable_scans: "readable v \<Longrightarrow> scans v"
proof (induction v rule: json_induct)
  case JNull
  have w: "(json_text JNull, JNull) \<in> set literals" by (simp add: literals_def)
  show ?case by (rule scansI) (use scan_word_value [OF w] in \<open>(simp del: scan_value.simps)+\<close>)
next
  case (JBool b)
  have w: "(json_text (JBool b), JBool b) \<in> set literals" by (cases b) (simp_all add: literals_def)
  show ?case by (rule scansI) (use scan_word_value [OF w] in \<open>(simp del: scan_value.simps)+\<close>)
next
  case (JNum x)
  have "json_text (JNum x) \<noteq> []" using length_json_text [OF JNum] by simp
  then show ?case by (intro scansI) (use scan_number_value [of x] JNum in \<open>(simp del: scan_value.simps)+\<close>)
next
  case (JStr t)
  show ?case
  proof (rule scansI)
    show "json_text (JStr t) \<noteq> []" by (simp add: quote_text_def)
  qed (use scan_text_value [where t = t] in \<open>(simp del: scan_value.simps)+\<close>)
next
  case (JArr xs)
  have "\<forall>p \<in> set (map (Pair []) xs). readable (snd p) \<and> scans (snd p) \<and> Suc (json_depth (snd p)) \<le> json_depth (JArr xs)"
  proof
    fix p assume "p \<in> set (map (Pair []) xs)"
    then have x: "snd p \<in> set xs" by auto
    from x JArr.prems have r: "readable (snd p)" by (simp only: readable.simps)
    from JArr.IH [OF x r] r json_depth_element [OF x]
    show "readable (snd p) \<and> scans (snd p) \<and> Suc (json_depth (snd p)) \<le> json_depth (JArr xs)" by (intro conjI)
  qed
  from scans_by_items [OF items_text_array this] show ?case .
next
  case (JObj ps)
  have "\<forall>p \<in> set ps. readable (snd p) \<and> scans (snd p) \<and> Suc (json_depth (snd p)) \<le> json_depth (JObj ps)"
  proof
    fix p assume p: "p \<in> set ps"
    with JObj.prems have r: "readable (snd p)" by (simp only: readable.simps)
    from JObj.IH [OF p r] r json_depth_item [OF p]
    show "readable (snd p) \<and> scans (snd p) \<and> Suc (json_depth (snd p)) \<le> json_depth (JObj ps)" by (intro conjI)
  qed
  from scans_by_items [OF items_text_object this] show ?case .
qed

lemma scans_cut: "scans v \<Longrightarrow> 2 * length (json_text v) \<le> n \<Longrightarrow> d + json_depth v < 256 \<Longrightarrow> json_text v = p @ q \<Longrightarrow> q \<noteq> [] \<Longrightarrow>
    scan_value n d p = Incomplete \<or> (\<exists>x. v = JNum x)"
  unfolding scans_def by blast

text \<open>An object that is cut off is incomplete, and no JSON text.\<close>

theorem torn_object:
  assumes "readable (JObj ps)" "json_depth (JObj ps) < 256" "json_text (JObj ps) = p @ q" "q \<noteq> []"
  shows "isIncompleteJson p" "JSON_parse p = Inl SYNTAX_ERROR"
proof -
  define n where "n = max (2 * length (json_text (JObj ps))) (json_fuel p)"
  have "scans (JObj ps)" by (rule readable_scans [OF assms(1)])
  from scans_cut [OF this, of n 0 p q] assms(2-4) have "scan_value n 0 p = Incomplete"
    by (simp add: n_def del: json_text.simps json_depth.simps)
  then show i: "isIncompleteJson p" using scan_fuel_enough [of p n] by (simp add: isIncompleteJson_def n_def)
  show "JSON_parse p = Inl SYNTAX_ERROR" by (rule incomplete_not_parsed [OF i])
qed

end
