(* ===== verification/Aof_Op.thy ===== *)
theory Aof_Op
  imports Json_Prefix Utf8 Prelude Kv_System
begin

text \<open>
  The operations of the append-only log (\<open>src/src/persistence.ts\<close>): which JSON values are
  operations, and what replaying one does to the cache. An operation is the object the code
  handles; a property whose value would be \<open>undefined\<close> is an absent one.
\<close>

section \<open>Objects\<close>

definition own :: "string \<Rightarrow> json \<Rightarrow> json option" where
  "own k v = (case v of JObj ps \<Rightarrow> map_of ps k | _ \<Rightarrow> None)"

definition hasOwn :: "json \<Rightarrow> string \<Rightarrow> bool" where
  "hasOwn v k \<longleftrightarrow> own k v \<noteq> None"

fun isRecord :: "json \<Rightarrow> bool" where
  "isRecord (JObj ps) = True"
| "isRecord _ = False"

fun is_text :: "json \<Rightarrow> bool" where
  "is_text (JStr s) = True"
| "is_text _ = False"

fun isFiniteNumber :: "json \<Rightarrow> bool" where
  "isFiniteNumber (JNum x) = True"
| "isFiniteNumber _ = False"

definition own_is :: "(json \<Rightarrow> bool) \<Rightarrow> string \<Rightarrow> json \<Rightarrow> bool" where
  "own_is P k v \<longleftrightarrow> (case own k v of Some x \<Rightarrow> P x | None \<Rightarrow> False)"

text \<open>A property that may be absent.\<close>

definition own_may :: "(json \<Rightarrow> bool) \<Rightarrow> string \<Rightarrow> json \<Rightarrow> bool" where
  "own_may P k v \<longleftrightarrow> \<not> hasOwn v k \<or> own_is P k v"

definition own_list :: "(json \<Rightarrow> bool) \<Rightarrow> string \<Rightarrow> json \<Rightarrow> bool" where
  "own_list P k v \<longleftrightarrow> (case own k v of Some (JArr xs) \<Rightarrow> list_all P xs | _ \<Rightarrow> False)"

section \<open>Validation\<close>

definition timed_entry :: "json \<Rightarrow> bool" where
  "timed_entry v \<longleftrightarrow>
     own_is is_text ''key'' v \<and> hasOwn v ''value'' \<and> own_may isFiniteNumber ''ttlMs'' v \<and>
     own_may (\<lambda>x. x = JNull \<or> isFiniteNumber x) ''expiresAt'' v"

definition isAofMutation :: "json \<Rightarrow> bool" where
  "isAofMutation v =
     (isRecord v \<and>
      (case own ''op'' v of
         Some (JStr op) \<Rightarrow>
           if op = ''set'' then timed_entry v
           else if op = ''mset'' then own_list (\<lambda>e. isRecord e \<and> timed_entry e) ''entries'' v
           else if op = ''del'' then own_list is_text ''keys'' v
           else if op = ''clear'' then own_is is_text ''prefix'' v
           else if op = ''expire'' then
             own_is is_text ''key'' v \<and> (own_is isFiniteNumber ''expiresAt'' v \<or> own_is isFiniteNumber ''ttlMs'' v)
           else if op = ''patch'' then
             own_list (\<lambda>e. isRecord e \<and> own_is is_text ''key'' e \<and> hasOwn e ''value'' \<and>
               own_may isFiniteNumber ''expiresAt'' e) ''entries'' v \<and>
             own_list is_text ''deleted'' v
           else if op = ''persist'' then own_is is_text ''key'' v
           else if op = ''incr'' then own_is is_text ''key'' v \<and> own_is isFiniteNumber ''by'' v
           else False
       | _ \<Rightarrow> False))"

definition is_transaction :: "json \<Rightarrow> bool" where
  "is_transaction v \<longleftrightarrow> own ''op'' v = Some (JStr ''transaction'')"

definition validateAofOp :: "json \<Rightarrow> unit outcome" where
  "validateAofOp v =
     (if isRecord v \<and> is_transaction v \<and> own_list isAofMutation ''ops'' v then Inr ()
      else if \<not> isAofMutation v then Inl (PlainError ''invalid AOF operation'') else Inr ())"

section \<open>Replay\<close>

text \<open>Reading the properties of a validated operation.\<close>

definition own_text :: "string \<Rightarrow> json \<Rightarrow> string" where
  "own_text k v = (case own k v of Some (JStr s) \<Rightarrow> s | _ \<Rightarrow> [])"

definition own_items :: "string \<Rightarrow> json \<Rightarrow> json list" where
  "own_items k v = (case own k v of Some (JArr xs) \<Rightarrow> xs | _ \<Rightarrow> [])"

definition own_value :: "string \<Rightarrow> json \<Rightarrow> json" where
  "own_value k v = (case own k v of Some x \<Rightarrow> x | None \<Rightarrow> JNull)"

text \<open>A number passed on as an argument; a value of another type is not a finite number either.\<close>

definition as_number :: "json \<Rightarrow> jsnum" where
  "as_number v = (case v of JNum x \<Rightarrow> Fin x | _ \<Rightarrow> NaN)"

definition own_number :: "string \<Rightarrow> json \<Rightarrow> jsnum option" where
  "own_number k v = map_option as_number (own k v)"

fun key_text :: "json \<Rightarrow> string" where
  "key_text (JStr s) = s"
| "key_text _ = []"

definition apply_set :: "rat \<Rightarrow> json \<Rightarrow> unit kvop" where
  "apply_set now e =
     (if hasOwn e ''expiresAt'' then
        andThen (kv_setAt now (own_text ''key'' e) (own_value ''value'' e)
          (if own ''expiresAt'' e = Some JNull then None else own_number ''expiresAt'' e)) (\<lambda>_. returns ())
      else
        andThen (kv_set now (own_text ''key'' e) (own_value ''value'' e) (own_number ''ttlMs'' e)) (\<lambda>_. returns ()))"

definition apply_del :: "rat \<Rightarrow> json \<Rightarrow> unit kvop" where
  "apply_del now k = andThen (kv_del now (key_text k)) (\<lambda>_. returns ())"

definition apply_expire :: "rat \<Rightarrow> json \<Rightarrow> unit kvop" where
  "apply_expire now v =
     (case own_number ''expiresAt'' v of
        Some t \<Rightarrow> andThen (kv_expireAt now (own_text ''key'' v) t) (\<lambda>_. returns ())
      | None \<Rightarrow>
          (case own_number ''ttlMs'' v of
             Some t \<Rightarrow> andThen (kv_expire now (own_text ''key'' v) t) (\<lambda>_. returns ())
           | None \<Rightarrow> returns ()))"

definition apply_patch :: "rat \<Rightarrow> json \<Rightarrow> unit kvop" where
  "apply_patch now v =
     atomic
      (andThen (for_each (apply_del now) (own_items ''deleted'' v)) (\<lambda>_.
       for_each (\<lambda>e. andThen (kv_setAt now (own_text ''key'' e) (own_value ''value'' e) (own_number ''expiresAt'' e))
         (\<lambda>_. returns ())) (own_items ''entries'' v)))"

text \<open>One record is applied at one reading of the clock.\<close>

definition applyAofMutation :: "rat \<Rightarrow> json \<Rightarrow> unit kvop" where
  "applyAofMutation now v =
     (let op = own_text ''op'' v in
      if op = ''set'' then apply_set now v
      else if op = ''mset'' then for_each (apply_set now) (own_items ''entries'' v)
      else if op = ''del'' then for_each (apply_del now) (own_items ''keys'' v)
      else if op = ''clear'' then andThen (kv_clearPrefix (own_text ''prefix'' v)) (\<lambda>_. returns ())
      else if op = ''expire'' then apply_expire now v
      else if op = ''persist'' then andThen (kv_persist now (own_text ''key'' v)) (\<lambda>_. returns ())
      else if op = ''incr'' then
        andThen (kv_incr now now (own_text ''key'' v) (as_number (own_value ''by'' v))) (\<lambda>_. returns ())
      else if op = ''patch'' then apply_patch now v
      else returns ())"

definition applyAofOp :: "rat \<Rightarrow> json \<Rightarrow> unit kvop" where
  "applyAofOp now v =
     (if is_transaction v then atomic (for_each (applyAofMutation now) (own_items ''ops'' v)) else applyAofMutation now v)"

end
