(* ===== verification/Aof_Log.thy ===== *)
theory Aof_Log
  imports Aof_Op
begin

text \<open>
  The append-only log, class \<open>AofLog\<close> of \<open>src/src/persistence.ts\<close>: opening it, appending a
  record, recovery, replay into a cache and rotation. The file behind the path is the field
  \<open>al_disk\<close>, absent or a string of bytes. Appending may fail with a part of the record written;
  \<open>al_locked\<close> says that the file cannot be truncated. Other I/O errors are outside the model.
\<close>

section \<open>Lines\<close>

abbreviation newline :: char where
  "newline \<equiv> CHR 0x0A"

fun split_lines :: "string \<Rightarrow> string list" where
  "split_lines [] = [[]]"
| "split_lines (c # s) =
     (if c = newline then [] # split_lines s
      else (case split_lines s of l # ls \<Rightarrow> (c # l) # ls | [] \<Rightarrow> [[c]]))"

section \<open>Records\<close>

definition checkAofSeq :: "jsnum \<Rightarrow> nat outcome" where
  "checkAofSeq v =
     (case validateNonNegativeSafeInteger v of
        Inl _ \<Rightarrow> Inl (PlainError ''must be a safe integer >= 0'')
      | Inr x \<Rightarrow> Inr (nat \<lfloor>x\<rfloor>))"

definition record_seq :: "json option \<Rightarrow> nat outcome" where
  "record_seq v =
     (case v of
        Some (JNum x) \<Rightarrow>
          if is_safe_integer (Fin x) \<and> 0 \<le> x then Inr (nat \<lfloor>x\<rfloor>) else Inl (PlainError ''invalid AOF record sequence'')
      | _ \<Rightarrow> Inl (PlainError ''invalid AOF record sequence''))"

definition parseAofLine :: "string \<Rightarrow> (nat option \<times> json) outcome" where
  "parseAofLine line =
     chain (JSON_parse line) (\<lambda>parsed.
     if \<not> isRecord parsed then Inl (PlainError ''AOF record must be an object'')
     else if hasOwn parsed ''version'' \<or> hasOwn parsed ''seq'' \<or> own_is isRecord ''op'' parsed then
       (if own ''version'' parsed \<noteq> Some (JNum 1) then Inl (PlainError ''unsupported AOF record version'')
        else chain (record_seq (own ''seq'' parsed)) (\<lambda>n.
             chain (validateAofOp (own_value ''op'' parsed)) (\<lambda>_.
             Inr (Some n, own_value ''op'' parsed))))
     else chain (validateAofOp parsed) (\<lambda>_. Inr (None, parsed)))"

text \<open>The sequence numbers of a file increase.\<close>

definition next_record :: "nat option \<Rightarrow> string \<Rightarrow> (nat option \<times> json) outcome" where
  "next_record prev line =
     chain (parseAofLine line) (\<lambda>(seq, op).
     case (seq, prev) of
       (Some n, Some p) \<Rightarrow> if n \<le> p then Inl (PlainError ''AOF sequence is not increasing'') else Inr (seq, op)
     | _ \<Rightarrow> Inr (seq, op))"

definition later_seq :: "nat option \<Rightarrow> nat option \<Rightarrow> nat option" where
  "later_seq seq prev = (if seq = None then prev else seq)"

section \<open>The state\<close>

datatype recovery = Clean | TornTail | Corrupt

record aof_log =
  al_path :: "string option"
  al_lastSeq :: nat
  al_rotations :: nat
  al_recovery :: recovery
  al_detail :: "string option"
  al_disk :: "string option"
  al_locked :: bool

definition MAX_PERSISTENCE_FILE_BYTES :: nat where
  "MAX_PERSISTENCE_FILE_BYTES = 256 * 1024 * 1024"

definition decodeFile :: "string \<Rightarrow> string outcome" where
  "decodeFile bytes =
     (if \<not> valid_utf8 bytes then Inl (DbError PERSISTENCE_ERROR ''invalid persistence UTF-8'') else Inr bytes)"

text \<open>An absent file reads as \<open>None\<close>; this is the error \<open>ENOENT\<close>.\<close>

definition readFileBounded :: "string option \<Rightarrow> string option outcome" where
  "readFileBounded disk =
     (case disk of
        None \<Rightarrow> Inr None
      | Some bytes \<Rightarrow>
          if length bytes > MAX_PERSISTENCE_FILE_BYTES then Inl (DbError LIMIT_EXCEEDED ''persistence file exceeds 256 MiB'')
          else chain (decodeFile bytes) (\<lambda>raw. Inr (Some raw)))"

section \<open>Recovery\<close>

definition errorMessage :: "jserr \<Rightarrow> string" where
  "errorMessage e = (case e of DbError _ m \<Rightarrow> m | PlainError m \<Rightarrow> m)"

text \<open>\<open>raw.slice(0, raw.lastIndexOf("\n") + 1)\<close>.\<close>

definition whole_lines :: "string \<Rightarrow> string" where
  "whole_lines raw = rev (dropWhile (\<lambda>c. c \<noteq> newline) (rev raw))"

definition repairTornTail :: "string \<Rightarrow> aof_log \<Rightarrow> aof_log" where
  "repairTornTail raw a =
     (if al_path a = None then a
      else if al_locked a then
        a\<lparr>al_recovery := Corrupt, al_detail := Some ''AOF torn-tail repair failed''\<rparr>
      else a\<lparr>al_disk := map_option (take (length (whole_lines raw))) (al_disk a)\<rparr>)"

definition noteRecovery :: "string list \<Rightarrow> nat \<Rightarrow> jserr \<Rightarrow> string \<Rightarrow> aof_log \<Rightarrow> aof_log" where
  "noteRecovery lines i e raw a =
     (if i = length lines - 1 \<and> e = SYNTAX_ERROR \<and> isIncompleteJson (lines ! i) then
        repairTornTail raw
          (if al_recovery a = Clean then a\<lparr>al_recovery := TornTail, al_detail := Some (errorMessage e)\<rparr> else a)
      else a\<lparr>al_recovery := Corrupt, al_detail := Some (errorMessage e)\<rparr>)"

text \<open>An empty line is allowed behind the last record only.\<close>

definition end_of_file :: "string \<Rightarrow> string list \<Rightarrow> nat \<Rightarrow> bool" where
  "end_of_file raw lines i \<longleftrightarrow> raw = [] \<or> i = length lines - 1 \<and> last raw = newline"

definition EMPTY_RECORD :: jserr where
  "EMPTY_RECORD = PlainError ''empty AOF record''"

section \<open>Opening and appending\<close>

fun last_seq_loop :: "string \<Rightarrow> string list \<Rightarrow> nat \<Rightarrow> string list \<Rightarrow> nat option \<Rightarrow> nat \<Rightarrow> aof_log \<Rightarrow> nat \<times> aof_log" where
  "last_seq_loop raw lines i [] prev m a = (m, a)"
| "last_seq_loop raw lines i (line # ls) prev m a =
     (if js_trim line = [] then
        (if end_of_file raw lines i then last_seq_loop raw lines (Suc i) ls prev m a
         else (m, noteRecovery lines i EMPTY_RECORD raw a))
      else (case next_record prev (js_trim line) of
              Inl e \<Rightarrow> (m, noteRecovery lines i e raw a)
            | Inr (seq, op) \<Rightarrow>
                last_seq_loop raw lines (Suc i) ls (later_seq seq prev) (case seq of Some n \<Rightarrow> max m n | None \<Rightarrow> m) a))"

definition readLastSequence :: "(aof_log, nat) act" where
  "readLastSequence a =
     (if al_path a = None then (Inr 0, a)
      else (case readFileBounded (al_disk a) of
              Inl e \<Rightarrow> (Inl e, a)
            | Inr None \<Rightarrow> (Inr 0, a)
            | Inr (Some raw) \<Rightarrow>
                (let lines = split_lines raw; (m, a') = last_seq_loop raw lines 0 lines None 0 a in (Inr m, a'))))"

definition new_aof :: "string option \<Rightarrow> string option \<Rightarrow> bool \<Rightarrow> aof_log outcome" where
  "new_aof path disk locked =
     (case readLastSequence \<lparr>al_path = path, al_lastSeq = 0, al_rotations = 0, al_recovery = Clean, al_detail = None,
        al_disk = disk, al_locked = locked\<rparr> of
        (Inl e, a) \<Rightarrow> Inl e
      | (Inr n, a) \<Rightarrow> Inr (a\<lparr>al_lastSeq := n\<rparr>))"

definition aof_record :: "nat \<Rightarrow> json \<Rightarrow> json" where
  "aof_record n op = JObj [(''version'', JNum 1), (''seq'', JNum (of_nat n)), (''op'', op)]"

definition record_line :: "nat \<Rightarrow> json \<Rightarrow> string" where
  "record_line n op = json_text (aof_record n op) @ [newline]"

definition max_record_bytes :: nat where
  "max_record_bytes = 128 * 1024 * 1024"

text \<open>The last argument is the number of bytes written when the write fails.\<close>

definition aof_append :: "json \<Rightarrow> nat option \<Rightarrow> (aof_log, unit) act" where
  "aof_append op fault a =
     (if al_path a = None then (Inr (), a)
      else if al_recovery a = Corrupt then (Inl (PlainError ''AOF is corrupt''), a)
      else (case validateAofOp op of
              Inl e \<Rightarrow> (Inl e, a)
            | Inr _ \<Rightarrow>
                if of_nat (al_lastSeq a) \<ge> max_safe then (Inl (PlainError ''AOF sequence exhausted''), a)
                else (let n = al_lastSeq a + 1; encoded = record_line n op; old = (case al_disk a of Some b \<Rightarrow> b | None \<Rightarrow> []) in
                  if length encoded > max_record_bytes
                  then (Inl (DbError LIMIT_EXCEEDED ''AOF record exceeds 128 MiB''), a)
                  else (case fault of
                          Some k \<Rightarrow>
                            (Inl (PlainError ''write failed''),
                             a\<lparr>al_disk := Some (old @ take k encoded), al_recovery := Corrupt,
                               al_detail := Some ''AOF append failed; reopen and repair before writing''\<rparr>)
                        | None \<Rightarrow>
                            (Inr (), a\<lparr>al_disk := Some (old @ encoded), al_lastSeq := n, al_recovery := Clean, al_detail := None\<rparr>)))))"

section \<open>Replay\<close>

definition covered :: "nat option \<Rightarrow> nat option \<Rightarrow> bool" where
  "covered snap seq \<longleftrightarrow> (case snap of None \<Rightarrow> False | Some s \<Rightarrow> (case seq of None \<Rightarrow> True | Some n \<Rightarrow> n \<le> s))"

definition note_seq :: "nat option \<Rightarrow> aof_log \<Rightarrow> aof_log" where
  "note_seq seq a = (case seq of Some n \<Rightarrow> a\<lparr>al_lastSeq := max (al_lastSeq a) n\<rparr> | None \<Rightarrow> a)"

fun replay_loop ::
    "rat \<Rightarrow> nat option \<Rightarrow> string \<Rightarrow> string list \<Rightarrow> nat \<Rightarrow> string list \<Rightarrow> nat option \<Rightarrow> nat \<Rightarrow> aof_log \<times> kv \<Rightarrow> nat \<times> aof_log \<times> kv"
where
  "replay_loop now snap raw lines i [] prev k (a, c) = (k, a, c)"
| "replay_loop now snap raw lines i (line # ls) prev k (a, c) =
     (if js_trim line = [] then
        (if end_of_file raw lines i then replay_loop now snap raw lines (Suc i) ls prev k (a, c)
         else (k, noteRecovery lines i EMPTY_RECORD raw a, c))
      else (case next_record prev (js_trim line) of
              Inl e \<Rightarrow> (k, noteRecovery lines i e raw a, c)
            | Inr (seq, op) \<Rightarrow>
                let a1 = note_seq seq a; prev1 = later_seq seq prev in
                if covered snap seq then replay_loop now snap raw lines (Suc i) ls prev1 k (a1, c)
                else (case atomic (applyAofOp now op) c of
                        (Inl e, c1) \<Rightarrow> (k, noteRecovery lines i e raw a1, c1)
                      | (Inr _, c1) \<Rightarrow> replay_loop now snap raw lines (Suc i) ls prev1 (Suc k) (a1, c1))))"

definition snapshot_seq :: "jsnum option \<Rightarrow> nat option outcome" where
  "snapshot_seq v = (case v of None \<Rightarrow> Inr None | Some n \<Rightarrow> chain (checkAofSeq n) (\<lambda>s. Inr (Some s)))"

definition aof_replay :: "rat \<Rightarrow> jsnum option \<Rightarrow> (aof_log \<times> kv, nat) act" where
  "aof_replay now snapshotSeq ac =
     (let (a, c) = ac in
      if al_path a = None then (Inr 0, (a, c))
      else (case snapshot_seq snapshotSeq of
              Inl e \<Rightarrow> (Inl e, (a, c))
            | Inr snap \<Rightarrow>
                let a1 = note_seq snap a in
                (case readFileBounded (al_disk a1) of
                   Inl e \<Rightarrow> (Inl e, (a1, c))
                 | Inr None \<Rightarrow> (Inr 0, (a1, c))
                 | Inr (Some raw) \<Rightarrow>
                     let lines = split_lines raw; (k, a2, c2) = replay_loop now snap raw lines 0 lines None 0 (a1, c)
                     in (Inr k, (note_seq snap a2, c2)))))"

section \<open>Rotation\<close>

fun rotate_loop ::
    "nat \<Rightarrow> string \<Rightarrow> string list \<Rightarrow> nat \<Rightarrow> string list \<Rightarrow> nat option \<Rightarrow> string list \<Rightarrow> (aof_log, string list) act" where
  "rotate_loop snap raw lines i [] prev keep a = (Inr keep, a)"
| "rotate_loop snap raw lines i (line # ls) prev keep a =
     (if js_trim line = [] then
        (if end_of_file raw lines i then rotate_loop snap raw lines (Suc i) ls prev keep a
         else (let a' = noteRecovery lines i EMPTY_RECORD raw a in
               if al_recovery a' = Corrupt then (Inl (PlainError (the (al_detail a'))), a') else (Inr keep, a')))
      else (case next_record prev (js_trim line) of
              Inl e \<Rightarrow>
                (let a' = noteRecovery lines i e raw a in
                 if al_recovery a' = Corrupt then (Inl (PlainError (the (al_detail a'))), a') else (Inr keep, a'))
            | Inr (seq, op) \<Rightarrow>
                rotate_loop snap raw lines (Suc i) ls (later_seq seq prev)
                  (case seq of Some n \<Rightarrow> if n > snap then keep @ [js_trim line] else keep | None \<Rightarrow> keep) a))"

text \<open>\<open>tail.join("\n")\<close> with a line end behind it, or nothing.\<close>

fun join_lines :: "string list \<Rightarrow> string" where
  "join_lines [] = []"
| "join_lines [l] = l"
| "join_lines (l # ls) = l @ newline # join_lines ls"

definition tail_text :: "string list \<Rightarrow> string" where
  "tail_text ls = (if ls = [] then [] else join_lines ls @ [newline])"

definition rotateAfter :: "jsnum \<Rightarrow> (aof_log, unit) act" where
  "rotateAfter snapshotSeq a =
     (if al_path a = None then (Inr (), a)
      else if al_recovery a = Corrupt then (Inl (PlainError ''AOF is corrupt''), a)
      else (case checkAofSeq snapshotSeq of
              Inl e \<Rightarrow> (Inl e, a)
            | Inr snap \<Rightarrow>
                (case readFileBounded (al_disk a) of
                   Inl e \<Rightarrow> (Inl e, a)
                 | Inr file \<Rightarrow>
                     let raw = (case file of Some raw \<Rightarrow> raw | None \<Rightarrow> []); lines = split_lines raw in
                     andThen (rotate_loop snap raw lines 0 lines None []) (\<lambda>keep a1.
                       let a2 = a1\<lparr>al_rotations := al_rotations a1 + 1, al_disk := Some (tail_text keep)\<rparr> in
                       andThen readLastSequence (\<lambda>n. modify (\<lambda>a3. a3\<lparr>al_lastSeq := max snap n\<rparr>)) a2) a)))"

definition aof_truncate :: "(aof_log, unit) act" where
  "aof_truncate a = rotateAfter (Fin (of_nat (al_lastSeq a))) a"

end
