(* ===== verification/Json_Utf8.thy ===== *)
theory Json_Utf8
  imports Json_Prefix Utf8
begin

text \<open>The text of a value is well-formed UTF-8 without control characters.\<close>

fun utf8_json :: "json \<Rightarrow> bool" where
  "utf8_json (JStr s) = valid_utf8 s"
| "utf8_json (JArr xs) = (\<forall>x \<in> set xs. utf8_json x)"
| "utf8_json (JObj ps) = (\<forall>p \<in> set ps. valid_utf8 (fst p) \<and> utf8_json (snd p))"
| "utf8_json _ = True"

definition line_text :: "string \<Rightarrow> bool" where
  "line_text s \<longleftrightarrow> valid_utf8 s \<and> (\<forall>c \<in> set s. 32 \<le> byte c)"

lemma line_text_Nil [simp]: "line_text []"
  by (simp add: line_text_def)

lemma line_text_append: "line_text a \<Longrightarrow> line_text b \<Longrightarrow> line_text (a @ b)"
  by (auto simp: line_text_def valid_utf8_append)

lemma line_text_ascii: "\<forall>c \<in> set s. 32 \<le> byte c \<and> byte c < 128 \<Longrightarrow> line_text s"
  by (auto simp: line_text_def list_all_iff intro!: ascii_valid)

lemma hex_digit_ascii: "k < 16 \<Longrightarrow> 32 \<le> byte (hex_digit k) \<and> byte (hex_digit k) < 128"
  by (simp add: hex_digit_bytes)

lemma quote_char_forms:
  "quote_char c = [c] \<and> 32 \<le> byte c \<or>
   quote_char c \<in> (\<lambda>e. [CHR 0x5C, e]) ` {CHR 0x22, CHR 0x5C, CHR ''b'', CHR ''t'', CHR ''n'', CHR ''f'', CHR ''r''} \<or>
   byte c < 32 \<and> quote_char c = [CHR 0x5C, CHR ''u'', CHR ''0'', CHR ''0'', hex_digit (byte c div 16), hex_digit (byte c mod 16)]"
  by (simp add: quote_char_def byte_def)

definition ascii_text :: "string \<Rightarrow> bool" where
  "ascii_text s \<longleftrightarrow> list_all (\<lambda>c. 32 \<le> byte c \<and> byte c < 128) s"

lemma ascii_text_constants: "ascii_text [CHR 0x5C, CHR ''u'', CHR ''0'', CHR ''0'']" "ascii_text [CHR 0x5C, CHR 0x22]"
    "ascii_text [CHR 0x5C, CHR 0x5C]" "ascii_text [CHR 0x5C, CHR ''b'']" "ascii_text [CHR 0x5C, CHR ''t'']"
    "ascii_text [CHR 0x5C, CHR ''n'']" "ascii_text [CHR 0x5C, CHR ''f'']" "ascii_text [CHR 0x5C, CHR ''r'']"
  by (simp_all add: ascii_text_def byte_def)

lemma quote_char_ascii:
  assumes "byte c < 128"
  shows "ascii_text (quote_char c)"
  using quote_char_forms [of c]
proof (elim disjE)
  assume "quote_char c = [c] \<and> 32 \<le> byte c"
  with assms show ?thesis by (simp add: ascii_text_def)
next
  assume "quote_char c \<in> (\<lambda>e. [CHR 0x5C, e]) ` {CHR 0x22, CHR 0x5C, CHR ''b'', CHR ''t'', CHR ''n'', CHR ''f'', CHR ''r''}"
  then show ?thesis by (elim imageE insertE emptyE) (simp_all only: ascii_text_constants)
next
  assume u: "byte c < 32 \<and> quote_char c = [CHR 0x5C, CHR ''u'', CHR ''0'', CHR ''0'', hex_digit (byte c div 16), hex_digit (byte c mod 16)]"
  then have "byte c div 16 < 16" by (simp add: less_mult_imp_div_less)
  then have "ascii_text [hex_digit (byte c div 16), hex_digit (byte c mod 16)]"
    using hex_digit_ascii [of "byte c div 16"] hex_digit_ascii [of "byte c mod 16"] by (simp add: ascii_text_def)
  with ascii_text_constants(1) have "ascii_text ([CHR 0x5C, CHR ''u'', CHR ''0'', CHR ''0''] @ [hex_digit (byte c div 16), hex_digit (byte c mod 16)])"
    by (simp only: ascii_text_def list_all_append)
  with u show ?thesis by simp
qed

lemma quote_char_high: "128 \<le> byte c \<Longrightarrow> quote_char c = [c]"
  using quote_char_forms [of c]
proof (elim disjE)
  assume h: "128 \<le> byte c" and "quote_char c \<in> (\<lambda>e. [CHR 0x5C, e]) ` {CHR 0x22, CHR 0x5C, CHR ''b'', CHR ''t'', CHR ''n'', CHR ''f'', CHR ''r''}"
  then have "quote_char c \<noteq> [c]" by auto
  then have "c \<in> {CHR 0x22, CHR 0x5C, CHR 0x08, CHR 0x09, CHR 0x0A, CHR 0x0C, CHR 0x0D} \<or> byte c < 32"
    unfolding quote_char_def byte_def by (simp split: if_splits)
  with h show ?thesis by (elim disjE insertE) (simp_all add: byte_def)
qed simp_all

lemma line_text_quote: "valid_utf8 s \<Longrightarrow> line_text (quote_text s)"
proof -
  assume v: "valid_utf8 s"
  have q: "line_text [CHR 0x22]" by (rule line_text_ascii) (simp add: byte_def)
  have "valid_utf8 (concat (map quote_char s))"
    by (rule valid_concat_map [OF quote_char_high _ v]) (use quote_char_ascii in \<open>auto simp: ascii_text_def list_all_iff\<close>)
  moreover have "32 \<le> byte d" if "d \<in> set (quote_char c)" for c d
    using that quote_char_ascii [of c] quote_char_high [of c] by (cases "byte c < 128") (auto simp: ascii_text_def list_all_iff)
  ultimately have "line_text (concat (map quote_char s))" by (auto simp: line_text_def)
  with q show ?thesis unfolding quote_text_def
    using line_text_append [OF q line_text_append [OF _ q]] by simp
qed

lemma line_text_comma_sep: "\<forall>x \<in> set xs. line_text x \<Longrightarrow> line_text (comma_sep xs)"
proof (induction xs rule: comma_sep.induct)
  case (3 x y ys)
  have "line_text '',''" by (rule line_text_ascii) (simp add: byte_def)
  with 3 have "line_text (x @ '','' @ comma_sep (y # ys))" by (intro line_text_append) auto
  then show ?case by simp
qed simp_all

lemma line_text_items:
  assumes "line_text [a]" "line_text [b]" "\<forall>x \<in> set xs. line_text x"
  shows "line_text (a # comma_sep xs @ [b])"
  using line_text_append [OF assms(1) line_text_append [OF line_text_comma_sep [OF assms(3)] assms(2)]] by simp

lemma line_text_brackets: "line_text ''[''" "line_text '']''" "line_text ''{''" "line_text ''}''" "line_text '':''"
  by (rule line_text_ascii; simp add: byte_def)+

lemma line_text_member: "valid_utf8 (fst p) \<Longrightarrow> line_text (json_text (snd p)) \<Longrightarrow> line_text (member_text p)"
  using line_text_append [OF line_text_quote line_text_append [OF line_text_brackets(5)]] by simp

lemma line_text_json: "readable v \<Longrightarrow> utf8_json v \<Longrightarrow> line_text (json_text v)"
proof (induction v rule: json_induct)
  case (JNum x)
  then obtain i where "json_text (JNum x) = int_text i" by (auto elim: plain_number_text)
  moreover have "32 \<le> byte c \<and> byte c < 128" if "c \<in> set (int_text i)" for c
    using that nat_text_digits [of "\<bar>i\<bar>"]
    by (auto simp: int_text_def all_digits_def list_all_iff is_digit_def byte_def split: if_splits)
  ultimately show ?case using line_text_ascii by auto
next
  case (JArr xs)
  then show ?case unfolding json_text.simps by (intro line_text_items line_text_brackets) auto
next
  case (JObj ps)
  then show ?case unfolding json_text.simps by (intro line_text_items line_text_brackets) (auto intro!: line_text_member)
next
  case (JBool b)
  show ?case by (rule line_text_ascii) (simp add: byte_def)
next
  case JNull
  show ?case by (rule line_text_ascii) (simp add: byte_def)
next
  case (JStr s)
  then show ?case using line_text_quote by simp
qed

end
