(* ===== verification/Aof_Recovery.thy ===== *)
theory Aof_Recovery
  imports Aof_Log Json_Utf8
begin

text \<open>
  The text of a log: one line per record. Its lines are the records again, a record is read
  back from its line, and a line that is cut off is recognised.
\<close>

section \<open>Lines\<close>

lemma split_lines_line: "newline \<notin> set l \<Longrightarrow> split_lines (l @ newline # r) = l # split_lines r"
  by (induction l) auto

lemma split_lines_last: "newline \<notin> set l \<Longrightarrow> split_lines l = [l]"
  by (induction l) auto

lemma split_lines_text: "\<forall>l \<in> set ls. newline \<notin> set l \<Longrightarrow>
    split_lines (concat (map (\<lambda>l. l @ [newline]) ls) @ r) = ls @ split_lines r"
  by (induction ls) (simp_all add: split_lines_line)

lemma whole_lines_text: "newline \<notin> set p \<Longrightarrow> whole_lines (concat (map (\<lambda>l. l @ [newline]) ls) @ p) = concat (map (\<lambda>l. l @ [newline]) ls)"
proof (cases ls rule: rev_cases)
  case Nil
  assume "newline \<notin> set p"
  then have "dropWhile (\<lambda>c. c \<noteq> newline) (rev p) = []" by (auto simp: dropWhile_eq_Nil_conv)
  with Nil show ?thesis by (simp add: whole_lines_def)
next
  case (snoc ms l)
  assume "newline \<notin> set p"
  then have "dropWhile (\<lambda>c. c \<noteq> newline) (rev p @ newline # s) = newline # s" for s
    by (subst dropWhile_append2) auto
  with snoc show ?thesis by (simp add: whole_lines_def)
qed

section \<open>Trimming\<close>

lemma space_len_ascii: "byte c < 128 \<Longrightarrow> \<not> (byte c = 32 \<or> 9 \<le> byte c \<and> byte c \<le> 13) \<Longrightarrow> space_len (c # s) = 0"
  by (auto split: list.splits)

lemma drop_space_brace: "drop_space (CHR ''{'' # s) = CHR ''{'' # s"
  by (rule drop_space_id, rule space_len_ascii) (simp_all add: byte_def)

lemma space_len_last:
  assumes "space_len s = length s" "s \<noteq> []"
  shows "last s \<noteq> CHR ''}''"
proof -
  have "length s = 1 \<or> length s = 2 \<or> length s = 3"
    using assms by (cases s) (auto split: list.splits if_splits)
  then obtain c d e where "s = [c] \<or> s = [c, d] \<or> s = [c, d, e]"
    by (auto simp: length_Suc_conv numeral_eq_Suc)
  with assms(1) show ?thesis by (elim disjE) (auto simp: byte_def split: if_splits)
qed

lemma space_len_le: "space_len s \<le> length s"
  by (cases s) (auto split: list.splits)

lemma drop_space_ne: "s \<noteq> [] \<Longrightarrow> last s = CHR ''}'' \<Longrightarrow> drop_space s \<noteq> []"
proof (induction s rule: drop_space.induct)
  case (1 s)
  show ?case
  proof (cases "space_len s = 0")
    case True
    with 1 show ?thesis by simp
  next
    case False
    have "space_len s \<noteq> length s" using space_len_last 1 by blast
    then have "space_len s < length s" using space_len_le [of s] by simp
    with 1 False show ?thesis by (subst drop_space.simps) simp
  qed
qed

lemma trim_end_brace: "s = [] \<or> last s = CHR ''}'' \<Longrightarrow> trim_end s = s"
proof (induction s)
  case (Cons c s)
  then have "drop_space (c # s) \<noteq> []" by (intro drop_space_ne) auto
  with Cons show ?case by (cases s) auto
qed simp

lemma trim_end_prefix: "\<exists>w. s = trim_end s @ w"
  by (induction s) auto

lemma trim_object: "js_trim (CHR ''{'' # t @ [CHR ''}'']) = CHR ''{'' # t @ [CHR ''}'']"
  by (simp only: js_trim_def drop_space_brace) (rule trim_end_brace, simp)

lemma trim_cut:
  obtains w t where "CHR ''{'' # s = js_trim (CHR ''{'' # s) @ w" "js_trim (CHR ''{'' # s) = CHR ''{'' # t"
proof -
  from trim_end_prefix [of "CHR ''{'' # s"] obtain w where "CHR ''{'' # s = trim_end (CHR ''{'' # s) @ w" ..
  then show ?thesis using that [of w "trim_end s"]
    by (simp add: js_trim_def drop_space_brace)
qed

section \<open>Records\<close>

text \<open>What can be appended: a valid operation whose text can be read back.\<close>

definition loggable :: "nat \<times> json \<Rightarrow> bool" where
  "loggable r \<longleftrightarrow> (case r of (n, op) \<Rightarrow>
     validateAofOp op = Inr () \<and> readable op \<and> utf8_json op \<and> json_depth op < 255 \<and> n \<le> 2 ^ 53 - 1)"

lemma array_index_names: "array_index ''version'' = None" "array_index ''seq'' = None" "array_index ''op'' = None"
  by (simp_all add: array_index_def all_digits_def is_digit_def byte_def)

lemma plain_number_nat: "n \<le> 2 ^ 53 - 1 \<Longrightarrow> plain_number (of_nat n)"
proof -
  assume "n \<le> 2 ^ 53 - 1"
  then have "\<bar>int n\<bar> \<le> 2 ^ 53 - 1" by simp
  then have "\<bar>rat_of_int (int n)\<bar> \<le> rat_of_int (2 ^ 53 - 1)" by (simp only: of_int_abs [symmetric] of_int_le_iff)
  then have "\<bar>rat_of_nat n\<bar> \<le> 2 ^ 53" by simp
  moreover have "of_int \<lfloor>rat_of_nat n\<rfloor> = rat_of_nat n" by (metis floor_of_nat of_int_of_nat_eq)
  ultimately show ?thesis unfolding plain_number_def by (intro conjI)
qed

lemma record_readable: "loggable (n, op) \<Longrightarrow> readable (aof_record n op)"
  using plain_number_nat [of n] plain_number_nat [of 1]
  by (auto simp: loggable_def aof_record_def distinct_keys_def own_order_def array_index_names)

lemma record_utf8: "loggable (n, op) \<Longrightarrow> utf8_json (aof_record n op)"
proof -
  have "valid_utf8 ''version''" "valid_utf8 ''seq''" "valid_utf8 ''op''" by (rule ascii_valid; simp add: byte_def)+
  then show "loggable (n, op) \<Longrightarrow> utf8_json (aof_record n op)" by (simp add: loggable_def aof_record_def del: valid_utf8.simps)
qed

lemma record_depth: "loggable (n, op) \<Longrightarrow> json_depth (aof_record n op) < 256"
  by (simp add: loggable_def aof_record_def)

lemma record_printable: "loggable (n, op) \<Longrightarrow> line_text (json_text (aof_record n op))"
  by (rule line_text_json [OF record_readable record_utf8])

lemma line_text_newline: "line_text s \<Longrightarrow> newline \<notin> set s"
  by (auto simp: line_text_def byte_def)

lemma record_braces: "\<exists>t. json_text (aof_record n op) = CHR ''{'' # t @ [CHR ''}'']"
  by (simp add: aof_record_def)

lemma safe_seq: "n \<le> 2 ^ 53 - 1 \<Longrightarrow> is_safe_integer (Fin (of_nat n))"
  using safe_int [of "int n"] by simp

lemma parse_record:
  assumes "loggable (n, op)"
  shows "parseAofLine (json_text (aof_record n op)) = Inr (Some n, op)"
proof -
  have "JSON_parse (json_text (aof_record n op)) = Inr (aof_record n op)"
    by (rule JSON_parse_text [OF record_readable [OF assms]])
  with assms safe_seq [of n] show ?thesis
    by (simp add: parseAofLine_def aof_record_def loggable_def hasOwn_def own_def own_value_def record_seq_def)
qed

lemma trim_record: "js_trim (json_text (aof_record n op)) = json_text (aof_record n op)"
  using record_braces [of n op] trim_object by fastforce

lemma cut_record:
  assumes "loggable (n, op)" "json_text (aof_record n op) = p @ q" "q \<noteq> []" "p \<noteq> []"
  shows "isIncompleteJson p" "js_trim p \<noteq> []" "JSON_parse (js_trim p) = Inl SYNTAX_ERROR"
proof -
  obtain ps where ps: "aof_record n op = JObj ps" by (simp add: aof_record_def)
  show "isIncompleteJson p"
    using torn_object(1) [of ps p q] record_readable [OF assms(1)] record_depth [OF assms(1)] assms(2,3) unfolding ps by simp
  obtain s where p: "p = CHR ''{'' # s" using assms(2,4) record_braces [of n op] by (cases p) auto
  obtain w t where w: "p = js_trim p @ w" "js_trim p = CHR ''{'' # t" using trim_cut [of s] p by metis
  from w(2) show "js_trim p \<noteq> []" by simp
  have "json_text (JObj ps) = js_trim p @ (w @ q)" using assms(2) w(1) ps by simp
  then show "JSON_parse (js_trim p) = Inl SYNTAX_ERROR"
    using torn_object(2) [of ps "js_trim p" "w @ q"] record_readable [OF assms(1)] record_depth [OF assms(1)] assms(3)
    unfolding ps by simp
qed

text \<open>
  Logs as lists of numbered records: what opening, appending, replaying and rotating do to the
  list whose text the file holds, and what a cut-off last line does.
\<close>

section \<open>Logs\<close>

definition rec_text :: "nat \<times> json \<Rightarrow> string" where
  "rec_text r = json_text (aof_record (fst r) (snd r))"

definition log_text :: "(nat \<times> json) list \<Rightarrow> string" where
  "log_text rs = concat (map (\<lambda>l. l @ [newline]) (map rec_text rs))"

definition log_ok :: "(nat \<times> json) list \<Rightarrow> bool" where
  "log_ok rs \<longleftrightarrow> list_all loggable rs \<and> sorted_wrt (<) (map fst rs)"

definition ahead :: "nat option \<Rightarrow> (nat \<times> json) list \<Rightarrow> bool" where
  "ahead prev rs \<longleftrightarrow> (\<forall>p. prev = Some p \<longrightarrow> (\<forall>r \<in> set rs. p < fst r))"

definition last_of :: "nat option \<Rightarrow> (nat \<times> json) list \<Rightarrow> nat option" where
  "last_of prev rs = (if rs = [] then prev else Some (fst (last rs)))"

definition final_seq :: "(nat \<times> json) list \<Rightarrow> nat" where
  "final_seq rs = (case last_of None rs of Some n \<Rightarrow> n | None \<Rightarrow> 0)"

lemma log_text_simps [simp]: "log_text [] = []" "log_text (r # rs) = rec_text r @ newline # log_text rs"
    "log_text (rs @ rs') = log_text rs @ log_text rs'"
  by (simp_all add: log_text_def)

lemma last_of_simps [simp]: "last_of prev [] = prev" "last_of prev (r # rs) = last_of (Some (fst r)) rs"
  by (simp_all add: last_of_def)

lemma log_ok_simps [simp]: "log_ok []"
    "log_ok (r # rs) \<longleftrightarrow> loggable r \<and> ahead (Some (fst r)) rs \<and> log_ok rs"
  by (auto simp: log_ok_def ahead_def)

lemma ahead_simps [simp]: "ahead None rs" "ahead prev []"
    "ahead prev (r # rs) \<longleftrightarrow> (\<forall>p. prev = Some p \<longrightarrow> p < fst r) \<and> ahead prev rs"
  by (auto simp: ahead_def)

lemma log_ok_filter: "log_ok rs \<Longrightarrow> log_ok (filter P rs)"
  by (auto simp: log_ok_def list_all_iff sorted_wrt_filter sorted_wrt_map)

lemma log_loggable: "log_ok rs \<Longrightarrow> r \<in> set rs \<Longrightarrow> loggable r"
  by (simp add: log_ok_def list_all_iff)

lemma rec_printable: "loggable r \<Longrightarrow> line_text (rec_text r)"
  by (cases r) (simp add: rec_text_def record_printable)

lemma log_newlines: "log_ok rs \<Longrightarrow> \<forall>l \<in> set (map rec_text rs). newline \<notin> set l"
  using log_loggable rec_printable line_text_newline by fastforce

lemma log_lines: "log_ok rs \<Longrightarrow> newline \<notin> set p \<Longrightarrow> split_lines (log_text rs @ p) = map rec_text rs @ [p]"
  unfolding log_text_def by (subst split_lines_text [OF log_newlines]) (simp_all add: split_lines_last)

lemma log_whole_lines: "newline \<notin> set p \<Longrightarrow> whole_lines (log_text rs @ p) = log_text rs"
  unfolding log_text_def by (rule whole_lines_text)

lemma valid_newline: "valid_utf8 [newline]"
  by (rule ascii_valid) (simp add: byte_def)

lemma rec_line_valid: "loggable r \<Longrightarrow> valid_utf8 (rec_text r @ [newline])"
  using rec_printable [of r] by (simp only: line_text_def valid_utf8_append valid_newline)

lemma log_valid: "log_ok rs \<Longrightarrow> valid_utf8 (log_text rs)"
  unfolding log_text_def by (rule valid_utf8_concat) (auto simp: log_loggable intro: rec_line_valid)

lemma log_end: "end_of_file (log_text rs) (map rec_text rs @ [[]]) (length rs)"
proof (cases rs rule: rev_cases)
  case (snoc ss r)
  then have "last (log_text rs) = newline" by (simp add: last_append)
  then show ?thesis by (simp add: end_of_file_def)
qed (simp add: end_of_file_def)

section \<open>One record\<close>

lemma rec_trim: "js_trim (rec_text r) = rec_text r" "rec_text r \<noteq> []"
  using record_braces [of "fst r" "snd r"] by (auto simp: rec_text_def trim_record)

lemma next_rec:
  assumes "loggable r" "\<forall>p. prev = Some p \<longrightarrow> p < fst r"
  shows "next_record prev (rec_text r) = Inr (Some (fst r), snd r)"
  using assms parse_record [of "fst r" "snd r"] by (auto simp: next_record_def rec_text_def split: option.splits)

section \<open>Opening\<close>

lemma last_seq_records:
  assumes "log_ok rs" "ahead prev rs"
  shows "last_seq_loop raw lines i (map rec_text rs @ ls) prev m a =
    last_seq_loop raw lines (i + length rs) ls (last_of prev rs) (fold max (map fst rs) m) a"
  using assms
proof (induction rs arbitrary: i prev m)
  case (Cons r rs)
  then have "next_record prev (rec_text r) = Inr (Some (fst r), snd r)" by (intro next_rec) auto
  with Cons show ?case by (simp add: rec_trim later_seq_def max.commute)
qed simp

lemma fold_max_last: "sorted_wrt (<) (map fst rs) \<Longrightarrow> fold max (map fst rs) (m :: nat) = (if rs = [] then m else max m (fst (last rs)))"
proof (induction rs arbitrary: m)
  case (Cons r rs)
  have "fst r < fst (last rs)" if "rs \<noteq> []" using Cons.prems last_in_set [OF that] by simp
  then have "rs \<noteq> [] \<Longrightarrow> max (fst r) (fst (last rs)) = fst (last rs)" by (simp add: max_def less_imp_le)
  with Cons show ?case by (simp add: max.commute max.left_commute)
qed simp

lemma fold_max_final: "log_ok rs \<Longrightarrow> fold max (map fst rs) 0 = final_seq rs"
  using fold_max_last [of rs 0] by (auto simp: log_ok_def final_seq_def last_of_def max_def)

lemma log_final: "log_ok rs \<Longrightarrow> r \<in> set rs \<Longrightarrow> fst r \<le> final_seq rs"
proof (induction rs rule: rev_induct)
  case (snoc q rs)
  then show ?case by (auto simp: final_seq_def last_of_def log_ok_def sorted_wrt_append less_imp_le)
qed simp

definition opened :: "string \<Rightarrow> nat \<Rightarrow> recovery \<Rightarrow> string option \<Rightarrow> string \<Rightarrow> bool \<Rightarrow> aof_log" where
  "opened path n st d disk locked = \<lparr>al_path = Some path, al_lastSeq = n, al_rotations = 0, al_recovery = st, al_detail = d,
     al_disk = Some disk, al_locked = locked\<rparr>"

lemma read_log:
  assumes "log_ok rs" "length (log_text rs) \<le> MAX_PERSISTENCE_FILE_BYTES" "al_disk a = Some (log_text rs)" "al_path a = Some f"
  shows "readLastSequence a = (Inr (final_seq rs), a)"
proof -
  have "split_lines (log_text rs) = map rec_text rs @ [[]]" using log_lines [OF assms(1), of "[]"] by simp
  moreover have "last_seq_loop (log_text rs) (map rec_text rs @ [[]]) 0 (map rec_text rs @ [[]]) None 0 a = (final_seq rs, a)"
    using log_end [of rs] by (simp add: last_seq_records [OF assms(1)] js_trim_def fold_max_final [OF assms(1)])
  ultimately show ?thesis using assms(2-4) log_valid [OF assms(1)]
    by (simp add: readLastSequence_def readFileBounded_def decodeFile_def split del: if_split_asm)
qed

theorem open_log:
  assumes "log_ok rs" "length (log_text rs) \<le> MAX_PERSISTENCE_FILE_BYTES"
  shows "new_aof (Some path) (Some (log_text rs)) locked = Inr (opened path (final_seq rs) Clean None (log_text rs) locked)"
  using read_log [OF assms] by (simp add: new_aof_def opened_def)

text \<open>A last line that is no record: it is judged by \<open>noteRecovery\<close>.\<close>

lemma read_log_behind:
  assumes "log_ok rs" "newline \<notin> set p" "valid_utf8 p" "length (log_text rs @ p) \<le> MAX_PERSISTENCE_FILE_BYTES"
    and "js_trim p \<noteq> []" "next_record (last_of None rs) (js_trim p) = Inl e" "al_path a = Some f" "al_disk a = Some (log_text rs @ p)"
  shows "readLastSequence a = (Inr (final_seq rs), noteRecovery (map rec_text rs @ [p]) (length rs) e (log_text rs @ p) a)"
proof -
  have "split_lines (log_text rs @ p) = map rec_text rs @ [p]" by (rule log_lines [OF assms(1,2)])
  moreover have "last_seq_loop (log_text rs @ p) (map rec_text rs @ [p]) 0 (map rec_text rs @ [p]) None 0 a =
      (final_seq rs, noteRecovery (map rec_text rs @ [p]) (length rs) e (log_text rs @ p) a)"
    using assms(5,6) by (simp add: last_seq_records [OF assms(1)] fold_max_final [OF assms(1)])
  moreover have "valid_utf8 (log_text rs @ p)" using log_valid [OF assms(1)] assms(3) by (simp add: valid_utf8_append)
  ultimately show ?thesis using assms(4,7,8)
    by (simp add: readLastSequence_def readFileBounded_def decodeFile_def)
qed

theorem open_torn:
  assumes "log_ok rs" "loggable r" "rec_text r = p @ q" "q \<noteq> []" "p \<noteq> []" "valid_utf8 p"
    and size: "length (log_text rs @ p) \<le> MAX_PERSISTENCE_FILE_BYTES"
  shows "new_aof (Some path) (Some (log_text rs @ p)) False =
    Inr (opened path (final_seq rs) TornTail (Some (errorMessage SYNTAX_ERROR)) (log_text rs) False)"
proof -
  note cut = cut_record [of "fst r" "snd r" p q, simplified, OF assms(2) assms(3) [unfolded rec_text_def] assms(4,5)]
  have nl: "newline \<notin> set p" using line_text_newline [OF rec_printable [OF assms(2)]] assms(3) by auto
  have n: "next_record (last_of None rs) (js_trim p) = Inl SYNTAX_ERROR" by (simp add: next_record_def parseAofLine_def cut(3))
  show ?thesis
    unfolding new_aof_def
    by (subst read_log_behind [OF assms(1) nl assms(6) size cut(2) n])
      (simp_all add: noteRecovery_def nth_append cut(1) repairTornTail_def log_whole_lines [OF nl] opened_def)
qed

text \<open>A file cut inside a character is not read at all.\<close>

theorem open_cut_character:
  assumes "log_ok rs" "\<not> valid_utf8 p" "length (log_text rs @ p) \<le> MAX_PERSISTENCE_FILE_BYTES"
  shows "new_aof (Some path) (Some (log_text rs @ p)) locked = Inl (DbError PERSISTENCE_ERROR ''invalid persistence UTF-8'')"
proof -
  have "\<not> valid_utf8 (log_text rs @ p)" using log_valid [OF assms(1)] assms(2) by (simp add: valid_utf8_append)
  with assms(3) show ?thesis by (simp add: new_aof_def readLastSequence_def readFileBounded_def decodeFile_def)
qed

section \<open>Appending\<close>

definition with_record :: "nat \<Rightarrow> string \<Rightarrow> aof_log \<Rightarrow> aof_log" where
  "with_record n bytes a = a\<lparr>al_disk := Some bytes, al_lastSeq := n, al_recovery := Clean, al_detail := None\<rparr>"

definition with_torn :: "string \<Rightarrow> aof_log \<Rightarrow> aof_log" where
  "with_torn bytes a = a\<lparr>al_disk := Some bytes, al_recovery := Corrupt,
     al_detail := Some ''AOF append failed; reopen and repair before writing''\<rparr>"

lemma append_record:
  assumes "al_path a = Some f" "al_recovery a \<noteq> Corrupt" "al_disk a = Some bytes" "loggable (al_lastSeq a + 1, op)"
    and "length (rec_text (al_lastSeq a + 1, op)) < max_record_bytes"
  shows "aof_append op None a = (Inr (), with_record (al_lastSeq a + 1) (bytes @ rec_text (al_lastSeq a + 1, op) @ [newline]) a)"
    and "aof_append op (Some k) a =
      (Inl (PlainError ''write failed''), with_torn (bytes @ take k (rec_text (al_lastSeq a + 1, op) @ [newline])) a)"
proof -
  have v: "validateAofOp op = Inr ()" "al_lastSeq a + 1 \<le> 2 ^ 53 - 1" using assms(4) by (auto simp: loggable_def)
  then have "int (al_lastSeq a) < 2 ^ 53 - 1" by simp
  then have "rat_of_int (int (al_lastSeq a)) < rat_of_int (2 ^ 53 - 1)" by (simp only: of_int_less_iff)
  then have m: "\<not> rat_of_nat (al_lastSeq a) \<ge> max_safe" by (simp add: max_safe_def)
  note facts = assms(1,2,3,5) v(1) m aof_append_def record_line_def rec_text_def
  show "aof_append op None a = (Inr (), with_record (al_lastSeq a + 1) (bytes @ rec_text (al_lastSeq a + 1, op) @ [newline]) a)"
    using facts by (simp add: with_record_def Let_def)
  show "aof_append op (Some k) a =
      (Inl (PlainError ''write failed''), with_torn (bytes @ take k (rec_text (al_lastSeq a + 1, op) @ [newline])) a)"
    using facts by (simp add: with_torn_def Let_def)
qed

end
