(* ===== verification/Aof_Replay.thy ===== *)
theory Aof_Replay
  imports Aof_Recovery Kv_Tx
begin

text \<open>
  Replaying a log into a cache and rotating it: replay applies the records behind the snapshot
  in their order, rotation keeps exactly those, and the cache stays consistent.
\<close>

section \<open>Replay of records\<close>

text \<open>The count, the error that ended the replay, and the cache.\<close>

fun replay_records :: "rat \<Rightarrow> nat option \<Rightarrow> (nat \<times> json) list \<Rightarrow> kv \<Rightarrow> nat \<times> jserr option \<times> kv" where
  "replay_records now snap [] c = (0, None, c)"
| "replay_records now snap ((n, op) # rs) c =
     (if covered snap (Some n) then replay_records now snap rs c
      else (case atomic (applyAofOp now op) c of
              (Inl e, c1) \<Rightarrow> (0, Some e, c1)
            | (Inr _, c1) \<Rightarrow> (case replay_records now snap rs c1 of (k, e, c2) \<Rightarrow> (Suc k, e, c2))))"

definition after_replay :: "jserr option \<Rightarrow> aof_log \<Rightarrow> aof_log" where
  "after_replay e a = (case e of None \<Rightarrow> a | Some e \<Rightarrow> a\<lparr>al_recovery := Corrupt, al_detail := Some (errorMessage e)\<rparr>)"

lemma note_seq_known: "n \<le> al_lastSeq a \<Longrightarrow> note_seq (Some n) a = a"
  by (simp add: note_seq_def max_absorb1)

lemma note_seq_idem: "note_seq s (note_seq s a) = note_seq s a"
  by (cases s) (simp_all add: note_seq_def)

lemma note_seq_after: "note_seq s (after_replay e a) = after_replay e (note_seq s a)"
  by (simp add: note_seq_def after_replay_def split: option.splits)

lemma note_seq_simps [simp]: "al_path (note_seq s a) = al_path a" "al_disk (note_seq s a) = al_disk a"
    "al_lastSeq a \<le> al_lastSeq (note_seq s a)"
  by (simp_all add: note_seq_def split: option.splits)

text \<open>A record that fails inside the file is not the end of it: the log is corrupt.\<close>

lemma failed_inside: "Suc i < length lines \<Longrightarrow> noteRecovery lines i e raw a = after_replay (Some e) a"
  unfolding noteRecovery_def after_replay_def by (subst if_not_P) auto

lemma replay_loop_records:
  assumes "log_ok rs" "ahead prev rs" "\<forall>r \<in> set rs. fst r \<le> al_lastSeq a" "i + length rs < length lines"
    and rest: "\<And>j p m x. j = i + length rs \<Longrightarrow> replay_loop now snap raw lines j ls p m x = (m, x)"
  shows "replay_loop now snap raw lines i (map rec_text rs @ ls) prev k (a, c) =
    (case replay_records now snap rs c of (m, e, c') \<Rightarrow> (k + m, after_replay e a, c'))"
  using assms
proof (induction rs arbitrary: i prev k c)
  case Nil
  then show ?case by (simp add: after_replay_def)
next
  case (Cons r rs)
  obtain n op where r: "r = (n, op)" by (cases r)
  have "next_record prev (rec_text r) = Inr (Some n, op)" using next_rec [of r prev] Cons.prems(1,2) r by simp
  moreover have "replay_loop now snap raw lines (Suc i) (map rec_text rs @ ls) (Some n) k' (a, c') =
      (case replay_records now snap rs c' of (m, e, c'') \<Rightarrow> (k' + m, after_replay e a, c''))" for k' c'
    by (rule Cons.IH) (use Cons.prems r in auto)
  moreover have "note_seq (Some n) a = a" using Cons.prems(3) r by (simp add: note_seq_known)
  moreover have "noteRecovery lines i e raw a = after_replay (Some e) a" for e
    using failed_inside Cons.prems(4) by simp
  ultimately show ?case
    by (simp add: rec_trim later_seq_def r split: prod.split sum.split)
qed

definition seq_arg :: "nat option \<Rightarrow> jsnum option" where
  "seq_arg snap = map_option (\<lambda>s. Fin (of_nat s)) snap"

lemma checkAofSeq_nat: "n \<le> 2 ^ 53 - 1 \<Longrightarrow> checkAofSeq (Fin (of_nat n)) = Inr n"
  using safe_seq [of n] by (simp add: checkAofSeq_def validateNonNegativeSafeInteger_def validateSafeInteger_def)

lemma snapshot_seq_arg: "(\<forall>s. snap = Some s \<longrightarrow> s \<le> 2 ^ 53 - 1) \<Longrightarrow> snapshot_seq (seq_arg snap) = Inr snap"
  by (cases snap) (simp_all add: snapshot_seq_def seq_arg_def checkAofSeq_nat)

theorem replay_log:
  assumes ok: "log_ok rs" "length (log_text rs) \<le> MAX_PERSISTENCE_FILE_BYTES"
    and a: "al_path a = Some f" "al_disk a = Some (log_text rs)" "final_seq rs \<le> al_lastSeq a"
    and s: "\<forall>s. snap = Some s \<longrightarrow> s \<le> 2 ^ 53 - 1"
    and run: "replay_records now snap rs c = (k, e, c')"
  shows "aof_replay now (seq_arg snap) (a, c) = (Inr k, (after_replay e (note_seq snap a), c'))"
proof -
  have seqs: "\<forall>r \<in> set rs. fst r \<le> al_lastSeq (note_seq snap a)"
    using log_final [OF ok(1)] a(3) by (meson note_seq_simps(3) order_trans)
  have lines: "split_lines (log_text rs) = map rec_text rs @ [[]]" using log_lines [OF ok(1), of "[]"] by simp
  have "replay_loop now snap (log_text rs) (map rec_text rs @ [[]]) 0 (map rec_text rs @ [[]]) None 0 (note_seq snap a, c) =
      (k, after_replay e (note_seq snap a), c')"
    by (subst replay_loop_records [OF ok(1) _ seqs]) (use log_end [of rs] run in \<open>auto simp: js_trim_def\<close>)
  with a(1,2) ok(2) log_valid [OF ok(1)] show ?thesis
    by (simp add: aof_replay_def snapshot_seq_arg [OF s] readFileBounded_def decodeFile_def Let_def lines
        note_seq_after note_seq_idem)
qed

text \<open>
  Rotating the log behind a snapshot, and the log whose last line lost its line end: it opens
  as complete, and the record appended next shares its line.
\<close>

section \<open>Rotation\<close>

definition behind :: "nat \<Rightarrow> (nat \<times> json) list \<Rightarrow> (nat \<times> json) list" where
  "behind snap rs = filter (\<lambda>r. snap < fst r) rs"

lemma rotate_records:
  assumes "log_ok rs" "ahead prev rs"
    and rest: "\<And>j p keep. j = i + length rs \<Longrightarrow> rotate_loop snap raw lines j ls p keep a = (Inr keep, a)"
  shows "rotate_loop snap raw lines i (map rec_text rs @ ls) prev keep a = (Inr (keep @ map rec_text (behind snap rs)), a)"
  using assms
proof (induction rs arbitrary: i prev keep)
  case (Cons r rs)
  have "next_record prev (rec_text r) = Inr (Some (fst r), snd r)" using next_rec [of r prev] Cons.prems(1,2) by simp
  moreover have "rotate_loop snap raw lines (Suc i) (map rec_text rs @ ls) (Some (fst r)) keep' a =
      (Inr (keep' @ map rec_text (behind snap rs)), a)" for keep'
    by (rule Cons.IH) (use Cons.prems in auto)
  ultimately show ?case by (simp add: rec_trim later_seq_def behind_def)
qed (simp add: behind_def)

lemma tail_text_records: "tail_text (map rec_text rs) = log_text rs"
proof (induction rs)
  case (Cons r rs)
  then show ?case by (cases rs) (simp_all add: tail_text_def)
qed (simp add: tail_text_def)

lemma log_ok_behind: "log_ok rs \<Longrightarrow> log_ok (behind snap rs)"
  by (simp add: behind_def log_ok_filter)

lemma behind_shorter: "length (log_text (behind snap rs)) \<le> length (log_text rs)"
  by (induction rs) (auto simp: behind_def)

lemma final_behind: "log_ok rs \<Longrightarrow> max snap (final_seq (behind snap rs)) = max snap (final_seq rs)"
proof (induction rs rule: rev_induct)
  case (snoc r rs)
  have ok: "log_ok rs" using snoc.prems by (simp add: log_ok_def sorted_wrt_append)
  have "behind snap rs = []" if "fst r \<le> snap"
    using snoc.prems that by (auto simp: behind_def log_ok_def sorted_wrt_append filter_empty_conv)
  then show ?case by (auto simp: behind_def final_seq_def last_of_def max_def)
qed (simp add: behind_def)

theorem rotate_log:
  assumes ok: "log_ok rs" "length (log_text rs) \<le> MAX_PERSISTENCE_FILE_BYTES"
    and a: "al_path a = Some f" "al_recovery a \<noteq> Corrupt" "al_disk a = Some (log_text rs)"
    and s: "snap \<le> 2 ^ 53 - 1"
  shows "rotateAfter (Fin (of_nat snap)) a =
    (Inr (), a\<lparr>al_rotations := al_rotations a + 1, al_disk := Some (log_text (behind snap rs)), al_lastSeq := max snap (final_seq rs)\<rparr>)"
proof -
  have lines: "split_lines (log_text rs) = map rec_text rs @ [[]]" using log_lines [OF ok(1), of "[]"] by simp
  have "rotate_loop snap (log_text rs) (map rec_text rs @ [[]]) 0 (map rec_text rs @ [[]]) None [] a =
      (Inr (map rec_text (behind snap rs)), a)"
    by (subst rotate_records [OF ok(1)]) (use log_end [of rs] in \<open>simp_all add: js_trim_def\<close>)
  moreover have "readLastSequence (a\<lparr>al_rotations := m, al_disk := Some (log_text (behind snap rs))\<rparr>) =
      (Inr (final_seq (behind snap rs)), a\<lparr>al_rotations := m, al_disk := Some (log_text (behind snap rs))\<rparr>)" for m
    using read_log [OF log_ok_behind [OF ok(1)], of snap _ f] behind_shorter [of snap rs] ok(2) a(1) by simp
  ultimately show ?thesis using a ok(2) log_valid [OF ok(1)]
    by (simp add: rotateAfter_def checkAofSeq_nat [OF s] readFileBounded_def decodeFile_def Let_def lines
        tail_text_records final_behind [OF ok(1)] modify_def)
qed

text \<open>A snapshot that covers the rotation point sees the same records in both files.\<close>

lemma replay_behind: "snap \<le> s \<Longrightarrow> replay_records now (Some s) (behind snap rs) c = replay_records now (Some s) rs c"
  by (induction rs arbitrary: c) (auto simp: behind_def covered_def split: prod.splits sum.splits)

section \<open>The last line without its end\<close>

text \<open>A file that stops right behind a record opens as complete.\<close>

lemma rec_newline: "loggable r \<Longrightarrow> newline \<notin> set (rec_text r)"
  by (rule line_text_newline [OF rec_printable])

theorem open_unterminated:
  assumes "log_ok (rs @ [r])" "length (log_text rs @ rec_text r) \<le> MAX_PERSISTENCE_FILE_BYTES"
  shows "new_aof (Some path) (Some (log_text rs @ rec_text r)) locked =
    Inr (opened path (fst r) Clean None (log_text rs @ rec_text r) locked)"
proof -
  have ok: "log_ok rs" "loggable r" "ahead None (rs @ [r])" using assms(1) by (simp_all add: log_ok_def sorted_wrt_append)
  have lines: "split_lines (log_text rs @ rec_text r) = map rec_text (rs @ [r]) @ []"
    using log_lines [OF ok(1) rec_newline [OF ok(2)]] by simp
  have "valid_utf8 (log_text rs @ rec_text r)"
    using log_valid [OF ok(1)] rec_printable [OF ok(2)] by (simp add: valid_utf8_append line_text_def)
  moreover have "final_seq (rs @ [r]) = fst r" by (simp add: final_seq_def last_of_def)
  ultimately show ?thesis using assms(2) last_seq_records [OF assms(1) ok(3), of _ _ _ "[]"] fold_max_final [OF assms(1)]
    by (simp add: new_aof_def readLastSequence_def readFileBounded_def decodeFile_def lines [simplified] opened_def Let_def)
qed

text \<open>Two records on one line are no JSON text.\<close>

lemma joined_records:
  assumes "loggable r"
  shows "JSON_parse (rec_text r @ rec_text q) = Inl SYNTAX_ERROR" "js_trim (rec_text r @ rec_text q) = rec_text r @ rec_text q"
proof -
  obtain s t where st: "rec_text r = CHR ''{'' # s @ [CHR ''}'']" "rec_text q = CHR ''{'' # t @ [CHR ''}'']"
    using record_braces [of "fst r" "snd r"] record_braces [of "fst q" "snd q"] by (auto simp: rec_text_def)
  have "parse_json_value (json_fuel (rec_text r @ rec_text q)) (rec_text r @ rec_text q) = Some (aof_record (fst r) (snd r), rec_text q)"
    unfolding rec_text_def
    by (rule reads_backD [OF readable_reads_back]) (use record_readable [of "fst r" "snd r"] assms record_braces [of "fst q" "snd q"] in \<open>auto simp: json_fuel_def stops_def\<close>)
  moreover have "skip_ws (rec_text q) \<noteq> []" by (simp add: st(2) json_space_def byte_def)
  ultimately show "JSON_parse (rec_text r @ rec_text q) = Inl SYNTAX_ERROR" by (simp add: JSON_parse_def)
  show "js_trim (rec_text r @ rec_text q) = rec_text r @ rec_text q"
    using trim_object [of "s @ CHR ''}'' # CHR ''{'' # t"] by (simp add: st)
qed

theorem open_joined:
  assumes "log_ok rs" "loggable r" "loggable q" "length (log_text rs @ rec_text r @ rec_text q @ [newline]) \<le> MAX_PERSISTENCE_FILE_BYTES"
  shows "new_aof (Some path) (Some (log_text rs @ rec_text r @ rec_text q @ [newline])) locked =
    Inr (opened path (final_seq rs) Corrupt (Some (errorMessage SYNTAX_ERROR)) (log_text rs @ rec_text r @ rec_text q @ [newline]) locked)"
proof -
  let ?raw = "log_text rs @ rec_text r @ rec_text q @ [newline]"
  let ?lines = "map rec_text rs @ [rec_text r @ rec_text q, []]"
  have nl: "newline \<notin> set (rec_text r @ rec_text q)" using rec_newline assms(2,3) by simp
  have lines: "split_lines ?raw = ?lines"
    using split_lines_text [OF log_newlines [OF assms(1)], of "(rec_text r @ rec_text q) @ newline # []"] split_lines_line [OF nl, of "[]"]
    by (simp add: log_text_def)
  have "valid_utf8 ?raw"
    using log_valid [OF assms(1)] rec_printable [OF assms(2)] rec_line_valid [OF assms(3)] by (simp add: valid_utf8_append line_text_def)
  moreover have "next_record p (rec_text r @ rec_text q) = Inl SYNTAX_ERROR" for p
    by (simp add: next_record_def parseAofLine_def joined_records(1) [OF assms(2)])
  then have "last_seq_loop ?raw ?lines 0 ?lines None 0 a =
      (final_seq rs, noteRecovery ?lines (length rs) SYNTAX_ERROR ?raw a)" for a
    using joined_records(2) [OF assms(2), of q] rec_trim(2) [of r]
    by (simp add: last_seq_records [OF assms(1)] fold_max_final [OF assms(1)])
  moreover have "noteRecovery ?lines (length rs) SYNTAX_ERROR ?raw a = after_replay (Some SYNTAX_ERROR) a" for a
    by (rule failed_inside) simp
  ultimately show ?thesis using assms(4)
    by (simp add: new_aof_def readLastSequence_def readFileBounded_def decodeFile_def lines opened_def after_replay_def Let_def)
qed

end
