(* ===== verification/Kv_Changes.thy ===== *)
theory Kv_Changes
  imports Kv_Tx
begin

text \<open>
  \<open>atomicChanges\<close>: the entries and deleted keys it hands to its callback are exactly the
  difference the operation made, and an operation that fails, or whose callback throws, leaves
  the entries as they were.
\<close>

section \<open>Operations that keep the invariant\<close>

definition steady_op :: "'a kvop \<Rightarrow> bool" where
  "steady_op m \<longleftrightarrow> (\<forall>c0 s. track {} c0 s \<longrightarrow> wp c0 (m s) (\<lambda>_ s'. track {} c0 s' \<and> kv_opts s' = kv_opts s))"

lemma steady_wp: "steady_op m \<Longrightarrow> track {} c0 s \<Longrightarrow> wp c0 (m s) (\<lambda>_ s'. track {} c0 s' \<and> kv_opts s' = kv_opts s)"
  by (simp add: steady_op_def)

lemma steady_returns: "steady_op (returns a)"
  by (simp add: steady_op_def)

lemma steady_then:
  assumes "steady_op m" "\<And>a. steady_op (f a)"
  shows "steady_op (andThen m f)"
  unfolding steady_op_def
proof (intro allI impI)
  fix c0 s assume "track {} c0 s"
  then show "wp c0 (andThen m f s) (\<lambda>_ s'. track {} c0 s' \<and> kv_opts s' = kv_opts s)"
    unfolding wp_andThen by (rule wp_mono [OF steady_wp [OF assms(1)]]) (auto intro: wp_mono [OF steady_wp [OF assms(2)]])
qed

lemma steady_each: "(\<And>x. steady_op (f x)) \<Longrightarrow> steady_op (for_each f xs)"
  by (induction xs) (auto intro: steady_returns steady_then)

lemma steady_ok: "(\<And>c. kv_ok c \<Longrightarrow> op_ok c (m c) (Q c)) \<Longrightarrow> steady_op m"
  unfolding steady_op_def by (blast intro: wp_rebase track_ok)

lemma steady_atomic:
  assumes "steady_op m"
  shows "steady_op (atomic m)"
  unfolding steady_op_def
proof (intro allI impI)
  fix c0 s assume t: "track {} c0 s"
  have "track {} (captured s) (captured s)" by (intro track_refl captured_ok track_ok [OF t])
  from steady_wp [OF assms this]
  show "wp c0 (atomic m s) (\<lambda>_ s'. track {} c0 s' \<and> kv_opts s' = kv_opts s)"
    by (intro atomic_wp [OF t, where P = "\<lambda>_ _. True"]) (auto elim: wp_mono)
qed

lemma steady_set: "steady_op (kv_set now k v t)" by (rule steady_ok [OF kv_set_wp])
lemma steady_setAt: "steady_op (kv_setAt now k v t)" by (rule steady_ok [OF kv_setAt_wp])
lemma steady_del: "steady_op (kv_del now k)" by (rule steady_ok [OF kv_del_wp])
lemma steady_clearPrefix: "steady_op (kv_clearPrefix p)" by (rule steady_ok [OF kv_clearPrefix_wp])
lemma steady_expireAt: "steady_op (kv_expireAt now k t)" by (rule steady_ok [OF kv_expireAt_wp])
lemma steady_expire: "steady_op (kv_expire now k t)" by (rule steady_ok [OF kv_expire_wp])
lemma steady_persist: "steady_op (kv_persist now k)" by (rule steady_ok [OF kv_persist_wp])
lemma steady_incr: "steady_op (kv_incr now now k d)" by (rule steady_ok [OF kv_incr_wp]) auto

lemma steady_if: "steady_op x \<Longrightarrow> steady_op y \<Longrightarrow> steady_op (if b then x else y)"
  by simp

lemma steady_option: "steady_op x \<Longrightarrow> (\<And>t. steady_op (f t)) \<Longrightarrow> steady_op (case v of None \<Rightarrow> x | Some t \<Rightarrow> f t)"
  by (cases v) auto

lemmas steady_intros = steady_if steady_option steady_returns steady_then steady_each steady_atomic steady_set steady_setAt
  steady_del steady_clearPrefix steady_expireAt steady_expire steady_persist steady_incr

lemma steady_run: "steady_op m \<Longrightarrow> kv_ok c \<Longrightarrow> kv_ok (snd (m c))"
  using wp_evolves [OF wp_mono [OF steady_wp [OF _ track_refl]]] evolves_ok by blast

section \<open>The collected changes\<close>

text \<open>
  What is written down as changed at the time \<open>t\<close>: every key that is not mentioned has the same
  entry, a deleted key is absent or expired, and the others have the listed entries.
\<close>

definition entry_of :: "snapshot_entry \<Rightarrow> entry" where
  "entry_of e = \<lparr>e_value = s_value e, e_expiresAt = s_expiresAt e,
     e_size = int (length (s_key e) + valueByteLength (s_value e))\<rparr>"

definition collected :: "rat \<Rightarrow> kv \<Rightarrow> string set \<Rightarrow> snapshot_entry list \<Rightarrow> string list \<Rightarrow> bool" where
  "collected t c ks es ds \<longleftrightarrow> ks = s_key ` set es \<union> set ds \<and> (\<forall>k \<in> set ds. live t k c = None) \<and>
     (\<forall>e \<in> set es. kv_lookup (s_key e) c = Some (entry_of e))"

definition difference :: "rat \<Rightarrow> kv \<Rightarrow> kv \<Rightarrow> snapshot_entry list \<Rightarrow> string list \<Rightarrow> bool" where
  "difference t c c' es ds \<longleftrightarrow> collected t c' (s_key ` set es \<union> set ds) es ds \<and>
     (\<forall>k. k \<notin> s_key ` set es \<longrightarrow> k \<notin> set ds \<longrightarrow> kv_lookup k c' = kv_lookup k c)"

lemma entry_of_stored:
  assumes "kv_ok c" "kv_lookup k c = Some e"
  shows "entry_of \<lparr>s_key = k, s_value = e_value e, s_expiresAt = e_expiresAt e\<rparr> = e"
  using kv_ok_entry [OF assms] by (cases e) (simp add: entry_of_def entry_ok_def)

lemma collect_changes_Inr:
  assumes "kv_ok c"
  shows "collect_changes t c ks = Inr (es, ds) \<Longrightarrow> collected t c (set ks) es ds"
proof (induction ks arbitrary: es ds)
  case (Cons k ks)
  have gone: ?case if "live t k c = None"
  proof -
    have "collect_changes t c (k # ks) = map_sum id (\<lambda>(es, ds). (es, k # ds)) (collect_changes t c ks)"
      using that by (auto simp: live_def split: option.splits if_splits)
    then obtain ds' where d: "collect_changes t c ks = Inr (es, ds')" "ds = k # ds'"
      using Cons.prems by (cases "collect_changes t c ks") auto
    from Cons.IH [OF d(1)] that show ?case by (auto simp: collected_def d(2))
  qed
  show ?case
  proof (cases "kv_lookup k c")
    case None
    then show ?thesis by (intro gone) (simp add: live_def)
  next
    case (Some e)
    show ?thesis
    proof (cases "isExpired e t")
      case True
      with Some show ?thesis by (intro gone) (simp add: live_def)
    next
      case False
      then obtain es' where d: "collect_changes t c ks = Inr (es', ds)"
          "es = \<lparr>s_key = k, s_value = e_value e, s_expiresAt = e_expiresAt e\<rparr> # es'"
        using Cons.prems Some by (cases "collect_changes t c ks") (auto simp: bind_out_Inr cloneJsonValue_Inr)
      from Cons.IH [OF d(1)] Some entry_of_stored [OF assms Some] show ?thesis by (auto simp: collected_def d(2))
    qed
  qed
qed (simp add: collected_def)

section \<open>The operation\<close>

lemma kv_ok_changed [simp]: "kv_ok (c\<lparr>kv_changed := x\<rparr>) = kv_ok c"
  by (simp add: kv_ok_def)

lemma lookup_changed [simp]: "kv_lookup k (c\<lparr>kv_changed := x\<rparr>) = kv_lookup k c"
  by (simp add: kv_lookup_def)

lemma live_changed [simp]: "live t k (c\<lparr>kv_changed := x\<rparr>) = live t k c"
  by (simp add: live_def)

text \<open>The state in which the operation starts, and the one it ends in.\<close>

definition opened_changes :: "kv \<Rightarrow> kv" where
  "opened_changes c = captured (c\<lparr>kv_changed := [] # kv_changed c\<rparr>)"

definition kept :: "kv \<Rightarrow> kv" where
  "kept c2 = (let c = close_frame (commitMaps c2) in c\<lparr>kv_changed := tl (kv_changed c)\<rparr>)"

definition dropped :: "kv \<Rightarrow> kv \<Rightarrow> kv" where
  "dropped c c2 = (let c = restoreState (kv_state c) (c2\<lparr>kv_frames := tl (kv_frames c2)\<rparr>) in c\<lparr>kv_changed := tl (kv_changed c)\<rparr>)"

lemma atomicChanges_run:
  "kv_atomicChanges t fn commit (w, c) =
     (case fn (w, opened_changes c) of
        (Inl e, (w1, c2)) \<Rightarrow> (Inl e, (w1, dropped c c2))
      | (Inr r, (w1, c2)) \<Rightarrow>
          (case collect_changes t c2 (hd (kv_changed c2)) of
             Inl e \<Rightarrow> (Inl e, (w1, dropped c c2))
           | Inr (es, ds) \<Rightarrow>
               (case commit es ds w1 of
                  (Inl e, w') \<Rightarrow> (Inl e, (w', dropped c c2))
                | (Inr _, w') \<Rightarrow> (Inr r, (w', kept c2)))))"
proof -
  have o: "captureState (c\<lparr>kv_changed := x\<rparr>)\<lparr>kv_frames := (kv_state c, []) # kv_frames (captureState (c\<lparr>kv_changed := x\<rparr>))\<rparr> =
      captured (c\<lparr>kv_changed := x\<rparr>)" for x
    by (simp add: captured_def captureState_def)
  show ?thesis
    unfolding kv_atomicChanges_def atomic_with_def opened_changes_def
    by (simp add: o Let_def andThen_def commit_changes_def kept_def dropped_def split: prod.split sum.split)
qed

lemma opened_changes_ok:
  assumes "kv_ok c"
  shows "kv_ok (opened_changes c)" "kv_lookup k (opened_changes c) = kv_lookup k c" "kv_changed (opened_changes c) = [] # kv_changed c"
  using captured_ok [of "c\<lparr>kv_changed := [] # kv_changed c\<rparr>"] assms
  by (simp_all add: opened_changes_def) (simp add: captured_def captureState_def)

text \<open>What the operation does to the cache.\<close>

definition kv_part :: "('w \<times> kv, 'a) act \<Rightarrow> 'w \<Rightarrow> 'a kvop" where
  "kv_part fn w c = (case fn (w, c) of (r, (w', c')) \<Rightarrow> (r, c'))"

lemma kv_part_on_kv [simp]: "kv_part (on_kv m) w = m"
  by (simp add: fun_eq_iff kv_part_def on_kv_def split: prod.split)

lemma steady_opened:
  assumes "kv_ok c" "steady_op (kv_part fn w)" "fn (w, opened_changes c) = (Inr r, (w1, c2))"
  shows "track {} (opened_changes c) c2"
  using wp_result [OF steady_wp [OF assms(2) track_refl [OF opened_changes_ok(1) [OF assms(1)]]], of r c2] assms(3)
  by (simp add: kv_part_def)

lemma kept_facts:
  assumes ok: "kv_ok c" and t: "track {} (opened_changes c) c2"
  shows "kv_ok (kept c2)" "entries (kept c2) = entries c2" "kv_opts (kept c2) = kv_opts c"
    and "kv_changed c = [] \<Longrightarrow> kv_changed (kept c2) = []" "kv_frames c = [] \<Longrightarrow> kv_frames (kept c2) = []"
proof -
  let ?c = "c\<lparr>kv_changed := [] # kv_changed c\<rparr>"
  have "kv_ok ?c" using ok by simp
  note c = commit_track [OF this t [unfolded opened_changes_def]]
  have x: "same_ctx ?c (close_frame (commitMaps c2))" "kv_ok (close_frame (commitMaps c2))" using c(1) by (simp_all add: track_def)
  show "kv_ok (kept c2)" "entries (kept c2) = entries c2" using x(2) c(2) by (simp_all add: kept_def Let_def)
  show "kv_opts (kept c2) = kv_opts c" using x(1) by (simp add: kept_def Let_def same_ctx_def)
  show "kv_changed (kept c2) = []" if "kv_changed c = []"
    using x(1) that by (auto simp: kept_def Let_def same_ctx_def length_Suc_conv)
  show "kv_frames (kept c2) = []" if "kv_frames c = []"
    using x(1) that by (simp add: kept_def Let_def same_ctx_def)
qed

lemma changes_collected:
  assumes ok: "kv_ok c" and t: "track {} (opened_changes c) c2" and co: "collect_changes now c2 (hd (kv_changed c2)) = Inr (es, ds)"
  shows "difference now c (kept c2) es ds"
proof -
  note k = kept_facts [OF ok t]
  have look: "kv_lookup k (kept c2) = kv_lookup k c2" for k by (simp add: lookup_entries k(2))
  then have live: "live now k (kept c2) = live now k c2" for k by (simp add: live_def)
  have "kv_ok c2" using t by (rule track_ok)
  note col = collect_changes_Inr [OF this co]
  have n: "noted {} (opened_changes c) c2" using t by (simp add: track_def)
  moreover have "kv_changed c2 \<noteq> []" using n opened_changes_ok(3) [OF ok] by (auto simp: noted_def grows_def)
  ultimately have "kv_lookup k c2 = kv_lookup k c" if "k \<notin> set (hd (kv_changed c2))" for k
    using that opened_changes_ok(2) [OF ok] by (simp add: noted_def)
  with col show ?thesis by (simp add: difference_def collected_def look live)
qed

theorem atomicChanges_done:
  assumes ok: "kv_ok c" and st: "steady_op (kv_part fn w)" and run: "kv_atomicChanges t fn commit (w, c) = (Inr r, (w', c'))"
  obtains es ds c2 w1 where "fn (w, opened_changes c) = (Inr r, (w1, c2))" "commit es ds w1 = (Inr (), w')" "c' = kept c2"
    "track {} (opened_changes c) c2" "difference t c c' es ds" "collect_changes t c2 (hd (kv_changed c2)) = Inr (es, ds)"
proof -
  obtain c2 w1 where f: "fn (w, opened_changes c) = (Inr r, (w1, c2))"
    and rest: "(case collect_changes t c2 (hd (kv_changed c2)) of Inl e \<Rightarrow> (Inl e, (w1, dropped c c2))
       | Inr (es, ds) \<Rightarrow> (case commit es ds w1 of (Inl e, w') \<Rightarrow> (Inl e, (w', dropped c c2)) | (Inr _, w') \<Rightarrow> (Inr r, (w', kept c2)))) = (Inr r, (w', c'))"
    using run by (auto simp: atomicChanges_run split: prod.splits sum.splits)
  then obtain es ds where co: "collect_changes t c2 (hd (kv_changed c2)) = Inr (es, ds)" "commit es ds w1 = (Inr (), w')" "c' = kept c2"
    by (auto split: prod.splits sum.splits)
  note t = steady_opened [OF ok st f]
  show ?thesis by (rule that [OF f co(2,3) t _ co(1)]) (simp add: co(3) changes_collected [OF ok t co(1)])
qed

lemma dropped_same:
  assumes "kv_ok c" "evolves (opened_changes c) c2"
  shows "same_data c (dropped c c2)" "kv_changed c = [] \<Longrightarrow> kv_changed (dropped c c2) = []" "kv_ok (dropped c c2)"
proof -
  let ?c = "c\<lparr>kv_changed := [] # kv_changed c\<rparr>"
  have "kv_ok ?c" using assms(1) by simp
  note r = restore_same [OF this assms(2) [unfolded opened_changes_def]]
  show "same_data c (dropped c c2)" using r(1) by (simp add: same_data_def dropped_def Let_def)
  have x: "same_ctx ?c (restoreState (kv_state ?c) (c2\<lparr>kv_frames := tl (kv_frames c2)\<rparr>))" and
    o: "kv_ok (restoreState (kv_state ?c) (c2\<lparr>kv_frames := tl (kv_frames c2)\<rparr>))" using r(2) by (simp_all add: track_def)
  show "kv_changed (dropped c c2) = []" if "kv_changed c = []"
    using x that by (auto simp: dropped_def Let_def same_ctx_def length_Suc_conv)
  show "kv_ok (dropped c c2)" using o by (simp add: dropped_def Let_def)
qed

theorem atomicChanges_failed:
  assumes ok: "kv_ok c" and st: "steady_op (kv_part fn w)" and run: "kv_atomicChanges t fn commit (w, c) = (Inl e, (w', c'))"
  obtains c2 r w1 where "evolves (opened_changes c) c2" "c' = dropped c c2" "fn (w, opened_changes c) = (r, (w1, c2))"
    "(r = Inl e \<and> w' = w1) \<or> (\<exists>a. r = Inr a \<and> ((w' = w1 \<and> collect_changes t c2 (hd (kv_changed c2)) = Inl e) \<or> (\<exists>es ds. commit es ds w1 = (Inl e, w'))))"
proof (cases "fn (w, opened_changes c)")
  case (fields r w1 c2)
  have "evolves (opened_changes c) c2"
    using wp_evolves [OF wp_mono [OF steady_wp [OF st track_refl [OF opened_changes_ok(1) [OF ok]]]]] fields
    by (fastforce simp: kv_part_def)
  moreover have "c' = dropped c c2 \<and> ((r = Inl e \<and> w' = w1) \<or> (\<exists>a. r = Inr a \<and> ((w' = w1 \<and> collect_changes t c2 (hd (kv_changed c2)) = Inl e) \<or> (\<exists>es ds. commit es ds w1 = (Inl e, w')))))"
    using run fields by (auto simp: atomicChanges_run split: prod.splits sum.splits)
  ultimately show ?thesis using that fields by blast
qed

text \<open>Collecting the changes fails only on a value that cannot be copied.\<close>

lemma collect_changes_Inl: "collect_changes t c ks = Inl e \<Longrightarrow> \<exists>code m. e = DbError code m"
proof (induction ks)
  case (Cons k ks)
  have rest: "\<exists>code m. e = DbError code m" if "map_sum id f (collect_changes t c ks) = Inl e" for f :: "_ \<Rightarrow> snapshot_entry list \<times> string list"
    using that Cons.IH by (cases "collect_changes t c ks") auto
  show ?case
  proof (cases "kv_lookup k c")
    case None
    with Cons.prems rest show ?thesis by simp
  next
    case (Some x)
    show ?thesis
    proof (cases "isExpired x t")
      case True
      with Cons.prems Some rest show ?thesis by simp
    next
      case False
      with Cons.prems Some rest cloneJsonValue_Inl show ?thesis
        by (cases "cloneJsonValue default_clone_bytes (e_value x)") auto
    qed
  qed
qed simp

end
