(* ===== verification/Aof_Patch.thy ===== *)
theory Aof_Patch
  imports Aof_Replay Kv_Changes
begin

text \<open>
  Recovery and the cache: whatever the file holds, replaying it runs cache operations only and
  leaves a consistent cache; and a log written by appending replays the appended operations.
  Then the record of a change: replaying it makes the change again.
\<close>

section \<open>Consistency\<close>

lemma steady_mutation: "steady_op (applyAofMutation now v)"
  unfolding applyAofMutation_def apply_set_def apply_del_def apply_expire_def apply_patch_def Let_def
  by (intro steady_intros)

lemma steady_record: "steady_op (applyAofOp now v)"
  unfolding applyAofOp_def by (intro steady_intros steady_mutation)

lemma replay_loop_ok: "kv_ok c \<Longrightarrow> kv_ok (snd (snd (replay_loop now snap raw lines i ls prev k (a, c))))"
proof (induction now snap raw lines i ls prev k "(a, c)" arbitrary: a c rule: replay_loop.induct)
  case (2 now snap raw lines i line ls prev k a c)
  have "kv_ok c'" if "atomic (applyAofOp now op) c = (r, c')" for op r c'
    using steady_run [OF steady_atomic [OF steady_record] 2(4), of now op] that by simp
  with 2 show ?case by (auto simp: Let_def split: sum.split prod.split)
qed simp

section \<open>A log written by appending\<close>

text \<open>The operations one after the other, up to the first that fails.\<close>

fun apply_ops :: "rat \<Rightarrow> json list \<Rightarrow> kv \<Rightarrow> nat \<times> jserr option \<times> kv" where
  "apply_ops now [] c = (0, None, c)"
| "apply_ops now (op # ops) c =
     (case atomic (applyAofOp now op) c of
        (Inl e, c1) \<Rightarrow> (0, Some e, c1)
      | (Inr _, c1) \<Rightarrow> (case apply_ops now ops c1 of (k, e, c2) \<Rightarrow> (Suc k, e, c2)))"

lemma replay_all: "replay_records now None rs c = apply_ops now (map snd rs) c"
  by (induction rs arbitrary: c) (auto simp: covered_def split: sum.split prod.split)

fun append_all :: "json list \<Rightarrow> (aof_log, unit) act" where
  "append_all [] = returns ()"
| "append_all (op # ops) = andThen (aof_append op None) (\<lambda>_. append_all ops)"

fun sequenced :: "nat \<Rightarrow> json list \<Rightarrow> (nat \<times> json) list" where
  "sequenced n [] = []"
| "sequenced n (op # ops) = (n, op) # sequenced (Suc n) ops"

lemma sequenced_ge: "\<forall>r \<in> set (sequenced n ops). n \<le> fst r"
proof (induction ops arbitrary: n)
  case (Cons op ops)
  from Cons [of "Suc n"] show ?case by (auto intro: Suc_leD)
qed simp

lemma sequenced_sorted: "sorted_wrt (<) (map fst (sequenced n ops))"
proof (induction ops arbitrary: n)
  case (Cons op ops)
  from Cons [of "Suc n"] sequenced_ge [of "Suc n" ops] show ?case by (simp add: Suc_le_eq)
qed simp

lemma sequenced_ops [simp]: "map snd (sequenced n ops) = ops"
  by (induction ops arbitrary: n) auto

lemma sequenced_Nil: "sequenced n ops = [] \<longleftrightarrow> ops = []"
  by (cases ops) auto

lemma sequenced_fst_last: "ops \<noteq> [] \<Longrightarrow> fst (last (sequenced n ops)) = n + length ops - 1"
proof (induction ops arbitrary: n)
  case (Cons op ops)
  from Cons.IH [of "Suc n"] show ?case by (cases "ops = []") (simp_all add: sequenced_Nil)
qed simp

lemma sequenced_last: "final_seq (sequenced n ops) = (if ops = [] then 0 else n + length ops - 1)"
  by (simp add: final_seq_def last_of_def sequenced_Nil sequenced_fst_last)

lemma append_all_records:
  assumes "al_path a = Some f" "al_recovery a = Clean" "al_detail a = None" "al_disk a = Some bytes"
    and "\<forall>r \<in> set (sequenced (Suc (al_lastSeq a)) ops). loggable r \<and> length (rec_text r) < max_record_bytes"
  shows "append_all ops a = (Inr (), a\<lparr>al_disk := Some (bytes @ log_text (sequenced (Suc (al_lastSeq a)) ops)),
    al_lastSeq := al_lastSeq a + length ops\<rparr>)"
  using assms
proof (induction ops arbitrary: a bytes)
  case Nil
  then show ?case by (cases a) simp
next
  case (Cons op ops)
  define b where "b = with_record (al_lastSeq a + 1) (bytes @ rec_text (al_lastSeq a + 1, op) @ [newline]) a"
  have ap: "aof_append op None a = (Inr (), b)"
    unfolding b_def by (rule append_record) (use Cons.prems in auto)
  have "append_all ops b = (Inr (), b\<lparr>al_disk := Some ((bytes @ rec_text (al_lastSeq a + 1, op) @ [newline]) @
      log_text (sequenced (Suc (al_lastSeq b)) ops)), al_lastSeq := al_lastSeq b + length ops\<rparr>)"
    by (rule Cons.IH) (use Cons.prems in \<open>auto simp: b_def with_record_def\<close>)
  with ap Cons.prems(2,3) show ?case by (cases a) (simp add: b_def with_record_def)
qed

section \<open>A sample record\<close>

definition sample_op :: json where
  "sample_op = JObj [(''op'', JStr ''persist''), (''key'', JStr ''k'')]"

lemma sample_fields: "own ''op'' sample_op = Some (JStr ''persist'')" "own ''key'' sample_op = Some (JStr ''k'')"
  by (simp_all add: sample_op_def own_def)

lemma sample_valid: "validateAofOp sample_op = Inr ()"
  by (simp add: validateAofOp_def isAofMutation_def is_transaction_def own_is_def sample_fields) (simp add: sample_op_def)

lemma sample_loggable: "n \<le> 2 ^ 53 - 1 \<Longrightarrow> loggable (n, sample_op)"
  by (simp add: loggable_def sample_valid)
    (simp add: sample_op_def own_order_def array_index_def all_digits_def is_digit_def distinct_keys_def byte_def)

lemma sample_length: "length (rec_text (1, sample_op)) = 53" "length (rec_text (2, sample_op)) = 53"
  by (simp_all add: rec_text_def sample_op_def aof_record_def num_text_1 num_text_2 quote_text_def quote_char_def byte_def)

text \<open>
  The record of a change: \<open>patch\<close> with the changed entries and the deleted keys. Replaying it
  into a cache with the same contents makes the same change, as long as the entries fit in the
  order in which they are listed.
\<close>

section \<open>The record\<close>

definition entry_json :: "snapshot_entry \<Rightarrow> json" where
  "entry_json e = JObj ([(''key'', JStr (s_key e)), (''value'', s_value e)] @
     (case s_expiresAt e of None \<Rightarrow> [] | Some t \<Rightarrow> [(''expiresAt'', JNum t)]))"

definition patch_op :: "snapshot_entry list \<Rightarrow> string list \<Rightarrow> json" where
  "patch_op es ds = JObj [(''op'', JStr ''patch''), (''entries'', JArr (map entry_json es)), (''deleted'', JArr (map JStr ds))]"

lemma patch_fields: "own ''op'' (patch_op es ds) = Some (JStr ''patch'')"
    "own ''entries'' (patch_op es ds) = Some (JArr (map entry_json es))" "own ''deleted'' (patch_op es ds) = Some (JArr (map JStr ds))"
  by (simp_all add: patch_op_def own_def)

lemma entry_fields: "own ''key'' (entry_json e) = Some (JStr (s_key e))" "own ''value'' (entry_json e) = Some (s_value e)"
    "own ''expiresAt'' (entry_json e) = map_option JNum (s_expiresAt e)"
  by (simp_all add: entry_json_def own_def split: option.splits)

lemma patch_mutation:
  "applyAofOp now (patch_op es ds) = atomic (andThen (for_each (apply_del now) (map JStr ds)) (\<lambda>_.
     for_each (\<lambda>e. andThen (kv_setAt now (s_key e) (s_value e) (map_option Fin (s_expiresAt e))) (\<lambda>_. returns ())) es))"
proof -
  have each: "for_each f (map g xs) = for_each (\<lambda>x. f (g x)) xs" for f :: "json \<Rightarrow> unit kvop" and g and xs :: "snapshot_entry list"
    by (induction xs) auto
  have number: "own_number ''expiresAt'' (entry_json e) = map_option Fin (s_expiresAt e)" for e
    by (cases "s_expiresAt e") (simp_all add: own_number_def entry_fields as_number_def)
  show ?thesis
    by (simp add: applyAofOp_def is_transaction_def applyAofMutation_def apply_patch_def own_text_def own_items_def
        own_value_def patch_fields entry_fields each number)
qed

lemma patch_valid: "validateAofOp (patch_op es ds) = Inr ()"
proof -
  have r: "isRecord (patch_op es ds)" by (simp add: patch_op_def)
  have e: "isRecord (entry_json e) \<and> own_is is_text ''key'' (entry_json e) \<and> hasOwn (entry_json e) ''value'' \<and>
      own_may isFiniteNumber ''expiresAt'' (entry_json e)" for e
    by (cases "s_expiresAt e") (simp_all add: own_is_def own_may_def hasOwn_def entry_fields, simp_all add: entry_json_def)
  have "isAofMutation (patch_op es ds)"
    using e by (simp add: isAofMutation_def patch_fields own_list_def list_all_iff r)
  then show ?thesis by (simp add: validateAofOp_def is_transaction_def patch_fields)
qed

section \<open>Contents\<close>

definition put :: "rat \<Rightarrow> snapshot_entry \<Rightarrow> (string \<times> entry) list \<Rightarrow> (string \<times> entry) list" where
  "put now e l = (if due (s_expiresAt e) now then al_del (s_key e) l else al_del (s_key e) l @ [(s_key e, entry_of e)])"

fun fits_each :: "kv_options \<Rightarrow> rat \<Rightarrow> snapshot_entry list \<Rightarrow> (string \<times> entry) list \<Rightarrow> bool" where
  "fits_each opts now [] l = True"
| "fits_each opts now (e # es) l = (fits_list opts (put now e l) \<and> fits_each opts now es (put now e l))"

definition patched :: "rat \<Rightarrow> snapshot_entry list \<Rightarrow> string list \<Rightarrow> (string \<times> entry) list \<Rightarrow> (string \<times> entry) list" where
  "patched now es ds l = fold (put now) es (fold al_del ds l)"

lemma map_of_put: "map_of (put now e l) =
    (map_of l)(s_key e := if due (s_expiresAt e) now then None else Some (entry_of e))"
  by (auto simp: put_def fun_eq_iff map_add_def split: option.splits)

lemma distinct_put: "distinct_keys l \<Longrightarrow> distinct_keys (put now e l)"
  by (simp add: put_def) (auto simp: distinct_keys_def al_del_def distinct_map_filter)

lemma map_of_dels: "map_of (fold al_del ds l) = (\<lambda>k. if k \<in> set ds then None else map_of l k)"
  by (induction ds arbitrary: l) (auto simp: fun_eq_iff)

lemma distinct_dels: "distinct_keys l \<Longrightarrow> distinct_keys (fold al_del ds l)"
  by (induction ds arbitrary: l) auto

lemma map_of_puts:
  assumes "\<forall>e \<in> set es. E (s_key e) = entry_of e"
  shows "map_of (fold (put now) es l) k =
    (if k \<in> s_key ` set es then (if due (e_expiresAt (E k)) now then None else Some (E k)) else map_of l k)"
  using assms
proof (induction es arbitrary: l)
  case (Cons e es)
  then have "e_expiresAt (E (s_key e)) = s_expiresAt e" by (simp add: entry_of_def)
  with Cons show ?case by (auto simp: map_of_put)
qed simp

text \<open>A part of a cache that fits, fits.\<close>

lemma fits_sub:
  assumes "distinct_keys l" "distinct_keys l'" "map_of l \<subseteq>\<^sub>m map_of l'" "\<forall>p \<in> set l'. 0 \<le> e_size (snd p)" "fits_list opts l'"
  shows "fits_list opts l"
proof -
  have d: "distinct l" "distinct l'" using assms(1,2) by (simp_all add: distinct_keys_def distinct_map)
  have sub: "set l \<subseteq> set l'"
  proof
    fix p assume "p \<in> set l"
    then have "map_of l (fst p) = Some (snd p)" using assms(1) by (simp add: distinct_keys_def)
    then have "map_of l' (fst p) = Some (snd p)" using assms(3) by (auto simp: map_le_def dom_def)
    then show "p \<in> set l'" by (auto dest: map_of_SomeD)
  qed
  then have "length l \<le> length l'" using d by (metis List.finite_set card_mono distinct_card)
  moreover have "al_sum e_size l \<le> al_sum e_size l'"
    using d sub assms(4) by (auto simp: al_sum_def sum_list_distinct_conv_sum_set intro: sum_mono2)
  ultimately show ?thesis using assms(5) by (simp add: fits_list_def)
qed

section \<open>Failures\<close>

text \<open>The only way to fail that is left: the counter of changes is used up.\<close>

definition fails_full :: "'a outcome \<times> kv \<Rightarrow> bool" where
  "fails_full rc \<longleftrightarrow> (case rc of (Inl e, s) \<Rightarrow> exhausted s | (Inr a, s) \<Rightarrow> True)"

lemma fails_full_simps [simp]: "fails_full (Inr a, s)" "fails_full (Inl e, s) = exhausted s" "fails_full (returns a s)" "fails_full (modify f s)"
  by (simp_all add: fails_full_def modify_def)

lemma fails_full_then:
  "fails_full (m s) \<Longrightarrow> (\<And>a s'. m s = (Inr a, s') \<Longrightarrow> fails_full (f a s')) \<Longrightarrow> fails_full (andThen m f s)"
  by (cases "m s"; cases "fst (m s)") (auto simp: andThen_def)

lemma fails_full_bump: "fails_full (bumpVersion k s)"
  using bumpVersion_Inl [of k s] by (cases "bumpVersion k s"; cases "fst (bumpVersion k s)") auto

lemma fails_full_expired: "fails_full (removeExpired k e s)"
  unfolding removeExpired_def by (intro fails_full_then fails_full_bump fails_full_simps)

lemma fails_full_evict: "fails_full (evict_loop n now s)"
proof (induction n arbitrary: s)
  case (Suc n)
  have "fails_full (andThen (bumpVersion k) (\<lambda>_. evict_loop n now) s')"
    "fails_full (andThen (removeExpired k e) (\<lambda>_. evict_loop n now) s)" for s' k e
    by (intro fails_full_then fails_full_bump fails_full_expired fails_full_simps Suc)+
  then show ?case by (simp split: list.split prod.split)
qed simp

lemma fails_full_atomic: "fails_full (m (captured s)) \<Longrightarrow> fails_full (atomic m s)"
  by (cases "m (captured s)"; cases "fst (m (captured s))") (auto simp: atomic_captured exhausted_def restoreState_def)

definition key_fits :: "kv_options \<Rightarrow> string \<Rightarrow> bool" where
  "key_fits opts k \<longleftrightarrow> length k \<le> o_maxKeyBytes opts"

lemma fails_full_del:
  assumes "key_fits (kv_opts s) k"
  shows "fails_full (kv_del now k s)"
proof -
  have "fails_full (andThen (removeExpired k e) (\<lambda>_. returns False) s)"
    "fails_full (andThen (modify (remove_entry k e)) (\<lambda>_. andThen (bumpVersion k) (\<lambda>_. returns True)) s)" for e
    by (intro fails_full_then fails_full_bump fails_full_expired fails_full_simps)+
  then show ?thesis
    using assms by (simp add: kv_del_def key_fits_def assertKeyFits_def check_def andThen_def [of "check f" for f] split: option.split)
qed

text \<open>An entry that was stored under the same options passes the checks again.\<close>

lemma stored_checks:
  assumes "entry_ok (kv_opts s) (s_key e) (entry_of e)"
  shows "assertKeyFits (s_key e) s = Inr ()" "cloneJsonValue (o_maxValueBytes (kv_opts s)) (s_value e) = Inr (s_value e)"
    and "assertValueFits (s_key e) (s_value e) s = Inr (e_size (entry_of e))"
    and "finite_or m (map_option Fin (s_expiresAt e)) = Inr (s_expiresAt e)"
  using assms
  by (auto simp: entry_ok_def entry_of_def assertKeyFits_def assertValueFits_def assertEntryFits_def cloneJsonValue_Inr
      valueByteLength_def finite_or_def split: option.split)

lemma setAt_stored:
  assumes "entry_ok (kv_opts s) (s_key e) (entry_of e)"
  shows "kv_setAt now (s_key e) (s_value e) (map_option Fin (s_expiresAt e)) s =
    setOwned now (s_key e) (s_value e) (s_expiresAt e) (s_value e) s"
  by (simp add: kv_setAt_def andThen_def check_def stored_checks [OF assms])

lemma fails_full_setAt:
  assumes "entry_ok (kv_opts s) (s_key e) (entry_of e)"
  shows "fails_full (kv_setAt now (s_key e) (s_value e) (map_option Fin (s_expiresAt e)) s)"
  unfolding setAt_stored [OF assms] setOwned_def evictIfNeeded_def
proof (rule fails_full_then)
  show "fails_full (check (assertValueFits (s_key e) (s_value e)) s)" by (simp add: check_def stored_checks(3) [OF assms])
qed (auto intro!: fails_full_then fails_full_bump fails_full_evict split: option.split)

section \<open>Replaying the record\<close>

definition sure :: "kv \<Rightarrow> 'a outcome \<times> kv \<Rightarrow> ('a \<Rightarrow> kv \<Rightarrow> bool) \<Rightarrow> bool" where
  "sure s rc Q \<longleftrightarrow> op_ok s rc Q \<and> fails_full rc"

lemma sure_mono: "sure s rc Q \<Longrightarrow> (\<And>r s'. Q r s' \<Longrightarrow> R r s') \<Longrightarrow> sure s rc R"
  unfolding sure_def by (auto elim: wp_mono)

lemma sure_returns: "kv_ok s \<Longrightarrow> Q a s \<Longrightarrow> sure s (returns a s) Q" "kv_ok s \<Longrightarrow> Q a s \<Longrightarrow> sure s (Inr a, s) Q"
  by (simp_all add: sure_def track_refl)

lemma sure_result:
  "sure s (m s) Q \<Longrightarrow> m s = (Inr a, s') \<Longrightarrow> kv_ok s' \<and> kv_opts s' = kv_opts s \<and> track {} s s' \<and> Q a s'"
  using track_ok [of "{}" s s'] by (simp add: sure_def)

lemma sure_then:
  assumes "kv_ok s" "sure s (m s) Q"
    and next_ok: "\<And>a s'. kv_ok s' \<Longrightarrow> kv_opts s' = kv_opts s \<Longrightarrow> Q a s' \<Longrightarrow> sure s' (f a s') R"
  shows "sure s (andThen m f s) R"
proof -
  have "fails_full (andThen m f s)"
  proof (rule fails_full_then)
    show "fails_full (m s)" using assms(2) by (simp add: sure_def)
    show "fails_full (f a s')" if "m s = (Inr a, s')" for a s'
      using next_ok sure_result [of s m Q, OF assms(2) that] unfolding sure_def by blast
  qed
  moreover have "op_ok s (andThen m f s) R"
    unfolding wp_andThen
  proof (rule wp_rebase [OF track_refl [OF assms(1)]])
    show "op_ok s (m s) Q" using assms(2) by (simp add: sure_def)
    fix a s' assume s': "track {} s s'" "kv_opts s' = kv_opts s" "Q a s'"
    have "op_ok s' (f a s') R" using next_ok [OF track_ok [OF s'(1)] s'(2,3)] by (simp add: sure_def)
    then show "op_ok s (f a s') R" using s'(2) by (intro wp_rebase [OF s'(1)]) auto
  qed
  ultimately show ?thesis by (simp add: sure_def)
qed

lemma sure_atomic:
  assumes "kv_ok s" "sure (captured s) (m (captured s)) (\<lambda>r s2. P r (entries s2))"
  shows "sure s (atomic m s) (\<lambda>r s'. P r (entries s'))"
proof -
  have "wp (captured s) (m (captured s)) (\<lambda>r s2. track {} (captured s) s2 \<and> P r (entries s2))"
    using assms(2) unfolding sure_def by (auto elim: wp_mono)
  then have "op_ok s (atomic m s) (\<lambda>r s'. P r (entries s'))"
    by (rule atomic_wp [OF track_refl [OF assms(1)]]) simp
  with fails_full_atomic [of m s] assms(2) show ?thesis by (simp add: sure_def)
qed

lemma sure_dels:
  assumes "kv_ok s" "\<forall>k \<in> set ds. key_fits (kv_opts s) k"
  shows "sure s (for_each (apply_del now) (map JStr ds) s) (\<lambda>_ s'. entries s' = fold al_del ds (entries s))"
  using assms
proof (induction ds arbitrary: s)
  case (Cons k ds)
  have "sure s (kv_del now k s) (\<lambda>_ s'. entries s' = al_del k (entries s))"
    using fails_full_del [of s k now] Cons.prems kv_del_wp [OF Cons.prems(1), of now k] by (auto simp: sure_def elim: wp_mono)
  then have "sure s (apply_del now (JStr k) s) (\<lambda>_ s'. entries s' = al_del k (entries s))"
    unfolding apply_del_def key_text.simps by (rule sure_then [OF Cons.prems(1)]) (simp add: sure_returns)
  then show ?case
    unfolding list.map for_each.simps
    by (rule sure_then [OF Cons.prems(1)]) (use Cons.prems(2) in \<open>auto intro: sure_mono [OF Cons.IH]\<close>)
qed (simp add: sure_returns)

lemma setAt_entries:
  assumes "kv_ok s" "entry_ok (kv_opts s) (s_key e) (entry_of e)" "fits_list (kv_opts s) (put now e (entries s))"
  shows "sure s (kv_setAt now (s_key e) (s_value e) (map_option Fin (s_expiresAt e)) s) (\<lambda>_ s'. entries s' = put now e (entries s))"
proof -
  have "entry_of e = \<lparr>e_value = s_value e, e_expiresAt = s_expiresAt e, e_size = e_size (entry_of e)\<rparr>" by (simp add: entry_of_def)
  then have "op_ok s (kv_setAt now (s_key e) (s_value e) (map_option Fin (s_expiresAt e)) s) (\<lambda>_ s'. entries s' = put now e (entries s))"
    using kv_setAt_wp [OF assms(1), of now "s_key e" "s_value e" "map_option Fin (s_expiresAt e)"] assms(3)
    by (elim wp_mono) (auto simp: stored_checks [OF assms(2)] put_def split: if_splits)
  with fails_full_setAt [OF assms(2)] show ?thesis by (simp add: sure_def)
qed

lemma sure_puts:
  assumes "kv_ok s" "\<forall>e \<in> set es. entry_ok (kv_opts s) (s_key e) (entry_of e)" "fits_each (kv_opts s) now es (entries s)"
  shows "sure s (for_each (\<lambda>e. andThen (kv_setAt now (s_key e) (s_value e) (map_option Fin (s_expiresAt e))) (\<lambda>_. returns ())) es s)
    (\<lambda>_ s'. entries s' = fold (put now) es (entries s))"
  using assms
proof (induction es arbitrary: s)
  case (Cons e es)
  have "sure s (andThen (kv_setAt now (s_key e) (s_value e) (map_option Fin (s_expiresAt e))) (\<lambda>_. returns ()) s)
      (\<lambda>_ s'. entries s' = put now e (entries s))"
  proof (rule sure_then [OF Cons.prems(1)])
    show "sure s (kv_setAt now (s_key e) (s_value e) (map_option Fin (s_expiresAt e)) s) (\<lambda>_ s'. entries s' = put now e (entries s))"
      by (rule setAt_entries) (use Cons.prems in simp_all)
  qed (rule sure_returns)
  then show ?case
    unfolding for_each.simps
    by (rule sure_then [OF Cons.prems(1)]) (use Cons.prems(2,3) in \<open>auto intro: sure_mono [OF Cons.IH]\<close>)
qed (simp add: sure_returns)

lemma apply_patch_entries:
  assumes "kv_ok s" "\<forall>k \<in> set ds. key_fits (kv_opts s) k" "\<forall>e \<in> set es. entry_ok (kv_opts s) (s_key e) (entry_of e)"
    and "fits_each (kv_opts s) now es (fold al_del ds (entries s))"
  shows "sure s (atomic (applyAofOp now (patch_op es ds)) s) (\<lambda>_ s'. entries s' = patched now es ds (entries s))"
proof (rule sure_atomic [OF assms(1)])
  have c: "kv_ok (captured s)" "kv_ok (captured (captured s))" using assms(1) captured_ok by blast+
  show "sure (captured s) (applyAofOp now (patch_op es ds) (captured s)) (\<lambda>_ s'. entries s' = patched now es ds (entries s))"
    unfolding patch_mutation
  proof (rule sure_atomic [OF c(1)], rule sure_then [OF c(2)])
    show "sure (captured (captured s)) (for_each (apply_del now) (map JStr ds) (captured (captured s)))
        (\<lambda>_ s'. entries s' = fold al_del ds (entries (captured (captured s))))"
      by (rule sure_dels [OF c(2)]) (use assms(2) in simp)
    fix a s'
    assume "kv_ok s'" "kv_opts s' = kv_opts (captured (captured s))" "entries s' = fold al_del ds (entries (captured (captured s)))"
    then show "sure s' (for_each (\<lambda>e. andThen (kv_setAt now (s_key e) (s_value e) (map_option Fin (s_expiresAt e))) (\<lambda>_. returns ())) es s')
        (\<lambda>_ s'. entries s' = patched now es ds (entries s))"
      using assms(3,4) sure_puts [of s' es now] by (simp add: patched_def)
  qed
qed

end
