(* ===== verification/Aof_Mirror.thy ===== *)
theory Aof_Mirror
  imports Aof_Patch
begin

text \<open>
  The recovered cache mirrors the served one: at any later time it holds exactly the entries
  that are still live. Replaying the patch of a change keeps the mirror.
\<close>

definition mirror :: "rat \<Rightarrow> kv \<Rightarrow> kv \<Rightarrow> bool" where
  "mirror t s c \<longleftrightarrow> kv_ok s \<and> kv_opts s = kv_opts c \<and> (\<forall>k. kv_lookup k s = live t k c)"

lemma live_due: "live t k c = (case kv_lookup k c of None \<Rightarrow> None | Some e \<Rightarrow> if due (e_expiresAt e) t then None else Some e)"
  by (simp add: live_def isExpired_def due_def split: option.split)

lemma due_mono: "due x t \<Longrightarrow> t \<le> t' \<Longrightarrow> due x t'"
  by (auto simp: due_def split: option.splits)

lemma live_later: "live t k c = None \<Longrightarrow> t \<le> t' \<Longrightarrow> live t' k c = None"
  by (auto simp: live_due due_mono split: option.splits if_splits)

lemma map_leI: "(\<And>k e. m k = Some e \<Longrightarrow> m' k = Some e) \<Longrightarrow> m \<subseteq>\<^sub>m m'"
  by (force simp: map_le_def)

section \<open>What fits\<close>

definition sized :: "(string \<times> entry) list \<Rightarrow> bool" where
  "sized l \<longleftrightarrow> distinct_keys l \<and> (\<forall>p \<in> set l. 0 \<le> e_size (snd p))"

lemma sized_put: "sized l \<Longrightarrow> sized (put t e l)"
  using distinct_put [of l t e] by (auto simp: sized_def put_def set_al_del entry_of_def)

lemma sized_dels: "sized l \<Longrightarrow> sized (fold al_del ds l)"
proof (induction ds arbitrary: l)
  case (Cons k ds)
  then have "sized (al_del k l)" by (auto simp: sized_def set_al_del)
  with Cons.IH show ?case by simp
qed simp

lemma sized_entries: "kv_ok c \<Longrightarrow> sized (entries c)"
proof -
  assume ok: "kv_ok c"
  then have d: "distinct_keys (entries c)" by (rule kv_ok_distinct)
  have "0 \<le> e_size (snd p)" if "p \<in> set (entries c)" for p
  proof -
    have "kv_lookup (fst p) c = Some (snd p)" using d that by (simp add: lookup_entries distinct_keys_def)
    then show ?thesis using kv_ok_entry [OF ok] by (auto simp: entry_ok_def)
  qed
  with d show ?thesis by (simp add: sized_def)
qed

lemma put_sub: "map_of l \<subseteq>\<^sub>m map_of l' \<Longrightarrow> t \<le> t' \<Longrightarrow> map_of (put t' e l) \<subseteq>\<^sub>m map_of (put t e l')"
  using due_mono [of "s_expiresAt e" t t'] by (auto simp: map_le_def map_of_put)

lemma fits_each_sub:
  assumes "map_of l \<subseteq>\<^sub>m map_of l'" "sized l" "sized l'" "t \<le> t'" "fits_each opts t es l'"
  shows "fits_each opts t' es l"
  using assms
proof (induction es arbitrary: l l')
  case (Cons e es)
  note sub = put_sub [OF Cons.prems(1,4), of e]
  note sz = sized_put [OF Cons.prems(2), of t' e] sized_put [OF Cons.prems(3), of t e]
  have "fits_list opts (put t' e l)"
    using fits_sub [OF _ _ sub] sz Cons.prems(5) by (simp add: sized_def)
  moreover have "fits_each opts t' es (put t' e l)"
    by (rule Cons.IH [OF sub sz Cons.prems(4)]) (use Cons.prems(5) in simp)
  ultimately show ?case by simp
qed simp

text \<open>A change of one entry always fits: the cache held the result.\<close>

lemma single_fits:
  assumes "kv_ok c" "kv_ok c'" "difference t c c' es ds" "length es \<le> 1" "fits_list opts (entries c')"
  shows "fits_each opts t es (fold al_del ds (entries c))"
proof (cases es)
  case (Cons e es')
  then have e: "es = [e]" using assms(4) by simp
  let ?l = "put t e (fold al_del ds (entries c))"
  have "map_of ?l \<subseteq>\<^sub>m map_of (entries c')"
    using assms(3) by (auto simp: map_le_def map_of_put map_of_dels e difference_def collected_def lookup_entries split: if_splits)
  then have "fits_list opts ?l"
    using fits_sub [of ?l "entries c'" opts] sized_put [OF sized_dels [OF sized_entries [OF assms(1)]], of t e ds]
      sized_entries [OF assms(2)] assms(5) by (simp add: sized_def)
  then show ?thesis by (simp add: e)
qed simp

section \<open>Keeping the mirror\<close>

theorem mirror_patch:
  assumes m: "mirror t' s c" and ok: "kv_ok c" "kv_ok c'" "kv_opts c' = kv_opts c" and d: "difference t c c' es ds"
    and t: "t \<le> t'" and keys: "\<forall>k \<in> set ds. key_fits (kv_opts c) k"
    and fits: "fits_each (kv_opts c) t es (fold al_del ds (entries c))"
  shows "sure s (atomic (applyAofOp t' (patch_op es ds)) s) (\<lambda>_ s'. \<forall>k. kv_lookup k s' = live t' k c')"
proof (rule sure_mono)
  have s: "kv_ok s" "kv_opts s = kv_opts c" "\<And>k. kv_lookup k s = live t' k c" using m by (simp_all add: mirror_def)
  have new: "kv_lookup (s_key e) c' = Some (entry_of e)" if "e \<in> set es" for e using d that by (simp add: difference_def collected_def)
  have "map_of (entries s) \<subseteq>\<^sub>m map_of (entries c)"
  proof (rule map_leI)
    fix k e assume "map_of (entries s) k = Some e"
    then have "live t' k c = Some e" using s(3) [of k] by (simp add: lookup_entries)
    then show "map_of (entries c) k = Some e" by (simp add: live_due lookup_entries split: option.splits if_splits)
  qed
  then have "map_of (fold al_del ds (entries s)) \<subseteq>\<^sub>m map_of (fold al_del ds (entries c))"
    by (auto simp: map_le_def map_of_dels split: if_splits)
  then have "fits_each (kv_opts s) t' es (fold al_del ds (entries s))"
    using fits_each_sub [OF _ sized_dels [OF sized_entries [OF s(1)]] sized_dels [OF sized_entries [OF ok(1)]] t fits] s(2) by simp
  then show "sure s (atomic (applyAofOp t' (patch_op es ds)) s) (\<lambda>_ s'. entries s' = patched t' es ds (entries s))"
    using apply_patch_entries [OF s(1)] keys new kv_ok_entry [OF ok(2)] s(2) ok(3) by auto
  fix s' assume e: "entries s' = patched t' es ds (entries s)"
  have "kv_lookup k s' = live t' k c'" for k
  proof -
    have E: "\<forall>e \<in> set es. the (kv_lookup (s_key e) c') = entry_of e" using new by simp
    have old: "map_of (entries s) k = live t' k c" using s(3) [of k] by (simp only: lookup_entries)
    have "kv_lookup k s' = map_of (fold (put t') es (fold al_del ds (entries s))) k"
      unfolding lookup_entries e patched_def ..
    also have "\<dots> = (if k \<in> s_key ` set es then (if due (e_expiresAt (the (kv_lookup k c'))) t' then None else Some (the (kv_lookup k c')))
        else if k \<in> set ds then None else live t' k c)"
      unfolding map_of_puts [of es "\<lambda>k. the (kv_lookup k c')", OF E] map_of_dels old ..
    finally have "kv_lookup k s' = \<dots>" .
    moreover have "live t' k c' = None" if "k \<in> set ds"
      by (rule live_later [OF _ t]) (use d that in \<open>simp add: difference_def collected_def\<close>)
    moreover have "live t' k c' = live t' k c" if "k \<notin> s_key ` set es" "k \<notin> set ds"
      using d that by (simp add: difference_def live_due)
    moreover have "live t' k c' = (if due (e_expiresAt (the (kv_lookup k c'))) t' then None else Some (the (kv_lookup k c')))"
      if "k \<in> s_key ` set es"
      using that new by (auto simp: live_due)
    ultimately show ?thesis by (simp split: if_split_asm)
  qed
  then show "\<forall>k. kv_lookup k s' = live t' k c'" ..
qed

text \<open>Reads and time alone change nothing in the mirror.\<close>

lemma mirror_same: "mirror t s c \<Longrightarrow> kv_opts c' = kv_opts c \<Longrightarrow> (\<And>k. live t k c' = live t k c) \<Longrightarrow> mirror t s c'"
  by (simp add: mirror_def)

end
