(* ===== verification/Snapshot.thy ===== *)
theory Snapshot
  imports Aof_Mirror
begin

text \<open>
  Snapshots (\<open>src/src/persistence.ts\<close>, \<open>saveSnapshot\<close> and \<open>loadSnapshot\<close>): all live entries of
  the cache in one JSON file, with the number of the last log record they include. A file that
  was saved loads into a cache with the same live entries, in the same order.
\<close>

section \<open>Saving\<close>

text \<open>The text of the file. The clock is read for the entries and again for \<open>savedAt\<close>.\<close>

definition snapshot_json :: "rat \<Rightarrow> snapshot_entry list \<Rightarrow> nat option \<Rightarrow> json" where
  "snapshot_json savedAt es seq = JObj ([(''version'', JNum 2), (''savedAt'', JNum savedAt), (''entries'', JArr (map entry_json es))] @
     (case seq of None \<Rightarrow> [] | Some n \<Rightarrow> [(''aofSeq'', JNum (of_nat n))]))"

definition snapshot_text :: "rat \<Rightarrow> rat \<Rightarrow> jsnum option \<Rightarrow> kv \<Rightarrow> (nat \<times> string) outcome" where
  "snapshot_text now savedAt aofSeq c =
     chain (fst (kv_dump now c)) (\<lambda>es.
     chain (snapshot_seq aofSeq) (\<lambda>seq.
     let encoded = json_text (snapshot_json savedAt es seq) in
     if length encoded > MAX_PERSISTENCE_FILE_BYTES then Inl (DbError LIMIT_EXCEEDED ''snapshot exceeds 256 MiB'')
     else Inr (length es, encoded)))"

text \<open>
  The text goes to a temporary file, which then takes the place of the old one in one step. What
  the file system may do: fail with \<open>e\<close> before that step or after it.
\<close>

type_synonym save_fault = "(bool \<times> jserr) option"

definition write_snapshot :: "save_fault \<Rightarrow> string \<Rightarrow> (string option, unit) act" where
  "write_snapshot flt encoded disk =
     (case flt of
        None \<Rightarrow> (Inr (), Some encoded)
      | Some (renamed, e) \<Rightarrow> (Inl e, if renamed then Some encoded else disk))"

definition saveSnapshot :: "rat \<Rightarrow> rat \<Rightarrow> save_fault \<Rightarrow> jsnum option \<Rightarrow> kv \<Rightarrow> (string option, nat) act" where
  "saveSnapshot now savedAt flt aofSeq c disk =
     (case snapshot_text now savedAt aofSeq c of
        Inl e \<Rightarrow> (Inl e, disk)
      | Inr (n, encoded) \<Rightarrow> andThen (write_snapshot flt encoded) (\<lambda>_. returns n) disk)"

section \<open>Loading\<close>

text \<open>
  The entries of the file up to the first that is none (not an object with a text as \<open>key\<close> and a
  \<open>value\<close>), and whether all are entries.
\<close>

definition raw_entry :: "json \<Rightarrow> restore_entry option" where
  "raw_entry v =
     (case own ''key'' v of
        Some (JStr k) \<Rightarrow> (case own ''value'' v of Some x \<Rightarrow> Some \<lparr>r_key = k, r_value = x, r_expiresAt = own_number ''expiresAt'' v\<rparr> | None \<Rightarrow> None)
      | _ \<Rightarrow> None)"

fun raw_entries :: "json list \<Rightarrow> restore_entry list \<times> bool" where
  "raw_entries [] = ([], True)"
| "raw_entries (v # vs) =
     (case raw_entry v of None \<Rightarrow> ([], False) | Some e \<Rightarrow> (case raw_entries vs of (es, b) \<Rightarrow> (e # es, b)))"

definition restore_raw :: "rat \<Rightarrow> json list \<Rightarrow> nat kvop" where
  "restore_raw now items =
     (case raw_entries items of (es, b) \<Rightarrow>
        if b then kv_restore now es
        else andThen (check (\<lambda>c. restore_check now c [] es)) (\<lambda>_. throws (DbError INVALID_VALUE ''invalid snapshot entry'')))"

definition replace_raw :: "rat \<Rightarrow> json list \<Rightarrow> nat kvop" where
  "replace_raw now items = atomic (andThen kv_clear (\<lambda>_. restore_raw now items))"

definition safe_seq_json :: "json \<Rightarrow> bool" where
  "safe_seq_json v = (case v of JNum x \<Rightarrow> is_safe_integer (Fin x) \<and> 0 \<le> x | _ \<Rightarrow> False)"

definition valid_snapshot :: "json \<Rightarrow> bool" where
  "valid_snapshot v \<longleftrightarrow>
     (own ''version'' v = Some (JNum 1) \<or> own ''version'' v = Some (JNum 2)) \<and>
     own_is isFiniteNumber ''savedAt'' v \<and>
     (case own ''entries'' v of Some (JArr _) \<Rightarrow> True | _ \<Rightarrow> False) \<and> own_may safe_seq_json ''aofSeq'' v"

definition snapshot_meta :: "json \<Rightarrow> nat option" where
  "snapshot_meta v = (case own ''aofSeq'' v of Some (JNum x) \<Rightarrow> Some (nat \<lfloor>x\<rfloor>) | _ \<Rightarrow> None)"

text \<open>The contents of a file: its entries and the number in it; \<open>None\<close> when it is absent and may be.\<close>

definition parse_snapshot :: "bool \<Rightarrow> string option \<Rightarrow> (json list \<times> nat option) option outcome" where
  "parse_snapshot missingOk disk =
     chain (readFileBounded disk) (\<lambda>content.
     case content of
       None \<Rightarrow> if missingOk then Inr None else Inl (PlainError ''ENOENT: no such file or directory'')
     | Some raw \<Rightarrow>
         chain (JSON_parse raw) (\<lambda>v.
         if \<not> valid_snapshot v then Inl (PlainError ''invalid snapshot file'') else Inr (Some (own_items ''entries'' v, snapshot_meta v))))"

text \<open>
  The result is the number of entries and what is noted in \<open>metadata\<close>. \<open>put_all\<close> is the operation
  of the store: the cache's own, or the server's that also writes the log.
\<close>

definition load_with :: "(json list \<Rightarrow> ('s, nat) act) \<Rightarrow> bool \<Rightarrow> string option \<Rightarrow> ('s, nat \<times> nat option) act" where
  "load_with put_all missingOk disk s =
     (case parse_snapshot missingOk disk of
        Inl e \<Rightarrow> (Inl e, s)
      | Inr None \<Rightarrow> (Inr (0, None), s)
      | Inr (Some (items, seq)) \<Rightarrow> andThen (put_all items) (\<lambda>n. returns (n, seq)) s)"

definition loadSnapshot :: "rat \<Rightarrow> bool \<Rightarrow> bool \<Rightarrow> string option \<Rightarrow> (kv, nat \<times> nat option) act" where
  "loadSnapshot now clearFirst missingOk disk =
     load_with (if clearFirst then replace_raw now else restore_raw now) missingOk disk"

section \<open>Reading back\<close>

definition saved_entry :: "string \<times> entry \<Rightarrow> snapshot_entry" where
  "saved_entry p = \<lparr>s_key = fst p, s_value = e_value (snd p), s_expiresAt = e_expiresAt (snd p)\<rparr>"

definition live_list :: "rat \<Rightarrow> (string \<times> entry) list \<Rightarrow> (string \<times> entry) list" where
  "live_list now l = filter (\<lambda>p. \<not> isExpired (snd p) now) l"

lemma dump_list_Inr:
  "dump_list now l = Inr es \<Longrightarrow> es = map saved_entry (live_list now l) \<and>
     (\<forall>p \<in> set (live_list now l). cloneJsonValue default_clone_bytes (e_value (snd p)) = Inr (e_value (snd p)))"
proof (induction now l arbitrary: es rule: dump_list.induct)
  case (2 now key e l)
  show ?case
  proof (cases "isExpired e now")
    case True
    with 2 show ?thesis by (auto simp: live_list_def)
  next
    case False
    then obtain v out where v: "cloneJsonValue default_clone_bytes (e_value e) = Inr v" "dump_list now l = Inr out"
        "es = \<lparr>s_key = key, s_value = v, s_expiresAt = e_expiresAt e\<rparr> # out"
      using "2.prems" by (auto simp: bind_out_Inr)
    with "2.IH"(2) [OF False v(2)] False clone_same [OF v(1)] show ?thesis
      by (auto simp: live_list_def saved_entry_def)
  qed
qed (simp add: live_list_def)

definition to_restore :: "snapshot_entry \<Rightarrow> restore_entry" where
  "to_restore e = \<lparr>r_key = s_key e, r_value = s_value e, r_expiresAt = map_option Fin (s_expiresAt e)\<rparr>"

lemma raw_entry_json: "raw_entry (entry_json e) = Some (to_restore e)"
  by (cases "s_expiresAt e") (simp_all add: raw_entry_def entry_fields to_restore_def own_number_def as_number_def)

lemma raw_entries_json: "raw_entries (map entry_json es) = (map to_restore es, True)"
  by (induction es) (simp_all add: raw_entry_json)

lemma snapshot_fields:
  "own ''version'' (snapshot_json t es seq) = Some (JNum 2)" "own ''savedAt'' (snapshot_json t es seq) = Some (JNum t)"
  "own ''entries'' (snapshot_json t es seq) = Some (JArr (map entry_json es))"
  "own ''aofSeq'' (snapshot_json t es seq) = map_option (\<lambda>n. JNum (of_nat n)) seq"
  by (simp_all add: snapshot_json_def own_def split: option.split)

lemma snapshot_valid:
  assumes "\<forall>n. seq = Some n \<longrightarrow> n \<le> 2 ^ 53 - 1"
  shows "valid_snapshot (snapshot_json t es seq)" "snapshot_meta (snapshot_json t es seq) = seq"
proof -
  have "seq = Some n \<Longrightarrow> is_safe_integer (Fin (of_nat n))" for n using safe_seq [of n] assms by simp
  then show "valid_snapshot (snapshot_json t es seq)"
    by (cases seq) (simp_all add: valid_snapshot_def snapshot_fields own_is_def own_may_def hasOwn_def safe_seq_json_def)
  show "snapshot_meta (snapshot_json t es seq) = seq" by (cases seq) (simp_all add: snapshot_meta_def snapshot_fields)
qed

lemma parse_saved:
  assumes "readable (snapshot_json t es seq)" "valid_utf8 (json_text (snapshot_json t es seq))"
    and "length (json_text (snapshot_json t es seq)) \<le> MAX_PERSISTENCE_FILE_BYTES" "\<forall>n. seq = Some n \<longrightarrow> n \<le> 2 ^ 53 - 1"
  shows "parse_snapshot b (Some (json_text (snapshot_json t es seq))) = Inr (Some (map entry_json es, seq))"
  using assms(2,3)
  by (simp add: parse_snapshot_def readFileBounded_def decodeFile_def JSON_parse_text [OF assms(1)] snapshot_valid [OF assms(4)]
      own_items_def snapshot_fields)

text \<open>The deadlines that a snapshot can hold.\<close>

definition dated :: "(string \<times> entry) list \<Rightarrow> bool" where
  "dated l \<longleftrightarrow> (\<forall>p \<in> set l. case e_expiresAt (snd p) of None \<Rightarrow> True | Some t \<Rightarrow> \<bar>t\<bar> \<le> max_safe)"

definition triple_of :: "string \<times> entry \<Rightarrow> string \<times> json \<times> rat option" where
  "triple_of p = (fst p, e_value (snd p), e_expiresAt (snd p))"

definition storable :: "kv \<Rightarrow> (string \<times> entry) list \<Rightarrow> bool" where
  "storable c l \<longleftrightarrow> distinct_keys l \<and> dated l \<and> (\<forall>p \<in> set l. entry_ok (kv_opts c) (fst p) (snd p) \<and>
     cloneJsonValue default_clone_bytes (e_value (snd p)) = Inr (e_value (snd p)))"

lemma entry_fits:
  assumes "entry_ok (kv_opts c) k e"
  shows "assertValueFits k (e_value e) c = Inr (e_size e)" "e_size e = int (length k + valueByteLength (e_value e))"
  using assms by (auto simp: entry_ok_def assertKeyFits_def assertValueFits_def assertEntryFits_def)

lemma restore_check_saved:
  assumes "storable c l" "set seen \<inter> fst ` set l = {}"
  shows "restore_check now c seen (map (\<lambda>p. to_restore (saved_entry p)) l) = Inr (map triple_of (live_list now l))"
  using assms
proof (induction l arbitrary: seen)
  case (Cons p l)
  have rest: "storable c l" using Cons.prems(1) by (simp add: storable_def dated_def distinct_keys_def)
  have "fst p \<notin> fst ` set l" using Cons.prems(1) by (simp add: storable_def distinct_keys_def)
  then have IH: "restore_check now c (fst p # seen) (map (\<lambda>p. to_restore (saved_entry p)) l) = Inr (map triple_of (live_list now l))"
    using Cons.prems(2) by (intro Cons.IH [OF rest]) auto
  have f: "entry_ok (kv_opts c) (fst p) (snd p)" "cloneJsonValue default_clone_bytes (e_value (snd p)) = Inr (e_value (snd p))"
    using Cons.prems(1) by (simp_all add: storable_def)
  have d: "restore_deadline (map_option Fin (e_expiresAt (snd p))) = Inr (e_expiresAt (snd p))"
    using Cons.prems(1) by (auto simp: storable_def dated_def restore_deadline_def split: option.splits)
  have k: "fst p \<notin> set seen" using Cons.prems(2) by auto
  have r: "r_key (to_restore (saved_entry p)) = fst p" "r_value (to_restore (saved_entry p)) = e_value (snd p)"
      "r_expiresAt (to_restore (saved_entry p)) = map_option Fin (e_expiresAt (snd p))"
    by (simp_all add: to_restore_def saved_entry_def)
  have "restore_check now c seen (map (\<lambda>p. to_restore (saved_entry p)) (p # l)) =
      Inr (if isExpired (snd p) now then map triple_of (live_list now l) else triple_of p # map triple_of (live_list now l))"
    unfolding list.map restore_check.simps r
    using k by (simp only: d f(2) entry_fits(1) [OF f(1)] bind_out_simps IH if_False)
      (simp add: triple_of_def isExpired_def split: option.split)
  then show ?case by (simp add: live_list_def)
qed (simp add: live_list_def)

lemma put_saved:
  assumes "distinct_keys (l @ l')" "\<forall>p \<in> set l'. e_size (snd p) = int (length (fst p) + valueByteLength (e_value (snd p)))"
  shows "fold put_list (map triple_of l') l = l @ l'"
  using assms
proof (induction l' arbitrary: l)
  case (Cons p l')
  have "al_del (fst p) l = l" using Cons.prems(1) by (intro al_del_notin) (auto simp: distinct_keys_def)
  then have "put_list (triple_of p) l = l @ [p]"
    using Cons.prems(2) by (cases p; cases "snd p") (simp add: put_list_def triple_of_def)
  moreover have "fold put_list (map triple_of l') (l @ [p]) = (l @ [p]) @ l'"
    by (rule Cons.IH) (use Cons.prems in simp_all)
  ultimately show ?case by simp
qed simp

text \<open>Storing entries that pass the checks fails only when the counter of changes is used up.\<close>

lemma fails_full_bumps: "fails_full (for_each bumpVersion ks s)"
proof (induction ks arbitrary: s)
  case (Cons k ks)
  show ?case unfolding for_each.simps by (intro fails_full_then fails_full_bump Cons)
qed simp

lemma sure_clear:
  assumes "kv_ok s"
  shows "sure s (kv_clear s) (\<lambda>_ s'. entries s' = [])"
proof -
  have "fails_full (kv_clear s)" unfolding kv_clear_def by (intro fails_full_then fails_full_bumps fails_full_simps)
  moreover have "op_ok s (kv_clear s) (\<lambda>_ s'. entries s' = [])"
    using track_refl [OF assms] by (intro kv_clear_wp) auto
  ultimately show ?thesis by (simp add: sure_def)
qed

lemma sure_put:
  assumes "kv_ok s" "restore_ready s p"
  shows "sure s (restore_put p s) (\<lambda>_ s'. entries s' = put_list p (entries s))"
proof -
  obtain k v t where p: "p = (k, v, t)" by (cases p)
  have fits: "assertValueFits k v s' = Inr (int (length k + valueByteLength v))" if "kv_opts s' = kv_opts s" for s'
    using assms(2) assertValueFits_opts [OF that, of k v] by (simp add: restore_ready_def p)
  have step: "fails_full (andThen (check (assertValueFits k v)) (\<lambda>sz. andThen (modify (put_entry k (e sz))) (\<lambda>_. bumpVersion k)) s')"
    if "kv_opts s' = kv_opts s" for s' e
    by (intro fails_full_then fails_full_bump fails_full_simps) (simp add: check_def fits [OF that])
  have "kv_opts (remove_entry k old s) = kv_opts s" for old by (simp add: remove_entry_def map_delete_def add_bytes_def split: option.split)
  then have "fails_full (restore_put p s)"
    using step by (auto simp: restore_put_def p intro!: fails_full_then split: option.split)
  moreover have "op_ok s (restore_put p s) (\<lambda>_ s'. entries s' = put_list p (entries s))"
    by (rule restore_put_wp [OF track_refl [OF assms(1)] assms(2)]) auto
  ultimately show ?thesis by (simp add: sure_def)
qed

lemma sure_puts_all:
  assumes "kv_ok s" "\<forall>p \<in> set ps. restore_ready s p"
  shows "sure s (for_each restore_put ps s) (\<lambda>_ s'. entries s' = fold put_list ps (entries s))"
  using assms
proof (induction ps arbitrary: s)
  case (Cons p ps)
  show ?case
    unfolding for_each.simps
  proof (rule sure_then [OF Cons.prems(1)])
    show "sure s (restore_put p s) (\<lambda>_ s'. entries s' = put_list p (entries s))" by (rule sure_put) (use Cons.prems in simp_all)
    fix a s' assume s': "kv_ok s'" "kv_opts s' = kv_opts s" "entries s' = put_list p (entries s)"
    have "sure s' (for_each restore_put ps s') (\<lambda>_ s''. entries s'' = fold put_list ps (entries s'))"
      by (rule Cons.IH [OF s'(1)]) (use Cons.prems(2) restore_ready_opts [OF s'(2)] in auto)
    then show "sure s' (for_each restore_put ps s') (\<lambda>_ s'. entries s' = fold put_list (p # ps) (entries s))" by (simp add: s'(3))
  qed
qed (simp add: sure_returns)

lemma sure_evict:
  assumes "kv_ok s"
  shows "sure s (restore_evict (kv_size s) s) (\<lambda>_ s'. entries s' = trim (kv_opts s) (entries s))"
proof -
  have "fails_full (restore_evict n s)" for n s
  proof (induction n arbitrary: s)
    case (Suc n)
    have "fails_full (andThen (bumpVersion k) (\<lambda>_. restore_evict n) s')" for s' k by (intro fails_full_then fails_full_bump Suc)
    then show ?case by (simp split: list.split prod.split)
  qed simp
  moreover have "op_ok s (restore_evict (kv_size s) s) (\<lambda>_ s'. entries s' = trim (kv_opts s) (entries s))"
    by (rule wp_restore_evict [OF track_refl [OF assms]]) auto
  ultimately show ?thesis by (simp add: sure_def)
qed

text \<open>A cache that is replaced by the saved entries of another one holds those that are still live.\<close>

lemma replaced:
  assumes "kv_ok s" "storable s l" "fits_list (kv_opts s) (live_list now l)"
  shows "sure s (kv_replace now (map (\<lambda>p. to_restore (saved_entry p)) l) s)
    (\<lambda>n s'. n = length (live_list now l) \<and> entries s' = live_list now l)"
  unfolding kv_replace_def
proof (rule sure_atomic [OF assms(1)])
  let ?c = "captured s" and ?ps = "map triple_of (live_list now l)"
  have ok: "kv_ok ?c" using assms(1) captured_ok by blast
  show "sure ?c (andThen kv_clear (\<lambda>_. kv_restore now (map (\<lambda>p. to_restore (saved_entry p)) l)) ?c)
      (\<lambda>n s'. n = length (live_list now l) \<and> entries s' = live_list now l)"
  proof (rule sure_then [OF ok])
    show "sure ?c (kv_clear ?c) (\<lambda>_ s'. entries s' = [])" by (rule sure_clear [OF ok])
    fix a s1 assume s1: "kv_ok s1" "kv_opts s1 = kv_opts ?c" "entries s1 = []"
    have st: "storable s1 l" using assms(2) s1(2) by (simp add: storable_def)
    have ch: "restore_check now s1 [] (map (\<lambda>p. to_restore (saved_entry p)) l) = Inr ?ps" by (rule restore_check_saved [OF st]) simp
    have ready: "\<forall>p \<in> set ?ps. restore_ready s1 p" using restore_check_ready [OF ch] by blast
    have d: "distinct_keys (live_list now l)" using st by (auto simp: storable_def live_list_def distinct_keys_def distinct_map_filter)
    have sz: "\<forall>p \<in> set (live_list now l). e_size (snd p) = int (length (fst p) + valueByteLength (e_value (snd p)))"
      using st entry_fits(2) by (fastforce simp: storable_def live_list_def)
    have put: "fold put_list ?ps [] = live_list now l" using put_saved [of "[]"] d sz by simp
    have run: "kv_restore now (map (\<lambda>p. to_restore (saved_entry p)) l) s1 =
        andThen (for_each restore_put ?ps) (\<lambda>_. andThen (\<lambda>c. restore_evict (kv_size c) c) (\<lambda>_. returns (length ?ps))) s1"
      by (simp add: kv_restore_def check_def andThen_def ch)
    show "sure s1 (kv_restore now (map (\<lambda>p. to_restore (saved_entry p)) l) s1)
        (\<lambda>n s'. n = length (live_list now l) \<and> entries s' = live_list now l)"
      unfolding run
    proof (rule sure_then [OF s1(1)])
      show "sure s1 (for_each restore_put ?ps s1) (\<lambda>_ s'. entries s' = fold put_list ?ps (entries s1))"
        by (rule sure_puts_all [OF s1(1) ready])
      fix a s2 assume s2: "kv_ok s2" "kv_opts s2 = kv_opts s1" "entries s2 = fold put_list ?ps (entries s1)"
      then have e: "entries s2 = live_list now l" by (simp add: s1(3) put)
      have fit: "trim (kv_opts s2) (entries s2) = live_list now l" using assms(3) s1(2) s2(2) e by simp
      show "sure s2 (andThen (\<lambda>c. restore_evict (kv_size c) c) (\<lambda>_. returns (length ?ps)) s2)
          (\<lambda>n s'. n = length (live_list now l) \<and> entries s' = live_list now l)"
      proof (rule sure_then [OF s2(1)])
        show "sure s2 (restore_evict (kv_size s2) s2) (\<lambda>_ s'. entries s' = trim (kv_opts s2) (entries s2))"
          by (rule sure_evict [OF s2(1)])
      qed (simp add: sure_returns fit)
    qed
  qed
qed

section \<open>A saved cache is loaded again\<close>

lemma replace_saved: "replace_raw now (map entry_json es) = kv_replace now (map to_restore es)"
  by (simp add: replace_raw_def restore_raw_def raw_entries_json kv_replace_def)

lemma live_list_later: "t \<le> now \<Longrightarrow> live_list now (live_list t l) = live_list now l"
  by (auto simp: live_list_def isExpired_def split: option.splits intro!: filter_cong)

lemma live_list_lookup: "distinct_keys l \<Longrightarrow> map_of (live_list now l) k = (case map_of l k of None \<Rightarrow> None | Some e \<Rightarrow> if isExpired e now then None else Some e)"
  by (induction l) (auto simp: live_list_def distinct_keys_def map_of_None_iff split: option.splits)

lemma live_list_fits:
  assumes "sized l" "fits_list opts l"
  shows "fits_list opts (live_list now l)"
proof (rule fits_sub [of _ l])
  show "distinct_keys (live_list now l)" "distinct_keys l" "\<forall>p \<in> set l. 0 \<le> e_size (snd p)"
    using assms(1) by (simp_all add: sized_def live_list_def distinct_keys_def distinct_map_filter)
  then show "map_of (live_list now l) \<subseteq>\<^sub>m map_of l"
    by (intro map_leI) (auto simp: live_list_lookup split: option.splits if_splits)
qed (rule assms(2))

theorem load_saved:
  assumes c: "kv_ok c" "fits_list (kv_opts c) (entries c)" "dated (entries c)"
    and saved: "snapshot_text t savedAt (seq_arg seq) c = Inr (n, encoded)" and seq: "\<forall>n. seq = Some n \<longrightarrow> n \<le> 2 ^ 53 - 1"
    and r: "readable (snapshot_json savedAt (map saved_entry (live_list t (entries c))) seq)" "valid_utf8 encoded"
    and s: "kv_ok s" "kv_opts s = kv_opts c" and t: "t \<le> now"
  shows "n = length (live_list t (entries c))"
    and "sure s (loadSnapshot now True b (Some encoded) s)
      (\<lambda>r s'. r = (length (live_list now (entries c)), seq) \<and> entries s' = live_list now (entries c))"
proof -
  let ?l = "live_list t (entries c)"
  let ?v = "snapshot_json savedAt (map saved_entry ?l) seq"
  obtain es where es: "dump_list t (entries c) = Inr es"
    using saved by (auto simp: snapshot_text_def kv_dump_def check_def chain_Inr split: sum.splits)
  note d = dump_list_Inr [OF es]
  have e: "n = length ?l" "encoded = json_text ?v" "length encoded \<le> MAX_PERSISTENCE_FILE_BYTES"
    using saved es d snapshot_seq_arg [OF seq]
    by (auto simp: snapshot_text_def kv_dump_def check_def Let_def split: if_splits)
  show "n = length ?l" by (rule e(1))
  have "entry_ok (kv_opts s) (fst p) (snd p)" if "p \<in> set (entries c)" for p
  proof -
    have "kv_lookup (fst p) c = Some (snd p)"
      using map_of_distinct_in [OF kv_ok_distinct [OF c(1)]] that by (cases p) (simp add: lookup_entries)
    from kv_ok_entry [OF c(1) this] show ?thesis by (simp add: s(2))
  qed
  then have st: "storable s ?l"
    using kv_ok_distinct [OF c(1)] c(3) d
    by (auto simp: storable_def live_list_def dated_def distinct_keys_def distinct_map_filter)
  have fit: "fits_list (kv_opts s) (live_list now ?l)"
    unfolding live_list_later [OF t] s(2) by (rule live_list_fits [OF sized_entries [OF c(1)] c(2)])
  have "parse_snapshot b (Some encoded) = Inr (Some (map entry_json (map saved_entry ?l), seq))"
    unfolding e(2) by (rule parse_saved) (use r e seq in simp_all)
  moreover have "replace_raw now (map (\<lambda>p. entry_json (saved_entry p)) ?l) = kv_replace now (map (\<lambda>p. to_restore (saved_entry p)) ?l)"
    using replace_saved [of now "map saved_entry ?l"] by (simp add: comp_def)
  ultimately have run: "loadSnapshot now True b (Some encoded) s =
      andThen (kv_replace now (map (\<lambda>p. to_restore (saved_entry p)) ?l)) (\<lambda>n. returns (n, seq)) s"
    by (simp add: loadSnapshot_def load_with_def comp_def)
  have "sure s (andThen (kv_replace now (map (\<lambda>p. to_restore (saved_entry p)) ?l)) (\<lambda>n. returns (n, seq)) s)
      (\<lambda>r s'. r = (length (live_list now (entries c)), seq) \<and> entries s' = live_list now (entries c))"
  proof (rule sure_then [OF s(1)])
    show "sure s (kv_replace now (map (\<lambda>p. to_restore (saved_entry p)) ?l) s)
        (\<lambda>n s'. n = length (live_list now ?l) \<and> entries s' = live_list now ?l)"
      by (rule replaced [OF s(1) st fit])
  qed (simp add: sure_returns live_list_later [OF t])
  then show "sure s (loadSnapshot now True b (Some encoded) s)
      (\<lambda>r s'. r = (length (live_list now (entries c)), seq) \<and> entries s' = live_list now (entries c))"
    unfolding run .
qed

text \<open>So the loaded cache mirrors the saved one.\<close>

lemma loaded_mirror:
  assumes "kv_ok c" "kv_ok s'" "kv_opts s' = kv_opts c" "entries s' = live_list now (entries c)"
  shows "mirror now s' c"
proof -
  have "kv_lookup k s' = live now k c" for k
    by (simp add: lookup_entries assms(4) live_list_lookup [OF kv_ok_distinct [OF assms(1)]] live_def)
  with assms(2,3) show ?thesis by (simp add: mirror_def)
qed

end
