(* ===== verification/Server_State.thy ===== *)
theory Server_State
  imports Snapshot Pub_Sub Errors Resp_Codec Slow_Log
begin

text \<open>
  The state of the server (\<open>src/src/server.ts\<close>): the cache, the append-only log, the snapshot
  file \<open>sv_snapshot\<close> and how they do, the hub, and the connections. A connection is known by its number; what is written to it is
  the list of replies \<open>cn_out\<close>. Buffered output, its limits and the bytes accounted for a
  connection are outside the model: a write fails only when the connection is closed.
\<close>

section \<open>Connections\<close>

record conn =
  cn_authed :: bool
  cn_subMode :: bool
  cn_subs :: "string list"
  cn_watch :: "(string \<times> int) list option"
  cn_queue :: "(string \<times> string list) list option"
  cn_txBytes :: nat
  cn_txFailed :: bool
  cn_out :: "reply option list"
  cn_closed :: bool

definition new_conn :: "bool \<Rightarrow> conn" where
  "new_conn authRequired = \<lparr>cn_authed = \<not> authRequired, cn_subMode = False, cn_subs = [], cn_watch = None, cn_queue = None,
     cn_txBytes = 0, cn_txFailed = False, cn_out = [], cn_closed = False\<rparr>"

definition TOO_LARGE :: reply where
  "TOO_LARGE = RError (wireError (DbError LIMIT_EXCEEDED ''response exceeds RESP limits''))"

text \<open>A reply that cannot be encoded is replaced by an error.\<close>

definition sendable_reply :: "reply option \<Rightarrow> reply option" where
  "sendable_reply r = (case replyByteLength r 0 of Inl _ \<Rightarrow> Some TOO_LARGE | Inr _ \<Rightarrow> r)"

definition write_conn :: "reply option \<Rightarrow> conn \<Rightarrow> bool \<times> conn" where
  "write_conn r cn = (if cn_closed cn then (False, cn) else (True, cn\<lparr>cn_out := cn_out cn @ [sendable_reply r]\<rparr>))"

section \<open>The server\<close>

text \<open>The listener of a connection for a channel is known by both.\<close>

type_synonym listener = "nat \<times> string"

record persistence_error =
  pe_code :: string
  pe_at :: rat

record server_config =
  cf_password :: "string option"
  cf_maxWatchedKeys :: nat
  cf_maxTransactionCommands :: nat
  cf_maxTransactionBytes :: nat
  cf_maxSubscriptions :: nat
  cf_maxCommandMs :: rat
  cf_snapshotPath :: "string option"

record server =
  sv_kv :: kv
  sv_aof :: aof_log
  sv_snapshot :: "string option"
  sv_degraded :: bool
  sv_lastError :: "string option"
  sv_errors :: "(string \<times> persistence_error) list"
  sv_closing :: bool
  sv_hub :: "listener hub"
  sv_conns :: "(nat \<times> conn) list"
  sv_slow :: slow_log
  sv_config :: server_config

type_synonym 'a handler = "(server, 'a) act"

definition conn_of :: "nat \<Rightarrow> server \<Rightarrow> conn" where
  "conn_of i s = (case map_of (sv_conns s) i of Some cn \<Rightarrow> cn | None \<Rightarrow> (new_conn True)\<lparr>cn_closed := True\<rparr>)"

definition set_conn :: "nat \<Rightarrow> conn \<Rightarrow> server \<Rightarrow> server" where
  "set_conn i cn s = s\<lparr>sv_conns := al_set i cn (sv_conns s)\<rparr>"

definition writeReply :: "nat \<Rightarrow> reply option \<Rightarrow> server \<Rightarrow> bool \<times> server" where
  "writeReply i r s = (case write_conn r (conn_of i s) of (b, cn) \<Rightarrow> (b, set_conn i cn s))"

section \<open>Invalidations\<close>

definition INVALIDATE_CHANNEL :: string where
  "INVALIDATE_CHANNEL = ''__yasd__:invalidate''"

definition invalidation :: "string \<Rightarrow> string \<Rightarrow> string \<Rightarrow> json" where
  "invalidation ev field v = JObj [(''event'', JStr ev), (field, JStr v)]"

definition invalidateMessage :: "json \<Rightarrow> string" where
  "invalidateMessage ev = json_text ev"

definition channel_message :: "string \<Rightarrow> string \<Rightarrow> reply" where
  "channel_message channel message =
     RArray [Some (RBulk (Some ''message'')), Some (RBulk (Some channel)), Some (RBulk (Some message))]"

text \<open>What a listener does: it writes the message to its connection.\<close>

definition listener_call :: "listener \<Rightarrow> string \<Rightarrow> string \<Rightarrow> (listener hub \<times> (nat \<times> conn) list, unit) act" where
  "listener_call l channel message hc =
     (case map_of (snd hc) (fst l) of
        None \<Rightarrow> (Inr (), hc)
      | Some cn \<Rightarrow> (Inr (), (fst hc, al_set (fst l) (snd (write_conn (Some (channel_message channel message)) cn)) (snd hc))))"

definition hub_publish :: "string \<Rightarrow> string \<Rightarrow> server \<Rightarrow> nat \<times> server" where
  "hub_publish channel message s =
     (case publish listener_call channel message (sv_hub s, sv_conns s) of
        (n, (h, cs)) \<Rightarrow> (n, s\<lparr>sv_hub := h, sv_conns := cs\<rparr>))"

definition publishInvalidate :: "json \<Rightarrow> server \<Rightarrow> server" where
  "publishInvalidate ev s = snd (hub_publish INVALIDATE_CHANNEL (invalidateMessage ev) s)"

definition onCacheExpiry :: "string \<Rightarrow> server \<Rightarrow> server" where
  "onCacheExpiry key = publishInvalidate (invalidation ''expire'' ''key'' key)"

text \<open>The expiries that the cache has reported are published.\<close>

definition report_expiries :: "server \<Rightarrow> server" where
  "report_expiries s =
     fold onCacheExpiry (kv_events (sv_kv s)) (s\<lparr>sv_kv := (sv_kv s)\<lparr>kv_events := []\<rparr>\<rparr>)"

definition with_kv :: "'a kvop \<Rightarrow> 'a handler" where
  "with_kv m s = (case m (sv_kv s) of (r, c) \<Rightarrow> (r, report_expiries (s\<lparr>sv_kv := c\<rparr>)))"

section \<open>How persistence does\<close>

definition error_key :: "string \<Rightarrow> string \<Rightarrow> string" where
  "error_key component operation = component @ '':'' @ operation"

definition rememberPersistenceError :: "rat \<Rightarrow> string \<Rightarrow> string \<Rightarrow> string \<Rightarrow> server \<Rightarrow> server" where
  "rememberPersistenceError now component operation code s =
     s\<lparr>sv_errors := al_set (error_key component operation) \<lparr>pe_code = code, pe_at = now\<rparr> (sv_errors s)\<rparr>"

definition forgetPersistenceError :: "string \<Rightarrow> string \<Rightarrow> server \<Rightarrow> server" where
  "forgetPersistenceError component operation s = s\<lparr>sv_errors := al_del (error_key component operation) (sv_errors s)\<rparr>"

text \<open>
  The code of an error object. An error of the language has none; neither has, in the model,
  an error of the file system.
\<close>

definition persistenceErrorCode :: "jserr \<Rightarrow> string" where
  "persistenceErrorCode e = (case e of DbError c _ \<Rightarrow> code_text c | PlainError _ \<Rightarrow> ''UNKNOWN'')"

definition syncAofRecoveryStatus :: "rat \<Rightarrow> server \<Rightarrow> server" where
  "syncAofRecoveryStatus now s =
     (case al_recovery (sv_aof s) of
        Clean \<Rightarrow> forgetPersistenceError ''aof'' ''recovery'' s
      | Corrupt \<Rightarrow> rememberPersistenceError now ''aof'' ''recovery'' ''AOF_CORRUPT'' s
      | TornTail \<Rightarrow> rememberPersistenceError now ''aof'' ''recovery'' ''AOF_TORN_TAIL'' s)"

definition AOF_WRITE_FAILED :: jserr where
  "AOF_WRITE_FAILED = DbError PERSISTENCE_ERROR ''AOF write failed; inspect persistenceStatus()''"

definition aofWriteError :: "rat \<Rightarrow> jserr \<Rightarrow> 'a handler" where
  "aofWriteError now e s =
     (Inl AOF_WRITE_FAILED,
      rememberPersistenceError now ''aof'' ''write'' (persistenceErrorCode e)
        (s\<lparr>sv_degraded := True, sv_lastError := Some ''AOF_WRITE_FAILED''\<rparr>))"

definition aof_enabled :: "server \<Rightarrow> bool" where
  "aof_enabled s \<longleftrightarrow> al_path (sv_aof s) \<noteq> None"

text \<open>\<open>flt\<close> is what the file system does with the write: \<open>None\<close>, or the bytes written before it fails.\<close>

definition appendAof :: "rat \<Rightarrow> nat option \<Rightarrow> json \<Rightarrow> unit handler" where
  "appendAof now flt op s =
     (if \<not> aof_enabled s then (Inr (), s)
      else (case aof_append op flt (sv_aof s) of
              (Inr _, a) \<Rightarrow>
                (Inr (), syncAofRecoveryStatus now (forgetPersistenceError ''aof'' ''write''
                   (s\<lparr>sv_aof := a, sv_degraded := False, sv_lastError := None\<rparr>)))
            | (Inl e, a) \<Rightarrow> aofWriteError now e (s\<lparr>sv_aof := a\<rparr>)))"

section \<open>Mutations\<close>

record effects =
  ef_aof :: "json list"
  ef_invalidations :: "json list"

definition no_effects :: effects where
  "no_effects = \<lparr>ef_aof = [], ef_invalidations = []\<rparr>"

definition add_effects :: "effects \<Rightarrow> effects \<Rightarrow> effects" where
  "add_effects a b = \<lparr>ef_aof = ef_aof a @ ef_aof b, ef_invalidations = ef_invalidations a @ ef_invalidations b\<rparr>"

definition commit_patch :: "rat \<Rightarrow> nat option \<Rightarrow> snapshot_entry list \<Rightarrow> string list \<Rightarrow> unit handler" where
  "commit_patch now flt es ds s = (if es = [] \<and> ds = [] then (Inr (), s) else appendAof now flt (patch_op es ds) s)"

text \<open>
  \<open>atomicChanges\<close> on the server's cache. The operation may also act on variables of its own,
  \<open>snd sx\<close>.
\<close>

definition logged_changes :: "rat \<Rightarrow> nat option \<Rightarrow> ((server \<times> 'x) \<times> kv, 'a) act \<Rightarrow> (server \<times> 'x, 'a) act" where
  "logged_changes now flt fn sx =
     (case kv_atomicChanges now fn
          (\<lambda>es ds sx. case commit_patch now flt es ds (fst sx) of (r, s) \<Rightarrow> (r, (s, snd sx))) (sx, sv_kv (fst sx)) of
        (r, ((s, x), c)) \<Rightarrow> (r, (report_expiries (s\<lparr>sv_kv := c\<rparr>), x)))"

text \<open>Without a log, the operations in the effects go to \<open>append\<close>, which does nothing then.\<close>

definition append_effects :: "rat \<Rightarrow> nat option \<Rightarrow> effects \<Rightarrow> unit handler" where
  "append_effects now flt ef =
     (case ef_aof ef of
        [] \<Rightarrow> returns ()
      | [op] \<Rightarrow> appendAof now flt op
      | ops \<Rightarrow> appendAof now flt (JObj [(''op'', JStr ''transaction''), (''ops'', JArr ops)]))"

definition publish_all :: "effects \<Rightarrow> server \<Rightarrow> server" where
  "publish_all ef s = fold publishInvalidate (ef_invalidations ef) s"

definition runCacheMutation :: "rat \<Rightarrow> nat option \<Rightarrow> ('a \<times> effects) kvop \<Rightarrow> 'a handler" where
  "runCacheMutation now flt operation s =
     (if sv_closing s then (Inl (DbError CONNECTION_CLOSED ''server is closing''), s)
      else andThen
        (if aof_enabled s then (\<lambda>s. case logged_changes now flt (on_kv operation) (s, ()) of (r, (s', _)) \<Rightarrow> (r, s'))
         else andThen (with_kv operation) (\<lambda>(r, ef). andThen (append_effects now flt ef) (\<lambda>_. returns (r, ef))))
        (\<lambda>(r, ef). andThen (modify (publish_all ef)) (\<lambda>_. returns r)) s)"

end
