(* ===== verification/Server_Command.thy ===== *)
theory Server_Command
  imports Server_State Js_Decimal
begin

text \<open>
  The cache commands of the server: their arguments, their effect on the cache, the reply, and
  the operations and invalidations they announce. \<open>up\<close> is \<open>toUpperCase\<close>; a command reads the
  clock once.
\<close>

section \<open>Arguments\<close>

definition requireArgs :: "string list \<Rightarrow> nat \<Rightarrow> nat option \<Rightarrow> unit outcome" where
  "requireArgs args lo hi =
     (if length args < lo \<or> (case hi of None \<Rightarrow> False | Some m \<Rightarrow> length args > m)
      then Inl (PlainError ''wrong number of arguments'') else Inr ())"

definition parseMs :: "string \<Rightarrow> jsnum outcome" where
  "parseMs raw = chain (parseStrictNonNegativeNumber raw) (\<lambda>x. Inr (Fin x))"

definition parsePx :: "(string \<Rightarrow> string) \<Rightarrow> string list \<Rightarrow> jsnum option outcome" where
  "parsePx up rest =
     (case rest of
        [] \<Rightarrow> Inr None
      | [px, ms] \<Rightarrow>
          if up px \<noteq> ''PX'' then Inl (PlainError ''SET syntax: SET key value [PX ms]'')
          else chain (parseMs ms) (\<lambda>t. Inr (Some t))
      | _ \<Rightarrow> Inl (PlainError ''SET syntax: SET key value [PX ms]''))"

definition parseJsonValue :: "string \<Rightarrow> json outcome" where
  "parseJsonValue text = JSON_parse text"

text \<open>The marker of an expiry in a logged operation: \<open>null\<close> persists, 0 says the key is gone.\<close>

definition aofExpiry :: "rat \<Rightarrow> string \<Rightarrow> json kvop" where
  "aofExpiry now key =
     andThen (kv_expiration now key) (\<lambda>r. returns (case r of None \<Rightarrow> JNum 0 | Some None \<Rightarrow> JNull | Some (Some t) \<Rightarrow> JNum t))"

section \<open>Logged operations\<close>

definition set_op :: "string \<Rightarrow> json \<Rightarrow> json \<Rightarrow> json" where
  "set_op key v expiresAt = JObj [(''op'', JStr ''set''), (''key'', JStr key), (''value'', v), (''expiresAt'', expiresAt)]"

definition del_op :: "string list \<Rightarrow> json" where
  "del_op keys = JObj [(''op'', JStr ''del''), (''keys'', JArr (map JStr keys))]"

definition clear_op :: "string \<Rightarrow> json" where
  "clear_op prefix = JObj [(''op'', JStr ''clear''), (''prefix'', JStr prefix)]"

definition expire_op :: "string \<Rightarrow> json \<Rightarrow> json" where
  "expire_op key expiresAt = JObj [(''op'', JStr ''expire''), (''key'', JStr key), (''expiresAt'', expiresAt)]"

definition persist_op :: "string \<Rightarrow> json" where
  "persist_op key = JObj [(''op'', JStr ''persist''), (''key'', JStr key)]"

definition incr_op :: "string \<Rightarrow> rat \<Rightarrow> json" where
  "incr_op key by = JObj [(''op'', JStr ''incr''), (''key'', JStr key), (''by'', JNum by)]"

definition mset_op :: "(string \<times> json \<times> json) list \<Rightarrow> json" where
  "mset_op es = JObj [(''op'', JStr ''mset''), (''entries'', JArr (map (\<lambda>(k, v, x).
     JObj [(''key'', JStr k), (''value'', v), (''expiresAt'', x)]) es))]"

definition key_event :: "string \<Rightarrow> string \<Rightarrow> json" where
  "key_event ev key = invalidation ev ''key'' key"

type_synonym command = "(reply \<times> effects) kvop"

definition quiet :: "reply \<Rightarrow> command" where
  "quiet r = returns (r, no_effects)"

definition announce :: "reply \<Rightarrow> json \<Rightarrow> json list \<Rightarrow> command" where
  "announce r op evs = returns (r, \<lparr>ef_aof = [op], ef_invalidations = evs\<rparr>)"

definition OK :: reply where
  "OK = RSimple ''OK''"

definition int_reply :: "int \<Rightarrow> reply" where
  "int_reply n = RInt (Fin (of_int n))"

definition flag_reply :: "bool \<Rightarrow> reply" where
  "flag_reply b = int_reply (if b then 1 else 0)"

definition value_reply :: "json option \<Rightarrow> reply" where
  "value_reply v = RBulk (map_option json_text v)"

section \<open>The commands\<close>

definition cmd_get :: "rat \<Rightarrow> string list \<Rightarrow> command" where
  "cmd_get now args =
     andThen (check (\<lambda>_. requireArgs args 1 (Some 1))) (\<lambda>_.
     andThen (kv_get now (hd args)) (\<lambda>v. quiet (value_reply v)))"

definition cmd_set :: "(string \<Rightarrow> string) \<Rightarrow> rat \<Rightarrow> string list \<Rightarrow> command" where
  "cmd_set up now args =
     andThen (check (\<lambda>_. requireArgs args 2 (Some 4))) (\<lambda>_.
     andThen (check (\<lambda>_. parseJsonValue (args ! 1))) (\<lambda>v.
     andThen (check (\<lambda>_. parsePx up (drop 2 args))) (\<lambda>ttl.
     andThen (kv_set now (hd args) v ttl) (\<lambda>_.
     andThen (aofExpiry now (hd args)) (\<lambda>x.
     announce OK (set_op (hd args) v x) [key_event ''set'' (hd args)])))))"

fun mset_entries :: "string list \<Rightarrow> batch_entry list outcome" where
  "mset_entries (k # v # args) =
     chain (parseJsonValue v) (\<lambda>x. chain (mset_entries args) (\<lambda>es. Inr (\<lparr>b_key = k, b_value = x, b_ttlMs = None\<rparr> # es)))"
| "mset_entries _ = Inr []"

definition cmd_mset :: "rat \<Rightarrow> string list \<Rightarrow> command" where
  "cmd_mset now args =
     (if args = [] \<or> odd (length args) then throws (PlainError ''MSET requires key/value pairs'')
      else andThen (check (\<lambda>_. mset_entries args)) (\<lambda>es.
           andThen (kv_mset now es) (\<lambda>_.
           andThen (map_each (\<lambda>e. andThen (aofExpiry now (b_key e)) (\<lambda>x. returns (b_key e, b_value e, x))) es) (\<lambda>logged.
           announce OK (mset_op logged) (map (\<lambda>e. key_event ''set'' (b_key e)) es)))))"

text \<open>The replies are collected while their size is within the limit of a frame.\<close>

fun mget_items :: "rat \<Rightarrow> string list \<Rightarrow> nat \<Rightarrow> reply option list kvop" where
  "mget_items now [] bytes = returns []"
| "mget_items now (key # keys) bytes =
     andThen (kv_get now key) (\<lambda>v.
     andThen (check (\<lambda>_. replyByteLength (Some (value_reply v)) 0)) (\<lambda>n.
     if bytes + n > 8 * 1024 * 1024 then throws (DbError LIMIT_EXCEEDED ''MGET response exceeds RESP limit'')
     else andThen (mget_items now keys (bytes + n)) (\<lambda>rs. returns (Some (value_reply v) # rs))))"

definition cmd_mget :: "rat \<Rightarrow> string list \<Rightarrow> command" where
  "cmd_mget now args =
     andThen (mget_items now args (length (len_text (length args)) + 3)) (\<lambda>rs. quiet (RArray rs))"

fun del_keys :: "rat \<Rightarrow> string list \<Rightarrow> string list kvop" where
  "del_keys now [] = returns []"
| "del_keys now (key # keys) =
     andThen (kv_del now key) (\<lambda>b. andThen (del_keys now keys) (\<lambda>ks. returns (if b then key # ks else ks)))"

definition cmd_del :: "rat \<Rightarrow> string list \<Rightarrow> command" where
  "cmd_del now args =
     andThen (del_keys now args) (\<lambda>deleted.
     returns (int_reply (int (length deleted)),
       \<lparr>ef_aof = (if deleted = [] then [] else [del_op deleted]), ef_invalidations = map (key_event ''del'') deleted\<rparr>))"

definition cmd_clear :: "string list \<Rightarrow> command" where
  "cmd_clear args =
     andThen (check (\<lambda>_. requireArgs args 1 (Some 1))) (\<lambda>_.
     andThen (kv_clearPrefix (hd args)) (\<lambda>n.
     announce (int_reply (int n)) (clear_op (hd args)) [invalidation ''clear'' ''prefix'' (hd args)]))"

definition cmd_ttl :: "rat \<Rightarrow> string list \<Rightarrow> command" where
  "cmd_ttl now args =
     andThen (check (\<lambda>_. requireArgs args 1 (Some 1))) (\<lambda>_.
     andThen (kv_ttl now (hd args)) (\<lambda>n. quiet (int_reply n)))"

text \<open>\<open>aofExpiry(key) ?? 0\<close>.\<close>

definition or_zero :: "json \<Rightarrow> json" where
  "or_zero x = (if x = JNull then JNum 0 else x)"

definition cmd_expire :: "rat \<Rightarrow> string list \<Rightarrow> command" where
  "cmd_expire now args =
     andThen (check (\<lambda>_. requireArgs args 2 (Some 2))) (\<lambda>_.
     andThen (check (\<lambda>_. parseMs (args ! 1))) (\<lambda>ttl.
     andThen (kv_expire now (hd args) ttl) (\<lambda>ok.
     if ok then andThen (aofExpiry now (hd args)) (\<lambda>x.
       announce (flag_reply True) (expire_op (hd args) (or_zero x)) [key_event ''expire'' (hd args)])
     else quiet (flag_reply False))))"

definition cmd_persist :: "rat \<Rightarrow> string list \<Rightarrow> command" where
  "cmd_persist now args =
     andThen (check (\<lambda>_. requireArgs args 1 (Some 1))) (\<lambda>_.
     andThen (kv_persist now (hd args)) (\<lambda>ok.
     if ok then announce (flag_reply True) (persist_op (hd args)) [key_event ''persist'' (hd args)]
     else quiet (flag_reply False)))"

definition delta_arg :: "string list \<Rightarrow> rat outcome" where
  "delta_arg args =
     (if args = [] \<or> length args > 2 then Inl (PlainError ''requires a key and optional delta'')
      else if length args = 1 then Inr 1 else parseStrictNumber (args ! 1))"

definition number_reply :: "rat \<Rightarrow> reply" where
  "number_reply x = (if is_safe_integer (Fin x) then RInt (Fin x) else RBulk (Some (json_text (JNum x))))"

definition cmd_incr :: "rat \<Rightarrow> bool \<Rightarrow> string list \<Rightarrow> command" where
  "cmd_incr now up args =
     andThen (check (\<lambda>_. delta_arg args)) (\<lambda>by.
     andThen (if up then kv_incr now now (hd args) (Fin by) else kv_decr now now (hd args) (Fin by)) (\<lambda>next.
     announce (number_reply next) (incr_op (hd args) (if up then by else - by)) [key_event ''set'' (hd args)]))"

definition cmd_cas :: "(string \<Rightarrow> string) \<Rightarrow> rat \<Rightarrow> string list \<Rightarrow> command" where
  "cmd_cas up now args =
     (if length args < 3 \<or> length args > 5 then throws (PlainError ''CAS syntax: CAS key expectedJson valueJson [PX ms]'')
      else andThen (check (\<lambda>_. parseJsonValue (args ! 2))) (\<lambda>v.
           andThen (check (\<lambda>_. parsePx up (drop 3 args))) (\<lambda>ttl.
           andThen (check (\<lambda>_. if args ! 1 = [] then Inr None else chain (JSON_parse (args ! 1)) (\<lambda>x. Inr (Some x)))) (\<lambda>expected.
           andThen (kv_cas now (hd args) expected v ttl) (\<lambda>ok.
           if ok then
             andThen (kv_expiration now (hd args)) (\<lambda>r.
             announce (flag_reply True)
               (case r of None \<Rightarrow> del_op [hd args] | Some None \<Rightarrow> set_op (hd args) v JNull | Some (Some t) \<Rightarrow> set_op (hd args) v (JNum t))
               [key_event ''set'' (hd args)])
           else quiet (flag_reply False))))))"

definition cmd_ping :: "string list \<Rightarrow> reply" where
  "cmd_ping args = (if args = [] then RSimple ''PONG'' else RBulk (Some (concat (butlast (concat (map (\<lambda>a. [a, '' '']) args))))))"

text \<open>The commands on the cache, and \<open>None\<close> for the others.\<close>

definition cache_command :: "(string \<Rightarrow> string) \<Rightarrow> rat \<Rightarrow> string \<Rightarrow> string list \<Rightarrow> command option" where
  "cache_command up now cmd args =
     (if cmd = ''PING'' then Some (quiet (cmd_ping args))
      else if cmd = ''CAS'' then Some (cmd_cas up now args)
      else if cmd = ''GET'' then Some (cmd_get now args)
      else if cmd = ''SET'' then Some (cmd_set up now args)
      else if cmd = ''MSET'' then Some (cmd_mset now args)
      else if cmd = ''MGET'' then Some (cmd_mget now args)
      else if cmd = ''DEL'' then Some (cmd_del now args)
      else if cmd = ''CLEAR'' then Some (cmd_clear args)
      else if cmd = ''TTL'' then Some (cmd_ttl now args)
      else if cmd = ''EXPIRE'' then Some (cmd_expire now args)
      else if cmd = ''PERSIST'' then Some (cmd_persist now args)
      else if cmd = ''INCR'' then Some (cmd_incr now True args)
      else if cmd = ''DECR'' then Some (cmd_incr now False args)
      else None)"

end
