(* ===== verification/Server_Save.thy ===== *)
theory Server_Save
  imports Server_State
begin

text \<open>
  Saving, loading and starting (\<open>src/src/server.ts\<close>): a snapshot of the cache with the number of
  the last record, after which the log keeps only the records behind it; a load that is logged
  like any other change; and the recovery from both files.
\<close>

definition safePersistenceError :: "string \<Rightarrow> jserr \<Rightarrow> jserr" where
  "safePersistenceError prefix e =
     DbError PERSISTENCE_ERROR (prefix @ '' failed ('' @ persistenceErrorCode e @ ''); inspect persistenceStatus()'')"

definition persistence_failed :: "rat \<Rightarrow> string \<Rightarrow> string \<Rightarrow> string \<Rightarrow> jserr \<Rightarrow> 'a handler" where
  "persistence_failed now component operation prefix e s =
     (Inl (safePersistenceError prefix e), rememberPersistenceError now component operation (persistenceErrorCode e) s)"

section \<open>Save\<close>

text \<open>
  The text of the snapshot and the number of the last record are taken in one step. While the
  text is written other requests are handled: \<open>between\<close>. Then the log is rotated, if the file
  is the one the server starts from.
\<close>

definition save_text :: "rat \<Rightarrow> rat \<Rightarrow> server \<Rightarrow> (nat \<times> string) outcome" where
  "save_text now savedAt s = snapshot_text now savedAt (seq_arg (Some (al_lastSeq (sv_aof s)))) (sv_kv s)"

definition after_save :: "rat \<Rightarrow> nat \<Rightarrow> unit handler" where
  "after_save now snapshotSeq s =
     (case rotateAfter (Fin (of_nat snapshotSeq)) (sv_aof s) of
        (Inl e, a) \<Rightarrow> aofWriteError now e (s\<lparr>sv_aof := a\<rparr>)
      | (Inr _, a) \<Rightarrow>
          (Inr (), syncAofRecoveryStatus now (forgetPersistenceError ''snapshot'' ''save'' (forgetPersistenceError ''aof'' ''write''
             (s\<lparr>sv_aof := a, sv_degraded := False, sv_lastError := None\<rparr>)))))"

definition saveUnlocked :: "rat \<Rightarrow> rat \<Rightarrow> rat \<Rightarrow> save_fault \<Rightarrow> (server \<Rightarrow> server) \<Rightarrow> nat handler" where
  "saveUnlocked now savedAt later flt between s =
     (case save_text now savedAt s of
        Inl e \<Rightarrow> persistence_failed now ''snapshot'' ''save'' ''snapshot save'' e s
      | Inr (n, contents) \<Rightarrow>
          (let s1 = between s in
           case write_snapshot flt contents (sv_snapshot s1) of
             (Inl e, d) \<Rightarrow> persistence_failed later ''snapshot'' ''save'' ''snapshot save'' e (s1\<lparr>sv_snapshot := d\<rparr>)
           | (Inr _, d) \<Rightarrow> andThen (after_save later (al_lastSeq (sv_aof s))) (\<lambda>_. returns n) (s1\<lparr>sv_snapshot := d\<rparr>)))"

definition server_save :: "rat \<Rightarrow> rat \<Rightarrow> rat \<Rightarrow> save_fault \<Rightarrow> (server \<Rightarrow> server) \<Rightarrow> nat handler" where
  "server_save now savedAt later flt between s =
     (if sv_closing s then (Inl (DbError CONNECTION_CLOSED ''server is closing''), s)
      else if cf_snapshotPath (sv_config s) = None then (Inl (PlainError ''SAVE requires a snapshot path''), s)
      else saveUnlocked now savedAt later flt between s)"

text \<open>A save to another file is an export: the log stays as it is.\<close>

definition server_export :: "rat \<Rightarrow> rat \<Rightarrow> rat \<Rightarrow> save_fault \<Rightarrow> (server \<Rightarrow> server) \<Rightarrow> (server \<times> string option, nat) act" where
  "server_export now savedAt later flt between sd =
     (let (s, disk) = sd in
      if sv_closing s then (Inl (DbError CONNECTION_CLOSED ''server is closing''), (s, disk))
      else (case save_text now savedAt s of
              Inl e \<Rightarrow> (case persistence_failed now ''snapshot'' ''save'' ''snapshot save'' e s of (r, s') \<Rightarrow> (r, (s', disk)))
            | Inr (n, contents) \<Rightarrow>
                (case write_snapshot flt contents disk of
                   (Inl e, d) \<Rightarrow>
                     (case persistence_failed later ''snapshot'' ''save'' ''snapshot save'' e (between s) of (r, s') \<Rightarrow> (r, (s', d)))
                 | (Inr _, d) \<Rightarrow> (Inr n, (syncAofRecoveryStatus later (forgetPersistenceError ''snapshot'' ''save'' (between s)), d)))))"

section \<open>Load\<close>

definition LOAD_EVENT :: json where
  "LOAD_EVENT = JObj [(''event'', JStr ''load'')]"

definition logged_replace :: "rat \<Rightarrow> nat option \<Rightarrow> json list \<Rightarrow> nat handler" where
  "logged_replace now flt items s =
     (case logged_changes now flt (on_kv (replace_raw now items)) (s, ()) of (r, (s', _)) \<Rightarrow> (r, s'))"

definition server_load :: "rat \<Rightarrow> nat option \<Rightarrow> nat handler" where
  "server_load now flt s =
     (if sv_closing s then (Inl (DbError CONNECTION_CLOSED ''server is closing''), s)
      else if cf_snapshotPath (sv_config s) = None then (Inl (PlainError ''LOAD requires a snapshot path''), s)
      else (case load_with (logged_replace now flt) False (sv_snapshot s) s of
              (Inl e, s') \<Rightarrow> persistence_failed now ''snapshot'' ''load'' ''snapshot load'' e s'
            | (Inr (n, _), s') \<Rightarrow> (Inr n, publishInvalidate LOAD_EVENT (forgetPersistenceError ''snapshot'' ''load'' s'))))"

section \<open>Start\<close>

text \<open>The snapshot, when there is a path for one, and then the records behind it.\<close>

definition start_snapshot :: "rat \<Rightarrow> nat option handler" where
  "start_snapshot now s =
     (if cf_snapshotPath (sv_config s) = None then (Inr None, s)
      else (case loadSnapshot now True True (sv_snapshot s) (sv_kv s) of
              (Inl e, c) \<Rightarrow> persistence_failed now ''snapshot'' ''load'' ''snapshot load'' e (report_expiries (s\<lparr>sv_kv := c\<rparr>))
            | (Inr (_, seq), c) \<Rightarrow> (Inr seq, forgetPersistenceError ''snapshot'' ''load'' (report_expiries (s\<lparr>sv_kv := c\<rparr>)))))"

definition start_replay :: "rat \<Rightarrow> nat option \<Rightarrow> unit handler" where
  "start_replay now seq s =
     (case aof_replay now (seq_arg seq) (sv_aof s, sv_kv s) of
        (Inl e, (a, c)) \<Rightarrow> persistence_failed now ''aof'' ''recovery'' ''AOF recovery'' e (report_expiries (s\<lparr>sv_aof := a, sv_kv := c\<rparr>))
      | (Inr _, (a, c)) \<Rightarrow> (Inr (), syncAofRecoveryStatus now (report_expiries (s\<lparr>sv_aof := a, sv_kv := c\<rparr>))))"

definition start_recovery :: "bool \<Rightarrow> rat \<Rightarrow> unit handler" where
  "start_recovery loadOnStart now =
     andThen (if loadOnStart then andThen (start_snapshot now) (start_replay now) else returns ()) (\<lambda>_ s.
     if sv_closing s then (Inl (DbError CONNECTION_CLOSED ''server closed during start''), s) else (Inr (), s))"

end
