(* ===== verification/Server_Dispatch.thy ===== *)
theory Server_Dispatch
  imports Server_Command Server_Save
begin

text \<open>
  A request of a connection, from its arguments to the written reply: authentication,
  subscriber mode, transactions with watched keys, the commands of the connection, and the
  cache commands with their log record. The surroundings of a request are the record \<open>env\<close>:
  \<open>toUpperCase\<close>, the clock, what the file system does with the next write, the time the command
  takes, what \<open>INFO\<close> reports (not modelled), \<open>path.resolve\<close>, and for \<open>SAVE\<close> the clock at the end,
  what the file system does with the snapshot and the requests handled while it is written.
\<close>

record env =
  ev_up :: "string \<Rightarrow> string"
  ev_now :: rat
  ev_write :: "nat option"
  ev_elapsed :: rat
  ev_info :: "server \<Rightarrow> json"
  ev_resolve :: "string \<Rightarrow> string"
  ev_savedAt :: rat
  ev_later :: rat
  ev_save :: save_fault
  ev_between :: "server \<Rightarrow> server"

datatype result = Answer reply | Silent | CloseConn

definition AOF_COMMANDS :: "string list" where
  "AOF_COMMANDS = [''SET'', ''MSET'', ''DEL'', ''CLEAR'', ''EXPIRE'', ''PERSIST'', ''INCR'', ''DECR'', ''CAS'']"

definition TX_QUEUEABLE :: "string list" where
  "TX_QUEUEABLE = [''PING'', ''GET'', ''MGET'', ''SET'', ''MSET'', ''DEL'', ''CLEAR'', ''TTL'', ''EXPIRE'', ''PERSIST'', ''INCR'',
     ''DECR'', ''CAS'']"

definition for_conn :: "nat \<Rightarrow> (conn \<Rightarrow> conn) \<Rightarrow> unit handler" where
  "for_conn i f = modify (\<lambda>s. set_conn i (f (conn_of i s)) s)"

definition refuse :: "string \<Rightarrow> 'a handler" where
  "refuse m = throws (PlainError m)"

definition answer :: "reply \<Rightarrow> result handler" where
  "answer r = returns (Answer r)"

definition write_to :: "nat \<Rightarrow> reply \<Rightarrow> bool handler" where
  "write_to i r s = (case writeReply i (Some r) s of (b, s') \<Rightarrow> (Inr b, s'))"

section \<open>Commands of the connection\<close>

definition do_auth :: "nat \<Rightarrow> string list \<Rightarrow> result handler" where
  "do_auth i args s =
     (if length args \<noteq> 1 then refuse ''AUTH takes one password'' s
      else (case cf_password (sv_config s) of
              None \<Rightarrow> answer OK s
            | Some p \<Rightarrow>
                if hd args = p then andThen (for_conn i (\<lambda>cn. cn\<lparr>cn_authed := True\<rparr>)) (\<lambda>_. answer OK) s
                else refuse ''invalid password'' s))"

definition do_publish :: "string list \<Rightarrow> result handler" where
  "do_publish args s =
     (case requireArgs args 2 (Some 2) of
        Inl e \<Rightarrow> (Inl e, s)
      | Inr _ \<Rightarrow> (case hub_publish (hd args) (args ! 1) s of (n, s') \<Rightarrow> (Inr (Answer (int_reply (int n))), s')))"

definition subscription_ack :: "string \<Rightarrow> string \<Rightarrow> nat \<Rightarrow> reply" where
  "subscription_ack what channel n = RArray [Some (RBulk (Some what)), Some (RBulk (Some channel)), Some (int_reply (int n))]"

definition subscribe_one :: "nat \<Rightarrow> string \<Rightarrow> reply handler" where
  "subscribe_one i channel s =
     (let cn = conn_of i s in
      if channel \<in> set (cn_subs cn) then (Inr (subscription_ack ''subscribe'' channel (length (cn_subs cn))), s)
      else (let s1 = set_conn i (cn\<lparr>cn_subs := cn_subs cn @ [channel]\<rparr>) s in
            case subscribe channel (i, channel) (sv_hub s1) of
              (Inl e, h) \<Rightarrow> (Inl e, s1\<lparr>sv_hub := h\<rparr>)
            | (Inr _, h) \<Rightarrow> (Inr (subscription_ack ''subscribe'' channel (length (cn_subs cn) + 1)), s1\<lparr>sv_hub := h\<rparr>)))"

fun subscribe_each :: "nat \<Rightarrow> string list \<Rightarrow> reply list handler" where
  "subscribe_each i [] = returns []"
| "subscribe_each i (channel # cs) =
     andThen (subscribe_one i channel) (\<lambda>ack. andThen (subscribe_each i cs) (\<lambda>acks. returns (ack # acks)))"

fun write_each :: "nat \<Rightarrow> reply list \<Rightarrow> unit handler" where
  "write_each i [] = returns ()"
| "write_each i (r # rs) = andThen (write_to i r) (\<lambda>b. if b then write_each i rs else returns ())"

definition do_subscribe :: "nat \<Rightarrow> string list \<Rightarrow> result handler" where
  "do_subscribe i args s =
     (case requireArgs args 1 None of
        Inl e \<Rightarrow> (Inl e, s)
      | Inr _ \<Rightarrow>
          if card (set (cn_subs (conn_of i s)) \<union> set args) > cf_maxSubscriptions (sv_config s)
          then throws (DbError LIMIT_EXCEEDED ''subscription limit exceeded'') s
          else andThen (for_conn i (\<lambda>cn. cn\<lparr>cn_subMode := True\<rparr>)) (\<lambda>_.
               andThen (subscribe_each i args) (\<lambda>acks.
               andThen (write_each i acks) (\<lambda>_. returns Silent))) s)"

definition unsubscribe_one :: "nat \<Rightarrow> string \<Rightarrow> bool handler" where
  "unsubscribe_one i channel s =
     (let cn = conn_of i s;
          s1 = (if channel \<in> set (cn_subs cn)
                then (set_conn i (cn\<lparr>cn_subs := filter (\<lambda>c. c \<noteq> channel) (cn_subs cn)\<rparr>) s)
                  \<lparr>sv_hub := snd (unsubscribe channel (i, channel) (sv_hub s))\<rparr>
                else s)
      in write_to i (subscription_ack ''unsubscribe'' channel (length (cn_subs (conn_of i s1)))) s1)"

fun unsubscribe_each :: "nat \<Rightarrow> string list \<Rightarrow> unit handler" where
  "unsubscribe_each i [] = returns ()"
| "unsubscribe_each i (channel # cs) =
     andThen (unsubscribe_one i channel) (\<lambda>b. if b then unsubscribe_each i cs else returns ())"

definition do_unsubscribe :: "nat \<Rightarrow> string list \<Rightarrow> result handler" where
  "do_unsubscribe i args s =
     andThen (unsubscribe_each i (if args = [] then cn_subs (conn_of i s) else args)) (\<lambda>_.
     andThen (for_conn i (\<lambda>cn. if cn_subs cn = [] then cn\<lparr>cn_subMode := False\<rparr> else cn)) (\<lambda>_. returns Silent)) s"

definition executeCommand :: "env \<Rightarrow> nat \<Rightarrow> string \<Rightarrow> string list \<Rightarrow> result handler" where
  "executeCommand ev i cmd args =
     (case cache_command (ev_up ev) (ev_now ev) cmd args of
        Some m \<Rightarrow> andThen (with_kv m) (\<lambda>r. answer (fst r))
      | None \<Rightarrow>
          if cmd = ''QUIT'' then returns CloseConn
          else if cmd = ''AUTH'' then do_auth i args
          else if cmd = ''PUBLISH'' then do_publish args
          else if cmd = ''SUBSCRIBE'' then do_subscribe i args
          else if cmd = ''UNSUBSCRIBE'' then do_unsubscribe i args
          else if cmd = ''INFO'' then (\<lambda>s. answer (RBulk (Some (json_text (ev_info ev s)))) s)
          else if cmd = ''SAVE'' \<or> cmd = ''LOAD'' then throws (DbError COMMAND_ERROR ''requires asynchronous dispatch'')
          else refuse ''unknown command'')"

section \<open>Transactions\<close>

fun watch_each :: "rat \<Rightarrow> nat \<Rightarrow> string list \<Rightarrow> unit handler" where
  "watch_each now i [] = returns ()"
| "watch_each now i (key # keys) =
     (\<lambda>s. andThen
       (if key \<in> fst ` set (the (cn_watch (conn_of i s))) then returns ()
        else andThen (with_kv (kv_getVersion now key)) (\<lambda>v.
             for_conn i (\<lambda>cn. cn\<lparr>cn_watch := map_option (\<lambda>ws. ws @ [(key, v)]) (cn_watch cn)\<rparr>)))
       (\<lambda>_. watch_each now i keys) s)"

definition do_watch :: "env \<Rightarrow> nat \<Rightarrow> string list \<Rightarrow> result handler" where
  "do_watch ev i args s =
     (if cn_subMode (conn_of i s) then refuse ''WATCH not allowed in subscriber mode'' s
      else if cn_queue (conn_of i s) \<noteq> None then refuse ''WATCH inside MULTI is not allowed'' s
      else (case requireArgs args 1 None of
              Inl e \<Rightarrow> (Inl e, s)
            | Inr _ \<Rightarrow>
                andThen (for_conn i (\<lambda>cn. if cn_watch cn = None then cn\<lparr>cn_watch := Some []\<rparr> else cn)) (\<lambda>_ s.
                if card (fst ` set (the (cn_watch (conn_of i s))) \<union> set args) > cf_maxWatchedKeys (sv_config s)
                then throws (DbError LIMIT_EXCEEDED ''WATCH key limit exceeded'') s
                else andThen (watch_each (ev_now ev) i args) (\<lambda>_. answer OK) s) s))"

definition do_multi :: "nat \<Rightarrow> string list \<Rightarrow> result handler" where
  "do_multi i args s =
     (if args \<noteq> [] then refuse ''MULTI takes no arguments'' s
      else if cn_subMode (conn_of i s) then refuse ''MULTI not allowed in subscriber mode'' s
      else if cn_queue (conn_of i s) \<noteq> None then refuse ''MULTI calls cannot nest'' s
      else andThen (for_conn i (\<lambda>cn. cn\<lparr>cn_queue := Some [], cn_txBytes := 0, cn_txFailed := False\<rparr>)) (\<lambda>_. answer OK) s)"

definition do_discard :: "nat \<Rightarrow> string list \<Rightarrow> result handler" where
  "do_discard i args s =
     (if args \<noteq> [] then refuse ''DISCARD takes no arguments'' s
      else if cn_queue (conn_of i s) = None then refuse ''DISCARD without MULTI'' s
      else andThen (for_conn i (\<lambda>cn. cn\<lparr>cn_queue := None, cn_watch := None\<rparr>)) (\<lambda>_. answer OK) s)"

definition queued_bytes :: "string \<Rightarrow> string list \<Rightarrow> nat" where
  "queued_bytes cmd args = length cmd + (16 + sum_list (map (\<lambda>a. length a + 16) args))"

definition enqueueCommand :: "nat \<Rightarrow> string \<Rightarrow> string list \<Rightarrow> result handler" where
  "enqueueCommand i cmd args s =
     (let cn = conn_of i s; q = the (cn_queue cn); bytes = queued_bytes cmd args in
      if cmd \<notin> set TX_QUEUEABLE then refuse ''not allowed inside MULTI'' s
      else if cn_txFailed cn \<or> length q \<ge> cf_maxTransactionCommands (sv_config s)
        \<or> cn_txBytes cn + bytes > cf_maxTransactionBytes (sv_config s)
      then andThen (for_conn i (\<lambda>cn. cn\<lparr>cn_txFailed := True\<rparr>)) (\<lambda>_.
           throws (DbError LIMIT_EXCEEDED ''transaction queue limit exceeded; DISCARD required'')) s
      else andThen (for_conn i (\<lambda>cn. cn\<lparr>cn_txBytes := cn_txBytes cn + bytes, cn_queue := Some (q @ [(cmd, args)])\<rparr>))
             (\<lambda>_. answer (RSimple ''QUEUED'')) s)"

fun versions_unchanged :: "rat \<Rightarrow> (string \<times> int) list \<Rightarrow> bool kvop" where
  "versions_unchanged now [] = returns True"
| "versions_unchanged now ((key, v) # ws) =
     andThen (kv_getVersion now key) (\<lambda>g. if g \<noteq> v then returns False else versions_unchanged now ws)"

text \<open>
  The queued commands, on the cache and the list of items: a command that fails leaves an error
  item. The queue holds commands on the cache only.
\<close>

definition EXEC_TOO_LARGE :: jserr where
  "EXEC_TOO_LARGE = DbError LIMIT_EXCEEDED ''EXEC response exceeds RESP limit''"

type_synonym 'a batch = "((server \<times> reply option list) \<times> kv, 'a) act"

definition add_item :: "reply \<Rightarrow> unit batch" where
  "add_item r = modify (\<lambda>((s, items), c). ((s, items @ [Some r]), c))"

definition exec_one :: "env \<Rightarrow> nat \<Rightarrow> string \<Rightarrow> string list \<Rightarrow> (nat \<times> bool \<times> effects) batch" where
  "exec_one ev bytes cmd args w =
     (case cache_command (ev_up ev) (ev_now ev) cmd args of
        None \<Rightarrow> andThen (add_item (RError ''cannot run inside MULTI'')) (\<lambda>_. returns (bytes, True, no_effects)) w
      | Some m \<Rightarrow>
          (case on_kv m w of
             (Inl e, w1) \<Rightarrow> andThen (add_item (RError (wireError e))) (\<lambda>_. returns (bytes, True, no_effects)) w1
           | (Inr (r, ef), w1) \<Rightarrow>
               (case replyByteLength (Some r) 0 of
                  Inl e \<Rightarrow> andThen (add_item (RError (wireError e))) (\<lambda>_. returns (bytes, True, ef)) w1
                | Inr n \<Rightarrow>
                    if bytes + n > 8 * 1024 * 1024
                    then andThen (add_item (RError (wireError EXEC_TOO_LARGE))) (\<lambda>_. returns (bytes + n, True, ef)) w1
                    else andThen (add_item r) (\<lambda>_. returns (bytes + n, False, ef)) w1)))"

fun exec_each :: "env \<Rightarrow> nat \<Rightarrow> (string \<times> string list) list \<Rightarrow> (bool \<times> effects) batch" where
  "exec_each ev bytes [] = returns (False, no_effects)"
| "exec_each ev bytes ((cmd, args) # ops) =
     andThen (exec_one ev bytes cmd args) (\<lambda>(n, failed, ef).
     andThen (exec_each ev n ops) (\<lambda>(failed', ef'). returns (failed \<or> failed', add_effects ef ef')))"

definition ABORT :: jserr where
  "ABORT = PlainError ''transaction aborted''"

definition exec_body :: "env \<Rightarrow> (string \<times> string list) list \<Rightarrow> effects batch" where
  "exec_body ev queue =
     andThen (exec_each ev (length (len_text (length queue)) + 3) queue) (\<lambda>(failed, ef).
     if failed then throws ABORT else returns ef)"

definition run_queue :: "env \<Rightarrow> (string \<times> string list) list \<Rightarrow> result handler" where
  "run_queue ev queue s =
     (case logged_changes (ev_now ev) (ev_write ev) (exec_body ev queue) (s, []) of
        (Inr ef, (s', items)) \<Rightarrow> (Inr (Answer (RArray items)), publish_all ef s')
      | (Inl e, (s', items)) \<Rightarrow> (if e = ABORT then Inr (Answer (RArray items)) else Inl e, s'))"

definition execTransaction :: "env \<Rightarrow> nat \<Rightarrow> result handler" where
  "execTransaction ev i s =
     (let cn = conn_of i s; queue = the (cn_queue cn) in
      andThen (for_conn i (\<lambda>cn. cn\<lparr>cn_queue := None, cn_txBytes := 0, cn_txFailed := False, cn_watch := None\<rparr>)) (\<lambda>_.
      if cn_txFailed cn then throws (DbError TRANSACTION_ERROR ''transaction aborted after queue limit'')
      else andThen (with_kv (versions_unchanged (ev_now ev) (case cn_watch cn of None \<Rightarrow> [] | Some ws \<Rightarrow> ws))) (\<lambda>same.
           if \<not> same then answer RNil else run_queue ev queue)) s)"

section \<open>Dispatch\<close>

definition dispatch :: "env \<Rightarrow> nat \<Rightarrow> string \<Rightarrow> string list \<Rightarrow> result handler" where
  "dispatch ev i cmd args s =
     (if cmd = ''WATCH'' then do_watch ev i args s
      else if cmd = ''UNWATCH'' then
        (if args \<noteq> [] then refuse ''UNWATCH takes no arguments'' s
         else andThen (for_conn i (\<lambda>cn. cn\<lparr>cn_watch := None\<rparr>)) (\<lambda>_. answer OK) s)
      else if cmd = ''MULTI'' then do_multi i args s
      else if cmd = ''DISCARD'' then do_discard i args s
      else if cmd = ''EXEC'' then
        (if args \<noteq> [] then refuse ''EXEC takes no arguments'' s
         else if cn_queue (conn_of i s) = None then refuse ''EXEC without MULTI'' s
         else execTransaction ev i s)
      else if cn_queue (conn_of i s) \<noteq> None then enqueueCommand i cmd args s
      else if cmd \<in> set AOF_COMMANDS then
        (case cache_command (ev_up ev) (ev_now ev) cmd args of
           Some m \<Rightarrow> andThen (runCacheMutation (ev_now ev) (ev_write ev) m) answer s
         | None \<Rightarrow> refuse ''unknown command'' s)
      else executeCommand ev i cmd args s)"

definition NOAUTH :: reply where
  "NOAUTH = RError ''NOAUTH Authentication required (send AUTH first)''"

definition SUBSCRIBER_ONLY :: reply where
  "SUBSCRIBER_ONLY = RError ''ERR only AUTH/SUBSCRIBE/UNSUBSCRIBE/PING/QUIT allowed in subscriber mode''"

definition error_reply :: "jserr \<Rightarrow> reply" where
  "error_reply e = RError (wireError e)"

definition end_conn :: "nat \<Rightarrow> server \<Rightarrow> server" where
  "end_conn i s = set_conn i ((conn_of i s)\<lparr>cn_closed := True\<rparr>) s"

definition reply_to :: "nat \<Rightarrow> reply \<Rightarrow> server \<Rightarrow> server" where
  "reply_to i r s = snd (writeReply i (Some r) s)"

text \<open>The result says whether the connection was closed.\<close>

definition finish :: "env \<Rightarrow> nat \<Rightarrow> result outcome \<Rightarrow> server \<Rightarrow> bool \<times> server" where
  "finish ev i r s =
     (let overBudget = (0 < cf_maxCommandMs (sv_config s) \<and> cf_maxCommandMs (sv_config s) < ev_elapsed ev) in
      case r of
        Inl e \<Rightarrow> (False, reply_to i (error_reply e) s)
      | Inr CloseConn \<Rightarrow> (True, end_conn i (reply_to i OK s))
      | Inr Silent \<Rightarrow> if overBudget then (True, end_conn i s) else (False, s)
      | Inr (Answer a) \<Rightarrow>
          let s' = reply_to i a s in if overBudget then (True, end_conn i s') else (False, s'))"

definition record_command :: "env \<Rightarrow> string \<Rightarrow> nat \<Rightarrow> server \<Rightarrow> server" where
  "record_command ev cmd argc s =
     s\<lparr>sv_slow := snd (slow_record cmd (Fin (ev_elapsed ev)) (Some argc) None (ev_now ev) (sv_slow s))\<rparr>"

definition persist_request :: "env \<Rightarrow> string \<Rightarrow> string list \<Rightarrow> reply handler" where
  "persist_request ev cmd args s =
     (case requireArgs args 0 (Some 1) of
        Inl e \<Rightarrow> (Inl e, s)
      | Inr _ \<Rightarrow>
          if args \<noteq> [] \<and> (case cf_snapshotPath (sv_config s) of None \<Rightarrow> True | Some p \<Rightarrow> ev_resolve ev (hd args) \<noteq> ev_resolve ev p)
          then throws (DbError AUTH_ERROR ''remote SAVE/LOAD may only use the configured snapshot path'') s
          else if cmd = ''SAVE''
          then andThen (server_save (ev_now ev) (ev_savedAt ev) (ev_later ev) (ev_save ev) (ev_between ev)) (\<lambda>_. returns OK) s
          else andThen (server_load (ev_now ev) (ev_write ev)) (\<lambda>n. returns (RSimple (''OK '' @ len_text n))) s)"

definition onRequest :: "env \<Rightarrow> nat \<Rightarrow> reply \<Rightarrow> server \<Rightarrow> bool \<times> server" where
  "onRequest ev i request s =
     (case requestArgv request of
        Inl e \<Rightarrow> (False, reply_to i (error_reply e) s)
      | Inr argv \<Rightarrow>
          let cmd = ev_up ev (hd argv); cn = conn_of i s in
          if \<not> cn_authed cn \<and> cmd \<noteq> ''AUTH'' \<and> cmd \<noteq> ''QUIT'' then (False, reply_to i NOAUTH s)
          else if cn_subMode cn \<and> cmd \<notin> {''SUBSCRIBE'', ''UNSUBSCRIBE'', ''PING'', ''QUIT'', ''AUTH''}
          then (False, reply_to i SUBSCRIBER_ONLY s)
          else (case (if cmd \<in> {''SAVE'', ''LOAD''} \<and> cn_queue cn = None then andThen (persist_request ev cmd (tl argv)) answer s
                      else dispatch ev i cmd (tl argv) s) of
                  (r, s1) \<Rightarrow> (case finish ev i r s1 of (b, s2) \<Rightarrow> (b, record_command ev cmd (length argv - 1) s2))))"

end
