(* ===== verification/Kv_Keys.thy ===== *)
theory Kv_Keys
  imports Aof_Mirror
begin

text \<open>
  Operations that give at most one key a new entry, the limits of the cache, and the keys an
  operation touches: what makes the patch of such an operation apply again.
\<close>

section \<open>Limits\<close>

definition in_limits :: "kv \<Rightarrow> bool" where
  "in_limits c \<longleftrightarrow> fits_list (kv_opts c) (entries c)"

text \<open>No key but \<open>k\<close> has another entry than before.\<close>

definition narrow :: "string \<Rightarrow> kv \<Rightarrow> kv \<Rightarrow> bool" where
  "narrow k c c' \<longleftrightarrow> (\<forall>j e. j \<noteq> k \<longrightarrow> kv_lookup j c' = Some e \<longrightarrow> kv_lookup j c = Some e) \<and> (in_limits c \<longrightarrow> in_limits c')"

definition narrow_op :: "string \<Rightarrow> 'a kvop \<Rightarrow> bool" where
  "narrow_op k m \<longleftrightarrow> (\<forall>c. kv_ok c \<longrightarrow> op_ok c (m c) (\<lambda>_. narrow k c))"

lemma narrow_refl: "narrow k c c"
  by (simp add: narrow_def)

lemma narrow_trans: "narrow k a b \<Longrightarrow> narrow k b c \<Longrightarrow> narrow k a c"
  by (simp add: narrow_def)

lemma in_limits_sub:
  assumes "kv_ok c" "kv_ok c'" "kv_opts c' = kv_opts c" "\<And>j e. kv_lookup j c' = Some e \<Longrightarrow> kv_lookup j c = Some e" "in_limits c"
  shows "in_limits c'"
  unfolding in_limits_def assms(3)
proof (rule fits_sub)
  show "map_of (entries c') \<subseteq>\<^sub>m map_of (entries c)" by (rule map_leI) (simp add: lookup_entries [symmetric] assms(4))
qed (use sized_entries [OF assms(1)] sized_entries [OF assms(2)] assms(5) in \<open>simp_all add: sized_def in_limits_def\<close>)

lemma narrow_sub:
  "kv_ok c \<Longrightarrow> track {} c c' \<Longrightarrow> kv_opts c' = kv_opts c \<Longrightarrow> (\<And>j e. kv_lookup j c' = Some e \<Longrightarrow> kv_lookup j c = Some e) \<Longrightarrow> narrow k c c'"
  using in_limits_sub [of c c'] track_ok [of "{}" c c'] by (auto simp: narrow_def)

text \<open>The shape of the entries behind a write of \<open>k\<close>: dropped, or stored as the newest.\<close>

lemma narrow_store:
  assumes "kv_ok c" "kv_opts c' = kv_opts c" "entries c' = trim (kv_opts c) (al_del k (entries c) @ [(k, e)])"
  shows "narrow k c c'"
proof -
  have d: "distinct_keys (al_del k (entries c) @ [(k, e)])" using kv_ok_distinct [OF assms(1)]
    by (auto simp: distinct_keys_def al_del_def distinct_map_filter)
  have "kv_lookup j c = Some x" if "j \<noteq> k" "kv_lookup j c' = Some x" for j x
    using trim_sub [OF _ d, of "kv_opts c" j x] that by (auto simp: lookup_entries assms(3) map_add_def split: option.splits)
  then show ?thesis by (simp add: narrow_def in_limits_def assms(2,3) trim_fits)
qed

lemma fits_al_del: "kv_ok c \<Longrightarrow> fits_list opts (entries c) \<Longrightarrow> fits_list opts (al_del k (entries c))"
  by (rule fits_sub [of _ "entries c"])
    (use sized_entries [of c] sized_dels [OF sized_entries, of c "[k]"] in \<open>auto simp: sized_def map_le_def map_of_dels [of "[k]", simplified]\<close>)

lemma narrow_drop:
  assumes "kv_ok c" "kv_opts c' = kv_opts c" "entries c' = al_del j (entries c) \<or> entries c' = entries c"
  shows "narrow k c c'"
  using assms(3) fits_al_del [OF assms(1)] by (auto simp: narrow_def in_limits_def assms(2) lookup_entries split: if_splits)

lemma narrow_set_expiry:
  assumes "kv_ok c" "kv_opts c' = kv_opts c" "kv_lookup k c = Some e" "entries c' = set_expiry k t e c"
  shows "narrow k c c'"
proof -
  have d: "distinct_keys (entries c)" by (rule kv_ok_distinct [OF assms(1)])
  have m: "map_of (entries c) k = Some e" using assms(3) by (simp add: lookup_entries)
  have l: "length (al_del k (entries c)) < length (entries c)"
    using m by (auto simp: al_del_def dest!: map_of_SomeD intro!: length_filter_less)
  have "fits_list (kv_opts c) (entries c')" if "fits_list (kv_opts c) (entries c)"
    using that l by (simp add: fits_list_def assms(4) set_expiry_def al_sum_del [OF d m])
  then show ?thesis
    by (auto simp: narrow_def in_limits_def assms(2,4) lookup_entries set_expiry_def map_add_def split: option.splits if_splits)
qed

section \<open>The operations\<close>

lemma narrow_ok: "(\<And>c. kv_ok c \<Longrightarrow> op_ok c (m c) (Q c)) \<Longrightarrow>
    (\<And>c r c'. kv_ok c \<Longrightarrow> track {} c c' \<Longrightarrow> kv_opts c' = kv_opts c \<Longrightarrow> Q c r c' \<Longrightarrow> narrow k c c') \<Longrightarrow> narrow_op k m"
  unfolding narrow_op_def by (blast intro: wp_mono)

lemma narrow_returns: "narrow_op k (returns a)"
  by (simp add: narrow_op_def track_refl narrow_refl)

lemma narrow_check: "narrow_op k (check f)"
  by (auto simp: narrow_op_def check_def wp_def track_refl narrow_refl evolves_refl split: sum.split)

lemma narrow_then:
  assumes "narrow_op k m" "\<And>a. narrow_op k (f a)"
  shows "narrow_op k (andThen m f)"
  unfolding narrow_op_def wp_andThen
proof (intro allI impI)
  fix c assume "kv_ok c"
  then have "op_ok c (m c) (\<lambda>_. narrow k c)" using assms(1) by (simp add: narrow_op_def)
  then show "wp c (m c) (\<lambda>a s. op_ok c (f a s) (\<lambda>_. narrow k c))"
  proof (rule wp_mono)
    fix a s assume s: "track {} c s \<and> kv_opts s = kv_opts c \<and> narrow k c s"
    have "kv_ok s" using s track_ok by blast
    then have "op_ok s (f a s) (\<lambda>_. narrow k s)" using assms(2) [of a] by (simp add: narrow_op_def)
    then show "op_ok c (f a s) (\<lambda>_. narrow k c)"
      by (rule wp_rebase [OF conjunct1 [OF s]]) (use s in \<open>auto intro: narrow_trans\<close>)
  qed
qed

lemma narrow_if: "narrow_op k x \<Longrightarrow> narrow_op k y \<Longrightarrow> narrow_op k (if b then x else y)"
  by simp

lemma narrow_option: "narrow_op k x \<Longrightarrow> (\<And>t. narrow_op k (f t)) \<Longrightarrow> narrow_op k (case v of None \<Rightarrow> x | Some t \<Rightarrow> f t)"
  by (cases v) auto

lemma narrow_set: "narrow_op k (kv_set now k v t)"
  by (rule narrow_ok [OF kv_set_wp]) (auto intro: narrow_store narrow_drop split: if_splits)

lemma narrow_del: "narrow_op k (kv_del now j)"
  by (rule narrow_ok [OF kv_del_wp]) (auto intro: narrow_drop)

lemma narrow_clearPrefix: "narrow_op k (kv_clearPrefix p)"
  by (rule narrow_ok [OF kv_clearPrefix_wp]) (auto intro!: narrow_sub map_of_distinct_in kv_ok_distinct simp: lookup_entries dest!: map_of_SomeD)

lemma narrow_expiration: "narrow_op k (kv_expiration now j)"
  by (rule narrow_ok [OF kv_expiration_wp]) (auto intro!: narrow_drop simp: lazily_def)

lemma live_Some: "live now k c = Some e \<Longrightarrow> kv_lookup k c = Some e"
  by (auto simp: live_def split: option.splits if_splits)

lemma narrow_expire: "narrow_op k (kv_expire now k t)"
  by (rule narrow_ok [OF kv_expire_wp]) (auto intro: narrow_drop narrow_set_expiry live_Some split: option.splits)

lemma narrow_persist: "narrow_op k (kv_persist now k)"
  by (rule narrow_ok [OF kv_persist_wp]) (auto intro: narrow_drop narrow_set_expiry live_Some split: option.splits)

lemma narrow_incr: "narrow_op k (kv_incr now now k d)" "narrow_op k (kv_decr now now k d)"
  unfolding kv_decr_def by (rule narrow_ok [OF kv_incr_wp]; auto intro: narrow_store)+

lemma narrow_cas: "narrow_op k (kv_cas now k x v t)"
  by (rule narrow_ok [OF kv_cas_wp]) (auto simp: cas_post_def intro: narrow_store narrow_drop split: if_splits)

lemmas narrow_intros = narrow_if narrow_option narrow_returns narrow_check narrow_then narrow_set narrow_del narrow_clearPrefix
  narrow_expiration narrow_expire narrow_persist narrow_incr narrow_cas

section \<open>The patch of such an operation fits\<close>

theorem narrow_fits:
  assumes ok: "kv_ok c" "kv_ok c'" "kv_opts c' = kv_opts c" and d: "difference t c c' es ds" and n: "narrow k c c'" "in_limits c"
  shows "fits_each (kv_opts c) t es (fold al_del ds (entries c))"
proof -
  let ?I = "\<lambda>l. sized l \<and> (\<forall>j x. j \<noteq> k \<longrightarrow> map_of l j = Some x \<longrightarrow> kv_lookup j c' = Some x) \<and>
    map_of l k \<in> {None, kv_lookup k c, kv_lookup k c'}"
  have lim: "fits_list (kv_opts c) (entries c)" "fits_list (kv_opts c) (entries c')"
    using n ok(3) by (simp_all add: narrow_def in_limits_def)
  have old: "kv_lookup j c = Some x" if "j \<noteq> k" "kv_lookup j c' = Some x" for j x using n(1) that by (simp add: narrow_def)
  have new: "kv_lookup (s_key e) c' = Some (entry_of e)" if "e \<in> set es" for e using d that by (simp add: difference_def collected_def)
  have fit: "fits_list (kv_opts c) l" if I: "?I l" for l
  proof -
    have "map_of l \<subseteq>\<^sub>m map_of (entries c) \<or> map_of l \<subseteq>\<^sub>m map_of (entries c')"
    proof (cases "map_of l k = kv_lookup k c' \<or> map_of l k = None")
      case True
      then have "map_of l \<subseteq>\<^sub>m map_of (entries c')"
        using I by (intro map_leI) (metis lookup_entries option.distinct(1))
      then show ?thesis ..
    next
      case False
      then have "map_of l \<subseteq>\<^sub>m map_of (entries c)"
        using I old by (intro map_leI) (metis insert_iff lookup_entries singletonD)
      then show ?thesis ..
    qed
    then show ?thesis
      using fits_sub [of l "entries c"] fits_sub [of l "entries c'"] I sized_entries [OF ok(1)] sized_entries [OF ok(2)] lim
      by (auto simp: sized_def)
  qed
  have step: "?I (put t e l)" if "e \<in> set es" "?I l" for e l
    using sized_put [of l t e] new [OF that(1)] that(2) by (auto simp: map_of_put)
  have all: "fits_each (kv_opts c) t es' l" if "set es' \<subseteq> set es" "?I l" for es' l
    using that
  proof (induction es' arbitrary: l)
    case (Cons e es')
    then have "?I (put t e l)" by (intro step) auto
    with Cons fit [OF this] show ?case by simp
  qed simp
  have "?I (fold al_del ds (entries c))"
  proof (intro conjI allI impI)
    show "sized (fold al_del ds (entries c))" by (rule sized_dels [OF sized_entries [OF ok(1)]])
    show "map_of (fold al_del ds (entries c)) k \<in> {None, kv_lookup k c, kv_lookup k c'}" by (simp add: map_of_dels lookup_entries)
    fix j x assume j: "j \<noteq> k" "map_of (fold al_del ds (entries c)) j = Some x"
    then have l: "j \<notin> set ds" "kv_lookup j c = Some x" by (simp_all add: map_of_dels lookup_entries split: if_splits)
    show "kv_lookup j c' = Some x"
    proof (cases "j \<in> s_key ` set es")
      case True
      then show ?thesis using new old [OF j(1)] l(2) by auto
    next
      case False
      with d l show ?thesis by (simp add: difference_def)
    qed
  qed
  from all [OF order.refl this] show ?thesis .
qed

text \<open>
  Every key that an operation stores, or writes down as changed, has passed \<open>assertKeyFits\<close>.
\<close>

definition keys_ok :: "kv_options \<Rightarrow> kv \<Rightarrow> bool" where
  "keys_ok opts c \<longleftrightarrow> kv_opts c = opts \<and> (\<forall>p \<in> set (entries c). key_fits opts (fst p)) \<and>
     (\<forall>ks \<in> set (kv_changed c). \<forall>k \<in> set ks. key_fits opts k)"

lemma keys_ok_lookup: "keys_ok opts c \<Longrightarrow> kv_lookup k c = Some e \<Longrightarrow> key_fits opts k"
  by (auto simp: keys_ok_def lookup_entries dest!: map_of_SomeD)

section \<open>Rules\<close>

lemma keeps_run: "keeps (keys_ok opts) m \<Longrightarrow> keys_ok opts c \<Longrightarrow> keys_ok opts (snd (m c))"
  by (rule keepsD)

lemma keeps_check: "keeps (keys_ok opts) (check f)"
  by (simp add: keeps_def check_def)

lemma keeps_if: "keeps (keys_ok opts) x \<Longrightarrow> keeps (keys_ok opts) y \<Longrightarrow> keeps (keys_ok opts) (if b then x else y)"
  by simp

lemma keeps_option: "keeps (keys_ok opts) x \<Longrightarrow> (\<And>t. keeps (keys_ok opts) (f t)) \<Longrightarrow> keeps (keys_ok opts) (case v of None \<Rightarrow> x | Some t \<Rightarrow> f t)"
  by (cases v) auto

lemma keeps_each: "(\<And>x. x \<in> set xs \<Longrightarrow> keeps (keys_ok opts) (f x)) \<Longrightarrow> keeps (keys_ok opts) (for_each f xs)"
  by (induction xs) (auto intro: keeps_returns keeps_andThen)

lemma keeps_map_each: "(\<And>x. keeps (keys_ok opts) (f x)) \<Longrightarrow> keeps (keys_ok opts) (map_each f xs)"
  by (induction xs) (auto intro!: keeps_returns keeps_andThen)

section \<open>Updates\<close>

lemma keys_ok_same: "keys_ok opts c \<Longrightarrow> kv_map c' = kv_map c \<Longrightarrow> kv_opts c' = kv_opts c \<Longrightarrow> kv_changed c' = kv_changed c \<Longrightarrow> keys_ok opts c'"
  by (simp add: keys_ok_def)

lemma keys_ok_stats [simp]:
  "keys_ok opts (add_bytes n c) = keys_ok opts c" "keys_ok opts (add_hit c) = keys_ok opts c" "keys_ok opts (add_miss c) = keys_ok opts c"
  "keys_ok opts (add_eviction c) = keys_ok opts c" "keys_ok opts (add_expiry c) = keys_ok opts c"
  by (simp_all add: keys_ok_def add_bytes_def add_hit_def add_miss_def add_eviction_def add_expiry_def)

lemma keys_ok_remove: "keys_ok opts c \<Longrightarrow> keys_ok opts (remove_entry k e c)"
  by (auto simp: remove_entry_def map_delete_def add_bytes_def am_del_def keys_ok_def set_al_del)

lemma al_set_in: "p \<in> set (al_set k v l) \<Longrightarrow> fst p = k \<or> p \<in> set l"
  by (induction l) (auto split: if_splits)

lemma keys_ok_put: "keys_ok opts c \<Longrightarrow> key_fits opts k \<Longrightarrow> keys_ok opts (put_entry k e c)"
  by (auto simp: put_entry_def map_set_def add_bytes_def keys_ok_def am_set_def dest!: al_set_in)

lemma keys_ok_reinsert: "keys_ok opts c \<Longrightarrow> key_fits opts k \<Longrightarrow> keys_ok opts (reinsert k e c)"
  by (auto simp: reinsert_def map_set_def map_delete_def keys_ok_def am_set_def am_del_def set_al_del dest!: al_set_in)

lemma prune_loop_same: "kv_map (prune_loop ks c) = kv_map c \<and> kv_opts (prune_loop ks c) = kv_opts c \<and> kv_changed (prune_loop ks c) = kv_changed c"
  by (induction ks c rule: prune_loop.induct) (simp_all add: Let_def)

lemma keeps_bump: "key_fits opts k \<Longrightarrow> keeps (keys_ok opts) (bumpVersion k)"
  by (auto simp: keeps_def bumpVersion_def Let_def keys_ok_def prune_loop_same add_key_def)

lemma keys_ok_notify: "keys_ok opts c \<Longrightarrow> keys_ok opts (notifyExpired k c)"
  by (auto simp: keys_ok_def notifyExpired_def split: list.split)

lemma keeps_removeExpired: "key_fits opts k \<Longrightarrow> keeps (keys_ok opts) (removeExpired k e)"
  unfolding removeExpired_def by (intro keeps_andThen keeps_modify keeps_bump) (simp_all add: keys_ok_remove keys_ok_notify)

lemma keeps_evict: "keeps (keys_ok opts) (evict_loop n now)"
proof (induction n)
  case (Suc n)
  show ?case
  proof (rule keepsI)
    fix c assume c: "keys_ok opts c"
    have "keys_ok opts (snd (andThen (removeExpired k e) (\<lambda>_. evict_loop n now) c))"
      "keys_ok opts (snd (andThen (modify (\<lambda>c. add_eviction (remove_entry k e c))) (\<lambda>_. andThen (bumpVersion k) (\<lambda>_. evict_loop n now)) c))"
      if "entries c = (k, e) # l" for k e l
      by (intro keeps_run [OF _ c] keeps_andThen keeps_modify keeps_removeExpired keeps_bump Suc; use that c in \<open>simp add: keys_ok_def [of opts c] keys_ok_remove\<close>)+
    with c show "keys_ok opts (snd (evict_loop (Suc n) now c))" by (auto split: list.split)
  qed
qed (simp add: keeps_def)

lemma keeps_evictIfNeeded: "keeps (keys_ok opts) (evictIfNeeded now)"
  by (rule keepsI) (simp add: evictIfNeeded_def keeps_run [OF keeps_evict])

section \<open>Operations\<close>

text \<open>The same rules on the state itself, for operations that look at it.\<close>

lemma keys_then: "keys_ok opts (snd (m c)) \<Longrightarrow> (\<And>a c'. m c = (Inr a, c') \<Longrightarrow> keys_ok opts c' \<Longrightarrow> keys_ok opts (snd (f a c'))) \<Longrightarrow>
    keys_ok opts (snd (andThen m f c))"
  by (cases "m c"; cases "fst (m c)") (auto simp: andThen_def)

lemma keys_short: "length k \<le> o_maxKeyBytes (kv_opts c) \<Longrightarrow> keys_ok opts c \<Longrightarrow> key_fits opts k"
  by (auto simp: keys_ok_def key_fits_def)

lemma keys_modify: "keys_ok opts (f c) \<Longrightarrow> (\<And>c'. keys_ok opts c' \<Longrightarrow> keys_ok opts (snd (g () c'))) \<Longrightarrow> keys_ok opts (snd (andThen (modify f) g c))"
  by (auto simp: andThen_def modify_def)

lemma keys_last: "keys_ok opts c \<Longrightarrow> keys_ok opts (snd (returns a c))" "keys_ok opts (f c) \<Longrightarrow> keys_ok opts (snd (modify f c))"
    "keys_ok opts c \<Longrightarrow> keys_ok opts (snd (check g c))"
  by (simp_all add: modify_def check_def)

lemmas keys_steps = keys_modify keys_then keys_last keys_ok_remove keys_ok_put keys_ok_reinsert
  keeps_run [OF keeps_bump] keeps_run [OF keeps_removeExpired] keeps_run [OF keeps_evictIfNeeded]

lemmas keys_facts = check_def assertKeyFits_Inr assertValueFits_Inr

lemma keeps_live: "keeps (keys_ok opts) (live_entry now k)"
  by (rule keepsI) (auto simp: live_entry_def intro!: keys_steps split: option.split intro: keys_ok_lookup)

lemma keeps_get: "keeps (keys_ok opts) (kv_get now k)"
  by (rule keepsI) (auto simp: kv_get_def keys_facts intro!: keys_steps split: option.split intro: keys_short)

lemma keeps_getVersion: "keeps (keys_ok opts) (kv_getVersion now k)"
  by (rule keepsI) (auto simp: kv_getVersion_def keys_facts intro!: keys_steps split: option.split intro: keys_short)

lemma keeps_setOwned: "keeps (keys_ok opts) (setOwned now k v t r)"
  by (rule keepsI) (auto simp: setOwned_def keys_facts intro!: keys_steps split: option.split intro: keys_short)

lemma keeps_set: "keeps (keys_ok opts) (kv_set now k v ttl)"
  unfolding kv_set_def by (intro keeps_andThen keeps_check keeps_setOwned)

lemma keeps_del: "keeps (keys_ok opts) (kv_del now k)"
  by (rule keepsI) (auto simp: kv_del_def keys_facts intro!: keys_steps split: option.split intro: keys_short)

lemma keeps_clear_key: "key_fits opts k \<Longrightarrow> keeps (keys_ok opts) (clear_key k)"
  by (rule keepsI) (auto simp: clear_key_def intro!: keys_steps split: option.split)

lemma keeps_clearPrefix: "keeps (keys_ok opts) (kv_clearPrefix p)"
proof (rule keepsI)
  fix c assume c: "keys_ok opts c"
  have "keeps (keys_ok opts) (for_each clear_key (filter (in_prefix p) (map fst (entries c'))))" if "keys_ok opts c'" for c'
    using that by (intro keeps_each keeps_clear_key) (auto simp: keys_ok_def)
  with c show "keys_ok opts (snd (kv_clearPrefix p c))"
    by (auto simp: kv_clearPrefix_def Let_def keys_facts intro!: keys_steps intro: keeps_run)
qed

lemma keeps_mset: "keeps (keys_ok opts) (kv_mset now es)"
  unfolding kv_mset_def mset_check_def mset_put_def
  by (intro keeps_andThen keeps_map_each keeps_each keeps_check keeps_returns) (auto intro: keeps_andThen keeps_setOwned keeps_returns)

lemma keeps_incr: "keeps (keys_ok opts) (kv_incr now later k d)" "keeps (keys_ok opts) (kv_decr now later k d)"
proof -
  show a: "keeps (keys_ok opts) (kv_incr now later k d)" for d
    by (rule keepsI) (auto simp: kv_incr_def incr_base_def incr_store_def keys_facts
        intro!: keys_steps split: option.split json.split prod.split intro: keys_short)
  show "keeps (keys_ok opts) (kv_decr now later k d)" unfolding kv_decr_def by (rule a)
qed

lemma keeps_guard:
  assumes "key_fits opts k \<Longrightarrow> keeps (keys_ok opts) (f ())"
  shows "keeps (keys_ok opts) (andThen (check (assertKeyFits k)) f)"
proof (rule keepsI, rule keys_then)
  fix c a c' assume c: "keys_ok opts c" and g: "check (assertKeyFits k) c = (Inr a, c')"
  then have "key_fits opts k" "c' = c" by (auto simp: keys_facts intro: keys_short)
  with assms c show "keys_ok opts (snd (f a c'))" by (simp add: keeps_run)
qed (simp add: check_def)

lemma keeps_cas: "keeps (keys_ok opts) (kv_cas now k x v t)"
proof -
  have "keeps (keys_ok opts) (cas_store now k cur w n e)" if k: "key_fits opts k" for cur w n e
    by (rule keepsI) (auto simp: cas_store_def intro!: keys_steps k split: option.split)
  then have "keeps (keys_ok opts) (cas_compare now k y w t n cur)" if "key_fits opts k" for y w n cur
    using that unfolding cas_compare_def by (intro keeps_if keeps_andThen keeps_check keeps_returns)
  then show ?thesis
    unfolding kv_cas_def cas_current_live by (intro keeps_guard keeps_andThen keeps_check keeps_live)
qed

lemma keeps_expiration: "keeps (keys_ok opts) (kv_expiration now k)" "keeps (keys_ok opts) (kv_ttl now k)"
  unfolding kv_expiration_def kv_ttl_def
  by (intro keeps_andThen keeps_check keeps_live keeps_returns keeps_option keeps_modify; simp)+

lemma keeps_expire: "keeps (keys_ok opts) (kv_expire now k t)"
  by (rule keepsI) (auto simp: kv_expire_def keys_facts intro!: keys_steps keeps_run [OF keeps_live] split: option.split intro: keys_short)

lemma keeps_persist: "keeps (keys_ok opts) (kv_persist now k)"
  by (rule keepsI) (auto simp: kv_persist_def keys_facts intro!: keys_steps keeps_run [OF keeps_live] split: option.split intro: keys_short)

lemmas keeps_ops = keeps_andThen keeps_if keeps_option keeps_returns keeps_check keeps_each keeps_map_each keeps_get keeps_getVersion keeps_set
  keeps_del keeps_clearPrefix keeps_mset keeps_incr keeps_cas keeps_expiration keeps_expire keeps_persist

end
