(* ===== verification/Server_Facts.thy ===== *)
theory Server_Facts
  imports Server_Dispatch Kv_Keys
begin

text \<open>
  The cache commands of the server one by one: they keep the cache consistent and its keys
  short, the commands on one key give no other key a new entry, and the reads drop nothing but
  expired entries.
\<close>

section \<open>Consistency\<close>

lemma steady_check: "steady_op (check f)"
  by (auto simp: steady_op_def check_def wp_def evolvesI split: sum.split)

lemma steady_throws: "steady_op (throws e)"
  by (simp add: steady_op_def evolvesI)

lemma steady_map_each: "(\<And>x. steady_op (f x)) \<Longrightarrow> steady_op (map_each f xs)"
  by (induction xs) (auto intro: steady_returns steady_then)

lemma steady_get: "steady_op (kv_get now k)" by (rule steady_ok [OF kv_get_wp])
lemma steady_getVersion: "steady_op (kv_getVersion now k)" by (rule steady_ok [OF kv_getVersion_wp])
lemma steady_mset: "steady_op (kv_mset now es)" by (rule steady_ok [OF kv_mset_wp])
lemma steady_cas: "steady_op (kv_cas now k x v t)" by (rule steady_ok [OF kv_cas_wp])
lemma steady_ttl: "steady_op (kv_ttl now k)" by (rule steady_ok [OF kv_ttl_wp])
lemma steady_expiration: "steady_op (kv_expiration now k)" by (rule steady_ok [OF kv_expiration_wp])
lemma steady_decr: "steady_op (kv_decr now now k d)" unfolding kv_decr_def by (rule steady_incr)

lemmas steady_ops = steady_intros steady_check steady_throws steady_map_each steady_get steady_getVersion steady_mset steady_cas
  steady_ttl steady_expiration steady_decr

lemmas command_defs = cmd_get_def cmd_set_def cmd_mset_def cmd_mget_def cmd_del_def cmd_clear_def cmd_ttl_def cmd_expire_def cmd_persist_def
  cmd_incr_def cmd_cas_def quiet_def announce_def aofExpiry_def

lemma steady_mget: "steady_op (mget_items now ks n)"
  by (induction ks arbitrary: n; unfold mget_items.simps; intro steady_ops; simp?)

lemma steady_dels: "steady_op (del_keys now ks)"
  by (induction ks; unfold del_keys.simps; intro steady_ops; simp?)

lemma steady_command: "cache_command up now cmd args = Some m \<Longrightarrow> steady_op m"
  unfolding cache_command_def command_defs
  by (auto split: if_splits intro!: steady_ops steady_mget steady_dels)

section \<open>Keys\<close>

lemma keeps_mget: "keeps (keys_ok opts) (mget_items now ks n)"
  by (induction ks arbitrary: n; unfold mget_items.simps; intro keeps_ops keeps_throws; simp?)

lemma keeps_dels: "keeps (keys_ok opts) (del_keys now ks)"
  by (induction ks; unfold del_keys.simps; intro keeps_ops; simp?)

lemma keeps_command: "cache_command up now cmd args = Some m \<Longrightarrow> keeps (keys_ok opts) m"
  unfolding cache_command_def command_defs
  by (auto split: if_splits intro!: keeps_ops keeps_throws keeps_mget keeps_dels)

section \<open>One key\<close>

definition SINGLE_KEY :: "string list" where
  "SINGLE_KEY = [''SET'', ''DEL'', ''CLEAR'', ''EXPIRE'', ''PERSIST'', ''INCR'', ''DECR'', ''CAS'']"

lemma narrow_throws: "narrow_op k (throws e)"
  by (simp add: narrow_op_def evolves_refl)

lemma narrow_dels: "narrow_op k (del_keys now ks)"
  by (induction ks; unfold del_keys.simps; intro narrow_intros; simp?)

lemma narrow_command: "cache_command up now cmd args = Some m \<Longrightarrow> cmd \<in> set SINGLE_KEY \<Longrightarrow> narrow_op (hd args) m"
  unfolding cache_command_def command_defs SINGLE_KEY_def
  by (auto split: if_splits intro!: narrow_intros narrow_throws narrow_dels)

section \<open>Reads\<close>

definition only_expires :: "rat \<Rightarrow> kv \<Rightarrow> kv \<Rightarrow> bool" where
  "only_expires now c0 c \<longleftrightarrow> kv_opts c = kv_opts c0 \<and> (\<forall>k. kv_lookup k c = kv_lookup k c0 \<or> (live now k c0 = None \<and> kv_lookup k c = None))"

lemma idle_refl: "only_expires now c c"
  by (simp add: only_expires_def)

lemma idle_same: "only_expires now c0 c \<Longrightarrow> kv_map c' = kv_map c \<Longrightarrow> kv_opts c' = kv_opts c \<Longrightarrow> only_expires now c0 c'"
  by (simp add: only_expires_def kv_lookup_def)

lemma idle_removed:
  assumes "only_expires now c0 c" "kv_lookup k c = Some e" "isExpired e now"
  shows "only_expires now c0 (remove_entry k e c)"
proof -
  have "live now k c0 = None" using assms(1)[unfolded only_expires_def, THEN conjunct2, THEN spec, of k] assms(2,3) by (auto simp: live_def dest: sym)
  with assms(1) show ?thesis
    by (auto simp: only_expires_def remove_entry_def map_delete_def add_bytes_def kv_lookup_def am_del_def)
qed

lemma idle_bump: "only_expires now c0 c \<Longrightarrow> only_expires now c0 (snd (bumpVersion k c))"
  by (rule idle_same [of now c0 c]) (simp_all add: bumpVersion_def Let_def prune_loop_same)

lemma idle_expired:
  assumes "only_expires now c0 c" "kv_lookup k c = Some e" "isExpired e now"
  shows "only_expires now c0 (snd (removeExpired k e c))"
proof -
  let ?c = "add_expiry (remove_entry k e c)"
  have c: "only_expires now c0 ?c" by (rule idle_same [OF idle_removed [OF assms]]) (simp_all add: add_expiry_def)
  have n: "only_expires now c0 (notifyExpired k c')" if "only_expires now c0 c'" for c'
    by (rule idle_same [OF that]) (simp_all add: notifyExpired_def split: list.split)
  show ?thesis
    using idle_bump [OF c, of k] n by (cases "bumpVersion k ?c"; cases "fst (bumpVersion k ?c)") (auto simp: removeExpired_def andThen_def)
qed

lemma idle_reinsert:
  assumes "only_expires now c0 c" "kv_lookup k c = Some e"
  shows "only_expires now c0 (reinsert k e c)"
proof -
  have "kv_lookup j (reinsert k e c) = kv_lookup j c" for j
    using assms(2) by (auto simp: reinsert_def map_set_def map_delete_def kv_lookup_def am_set_def am_del_def)
  moreover have "kv_opts (reinsert k e c) = kv_opts c" by (simp add: reinsert_def map_set_def map_delete_def)
  ultimately show ?thesis using assms(1) by (simp add: only_expires_def)
qed

lemma idle_stats [simp]: "only_expires now c0 (add_hit c) = only_expires now c0 c" "only_expires now c0 (add_miss c) = only_expires now c0 c"
  by (simp_all add: only_expires_def kv_lookup_def add_hit_def add_miss_def)

lemma idle_then: "only_expires now c0 (snd (m c)) \<Longrightarrow> (\<And>a c'. only_expires now c0 c' \<Longrightarrow> only_expires now c0 (snd (f a c'))) \<Longrightarrow> only_expires now c0 (snd (andThen m f c))"
  by (cases "m c"; cases "fst (m c)") (auto simp: andThen_def)

lemma idle_check: "keeps (only_expires now c0) (check f)"
  by (simp add: keeps_def check_def)

lemma idle_live: "keeps (only_expires now c0) (live_entry now k)"
  by (rule keepsI) (auto simp: live_entry_def intro!: idle_then idle_expired split: option.split)

lemma idle_get: "keeps (only_expires now c0) (kv_get now k)"
  unfolding kv_get_def
  by (intro keeps_andThen idle_check keepsI) (auto intro!: idle_then idle_expired idle_reinsert split: option.split)

lemma idle_getVersion: "keeps (only_expires now c0) (kv_getVersion now k)"
  unfolding kv_getVersion_def
  by (intro keeps_andThen idle_check keepsI) (auto intro!: idle_then idle_expired split: option.split)

lemma idle_ttl: "keeps (only_expires now c0) (kv_ttl now k)"
  unfolding kv_ttl_def
  by (intro keeps_andThen idle_check idle_live) (auto intro!: inv_intros split: option.split)

lemma idle_mget: "keeps (only_expires now c0) (mget_items now ks n)"
  by (induction ks arbitrary: n; unfold mget_items.simps) (auto simp del: returns_apply intro!: inv_intros idle_check idle_get)

lemma idle_command:
  assumes "cache_command up now cmd args = Some m" "cmd \<notin> set AOF_COMMANDS"
  shows "keeps (only_expires now c0) m"
  using assms unfolding cache_command_def cmd_get_def cmd_mget_def cmd_ttl_def quiet_def AOF_COMMANDS_def
  by (auto split: if_splits intro!: inv_intros idle_check idle_get idle_ttl idle_mget)

lemma idle_versions: "keeps (only_expires now c0) (versions_unchanged now ws)"
  by (induction now ws rule: versions_unchanged.induct; unfold versions_unchanged.simps)
    (auto simp del: returns_apply intro!: inv_intros idle_getVersion)

lemma steady_versions: "steady_op (versions_unchanged now ws)"
  by (induction now ws rule: versions_unchanged.induct; unfold versions_unchanged.simps; intro steady_ops; simp?)

end
