(* ===== verification/Server_Durable.thy ===== *)
theory Server_Durable
  imports Server_Facts
begin

text \<open>
  Durability: the file of a server's log holds records whose replay, at any later time, ends in
  a cache with exactly the entries that are still live in the served one. Every mutation keeps
  this: it writes its record and changes the cache, or changes neither.
\<close>

section \<open>What recovery restores\<close>

text \<open>
  The operations replayed at a time \<open>t'\<close> from a cache that the start at that time gives: an empty
  one, or one loaded from a snapshot. The only way for this to fail is that the counter of
  changes is used up.
\<close>

definition recovers :: "(rat \<Rightarrow> kv \<Rightarrow> bool) \<Rightarrow> rat \<Rightarrow> json list \<Rightarrow> kv \<Rightarrow> bool" where
  "recovers start t ops c \<longleftrightarrow> (\<forall>t' \<ge> t. \<forall>c0. start t' c0 \<longrightarrow> (case apply_ops t' ops c0 of
     (_, Some _, s) \<Rightarrow> exhausted s
   | (k, None, s) \<Rightarrow> k = length ops \<and> mirror t' s c))"

lemma recoversD:
  assumes "recovers start t ops c" "t \<le> t'" "start t' c0" "apply_ops t' ops c0 = (k, e, s)"
  shows "(e \<noteq> None \<and> exhausted s) \<or> (e = None \<and> k = length ops \<and> mirror t' s c)"
  using assms(1) [unfolded recovers_def, rule_format, OF assms(2,3)] assms(4) by (cases e) simp_all

lemma apply_ops_snoc:
  "apply_ops t (ops @ [op]) c =
     (case apply_ops t ops c of
        (k, Some e, s) \<Rightarrow> (k, Some e, s)
      | (k, None, s) \<Rightarrow> (case atomic (applyAofOp t op) s of (Inl e, s') \<Rightarrow> (k, Some e, s') | (Inr _, s') \<Rightarrow> (Suc k, None, s')))"
  by (induction ops arbitrary: c) (auto split: prod.split sum.split option.split)

lemma recovers_start:
  assumes "\<And>t' c0. t \<le> t' \<Longrightarrow> start t' c0 \<Longrightarrow> mirror t' c0 c"
  shows "recovers start t [] c"
  using assms by (simp add: recovers_def)

lemma mirror_empty: "kv_ok c \<Longrightarrow> entries c = [] \<Longrightarrow> mirror t c c"
  by (simp add: mirror_def live_def lookup_entries)

lemma recovers_later:
  assumes "recovers start t ops c" "kv_opts c' = kv_opts c" "t \<le> t1"
    and "\<And>k t'. t1 \<le> t' \<Longrightarrow> live t' k c' = live t' k c"
  shows "recovers start t1 ops c'"
  unfolding recovers_def
proof (intro allI impI)
  fix t' c0 assume t': "t1 \<le> t'" "start t' c0"
  obtain k e s where a: "apply_ops t' ops c0 = (k, e, s)" by (metis prod_cases3)
  have "mirror t' s c'" if "mirror t' s c" by (rule mirror_same [OF that assms(2) assms(4) [OF t'(1)]])
  then show "case apply_ops t' ops c0 of (_, Some _, s) \<Rightarrow> exhausted s | (k, None, s) \<Rightarrow> k = length ops \<and> mirror t' s c'"
    using recoversD [OF assms(1) order.trans [OF assms(3) t'(1)] t'(2) a] by (auto simp: a)
qed

lemma recovers_patch:
  assumes r: "recovers start t ops c" and ok: "kv_ok c" "kv_ok c'" "kv_opts c' = kv_opts c" and d: "difference t1 c c' es ds"
    and t: "t \<le> t1" and keys: "\<forall>k \<in> set ds. key_fits (kv_opts c) k"
    and fits: "fits_each (kv_opts c) t1 es (fold al_del ds (entries c))"
  shows "recovers start t1 (ops @ [patch_op es ds]) c'"
  unfolding recovers_def
proof (intro allI impI)
  fix t' c0 assume t': "t1 \<le> t'" and st: "start t' c0"
  obtain k x s where a: "apply_ops t' ops c0 = (k, x, s)" by (metis prod_cases3)
  have now: "(x \<noteq> None \<and> exhausted s) \<or> (x = None \<and> k = length ops \<and> mirror t' s c)"
    by (rule recoversD [OF r order.trans [OF t t'] st a])
  show "case apply_ops t' (ops @ [patch_op es ds]) c0 of (_, Some _, s) \<Rightarrow> exhausted s
      | (k, None, s) \<Rightarrow> k = length (ops @ [patch_op es ds]) \<and> mirror t' s c'"
  proof (cases x)
    case (Some e)
    with now show ?thesis by (simp add: apply_ops_snoc a)
  next
    case None
    then have m: "k = length ops" "mirror t' s c" using now by simp_all
    note s = mirror_patch [OF m(2) ok d t' keys fits]
    show ?thesis
    proof (cases "atomic (applyAofOp t' (patch_op es ds)) s")
      case (Pair r s')
      show ?thesis
      proof (cases r)
        case (Inl e)
        then show ?thesis using s by (simp add: apply_ops_snoc a None Pair sure_def)
      next
        case (Inr u)
        then have s': "kv_ok s'" "kv_opts s' = kv_opts s" "\<forall>k. kv_lookup k s' = live t' k c'"
          using s track_ok [of "{}" s s'] by (simp_all add: Pair sure_def)
        then have "mirror t' s' c'" using m(2) ok(3) by (simp add: mirror_def)
        with Inr show ?thesis by (simp add: apply_ops_snoc a None Pair m(1))
      qed
    qed
  qed
qed

section \<open>Appending\<close>

definition disk_text :: "aof_log \<Rightarrow> string" where
  "disk_text a = (case al_disk a of Some b \<Rightarrow> b | None \<Rightarrow> [])"

lemma append_cases:
  assumes "al_path a \<noteq> None"
  obtains "aof_append op flt a = (Inr (), with_record (al_lastSeq a + 1) (disk_text a @ rec_text (al_lastSeq a + 1, op) @ [newline]) a)"
      "al_recovery a \<noteq> Corrupt"
  | e where "aof_append op flt a = (Inl e, a)"
  | e k where "aof_append op flt a = (Inl e, with_torn (disk_text a @ take k (rec_text (al_lastSeq a + 1, op) @ [newline])) a)"
      "al_recovery a \<noteq> Corrupt"
proof -
  let ?line = "rec_text (al_lastSeq a + 1, op) @ [newline]"
  obtain f where p: "al_path a = Some f" using assms by blast
  consider "al_recovery a = Corrupt \<or> (\<exists>e. validateAofOp op = Inl e) \<or> of_nat (al_lastSeq a) \<ge> max_safe \<or> length ?line > max_record_bytes"
    | "al_recovery a \<noteq> Corrupt" "validateAofOp op = Inr ()" "\<not> of_nat (al_lastSeq a) \<ge> max_safe" "\<not> length ?line > max_record_bytes"
    by (cases "validateAofOp op") auto
  then show ?thesis
  proof cases
    case 1
    then have "\<exists>e. aof_append op flt a = (Inl e, a)"
      using p by (auto simp: aof_append_def record_line_def rec_text_def Let_def split: sum.split)
    then show ?thesis using that(2) by blast
  next
    case 2
    have w: "aof_append op flt a = (case flt of
        Some k \<Rightarrow> (Inl (PlainError ''write failed''), with_torn (disk_text a @ take k ?line) a)
      | None \<Rightarrow> (Inr (), with_record (al_lastSeq a + 1) (disk_text a @ ?line) a))"
      unfolding aof_append_def using p 2
      by (simp add: record_line_def rec_text_def disk_text_def with_record_def with_torn_def Let_def split: option.split)
    show ?thesis
    proof (cases flt)
      case None
      with w 2(1) that(1) show ?thesis by simp
    next
      case (Some k)
      with w 2(1) that(3) show ?thesis by simp
    qed
  qed
qed

section \<open>The server and its file\<close>

text \<open>
  What a recovery starts from, the number of the last record that a snapshot covers, and the
  covered records that are still in the file.
\<close>

record origin =
  og_start :: "rat \<Rightarrow> kv \<Rightarrow> bool"
  og_floor :: nat
  og_old :: "(nat \<times> json) list"

definition from_empty :: "kv \<Rightarrow> origin" where
  "from_empty c0 = \<lparr>og_start = (\<lambda>_ c. c = c0), og_floor = 0, og_old = []\<rparr>"

text \<open>
  The file holds the records \<open>og_old o1\<close> and \<open>rs\<close>, and behind them \<open>tail\<close>, the part of a record whose
  write failed; then nothing is written any more.
\<close>

definition backed :: "origin \<Rightarrow> rat \<Rightarrow> (nat \<times> json) list \<Rightarrow> string \<Rightarrow> server \<Rightarrow> bool" where
  "backed o1 t rs tail s \<longleftrightarrow>
     kv_ok (sv_kv s) \<and> kv_changed (sv_kv s) = [] \<and> in_limits (sv_kv s) \<and>
     al_path (sv_aof s) \<noteq> None \<and> disk_text (sv_aof s) = log_text (og_old o1 @ rs) @ tail \<and>
     (al_recovery (sv_aof s) = Corrupt \<or> tail = []) \<and>
     sorted_wrt (<) (map fst (og_old o1 @ rs)) \<and> (\<forall>r \<in> set (og_old o1 @ rs). fst r \<le> al_lastSeq (sv_aof s)) \<and>
     (\<forall>r \<in> set (og_old o1). fst r \<le> og_floor o1) \<and> (\<forall>r \<in> set rs. og_floor o1 < fst r) \<and> og_floor o1 \<le> al_lastSeq (sv_aof s) \<and>
     recovers (og_start o1) t (map snd rs) (sv_kv s)"

lemma backed_same:
  "backed o1 t rs tail s \<Longrightarrow> sv_kv s' = sv_kv s \<Longrightarrow> sv_aof s' = sv_aof s \<Longrightarrow> backed o1 t rs tail s'"
  by (simp add: backed_def)

lemma backed_idle:
  assumes b: "backed o1 t rs tail s" and t: "t \<le> now" and ok: "kv_ok c" and i: "only_expires now (sv_kv s) c" and ch: "kv_changed c = []"
  shows "backed o1 now rs tail (s\<lparr>sv_kv := c\<rparr>)"
proof -
  have o: "kv_opts c = kv_opts (sv_kv s)" and k: "kv_ok (sv_kv s)" "in_limits (sv_kv s)" using b i by (simp_all add: backed_def only_expires_def)
  have sub: "kv_lookup j (sv_kv s) = Some e" if "kv_lookup j c = Some e" for j e
    using i [unfolded only_expires_def, THEN conjunct2, THEN spec, of j] that by auto
  have "live t' j c = live t' j (sv_kv s)" if "now \<le> t'" for t' j
    using i [unfolded only_expires_def, THEN conjunct2, THEN spec, of j] live_later [of now j "sv_kv s" t'] that by (auto simp: live_def)
  then have "recovers (og_start o1) now (map snd rs) c"
    using b by (intro recovers_later [OF _ o t]) (simp_all add: backed_def)
  moreover have "in_limits c" by (rule in_limits_sub [OF k(1) ok o sub k(2)])
  ultimately show ?thesis using b ok ch by (simp add: backed_def)
qed

section \<open>A logged change\<close>

lemma appendAof_aof:
  assumes "aof_enabled s" "appendAof now flt op s = (r, s')"
  shows "sv_kv s' = sv_kv s" "\<exists>r'. aof_append op flt (sv_aof s) = (r', sv_aof s') \<and> ((\<exists>u. r = Inr u) \<longleftrightarrow> (\<exists>u. r' = Inr u))"
  using assms
  by (auto simp: appendAof_def aofWriteError_def rememberPersistenceError_def forgetPersistenceError_def syncAofRecoveryStatus_def
      split: prod.splits sum.splits recovery.splits)

text \<open>What replaying the change needs: the entries fit one after the other.\<close>

definition replayable :: "rat \<Rightarrow> kv \<Rightarrow> kv \<Rightarrow> bool" where
  "replayable now c c' \<longleftrightarrow> in_limits c' \<and> (\<forall>es ds. difference now c c' es ds \<longrightarrow> fits_each (kv_opts c) now es (fold al_del ds (entries c)))"

lemma opened_keys:
  assumes "kv_ok c" "kv_changed c = []"
  shows "keys_ok (kv_opts c) (opened_changes c)"
proof -
  have "key_fits (kv_opts c) (fst p)" if "p \<in> set (entries c)" for p
  proof -
    have "kv_lookup (fst p) c = Some (snd p)"
      unfolding lookup_entries using map_of_distinct_in [OF kv_ok_distinct [OF assms(1)]] that by (cases p) simp
    from kv_ok_entry [OF assms(1) this] show ?thesis by (simp add: entry_ok_def key_fits_def)
  qed
  with assms(2) show ?thesis by (simp add: keys_ok_def opened_changes_def captured_def captureState_def am_begin_def)
qed

text \<open>Publishing the expiries touches neither the entries nor the log.\<close>

lemma publish_core: "sv_kv (publishInvalidate ev s) = sv_kv s" "sv_aof (publishInvalidate ev s) = sv_aof s"
  by (simp_all add: publishInvalidate_def hub_publish_def split: prod.split)

lemma expiry_core: "sv_kv (fold onCacheExpiry ks s) = sv_kv s" "sv_aof (fold onCacheExpiry ks s) = sv_aof s"
  by (induction ks arbitrary: s) (simp_all add: onCacheExpiry_def publish_core)

lemma report_core: "sv_kv (report_expiries s) = (sv_kv s)\<lparr>kv_events := []\<rparr>" "sv_aof (report_expiries s) = sv_aof s"
  by (simp_all add: report_expiries_def expiry_core)

lemma publish_all_core: "sv_kv (publish_all ef s) = sv_kv s" "sv_aof (publish_all ef s) = sv_aof s"
proof -
  have "sv_kv (fold publishInvalidate evs s) = sv_kv s \<and> sv_aof (fold publishInvalidate evs s) = sv_aof s" for evs s
    by (induction evs arbitrary: s) (simp_all add: publish_core)
  then show "sv_kv (publish_all ef s) = sv_kv s" "sv_aof (publish_all ef s) = sv_aof s" by (simp_all add: publish_all_def)
qed

lemma backed_report: "backed o1 t rs tail s \<Longrightarrow> backed o1 t rs tail (report_expiries s)"
  by (simp add: backed_def report_core kv_ok_def in_limits_def recovers_def mirror_def live_def kv_lookup_def cong: prod.case_cong option.case_cong)

section \<open>Every change is recorded or undone\<close>

text \<open>The operation ends; what is left is to write the record.\<close>

lemma recorded:
  assumes b: "backed o1 t rs tail s" and t: "t \<le> now" and tr: "track {} (opened_changes (sv_kv s)) c2"
    and k: "keys_ok (kv_opts (sv_kv s)) c2" and co: "collect_changes now c2 (hd (kv_changed c2)) = Inr (es, ds)"
    and rep: "replayable now (sv_kv s) (kept c2)" and c: "commit_patch now flt es ds s = (Inr u, s1)"
  shows "\<exists>rs'. backed o1 now rs' tail (s1\<lparr>sv_kv := kept c2\<rparr>) \<and>
    (rs' = rs \<or> rs' = rs @ [(al_lastSeq (sv_aof s) + 1, patch_op es ds)])"
proof -
  let ?c = "sv_kv s"
  have ok: "kv_ok ?c" "kv_changed ?c = []" and path: "al_path (sv_aof s) \<noteq> None" using b by (simp_all add: backed_def)
  note kf = kept_facts [OF ok(1) tr]
  note d = changes_collected [OF ok(1) tr co]
  have lim: "in_limits (kept c2)" and fits: "fits_each (kv_opts ?c) now es (fold al_del ds (entries ?c))"
    using rep d by (simp_all add: replayable_def)
  have rec: "recovers (og_start o1) t (map snd rs) ?c" using b by (simp add: backed_def)
  show ?thesis
  proof (cases "es = [] \<and> ds = []")
    case True
    then have same: "kv_lookup k (kept c2) = kv_lookup k ?c" for k using d by (simp add: difference_def)
    have "recovers (og_start o1) now (map snd rs) (kept c2)"
      by (rule recovers_later [OF rec kf(3) t]) (simp add: live_def same)
    moreover have "s1 = s" using c True by (simp add: commit_patch_def)
    ultimately have "backed o1 now rs tail (s1\<lparr>sv_kv := kept c2\<rparr>)"
      using b kf lim ok(2) by (simp add: backed_def)
    then show ?thesis by blast
  next
    case False
    then have ap: "appendAof now flt (patch_op es ds) s = (Inr u, s1)" using c unfolding commit_patch_def if_not_P [OF False] by simp
    have en: "aof_enabled s" using path by (simp add: aof_enabled_def)
    note aa = appendAof_aof [OF en ap]
    obtain r' where r': "aof_append (patch_op es ds) flt (sv_aof s) = (r', sv_aof s1)" "\<exists>u. r' = Inr u" using aa(2) by auto
    let ?n = "al_lastSeq (sv_aof s) + 1"
    have w: "sv_aof s1 = with_record ?n (disk_text (sv_aof s) @ rec_text (?n, patch_op es ds) @ [newline]) (sv_aof s)"
      and nc: "al_recovery (sv_aof s) \<noteq> Corrupt"
      using r' by (cases rule: append_cases [OF path, of "patch_op es ds" flt]; auto)+
    have keys: "\<forall>k \<in> set ds. key_fits (kv_opts ?c) k"
    proof
      fix k assume "k \<in> set ds"
      moreover have "hd (kv_changed c2) \<in> set (kv_changed c2)"
        using tr opened_changes_ok(3) [OF ok(1)] by (auto simp: track_def noted_def grows_def intro: list.set_sel)
      moreover have "set ds \<subseteq> set (hd (kv_changed c2))"
        using collect_changes_Inr [OF track_ok [OF tr] co] by (simp add: collected_def)
      ultimately show "key_fits (kv_opts ?c) k" using k by (auto simp: keys_ok_def)
    qed
    have "recovers (og_start o1) now (map snd rs @ [patch_op es ds]) (kept c2)"
      by (rule recovers_patch [OF rec ok(1) kf(1,3) d t keys fits])
    moreover have "sorted_wrt (<) (map fst (og_old o1 @ rs @ [(?n, patch_op es ds)]))" "tail = []"
        "\<forall>r \<in> set (og_old o1 @ rs @ [(?n, patch_op es ds)]). fst r \<le> ?n" "\<forall>r \<in> set (rs @ [(?n, patch_op es ds)]). og_floor o1 < fst r"
      using b nc by (auto simp: backed_def sorted_wrt_append less_Suc_eq_le le_Suc_eq)
    moreover have "disk_text (sv_aof s1) = log_text (og_old o1 @ rs @ [(?n, patch_op es ds)])" "al_path (sv_aof s1) \<noteq> None" "al_lastSeq (sv_aof s1) = ?n"
      using b w \<open>tail = []\<close> by (simp_all add: backed_def with_record_def disk_text_def)
    ultimately have "backed o1 now (rs @ [(?n, patch_op es ds)]) tail (s1\<lparr>sv_kv := kept c2\<rparr>)"
      using b kf lim ok(2) by (simp add: backed_def)
    then show ?thesis by blast
  qed
qed

lemma undone:
  assumes b: "backed o1 t rs tail s" and t: "t \<le> now" and ev: "evolves (opened_changes (sv_kv s)) c2"
    and c: "s1 = s \<or> (\<exists>es ds e. commit_patch now flt es ds s = (Inl e, s1))"
  shows "\<exists>tail'. backed o1 now rs tail' (s1\<lparr>sv_kv := dropped (sv_kv s) c2\<rparr>)"
    and "kv_lookup k (dropped (sv_kv s) c2) = kv_lookup k (sv_kv s)"
proof -
  let ?c = "sv_kv s" and ?c' = "dropped (sv_kv s) c2"
  have ok: "kv_ok ?c" "kv_changed ?c = []" and path: "al_path (sv_aof s) \<noteq> None" using b by (simp_all add: backed_def)
  note dr = dropped_same [OF ok(1) ev]
  have same: "kv_lookup k ?c' = kv_lookup k ?c" for k using dr(1) by (simp add: same_data_def kv_lookup_def)
  then show "kv_lookup k ?c' = kv_lookup k ?c" .
  have o: "kv_opts ?c' = kv_opts ?c" "entries ?c' = entries ?c" using dr(1) by (simp_all add: same_data_def)
  have "recovers (og_start o1) now (map snd rs) ?c'"
    by (rule recovers_later [OF _ o(1) t]) (use b same in \<open>simp_all add: backed_def live_def\<close>)
  then have core: "kv_ok ?c'" "kv_changed ?c' = []" "in_limits ?c'" "recovers (og_start o1) now (map snd rs) ?c'"
    using dr(2,3) ok(2) o b by (simp_all add: backed_def in_limits_def)
  have "sv_aof s1 = sv_aof s \<or> (\<exists>bytes. sv_aof s1 = with_torn (log_text (og_old o1 @ rs) @ bytes) (sv_aof s))"
    using c
  proof (elim disjE exE)
    fix es ds e assume c: "commit_patch now flt es ds s = (Inl e, s1)"
    then have ne: "\<not> (es = [] \<and> ds = [])" by (auto simp: commit_patch_def)
    have ap: "appendAof now flt (patch_op es ds) s = (Inl e, s1)" using c unfolding commit_patch_def if_not_P [OF ne] .
    have en: "aof_enabled s" using path by (simp add: aof_enabled_def)
    obtain r' where "aof_append (patch_op es ds) flt (sv_aof s) = (r', sv_aof s1)" "\<not> (\<exists>u. r' = Inr u)"
      using appendAof_aof(2) [OF en ap] by auto
    then obtain e' where r': "aof_append (patch_op es ds) flt (sv_aof s) = (Inl e', sv_aof s1)" by (cases r') auto
    have "al_recovery (sv_aof s) \<noteq> Corrupt \<Longrightarrow> tail = []" using b by (auto simp: backed_def)
    with b have d: "disk_text (sv_aof s) = log_text (og_old o1 @ rs)" if "al_recovery (sv_aof s) \<noteq> Corrupt" using that by (simp add: backed_def)
    show ?thesis
    proof (cases rule: append_cases [OF path, of "patch_op es ds" flt])
      case (3 e k)
      with r' d have "sv_aof s1 = with_torn (log_text (og_old o1 @ rs) @ take k (rec_text (al_lastSeq (sv_aof s) + 1, patch_op es ds) @ [newline])) (sv_aof s)"
        by simp
      then show ?thesis by blast
    qed (use r' in auto)
  qed simp
  then show "\<exists>tail'. backed o1 now rs tail' (s1\<lparr>sv_kv := ?c'\<rparr>)"
  proof (elim disjE exE)
    assume "sv_aof s1 = sv_aof s"
    with core b have "backed o1 now rs tail (s1\<lparr>sv_kv := ?c'\<rparr>)" by (simp add: backed_def)
    then show ?thesis ..
  next
    fix bytes assume "sv_aof s1 = with_torn (log_text (og_old o1 @ rs) @ bytes) (sv_aof s)"
    with core b have "backed o1 now rs bytes (s1\<lparr>sv_kv := ?c'\<rparr>)" by (simp add: backed_def with_torn_def disk_text_def)
    then show ?thesis ..
  qed
qed

theorem logged_step:
  fixes x :: 'x
  assumes b: "backed o1 t rs tail s" and t: "t \<le> now" and st: "steady_op (kv_part fn (s, x))"
    and kk: "\<And>c. kv_ok c \<Longrightarrow> keys_ok (kv_opts (sv_kv s)) c \<Longrightarrow> keys_ok (kv_opts (sv_kv s)) (snd (kv_part fn (s, x) c))"
    and out: "\<And>c r w c'. fn ((s, x), c) = (r, (w, c')) \<Longrightarrow> fst w = s"
    and rep: "\<And>c2 r w. fn ((s, x), opened_changes (sv_kv s)) = (Inr r, (w, c2)) \<Longrightarrow> replayable now (sv_kv s) (kept c2)"
    and run: "logged_changes now flt fn (s, x) = (r, (s', x'))"
  shows "\<exists>rs' tail'. backed o1 now rs' tail' s' \<and> (\<exists>more. rs' = rs @ more) \<and>
    (\<forall>e. r = Inl e \<longrightarrow> rs' = rs \<and> (\<forall>k. kv_lookup k (sv_kv s') = kv_lookup k (sv_kv s)))"
proof -
  define commit :: "snapshot_entry list \<Rightarrow> string list \<Rightarrow> (server \<times> 'x, unit) act" where "commit = (\<lambda>es ds sx. case commit_patch now flt es ds (fst sx) of (r, s) \<Rightarrow> (r, (s, snd sx)))"
  have ok: "kv_ok (sv_kv s)" "kv_changed (sv_kv s) = []" using b by (simp_all add: backed_def)
  obtain s1 c where ch: "kv_atomicChanges now fn commit ((s, x), sv_kv s) = (r, ((s1, x'), c))" and s': "s' = report_expiries (s1\<lparr>sv_kv := c\<rparr>)"
    using run by (auto simp: logged_changes_def commit_def split: prod.splits)
  have look: "kv_lookup k (sv_kv s') = kv_lookup k c" for k by (simp add: s' report_core kv_lookup_def)
  show ?thesis
  proof (cases r)
    case (Inr a)
    obtain es ds c2 w1 where f: "fn ((s, x), opened_changes (sv_kv s)) = (Inr a, (w1, c2))" and cm: "commit es ds w1 = (Inr (), (s1, x'))"
      and c: "c = kept c2" and tr: "track {} (opened_changes (sv_kv s)) c2"
      and co: "collect_changes now c2 (hd (kv_changed c2)) = Inr (es, ds)"
      by (rule atomicChanges_done [OF ok(1) st ch [unfolded Inr]])
    have "keys_ok (kv_opts (sv_kv s)) c2"
      using kk [OF opened_changes_ok(1) [OF ok(1)] opened_keys [OF ok]] f by (simp add: kv_part_def)
    moreover have "commit_patch now flt es ds s = (Inr (), s1)"
      using cm out [OF f] by (auto simp: commit_def split: prod.splits)
    ultimately obtain rs' where "backed o1 now rs' tail (s1\<lparr>sv_kv := c\<rparr>)" "rs' = rs \<or> rs' = rs @ [(al_lastSeq (sv_aof s) + 1, patch_op es ds)]"
      using recorded [OF b t tr _ co rep [OF f]] unfolding c by blast
    then have "backed o1 now rs' tail s'" "\<exists>more. rs' = rs @ more" unfolding s' by (auto intro: backed_report)
    with Inr show ?thesis by auto
  next
    case (Inl e)
    obtain c2 r0 w1 where ev: "evolves (opened_changes (sv_kv s)) c2" and c: "c = dropped (sv_kv s) c2"
      and f: "fn ((s, x), opened_changes (sv_kv s)) = (r0, (w1, c2))"
      and w: "(r0 = Inl e \<and> (s1, x') = w1) \<or> (\<exists>a. r0 = Inr a \<and>
        ((s1, x') = w1 \<and> collect_changes now c2 (hd (kv_changed c2)) = Inl e \<or> (\<exists>es ds. commit es ds w1 = (Inl e, (s1, x')))))"
      by (rule atomicChanges_failed [OF ok(1) st ch [unfolded Inl]])
    have "fst w1 = s" by (rule out [OF f])
    with w have "s1 = s \<or> (\<exists>es ds. commit es ds w1 = (Inl e, (s1, x')))" by auto
    then have "s1 = s \<or> (\<exists>es ds e. commit_patch now flt es ds s = (Inl e, s1))"
    proof (elim disjE exE)
      fix es ds assume "commit es ds w1 = (Inl e, (s1, x'))"
      then have "commit_patch now flt es ds s = (Inl e, s1)"
        using \<open>fst w1 = s\<close> by (cases "commit_patch now flt es ds (fst w1)") (simp add: commit_def)
      then show ?thesis by blast
    qed simp
    note u = undone [OF b t ev this]
    from u(1) obtain tail' where "backed o1 now rs tail' (s1\<lparr>sv_kv := c\<rparr>)" unfolding c by blast
    then have "backed o1 now rs tail' s'" unfolding s' by (rule backed_report)
    moreover have "\<forall>k. kv_lookup k (sv_kv s') = kv_lookup k (sv_kv s)" using look u(2) c by simp
    ultimately show ?thesis by auto
  qed
qed

section \<open>Commands\<close>

lemma narrow_replayable:
  assumes ok: "kv_ok c" "in_limits c" and n: "narrow_op k m" and run: "m (opened_changes c) = (Inr r, c2)"
  shows "replayable now c (kept c2)"
proof -
  have w: "op_ok (opened_changes c) (m (opened_changes c)) (\<lambda>_. narrow k (opened_changes c))"
    using n opened_changes_ok(1) [OF ok(1)] by (simp add: narrow_op_def)
  then have tr: "track {} (opened_changes c) c2" and nw: "narrow k (opened_changes c) c2" by (simp_all add: run)
  note kf = kept_facts [OF ok(1) tr]
  have o: "entries (opened_changes c) = entries c" "kv_opts (opened_changes c) = kv_opts c"
    by (simp_all add: opened_changes_def captured_def captureState_def am_begin_def)
  have oc: "kv_opts c2 = kv_opts c" using w o by (simp add: run)
  have n': "narrow k c (kept c2)"
    using nw by (simp add: narrow_def in_limits_def lookup_entries kf(2,3) o oc)
  then have "in_limits (kept c2)" using ok(2) by (simp add: narrow_def)
  then show ?thesis using narrow_fits [OF ok(1) kf(1,3) _ n' ok(2)] by (simp add: replayable_def)
qed

lemma mutation_step:
  assumes b: "backed o1 t rs tail s" and t: "t \<le> now" and st: "steady_op m" and kk: "keeps (keys_ok (kv_opts (sv_kv s))) m"
    and rep: "\<And>r c2. m (opened_changes (sv_kv s)) = (Inr r, c2) \<Longrightarrow> replayable now (sv_kv s) (kept c2)"
    and run: "runCacheMutation now flt m s = (r, s')"
  shows "\<exists>rs' tail'. backed o1 now rs' tail' s' \<and> (\<exists>more. rs' = rs @ more) \<and>
    (\<forall>e. r = Inl e \<longrightarrow> rs' = rs \<and> (\<forall>k. kv_lookup k (sv_kv s') = kv_lookup k (sv_kv s)))"
proof (cases "sv_closing s")
  case True
  have "backed o1 now rs tail s"
    using b recovers_later [of "og_start o1" t _ "sv_kv s" "sv_kv s" now] t by (simp add: backed_def)
  moreover have "s' = s" using run True by (simp add: runCacheMutation_def)
  ultimately show ?thesis by auto
next
  case False
  obtain r0 s0 where l: "logged_changes now flt (on_kv m) (s, ()) = (r0, (s0, ()))" by (metis prod.exhaust unit.exhaust)
  have st': "steady_op (kv_part (on_kv m) (s, ()))" using st by simp
  have kk': "keys_ok (kv_opts (sv_kv s)) (snd (kv_part (on_kv m) (s, ()) c))" if "keys_ok (kv_opts (sv_kv s)) c" for c
    using keeps_run [OF kk that] by simp
  obtain rs' tail' where step: "backed o1 now rs' tail' s0" "\<exists>more. rs' = rs @ more"
      "\<forall>e. r0 = Inl e \<longrightarrow> rs' = rs \<and> (\<forall>k. kv_lookup k (sv_kv s0) = kv_lookup k (sv_kv s))"
    using logged_step [OF b t st' kk' _ _ l] rep by (fastforce simp: on_kv_def split: prod.splits)
  have en: "aof_enabled s" using b by (simp add: backed_def aof_enabled_def)
  have r: "(\<exists>e. r0 = Inl e \<and> r = Inl e \<and> s' = s0) \<or> (\<exists>a ef. r0 = Inr (a, ef) \<and> r = Inr a \<and> s' = publish_all ef s0)"
    using run False en l by (cases r0) (auto simp: runCacheMutation_def andThen_def split: prod.splits)
  then show ?thesis
  proof (elim disjE exE conjE)
    fix a ef assume "r = Inr a" "s' = publish_all ef s0"
    then show ?thesis using step(1,2) backed_same [OF step(1) publish_all_core] by auto
  qed (use step in auto)
qed

end
