(* ===== verification/Server_History.thy ===== *)
theory Server_History
  imports Server_Durable
begin

text \<open>
  Histories of requests. The commands of the connection leave the cache and the log alone, the
  reads drop expired entries, and the others go through \<open>runCacheMutation\<close>.
\<close>

section \<open>The connections\<close>

definition core :: "kv \<Rightarrow> aof_log \<Rightarrow> server \<Rightarrow> bool" where
  "core c a s \<longleftrightarrow> sv_kv s = c \<and> sv_aof s = a"

lemma core_set_conn [simp]: "core c a (set_conn i cn s) = core c a s" "core c a (s\<lparr>sv_hub := h\<rparr>) = core c a s"
    "core c a (s\<lparr>sv_hub := h, sv_conns := cs\<rparr>) = core c a s"
  by (simp_all add: core_def set_conn_def)

lemma core_writeReply [simp]: "core c a (snd (writeReply i r s)) = core c a s"
  by (simp add: writeReply_def split: prod.split)

lemma core_for_conn [inv_intros]: "keeps (core c a) (for_conn i f)"
  unfolding for_conn_def by (rule keeps_modify) simp

lemma core_write_to [inv_intros]: "keeps (core c a) (write_to i r)"
proof (rule keepsI)
  fix s assume "core c a s"
  then show "core c a (snd (write_to i r s))"
    using core_writeReply [of c a i "Some r" s] by (cases "writeReply i (Some r) s") (simp add: write_to_def)
qed

lemma core_answer [inv_intros]: "keeps P (answer r)" "keeps P (refuse m)"
  by (simp_all add: answer_def refuse_def keeps_returns keeps_throws)

lemma core_option [inv_intros]: "keeps P x \<Longrightarrow> (\<And>t. keeps P (f t)) \<Longrightarrow> keeps P (case v of None \<Rightarrow> x | Some t \<Rightarrow> f t)"
  by (cases v) auto

lemma core_run: "keeps (core c a) m \<Longrightarrow> core c a s \<Longrightarrow> core c a (snd (m s))"
  by (rule keepsD)

lemma core_then: "core c a (snd (m s)) \<Longrightarrow> (\<And>x s'. core c a s' \<Longrightarrow> core c a (snd (f x s'))) \<Longrightarrow> core c a (snd (andThen m f s))"
  by (cases "m s"; cases "fst (m s)") (auto simp: andThen_def)

lemma core_simps [simp]: "core c a (snd (for_conn i f s)) = core c a s" "core c a (snd (answer r s)) = core c a s"
    "core c a (snd (refuse m s)) = core c a s" "core c a (snd (throws e s)) = core c a s"
  by (simp_all add: for_conn_def answer_def refuse_def)

lemma core_publish: "core c a (snd (hub_publish ch m s)) = core c a s"
  by (simp add: hub_publish_def split: prod.split)

lemma core_auth: "keeps (core c a) (do_auth i args)"
  by (rule keepsI) (auto simp: do_auth_def intro!: core_then split: option.split)

lemma core_do_publish: "keeps (core c a) (do_publish args)"
proof (rule keepsI)
  fix s assume "core c a s"
  then show "core c a (snd (do_publish args s))"
    using core_publish [of c a "hd args" "args ! 1" s]
    by (cases "hub_publish (hd args) (args ! 1) s") (simp add: do_publish_def split: sum.split)
qed

lemma core_subscribe_one: "keeps (core c a) (subscribe_one i ch)"
  by (rule keepsI) (simp add: subscribe_one_def Let_def split: prod.split sum.split)

lemma core_subscribe_each: "keeps (core c a) (subscribe_each i chs)"
  by (induction chs; unfold subscribe_each.simps; intro inv_intros core_subscribe_one; simp?)

lemma core_write_each: "keeps (core c a) (write_each i rs)"
proof (induction rs)
  case (Cons r rs)
  then show ?case unfolding write_each.simps by (intro inv_intros) (auto intro: inv_intros)
qed (unfold write_each.simps, rule inv_intros)

lemma core_do_subscribe: "keeps (core c a) (do_subscribe i args)"
proof (rule keepsI)
  fix s assume s: "core c a s"
  have "keeps (core c a) (andThen (for_conn i (\<lambda>cn. cn\<lparr>cn_subMode := True\<rparr>)) (\<lambda>_. andThen (subscribe_each i args) (\<lambda>acks.
      andThen (write_each i acks) (\<lambda>_. returns Silent))))"
    by (intro inv_intros core_subscribe_each core_write_each)
  with s show "core c a (snd (do_subscribe i args s))"
    by (simp add: do_subscribe_def core_run split: sum.split)
qed

lemma core_unsubscribe_one: "keeps (core c a) (unsubscribe_one i ch)"
  by (rule keepsI) (simp add: unsubscribe_one_def Let_def keepsD [OF core_write_to])

lemma core_unsubscribe_each: "keeps (core c a) (unsubscribe_each i chs)"
proof (induction chs)
  case (Cons ch chs)
  then show ?case unfolding unsubscribe_each.simps by (intro inv_intros core_unsubscribe_one) (auto intro: inv_intros)
qed (unfold unsubscribe_each.simps, rule inv_intros)

lemma core_do_unsubscribe: "keeps (core c a) (do_unsubscribe i args)"
proof (rule keepsI)
  fix s assume s: "core c a s"
  show "core c a (snd (do_unsubscribe i args s))"
    unfolding do_unsubscribe_def by (rule core_run [OF _ s]) (intro inv_intros core_unsubscribe_each)
qed

lemma core_do_multi: "keeps (core c a) (do_multi i args)" "keeps (core c a) (do_discard i args)" "keeps (core c a) (enqueueCommand i cmd args)"
  by (rule keepsI, auto simp: do_multi_def do_discard_def enqueueCommand_def Let_def intro!: core_then)+

section \<open>Reads\<close>

lemma backed_later: "backed o1 t rs tail s \<Longrightarrow> t \<le> now \<Longrightarrow> backed o1 now rs tail s"
  by (simp add: backed_def recovers_def)

lemma backed_core: "(\<And>c a. keeps (core c a) m) \<Longrightarrow> keeps (backed o1 t rs tail) m"
  by (rule keepsI) (rule backed_same, assumption, simp_all add: keeps_def core_def)

lemma backed_read:
  assumes "steady_op m" "\<And>c. keeps (only_expires now c) m"
  shows "keeps (backed o1 now rs tail) (with_kv m)"
proof (rule keepsI)
  fix s assume b: "backed o1 now rs tail s"
  obtain r c where m: "m (sv_kv s) = (r, c)" by (cases "m (sv_kv s)")
  have ok: "kv_ok (sv_kv s)" "kv_changed (sv_kv s) = []" using b by (simp_all add: backed_def)
  have "evolves (sv_kv s) c"
    using wp_evolves [OF wp_mono [OF steady_wp [OF assms(1) track_refl [OF ok(1)]]]] m by fastforce
  then have c: "same_ctx (sv_kv s) c" "kv_ok c" using evolves_ctx by blast+
  have "backed o1 now rs tail (s\<lparr>sv_kv := c\<rparr>)"
  proof (rule backed_idle [OF b order.refl c(2)])
    show "only_expires now (sv_kv s) c" using keepsD [OF assms(2) idle_refl, of "sv_kv s"] by (simp add: m)
    show "kv_changed c = []" using c(1) ok(2) by (simp add: same_ctx_def)
  qed
  then show "backed o1 now rs tail (snd (with_kv m s))" by (simp add: with_kv_def m backed_report)
qed

lemma backed_for_conn: "keeps (backed o1 now rs tail) (for_conn i f)"
  by (rule backed_core) (rule core_for_conn)

lemma backed_then: "backed o1 now rs tail (snd (m s)) \<Longrightarrow> (\<And>x s'. backed o1 now rs tail s' \<Longrightarrow> backed o1 now rs tail (snd (f x s'))) \<Longrightarrow>
    backed o1 now rs tail (snd (andThen m f s))"
  by (cases "m s"; cases "fst (m s)") (auto simp: andThen_def)

lemma backed_run: "keeps (backed o1 now rs tail) m \<Longrightarrow> backed o1 now rs tail s \<Longrightarrow> backed o1 now rs tail (snd (m s))"
  by (rule keepsD)

lemma backed_watch_each: "keeps (backed o1 now rs tail) (watch_each now i ks)"
proof (induction ks)
  case (Cons k ks)
  have v: "keeps (backed o1 now rs tail) (with_kv (kv_getVersion now k))"
    by (rule backed_read [OF steady_getVersion idle_getVersion])
  show ?case
    by (rule keepsI) (auto intro!: backed_then backed_run [OF Cons] backed_run [OF v] backed_run [OF backed_for_conn])
qed (unfold watch_each.simps, rule keeps_returns)

lemma backed_watch: "keeps (backed o1 (ev_now ev) rs tail) (do_watch ev i args)"
  by (rule keepsI) (auto simp: do_watch_def answer_def refuse_def intro!: backed_then backed_run [OF backed_for_conn]
      backed_run [OF backed_watch_each] split: sum.split)

lemma backed_execute:
  assumes "cmd \<notin> set AOF_COMMANDS"
  shows "keeps (backed o1 (ev_now ev) rs tail) (executeCommand ev i cmd args)"
proof (rule keepsI)
  fix s assume b: "backed o1 (ev_now ev) rs tail s"
  show "backed o1 (ev_now ev) rs tail (snd (executeCommand ev i cmd args s))"
  proof (cases "cache_command (ev_up ev) (ev_now ev) cmd args")
    case (Some m)
    have "keeps (backed o1 (ev_now ev) rs tail) (with_kv m)"
      by (rule backed_read [OF steady_command [OF Some] idle_command [OF Some assms]])
    from backed_run [OF this b] show ?thesis unfolding executeCommand_def Some option.case
      by (rule backed_then) (simp add: answer_def)
  next
    case None
    note rules = core_auth core_do_publish core_do_subscribe core_do_unsubscribe
    show ?thesis unfolding executeCommand_def None option.case
      by (auto simp: answer_def refuse_def intro!: b backed_run [OF backed_core [OF core_auth]] backed_run [OF backed_core [OF core_do_publish]]
          backed_run [OF backed_core [OF core_do_subscribe]] backed_run [OF backed_core [OF core_do_unsubscribe]])
  qed
qed

section \<open>Requests\<close>

text \<open>Commands that may change several keys at once, and \<open>SAVE\<close> and \<open>LOAD\<close>, are left aside here.\<close>

definition one_key_command :: "string \<Rightarrow> bool" where
  "one_key_command cmd \<longleftrightarrow> cmd \<notin> {''MSET'', ''EXEC'', ''SAVE'', ''LOAD''}"

lemma dispatch_step:
  assumes b: "backed o1 t rs tail s" and t: "t \<le> ev_now ev" and cmd: "one_key_command cmd" and run: "dispatch ev i cmd args s = (r, s')"
  shows "\<exists>rs' tail'. backed o1 (ev_now ev) rs' tail' s' \<and> (\<exists>more. rs' = rs @ more)"
proof -
  note b' = backed_later [OF b t]
  have stay: ?thesis if "keeps (backed o1 (ev_now ev) rs tail) m" "m s = (r, s')" for m :: "result handler"
    using backed_run [OF that(1) b'] that(2) by auto
  have keep: ?thesis if "s' = s" using b' that by auto
  show ?thesis
  proof (cases "cn_queue (conn_of i s) = None \<and> cmd \<in> set AOF_COMMANDS \<and> cache_command (ev_up ev) (ev_now ev) cmd args \<noteq> None")
    case True
    then obtain m where m: "cache_command (ev_up ev) (ev_now ev) cmd args = Some m" by blast
    have single: "cmd \<in> set SINGLE_KEY" using True cmd by (auto simp: AOF_COMMANDS_def SINGLE_KEY_def one_key_command_def)
    have d: "dispatch ev i cmd args s = andThen (runCacheMutation (ev_now ev) (ev_write ev) m) answer s"
    proof -
      have "cmd \<notin> {''WATCH'', ''UNWATCH'', ''MULTI'', ''DISCARD'', ''EXEC''}" using True by (auto simp: AOF_COMMANDS_def)
      with True show ?thesis by (simp add: dispatch_def m)
    qed
    obtain r1 s1 where r1: "runCacheMutation (ev_now ev) (ev_write ev) m s = (r1, s1)" by (cases "runCacheMutation (ev_now ev) (ev_write ev) m s")
    have ok: "kv_ok (sv_kv s)" "in_limits (sv_kv s)" using b by (simp_all add: backed_def)
    have "\<exists>rs' tail'. backed o1 (ev_now ev) rs' tail' s1 \<and> (\<exists>more. rs' = rs @ more) \<and>
        (\<forall>e. r1 = Inl e \<longrightarrow> rs' = rs \<and> (\<forall>k. kv_lookup k (sv_kv s1) = kv_lookup k (sv_kv s)))"
      by (rule mutation_step [OF b t steady_command [OF m] keeps_command [OF m] _ r1])
        (rule narrow_replayable [OF ok narrow_command [OF m single]])
    then obtain rs' tail' where "backed o1 (ev_now ev) rs' tail' s1" "\<exists>more. rs' = rs @ more" by blast
    moreover have "s' = s1" using run d r1 by (cases r1) (simp_all add: andThen_def answer_def)
    ultimately show ?thesis by auto
  next
    case False
    show ?thesis
    proof (cases "cmd = ''WATCH''")
      case True
      show ?thesis by (rule stay [OF backed_watch]) (use run True in \<open>simp add: dispatch_def\<close>)
    next
      case w: False
      have unwatch: "keeps (backed o1 (ev_now ev) rs tail) (andThen (for_conn i f) (\<lambda>_. answer OK))" for f
        by (intro keeps_andThen backed_for_conn core_answer)
      have exec: "keeps (backed o1 (ev_now ev) rs tail) (executeCommand ev i cmd args)" if "cmd \<notin> set AOF_COMMANDS"
        by (rule backed_execute [OF that])
      consider "cmd = ''UNWATCH''" | "cmd = ''MULTI''" | "cmd = ''DISCARD''" | "cmd = ''EXEC''"
        | "cmd \<notin> {''WATCH'', ''UNWATCH'', ''MULTI'', ''DISCARD'', ''EXEC''}" "cn_queue (conn_of i s) \<noteq> None"
        | "cmd \<notin> {''WATCH'', ''UNWATCH'', ''MULTI'', ''DISCARD'', ''EXEC''}" "cn_queue (conn_of i s) = None"
        using w unfolding insert_iff by (metis empty_iff)
      then show ?thesis
      proof cases
        case 1
        show ?thesis
        proof (cases "args = []")
          case True
          show ?thesis by (rule stay [OF unwatch]) (use run 1 True in \<open>simp add: dispatch_def\<close>)
        next
          case False
          show ?thesis by (rule keep) (use run 1 False in \<open>simp add: dispatch_def refuse_def\<close>)
        qed
      next
        case 2
        show ?thesis by (rule stay [OF backed_core [OF core_do_multi(1)]]) (use run 2 in \<open>simp add: dispatch_def\<close>)
      next
        case 3
        show ?thesis by (rule stay [OF backed_core [OF core_do_multi(2)]]) (use run 3 in \<open>simp add: dispatch_def\<close>)
      next
        case 4
        with cmd show ?thesis by (simp add: one_key_command_def)
      next
        case 5
        show ?thesis by (rule stay [OF backed_core [OF core_do_multi(3)]]) (use run 5 in \<open>simp add: dispatch_def\<close>)
      next
        case 6
        show ?thesis
        proof (cases "cmd \<in> set AOF_COMMANDS")
          case True
          then have "cache_command (ev_up ev) (ev_now ev) cmd args = None" using False 6(2) by blast
          with run 6 True have "s' = s" by (simp add: dispatch_def refuse_def)
          then show ?thesis by (rule keep)
        next
          case no: False
          show ?thesis by (rule stay [OF exec [OF no]]) (use run 6 no in \<open>simp add: dispatch_def\<close>)
        qed
      qed
    qed
  qed
qed

lemma core_reply [simp]: "core c a (reply_to i r s) = core c a s" "core c a (end_conn i s) = core c a s"
    "core c a (record_command ev cmd n s) = core c a s"
  by (simp_all add: reply_to_def end_conn_def record_command_def) (simp add: core_def)

lemma core_finish: "core c a (snd (finish ev i r s)) = core c a s"
  by (simp add: finish_def Let_def split: sum.split result.split)

theorem request_step:
  assumes b: "backed o1 t rs tail s" and t: "t \<le> ev_now ev"
    and cmd: "\<And>argv. requestArgv request = Inr argv \<Longrightarrow> one_key_command (ev_up ev (hd argv))"
  shows "\<exists>rs' tail'. backed o1 (ev_now ev) rs' tail' (snd (onRequest ev i request s)) \<and> (\<exists>more. rs' = rs @ more)"
proof -
  note b' = backed_later [OF b t]
  have stay: ?thesis if "core (sv_kv s) (sv_aof s) (snd (onRequest ev i request s))"
    using backed_same [OF b'] that by (auto simp: core_def)
  have me: "core (sv_kv s) (sv_aof s) s" by (simp add: core_def)
  show ?thesis
  proof (cases "requestArgv request")
    case (Inl e)
    with me show ?thesis by (intro stay) (simp add: onRequest_def)
  next
    case (Inr argv)
    let ?cmd = "ev_up ev (hd argv)" and ?cn = "conn_of i s"
    have one: "one_key_command ?cmd" by (rule cmd [OF Inr])
    show ?thesis
    proof (cases "(\<not> cn_authed ?cn \<and> ?cmd \<noteq> ''AUTH'' \<and> ?cmd \<noteq> ''QUIT'') \<or>
        (cn_subMode ?cn \<and> ?cmd \<notin> {''SUBSCRIBE'', ''UNSUBSCRIBE'', ''PING'', ''QUIT'', ''AUTH''})")
      case True
      with me show ?thesis by (intro stay) (auto simp: onRequest_def Inr Let_def)
    next
      case False
      obtain r s1 where d: "dispatch ev i ?cmd (tl argv) s = (r, s1)" by (cases "dispatch ev i ?cmd (tl argv) s")
      obtain c s2 where f: "finish ev i r s1 = (c, s2)" by (cases "finish ev i r s1")
      have run: "snd (onRequest ev i request s) = record_command ev ?cmd (length argv - 1) s2"
        using False one d f by (auto simp: onRequest_def Inr Let_def one_key_command_def)
      obtain rs' tail' where s1: "backed o1 (ev_now ev) rs' tail' s1" and more: "\<exists>more. rs' = rs @ more"
        using dispatch_step [OF b t one d] by blast
      have "core (sv_kv s1) (sv_aof s1) (record_command ev ?cmd (length argv - 1) s2)"
        using core_finish [of "sv_kv s1" "sv_aof s1" ev i r s1] f by (simp add: core_def [of _ _ s1])
      then have "backed o1 (ev_now ev) rs' tail' (snd (onRequest ev i request s))"
        using backed_same [OF s1] run by (simp add: core_def)
      with more show ?thesis by blast
    qed
  qed
qed

text \<open>The requests of all connections, in the order in which the server handles them.\<close>

fun serve :: "(env \<times> nat \<times> reply) list \<Rightarrow> server \<Rightarrow> server" where
  "serve [] s = s"
| "serve ((ev, i, request) # reqs) s = serve reqs (snd (onRequest ev i request s))"

definition one_key_request :: "env \<times> nat \<times> reply \<Rightarrow> bool" where
  "one_key_request q \<longleftrightarrow> (case q of (ev, i, request) \<Rightarrow>
     (case requestArgv request of Inl _ \<Rightarrow> True | Inr argv \<Rightarrow> one_key_command (ev_up ev (hd argv))))"

theorem history_backed:
  assumes "backed o1 t rs tail s" "sorted (t # map (ev_now \<circ> fst) reqs)" "list_all one_key_request reqs"
  shows "\<exists>rs' tail'. backed o1 (last (t # map (ev_now \<circ> fst) reqs)) rs' tail' (serve reqs s) \<and> (\<exists>more. rs' = rs @ more)"
  using assms
proof (induction reqs arbitrary: t rs tail s)
  case (Cons q reqs)
  obtain ev i request where q: "q = (ev, i, request)" by (cases q)
  have t: "t \<le> ev_now ev" using Cons.prems(2) q by simp
  have one: "one_key_command (ev_up ev (hd argv))" if "requestArgv request = Inr argv" for argv
    using Cons.prems(3) that by (simp add: q one_key_request_def)
  obtain rs1 tail1 more1 where s1: "backed o1 (ev_now ev) rs1 tail1 (snd (onRequest ev i request s))" and m1: "rs1 = rs @ more1"
    using request_step [OF Cons.prems(1) t one] by blast
  have so: "sorted (ev_now ev # map (ev_now \<circ> fst) reqs)" using Cons.prems(2) q by (simp add: comp_def)
  obtain rs2 tail2 more2 where s2: "backed o1 (last (ev_now ev # map (ev_now \<circ> fst) reqs)) rs2 tail2 (serve reqs (snd (onRequest ev i request s)))"
    and m2: "rs2 = rs1 @ more2"
    using Cons.IH [OF s1 so conjunct2 [OF Cons.prems(3) [unfolded list.pred_inject(2)]]] by blast
  have l: "last (t # map (ev_now \<circ> fst) (q # reqs)) = last (ev_now ev # map (ev_now \<circ> fst) reqs)" by (simp add: q)
  have "serve (q # reqs) s = serve reqs (snd (onRequest ev i request s))" by (simp add: q)
  moreover have "rs2 = rs @ more1 @ more2" using m1 m2 by simp
  ultimately show ?case unfolding l using s2 by metis
qed auto

text \<open>
  A server that starts with an empty file, and what a server that starts again from the file of
  another one serves.
\<close>

section \<open>Starting\<close>

lemma new_cache_empty: "new_cache now o_in listener = Inr c \<Longrightarrow> entries c = [] \<and> kv_changed c = []"
  by (auto simp: new_cache_def am_new_def bind_out_Inr)

lemma open_empty: "new_aof (Some path) (Some []) locked = Inr (opened path 0 Clean None [] locked)"
  using open_log [of "[]" path locked] by (simp add: final_seq_def)

lemma backed_start:
  assumes "new_cache t0 o_in listener = Inr (sv_kv s)" "new_aof (Some path) (Some []) locked = Inr (sv_aof s)"
  shows "backed (from_empty (sv_kv s)) t [] [] s"
proof -
  note c = new_cache_ok(1) [OF assms(1)] new_cache_empty [OF assms(1)]
  have "recovers (og_start (from_empty (sv_kv s))) t [] (sv_kv s)"
    using c by (intro recovers_start) (simp add: from_empty_def mirror_empty)
  moreover have "sv_aof s = opened path 0 Clean None [] locked" using assms(2) by (simp add: open_empty)
  ultimately show ?thesis using c by (simp add: backed_def in_limits_def opened_def disk_text_def from_empty_def)
qed

section \<open>Starting again\<close>

text \<open>
  The file is read again, and its records behind the snapshot are replayed into a cache that the
  start gives.
\<close>

definition covers :: "nat option \<Rightarrow> origin \<Rightarrow> bool" where
  "covers snap o1 \<longleftrightarrow> (case snap of None \<Rightarrow> og_old o1 = [] | Some n \<Rightarrow> n = og_floor o1 \<and> n \<le> 2 ^ 53 - 1)"

lemma replay_covered:
  assumes "covers snap o1" "\<forall>r \<in> set (og_old o1). fst r \<le> og_floor o1" "\<forall>r \<in> set rs. og_floor o1 < fst r"
  shows "replay_records now snap (og_old o1 @ rs) c = apply_ops now (map snd rs) c"
proof -
  have new: "\<forall>r \<in> set rs. \<not> covered snap (Some (fst r)) \<Longrightarrow> replay_records now snap rs c = apply_ops now (map snd rs) c" for rs c
    by (induction rs arbitrary: c) (auto split: sum.split prod.split)
  have old: "\<forall>r \<in> set old. covered snap (Some (fst r)) \<Longrightarrow> replay_records now snap (old @ rs) c = replay_records now snap rs c" for old
    by (induction old) auto
  from assms have "\<forall>r \<in> set rs. \<not> covered snap (Some (fst r))" "\<forall>r \<in> set (og_old o1). covered snap (Some (fst r))"
    by (fastforce simp: covers_def covered_def split: option.splits)+
  with new old show ?thesis by metis
qed

theorem restart:
  assumes b: "backed o1 t rs [] s" and l: "list_all loggable (og_old o1 @ rs)" and n: "length (disk_text (sv_aof s)) \<le> MAX_PERSISTENCE_FILE_BYTES"
    and snap: "covers snap o1" and t: "t \<le> now" and start: "og_start o1 now c0"
  obtains a r a' c' where "new_aof (Some path) (Some (disk_text (sv_aof s))) locked = Inr a" "al_recovery a = Clean"
    "aof_replay now (seq_arg snap) (a, c0) = (r, (a', c'))"
    "exhausted c' \<or> (r = Inr (length rs) \<and> al_recovery a' = Clean \<and> mirror now c' (sv_kv s))"
proof -
  have ok: "log_ok (og_old o1 @ rs)" using b l by (simp add: log_ok_def backed_def)
  have d: "disk_text (sv_aof s) = log_text (og_old o1 @ rs)" using b by (simp add: backed_def)
  let ?a = "opened path (final_seq (og_old o1 @ rs)) Clean None (log_text (og_old o1 @ rs)) locked"
  note n' = n [unfolded d]
  have op: "new_aof (Some path) (Some (disk_text (sv_aof s))) locked = Inr ?a" using open_log [OF ok n'] by (simp add: d)
  obtain k e c' where run: "apply_ops now (map snd rs) c0 = (k, e, c')" by (metis prod_cases3)
  have seq: "\<forall>s. snap = Some s \<longrightarrow> s \<le> 2 ^ 53 - 1" using snap by (auto simp: covers_def)
  have rep: "aof_replay now (seq_arg snap) (?a, c0) = (Inr k, (after_replay e (note_seq snap ?a), c'))"
    by (rule replay_log [OF ok n' _ _ _ seq]) (use b run in \<open>simp_all add: opened_def replay_covered [OF snap] backed_def\<close>)
  have "recovers (og_start o1) t (map snd rs) (sv_kv s)" using b by (simp add: backed_def)
  from recoversD [OF this t start run] show ?thesis
    by (intro that [OF op _ rep]) (auto simp: opened_def after_replay_def note_seq_def split: option.split)
qed

end
