(* ===== verification/Server_Tx.thy ===== *)
theory Server_Tx
  imports Server_History
begin

text \<open>
  Transactions of a connection: the queued commands run as one change of the cache or not at
  all, and not when a watched key has changed since it was watched, whatever the other
  connections did in between.
\<close>

section \<open>The queued commands\<close>

lemma steady_act: "steady_op m \<Longrightarrow> kv_ok c \<Longrightarrow> op_ok c (m c) (\<lambda>_ _. True)"
  using steady_wp [OF _ track_refl] by (auto elim: wp_mono)

lemma steady_evolves: "steady_op m \<Longrightarrow> kv_ok c \<Longrightarrow> evolves c (snd (m c))"
  by (rule wp_evolves) (auto elim: wp_mono [OF steady_act])

text \<open>No command on the cache answers with an error reply of its own: it throws.\<close>

definition is_error :: "reply option \<Rightarrow> bool" where
  "is_error r \<longleftrightarrow> (case r of Some (RError _) \<Rightarrow> True | _ \<Rightarrow> False)"

definition replies :: "('a \<Rightarrow> bool) \<Rightarrow> 'a kvop \<Rightarrow> bool" where
  "replies P m \<longleftrightarrow> (\<forall>c a c'. m c = (Inr a, c') \<longrightarrow> P a)"

lemma replies_returns: "P a \<Longrightarrow> replies P (returns a)"
  by (simp add: replies_def)

lemma replies_throws: "replies P (throws e)"
  by (simp add: replies_def)

lemma replies_then: "(\<And>a. replies P (f a)) \<Longrightarrow> replies P (andThen m f)"
  by (auto simp: replies_def andThen_def split: prod.splits sum.splits)

lemma replies_if: "replies P x \<Longrightarrow> replies P y \<Longrightarrow> replies P (if b then x else y)"
  by simp

lemma command_answer: "cache_command up now cmd args = Some m \<Longrightarrow> replies (\<lambda>r. \<not> is_error (Some (fst r))) m"
  unfolding cache_command_def cmd_get_def cmd_set_def cmd_mset_def cmd_mget_def cmd_del_def cmd_clear_def cmd_ttl_def cmd_expire_def
    cmd_persist_def cmd_incr_def cmd_cas_def quiet_def announce_def
  by (auto simp del: returns_apply throws_apply split: if_splits option.splits prod.splits
      intro!: replies_then replies_if replies_returns replies_throws
      simp: is_error_def cmd_ping_def OK_def int_reply_def flag_reply_def value_reply_def number_reply_def)

text \<open>One command, and all of them: an error item is put exactly when the command fails.\<close>

definition batch_ok :: "kv \<Rightarrow> bool \<Rightarrow> kv \<Rightarrow> bool" where
  "batch_ok c failed c' \<longleftrightarrow> evolves c c' \<and> (\<not> failed \<longrightarrow> track {} c c' \<and> kv_opts c' = kv_opts c)"

lemma batch_refl: "kv_ok c \<Longrightarrow> batch_ok c failed c"
  by (simp add: batch_ok_def evolves_refl track_refl)

lemma batch_trans: "batch_ok c f1 c1 \<Longrightarrow> batch_ok c1 f2 c2 \<Longrightarrow> batch_ok c (f1 \<or> f2) c2"
  using evolves_trans [of c c1 c2] track_trans [of "{}" c c1 c2] by (auto simp: batch_ok_def)

lemma exec_one_run:
  assumes "kv_ok c" "exec_one ev n cmd args ((s, items), c) = (r, ((s', items'), c'))"
  shows "\<exists>n' failed ef item. r = Inr (n', failed, ef) \<and> s' = s \<and> items' = items @ [item] \<and> (failed \<longleftrightarrow> is_error item) \<and>
    batch_ok c failed c' \<and> (\<forall>opts. keys_ok opts c \<longrightarrow> keys_ok opts c')"
proof (cases "cache_command (ev_up ev) (ev_now ev) cmd args")
  case None
  with assms show ?thesis by (auto simp: exec_one_def add_item_def andThen_def is_error_def batch_refl)
next
  case (Some m)
  obtain x c1 where m: "m c = (x, c1)" by fastforce
  have ev: "evolves c c1" using steady_evolves [OF steady_command [OF Some] assms(1)] by (simp add: m)
  have keys: "keys_ok opts c \<Longrightarrow> keys_ok opts c1" for opts
    using keeps_run [OF keeps_command [OF Some], of opts c] by (simp add: m)
  show ?thesis
  proof (cases x)
    case (Inl e)
    with assms(2) Some m ev keys show ?thesis
      by (auto simp: exec_one_def on_kv_def add_item_def andThen_def is_error_def batch_ok_def)
  next
    case (Inr a)
    obtain re ef where a: "a = (re, ef)" by fastforce
    have t: "track {} c c1" "kv_opts c1 = kv_opts c"
      using steady_act [OF steady_command [OF Some] assms(1)] by (simp_all add: m Inr)
    have ne: "\<not> is_error (Some re)" using command_answer [OF Some] m Inr a by (fastforce simp: replies_def)
    show ?thesis
    proof (cases "replyByteLength (Some re) 0")
      case (Inl e)
      with assms(2) Some m \<open>x = Inr a\<close> a ev t keys show ?thesis
        by (auto simp: exec_one_def on_kv_def add_item_def andThen_def is_error_def batch_ok_def)
    next
      case (Inr b)
      have r: "exec_one ev n cmd args ((s, items), c) =
          (if n + b > 8 * 1024 * 1024
           then (Inr (n + b, True, ef), ((s, items @ [Some (RError (wireError EXEC_TOO_LARGE))]), c1))
           else (Inr (n + b, False, ef), ((s, items @ [Some re]), c1)))"
        using Some m \<open>x = Inr a\<close> a Inr by (simp add: exec_one_def on_kv_def add_item_def andThen_def)
      show ?thesis
      proof (cases "n + b > 8 * 1024 * 1024")
        case True
        with assms(2) r ev t keys show ?thesis by (auto simp: is_error_def batch_ok_def)
      next
        case False
        with assms(2) r ev t keys ne show ?thesis by (auto simp: batch_ok_def)
      qed
    qed
  qed
qed

lemma exec_each_run:
  assumes "kv_ok c" "exec_each ev n q ((s, items), c) = (r, ((s', items'), c'))"
  shows "\<exists>failed ef more. r = Inr (failed, ef) \<and> s' = s \<and> items' = items @ more \<and> length more = length q \<and>
    (failed \<longleftrightarrow> list_ex is_error more) \<and> batch_ok c failed c' \<and> (\<forall>opts. keys_ok opts c \<longrightarrow> keys_ok opts c')"
  using assms
proof (induction q arbitrary: c n items r s' items' c')
  case Nil
  then show ?case by (auto simp: batch_refl)
next
  case (Cons op q)
  obtain cmd args where op: "op = (cmd, args)" by fastforce
  obtain r1 s1 items1 c1 where one: "exec_one ev n cmd args ((s, items), c) = (r1, ((s1, items1), c1))" by (metis prod.exhaust)
  obtain n1 f1 ef1 item where r1: "r1 = Inr (n1, f1, ef1)" "s1 = s" "items1 = items @ [item]" "f1 \<longleftrightarrow> is_error item" "batch_ok c f1 c1"
    and k1: "\<forall>opts. keys_ok opts c \<longrightarrow> keys_ok opts c1"
    using exec_one_run [OF Cons.prems(1) one] by blast
  have ok1: "kv_ok c1" using r1(5) evolves_ok by (auto simp: batch_ok_def)
  obtain r2 s2 items2 c2 where each: "exec_each ev n1 q ((s, items1), c1) = (r2, ((s2, items2), c2))" by (metis prod.exhaust)
  obtain f2 ef2 more where r2: "r2 = Inr (f2, ef2)" "s2 = s" "items2 = items1 @ more" "length more = length q" "f2 \<longleftrightarrow> list_ex is_error more" "batch_ok c1 f2 c2"
    and k2: "\<forall>opts. keys_ok opts c1 \<longrightarrow> keys_ok opts c2"
    using Cons.IH [OF ok1 each] by blast
  have "(r, ((s', items'), c')) = (Inr (f1 \<or> f2, add_effects ef1 ef2), ((s, items1 @ more), c2))"
    using Cons.prems(2) one each r1 r2 by (simp add: op andThen_def)
  with r1 r2 batch_trans [OF r1(5) r2(6)] k1 k2 show ?case by (intro exI [of _ "f1 \<or> f2"] exI [of _ "item # more"]) auto
qed

text \<open>The batch throws exactly when a command has failed.\<close>

lemma exec_body_run:
  assumes "kv_ok c" "exec_body ev q ((s, []), c) = (r, ((s', items), c'))"
  shows "s' = s" "length items = length q" "(\<exists>ef. r = Inr ef \<and> \<not> list_ex is_error items) \<or> (r = Inl ABORT \<and> list_ex is_error items)"
    "batch_ok c (\<exists>e. r = Inl e) c'" "keys_ok opts c \<Longrightarrow> keys_ok opts c'"
proof -
  obtain r1 s1 items1 c1 where each: "exec_each ev (length (len_text (length q)) + 3) q ((s, []), c) = (r1, ((s1, items1), c1))" by (metis prod.exhaust)
  obtain failed ef where f: "r1 = Inr (failed, ef)" "s1 = s" "length items1 = length q" "failed \<longleftrightarrow> list_ex is_error items1" "batch_ok c failed c1"
      "\<forall>opts. keys_ok opts c \<longrightarrow> keys_ok opts c1"
    using exec_each_run [OF assms(1) each] by auto
  have r: "(r, ((s', items), c')) = (if failed then (Inl ABORT, ((s, items1), c1)) else (Inr ef, ((s, items1), c1)))"
    using assms(2) each f(1,2) by (cases failed) (simp_all add: exec_body_def andThen_def)
  show "s' = s" "length items = length q" "(\<exists>ef. r = Inr ef \<and> \<not> list_ex is_error items) \<or> (r = Inl ABORT \<and> list_ex is_error items)"
    "batch_ok c (\<exists>e. r = Inl e) c'" "keys_ok opts c \<Longrightarrow> keys_ok opts c'"
    using r f by (auto split: if_splits)
qed

lemma body_result: "kv_ok c \<Longrightarrow> batch_ok c (\<exists>e. fst (kv_part (exec_body ev q) (s, []) c) = Inl e) (snd (kv_part (exec_body ev q) (s, []) c))"
  by (cases "exec_body ev q ((s, []), c)"; cases "snd (exec_body ev q ((s, []), c))")
    (auto simp: kv_part_def dest: exec_body_run(4) split: prod.split)

lemma body_steady: "steady_op (kv_part (exec_body ev q) (s, []))"
proof (rule steady_ok)
  fix c assume "kv_ok c"
  from body_result [OF this, of ev q s]
  show "op_ok c (kv_part (exec_body ev q) (s, []) c) (\<lambda>_ _. True)"
    by (cases "kv_part (exec_body ev q) (s, []) c") (auto simp: batch_ok_def wp_def split: sum.split)
qed

lemma body_keys: "kv_ok c \<Longrightarrow> keys_ok opts c \<Longrightarrow> keys_ok opts (snd (kv_part (exec_body ev q) (s, []) c))"
  by (cases "exec_body ev q ((s, []), c)"; cases "snd (exec_body ev q ((s, []), c))")
    (auto simp: kv_part_def dest: exec_body_run(5) split: prod.split)

section \<open>All or nothing\<close>

text \<open>The same entries, versions, expiry times and counters: only the reported expiries may differ.\<close>

definition same_cache :: "kv \<Rightarrow> kv \<Rightarrow> bool" where
  "same_cache c c' \<longleftrightarrow> same_data (c\<lparr>kv_events := []\<rparr>) (c'\<lparr>kv_events := []\<rparr>)"

lemma commit_patch_Inl: "commit_patch now flt es ds s = (Inl e, s1) \<Longrightarrow> e = AOF_WRITE_FAILED"
  by (auto simp: commit_patch_def appendAof_def aofWriteError_def split: if_splits prod.splits sum.splits)

lemma exec_outcome:
  assumes ok: "kv_ok (sv_kv s)" and run: "run_queue ev q s = (r, s')"
  obtains (applied) items c2 w ef where "r = Inr (Answer (RArray items))" "\<not> list_ex is_error items" "length items = length q"
      "exec_body ev q ((s, []), opened_changes (sv_kv s)) = (Inr ef, (w, c2))" "entries (sv_kv s') = entries c2"
      "track {} (opened_changes (sv_kv s)) c2"
  | (aborted) items where "r = Inr (Answer (RArray items))" "list_ex is_error items" "length items = length q"
      "same_cache (sv_kv s) (sv_kv s')" "sv_aof s' = sv_aof s"
  | (failed) e where "r = Inl e" "same_cache (sv_kv s) (sv_kv s')"
proof -
  define commit :: "snapshot_entry list \<Rightarrow> string list \<Rightarrow> (server \<times> reply option list, unit) act"
    where "commit = (\<lambda>es ds sx. case commit_patch (ev_now ev) (ev_write ev) es ds (fst sx) of (r, s) \<Rightarrow> (r, (s, snd sx)))"
  obtain r1 s1 items c where ch: "kv_atomicChanges (ev_now ev) (exec_body ev q) commit ((s, []), sv_kv s) = (r1, ((s1, items), c))"
    by (metis prod.exhaust)
  define s2 where "s2 = report_expiries (s1\<lparr>sv_kv := c\<rparr>)"
  have l: "logged_changes (ev_now ev) (ev_write ev) (exec_body ev q) (s, []) = (r1, (s2, items))"
    using ch by (simp add: logged_changes_def commit_def s2_def)
  have same: "same_cache (sv_kv s) (sv_kv s2)" if "same_data (sv_kv s) c"
    using that by (simp add: same_cache_def same_data_def s2_def report_core)
  show ?thesis
  proof (cases r1)
    case (Inr ef)
    obtain es ds c2 w1 where f: "exec_body ev q ((s, []), opened_changes (sv_kv s)) = (Inr ef, (w1, c2))"
      and cm: "commit es ds w1 = (Inr (), (s1, items))" and c: "c = kept c2" and tr: "track {} (opened_changes (sv_kv s)) c2"
      by (rule atomicChanges_done [OF ok body_steady ch [unfolded Inr]])
    obtain s0 items0 where w1: "w1 = (s0, items0)" by fastforce
    have i: "length items0 = length q" "\<not> list_ex is_error items0"
      using exec_body_run(2,3) [OF opened_changes_ok(1) [OF ok] f [unfolded w1]] by auto
    have "items = items0" using cm by (auto simp: commit_def w1 split: prod.splits)
    moreover have "r = Inr (Answer (RArray items))" "s' = publish_all ef s2" using run l Inr by (simp_all add: run_queue_def)
    moreover have "entries (sv_kv s') = entries c2"
      using kept_facts(2) [OF ok tr] by (simp add: \<open>s' = publish_all ef s2\<close> publish_all_core s2_def report_core c)
    ultimately show ?thesis using applied f i tr by blast
  next
    case (Inl e)
    obtain c2 r0 w1 where evo: "evolves (opened_changes (sv_kv s)) c2" and c: "c = dropped (sv_kv s) c2"
      and f: "exec_body ev q ((s, []), opened_changes (sv_kv s)) = (r0, (w1, c2))"
      and w: "(r0 = Inl e \<and> (s1, items) = w1) \<or> (\<exists>a. r0 = Inr a \<and> ((s1, items) = w1 \<and> collect_changes (ev_now ev) c2 (hd (kv_changed c2)) = Inl e \<or> (\<exists>es ds. commit es ds w1 = (Inl e, (s1, items)))))"
      by (rule atomicChanges_failed [OF ok body_steady ch [unfolded Inl]])
    obtain s0 items0 where w1: "w1 = (s0, items0)" by fastforce
    note body = exec_body_run(1-3) [OF opened_changes_ok(1) [OF ok] f [unfolded w1]]
    have sm: "same_cache (sv_kv s) (sv_kv s2)" by (rule same) (simp add: c dropped_same(1) [OF ok evo])
    show ?thesis
    proof (cases "e = ABORT")
      case True
      have "r = Inr (Answer (RArray items))" "s' = s2" using run l Inl True by (simp_all add: run_queue_def)
      moreover have "(s1, items) = w1 \<and> list_ex is_error items0"
      proof -
        have "\<not> (collect_changes (ev_now ev) c2 (hd (kv_changed c2)) = Inl e)"
          using collect_changes_Inl [of "ev_now ev" c2 _ e] True by (auto simp: ABORT_def)
        moreover have "\<not> (\<exists>es ds. commit es ds w1 = (Inl e, (s1, items)))"
          using True by (auto simp: commit_def ABORT_def AOF_WRITE_FAILED_def dest!: commit_patch_Inl split: prod.splits)
        ultimately have "r0 = Inl e \<and> (s1, items) = w1" using w by blast
        with body(3) w1 show ?thesis by auto
      qed
      ultimately show ?thesis using aborted body sm w1 by (simp add: s2_def report_core)
    next
      case False
      have "r = Inl e" "s' = s2" using run l Inl False by (simp_all add: run_queue_def)
      with failed sm show ?thesis by simp
    qed
  qed
qed

section \<open>Versions grow with every request\<close>

definition advanced :: "kv \<Rightarrow> kv \<Rightarrow> bool" where
  "advanced c c' \<longleftrightarrow> kv_ok c' \<and> kv_generation c \<le> kv_generation c' \<and> (\<forall>k. ver k c \<le> ver k c') \<and>
     (\<not> exhausted c' \<longrightarrow> (\<forall>k. ver k c' = ver k c \<longrightarrow> kv_lookup k c' = kv_lookup k c))"

lemma moved_refl: "kv_ok c \<Longrightarrow> advanced c c"
  by (simp add: advanced_def)

lemma moved_trans: "advanced a b \<Longrightarrow> advanced b c \<Longrightarrow> advanced a c"
  unfolding advanced_def exhausted_def
  by (metis (no_types, opaque_lifting) of_int_le_iff order.antisym order.trans)

lemma moved_evolves: "evolves c c' \<Longrightarrow> advanced c c'"
  by (auto simp: evolves_def track_def advanced_def split: if_splits)

lemma moved_track: "track {} c c' \<Longrightarrow> advanced c c'"
  by (rule moved_evolves [OF evolvesI])

lemma moved_fields:
  assumes "advanced c c'" "kv_map d = kv_map c" "kv_versions d = kv_versions c" "kv_state d = kv_state c" "kv_generation d = kv_generation c"
  shows "advanced d c'"
  using assms by (simp add: advanced_def ver_def kv_lookup_def cong: option.case_cong)

lemma moved_tail: "advanced c (c'\<lparr>kv_changed := x\<rparr>) = advanced c c'" "advanced c (c'\<lparr>kv_events := y\<rparr>) = advanced c c'"
  by (simp_all add: advanced_def kv_ok_def ver_def kv_lookup_def exhausted_def cong: option.case_cong)

lemma moved_opened: "advanced (c\<lparr>kv_changed := x\<rparr>) c' \<Longrightarrow> advanced c c'"
  by (rule moved_fields [of "c\<lparr>kv_changed := x\<rparr>"]) simp_all

lemma moved_kept: "kv_ok c \<Longrightarrow> track {} (opened_changes c) c2 \<Longrightarrow> advanced c (kept c2)"
  unfolding kept_def Let_def moved_tail opened_changes_def
  by (rule moved_opened [OF moved_track [OF commit_track(1)]]) simp_all

lemma moved_dropped: "kv_ok c \<Longrightarrow> evolves (opened_changes c) c2 \<Longrightarrow> advanced c (dropped c c2)"
  unfolding dropped_def Let_def moved_tail opened_changes_def
  using restore_same(2) [of "c\<lparr>kv_changed := [] # kv_changed c\<rparr>" c2] by (intro moved_opened [OF moved_track]) simp_all

definition moves :: "kv \<Rightarrow> server \<Rightarrow> bool" where
  "moves c s \<longleftrightarrow> advanced c (sv_kv s)"

lemma moves_ok: "moves c s \<Longrightarrow> kv_ok (sv_kv s)"
  by (simp add: moves_def advanced_def)

lemma moves_core: "(\<And>c a. keeps (core c a) m) \<Longrightarrow> keeps (moves c0) m"
  by (rule keepsI) (simp add: moves_def keeps_def core_def)

lemma moves_run: "keeps (moves c0) m \<Longrightarrow> moves c0 s \<Longrightarrow> moves c0 (snd (m s))"
  by (rule keepsD)

lemma moves_then: "moves c (snd (m s)) \<Longrightarrow> (\<And>x s'. moves c s' \<Longrightarrow> moves c (snd (f x s'))) \<Longrightarrow> moves c (snd (andThen m f s))"
  by (cases "m s"; cases "fst (m s)") (auto simp: andThen_def)

lemma moves_with_kv: "steady_op m \<Longrightarrow> keeps (moves c0) (with_kv m)"
proof (rule keepsI)
  fix s assume m: "steady_op m" and s: "moves c0 s"
  obtain r c where r: "m (sv_kv s) = (r, c)" by fastforce
  have "advanced (sv_kv s) c" using moved_evolves [OF steady_evolves [OF m moves_ok [OF s]]] by (simp add: r)
  with s show "moves c0 (snd (with_kv m s))"
    by (simp add: moves_def with_kv_def r report_core moved_tail moved_trans [of c0 "sv_kv s"])
qed

lemma moves_logged:
  assumes st: "steady_op (kv_part fn (s, x))" and out: "\<And>c r w c'. fn ((s, x), c) = (r, (w, c')) \<Longrightarrow> fst w = s" and s: "moves c0 s"
    and run: "logged_changes now flt fn (s, x) = (r, (s', x'))"
  shows "moves c0 s'"
proof -
  note ok = moves_ok [OF s]
  obtain commit s1 c where ch: "kv_atomicChanges now fn commit ((s, x), sv_kv s) = (r, ((s1, x'), c))" and s': "s' = report_expiries (s1\<lparr>sv_kv := c\<rparr>)"
    using run by (auto simp: logged_changes_def split: prod.splits)
  have "advanced (sv_kv s) c"
  proof (cases r)
    case (Inr a)
    show ?thesis by (rule atomicChanges_done [OF ok st ch [unfolded Inr]]) (simp add: moved_kept [OF ok])
  next
    case (Inl e)
    show ?thesis by (rule atomicChanges_failed [OF ok st ch [unfolded Inl]]) (simp add: moved_dropped [OF ok])
  qed
  with s show ?thesis by (simp add: moves_def s' report_core moved_tail moved_trans [of c0 "sv_kv s"])
qed

lemma moves_appendAof: "keeps (moves c0) (appendAof now flt op)"
  by (rule keepsI) (auto simp: moves_def appendAof_def aofWriteError_def rememberPersistenceError_def forgetPersistenceError_def
      syncAofRecoveryStatus_def split: prod.split sum.split recovery.split)

lemma moves_append_effects: "keeps (moves c0) (append_effects now flt ef)"
  by (auto simp: append_effects_def simp del: returns_apply intro!: moves_appendAof keeps_returns split: list.split)

lemma moves_publish_all: "keeps (moves c0) (modify (publish_all ef))"
  by (rule keeps_modify) (simp add: moves_def publish_all_core)

lemma moves_mutation:
  assumes "steady_op m"
  shows "keeps (moves c0) (runCacheMutation now flt m)"
proof (rule keepsI)
  fix s assume s: "moves c0 s"
  have l: "moves c0 (snd (case logged_changes now flt (on_kv m) (s, ()) of (r, (s', _)) \<Rightarrow> (r, s')))"
  proof -
    obtain r s' where run: "logged_changes now flt (on_kv m) (s, ()) = (r, (s', ()))" by (metis prod.exhaust unit.exhaust)
    show ?thesis
      using moves_logged [OF _ _ s run] assms by (fastforce simp: run on_kv_def split: prod.splits)
  qed
  show "moves c0 (snd (runCacheMutation now flt m s))"
    unfolding runCacheMutation_def
    by (auto intro!: moves_then s l moves_run [OF moves_with_kv [OF assms]] moves_run [OF moves_append_effects] moves_run [OF moves_publish_all])
qed

lemma moves_queue: "keeps (moves c0) (run_queue ev q)"
proof (rule keepsI)
  fix s assume s: "moves c0 s"
  obtain r s1 items where run: "logged_changes (ev_now ev) (ev_write ev) (exec_body ev q) (s, []) = (r, (s1, items))"
    by (metis prod.exhaust)
  have out: "fst w = s" if "exec_body ev q ((s, []), c) = (r, (w, c'))" "kv_ok c" for c r w c'
    using exec_body_run(1) [OF that(2), of ev q s r "fst w" "snd w" c'] that(1) by simp
  have "moves c0 s1"
  proof -
    note ok = moves_ok [OF s]
    obtain commit s2 c where ch: "kv_atomicChanges (ev_now ev) (exec_body ev q) commit ((s, []), sv_kv s) = (r, ((s2, items), c))"
      and s1: "s1 = report_expiries (s2\<lparr>sv_kv := c\<rparr>)"
      using run by (auto simp: logged_changes_def split: prod.splits)
    have "advanced (sv_kv s) c"
    proof (cases r)
      case (Inr a)
      show ?thesis by (rule atomicChanges_done [OF ok body_steady ch [unfolded Inr]]) (simp add: moved_kept [OF ok])
    next
      case (Inl e)
      show ?thesis by (rule atomicChanges_failed [OF ok body_steady ch [unfolded Inl]]) (simp add: moved_dropped [OF ok])
    qed
    with s show ?thesis by (simp add: moves_def s1 report_core moved_tail moved_trans [of c0 "sv_kv s"])
  qed
  then show "moves c0 (snd (run_queue ev q s))"
    by (simp add: run_queue_def run moves_def publish_all_core split: sum.split)
qed

lemma moves_for_conn: "keeps (moves c0) (for_conn i f)"
  by (rule moves_core) (rule core_for_conn)

lemma moves_exec: "keeps (moves c0) (execTransaction ev i)"
  by (rule keepsI)
    (auto simp: execTransaction_def Let_def answer_def intro!: moves_then moves_run [OF moves_for_conn] moves_run [OF moves_queue]
      moves_run [OF moves_with_kv [OF steady_versions]])

lemma moves_watch_each: "keeps (moves c0) (watch_each now i ks)"
proof (induction ks)
  case (Cons k ks)
  show ?case
    by (rule keepsI) (auto intro!: moves_then moves_run [OF Cons] moves_run [OF moves_with_kv [OF steady_getVersion]] moves_run [OF moves_for_conn])
qed (unfold watch_each.simps, rule keeps_returns)

lemma moves_watch: "keeps (moves c0) (do_watch ev i args)"
  by (rule keepsI) (auto simp: do_watch_def answer_def refuse_def intro!: moves_then moves_run [OF moves_for_conn]
      moves_run [OF moves_watch_each] split: sum.split)

lemma moves_execute: "keeps (moves c0) (executeCommand ev i cmd args)"
proof (cases "cache_command (ev_up ev) (ev_now ev) cmd args")
  case (Some m)
  show ?thesis unfolding executeCommand_def Some option.case
    by (intro keeps_andThen moves_with_kv steady_command [OF Some] core_answer)
next
  case None
  show ?thesis unfolding executeCommand_def None option.case
    by (rule keepsI) (auto simp: answer_def refuse_def intro!: moves_run [OF moves_core [OF core_auth]] moves_run [OF moves_core [OF core_do_publish]]
        moves_run [OF moves_core [OF core_do_subscribe]] moves_run [OF moves_core [OF core_do_unsubscribe]])
qed

lemma moves_dispatch: "keeps (moves c0) (dispatch ev i cmd args)"
proof (rule keepsI)
  fix s assume s: "moves c0 s"
  have "moves c0 (snd (case cache_command (ev_up ev) (ev_now ev) cmd a of
      Some m \<Rightarrow> andThen (runCacheMutation (ev_now ev) (ev_write ev) m) answer s | None \<Rightarrow> refuse ''unknown command'' s))" for a
    by (auto simp: refuse_def answer_def s split: option.split intro!: moves_then moves_run [OF moves_mutation] steady_command)
  with s show "moves c0 (snd (dispatch ev i cmd args s))"
    unfolding dispatch_def
    by (simp add: refuse_def moves_run [OF moves_watch] moves_run [OF moves_exec] moves_run [OF moves_execute]
        moves_run [OF moves_core [OF core_do_multi(1)]] moves_run [OF moves_core [OF core_do_multi(2)]] moves_run [OF moves_core [OF core_do_multi(3)]]
        moves_run [OF keeps_andThen [OF moves_for_conn core_answer(1)]])
qed

definition persists :: "env \<times> nat \<times> reply \<Rightarrow> bool" where
  "persists q \<longleftrightarrow> (case q of (ev, i, request) \<Rightarrow>
     (case requestArgv request of Inl _ \<Rightarrow> False | Inr argv \<Rightarrow> ev_up ev (hd argv) \<in> {''SAVE'', ''LOAD''}))"

lemma moves_finish: "moves c0 s \<Longrightarrow> moves c0 (snd (finish ev i r s))"
  using core_finish [of "sv_kv s" "sv_aof s" ev i r s] by (simp add: moves_def core_def)

lemma moves_request:
  assumes "\<not> persists (ev, i, request)" "moves c0 s"
  shows "moves c0 (snd (onRequest ev i request s))"
proof (cases "requestArgv request")
  case (Inl e)
  with assms(2) core_reply(1) [of "sv_kv s" "sv_aof s" i "error_reply e" s] show ?thesis
    by (simp add: onRequest_def moves_def core_def)
next
  case (Inr argv)
  let ?cmd = "ev_up ev (hd argv)"
  obtain r s1 where d: "dispatch ev i ?cmd (tl argv) s = (r, s1)" by fastforce
  obtain b s2 where f: "finish ev i r s1 = (b, s2)" by fastforce
  have "moves c0 s1" using moves_run [OF moves_dispatch assms(2), of ev i ?cmd "tl argv"] by (simp add: d)
  then have "moves c0 s2" using moves_finish [of c0 s1 ev i r] by (simp add: f)
  then have c: "moves c0 (record_command ev x n s2)" for x n by (simp add: moves_def record_command_def)
  have r: "moves c0 (reply_to i x s)" for x
    using assms(2) core_reply(1) [of "sv_kv s" "sv_aof s" i x s] by (simp add: moves_def core_def)
  have np: "\<not> (?cmd \<in> {''SAVE'', ''LOAD''} \<and> cn_queue (conn_of i s) = None)" using assms(1) Inr by (simp add: persists_def)
  show ?thesis
    unfolding onRequest_def Inr sum.case Let_def if_not_P [OF np] d f prod.case using c r by simp
qed

section \<open>The versions of the server's cache\<close>

text \<open>A request that does not use up the counter of changes.\<close>

definition request_stepped :: "server \<Rightarrow> server \<Rightarrow> bool" where
  "request_stepped s s' \<longleftrightarrow> (\<exists>q. \<not> persists q \<and> s' = serve [q] s \<and> \<not> exhausted (sv_kv s'))"

interpretation sv: versioned "\<lambda>s. kv_ok (sv_kv s)" request_stepped "\<lambda>k s. ver k (sv_kv s)" "\<lambda>k s. kv_lookup k (sv_kv s)"
proof
  fix s s' k
  assume ok: "kv_ok (sv_kv s)" and "request_stepped s s'"
  then obtain ev i request where q: "\<not> persists (ev, i, request)" "s' = snd (onRequest ev i request s)" and e: "\<not> exhausted (sv_kv s')"
    by (auto simp: request_stepped_def)
  have "moves (sv_kv s) s" using moved_refl [OF ok] by (simp add: moves_def)
  from moves_request [OF q(1) this] have m: "advanced (sv_kv s) (sv_kv s')" by (simp add: moves_def q(2))
  then show "kv_ok (sv_kv s')" "ver k (sv_kv s) \<le> ver k (sv_kv s')" by (simp_all add: advanced_def)
  show "kv_lookup k (sv_kv s') = kv_lookup k (sv_kv s)" if "ver k (sv_kv s') = ver k (sv_kv s)" using m e that by (simp add: advanced_def)
qed

text \<open>
  \<open>EXEC\<close> as a whole: the check of the watched keys, then the queue. Either no live entry changes,
  or every command of the queue has succeeded and the watched keys are as they were watched.
\<close>

lemma expires_live: "only_expires now c c' \<Longrightarrow> live now k c' = live now k c"
proof -
  assume "only_expires now c c'"
  then have "kv_lookup k c' = kv_lookup k c \<or> (kv_lookup k c' = None \<and> live now k c = None)" by (auto simp: only_expires_def)
  then show ?thesis by (auto simp: live_def split: option.splits if_splits)
qed

lemma versions_live:
  assumes "versions_unchanged now ws c = (r, c')"
  shows "live now k c' = live now k c"
proof -
  have "only_expires now c (snd (versions_unchanged now ws c))" by (rule keepsD [OF idle_versions]) (rule idle_refl)
  then show ?thesis using expires_live [of now c c' k] by (simp add: assms)
qed

lemma same_cache_live: "same_cache c c' \<Longrightarrow> live now k c' = live now k c"
  by (simp add: same_cache_def same_data_def live_def kv_lookup_def)

lemma core_conn: "sv_kv (set_conn i cn s) = sv_kv s" "sv_aof (set_conn i cn s) = sv_aof s"
  by (simp_all add: set_conn_def)

text \<open>The state between the check and the queue.\<close>

lemma exec_cases:
  assumes ok: "kv_ok (sv_kv s)" and q: "cn_queue (conn_of i s) = Some q" and run: "execTransaction ev i s = (r, s')"
  obtains (stopped) "\<And>k. live (ev_now ev) k (sv_kv s') = live (ev_now ev) k (sv_kv s)"
  | (ran) sx c where "versions_unchanged (ev_now ev) (case cn_watch (conn_of i s) of None \<Rightarrow> [] | Some ws \<Rightarrow> ws) (sv_kv s) = (Inr True, c)"
      "sv_kv sx = c\<lparr>kv_events := []\<rparr>" "run_queue ev q sx = (r, s')"
proof -
  let ?ws = "case cn_watch (conn_of i s) of None \<Rightarrow> [] | Some ws \<Rightarrow> ws"
  let ?s1 = "set_conn i ((conn_of i s)\<lparr>cn_queue := None, cn_txBytes := 0, cn_txFailed := False, cn_watch := None\<rparr>) s"
  obtain b c where v: "versions_unchanged (ev_now ev) ?ws (sv_kv s) = (b, c)" by fastforce
  have l: "live (ev_now ev) k c = live (ev_now ev) k (sv_kv s)" for k
    by (rule versions_live [OF v])
  define sx where "sx = report_expiries (?s1\<lparr>sv_kv := c\<rparr>)"
  have sx: "sv_kv sx = c\<lparr>kv_events := []\<rparr>" by (simp add: sx_def report_core)
  have lx: "live (ev_now ev) k (sv_kv sx) = live (ev_now ev) k (sv_kv s)" for k
    using l [of k] by (simp add: sx live_def kv_lookup_def)
  have run': "(r, s') = (if cn_txFailed (conn_of i s) then (Inl (DbError TRANSACTION_ERROR ''transaction aborted after queue limit''), ?s1)
      else case b of Inl e \<Rightarrow> (Inl e, sx) | Inr same \<Rightarrow> if \<not> same then (Inr (Answer RNil), sx) else run_queue ev q sx)"
    using run q v
    by (cases "cn_txFailed (conn_of i s)"; cases b)
      (auto simp: execTransaction_def Let_def andThen_def for_conn_def with_kv_def answer_def core_conn sx_def)
  show ?thesis
  proof (cases "\<not> cn_txFailed (conn_of i s) \<and> b = Inr True")
    case True
    then show ?thesis using run' v sx by (intro ran) simp_all
  next
    case False
    then have "s' = ?s1 \<or> s' = sx" using run' by (auto split: if_splits sum.splits)
    then show ?thesis using lx by (intro stopped) (auto simp: core_conn)
  qed
qed

theorem exec_applied:
  assumes ok: "kv_ok (sv_kv s)" and q: "cn_queue (conn_of i s) = Some q" and run: "execTransaction ev i s = (r, s')"
    and changed: "live (ev_now ev) k (sv_kv s') \<noteq> live (ev_now ev) k (sv_kv s)"
  obtains sx c items c2 w ef where
    "versions_unchanged (ev_now ev) (case cn_watch (conn_of i s) of None \<Rightarrow> [] | Some ws \<Rightarrow> ws) (sv_kv s) = (Inr True, c)"
    "sv_kv sx = c\<lparr>kv_events := []\<rparr>" "r = Inr (Answer (RArray items))" "list_all (\<lambda>it. \<not> is_error it) items" "length items = length q"
    "exec_body ev q ((sx, []), opened_changes (sv_kv sx)) = (Inr ef, (w, c2))" "entries (sv_kv s') = entries c2"
proof (cases rule: exec_cases [OF ok q run])
  case 1
  with changed show ?thesis by simp
next
  case (2 sx c)
  have "kv_ok c" using steady_run [OF steady_versions ok] 2(1) by (metis snd_conv)
  then have okx: "kv_ok (sv_kv sx)" by (simp add: 2(2) kv_ok_def)
  have "live (ev_now ev) k c = live (ev_now ev) k (sv_kv s)"
    by (rule versions_live [OF 2(1)])
  then have lx: "live (ev_now ev) k (sv_kv sx) = live (ev_now ev) k (sv_kv s)" by (simp add: 2(2) live_def kv_lookup_def)
  show ?thesis
  proof (cases rule: exec_outcome [OF okx 2(3)])
    case (1 items c2 w ef)
    show ?thesis by (rule that [OF 2(1,2) 1(1) _ 1(3,4,5)]) (use 1(2) in \<open>simp add: list_ex_iff list_all_iff\<close>)
  next
    case (2 items)
    with changed lx show ?thesis by (simp add: same_cache_live)
  next
    case (3 e)
    with changed lx show ?thesis by (simp add: same_cache_live)
  qed
qed

end
