(* ===== verification/Server_Safety.thy ===== *)
theory Server_Safety
  imports Server_Tx
begin

text \<open>
  What requests cannot do: without the password nothing but replies, inside \<open>MULTI\<close> nothing but
  queueing, and a mutation that fails nothing at all when the log is on. Without a log a command
  that fails half-way keeps its first half.
\<close>

section \<open>Watched keys\<close>

lemma versions_check: "versions_unchanged now ws = check_watched now ws"
  by (induction now ws rule: check_watched.induct) (simp_all cong: if_cong)

section \<open>Without the password\<close>

definition only_output :: "nat \<Rightarrow> server \<Rightarrow> server \<Rightarrow> bool" where
  "only_output i s s' \<longleftrightarrow> sv_kv s' = sv_kv s \<and> sv_aof s' = sv_aof s \<and> sv_hub s' = sv_hub s \<and> sv_config s' = sv_config s \<and>
     (\<forall>j. j \<noteq> i \<longrightarrow> conn_of j s' = conn_of j s) \<and>
     (\<exists>out closed. conn_of i s' = (conn_of i s)\<lparr>cn_out := out, cn_closed := closed\<rparr>)"

lemma only_output_refl: "only_output i s s"
proof -
  have "\<exists>out closed. conn_of i s = (conn_of i s)\<lparr>cn_out := out, cn_closed := closed\<rparr>"
    by (intro exI [of _ "cn_out (conn_of i s)"] exI [of _ "cn_closed (conn_of i s)"]) simp
  then show ?thesis by (simp add: only_output_def)
qed

lemma only_output_trans: "only_output i s s1 \<Longrightarrow> only_output i s1 s2 \<Longrightarrow> only_output i s s2"
  unfolding only_output_def by (elim conjE exE) (auto intro!: exI)

lemma conn_of_set [simp]: "conn_of i (set_conn i cn s) = cn" "j \<noteq> i \<Longrightarrow> conn_of j (set_conn i cn s) = conn_of j s"
  by (simp_all add: conn_of_def set_conn_def)

lemma only_output_conn: "only_output i s (set_conn i ((conn_of i s)\<lparr>cn_out := out, cn_closed := b\<rparr>) s)"
  unfolding only_output_def by (auto simp: set_conn_def [of _ _ s] intro!: exI) (simp_all add: conn_of_def)

lemma only_output_reply: "only_output i s (reply_to i r s)" "only_output i s (end_conn i s)"
proof -
  let ?cn = "conn_of i s"
  have closed: "?cn\<lparr>cn_closed := True\<rparr> = ?cn" if "cn_closed ?cn" using that by (cases ?cn) simp
  show "only_output i s (reply_to i r s)"
  proof (cases "cn_closed ?cn")
    case True
    then have "reply_to i r s = set_conn i ?cn s" by (simp add: reply_to_def writeReply_def write_conn_def)
    then show ?thesis using only_output_conn [of i s True "cn_out ?cn"] closed [OF True] by simp
  next
    case False
    then have "reply_to i r s = set_conn i (?cn\<lparr>cn_out := cn_out ?cn @ [sendable_reply (Some r)]\<rparr>) s"
      by (simp add: reply_to_def writeReply_def write_conn_def)
    then show ?thesis using only_output_conn [of i s "cn_closed ?cn" "cn_out ?cn @ [sendable_reply (Some r)]"] by simp
  qed
  show "only_output i s (end_conn i s)"
    using only_output_conn [of i s True "cn_out ?cn"] by (simp add: end_conn_def)
qed

text \<open>A request that is no \<open>AUTH\<close> with the password \<open>p\<close>.\<close>

definition no_login :: "string \<Rightarrow> env \<times> nat \<times> reply \<Rightarrow> bool" where
  "no_login p q \<longleftrightarrow> (case q of (ev, i, request) \<Rightarrow>
     (case requestArgv request of Inl _ \<Rightarrow> True | Inr argv \<Rightarrow> \<not> (ev_up ev (hd argv) = ''AUTH'' \<and> tl argv = [p])))"

lemma locked_request:
  assumes "cf_password (sv_config s) = Some p" "\<not> cn_authed (conn_of i s)" "cn_queue (conn_of i s) = None" "no_login p (ev, i, request)"
  shows "only_output i s (snd (onRequest ev i request s))"
proof (cases "requestArgv request")
  case (Inl e)
  then show ?thesis by (simp add: onRequest_def only_output_reply)
next
  case (Inr argv)
  let ?cmd = "ev_up ev (hd argv)"
  have slow: "only_output i s (record_command ev x n s')" if "only_output i s s'" for x n s'
    using that by (simp add: only_output_def record_command_def conn_of_def)
  have ended: "only_output i s (end_conn i (reply_to i r s))" for r
    by (rule only_output_trans [OF only_output_reply(1) only_output_reply(2)])
  consider "?cmd = ''AUTH''" | "?cmd = ''QUIT''" | "?cmd \<noteq> ''AUTH''" "?cmd \<noteq> ''QUIT''" by blast
  then show ?thesis
  proof cases
    case 1
    have d: "\<exists>m. dispatch ev i ?cmd (tl argv) s = (Inl (PlainError m), s)"
    proof -
      have "cache_command (ev_up ev) (ev_now ev) ''AUTH'' (tl argv) = None" by (simp add: cache_command_def)
      moreover have "\<exists>m. do_auth i (tl argv) s = (Inl (PlainError m), s)"
        using assms(1,4) Inr 1 by (cases "tl argv") (auto simp: do_auth_def refuse_def no_login_def)
      ultimately show ?thesis using 1 assms(3) by (simp add: dispatch_def executeCommand_def AOF_COMMANDS_def)
    qed
    then obtain m where "dispatch ev i ?cmd (tl argv) s = (Inl (PlainError m), s)" ..
    then show ?thesis using Inr 1 by (simp add: onRequest_def Let_def finish_def slow only_output_reply)
  next
    case 2
    have "cache_command (ev_up ev) (ev_now ev) ''QUIT'' (tl argv) = None" by (simp add: cache_command_def)
    then have "dispatch ev i ?cmd (tl argv) s = (Inr CloseConn, s)"
      using 2 assms(3) by (simp add: dispatch_def executeCommand_def AOF_COMMANDS_def)
    then show ?thesis using Inr 2 by (simp add: onRequest_def Let_def finish_def slow ended)
  next
    case 3
    with Inr assms(2) show ?thesis by (simp add: onRequest_def Let_def only_output_reply)
  qed
qed

theorem locked_history:
  assumes "cf_password (sv_config s) = Some p" "\<not> cn_authed (conn_of i s)" "cn_queue (conn_of i s) = None"
    and "list_all (\<lambda>q. fst (snd q) = i \<and> no_login p q) reqs"
  shows "only_output i s (serve reqs s)"
  using assms
proof (induction reqs arbitrary: s)
  case (Cons q reqs)
  obtain ev request where q: "q = (ev, i, request)" using Cons.prems(4) by (cases q) auto
  have one: "only_output i s (snd (onRequest ev i request s))"
    by (rule locked_request [OF Cons.prems(1-3)]) (use Cons.prems(4) q in simp)
  then have "only_output i (snd (onRequest ev i request s)) (serve reqs (snd (onRequest ev i request s)))"
    using Cons.prems by (intro Cons.IH) (auto simp: only_output_def)
  with one show ?case by (simp add: q only_output_trans)
qed (simp add: only_output_refl)

section \<open>Mutations\<close>

lemma appendAof_cases:
  assumes "appendAof now flt op s = (r, s')"
  shows "(r = Inr () \<and> sv_kv s' = sv_kv s) \<or>
    (r = Inl AOF_WRITE_FAILED \<and> sv_degraded s' \<and> sv_lastError s' = Some ''AOF_WRITE_FAILED'' \<and> sv_kv s' = sv_kv s)"
  using assms
  by (auto simp: appendAof_def aofWriteError_def rememberPersistenceError_def forgetPersistenceError_def syncAofRecoveryStatus_def
      split: if_splits prod.splits sum.splits recovery.splits)

text \<open>With the log on, a mutation that fails changes neither the cache nor, unless the write itself failed, the log.\<close>

lemma failed_mutation:
  assumes ok: "kv_ok (sv_kv s)" and st: "steady_op m" and en: "aof_enabled s" and run: "runCacheMutation now flt m s = (Inl e, s')"
  shows "same_cache (sv_kv s) (sv_kv s') \<and>
    (sv_aof s' = sv_aof s \<or> (e = AOF_WRITE_FAILED \<and> sv_degraded s' \<and> sv_lastError s' = Some ''AOF_WRITE_FAILED''))"
proof (cases "sv_closing s")
  case True
  then show ?thesis using run by (auto simp: runCacheMutation_def same_cache_def same_data_def)
next
  case False
  define commit :: "snapshot_entry list \<Rightarrow> string list \<Rightarrow> (server \<times> unit, unit) act"
    where "commit = (\<lambda>es ds sx. case commit_patch now flt es ds (fst sx) of (r, s) \<Rightarrow> (r, (s, snd sx)))"
  obtain r1 s1 c where ch: "kv_atomicChanges now (on_kv m) commit ((s, ()), sv_kv s) = (r1, ((s1, ()), c))"
    by (metis prod.exhaust unit.exhaust)
  define s2 where "s2 = report_expiries (s1\<lparr>sv_kv := c\<rparr>)"
  have l: "logged_changes now flt (on_kv m) (s, ()) = (r1, (s2, ()))" using ch by (simp add: logged_changes_def commit_def s2_def)
  have r1: "r1 = Inl e" "s' = s2" using run False en l by (cases r1; auto simp: runCacheMutation_def andThen_def split: prod.splits)+
  have st': "steady_op (kv_part (on_kv m) (s, ()))" using st by simp
  obtain c2 r0 w1 where evo: "evolves (opened_changes (sv_kv s)) c2" and c: "c = dropped (sv_kv s) c2"
    and f: "on_kv m ((s, ()), opened_changes (sv_kv s)) = (r0, (w1, c2))"
    and w: "(r0 = Inl e \<and> (s1, ()) = w1) \<or> (\<exists>a. r0 = Inr a \<and> ((s1, ()) = w1 \<and> collect_changes now c2 (hd (kv_changed c2)) = Inl e \<or>
      (\<exists>es ds. commit es ds w1 = (Inl e, (s1, ())))))"
    by (rule atomicChanges_failed [OF ok st' ch [unfolded r1(1)]])
  have w1: "w1 = (s, ())" using f by (simp add: on_kv_def split: prod.splits)
  have keep: "sv_degraded (fold onCacheExpiry ks x) = sv_degraded x" "sv_lastError (fold onCacheExpiry ks x) = sv_lastError x" for ks x
    by (induction ks arbitrary: x) (simp_all add: onCacheExpiry_def publishInvalidate_def hub_publish_def split: prod.split)
  have rep: "sv_degraded s2 = sv_degraded s1" "sv_lastError s2 = sv_lastError s1" "sv_aof s2 = sv_aof s1"
    by (simp_all add: s2_def report_expiries_def keep expiry_core)
  have "same_cache (sv_kv s) (sv_kv s2)"
    using dropped_same(1) [OF ok evo] by (simp add: same_cache_def same_data_def s2_def report_core c)
  moreover have "sv_aof s1 = sv_aof s \<or> (e = AOF_WRITE_FAILED \<and> sv_degraded s1 \<and> sv_lastError s1 = Some ''AOF_WRITE_FAILED'')"
    using w
  proof (elim disjE exE conjE)
    fix a es ds assume "commit es ds w1 = (Inl e, (s1, ()))"
    then have "commit_patch now flt es ds s = (Inl e, s1)"
      unfolding commit_def w1 by (cases "commit_patch now flt es ds s") simp
    then have "appendAof now flt (patch_op es ds) s = (Inl e, s1)" by (simp add: commit_patch_def split: if_splits)
    from appendAof_cases [OF this] show ?thesis by auto
  qed (use w1 in simp_all)
  ultimately show ?thesis by (simp add: r1(2) rep)
qed

section \<open>Inside \<open>MULTI\<close>\<close>

lemma queued_dispatch:
  assumes "cn_queue (conn_of i s) \<noteq> None" "cmd \<noteq> ''EXEC''"
  shows "core (sv_kv s) (sv_aof s) (snd (dispatch ev i cmd args s))"
proof -
  have me: "core (sv_kv s) (sv_aof s) s" by (simp add: core_def)
  have "cmd = ''WATCH'' \<Longrightarrow> snd (do_watch ev i args s) = s" using assms(1) by (auto simp: do_watch_def refuse_def)
  then show ?thesis
    using assms me unfolding dispatch_def refuse_def
    by (simp add: core_run [OF core_do_multi(1)] core_run [OF core_do_multi(2)] core_run [OF core_do_multi(3)]
        core_run [OF keeps_andThen [OF core_for_conn core_answer(1)]])
qed

lemma queued_request:
  assumes "cn_queue (conn_of i s) \<noteq> None" "\<And>argv. requestArgv request = Inr argv \<Longrightarrow> ev_up ev (hd argv) \<noteq> ''EXEC''"
  shows "core (sv_kv s) (sv_aof s) (snd (onRequest ev i request s))"
proof -
  have me: "core (sv_kv s) (sv_aof s) s" by (simp add: core_def)
  show ?thesis
  proof (cases "requestArgv request")
    case (Inl e)
    with me show ?thesis by (simp add: onRequest_def)
  next
    case (Inr argv)
    obtain r s1 where d: "dispatch ev i (ev_up ev (hd argv)) (tl argv) s = (r, s1)" by fastforce
    obtain b s2 where f: "finish ev i r s1 = (b, s2)" by fastforce
    have "core (sv_kv s) (sv_aof s) s1"
      using queued_dispatch [OF assms(1) assms(2) [OF Inr], of ev "tl argv"] by (simp add: d)
    then have "core (sv_kv s) (sv_aof s) s2" using core_finish [of "sv_kv s" "sv_aof s" ev i r s1] by (simp add: f)
    then have c: "core (sv_kv s) (sv_aof s) (record_command ev x n s2)" for x n by simp
    have np: "\<not> (ev_up ev (hd argv) \<in> {''SAVE'', ''LOAD''} \<and> cn_queue (conn_of i s) = None)" using assms(1) by simp
    show ?thesis unfolding onRequest_def Inr sum.case Let_def if_not_P [OF np] d f prod.case using c me by simp
  qed
qed

section \<open>Without a log\<close>

text \<open>\<open>DEL\<close> of a key that is there and of one that is too long: the first is gone, and nobody is told.\<close>

lemma partial_delete:
  assumes "\<not> aof_enabled s" "\<not> sv_closing s" "live now k1 (sv_kv s) = Some e" "\<not> exhausted (sv_kv s)"
    and "length k1 \<le> o_maxKeyBytes (kv_opts (sv_kv s))" "o_maxKeyBytes (kv_opts (sv_kv s)) < length k2"
    and "kv_events (sv_kv s) = []"
  shows "\<exists>s'. runCacheMutation now flt (cmd_del now [k1, k2]) s = (Inl (PlainError ''cache key exceeds maxKeyBytes''), s') \<and>
    kv_lookup k1 (sv_kv s') = None \<and> sv_conns s' = sv_conns s"
proof -
  let ?c = "sv_kv s"
  have e: "kv_lookup k1 ?c = Some e" "\<not> isExpired e now" using assms(3) by (auto simp: live_def split: option.splits if_splits)
  obtain r c1 where b: "bumpVersion k1 (remove_entry k1 e ?c) = (r, c1)" by fastforce
  have g: "\<not> exhausted (remove_entry k1 e ?c)" using assms(4) by (simp add: exhausted_def prim_defs)
  then have r: "r = Inr ()" using bumpVersion_Inl [of k1 "remove_entry k1 e ?c"] b by (cases r) auto
  have same: "kv_map c1 = kv_map (remove_entry k1 e ?c)" "kv_opts c1 = kv_opts ?c" "kv_events c1 = kv_events ?c"
    using b by (auto simp: bumpVersion_def Let_def prune_loop_same prim_defs split: if_splits)
  have d1: "kv_del now k1 ?c = (Inr True, c1)"
    using assms(5) e b r by (simp add: kv_del_def check_def assertKeyFits_def andThen_def)
  have d2: "kv_del now k2 c1 = (Inl (PlainError ''cache key exceeds maxKeyBytes''), c1)"
    using assms(6) same(2) by (simp add: kv_del_def check_def assertKeyFits_def andThen_def)
  have run: "cmd_del now [k1, k2] ?c = (Inl (PlainError ''cache key exceeds maxKeyBytes''), c1)"
    by (simp add: cmd_del_def andThen_def d1 d2)
  have ev: "kv_events c1 = []" using same(3) assms(7) by simp
  have "kv_lookup k1 c1 = None" by (simp add: kv_lookup_def same(1))
  then show ?thesis
    using assms(1,2) run ev by (simp add: runCacheMutation_def andThen_def with_kv_def report_expiries_def kv_lookup_def)
qed

end
