(* ===== verification/Server_Recovery.thy ===== *)
theory Server_Recovery
  imports Server_History
begin

text \<open>
  Saving and starting again. While a snapshot is written the server goes on; whether it stops
  before the log is rotated or after, the snapshot and the records behind it give back the
  entries that it served last.
\<close>

section \<open>What saving and starting leave alone\<close>

lemma publish_closing: "sv_closing (publishInvalidate ev s) = sv_closing s" "sv_config (publishInvalidate ev s) = sv_config s"
  by (simp_all add: publishInvalidate_def hub_publish_def split: prod.split)

lemma report_closing: "sv_closing (report_expiries s) = sv_closing s" "sv_config (report_expiries s) = sv_config s"
proof -
  have "sv_closing (fold onCacheExpiry ks s) = sv_closing s \<and> sv_config (fold onCacheExpiry ks s) = sv_config s" for ks s
    by (induction ks arbitrary: s) (simp_all add: onCacheExpiry_def publish_closing)
  then show "sv_closing (report_expiries s) = sv_closing s" "sv_config (report_expiries s) = sv_config s"
    by (simp_all add: report_expiries_def)
qed

lemma status_core [simp]:
  "sv_kv (syncAofRecoveryStatus now s) = sv_kv s" "sv_aof (syncAofRecoveryStatus now s) = sv_aof s"
  "sv_closing (syncAofRecoveryStatus now s) = sv_closing s"
  "sv_kv (forgetPersistenceError x y s) = sv_kv s" "sv_aof (forgetPersistenceError x y s) = sv_aof s"
  "sv_closing (forgetPersistenceError x y s) = sv_closing s" "sv_kv (rememberPersistenceError now x y z s) = sv_kv s"
  by (simp_all add: syncAofRecoveryStatus_def forgetPersistenceError_def rememberPersistenceError_def split: recovery.split)

lemma mirror_events [simp]: "mirror t (c\<lparr>kv_events := x\<rparr>) c' = mirror t c c'"
  by (simp add: mirror_def kv_ok_def kv_lookup_def)

lemma exhausted_events [simp]: "exhausted (c\<lparr>kv_events := x\<rparr>) = exhausted c"
  by (simp add: exhausted_def)

section \<open>From a snapshot\<close>

text \<open>A recovery that starts from a snapshot of the cache \<open>c\<close> with the number \<open>n\<close>.\<close>

definition saved_origin :: "kv \<Rightarrow> nat \<Rightarrow> (nat \<times> json) list \<Rightarrow> origin" where
  "saved_origin c n old = \<lparr>og_start = (\<lambda>t s. mirror t s c), og_floor = n, og_old = old\<rparr>"

lemma backed_saved:
  assumes "backed o1 t rs [] s"
  shows "backed (saved_origin (sv_kv s) (al_lastSeq (sv_aof s)) (og_old o1 @ rs)) t [] [] s"
proof -
  have "recovers (og_start (saved_origin (sv_kv s) (al_lastSeq (sv_aof s)) (og_old o1 @ rs))) t [] (sv_kv s)"
    by (rule recovers_start) (simp add: saved_origin_def)
  then show ?thesis using assms by (simp add: backed_def saved_origin_def)
qed

lemma backed_rotated:
  assumes b: "backed o1 t rs [] s" and f: "al_disk (sv_aof s) \<noteq> None" "al_recovery (sv_aof s) \<noteq> Corrupt"
    and l: "list_all loggable (og_old o1 @ rs)" "length (disk_text (sv_aof s)) \<le> MAX_PERSISTENCE_FILE_BYTES" "og_floor o1 \<le> 2 ^ 53 - 1"
  shows "\<exists>s2. after_save now (og_floor o1) s = (Inr (), s2) \<and> backed (o1\<lparr>og_old := []\<rparr>) t rs [] s2 \<and> sv_kv s2 = sv_kv s"
proof -
  let ?rs = "og_old o1 @ rs" and ?a = "sv_aof s"
  have ok: "log_ok ?rs" using b l(1) by (simp add: log_ok_def backed_def)
  have d: "al_disk ?a = Some (log_text ?rs)" using b f(1) by (auto simp: backed_def disk_text_def split: option.splits)
  obtain p where p: "al_path ?a = Some p" using b by (auto simp: backed_def)
  let ?a' = "?a\<lparr>al_rotations := al_rotations ?a + 1, al_disk := Some (log_text (behind (og_floor o1) ?rs)), al_lastSeq := max (og_floor o1) (final_seq ?rs)\<rparr>"
  have "length (log_text ?rs) \<le> MAX_PERSISTENCE_FILE_BYTES" using l(2) b by (simp add: backed_def)
  from rotate_log [OF ok this p f(2) d l(3)] have r: "rotateAfter (Fin (of_nat (og_floor o1))) ?a = (Inr (), ?a')" .
  have bh: "behind (og_floor o1) ?rs = rs"
  proof -
    have "filter (\<lambda>r. og_floor o1 < fst r) (og_old o1) = []" using b by (auto simp: backed_def filter_empty_conv not_less)
    moreover have "filter (\<lambda>r. og_floor o1 < fst r) rs = rs" using b by (auto simp: backed_def)
    ultimately show ?thesis by (simp add: behind_def)
  qed
  have "\<forall>r \<in> set rs. fst r \<le> max (og_floor o1) (final_seq ?rs)" using log_final [OF ok] by (auto intro: le_max_iff_disj [THEN iffD2])
  then show ?thesis
    using b by (auto simp: after_save_def r backed_def bh disk_text_def sorted_wrt_append p)
qed

section \<open>Starting\<close>

lemma start_from:
  assumes b: "backed o1 t rs [] s" and l: "list_all loggable (og_old o1 @ rs)" and n: "length (disk_text (sv_aof s)) \<le> MAX_PERSISTENCE_FILE_BYTES"
    and snap: "covers snap o1" and t: "t \<le> now" and a: "new_aof (Some path) (Some (disk_text (sv_aof s))) locked = Inr (sv_aof s')"
    and open_now: "\<not> sv_closing s'"
    and s1: "start_snapshot now s' = (Inr snap, s1)" "sv_aof s1 = sv_aof s'" "sv_closing s1 = sv_closing s'" "og_start o1 now (sv_kv s1)"
    and run: "start_recovery True now s' = (r, s'')"
  shows "exhausted (sv_kv s'') \<or> (r = Inr () \<and> al_recovery (sv_aof s'') = Clean \<and> mirror now (sv_kv s'') (sv_kv s))"
proof -
  obtain a0 r1 a' c' where op: "new_aof (Some path) (Some (disk_text (sv_aof s))) locked = Inr a0"
    and rep: "aof_replay now (seq_arg snap) (a0, sv_kv s1) = (r1, (a', c'))"
    and res: "exhausted c' \<or> (r1 = Inr (length rs) \<and> al_recovery a' = Clean \<and> mirror now c' (sv_kv s))"
    by (rule restart [OF b l n snap t s1(4), of path locked])
  have "a0 = sv_aof s1" using op a s1(2) by simp
  with rep have rep': "aof_replay now (seq_arg snap) (sv_aof s1, sv_kv s1) = (r1, (a', c'))" by simp
  let ?s2 = "report_expiries (s1\<lparr>sv_aof := a', sv_kv := c'\<rparr>)"
  have "(r, s'') = (case r1 of Inl e \<Rightarrow> persistence_failed now ''aof'' ''recovery'' ''AOF recovery'' e ?s2
      | Inr _ \<Rightarrow> (Inr (), syncAofRecoveryStatus now ?s2))"
    using run s1 open_now rep'
    by (cases r1) (auto simp: start_recovery_def andThen_def start_replay_def persistence_failed_def report_closing)
  then show ?thesis using res by (auto simp: persistence_failed_def report_core split: sum.splits)
qed

text \<open>A cache that the operation \<open>sure\<close> ends in.\<close>

lemma sureE:
  assumes "sure s rc Q" "kv_ok s"
  obtains e c where "rc = (Inl e, c)" "exhausted c" | a c where "rc = (Inr a, c)" "kv_ok c" "kv_opts c = kv_opts s" "Q a c"
  using assms track_ok [of "{}" s "snd rc"] by (cases rc; cases "fst rc") (auto simp: sure_def)

theorem save_restart:
  assumes b: "backed o1 t rs [] s" and saved: "save_text t1 savedAt s = Inr (n, contents)" and t1: "t \<le> t1"
    and reqs: "sorted (t1 # map (ev_now \<circ> fst) reqs)" "list_all one_key_request reqs" and s1: "s1 = serve reqs s"
    and ok: "al_recovery (sv_aof s1) \<noteq> Corrupt" "al_disk (sv_aof s1) \<noteq> None" "al_lastSeq (sv_aof s) \<le> 2 ^ 53 - 1"
      "length (disk_text (sv_aof s1)) \<le> MAX_PERSISTENCE_FILE_BYTES" "\<And>rs'. disk_text (sv_aof s1) = log_text rs' \<Longrightarrow> list_all loggable rs'"
    and fit: "dated (entries (sv_kv s))" "valid_utf8 contents"
      "readable (snapshot_json savedAt (map saved_entry (live_list t1 (entries (sv_kv s)))) (Some (al_lastSeq (sv_aof s))))"
    and s2: "s2 = s1 \<or> s2 = snd (after_save t2 (al_lastSeq (sv_aof s)) s1)"
    and fresh: "kv_ok (sv_kv s')" "kv_opts (sv_kv s') = kv_opts (sv_kv s)" "\<not> sv_closing s'" "cf_snapshotPath (sv_config s') \<noteq> None"
      "sv_snapshot s' = Some contents" "new_aof (Some path) (Some (disk_text (sv_aof s2))) locked = Inr (sv_aof s')"
    and now: "last (t1 # map (ev_now \<circ> fst) reqs) \<le> now" and run: "start_recovery True now s' = (r, s'')"
  shows "exhausted (sv_kv s'') \<or> (r = Inr () \<and> al_recovery (sv_aof s'') = Clean \<and> mirror now (sv_kv s'') (sv_kv s1))"
proof -
  let ?n = "al_lastSeq (sv_aof s)" and ?t = "last (t1 # map (ev_now \<circ> fst) reqs)"
  let ?o = "saved_origin (sv_kv s) ?n (og_old o1 @ rs)"
  obtain rs2 tail where b1: "backed ?o ?t rs2 tail s1"
    using history_backed [OF backed_later [OF backed_saved [OF b] t1] reqs] s1 by blast
  have tail: "tail = []" using b1 ok(1) by (auto simp: backed_def)
  note b1 = b1 [unfolded tail]
  have l: "list_all loggable (og_old ?o @ rs2)" by (rule ok(5)) (use b1 in \<open>simp add: backed_def\<close>)
  define o2 where "o2 = (if s2 = s1 then ?o else ?o\<lparr>og_old := []\<rparr>)"
  have o2: "og_floor o2 = ?n" "og_start o2 = (\<lambda>t c. mirror t c (sv_kv s))" "list_all loggable (og_old o2 @ rs2)"
    using l by (simp_all add: o2_def saved_origin_def)
  have b2: "backed o2 ?t rs2 [] s2 \<and> sv_kv s2 = sv_kv s1"
  proof (cases "s2 = s1")
    case True
    then show ?thesis using b1 by (simp add: o2_def)
  next
    case False
    have "og_floor ?o = ?n" by (simp add: saved_origin_def)
    with backed_rotated [OF b1 ok(2,1) l ok(4), of t2] ok(3) False s2 show ?thesis by (auto simp: o2_def)
  qed
  have sz: "length (disk_text (sv_aof s2)) \<le> MAX_PERSISTENCE_FILE_BYTES"
  proof -
    have "length (log_text rs2) \<le> length (log_text (og_old ?o @ rs2))" by simp
    then show ?thesis using b1 b2 ok(4) by (simp add: backed_def o2_def split: if_splits)
  qed
  have snap: "covers (Some ?n) o2" using ok(3) o2(1) by (simp add: covers_def)
  have c: "kv_ok (sv_kv s)" "fits_list (kv_opts (sv_kv s)) (entries (sv_kv s))" using b by (simp_all add: backed_def in_limits_def)
  have le: "t1 \<le> now"
  proof -
    have "t1 \<le> ?t" using reqs(1) by (cases "map (ev_now \<circ> fst) reqs" rule: rev_cases) auto
    then show ?thesis using now by simp
  qed
  have st: "snapshot_text t1 savedAt (seq_arg (Some ?n)) (sv_kv s) = Inr (n, contents)" using saved by (simp add: save_text_def)
  have load: "sure (sv_kv s') (loadSnapshot now True True (Some contents) (sv_kv s'))
      (\<lambda>r c. r = (length (live_list now (entries (sv_kv s))), Some ?n) \<and> entries c = live_list now (entries (sv_kv s)))"
    using load_saved(2) [OF c fit(1) st _ fit(3,2) fresh(1,2) le] ok(3) by simp
  obtain p where p: "cf_snapshotPath (sv_config s') = Some p" using fresh(4) by auto
  show ?thesis
  proof (cases rule: sureE [OF load fresh(1)])
    case (1 e c)
    then show ?thesis using run p fresh(5)
      by (auto simp: start_recovery_def andThen_def start_snapshot_def persistence_failed_def report_core)
  next
    case (2 a c)
    let ?s1 = "forgetPersistenceError ''snapshot'' ''load'' (report_expiries (s'\<lparr>sv_kv := c\<rparr>))"
    have s1': "start_snapshot now s' = (Inr (Some ?n), ?s1)" using 2(1,4) p fresh(5) by (simp add: start_snapshot_def)
    have "mirror now c (sv_kv s)" by (rule loaded_mirror) (use c 2 fresh(2) in simp_all)
    then have "og_start o2 now (sv_kv ?s1)" by (simp add: o2(2) report_core)
    from start_from [OF conjunct1 [OF b2] o2(3) sz snap now fresh(6,3) s1' _ _ this run] show ?thesis
      using b2 by (simp add: report_core report_closing)
  qed
qed

section \<open>Without a snapshot\<close>

theorem log_restart:
  assumes b: "backed (from_empty c0) t rs [] s" and l: "list_all loggable rs" and n: "length (disk_text (sv_aof s)) \<le> MAX_PERSISTENCE_FILE_BYTES"
    and t: "t \<le> now" and a: "new_aof (Some path) (Some (disk_text (sv_aof s))) locked = Inr (sv_aof s')"
    and fresh: "sv_kv s' = c0" "kv_events c0 = []" "\<not> sv_closing s'" "sv_snapshot s' = None" and run: "start_recovery True now s' = (r, s'')"
  shows "exhausted (sv_kv s'') \<or> (r = Inr () \<and> al_recovery (sv_aof s'') = Clean \<and> mirror now (sv_kv s'') (sv_kv s))"
proof -
  have cov: "covers None (from_empty c0)" by (simp add: covers_def from_empty_def)
  have l': "list_all loggable (og_old (from_empty c0) @ rs)" using l by (simp add: from_empty_def)
  have load: "loadSnapshot now True True None c0 = (Inr (0, None), c0)"
    by (simp add: loadSnapshot_def load_with_def parse_snapshot_def readFileBounded_def)
  define s1 where "s1 = (if cf_snapshotPath (sv_config s') = None then s'
    else forgetPersistenceError ''snapshot'' ''load'' (report_expiries (s'\<lparr>sv_kv := c0\<rparr>)))"
  have "c0\<lparr>kv_events := []\<rparr> = c0" using fresh(2) by (cases c0) simp
  then have s1: "start_snapshot now s' = (Inr None, s1)" "sv_aof s1 = sv_aof s'" "sv_closing s1 = sv_closing s'" "sv_kv s1 = c0"
    using fresh(1,4) by (simp_all add: start_snapshot_def load s1_def report_core report_closing)
  have st: "og_start (from_empty c0) now (sv_kv s1)" by (simp add: from_empty_def s1(4))
  show ?thesis by (rule start_from [OF b l' n cov t a fresh(3) s1(1-3) st run])
qed

end
