(* ===== verification/Aof_Order.thy ===== *)
theory Aof_Order
  imports Kv_Keys
begin

text \<open>
  A patch lists the entries in the order in which their keys first changed, not in the order of
  the last writes, and its replay sets them one by one. A small cache in which this evicts an
  entry that the served cache kept.
\<close>

definition tight_options :: kv_options where
  "tight_options = \<lparr>o_maxEntries = 10, o_maxBytes = 20, o_maxKeyBytes = 10, o_maxValueBytes = 20, o_defaultTTLMs = None,
     o_namespaceTTLMs = DEFAULT_NAMESPACE_TTLS, o_sweepIntervalMs = 0\<rparr>"

text \<open>Entries without deadlines; a value is a text.\<close>

definition text_entry :: "string \<Rightarrow> string \<Rightarrow> entry" where
  "text_entry k t = \<lparr>e_value = JStr t, e_expiresAt = None, e_size = int (length k + valueByteLength (JStr t))\<rparr>"

record tight =
  t_entries :: "(string \<times> entry) list"
  t_versions :: "(string \<times> int) list"
  t_gen :: int
  t_evicted :: int
  t_changed :: "string list list"
  t_saved :: "((string \<times> entry) list \<times> (string \<times> int) list) list"

definition tight_stats :: "int \<Rightarrow> (string \<times> entry) list \<Rightarrow> cache_state" where
  "tight_stats n l = \<lparr>cs_bytes = al_sum e_size l, cs_hits = 0, cs_misses = 0, cs_evictions = n, cs_expiries = 0, cs_absentEpoch = 0\<rparr>"

definition tight_cache :: "tight \<Rightarrow> kv" where
  "tight_cache x = \<lparr>kv_map = \<lparr>am_list = t_entries x, am_frames = map fst (t_saved x)\<rparr>,
     kv_expiring = \<lparr>am_list = [], am_frames = map (\<lambda>_. []) (t_saved x)\<rparr>,
     kv_versions = \<lparr>am_list = t_versions x, am_frames = map snd (t_saved x)\<rparr>, kv_state = tight_stats (t_evicted x) (t_entries x),
     kv_generation = t_gen x, kv_frames = map (\<lambda>p. (tight_stats 0 (fst p), [])) (t_saved x), kv_changed = t_changed x,
     kv_listener = False, kv_events = [], kv_lag = 0, kv_timer = None, kv_opts = tight_options\<rparr>"

definition tight_set :: "string \<Rightarrow> string \<Rightarrow> tight \<Rightarrow> tight" where
  "tight_set k t x = x\<lparr>t_entries := al_del k (t_entries x) @ [(k, text_entry k t)], t_versions := al_set k (t_gen x + 1) (t_versions x),
     t_gen := t_gen x + 1, t_changed := map (add_key k) (t_changed x)\<rparr>"

definition tight_evict :: "string \<Rightarrow> tight \<Rightarrow> tight" where
  "tight_evict k x = x\<lparr>t_entries := tl (t_entries x), t_evicted := t_evicted x + 1, t_versions := al_set k (t_gen x + 1) (t_versions x),
     t_gen := t_gen x + 1, t_changed := map (add_key k) (t_changed x)\<rparr>"

text \<open>Few enough versions and changes for nothing to be pruned or to run out.\<close>

definition small :: "tight \<Rightarrow> bool" where
  "small x \<longleftrightarrow> distinct_keys (t_entries x) \<and> length (t_entries x) < 10 \<and> t_gen x < 1000 \<and> length (t_versions x) < 1000"

lemma tight_fields [simp]: "kv_opts (tight_cache x) = tight_options" "entries (tight_cache x) = t_entries x"
    "kv_lookup k (tight_cache x) = map_of (t_entries x) k"
  by (simp_all add: tight_cache_def kv_lookup_def)

lemma length_al_set: "length (al_set k v l) \<le> Suc (length l)"
  by (induction l) auto

lemma tight_bump:
  assumes "small x" "y = (tight_cache x)\<lparr>kv_map := (kv_map (tight_cache x))\<lparr>am_list := l\<rparr>, kv_state := tight_stats n l\<rparr>"
  shows "bumpVersion k y = (Inr (), tight_cache (x\<lparr>t_entries := l, t_evicted := n, t_versions := al_set k (t_gen x + 1) (t_versions x),
     t_gen := t_gen x + 1, t_changed := map (add_key k) (t_changed x)\<rparr>))"
proof -
  have "length (al_set k (t_gen x + 1) (t_versions x)) \<le> 1000"
    using length_al_set [of k "t_gen x + 1" "t_versions x"] assms(1) by (simp add: small_def)
  then show ?thesis
    using assms(1) unfolding assms(2)
    by (simp add: bumpVersion_def Let_def tight_cache_def am_set_def tight_options_def max_safe_def small_def of_int_less_iff)
qed

lemma tight_over: "over_limit (tight_cache x) \<longleftrightarrow> \<not> (length (t_entries x) \<le> 10 \<and> al_sum e_size (t_entries x) \<le> 20)"
  by (simp add: over_limit_def kv_size_def tight_options_def) (auto simp add: tight_cache_def tight_stats_def)

text \<open>A write, before the eviction.\<close>

lemma setOwned_tight:
  assumes "small x" "length k + valueByteLength (JStr t) \<le> 20" "length k \<le> 10"
  shows "setOwned now k (JStr t) None r (tight_cache x) =
    andThen (evictIfNeeded now) (\<lambda>_. returns r) (tight_cache (tight_set k t x))"
proof -
  let ?e = "text_entry k t" and ?l = "al_del k (t_entries x) @ [(k, text_entry k t)]"
  have v: "assertValueFits k (JStr t) (tight_cache x) = Inr (e_size ?e)"
    using assms(2,3) by (simp add: assertValueFits_def assertKeyFits_def assertEntryFits_def tight_options_def text_entry_def)
  have e: "\<lparr>e_value = JStr t, e_expiresAt = None, e_size = e_size ?e\<rparr> = ?e" by (simp add: text_entry_def)
  have after: "bumpVersion k y = (Inr (), tight_cache (tight_set k t x))"
    if "y = (tight_cache x)\<lparr>kv_map := (kv_map (tight_cache x))\<lparr>am_list := ?l\<rparr>, kv_state := tight_stats (t_evicted x) ?l\<rparr>" for y
  proof -
    have "x\<lparr>t_entries := ?l, t_evicted := t_evicted x, t_versions := vs, t_gen := g, t_changed := ch\<rparr> =
        x\<lparr>t_entries := ?l, t_versions := vs, t_gen := g, t_changed := ch\<rparr>" for vs g ch
      by (cases x) simp
    with tight_bump [OF assms(1) that, of k] show ?thesis by (simp add: tight_set_def)
  qed
  show ?thesis
  proof (cases "map_of (t_entries x) k")
    case None
    then have "al_del k (t_entries x) = t_entries x" by (simp add: map_of_None_iff)
    with None have "bumpVersion k (put_entry k ?e (tight_cache x)) = (Inr (), tight_cache (tight_set k t x))"
      by (intro after) (simp add: put_entry_def map_set_def add_bytes_def am_set_def am_del_def tight_cache_def tight_stats_def
          text_entry_def al_set_notin map_of_None_iff kv_lookup_def)
    with None v e show ?thesis by (simp add: setOwned_def check_def andThen_def)
  next
    case (Some old)
    have "al_set k ?e (al_del k (t_entries x)) = ?l" by (rule al_set_notin) (auto simp: set_al_del)
    then have "bumpVersion k (put_entry k ?e (remove_entry k old (tight_cache x))) = (Inr (), tight_cache (tight_set k t x))"
      using Some al_sum_del [OF _ Some, of e_size] assms(1)
      by (intro after) (simp add: put_entry_def remove_entry_def map_delete_def map_set_def add_bytes_def am_set_def am_del_def
          tight_cache_def tight_stats_def text_entry_def small_def kv_lookup_def)
    with Some v e show ?thesis by (simp add: setOwned_def check_def andThen_def)
  qed
qed

lemma evict_none:
  assumes "length (t_entries x) \<le> 10" "al_sum e_size (t_entries x) \<le> 20"
  shows "evictIfNeeded now (tight_cache x) = (Inr (), tight_cache x)"
  unfolding evictIfNeeded_def using assms by (cases "kv_size (tight_cache x)") (simp_all add: tight_over)

lemma evict_first:
  assumes "small x" "t_entries x = (k, e) # l" "e_expiresAt e = None" "al_sum e_size (t_entries x) > 20" "al_sum e_size l \<le> 20"
  shows "evictIfNeeded now (tight_cache x) = (Inr (), tight_cache (tight_evict k x))"
proof -
  let ?y = "add_eviction (remove_entry k e (tight_cache x))"
  have d: "al_del k (t_entries x) = l" using al_del_head [of "(k, e)" l] assms(1,2) by (simp add: small_def)
  have y: "?y = (tight_cache x)\<lparr>kv_map := (kv_map (tight_cache x))\<lparr>am_list := l\<rparr>, kv_state := tight_stats (t_evicted x + 1) l\<rparr>"
    using d assms(2,3) by (simp add: add_eviction_def remove_entry_def map_delete_def add_bytes_def am_del_def tight_cache_def tight_stats_def
        kv_lookup_def)
  have z: "bumpVersion k ?y = (Inr (), tight_cache (tight_evict k x))"
    unfolding tight_bump [OF assms(1) y, of k] by (simp add: tight_evict_def assms(2))
  have sz: "kv_size (tight_cache x) = Suc (length l)" by (simp add: kv_size_def assms(2))
  have s: "evict_loop (length l) now (tight_cache (tight_evict k x)) = (Inr (), tight_cache (tight_evict k x))"
    using assms(1,2,5) by (cases "length l") (simp_all add: tight_over tight_evict_def small_def)
  show ?thesis
    unfolding evictIfNeeded_def sz using assms(2-4) s z
    by (simp add: tight_over isExpired_def andThen_def)
qed

text \<open>One write of a small text, when the rest fits and when the oldest entry has to go.\<close>

lemma clone_text:
  assumes "valueByteLength (JStr t) \<le> n"
  shows "cloneJsonValue n (JStr t) = Inr (JStr t)"
  using assms by (simp add: cloneJsonValue_Inr MAX_JSON_DEPTH_def MAX_JSON_NODES_def valueByteLength_def)

definition small_write :: "tight \<Rightarrow> string \<Rightarrow> string \<Rightarrow> bool" where
  "small_write x k t \<longleftrightarrow> small x \<and> namespaceOf k = [] \<and> length k \<le> 10 \<and> length k + valueByteLength (JStr t) \<le> 20"

lemma tight_writes:
  assumes "small_write x k t" "evictIfNeeded now (tight_cache (tight_set k t x)) = (Inr (), tight_cache y)"
  shows "kv_set now k (JStr t) None (tight_cache x) = (Inr (JStr t), tight_cache y)"
    "kv_setAt now k (JStr t) None (tight_cache x) = (Inr (JStr t), tight_cache y)"
proof -
  have c: "cloneJsonValue 20 (JStr t) = Inr (JStr t)" using assms(1) by (intro clone_text) (simp add: small_write_def)
  have o: "setOwned now k (JStr t) None r (tight_cache x) = (Inr r, tight_cache y)" for r
    using assms setOwned_tight [of x k t now r] by (simp add: small_write_def andThen_def)
  have k: "assertKeyFits k (tight_cache x) = Inr ()"
    using assms(1) by (simp add: assertKeyFits_def tight_options_def small_write_def)
  have "resolveTTLMs now k None (tight_cache x) = Inr None"
    using assms(1) by (simp add: resolveTTLMs_def tight_options_def Let_def small_write_def)
  with c o k show "kv_set now k (JStr t) None (tight_cache x) = (Inr (JStr t), tight_cache y)"
    by (simp add: kv_set_def check_def andThen_def deadline_def tight_options_def)
  from c o k show "kv_setAt now k (JStr t) None (tight_cache x) = (Inr (JStr t), tight_cache y)"
    by (simp add: kv_setAt_def check_def andThen_def finite_or_def tight_options_def)
qed

text \<open>Blocks.\<close>

definition tight_open :: "tight \<Rightarrow> tight" where
  "tight_open x = x\<lparr>t_saved := (t_entries x, t_versions x) # t_saved x\<rparr>"

definition tight_close :: "tight \<Rightarrow> tight" where
  "tight_close x = x\<lparr>t_saved := tl (t_saved x)\<rparr>"

lemma tight_captured: "t_evicted x = 0 \<Longrightarrow> captured (tight_cache x) = tight_cache (tight_open x)"
  by (simp add: captured_def captureState_def am_begin_def tight_cache_def tight_open_def)

lemma tight_commit: "t_saved x \<noteq> [] \<Longrightarrow> close_frame (commitMaps (tight_cache x)) = tight_cache (tight_close x)"
  by (cases "t_saved x"; cases "tl (t_saved x)")
    (simp_all add: close_frame_def commitMaps_def am_commit_def tight_cache_def tight_close_def flushExpiryEvents_def)

section \<open>The order matters\<close>

definition writes :: "rat \<Rightarrow> (string \<times> string) list \<Rightarrow> unit kvop" where
  "writes now ps = for_each (\<lambda>p. andThen (kv_set now (fst p) (JStr (snd p)) None) (\<lambda>_. returns ())) ps"

definition tight_start :: tight where
  "tight_start = \<lparr>t_entries = [], t_versions = [], t_gen = 0, t_evicted = 0, t_changed = [], t_saved = []\<rparr>"

lemma writes_Cons:
  assumes "small_write x k t" "length (t_entries (tight_set k t x)) \<le> 10" "al_sum e_size (t_entries (tight_set k t x)) \<le> 20"
  shows "writes now ((k, t) # ps) (tight_cache x) = writes now ps (tight_cache (tight_set k t x))"
  using tight_writes(1) [OF assms(1) evict_none [OF assms(2,3)], of now] by (simp add: writes_def andThen_def)

lemmas tight_simps = tight_set_def small_write_def small_def distinct_keys_def text_entry_def quote_text_def quote_char_def add_key_def namespaceOf_def valueByteLength_def

definition tight_before :: tight where
  "tight_before = tight_set ''b'' ''12345'' (tight_set ''z'' ''12345'' tight_start)"

lemma tight_before_writes:
  "writes now [(''z'', ''12345''), (''b'', ''12345'')] (tight_cache tight_start) = (Inr (), tight_cache tight_before)"
  unfolding tight_before_def
  by (simp add: writes_Cons tight_simps tight_start_def) (simp add: writes_def)

definition tight_options_in :: kv_options_in where
  "tight_options_in = \<lparr>i_maxEntries = Some (Fin 10), i_maxBytes = Some (Fin 20), i_maxKeyBytes = Some (Fin 10),
     i_maxValueBytes = Some (Fin 20), i_defaultTTLMs = None, i_namespaceTTLMs = None, i_sweepIntervalMs = Some (Fin 0)\<rparr>"

lemma tight_start_new: "new_cache 0 tight_options_in False = Inr (tight_cache tight_start)"
  by (simp add: new_cache_def validateKVOptions_def tight_options_in_def positive_or_def validatePositiveSafeInteger_def validateSafeInteger_def max_timeout_ms_def
      validateTimeout_def validateNonNegativeNumber_def validateTTL_def DEFAULT_NAMESPACE_TTLS_def
      tight_cache_def tight_start_def tight_options_def tight_stats_def am_new_def is_safe_integer_def max_safe_def)

text \<open>The three writes, as a block and as they are written down.\<close>

definition tight_after :: tight where
  "tight_after = tight_set ''a'' ''12345'' (tight_set ''b'' [] (tight_set ''a'' [] (tight_open (tight_before\<lparr>t_changed := [[]]\<rparr>))))"

definition first_entry :: snapshot_entry where
  "first_entry = \<lparr>s_key = ''a'', s_value = JStr ''12345'', s_expiresAt = None\<rparr>"

definition second_entry :: snapshot_entry where
  "second_entry = \<lparr>s_key = ''b'', s_value = JStr [], s_expiresAt = None\<rparr>"

lemma tight_after_writes:
  "writes now [(''a'', []), (''b'', []), (''a'', ''12345'')] (tight_cache (tight_open (tight_before\<lparr>t_changed := [[]]\<rparr>))) =
     (Inr (), tight_cache tight_after)"
  unfolding tight_after_def
  by (simp add: writes_Cons tight_simps tight_start_def tight_before_def tight_open_def) (simp add: writes_def)

lemma tight_changes:
  "kv_atomicChanges now (on_kv (writes now [(''a'', []), (''b'', []), (''a'', ''12345'')])) (\<lambda>es ds w. (Inr (), (es, ds)))
     (([], []), tight_cache tight_before) =
   (Inr (), (([first_entry, second_entry], []), tight_cache (tight_close (tight_after\<lparr>t_changed := []\<rparr>))))"
proof -
  have o: "opened_changes (tight_cache tight_before) = tight_cache (tight_open (tight_before\<lparr>t_changed := [[]]\<rparr>))"
    by (simp add: opened_changes_def captured_def captureState_def am_begin_def tight_cache_def tight_open_def tight_before_def
        tight_set_def tight_start_def)
  have k: "kept (tight_cache tight_after) = tight_cache (tight_close (tight_after\<lparr>t_changed := []\<rparr>))"
    by (simp add: kept_def Let_def close_frame_def commitMaps_def am_commit_def tight_cache_def tight_close_def flushExpiryEvents_def
        tight_after_def tight_open_def tight_before_def tight_set_def tight_start_def)
  have "collect_changes now (tight_cache tight_after) (hd (kv_changed (tight_cache tight_after))) = Inr ([first_entry, second_entry], [])"
  proof -
    have ch: "kv_changed (tight_cache tight_after) = [[''a'', ''b'']]"
      by (simp add: tight_cache_def tight_after_def tight_open_def tight_before_def tight_simps tight_start_def)
    have "map_of (t_entries tight_after) ''a'' = Some (text_entry ''a'' ''12345'')"
        "map_of (t_entries tight_after) ''b'' = Some (text_entry ''b'' [])"
      by (simp_all add: tight_after_def tight_open_def tight_before_def tight_set_def tight_start_def)
    moreover have "cloneJsonValue default_clone_bytes (JStr ''12345'') = Inr (JStr ''12345'')"
        "cloneJsonValue default_clone_bytes (JStr []) = Inr (JStr [])"
      by (simp_all add: clone_text default_clone_bytes_def tight_simps)
    ultimately show ?thesis unfolding ch by (simp add: text_entry_def isExpired_def first_entry_def second_entry_def)
  qed
  with tight_after_writes [of now] show ?thesis by (simp add: atomicChanges_run on_kv_def o k)
qed

text \<open>The replay: the first entry of the record pushes \<open>z\<close> out.\<close>

lemma tight_replay:
  "\<exists>y. atomic (applyAofOp now (patch_op [first_entry, second_entry] [])) (tight_cache tight_before) = (Inr (), tight_cache y) \<and>
     map fst (t_entries y) = [''a'', ''b'']"
proof -
  let ?x = "tight_open (tight_open tight_before)"
  let ?y = "tight_evict ''z'' (tight_set ''a'' ''12345'' ?x)" and ?z = "tight_set ''b'' [] (tight_evict ''z'' (tight_set ''a'' ''12345'' ?x))"
  note all = tight_simps tight_start_def tight_before_def tight_open_def tight_evict_def
  have a: "kv_setAt now ''a'' (JStr ''12345'') None (tight_cache ?x) = (Inr (JStr ''12345''), tight_cache ?y)"
    by (rule tight_writes(2), simp add: all) (rule evict_first [where e = "text_entry ''z'' ''12345''"
        and l = "[(''b'', text_entry ''b'' ''12345''), (''a'', text_entry ''a'' ''12345'')]"], simp_all add: all)
  have b: "kv_setAt now ''b'' (JStr []) None (tight_cache ?y) = (Inr (JStr []), tight_cache ?z)"
    by (rule tight_writes(2), simp add: all) (rule evict_none, simp_all add: all)
  have o: "captured (tight_cache tight_before) = tight_cache (tight_open tight_before)"
    "captured (tight_cache (tight_open tight_before)) = tight_cache ?x"
    by (rule tight_captured, simp add: all)+
  have c: "close_frame (commitMaps (tight_cache ?z)) = tight_cache (tight_close ?z)"
    "close_frame (commitMaps (tight_cache (tight_close ?z))) = tight_cache (tight_close (tight_close ?z))"
    by (rule tight_commit, simp add: all tight_close_def)+
  have "atomic (applyAofOp now (patch_op [first_entry, second_entry] [])) (tight_cache tight_before) =
      (Inr (), tight_cache (tight_close (tight_close ?z)))"
    unfolding patch_mutation by (simp add: atomic_captured o a b c andThen_def first_entry_def second_entry_def)
  then show ?thesis by (intro exI) (auto simp: all tight_close_def)
qed

theorem patch_order:
  "\<exists>c0 c c1 c2 es ds. new_cache 0 tight_options_in False = Inr c0 \<and>
     writes 1 [(''z'', ''12345''), (''b'', ''12345'')] c0 = (Inr (), c) \<and>
     kv_atomicChanges 1 (on_kv (writes 1 [(''a'', []), (''b'', []), (''a'', ''12345'')])) (\<lambda>es ds w. (Inr (), (es, ds))) (([], []), c) =
       (Inr (), ((es, ds), c1)) \<and>
     atomic (applyAofOp 1 (patch_op es ds)) c = (Inr (), c2) \<and>
     kv_lookup ''z'' c1 \<noteq> None \<and> kv_lookup ''z'' c2 = None"
proof -
  obtain y where y: "atomic (applyAofOp 1 (patch_op [first_entry, second_entry] [])) (tight_cache tight_before) = (Inr (), tight_cache y)"
      "map fst (t_entries y) = [''a'', ''b'']"
    using tight_replay [of 1] by (elim exE conjE)
  show ?thesis
  proof (intro exI conjI)
    show "new_cache 0 tight_options_in False = Inr (tight_cache tight_start)" by (rule tight_start_new)
    show "writes 1 [(''z'', ''12345''), (''b'', ''12345'')] (tight_cache tight_start) = (Inr (), tight_cache tight_before)"
      by (rule tight_before_writes)
    show "kv_atomicChanges 1 (on_kv (writes 1 [(''a'', []), (''b'', []), (''a'', ''12345'')])) (\<lambda>es ds w. (Inr (), (es, ds)))
       (([], []), tight_cache tight_before) =
       (Inr (), (([first_entry, second_entry], []), tight_cache (tight_close (tight_after\<lparr>t_changed := []\<rparr>))))"
      by (rule tight_changes)
    show "atomic (applyAofOp 1 (patch_op [first_entry, second_entry] [])) (tight_cache tight_before) = (Inr (), tight_cache y)"
      by (rule y(1))
    show "kv_lookup ''z'' (tight_cache (tight_close (tight_after\<lparr>t_changed := []\<rparr>))) \<noteq> None"
      by (simp add: tight_close_def tight_after_def tight_open_def tight_before_def tight_simps tight_start_def)
    have "set (map fst (t_entries y)) = {''a'', ''b''}" unfolding y(2) by simp
    then show "kv_lookup ''z'' (tight_cache y) = None" by (simp add: map_of_None_iff)
  qed
qed

end
