(* ===== verification/Server_Sample.thy ===== *)
theory Server_Sample
  imports Server_Safety Server_Recovery Aof_Order
begin

text \<open>
  A small server for concrete runs: one connection, a clock, an upper case that leaves the names
  of the commands alone, and a transaction that deletes the only key of its cache.
\<close>

section \<open>A small server\<close>

definition sample_env :: "rat \<Rightarrow> env" where
  "sample_env now = \<lparr>ev_up = id, ev_now = now, ev_write = None, ev_elapsed = 0, ev_info = (\<lambda>_. JNull), ev_resolve = id,
     ev_savedAt = now, ev_later = now, ev_save = None, ev_between = id\<rparr>"

definition sample_config :: "string option \<Rightarrow> server_config" where
  "sample_config pw = \<lparr>cf_password = pw, cf_maxWatchedKeys = 8, cf_maxTransactionCommands = 8, cf_maxTransactionBytes = 1000,
     cf_maxSubscriptions = 8, cf_maxCommandMs = 0, cf_snapshotPath = None\<rparr>"

text \<open>One connection, with the number \<open>0\<close>.\<close>

definition sample_server :: "string option \<Rightarrow> kv \<Rightarrow> aof_log \<Rightarrow> conn \<Rightarrow> server" where
  "sample_server pw c a cn = \<lparr>sv_kv = c, sv_aof = a, sv_snapshot = None, sv_degraded = False, sv_lastError = None, sv_errors = [], sv_closing = False,
     sv_hub = new_hub, sv_conns = [(0, cn)], sv_slow = \<lparr>sl_entries = [], sl_threshold = 10, sl_cap = 100\<rparr>, sv_config = sample_config pw\<rparr>"

definition no_log :: aof_log where
  "no_log = \<lparr>al_path = None, al_lastSeq = 0, al_rotations = 0, al_recovery = Clean, al_detail = None, al_disk = None, al_locked = False\<rparr>"

lemma server_fields: "sv_kv (sample_server pw c a cn) = c" "sv_aof (sample_server pw c a cn) = a" "conn_of 0 (sample_server pw c a cn) = cn"
    "sv_config (sample_server pw c a cn) = sample_config pw" "sv_closing (sample_server pw c a cn) = False"
  by (simp_all add: sample_server_def conn_of_def)

lemma request_command: "argv \<noteq> [] \<Longrightarrow> requestArgv (command_reply argv) = Inr argv"
  by (simp add: requestArgv_def command_reply_def)

lemma sample_env_fields: "ev_now (sample_env t) = t" "ev_up (sample_env t) = id" "ev_write (sample_env t) = None"
  by (simp_all add: sample_env_def)

section \<open>A queued transaction\<close>

definition queued_server :: server where
  "queued_server = sample_server None one_cache no_log ((new_conn False)\<lparr>cn_queue := Some [(''DEL'', [''a''])], cn_watch := Some [(''a'', 1)]\<rparr>)"

lemma one_cache_watched: "versions_unchanged 1 [(''a'', 1)] one_cache = (Inr True, one_cache)"
  by (simp add: kv_getVersion_def check_def assertKeyFits_def kv_lookup_def isExpired_def one_cache_def
        small_cache_def small_options_def andThen_def)

definition without_a :: kv where
  "without_a = (opened_changes one_cache)\<lparr>kv_map := \<lparr>am_list = [], am_frames = am_frames (kv_map (opened_changes one_cache))\<rparr>,
     kv_versions := \<lparr>am_list = [(''a'', 2)], am_frames = am_frames (kv_versions (opened_changes one_cache))\<rparr>,
     kv_state := (kv_state one_cache)\<lparr>cs_bytes := 0\<rparr>, kv_generation := 2, kv_changed := [[''a'']]\<rparr>"

lemma opened_del: "kv_del 1 ''a'' (opened_changes one_cache) = (Inr True, without_a)"
  by (simp add: kv_del_def check_def assertKeyFits_def andThen_def kv_lookup_def isExpired_def bumpVersion_def Let_def prim_defs
      opened_changes_def captured_def captureState_def am_begin_def one_cache_def small_cache_def small_options_def without_a_def
      am_set_def am_del_def max_safe_def add_key_def)

lemma queued_body:
  "exec_body (sample_env 1) [(''DEL'', [''a''])] ((s, []), opened_changes one_cache) =
     (Inr \<lparr>ef_aof = [del_op [''a'']], ef_invalidations = [key_event ''del'' ''a'']\<rparr>, ((s, [Some (int_reply 1)]), without_a))"
  by (simp add: exec_body_def exec_one_def cache_command_def sample_env_def cmd_del_def on_kv_def andThen_def opened_del add_item_def
      int_reply_def add_effects_def no_effects_def is_safe_integer_def max_safe_def len_text_def num_text_1
      within_frame_def DEFAULT_RESP_LIMITS_def nat_text_small)

lemma without_a_collected: "collect_changes 1 without_a (hd (kv_changed without_a)) = Inr ([], [''a''])"
  by (simp add: without_a_def kv_lookup_def)

lemma without_a_kept: "live 1 ''a'' (kept without_a) = None"
  by (simp add: kept_def close_frame_def commitMaps_def live_def kv_lookup_def without_a_def opened_changes_def captured_def captureState_def
      am_begin_def am_commit_def one_cache_def small_cache_def flushExpiryEvents_def)

lemma queued_run:
  "fst (execTransaction (sample_env 1) 0 queued_server) = Inr (Answer (RArray [Some (int_reply 1)]))"
  "live 1 ''a'' (sv_kv (snd (execTransaction (sample_env 1) 0 queued_server))) = None"
  "live 1 ''a'' one_cache = Some \<lparr>e_value = JNull, e_expiresAt = None, e_size = 5\<rparr>"
proof -
  let ?s = "report_expiries ((set_conn 0 ((conn_of 0 queued_server)\<lparr>cn_queue := None, cn_txBytes := 0, cn_txFailed := False, cn_watch := None\<rparr>)
      queued_server)\<lparr>sv_kv := one_cache\<rparr>)"
  have kv: "sv_kv ?s = one_cache" by (simp add: report_core) (simp add: one_cache_def small_cache_def)
  have aof: "\<not> aof_enabled ?s" by (simp add: aof_enabled_def report_core core_conn queued_server_def server_fields no_log_def)
  have "execTransaction (sample_env 1) 0 queued_server = run_queue (sample_env 1) [(''DEL'', [''a''])] ?s"
  proof -
    have "cn_queue (conn_of 0 queued_server) = Some [(''DEL'', [''a''])]" "\<not> cn_txFailed (conn_of 0 queued_server)"
        "cn_watch (conn_of 0 queued_server) = Some [(''a'', 1)]" "sv_kv queued_server = one_cache" "ev_now (sample_env 1) = 1"
      by (simp_all add: queued_server_def server_fields sample_env_def new_conn_def)
    then show ?thesis
      using one_cache_watched
      by (simp add: execTransaction_def Let_def andThen_def for_conn_def with_kv_def core_conn del: versions_unchanged.simps)
  qed
  moreover have "run_queue (sample_env 1) [(''DEL'', [''a''])] ?s = (Inr (Answer (RArray [Some (int_reply 1)])),
      publish_all \<lparr>ef_aof = [del_op [''a'']], ef_invalidations = [key_event ''del'' ''a'']\<rparr> (report_expiries (?s\<lparr>sv_kv := kept without_a\<rparr>)))"
    using aof by (simp add: run_queue_def logged_changes_def atomicChanges_run kv queued_body without_a_collected commit_patch_def appendAof_def
      sample_env_fields del: collect_changes.simps)
  ultimately show "fst (execTransaction (sample_env 1) 0 queued_server) = Inr (Answer (RArray [Some (int_reply 1)]))"
    "live 1 ''a'' (sv_kv (snd (execTransaction (sample_env 1) 0 queued_server))) = None"
    using without_a_kept by (simp_all add: publish_all_core report_core live_def kv_lookup_def)
  show "live 1 ''a'' one_cache = Some \<lparr>e_value = JNull, e_expiresAt = None, e_size = 5\<rparr>"
    by (simp add: live_def kv_lookup_def one_cache_def small_cache_def isExpired_def)
qed

section \<open>A command that fails\<close>

definition logging_server :: server where
  "logging_server = sample_server None one_cache (opened ''f'' 0 Clean None [] False) (new_conn False)"

lemma opened_incr: "cmd_incr 1 True [''a''] (opened_changes one_cache) =
    (Inl (PlainError ''INCR requires a numeric value''), opened_changes one_cache)"
  by (simp add: cmd_incr_def delta_arg_def check_def kv_incr_def incr_base_def andThen_def assertKeyFits_def kv_lookup_def isExpired_def
      opened_changes_def captured_def captureState_def am_begin_def one_cache_def small_cache_def small_options_def validateFiniteNumber_def)

lemma failed_incr: "runCacheMutation 1 None (cmd_incr 1 True [''a'']) logging_server =
    (Inl (PlainError ''INCR requires a numeric value''),
     report_expiries (logging_server\<lparr>sv_kv := dropped one_cache (opened_changes one_cache)\<rparr>))"
  by (simp add: runCacheMutation_def andThen_def logged_changes_def atomicChanges_run on_kv_def logging_server_def server_fields
      aof_enabled_def opened_def opened_incr)

section \<open>A snapshot\<close>

text \<open>The snapshot of the cache with the key \<open>a\<close>, taken at the time \<open>1\<close>, and a server that starts from it.\<close>

definition sample_snapshot :: string where
  "sample_snapshot = json_text (snapshot_json 1 [\<lparr>s_key = ''a'', s_value = JNull, s_expiresAt = None\<rparr>] (Some 0))"

definition saving_server :: "kv \<Rightarrow> string \<Rightarrow> server" where
  "saving_server c contents = (sample_server None c (opened ''f'' 0 Clean None [] False) (new_conn False))\<lparr>sv_snapshot := Some contents,
     sv_config := (sample_config None)\<lparr>cf_snapshotPath := Some ''s''\<rparr>\<rparr>"

lemma saving_fields: "sv_kv (saving_server c x) = c" "sv_aof (saving_server c x) = opened ''f'' 0 Clean None [] False"
    "\<not> sv_closing (saving_server c x)" "cf_snapshotPath (sv_config (saving_server c x)) \<noteq> None" "sv_snapshot (saving_server c x) = Some x"
  by (simp_all add: saving_server_def server_fields)

lemma one_cache_list: "entries one_cache = [(''a'', \<lparr>e_value = JNull, e_expiresAt = None, e_size = 5\<rparr>)]"
  by (simp add: one_cache_def small_cache_def)

lemma one_cache_live: "live_list t (entries one_cache) = [(''a'', \<lparr>e_value = JNull, e_expiresAt = None, e_size = 5\<rparr>)]"
  by (simp add: one_cache_list live_list_def isExpired_def)

lemma sample_text: "snapshot_json 1 [\<lparr>s_key = ''a'', s_value = JNull, s_expiresAt = None\<rparr>] (Some 0) =
    JObj [(''version'', JNum 2), (''savedAt'', JNum 1), (''entries'', JArr [JObj [(''key'', JStr ''a''), (''value'', JNull)]]), (''aofSeq'', JNum 0)]"
  by (simp add: snapshot_json_def entry_json_def)

lemma logging_fields: "sv_kv logging_server = one_cache" "sv_aof logging_server = opened ''f'' 0 Clean None [] False"
  by (simp_all add: logging_server_def server_fields)

lemma sample_readable: "readable (snapshot_json 1 [\<lparr>s_key = ''a'', s_value = JNull, s_expiresAt = None\<rparr>] (Some 0))"
  by (simp add: sample_text own_order_def array_index_def all_digits_def is_digit_def distinct_keys_def byte_def plain_number_def)

lemma sample_contents: "valid_utf8 sample_snapshot" "length sample_snapshot < 100"
  by (simp_all add: sample_snapshot_def sample_text num_text_0 num_text_1 num_text_2 quote_text_def quote_char_def byte_def)

lemma logging_backed: "backed (saved_origin one_cache 0 []) 0 [] [] logging_server"
proof -
  have "mirror t c one_cache \<longrightarrow> mirror t c one_cache" for t c by simp
  moreover have "kv_changed one_cache = []" "fits_list (kv_opts one_cache) (entries one_cache)"
    by (simp_all add: one_cache_def small_cache_def fits_list_def small_options_def al_sum_def)
  moreover have "recovers (\<lambda>t s. mirror t s one_cache) 0 [] one_cache" by (rule recovers_start)
  ultimately show ?thesis
    using one_cache_ok by (simp add: backed_def saved_origin_def logging_fields opened_def disk_text_def in_limits_def)
qed

lemma saved_sample: "save_text 1 1 logging_server = Inr (1, sample_snapshot)"
proof -
  have "cloneJsonValue default_clone_bytes JNull = Inr JNull"
    by (simp add: cloneJsonValue_Inr default_clone_bytes_def MAX_JSON_DEPTH_def MAX_JSON_NODES_def)
  then have "dump_list 1 (entries one_cache) = Inr [\<lparr>s_key = ''a'', s_value = JNull, s_expiresAt = None\<rparr>]"
    by (simp add: one_cache_list isExpired_def)
  moreover have "snapshot_seq (seq_arg (Some 0)) = Inr (Some 0)" by (rule snapshot_seq_arg) simp
  moreover have "length sample_snapshot \<le> MAX_PERSISTENCE_FILE_BYTES" using sample_contents(2) by (simp add: MAX_PERSISTENCE_FILE_BYTES_def)
  ultimately show ?thesis
    by (simp add: save_text_def snapshot_text_def kv_dump_def check_def logging_fields opened_def sample_snapshot_def)
qed

lemma sample_fits: "dated (entries one_cache)"
    "readable (snapshot_json 1 (map saved_entry (live_list t (entries one_cache))) (Some 0))"
  using sample_readable by (simp_all add: one_cache_list live_list_def isExpired_def saved_entry_def dated_def)

lemma logging_log: "log_text rs = [] \<Longrightarrow> list_all loggable rs"
  by (cases rs) (simp_all add: log_text_def line_text_def)

end
