(* ===== verification/Client.thy ===== *)
theory Client
  imports Resp_Codec Errors Json_Clone Json_Parse
begin

text \<open>
  The typed methods of the client (\<open>src/src/client.ts\<close>, \<open>class YasdClient\<close>): the arguments of the
  command they send and what they make of the reply. They are stated over \<open>exec\<close>, which sends a
  command and gives its reply or throws; a reply that is an error is thrown by \<open>exec\<close> already.
\<close>

section \<open>Replies\<close>

definition unexpected :: "string \<Rightarrow> jserr" where
  "unexpected what = PlainError (''unexpected '' @ what)"

datatype js_value = VText string | VNum jsnum | VNull | VItems "js_value list"

fun jsValue :: "reply \<Rightarrow> js_value outcome"
  and js_items :: "reply option list \<Rightarrow> js_value list outcome" where
  "jsValue (RSimple s) = Inr (VText s)"
| "jsValue (RError m) = Inl (errorFromWire m)"
| "jsValue (RInt n) = Inr (VNum n)"
| "jsValue (RBulk (Some s)) = Inr (VText s)"
| "jsValue (RBulk None) = Inr VNull"
| "jsValue (RArray rs) = chain (js_items rs) (\<lambda>vs. Inr (VItems vs))"
| "jsValue RNil = Inr VNull"
| "js_items [] = Inr []"
| "js_items (None # rs) = chain (js_items rs) (\<lambda>vs. Inr (VNull # vs))"
| "js_items (Some r # rs) = chain (jsValue r) (\<lambda>v. chain (js_items rs) (\<lambda>vs. Inr (v # vs)))"

definition int_of_reply :: "reply \<Rightarrow> jsnum outcome" where
  "int_of_reply r = chain (jsValue r) (\<lambda>v. case v of VNum n \<Rightarrow> Inr n | _ \<Rightarrow> Inl (unexpected ''integer reply''))"

definition numberReply :: "reply \<Rightarrow> jsnum outcome" where
  "numberReply r = chain (jsValue r) (\<lambda>v.
     case v of
       VNum n \<Rightarrow> Inr n
     | VText s \<Rightarrow> (case js_number s of Fin x \<Rightarrow> Inr (Fin x) | _ \<Rightarrow> Inl (unexpected ''numeric reply''))
     | _ \<Rightarrow> Inl (unexpected ''numeric reply''))"

definition bulk_value :: "jserr \<Rightarrow> reply option \<Rightarrow> json option outcome" where
  "bulk_value e r =
     (case r of
        Some (RBulk None) \<Rightarrow> Inr None
      | Some (RBulk (Some s)) \<Rightarrow> chain (JSON_parse s) (\<lambda>v. Inr (Some v))
      | _ \<Rightarrow> Inl e)"

fun bulk_values :: "reply option list \<Rightarrow> json option list outcome" where
  "bulk_values [] = Inr []"
| "bulk_values (r # rs) =
     chain (if r = None then Inr None else bulk_value (unexpected ''MGET element'') r) (\<lambda>v. chain (bulk_values rs) (\<lambda>vs. Inr (v # vs)))"

definition expect_ok :: "string \<Rightarrow> reply \<Rightarrow> unit outcome" where
  "expect_ok what r = (if r = RSimple ''OK'' then Inr () else Inl (unexpected what))"

section \<open>Arguments\<close>

definition MAX_VALUE_TEXT :: nat where
  "MAX_VALUE_TEXT = 4 * 1024 * 1024"

definition stringifyJsonValue :: "json \<Rightarrow> string outcome" where
  "stringifyJsonValue v = chain (cloneJsonValue MAX_VALUE_TEXT v) (\<lambda>w. Inr (json_text w))"

text \<open>\<open>String(n)\<close>.\<close>

definition number_text :: "jsnum \<Rightarrow> string" where
  "number_text n = (case n of Fin x \<Rightarrow> num_text x | PosInf \<Rightarrow> ''Infinity'' | NegInf \<Rightarrow> ''-Infinity'' | NaN \<Rightarrow> ''NaN'')"

definition px_args :: "jsnum option \<Rightarrow> string list outcome" where
  "px_args ttlMs =
     (case ttlMs of
        None \<Rightarrow> Inr []
      | Some n \<Rightarrow> chain (validateNonNegativeNumber n) (\<lambda>t. Inr [''PX'', num_text t]))"

definition set_args :: "string \<Rightarrow> json \<Rightarrow> jsnum option \<Rightarrow> string list outcome" where
  "set_args key v ttlMs = chain (stringifyJsonValue v) (\<lambda>t. chain (px_args ttlMs) (\<lambda>px. Inr ([''SET'', key, t] @ px)))"

fun pair_args :: "(string \<times> json) list \<Rightarrow> string list outcome" where
  "pair_args [] = Inr []"
| "pair_args ((k, v) # es) = chain (stringifyJsonValue v) (\<lambda>t. chain (pair_args es) (\<lambda>as. Inr (k # t # as)))"

definition cas_args :: "string \<Rightarrow> json option \<Rightarrow> json \<Rightarrow> jsnum option \<Rightarrow> string list outcome" where
  "cas_args key expected v ttlMs =
     chain (stringifyJsonValue v) (\<lambda>t.
     chain (case expected of None \<Rightarrow> Inr [] | Some x \<Rightarrow> stringifyJsonValue x) (\<lambda>e.
     chain (px_args ttlMs) (\<lambda>px. Inr ([''CAS'', key, e, t] @ px))))"

section \<open>The methods\<close>

type_synonym 's link = "string list \<Rightarrow> ('s, reply) act"

text \<open>Arguments that cannot be written are thrown before anything is sent.\<close>

definition ask :: "'s link \<Rightarrow> string list outcome \<Rightarrow> (reply \<Rightarrow> 'a outcome) \<Rightarrow> ('s, 'a) act" where
  "ask exec args decode s =
     (case args of
        Inl e \<Rightarrow> (Inl e, s)
      | Inr argv \<Rightarrow> (case exec argv s of (r, s') \<Rightarrow> (chain r decode, s')))"

definition client_ping :: "'s link \<Rightarrow> string option \<Rightarrow> ('s, string) act" where
  "client_ping exec message = ask exec (Inr (''PING'' # (case message of None \<Rightarrow> [] | Some m \<Rightarrow> [m])))
     (\<lambda>r. case r of RSimple s \<Rightarrow> Inr s | RBulk (Some s) \<Rightarrow> Inr s | _ \<Rightarrow> Inl (unexpected ''PING reply''))"

definition client_get :: "'s link \<Rightarrow> string \<Rightarrow> ('s, json option) act" where
  "client_get exec key = ask exec (Inr [''GET'', key]) (\<lambda>r. bulk_value (unexpected ''GET reply'') (Some r))"

definition client_set :: "'s link \<Rightarrow> string \<Rightarrow> json \<Rightarrow> jsnum option \<Rightarrow> ('s, unit) act" where
  "client_set exec key v ttlMs = ask exec (set_args key v ttlMs) (expect_ok ''SET reply'')"

definition client_mget :: "'s link \<Rightarrow> string list \<Rightarrow> ('s, json option list) act" where
  "client_mget exec keys = ask exec (Inr (''MGET'' # keys))
     (\<lambda>r. case r of RArray rs \<Rightarrow> bulk_values rs | _ \<Rightarrow> Inl (unexpected ''MGET reply''))"

definition client_mset :: "'s link \<Rightarrow> (string \<times> json) list \<Rightarrow> ('s, unit) act" where
  "client_mset exec es = ask exec (chain (pair_args es) (\<lambda>as. Inr (''MSET'' # as))) (expect_ok ''MSET reply'')"

definition client_del :: "'s link \<Rightarrow> string list \<Rightarrow> ('s, jsnum) act" where
  "client_del exec keys = ask exec (Inr (''DEL'' # keys)) int_of_reply"

definition client_clearPrefix :: "'s link \<Rightarrow> string \<Rightarrow> ('s, jsnum) act" where
  "client_clearPrefix exec prefix = ask exec (Inr [''CLEAR'', prefix]) int_of_reply"

definition client_ttl :: "'s link \<Rightarrow> string \<Rightarrow> ('s, jsnum) act" where
  "client_ttl exec key = ask exec (Inr [''TTL'', key]) int_of_reply"

definition is_one :: "reply \<Rightarrow> bool outcome" where
  "is_one r = chain (int_of_reply r) (\<lambda>n. Inr (n = Fin 1))"

definition client_expire :: "'s link \<Rightarrow> string \<Rightarrow> jsnum \<Rightarrow> ('s, bool) act" where
  "client_expire exec key ttlMs =
     ask exec (chain (validateNonNegativeNumber ttlMs) (\<lambda>t. Inr [''EXPIRE'', key, num_text t])) is_one"

definition client_persist :: "'s link \<Rightarrow> string \<Rightarrow> ('s, bool) act" where
  "client_persist exec key = ask exec (Inr [''PERSIST'', key]) is_one"

definition client_incr :: "'s link \<Rightarrow> string \<Rightarrow> jsnum \<Rightarrow> ('s, jsnum) act" where
  "client_incr exec key by = ask exec (Inr [''INCR'', key, number_text by]) numberReply"

definition client_decr :: "'s link \<Rightarrow> string \<Rightarrow> jsnum \<Rightarrow> ('s, jsnum) act" where
  "client_decr exec key by = ask exec (Inr [''DECR'', key, number_text by]) numberReply"

definition client_cas :: "'s link \<Rightarrow> string \<Rightarrow> json option \<Rightarrow> json \<Rightarrow> jsnum option \<Rightarrow> ('s, bool) act" where
  "client_cas exec key expected v ttlMs = ask exec (cas_args key expected v ttlMs)
     (\<lambda>r. case r of RInt n \<Rightarrow> Inr (n = Fin 1) | _ \<Rightarrow> Inl (unexpected ''CAS reply''))"

definition client_publish :: "'s link \<Rightarrow> string \<Rightarrow> string \<Rightarrow> ('s, jsnum) act" where
  "client_publish exec channel message = ask exec (Inr [''PUBLISH'', channel, message]) int_of_reply"

definition client_info :: "'s link \<Rightarrow> ('s, json) act" where
  "client_info exec = ask exec (Inr [''INFO''])
     (\<lambda>r. case r of RBulk (Some s) \<Rightarrow> JSON_parse s | _ \<Rightarrow> Inl (unexpected ''INFO reply''))"

definition client_save :: "'s link \<Rightarrow> string option \<Rightarrow> ('s, unit) act" where
  "client_save exec path = ask exec (Inr (''SAVE'' # (case path of None \<Rightarrow> [] | Some p \<Rightarrow> [p]))) (expect_ok ''SAVE reply'')"

definition client_load :: "'s link \<Rightarrow> string option \<Rightarrow> ('s, string) act" where
  "client_load exec path = ask exec (Inr (''LOAD'' # (case path of None \<Rightarrow> [] | Some p \<Rightarrow> [p])))
     (\<lambda>r. case r of RSimple s \<Rightarrow> Inr s | _ \<Rightarrow> Inl (unexpected ''LOAD reply''))"

end
