(* ===== verification/Server_Cache.thy ===== *)
theory Server_Cache
  imports Server_Command
begin

text \<open>
  The cache of a running server for callers in the same process (\<open>src/src/server.ts\<close>,
  \<open>createYasdServerCacheFacade\<close> and the methods \<open>cacheSet\<close> to \<open>cachePersist\<close>): reads go to the
  cache, every change goes through \<open>runCacheMutation\<close>, so that its log record and its
  invalidations cannot be left out. A \<open>hook\<close> is the closure that a method hands over; the server's
  commands are the same closures with an encoded result.
\<close>

type_synonym 'a hook = "('a \<times> effects) kvop"

definition told :: "'a \<Rightarrow> json \<Rightarrow> json list \<Rightarrow> 'a hook" where
  "told a op evs = returns (a, \<lparr>ef_aof = [op], ef_invalidations = evs\<rparr>)"

definition untold :: "'a \<Rightarrow> 'a hook" where
  "untold a = returns (a, no_effects)"

section \<open>The closures\<close>

definition hook_set :: "rat \<Rightarrow> string \<Rightarrow> json \<Rightarrow> jsnum option \<Rightarrow> json hook" where
  "hook_set now key v ttlMs =
     andThen (kv_set now key v ttlMs) (\<lambda>result.
     andThen (aofExpiry now key) (\<lambda>x. told result (set_op key v x) [key_event ''set'' key]))"

definition hook_del :: "rat \<Rightarrow> string \<Rightarrow> bool hook" where
  "hook_del now key =
     andThen (kv_del now key) (\<lambda>deleted.
     if deleted then told True (del_op [key]) [key_event ''del'' key] else untold False)"

definition hook_clearPrefix :: "string \<Rightarrow> nat hook" where
  "hook_clearPrefix prefix =
     andThen (kv_clearPrefix prefix) (\<lambda>n. told n (clear_op prefix) [invalidation ''clear'' ''prefix'' prefix])"

definition hook_clear :: "rat \<Rightarrow> unit hook" where
  "hook_clear now =
     andThen (kv_dump now) (\<lambda>es.
     andThen kv_clear (\<lambda>_.
     if es = [] then untold () else told () (del_op (map s_key es)) (map (\<lambda>e. key_event ''del'' (s_key e)) es)))"

definition batch_op :: "(batch_entry \<times> json) list \<Rightarrow> json" where
  "batch_op es = JObj [(''op'', JStr ''mset''), (''entries'', JArr (map (\<lambda>(e, x).
     JObj ([(''key'', JStr (b_key e)), (''value'', b_value e)] @
       (case b_ttlMs e of Some (Fin t) \<Rightarrow> [(''ttlMs'', JNum t)] | _ \<Rightarrow> []) @ [(''expiresAt'', x)])) es))]"

definition hook_mset :: "rat \<Rightarrow> batch_entry list \<Rightarrow> nat hook" where
  "hook_mset now es =
     andThen (kv_mset now es) (\<lambda>count.
     andThen (map_each (\<lambda>e. andThen (aofExpiry now (b_key e)) (\<lambda>x. returns (e, x))) es) (\<lambda>logged.
     told count (batch_op logged) (map (\<lambda>e. key_event ''set'' (b_key e)) es)))"

definition hook_incr :: "rat \<Rightarrow> bool \<Rightarrow> string \<Rightarrow> jsnum \<Rightarrow> rat hook" where
  "hook_incr now up key by =
     andThen (if up then kv_incr now now key by else kv_decr now now key by) (\<lambda>next.
     told next (incr_op key (if up then fin_of by else - fin_of by)) [key_event ''set'' key])"

definition hook_cas :: "rat \<Rightarrow> string \<Rightarrow> json option \<Rightarrow> json \<Rightarrow> jsnum option \<Rightarrow> bool hook" where
  "hook_cas now key expected v ttlMs =
     andThen (kv_cas now key expected v ttlMs) (\<lambda>ok.
     if ok then
       andThen (kv_expiration now key) (\<lambda>r.
       told True (case r of None \<Rightarrow> del_op [key] | Some None \<Rightarrow> set_op key v JNull | Some (Some t) \<Rightarrow> set_op key v (JNum t))
         [key_event ''set'' key])
     else untold False)"

definition hook_expire :: "rat \<Rightarrow> string \<Rightarrow> jsnum \<Rightarrow> bool hook" where
  "hook_expire now key ttlMs =
     andThen (kv_expire now key ttlMs) (\<lambda>ok.
     if ok then andThen (aofExpiry now key) (\<lambda>x. told True (expire_op key (or_zero x)) [key_event ''expire'' key])
     else untold False)"

definition hook_persist :: "rat \<Rightarrow> string \<Rightarrow> bool hook" where
  "hook_persist now key =
     andThen (kv_persist now key) (\<lambda>ok.
     if ok then told True (persist_op key) [key_event ''persist'' key] else untold False)"

section \<open>The methods\<close>

definition cacheSet :: "rat \<Rightarrow> nat option \<Rightarrow> string \<Rightarrow> json \<Rightarrow> jsnum option \<Rightarrow> json handler" where
  "cacheSet now flt key v ttlMs = runCacheMutation now flt (hook_set now key v ttlMs)"

definition cacheDel :: "rat \<Rightarrow> nat option \<Rightarrow> string \<Rightarrow> bool handler" where
  "cacheDel now flt key = runCacheMutation now flt (hook_del now key)"

definition cacheClearPrefix :: "rat \<Rightarrow> nat option \<Rightarrow> string \<Rightarrow> nat handler" where
  "cacheClearPrefix now flt prefix = runCacheMutation now flt (hook_clearPrefix prefix)"

definition cacheClear :: "rat \<Rightarrow> nat option \<Rightarrow> unit handler" where
  "cacheClear now flt = runCacheMutation now flt (hook_clear now)"

definition cacheMset :: "rat \<Rightarrow> nat option \<Rightarrow> batch_entry list \<Rightarrow> nat handler" where
  "cacheMset now flt es = runCacheMutation now flt (hook_mset now es)"

definition cacheIncr :: "rat \<Rightarrow> nat option \<Rightarrow> string \<Rightarrow> jsnum \<Rightarrow> rat handler" where
  "cacheIncr now flt key by = runCacheMutation now flt (hook_incr now True key by)"

definition cacheDecr :: "rat \<Rightarrow> nat option \<Rightarrow> string \<Rightarrow> jsnum \<Rightarrow> rat handler" where
  "cacheDecr now flt key by = runCacheMutation now flt (hook_incr now False key by)"

definition cacheCas :: "rat \<Rightarrow> nat option \<Rightarrow> string \<Rightarrow> json option \<Rightarrow> json \<Rightarrow> jsnum option \<Rightarrow> bool handler" where
  "cacheCas now flt key expected v ttlMs = runCacheMutation now flt (hook_cas now key expected v ttlMs)"

definition cacheExpire :: "rat \<Rightarrow> nat option \<Rightarrow> string \<Rightarrow> jsnum \<Rightarrow> bool handler" where
  "cacheExpire now flt key ttlMs = runCacheMutation now flt (hook_expire now key ttlMs)"

definition cachePersist :: "rat \<Rightarrow> nat option \<Rightarrow> string \<Rightarrow> bool handler" where
  "cachePersist now flt key = runCacheMutation now flt (hook_persist now key)"

text \<open>The reads of the facade, which report the expiries they find.\<close>

definition facade_get :: "rat \<Rightarrow> string \<Rightarrow> json option handler" where
  "facade_get now key = with_kv (kv_get now key)"

definition facade_mget :: "rat \<Rightarrow> string list \<Rightarrow> json option list handler" where
  "facade_mget now keys = with_kv (kv_mget now keys)"

definition facade_ttl :: "rat \<Rightarrow> string \<Rightarrow> int handler" where
  "facade_ttl now key = with_kv (kv_ttl now key)"

definition facade_expiration :: "rat \<Rightarrow> string \<Rightarrow> rat option option handler" where
  "facade_expiration now key = with_kv (kv_expiration now key)"

definition facade_dump :: "rat \<Rightarrow> snapshot_entry list handler" where
  "facade_dump now = with_kv (kv_dump now)"

definition facade_sweep :: "rat \<Rightarrow> nat handler" where
  "facade_sweep now = with_kv (kv_sweep now)"

definition facade_getVersion :: "rat \<Rightarrow> string \<Rightarrow> int handler" where
  "facade_getVersion now key = with_kv (kv_getVersion now key)"

definition facade_resetStats :: "unit handler" where
  "facade_resetStats = with_kv (modify kv_resetStats)"

section \<open>A command is its closure with an encoded result\<close>

definition encoded_result :: "('a \<Rightarrow> 'b) \<Rightarrow> 'a hook \<Rightarrow> 'b hook" where
  "encoded_result f m = andThen m (\<lambda>(a, ef). returns (f a, ef))"

end
