(* ===== verification/Remote.thy ===== *)
theory Remote
  imports Client Server_Cache Server_Recovery Server_Safety Resp_Delivery Server_Sample
begin

text \<open>
  A client's call and the same operation on the cache of the server process: the client writes a
  command, the server parses it, runs it and writes a reply, and the client reads the reply. The
  result is the same, and so is what the operation does to the server.
\<close>

section \<open>A round trip\<close>

text \<open>
  What the promise of a sent command is settled with. The texts of the command and the reply
  arrive as they were written, whatever their chunks (\<open>Resp_Stream\<close>), so the link is stated on
  the values; \<open>received\<close> is what the client's decoder makes of a reply.
\<close>

definition settled :: "reply \<Rightarrow> reply outcome" where
  "settled r = (case r of RError m \<Rightarrow> Inl (errorFromWire m) | _ \<Rightarrow> Inr r)"

definition over_wire :: "env \<Rightarrow> nat \<Rightarrow> server link" where
  "over_wire ev i argv s =
     (case encodeCommand argv of
        Inl e \<Rightarrow> (Inl e, s)
      | Inr _ \<Rightarrow> let s' = snd (onRequest ev i (command_reply argv) s) in (settled (received (last (cn_out (conn_of i s')))), s'))"

text \<open>An error as the client throws it.\<close>

definition over_error :: "jserr \<Rightarrow> jserr" where
  "over_error e = (case settled (received (sendable_reply (Some (error_reply e)))) of Inl x \<Rightarrow> x | Inr _ \<Rightarrow> e)"

section \<open>Connections that take commands\<close>

definition listening :: "nat \<Rightarrow> server \<Rightarrow> bool" where
  "listening i s \<longleftrightarrow> (let cn = conn_of i s in cn_authed cn \<and> \<not> cn_subMode cn \<and> cn_queue cn = None \<and> \<not> cn_closed cn) \<and>
     cf_maxCommandMs (sv_config s) = 0"

text \<open>Nothing of the connections but their output, and nothing of the configuration, has changed.\<close>

definition silent :: "conn \<Rightarrow> conn" where
  "silent cn = cn\<lparr>cn_out := []\<rparr>"

definition outputs :: "server \<Rightarrow> server \<Rightarrow> bool" where
  "outputs s s' \<longleftrightarrow> sv_config s' = sv_config s \<and> (\<forall>j. silent (conn_of j s') = silent (conn_of j s))"

lemma outputs_refl [simp]: "outputs s s"
  by (simp add: outputs_def)

lemma outputs_trans: "outputs s s1 \<Longrightarrow> outputs s1 s2 \<Longrightarrow> outputs s s2"
  by (simp add: outputs_def)

lemma silent_fields: "silent a = silent b \<Longrightarrow> cn_authed a = cn_authed b \<and> cn_subMode a = cn_subMode b \<and> cn_queue a = cn_queue b \<and> cn_closed a = cn_closed b"
  by (cases a; cases b) (simp add: silent_def)

lemma outputs_listening: "outputs s s' \<Longrightarrow> listening i s' = listening i s"
  unfolding outputs_def listening_def Let_def using silent_fields by metis

lemma outputs_other [simp]: "sv_conns s' = sv_conns s \<Longrightarrow> sv_config s' = sv_config s \<Longrightarrow> outputs s s'"
  by (simp add: outputs_def conn_of_def)

lemma silent_write: "silent (snd (write_conn r cn)) = silent cn"
  by (simp add: write_conn_def silent_def)

lemma listener_silent:
  "silent (conn_of j (s\<lparr>sv_conns := snd (snd (listener_call l ch m (h, cs)))\<rparr>)) = silent (conn_of j (s\<lparr>sv_conns := cs\<rparr>))"
  by (auto simp: listener_call_def conn_of_def silent_write split: option.split)

lemma outputs_publish: "outputs s (snd (hub_publish ch m s))"
proof -
  have "silent (conn_of j (s\<lparr>sv_conns := snd (fold (\<lambda>l hc. snd (listener_call l ch m hc)) ls hc)\<rparr>)) = silent (conn_of j (s\<lparr>sv_conns := snd hc\<rparr>))" for j ls hc
  proof (induction ls arbitrary: hc)
    case (Cons l ls)
    then show ?case using listener_silent [of j l ch m "fst hc" "snd hc" s] by simp
  qed simp
  then show ?thesis
    by (auto simp: hub_publish_def publish_spec outputs_def conn_of_def split: prod.split) (metis prod.collapse snd_conv)
qed

lemma outputs_publishInvalidate: "outputs s (publishInvalidate ev s)"
  by (simp add: publishInvalidate_def outputs_publish)

lemma outputs_fold: "(\<And>x s. outputs s (f x s)) \<Longrightarrow> outputs s (fold f xs s)"
  by (induction xs arbitrary: s) (auto intro: outputs_trans)

lemma outputs_report: "outputs s (report_expiries s)"
proof -
  have "outputs s (s\<lparr>sv_kv := c\<rparr>)" for c by simp
  moreover have "outputs (s\<lparr>sv_kv := c\<rparr>) (report_expiries s)" if "c = (sv_kv s)\<lparr>kv_events := []\<rparr>" for c
    unfolding report_expiries_def that by (rule outputs_fold) (simp add: onCacheExpiry_def outputs_publishInvalidate)
  ultimately show ?thesis using outputs_trans by blast
qed

lemma outputs_publish_all: "outputs s (publish_all ef s)"
  unfolding publish_all_def by (rule outputs_fold) (rule outputs_publishInvalidate)

lemma outputs_with_kv: "outputs s (snd (with_kv m s))"
  unfolding with_kv_def by (cases "m (sv_kv s)") (auto intro: outputs_trans [OF _ outputs_report])

lemma outputs_append: "outputs s (snd (appendAof now flt op s))"
  by (auto simp: appendAof_def aofWriteError_def rememberPersistenceError_def forgetPersistenceError_def syncAofRecoveryStatus_def
      split: prod.split sum.split recovery.split)

lemma outputs_then: "outputs s (snd (m s)) \<Longrightarrow> (\<And>a s. outputs s (snd (f a s))) \<Longrightarrow> outputs s (snd (andThen m f s))"
  by (cases "m s"; cases "fst (m s)") (auto simp: andThen_def intro: outputs_trans)

lemma outputs_logged: "outputs s (fst (snd (logged_changes now flt (on_kv m) (s, x))))"
proof -
  have p: "outputs s (snd (commit_patch now flt es ds s))" for es ds by (simp add: commit_patch_def outputs_append)
  have "outputs s (fst (fst (snd (kv_atomicChanges now (on_kv m)
      (\<lambda>es ds sx. case commit_patch now flt es ds (fst sx) of (r, s) \<Rightarrow> (r, (s, snd sx))) ((s, x), sv_kv s)))))"
    unfolding atomicChanges_run on_kv_def using p
    by (simp split: prod.split sum.split) (metis snd_conv)
  then show ?thesis
    unfolding logged_changes_def by (auto intro: outputs_trans [OF _ outputs_trans [OF _ outputs_report]] split: prod.split)
qed

lemma outputs_mutation: "outputs s (snd (runCacheMutation now flt m s))"
proof -
  have 1: "outputs s (snd (case logged_changes now flt (on_kv m) (s, ()) of (r, (s', _)) \<Rightarrow> (r, s')))" for s
    using outputs_logged [of s now flt m "()"] by (auto split: prod.split)
  have 2: "outputs s (snd (append_effects now flt ef s))" for ef s
    by (simp add: append_effects_def outputs_append split: list.split)
  show ?thesis
    unfolding runCacheMutation_def
    by (auto simp: outputs_publish_all intro!: outputs_then 1 2 outputs_with_kv)
qed

section \<open>A command is a closure with an encoded result\<close>

lemma encoded_run: "encoded_result f m c = (case m c of (r, c') \<Rightarrow> (map_sum id (map_prod f id) r, c'))"
  by (cases "m c"; cases "fst (m c)") (auto simp: encoded_result_def andThen_def returns_def split: prod.split)

lemma logged_encoded: "logged_changes now flt (on_kv (encoded_result f m)) (s, x) =
    (case logged_changes now flt (on_kv m) (s, x) of (r, w) \<Rightarrow> (map_sum id (map_prod f id) r, w))"
  unfolding logged_changes_def by (simp add: atomicChanges_run on_kv_def encoded_run split: prod.split sum.split)

lemma with_encoded: "with_kv (encoded_result f m) s = (case with_kv m s of (r, s') \<Rightarrow> (map_sum id (map_prod f id) r, s'))"
  by (simp add: with_kv_def encoded_run split: prod.split)

lemma mutation_encoded: "runCacheMutation now flt (encoded_result f m) s = (case runCacheMutation now flt m s of (r, s') \<Rightarrow> (map_sum id f r, s'))"
proof (cases "sv_closing s \<or> aof_enabled s")
  case True
  then show ?thesis
    by (cases "logged_changes now flt (on_kv m) (s, ())"; cases "fst (logged_changes now flt (on_kv m) (s, ()))")
      (auto simp: runCacheMutation_def andThen_def logged_encoded modify_def returns_def split: prod.split)
next
  case False
  then show ?thesis
    by (cases "with_kv m s"; cases "fst (with_kv m s)")
      (auto simp: runCacheMutation_def andThen_def with_encoded modify_def returns_def split: prod.split sum.split)
qed

section \<open>Numbers\<close>

lemma digits_trim: "list_all is_digit s \<Longrightarrow> trim_end s = s"
proof (induction s)
  case (Cons c s)
  then have "space_len (c # s) = 0" by (intro space_len_ascii) (auto simp: is_digit_def)
  with Cons show ?case by simp
qed simp

lemma int_text_trim: "js_trim (int_text i) = int_text i"
proof (cases "i < 0")
  case True
  have "space_len (CHR ''-'' # nat_text (- i)) = 0" by (rule space_len_ascii) (simp_all add: byte_def)
  with True show ?thesis using nat_text_digits [of "- i"] by (simp add: js_trim_def int_text_def digits_trim all_digits_def)
next
  case False
  then obtain c d where cd: "nat_text i = c # d" using nat_text_ne [of i] by (cases "nat_text i") auto
  have d: "list_all is_digit (nat_text i)" using nat_text_digits [of i] False by (simp add: all_digits_def)
  then have "space_len (nat_text i) = 0" unfolding cd by (intro space_len_ascii) (auto simp: is_digit_def)
  then show ?thesis using False digits_trim [OF d] by (simp add: js_trim_def int_text_def)
qed

lemma decimal_int: "decimal_number (int_text i) = Some (of_int i)"
proof (cases "i < 0")
  case True
  then show ?thesis by (simp add: int_text_def decimal_number_def decimal_value_nat)
next
  case False
  then obtain c r where cr: "nat_text i = c # r" using nat_text_ne [of i] by (cases "nat_text i") auto
  then have "c \<noteq> CHR ''-''" "c \<noteq> CHR ''+''" using nat_text_hd [of i] False not_digit by (auto simp: is_digit_def byte_def)
  with False cr decimal_value_nat [of i] show ?thesis by (simp add: int_text_def decimal_number_def)
qed

lemma parse_number: "plain_number x \<Longrightarrow> parseStrictNumber (num_text x) = Inr x"
  by (erule plain_number_text) (simp add: parseStrictNumber_def int_text_trim decimal_int validateFiniteNumber_def)

lemma parse_ms: "plain_number x \<Longrightarrow> 0 \<le> x \<Longrightarrow> parseMs (num_text x) = Inr (Fin x)"
  by (erule plain_number_text) (simp add: parseMs_def parseStrictNonNegativeNumber_def int_text_trim decimal_int validateNonNegativeNumber_def)

section \<open>Calls\<close>

datatype call =
    Get string | Mget "string list" | Ttl string
  | Set string json "jsnum option" | Mset "(string \<times> json) list" | Del string | ClearPrefix string
  | Expire string jsnum | Persist string | Incr string jsnum | Decr string jsnum | Cas string "json option" json "jsnum option"

datatype result_value = AVal "json option" | AVals "json option list" | ADone | ANum jsnum | AFlag bool

definition giving :: "('a \<Rightarrow> 'b) \<Rightarrow> ('s, 'a) act \<Rightarrow> ('s, 'b) act" where
  "giving f m s = (case m s of (r, s') \<Rightarrow> (map_sum id f r, s'))"

fun client_call :: "'s link \<Rightarrow> call \<Rightarrow> ('s, result_value) act" where
  "client_call exec (Get k) = giving AVal (client_get exec k)"
| "client_call exec (Mget ks) = giving AVals (client_mget exec ks)"
| "client_call exec (Ttl k) = giving ANum (client_ttl exec k)"
| "client_call exec (Set k v t) = giving (\<lambda>_. ADone) (client_set exec k v t)"
| "client_call exec (Mset es) = giving (\<lambda>_. ADone) (client_mset exec es)"
| "client_call exec (Del k) = giving ANum (client_del exec [k])"
| "client_call exec (ClearPrefix p) = giving ANum (client_clearPrefix exec p)"
| "client_call exec (Expire k t) = giving AFlag (client_expire exec k t)"
| "client_call exec (Persist k) = giving AFlag (client_persist exec k)"
| "client_call exec (Incr k by) = giving ANum (client_incr exec k by)"
| "client_call exec (Decr k by) = giving ANum (client_decr exec k by)"
| "client_call exec (Cas k x v t) = giving AFlag (client_cas exec k x v t)"

fun embedded_call :: "env \<Rightarrow> call \<Rightarrow> result_value handler" where
  "embedded_call ev (Get k) = giving AVal (facade_get (ev_now ev) k)"
| "embedded_call ev (Mget ks) = giving AVals (facade_mget (ev_now ev) ks)"
| "embedded_call ev (Ttl k) = giving (\<lambda>n. ANum (Fin (of_int n))) (facade_ttl (ev_now ev) k)"
| "embedded_call ev (Set k v t) = giving (\<lambda>_. ADone) (cacheSet (ev_now ev) (ev_write ev) k v t)"
| "embedded_call ev (Mset es) = giving (\<lambda>_. ADone)
     (cacheMset (ev_now ev) (ev_write ev) (map (\<lambda>(k, v). \<lparr>b_key = k, b_value = v, b_ttlMs = None\<rparr>) es))"
| "embedded_call ev (Del k) = giving (\<lambda>b. ANum (Fin (if b then 1 else 0))) (cacheDel (ev_now ev) (ev_write ev) k)"
| "embedded_call ev (ClearPrefix p) = giving (\<lambda>n. ANum (Fin (of_nat n))) (cacheClearPrefix (ev_now ev) (ev_write ev) p)"
| "embedded_call ev (Expire k t) = giving AFlag (cacheExpire (ev_now ev) (ev_write ev) k t)"
| "embedded_call ev (Persist k) = giving AFlag (cachePersist (ev_now ev) (ev_write ev) k)"
| "embedded_call ev (Incr k by) = giving (\<lambda>x. ANum (Fin x)) (cacheIncr (ev_now ev) (ev_write ev) k by)"
| "embedded_call ev (Decr k by) = giving (\<lambda>x. ANum (Fin x)) (cacheDecr (ev_now ev) (ev_write ev) k by)"
| "embedded_call ev (Cas k x v t) = giving AFlag (cacheCas (ev_now ev) (ev_write ev) k x v t)"

text \<open>The arguments a client can write so that they are read back: values and numbers that JSON keeps.\<close>

definition value_fits :: "json \<Rightarrow> bool" where
  "value_fits v \<longleftrightarrow> readable v \<and> cloneJsonValue MAX_VALUE_TEXT v = Inr v"

definition ms_fits :: "jsnum \<Rightarrow> bool" where
  "ms_fits n \<longleftrightarrow> (\<exists>x. n = Fin x \<and> plain_number x \<and> 0 \<le> x)"

fun call_args :: "call \<Rightarrow> string list" where
  "call_args (Get k) = [''GET'', k]"
| "call_args (Mget ks) = ''MGET'' # ks"
| "call_args (Ttl k) = [''TTL'', k]"
| "call_args (Set k v t) = [''SET'', k, json_text v] @ (case t of None \<Rightarrow> [] | Some n \<Rightarrow> [''PX'', number_text n])"
| "call_args (Mset es) = ''MSET'' # concat (map (\<lambda>(k, v). [k, json_text v]) es)"
| "call_args (Del k) = [''DEL'', k]"
| "call_args (ClearPrefix p) = [''CLEAR'', p]"
| "call_args (Expire k t) = [''EXPIRE'', k, number_text t]"
| "call_args (Persist k) = [''PERSIST'', k]"
| "call_args (Incr k by) = [''INCR'', k, number_text by]"
| "call_args (Decr k by) = [''DECR'', k, number_text by]"
| "call_args (Cas k x v t) = [''CAS'', k, case x of None \<Rightarrow> [] | Some y \<Rightarrow> json_text y, json_text v] @
     (case t of None \<Rightarrow> [] | Some n \<Rightarrow> [''PX'', number_text n])"

fun call_values_fit :: "call \<Rightarrow> bool" where
  "call_values_fit (Set k v t) = (value_fits v \<and> pred_option ms_fits t)"
| "call_values_fit (Mset es) = (es \<noteq> [] \<and> (\<forall>(k, v) \<in> set es. value_fits v))"
| "call_values_fit (Expire k t) = ms_fits t"
| "call_values_fit (Incr k by) = (\<exists>x. by = Fin x \<and> plain_number x)"
| "call_values_fit (Decr k by) = (\<exists>x. by = Fin x \<and> plain_number x)"
| "call_values_fit (Cas k x v t) = (pred_option value_fits x \<and> value_fits v \<and> pred_option ms_fits t)"
| "call_values_fit _ = True"

text \<open>The reply that carries a result.\<close>

fun value_of_reply :: "result_value \<Rightarrow> reply" where
  "value_of_reply (AVal v) = value_reply v"
| "value_of_reply (AVals vs) = RArray (map (\<lambda>v. Some (value_reply v)) vs)"
| "value_of_reply ADone = OK"
| "value_of_reply (ANum n) = RInt n"
| "value_of_reply (AFlag b) = flag_reply b"

fun values_in :: "result_value \<Rightarrow> json list" where
  "values_in (AVal (Some v)) = [v]"
| "values_in (AVals vs) = map the (filter (\<lambda>v. v \<noteq> None) vs)"
| "values_in _ = []"

definition result_fits :: "result_value \<Rightarrow> bool" where
  "result_fits a \<longleftrightarrow> (\<exists>n. replyByteLength (Some (value_of_reply a)) 0 = Inr n) \<and> list_all readable (values_in a)"

section \<open>What the client sends and makes of the reply\<close>

fun call_decode :: "call \<Rightarrow> reply \<Rightarrow> result_value outcome" where
  "call_decode (Get k) = (\<lambda>r. map_sum id AVal (bulk_value (unexpected ''GET reply'') (Some r)))"
| "call_decode (Mget ks) = (\<lambda>r. map_sum id AVals (case r of RArray rs \<Rightarrow> bulk_values rs | _ \<Rightarrow> Inl (unexpected ''MGET reply'')))"
| "call_decode (Set k v t) = (\<lambda>r. map_sum id (\<lambda>_. ADone) (expect_ok ''SET reply'' r))"
| "call_decode (Mset es) = (\<lambda>r. map_sum id (\<lambda>_. ADone) (expect_ok ''MSET reply'' r))"
| "call_decode (Expire k t) = (\<lambda>r. map_sum id AFlag (is_one r))"
| "call_decode (Persist k) = (\<lambda>r. map_sum id AFlag (is_one r))"
| "call_decode (Incr k by) = (\<lambda>r. map_sum id ANum (numberReply r))"
| "call_decode (Decr k by) = (\<lambda>r. map_sum id ANum (numberReply r))"
| "call_decode (Cas k x v t) = (\<lambda>r. map_sum id AFlag (case r of RInt n \<Rightarrow> Inr (n = Fin 1) | _ \<Rightarrow> Inl (unexpected ''CAS reply'')))"
| "call_decode _ = (\<lambda>r. map_sum id ANum (int_of_reply r))"

lemma stringify_fits: "value_fits v \<Longrightarrow> stringifyJsonValue v = Inr (json_text v)"
  by (simp add: value_fits_def stringifyJsonValue_def)

lemma px_fits: "pred_option ms_fits t \<Longrightarrow> px_args t = Inr (case t of None \<Rightarrow> [] | Some n \<Rightarrow> [''PX'', number_text n])"
  by (cases t) (auto simp: px_args_def ms_fits_def validateNonNegativeNumber_def number_text_def)

lemma pair_fits: "\<forall>(k, v) \<in> set es. value_fits v \<Longrightarrow> pair_args es = Inr (concat (map (\<lambda>(k, v). [k, json_text v]) es))"
  by (induction es) (auto simp: stringify_fits)

lemma giving_ask: "giving f (ask exec args decode) s = ask exec args (\<lambda>r. map_sum id f (decode r)) s"
proof (cases args)
  case (Inr argv)
  then show ?thesis by (cases "exec argv s"; cases "fst (exec argv s)") (auto simp: giving_def ask_def)
qed (simp add: giving_def ask_def)

lemma client_call_fits:
  assumes "call_values_fit call"
  shows "client_call exec call = ask exec (Inr (call_args call)) (call_decode call)"
  using assms
  by (cases call)
    (auto simp: fun_eq_iff giving_ask client_get_def client_mget_def client_ttl_def client_set_def client_mset_def client_del_def
      client_clearPrefix_def client_expire_def client_persist_def client_incr_def client_decr_def client_cas_def
      set_args_def cas_args_def stringify_fits px_fits pair_fits ms_fits_def validateNonNegativeNumber_def number_text_def
      split: option.split)

section \<open>What the server runs\<close>

definition read_hook :: "'a kvop \<Rightarrow> 'a hook" where
  "read_hook m = andThen m untold"

fun mutating :: "call \<Rightarrow> bool" where
  "mutating (Get k) = False" | "mutating (Mget ks) = False" | "mutating (Ttl k) = False" | "mutating _ = True"

fun call_hook :: "rat \<Rightarrow> call \<Rightarrow> result_value hook" where
  "call_hook now (Get k) = encoded_result AVal (read_hook (kv_get now k))"
| "call_hook now (Mget ks) = encoded_result AVals (read_hook (kv_mget now ks))"
| "call_hook now (Ttl k) = encoded_result (\<lambda>n. ANum (Fin (of_int n))) (read_hook (kv_ttl now k))"
| "call_hook now (Set k v t) = encoded_result (\<lambda>_. ADone) (hook_set now k v t)"
| "call_hook now (Mset es) = encoded_result (\<lambda>_. ADone) (hook_mset now (map (\<lambda>(k, v). \<lparr>b_key = k, b_value = v, b_ttlMs = None\<rparr>) es))"
| "call_hook now (Del k) = encoded_result (\<lambda>b. ANum (Fin (if b then 1 else 0))) (hook_del now k)"
| "call_hook now (ClearPrefix p) = encoded_result (\<lambda>n. ANum (Fin (of_nat n))) (hook_clearPrefix p)"
| "call_hook now (Expire k t) = encoded_result AFlag (hook_expire now k t)"
| "call_hook now (Persist k) = encoded_result AFlag (hook_persist now k)"
| "call_hook now (Incr k by) = encoded_result (\<lambda>x. ANum (Fin x)) (hook_incr now True k by)"
| "call_hook now (Decr k by) = encoded_result (\<lambda>x. ANum (Fin x)) (hook_incr now False k by)"
| "call_hook now (Cas k x v t) = encoded_result AFlag (hook_cas now k x v t)"

fun call_reply :: "call \<Rightarrow> result_value \<Rightarrow> reply" where
  "call_reply (Incr k by) (ANum (Fin x)) = number_reply x"
| "call_reply (Decr k by) (ANum (Fin x)) = number_reply x"
| "call_reply _ a = value_of_reply a"

lemma embedded_mutation: "mutating call \<Longrightarrow> embedded_call ev call s = runCacheMutation (ev_now ev) (ev_write ev) (call_hook (ev_now ev) call) s"
  by (cases call) (simp_all add: giving_def mutation_encoded cacheSet_def cacheMset_def cacheDel_def cacheClearPrefix_def cacheExpire_def
      cachePersist_def cacheIncr_def cacheDecr_def cacheCas_def)

lemma read_run: "read_hook m c = (case m c of (r, c') \<Rightarrow> (map_sum id (\<lambda>a. (a, no_effects)) r, c'))"
  by (cases "m c"; cases "fst (m c)") (auto simp: read_hook_def andThen_def untold_def returns_def)

lemma with_read: "with_kv (read_hook m) s = (case with_kv m s of (r, s') \<Rightarrow> (map_sum id (\<lambda>a. (a, no_effects)) r, s'))"
  by (simp add: with_kv_def read_run split: prod.split)

lemma embedded_read: "\<not> mutating call \<Longrightarrow> embedded_call ev call s =
    (case with_kv (call_hook (ev_now ev) call) s of (r, s') \<Rightarrow> (map_sum id fst r, s'))"
  by (cases call) (simp_all add: giving_def with_encoded with_read facade_get_def facade_mget_def facade_ttl_def sum.map_comp comp_def id_def
      split: prod.split)

definition capital_words :: "(string \<Rightarrow> string) \<Rightarrow> bool" where
  "capital_words up \<longleftrightarrow> (\<forall>w. list_all (\<lambda>c. 65 \<le> byte c \<and> byte c \<le> 90) w \<longrightarrow> up w = w)"

lemma call_words: "capital_words up \<Longrightarrow> up (hd (call_args call)) = hd (call_args call)" "capital_words up \<Longrightarrow> up ''PX'' = ''PX''"
  by (cases call; simp add: capital_words_def byte_def) (simp add: capital_words_def byte_def)

lemma px_back: "capital_words up \<Longrightarrow> pred_option ms_fits t \<Longrightarrow>
    parsePx up (case t of None \<Rightarrow> [] | Some n \<Rightarrow> [''PX'', number_text n]) = Inr t"
  using call_words(2) [of up] by (cases t) (auto simp: parsePx_def ms_fits_def number_text_def parse_ms)

lemma check_passed: "f s = Inr a \<Longrightarrow> andThen (check f) g s = g a s"
  by (simp add: check_def andThen_def)

lemma value_back: "value_fits v \<Longrightarrow> parseJsonValue (json_text v) = Inr v"
  by (simp add: value_fits_def parseJsonValue_def JSON_parse_text)

lemma encoded_then: "encoded_result f (andThen m g) = andThen m (\<lambda>a. encoded_result f (g a))"
  by (simp add: fun_eq_iff encoded_result_def andThen_def split: prod.split sum.split)

lemma encoded_told: "encoded_result f (told a op evs) = told (f a) op evs" "encoded_result f (untold a) = untold (f a)"
    "encoded_result f (if b then m else m') = (if b then encoded_result f m else encoded_result f m')"
    "encoded_result f (read_hook q) = andThen q (\<lambda>a. untold (f a))"
  by (simp_all add: fun_eq_iff encoded_result_def told_def untold_def read_hook_def andThen_def returns_def split: prod.split sum.split)

lemma told_announce: "announce r op evs = told r op evs" "quiet r = untold r"
  by (simp_all add: announce_def told_def quiet_def untold_def)

lemmas command_run = fun_eq_iff check_passed requireArgs_def encoded_then encoded_told told_announce value_back

lemma run_set: "capital_words up \<Longrightarrow> call_values_fit (Set k v t) \<Longrightarrow>
    cmd_set up now (tl (call_args (Set k v t))) = encoded_result (call_reply (Set k v t)) (call_hook now (Set k v t))"
  using px_back [of up t] by (cases t) (simp_all add: command_run cmd_set_def hook_set_def)

lemma run_get: "cmd_get now [k] = encoded_result (call_reply (Get k)) (call_hook now (Get k))"
    "cmd_ttl now [k] = encoded_result (call_reply (Ttl k)) (call_hook now (Ttl k))"
  by (simp_all add: command_run cmd_get_def cmd_ttl_def int_reply_def)

lemma run_del: "cmd_del now [k] = encoded_result (call_reply (Del k)) (call_hook now (Del k))"
    "cmd_clear [p] = encoded_result (call_reply (ClearPrefix p)) (call_hook now (ClearPrefix p))"
    "cmd_persist now [k] = encoded_result (call_reply (Persist k)) (call_hook now (Persist k))"
    "ms_fits t \<Longrightarrow> cmd_expire now [k, number_text t] = encoded_result (call_reply (Expire k t)) (call_hook now (Expire k t))"
  subgoal by (auto simp: command_run cmd_del_def hook_del_def int_reply_def told_def untold_def no_effects_def andThen_def returns_def encoded_result_def
    split: prod.split sum.split)
  subgoal by (simp add: command_run cmd_clear_def hook_clearPrefix_def int_reply_def)
  subgoal by (simp add: command_run cmd_persist_def hook_persist_def cong: if_cong)
  subgoal by (auto simp: command_run cmd_expire_def hook_expire_def ms_fits_def number_text_def parse_ms cong: if_cong)
  done

lemma run_incr:
  assumes "plain_number x"
  shows "cmd_incr now True [k, number_text (Fin x)] = encoded_result (call_reply (Incr k (Fin x))) (call_hook now (Incr k (Fin x)))"
    and "cmd_incr now False [k, number_text (Fin x)] = encoded_result (call_reply (Decr k (Fin x))) (call_hook now (Decr k (Fin x)))"
  using parse_number [OF assms]
  by (simp_all add: command_run cmd_incr_def hook_incr_def delta_arg_def number_text_def fin_of_def)

lemma json_text_ne: "readable v \<Longrightarrow> json_text v \<noteq> []"
  using json_text_head [of v] by fastforce

lemma run_cas:
  assumes "capital_words up" "call_values_fit (Cas k x v t)"
  shows "cmd_cas up now (tl (call_args (Cas k x v t))) = encoded_result (call_reply (Cas k x v t)) (call_hook now (Cas k x v t))"
proof -
  have e: "(if (case x of None \<Rightarrow> [] | Some y \<Rightarrow> json_text y) = [] then Inr None
      else chain (JSON_parse (case x of None \<Rightarrow> [] | Some y \<Rightarrow> json_text y)) (\<lambda>x. Inr (Some x))) = Inr x"
    using assms(2) json_text_ne by (cases x) (auto simp: value_fits_def JSON_parse_text)
  have p: "parsePx up (case t of None \<Rightarrow> [] | Some n \<Rightarrow> [''PX'', number_text n]) = Inr t" using px_back [of up t] assms by simp
  show ?thesis
    using assms(2) e p by (cases t) (simp_all add: command_run cmd_cas_def hook_cas_def cong: if_cong option.case_cong)
qed

lemma entries_back: "\<forall>(k, v) \<in> set es. value_fits v \<Longrightarrow>
    mset_entries (concat (map (\<lambda>(k, v). [k, json_text v]) es)) = Inr (map (\<lambda>(k, v). \<lparr>b_key = k, b_value = v, b_ttlMs = None\<rparr>) es)"
  by (induction es) (auto simp: value_back)

lemma map_each_result: "map_each (\<lambda>e. andThen (m e) (\<lambda>x. returns (f (h e x)))) es = giving (map f) (map_each (\<lambda>e. andThen (m e) (\<lambda>x. returns (h e x))) es)"
proof (induction es)
  case (Cons e es)
  then show ?case by (auto simp: fun_eq_iff giving_def andThen_def returns_def split: prod.split sum.split)
qed (simp add: fun_eq_iff giving_def returns_def)

lemma run_mset:
  assumes "call_values_fit (Mset es)"
  shows "cmd_mset now (tl (call_args (Mset es))) = encoded_result (call_reply (Mset es)) (call_hook now (Mset es))"
proof -
  let ?bs = "map (\<lambda>(k, v). \<lparr>b_key = k, b_value = v, b_ttlMs = None\<rparr>) es" and ?as = "concat (map (\<lambda>(k, v). [k, json_text v]) es)"
  have "even (length ?as)" by (induction es) auto
  moreover have "?as \<noteq> []" using assms by (cases es) auto
  ultimately have n: "even (length ?as)" "?as \<noteq> []" by blast+
  have l: "map_each (\<lambda>e. andThen (aofExpiry now (b_key e)) (\<lambda>x. returns (b_key e, b_value e, x))) ?bs =
      giving (map (\<lambda>(e, x). (b_key e, b_value e, x))) (map_each (\<lambda>e. andThen (aofExpiry now (b_key e)) (\<lambda>x. returns (e, x))) ?bs)"
    using map_each_result [of "\<lambda>e. aofExpiry now (b_key e)" "\<lambda>(e, x). (b_key e, b_value e, x)" "\<lambda>e x. (e, x)" ?bs] by simp
  have op: "mset_op (map (\<lambda>(e, x). (b_key e, b_value e, x)) ls) = batch_op ls" if "map fst ls = ?bs" for ls
  proof -
    have "b_ttlMs (fst p) = None" if "p \<in> set ls" for p
    proof -
      have "fst p \<in> set ?bs" using that \<open>map fst ls = ?bs\<close> by (metis image_eqI set_map)
      then show ?thesis by auto
    qed
    then show ?thesis by (force simp: mset_op_def batch_op_def comp_def)
  qed
  have keys: "map_each (\<lambda>e. andThen (aofExpiry now (b_key e)) (\<lambda>x. returns (e, x))) bs c = (Inr ls, c') \<Longrightarrow> map fst ls = bs" for bs ls c c'
    by (induction bs arbitrary: ls c) (auto simp: andThen_def returns_def split: prod.splits sum.splits)
  have logged: "andThen (map_each (\<lambda>e. andThen (aofExpiry now (b_key e)) (\<lambda>x. returns (b_key e, b_value e, x))) ?bs) (\<lambda>logged. told OK (mset_op logged) evs) =
      andThen (map_each (\<lambda>e. andThen (aofExpiry now (b_key e)) (\<lambda>x. returns (e, x))) ?bs) (\<lambda>logged. told OK (batch_op logged) evs)" for evs
  proof
    fix c
    obtain r c' where m: "map_each (\<lambda>e. andThen (aofExpiry now (b_key e)) (\<lambda>x. returns (e, x))) ?bs c = (r, c')" by fastforce
    show "andThen (map_each (\<lambda>e. andThen (aofExpiry now (b_key e)) (\<lambda>x. returns (b_key e, b_value e, x))) ?bs) (\<lambda>logged. told OK (mset_op logged) evs) c =
      andThen (map_each (\<lambda>e. andThen (aofExpiry now (b_key e)) (\<lambda>x. returns (e, x))) ?bs) (\<lambda>logged. told OK (batch_op logged) evs) c"
      using m op [OF keys] by (cases r) (auto simp: l andThen_def giving_def)
  qed
  have es: "mset_entries ?as = Inr ?bs" using entries_back assms by simp
  have "cmd_mset now ?as = andThen (kv_mset now ?bs) (\<lambda>_.
      andThen (map_each (\<lambda>e. andThen (aofExpiry now (b_key e)) (\<lambda>x. returns (b_key e, b_value e, x))) ?bs)
        (\<lambda>logged. told OK (mset_op logged) (map (\<lambda>e. key_event ''set'' (b_key e)) ?bs)))"
    using n by (intro ext) (simp only: cmd_mset_def es check_passed told_announce if_False simp_thms de_Morgan_disj)
  then show ?thesis
    by (simp only: logged) (simp add: hook_mset_def encoded_then encoded_told)
qed

lemma mget_collects:
  assumes "kv_mget now ks c = (Inr vs, c')" "items_bytes (map (\<lambda>v. Some (value_reply v)) vs) d n = Inr k"
  shows "mget_items now ks n c = (Inr (map (\<lambda>v. Some (value_reply v)) vs), c')"
  using assms unfolding kv_mget_def
proof (induction ks arbitrary: c vs n)
  case (Cons key ks)
  then obtain v c1 vs1 where v: "kv_get now key c = (Inr v, c1)" and vs: "map_each (kv_get now) ks c1 = (Inr vs1, c')" "vs = v # vs1"
    by (auto simp: andThen_def returns_def split: prod.splits sum.splits)
  have same: "replyByteLength (Some (value_reply v)) 0 = replyByteLength (Some (value_reply v)) d" by (cases v) (simp_all add: value_reply_def)
  obtain m where m: "replyByteLength (Some (value_reply v)) d = Inr m" "within_frame (n + m) = Inr (n + m)"
      "items_bytes (map (\<lambda>v. Some (value_reply v)) vs1) d (n + m) = Inr k"
    using Cons.prems(2) vs(2) by (auto simp: chain_Inr within_frame_def split: if_splits)
  then have "\<not> n + m > 8 * 1024 * 1024" by (auto simp: within_frame_def DEFAULT_RESP_LIMITS_def split: if_splits)
  with Cons.IH [OF vs(1) m(3)] v m(1) same vs(2) show ?case by (simp add: andThen_def check_def returns_def)
qed (auto simp: returns_def)

lemma mget_bytes: "result_fits (AVals vs) \<Longrightarrow> \<exists>k. items_bytes (map (\<lambda>v. Some (value_reply v)) vs) 1 (length (len_text (length vs)) + 3) = Inr k"
  by (auto simp: result_fits_def chain_Inr split: if_splits)

lemma run_mget:
  assumes "kv_mget now ks c = (Inr vs, c')" "result_fits (AVals vs)"
  shows "cmd_mget now ks c = (Inr (RArray (map (\<lambda>v. Some (value_reply v)) vs), no_effects), c')"
proof -
  have "length vs = length ks" using assms(1) unfolding kv_mget_def
    by (induction ks arbitrary: c vs) (auto simp: andThen_def returns_def split: prod.splits sum.splits)
  then obtain k where "items_bytes (map (\<lambda>v. Some (value_reply v)) vs) 1 (length (len_text (length ks)) + 3) = Inr k"
    using mget_bytes [OF assms(2)] by auto
  from mget_collects [OF assms(1) this] show ?thesis by (simp add: cmd_mget_def andThen_def quiet_def returns_def)
qed

section \<open>Dispatch\<close>

lemma call_command:
  assumes "capital_words up" "call_values_fit call" "\<And>ks. call \<noteq> Mget ks"
  shows "cache_command up now (hd (call_args call)) (tl (call_args call)) = Some (encoded_result (call_reply call) (call_hook now call))"
proof (cases call)
  case (Set k v t)
  then show ?thesis using run_set assms by (simp add: cache_command_def)
next
  case (Cas k x v t)
  then show ?thesis using run_cas assms by (simp add: cache_command_def)
next
  case (Mset es)
  then show ?thesis using run_mset assms by (simp add: cache_command_def)
next
  case (Mget ks)
  then show ?thesis using assms(3) by blast
next
  case (ClearPrefix p)
  then show ?thesis using run_del(2) [of p now] by (simp add: cache_command_def)
next
  case (Incr k n)
  then show ?thesis using assms(2) run_incr by (auto simp: cache_command_def)
next
  case (Decr k n)
  then show ?thesis using assms(2) run_incr by (auto simp: cache_command_def)
next
  case (Expire k t)
  then show ?thesis using assms(2) run_del(4) by (simp add: cache_command_def)
qed (simp_all add: cache_command_def run_get run_del)

lemma mutating_words: "mutating call \<Longrightarrow> hd (call_args call) \<in> set AOF_COMMANDS" "\<not> mutating call \<Longrightarrow> hd (call_args call) \<notin> set AOF_COMMANDS"
  by (cases call; simp add: AOF_COMMANDS_def)+

lemma call_not_special: "hd (call_args call) \<notin> {''WATCH'', ''UNWATCH'', ''MULTI'', ''DISCARD'', ''EXEC'', ''SAVE'', ''LOAD''}"
  by (cases call) simp_all

lemma dispatch_plain:
  assumes "cn_queue (conn_of i s) = None"
  shows "mutating call \<Longrightarrow> cache_command (ev_up ev) (ev_now ev) (hd (call_args call)) args = Some m \<Longrightarrow>
      dispatch ev i (hd (call_args call)) args s = andThen (runCacheMutation (ev_now ev) (ev_write ev) m) answer s"
    and "\<not> mutating call \<Longrightarrow> cache_command (ev_up ev) (ev_now ev) (hd (call_args call)) args = Some m \<Longrightarrow>
      dispatch ev i (hd (call_args call)) args s = andThen (with_kv m) (\<lambda>r. answer (fst r)) s"
  using call_not_special [of call] mutating_words [of call] assms by (simp_all add: dispatch_def executeCommand_def)

lemma then_answer: "andThen m answer s = (case m s of (r, s') \<Rightarrow> (map_sum id Answer r, s'))"
    "andThen q (\<lambda>r. answer (fst r)) s = (case q s of (r, s') \<Rightarrow> (map_sum id (\<lambda>a. Answer (fst a)) r, s'))"
  by (simp_all add: andThen_def answer_def returns_def split: prod.split sum.split)

lemma dispatched:
  assumes "capital_words (ev_up ev)" "call_values_fit call" "cn_queue (conn_of i s) = None"
    and "embedded_call ev call s = (r, s')" "\<And>a. r = Inr a \<Longrightarrow> result_fits a" "\<And>ks e. call = Mget ks \<Longrightarrow> r \<noteq> Inl e"
  shows "dispatch ev i (hd (call_args call)) (tl (call_args call)) s = (map_sum id (\<lambda>a. Answer (call_reply call a)) r, s')"
proof (cases "\<exists>ks. call = Mget ks")
  case False
  note cmd = call_command [OF assms(1,2), of "ev_now ev"]
  show ?thesis
  proof (cases "mutating call")
    case True
    show ?thesis
      using dispatch_plain(1) [OF assms(3) True cmd] False assms(4)
      by (simp add: then_answer mutation_encoded embedded_mutation [OF True] sum.map_comp comp_def id_def)
  next
    case read: False
    show ?thesis
      using dispatch_plain(2) [OF assms(3) read cmd] False assms(4)
      by (auto simp: then_answer with_encoded embedded_read [OF read] sum.map_comp comp_def id_def split: prod.splits)
  qed
next
  case True
  then obtain ks where c: "call = Mget ks" ..
  obtain x c' where x: "kv_mget (ev_now ev) ks (sv_kv s) = (x, c')" by fastforce
  with assms(4) c have r: "r = map_sum id AVals x" "s' = report_expiries (s\<lparr>sv_kv := c'\<rparr>)"
    by (simp_all add: giving_def facade_mget_def with_kv_def)
  with assms(6) c obtain vs where v: "x = Inr vs" by (cases x) auto
  note vs = x [unfolded v] r(1) [unfolded v] r(2)
  have "cache_command (ev_up ev) (ev_now ev) (hd (call_args call)) ks = Some (cmd_mget (ev_now ev) ks)" by (simp add: c cache_command_def)
  from dispatch_plain(2) [OF assms(3) _ this] run_mget [OF vs(1)] assms(5) vs(2,3) show ?thesis
    by (simp add: c then_answer with_kv_def)
qed

section \<open>The answer\<close>

fun answers :: "call \<Rightarrow> result_value \<Rightarrow> bool" where
  "answers (Get k) a = (\<exists>v. a = AVal v)"
| "answers (Mget ks) a = (\<exists>vs. a = AVals vs)"
| "answers (Set k v t) a = (a = ADone)"
| "answers (Mset es) a = (a = ADone)"
| "answers (Expire k t) a = (\<exists>b. a = AFlag b)"
| "answers (Persist k) a = (\<exists>b. a = AFlag b)"
| "answers (Cas k x v t) a = (\<exists>b. a = AFlag b)"
| "answers _ a = (\<exists>x. a = ANum (Fin x))"

lemma giving_Inr: "giving f m s = (Inr a, s') \<Longrightarrow> \<exists>x. a = f x"
  by (auto simp: giving_def split: prod.splits) (metis obj_sumE map_sum.simps Inl_Inr_False Inr_inject)

lemma embedded_answers: "embedded_call ev call s = (Inr a, s') \<Longrightarrow> answers call a"
  by (cases call) (auto dest!: giving_Inr)

lemma sent_reply: "replyByteLength (Some r) 0 = Inr n \<Longrightarrow> sendable_reply (Some r) = Some r"
  by (simp add: sendable_reply_def)

lemma number_fits: "result_fits (ANum (Fin x)) \<Longrightarrow> number_reply x = RInt (Fin x)"
  by (auto simp: result_fits_def number_reply_def split: if_splits)

lemma values_back: "list_all readable (map the (filter (\<lambda>v. v \<noteq> None) vs)) \<Longrightarrow> bulk_values (map (\<lambda>v. Some (received (Some (value_reply v)))) vs) = Inr vs"
proof (induction vs)
  case (Cons v vs)
  then show ?case by (cases v) (simp_all add: value_reply_def bulk_value_def JSON_parse_text)
qed simp

lemma reply_sent:
  assumes "answers call a" "result_fits a"
  shows "sendable_reply (Some (call_reply call a)) = Some (call_reply call a)"
proof -
  have "call_reply call a = value_of_reply a" using assms number_fits by (cases call) auto
  with assms(2) show ?thesis by (auto simp: result_fits_def sent_reply)
qed

lemma answer_back:
  assumes "answers call a" "result_fits a"
  shows "chain (settled (received (Some (call_reply call a)))) (call_decode call) = Inr a"
proof (cases call)
  case (Get k)
  then obtain v where "a = AVal v" using assms(1) by auto
  with Get assms(2) show ?thesis by (cases v) (simp_all add: value_reply_def settled_def bulk_value_def JSON_parse_text result_fits_def)
next
  case (Mget ks)
  then obtain vs where "a = AVals vs" using assms(1) by auto
  with Mget assms(2) values_back show ?thesis by (simp add: settled_def result_fits_def comp_def)
qed (use assms in \<open>auto simp: settled_def OK_def expect_ok_def flag_reply_def int_reply_def is_one_def int_of_reply_def numberReply_def number_fits\<close>)

lemma error_kind: "\<exists>m. received (sendable_reply (Some (error_reply e))) = RError m"
  by (cases "replyByteLength (Some (error_reply e)) 0") (simp_all add: sendable_reply_def error_reply_def TOO_LARGE_def)

lemma error_settled: "settled (received (sendable_reply (Some (error_reply e)))) = Inl (over_error e)"
  using error_kind [of e] by (auto simp: over_error_def settled_def)

section \<open>The call\<close>

lemma outputs_set_conn: "silent cn = silent (conn_of i s) \<Longrightarrow> outputs s (set_conn i cn s)"
proof -
  assume e: "silent cn = silent (conn_of i s)"
  have "silent (conn_of j (set_conn i cn s)) = silent (conn_of j s)" for j by (cases "j = i") (simp_all add: e)
  then show ?thesis by (simp add: outputs_def) (simp add: set_conn_def)
qed

lemma outputs_reply: "outputs s (reply_to i r s)" "outputs s (record_command ev cmd n s)"
  using outputs_set_conn [OF silent_write] by (simp_all add: reply_to_def writeReply_def record_command_def split: prod.split) (metis snd_conv)

lemma last_reply: "listening i s \<Longrightarrow> last (cn_out (conn_of i (reply_to i r s))) = sendable_reply (Some r)"
  by (simp add: listening_def Let_def reply_to_def writeReply_def write_conn_def)

lemma embedded_outputs: "outputs s (snd (embedded_call ev call s))"
proof (cases "mutating call")
  case True
  then show ?thesis by (simp add: embedded_mutation outputs_mutation)
next
  case False
  then show ?thesis using outputs_with_kv [of s "call_hook (ev_now ev) call"] by (auto simp: embedded_read split: prod.split)
qed

lemma call_sent: "requestArgv (command_reply (call_args call)) = Inr (call_args call)"
  by (cases call) (simp_all add: requestArgv_def command_reply_def)

lemma listening_reply: "listening i (record_command ev cmd n (reply_to i r s)) = listening i s"
  using outputs_listening [OF outputs_trans [OF outputs_reply(1) outputs_reply(2)]] .

theorem remote_call:
  assumes up: "capital_words (ev_up ev)" and fits: "call_values_fit call" "encodeCommand (call_args call) = Inr frame" and l: "listening i s"
    and run: "embedded_call ev call s = (r, s0)" and res: "\<And>a. r = Inr a \<Longrightarrow> result_fits a" "\<And>ks e. call = Mget ks \<Longrightarrow> r \<noteq> Inl e"
  shows "\<exists>reply n. client_call (over_wire ev i) call s =
      (map_sum over_error id r, record_command ev (hd (call_args call)) n (reply_to i reply s0))" and "listening i s0"
proof -
  let ?cmd = "hd (call_args call)" and ?n = "length (call_args call) - 1"
  let ?reply = "case r of Inl e \<Rightarrow> error_reply e | Inr a \<Rightarrow> call_reply call a"
  have out: "outputs s s0" using embedded_outputs [of s ev call] run by simp
  show l0: "listening i s0" using outputs_listening [OF out] l by simp
  have d: "dispatch ev i ?cmd (tl (call_args call)) s = (map_sum id (\<lambda>a. Answer (call_reply call a)) r, s0)"
    by (rule dispatched [OF up fits(1) _ run res]) (use l in \<open>simp_all add: listening_def Let_def\<close>)
  have budget: "cf_maxCommandMs (sv_config s0) = 0" using l0 by (simp add: listening_def)
  let ?s1 = "record_command ev ?cmd ?n (reply_to i ?reply s0)"
  have "snd (onRequest ev i (command_reply (call_args call)) s) = ?s1"
    using l call_not_special [of call] call_words(1) [OF up, of call] budget
    by (cases r) (auto simp: onRequest_def call_sent listening_def Let_def d finish_def)
  moreover have "last (cn_out (conn_of i ?s1)) = sendable_reply (Some ?reply)"
    using last_reply [OF l0, of ?reply] by (simp add: record_command_def conn_of_def)
  ultimately have w: "over_wire ev i (call_args call) s = (settled (received (sendable_reply (Some ?reply))), ?s1)"
    using fits(2) by (simp add: over_wire_def Let_def)
  have "chain (settled (received (sendable_reply (Some ?reply)))) (call_decode call) = map_sum over_error id r"
  proof (cases r)
    case (Inl e)
    then show ?thesis by (simp add: error_settled)
  next
    case (Inr a)
    then have a: "answers call a" "result_fits a" using embedded_answers run res(1) by auto
    with Inr answer_back [OF a] reply_sent [OF a] show ?thesis by simp
  qed
  then have "client_call (over_wire ev i) call s = (map_sum over_error id r, ?s1)"
    by (simp add: client_call_fits [OF fits(1)] ask_def w)
  then show "\<exists>reply n. client_call (over_wire ev i) call s =
      (map_sum over_error id r, record_command ev ?cmd n (reply_to i reply s0))" by blast
qed

section \<open>A sample\<close>

lemma over_error_code:
  assumes "one_line (map line_safe (err_message e))" "length (wireError e) + 3 \<le> rl_maxFrameBytes DEFAULT_RESP_LIMITS"
  shows "over_error e = DbError (err_code_of e) (map line_safe (err_message e))"
proof -
  have "sendable_reply (Some (error_reply e)) = Some (error_reply e)" using assms(2) by (simp add: sendable_reply_def error_reply_def within_frame_def)
  moreover have "clean_line (wireError e) = wireError e"
    using wireError_single_line [of e] byte_inj [of _ "CHR 0x0A"] byte_inj [of _ "CHR 0x0D"]
    by (force simp: clean_line_def line_break_def byte_def intro!: map_idI)
  ultimately show ?thesis using wire_roundtrip [OF assms(1)] by (simp add: over_error_def error_reply_def settled_def)
qed

lemma sample_listening: "listening 0 (sample_server None one_cache no_log (new_conn False))"
  by (simp add: listening_def server_fields new_conn_def sample_config_def)

lemma clone_null: "cloneJsonValue default_clone_bytes JNull = Inr JNull"
  by (simp add: cloneJsonValue_Inr default_clone_bytes_def MAX_JSON_DEPTH_def MAX_JSON_NODES_def)

lemma sample_get: "fst (embedded_call (sample_env 1) (Get ''a'') (sample_server None one_cache no_log (new_conn False))) = Inr (AVal (Some JNull))"
  by (simp add: giving_def facade_get_def with_kv_def kv_get_def server_fields sample_env_fields check_def andThen_def assertKeyFits_def
      kv_lookup_def isExpired_def one_cache_def small_cache_def small_options_def prim_defs returns_def clone_null split: prod.split)

lemma sample_get_sent: "encodeCommand (call_args (Get ''a'')) = Inr (''*2'' @ CRLF @ ''$3'' @ CRLF @ ''GET'' @ CRLF @ ''$1'' @ CRLF @ ''a'' @ CRLF)"
  by (simp add: encodeCommand_def encodeReply_def command_reply_def DEFAULT_RESP_LIMITS_def within_frame_def encodeBulk_def
      len_text_def nat_text_def digits_rev_small char_of_def)

lemma sample_get_fits: "result_fits (AVal (Some JNull))"
  by (simp add: result_fits_def value_reply_def DEFAULT_RESP_LIMITS_def within_frame_def len_text_def nat_text_def digits_rev_small)

end
