(* ===== verification/Spec2Isabelle.thy ===== *)
theory Spec2Isabelle
  imports Sql_Sample Sql_Roundtrip_Stmt Json_Clone Json_Equal Errors Deque Slow_Log Pub_Sub Kv_System Resp_Stream Server_Sample Remote
begin

text \<open>
  Verification library of YASD, an embedded key-value cache and SQL store with a network
  server and a client (TypeScript, \<open>src/src\<close>).

  The program. A process holds a cache (\<open>KVCache\<close>: least recently used, bounded in entries and
  bytes, with deadlines, versions of keys and optimistic transactions) and a SQL store
  (\<open>Executor\<close>); they share nothing but the copying and comparing of JSON values. A server
  (\<open>YasdServer\<close>) puts a cache behind a line protocol (a subset of RESP), writes every change to
  an append-only log before it is visible, saves snapshots, publishes invalidations to
  subscribers, and runs queued commands of a connection as one change. A client sends commands
  and reads replies.

  How the model reads the code. A JavaScript string is the list of the bytes of its UTF-8 form, and
  so is a \<open>Buffer\<close>. A finite number is the rational it denotes, rounded to doubles where the code
  adds; a number that is still to be validated is a \<open>jsnum\<close> with NaN and the infinities. A JSON
  object is the list of its properties in \<open>Object.keys\<close> order; a \<open>Map\<close> is an association list in
  insertion order. A method is a function on its state with a result \<open>jserr + 'a\<close>: \<open>Inl\<close> is the
  value thrown, and the state is kept as it was when it was thrown. Every synchronous operation
  reads the clock once (\<open>incr\<close> twice, as in the code). Parameters stand for what is not under
  \<open>src/src\<close>: the Unicode tables behind \<open>toLowerCase\<close>, \<open>toUpperCase\<close> and \<open>localeCompare\<close>,
  \<open>path.resolve\<close>, the clock, and what the file system does with a write.

  The theories, from the bottom:

  \<^item> \<open>Prelude\<close>: errors, stateful operations (\<open>andThen\<close>, \<open>keeps\<close>), outcomes without state (\<open>chain\<close>) and
    association lists. \<open>Js_Number\<close>, \<open>Js_Text\<close>, \<open>Js_Decimal\<close>, \<open>Utf8\<close>: numbers, texts, \<open>Number(text)\<close>
    and the checks of \<open>validation.ts\<close>.
  \<^item> \<open>Json_Value\<close>, \<open>Json_Clone\<close>, \<open>Json_Equal\<close>, \<open>Json_Identity\<close> (\<open>types.ts\<close>, \<open>json.ts\<close>, \<open>value.ts\<close>,
    \<open>query-utils.ts\<close>): the text of a value, the bounded copy, the worklist comparison and the identity
    of a key, each against a recursive reference. \<open>Json_Parse\<close>, \<open>Json_Read\<close>, \<open>Json_Utf8\<close>: \<open>JSON.parse\<close>
    with fuel \<open>2 * length + 2\<close> and its round trip. \<open>Json_Prefix\<close> (\<open>json-prefix.ts\<close>): a cut-off text is
    told from a corrupt one.
  \<^item> \<open>Deque\<close>, \<open>Slow_Log\<close>, \<open>Pub_Sub\<close>, \<open>Errors\<close>, \<open>Top_K\<close>, \<open>Like\<close>: \<open>deque.ts\<close>, \<open>metrics.ts\<close>, \<open>pubsub.ts\<close>,
    \<open>errors.ts\<close> and the rest of \<open>query-utils.ts\<close>.
  \<^item> \<open>Ordered_Map\<close>, \<open>Ordered_Map_Rep\<close>, \<open>Ordered_Map_Spec\<close> (\<open>ordered-map.ts\<close>): the pointers and the undo
    journal, and the simulation of association lists with snapshots (locale \<open>tx_map\<close>).
  \<^item> \<open>Kv_Cache\<close>, \<open>Kv_Ops\<close>, \<open>Kv_Tx\<close> (\<open>cache.ts\<close>): the class \<open>KVCache\<close> and the class \<open>KVTransaction\<close>.
    \<open>Kv_Inv\<close>, \<open>Kv_Spec\<close>, \<open>Kv_Expiry\<close>, \<open>Kv_Atomic\<close>, \<open>Kv_Changes\<close>, \<open>Kv_Keys\<close>: the invariant \<open>kv_ok\<close>, what
    every operation does on every branch, atomic blocks, the differences that \<open>atomicChanges\<close> reports,
    and the keys an operation touches. \<open>Kv_System\<close>: the reachable states and the locale \<open>versioned\<close>.
  \<^item> \<open>Sql_Ast\<close>, \<open>Sql_Lexer\<close>, \<open>Sql_Parser\<close> (\<open>types.ts\<close>, \<open>parser.ts\<close>): every statement, with fuel
    \<open>4 * length + 8\<close>; \<open>Sql_Parser_Total\<close> shows that it is enough. \<open>Sql_Print\<close>, \<open>Sql_Roundtrip\<close>,
    \<open>Sql_Roundtrip_Where\<close>, \<open>Sql_Roundtrip_Stmt\<close>: a printer whose output the parser reads back.
  \<^item> \<open>Sql_Eval\<close>, \<open>Sql_Order\<close>, \<open>Sql_Store\<close>, \<open>Sql_Exec\<close>, \<open>Sql_Db\<close> (\<open>executor.ts\<close>): evaluation, tables with
    their indexes, the statements and the public interface. \<open>Sql_Inv\<close>, \<open>Sql_Rows\<close>, \<open>Sql_Scan\<close>,
    \<open>Sql_System\<close>: the invariant of the tables, index plans against full scans (locale \<open>row_source\<close>), and
    the reachable states. \<open>Sql_Sample\<close>: a concrete database.
  \<^item> \<open>Resp_Codec\<close>, \<open>Resp_Reader\<close> (\<open>protocol.ts\<close>, \<open>resp-reader.ts\<close>): the encoder and the resumable decoder.
    \<open>Resp_Machine\<close>, \<open>Resp_Delivery\<close>, \<open>Resp_Stream\<close>: chunks do not matter, memory is bounded, and every
    encoded value arrives.
  \<^item> \<open>Aof_Op\<close>, \<open>Aof_Log\<close>, \<open>Snapshot\<close> (\<open>persistence.ts\<close>): the operations of the log, opening, appending,
    replaying and rotating it, and snapshots. \<open>Aof_Recovery\<close>, \<open>Aof_Replay\<close>, \<open>Aof_Patch\<close>, \<open>Aof_Mirror\<close>,
    \<open>Aof_Order\<close>: logs as lists of records, cut-off records, and that replaying the record of a change
    makes the change again, or when it does not.
  \<^item> \<open>Server_State\<close>, \<open>Server_Save\<close>, \<open>Server_Command\<close>, \<open>Server_Cache\<close>, \<open>Server_Dispatch\<close> (\<open>server.ts\<close>): the
    state of the server, saving, loading and starting, the cache commands, the cache interface for
    callers in the process, and a request from its arguments to the written reply. \<open>Server_Facts\<close>,
    \<open>Server_Durable\<close>, \<open>Server_History\<close>, \<open>Server_Recovery\<close>: what requests leave in the file, over any
    history of requests, and what a start makes of it. \<open>Server_Tx\<close>, \<open>Server_Safety\<close>: \<open>EXEC\<close>, watched keys,
    authentication and failing commands. \<open>Server_Sample\<close>: a concrete server.
  \<^item> \<open>Client\<close> (\<open>client.ts\<close>): the typed methods. \<open>Remote\<close>: a client's call against the same operation in
    the server's process.

  The properties below are in the order of their weight: first those of the server as a whole, which
  put the parts together, then those of the SQL store, the cache, the map, the log and the
  protocol.

  Bounds. The limits are those of the code: 4 MiB of SQL text, 256 MiB of a file, 8 MiB of a frame,
  4 MiB of a value, depth 32 of arrays, the depth, node and byte limits of a JSON copy, the budget
  of \<open>LIKE\<close>, and \<open>2 ^ 53 - 1\<close> for counters. The counter of changes is the only one that can stop a
  replay; the theorems say so (\<open>exhausted\<close>).

  Not modelled. Sockets, TLS, dialling, timers, retries and the promises around them; the queues of
  snapshot and persistence promises with their limits; buffered output, its limits and the
  accounting of connections; the HTTP health endpoint, \<open>INFO\<close> and the options from the environment;
  the shutdown; the facade \<open>index.ts\<close> and the command line. Of the file system, errors other than
  the failure of an append after some bytes, of a truncation, and of a snapshot before or after its
  rename; a lock file has no contents. Of JavaScript, the depth of the stack, values that are no JSON
  trees (cycles, accessors, sparse arrays, overridden \<open>toString\<close>), lone surrogates, and in JSON texts
  numbers beyond the doubles. Messages of errors are kept without their interpolated values.
\<close>

section \<open>The server\<close>









text \<open>
  C5. EXEC is all or nothing. If any live entry of the cache differs after EXEC, then the watched keys passed their check, every queued command has succeeded (the reply has one item per command and no error), and the cache holds exactly the entries that running the queue, command by command, leaves. So when a command of the queue fails, or the reply grows too large, or the record of the changes cannot be written, no live entry has changed.
\<close>

theorem exec_is_all_or_nothing:
  assumes "kv_ok (sv_kv s)" "cn_queue (conn_of i s) = Some q" "execTransaction ev i s = (r, s')"
    and "live (ev_now ev) k (sv_kv s') \<noteq> live (ev_now ev) k (sv_kv s)"
  shows "\<exists>sx c items c2 w ef.
    versions_unchanged (ev_now ev) (case cn_watch (conn_of i s) of None \<Rightarrow> [] | Some ws \<Rightarrow> ws) (sv_kv s) = (Inr True, c) \<and>
    sv_kv sx = c\<lparr>kv_events := []\<rparr> \<and> r = Inr (Answer (RArray items)) \<and> list_all (\<lambda>it. \<not> is_error it) items \<and>
    length items = length q \<and> exec_body ev q ((sx, []), opened_changes (sv_kv sx)) = (Inr ef, (w, c2)) \<and>
    entries (sv_kv s') = entries c2"
  by (rule exec_applied [OF assms]) blast

theorem exec_is_all_or_nothing_witness:
  "\<exists>r. fst (execTransaction (sample_env 1) 0 queued_server) = Inr (Answer (RArray r)) \<and> list_all (\<lambda>it. \<not> is_error it) r \<and> length r = 1"
proof -
  have "live (ev_now (sample_env 1)) ''a'' (sv_kv (snd (execTransaction (sample_env 1) 0 queued_server))) \<noteq>
      live (ev_now (sample_env 1)) ''a'' (sv_kv queued_server)"
    using queued_run(2,3) by (simp add: queued_server_def server_fields sample_env_fields)
  from exec_is_all_or_nothing [OF _ _ prod.collapse [symmetric] this] one_cache_ok
  show ?thesis by (auto simp: queued_server_def server_fields)
qed



text \<open>
  C7. With the log on, a command that fails has not happened. When a command that changes the cache throws, for whatever reason (a bad argument, a limit, a value of the wrong type, the writing of its record), the cache is exactly as before: entries and their order, deadlines, versions and counters. The log is as before too, unless the write of the record is what failed: then the client is told AOF_WRITE_FAILED and the server reports itself as degraded.
\<close>

theorem failed_mutation_changes_nothing:
  assumes "kv_ok (sv_kv s)" "aof_enabled s" "cache_command up now cmd args = Some m" "runCacheMutation now flt m s = (Inl e, s')"
  shows "same_cache (sv_kv s) (sv_kv s') \<and>
    (sv_aof s' = sv_aof s \<or> (e = AOF_WRITE_FAILED \<and> sv_degraded s' \<and> sv_lastError s' = Some ''AOF_WRITE_FAILED''))"
  by (rule failed_mutation [OF assms(1) steady_command [OF assms(3)] assms(2,4)])

theorem failed_mutation_changes_nothing_witness:
  "same_cache one_cache (sv_kv (snd (runCacheMutation 1 None (cmd_incr 1 True [''a'']) logging_server)))"
proof -
  have "aof_enabled logging_server" by (simp add: logging_server_def server_fields aof_enabled_def opened_def)
  moreover have "cache_command id 1 ''INCR'' [''a''] = Some (cmd_incr 1 True [''a''])" by (simp add: cache_command_def)
  ultimately show ?thesis
    using failed_mutation_changes_nothing [OF _ _ _ failed_incr] one_cache_ok unfolding failed_incr
    by (simp add: logging_server_def server_fields)
qed

text \<open>
  C8. Without the password a connection gets replies and nothing else. On a server with a password, a connection that has not authenticated sends any requests, none of them AUTH with the password. Then the cache, the log, the channels, the configuration and every other connection are as before, and of the connection itself only the replies written to it, and whether it is closed, have changed: it is still not authenticated.
\<close>

theorem unauthenticated_changes_nothing:
  assumes "cf_password (sv_config s) = Some p" "\<not> cn_authed (conn_of i s)" "cn_queue (conn_of i s) = None"
    and "list_all (\<lambda>q. fst (snd q) = i \<and> no_login p q) reqs"
  shows "only_output i s (serve reqs s)"
  using assms by (rule locked_history)

theorem unauthenticated_changes_nothing_witness:
  "only_output 0 (sample_server (Some ''secret'') one_cache no_log (new_conn True))
     (serve [(sample_env 1, 0, command_reply [''AUTH'', ''guess'']), (sample_env 2, 0, command_reply [''DEL'', ''a''])]
       (sample_server (Some ''secret'') one_cache no_log (new_conn True)))"
  by (rule unauthenticated_changes_nothing [where p = "''secret''"])
    (simp_all add: server_fields sample_config_def new_conn_def no_login_def request_command sample_env_fields)

text \<open>
  C9. Inside MULTI nothing runs. While a connection has an open queue, no request of it, valid or not, changes the cache or the log, EXEC apart.
\<close>

theorem queued_commands_wait:
  assumes "cn_queue (conn_of i s) \<noteq> None" "\<And>argv. requestArgv request = Inr argv \<Longrightarrow> ev_up ev (hd argv) \<noteq> ''EXEC''"
  shows "sv_kv (snd (onRequest ev i request s)) = sv_kv s \<and> sv_aof (snd (onRequest ev i request s)) = sv_aof s"
  using queued_request [OF assms] by (simp add: core_def)

theorem queued_commands_wait_witness:
  "sv_kv (snd (onRequest (sample_env 1) 0 (command_reply [''CLEAR'', ''a'']) queued_server)) = one_cache"
  using queued_commands_wait [of 0 queued_server "command_reply [''CLEAR'', ''a'']" "sample_env 1"]
  by (simp add: queued_server_def server_fields request_command sample_env_fields)

section \<open>SQL executor\<close>

text \<open>
  C10. In every state the executor can reach, every table keeps its invariant: rows are ordered by id below the next id, the primary index maps the identity of every key to its row and nothing else, every column index lists exactly the rows with each value, the byte counts are those of the rows, and the totals are the sums over the tables.
\<close>

theorem sql_state_invariant:
  assumes "sql_reach x"
  shows "distinct_keys (ex_tables x) \<and>
    (\<forall>n t. the_table x n = Some t \<longrightarrow>
      ids_ok (t_rows t) (t_next t) \<and> bytes_ok (t_rows t) (t_bytes t) \<and>
      primary_part {} (t_pk t) (t_rows t) (t_primary t) \<and> index_ok (t_rows t) t) \<and>
    ex_rows x = al_sum (\<lambda>t. int (length (t_rows t))) (ex_tables x) \<and>
    ex_bytes x = al_sum (\<lambda>t. rows_bytes (t_rows t)) (ex_tables x)"
proof -
  have "db_ok x" using sql_reach_ok [OF assms] by (simp add: executor_ok_def)
  then show ?thesis unfolding db_ok_def table_part_def by blast
qed

theorem sql_state_invariant_witness: "index_ok (t_rows sample_table) sample_table"
  using sql_state_invariant [OF sample_reach] sample_db_table by blast

text \<open>
  C11. A \<open>SELECT\<close> answers what the reference answers, whichever way it scans: all rows accepted by the clause, sorted by the comparator, without the first \<open>OFFSET\<close> and at most \<open>LIMIT\<close> of them, then projected. The premises are that the columns exist, that no \<open>LIKE\<close> meets its work limit and, under \<open>ORDER BY\<close>, that the collation is a total preorder.
\<close>

theorem select_answers_the_reference:
  assumes "sql_reach x" "the_table x (s_table s) = Some t"
    and "validateSelectReferences t (s_columns s) (s_order s) (s_where s) = Inr u"
    and "evaluates il (s_where s) (t_rows t)" "s_order s \<noteq> None \<Longrightarrow> collates il"
  shows "fst (executeSelect il s x) = finish_select (ex_limits x) t (s_columns s)
    (take (select_take (ex_limits x) (s_limit s)) (drop (case s_offset s of Some n \<Rightarrow> n | None \<Rightarrow> 0)
       (sort_by (select_cmp il (s_order s)) (filter (accepted il (s_where s)) (t_rows t)))))"
  using executeSelect_spec [OF _ assms(2-5)] sql_reach_ok [OF assms(1)]
  by (simp add: executor_ok_def select_spec_def)

theorem select_answers_the_reference_witness:
  "fst (executeSelect sample_intl \<lparr>s_columns = None, s_table = ''t'', s_where = None, s_order = None,
      s_limit = Some 1, s_offset = Some 1\<rparr> sample_db) =
   Inr \<lparr>q_columns = [''id'', ''on''], q_rows = [[(''id'', JStr ''a''), (''on'', JNull)]], q_affected = None\<rparr>"
proof -
  let ?s = "\<lparr>s_columns = None, s_table = ''t'', s_where = None, s_order = None, s_limit = Some 1, s_offset = Some 1\<rparr>"
  have "accepted sample_intl None p" for p by (simp add: accepted_def row_matches_def)
  then have rows: "filter (accepted sample_intl None) (t_rows sample_table) = t_rows sample_table" by simp
  have clone: "cloneJsonValue default_clone_bytes (JStr ''a'') = Inr (JStr ''a'')"
    "cloneJsonValue default_clone_bytes JNull = Inr JNull"
    by (simp_all add: cloneJsonValue_Inr default_clone_bytes_def MAX_JSON_DEPTH_def MAX_JSON_NODES_def quote_text_def quote_char_def)
  have sorted: "sort_by (select_cmp sample_intl None) (t_rows sample_table) = t_rows sample_table"
    by (simp add: sample_table_def select_cmp_def sort_by_def)
  have picked: "take 1 (drop 1 (t_rows sample_table)) = [(1, [(''id'', JStr ''a''), (''on'', JNull)])]"
    by (simp add: sample_table_def)
  have fin: "finish_select (ex_limits sample_db) sample_table None [(1, [(''id'', JStr ''a''), (''on'', JNull)])] =
    Inr \<lparr>q_columns = [''id'', ''on''], q_rows = [[(''id'', JStr ''a''), (''on'', JNull)]], q_affected = None\<rparr>"
    by (simp add: finish_select_def sample_db_def sample_new_def sample_table_def sample_columns_def
        column_names_def cell_bytes_def quote_text_def quote_char_def field_def clone)
  have ev: "evaluates sample_intl None (t_rows sample_table)" by (auto simp: evaluates_def row_matches_def)
  have "validateSelectReferences sample_table None None None = Inr ()"
    by (simp add: validateSelectReferences_def where_columns_ok_def)
  with select_answers_the_reference [OF sample_reach, of ?s sample_table "()" sample_intl] sample_db_table show ?thesis
    by (simp add: ev rows select_take_def sorted picked [simplified] fin [simplified])
qed

section \<open>The cache and its transactions\<close>







text \<open>
  C15. A transaction whose commit fails leaves the cache as it was: entries, order, expiry index, versions, counters and pending expiry events.
\<close>

theorem tx_failure_restores:
  assumes "kv_ok c" "watch_ok c (tx_watched t)" "tx_exec now (c, t) = (Inl e, c', t')" "\<not> exhausted c'"
  shows "same_data c c'"
  using assms by (rule tx_exec_throws)

theorem tx_failure_restores_witness:
  "same_data one_cache (fst (snd (tx_exec 7 (one_cache,
     \<lparr>tx_watched = [], tx_queue = [OpIncr ''a'' (Fin 1)], tx_done = False\<rparr>))))"
proof (rule tx_failure_restores [OF one_cache_ok])
  let ?t = "\<lparr>tx_watched = [], tx_queue = [OpIncr ''a'' (Fin 1)], tx_done = False\<rparr>"
  let ?e = "PlainError ''INCR requires a numeric value''"
  have incr: "kv_incr 7 7 ''a'' (Fin 1) (captured one_cache) = (Inl ?e, captured one_cache)"
    by (simp add: kv_incr_def incr_base_def check_def assertKeyFits_def kv_lookup_def isExpired_def
        captured_def captureState_def am_begin_def one_cache_def small_cache_def small_options_def)
  have ex: "tx_exec 7 (one_cache, ?t) = (Inl ?e,
      restoreState (kv_state one_cache) ((captured one_cache)\<lparr>kv_frames := kv_frames one_cache\<rparr>),
      ?t\<lparr>tx_done := True, tx_queue := []\<rparr>)"
    by (simp add: tx_exec_open Let_def atomic_captured apply_all_def then_result_def incr)
      (simp add: captured_def)
  then show "tx_exec 7 (one_cache, ?t) = (Inl ?e, fst (snd (tx_exec 7 (one_cache, ?t))),
      ?t\<lparr>tx_done := True, tx_queue := []\<rparr>)" by simp
  show "\<not> exhausted (fst (snd (tx_exec 7 (one_cache, ?t))))"
    by (simp add: ex exhausted_def restoreState_def) (simp add: one_cache_def small_cache_def max_safe_def)
qed (simp add: watch_ok_def)

section \<open>SQL rows, statements and texts\<close>

text \<open>
  C16. Two rows of a table never have structurally equal primary keys, in no reachable state.
\<close>

theorem sql_primary_keys_unique:
  assumes "sql_reach x" "the_table x n = Some t" "t_pk t = Some p" "(i, r) \<in> set (t_rows t)" "(j, r') \<in> set (t_rows t)"
    and "structuralEqual (field r p) (field r' p)"
  shows "i = j"
proof -
  have "table_ok t" "p \<in> set (column_names t)"
    using sql_reach_ok [OF assms(1)] assms(2,3) by (auto simp: executor_ok_def db_ok_def schema_ok_def)
  then show ?thesis by (rule primary_keys_unique [OF _ assms(3) _ assms(4-6)])
qed

theorem sql_primary_keys_unique_witness:
  "structuralEqual (field [(''id'', JStr ''b''), (''on'', JBool True)] ''id'') (field [(''id'', JStr ''b''), (''on'', JBool True)] ''id'') \<and>
   (0 :: nat) = 0"
  using sql_primary_keys_unique [OF sample_reach sample_db_table, of "''id''" 0 "[(''id'', JStr ''b''), (''on'', JBool True)]" 0]
  by (simp add: sample_table_def structuralEqual_jeq field_def)

text \<open>
  C17. The parser reads every printed statement back: for each statement the grammar can express, with identifiers that are no reserved words and numbers that are integers up to \<open>2 ^ 53\<close>, the parse of its printed text is the statement itself.
\<close>

theorem parser_reads_printed_statements:
  assumes "printable st" "length (print_sql st) \<le> max_sql_bytes"
  shows "parse_sql (print_sql st) = Inr st"
  using assms by (rule parse_print)

theorem parser_reads_printed_statements_witness:
  "parse_sql (print_sql (SDelete ''t'' (Some (WAnd (WCmp (ECol ''a'') OpEq (One (ELit (JStr ''x'')))) (WNot (WIsNull True (ECol ''b'')))))))
     = Inr (SDelete ''t'' (Some (WAnd (WCmp (ECol ''a'') OpEq (One (ELit (JStr ''x'')))) (WNot (WIsNull True (ECol ''b''))))))"
proof -
  have "ident_ok ''t''" "ident_ok ''a''" "ident_ok ''b''" by code_simp+
  then show ?thesis
    by (intro parser_reads_printed_statements)
      (simp_all add: print_sql_def where_part_def right_tokens_def token_text_def sql_quote_def escape_char_def max_sql_bytes_def)
qed

text \<open>
  C18. Every stored row has exactly the columns of its table, each with a value of the column's type; null only where the column allows it, and never in the primary key.
\<close>

theorem sql_rows_typed:
  assumes "sql_reach x" "the_table x n = Some t" "(i, r) \<in> set (t_rows t)"
  shows "distinct_keys r \<and> fst ` set r = c_name ` set (t_columns t) \<and>
    (\<forall>d \<in> set (t_columns t).
       case field r (c_name d) of
         JNull \<Rightarrow> c_nullable d \<and> t_pk t \<noteq> Some (c_name d)
       | JStr _ \<Rightarrow> c_type d \<in> {TString, TAny}
       | JNum _ \<Rightarrow> c_type d \<in> {TNumber, TAny}
       | JBool _ \<Rightarrow> c_type d \<in> {TBoolean, TAny}
       | _ \<Rightarrow> c_type d = TAny)"
proof -
  have "table_ok t" using sql_reach_ok [OF assms(1)] assms(2) by (auto simp: executor_ok_def db_ok_def)
  from table_partD(4) [OF this assms(3)] have "row_ok (t_columns t) (t_pk t) r" by simp
  then have row: "distinct_keys r" "fst ` set r = c_name ` set (t_columns t)"
    "\<forall>d \<in> set (t_columns t). value_ok d (t_pk t = Some (c_name d)) (field r (c_name d))"
    unfolding row_ok_def by blast+
  have "case v of JNull \<Rightarrow> c_nullable d \<and> \<not> pk | JStr _ \<Rightarrow> c_type d \<in> {TString, TAny}
       | JNum _ \<Rightarrow> c_type d \<in> {TNumber, TAny} | JBool _ \<Rightarrow> c_type d \<in> {TBoolean, TAny} | _ \<Rightarrow> c_type d = TAny"
    if "value_ok d pk v" for d pk v
    using that by (cases v; cases "c_type d") (simp_all add: value_ok_def)
  with row show ?thesis by blast
qed

theorem sql_rows_typed_witness: "distinct_keys [(''id'', JStr ''a''), (''on'', JNull)]"
  using sql_rows_typed [OF sample_reach sample_db_table, of 1 "[(''id'', JStr ''a''), (''on'', JNull)]"]
  by (simp add: sample_table_def)

text \<open>
  C19. An \<open>UPDATE\<close> that returns has set the columns in every row the clause accepts and left all other rows and tables alone; the answer is the number of accepted rows.
\<close>

theorem update_writes_the_matching_rows:
  assumes "sql_reach x" "\<forall>p \<in> set sets. json_wf (snd p)" "executeUpdate il n sets w x = (Inr q, x')"
  shows "\<exists>t t' ws. the_table x n = Some t \<and> prepare_set il t [] sets = Inr ws \<and>
    ex_tables x' = al_set n t' (ex_tables x) \<and>
    t_rows t' = map (\<lambda>p. if accepted il w p then (fst p, set_columns ws (snd p)) else p) (t_rows t) \<and>
    q_affected q = Some (length (filter (accepted il w) (t_rows t)))"
proof -
  have "db_ok x" "stmt_ok (SUpdate n sets w)"
    using sql_reach_ok [OF assms(1)] assms(2) by (simp_all add: executor_ok_def stmt_ok_def)
  from executeUpdate_ok [OF this assms(3)] show ?thesis by (auto simp: affected_def)
qed

theorem update_writes_the_matching_rows_witness:
  "\<exists>x'. executeUpdate sample_intl ''t'' [(''on'', JBool False)] None sample_db = (Inr (affected (Suc (Suc 0))), x') \<and>
     (\<exists>t'. the_table x' ''t'' = Some t' \<and>
        t_rows t' = [(0, [(''id'', JStr ''b''), (''on'', JBool False)]), (1, [(''id'', JStr ''a''), (''on'', JBool False)])])"
proof -
  let ?u = "executeUpdate sample_intl ''t'' [(''on'', JBool False)] None sample_db"
  have "fst ?u = Inr (affected (Suc (Suc 0)))"
    by (simp add: executeUpdate_def with_table_def sample_db_def sample_table_def sample_new_def sample_columns_def
        stage_update_def where_columns_ok_def prepare_set.simps coerceWriteValue_def matching_def rows_at_def
        candidate_ids_def planIndexLookup_def row_matches_def changes_pk_def checkCapacity_def update_delta_def
        set_columns_def row_size_def quote_text_def quote_char_def bytes_of_def List.map_filter_simps)
  then obtain x' where u: "?u = (Inr (affected (Suc (Suc 0))), x')" by (cases ?u) auto
  have all: "accepted sample_intl None p" for p by (simp add: accepted_def row_matches_def)
  have ws: "prepare_set sample_intl sample_table [] [(''on'', JBool False)] = Inr [(''on'', JBool False)]"
    by (simp add: sample_table_def sample_columns_def coerceWriteValue_def)
  from update_writes_the_matching_rows [OF sample_reach _ u] sample_db_table u ws show ?thesis
    by (auto simp: all sample_table_def set_columns_def sample_db_def)
qed

text \<open>
  C20. A \<open>DELETE\<close> that returns has removed exactly the rows the clause accepts, in a single table, and answers their number.
\<close>

theorem delete_removes_the_matching_rows:
  assumes "sql_reach x" "executeDelete il n w x = (Inr q, x')"
  shows "\<exists>t t'. the_table x n = Some t \<and> ex_tables x' = al_set n t' (ex_tables x) \<and>
    t_rows t' = filter (\<lambda>p. \<not> accepted il w p) (t_rows t) \<and>
    q_affected q = Some (length (filter (accepted il w) (t_rows t)))"
proof -
  have "db_ok x" using sql_reach_ok [OF assms(1)] by (simp add: executor_ok_def)
  from executeDelete_ok [OF this assms(2)] show ?thesis by (auto simp: affected_def)
qed

theorem delete_removes_the_matching_rows_witness:
  "\<exists>x' t'. executeDelete sample_intl ''t'' None sample_db = (Inr (affected (Suc (Suc 0))), x') \<and>
     the_table x' ''t'' = Some t' \<and> t_rows t' = []"
proof -
  let ?d = "executeDelete sample_intl ''t'' None sample_db"
  have "fst ?d = Inr (affected (Suc (Suc 0)))"
    by (simp add: executeDelete_def with_table_def sample_db_def sample_table_def sample_new_def stage_delete_def
        where_columns_ok_def matching_def rows_at_def candidate_ids_def planIndexLookup_def row_matches_def
        List.map_filter_simps split: prod.splits)
  then obtain x' where d: "?d = (Inr (affected (Suc (Suc 0))), x')" by (cases ?d) auto
  have all: "accepted sample_intl None p" for p by (simp add: accepted_def row_matches_def)
  from delete_removes_the_matching_rows [OF sample_reach d] d show ?thesis
    by (auto simp: all sample_db_def)
qed

text \<open>
  C21. A statement that throws, for whatever reason, leaves the tables, the totals, the prepared statements and the slow log as they were; only the count of examined rows may differ.
\<close>

theorem failed_statement_changes_nothing:
  assumes "fst (executeStatement il s x) = Inl e"
  shows "snd (executeStatement il s x) = x\<lparr>ex_examined := ex_examined (snd (executeStatement il s x))\<rparr>"
  using statement_throws [of il s x e] assms by (cases "executeStatement il s x") (simp add: same_db_def)

theorem failed_statement_changes_nothing_witness:
  "\<exists>e. fst (executeStatement sample_intl sample_insert sample_db) = Inl e \<and>
     ex_tables (snd (executeStatement sample_intl sample_insert sample_db)) = ex_tables sample_db"
proof -
  have "\<exists>e. fst (executeStatement sample_intl sample_insert sample_db) = Inl e"
    by (simp add: executeStatement_def sample_insert_def executeInsert_def with_table_def sample_new_def sample_db_def
        sample_table_def sample_columns_def stage_insert_def prepare_row_def coerceWriteValue_def
        assertPrimaryKeyUnique_def field_def quote_text_def quote_char_def)
  then obtain e where e: "fst (executeStatement sample_intl sample_insert sample_db) = Inl e" by blast
  from failed_statement_changes_nothing [OF e] have
    "ex_tables (snd (executeStatement sample_intl sample_insert sample_db)) =
      ex_tables (sample_db\<lparr>ex_examined := ex_examined (snd (executeStatement sample_intl sample_insert sample_db))\<rparr>)"
    by (rule arg_cong)
  with e show ?thesis by simp
qed

text \<open>
  C22. The executor never stores more rows, bytes or tables than its limits allow, and never caches more than 128 statements or 1 MiB of their text.
\<close>

theorem executor_stays_within_limits:
  assumes "sql_reach x"
  shows "ex_rows x \<le> int (l_maxRows (ex_limits x)) \<and> ex_bytes x \<le> int (l_maxBytes (ex_limits x)) \<and>
    length (ex_tables x) \<le> l_maxTables (ex_limits x) \<and>
    length (ex_statements x) \<le> 128 \<and> sum_list (map (length \<circ> fst) (ex_statements x)) \<le> 1024 * 1024"
  using sql_reach_ok [OF assms]
  by (simp add: executor_ok_def db_ok_def cache_ok_def cached_bytes_def max_prepared_def max_prepared_bytes_def)

theorem executor_stays_within_limits_witness: "ex_rows sample_db \<le> 4 \<and> length (ex_tables sample_db) \<le> 2"
  using executor_stays_within_limits [OF sample_reach] by (simp add: sample_db_def sample_new_def)

text \<open>
  C23. The parser answers on every input: its loops and its recursion never run out of fuel, so that a parse is either a \<open>PARSE_ERROR\<close> of the code or a statement, and that statement has distinct columns, a declared primary key and JSON values only.
\<close>

theorem parser_always_answers:
  "(\<exists>m. parse_sql sql = Inl (DbError PARSE_ERROR m)) \<or> (\<exists>st. parse_sql sql = Inr st \<and> stmt_ok st)"
  using parse_sql_total [of sql] by (cases "parse_sql sql") auto

section \<open>The ordered map\<close>

text \<open>
  C24. Whatever a transaction on the ordered map sets, deletes, commits or rolls back inside, rolling it back restores every entry, its value and the order of the keys: the undo journal on the linked nodes is correct.
\<close>

theorem map_rollback_restores:
  assumes "sim m A" "balanced 0 cs"
  shows "\<exists>m'. om_rollback (fold om.run_cmd cs (om_begin m)) = (Inr (), m') \<and>
     om_entries m' = om_entries m \<and> (\<forall>k. om_get k m' = om_get k m)"
  using assms by (rule om.rollback_restores)

theorem map_rollback_restores_witness:
  "\<exists>m'. om_rollback (fold om.run_cmd [MSet ''a'' (1 :: int), MBegin, MDel ''a'', MRollback, MSet ''b'' 2]
       (om_begin om_new)) = (Inr (), m') \<and> om_entries m' = om_entries om_new \<and>
     (\<forall>k. om_get k m' = om_get k om_new)"
  by (rule map_rollback_restores [OF sim_new]) simp

text \<open>
  C25. The linked nodes represent an association list in insertion order: \<open>set\<close>, \<open>delete\<close> and \<open>clear\<close> act on it as a JavaScript \<open>Map\<close> does, \<open>delete\<close> reports presence, and iteration yields the list.
\<close>

theorem map_operations_refine:
  assumes "sim m A"
  shows "sim (fst (om_set ch k v (m, w))) (am_set k v A) \<and>
    sim (fst (snd (om_delete ch k (m, w)))) (am_del k A) \<and>
    fst (om_delete ch k (m, w)) = (k \<in> fst ` set (am_list A)) \<and>
    sim (fst (om_clear ch (m, w))) (am_clear A) \<and>
    snd (om_clear ch (m, w)) = fold (\<lambda>k. ch k None) (map fst (am_list A)) w \<and>
    om_get k m = map_of (am_list A) k \<and> om_entries m = am_list A"
  by (intro conjI sim_set sim_delete sim_clear sim_get conjunct1 [OF sim_list] assms)

theorem map_operations_refine_witness:
  "om_get ''b'' (om_new :: (string, nat) omap) = map_of [] ''b''"
proof -
  have "sim (om_new :: (string, nat) omap) am_new" by (rule sim_new)
  from map_operations_refine [OF this, where ch = "\<lambda>_ _ w. w" and k = "''b''" and v = 7 and w = "()"]
  show ?thesis unfolding am_new_def by (elim conjE) simp
qed

section \<open>Operations of the cache\<close>

text \<open>
  C26. A value stored by \<open>set\<close> is the value \<open>get\<close> finds at any later time before its deadline, although the store may have evicted other keys.
\<close>

theorem set_then_get:
  assumes "kv_ok c" "1 \<le> o_maxEntries (kv_opts c)" "kv_set now key v ttlMs c = (Inr w, c')"
    and "resolveTTLMs now key ttlMs c = Inr ttl" "\<not> due (deadline now ttl) later" "now \<le> later"
    and "kv_get later key c' = (Inr r, c'')"
  shows "r = Some v"
proof -
  obtain e where e: "live later key c' = Some e" "e_value e = v"
    using set_then_live [OF assms(1-6)] by blast
  have "kv_ok c'" using set_result [OF assms(1,3)] by blast
  from wp_result [OF kv_get_wp [OF this] assms(7)] e show ?thesis by simp
qed

theorem set_then_get_witness: "fst (kv_get 3 ''a'' one_cache) = Inr (Some JNull)"
proof -
  have l: "kv_lookup ''a'' one_cache = Some \<lparr>e_value = JNull, e_expiresAt = None, e_size = 5\<rparr>"
    by (simp add: kv_lookup_def one_cache_def small_cache_def)
  have g: "assertKeyFits ''a'' one_cache = Inr ()" by (simp only: one_cache_def small_guards)
  have opts: "1 \<le> o_maxEntries (kv_opts empty_cache)" "resolveTTLMs 0 ''a'' None empty_cache = Inr None"
    by (simp_all only: empty_cache_def small_options_entries small_guards)
  have cl: "cloneJsonValue default_clone_bytes JNull = Inr JNull"
    by (simp add: cloneJsonValue_Inr default_clone_bytes_def MAX_JSON_NODES_def)
  obtain r where get: "kv_get 3 ''a'' one_cache = (Inr r, snd (kv_get 3 ''a'' one_cache))"
    by (simp add: kv_get_def check_def g l isExpired_def cl)
  have "r = Some JNull"
    by (rule set_then_get [OF empty_cache_ok opts(1) one_cache_set opts(2) _ _ get])
      (simp_all add: deadline_def due_def)
  with get show ?thesis by (metis fst_conv)
qed

text \<open>
  C27. \<open>cas\<close> answers true exactly when the live value is structurally equal to the expected one (or both are absent). On true the new value is the newest entry, with the explicit, kept or default deadline, or is not kept when that deadline has passed; on false the live entries are untouched.
\<close>

theorem cas_compares_and_stores:
  assumes "kv_ok c" "kv_cas now key expected v ttlMs c = (Inr b, c')"
  shows "b = valuesEqual (map_option e_value (live now key c)) expected \<and>
    (b \<longrightarrow> (\<exists>t sz. cas_expiry now key ttlMs (live now key c) c = Inr t \<and> assertValueFits key v c = Inr sz \<and>
       entries c' = (if due t now then al_del key (entries c)
         else trim (kv_opts c) (al_del key (entries c) @
           [(key, \<lparr>e_value = v, e_expiresAt = t, e_size = sz\<rparr>)])))) \<and>
    (\<not> b \<longrightarrow> entries c' = (if live now key c = None then al_del key (entries c) else entries c))"
proof -
  have "cas_post c now key expected v ttlMs (live now key c) b c'"
    using wp_result [OF kv_cas_wp [OF assms(1)] assms(2)] by blast
  then show ?thesis unfolding cas_post_def by (cases b) simp_all
qed

theorem cas_compares_and_stores_witness:
  "\<exists>b c'. kv_cas 0 ''a'' None JNull None one_cache = (Inr b, c') \<and> \<not> b \<and> entries c' = entries one_cache"
proof -
  have live: "live 0 ''a'' one_cache = Some \<lparr>e_value = JNull, e_expiresAt = None, e_size = 5\<rparr>"
    by (simp add: live_def kv_lookup_def isExpired_def one_cache_def small_cache_def)
  have g: "assertKeyFits ''a'' one_cache = Inr ()" "assertValueFits ''a'' JNull one_cache = Inr 5"
    by (simp_all only: one_cache_def small_guards)
  have cl: "cloneJsonValue default_clone_bytes JNull = Inr JNull"
    by (simp add: cloneJsonValue_Inr default_clone_bytes_def MAX_JSON_NODES_def)
  have "kv_lookup ''a'' one_cache = Some \<lparr>e_value = JNull, e_expiresAt = None, e_size = 5\<rparr>"
    by (simp add: kv_lookup_def one_cache_def small_cache_def)
  then have r: "kv_cas 0 ''a'' None JNull None one_cache = (Inr False, one_cache)"
    by (simp add: kv_cas_def check_def g cl clone_opt_def cas_current_def isExpired_def cas_compare_def
        valuesEqual_def)
  from cas_compares_and_stores [OF one_cache_ok r] r live show ?thesis by auto
qed

section \<open>The append-only log\<close>







text \<open>
  C31. What the repair of a torn log relies on: the text of an object of texts, booleans, \<open>null\<close>, whole numbers up to $2^{53}$, arrays and objects below 256 levels parses back to that object and is not incomplete, and every proper prefix of it is incomplete and does not parse.
\<close>

theorem torn_text_is_told_from_complete:
  assumes "readable (JObj ps)" "json_depth (JObj ps) < 256" "json_text (JObj ps) = p @ q" "p \<noteq> []" "q \<noteq> []"
  shows "JSON_parse (p @ q) = Inr (JObj ps) \<and> \<not> isIncompleteJson (p @ q) \<and> isIncompleteJson p \<and> JSON_parse p = Inl SYNTAX_ERROR"
proof -
  have whole: "JSON_parse (p @ q) = Inr (JObj ps)" using JSON_parse_text [OF assms(1)] assms(3) by simp
  then have "\<not> isIncompleteJson (p @ q)" using incomplete_not_parsed [of "p @ q"] by auto
  with whole torn_object [OF assms(1,2,3,5)] show ?thesis by blast
qed

theorem torn_text_is_told_from_complete_witness:
  "\<exists>q. JSON_parse (''{'' @ q) = Inr sample_op \<and> \<not> isIncompleteJson (''{'' @ q) \<and> isIncompleteJson ''{'' \<and> JSON_parse ''{'' = Inl SYNTAX_ERROR"
proof -
  obtain ps where ps: "sample_op = JObj ps" by (simp add: sample_op_def)
  obtain q where q: "json_text sample_op = ''{'' @ q" "q \<noteq> []" by (simp add: sample_op_def)
  have "readable sample_op" "json_depth sample_op < 256" using sample_loggable [of 1] by (simp_all add: loggable_def)
  with torn_text_is_told_from_complete [of ps "''{''" q] q show ?thesis unfolding ps by blast
qed

section \<open>Query utilities\<close>

text \<open>
  C32. Feeding rows to \<open>TopK\<close> and sorting its heap gives the first \<open>k\<close> of the sorted rows, for any comparator that orders them.
\<close>

theorem topk_keeps_the_smallest:
  assumes "orders_on (set xs) cmp"
  shows "topk_sorted cmp (fold (topk_add k cmp) xs []) = take k (sort_by cmp xs)"
  using topk_is_take [OF assms, of k] by (simp add: topk_all_def)

theorem topk_keeps_the_smallest_witness:
  "topk_sorted (\<lambda>a b. a - b) (fold (topk_add 2 (\<lambda>a b. a - b)) [3, 1, 2 :: rat] []) = [1, 2]"
  using topk_keeps_the_smallest [of "[3, 1, 2 :: rat]" "\<lambda>a b. a - b" 2] by (simp add: orders_on_def sort_by_def)

text \<open>
  C33. The greedy matcher behind \<open>LIKE\<close> decides the usual reading of percent and underscore, when the text holds no percent sign and the work limit covers the product of the lengths.
\<close>

theorem like_matches_the_reference:
  assumes "PERCENT \<notin> set (code_units (lower value))"
    and "length (code_units (lower value)) * (length (code_units (lower pattern)) + 1) + length (code_units (lower pattern)) \<le> like_limit"
  shows "matchLike lower value pattern = Inr (like (code_units (lower pattern)) (code_units (lower value)))"
  unfolding matchLike_def using assms by (rule like_match_correct)

theorem like_matches_the_reference_witness: "matchLike (\<lambda>s. s) ''abcab'' ''a%b'' = Inr True"
proof -
  have u: "code_units ''abcab'' = [97, 98, 99, 97, 98]" "code_units ''a%b'' = [97, 37, 98]" by code_simp+
  have "PERCENT \<notin> set [97, 98, 99, 97, 98]" "length [97, 98, 99, 97, 98 :: nat] * (length [97, 37, 98 :: nat] + 1) + length [97, 37, 98 :: nat] \<le> like_limit"
    by (simp_all add: PERCENT_def like_limit_def)
  then have "matchLike (\<lambda>s. s) ''abcab'' ''a%b'' = Inr (like [97, 37, 98] [97, 98, 99, 97, 98])"
    using like_matches_the_reference [of "\<lambda>s. s" "''abcab''" "''a%b''", unfolded u] by blast
  then show ?thesis by (simp add: PERCENT_def UNDERSCORE_def)
qed

text \<open>
  C34. Structurally equal values have the same primary-key identity, whatever the order of their properties.
\<close>

theorem equal_values_have_one_identity:
  assumes "json_wf a" "json_wf b" "structuralEqual a b"
  shows "valueIdentity a = valueIdentity b"
  using assms by (intro identity_of_equal) (simp_all add: structuralEqual_jeq)

theorem equal_values_have_one_identity_witness:
  "valueIdentity (JObj [(''x'', JNull), (''y'', JBool True)]) = valueIdentity (JObj [(''y'', JBool True), (''x'', JNull)])"
  by (rule equal_values_have_one_identity) (simp_all add: distinct_keys_def structuralEqual_jeq)

section \<open>Values and errors\<close>

text \<open>
  C35. \<open>cloneJsonValue\<close> returns a value exactly when its depth, its number of nodes and the bytes of its JSON text are within the limits, and the value it returns is the one it was given.
\<close>

theorem clone_within_limits:
  "cloneJsonValue mb v = Inr w \<longleftrightarrow>
     w = v \<and> json_depth v \<le> MAX_JSON_DEPTH \<and> node_count v \<le> MAX_JSON_NODES \<and> length (json_text v) \<le> mb"
  by (rule cloneJsonValue_Inr)

text \<open>
  C36. An error that the server writes with \<open>wireError\<close> is read back by \<open>errorFromWire\<close> with the same code and, line ends apart, the same message, when the message holds no U+2028 or U+2029.
\<close>

theorem error_wire_roundtrip:
  "one_line (map line_safe (err_message e)) \<Longrightarrow>
     errorFromWire (wireError e) = DbError (err_code_of e) (map line_safe (err_message e))"
  by (rule wire_roundtrip)

theorem error_wire_roundtrip_witness:
  "errorFromWire (wireError (DbError TIMEOUT ''a b'')) = DbError TIMEOUT ''a b''"
  using error_wire_roundtrip [of "DbError TIMEOUT ''a b''"] by (simp add: line_safe_def byte_def)

section \<open>The wire protocol\<close>

text \<open>
  C37. Commands that are encoded and sent over a stream are the commands the server reads, however the stream is cut into chunks: decoding the chunks gives one request per command, in order, with exactly its arguments, and no byte stays behind. The premises are that the commands could be encoded, that their arguments are well-formed text, and that a frame and a chunk fit into the decoder's buffer.
\<close>

theorem commands_arrive:
  assumes "list_all2 (\<lambda>args f. encodeCommand args = Inr f) cmds fs"
    and "\<forall>args \<in> set cmds. args \<noteq> [] \<and> (\<forall>a \<in> set args. valid_utf8 a)"
    and "concat cs = concat fs"
    and "\<forall>c \<in> set cs. length c \<le> rl_maxBufferedBytes DEFAULT_RESP_LIMITS \<and>
      (\<forall>f \<in> set fs. length f + length c \<le> rl_maxBufferedBytes DEFAULT_RESP_LIMITS)"
  shows "\<exists>reqs s. push_all DEFAULT_RESP_LIMITS cs new_reader = (Inr reqs, s) \<and>
    mapO requestArgv reqs = Inr cmds \<and> bufferedBytes s = 0"
proof -
  have "list_all2 (framed DEFAULT_RESP_LIMITS) (map (\<lambda>args. Some (command_reply args)) cmds) fs"
    unfolding list.rel_map by (rule list.rel_mono_strong [OF assms(1)]) (use assms(2) command_framed in auto)
  from stream_read [OF limits_ok_default this assms(3,4)] requests_received [of cmds] assms(2)
  show ?thesis by blast
qed

theorem commands_arrive_witness:
  "\<exists>reqs s. push_all DEFAULT_RESP_LIMITS [''*1'', CRLF @ ''$4'' @ CRLF @ ''PI'', ''NG'' @ CRLF] new_reader = (Inr reqs, s) \<and>
    mapO requestArgv reqs = Inr [[''PING'']] \<and> bufferedBytes s = 0"
proof -
  have t: "len_text (Suc 0) = ''1''" "len_text (Suc (Suc (Suc (Suc 0)))) = ''4''"
    by (simp_all add: len_text_def nat_text_def digits_rev_small char_of_def)
  have "encodeCommand [''PING''] = Inr (''*1'' @ CRLF @ ''$4'' @ CRLF @ ''PING'' @ CRLF)"
    by (simp add: encodeCommand_def encodeReply_def command_reply_def DEFAULT_RESP_LIMITS_def within_frame_def t
        encodeBulk_def)
  then show ?thesis
    by (intro commands_arrive [where fs = "[''*1'' @ CRLF @ ''$4'' @ CRLF @ ''PING'' @ CRLF]"])
      (simp_all add: byte_def DEFAULT_RESP_LIMITS_def)
qed



text \<open>
  C39. The size check before encoding is exact: a reply whose size \<open>replyByteLength\<close> computes is encoded without an error into that many bytes, at most 8 MiB.
\<close>

theorem reply_size_exact:
  assumes "replyByteLength r 0 = Inr n"
  shows "\<exists>bs. encodeReply r = Inr bs \<and> length bs = n \<and> n \<le> 8 * 1024 * 1024"
  using encoded_size(1) [OF assms] replyByteLength_bound [OF assms] assms
  by (auto simp: encodeReply_def DEFAULT_RESP_LIMITS_def)

theorem reply_size_exact_witness:
  "\<exists>bs. encodeReply (Some (RBulk None)) = Inr bs \<and> length bs = 5 \<and> (5 :: nat) \<le> 8 * 1024 * 1024"
  by (rule reply_size_exact) simp

text \<open>
  C40. Whatever bytes arrive, in whatever chunks, the reader keeps its invariant: the pending bytes stay within the frame limit, an open bulk string fits into the frame and into the bulk limit, a line never outgrows its buffer, the open arrays within the depth each wait for at least one item and have room for all, and the memory it retains is bounded by the frame limit.
\<close>

theorem reader_stays_bounded:
  "reader_ok l (pushed l cs new_reader) \<and>
   retainedBytes (pushed l cs new_reader) \<le> rl_maxFrameBytes l + max 128 (rl_maxFrameBytes l)"
  using reader_ok_pushed [OF reader_ok_new] reader_ok_retained by blast

section \<open>Further theorems\<close>

text \<open>
  After \<open>set\<close> the key is the newest entry, and the entries that made room for it are exactly the shortest run of least recently used ones whose removal brings the cache within \<open>maxEntries\<close> and \<open>maxBytes\<close>.
\<close>

theorem set_evicts_oldest:
  assumes "kv_ok c" "1 \<le> o_maxEntries (kv_opts c)" "kv_set now key v ttlMs c = (Inr w, c')"
    and "resolveTTLMs now key ttlMs c = Inr ttl" "\<not> due (deadline now ttl) now"
  shows "within_limits c' \<and> (\<exists>e i. e_value e = v \<and>
     entries c' = drop i (al_del key (entries c)) @ [(key, e)] \<and>
     (\<forall>j < i. \<not> fits_list (kv_opts c) (drop j (al_del key (entries c)) @ [(key, e)])))"
proof -
  obtain sz where s: "assertValueFits key v c = Inr sz" "kv_ok c'" "kv_opts c' = kv_opts c"
    "entries c' = trim (kv_opts c) (al_del key (entries c) @
       [(key, \<lparr>e_value = v, e_expiresAt = deadline now ttl, e_size = sz\<rparr>)])"
    using set_result [OF assms(1,3)] assms(4,5) by (metis sum.inject(2))
  let ?e = "\<lparr>e_value = v, e_expiresAt = deadline now ttl, e_size = sz\<rparr>"
  have single: "fits_list (kv_opts c) [(key, ?e)]"
    using s(1) assms(2) by (auto simp: fits_list_def assertValueFits_Inr)
  obtain i where "entries c' = drop i (al_del key (entries c)) @ [(key, ?e)]"
    "\<forall>j < i. \<not> fits_list (kv_opts c) (drop j (al_del key (entries c)) @ [(key, ?e)])"
    using trim_append_last [OF single] s(4) by metis
  moreover have "within_limits c'"
    using within_limits_fits [OF s(2)] s(3,4) trim_fits by simp
  ultimately show ?thesis by (intro conjI exI [of _ ?e] exI [of _ i]) simp_all
qed

theorem set_evicts_oldest_witness: "within_limits one_cache"
proof -
  have opts: "1 \<le> o_maxEntries (kv_opts empty_cache)" "resolveTTLMs 0 ''a'' None empty_cache = Inr None"
    by (simp_all only: empty_cache_def small_options_entries small_guards)
  have d: "\<not> due (deadline 0 None) 0" by (simp add: deadline_def due_def)
  from conjunct1 [OF set_evicts_oldest [OF empty_cache_ok opts(1) one_cache_set opts(2) d]] show ?thesis .
qed

text \<open>
  \<open>incr\<close> returns the rounded sum of the delta and the live number, or of the delta and zero when the key is absent or expired, and stores it with the deadline of the entry it replaces, provided the entry does not expire between the two clock readings.
\<close>

theorem incr_adds_and_keeps_deadline:
  assumes "kv_ok c" "steady now later key c" "kv_incr now later key delta c = (Inr r, c')"
  shows "\<exists>d base t sz. delta = Fin d \<and> base_of (live now key c) = Some (base, t) \<and> js_add base d = Fin r \<and>
     entries c' = trim (kv_opts c) (al_del key (entries c) @
       [(key, \<lparr>e_value = JNum r, e_expiresAt = t, e_size = sz\<rparr>)])"
  using wp_result [OF kv_incr_wp [OF assms(1,2)] assms(3)] by blast

theorem incr_adds_and_keeps_deadline_witness:
  "\<exists>r c' d base t. kv_incr 9 9 ''k'' (Fin 1) counter_cache = (Inr r, c') \<and>
     base_of (live 9 ''k'' counter_cache) = Some (base, t) \<and> js_add base d = Fin r \<and> t = Some 10"
proof -
  have live: "base_of (live 9 ''k'' counter_cache) = Some (1, Some 10)"
    by (simp add: base_of_def live_def kv_lookup_def isExpired_def counter_cache_def small_cache_def)
  obtain r c' where r: "kv_incr 9 9 ''k'' (Fin 1) counter_cache = (Inr r, c')"
    using counter_incr by blast
  from incr_adds_and_keeps_deadline [OF counter_cache_ok _ r] r live show ?thesis
    by (auto simp: steady_def)
qed

text \<open>
  An entry that is live at the first clock reading of \<open>incr\<close> and expired at the second is overwritten without giving back its bytes: the count then exceeds the sum of the sizes and the invariant is broken.
\<close>

theorem incr_loses_bytes:
  "kv_ok counter_cache \<and> kv_incr 9 10 ''k'' (Fin 1) counter_cache = (Inr 2, leaked_cache) \<and>
   cs_bytes (kv_state leaked_cache) = 4 \<and> al_sum e_size (entries leaked_cache) = 2 \<and> \<not> kv_ok leaked_cache"
  using counter_cache_ok counter_leak leaked_cache_bad by (simp add: leaked_cache_def small_cache_def)

text \<open>
  A full sweep removes exactly the entries whose deadline has passed, keeps the order of the others and returns how many it removed.
\<close>

theorem sweep_removes_expired:
  assumes "kv_ok c" "kv_sweep now c = (Inr n, c')"
  shows "entries c' = filter (\<lambda>p. \<not> isExpired (snd p) now) (entries c) \<and> n + length (entries c') = length (entries c)"
  using wp_result [OF kv_sweep_wp [OF assms(1)] assms(2)] by blast

theorem sweep_removes_expired_witness:
  "entries one_cache = filter (\<lambda>p. \<not> isExpired (snd p) 3) (entries one_cache)"
proof -
  have "kv_sweep 3 one_cache = (Inr 0, one_cache)"
    by (simp add: kv_sweep_def one_cache_def small_cache_def)
  from conjunct1 [OF sweep_removes_expired [OF one_cache_ok this]] show ?thesis .
qed

text \<open>
  A tick of the background sweeper removes only entries whose deadline has passed, whichever keys its possibly stale cursor yields.
\<close>

theorem sweeper_removes_only_expired:
  assumes "kv_ok c" "kv_sweepBudget now maxKeys maxMs visits c = (Inr n, c')"
    and "kv_lookup key c = Some e" "\<not> isExpired e now"
  shows "kv_lookup key c' = Some e"
proof -
  have "\<exists>k :: rat. entries c' = filter (\<lambda>p. \<not> (fst p \<in> set (take (nat \<lfloor>k\<rfloor>) visits) \<and>
      expired_in now c (fst p))) (entries c)"
    using wp_result [OF kv_sweepBudget_wp [OF assms(1), of now maxKeys maxMs visits] assms(2)] by (elim conjE exE) blast
  then obtain k :: rat where c': "entries c' = filter (\<lambda>p. \<not> (fst p \<in> set (take (nat \<lfloor>k\<rfloor>) visits) \<and>
      expired_in now c (fst p))) (entries c)" ..
  have "(key, e) \<in> set (entries c')"
    using map_of_in_set [of "entries c" key e] assms(3,4) by (simp add: c' expired_in_def lookup_entries)
  moreover have "distinct_keys (entries c')"
    using kv_ok_distinct [OF assms(1)] by (simp add: c' distinct_keys_def distinct_map_filter)
  ultimately show ?thesis by (simp add: lookup_entries map_of_distinct_in)
qed

theorem sweeper_removes_only_expired_witness:
  "kv_lookup ''a'' one_cache = Some \<lparr>e_value = JNull, e_expiresAt = None, e_size = 5\<rparr>"
proof (rule sweeper_removes_only_expired [OF one_cache_ok])
  show "kv_sweepBudget 3 (Fin 1) (Fin 2) [''a''] one_cache = (Inr 0, one_cache)"
    by (simp add: kv_sweepBudget_def check_def validatePositiveSafeInteger_def validateSafeInteger_def
        is_safe_integer_def validateNonNegativeNumber_def max_safe_def budget_key_def kv_lookup_def one_cache_def
        small_cache_def)
qed (simp_all add: kv_lookup_def isExpired_def one_cache_def small_cache_def)

text \<open>
  The generations kept for deleted keys do not grow without bound: after every bump at most \<open>2 * maxEntries + 1024\<close> are kept.
\<close>

theorem versions_bounded:
  assumes "kv_ok c" "bumpVersion key c = (Inr u, c')" "kv_size c \<le> o_maxEntries (kv_opts c) + 1"
  shows "length (am_list (kv_versions c')) \<le> o_maxEntries (kv_opts c) * 2 + 1024"
  using assms by (rule bump_versions_bounded)

theorem versions_bounded_witness:
  "length (am_list (kv_versions (snd (bumpVersion ''z'' empty_cache)))) \<le> 8 * 2 + 1024"
proof -
  have r: "bumpVersion ''z'' empty_cache = (Inr (), snd (bumpVersion ''z'' empty_cache))"
    by (simp add: bumpVersion_def empty_cache_def small_cache_def max_safe_def Let_def)
  from versions_bounded [OF empty_cache_ok r] show ?thesis
    by (simp add: kv_size_def empty_cache_def small_cache_def small_options_def)
qed

text \<open>
  The worklist of \<open>structuralEqual\<close> ends and decides an equivalence on JSON values: reflexive, symmetric and transitive, blind to the order of object keys.
\<close>

theorem structural_equality_is_equivalence:
  assumes "json_wf a" "json_wf b" "json_wf c"
  shows "structuralEqual a a \<and> (structuralEqual a b = structuralEqual b a) \<and>
    (structuralEqual a b \<and> structuralEqual b c \<longrightarrow> structuralEqual a c)"
  unfolding structuralEqual_jeq using jeq_refl jeq_sym jeq_trans assms by blast

theorem structural_equality_is_equivalence_witness:
  "structuralEqual (JObj [(''x'', JNull), (''y'', JNum 1)]) (JObj [(''y'', JNum 1), (''x'', JNull)]) =
   structuralEqual (JObj [(''y'', JNum 1), (''x'', JNull)]) (JObj [(''x'', JNull), (''y'', JNum 1)])"
  using structural_equality_is_equivalence [of "JObj [(''x'', JNull), (''y'', JNum 1)]"
      "JObj [(''y'', JNum 1), (''x'', JNull)]" JNull]
  by (simp add: distinct_keys_def)

text \<open>
  With U+2028 in the message the round trip fails: the code is lost and the client sees \<open>COMMAND_ERROR\<close>.
\<close>

theorem wire_error_line_separator:
  "err_code_of (errorFromWire (wireError (DbError TIMEOUT [CHR 0xE2, CHR 0x80, CHR 0xA8]))) = COMMAND_ERROR"
  by code_simp

text \<open>
  The deque hands its elements out in the order they were pushed, and keeps the rest.
\<close>

theorem deque_is_fifo:
  assumes "deque_ok d" "dq_abs d = []" "n \<le> length xs"
  shows "fst (dq.deq_n n (dq.enq_all (xs @ ys) d)) = take n xs"
  using assms by (rule dq.fifo_order)

theorem deque_is_fifo_witness: "fst (dq.deq_n 2 (dq.enq_all ([1 :: nat, 2] @ [3]) new_deque)) = [1, 2]"
  using deque_is_fifo [of new_deque 2 "[1 :: nat, 2]" "[3]"] by (simp add: new_deque_ok)

text \<open>
  The slow log lists the operations at least as slow as the threshold, newest first, and never more than its cap.
\<close>

theorem slow_log_newest_first:
  assumes "slow_ok s"
  shows "of_nat (slow_size (snd (slow_record name d argc at' now s))) \<le> sl_cap s \<and>
    slow_list (snd (slow_record name d argc at' now s)) =
      (if 0 < sl_threshold s \<and> js_geq d (sl_threshold s)
       then take (nat \<lfloor>sl_cap s\<rfloor>) (\<lparr>se_name = name, se_durationMs = d,
           se_at = (case at' of Some t \<Rightarrow> t | None \<Rightarrow> now), se_argc = argc\<rparr> # slow_list s)
       else slow_list s)"
proof -
  have "sl_cap (snd (slow_record name d argc at' now s)) = sl_cap s"
    by (simp add: slow_record_def Let_def)
  moreover have "of_nat (slow_size (snd (slow_record name d argc at' now s))) \<le>
      sl_cap (snd (slow_record name d argc at' now s))"
    using slow_record_ok [OF assms] unfolding slow_ok_def by blast
  ultimately show ?thesis using slow_record_list [OF assms] by (intro conjI) metis+
qed

theorem slow_log_newest_first_witness:
  "slow_list (snd (slow_record ''GET'' (Fin 7) None (Some 2) 0 \<lparr>sl_entries = [], sl_threshold = 5, sl_cap = 1\<rparr>)) =
     [\<lparr>se_name = ''GET'', se_durationMs = Fin 7, se_at = 2, se_argc = None\<rparr>]"
  using slow_log_newest_first [of "\<lparr>sl_entries = [], sl_threshold = 5, sl_cap = 1\<rparr>"
      "''GET''" "Fin 7" None "Some 2" 0]
  by (simp add: slow_ok_def slow_size_def slow_list_def)

text \<open>
  \<open>publish\<close> calls every listener subscribed when it starts once, in subscription order, whatever the listeners do to the hub or throw, and returns their number.
\<close>

theorem publish_reaches_subscribers:
  "publish call c m s =
     (length (subscribers c (fst s)), fold (\<lambda>l s. snd (call l c m s)) (subscribers c (fst s)) s)"
  by (rule publish_spec)

text \<open>
  The cache of prepared statements does not show: in every reachable state \<open>execute\<close> answers what parsing the text and running the statement answers, and a text that does not parse changes nothing but the slow log.
\<close>

theorem statement_cache_is_transparent:
  assumes "sql_reach x"
  shows "fst (execute il elapsed now sql x) =
    (case parse_sql (js_trim sql) of Inl e \<Rightarrow> Inl e | Inr st \<Rightarrow> fst (executeStatement il st x))"
proof -
  have ok: "cache_ok (ex_statements x) (ex_statementBytes x)" using sql_reach_ok [OF assms] by (simp add: executor_ok_def)
  from prepared_ok(3) [OF this, of "js_trim sql"] obtain ps b
    where p: "snd (prepared (js_trim sql) x) = x\<lparr>ex_statements := ps, ex_statementBytes := b\<rparr>" by blast
  show ?thesis
    unfolding execute_is_parse_then_run [OF assms] p by (simp add: statement_ignores_cache split: sum.split)
qed

theorem statement_cache_is_transparent_witness:
  "fst (execute sample_intl (Fin 0) 0 ''drop table t'' sample_db) =
     (case parse_sql (js_trim ''drop table t'') of Inl e \<Rightarrow> Inl e | Inr st \<Rightarrow> fst (executeStatement sample_intl st sample_db))"
  using statement_cache_is_transparent [OF sample_reach] .

text \<open>
  With a percent sign in the text the matcher is wrong: a percent sign of the pattern that meets one in the text is taken as a literal, the wildcard is lost, and \<open>'%ab' LIKE '%b'\<close> is false.
\<close>

theorem like_fails_on_percent_in_text:
  "matchLike id ''%ab'' ''%b'' = Inr False \<and> like (code_units ''%b'') (code_units ''%ab'')"
proof -
  have u: "code_units ''%ab'' = [37, 97, 98]" "code_units ''%b'' = [37, 98]" by code_simp+
  have "like_loop (Suc (Suc (Suc (Suc n)))) [37, 97, 98] [37, 98] like_start = Inr None" for n
    by (simp add: like_loop_Suc like_round_def like_start_def PERCENT_def UNDERSCORE_def)
  from this [of 999996] have "like_loop like_limit [37, 97, 98] [37, 98] like_start = Inr None" by (simp add: like_limit_def)
  then have "like_match [37, 97, 98] [37, 98] = Inr False" by (simp add: like_match_def)
  then show ?thesis unfolding matchLike_def id_apply u by (simp add: PERCENT_def UNDERSCORE_def)
qed

text \<open>
  Replay is safe for any file: whatever bytes the log holds, torn, corrupt or forged, replaying it leaves the cache consistent (limits, byte count, expiry index, versions and open blocks), and never more than a prefix of the operations is applied.
\<close>

theorem replay_keeps_the_cache_consistent:
  assumes "kv_ok c" "aof_replay now snap (a, c) = (r, (a', c'))"
  shows "kv_ok c'"
proof -
  have "kv_ok (snd (snd (aof_replay now snap (a, c))))"
  proof (cases "al_path a = None \<or> (\<exists>e. snapshot_seq snap = Inl e)")
    case True
    with assms(1) show ?thesis by (auto simp: aof_replay_def)
  next
    case False
    then obtain s where s: "snapshot_seq snap = Inr s" by (cases "snapshot_seq snap") auto
    from False s replay_loop_ok [OF assms(1), of now s _ _ 0 _ None 0 "note_seq s a"] assms(1) show ?thesis
      by (auto simp: aof_replay_def Let_def split: sum.split option.split prod.split) (metis snd_conv)
  qed
  then show ?thesis by (simp add: assms(2))
qed

theorem replay_keeps_the_cache_consistent_witness:
  "\<exists>r a' c'. aof_replay 0 None (opened ''f'' 1 Clean None (log_text [(1, sample_op)]) False, counter_cache) = (r, (a', c')) \<and> kv_ok c'"
proof -
  obtain r a' c' where run: "aof_replay 0 None (opened ''f'' 1 Clean None (log_text [(1, sample_op)]) False, counter_cache) = (r, (a', c'))"
    by (metis prod_cases3)
  with replay_keeps_the_cache_consistent [OF counter_cache_ok run] show ?thesis by blast
qed

text \<open>
  A file cut exactly behind a record, before its line end, is taken for complete: it opens as clean and writable. The record appended next then shares the line of the last one, so that, opened again, the log is corrupt: both records are lost to recovery and the log cannot be written.
\<close>

theorem record_without_line_end_corrupts_the_log:
  assumes "log_ok (rs @ [r])" "loggable (fst r + 1, op)" "length (rec_text (fst r + 1, op)) < max_record_bytes"
    and "length (log_text rs @ rec_text r @ rec_text (fst r + 1, op) @ [newline]) \<le> MAX_PERSISTENCE_FILE_BYTES"
  shows "\<exists>a a'. new_aof (Some path) (Some (log_text rs @ rec_text r)) False = Inr a \<and>
    al_recovery a = Clean \<and> al_lastSeq a = fst r \<and> aof_append op None a = (Inr (), a') \<and>
    new_aof (Some path) (al_disk a') False =
      Inr (opened path (final_seq rs) Corrupt (Some (errorMessage SYNTAX_ERROR)) (the (al_disk a')) False)"
proof -
  let ?a = "opened path (fst r) Clean None (log_text rs @ rec_text r) False"
  let ?a' = "with_record (fst r + 1) ((log_text rs @ rec_text r) @ rec_text (fst r + 1, op) @ [newline]) ?a"
  have ok: "log_ok rs" "loggable r" using assms(1) by (simp_all add: log_ok_def sorted_wrt_append)
  have "new_aof (Some path) (Some (log_text rs @ rec_text r)) False = Inr ?a"
    by (rule open_unterminated [OF assms(1)]) (use assms(4) in simp)
  moreover have "aof_append op None ?a = (Inr (), ?a')"
    using append_record(1) [of ?a path "log_text rs @ rec_text r" op] assms(2,3) by (simp add: opened_def)
  moreover note open_joined [OF ok assms(2,4), of path False]
  ultimately show ?thesis by (simp add: with_record_def opened_def)
qed

theorem record_without_line_end_corrupts_the_log_witness:
  "\<exists>a a'. new_aof (Some ''f'') (Some (log_text [] @ rec_text (1, sample_op))) False = Inr a \<and>
    al_recovery a = Clean \<and> al_lastSeq a = fst (1, sample_op) \<and> aof_append sample_op None a = (Inr (), a') \<and>
    new_aof (Some ''f'') (al_disk a') False =
      Inr (opened ''f'' (final_seq []) Corrupt (Some (errorMessage SYNTAX_ERROR)) (the (al_disk a')) False)"
proof -
  have e: "fst (1, sample_op) + 1 = (2 :: nat)" by simp
  show ?thesis
    by (rule record_without_line_end_corrupts_the_log; (unfold e)?)
      (use sample_loggable [of 1] sample_loggable [of 2] sample_length in \<open>simp_all add: max_record_bytes_def MAX_PERSISTENCE_FILE_BYTES_def\<close>)
qed

text \<open>
  A file cut inside a character of its last record is not treated as a torn tail: opening the log throws \<open>PERSISTENCE_ERROR\<close>, and the complete records before it are out of reach.
\<close>

theorem log_cut_inside_a_character_cannot_be_opened:
  assumes "log_ok rs" "\<not> valid_utf8 p" "length (log_text rs @ p) \<le> MAX_PERSISTENCE_FILE_BYTES"
  shows "new_aof (Some path) (Some (log_text rs @ p)) locked = Inl (DbError PERSISTENCE_ERROR ''invalid persistence UTF-8'')"
  by (rule open_cut_character [OF assms])

theorem log_cut_inside_a_character_cannot_be_opened_witness:
  "new_aof (Some ''f'') (Some (log_text [(1, sample_op)] @ [CHR 0x7B, CHR 0xC3])) False =
    Inl (DbError PERSISTENCE_ERROR ''invalid persistence UTF-8'')"
  by (rule log_cut_inside_a_character_cannot_be_opened)
    (use sample_loggable [of 1] sample_length in \<open>simp_all add: byte_def MAX_PERSISTENCE_FILE_BYTES_def\<close>)

end
